(* ===== verification/Prelude.thy ===== *)
theory Prelude
  imports Main "HOL-Library.Word"
begin

text \<open>
  Shared vocabulary of the development: the machine integers of the C code as words, the byte-order
  conversions of a little-endian host, reads of multi-byte integers from byte arrays, and the generic
  list and word lemmas that more than one component uses.

  The program runs on little-endian x86 Linux (the kernel headers it ships under
  \<open>src/full/openvzemu_include/asm\<close> are those of i386 and x86-64), so \<open>htons\<close> and \<open>htonl\<close>
  exchange bytes.  Wherever the source forgets such a conversion, the model forgets it too.
\<close>

unbundle bit_operations_syntax

type_synonym u8 = "8 word"
type_synonym u16 = "16 word"
type_synonym u32 = "32 word"
type_synonym u64 = "64 word"

text \<open>Simplification rules that compute (byte order, field access) and rules that are invariant steps.\<close>

named_theorems byteorder_simps
named_theorems word_nat_simps


section \<open>Byte order\<close>

definition htons :: "u16 \<Rightarrow> u16" where
  "htons x = push_bit 8 x OR drop_bit 8 x"

abbreviation ntohs :: "u16 \<Rightarrow> u16" where
  "ntohs \<equiv> htons"

definition htonl :: "u32 \<Rightarrow> u32" where
  "htonl x = push_bit 24 (take_bit 8 x) OR push_bit 16 (take_bit 8 (drop_bit 8 x)) OR
     push_bit 8 (take_bit 8 (drop_bit 16 x)) OR drop_bit 24 x"

abbreviation ntohl :: "u32 \<Rightarrow> u32" where
  "ntohl \<equiv> htonl"

definition htonll :: "u64 \<Rightarrow> u64" where
  "htonll n = push_bit 32 (ucast (htonl (ucast n))) OR ucast (htonl (ucast (drop_bit 32 n)))"

abbreviation ntohll :: "u64 \<Rightarrow> u64" where
  "ntohll \<equiv> htonll"

lemma bit_htons: "bit (htons x) n \<longleftrightarrow> n < 16 \<and> (if n < 8 then bit x (n + 8) else bit x (n - 8))"
  by (auto simp: htons_def bit_simps ac_simps dest: bit_imp_le_length)

lemma bit_htonl: "bit (htonl x) n \<longleftrightarrow>
  n < 32 \<and> bit x (if n < 8 then n + 24 else if n < 16 then n + 8 else if n < 24 then n - 8 else n - 24)"
  (is "_ = ?r")
proof (cases "n < 32")
  case True
  then consider "n < 8" | "8 \<le> n" "n < 16" | "16 \<le> n" "n < 24" | "24 \<le> n" "n < 32"
    by fastforce
  then show ?thesis
    by cases (auto simp: htonl_def bit_simps ac_simps dest: bit_imp_le_length)
next
  case False
  then show ?thesis by (auto dest: bit_imp_le_length)
qed

lemma htons_htons [simp, byteorder_simps]: "htons (htons x) = x"
  by (rule bit_word_eqI) (auto simp: bit_htons)

lemma htonl_htonl [simp, byteorder_simps]: "htonl (htonl x) = x"
  by (rule bit_word_eqI) (auto simp: bit_htonl)

lemma bit_htonll: "bit (htonll x) n \<longleftrightarrow>
  (if n < 32 then bit (htonl (ucast (drop_bit 32 x))) n else n < 64 \<and> bit (htonl (ucast x)) (n - 32))"
  by (auto simp: htonll_def bit_simps dest: bit_imp_le_length)

lemma ucast_htonll: "(ucast (htonll x) :: u32) = htonl (ucast (drop_bit 32 x))"
  by (rule bit_word_eqI) (auto simp: bit_simps bit_htonll)

lemma ucast_drop_htonll: "(ucast (drop_bit 32 (htonll x)) :: u32) = htonl (ucast x)"
  by (rule bit_word_eqI) (auto simp: bit_simps bit_htonll)

lemma htonll_htonll [simp, byteorder_simps]: "htonll (htonll x) = x"
  by (rule bit_word_eqI)
    (auto simp: bit_htonll [of "htonll x"] ucast_htonll ucast_drop_htonll bit_simps)

lemma htons_inject [simp]: "htons x = htons y \<longleftrightarrow> x = y"
  by (metis htons_htons)

lemma htonl_inject [simp]: "htonl x = htonl y \<longleftrightarrow> x = y"
  by (metis htonl_htonl)

lemma htonll_inject [simp]: "htonll x = htonll y \<longleftrightarrow> x = y"
  by (metis htonll_htonll)


section \<open>Integers in memory\<close>

text \<open>A 16-bit load of the bytes \<open>b0\<close>, \<open>b1\<close> at increasing addresses, as the host performs it.\<close>

definition le16 :: "u8 \<Rightarrow> u8 \<Rightarrow> u16" where
  "le16 b0 b1 = ucast b0 OR push_bit 8 (ucast b1)"

definition le32 :: "u8 \<Rightarrow> u8 \<Rightarrow> u8 \<Rightarrow> u8 \<Rightarrow> u32" where
  "le32 b0 b1 b2 b3 =
     ucast b0 OR push_bit 8 (ucast b1) OR push_bit 16 (ucast b2) OR push_bit 24 (ucast b3)"

definition bytes16 :: "u16 \<Rightarrow> u8 list" where
  "bytes16 x = [ucast x, ucast (drop_bit 8 x)]"

definition bytes32 :: "u32 \<Rightarrow> u8 list" where
  "bytes32 x = [ucast x, ucast (drop_bit 8 x), ucast (drop_bit 16 x), ucast (drop_bit 24 x)]"

lemma length_bytes16 [simp]: "length (bytes16 x) = 2"
  by (simp add: bytes16_def)

lemma length_bytes32 [simp]: "length (bytes32 x) = 4"
  by (simp add: bytes32_def)

lemma le16_bytes: "le16 (ucast x) (ucast (drop_bit 8 x)) = x"
  by (rule bit_word_eqI) (auto simp: le16_def bit_simps)

lemma le32_bytes:
  "le32 (ucast x) (ucast (drop_bit 8 x)) (ucast (drop_bit 16 x)) (ucast (drop_bit 24 x)) = x"
proof (rule bit_word_eqI)
  fix n
  assume "n < LENGTH(32)"
  then consider "n < 8" | "8 \<le> n" "n < 16" | "16 \<le> n" "n < 24" | "24 \<le> n" "n < 32"
    by fastforce
  then show "bit (le32 (ucast x) (ucast (drop_bit 8 x)) (ucast (drop_bit 16 x)) (ucast (drop_bit 24 x))) n
    = bit x n"
    by cases (auto simp: le32_def bit_simps)
qed

lemma bytes16_inject [simp]: "bytes16 x = bytes16 y \<longleftrightarrow> x = y"
proof
  assume "bytes16 x = bytes16 y"
  then have "le16 (bytes16 x ! 0) (bytes16 x ! 1) = le16 (bytes16 y ! 0) (bytes16 y ! 1)" by simp
  then show "x = y" unfolding bytes16_def by (simp add: le16_bytes)
qed simp

lemma bytes32_inject [simp]: "bytes32 x = bytes32 y \<longleftrightarrow> x = y"
proof
  assume "bytes32 x = bytes32 y"
  then have "le32 (bytes32 x ! 0) (bytes32 x ! 1) (bytes32 x ! 2) (bytes32 x ! 3) =
    le32 (bytes32 y ! 0) (bytes32 y ! 1) (bytes32 y ! 2) (bytes32 y ! 3)" by simp
  then show "x = y" unfolding bytes32_def by (simp add: le32_bytes)
qed simp

text \<open>Loads at an offset of a byte array; only meaningful inside the array.\<close>

definition get_u16 :: "u8 list \<Rightarrow> nat \<Rightarrow> u16" where
  "get_u16 bs i = le16 (bs ! i) (bs ! (i + 1))"

definition get_u32 :: "u8 list \<Rightarrow> nat \<Rightarrow> u32" where
  "get_u32 bs i = le32 (bs ! i) (bs ! (i + 1)) (bs ! (i + 2)) (bs ! (i + 3))"

definition bytes64 :: "u64 \<Rightarrow> u8 list" where
  "bytes64 x = bytes32 (ucast x) @ bytes32 (ucast (drop_bit 32 x))"

definition get_u64 :: "u8 list \<Rightarrow> nat \<Rightarrow> u64" where
  "get_u64 b i = ucast (get_u32 b i) OR push_bit 32 (ucast (get_u32 b (i + 4)))"


section \<open>Words and naturals\<close>

lemma unat_u8_less [word_nat_simps]: "unat (x :: u8) < 256"
  using unsigned_less [of x] by simp

lemma unat_u16_less [word_nat_simps]: "unat (x :: u16) < 65536"
  using unsigned_less [of x] by simp

lemma unat_u32_less [word_nat_simps]: "unat (x :: u32) < 4294967296"
  using unsigned_less [of x] by simp

lemma unat_not_u16 [word_nat_simps]: "unat (NOT (x :: u16)) = 65535 - unat x"
proof -
  have "NOT x = 65535 - x" by (simp add: not_eq_complement)
  moreover have "x \<le> 65535" using unat_u16_less [of x] by (simp add: word_le_nat_alt)
  ultimately show ?thesis by (simp add: unat_sub)
qed

lemma and_0xffff_u32 [word_nat_simps]: "unat ((x :: u32) AND 0xffff) = unat x mod 65536"
proof -
  have "(0xffff :: u32) = mask 16" by (simp add: mask_eq_exp_minus_1)
  then have "x AND 0xffff = take_bit 16 x" by (simp add: take_bit_eq_mask)
  then have "unat (x AND 0xffff) = take_bit 16 (unat x)" by (simp only: unsigned_take_bit_eq)
  then show ?thesis by (simp add: take_bit_eq_mod)
qed

lemma unat_drop_bit_word [word_nat_simps]: "unat (drop_bit n x) = unat x div 2 ^ n"
  using unat_drop_bit_eq [of n x] by (simp only: drop_bit_eq_div [of n "unat x"])

lemma unat_ucast_u32_u16 [word_nat_simps]: "unat (ucast (x :: u32) :: u16) = unat x mod 65536"
  by (simp add: unsigned_ucast_eq take_bit_eq_mod)

lemma unat_ucast_u16_u32 [word_nat_simps]: "unat (ucast (x :: u16) :: u32) = unat x"
  using unat_u16_less [of x] by (simp add: unsigned_ucast_eq take_bit_eq_mod)

lemma unat_ucast_u8_u32 [word_nat_simps]: "unat (ucast (x :: u8) :: u32) = unat x"
  using unat_u8_less [of x] by (simp add: unsigned_ucast_eq take_bit_eq_mod)

lemma unat_add_u32 [word_nat_simps]: "unat ((x :: u32) + y) = (unat x + unat y) mod 4294967296"
  by (simp add: unat_word_ariths)

lemma unat_minus_1_u32: "unat (- 1 :: u32) = 4294967295"
  by (simp add: unsigned_minus_1_eq_mask mask_eq_exp_minus_1)

lemma unat_of_nat_u32: "n < 4294967296 \<Longrightarrow> unat (of_nat n :: u32) = n"
  by (simp add: unat_of_nat)

lemma unat_sub_of_nat: "n \<le> unat (x :: u32) \<Longrightarrow> unat (x - of_nat n) = unat x - n"
proof -
  assume "n \<le> unat x"
  then have n: "unat (of_nat n :: u32) = n" using unat_u32_less [of x] by (simp add: unat_of_nat_u32)
  with \<open>n \<le> unat x\<close> have "of_nat n \<le> x" by (simp add: word_le_nat_alt)
  then show ?thesis by (simp add: unat_sub n)
qed

text \<open>A bit mask of the form \<open>2 ^ n - 1\<close> indexes an array of \<open>2 ^ n\<close> elements.\<close>

lemma unat_and_le: "unat ((x :: u32) AND m) \<le> unat m"
  by (simp add: word_and_le1 word_le_nat_alt [symmetric])


section \<open>Lists\<close>

lemma find_SomeD: "find P xs = Some x \<Longrightarrow> x \<in> set xs \<and> P x"
  by (auto simp: find_Some_iff)

lemma find_cong_set: "(\<And>x. x \<in> set xs \<Longrightarrow> P x \<longleftrightarrow> Q x) \<Longrightarrow> find P xs = find Q xs"
  by (induction xs) auto

text \<open>\<open>while\<close> loops that run over an array by index become \<open>fold\<close> over \<open>[0..<n]\<close>.\<close>

lemma fold_invariant_set:
  assumes "P s" and "\<And>x s. x \<in> set xs \<Longrightarrow> P s \<Longrightarrow> P (f x s)"
  shows "P (fold f xs s)"
  using assms by (induction xs arbitrary: s) auto

lemma nth_list_update_if: "xs[i := x] ! j = (if i = j \<and> j < length xs then x else xs ! j)"
  by (cases "i < length xs") (auto simp: nth_list_update list_update_beyond)

lemma list_update_filter_length:
  "i < length xs \<Longrightarrow> P (xs ! i) \<Longrightarrow> \<not> P y \<Longrightarrow>
   length (filter P (xs[i := y])) = length (filter P xs) - 1"
proof (induction xs arbitrary: i)
  case Nil
  then show ?case by simp
next
  case (Cons a xs)
  show ?case
  proof (cases i)
    case 0
    with Cons.prems show ?thesis by simp
  next
    case (Suc j)
    with Cons.prems have "xs ! j \<in> set (filter P xs)" by simp
    then have "0 < length (filter P xs)" by (rule length_pos_if_in_set)
    with Suc Cons show ?thesis by auto
  qed
qed

end
