(* ===== verification/Csum.thy ===== *)
theory Csum
  imports Prelude
begin

text \<open>
  The Internet checksum of \<open>src/full/openflowlib/lib/csum.c\<close>: the running 32-bit sum, its final
  folding to 16 bits, and the incremental update of RFC 1624 that the action code uses when it
  rewrites a header field.  The reference is the plain sum of the 16-bit words of the data
  (\<open>word_sum\<close>), taken modulo 65535, the modulus of ones-complement arithmetic.
\<close>

section \<open>The code\<close>

definition csum_add16 :: "u32 \<Rightarrow> u16 \<Rightarrow> u32" where
  "csum_add16 partial new = partial + ucast new"

definition csum_add32 :: "u32 \<Rightarrow> u32 \<Rightarrow> u32" where
  "csum_add32 partial new = partial + drop_bit 16 new + (new AND 0xffff)"

fun csum_continue :: "u32 \<Rightarrow> u8 list \<Rightarrow> u32" where
  "csum_continue partial (b0 # b1 # data) = csum_continue (csum_add16 partial (le16 b0 b1)) data"
| "csum_continue partial [b] = partial + ucast b"
| "csum_continue partial [] = partial"

definition csum_finish :: "u32 \<Rightarrow> u16" where
  "csum_finish partial = ucast (NOT ((partial AND 0xffff) + drop_bit 16 partial))"

definition csum :: "u8 list \<Rightarrow> u16" where
  "csum data = csum_finish (csum_continue 0 data)"

definition recalc_csum16 :: "u16 \<Rightarrow> u16 \<Rightarrow> u16 \<Rightarrow> u16" where
  "recalc_csum16 old_csum old_u16 new_u16 =
    (let hc_complement = NOT old_csum;
         m_complement = NOT old_u16;
         m_prime = new_u16;
         sum = ucast hc_complement + ucast m_complement + ucast m_prime :: u32;
         hc_prime_complement = ucast (sum + drop_bit 16 sum) :: u16
     in NOT hc_prime_complement)"

definition recalc_csum32 :: "u16 \<Rightarrow> u32 \<Rightarrow> u32 \<Rightarrow> u16" where
  "recalc_csum32 old_csum old_u32 new_u32 =
    recalc_csum16 (recalc_csum16 old_csum (ucast old_u32) (ucast new_u32))
      (ucast (drop_bit 16 old_u32)) (ucast (drop_bit 16 new_u32))"


section \<open>The reference\<close>

text \<open>The sum of the 16-bit words of the data, an odd last byte padded with a zero byte.\<close>

fun word_sum :: "u8 list \<Rightarrow> nat" where
  "word_sum (b0 # b1 # data) = unat (le16 b0 b1) + word_sum data"
| "word_sum [b] = unat b"
| "word_sum [] = 0"

text \<open>A checksum field is valid when data and checksum add up to zero in ones-complement arithmetic.\<close>

definition csum_valid :: "u8 list \<Rightarrow> u16 \<Rightarrow> bool" where
  "csum_valid data c \<longleftrightarrow> (word_sum data + unat c) mod 65535 = 0"

text \<open>The first folding of a 32-bit sum.\<close>

definition fold16 :: "nat \<Rightarrow> nat" where
  "fold16 s = s mod 65536 + s div 65536"

lemma fold16_mod: "fold16 s mod 65535 = s mod 65535"
proof -
  have "s = 65535 * (s div 65536) + fold16 s"
    using div_mult_mod_eq [of s 65536] by (simp add: fold16_def)
  then have "s mod 65535 = (65535 * (s div 65536) + fold16 s) mod 65535" by simp
  then show ?thesis by simp
qed

lemma word_sum_append:
  "even (length xs) \<Longrightarrow> word_sum (xs @ ys) = word_sum xs + word_sum ys"
  by (induction xs rule: word_sum.induct) auto

lemma word_sum_le: "word_sum bs \<le> 65535 * ((length bs + 1) div 2)"
proof (induction bs rule: word_sum.induct)
  case (1 b0 b1 data)
  have "unat (le16 b0 b1) \<le> 65535" using unat_u16_less [of "le16 b0 b1"] by simp
  with 1 show ?case by simp
next
  case (2 b)
  then show ?case using unat_u8_less [of b] by simp
qed simp


section \<open>The running sum and its folding\<close>

lemma unat_csum_add16: "unat (csum_add16 p n) = (unat p + unat n) mod 4294967296"
  by (simp add: csum_add16_def word_nat_simps)

lemma csum_add32_halves:
  "csum_add32 p n = csum_add16 (csum_add16 p (ucast (drop_bit 16 n))) (ucast n)"
proof -
  have "(ucast (ucast n :: u16) :: u32) = n AND 0xffff"
    by (simp add: word_unat_eq_iff word_nat_simps)
  moreover have "(ucast (ucast (drop_bit 16 n) :: u16) :: u32) = drop_bit 16 n"
    using unat_u32_less [of n] by (simp add: word_unat_eq_iff word_nat_simps less_mult_imp_div_less)
  ultimately show ?thesis by (simp add: csum_add32_def csum_add16_def)
qed

lemma unat_csum_continue:
  "unat (csum_continue p bs) = (unat p + word_sum bs) mod 4294967296"
proof (induction p bs rule: csum_continue.induct)
  case (1 p b0 b1 bs)
  then show ?case by (simp add: unat_csum_add16 mod_simps ac_simps)
next
  case (2 p b)
  then show ?case by (simp add: unat_add_u32 unat_ucast_u8_u32)
next
  case (3 p)
  then show ?case using unat_u32_less [of p] by simp
qed

lemma csum_continue_append:
  "even (length xs) \<Longrightarrow> csum_continue p (xs @ ys) = csum_continue (csum_continue p xs) ys"
  by (induction p xs rule: csum_continue.induct) auto

lemma unat_csum_finish: "unat (csum_finish p) = 65535 - fold16 (unat p) mod 65536"
proof -
  have "csum_finish p = NOT (ucast ((p AND 0xffff) + drop_bit 16 p))"
    by (rule bit_word_eqI) (simp add: csum_finish_def bit_simps)
  moreover have "fold16 (unat p) < 4294967296"
    using unat_u32_less [of p] by (simp add: fold16_def)
  ultimately show ?thesis by (simp add: word_nat_simps fold16_def)
qed

lemma csum_finish_mod:
  "(unat p + unat (csum_finish p)) mod 65535 = 0 \<longleftrightarrow> fold16 (unat p) < 65536"
proof -
  let ?f = "fold16 (unat p)"
  have bound: "?f \<le> 131070"
    using unat_u32_less [of p] by (simp add: fold16_def less_mult_imp_div_less)
  have "(unat p + unat (csum_finish p)) mod 65535 = (unat p mod 65535 + unat (csum_finish p)) mod 65535"
    by (simp add: mod_simps)
  also have "\<dots> = (?f + (65535 - ?f mod 65536)) mod 65535"
    by (simp only: fold16_mod [symmetric, of "unat p"] unat_csum_finish mod_add_left_eq)
  finally have eq: "(unat p + unat (csum_finish p)) mod 65535 = (?f + (65535 - ?f mod 65536)) mod 65535" .
  show ?thesis
  proof (cases "?f < 65536")
    case True
    with eq show ?thesis by simp
  next
    case False
    then have "?f mod 65536 = ?f - 65536" using bound by (simp add: mod_if)
    with False bound have "?f + (65535 - ?f mod 65536) = 131071" by simp
    with eq False show ?thesis by simp
  qed
qed


text \<open>
  The checksum that \<open>csum\<close> computes over at most 131070 bytes is valid for them exactly when
  the two halves of their 16-bit sum add up without a further carry: \<open>csum_finish\<close> folds the carries
  once, not until none is left.
\<close>

theorem csum_valid_iff:
  assumes "length bs \<le> 131070"
  shows "csum_valid bs (csum bs) \<longleftrightarrow> word_sum bs mod 65536 + word_sum bs div 65536 < 65536"
proof -
  have "word_sum bs < 4294967296" using word_sum_le [of bs] assms by simp
  then have "unat (csum_continue 0 bs) = word_sum bs" by (simp add: unat_csum_continue)
  then show ?thesis
    using csum_finish_mod [of "csum_continue 0 bs"] by (simp add: csum_valid_def csum_def fold16_def)
qed

theorem csum_valid_iff_witness:
  "csum_valid [0x45, 0, 0, 0x54, 0x40] (csum [0x45, 0, 0, 0x54, 0x40])"
proof -
  have "csum_valid [0x45, 0, 0, 0x54, 0x40] (csum [0x45, 0, 0, 0x54, 0x40]) \<longleftrightarrow>
    word_sum [0x45, 0, 0, 0x54, 0x40] mod 65536 + word_sum [0x45, 0, 0, 0x54, 0x40] div 65536 < 65536"
    by (rule csum_valid_iff) simp
  then show ?thesis by (simp add: le16_def)
qed


section \<open>The incremental update\<close>

lemma unat_recalc_csum16:
  fixes c m m' :: u16
  defines "s \<equiv> (65535 - unat c) + (65535 - unat m) + unat m'"
  shows "unat (recalc_csum16 c m m') = 65535 - (s + s div 65536) mod 65536"
proof -
  have "s < 4294967296" and "s + s div 65536 < 4294967296"
    using unat_u16_less [of m'] by (auto simp: s_def)
  then show ?thesis
    by (simp add: recalc_csum16_def Let_def word_nat_simps s_def)
qed

lemma recalc_fold:
  fixes s :: nat
  assumes "s \<le> 196605"
  shows "(s + (65535 - (s + s div 65536) mod 65536)) mod 65535 = 0 \<longleftrightarrow> s \<noteq> 131071"
proof -
  consider "s < 65536" | "65536 \<le> s" "s < 131071" | "s = 131071" | "131072 \<le> s" by linarith
  then show ?thesis
  proof cases
    case 2
    then have "s div 65536 = 1" by (simp add: div_nat_eqI)
    moreover have "(s + 1) mod 65536 = s + 1 - 65536" using 2 by (simp add: mod_if)
    ultimately have "s + (65535 - (s + s div 65536) mod 65536) = 65535 * 2" using 2 by simp
    with 2 show ?thesis by simp
  next
    case 4
    then have "s div 65536 = 2" using assms by (simp add: div_nat_eqI)
    moreover have "(s + 2) mod 65536 = s + 2 - 131072" using 4 assms by (simp add: mod_if)
    ultimately have "s + (65535 - (s + s div 65536) mod 65536) = 65535 * 3" using 4 assms by simp
    with 4 show ?thesis by simp
  qed simp_all
qed

lemma word_sum_replace:
  "even (length pre) \<Longrightarrow>
   word_sum (pre @ bytes16 m @ post) = word_sum pre + unat m + word_sum post"
  by (simp add: word_sum_append bytes16_def le16_bytes)

text \<open>
  C28. Updating a valid checksum for one changed 16-bit field (RFC 1624) gives a valid checksum of the
  changed data, except when the intermediate sum is exactly 0x1FFFF: there the second carry is lost.
\<close>

theorem recalc_csum16_valid_iff:
  assumes valid: "csum_valid (pre @ bytes16 old @ post) c" and even: "even (length pre)"
  shows "csum_valid (pre @ bytes16 new @ post) (recalc_csum16 c old new) \<longleftrightarrow>
    (65535 - unat c) + (65535 - unat old) + unat new \<noteq> 131071"
proof -
  define s where "s = (65535 - unat c) + (65535 - unat old) + unat new"
  let ?r = "65535 - (s + s div 65536) mod 65536"
  have "s \<le> 196605" using unat_u16_less [of new] by (simp add: s_def)
  then have fold: "(s + ?r) mod 65535 = 0 \<longleftrightarrow> s \<noteq> 131071" by (rule recalc_fold)
  let ?d = "word_sum pre + word_sum post"
  have "(?d + unat old + unat c) mod 65535 = 0"
    using valid even by (simp add: csum_valid_def word_sum_replace ac_simps)
  then obtain k where k: "?d + unat old + unat c = 65535 * k" by (auto simp: dvd_def mod_eq_0_iff_dvd)
  have "?d + unat new + 65535 * 2 = s + 65535 * k"
    using k unat_u16_less [of c] unat_u16_less [of old] by (simp add: s_def)
  then have "?d + unat new + ?r + 65535 * 2 = s + ?r + 65535 * k" by linarith
  then have "(?d + unat new + ?r) mod 65535 = (s + ?r) mod 65535"
    by (metis mod_mult_self2)
  moreover have "unat (recalc_csum16 c old new) = ?r"
    by (simp only: unat_recalc_csum16 s_def)
  moreover have "word_sum (pre @ bytes16 new @ post) = ?d + unat new"
    using even by (simp add: word_sum_replace)
  ultimately show ?thesis
    using fold by (simp only: csum_valid_def s_def)
qed

theorem recalc_csum16_valid_iff_witness:
  "csum_valid (bytes16 7 @ bytes16 9) (recalc_csum16 65521 5 7)"
proof -
  have "csum_valid ([] @ bytes16 5 @ bytes16 9) 65521"
    by (simp add: csum_valid_def bytes16_def le16_def)
  then have "csum_valid ([] @ bytes16 7 @ bytes16 9) (recalc_csum16 65521 5 7) \<longleftrightarrow>
    (65535 - unat (65521 :: u16)) + (65535 - unat (5 :: u16)) + unat (7 :: u16) \<noteq> 131071"
    by (rule recalc_csum16_valid_iff) simp
  then show ?thesis by simp
qed

text \<open>The lost carry does occur: a field of 0 becomes 1 under the checksum 0, valid before, invalid after.\<close>

lemma recalc_csum16_lost_carry:
  "csum_valid (bytes16 0 @ bytes16 65535) 0 \<and> \<not> csum_valid (bytes16 1 @ bytes16 65535) (recalc_csum16 0 0 1)"
  by (simp add: csum_valid_def bytes16_def le16_def unat_recalc_csum16)

end
