(* ===== verification/Stp.thy ===== *)
theory Stp
  imports Prelude "HOL-Library.Product_Lexorder"
begin

text \<open>
  The 802.1D spanning tree entity of \<open>lib/stp.c\<close>: the bridge and its 255 ports, root selection,
  designated port selection, the port state machine with its timers, BPDU reception and transmission,
  and the notification of port state changes to the client.

  The pointers into the port array are indices.  A C \<^verbatim>\<open>int\<close> is a 32-bit word read by \<^term>\<open>sint\<close> where
  the code compares signed; a comparison of an \<^verbatim>\<open>int\<close> with an \<^verbatim>\<open>unsigned int\<close> is unsigned, as in C.
  The client's \<open>send_bpdu\<close> callback is the list of the frames handed to it; like the code, the model
  relies on the callback not calling back into the entity.
\<close>

type_synonym c_int = "32 word"
type_synonym stp_identifier = u64

section \<open>Data\<close>

definition STP_MAX_PORTS :: nat where
  "STP_MAX_PORTS = 255"

text \<open>\<open>STP_ZERO\<close> is the all-zero value \<open>xcalloc\<close> leaves, which is not a value of the enumeration.\<close>

datatype stp_state = STP_ZERO | STP_DISABLED | STP_LISTENING | STP_LEARNING | STP_FORWARDING | STP_BLOCKING

record stp_bpdu_header =
  protocol_id :: u16
  protocol_version :: u8
  bpdu_type :: u8

record stp_config_bpdu =
  cb_header :: stp_bpdu_header
  cb_flags :: u8
  cb_root_id :: u64
  cb_root_path_cost :: u32
  cb_bridge_id :: u64
  cb_port_id :: u16
  cb_message_age :: u16
  cb_max_age :: u16
  cb_hello_time :: u16
  cb_forward_delay :: u16

record stp_timer =
  active :: bool
  timer_value :: c_int

record stp_port =
  port_id :: c_int
  port_state :: stp_state
  path_cost :: c_int
  port_designated_root :: stp_identifier
  designated_cost :: c_int
  designated_bridge :: stp_identifier
  designated_port :: c_int
  topology_change_ack :: bool
  config_pending :: bool
  change_detection_enabled :: bool
  message_age_timer :: stp_timer
  forward_delay_timer :: stp_timer
  hold_timer :: stp_timer
  state_changed :: bool

record stp =
  bridge_id :: stp_identifier
  max_age :: c_int
  hello_time :: c_int
  forward_delay :: c_int
  bridge_max_age :: c_int
  bridge_hello_time :: c_int
  bridge_forward_delay :: c_int
  designated_root :: stp_identifier
  root_path_cost :: u32
  root_port :: "nat option"
  topology_change_detected :: bool
  topology_change :: bool
  hello_timer :: stp_timer
  tcn_timer :: stp_timer
  topology_change_timer :: stp_timer
  ports :: "stp_port list"
  first_changed_port :: nat
  sent :: "(nat \<times> u8 list) list"

abbreviation port :: "stp \<Rightarrow> nat \<Rightarrow> stp_port" where
  "port s i \<equiv> ports s ! i"

definition upd_port :: "nat \<Rightarrow> (stp_port \<Rightarrow> stp_port) \<Rightarrow> stp \<Rightarrow> stp" where
  "upd_port i f s = s\<lparr>ports := (ports s)[i := f (port s i)]\<rparr>"

abbreviation enabled :: "stp \<Rightarrow> nat \<Rightarrow> bool" where
  "enabled s i \<equiv> port_state (port s i) \<noteq> STP_DISABLED"

text \<open>The loop macro: the next enabled port is looked up in the state the body left.\<close>

definition for_each_enabled_port :: "(nat \<Rightarrow> stp \<Rightarrow> stp) \<Rightarrow> stp \<Rightarrow> stp" where
  "for_each_enabled_port body s =
     fold (\<lambda>i s. if enabled s i then body i s else s) [0..<STP_MAX_PORTS] s"

definition SECONDS_TO_TIMER :: "c_int \<Rightarrow> c_int" where
  "SECONDS_TO_TIMER secs = secs * 0x100"

abbreviation (input) "MESSAGE_AGE_INCREMENT \<equiv> (1 :: c_int)"
abbreviation (input) "STP_PROTOCOL_ID \<equiv> (0 :: u16)"
abbreviation (input) "STP_PROTOCOL_VERSION \<equiv> (0 :: u8)"
abbreviation (input) "STP_TYPE_CONFIG \<equiv> (0 :: u8)"
abbreviation (input) "STP_TYPE_TCN \<equiv> (0x80 :: u8)"
abbreviation (input) "STP_CONFIG_TOPOLOGY_CHANGE_ACK \<equiv> (0x80 :: u16)"
abbreviation (input) "STP_CONFIG_TOPOLOGY_CHANGE \<equiv> (0x01 :: u16)"


section \<open>The packed structures as bytes\<close>

definition header_bytes :: "stp_bpdu_header \<Rightarrow> u8 list" where
  "header_bytes h = bytes16 (protocol_id h) @ [protocol_version h, bpdu_type h]"

definition header_of_bytes :: "u8 list \<Rightarrow> stp_bpdu_header" where
  "header_of_bytes b = \<lparr>protocol_id = get_u16 b 0, protocol_version = b ! 2, bpdu_type = b ! 3\<rparr>"

definition config_bytes :: "stp_config_bpdu \<Rightarrow> u8 list" where
  "config_bytes c = header_bytes (cb_header c) @ [cb_flags c] @ bytes64 (cb_root_id c) @
     bytes32 (cb_root_path_cost c) @ bytes64 (cb_bridge_id c) @ bytes16 (cb_port_id c) @
     bytes16 (cb_message_age c) @ bytes16 (cb_max_age c) @ bytes16 (cb_hello_time c) @
     bytes16 (cb_forward_delay c)"

definition config_of_bytes :: "u8 list \<Rightarrow> stp_config_bpdu" where
  "config_of_bytes b = \<lparr>cb_header = header_of_bytes b, cb_flags = b ! 4, cb_root_id = get_u64 b 5,
     cb_root_path_cost = get_u32 b 13, cb_bridge_id = get_u64 b 17, cb_port_id = get_u16 b 25,
     cb_message_age = get_u16 b 27, cb_max_age = get_u16 b 29, cb_hello_time = get_u16 b 31,
     cb_forward_delay = get_u16 b 33\<rparr>"


section \<open>Timers\<close>

definition stp_start_timer :: "c_int \<Rightarrow> stp_timer \<Rightarrow> stp_timer" where
  "stp_start_timer v t = t\<lparr>timer_value := v, active := True\<rparr>"

definition stp_stop_timer :: "stp_timer \<Rightarrow> stp_timer" where
  "stp_stop_timer t = t\<lparr>active := False\<rparr>"

definition stp_timer_expired :: "stp_timer \<Rightarrow> c_int \<Rightarrow> c_int \<Rightarrow> bool \<times> stp_timer" where
  "stp_timer_expired t elapsed timeout =
     (if active t then
        let t = t\<lparr>timer_value := timer_value t + elapsed\<rparr> in
        if sint timeout \<le> sint (timer_value t) then (True, t\<lparr>active := False\<rparr>) else (False, t)
      else (False, t))"


section \<open>Queries\<close>

definition stp_get_bridge_id :: "stp \<Rightarrow> stp_identifier" where
  "stp_get_bridge_id s = bridge_id s"

definition stp_get_designated_root :: "stp \<Rightarrow> stp_identifier" where
  "stp_get_designated_root s = designated_root s"

definition stp_is_root_bridge :: "stp \<Rightarrow> bool" where
  "stp_is_root_bridge s \<longleftrightarrow> bridge_id s = designated_root s"

definition stp_get_root_path_cost :: "stp \<Rightarrow> c_int" where
  "stp_get_root_path_cost s = root_path_cost s"

text \<open>The assertion of \<open>stp_get_port\<close> is its failure value.\<close>

definition stp_get_port :: "int \<Rightarrow> nat option" where
  "stp_get_port port_no = (if 0 \<le> port_no \<and> port_no < int STP_MAX_PORTS then Some (nat port_no) else None)"

definition stp_get_root_port :: "stp \<Rightarrow> nat option" where
  "stp_get_root_port s = root_port s"

definition stp_get_changed_port :: "stp \<Rightarrow> stp \<times> nat option" where
  "stp_get_changed_port s =
     (case find (\<lambda>i. state_changed (port s i)) [first_changed_port s..<STP_MAX_PORTS] of
        Some i \<Rightarrow> ((upd_port i (state_changed_update (\<lambda>_. False)) s)\<lparr>first_changed_port := i + 1\<rparr>, Some i)
      | None \<Rightarrow> (s\<lparr>first_changed_port := STP_MAX_PORTS\<rparr>, None))"

fun stp_state_name :: "stp_state \<Rightarrow> string option" where
  "stp_state_name STP_DISABLED = Some ''disabled''"
| "stp_state_name STP_LISTENING = Some ''listening''"
| "stp_state_name STP_LEARNING = Some ''learning''"
| "stp_state_name STP_FORWARDING = Some ''forwarding''"
| "stp_state_name STP_BLOCKING = Some ''blocking''"
| "stp_state_name STP_ZERO = None"

definition stp_forward_in_state :: "stp_state \<Rightarrow> bool" where
  "stp_forward_in_state st \<longleftrightarrow> st = STP_FORWARDING"

definition stp_learn_in_state :: "stp_state \<Rightarrow> bool" where
  "stp_learn_in_state st \<longleftrightarrow> st = STP_LEARNING \<or> st = STP_FORWARDING"

definition stp_port_get_state :: "stp \<Rightarrow> nat \<Rightarrow> stp_state" where
  "stp_port_get_state s i = port_state (port s i)"

definition stp_is_designated_port :: "stp \<Rightarrow> nat \<Rightarrow> bool" where
  "stp_is_designated_port s i \<longleftrightarrow>
     designated_bridge (port s i) = bridge_id s \<and> designated_port (port s i) = port_id (port s i)"

definition stp_is_designated_for_some_port :: "stp \<Rightarrow> bool" where
  "stp_is_designated_for_some_port s \<longleftrightarrow>
     list_ex (\<lambda>i. enabled s i \<and> designated_bridge (port s i) = bridge_id s) [0..<STP_MAX_PORTS]"


section \<open>Transmission\<close>

definition send_bpdu :: "u8 list \<Rightarrow> nat \<Rightarrow> stp \<Rightarrow> stp" where
  "send_bpdu b i s = s\<lparr>sent := sent s @ [(i, b)]\<rparr>"

text \<open>
  The flags byte is assembled with 16-bit network-order constants: \<open>config.flags |= htons(X)\<close> computes
  in \<^verbatim>\<open>int\<close> and truncates to the 8-bit field.
\<close>

definition config_flags :: "bool \<Rightarrow> bool \<Rightarrow> u8" where
  "config_flags ack change =
     (let f = 0 :: u8;
          f = (if ack then ucast ((ucast f :: c_int) OR ucast (htons STP_CONFIG_TOPOLOGY_CHANGE_ACK)) else f);
          f = (if change then ucast ((ucast f :: c_int) OR ucast (htons STP_CONFIG_TOPOLOGY_CHANGE)) else f)
      in f)"

definition config_of_port :: "nat \<Rightarrow> stp \<Rightarrow> stp_config_bpdu" where
  "config_of_port i s =
     \<lparr>cb_header = \<lparr>protocol_id = htons STP_PROTOCOL_ID, protocol_version = STP_PROTOCOL_VERSION,
                   bpdu_type = STP_TYPE_CONFIG\<rparr>,
      cb_flags = config_flags (topology_change_ack (port s i)) (topology_change s),
      cb_root_id = htonll (designated_root s),
      cb_root_path_cost = htonl (root_path_cost s),
      cb_bridge_id = htonll (bridge_id s),
      cb_port_id = htons (ucast (port_id (port s i))),
      cb_message_age = (if stp_is_root_bridge s then htons 0
        else htons (ucast (timer_value (message_age_timer (port s (the (root_port s)))) + MESSAGE_AGE_INCREMENT))),
      cb_max_age = htons (ucast (max_age s)),
      cb_hello_time = htons (ucast (hello_time s)),
      cb_forward_delay = htons (ucast (forward_delay s))\<rparr>"

definition stp_transmit_config :: "nat \<Rightarrow> stp \<Rightarrow> stp" where
  "stp_transmit_config i s =
     (if \<not> stp_is_root_bridge s \<and> root_port s = None then s
      else if active (hold_timer (port s i)) then upd_port i (config_pending_update (\<lambda>_. True)) s
      else let config = config_of_port i s in
        if sint (ucast (ntohs (cb_message_age config)) :: c_int) < sint (max_age s) then
          upd_port i (hold_timer_update (stp_start_timer 0))
            (send_bpdu (config_bytes config) i
              (upd_port i (\<lambda>p. p\<lparr>topology_change_ack := False, config_pending := False\<rparr>) s))
        else s)"

definition stp_config_bpdu_generation :: "stp \<Rightarrow> stp" where
  "stp_config_bpdu_generation s =
     for_each_enabled_port (\<lambda>i s. if stp_is_designated_port s i then stp_transmit_config i s else s) s"

definition stp_transmit_tcn :: "stp \<Rightarrow> stp" where
  "stp_transmit_tcn s =
     (case root_port s of
        None \<Rightarrow> s
      | Some p \<Rightarrow> send_bpdu (header_bytes \<lparr>protocol_id = htons STP_PROTOCOL_ID,
          protocol_version = STP_PROTOCOL_VERSION, bpdu_type = STP_TYPE_TCN\<rparr>) p s)"


section \<open>Recording received information\<close>

definition stp_supersedes_port_info :: "stp \<Rightarrow> nat \<Rightarrow> stp_config_bpdu \<Rightarrow> bool" where
  "stp_supersedes_port_info s i config =
     (let p = port s i in
      if ntohll (cb_root_id config) \<noteq> port_designated_root p then
        ntohll (cb_root_id config) < port_designated_root p
      else if ntohl (cb_root_path_cost config) \<noteq> designated_cost p then
        ntohl (cb_root_path_cost config) < designated_cost p
      else if ntohll (cb_bridge_id config) \<noteq> designated_bridge p then
        ntohll (cb_bridge_id config) < designated_bridge p
      else ntohll (cb_bridge_id config) \<noteq> bridge_id s \<or>
        sint (ucast (ntohs (cb_port_id config)) :: c_int) \<le> sint (designated_port p))"

definition stp_record_config_information :: "nat \<Rightarrow> stp_config_bpdu \<Rightarrow> stp \<Rightarrow> stp" where
  "stp_record_config_information i config =
     upd_port i (\<lambda>p. p\<lparr>port_designated_root := ntohll (cb_root_id config),
       designated_cost := ntohl (cb_root_path_cost config),
       designated_bridge := ntohll (cb_bridge_id config),
       designated_port := ucast (ntohs (cb_port_id config)),
       message_age_timer := stp_start_timer (ucast (ntohs (cb_message_age config))) (message_age_timer p)\<rparr>)"

definition stp_record_config_timeout_values :: "stp_config_bpdu \<Rightarrow> stp \<Rightarrow> stp" where
  "stp_record_config_timeout_values config s =
     s\<lparr>max_age := ucast (ntohs (cb_max_age config)),
       hello_time := ucast (ntohs (cb_hello_time config)),
       forward_delay := ucast (ntohs (cb_forward_delay config)),
       topology_change := (ucast (cb_flags config) :: c_int) AND ucast (htons STP_CONFIG_TOPOLOGY_CHANGE) \<noteq> 0\<rparr>"


section \<open>Configuration update\<close>

text \<open>\<open>stp_supersedes_root root p\<close>: the port \<open>p\<close> is a better root port than \<open>root\<close>.\<close>

definition stp_supersedes_root :: "stp_port \<Rightarrow> stp_port \<Rightarrow> bool" where
  "stp_supersedes_root root p =
     (let p_cost = designated_cost p + path_cost p;
          root_cost = designated_cost root + path_cost root in
      if port_designated_root p \<noteq> port_designated_root root then
        port_designated_root p < port_designated_root root
      else if p_cost \<noteq> root_cost then sint p_cost < sint root_cost
      else if designated_bridge p \<noteq> designated_bridge root then designated_bridge p < designated_bridge root
      else if designated_port p \<noteq> designated_port root then
        sint (designated_port p) < sint (designated_port root)
      else sint (port_id p) < sint (port_id root))"

definition root_selection_step :: "stp \<Rightarrow> nat \<Rightarrow> nat option \<Rightarrow> nat option" where
  "root_selection_step s i root =
     (if \<not> enabled s i then root
      else if stp_is_designated_port s i \<or> bridge_id s \<le> port_designated_root (port s i) then root
      else case root of
        None \<Rightarrow> Some i
      | Some r \<Rightarrow> if \<not> stp_supersedes_root (port s r) (port s i) then root else Some i)"

definition stp_root_selection :: "stp \<Rightarrow> stp" where
  "stp_root_selection s =
     (let root = fold (root_selection_step s) [0..<STP_MAX_PORTS] None;
          s = s\<lparr>root_port := root\<rparr> in
      case root of
        None \<Rightarrow> s\<lparr>designated_root := bridge_id s, root_path_cost := 0\<rparr>
      | Some r \<Rightarrow> s\<lparr>designated_root := port_designated_root (port s r),
          root_path_cost := designated_cost (port s r) + path_cost (port s r)\<rparr>)"

definition stp_become_designated_port :: "nat \<Rightarrow> stp \<Rightarrow> stp" where
  "stp_become_designated_port i s =
     upd_port i (\<lambda>p. p\<lparr>port_designated_root := designated_root s, designated_cost := root_path_cost s,
       designated_bridge := bridge_id s, designated_port := port_id p\<rparr>) s"

definition stp_designated_port_selection :: "stp \<Rightarrow> stp" where
  "stp_designated_port_selection s =
     for_each_enabled_port (\<lambda>i s.
       let p = port s i in
       if stp_is_designated_port s i
         \<or> port_designated_root p \<noteq> designated_root s
         \<or> root_path_cost s < designated_cost p
         \<or> (root_path_cost s = designated_cost p
              \<and> (bridge_id s < designated_bridge p
                  \<or> (bridge_id s = designated_bridge p \<and> sint (port_id p) \<le> sint (designated_port p))))
       then stp_become_designated_port i s else s) s"

definition stp_configuration_update :: "stp \<Rightarrow> stp" where
  "stp_configuration_update s = stp_designated_port_selection (stp_root_selection s)"


section \<open>Port states\<close>

definition stp_set_port_state :: "nat \<Rightarrow> stp_state \<Rightarrow> stp \<Rightarrow> stp" where
  "stp_set_port_state i st s =
     (let s = (if st \<noteq> port_state (port s i) \<and> \<not> state_changed (port s i) then
                 let s = upd_port i (state_changed_update (\<lambda>_. True)) s in
                 if i < first_changed_port s then s\<lparr>first_changed_port := i\<rparr> else s
               else s)
      in upd_port i (port_state_update (\<lambda>_. st)) s)"

definition stp_topology_change_detection :: "stp \<Rightarrow> stp" where
  "stp_topology_change_detection s =
     (let s = (if stp_is_root_bridge s then
                 s\<lparr>topology_change := True, topology_change_timer := stp_start_timer 0 (topology_change_timer s)\<rparr>
               else if \<not> topology_change_detected s then
                 tcn_timer_update (stp_start_timer 0) (stp_transmit_tcn s)
               else s)
      in s\<lparr>topology_change_detected := True\<rparr>)"

definition stp_topology_change_acknowledged :: "stp \<Rightarrow> stp" where
  "stp_topology_change_acknowledged s =
     s\<lparr>topology_change_detected := False, tcn_timer := stp_stop_timer (tcn_timer s)\<rparr>"

definition stp_acknowledge_topology_change :: "nat \<Rightarrow> stp \<Rightarrow> stp" where
  "stp_acknowledge_topology_change i s =
     stp_transmit_config i (upd_port i (topology_change_ack_update (\<lambda>_. True)) s)"

definition stp_make_forwarding :: "nat \<Rightarrow> stp \<Rightarrow> stp" where
  "stp_make_forwarding i s =
     (if port_state (port s i) = STP_BLOCKING then
        upd_port i (forward_delay_timer_update (stp_start_timer 0)) (stp_set_port_state i STP_LISTENING s)
      else s)"

definition stp_make_blocking :: "nat \<Rightarrow> stp \<Rightarrow> stp" where
  "stp_make_blocking i s =
     (let st = port_state (port s i) in
      if \<not> (st = STP_DISABLED \<or> st = STP_BLOCKING) then
        let s = (if (st = STP_FORWARDING \<or> st = STP_LEARNING) \<and> change_detection_enabled (port s i)
                 then stp_topology_change_detection s else s)
        in upd_port i (forward_delay_timer_update stp_stop_timer) (stp_set_port_state i STP_BLOCKING s)
      else s)"

definition port_state_selection_step :: "nat \<Rightarrow> stp \<Rightarrow> stp" where
  "port_state_selection_step i s =
     (if root_port s = Some i then
        stp_make_forwarding i
          (upd_port i (\<lambda>p. p\<lparr>config_pending := False, topology_change_ack := False\<rparr>) s)
      else if stp_is_designated_port s i then
        stp_make_forwarding i (upd_port i (message_age_timer_update stp_stop_timer) s)
      else
        stp_make_blocking i
          (upd_port i (\<lambda>p. p\<lparr>config_pending := False, topology_change_ack := False\<rparr>) s))"

definition stp_port_state_selection :: "stp \<Rightarrow> stp" where
  "stp_port_state_selection s = for_each_enabled_port port_state_selection_step s"

definition stp_become_root_bridge :: "stp \<Rightarrow> stp" where
  "stp_become_root_bridge s =
     (let s = s\<lparr>max_age := bridge_max_age s, hello_time := bridge_hello_time s,
                forward_delay := bridge_forward_delay s\<rparr>;
          s = stp_topology_change_detection s;
          s = tcn_timer_update stp_stop_timer s;
          s = stp_config_bpdu_generation s
      in hello_timer_update (stp_start_timer 0) s)"


section \<open>Reception\<close>

definition stp_received_config_bpdu :: "nat \<Rightarrow> stp_config_bpdu \<Rightarrow> stp \<Rightarrow> stp" where
  "stp_received_config_bpdu i config s =
     (if ntohs (cb_max_age config) \<le> ntohs (cb_message_age config) then s
      else if \<not> enabled s i then s
      else
        let root = stp_is_root_bridge s in
        if stp_supersedes_port_info s i config then
          let s = stp_record_config_information i config s;
              s = stp_configuration_update s;
              s = stp_port_state_selection s;
              s = (if \<not> stp_is_root_bridge s \<and> root then
                     let s = hello_timer_update stp_stop_timer s in
                     if topology_change_detected s then
                       tcn_timer_update (stp_start_timer 0)
                         (stp_transmit_tcn (topology_change_timer_update stp_stop_timer s))
                     else s
                   else s)
          in if root_port s = Some i then
               let s = stp_record_config_timeout_values config s;
                   s = stp_config_bpdu_generation s
               in if (ucast (cb_flags config) :: c_int) AND ucast (htons STP_CONFIG_TOPOLOGY_CHANGE_ACK) \<noteq> 0
                  then stp_topology_change_acknowledged s else s
             else s
        else if stp_is_designated_port s i then stp_transmit_config i s
        else s)"

definition stp_received_tcn_bpdu :: "nat \<Rightarrow> stp \<Rightarrow> stp" where
  "stp_received_tcn_bpdu i s =
     (if enabled s i \<and> stp_is_designated_port s i then
        stp_acknowledge_topology_change i (stp_topology_change_detection s)
      else s)"

definition stp_received_bpdu :: "nat \<Rightarrow> u8 list \<Rightarrow> stp \<Rightarrow> stp" where
  "stp_received_bpdu i bpdu s =
     (if \<not> enabled s i then s
      else if length bpdu < 4 then s
      else
        let header = header_of_bytes bpdu in
        if protocol_id header \<noteq> htons STP_PROTOCOL_ID then s
        else if bpdu_type header = STP_TYPE_CONFIG then
          if length bpdu < 35 then s else stp_received_config_bpdu i (config_of_bytes bpdu) s
        else if bpdu_type header = STP_TYPE_TCN then
          if length bpdu \<noteq> 4 then s else stp_received_tcn_bpdu i s
        else s)"


section \<open>Timer expiry\<close>

definition stp_hello_timer_expiry :: "stp \<Rightarrow> stp" where
  "stp_hello_timer_expiry s = hello_timer_update (stp_start_timer 0) (stp_config_bpdu_generation s)"

definition stp_message_age_timer_expiry :: "nat \<Rightarrow> stp \<Rightarrow> stp" where
  "stp_message_age_timer_expiry i s =
     (let root = stp_is_root_bridge s;
          s = stp_become_designated_port i s;
          s = stp_configuration_update s;
          s = stp_port_state_selection s
      in if stp_is_root_bridge s \<and> \<not> root then
           let s = s\<lparr>max_age := bridge_max_age s, hello_time := bridge_hello_time s,
                     forward_delay := bridge_forward_delay s\<rparr>;
               s = stp_topology_change_detection s;
               s = tcn_timer_update stp_stop_timer s;
               s = stp_config_bpdu_generation s
           in hello_timer_update (stp_start_timer 0) s
         else s)"

definition stp_forward_delay_timer_expiry :: "nat \<Rightarrow> stp \<Rightarrow> stp" where
  "stp_forward_delay_timer_expiry i s =
     (if port_state (port s i) = STP_LISTENING then
        upd_port i (forward_delay_timer_update (stp_start_timer 0)) (stp_set_port_state i STP_LEARNING s)
      else if port_state (port s i) = STP_LEARNING then
        let s = stp_set_port_state i STP_FORWARDING s in
        if stp_is_designated_for_some_port s \<and> change_detection_enabled (port s i)
        then stp_topology_change_detection s else s
      else s)"

definition stp_tcn_timer_expiry :: "stp \<Rightarrow> stp" where
  "stp_tcn_timer_expiry s = tcn_timer_update (stp_start_timer 0) (stp_transmit_tcn s)"

definition stp_topology_change_timer_expiry :: "stp \<Rightarrow> stp" where
  "stp_topology_change_timer_expiry s = s\<lparr>topology_change_detected := False, topology_change := False\<rparr>"

definition stp_hold_timer_expiry :: "nat \<Rightarrow> stp \<Rightarrow> stp" where
  "stp_hold_timer_expiry i s = (if config_pending (port s i) then stp_transmit_config i s else s)"

definition tick_message_age :: "c_int \<Rightarrow> nat \<Rightarrow> stp \<Rightarrow> stp" where
  "tick_message_age elapsed i s =
     (let (e, t) = stp_timer_expired (message_age_timer (port s i)) elapsed (max_age s);
          s = upd_port i (message_age_timer_update (\<lambda>_. t)) s
      in if e then stp_message_age_timer_expiry i s else s)"

definition tick_forward_hold :: "c_int \<Rightarrow> nat \<Rightarrow> stp \<Rightarrow> stp" where
  "tick_forward_hold elapsed i s =
     (let (e, t) = stp_timer_expired (forward_delay_timer (port s i)) elapsed (forward_delay s);
          s = upd_port i (forward_delay_timer_update (\<lambda>_. t)) s;
          s = (if e then stp_forward_delay_timer_expiry i s else s);
          (e, t) = stp_timer_expired (hold_timer (port s i)) elapsed (SECONDS_TO_TIMER 1);
          s = upd_port i (hold_timer_update (\<lambda>_. t)) s
      in if e then stp_hold_timer_expiry i s else s)"

definition stp_tick :: "c_int \<Rightarrow> stp \<Rightarrow> stp" where
  "stp_tick elapsed s =
     (let (e, t) = stp_timer_expired (hello_timer s) elapsed (hello_time s);
          s = s\<lparr>hello_timer := t\<rparr>;
          s = (if e then stp_hello_timer_expiry s else s);
          (e, t) = stp_timer_expired (tcn_timer s) elapsed (bridge_hello_time s);
          s = s\<lparr>tcn_timer := t\<rparr>;
          s = (if e then stp_tcn_timer_expiry s else s);
          (e, t) = stp_timer_expired (topology_change_timer s) elapsed (max_age s + forward_delay s);
          s = s\<lparr>topology_change_timer := t\<rparr>;
          s = (if e then stp_topology_change_timer_expiry s else s);
          s = for_each_enabled_port (tick_message_age elapsed) s
      in for_each_enabled_port (tick_forward_hold elapsed) s)"


section \<open>Administration\<close>

definition stp_initialize_port :: "nat \<Rightarrow> stp_state \<Rightarrow> stp \<Rightarrow> stp" where
  "stp_initialize_port i st s =
     upd_port i (\<lambda>p. p\<lparr>topology_change_ack := False, config_pending := False,
         change_detection_enabled := True, message_age_timer := stp_stop_timer (message_age_timer p),
         forward_delay_timer := stp_stop_timer (forward_delay_timer p),
         hold_timer := stp_stop_timer (hold_timer p)\<rparr>)
       (stp_set_port_state i st (stp_become_designated_port i s))"

definition zero_timer :: stp_timer where
  "zero_timer = \<lparr>active = False, timer_value = 0\<rparr>"

definition zero_port :: stp_port where
  "zero_port = \<lparr>port_id = 0, port_state = STP_ZERO, path_cost = 0, port_designated_root = 0,
     designated_cost = 0, designated_bridge = 0, designated_port = 0, topology_change_ack = False,
     config_pending = False, change_detection_enabled = False, message_age_timer = zero_timer,
     forward_delay_timer = zero_timer, hold_timer = zero_timer, state_changed = False\<rparr>"

definition create_port :: "nat \<Rightarrow> stp \<Rightarrow> stp" where
  "create_port i s =
     stp_initialize_port i STP_DISABLED
       (upd_port i (\<lambda>p. p\<lparr>port_id := of_nat (i + 1) OR push_bit 8 128, path_cost := 19\<rparr>) s)"

definition stp_create :: "stp_identifier \<Rightarrow> stp" where
  "stp_create bid =
     (let bid = (if drop_bit 48 bid = 0 then bid OR push_bit 48 32768 else bid);
          s = \<lparr>bridge_id = bid, max_age = SECONDS_TO_TIMER 6, hello_time = SECONDS_TO_TIMER 2,
               forward_delay = SECONDS_TO_TIMER 4, bridge_max_age = SECONDS_TO_TIMER 6,
               bridge_hello_time = SECONDS_TO_TIMER 2, bridge_forward_delay = SECONDS_TO_TIMER 4,
               designated_root = bid, root_path_cost = 0, root_port = None,
               topology_change_detected = False, topology_change = False,
               hello_timer = stp_start_timer 0 zero_timer, tcn_timer = stp_stop_timer zero_timer,
               topology_change_timer = stp_stop_timer zero_timer,
               ports = replicate STP_MAX_PORTS zero_port, first_changed_port = STP_MAX_PORTS, sent = []\<rparr>
      in fold create_port [0..<STP_MAX_PORTS] s)"

definition set_bridge_id_port :: "stp_identifier \<Rightarrow> nat \<Rightarrow> stp \<Rightarrow> stp" where
  "set_bridge_id_port new_bridge_id i s =
     (if stp_is_designated_port s i then upd_port i (designated_bridge_update (\<lambda>_. new_bridge_id)) s else s)"

definition set_bridge_id :: "stp_identifier \<Rightarrow> stp \<Rightarrow> stp" where
  "set_bridge_id new_bridge_id s =
     (if new_bridge_id \<noteq> bridge_id s then
        let root = stp_is_root_bridge s;
            s = for_each_enabled_port (set_bridge_id_port new_bridge_id) s;
            s = s\<lparr>bridge_id := new_bridge_id\<rparr>;
            s = stp_configuration_update s;
            s = stp_port_state_selection s
        in if stp_is_root_bridge s \<and> \<not> root then stp_become_root_bridge s else s
      else s)"

definition stp_set_bridge_id :: "stp_identifier \<Rightarrow> stp \<Rightarrow> stp" where
  "stp_set_bridge_id bid s =
     (let mac_bits = push_bit 48 1 - 1; pri_bits = NOT mac_bits
      in set_bridge_id ((bridge_id s AND pri_bits) OR (bid AND mac_bits)) s)"

definition stp_set_bridge_priority :: "u16 \<Rightarrow> stp \<Rightarrow> stp" where
  "stp_set_bridge_priority new_priority s =
     (let mac_bits = push_bit 48 1 - 1
      in set_bridge_id ((bridge_id s AND mac_bits) OR push_bit 48 (ucast new_priority)) s)"

definition stp_port_disable :: "nat \<Rightarrow> stp \<Rightarrow> stp" where
  "stp_port_disable i s =
     (if enabled s i then
        let root = stp_is_root_bridge s;
            s = stp_become_designated_port i s;
            s = stp_set_port_state i STP_DISABLED s;
            s = upd_port i (\<lambda>p. p\<lparr>topology_change_ack := False, config_pending := False,
                  message_age_timer := stp_stop_timer (message_age_timer p),
                  forward_delay_timer := stp_stop_timer (forward_delay_timer p)\<rparr>) s;
            s = stp_configuration_update s;
            s = stp_port_state_selection s
        in if stp_is_root_bridge s \<and> \<not> root then stp_become_root_bridge s else s
      else s)"

definition stp_port_enable :: "nat \<Rightarrow> stp \<Rightarrow> stp" where
  "stp_port_enable i s =
     (if \<not> enabled s i then stp_port_state_selection (stp_initialize_port i STP_BLOCKING s) else s)"

definition stp_port_set_priority :: "nat \<Rightarrow> u8 \<Rightarrow> stp \<Rightarrow> stp" where
  "stp_port_set_priority i new_priority s =
     (let new_port_id = ucast (((port_id (port s i) AND 0xff) OR push_bit 8 (ucast new_priority)) :: c_int) :: u16 in
      if port_id (port s i) \<noteq> ucast new_port_id then
        let s = (if stp_is_designated_port s i
                 then upd_port i (designated_port_update (\<lambda>_. ucast new_port_id)) s else s);
            s = upd_port i (port_id_update (\<lambda>_. ucast new_port_id)) s
        in if bridge_id s = designated_bridge (port s i)
              \<and> sint (port_id (port s i)) < sint (designated_port (port s i))
           then stp_port_state_selection (stp_become_designated_port i s)
           else s
      else s)"

definition stp_port_set_path_cost :: "nat \<Rightarrow> u32 \<Rightarrow> stp \<Rightarrow> stp" where
  "stp_port_set_path_cost i cost s =
     (if path_cost (port s i) \<noteq> cost then
        stp_port_state_selection (stp_configuration_update (upd_port i (path_cost_update (\<lambda>_. cost)) s))
      else s)"

definition speed_cost :: "u32 \<Rightarrow> u32" where
  "speed_cost speed =
     (if 10000 \<le> speed then 2 else if 1000 \<le> speed then 4 else if 100 \<le> speed then 19
      else if 16 \<le> speed then 62 else if 10 \<le> speed then 100 else if 4 \<le> speed then 250 else 19)"

definition stp_port_set_speed :: "nat \<Rightarrow> u32 \<Rightarrow> stp \<Rightarrow> stp" where
  "stp_port_set_speed i speed = stp_port_set_path_cost i (speed_cost speed)"

definition stp_port_enable_change_detection :: "nat \<Rightarrow> stp \<Rightarrow> stp" where
  "stp_port_enable_change_detection i = upd_port i (change_detection_enabled_update (\<lambda>_. True))"

definition stp_port_disable_change_detection :: "nat \<Rightarrow> stp \<Rightarrow> stp" where
  "stp_port_disable_change_detection i = upd_port i (change_detection_enabled_update (\<lambda>_. False))"


section \<open>Loops over the ports\<close>

lemma fold_upt_inv:
  assumes "P 0 s" and "\<And>i s. i < n \<Longrightarrow> P i s \<Longrightarrow> P (Suc i) (f i s)"
  shows "P n (fold f [0..<n] s)"
  using assms by (induction n) auto

lemma for_each_enabled_port_inv:
  assumes "P s" and "\<And>i s. i < STP_MAX_PORTS \<Longrightarrow> enabled s i \<Longrightarrow> P s \<Longrightarrow> P (body i s)"
  shows "P (for_each_enabled_port body s)"
  unfolding for_each_enabled_port_def
  by (rule fold_invariant_set [where P = P]) (use assms in auto)

lemma for_each_enabled_port_upto:
  assumes "P 0 s"
    and "\<And>i s. i < STP_MAX_PORTS \<Longrightarrow> enabled s i \<Longrightarrow> P i s \<Longrightarrow> P (Suc i) (body i s)"
    and "\<And>i s. i < STP_MAX_PORTS \<Longrightarrow> \<not> enabled s i \<Longrightarrow> P i s \<Longrightarrow> P (Suc i) s"
  shows "P STP_MAX_PORTS (for_each_enabled_port body s)"
  unfolding for_each_enabled_port_def
  by (rule fold_upt_inv [where P = P]) (use assms in auto)


section \<open>What an operation can touch\<close>

text \<open>
  \<open>core\<close> keeps the fields the spanning tree computation depends on, \<open>lite\<close> those of the port state
  machine and its change notification; everything else is timers, pending flags and output.
\<close>

definition core_port where
  "core_port p = (port_id p, port_state p, path_cost p, port_designated_root p, designated_cost p,
     designated_bridge p, designated_port p, state_changed p)"

definition core where
  "core s = (bridge_id s, designated_root s, root_path_cost s, root_port s, first_changed_port s,
     map core_port (ports s))"

definition lite_port where
  "lite_port p = (port_id p, port_state p, state_changed p)"

definition lite where
  "lite s = (first_changed_port s, map lite_port (ports s))"

named_theorems stp_frame

lemma upd_port_fields [simp]:
  "ports (upd_port i f s) = (ports s)[i := f (port s i)]"
  "bridge_id (upd_port i f s) = bridge_id s"
  "designated_root (upd_port i f s) = designated_root s"
  "root_path_cost (upd_port i f s) = root_path_cost s"
  "root_port (upd_port i f s) = root_port s"
  "first_changed_port (upd_port i f s) = first_changed_port s"
  by (simp_all add: upd_port_def)

lemma map_update_same: "g (f (xs ! i)) = g (xs ! i) \<Longrightarrow> map g (xs[i := f (xs ! i)]) = map g xs"
  by (cases "i < length xs") (auto simp: map_update list_update_same_conv list_update_beyond)

lemma core_upd_port [stp_frame]:
  assumes "\<And>p. core_port (f p) = core_port p"
  shows "core (upd_port i f s) = core s"
  using assms by (simp add: core_def map_update_same)

lemma lite_upd_port [stp_frame]:
  assumes "\<And>p. lite_port (f p) = lite_port p"
  shows "lite (upd_port i f s) = lite s"
  using assms by (simp add: lite_def map_update_same)

lemma core_lite: "core s' = core s \<Longrightarrow> lite s' = lite s"
proof -
  have *: "lite t = (case core t of (_, _, _, _, c, ps) \<Rightarrow>
    (c, map (\<lambda>(a, b, _, _, _, _, _, d). (a, b, d)) ps))" for t
    by (auto simp: lite_def core_def core_port_def lite_port_def)
  show "core s' = core s \<Longrightarrow> lite s' = lite s" by (simp add: *)
qed

lemma core_port_eq:
  assumes "core s' = core s" and "i < length (ports s)"
  shows "core_port (port s' i) = core_port (port s i)" "length (ports s') = length (ports s)"
proof -
  from assms(1) have e: "map core_port (ports s') = map core_port (ports s)" by (simp add: core_def)
  then show l: "length (ports s') = length (ports s)" by (metis length_map)
  from e have "map core_port (ports s') ! i = map core_port (ports s) ! i" by simp
  with l assms(2) show "core_port (port s' i) = core_port (port s i)" by simp
qed

lemma lite_port_eq:
  assumes "lite s' = lite s"
  shows "length (ports s') = length (ports s)" "first_changed_port s' = first_changed_port s"
    "i < length (ports s) \<Longrightarrow> lite_port (port s' i) = lite_port (port s i)"
proof -
  from assms have e: "map lite_port (ports s') = map lite_port (ports s)" by (simp add: lite_def)
  then show l: "length (ports s') = length (ports s)" by (metis length_map)
  show "first_changed_port s' = first_changed_port s" using assms by (simp add: lite_def)
  from e have "map lite_port (ports s') ! i = map lite_port (ports s) ! i" by simp
  with l show "i < length (ports s) \<Longrightarrow> lite_port (port s' i) = lite_port (port s i)" by simp
qed

lemma core_updates [simp]:
  "core (s\<lparr>max_age := a\<rparr>) = core s" "core (s\<lparr>hello_time := a\<rparr>) = core s"
  "core (s\<lparr>forward_delay := a\<rparr>) = core s" "core (s\<lparr>topology_change_detected := b\<rparr>) = core s"
  "core (s\<lparr>topology_change := b\<rparr>) = core s" "core (s\<lparr>hello_timer := t\<rparr>) = core s"
  "core (s\<lparr>tcn_timer := t\<rparr>) = core s" "core (s\<lparr>topology_change_timer := t\<rparr>) = core s"
  "core (s\<lparr>sent := l\<rparr>) = core s"
  "core (hello_timer_update f s) = core s" "core (tcn_timer_update f s) = core s"
  "core (topology_change_timer_update f s) = core s"
  by (simp_all add: core_def)

lemma core_port_updates [simp]:
  "core_port (p\<lparr>topology_change_ack := b\<rparr>) = core_port p" "core_port (p\<lparr>config_pending := b\<rparr>) = core_port p"
  "core_port (p\<lparr>change_detection_enabled := b\<rparr>) = core_port p"
  "core_port (message_age_timer_update f p) = core_port p"
  "core_port (forward_delay_timer_update f p) = core_port p"
  "core_port (hold_timer_update f p) = core_port p"
  by (simp_all add: core_port_def)

lemma core_send_bpdu [simp]: "core (send_bpdu b i s) = core s"
  by (simp add: send_bpdu_def)

lemma core_transmit_config [simp]: "core (stp_transmit_config i s) = core s"
  by (simp add: stp_transmit_config_def Let_def core_upd_port)

lemma core_for_each:
  assumes "\<And>i s. core (body i s) = core s"
  shows "core (for_each_enabled_port body s) = core s"
  by (rule for_each_enabled_port_inv) (simp_all add: assms)

lemma core_config_bpdu_generation [simp]: "core (stp_config_bpdu_generation s) = core s"
  unfolding stp_config_bpdu_generation_def by (rule core_for_each) simp

lemma transmit_tcn_fields [simp]:
  "core (stp_transmit_tcn s) = core s" "ports (stp_transmit_tcn s) = ports s"
  by (simp_all add: stp_transmit_tcn_def send_bpdu_def split: option.split)

lemma topology_change_detection_fields [simp]:
  "core (stp_topology_change_detection s) = core s"
  "ports (stp_topology_change_detection s) = ports s"
  by (simp_all add: stp_topology_change_detection_def Let_def)

lemma core_fields:
  assumes "core s' = core s"
  shows "bridge_id s' = bridge_id s" "designated_root s' = designated_root s"
    "root_path_cost s' = root_path_cost s" "root_port s' = root_port s"
    "first_changed_port s' = first_changed_port s"
  using assms by (simp_all add: core_def)

lemmas topology_change_detection_core [simp] = core_fields [OF topology_change_detection_fields(1)]

lemma core_small_ops [simp]:
  "core (stp_topology_change_acknowledged s) = core s"
  "core (stp_acknowledge_topology_change i s) = core s"
  "core (stp_become_root_bridge s) = core s"
  "core (stp_record_config_timeout_values c s) = core s"
  "core (stp_hello_timer_expiry s) = core s"
  "core (stp_tcn_timer_expiry s) = core s"
  "core (stp_topology_change_timer_expiry s) = core s"
  "core (stp_hold_timer_expiry i s) = core s"
  by (simp_all add: stp_topology_change_acknowledged_def stp_acknowledge_topology_change_def
      stp_become_root_bridge_def stp_record_config_timeout_values_def stp_hello_timer_expiry_def
      stp_tcn_timer_expiry_def stp_topology_change_timer_expiry_def stp_hold_timer_expiry_def
      core_upd_port Let_def)


section \<open>Well-formed bridges and the evolution of port states\<close>

definition port_id_ok :: "nat \<Rightarrow> c_int \<Rightarrow> bool" where
  "port_id_ok i x \<longleftrightarrow> x AND 0xff = of_nat (i + 1) \<and> drop_bit 16 x = 0"

text \<open>
  A bridge has its 255 ports, each with an identifier whose low byte is the port number, and no port
  below \<open>first_changed_port\<close> has an undelivered state change.
\<close>

definition stp_wf :: "stp \<Rightarrow> bool" where
  "stp_wf s \<longleftrightarrow> length (ports s) = STP_MAX_PORTS
     \<and> (\<forall>i < STP_MAX_PORTS. port_id_ok i (port_id (port s i)))
     \<and> (\<forall>i < STP_MAX_PORTS. i < first_changed_port s \<longrightarrow> \<not> state_changed (port s i))"

text \<open>A state change is flagged, no flag is lost.\<close>

definition notified :: "stp \<Rightarrow> stp \<Rightarrow> bool" where
  "notified s s' \<longleftrightarrow> (\<forall>i < STP_MAX_PORTS.
     (state_changed (port s i) \<longrightarrow> state_changed (port s' i)) \<and>
     (port_state (port s' i) \<noteq> port_state (port s i) \<longrightarrow> state_changed (port s' i)))"

text \<open>No port is enabled or disabled, and none moves on to learning or forwarding.\<close>

definition calm :: "stp \<Rightarrow> stp \<Rightarrow> bool" where
  "calm s s' \<longleftrightarrow> (\<forall>i < STP_MAX_PORTS.
     (enabled s' i \<longleftrightarrow> enabled s i) \<and>
     (port_state (port s' i) = STP_LEARNING \<or> port_state (port s' i) = STP_FORWARDING \<longrightarrow>
        port_state (port s' i) = port_state (port s i)))"

definition evolves :: "stp \<Rightarrow> stp \<Rightarrow> bool" where
  "evolves s s' \<longleftrightarrow> (stp_wf s \<longrightarrow> stp_wf s' \<and> notified s s' \<and> calm s s')"

lemma notified_refl [simp]: "notified s s"
  by (simp add: notified_def)

lemma notified_trans: "notified s t \<Longrightarrow> notified t u \<Longrightarrow> notified s u"
  unfolding notified_def by metis

lemma calm_trans: "calm s t \<Longrightarrow> calm t u \<Longrightarrow> calm s u"
  unfolding calm_def by metis

lemma evolves_refl [simp]: "evolves s s"
  by (simp add: evolves_def notified_def calm_def)

lemma evolves_trans [trans]: "evolves s t \<Longrightarrow> evolves t u \<Longrightarrow> evolves s u"
  unfolding evolves_def using notified_trans calm_trans by blast

lemma lite_wf: "lite s' = lite s \<Longrightarrow> stp_wf s \<Longrightarrow> stp_wf s'"
  using lite_port_eq [of s' s] unfolding stp_wf_def lite_port_def by (metis prod.inject)

lemma lite_evolves:
  assumes "lite s' = lite s"
  shows "evolves s s'"
proof -
  have "notified s s' \<and> calm s s'" if "stp_wf s"
    using lite_port_eq(3) [OF assms] that
    unfolding notified_def calm_def stp_wf_def lite_port_def by simp
  then show ?thesis using lite_wf [OF assms] by (simp add: evolves_def)
qed

lemma core_evolves: "core s' = core s \<Longrightarrow> evolves s s'"
  by (rule lite_evolves) (rule core_lite)

lemma for_each_evolves:
  assumes "\<And>i s. i < STP_MAX_PORTS \<Longrightarrow> enabled s i \<Longrightarrow> evolves s (body i s)"
  shows "evolves s (for_each_enabled_port body s)"
  by (rule for_each_enabled_port_inv) (auto intro: evolves_trans assms)


section \<open>The port state machine\<close>

lemma set_port_state_fields [simp]:
  "bridge_id (stp_set_port_state i st s) = bridge_id s"
  "designated_root (stp_set_port_state i st s) = designated_root s"
  "root_path_cost (stp_set_port_state i st s) = root_path_cost s"
  "root_port (stp_set_port_state i st s) = root_port s"
  by (simp_all add: stp_set_port_state_def Let_def)

lemma ports_set_port_state:
  "ports (stp_set_port_state i st s) = (ports s)[i := (port s i)\<lparr>port_state := st,
     state_changed := state_changed (port s i) \<or> st \<noteq> port_state (port s i)\<rparr>]"
  by (cases "i < length (ports s)")
    (auto simp: stp_set_port_state_def Let_def list_update_beyond intro!: arg_cong [where f = "list_update (ports s) i"])

lemma first_changed_set_port_state:
  "first_changed_port (stp_set_port_state i st s) =
     (if st \<noteq> port_state (port s i) \<and> \<not> state_changed (port s i) then min i (first_changed_port s)
      else first_changed_port s)"
  by (auto simp: stp_set_port_state_def Let_def)

lemma set_port_state_wf:
  assumes "stp_wf s"
  shows "stp_wf (stp_set_port_state i st s)" and "notified s (stp_set_port_state i st s)"
  using assms
  by (auto simp: stp_wf_def notified_def ports_set_port_state first_changed_set_port_state
      nth_list_update_if split: if_splits)

lemma set_port_state_evolves:
  assumes "enabled s i" and "st = STP_LISTENING \<or> st = STP_BLOCKING"
  shows "evolves s (stp_set_port_state i st s)"
  using set_port_state_wf [of s i st] assms
  by (auto simp: evolves_def calm_def stp_wf_def ports_set_port_state nth_list_update_if)

lemma make_forwarding_evolves: "evolves s (stp_make_forwarding i s)"
  unfolding stp_make_forwarding_def
  by (auto intro!: evolves_trans [OF set_port_state_evolves core_evolves] core_upd_port)

lemma make_blocking_evolves: "evolves s (stp_make_blocking i s)"
proof -
  have *: "evolves t (upd_port i (forward_delay_timer_update stp_stop_timer) (stp_set_port_state i STP_BLOCKING t))"
    if "enabled t i" for t
    using that
    by (auto intro!: evolves_trans [OF set_port_state_evolves [where st = STP_BLOCKING] core_evolves] core_upd_port)
  have "evolves s (stp_topology_change_detection s)" by (rule core_evolves) simp
  then show ?thesis
    using * [of s] * [of "stp_topology_change_detection s"]
    unfolding stp_make_blocking_def Let_def by (auto intro: evolves_trans)
qed

lemma port_state_selection_step_evolves: "evolves s (port_state_selection_step i s)"
  unfolding port_state_selection_step_def
  by (auto intro!: evolves_trans [OF core_evolves make_forwarding_evolves]
      evolves_trans [OF core_evolves make_blocking_evolves] core_upd_port)

lemma port_state_selection_evolves: "evolves s (stp_port_state_selection s)"
  unfolding stp_port_state_selection_def
  by (rule for_each_evolves) (rule port_state_selection_step_evolves)

text \<open>The fields that say which ports are root and designated ports.\<close>

definition role_port where
  "role_port p = (port_id p, designated_bridge p, designated_port p)"

definition roles where
  "roles s = (bridge_id s, designated_root s, root_path_cost s, root_port s, map role_port (ports s))"

definition selected_state :: "stp \<Rightarrow> nat \<Rightarrow> stp_state" where
  "selected_state s i =
     (let st = port_state (port s i) in
      if st = STP_DISABLED then STP_DISABLED
      else if root_port s = Some i \<or> stp_is_designated_port s i then
        (if st = STP_BLOCKING then STP_LISTENING else st)
      else STP_BLOCKING)"

lemma roles_upd_port:
  assumes "\<And>p. role_port (f p) = role_port p"
  shows "roles (upd_port i f s) = roles s"
  using assms by (simp add: roles_def map_update_same)

lemma roles_set_port_state [simp]: "roles (stp_set_port_state i st s) = roles s"
  using map_update_same [of role_port "\<lambda>p. p\<lparr>port_state := st,
     state_changed := state_changed p \<or> st \<noteq> port_state p\<rparr>" "ports s" i]
  by (simp add: roles_def ports_set_port_state role_port_def)

lemma roles_topology_change_detection [simp]: "roles (stp_topology_change_detection s) = roles s"
  by (simp add: roles_def)

lemma roles_designated:
  assumes "roles s' = roles s" and "i < length (ports s)"
  shows "stp_is_designated_port s' i = stp_is_designated_port s i"
    "root_port s' = root_port s" "length (ports s') = length (ports s)"
proof -
  from assms(1) have e: "map role_port (ports s') = map role_port (ports s)" and b: "bridge_id s' = bridge_id s"
    by (simp_all add: roles_def)
  then show l: "length (ports s') = length (ports s)" by (metis length_map)
  from e have "map role_port (ports s') ! i = map role_port (ports s) ! i" by simp
  with l assms(2) b show "stp_is_designated_port s' i = stp_is_designated_port s i"
    by (simp add: stp_is_designated_port_def role_port_def)
  show "root_port s' = root_port s" using assms(1) by (simp add: roles_def)
qed

lemma role_port_updates [simp]:
  "role_port (p\<lparr>topology_change_ack := b\<rparr>) = role_port p" "role_port (p\<lparr>config_pending := b\<rparr>) = role_port p"
  "role_port (message_age_timer_update f p) = role_port p"
  "role_port (forward_delay_timer_update f p) = role_port p"
  by (simp_all add: role_port_def)

lemma roles_selection_step [simp]: "roles (port_state_selection_step i s) = roles s"
  by (simp add: port_state_selection_step_def stp_make_forwarding_def stp_make_blocking_def Let_def roles_upd_port)

lemma selection_step_states:
  assumes "i < length (ports s)" and "enabled s i"
  shows "port_state (port (port_state_selection_step i s) i) = selected_state s i"
    and "j \<noteq> i \<Longrightarrow> port_state (port (port_state_selection_step i s) j) = port_state (port s j)"
  using assms
  by (auto simp: port_state_selection_step_def stp_make_forwarding_def stp_make_blocking_def
      selected_state_def Let_def ports_set_port_state)

lemma port_state_selection_states:
  assumes len: "length (ports s) = STP_MAX_PORTS"
  shows "roles (stp_port_state_selection s) = roles s \<and>
    (\<forall>j < STP_MAX_PORTS. port_state (port (stp_port_state_selection s) j) = selected_state s j)"
proof -
  let ?P = "\<lambda>k t. roles t = roles s \<and> (\<forall>j < STP_MAX_PORTS. port_state (port t j) =
    (if j < k then selected_state s j else port_state (port s j)))"
  have sel: "selected_state t i = selected_state s i"
    if "roles t = roles s" "port_state (port t i) = port_state (port s i)" "i < STP_MAX_PORTS" for t i
    using roles_designated [OF that(1), of i] that len by (simp add: selected_state_def Let_def)
  have len': "length (ports t) = STP_MAX_PORTS" if "roles t = roles s" for t
    using that len unfolding roles_def by (metis length_map prod.inject)
  have "?P STP_MAX_PORTS (stp_port_state_selection s)"
    unfolding stp_port_state_selection_def
  proof (rule for_each_enabled_port_upto [where P = ?P])
    show "?P 0 s" by simp
  next
    fix i t
    assume i: "i < STP_MAX_PORTS" "enabled t i" and P: "?P i t"
    have "port_state (port t i) = port_state (port s i)" using i P by simp
    then have "port_state (port (port_state_selection_step i t) i) = selected_state s i"
      using selection_step_states(1) [of i t] sel [of t i] i P len' [of t] by simp
    then show "?P (Suc i) (port_state_selection_step i t)"
      using selection_step_states(2) [of i t] i P len' [of t] by (auto simp: less_Suc_eq)
  next
    fix i t
    assume i: "i < STP_MAX_PORTS" "\<not> enabled t i" and P: "?P i t"
    then have "selected_state s i = port_state (port s i)" by (auto simp: selected_state_def)
    then show "?P (Suc i) t" using P by (auto simp: less_Suc_eq)
  qed
  then show ?thesis by simp
qed


section \<open>Root selection\<close>

text \<open>The priority vector of a port: smaller is better (8.6.8 of the standard).\<close>

definition root_vector :: "stp_port \<Rightarrow> stp_identifier \<times> int \<times> stp_identifier \<times> int \<times> int" where
  "root_vector p = (port_designated_root p, sint (designated_cost p + path_cost p), designated_bridge p,
     sint (designated_port p), sint (port_id p))"

definition root_candidate :: "stp \<Rightarrow> nat \<Rightarrow> bool" where
  "root_candidate s i \<longleftrightarrow> i < STP_MAX_PORTS \<and> enabled s i \<and> \<not> stp_is_designated_port s i \<and>
     port_designated_root (port s i) < bridge_id s"

lemma supersedes_root_vector: "stp_supersedes_root r p \<longleftrightarrow> root_vector p < root_vector r"
proof -
  have "a = b \<longleftrightarrow> sint a = sint b" for a b :: c_int by (auto intro: signed_word_eqI)
  then show ?thesis by (auto simp: stp_supersedes_root_def root_vector_def Let_def)
qed

lemma root_selection_fold:
  assumes "k \<le> STP_MAX_PORTS"
  shows "case fold (root_selection_step s) [0..<k] None of
      None \<Rightarrow> (\<forall>j < k. \<not> root_candidate s j)
    | Some r \<Rightarrow> r < k \<and> root_candidate s r \<and>
        (\<forall>j < k. root_candidate s j \<longrightarrow> root_vector (port s r) \<le> root_vector (port s j))"
  using assms
proof (induction k)
  case 0
  then show ?case by simp
next
  case (Suc k)
  have step: "root_selection_step s k root = (if root_candidate s k then
      (case root of None \<Rightarrow> Some k
       | Some r \<Rightarrow> if root_vector (port s k) < root_vector (port s r) then Some k else Some r) else root)" for root
    using Suc.prems
    by (auto simp: root_selection_step_def root_candidate_def supersedes_root_vector not_le split: option.split)
  have "fold (root_selection_step s) [0..<Suc k] None =
      root_selection_step s k (fold (root_selection_step s) [0..<k] None)" by simp
  with Suc step show ?case
    by (auto simp: less_Suc_eq not_less split: option.splits if_splits intro: order_trans less_imp_le)
qed

lemma root_selection_fields [simp]:
  "bridge_id (stp_root_selection s) = bridge_id s" "ports (stp_root_selection s) = ports s"
  "lite (stp_root_selection s) = lite s"
  by (simp_all add: stp_root_selection_def Let_def lite_def split: option.split)

lemma root_selection_cases:
  obtains (none) "root_port (stp_root_selection s) = None" "\<And>i. \<not> root_candidate s i"
      "designated_root (stp_root_selection s) = bridge_id s" "root_path_cost (stp_root_selection s) = 0"
  | (some) r where "root_port (stp_root_selection s) = Some r" "root_candidate s r"
      "\<And>i. root_candidate s i \<Longrightarrow> root_vector (port s r) \<le> root_vector (port s i)"
      "designated_root (stp_root_selection s) = port_designated_root (port s r)"
      "root_path_cost (stp_root_selection s) = designated_cost (port s r) + path_cost (port s r)"
proof (cases "fold (root_selection_step s) [0..<STP_MAX_PORTS] None")
  case None
  then have "\<not> root_candidate s i" for i
    using root_selection_fold [of STP_MAX_PORTS s] by (auto simp: root_candidate_def)
  with None show ?thesis by (intro none) (auto simp: stp_root_selection_def)
next
  case (Some r)
  then have "root_candidate s r" "root_candidate s i \<Longrightarrow> root_vector (port s r) \<le> root_vector (port s i)" for i
    using root_selection_fold [of STP_MAX_PORTS s] by (auto simp: root_candidate_def)
  with Some show ?thesis by (intro some) (auto simp: stp_root_selection_def)
qed

text \<open>
  What the rest of the entity may rely on: the root is at least as good as this bridge, this bridge is
  the root exactly when there is no root port, and the root port is an enabled port.
\<close>

definition root_ok :: "stp \<Rightarrow> bool" where
  "root_ok s \<longleftrightarrow> designated_root s \<le> bridge_id s \<and> (stp_is_root_bridge s \<longleftrightarrow> root_port s = None) \<and>
     (\<forall>r. root_port s = Some r \<longrightarrow> r < STP_MAX_PORTS \<and> enabled s r)"

lemma root_selection_root_ok: "root_ok (stp_root_selection s)"
  by (cases s rule: root_selection_cases)
    (auto simp: root_ok_def stp_is_root_bridge_def root_candidate_def)


section \<open>Designated ports and re-selection\<close>

lemma lite_port_updates [simp]:
  "lite_port (p\<lparr>port_designated_root := a\<rparr>) = lite_port p" "lite_port (p\<lparr>designated_cost := c\<rparr>) = lite_port p"
  "lite_port (p\<lparr>designated_bridge := a\<rparr>) = lite_port p" "lite_port (p\<lparr>designated_port := c\<rparr>) = lite_port p"
  "lite_port (p\<lparr>path_cost := c\<rparr>) = lite_port p" "lite_port (message_age_timer_update f p) = lite_port p"
  "lite_port (designated_bridge_update g p) = lite_port p"
  by (simp_all add: lite_port_def)

lemma become_designated_fields [simp]:
  "lite (stp_become_designated_port i s) = lite s"
  "bridge_id (stp_become_designated_port i s) = bridge_id s"
  "designated_root (stp_become_designated_port i s) = designated_root s"
  "root_path_cost (stp_become_designated_port i s) = root_path_cost s"
  "root_port (stp_become_designated_port i s) = root_port s"
  by (simp_all add: stp_become_designated_port_def lite_upd_port)

definition top_fields where
  "top_fields s = (bridge_id s, designated_root s, root_path_cost s, root_port s)"

lemma designated_port_selection_fields [simp]:
  "lite (stp_designated_port_selection s) = lite s \<and> top_fields (stp_designated_port_selection s) = top_fields s"
  unfolding stp_designated_port_selection_def
  by (rule for_each_enabled_port_inv) (auto simp: Let_def top_fields_def)

lemma lite_configuration_update [simp]: "lite (stp_configuration_update s) = lite s"
  using designated_port_selection_fields [of "stp_root_selection s"] by (simp add: stp_configuration_update_def)

lemma lite_state:
  assumes "lite s' = lite s" and "i < length (ports s)"
  shows "port_state (port s' i) = port_state (port s i)"
  using lite_port_eq(3) [OF assms] by (simp add: lite_port_def)

lemma root_ok_transfer:
  assumes "root_ok s" and "top_fields s' = top_fields s" and "length (ports s) = STP_MAX_PORTS"
    and "\<And>i. i < STP_MAX_PORTS \<Longrightarrow> enabled s i \<Longrightarrow> enabled s' i"
  shows "root_ok s'"
  using assms unfolding root_ok_def top_fields_def stp_is_root_bridge_def by auto

lemma configuration_update_root_ok:
  assumes "length (ports s) = STP_MAX_PORTS"
  shows "root_ok (stp_configuration_update s)"
proof -
  let ?r = "stp_root_selection s"
  have *: "lite (stp_designated_port_selection ?r) = lite ?r"
    "top_fields (stp_designated_port_selection ?r) = top_fields ?r"
    using designated_port_selection_fields [of ?r] by simp_all
  show ?thesis unfolding stp_configuration_update_def
    using root_ok_transfer [OF root_selection_root_ok *(2)] lite_state [OF *(1)] assms by simp
qed

text \<open>
  The safety of the active topology: a port that listens, learns or forwards is the root port or the
  designated port of its network.
\<close>

definition topology_safe :: "stp \<Rightarrow> bool" where
  "topology_safe s \<longleftrightarrow> (\<forall>i < STP_MAX_PORTS. enabled s i \<and> port_state (port s i) \<noteq> STP_BLOCKING \<longrightarrow>
     root_port s = Some i \<or> stp_is_designated_port s i)"

definition stp_inv :: "stp \<Rightarrow> bool" where
  "stp_inv s \<longleftrightarrow> stp_wf s \<and> root_ok s \<and> topology_safe s"

lemma wf_length: "stp_wf s \<Longrightarrow> length (ports s) = STP_MAX_PORTS"
  by (simp add: stp_wf_def)

lemma port_state_selection_inv:
  assumes "stp_wf s" and "root_ok s"
  shows "stp_inv (stp_port_state_selection s)"
proof -
  let ?t = "stp_port_state_selection s"
  have len: "length (ports s) = STP_MAX_PORTS" using assms(1) by (rule wf_length)
  have e: "stp_wf ?t" "calm s ?t"
    using port_state_selection_evolves [of s] assms(1) by (simp_all add: evolves_def)
  have r: "roles ?t = roles s" and st: "\<And>j. j < STP_MAX_PORTS \<Longrightarrow> port_state (port ?t j) = selected_state s j"
    using port_state_selection_states [OF len] by simp_all
  have "top_fields ?t = top_fields s" using r by (simp add: roles_def top_fields_def)
  then have "root_ok ?t"
    by (rule root_ok_transfer [OF assms(2) _ len]) (use e(2) in \<open>simp add: calm_def\<close>)
  moreover have "topology_safe ?t"
    using roles_designated [OF r] st len
    by (auto simp: topology_safe_def selected_state_def Let_def split: if_splits)
  ultimately show ?thesis using e(1) by (simp add: stp_inv_def)
qed

lemma core_inv: 
  assumes "core s' = core s" and "stp_inv s"
  shows "stp_inv s'"
proof -
  have w: "stp_wf s" and len: "length (ports s) = STP_MAX_PORTS" using assms(2) wf_length by (auto simp: stp_inv_def)
  have p: "core_port (port s' i) = core_port (port s i)" if "i < STP_MAX_PORTS" for i
    using core_port_eq(1) [OF assms(1)] that len by simp
  have f: "bridge_id s' = bridge_id s" "root_port s' = root_port s" "designated_root s' = designated_root s"
    using core_fields [OF assms(1)] by simp_all
  have "stp_wf s'" using lite_wf [OF core_lite [OF assms(1)]] w .
  moreover have "root_ok s'"
    by (rule root_ok_transfer [OF _ _ len])
      (use assms(2) p core_fields [OF assms(1)] in \<open>auto simp: stp_inv_def top_fields_def core_port_def\<close>)
  moreover have "topology_safe s'"
    using assms(2) p f unfolding stp_inv_def topology_safe_def stp_is_designated_port_def core_port_def by simp
  ultimately show ?thesis by (simp add: stp_inv_def)
qed

text \<open>Every operation that changes what the tree depends on ends with this pair of calls.\<close>

lemma reselect:
  assumes "stp_wf s"
  shows "stp_inv (stp_port_state_selection (stp_configuration_update s))"
    and "evolves s (stp_port_state_selection (stp_configuration_update s))"
proof -
  have l: "lite (stp_configuration_update s) = lite s" by simp
  show "stp_inv (stp_port_state_selection (stp_configuration_update s))"
    by (rule port_state_selection_inv [OF lite_wf [OF l assms] configuration_update_root_ok [OF wf_length [OF assms]]])
  show "evolves s (stp_port_state_selection (stp_configuration_update s))"
    by (rule evolves_trans [OF lite_evolves [OF l] port_state_selection_evolves])
qed


section \<open>Every operation keeps the invariant\<close>

text \<open>\<open>keeps f\<close>: from a good state, \<open>f\<close> leads to a good state and only evolves the port states.\<close>

definition keeps :: "(stp \<Rightarrow> stp) \<Rightarrow> bool" where
  "keeps f \<longleftrightarrow> (\<forall>s. stp_inv s \<longrightarrow> stp_inv (f s) \<and> evolves s (f s))"

lemma keepsI: "(\<And>s. stp_inv s \<Longrightarrow> stp_inv (f s)) \<Longrightarrow> (\<And>s. stp_inv s \<Longrightarrow> evolves s (f s)) \<Longrightarrow> keeps f"
  by (simp add: keeps_def)

lemma keepsD: "keeps f \<Longrightarrow> stp_inv s \<Longrightarrow> stp_inv (f s)" "keeps f \<Longrightarrow> stp_inv s \<Longrightarrow> evolves s (f s)"
  by (simp_all add: keeps_def)

lemma keeps_core: "(\<And>s. core (f s) = core s) \<Longrightarrow> keeps f"
  using core_inv core_evolves by (auto simp: keeps_def)

lemma keeps_for_each:
  assumes "\<And>i. i < STP_MAX_PORTS \<Longrightarrow> keeps (body i)"
  shows "keeps (for_each_enabled_port body)"
proof (rule keepsI)
  fix s
  assume s: "stp_inv s"
  have "stp_inv (for_each_enabled_port body s) \<and> evolves s (for_each_enabled_port body s)"
    by (rule for_each_enabled_port_inv) (use s assms in \<open>auto simp: keeps_def intro: evolves_trans\<close>)
  then show "stp_inv (for_each_enabled_port body s)" "evolves s (for_each_enabled_port body s)" by simp_all
qed

text \<open>A change of what the tree depends on, followed by re-selection.\<close>

lemma reselect_after:
  assumes "stp_wf s" and "lite t = lite s"
  shows "stp_inv (stp_port_state_selection (stp_configuration_update t))"
    and "evolves s (stp_port_state_selection (stp_configuration_update t))"
  using reselect [OF lite_wf [OF assms(2,1)]] lite_evolves [OF assms(2)] by (auto intro: evolves_trans)

lemma inv_wf: "stp_inv s \<Longrightarrow> stp_wf s"
  by (simp add: stp_inv_def)

lemma become_root_bridge_keeps: "keeps stp_become_root_bridge"
  by (rule keeps_core) simp

lemma keeps_reselect:
  assumes l: "\<And>s. lite (g s) = lite s"
    and c: "\<And>s. core (f s) = core s \<or> core (f s) = core (stp_port_state_selection (stp_configuration_update (g s)))"
  shows "keeps f"
proof (rule keepsI)
  fix s
  let ?t = "stp_port_state_selection (stp_configuration_update (g s))"
  assume s: "stp_inv s"
  have t: "stp_inv ?t" "evolves s ?t" by (rule reselect_after [OF inv_wf [OF s] l])+
  show "stp_inv (f s)" using c [of s] core_inv s t(1) by blast
  show "evolves s (f s)" using c [of s] core_evolves evolves_trans [OF t(2)] by blast
qed

lemma message_age_expiry_keeps: "keeps (stp_message_age_timer_expiry i)"
  by (rule keeps_reselect [where g = "stp_become_designated_port i"])
    (simp_all add: stp_message_age_timer_expiry_def Let_def)

lemma received_config_keeps: "keeps (stp_received_config_bpdu i config)"
  by (rule keeps_reselect [where g = "stp_record_config_information i config"])
    (simp_all add: stp_received_config_bpdu_def stp_record_config_information_def lite_upd_port Let_def)

lemma received_tcn_keeps: "keeps (stp_received_tcn_bpdu i)"
  by (rule keeps_core) (simp add: stp_received_tcn_bpdu_def)

lemma received_bpdu_keeps: "keeps (stp_received_bpdu i bpdu)"
  using keepsD [OF received_config_keeps] keepsD [OF received_tcn_keeps]
  by (auto intro!: keepsI simp: stp_received_bpdu_def Let_def)

lemma set_bridge_id_port_lite: "lite (for_each_enabled_port (set_bridge_id_port b) s) = lite s"
  by (rule for_each_enabled_port_inv) (simp_all add: set_bridge_id_port_def lite_upd_port)

lemma set_bridge_id_keeps: "keeps (set_bridge_id b)"
proof (rule keeps_reselect [where g = "\<lambda>s. (for_each_enabled_port (set_bridge_id_port b) s)\<lparr>bridge_id := b\<rparr>"])
  show "lite ((for_each_enabled_port (set_bridge_id_port b) s)\<lparr>bridge_id := b\<rparr>) = lite s" for s
    using set_bridge_id_port_lite [of b s] by (simp add: lite_def)
qed (simp add: set_bridge_id_def Let_def)

lemma set_path_cost_keeps: "keeps (stp_port_set_path_cost i c)"
  by (rule keeps_reselect [where g = "upd_port i (path_cost_update (\<lambda>_. c))"])
    (simp_all add: stp_port_set_path_cost_def lite_upd_port)

lemma change_detection_keeps:
  "keeps (stp_port_enable_change_detection i)" "keeps (stp_port_disable_change_detection i)"
  by (rule keeps_core; simp add: stp_port_enable_change_detection_def
      stp_port_disable_change_detection_def core_upd_port)+

lemma tick_message_age_keeps: "keeps (tick_message_age e i)"
proof (rule keepsI)
  fix s
  assume s: "stp_inv s"
  define t where "t = upd_port i (message_age_timer_update
    (\<lambda>_. snd (stp_timer_expired (message_age_timer (port s i)) e (max_age s)))) s"
  have c: "core t = core s" by (simp add: t_def core_upd_port)
  have t: "tick_message_age e i s = t \<or> tick_message_age e i s = stp_message_age_timer_expiry i t"
    by (simp add: tick_message_age_def t_def split_beta Let_def)
  have "stp_inv t" "evolves s t" using core_inv [OF c s] core_evolves [OF c] by simp_all
  then show "stp_inv (tick_message_age e i s)" "evolves s (tick_message_age e i s)"
    using t keepsD [OF message_age_expiry_keeps] evolves_trans by metis+
qed

text \<open>The last loop of a tick is where ports move on: each port at most one state.\<close>

lemma set_state_inv:
  assumes "stp_inv s" and "enabled s i" and "port_state (port s i) \<noteq> STP_BLOCKING"
    and "st \<noteq> STP_DISABLED"
  shows "stp_inv (stp_set_port_state i st s)"
proof -
  let ?t = "stp_set_port_state i st s"
  have w: "stp_wf s" and len: "length (ports s) = STP_MAX_PORTS" using assms(1) wf_length by (auto simp: stp_inv_def)
  have r: "roles ?t = roles s" by simp
  have st: "port_state (port ?t j) = (if j = i \<and> j < STP_MAX_PORTS then st else port_state (port s j))" for j
    using len by (simp add: ports_set_port_state nth_list_update_if)
  have "root_ok ?t"
    by (rule root_ok_transfer [OF _ _ len]) (use assms st in \<open>auto simp: stp_inv_def top_fields_def\<close>)
  moreover have "topology_safe ?t"
    unfolding topology_safe_def using roles_designated [OF r] assms st len
    by (auto simp: stp_inv_def topology_safe_def)
  ultimately show ?thesis using set_port_state_wf(1) [OF w] by (simp add: stp_inv_def)
qed

fun advance :: "stp_state \<Rightarrow> stp_state" where
  "advance STP_LISTENING = STP_LEARNING"
| "advance STP_LEARNING = STP_FORWARDING"
| "advance st = st"

lemma forward_delay_core:
  "core (stp_forward_delay_timer_expiry i s) =
     core (if advance (port_state (port s i)) = port_state (port s i) then s
           else stp_set_port_state i (advance (port_state (port s i))) s)"
  by (cases "port_state (port s i)") (auto simp: stp_forward_delay_timer_expiry_def Let_def core_upd_port)

lemma forward_delay_expiry:
  assumes "stp_inv s"
  shows "stp_inv (stp_forward_delay_timer_expiry i s)"
    and "notified s (stp_forward_delay_timer_expiry i s)"
    and "j < STP_MAX_PORTS \<Longrightarrow> port_state (port (stp_forward_delay_timer_expiry i s) j) =
      (if j = i then advance (port_state (port s j)) else port_state (port s j))"
proof -
  define st where "st = port_state (port s i)"
  define u where "u = (if advance st = st then s else stp_set_port_state i (advance st) s)"
  have c: "core (stp_forward_delay_timer_expiry i s) = core u"
    unfolding u_def st_def by (rule forward_delay_core)
  have w: "stp_wf s" and len: "length (ports s) = STP_MAX_PORTS" using assms wf_length by (auto simp: stp_inv_def)
  have u: "stp_inv u \<and> notified s u \<and> length (ports u) = STP_MAX_PORTS"
    using set_state_inv [OF assms, of i "advance st"] set_port_state_wf(2) [OF w] assms len
    by (cases st) (auto simp: u_def st_def ports_set_port_state)
  then show "stp_inv (stp_forward_delay_timer_expiry i s)" using core_inv [OF c] by blast
  show "notified s (stp_forward_delay_timer_expiry i s)"
    using core_evolves [OF c] u inv_wf notified_trans unfolding evolves_def by blast
  have "port_state (port u j) = (if j = i then advance (port_state (port s j)) else port_state (port s j))"
    if "j < STP_MAX_PORTS" for j
    using that len by (auto simp: u_def st_def ports_set_port_state nth_list_update_if)
  then show "j < STP_MAX_PORTS \<Longrightarrow> port_state (port (stp_forward_delay_timer_expiry i s) j) =
      (if j = i then advance (port_state (port s j)) else port_state (port s j))"
    using core_port_eq(1) [OF c] u by (simp add: core_port_def)
qed

lemma tick_forward_hold:
  assumes "stp_inv s"
  shows "stp_inv (tick_forward_hold e i s)" and "notified s (tick_forward_hold e i s)"
    and "j < STP_MAX_PORTS \<Longrightarrow> j \<noteq> i \<Longrightarrow>
      port_state (port (tick_forward_hold e i s) j) = port_state (port s j)"
    and "i < STP_MAX_PORTS \<Longrightarrow> port_state (port (tick_forward_hold e i s) i) = port_state (port s i)
      \<or> port_state (port (tick_forward_hold e i s) i) = advance (port_state (port s i))"
proof -
  define t where "t = upd_port i (forward_delay_timer_update
    (\<lambda>_. snd (stp_timer_expired (forward_delay_timer (port s i)) e (forward_delay s)))) s"
  define u where "u = (if fst (stp_timer_expired (forward_delay_timer (port s i)) e (forward_delay s))
    then stp_forward_delay_timer_expiry i t else t)"
  have ct: "core t = core s" by (simp add: t_def core_upd_port)
  have cu: "core (tick_forward_hold e i s) = core u"
    by (simp add: tick_forward_hold_def t_def u_def Let_def split_beta core_upd_port)
  have t: "stp_inv t" "notified s t" "length (ports s) = STP_MAX_PORTS"
    using core_inv [OF ct] core_evolves [OF ct] assms wf_length by (auto simp: evolves_def stp_inv_def)
  have u: "stp_inv u" "notified s u"
    using t forward_delay_expiry(1,2) [OF t(1)] notified_trans by (auto simp: u_def)
  then show "stp_inv (tick_forward_hold e i s)" "notified s (tick_forward_hold e i s)"
    using core_inv [OF cu] core_evolves [OF cu] inv_wf notified_trans unfolding evolves_def by blast+
  have len: "length (ports u) = STP_MAX_PORTS" using u(1) inv_wf wf_length by blast
  have st: "port_state (port (tick_forward_hold e i s) j) = port_state (port u j)"
    "port_state (port t j) = port_state (port s j)" if "j < STP_MAX_PORTS" for j
    using core_port_eq(1) [OF cu] core_port_eq(1) [OF ct] t(3) len that by (simp_all add: core_port_def)
  show "j < STP_MAX_PORTS \<Longrightarrow> j \<noteq> i \<Longrightarrow>
      port_state (port (tick_forward_hold e i s) j) = port_state (port s j)"
    using st forward_delay_expiry(3) [OF t(1)] by (simp add: u_def)
  show "i < STP_MAX_PORTS \<Longrightarrow> port_state (port (tick_forward_hold e i s) i) = port_state (port s i)
      \<or> port_state (port (tick_forward_hold e i s) i) = advance (port_state (port s i))"
    using st forward_delay_expiry(3) [OF t(1), of i i] by (simp add: u_def)
qed


text \<open>No port moves on to learning or forwarding.\<close>

definition no_advance :: "stp \<Rightarrow> stp \<Rightarrow> bool" where
  "no_advance s s' \<longleftrightarrow> (\<forall>i < STP_MAX_PORTS.
     port_state (port s' i) = STP_LEARNING \<or> port_state (port s' i) = STP_FORWARDING \<longrightarrow>
     port_state (port s' i) = port_state (port s i))"

lemma no_advance_trans: "no_advance s t \<Longrightarrow> no_advance t u \<Longrightarrow> no_advance s u"
  unfolding no_advance_def by metis

lemma evolvesD:
  assumes "evolves s t" and "stp_wf s"
  shows "stp_wf t" "notified s t" "calm s t" "no_advance s t"
  using assms by (auto simp: evolves_def calm_def no_advance_def)

lemma tick_last_loop:
  fixes s :: stp and e :: c_int
  assumes "stp_inv s"
  defines "t \<equiv> for_each_enabled_port (tick_forward_hold e) s"
  shows "stp_inv t" and "notified s t"
    and "i < STP_MAX_PORTS \<Longrightarrow> port_state (port t i) = port_state (port s i) \<or>
      port_state (port t i) = advance (port_state (port s i))"
proof -
  let ?P = "\<lambda>k u. stp_inv u \<and> notified s u \<and> (\<forall>j < STP_MAX_PORTS.
    port_state (port u j) = port_state (port s j) \<or> j < k \<and> port_state (port u j) = advance (port_state (port s j)))"
  have "?P STP_MAX_PORTS t" unfolding t_def
  proof (rule for_each_enabled_port_upto [where P = ?P])
    show "?P 0 s" using assms by simp
  next
    fix i u
    assume i: "i < STP_MAX_PORTS" and P: "?P i u"
    then have "stp_inv u" "port_state (port u i) = port_state (port s i)" by auto
    note T = tick_forward_hold [OF this(1), where e = e and i = i] and eq = this(2)
    have "port_state (port (tick_forward_hold e i u) j) = port_state (port s j) \<or>
      j < Suc i \<and> port_state (port (tick_forward_hold e i u) j) = advance (port_state (port s j))"
      if "j < STP_MAX_PORTS" for j
      using P T(3) [OF that] T(4) [OF i] eq that by (cases "j = i") (simp, fastforce)
    then show "?P (Suc i) (tick_forward_hold e i u)" using T(1,2) P notified_trans by blast
  next
    fix i u
    assume "?P i u"
    then show "?P (Suc i) u" by (auto simp: less_Suc_eq)
  qed
  then show "stp_inv t" "notified s t" "i < STP_MAX_PORTS \<Longrightarrow> port_state (port t i) = port_state (port s i) \<or>
      port_state (port t i) = advance (port_state (port s i))" by auto
qed

lemma tick_keeps:
  assumes "stp_inv s"
  shows "stp_inv (stp_tick e s)" and "notified s (stp_tick e s)"
    and "i < STP_MAX_PORTS \<Longrightarrow> port_state (port (stp_tick e s) i) = STP_FORWARDING \<Longrightarrow>
      port_state (port s i) = STP_FORWARDING \<or> port_state (port s i) = STP_LEARNING"
proof -
  obtain u where c: "core u = core s"
    and t: "stp_tick e s = for_each_enabled_port (tick_forward_hold e) (for_each_enabled_port (tick_message_age e) u)"
  proof
    define u1 where "u1 = s\<lparr>hello_timer := snd (stp_timer_expired (hello_timer s) e (hello_time s))\<rparr>"
    define u2 where "u2 = (if fst (stp_timer_expired (hello_timer s) e (hello_time s))
      then stp_hello_timer_expiry u1 else u1)"
    define u3 where "u3 = u2\<lparr>tcn_timer := snd (stp_timer_expired (tcn_timer u2) e (bridge_hello_time u2))\<rparr>"
    define u4 where "u4 = (if fst (stp_timer_expired (tcn_timer u2) e (bridge_hello_time u2))
      then stp_tcn_timer_expiry u3 else u3)"
    define u5 where "u5 = u4\<lparr>topology_change_timer :=
      snd (stp_timer_expired (topology_change_timer u4) e (max_age u4 + forward_delay u4))\<rparr>"
    define u6 where "u6 = (if fst (stp_timer_expired (topology_change_timer u4) e (max_age u4 + forward_delay u4))
      then stp_topology_change_timer_expiry u5 else u5)"
    show "core u6 = core s" by (simp add: u6_def u5_def u4_def u3_def u2_def u1_def)
    show "stp_tick e s = for_each_enabled_port (tick_forward_hold e) (for_each_enabled_port (tick_message_age e) u6)"
      by (simp add: stp_tick_def Let_def split_beta u6_def u5_def u4_def u3_def u2_def u1_def)
  qed
  define v where "v = for_each_enabled_port (tick_message_age e) u"
  have u: "stp_inv u" "evolves s u" using core_inv [OF c assms] core_evolves [OF c] by simp_all
  have "keeps (for_each_enabled_port (tick_message_age e))"
    by (rule keeps_for_each) (rule tick_message_age_keeps)
  then have v: "stp_inv v" "evolves s v" using u evolves_trans unfolding v_def keeps_def by blast+
  have w: "notified s v" "no_advance s v" using evolvesD [OF v(2) inv_wf [OF assms]] by simp_all
  have t': "stp_tick e s = for_each_enabled_port (tick_forward_hold e) v" by (simp add: t v_def)
  show "stp_inv (stp_tick e s)" "notified s (stp_tick e s)"
    using tick_last_loop(1,2) [OF v(1)] notified_trans [OF w(1)] by (simp_all add: t')
  show "i < STP_MAX_PORTS \<Longrightarrow> port_state (port (stp_tick e s) i) = STP_FORWARDING \<Longrightarrow>
      port_state (port s i) = STP_FORWARDING \<or> port_state (port s i) = STP_LEARNING"
    using tick_last_loop(3) [OF v(1), of i e] w(2) unfolding t' no_advance_def
    by (cases "port_state (port v i)") auto
qed

lemma initialize_or_disable:
  assumes w: "stp_wf s" and st: "st = STP_BLOCKING \<or> st = STP_DISABLED"
    and f: "\<And>p. core_port (f p) = core_port p"
    and t_def: "t = upd_port i f (stp_set_port_state i st (stp_become_designated_port i s))"
  shows "stp_wf t" "notified s t" "no_advance s t" "top_fields t = top_fields s"
    and "j < STP_MAX_PORTS \<Longrightarrow> port_state (port t j) = (if j = i then st else port_state (port s j))"
proof -
  define a where "a = stp_become_designated_port i s"
  define b where "b = stp_set_port_state i st a"
  have la: "lite a = lite s" by (simp add: a_def)
  have cb: "core t = core b" by (simp add: t_def b_def a_def core_upd_port f)
  have wa: "stp_wf a" "notified s a" "no_advance s a" using evolvesD [OF lite_evolves [OF la] w] by simp_all
  have wb: "stp_wf b" "notified a b" using set_port_state_wf [OF wa(1)] by (simp_all add: b_def)
  have wt: "stp_wf t" "notified b t" using evolvesD [OF core_evolves [OF cb] wb(1)] by simp_all
  show "stp_wf t" "notified s t" using wt notified_trans wa(2) wb(2) by blast+
  show "top_fields t = top_fields s" by (simp add: t_def top_fields_def)
  have len: "length (ports a) = STP_MAX_PORTS" "length (ports s) = STP_MAX_PORTS" "length (ports b) = STP_MAX_PORTS"
    using wa(1) w wb(1) wf_length by auto
  have st: "port_state (port t j) = (if j = i then st else port_state (port s j))" if "j < STP_MAX_PORTS" for j
    using core_port_eq(1) [OF cb, of j] lite_state [OF la, of j] that len
    by (simp add: core_port_def b_def ports_set_port_state nth_list_update_if)
  then show "j < STP_MAX_PORTS \<Longrightarrow> port_state (port t j) = (if j = i then st else port_state (port s j))" .
  show "no_advance s t" using st assms(2) by (auto simp: no_advance_def split: if_splits)
qed

lemma port_disable_keeps:
  assumes "stp_inv s"
  shows "stp_inv (stp_port_disable i s)" "notified s (stp_port_disable i s)" "no_advance s (stp_port_disable i s)"
proof -
  let ?f = "\<lambda>p. p\<lparr>topology_change_ack := False, config_pending := False,
     message_age_timer := stp_stop_timer (message_age_timer p),
     forward_delay_timer := stp_stop_timer (forward_delay_timer p)\<rparr>"
  define t where "t = upd_port i ?f (stp_set_port_state i STP_DISABLED (stp_become_designated_port i s))"
  define r where "r = stp_port_state_selection (stp_configuration_update t)"
  have f: "core_port (?f p) = core_port p" for p by (simp add: core_port_def)
  have t: "stp_wf t" "notified s t" "no_advance s t"
    using initialize_or_disable [OF inv_wf [OF assms] _ f t_def] by simp_all
  have r: "stp_inv r" "evolves t r" using reselect [OF t(1)] by (simp_all add: r_def)
  have c: "stp_port_disable i s = s \<or> core (stp_port_disable i s) = core r"
    by (simp add: stp_port_disable_def Let_def r_def t_def)
  have "notified s (stp_port_disable i s) \<and> no_advance s (stp_port_disable i s)
    \<and> stp_inv (stp_port_disable i s)" if "core (stp_port_disable i s) = core r"
  proof -
    have "evolves t (stp_port_disable i s)" using evolves_trans [OF r(2) core_evolves [OF that]] .
    then show ?thesis using evolvesD [OF _ t(1)] t notified_trans no_advance_trans core_inv [OF that r(1)] by blast
  qed
  moreover have "no_advance s s" by (simp add: no_advance_def)
  ultimately show "stp_inv (stp_port_disable i s)" "notified s (stp_port_disable i s)"
    "no_advance s (stp_port_disable i s)" using c assms notified_refl by metis+
qed

lemma port_enable_keeps:
  assumes "stp_inv s"
  shows "stp_inv (stp_port_enable i s)" "notified s (stp_port_enable i s)" "no_advance s (stp_port_enable i s)"
proof -
  let ?f = "\<lambda>p. p\<lparr>topology_change_ack := False, config_pending := False,
         change_detection_enabled := True, message_age_timer := stp_stop_timer (message_age_timer p),
         forward_delay_timer := stp_stop_timer (forward_delay_timer p),
         hold_timer := stp_stop_timer (hold_timer p)\<rparr>"
  define t where "t = stp_initialize_port i STP_BLOCKING s"
  have w: "stp_wf s" and len: "length (ports s) = STP_MAX_PORTS" using assms wf_length by (auto simp: stp_inv_def)
  have f: "core_port (?f p) = core_port p" for p by (simp add: core_port_def)
  have t: "stp_wf t" "notified s t" "no_advance s t" "top_fields t = top_fields s"
    and st: "\<And>j. j < STP_MAX_PORTS \<Longrightarrow> port_state (port t j) = (if j = i then STP_BLOCKING else port_state (port s j))"
    using initialize_or_disable [OF w _ f t_def [unfolded stp_initialize_port_def]] by simp_all
  have "root_ok t"
    by (rule root_ok_transfer [OF _ t(4) len]) (use assms st in \<open>auto simp: stp_inv_def\<close>)
  then have r: "stp_inv (stp_port_state_selection t)" by (rule port_state_selection_inv [OF t(1)])
  have e: "evolves t (stp_port_state_selection t)" by (rule port_state_selection_evolves)
  have "stp_port_enable i s = s \<or> stp_port_enable i s = stp_port_state_selection t"
    by (simp add: stp_port_enable_def t_def)
  moreover have "no_advance s s" by (simp add: no_advance_def)
  ultimately show "stp_inv (stp_port_enable i s)" "notified s (stp_port_enable i s)" "no_advance s (stp_port_enable i s)"
    using r assms evolvesD [OF e t(1)] t notified_trans no_advance_trans notified_refl by metis+
qed


lemma new_port_id_ok:
  assumes "port_id_ok i x"
  shows "port_id_ok i (ucast (ucast ((x AND 0xff) OR push_bit 8 (ucast (n :: u8)) :: c_int) :: u16))"
proof -
  let ?y = "ucast (ucast ((x AND 0xff) OR push_bit 8 (ucast n) :: c_int) :: u16) :: c_int"
  have m: "(0xff :: c_int) = mask 8" by (simp add: mask_eq_exp_minus_1)
  have "?y AND 0xff = x AND 0xff"
    unfolding m by (rule bit_word_eqI) (auto simp: bit_simps)
  moreover have "drop_bit 16 ?y = 0"
    by (rule bit_word_eqI) (auto simp: bit_simps dest: bit_imp_le_length)
  ultimately show ?thesis using assms by (simp add: port_id_ok_def)
qed

lemma set_priority_keeps:
  assumes inv: "stp_inv s"
  shows "stp_inv (stp_port_set_priority i n s)" "notified s (stp_port_set_priority i n s)"
    "no_advance s (stp_port_set_priority i n s)"
proof -
  define x where "x = (ucast (ucast ((port_id (port s i) AND 0xff) OR push_bit 8 (ucast n) :: c_int) :: u16) :: c_int)"
  define d where "d = stp_is_designated_port s i"
  define t where "t = upd_port i (\<lambda>p. p\<lparr>designated_port := if d then x else designated_port p, port_id := x\<rparr>) s"
  have w: "stp_wf s" and len: "length (ports s) = STP_MAX_PORTS" using inv wf_length by (auto simp: stp_inv_def)
  have upd: "upd_port i (port_id_update (\<lambda>_. x)) (if d then upd_port i (designated_port_update (\<lambda>_. x)) s else s) = t"
    by (cases "i < length (ports s)") (auto simp: t_def upd_port_def list_update_beyond)
  have wt: "stp_wf t"
    using w new_port_id_ok [of i "port_id (port s i)" n]
    by (auto simp: stp_wf_def t_def x_def nth_list_update_if)
  have st: "port_state (port t j) = port_state (port s j)" "state_changed (port t j) = state_changed (port s j)" for j
    by (simp_all add: t_def nth_list_update_if)
  have e: "notified s t" "no_advance s t" using st by (simp_all add: notified_def no_advance_def)
  have r: "root_ok t"
    by (rule root_ok_transfer [OF _ _ len]) (use inv st in \<open>auto simp: stp_inv_def top_fields_def t_def\<close>)
  have des: "stp_is_designated_port s j \<Longrightarrow> stp_is_designated_port t j" for j
    by (auto simp: stp_is_designated_port_def t_def d_def nth_list_update_if)
  have "topology_safe t"
    using inv des st by (auto simp: stp_inv_def topology_safe_def t_def)
  then have invt: "stp_inv t" using wt r by (simp add: stp_inv_def)
  have l: "lite (stp_become_designated_port i t) = lite t" by simp
  define u where "u = stp_port_state_selection (stp_become_designated_port i t)"
  have wb: "stp_wf (stp_become_designated_port i t)" by (rule lite_wf [OF l wt])
  have "root_ok (stp_become_designated_port i t)"
    by (rule root_ok_transfer [OF r]) (use wt wf_length lite_state [OF l] in \<open>auto simp: top_fields_def\<close>)
  then have invu: "stp_inv u" unfolding u_def by (rule port_state_selection_inv [OF wb])
  have eu: "evolves t u" unfolding u_def by (rule evolves_trans [OF lite_evolves [OF l] port_state_selection_evolves])
  have "stp_port_set_priority i n s = s \<or> stp_port_set_priority i n s = t \<or> stp_port_set_priority i n s = u"
    unfolding stp_port_set_priority_def Let_def x_def [symmetric] d_def [symmetric] upd u_def by simp
  moreover have "no_advance s s" by (simp add: no_advance_def)
  ultimately show "stp_inv (stp_port_set_priority i n s)" "notified s (stp_port_set_priority i n s)"
    "no_advance s (stp_port_set_priority i n s)"
    using inv invt invu e evolvesD [OF eu wt] notified_trans no_advance_trans notified_refl by metis+
qed

lemma initial_port_id_ok: "i < STP_MAX_PORTS \<Longrightarrow> port_id_ok i (of_nat (i + 1) OR push_bit 8 128)"
proof -
  assume "i < STP_MAX_PORTS"
  then have i: "i + 1 < 256" by (simp add: STP_MAX_PORTS_def)
  have m: "(0xff :: c_int) = mask 8" by (simp add: mask_eq_exp_minus_1)
  have t: "take_bit 8 (of_nat (i + 1) :: c_int) = of_nat (i + 1)"
    using i by (simp only: take_bit_of_nat) (simp add: take_bit_nat_eq_self)
  have "take_bit 8 (push_bit 8 (128 :: c_int)) = 0" "drop_bit 16 (push_bit 8 (128 :: c_int)) = 0" by code_simp+
  moreover have "drop_bit 16 (take_bit 8 (y :: c_int)) = 0" for y
    by (rule bit_word_eqI) (auto simp: bit_simps)
  then have "drop_bit 16 (of_nat (i + 1) :: c_int) = 0" using t by metis
  ultimately show ?thesis
    using t unfolding port_id_ok_def m take_bit_eq_mask [symmetric] take_bit_or drop_bit_or
    by (metis or.right_neutral)
qed

lemma create_port_fields:
  assumes "i < length (ports s)"
  shows "length (ports (create_port i s)) = length (ports s)"
    "port_id (port (create_port i s) i) = of_nat (i + 1) OR push_bit 8 128"
    "port_state (port (create_port i s) i) = STP_DISABLED"
    "top_fields (create_port i s) = top_fields s"
    "j \<noteq> i \<Longrightarrow> port (create_port i s) j = port s j"
    "first_changed_port (create_port i s) \<le> first_changed_port s"
    "state_changed (port (create_port i s) i) \<Longrightarrow> \<not> state_changed (port s i) \<Longrightarrow>
       first_changed_port (create_port i s) \<le> i"
    "port_state (port s i) = STP_ZERO \<Longrightarrow> state_changed (port (create_port i s) i)"
    "forward_delay (create_port i s) = forward_delay s"
  using assms
  by (auto simp: create_port_def stp_initialize_port_def ports_set_port_state first_changed_set_port_state
      stp_become_designated_port_def top_fields_def nth_list_update_if upd_port_def stp_set_port_state_def Let_def)

lemma stp_create_props:
  "stp_inv (stp_create bid) \<and> (\<forall>i < STP_MAX_PORTS. port_state (port (stp_create bid) i) = STP_DISABLED
     \<and> state_changed (port (stp_create bid) i)) \<and> forward_delay (stp_create bid) = SECONDS_TO_TIMER 4"
proof -
  define b where "b = (if drop_bit 48 bid = 0 then bid OR push_bit 48 32768 else bid)"
  define z where "z = \<lparr>bridge_id = b, max_age = SECONDS_TO_TIMER 6, hello_time = SECONDS_TO_TIMER 2,
               forward_delay = SECONDS_TO_TIMER 4, bridge_max_age = SECONDS_TO_TIMER 6,
               bridge_hello_time = SECONDS_TO_TIMER 2, bridge_forward_delay = SECONDS_TO_TIMER 4,
               designated_root = b, root_path_cost = 0, root_port = None,
               topology_change_detected = False, topology_change = False,
               hello_timer = stp_start_timer 0 zero_timer, tcn_timer = stp_stop_timer zero_timer,
               topology_change_timer = stp_stop_timer zero_timer,
               ports = replicate STP_MAX_PORTS zero_port, first_changed_port = STP_MAX_PORTS, sent = []\<rparr>"
  let ?P = "\<lambda>k t. length (ports t) = STP_MAX_PORTS \<and> top_fields t = top_fields z \<and>
    forward_delay t = forward_delay z \<and> (\<forall>j < STP_MAX_PORTS. k \<le> j \<longrightarrow> port_state (port t j) = STP_ZERO) \<and>
    (\<forall>j < k. port_id_ok j (port_id (port t j)) \<and> port_state (port t j) = STP_DISABLED \<and> state_changed (port t j)) \<and>
    (\<forall>j < STP_MAX_PORTS. j < first_changed_port t \<longrightarrow> \<not> state_changed (port t j))"
  have "?P STP_MAX_PORTS (fold create_port [0..<STP_MAX_PORTS] z)"
  proof (rule fold_upt_inv [where P = ?P])
    show "?P 0 z" by (simp add: z_def zero_port_def)
  next
    fix i t
    assume i: "i < STP_MAX_PORTS" and P: "?P i t"
    then have il: "i < length (ports t)" by simp
    note c = create_port_fields [OF il]
    have "port_id_ok j (port_id (port (create_port i t) j)) \<and> port_state (port (create_port i t) j) = STP_DISABLED
        \<and> state_changed (port (create_port i t) j)"
      if "j < Suc i" for j
      using that i P c(2,3,8) c(5) [of j] initial_port_id_ok [OF i] by (cases "j = i") simp_all
    moreover have "\<not> state_changed (port (create_port i t) j)"
      if "j < STP_MAX_PORTS" "j < first_changed_port (create_port i t)" for j
      using that P c(5) [of j] c(6,7) by (cases "j = i") fastforce+
    ultimately show "?P (Suc i) (create_port i t)" using P c(1,4,5,9) by simp
  qed
  moreover have "stp_create bid = fold create_port [0..<STP_MAX_PORTS] z"
    by (simp add: stp_create_def z_def b_def Let_def)
  moreover have "top_fields z = (b, b, 0, None)" "forward_delay z = SECONDS_TO_TIMER 4"
    by (simp_all add: z_def top_fields_def)
  ultimately show ?thesis
    by (auto simp: stp_inv_def stp_wf_def root_ok_def topology_safe_def stp_is_root_bridge_def top_fields_def)
qed

lemmas stp_create_inv = stp_create_props [THEN conjunct1]


section \<open>Delivery of state changes\<close>

lemma get_changed_port_cases:
  assumes "stp_wf s"
  obtains (none) "snd (stp_get_changed_port s) = None" "\<And>i. i < STP_MAX_PORTS \<Longrightarrow> \<not> state_changed (port s i)"
      "fst (stp_get_changed_port s) = s\<lparr>first_changed_port := STP_MAX_PORTS\<rparr>"
  | (some) i where "snd (stp_get_changed_port s) = Some i" "i < STP_MAX_PORTS" "state_changed (port s i)"
      "\<And>j. j < i \<Longrightarrow> \<not> state_changed (port s j)"
      "fst (stp_get_changed_port s) =
        (upd_port i (state_changed_update (\<lambda>_. False)) s)\<lparr>first_changed_port := i + 1\<rparr>"
proof (cases "find (\<lambda>i. state_changed (port s i)) [first_changed_port s..<STP_MAX_PORTS]")
  case None
  then have "\<not> state_changed (port s i)" if "i < STP_MAX_PORTS" for i
    using that assms unfolding find_None_iff stp_wf_def by (metis atLeastLessThan_iff not_le set_upt)
  with None show ?thesis by (intro none) (simp_all add: stp_get_changed_port_def)
next
  case (Some i)
  then obtain k where k: "k < STP_MAX_PORTS - first_changed_port s" "i = first_changed_port s + k"
    "state_changed (port s i)" "\<And>j. j < k \<Longrightarrow> \<not> state_changed (port s (first_changed_port s + j))"
    by (auto simp: find_Some_iff)
  have "\<not> state_changed (port s j)" if "j < i" for j
  proof (cases "j < first_changed_port s")
    case True
    then show ?thesis using assms that k by (simp add: stp_wf_def)
  next
    case False
    then show ?thesis using k(4) [of "j - first_changed_port s"] that k(2) by simp
  qed
  with Some k show ?thesis by (intro some) (simp_all add: stp_get_changed_port_def)
qed

lemma get_changed_port_inv:
  assumes "stp_inv s"
  shows "stp_inv (fst (stp_get_changed_port s))"
    and "port_state (port (fst (stp_get_changed_port s)) j) = port_state (port s j)"
proof -
  let ?t = "fst (stp_get_changed_port s)"
  have w: "stp_wf s" and len: "length (ports s) = STP_MAX_PORTS" using assms wf_length by (auto simp: stp_inv_def)
  have *: "stp_wf ?t \<and> roles ?t = roles s \<and> (\<forall>j. port_state (port ?t j) = port_state (port s j))"
    using w
  proof (cases s rule: get_changed_port_cases)
    case none
    then show ?thesis using w by (auto simp: stp_wf_def roles_def)
  next
    case (some i)
    have "roles ?t = roles s"
      using roles_upd_port [of "state_changed_update (\<lambda>_. False)" i s]
      unfolding some(5) by (simp add: roles_def role_port_def)
    moreover have "stp_wf ?t"
      using w some(3,4) unfolding some(5) stp_wf_def by (auto simp: nth_list_update_if less_Suc_eq)
    ultimately show ?thesis using some(5) by (simp add: nth_list_update_if)
  qed
  then have st: "port_state (port ?t j) = port_state (port s j)" for j by simp
  then show "port_state (port ?t j) = port_state (port s j)" .
  have "root_ok ?t"
    by (rule root_ok_transfer [OF _ _ len])
      (use assms * in \<open>auto simp: stp_inv_def top_fields_def roles_def\<close>)
  moreover have "topology_safe ?t"
    using assms st roles_designated [of ?t s] * len by (auto simp: stp_inv_def topology_safe_def)
  ultimately show "stp_inv ?t" using * by (simp add: stp_inv_def)
qed


section \<open>Progress of a port\<close>

text \<open>
  A bridge on which only port \<open>i\<close> is enabled, whose forward delay timer has just been started and which
  has received no information: nothing but the forward delay moves its state.
\<close>

definition only_port :: "nat \<Rightarrow> stp_state \<Rightarrow> stp \<Rightarrow> bool" where
  "only_port i st s \<longleftrightarrow> i < STP_MAX_PORTS \<and> length (ports s) = STP_MAX_PORTS
     \<and> (\<forall>j < STP_MAX_PORTS. j \<noteq> i \<longrightarrow> \<not> enabled s j) \<and> port_state (port s i) = st
     \<and> (st \<noteq> STP_FORWARDING \<longrightarrow> forward_delay_timer (port s i) = \<lparr>active = True, timer_value = 0\<rparr>)
     \<and> \<not> active (message_age_timer (port s i)) \<and> forward_delay s = SECONDS_TO_TIMER 4"

lemma only_port_enabled: "only_port i st s \<Longrightarrow> j < STP_MAX_PORTS \<Longrightarrow> enabled s j \<Longrightarrow> j = i"
  by (auto simp: only_port_def)

lemma only_port_loop:
  assumes "only_port i st s" and "\<And>s. only_port i st s \<Longrightarrow> only_port i st (body i s)"
  shows "only_port i st (for_each_enabled_port body s)"
  by (rule for_each_enabled_port_inv) (use assms only_port_enabled in blast)+

lemma only_port_loop_advance:
  assumes "only_port i st s" and "st \<noteq> STP_DISABLED"
    and "\<And>s. only_port i st s \<Longrightarrow> only_port i st' (body i s)" and "st' \<noteq> STP_DISABLED"
  shows "only_port i st' (for_each_enabled_port body s)"
proof -
  let ?P = "\<lambda>k t. only_port i (if k \<le> i then st else st') t"
  have "?P STP_MAX_PORTS (for_each_enabled_port body s)"
  proof (rule for_each_enabled_port_upto [where P = ?P])
    show "?P 0 s" using assms(1) by simp
  next
    fix k t
    assume "k < STP_MAX_PORTS" "enabled t k" "?P k t"
    moreover from this have "k = i" using only_port_enabled by blast
    ultimately show "?P (Suc k) (body k t)" using assms(3) by simp
  next
    fix k t
    assume *: "k < STP_MAX_PORTS" "\<not> enabled t k" "?P k t"
    then have "k \<noteq> i" using assms(2,4) by (auto simp: only_port_def)
    then have "(Suc k \<le> i) = (k \<le> i)" by auto
    with * show "?P (Suc k) t" by simp
  qed
  moreover have "\<not> STP_MAX_PORTS \<le> i" using assms(1) by (simp add: only_port_def)
  ultimately show ?thesis by simp
qed

lemma only_port_transmit: "only_port i st s \<Longrightarrow> only_port i st (stp_transmit_config i s)"
  by (auto simp: only_port_def stp_transmit_config_def Let_def send_bpdu_def upd_port_def nth_list_update_if)

lemma only_port_generation: "only_port i st s \<Longrightarrow> only_port i st (stp_config_bpdu_generation s)"
  unfolding stp_config_bpdu_generation_def by (rule only_port_loop) (auto intro: only_port_transmit)

lemma only_port_cong:
  assumes "only_port i st s" and "ports t = ports s" and "forward_delay t = forward_delay s"
  shows "only_port i st t"
  using assms by (simp add: only_port_def)

lemma forward_delay_fields [simp]:
  "forward_delay (stp_transmit_tcn s) = forward_delay s"
  "forward_delay (stp_topology_change_detection s) = forward_delay s"
  "forward_delay (upd_port i f s) = forward_delay s"
  "forward_delay (stp_set_port_state i st s) = forward_delay s"
  by (auto simp: stp_transmit_tcn_def send_bpdu_def stp_topology_change_detection_def upd_port_def
      stp_set_port_state_def Let_def split: option.split)

lemma only_port_message_age: "only_port i st s \<Longrightarrow> only_port i st (tick_message_age e i s)"
  by (auto simp: only_port_def tick_message_age_def stp_timer_expired_def nth_list_update_if)

lemma only_port_forward:
  assumes "only_port i st s" and "st = STP_LISTENING \<or> st = STP_LEARNING"
  shows "only_port i (advance st) (tick_forward_hold (SECONDS_TO_TIMER 4) i s)"
proof -
  define t where "t = upd_port i (forward_delay_timer_update
    (\<lambda>_. \<lparr>active = False, timer_value = SECONDS_TO_TIMER 4\<rparr>)) s"
  have ex: "stp_timer_expired (forward_delay_timer (port s i)) (SECONDS_TO_TIMER 4) (forward_delay s) =
      (True, \<lparr>active = False, timer_value = SECONDS_TO_TIMER 4\<rparr>)"
    using assms by (auto simp: only_port_def stp_timer_expired_def Let_def)
  have "only_port i (advance st) (stp_forward_delay_timer_expiry i t)"
    using assms by (auto simp: only_port_def stp_forward_delay_timer_expiry_def t_def Let_def
        ports_set_port_state nth_list_update_if stp_start_timer_def)
  moreover have "only_port i (advance st) (stp_hold_timer_expiry i u)" if "only_port i (advance st) u" for u
    using that by (simp add: stp_hold_timer_expiry_def only_port_transmit)
  moreover have "only_port i (advance st) (upd_port i (hold_timer_update f) u)" if "only_port i (advance st) u" for u f
    using that by (auto simp: only_port_def nth_list_update_if)
  ultimately show ?thesis
    by (simp add: tick_forward_hold_def ex t_def [symmetric] Let_def split_beta)
qed

lemma only_port_tick:
  assumes "only_port i st s" and "st = STP_LISTENING \<or> st = STP_LEARNING"
  shows "only_port i (advance st) (stp_tick (SECONDS_TO_TIMER 4) s)"
proof -
  have [simp]: "only_port i st (u\<lparr>hello_timer := a\<rparr>) = only_port i st u"
    "only_port i st (u\<lparr>tcn_timer := a\<rparr>) = only_port i st u"
    "only_port i st (u\<lparr>topology_change_timer := a\<rparr>) = only_port i st u"
    "only_port i st (hello_timer_update f u) = only_port i st u" for u a f
    by (simp_all add: only_port_def)
  have [simp]: "only_port i st u \<Longrightarrow> only_port i st (stp_hello_timer_expiry u)"
    "only_port i st u \<Longrightarrow> only_port i st (stp_tcn_timer_expiry u)"
    "only_port i st u \<Longrightarrow> only_port i st (stp_topology_change_timer_expiry u)" for u
    by (auto simp: stp_hello_timer_expiry_def stp_tcn_timer_expiry_def stp_topology_change_timer_expiry_def
        only_port_generation elim: only_port_cong)
  have ma: "only_port i st (for_each_enabled_port (tick_message_age e) u)" if "only_port i st u" for e u
    by (rule only_port_loop [OF that]) (rule only_port_message_age)
  have fw: "only_port i (advance st) (for_each_enabled_port (tick_forward_hold (SECONDS_TO_TIMER 4)) u)"
    if "only_port i st u" for u
    by (rule only_port_loop_advance [OF that]) (use assms(2) in \<open>auto intro: only_port_forward\<close>)
  show ?thesis
    unfolding stp_tick_def Let_def split_beta by (intro fw ma) (use assms(1) in simp)
qed

lemma only_port_enable:
  assumes "i < STP_MAX_PORTS"
  shows "only_port i STP_LISTENING (stp_port_enable i (stp_create bid))"
proof -
  define t where "t = stp_initialize_port i STP_BLOCKING (stp_create bid)"
  let ?blocked = "\<lambda>s. i < STP_MAX_PORTS \<and> length (ports s) = STP_MAX_PORTS
     \<and> (\<forall>j < STP_MAX_PORTS. j \<noteq> i \<longrightarrow> \<not> enabled s j) \<and> port_state (port s i) = STP_BLOCKING
     \<and> stp_is_designated_port s i \<and> root_port s = None
     \<and> \<not> active (message_age_timer (port s i)) \<and> forward_delay s = SECONDS_TO_TIMER 4"
  have c: "stp_inv (stp_create bid)" "\<And>j. j < STP_MAX_PORTS \<Longrightarrow> \<not> enabled (stp_create bid) j"
    "forward_delay (stp_create bid) = SECONDS_TO_TIMER 4"
    using stp_create_props [of bid] by auto
  have "length (ports (stp_create bid)) = STP_MAX_PORTS" "root_port (stp_create bid) = None"
    using c(1,2) by (auto simp: stp_inv_def stp_wf_def root_ok_def)
  then have t: "?blocked t"
    using assms c(2,3)
    by (auto simp: t_def stp_initialize_port_def stp_become_designated_port_def ports_set_port_state
        nth_list_update_if stp_is_designated_port_def stp_stop_timer_def)
  let ?P = "\<lambda>k u. if k \<le> i then ?blocked u else only_port i STP_LISTENING u"
  have step: "only_port i STP_LISTENING (port_state_selection_step i u)" if "?blocked u" for u
    using that by (auto simp: port_state_selection_step_def stp_make_forwarding_def only_port_def
        ports_set_port_state nth_list_update_if stp_is_designated_port_def stp_start_timer_def stp_stop_timer_def)
  have "?P STP_MAX_PORTS (for_each_enabled_port port_state_selection_step t)"
  proof (rule for_each_enabled_port_upto [where P = ?P])
    show "?P 0 t" using t by simp
  next
    fix k u
    assume *: "k < STP_MAX_PORTS" "enabled u k" "?P k u"
    then have "k = i" unfolding only_port_def by (metis (full_types))
    with * step show "?P (Suc k) (port_state_selection_step k u)" by simp
  next
    fix k u
    assume *: "k < STP_MAX_PORTS" "\<not> enabled u k" "?P k u"
    then have "k \<noteq> i" by (auto simp: only_port_def split: if_splits)
    then have "(Suc k \<le> i) = (k \<le> i)" by auto
    with * show "?P (Suc k) u" by simp
  qed
  then show ?thesis
    using assms c(2) [OF assms] by (simp add: stp_port_enable_def stp_port_state_selection_def t_def [symmetric])
qed


section \<open>The entity as a state machine\<close>

datatype stp_op = Tick c_int | Received nat "u8 list" | Set_Bridge_Id stp_identifier | Set_Bridge_Priority u16
  | Port_Enable nat | Port_Disable nat | Port_Priority nat u8 | Port_Path_Cost nat u32 | Port_Speed nat u32
  | Enable_Change_Detection nat | Disable_Change_Detection nat | Get_Changed_Port

fun stp_apply :: "stp_op \<Rightarrow> stp \<Rightarrow> stp" where
  "stp_apply (Tick e) s = stp_tick e s"
| "stp_apply (Received i b) s = stp_received_bpdu i b s"
| "stp_apply (Set_Bridge_Id b) s = stp_set_bridge_id b s"
| "stp_apply (Set_Bridge_Priority n) s = stp_set_bridge_priority n s"
| "stp_apply (Port_Enable i) s = stp_port_enable i s"
| "stp_apply (Port_Disable i) s = stp_port_disable i s"
| "stp_apply (Port_Priority i n) s = stp_port_set_priority i n s"
| "stp_apply (Port_Path_Cost i c) s = stp_port_set_path_cost i c s"
| "stp_apply (Port_Speed i v) s = stp_port_set_speed i v s"
| "stp_apply (Enable_Change_Detection i) s = stp_port_enable_change_detection i s"
| "stp_apply (Disable_Change_Detection i) s = stp_port_disable_change_detection i s"
| "stp_apply Get_Changed_Port s = fst (stp_get_changed_port s)"

inductive stp_reachable :: "stp \<Rightarrow> bool" where
  create: "stp_reachable (stp_create bid)"
| step: "stp_reachable s \<Longrightarrow> stp_reachable (stp_apply op s)"

lemma keeps_apply:
  assumes "keeps f" and "stp_inv s"
  shows "stp_inv (f s)" "notified s (f s)" "no_advance s (f s)"
  using keepsD [OF assms] evolvesD inv_wf [OF assms(2)] by blast+

lemma stp_apply_keeps:
  assumes "stp_inv s"
  shows "stp_inv (stp_apply op s)"
    and "op \<noteq> Get_Changed_Port \<Longrightarrow> notified s (stp_apply op s)"
    and "(\<And>e. op \<noteq> Tick e) \<Longrightarrow> no_advance s (stp_apply op s)"
proof -
  have "stp_inv (stp_apply op s) \<and> (op \<noteq> Get_Changed_Port \<longrightarrow> notified s (stp_apply op s)) \<and>
    ((\<forall>e. op \<noteq> Tick e) \<longrightarrow> no_advance s (stp_apply op s))"
  proof (cases op)
    case (Tick e)
    then show ?thesis using tick_keeps [OF assms] by simp
  next
    case (Received i b)
    then show ?thesis using keeps_apply [OF received_bpdu_keeps assms] by simp
  next
    case (Set_Bridge_Id b)
    then show ?thesis using keeps_apply [OF set_bridge_id_keeps assms] by (simp add: stp_set_bridge_id_def Let_def)
  next
    case (Set_Bridge_Priority n)
    then show ?thesis using keeps_apply [OF set_bridge_id_keeps assms]
      by (simp add: stp_set_bridge_priority_def Let_def)
  next
    case (Port_Enable i)
    then show ?thesis using port_enable_keeps [OF assms] by simp
  next
    case (Port_Disable i)
    then show ?thesis using port_disable_keeps [OF assms] by simp
  next
    case (Port_Priority i n)
    then show ?thesis using set_priority_keeps [OF assms] by simp
  next
    case (Port_Path_Cost i c)
    then show ?thesis using keeps_apply [OF set_path_cost_keeps assms] by simp
  next
    case (Port_Speed i v)
    then show ?thesis using keeps_apply [OF set_path_cost_keeps assms] by (simp add: stp_port_set_speed_def)
  next
    case (Enable_Change_Detection i)
    then show ?thesis using keeps_apply [OF change_detection_keeps(1) assms] by simp
  next
    case (Disable_Change_Detection i)
    then show ?thesis using keeps_apply [OF change_detection_keeps(2) assms] by simp
  next
    case Get_Changed_Port
    then show ?thesis using get_changed_port_inv [OF assms] by (simp add: no_advance_def)
  qed
  then show "stp_inv (stp_apply op s)" "op \<noteq> Get_Changed_Port \<Longrightarrow> notified s (stp_apply op s)"
    "(\<And>e. op \<noteq> Tick e) \<Longrightarrow> no_advance s (stp_apply op s)" by blast+
qed

lemma reachable_inv: "stp_reachable s \<Longrightarrow> stp_inv s"
  by (induction rule: stp_reachable.induct) (simp_all add: stp_create_inv stp_apply_keeps)

text \<open>
  C30. In every state the entity can reach, a port that is listening, learning or forwarding is the root
  port or a designated port; the designated root is never worse than the bridge itself; the bridge is
  the root exactly when it has no root port; and the root port is an enabled port.
\<close>

theorem stp_topology_safe:
  assumes "stp_reachable s"
  shows "(\<forall>i < STP_MAX_PORTS. port_state (port s i) \<notin> {STP_DISABLED, STP_BLOCKING} \<longrightarrow>
      stp_get_root_port s = Some i \<or> stp_is_designated_port s i)
    \<and> stp_get_designated_root s \<le> stp_get_bridge_id s
    \<and> (stp_is_root_bridge s \<longleftrightarrow> stp_get_root_port s = None)
    \<and> (\<forall>r. stp_get_root_port s = Some r \<longrightarrow> stp_port_get_state s r \<noteq> STP_DISABLED)"
  using reachable_inv [OF assms]
  by (auto simp: stp_inv_def topology_safe_def root_ok_def stp_get_designated_root_def stp_get_bridge_id_def
      stp_get_root_port_def stp_port_get_state_def)

definition sample_config :: "u8 list" where
  "sample_config = config_bytes \<lparr>cb_header = \<lparr>protocol_id = 0, protocol_version = 0, bpdu_type = 0\<rparr>,
     cb_flags = 0, cb_root_id = htonll 7, cb_root_path_cost = htonl 4, cb_bridge_id = htonll 9,
     cb_port_id = htons 0x8001, cb_message_age = htons 0x100, cb_max_age = htons 0x600,
     cb_hello_time = htons 0x200, cb_forward_delay = htons 0x400\<rparr>"

definition sample_run :: stp where
  "sample_run = stp_apply (Received 1 sample_config) (stp_apply (Tick 0x200)
     (stp_apply (Port_Enable 1) (stp_apply (Port_Enable 0) (stp_create 0x8000000000000001))))"

lemma sample_run_reachable: "stp_reachable sample_run"
  unfolding sample_run_def by (intro stp_reachable.intros)

theorem stp_topology_safe_witness:
  "stp_reachable sample_run \<and> stp_get_designated_root sample_run \<le> stp_get_bridge_id sample_run"
  using stp_topology_safe [OF sample_run_reachable] sample_run_reachable by simp

text \<open>
  C31. Root selection picks, among the enabled ports that are not designated ports and have heard of a
  better root, one with the least priority vector (root, path cost, bridge, port, own port); the bridge
  declares itself the root exactly when there is no such port.
\<close>

theorem stp_root_selection_minimal:
  "case root_port (stp_root_selection s) of
     None \<Rightarrow> (\<forall>i. \<not> root_candidate s i) \<and> stp_is_root_bridge (stp_root_selection s)
       \<and> root_path_cost (stp_root_selection s) = 0
   | Some r \<Rightarrow> root_candidate s r
       \<and> (\<forall>i. root_candidate s i \<longrightarrow> root_vector (port s r) \<le> root_vector (port s i))
       \<and> designated_root (stp_root_selection s) = port_designated_root (port s r)
       \<and> designated_root (stp_root_selection s) < bridge_id s
       \<and> root_path_cost (stp_root_selection s) = designated_cost (port s r) + path_cost (port s r)"
  by (cases s rule: root_selection_cases)
    (auto simp: stp_is_root_bridge_def root_candidate_def)

definition sample_bridge :: stp where
  "sample_bridge = (stp_create 9)\<lparr>bridge_id := 9, ports := replicate STP_MAX_PORTS
     (zero_port\<lparr>port_state := STP_BLOCKING, port_designated_root := 7, designated_bridge := 8,
        designated_cost := 4, path_cost := 19\<rparr>)\<rparr>"

theorem stp_root_selection_minimal_witness:
  "root_candidate sample_bridge 3 \<and> (\<exists>r. root_port (stp_root_selection sample_bridge) = Some r
     \<and> root_vector (port sample_bridge r) \<le> root_vector (port sample_bridge 3)
     \<and> designated_root (stp_root_selection sample_bridge) < 9)"
proof -
  have c: "root_candidate sample_bridge 3" and "bridge_id sample_bridge = 9"
    by (simp_all add: sample_bridge_def root_candidate_def stp_is_designated_port_def STP_MAX_PORTS_def)
  then show ?thesis
    using stp_root_selection_minimal [of sample_bridge]
    by (cases "root_port (stp_root_selection sample_bridge)") auto
qed

text \<open>
  No operation changes the state of a port without flagging it for the client, and no operation
  other than the delivery itself loses a flag.
\<close>

theorem stp_changes_notified:
  assumes "stp_reachable s" and "op \<noteq> Get_Changed_Port" and "i < STP_MAX_PORTS"
    and "state_changed (port s i) \<or> stp_port_get_state (stp_apply op s) i \<noteq> stp_port_get_state s i"
  shows "state_changed (port (stp_apply op s) i)"
  using stp_apply_keeps(2) [OF reachable_inv [OF assms(1)] assms(2)] assms(3,4)
  by (auto simp: notified_def stp_port_get_state_def)

theorem stp_changes_notified_witness:
  "stp_port_get_state (stp_apply (Port_Enable 4) (stp_create 1)) 4 \<noteq> stp_port_get_state (stp_create 1) 4
   \<and> state_changed (port (stp_apply (Port_Enable 4) (stp_create 1)) 4)"
proof -
  have i: "4 < STP_MAX_PORTS" by (simp add: STP_MAX_PORTS_def)
  have "stp_port_get_state (stp_apply (Port_Enable 4) (stp_create 1)) 4 \<noteq> stp_port_get_state (stp_create 1) 4"
    using only_port_enable [OF i, of 1] stp_create_props [of 1] i by (auto simp: only_port_def stp_port_get_state_def)
  then show ?thesis
    using stp_changes_notified [OF stp_reachable.create [of 1], of "Port_Enable 4" 4] i by simp
qed

text \<open>
  Delivery of state changes: \<open>stp_get_changed_port\<close> returns the lowest flagged port and clears just
  its flag; it returns no port only when no port is flagged.
\<close>

theorem stp_get_changed_port_correct:
  assumes "stp_reachable s"
  shows "case stp_get_changed_port s of
      (s', None) \<Rightarrow> (\<forall>i < STP_MAX_PORTS. \<not> state_changed (port s i)) \<and> ports s' = ports s
    | (s', Some i) \<Rightarrow> i < STP_MAX_PORTS \<and> state_changed (port s i) \<and> (\<forall>j < i. \<not> state_changed (port s j))
        \<and> ports s' = (ports s)[i := (port s i)\<lparr>state_changed := False\<rparr>]"
  using inv_wf [OF reachable_inv [OF assms]]
  by (cases s rule: get_changed_port_cases; cases "stp_get_changed_port s") auto

theorem stp_get_changed_port_correct_witness: "snd (stp_get_changed_port (stp_create 1)) = Some 0"
proof -
  have "state_changed (port (stp_create 1) 0)"
    using stp_create_props [of 1] by (simp add: STP_MAX_PORTS_def)
  moreover have "0 < STP_MAX_PORTS" by (simp add: STP_MAX_PORTS_def)
  ultimately show ?thesis
    using stp_get_changed_port_correct [OF stp_reachable.create [of 1]]
    by (cases "stp_get_changed_port (stp_create 1)") (auto split: option.splits)
qed

text \<open>
  A port starts forwarding only when a tick finds it in the learning state: no received BPDU and no
  administrative operation makes a port forward.
\<close>

theorem stp_forwarding_only_after_learning:
  assumes "stp_reachable s" and "i < STP_MAX_PORTS"
    and "stp_port_get_state (stp_apply op s) i = STP_FORWARDING"
  shows "stp_port_get_state s i = STP_FORWARDING \<or>
    (\<exists>elapsed. op = Tick elapsed) \<and> stp_port_get_state s i = STP_LEARNING"
proof (cases "\<exists>e. op = Tick e")
  case True
  then show ?thesis
    using tick_keeps(3) [OF reachable_inv [OF assms(1)] assms(2)] assms(3)
    by (auto simp: stp_port_get_state_def)
next
  case False
  then show ?thesis
    using stp_apply_keeps(3) [OF reachable_inv [OF assms(1)], of op] assms(2,3)
    by (auto simp: no_advance_def stp_port_get_state_def)
qed

text \<open>
  C32. Progress: the only enabled port of a new bridge listens at once, learns after one forward delay
  and forwards after two.  (The comment of \<open>stp_port_enable\<close> says that the port is initially blocking; the
  state selection at its end has already made it listening.)
\<close>

theorem stp_enabled_port_forwards:
  fixes i :: nat and bid :: stp_identifier
  assumes "i < STP_MAX_PORTS"
  defines "s \<equiv> stp_apply (Port_Enable i) (stp_create bid)"
    and "tick \<equiv> stp_apply (Tick (SECONDS_TO_TIMER 4))"
  shows "stp_port_get_state s i = STP_LISTENING \<and> stp_port_get_state (tick s) i = STP_LEARNING
    \<and> stp_port_get_state (tick (tick s)) i = STP_FORWARDING"
proof -
  have a: "only_port i STP_LISTENING s" using only_port_enable [OF assms(1)] by (simp add: s_def)
  then have b: "only_port i STP_LEARNING (tick s)" using only_port_tick by (fastforce simp: tick_def)
  then have "only_port i STP_FORWARDING (tick (tick s))" using only_port_tick by (fastforce simp: tick_def)
  with a b show ?thesis by (simp add: only_port_def stp_port_get_state_def)
qed

theorem stp_enabled_port_forwards_witness:
  "stp_port_get_state (stp_apply (Tick (SECONDS_TO_TIMER 4)) (stp_apply (Tick (SECONDS_TO_TIMER 4))
     (stp_apply (Port_Enable 2) (stp_create 1)))) 2 = STP_FORWARDING"
  using stp_enabled_port_forwards [of 2 1] by (simp add: STP_MAX_PORTS_def)

theorem stp_forwarding_only_after_learning_witness:
  "stp_port_get_state (stp_apply (Tick (SECONDS_TO_TIMER 4)) (stp_apply (Port_Enable 2) (stp_create 1))) 2
     = STP_LEARNING"
proof -
  define s where "s = stp_apply (Tick (SECONDS_TO_TIMER 4)) (stp_apply (Port_Enable 2) (stp_create 1))"
  have i: "2 < STP_MAX_PORTS" by (simp add: STP_MAX_PORTS_def)
  have l: "only_port 2 STP_LEARNING s"
    using only_port_tick [OF only_port_enable [OF i, of 1]] by (simp add: s_def)
  then have "only_port 2 STP_FORWARDING (stp_apply (Tick (SECONDS_TO_TIMER 4)) s)"
    using only_port_tick by fastforce
  then have f: "stp_port_get_state (stp_apply (Tick (SECONDS_TO_TIMER 4)) s) 2 = STP_FORWARDING"
    by (simp add: only_port_def stp_port_get_state_def)
  have "stp_reachable s" unfolding s_def by (intro stp_reachable.intros)
  then have "stp_port_get_state s 2 = STP_FORWARDING \<or> stp_port_get_state s 2 = STP_LEARNING"
    using stp_forwarding_only_after_learning [OF _ i f] by blast
  then show ?thesis using l by (simp add: only_port_def stp_port_get_state_def s_def)
qed


section \<open>BPDUs on the wire\<close>

lemma bytes64_bytes: "(ucast (ucast x :: u32) OR push_bit 32 (ucast (ucast (drop_bit 32 x) :: u32)) :: u64) = x"
  by (rule bit_word_eqI) (auto simp: bit_simps)

lemma length_config_bytes [simp]: "length (config_bytes c) = 35"
  by (simp add: config_bytes_def header_bytes_def bytes64_def)

text \<open>
  The 35 bytes of a transmitted configuration BPDU read back as the same structure, so a receiving
  bridge processes exactly the values the sending bridge put into it.
\<close>

theorem stp_config_bpdu_roundtrip:
  "config_of_bytes (config_bytes c) = c \<and>
   (stp_received_bpdu i (config_bytes (config_of_port j t)) s =
      (if stp_port_get_state s i = STP_DISABLED then s else stp_received_config_bpdu i (config_of_port j t) s))"
proof -
  have r: "config_of_bytes (config_bytes c) = c" for c
    by (simp add: config_of_bytes_def config_bytes_def header_of_bytes_def header_bytes_def bytes64_def
        bytes16_def bytes32_def get_u16_def get_u32_def get_u64_def le16_bytes le32_bytes bytes64_bytes)
  have h: "header_of_bytes (config_bytes c) = cb_header c" for c
    using r [of c] by (metis config_of_bytes_def stp_config_bpdu.select_convs(1))
  show ?thesis
    using r by (simp add: stp_received_bpdu_def h config_of_port_def htons_def stp_port_get_state_def Let_def)
qed

text \<open>
  The topology change flags never cross the wire: the flags byte of every configuration BPDU is 0
  whatever the port and the bridge have to announce, and a received flags byte is never understood as
  announcing or acknowledging a topology change.
\<close>

theorem stp_topology_flags_lost:
  "cb_flags (config_of_port i s) = 0
   \<and> topology_change (stp_record_config_timeout_values config s) = False
   \<and> (ucast (cb_flags config) :: c_int) AND ucast (htons STP_CONFIG_TOPOLOGY_CHANGE_ACK) = 0"
proof -
  have h: "htons 0x80 = 0x8000" "htons 1 = 0x100" by (simp_all add: htons_def)
  have "(ucast (x :: u8) :: c_int) AND push_bit n 1 = 0" if "8 \<le> n" for x n
    using that by (intro bit_word_eqI) (auto simp: bit_simps dest: bit_imp_le_length)
  from this [of 15 "cb_flags config"] this [of 8 "cb_flags config"]
  have "(ucast (cb_flags config) :: c_int) AND 0x8000 = 0" "(ucast (cb_flags config) :: c_int) AND 0x100 = 0"
    by simp_all
  then show ?thesis
    by (simp add: config_of_port_def config_flags_def stp_record_config_timeout_values_def h Let_def)
qed

end
