(* ===== verification/Crc_Hash.thy ===== *)
theory Crc_Hash
  imports Prelude
begin

text \<open>
  The two hash functions of the switch: the table-driven CRC of
  \<open>src/full/openflowlib/switch/crc32.c\<close>, which picks the bucket of an exact-match flow, and the FNV
  hash of \<open>src/full/openflowlib/lib/hash.c\<close>.  The reference for the CRC is the bit-serial shift
  register, which the table-driven code is shown to compute.
\<close>

section \<open>The code\<close>

text \<open>One turn of the inner loop of \<open>crc32_init\<close>.\<close>

definition crc32_init_bit :: "u32 \<Rightarrow> u32 \<Rightarrow> u32" where
  "crc32_init_bit polynomial reg =
    (let topBit = (reg AND 0x80000000) \<noteq> 0;
         reg = push_bit 1 reg
     in if topBit then reg XOR polynomial else reg)"

definition crc32_init :: "u32 \<Rightarrow> u32 list" where
  "crc32_init polynomial =
    map (\<lambda>i. (crc32_init_bit polynomial ^^ 8) (push_bit 24 (of_nat i))) [0..<256]"

fun crc32_update :: "u32 list \<Rightarrow> u32 \<Rightarrow> u8 list \<Rightarrow> u32" where
  "crc32_update table result [] = result"
| "crc32_update table result (d # data) =
    (let top = drop_bit 24 result XOR ucast d
     in crc32_update table (push_bit 8 result XOR table ! unat top) data)"

definition crc32_calculate :: "u32 list \<Rightarrow> u8 list \<Rightarrow> u32" where
  "crc32_calculate table data = crc32_update table 0 data"

fun hash_fnv :: "u8 list \<Rightarrow> u32 \<Rightarrow> u32" where
  "hash_fnv [] hash = hash"
| "hash_fnv (b # p) hash = hash_fnv p ((hash * 16777619) XOR ucast b)"


section \<open>The bit-serial reference\<close>

fun crc_serial :: "u32 \<Rightarrow> u32 \<Rightarrow> u8 list \<Rightarrow> u32" where
  "crc_serial poly reg [] = reg"
| "crc_serial poly reg (d # data) =
    crc_serial poly ((crc32_init_bit poly ^^ 8) (reg XOR push_bit 24 (ucast d))) data"


section \<open>The shift register is linear\<close>

lemma crc32_init_bit_alt:
  "crc32_init_bit poly reg = push_bit 1 reg XOR (if bit reg 31 then poly else 0)"
proof -
  have "(0x80000000 :: u32) = push_bit 31 1" by simp
  then have "reg AND 0x80000000 \<noteq> 0 \<longleftrightarrow> bit reg 31"
    by (simp only: bit_iff_and_push_bit_not_eq_0)
  then show ?thesis by (simp add: crc32_init_bit_def Let_def)
qed

lemma crc32_init_bit_xor:
  "crc32_init_bit poly (a XOR b) = crc32_init_bit poly a XOR crc32_init_bit poly b"
  by (simp add: crc32_init_bit_alt bit_xor_iff push_bit_xor ac_simps)

lemma crc_bits_xor:
  "(crc32_init_bit poly ^^ n) (a XOR b) = (crc32_init_bit poly ^^ n) a XOR (crc32_init_bit poly ^^ n) b"
  by (induction n arbitrary: a b) (simp_all add: crc32_init_bit_xor)

text \<open>As long as no set bit leaves the register, the register only shifts.\<close>

lemma crc_bits_shift:
  "n \<le> 32 \<Longrightarrow> (\<And>i. 32 - n \<le> i \<Longrightarrow> \<not> bit a i) \<Longrightarrow> (crc32_init_bit poly ^^ n) a = push_bit n a"
proof (induction n)
  case 0
  then show ?case by simp
next
  case (Suc n)
  then have "(crc32_init_bit poly ^^ n) a = push_bit n a" by simp
  moreover have "\<not> bit (push_bit n a) 31"
    using Suc.prems(2) [of "31 - n"] Suc.prems(1) by (simp add: bit_push_bit_iff)
  ultimately have "crc32_init_bit poly ((crc32_init_bit poly ^^ n) a) = push_bit 1 (push_bit n a)"
    by (simp only: crc32_init_bit_alt) simp
  then show ?case by (simp add: push_bit_double)
qed

lemma split_top_byte: "(reg :: u32) = push_bit 24 (drop_bit 24 reg) XOR take_bit 24 reg"
  by (rule bit_word_eqI) (auto simp: bit_simps)

lemma crc32_init_nth: "i < 256 \<Longrightarrow> crc32_init poly ! i = (crc32_init_bit poly ^^ 8) (push_bit 24 (of_nat i))"
  by (simp add: crc32_init_def)

lemma crc_top_less: "unat (drop_bit 24 (r :: u32) XOR ucast (d :: u8)) < 256"
proof -
  have "drop_bit 24 r XOR ucast d = take_bit 8 (drop_bit 24 r XOR ucast d)"
    by (rule bit_word_eqI) (auto simp: bit_simps dest: bit_imp_le_length)
  moreover have "unat (take_bit 8 x) < 256" for x :: u32
    using take_bit_nat_less_exp [of 8 "unat x"] by (simp add: unsigned_take_bit_eq)
  ultimately show ?thesis by metis
qed

lemma crc_byte:
  "push_bit 8 r XOR crc32_init poly ! unat (drop_bit 24 r XOR ucast d) =
   (crc32_init_bit poly ^^ 8) (r XOR push_bit 24 (ucast (d :: u8)))"
proof -
  let ?top = "drop_bit 24 r XOR ucast d"
  have "r XOR push_bit 24 (ucast d) = push_bit 24 ?top XOR take_bit 24 r"
    by (subst split_top_byte [of r]) (simp add: push_bit_xor ac_simps)
  moreover have "(crc32_init_bit poly ^^ 8) (take_bit 24 r) = push_bit 8 (take_bit 24 r)"
    by (rule crc_bits_shift) (auto simp: bit_take_bit_iff)
  moreover have "push_bit 8 (take_bit 24 r) = push_bit 8 r"
    by (rule bit_word_eqI) (auto simp: bit_simps)
  moreover have "crc32_init poly ! unat ?top = (crc32_init_bit poly ^^ 8) (push_bit 24 ?top)"
    using crc_top_less by (simp add: crc32_init_nth)
  ultimately show ?thesis by (simp add: crc_bits_xor ac_simps)
qed

lemma crc32_update_serial: "crc32_update (crc32_init poly) r data = crc_serial poly r data"
  by (induction data arbitrary: r) (simp_all add: crc_byte Let_def)

lemma crc_serial_xor:
  "length xs = length ys \<Longrightarrow>
   crc_serial poly (a XOR b) (map2 (XOR) xs ys) = crc_serial poly a xs XOR crc_serial poly b ys"
proof (induction xs ys arbitrary: a b rule: list_induct2)
  case (Cons x xs y ys)
  have "(a XOR b) XOR push_bit 24 (ucast (x XOR y)) =
    (a XOR push_bit 24 (ucast x)) XOR (b XOR push_bit 24 (ucast y))"
    by (simp add: unsigned_xor_eq push_bit_xor ac_simps)
  then have "(crc32_init_bit poly ^^ 8) ((a XOR b) XOR push_bit 24 (ucast (x XOR y))) =
    (crc32_init_bit poly ^^ 8) (a XOR push_bit 24 (ucast x)) XOR
    (crc32_init_bit poly ^^ 8) (b XOR push_bit 24 (ucast y))"
    by (simp only: crc_bits_xor)
  then show ?case by (simp only: list.map zip_Cons_Cons prod.case crc_serial.simps Cons.IH)
qed simp

text \<open>
  C29. For every polynomial and every byte string the table-driven CRC with the table that
  \<open>crc32_init\<close> builds is the CRC of the bit-serial shift register.
\<close>

theorem crc32_calculate_serial:
  "crc32_calculate (crc32_init poly) data = crc_serial poly 0 data"
  by (simp add: crc32_calculate_def crc32_update_serial)

text \<open>The CRC is linear: the difference of two keys decides whether their hashes collide.\<close>

lemma crc32_calculate_xor:
  "length xs = length ys \<Longrightarrow> crc32_calculate (crc32_init poly) (map2 (XOR) xs ys) =
     crc32_calculate (crc32_init poly) xs XOR crc32_calculate (crc32_init poly) ys"
  using crc_serial_xor [of xs ys poly 0 0] by (simp add: crc32_calculate_def crc32_update_serial)

lemma hash_fnv_append: "hash_fnv (xs @ ys) basis = hash_fnv ys (hash_fnv xs basis)"
  by (induction xs arbitrary: basis) simp_all

end
