(* ===== verification/Flow_Key.thy ===== *)
theory Flow_Key
  imports Crc_Hash
begin

text \<open>
  Flow keys and flow entries: \<open>struct flow\<close> of \<open>lib/flow.h\<close>, \<open>struct ofp_match\<close> of
  \<open>include/openflow/openflow.h\<close>, and the matching, conversion and timing functions of
  \<open>switch/switch-flow.c\<close> (all under \<open>src/full/openflowlib\<close>).

  As in the code, the fields of \<open>flow\<close> and \<open>ofp_match\<close> are in network byte order (loaded by a
  little-endian host), while the wildcards and masks of a \<open>sw_flow_key\<close> are host integers.
\<close>

section \<open>Constants of the protocol\<close>

definition OFPFW_IN_PORT :: u32 where "OFPFW_IN_PORT = 0x1"
definition OFPFW_DL_VLAN :: u32 where "OFPFW_DL_VLAN = 0x2"
definition OFPFW_DL_SRC :: u32 where "OFPFW_DL_SRC = 0x4"
definition OFPFW_DL_DST :: u32 where "OFPFW_DL_DST = 0x8"
definition OFPFW_DL_TYPE :: u32 where "OFPFW_DL_TYPE = 0x10"
definition OFPFW_NW_PROTO :: u32 where "OFPFW_NW_PROTO = 0x20"
definition OFPFW_TP_SRC :: u32 where "OFPFW_TP_SRC = 0x40"
definition OFPFW_TP_DST :: u32 where "OFPFW_TP_DST = 0x80"
abbreviation (input) OFPFW_NW_SRC_SHIFT :: nat where "OFPFW_NW_SRC_SHIFT \<equiv> 8"
definition OFPFW_NW_SRC_MASK :: u32 where "OFPFW_NW_SRC_MASK = 0x3f00"
abbreviation (input) OFPFW_NW_DST_SHIFT :: nat where "OFPFW_NW_DST_SHIFT \<equiv> 14"
definition OFPFW_NW_DST_MASK :: u32 where "OFPFW_NW_DST_MASK = 0xfc000"
definition OFPFW_MPLS_L1 :: u32 where "OFPFW_MPLS_L1 = 0x100000"
definition OFPFW_MPLS_L2 :: u32 where "OFPFW_MPLS_L2 = 0x200000"
definition OFPFW_ALL :: u32 where "OFPFW_ALL = 0x3fffff"

text \<open>\<open>OFPFW_TP\<close> and \<open>OFPFW_NW\<close> of \<open>flow_extract_match\<close>.\<close>

definition OFPFW_TP :: u32 where "OFPFW_TP = 0xc0"
definition OFPFW_NW :: u32 where "OFPFW_NW = 0xfff20"

lemmas OFPFW_defs = OFPFW_IN_PORT_def OFPFW_DL_VLAN_def OFPFW_DL_SRC_def OFPFW_DL_DST_def
  OFPFW_DL_TYPE_def OFPFW_NW_PROTO_def OFPFW_TP_SRC_def OFPFW_TP_DST_def OFPFW_NW_SRC_MASK_def
  OFPFW_NW_DST_MASK_def OFPFW_MPLS_L1_def OFPFW_MPLS_L2_def OFPFW_ALL_def OFPFW_TP_def OFPFW_NW_def

text \<open>The flags as bit positions.\<close>

lemma bit_OFPFW:
  "bit OFPFW_DL_TYPE n \<longleftrightarrow> n = 4" "bit OFPFW_NW_PROTO n \<longleftrightarrow> n = 5"
  "bit OFPFW_MPLS_L1 n \<longleftrightarrow> n = 20" "bit OFPFW_MPLS_L2 n \<longleftrightarrow> n = 21"
  "bit OFPFW_TP n \<longleftrightarrow> 6 \<le> n \<and> n < 8" "bit OFPFW_NW n \<longleftrightarrow> n = 5 \<or> 8 \<le> n \<and> n < 20"
  "bit OFPFW_ALL n \<longleftrightarrow> n < 22"
proof -
  have eqs: "OFPFW_DL_TYPE = push_bit 4 (mask 1)" "OFPFW_NW_PROTO = push_bit 5 (mask 1)"
    "OFPFW_MPLS_L1 = push_bit 20 (mask 1)" "OFPFW_MPLS_L2 = push_bit 21 (mask 1)"
    "OFPFW_TP = push_bit 6 (mask 2)" "OFPFW_NW = push_bit 5 (mask 1) OR push_bit 8 (mask 12)"
    "OFPFW_ALL = mask 22"
    by (simp_all add: OFPFW_defs mask_eq_exp_minus_1)
  show "bit OFPFW_DL_TYPE n \<longleftrightarrow> n = 4" "bit OFPFW_NW_PROTO n \<longleftrightarrow> n = 5"
    "bit OFPFW_MPLS_L1 n \<longleftrightarrow> n = 20" "bit OFPFW_MPLS_L2 n \<longleftrightarrow> n = 21"
    "bit OFPFW_TP n \<longleftrightarrow> 6 \<le> n \<and> n < 8" "bit OFPFW_NW n \<longleftrightarrow> n = 5 \<or> 8 \<le> n \<and> n < 20"
    "bit OFPFW_ALL n \<longleftrightarrow> n < 22"
    by (simp_all only: eqs bit_or_iff bit_push_bit_iff bit_mask_iff) auto
qed

abbreviation (input) ETH_TYPE_IP :: u16 where "ETH_TYPE_IP \<equiv> 0x0800"
abbreviation (input) ETH_TYPE_VLAN :: u16 where "ETH_TYPE_VLAN \<equiv> 0x8100"
abbreviation (input) ETH_TYPE_MPLS_UNICAST :: u16 where "ETH_TYPE_MPLS_UNICAST \<equiv> 0x8847"
abbreviation (input) IP_TYPE_ICMP :: u8 where "IP_TYPE_ICMP \<equiv> 1"
abbreviation (input) IP_TYPE_TCP :: u8 where "IP_TYPE_TCP \<equiv> 6"
abbreviation (input) IP_TYPE_UDP :: u8 where "IP_TYPE_UDP \<equiv> 17"

abbreviation (input) OFP_FLOW_PERMANENT :: u16 where "OFP_FLOW_PERMANENT \<equiv> 0"
abbreviation (input) OFPER_IDLE_TIMEOUT :: u8 where "OFPER_IDLE_TIMEOUT \<equiv> 0"
abbreviation (input) OFPER_HARD_TIMEOUT :: u8 where "OFPER_HARD_TIMEOUT \<equiv> 1"


section \<open>Data\<close>

datatype eth_addr = Eth u8 u8 u8 u8 u8 u8

primrec eth_bytes :: "eth_addr \<Rightarrow> u8 list" where
  "eth_bytes (Eth a b c d e f) = [a, b, c, d, e, f]"

record flow =
  nw_src :: u32
  nw_dst :: u32
  in_port :: u16
  dl_vlan :: u16
  dl_type :: u16
  tp_src :: u16
  tp_dst :: u16
  dl_src :: eth_addr
  dl_dst :: eth_addr
  nw_proto :: u8
  reserved :: u8
  mpls_label1 :: u32
  mpls_label2 :: u32

record sw_flow_key =
  key_flow :: flow
  wildcards :: u32
  nw_src_mask :: u32
  nw_dst_mask :: u32

record ofp_match =
  m_wildcards :: u32
  m_in_port :: u16
  m_dl_src :: eth_addr
  m_dl_dst :: eth_addr
  m_dl_vlan :: u16
  m_dl_type :: u16
  m_nw_proto :: u8
  m_pad :: u8
  m_nw_src :: u32
  m_nw_dst :: u32
  m_tp_src :: u16
  m_tp_dst :: u16
  m_mpls_label1 :: u32
  m_mpls_label2 :: u32

text \<open>
  A flow entry.  \<open>sf_acts\<close> is the block of action bytes it owns (its \<open>actions_len\<close> is the length);
  times are seconds.  The two list nodes of the C structure are its membership in the lists of the
  table that holds it.
\<close>

record sw_flow =
  key :: sw_flow_key
  priority :: u16
  idle_timeout :: u16
  hard_timeout :: u16
  used :: int
  created :: int
  packet_count :: u64
  byte_count :: u64
  reason :: u8
  sf_acts :: "u8 list"
  serial :: u64


section \<open>Comparing flows as bytes\<close>

fun memcmp :: "u8 list \<Rightarrow> u8 list \<Rightarrow> int" where
  "memcmp (x # xs) (y # ys) = (if x = y then memcmp xs ys else uint x - uint y)"
| "memcmp _ _ = 0"

definition eth_addr_equals :: "eth_addr \<Rightarrow> eth_addr \<Rightarrow> bool" where
  "eth_addr_equals a b \<longleftrightarrow> memcmp (eth_bytes a) (eth_bytes b) = 0"

definition flow_bytes :: "flow \<Rightarrow> u8 list" where
  "flow_bytes f = bytes32 (nw_src f) @ bytes32 (nw_dst f) @ bytes16 (in_port f) @ bytes16 (dl_vlan f) @
     bytes16 (dl_type f) @ bytes16 (tp_src f) @ bytes16 (tp_dst f) @ eth_bytes (dl_src f) @
     eth_bytes (dl_dst f) @ [nw_proto f, reserved f] @ bytes32 (mpls_label1 f) @ bytes32 (mpls_label2 f)"

definition flow_compare :: "flow \<Rightarrow> flow \<Rightarrow> int" where
  "flow_compare a b = memcmp (flow_bytes a) (flow_bytes b)"

definition flow_hash :: "flow \<Rightarrow> u32 \<Rightarrow> u32" where
  "flow_hash f basis = hash_fnv (flow_bytes f) basis"

lemma memcmp_eq_0: "length xs = length ys \<Longrightarrow> memcmp xs ys = 0 \<longleftrightarrow> xs = ys"
  by (induction xs ys rule: list_induct2) (auto simp: word_uint_eq_iff)

lemma length_eth_bytes [simp]: "length (eth_bytes a) = 6"
  by (cases a) simp

lemma eth_bytes_inject [simp]: "eth_bytes a = eth_bytes b \<longleftrightarrow> a = b"
  by (cases a; cases b) simp

lemma eth_addr_equals_iff [simp]: "eth_addr_equals a b \<longleftrightarrow> a = b"
  by (simp add: eth_addr_equals_def memcmp_eq_0)

lemma length_flow_bytes [simp]: "length (flow_bytes f) = 40"
  by (simp add: flow_bytes_def)

lemma flow_bytes_inject [simp]: "flow_bytes f = flow_bytes g \<longleftrightarrow> f = g"
  by (auto simp: flow_bytes_def intro: flow.equality)

lemma flow_compare_eq_0 [simp]: "flow_compare a b = 0 \<longleftrightarrow> a = b"
  by (simp add: flow_compare_def memcmp_eq_0)


section \<open>Matching\<close>

text \<open>The wildcards parameter of \<open>flow_fields_match\<close> has 16 bits; the flags it is tested against have 22.\<close>

definition wild :: "u16 \<Rightarrow> u32 \<Rightarrow> bool" where
  "wild w flag \<longleftrightarrow> ucast w AND flag \<noteq> 0"

definition flow_fields_match :: "flow \<Rightarrow> flow \<Rightarrow> u16 \<Rightarrow> u32 \<Rightarrow> u32 \<Rightarrow> bool" where
  "flow_fields_match a b w src_mask dst_mask \<longleftrightarrow>
     (wild w OFPFW_IN_PORT \<or> in_port a = in_port b) \<and>
     (wild w OFPFW_DL_VLAN \<or> dl_vlan a = dl_vlan b) \<and>
     (wild w OFPFW_DL_SRC \<or> eth_addr_equals (dl_src a) (dl_src b)) \<and>
     (wild w OFPFW_DL_DST \<or> eth_addr_equals (dl_dst a) (dl_dst b)) \<and>
     (wild w OFPFW_DL_TYPE \<or> dl_type a = dl_type b) \<and>
     (nw_src a XOR nw_src b) AND src_mask = 0 \<and>
     (nw_dst a XOR nw_dst b) AND dst_mask = 0 \<and>
     (wild w OFPFW_NW_PROTO \<or> nw_proto a = nw_proto b) \<and>
     (wild w OFPFW_TP_SRC \<or> tp_src a = tp_src b) \<and>
     (wild w OFPFW_TP_DST \<or> tp_dst a = tp_dst b) \<and>
     (wild w OFPFW_MPLS_L1 \<or> mpls_label1 a = mpls_label1 b) \<and>
     (wild w OFPFW_MPLS_L2 \<or> mpls_label2 a = mpls_label2 b)"

definition make_nw_mask :: "u32 \<Rightarrow> u32" where
  "make_nw_mask n_wild_bits =
    (let n = n_wild_bits AND 63
     in if n < 32 then htonl (NOT (push_bit (unat n) 1 - 1)) else 0)"

definition flow_matches_1wild :: "sw_flow_key \<Rightarrow> sw_flow_key \<Rightarrow> bool" where
  "flow_matches_1wild a b =
    flow_fields_match (key_flow a) (key_flow b) (ucast (wildcards b)) (nw_src_mask b) (nw_dst_mask b)"

definition flow_matches_2wild :: "sw_flow_key \<Rightarrow> sw_flow_key \<Rightarrow> bool" where
  "flow_matches_2wild a b =
    flow_fields_match (key_flow a) (key_flow b) (ucast (wildcards a OR wildcards b))
      (nw_src_mask a AND nw_src_mask b) (nw_dst_mask a AND nw_dst_mask b)"

definition flow_matches_desc :: "sw_flow_key \<Rightarrow> sw_flow_key \<Rightarrow> bool \<Rightarrow> bool" where
  "flow_matches_desc t d strict \<longleftrightarrow>
    (if strict \<and> wildcards d \<noteq> wildcards t then False else flow_matches_1wild t d)"


section \<open>Conversion from and to the protocol\<close>

definition flow_extract_match :: "ofp_match \<Rightarrow> sw_flow_key" where
  "flow_extract_match from =
    (let w = (ntohl (m_wildcards from) AND OFPFW_ALL) OR (OFPFW_MPLS_L1 OR OFPFW_MPLS_L2);
         f = \<lparr> nw_src = 0, nw_dst = 0, in_port = m_in_port from, dl_vlan = m_dl_vlan from,
               dl_type = m_dl_type from, tp_src = 0, tp_dst = 0, dl_src = m_dl_src from,
               dl_dst = m_dl_dst from, nw_proto = 0, reserved = 0,
               mpls_label1 = m_mpls_label1 from, mpls_label2 = m_mpls_label2 from \<rparr>;
         (w, f) =
           (if w AND OFPFW_DL_TYPE \<noteq> 0 then (w OR (OFPFW_NW OR OFPFW_TP), f)
            else if m_dl_type from = htons ETH_TYPE_IP then
              (let f = f\<lparr> nw_src := m_nw_src from, nw_dst := m_nw_dst from, nw_proto := m_nw_proto from \<rparr>
               in if w AND OFPFW_NW_PROTO \<noteq> 0 then (w OR OFPFW_TP, f)
                  else if m_nw_proto from = IP_TYPE_TCP \<or> m_nw_proto from = IP_TYPE_UDP
                            \<or> m_nw_proto from = IP_TYPE_ICMP
                  then (w, f\<lparr> tp_src := m_tp_src from, tp_dst := m_tp_dst from \<rparr>)
                  else (w AND NOT OFPFW_TP, f))
            else if m_dl_type from = htons ETH_TYPE_MPLS_UNICAST then
              (let w = w AND NOT OFPFW_MPLS_L1;
                   w = (if ntohl (mpls_label2 f) < 0x00100000 then w AND NOT OFPFW_MPLS_L2 else w)
               in (w OR (OFPFW_NW OR OFPFW_TP), f))
            else (w AND NOT (OFPFW_NW OR OFPFW_TP), f))
     in \<lparr> key_flow = f, wildcards = w,
          nw_src_mask = make_nw_mask (drop_bit OFPFW_NW_SRC_SHIFT w),
          nw_dst_mask = make_nw_mask (drop_bit OFPFW_NW_DST_SHIFT w) \<rparr>)"

definition flow_fill_match :: "sw_flow_key \<Rightarrow> ofp_match" where
  "flow_fill_match from = (let f = key_flow from in
    \<lparr> m_wildcards = htonl (wildcards from), m_in_port = in_port f, m_dl_src = dl_src f,
      m_dl_dst = dl_dst f, m_dl_vlan = dl_vlan f, m_dl_type = dl_type f, m_nw_proto = nw_proto f,
      m_pad = 0, m_nw_src = nw_src f, m_nw_dst = nw_dst f, m_tp_src = tp_src f, m_tp_dst = tp_dst f,
      m_mpls_label1 = mpls_label1 f, m_mpls_label2 = mpls_label2 f \<rparr>)"


section \<open>Time and use\<close>

text \<open>\<open>flow_timeout\<close> returns whether the flow expired and, when it did, the flow with its reason set.\<close>

definition flow_timeout :: "int \<Rightarrow> sw_flow \<Rightarrow> bool \<times> sw_flow" where
  "flow_timeout now f =
    (if idle_timeout f \<noteq> OFP_FLOW_PERMANENT \<and> now > used f + uint (idle_timeout f)
     then (True, f\<lparr> reason := OFPER_IDLE_TIMEOUT \<rparr>)
     else if hard_timeout f \<noteq> OFP_FLOW_PERMANENT \<and> now > created f + uint (hard_timeout f)
     then (True, f\<lparr> reason := OFPER_HARD_TIMEOUT \<rparr>)
     else (False, f))"

definition flow_used :: "int \<Rightarrow> nat \<Rightarrow> sw_flow \<Rightarrow> sw_flow" where
  "flow_used now buffer_size f =
    f\<lparr> used := now, packet_count := packet_count f + 1, byte_count := byte_count f + of_nat buffer_size \<rparr>"

text \<open>\<open>flow_replace_acts\<close>; when the allocation fails (\<open>ok\<close> is false) the old actions stay.\<close>

definition flow_replace_acts :: "bool \<Rightarrow> u8 list \<Rightarrow> sw_flow \<Rightarrow> sw_flow" where
  "flow_replace_acts ok actions f = (if ok then f\<lparr> sf_acts := actions \<rparr> else f)"


section \<open>The wildcard flags\<close>

lemma wild_exp: "wild w (2 ^ n) \<longleftrightarrow> bit w n"
proof -
  have "wild w (2 ^ n) \<longleftrightarrow> bit (ucast w :: u32) n"
    by (simp add: wild_def and_exp_eq_0_iff_not_bit)
  then show ?thesis by (auto simp: bit_simps dest: bit_imp_le_length)
qed

lemma wild_flags:
  "wild w OFPFW_IN_PORT \<longleftrightarrow> bit w 0" "wild w OFPFW_DL_VLAN \<longleftrightarrow> bit w 1" "wild w OFPFW_DL_SRC \<longleftrightarrow> bit w 2"
  "wild w OFPFW_DL_DST \<longleftrightarrow> bit w 3" "wild w OFPFW_DL_TYPE \<longleftrightarrow> bit w 4" "wild w OFPFW_NW_PROTO \<longleftrightarrow> bit w 5"
  "wild w OFPFW_TP_SRC \<longleftrightarrow> bit w 6" "wild w OFPFW_TP_DST \<longleftrightarrow> bit w 7"
  using wild_exp [of w 0] wild_exp [of w 1] wild_exp [of w 2] wild_exp [of w 3] wild_exp [of w 4]
    wild_exp [of w 5] wild_exp [of w 6] wild_exp [of w 7] by (simp_all add: OFPFW_defs)

lemma not_wild_mpls: "\<not> wild w OFPFW_MPLS_L1" "\<not> wild w OFPFW_MPLS_L2"
  using wild_exp [of w 20] wild_exp [of w 21] by (auto simp: OFPFW_defs dest: bit_imp_le_length)

lemma flag_set_iff: "(w :: u32) AND OFPFW_DL_TYPE \<noteq> 0 \<longleftrightarrow> bit w 4" "w AND OFPFW_NW_PROTO \<noteq> 0 \<longleftrightarrow> bit w 5"
  using and_exp_eq_0_iff_not_bit [of w 4] and_exp_eq_0_iff_not_bit [of w 5] by (simp_all add: OFPFW_defs)

text \<open>The wildcard test, with every flag replaced by the bit it reads.\<close>

lemma flow_fields_match_iff:
  "flow_fields_match a b (ucast (w :: u32)) src_mask dst_mask \<longleftrightarrow>
     (bit w 0 \<or> in_port a = in_port b) \<and> (bit w 1 \<or> dl_vlan a = dl_vlan b) \<and>
     (bit w 2 \<or> dl_src a = dl_src b) \<and> (bit w 3 \<or> dl_dst a = dl_dst b) \<and>
     (bit w 4 \<or> dl_type a = dl_type b) \<and>
     (nw_src a XOR nw_src b) AND src_mask = 0 \<and> (nw_dst a XOR nw_dst b) AND dst_mask = 0 \<and>
     (bit w 5 \<or> nw_proto a = nw_proto b) \<and>
     (bit w 6 \<or> tp_src a = tp_src b) \<and> (bit w 7 \<or> tp_dst a = tp_dst b) \<and>
     mpls_label1 a = mpls_label1 b \<and> mpls_label2 a = mpls_label2 b"
  by (simp add: flow_fields_match_def wild_flags not_wild_mpls bit_simps)


lemma flow_matches_2wild_refl [simp]: "flow_matches_2wild k k"
  by (simp add: flow_matches_2wild_def flow_fields_match_def)


section \<open>Address masks\<close>

text \<open>Two addresses in network order agree when \<open>n\<close> low bits of the host-order addresses are ignored.\<close>

definition nw_agree :: "nat \<Rightarrow> u32 \<Rightarrow> u32 \<Rightarrow> bool" where
  "nw_agree n a b \<longleftrightarrow> 32 \<le> n \<or> drop_bit n (ntohl a) = drop_bit n (ntohl b)"

lemma htonl_and: "htonl (a AND b) = htonl a AND htonl b"
  by (rule bit_word_eqI) (auto simp: bit_htonl bit_simps)

lemma htonl_xor: "htonl (a XOR b) = htonl a XOR htonl b"
  by (rule bit_word_eqI) (auto simp: bit_htonl bit_simps)

lemma htonl_eq_0_iff: "htonl a = 0 \<longleftrightarrow> a = 0"
  using htonl_inject [of a 0] by (simp add: htonl_def)

lemma and_not_mask_eq_0_iff: "(x :: u32) AND NOT (mask n) = 0 \<longleftrightarrow> drop_bit n x = 0"
proof -
  have eq: "x AND NOT (mask n) = push_bit n (drop_bit n x)"
    by (rule bit_word_eqI) (auto simp: bit_simps)
  have "drop_bit n (push_bit n (drop_bit n x)) = drop_bit n x"
    by (rule bit_word_eqI) (auto simp: bit_simps dest: bit_imp_le_length)
  then have "push_bit n (drop_bit n x) = 0 \<longleftrightarrow> drop_bit n x = 0"
    by (metis drop_bit_of_0 push_bit_of_0)
  with eq show ?thesis by simp
qed

lemma xor_word_eq_0_iff: "(a :: u32) XOR b = 0 \<longleftrightarrow> a = b"
  by (auto simp: bit_eq_iff bit_simps)

lemma nw_mask_agree:
  "(a XOR b) AND make_nw_mask n = 0 \<longleftrightarrow> nw_agree (unat (n AND 63)) a b"
proof (cases "n AND 63 < 32")
  case True
  define k where "k = unat (n AND 63)"
  have "k < 32" using True by (simp add: k_def word_less_nat_alt)
  have mask: "make_nw_mask n = htonl (NOT (mask k))"
    using True by (simp add: make_nw_mask_def k_def mask_eq_exp_minus_1 push_bit_eq_mult)
  have "(a XOR b) AND make_nw_mask n = htonl ((ntohl a XOR ntohl b) AND NOT (mask k))"
    by (simp add: mask htonl_and htonl_xor)
  then have "(a XOR b) AND make_nw_mask n = 0 \<longleftrightarrow> drop_bit k (ntohl a XOR ntohl b) = 0"
    by (simp add: htonl_eq_0_iff and_not_mask_eq_0_iff)
  also have "\<dots> \<longleftrightarrow> drop_bit k (ntohl a) = drop_bit k (ntohl b)"
    by (simp only: drop_bit_xor xor_word_eq_0_iff)
  finally show ?thesis using \<open>k < 32\<close> by (simp add: nw_agree_def k_def)
next
  case False
  then show ?thesis by (simp add: make_nw_mask_def nw_agree_def word_less_nat_alt)
qed

text \<open>The number of address bits that a wildcard word ignores, at the shift of its field.\<close>

definition nw_wild_bits :: "nat \<Rightarrow> u32 \<Rightarrow> nat" where
  "nw_wild_bits s w = unat (drop_bit s w AND 63)"

lemma and_63: "(x :: u32) AND 63 = take_bit 6 x"
proof -
  have "(63 :: u32) = mask 6" by (simp add: mask_eq_exp_minus_1)
  then show ?thesis by (simp only: take_bit_eq_mask)
qed

lemma nw_wild_bits_cong:
  assumes "\<And>n. n < 6 \<Longrightarrow> bit v (s + n) = bit w (s + n)"
  shows "nw_wild_bits s v = nw_wild_bits s w"
proof -
  have "take_bit 6 (drop_bit s v) = take_bit 6 (drop_bit s w)"
    by (rule bit_word_eqI) (auto simp: bit_simps assms)
  then show ?thesis by (simp add: nw_wild_bits_def and_63)
qed

lemma nw_wild_bits_0: "nw_wild_bits s 0 = 0"
  by (simp add: nw_wild_bits_def)

lemma nw_wild_bits_mask: "nw_wild_bits 8 (mask 20) = 63" "nw_wild_bits 14 (mask 20) = 63"
  by (simp_all add: nw_wild_bits_def mask_eq_exp_minus_1)

lemma nw_wild_bits_all: "s \<in> {8, 14} \<Longrightarrow> nw_wild_bits s (w OR (OFPFW_NW OR OFPFW_TP)) = 63"
proof -
  assume s: "s \<in> {8, 14}"
  have "nw_wild_bits s (w OR (OFPFW_NW OR OFPFW_TP)) = nw_wild_bits s (mask 20)"
    by (rule nw_wild_bits_cong) (use s in \<open>auto simp: bit_simps bit_OFPFW\<close>)
  then show ?thesis using s nw_wild_bits_mask by auto
qed

lemma nw_wild_bits_none: "s \<in> {8, 14} \<Longrightarrow> nw_wild_bits s (w AND NOT OFPFW_NW AND NOT OFPFW_TP) = 0"
proof -
  assume s: "s \<in> {8, 14}"
  have "nw_wild_bits s (w AND NOT OFPFW_NW AND NOT OFPFW_TP) = nw_wild_bits s 0"
    by (rule nw_wild_bits_cong) (use s in \<open>auto simp: bit_simps bit_OFPFW\<close>)
  then show ?thesis by (simp add: nw_wild_bits_0)
qed

lemma nw_wild_bits_tp:
  "s \<in> {8, 14} \<Longrightarrow> nw_wild_bits s (w OR OFPFW_TP) = nw_wild_bits s w"
  "s \<in> {8, 14} \<Longrightarrow> nw_wild_bits s (w AND NOT OFPFW_TP) = nw_wild_bits s w"
  by (rule nw_wild_bits_cong; auto simp: bit_simps bit_OFPFW dest: bit_imp_le_length)+

text \<open>The wildcard word with which \<open>flow_extract_match\<close> starts, and its bits.\<close>

definition start_wildcards :: "ofp_match \<Rightarrow> u32" where
  "start_wildcards m = (ntohl (m_wildcards m) AND OFPFW_ALL) OR (OFPFW_MPLS_L1 OR OFPFW_MPLS_L2)"

lemma bit_start_wildcards:
  "bit (start_wildcards m) n \<longleftrightarrow> n = 20 \<or> n = 21 \<or> n < 20 \<and> bit (ntohl (m_wildcards m)) n"
  by (auto simp: start_wildcards_def bit_simps bit_OFPFW)

lemma nw_wild_bits_start:
  "s \<in> {8, 14} \<Longrightarrow> nw_wild_bits s (start_wildcards m) = nw_wild_bits s (ntohl (m_wildcards m))"
  by (rule nw_wild_bits_cong) (auto simp: bit_start_wildcards)


section \<open>What a match means\<close>

text \<open>
  The meaning of a controller's match, layer by layer: a field of an upper layer counts only when the
  field below that selects the layer is not wildcarded.  Network and transport fields of frames that
  have none must be zero, which is what \<open>flow_extract\<close> leaves there.  Both MPLS labels must be equal,
  whatever the wildcards.
\<close>

definition match_spec :: "ofp_match \<Rightarrow> flow \<Rightarrow> bool" where
  "match_spec m f \<longleftrightarrow> (let w = ntohl (m_wildcards m) in
     (bit w 0 \<or> in_port f = m_in_port m) \<and> (bit w 1 \<or> dl_vlan f = m_dl_vlan m) \<and>
     (bit w 2 \<or> dl_src f = m_dl_src m) \<and> (bit w 3 \<or> dl_dst f = m_dl_dst m) \<and>
     mpls_label1 f = m_mpls_label1 m \<and> mpls_label2 f = m_mpls_label2 m \<and>
     (bit w 4 \<or> dl_type f = m_dl_type m \<and>
       (if m_dl_type m = htons ETH_TYPE_IP then
          nw_agree (nw_wild_bits 8 w) (nw_src f) (m_nw_src m) \<and>
          nw_agree (nw_wild_bits 14 w) (nw_dst f) (m_nw_dst m) \<and>
          (bit w 5 \<or> nw_proto f = m_nw_proto m \<and>
            (if m_nw_proto m \<in> {IP_TYPE_TCP, IP_TYPE_UDP, IP_TYPE_ICMP}
             then (bit w 6 \<or> tp_src f = m_tp_src m) \<and> (bit w 7 \<or> tp_dst f = m_tp_dst m)
             else tp_src f = 0 \<and> tp_dst f = 0))
        else m_dl_type m = htons ETH_TYPE_MPLS_UNICAST \<or>
          nw_src f = 0 \<and> nw_dst f = 0 \<and> nw_proto f = 0 \<and> tp_src f = 0 \<and> tp_dst f = 0)))"

lemma nw_agree_0: "nw_agree 0 a b \<longleftrightarrow> a = b"
  by (simp add: nw_agree_def)

lemma nw_agree_63: "nw_agree 63 a b"
  by (simp add: nw_agree_def)

lemmas match_bits = bit_or_iff bit_and_iff bit_not_iff bit_OFPFW bit_start_wildcards

lemma flow_matches_1wild_masks:
  "nw_src_mask b = make_nw_mask (drop_bit 8 (wildcards b)) \<Longrightarrow>
   nw_dst_mask b = make_nw_mask (drop_bit 14 (wildcards b)) \<Longrightarrow>
   flow_matches_1wild a b \<longleftrightarrow>
     flow_fields_match (key_flow a) (key_flow b) (ucast (wildcards b)) 0 0 \<and>
     nw_agree (nw_wild_bits 8 (wildcards b)) (nw_src (key_flow a)) (nw_src (key_flow b)) \<and>
     nw_agree (nw_wild_bits 14 (wildcards b)) (nw_dst (key_flow a)) (nw_dst (key_flow b))"
  by (auto simp: flow_matches_1wild_def flow_fields_match_iff nw_mask_agree nw_wild_bits_def)

lemma flow_extract_match_masks:
  "nw_src_mask (flow_extract_match m) = make_nw_mask (drop_bit 8 (wildcards (flow_extract_match m)))"
  "nw_dst_mask (flow_extract_match m) = make_nw_mask (drop_bit 14 (wildcards (flow_extract_match m)))"
  by (simp_all add: flow_extract_match_def Let_def split_def)


text \<open>
  C1. The key that \<open>flow_extract_match\<close> makes of a controller's match is matched by exactly the packets
  that satisfy the match layer by layer.
\<close>

theorem flow_extract_match_correct:
  "flow_matches_1wild k (flow_extract_match m) \<longleftrightarrow> match_spec m (key_flow k)"
proof -
  note masks = flow_matches_1wild_masks [OF flow_extract_match_masks]
  note unfold = flow_extract_match_def start_wildcards_def [symmetric] match_spec_def Let_def flow_fields_match_iff flag_set_iff
  consider (untyped) "bit (start_wildcards m) 4"
    | (ip) "\<not> bit (start_wildcards m) 4" "m_dl_type m = htons ETH_TYPE_IP"
    | (mpls) "\<not> bit (start_wildcards m) 4" "m_dl_type m = htons ETH_TYPE_MPLS_UNICAST"
    | (other) "\<not> bit (start_wildcards m) 4" "m_dl_type m \<noteq> htons ETH_TYPE_IP"
        "m_dl_type m \<noteq> htons ETH_TYPE_MPLS_UNICAST"
    by blast
  then show ?thesis
  proof cases
    case untyped
    then show ?thesis unfolding masks
      by (simp add: unfold match_bits nw_wild_bits_all nw_agree_63)
  next
    case ip
    then show ?thesis unfolding masks
      by (auto simp: unfold match_bits nw_wild_bits_tp nw_wild_bits_start)
  next
    case mpls
    then show ?thesis unfolding masks
      by (auto simp: unfold match_bits nw_wild_bits_all nw_agree_63)
  next
    case other
    then show ?thesis unfolding masks
      by (auto simp add: unfold match_bits nw_wild_bits_none nw_agree_0)
  qed
qed


text \<open>The wildcards and the flow of an extracted key, branch by branch.\<close>

definition norm_wildcards :: "ofp_match \<Rightarrow> u32" where
  "norm_wildcards m = (let w = start_wildcards m in
     if bit w 4 then w OR (OFPFW_NW OR OFPFW_TP)
     else if m_dl_type m = htons ETH_TYPE_IP then
       (if bit w 5 then w OR OFPFW_TP
        else if m_nw_proto m \<in> {IP_TYPE_TCP, IP_TYPE_UDP, IP_TYPE_ICMP} then w else w AND NOT OFPFW_TP)
     else if m_dl_type m = htons ETH_TYPE_MPLS_UNICAST then
       (if ntohl (m_mpls_label2 m) < 0x00100000 then w AND NOT OFPFW_MPLS_L1 AND NOT OFPFW_MPLS_L2
        else w AND NOT OFPFW_MPLS_L1) OR (OFPFW_NW OR OFPFW_TP)
     else w AND NOT (OFPFW_NW OR OFPFW_TP))"

lemma wildcards_flow_extract_match: "wildcards (flow_extract_match m) = norm_wildcards m"
  by (simp add: flow_extract_match_def norm_wildcards_def Let_def start_wildcards_def [symmetric]
      flag_set_iff and.assoc)

lemma key_flow_extract_match:
  "key_flow (flow_extract_match m) =
    (let w = start_wildcards m; ip = \<not> bit w 4 \<and> m_dl_type m = htons ETH_TYPE_IP;
         tp = ip \<and> \<not> bit w 5 \<and> m_nw_proto m \<in> {IP_TYPE_TCP, IP_TYPE_UDP, IP_TYPE_ICMP}
     in \<lparr> nw_src = if ip then m_nw_src m else 0, nw_dst = if ip then m_nw_dst m else 0,
          in_port = m_in_port m, dl_vlan = m_dl_vlan m, dl_type = m_dl_type m,
          tp_src = if tp then m_tp_src m else 0, tp_dst = if tp then m_tp_dst m else 0,
          dl_src = m_dl_src m, dl_dst = m_dl_dst m, nw_proto = if ip then m_nw_proto m else 0,
          reserved = 0, mpls_label1 = m_mpls_label1 m, mpls_label2 = m_mpls_label2 m \<rparr>)"
  by (simp add: flow_extract_match_def Let_def start_wildcards_def [symmetric] flag_set_iff)

lemma bit_norm_wildcards_typed: "bit (norm_wildcards m) 4 \<longleftrightarrow> bit (start_wildcards m) 4"
  by (simp add: norm_wildcards_def Let_def match_bits)

lemma bit_start_wildcards_fill:
  "bit (start_wildcards (flow_fill_match k)) n \<longleftrightarrow> n = 20 \<or> n = 21 \<or> n < 20 \<and> bit (wildcards k) n"
  by (simp add: bit_start_wildcards flow_fill_match_def Let_def)

lemma fill_match_fields:
  "m_dl_type (flow_fill_match k) = dl_type (key_flow k)"
  "m_nw_proto (flow_fill_match k) = nw_proto (key_flow k)"
  "m_mpls_label2 (flow_fill_match k) = mpls_label2 (key_flow k)"
  "m_nw_src (flow_fill_match k) = nw_src (key_flow k)" "m_nw_dst (flow_fill_match k) = nw_dst (key_flow k)"
  "m_tp_src (flow_fill_match k) = tp_src (key_flow k)" "m_tp_dst (flow_fill_match k) = tp_dst (key_flow k)"
  "m_in_port (flow_fill_match k) = in_port (key_flow k)" "m_dl_vlan (flow_fill_match k) = dl_vlan (key_flow k)"
  "m_dl_src (flow_fill_match k) = dl_src (key_flow k)" "m_dl_dst (flow_fill_match k) = dl_dst (key_flow k)"
  "m_mpls_label1 (flow_fill_match k) = mpls_label1 (key_flow k)"
  by (simp_all add: flow_fill_match_def Let_def)

lemmas roundtrip_simps = bit_start_wildcards_fill fill_match_fields wildcards_flow_extract_match
  key_flow_extract_match bit_norm_wildcards_typed

lemma norm_wildcards_ip:
  "\<not> bit (start_wildcards m) 4 \<Longrightarrow> m_dl_type m = htons ETH_TYPE_IP \<Longrightarrow>
   bit (norm_wildcards m) 5 \<longleftrightarrow> bit (start_wildcards m) 5"
  by (simp add: norm_wildcards_def Let_def match_bits)

text \<open>Which bits the normalisation clears and sets.\<close>

definition norm_clear :: "ofp_match \<Rightarrow> u32" where
  "norm_clear m = (if bit (start_wildcards m) 4 then 0
     else if m_dl_type m = htons ETH_TYPE_IP then
       (if bit (start_wildcards m) 5 \<or> m_nw_proto m \<in> {IP_TYPE_TCP, IP_TYPE_UDP, IP_TYPE_ICMP} then 0 else OFPFW_TP)
     else if m_dl_type m = htons ETH_TYPE_MPLS_UNICAST then
       (if ntohl (m_mpls_label2 m) < 0x00100000 then OFPFW_MPLS_L1 OR OFPFW_MPLS_L2 else OFPFW_MPLS_L1)
     else OFPFW_NW OR OFPFW_TP)"

definition norm_set :: "ofp_match \<Rightarrow> u32" where
  "norm_set m = (if bit (start_wildcards m) 4 then OFPFW_NW OR OFPFW_TP
     else if m_dl_type m = htons ETH_TYPE_IP then (if bit (start_wildcards m) 5 then OFPFW_TP else 0)
     else if m_dl_type m = htons ETH_TYPE_MPLS_UNICAST then OFPFW_NW OR OFPFW_TP
     else 0)"

lemma norm_wildcards_clear_set:
  "norm_wildcards m = (start_wildcards m AND NOT (norm_clear m)) OR norm_set m"
  by (simp add: norm_wildcards_def norm_clear_def norm_set_def Let_def)

lemma norm_clear_fill: "norm_clear (flow_fill_match (flow_extract_match m)) = norm_clear m"
  by (simp add: norm_clear_def roundtrip_simps norm_wildcards_ip Let_def)

lemma norm_set_fill: "norm_set (flow_fill_match (flow_extract_match m)) = norm_set m"
  by (simp add: norm_set_def roundtrip_simps norm_wildcards_ip Let_def)

lemma norm_bits_bound: "bit (norm_set m) n \<Longrightarrow> n < 20" "bit (norm_clear m) n \<Longrightarrow> n < 22"
  by (auto simp: norm_set_def norm_clear_def bit_or_iff bit_OFPFW split: if_splits)

lemma norm_wildcards_fill:
  "norm_wildcards (flow_fill_match (flow_extract_match m)) = norm_wildcards m" (is "norm_wildcards ?m = _")
proof (rule bit_word_eqI)
  fix n
  have "bit (start_wildcards ?m) n \<longleftrightarrow> n = 20 \<or> n = 21 \<or> n < 20 \<and> bit (norm_wildcards m) n"
    by (simp add: bit_start_wildcards_fill wildcards_flow_extract_match)
  then show "bit (norm_wildcards ?m) n \<longleftrightarrow> bit (norm_wildcards m) n"
    using norm_bits_bound [of m n] bit_start_wildcards [of m n]
    by (auto simp: norm_wildcards_clear_set norm_clear_fill norm_set_fill bit_or_iff bit_and_iff bit_not_iff)
qed

text \<open>
  C27. Reading a flow entry back as a match and extracting that match again gives the same key: the
  normalisation of the wildcards done by \<open>flow_extract_match\<close> is complete in one pass.
\<close>

theorem flow_fill_extract_roundtrip:
  "flow_extract_match (flow_fill_match (flow_extract_match m)) = flow_extract_match m"
proof (rule sw_flow_key.equality)
  let ?m = "flow_fill_match (flow_extract_match m)"
  show w: "wildcards (flow_extract_match ?m) = wildcards (flow_extract_match m)"
    by (simp add: wildcards_flow_extract_match norm_wildcards_fill)
  then show "nw_src_mask (flow_extract_match ?m) = nw_src_mask (flow_extract_match m)"
    "nw_dst_mask (flow_extract_match ?m) = nw_dst_mask (flow_extract_match m)"
    by (simp_all only: flow_extract_match_masks)
  show "key_flow (flow_extract_match ?m) = key_flow (flow_extract_match m)"
    by (auto simp: key_flow_extract_match [of ?m] Let_def roundtrip_simps norm_wildcards_ip)
qed simp

text \<open>
  No match yields an exact key: its wildcards are never zero, since either an MPLS wildcard or the
  network wildcards stay set.  Hence no flow that a controller adds is accepted by the hash tables.
\<close>

theorem flow_extract_match_not_exact:
  "wildcards (flow_extract_match m) \<noteq> 0"
proof -
  have "bit (wildcards (flow_extract_match m)) 20 \<or> bit (wildcards (flow_extract_match m)) 6"
    by (simp add: flow_extract_match_def Let_def start_wildcards_def [symmetric] flag_set_iff match_bits)
  then show ?thesis by auto
qed

end
