(* ===== verification/Flow_Store.thy ===== *)
theory Flow_Store
  imports Flow_Key
begin

text \<open>
  The flow entries in memory and the contract of a flow table.

  Flow entries are allocated with \<open>malloc\<close> and shared by pointer between a table and the datapath, so
  they live in a store that maps the addresses of the allocated entries to their contents;
  \<open>flow_free\<close> removes an address.  The action bytes of an entry are scanned by \<open>flow_has_out_port\<close>
  (\<open>switch/switch-flow.c\<close>), whose loop trusts the length fields it finds: the model returns \<open>None\<close>
  where the code would read outside the block or never stop.  The locale \<open>sw_table\<close> states what
  \<open>switch/table.h\<close> promises of the operations of every table.
\<close>

section \<open>The store\<close>

type_synonym addr = nat
type_synonym fheap = "addr \<rightharpoonup> sw_flow"

definition fl :: "fheap \<Rightarrow> addr \<Rightarrow> sw_flow" where
  "fl h a = the (h a)"

definition flow_free :: "addr \<Rightarrow> fheap \<Rightarrow> fheap" where
  "flow_free a h = h(a := None)"

lemma fl_upd [simp]: "fl (h(a \<mapsto> f)) b = (if b = a then f else fl h b)"
  by (simp add: fl_def)

lemma fl_flow_free [simp]: "b \<noteq> a \<Longrightarrow> fl (flow_free a h) b = fl h b"
  by (simp add: fl_def flow_free_def)

lemma dom_flow_free [simp]: "dom (flow_free a h) = dom h - {a}"
  by (simp add: flow_free_def)

lemma flow_free_other [simp]: "b \<noteq> a \<Longrightarrow> flow_free a h b = h b"
  by (simp add: flow_free_def)

lemma restrict_single: "h |` (- {a}) = flow_free a h"
  by (auto simp: flow_free_def restrict_map_def)

lemma flow_free_same [simp]: "flow_free a h a = None"
  by (simp add: flow_free_def)


section \<open>Action lists as bytes\<close>

abbreviation (input) OFPP_NONE :: u16 where "OFPP_NONE \<equiv> 0xffff"
abbreviation (input) OFPAT_OUTPUT :: u16 where "OFPAT_OUTPUT \<equiv> 0"

text \<open>The fields of an action header at the start of a block of bytes.\<close>

definition act_type :: "u8 list \<Rightarrow> u16" where
  "act_type p = get_u16 p 0"

definition act_len :: "u8 list \<Rightarrow> nat" where
  "act_len p = unat (ntohs (get_u16 p 2))"

text \<open>The loop of \<open>flow_has_out_port\<close> over the remaining action bytes.\<close>

function has_out_port_loop :: "u16 \<Rightarrow> u8 list \<Rightarrow> bool option" where
  "has_out_port_loop out_port p =
    (if p = [] then Some False
     else if length p < 4 then None
     else let len = act_len p in
       if act_type p = htons OFPAT_OUTPUT \<and> length p < 8 then None
       else if act_type p = htons OFPAT_OUTPUT \<and> get_u32 p 4 = ucast out_port then Some True
       else if len = 0 \<or> length p < len then None
       else has_out_port_loop out_port (drop len p))"
  by pat_completeness auto

termination
  by (relation "measure (\<lambda>(_, p). length p)") auto

declare has_out_port_loop.simps [simp del]

definition flow_has_out_port :: "sw_flow \<Rightarrow> u16 \<Rightarrow> bool option" where
  "flow_has_out_port f out_port =
    (if out_port = htons OFPP_NONE then Some True else has_out_port_loop out_port (sf_acts f))"

text \<open>Well-formed action bytes: a sequence of actions, each at least a header long and inside the block.\<close>

function acts_ok :: "u8 list \<Rightarrow> bool" where
  "acts_ok p =
    (if p = [] then True
     else if 8 \<le> act_len p \<and> act_len p \<le> length p then acts_ok (drop (act_len p) p) else False)"
  by pat_completeness auto

termination
  by (relation "measure length") auto

declare acts_ok.simps [simp del]

function acts_split :: "u8 list \<Rightarrow> u8 list list" where
  "acts_split p = (if p = [] \<or> act_len p = 0 then []
     else take (act_len p) p # acts_split (drop (act_len p) p))"
  by pat_completeness auto

termination
  by (relation "measure length") auto

declare acts_split.simps [simp del]

text \<open>The action \<open>c\<close> is an output whose 32-bit port field holds the 16-bit value \<open>out_port\<close>.\<close>

definition outputs_to :: "u16 \<Rightarrow> u8 list \<Rightarrow> bool" where
  "outputs_to out_port c \<longleftrightarrow> act_type c = htons OFPAT_OUTPUT \<and> get_u32 c 4 = ucast out_port"

definition has_out_port :: "sw_flow \<Rightarrow> u16 \<Rightarrow> bool" where
  "has_out_port f out_port \<longleftrightarrow>
    out_port = htons OFPP_NONE \<or> (\<exists>c \<in> set (acts_split (sf_acts f)). outputs_to out_port c)"

lemma outputs_to_take: "8 \<le> n \<Longrightarrow> outputs_to out_port (take n p) \<longleftrightarrow> outputs_to out_port p"
  by (simp add: outputs_to_def act_type_def get_u16_def get_u32_def)

text \<open>
  With both sides in network byte order, the comparison of the 32-bit field with the 16-bit port finds
  the outputs to the port times 65536, so of the ordinary ports only an output to port 0 is found.
\<close>

lemma out_port_field: "htonl q = ucast (htons p) \<longleftrightarrow> q = push_bit 16 (ucast p)"
proof -
  have "ucast (htons p) = htonl (push_bit 16 (ucast p :: u32))"
    by (rule bit_word_eqI) (auto simp: bit_htonl bit_htons bit_simps add.commute)
  then show ?thesis by (metis htonl_htonl)
qed

lemma outputs_to_iff:
  "outputs_to (htons p) c \<longleftrightarrow> act_type c = htons OFPAT_OUTPUT \<and> ntohl (get_u32 c 4) = push_bit 16 (ucast p)"
  using out_port_field [of "htonl (get_u32 c 4)" p] by (simp add: outputs_to_def)

lemma has_out_port_loop_ok:
  "acts_ok p \<Longrightarrow> has_out_port_loop out_port p = Some (\<exists>c \<in> set (acts_split p). outputs_to out_port c)"
proof (induction out_port p rule: has_out_port_loop.induct)
  case (1 out_port p)
  show ?case
  proof (cases "p = []")
    case True
    then show ?thesis by (simp add: has_out_port_loop.simps acts_split.simps)
  next
    case False
    with 1 have ok: "8 \<le> act_len p" "act_len p \<le> length p" "acts_ok (drop (act_len p) p)"
      by (auto simp: acts_ok.simps [of p] split: if_splits)
    have split: "acts_split p = take (act_len p) p # acts_split (drop (act_len p) p)"
      using False ok by (simp add: acts_split.simps [of p])
    show ?thesis
    proof (cases "outputs_to out_port p")
      case True
      then show ?thesis
        using False ok
        by (simp add: has_out_port_loop.simps [of out_port p] Let_def split outputs_to_take)
          (auto simp: outputs_to_def)
    next
      case out: False
      have "has_out_port_loop out_port p = has_out_port_loop out_port (drop (act_len p) p)"
        using False ok out
        by (auto simp: has_out_port_loop.simps [of out_port p] Let_def outputs_to_def)
      moreover have "has_out_port_loop out_port (drop (act_len p) p) =
        Some (\<exists>c \<in> set (acts_split (drop (act_len p) p)). outputs_to out_port c)"
        using 1 False ok out by (auto simp: outputs_to_def)
      ultimately show ?thesis using ok out by (simp add: split outputs_to_take)
    qed
  qed
qed

lemma flow_has_out_port_ok:
  "acts_ok (sf_acts f) \<Longrightarrow> flow_has_out_port f out_port = Some (has_out_port f out_port)"
  by (simp add: flow_has_out_port_def has_out_port_def has_out_port_loop_ok)

lemma flow_has_out_port_none [simp]: "flow_has_out_port f (htons OFPP_NONE) = Some True"
  by (simp add: flow_has_out_port_def)


section \<open>Keys\<close>

text \<open>
  The keys that the switch builds: the address masks follow from the wildcards, as
  \<open>flow_extract_match\<close> leaves them, and the padding byte is zero.  A packet's key, built by
  \<open>flow_extract\<close>, has no wildcards.
\<close>

definition key_wf :: "sw_flow_key \<Rightarrow> bool" where
  "key_wf k \<longleftrightarrow> nw_src_mask k = make_nw_mask (drop_bit OFPFW_NW_SRC_SHIFT (wildcards k)) \<and>
     nw_dst_mask k = make_nw_mask (drop_bit OFPFW_NW_DST_SHIFT (wildcards k)) \<and>
     reserved (key_flow k) = 0"

definition packet_key :: "sw_flow_key \<Rightarrow> bool" where
  "packet_key k \<longleftrightarrow> wildcards k = 0 \<and> reserved (key_flow k) = 0"

lemma key_wf_extract: "key_wf (flow_extract_match m)"
  by (simp add: key_wf_def flow_extract_match_masks key_flow_extract_match Let_def)

lemma matches_1wild_exact:
  assumes "key_wf b" and "wildcards b = 0" and "reserved (key_flow a) = 0"
  shows "flow_matches_1wild a b \<longleftrightarrow> key_flow a = key_flow b"
proof -
  have masks: "flow_matches_1wild a b \<longleftrightarrow>
     flow_fields_match (key_flow a) (key_flow b) (ucast (wildcards b)) 0 0 \<and>
     nw_agree (nw_wild_bits 8 (wildcards b)) (nw_src (key_flow a)) (nw_src (key_flow b)) \<and>
     nw_agree (nw_wild_bits 14 (wildcards b)) (nw_dst (key_flow a)) (nw_dst (key_flow b))"
    using assms(1) by (intro flow_matches_1wild_masks) (simp_all add: key_wf_def)
  show ?thesis
  proof
    assume "flow_matches_1wild a b"
    then show "key_flow a = key_flow b"
      unfolding masks using assms
      by (intro flow.equality)
        (simp_all add: flow_fields_match_iff [of _ _ 0, simplified] nw_wild_bits_0 nw_agree_0 key_wf_def)
  next
    assume "key_flow a = key_flow b"
    then show "flow_matches_1wild a b"
      unfolding masks using assms(2)
      by (simp add: flow_fields_match_iff [of _ _ 0, simplified] nw_agree_def)
  qed
qed


section \<open>Sample data\<close>

text \<open>
  A match on the input port alone, the flow entry a controller would install for it with one output
  action, and the key of a packet from a port; concrete inputs for the witnesses below.
\<close>

definition zero_eth :: eth_addr where
  "zero_eth = Eth 0 0 0 0 0 0"

definition sample_match :: "u16 \<Rightarrow> ofp_match" where
  "sample_match port =
    \<lparr> m_wildcards = htonl 0x3ffffe, m_in_port = htons port, m_dl_src = zero_eth, m_dl_dst = zero_eth,
      m_dl_vlan = 0, m_dl_type = 0, m_nw_proto = 0, m_pad = 0, m_nw_src = 0, m_nw_dst = 0,
      m_tp_src = 0, m_tp_dst = 0, m_mpls_label1 = 0, m_mpls_label2 = 0 \<rparr>"

definition sample_output :: "u8 list" where
  "sample_output = [0, 0, 0, 16, 0, 0, 0, 2, 0, 0, 0, 0, 0, 0, 0, 0]"

definition sample_flow :: "u16 \<Rightarrow> u16 \<Rightarrow> sw_flow" where
  "sample_flow prio port =
    \<lparr> key = flow_extract_match (sample_match port), priority = prio, idle_timeout = 10, hard_timeout = 0,
      used = 0, created = 0, packet_count = 0, byte_count = 0, reason = 0, sf_acts = sample_output, serial = 0 \<rparr>"

definition sample_packet :: "u16 \<Rightarrow> sw_flow_key" where
  "sample_packet port =
    \<lparr> key_flow = \<lparr> nw_src = 0, nw_dst = 0, in_port = htons port, dl_vlan = 0, dl_type = 0, tp_src = 0,
        tp_dst = 0, dl_src = zero_eth, dl_dst = zero_eth, nw_proto = 0, reserved = 0,
        mpls_label1 = 0, mpls_label2 = 0 \<rparr>,
      wildcards = 0, nw_src_mask = - 1, nw_dst_mask = - 1 \<rparr>"

lemma key_wf_sample [simp]: "key_wf (key (sample_flow prio port))"
  by (simp add: sample_flow_def key_wf_extract)

lemma packet_key_sample [simp]: "packet_key (sample_packet port)"
  by (simp add: packet_key_def sample_packet_def)

lemma priority_sample [simp]: "priority (sample_flow prio port) = prio"
  by (simp add: sample_flow_def)

lemma acts_ok_sample: "acts_ok (sf_acts (sample_flow prio port))"
proof -
  have "sf_acts (sample_flow prio port) = sample_output" by (simp add: sample_flow_def)
  then show ?thesis
    by (simp add: acts_ok.simps sample_output_def act_len_def get_u16_def le16_def htons_def)
qed

lemma sample_matches: "flow_matches_1wild (sample_packet port) (key (sample_flow prio port'))  \<longleftrightarrow> port = port'"
proof -
  let ?k = "flow_extract_match (sample_match port')"
  have w: "start_wildcards (sample_match port') = 0x3ffffe"
    by (simp add: start_wildcards_def sample_match_def OFPFW_defs)
  have "norm_wildcards (sample_match port') = 0x3ffffe"
    by (simp add: norm_wildcards_def w OFPFW_defs)
  then have "wildcards ?k = 0x3ffffe" by (simp add: wildcards_flow_extract_match)
  moreover have "nw_agree 63 a b" for a b by (simp add: nw_agree_def)
  ultimately have "flow_matches_1wild (sample_packet port) ?k \<longleftrightarrow> port = port'"
    by (simp add: flow_matches_1wild_masks [OF flow_extract_match_masks] flow_fields_match_iff
        key_flow_extract_match sample_packet_def w nw_wild_bits_def zero_eth_def)
      (simp add: sample_match_def zero_eth_def flow_fields_match_def wild_flags not_wild_mpls)
  then show ?thesis by (simp add: sample_flow_def)
qed


section \<open>The contract of a flow table\<close>

text \<open>Every allocated entry has well-formed actions: what \<open>validate_actions\<close> checked on arrival.\<close>

definition acts_valid :: "fheap \<Rightarrow> bool" where
  "acts_valid h \<longleftrightarrow> (\<forall>a \<in> dom h. acts_ok (sf_acts (fl h a)))"

text \<open>
  Two contents of one entry between which a table does not distinguish: the counters, the time of use,
  the reason and the actions may differ.
\<close>

definition same_entry :: "sw_flow \<Rightarrow> sw_flow \<Rightarrow> bool" where
  "same_entry f g \<longleftrightarrow> key f = key g \<and> priority f = priority g \<and> serial f = serial g"

definition expired :: "int \<Rightarrow> sw_flow \<Rightarrow> bool" where
  "expired now f \<longleftrightarrow> fst (flow_timeout now f)"

text \<open>The entries that a modification or deletion with the description \<open>k\<close> selects.\<close>

definition sel_desc :: "fheap \<Rightarrow> sw_flow_key \<Rightarrow> bool \<Rightarrow> addr \<Rightarrow> bool" where
  "sel_desc h k strict a \<longleftrightarrow> flow_matches_desc (key (fl h a)) k strict"

definition sel_prio :: "fheap \<Rightarrow> u16 \<Rightarrow> bool \<Rightarrow> addr \<Rightarrow> bool" where
  "sel_prio h prio strict a \<longleftrightarrow> \<not> strict \<or> priority (fl h a) = prio"

locale sw_table =
  fixes inv :: "fheap \<Rightarrow> 't \<Rightarrow> bool"
    and flows_of :: "'t \<Rightarrow> addr set"
    and lookup :: "fheap \<Rightarrow> 't \<Rightarrow> sw_flow_key \<Rightarrow> addr option"
    and insert_flow :: "fheap \<Rightarrow> 't \<Rightarrow> addr \<Rightarrow> bool \<times> fheap \<times> 't"
    and modify :: "(addr \<Rightarrow> bool) \<Rightarrow> fheap \<Rightarrow> 't \<Rightarrow> sw_flow_key \<Rightarrow> u16 \<Rightarrow> bool \<Rightarrow> u8 list \<Rightarrow> u32 \<times> fheap"
    and delete :: "fheap \<Rightarrow> 't \<Rightarrow> sw_flow_key \<Rightarrow> u16 \<Rightarrow> u16 \<Rightarrow> bool \<Rightarrow> (u32 \<times> fheap \<times> 't) option"
    and timeout :: "int \<Rightarrow> fheap \<Rightarrow> 't \<Rightarrow> addr list \<Rightarrow> fheap \<times> 't \<times> addr list"
    and dups :: "fheap \<Rightarrow> 't \<Rightarrow> addr \<Rightarrow> addr set"
    and by_prio :: "'t \<Rightarrow> bool"
    and room :: "fheap \<Rightarrow> 't \<Rightarrow> addr \<Rightarrow> bool"
  assumes finite_flows: "inv h t \<Longrightarrow> finite (flows_of t)"
    and flows_dom: "inv h t \<Longrightarrow> flows_of t \<subseteq> dom h"
    and inv_cong: "inv h t \<Longrightarrow> (\<And>a. a \<in> flows_of t \<Longrightarrow> a \<in> dom h' \<and> same_entry (fl h' a) (fl h a)) \<Longrightarrow> inv h' t"
    and lookup_sound: "inv h t \<Longrightarrow> lookup h t k = Some a \<Longrightarrow> packet_key k \<Longrightarrow>
      a \<in> flows_of t \<and> flow_matches_1wild k (key (fl h a))"
    and lookup_complete: "inv h t \<Longrightarrow> lookup h t k = None \<Longrightarrow> packet_key k \<Longrightarrow> a \<in> flows_of t \<Longrightarrow>
      \<not> flow_matches_1wild k (key (fl h a))"
    and insert_refused: "insert_flow h t a = (False, h', t') \<Longrightarrow> h' = h \<and> t' = t"
    and insert_inv: "inv h t \<Longrightarrow> a \<in> dom h \<Longrightarrow> a \<notin> flows_of t \<Longrightarrow> key_wf (key (fl h a)) \<Longrightarrow>
      insert_flow h t a = (True, h', t') \<Longrightarrow> inv h' t'"
    and insert_flows: "inv h t \<Longrightarrow> a \<in> dom h \<Longrightarrow> a \<notin> flows_of t \<Longrightarrow>
      insert_flow h t a = (True, h', t') \<Longrightarrow> a \<in> flows_of t' \<and> flows_of t' \<subseteq> insert a (flows_of t)"
    and insert_heap: "inv h t \<Longrightarrow> a \<in> dom h \<Longrightarrow> a \<notin> flows_of t \<Longrightarrow>
      insert_flow h t a = (True, h', t') \<Longrightarrow>
      (\<exists>s. h' = (h |` (- (flows_of t - flows_of t')))(a \<mapsto> (fl h a)\<lparr> serial := s \<rparr>))"
    and dups_flows: "inv h t \<Longrightarrow> dups h t a \<subseteq> flows_of t"
    and insert_dups: "inv h t \<Longrightarrow> a \<in> dom h \<Longrightarrow> a \<notin> flows_of t \<Longrightarrow>
      insert_flow h t a = (True, h', t') \<Longrightarrow>
      (if dups h t a = {} then flows_of t \<subseteq> flows_of t' else \<exists>b \<in> dups h t a. flows_of t - flows_of t' = {b})"
    and modify_heap: "inv h t \<Longrightarrow> key_wf k \<Longrightarrow> modify ok h t k prio strict acts = (n, h') \<Longrightarrow>
      (\<forall>a. h' a = (if a \<in> flows_of t \<and> sel_desc h k strict a \<and> sel_prio h prio strict a
        then Some (flow_replace_acts (ok a) acts (fl h a)) else h a))"
    and delete_ok: "inv h t \<Longrightarrow> acts_valid h \<Longrightarrow> key_wf k \<Longrightarrow>
      \<exists>n h' t'. delete h t k out_port prio strict = Some (n, h', t') \<and> inv h' t' \<and>
        flows_of t' \<subseteq> flows_of t \<and> h' = h |` (- (flows_of t - flows_of t')) \<and>
        n = of_nat (card (flows_of t - flows_of t')) \<and>
        flows_of t - flows_of t' = {a \<in> flows_of t. sel_desc h k strict a \<and> has_out_port (fl h a) out_port \<and>
          (by_prio t \<longrightarrow> sel_prio h prio strict a)}"
    and timeout_ok: "inv h t \<Longrightarrow> timeout now h t ds = (h', t', ds') \<Longrightarrow>
      inv h' t' \<and> flows_of t' = {a \<in> flows_of t. \<not> expired now (fl h a)} \<and>
      (\<exists>xs. ds' = ds @ xs \<and> distinct xs \<and> set xs = {a \<in> flows_of t. expired now (fl h a)} \<and>
        h' = (\<lambda>a. if a \<in> set xs then Some (snd (flow_timeout now (fl h a))) else h a))"
    and insert_room: "inv h t \<Longrightarrow> fst (insert_flow h t a) \<longleftrightarrow> room h t a"
begin

text \<open>A lookup finds a match exactly when the table holds one.\<close>

lemma lookup_iff:
  assumes "inv h t" and "packet_key k"
  shows "(\<exists>a. lookup h t k = Some a) \<longleftrightarrow> (\<exists>a \<in> flows_of t. flow_matches_1wild k (key (fl h a)))"
  using assms lookup_sound lookup_complete by (metis option.exhaust)

text \<open>An entry of the table is never freed behind its back.\<close>

lemma insert_keeps:
  assumes "inv h t" "a \<in> dom h" "a \<notin> flows_of t" "insert_flow h t a = (True, h', t')" "b \<in> flows_of t'" "b \<noteq> a"
  shows "b \<in> flows_of t" and "h' b = h b"
proof -
  show "b \<in> flows_of t" using insert_flows [OF assms(1-4)] assms(5,6) by auto
  then show "h' b = h b" using insert_heap [OF assms(1-4)] assms(5,6) by (auto simp: restrict_map_def)
qed

text \<open>After the insertion, a packet that matches the new entry finds some entry.\<close>

lemma insert_found:
  assumes "inv h t" "a \<in> dom h" "a \<notin> flows_of t" "key_wf (key (fl h a))" "insert_flow h t a = (True, h', t')"
    and "packet_key k" "flow_matches_1wild k (key (fl h a))"
  shows "\<exists>b. lookup h' t' k = Some b"
proof -
  have "inv h' t'" using insert_inv [OF assms(1-5)] .
  moreover have "a \<in> flows_of t'" using insert_flows assms by blast
  moreover have "key (fl h' a) = key (fl h a)" using insert_heap [OF assms(1-3,5)] by (auto simp: fl_def)
  ultimately show ?thesis using assms(6,7) lookup_complete by (metis option.exhaust)
qed

text \<open>After a deletion that does not restrict the port, no packet finds an entry that was described.\<close>

lemma delete_not_found:
  assumes "inv h t" "acts_valid h" "key_wf k" "delete h t k (htons OFPP_NONE) prio False = Some (n, h', t')"
    and "packet_key p" "lookup h' t' p = Some a"
  shows "\<not> flow_matches_1wild (key (fl h a)) k"
proof -
  have del: "inv h' t'" "flows_of t' \<subseteq> flows_of t"
    "flows_of t - flows_of t' = {a \<in> flows_of t. sel_desc h k False a \<and> has_out_port (fl h a) (htons OFPP_NONE) \<and>
       (by_prio t \<longrightarrow> sel_prio h prio False a)}"
    using delete_ok [OF assms(1-3), of "htons OFPP_NONE" prio False] assms(4) by auto
  then have "a \<in> flows_of t'" using lookup_sound [OF del(1) assms(6,5)] by blast
  then have "\<not> sel_desc h k False a" using del(2,3) by (auto simp: has_out_port_def sel_prio_def)
  then show ?thesis by (simp add: sel_desc_def flow_matches_desc_def)
qed

end

end
