(* ===== verification/Table_Linear.thy ===== *)
theory Table_Linear
  imports Flow_Store
begin

text \<open>
  The priority-ordered wildcard table of \<open>src/full/openflowlib/switch/table-linear.c\<close>.  The two
  doubly linked lists of a table, \<open>flows\<close> in matching order and \<open>iter_flows\<close> in iteration order, are
  the lists of the addresses of their entries; the operations of \<open>lib/list.c\<close> on them are the list
  operations.  The interpretation \<open>linear\<close> discharges the contract \<open>sw_table\<close>.
\<close>

section \<open>The code\<close>

text \<open>The counters at the head of every table (\<open>struct sw_table\<close>) and the statistics it reports.\<close>

record swt =
  n_lookup :: u64
  n_matched :: u64

record sw_table_stats =
  st_name :: string
  st_wildcards :: u32
  st_n_flows :: u32
  st_max_flows :: u32
  st_n_lookup :: u64
  st_n_matched :: u64

record sw_table_linear =
  tl_swt :: swt
  max_flows :: u32
  n_flows :: u32
  flows :: "addr list"
  iter_flows :: "addr list"
  next_serial :: u64

definition table_linear_lookup :: "fheap \<Rightarrow> sw_table_linear \<Rightarrow> sw_flow_key \<Rightarrow> addr option" where
  "table_linear_lookup h tb k = find (\<lambda>a. flow_matches_1wild k (key (fl h a))) (flows tb)"

text \<open>
  The scan of \<open>table_linear_insert\<close>: the position where it stops, and whether the entry there is one
  that the new flow replaces.
\<close>

definition replaces :: "sw_flow \<Rightarrow> sw_flow \<Rightarrow> bool" where
  "replaces flow f \<longleftrightarrow> priority f = priority flow \<and> wildcards (key f) = wildcards (key flow) \<and>
     flow_matches_2wild (key f) (key flow)"

fun tl_insert_scan :: "fheap \<Rightarrow> sw_flow \<Rightarrow> addr list \<Rightarrow> nat \<times> bool" where
  "tl_insert_scan h flow [] = (0, False)"
| "tl_insert_scan h flow (f # fs) =
    (if replaces flow (fl h f) then (0, True)
     else if priority (fl h f) < priority flow then (0, False)
     else (let (i, dup) = tl_insert_scan h flow fs in (Suc i, dup)))"

definition table_linear_insert :: "fheap \<Rightarrow> sw_table_linear \<Rightarrow> addr \<Rightarrow> bool \<times> fheap \<times> sw_table_linear" where
  "table_linear_insert h tb a =
    (let flow = fl h a; (i, dup) = tl_insert_scan h flow (flows tb) in
     if dup then
       (let f = flows tb ! i in
        (True, flow_free f (h(a \<mapsto> flow\<lparr> serial := serial (fl h f) \<rparr>)),
         tb\<lparr> flows := (flows tb)[i := a],
             iter_flows := map (\<lambda>x. if x = f then a else x) (iter_flows tb) \<rparr>))
     else if n_flows tb \<ge> max_flows tb then (False, h, tb)
     else (True, h(a \<mapsto> flow\<lparr> serial := next_serial tb \<rparr>),
       tb\<lparr> n_flows := n_flows tb + 1, next_serial := next_serial tb + 1,
           flows := take i (flows tb) @ a # drop i (flows tb),
           iter_flows := a # iter_flows tb \<rparr>))"

fun tl_modify_loop :: "(addr \<Rightarrow> bool) \<Rightarrow> sw_flow_key \<Rightarrow> u16 \<Rightarrow> bool \<Rightarrow> u8 list \<Rightarrow> addr list \<Rightarrow> u32 \<Rightarrow> fheap
    \<Rightarrow> u32 \<times> fheap" where
  "tl_modify_loop ok k prio strict acts [] count h = (count, h)"
| "tl_modify_loop ok k prio strict acts (a # as) count h =
    (if flow_matches_desc (key (fl h a)) k strict \<and> (\<not> strict \<or> priority (fl h a) = prio)
     then tl_modify_loop ok k prio strict acts as (count + 1)
            (h(a \<mapsto> flow_replace_acts (ok a) acts (fl h a)))
     else tl_modify_loop ok k prio strict acts as count h)"

definition table_linear_modify :: "(addr \<Rightarrow> bool) \<Rightarrow> fheap \<Rightarrow> sw_table_linear \<Rightarrow> sw_flow_key \<Rightarrow> u16 \<Rightarrow> bool
    \<Rightarrow> u8 list \<Rightarrow> u32 \<times> fheap" where
  "table_linear_modify ok h tb k prio strict acts = tl_modify_loop ok k prio strict acts (flows tb) 0 h"

text \<open>Unlinking an entry from both lists (\<open>list_remove\<close> of its two nodes).\<close>

definition tl_unlink :: "addr \<Rightarrow> sw_table_linear \<Rightarrow> sw_table_linear" where
  "tl_unlink a tb = tb\<lparr> flows := remove1 a (flows tb), iter_flows := remove1 a (iter_flows tb) \<rparr>"

definition tl_do_delete :: "addr \<Rightarrow> fheap \<Rightarrow> sw_table_linear \<Rightarrow> fheap \<times> sw_table_linear" where
  "tl_do_delete a h tb = (flow_free a h, tl_unlink a tb)"

fun tl_delete_loop :: "sw_flow_key \<Rightarrow> u16 \<Rightarrow> u16 \<Rightarrow> bool \<Rightarrow> addr list \<Rightarrow> u32 \<Rightarrow> fheap \<Rightarrow> sw_table_linear
    \<Rightarrow> (u32 \<times> fheap \<times> sw_table_linear) option" where
  "tl_delete_loop k out_port prio strict [] count h tb = Some (count, h, tb)"
| "tl_delete_loop k out_port prio strict (a # as) count h tb =
    (if flow_matches_desc (key (fl h a)) k strict then
       (case flow_has_out_port (fl h a) out_port of
          None \<Rightarrow> None
        | Some hit \<Rightarrow>
            if hit \<and> (\<not> strict \<or> priority (fl h a) = prio)
            then (let (h, tb) = tl_do_delete a h tb
                  in tl_delete_loop k out_port prio strict as (count + 1) h tb)
            else tl_delete_loop k out_port prio strict as count h tb)
     else tl_delete_loop k out_port prio strict as count h tb)"

definition table_linear_delete :: "fheap \<Rightarrow> sw_table_linear \<Rightarrow> sw_flow_key \<Rightarrow> u16 \<Rightarrow> u16 \<Rightarrow> bool
    \<Rightarrow> (u32 \<times> fheap \<times> sw_table_linear) option" where
  "table_linear_delete h tb k out_port prio strict =
    (case tl_delete_loop k out_port prio strict (flows tb) 0 h tb of
       None \<Rightarrow> None
     | Some (count, h, tb) \<Rightarrow> Some (count, h, tb\<lparr> n_flows := n_flows tb - count \<rparr>))"

fun tl_timeout_loop :: "int \<Rightarrow> addr list \<Rightarrow> fheap \<Rightarrow> sw_table_linear \<Rightarrow> addr list
    \<Rightarrow> fheap \<times> sw_table_linear \<times> addr list" where
  "tl_timeout_loop now [] h tb deleted = (h, tb, deleted)"
| "tl_timeout_loop now (a # as) h tb deleted =
    (let (out, f) = flow_timeout now (fl h a) in
     if out then
       (let tb = tl_unlink a tb
        in tl_timeout_loop now as (h(a \<mapsto> f)) (tb\<lparr> n_flows := n_flows tb - 1 \<rparr>) (deleted @ [a]))
     else tl_timeout_loop now as h tb deleted)"

definition table_linear_timeout :: "int \<Rightarrow> fheap \<Rightarrow> sw_table_linear \<Rightarrow> addr list
    \<Rightarrow> fheap \<times> sw_table_linear \<times> addr list" where
  "table_linear_timeout now h tb deleted = tl_timeout_loop now (flows tb) h tb deleted"

text \<open>Destroying the table frees every entry that \<open>flows\<close> holds, front first.\<close>

fun tl_destroy_loop :: "addr list \<Rightarrow> fheap \<Rightarrow> fheap" where
  "tl_destroy_loop [] h = h"
| "tl_destroy_loop (a # as) h = tl_destroy_loop as (flow_free a h)"

definition table_linear_destroy :: "fheap \<Rightarrow> sw_table_linear \<Rightarrow> fheap" where
  "table_linear_destroy h tb = tl_destroy_loop (flows tb) h"

text \<open>
  Iteration: the callback sees an entry and its private state and returns an error code with the new
  state; a nonzero code stops the loop and leaves in \<open>position\<close> where to resume.
\<close>

fun tl_iterate_loop :: "fheap \<Rightarrow> sw_flow_key \<Rightarrow> u16 \<Rightarrow> (sw_flow \<Rightarrow> 'p \<Rightarrow> int \<times> 'p) \<Rightarrow> u64 \<Rightarrow> addr list
    \<Rightarrow> u64 \<Rightarrow> 'p \<Rightarrow> (int \<times> u64 \<times> 'p) option" where
  "tl_iterate_loop h k out_port callback start [] pos p = Some (0, pos, p)"
| "tl_iterate_loop h k out_port callback start (a # as) pos p =
    (if serial (fl h a) \<le> start \<and> flow_matches_2wild k (key (fl h a)) then
       (case flow_has_out_port (fl h a) out_port of
          None \<Rightarrow> None
        | Some hit \<Rightarrow>
            if hit then
              (let (error, p) = callback (fl h a) p in
               if error \<noteq> 0 then Some (error, NOT (serial (fl h a) - 1), p)
               else tl_iterate_loop h k out_port callback start as pos p)
            else tl_iterate_loop h k out_port callback start as pos p)
     else tl_iterate_loop h k out_port callback start as pos p)"

definition table_linear_iterate :: "fheap \<Rightarrow> sw_table_linear \<Rightarrow> sw_flow_key \<Rightarrow> u16
    \<Rightarrow> (sw_flow \<Rightarrow> 'p \<Rightarrow> int \<times> 'p) \<Rightarrow> u64 \<Rightarrow> 'p \<Rightarrow> (int \<times> u64 \<times> 'p) option" where
  "table_linear_iterate h tb k out_port callback pos p =
    tl_iterate_loop h k out_port callback (NOT pos) (iter_flows tb) pos p"

definition table_linear_stats :: "sw_table_linear \<Rightarrow> sw_table_stats" where
  "table_linear_stats tb =
    \<lparr> st_name = ''linear'', st_wildcards = OFPFW_ALL, st_n_flows = n_flows tb,
      st_max_flows = max_flows tb, st_n_lookup = n_lookup (tl_swt tb), st_n_matched = n_matched (tl_swt tb) \<rparr>"

definition table_linear_create :: "u32 \<Rightarrow> sw_table_linear" where
  "table_linear_create maximum =
    \<lparr> tl_swt = \<lparr> n_lookup = 0, n_matched = 0 \<rparr>, max_flows = maximum, n_flows = 0, flows = [],
      iter_flows = [], next_serial = 0 \<rparr>"


section \<open>The invariant\<close>

definition prios :: "fheap \<Rightarrow> addr list \<Rightarrow> u16 list" where
  "prios h as = map (\<lambda>a. priority (fl h a)) as"

definition linear_inv :: "fheap \<Rightarrow> sw_table_linear \<Rightarrow> bool" where
  "linear_inv h tb \<longleftrightarrow>
     distinct (flows tb) \<and> distinct (iter_flows tb) \<and> set (iter_flows tb) = set (flows tb) \<and>
     set (flows tb) \<subseteq> dom h \<and> unat (n_flows tb) = length (flows tb) \<and>
     length (flows tb) \<le> unat (max_flows tb) \<and> sorted_wrt (\<ge>) (prios h (flows tb)) \<and>
     (\<forall>a \<in> set (flows tb). key_wf (key (fl h a)))"

abbreviation linear_flows :: "sw_table_linear \<Rightarrow> addr set" where
  "linear_flows tb \<equiv> set (flows tb)"


lemma prios_cong: "(\<And>a. a \<in> set as \<Longrightarrow> priority (fl h' a) = priority (fl h a)) \<Longrightarrow> prios h' as = prios h as"
  by (simp add: prios_def)

lemma linear_inv_cong:
  assumes "linear_inv h tb" and "\<And>a. a \<in> set (flows tb) \<Longrightarrow> a \<in> dom h' \<and> same_entry (fl h' a) (fl h a)"
  shows "linear_inv h' tb"
proof -
  have "prios h' (flows tb) = prios h (flows tb)"
    using assms(2) by (intro prios_cong) (simp add: same_entry_def)
  with assms show ?thesis by (auto simp: linear_inv_def same_entry_def)
qed

lemma linear_inv_create: "linear_inv h (table_linear_create m)"
  by (simp add: linear_inv_def table_linear_create_def prios_def)


section \<open>Lookup\<close>

lemma linear_lookup_sound:
  "table_linear_lookup h tb k = Some a \<Longrightarrow> a \<in> set (flows tb) \<and> flow_matches_1wild k (key (fl h a))"
  by (auto simp: table_linear_lookup_def dest: find_SomeD)

lemma linear_lookup_complete:
  "table_linear_lookup h tb k = None \<Longrightarrow> a \<in> set (flows tb) \<Longrightarrow> \<not> flow_matches_1wild k (key (fl h a))"
  by (auto simp: table_linear_lookup_def find_None_iff)

lemma find_sorted_max:
  "find P xs = Some x \<Longrightarrow> sorted_wrt (\<lambda>a b. f b \<le> f a) xs \<Longrightarrow> y \<in> set xs \<Longrightarrow> P y \<Longrightarrow> f y \<le> (f x :: 'a :: linorder)"
  by (induction xs) (auto split: if_splits)

lemma linear_lookup_max:
  assumes "linear_inv h tb" and "table_linear_lookup h tb k = Some a"
    and "b \<in> set (flows tb)" and "flow_matches_1wild k (key (fl h b))"
  shows "priority (fl h b) \<le> priority (fl h a)"
proof (rule find_sorted_max [where xs = "flows tb"])
  show "find (\<lambda>a. flow_matches_1wild k (key (fl h a))) (flows tb) = Some a"
    using assms(2) by (simp add: table_linear_lookup_def)
  show "sorted_wrt (\<lambda>a b. priority (fl h b) \<le> priority (fl h a)) (flows tb)"
    using assms(1) by (simp add: linear_inv_def prios_def sorted_wrt_map)
qed (use assms in auto)


section \<open>Insertion\<close>

lemma tl_insert_scan_dup:
  "tl_insert_scan h flow fs = (i, True) \<Longrightarrow> i < length fs \<and> replaces flow (fl h (fs ! i))"
proof (induction fs arbitrary: i)
  case (Cons f fs)
  then show ?case by (cases i) (auto split: if_splits prod.splits)
qed simp

lemma tl_insert_scan_le: "tl_insert_scan h flow fs = (i, dup) \<Longrightarrow> i \<le> length fs"
proof (induction fs arbitrary: i)
  case (Cons f fs)
  then show ?case by (cases i) (auto split: if_splits prod.splits)
qed simp

lemma tl_insert_scan_before:
  "tl_insert_scan h flow fs = (i, dup) \<Longrightarrow> x \<in> set (take i fs) \<Longrightarrow>
   priority flow \<le> priority (fl h x) \<and> \<not> replaces flow (fl h x)"
proof (induction fs arbitrary: i)
  case (Cons f fs)
  then show ?case by (cases i) (auto split: if_splits prod.splits)
qed simp

lemma tl_insert_scan_at:
  "tl_insert_scan h flow fs = (i, False) \<Longrightarrow> i < length fs \<Longrightarrow> priority (fl h (fs ! i)) < priority flow"
proof (induction fs arbitrary: i)
  case (Cons f fs)
  then show ?case by (cases i) (auto split: if_splits prod.splits)
qed simp

lemma tl_insert_scan_after:
  assumes "tl_insert_scan h flow fs = (i, False)" and "sorted_wrt (\<ge>) (prios h fs)" and "x \<in> set (drop i fs)"
  shows "priority (fl h x) < priority flow"
proof -
  obtain j where j: "i + j < length fs" "x = fs ! (i + j)"
    using assms(3) by (fastforce simp: in_set_conv_nth less_diff_conv add.commute)
  have "priority (fl h (fs ! (i + j))) \<le> priority (fl h (fs ! i))"
    using assms(2) j by (cases "j = 0") (auto simp: prios_def sorted_wrt_iff_nth_less)
  also have "\<dots> < priority flow" using assms(1) j by (intro tl_insert_scan_at) auto
  finally show ?thesis using j by simp
qed

text \<open>The three outcomes of an insertion.\<close>

lemma table_linear_insert_cases:
  obtains (replaced) i where "tl_insert_scan h (fl h a) (flows tb) = (i, True)"
      "table_linear_insert h tb a =
        (True, flow_free (flows tb ! i) (h(a \<mapsto> (fl h a)\<lparr> serial := serial (fl h (flows tb ! i)) \<rparr>)),
         tb\<lparr> flows := (flows tb)[i := a],
             iter_flows := map (\<lambda>x. if x = flows tb ! i then a else x) (iter_flows tb) \<rparr>)"
    | (full) i where "tl_insert_scan h (fl h a) (flows tb) = (i, False)" "n_flows tb \<ge> max_flows tb"
      "table_linear_insert h tb a = (False, h, tb)"
    | (added) i where "tl_insert_scan h (fl h a) (flows tb) = (i, False)" "n_flows tb < max_flows tb"
      "table_linear_insert h tb a =
        (True, h(a \<mapsto> (fl h a)\<lparr> serial := next_serial tb \<rparr>),
         tb\<lparr> n_flows := n_flows tb + 1, next_serial := next_serial tb + 1,
             flows := take i (flows tb) @ a # drop i (flows tb), iter_flows := a # iter_flows tb \<rparr>)"
proof -
  obtain i dup where scan: "tl_insert_scan h (fl h a) (flows tb) = (i, dup)" by fastforce
  show thesis
  proof (cases dup)
    case True
    then show thesis using scan by (intro replaced) (simp_all add: table_linear_insert_def Let_def)
  next
    case False
    then show thesis
      using scan full added [of i] by (cases "n_flows tb \<ge> max_flows tb") (auto simp: table_linear_insert_def Let_def)
  qed
qed

lemma linear_insert_refused:
  "table_linear_insert h tb a = (False, h', tb') \<Longrightarrow> h' = h \<and> tb' = tb"
  by (cases h a tb rule: table_linear_insert_cases) auto

lemma set_list_update_distinct: "distinct xs \<Longrightarrow> i < length xs \<Longrightarrow> set (xs[i := a]) = insert a (set xs - {xs ! i})"
  by (auto simp: set_update_distinct)

lemma set_insert_at: "i \<le> length xs \<Longrightarrow> set (take i xs @ a # drop i xs) = insert a (set xs)"
  by (metis Un_insert_right append_take_drop_id list.simps(15) set_append)

lemma linear_insert_flows:
  assumes "linear_inv h tb" "a \<notin> set (flows tb)" "table_linear_insert h tb a = (True, h', tb')"
  shows "a \<in> set (flows tb') \<and> set (flows tb') \<subseteq> insert a (set (flows tb))"
proof (cases h a tb rule: table_linear_insert_cases)
  case (replaced i)
  then have "i < length (flows tb)" using tl_insert_scan_dup by blast
  then show ?thesis
    using replaced assms by (auto simp: linear_inv_def set_list_update_distinct)
next
  case (added i)
  then show ?thesis
    using assms(3) set_insert_at [OF tl_insert_scan_le] by auto
qed (use assms in auto)


lemma linear_insert_heap:
  assumes inv: "linear_inv h tb" and new: "a \<notin> set (flows tb)" and ins: "table_linear_insert h tb a = (True, h', tb')"
  shows "\<exists>s. h' = (h |` (- (set (flows tb) - set (flows tb'))))(a \<mapsto> (fl h a)\<lparr> serial := s \<rparr>)"
proof (cases h a tb rule: table_linear_insert_cases)
  case (replaced i)
  then have i: "i < length (flows tb)" using tl_insert_scan_dup by blast
  then have gone: "set (flows tb) - set (flows tb') = {flows tb ! i}"
    using replaced(2) inv ins new by (auto simp: linear_inv_def set_list_update_distinct)
  have "flows tb ! i \<noteq> a" using i new by auto
  then have "h' = (h |` (- {flows tb ! i}))(a \<mapsto> (fl h a)\<lparr> serial := serial (fl h (flows tb ! i)) \<rparr>)"
    using replaced(2) ins by (auto simp: flow_free_def restrict_map_def fun_eq_iff)
  then show ?thesis unfolding gone by blast
next
  case (added i)
  then have e: "set (flows tb) - set (flows tb') = {}"
    using ins set_insert_at [OF tl_insert_scan_le, of h "fl h a" "flows tb" i False a] by auto
  show ?thesis unfolding e using added(3) ins by (intro exI [of _ "next_serial tb"]) (simp add: fun_eq_iff restrict_map_def)
qed (use ins in auto)

text \<open>Putting \<open>a\<close> in the place of an entry of the same priority keeps the invariant.\<close>

lemma prios_replace:
  assumes "distinct fs" "a \<notin> set fs" "i < length fs" "priority g = priority (fl h (fs ! i))"
  shows "prios (flow_free (fs ! i) (h(a \<mapsto> g))) (fs[i := a]) = prios h fs"
proof (rule nth_equalityI)
  fix j
  assume "j < length (prios (flow_free (fs ! i) (h(a \<mapsto> g))) (fs[i := a]))"
  then have j: "j < length fs" by (simp add: prios_def)
  moreover have "fs ! i \<noteq> a" using assms(2,3) by auto
  moreover have "j \<noteq> i \<Longrightarrow> fs ! j \<noteq> fs ! i \<and> fs ! j \<noteq> a"
    using assms(1-3) j by (auto simp: nth_eq_iff_index_eq)
  ultimately show "prios (flow_free (fs ! i) (h(a \<mapsto> g))) (fs[i := a]) ! j = prios h fs ! j"
    using assms(3,4) by (cases "j = i") (simp_all add: prios_def)
qed (simp add: prios_def)

lemma linear_inv_replace:
  assumes inv: "linear_inv h tb" and i: "i < length (flows tb)" and a: "a \<notin> set (flows tb)"
    and g: "priority g = priority (fl h (flows tb ! i))" "key_wf (key g)"
  shows "linear_inv (flow_free (flows tb ! i) (h(a \<mapsto> g)))
    (tb\<lparr> flows := (flows tb)[i := a], iter_flows := map (\<lambda>x. if x = flows tb ! i then a else x) (iter_flows tb) \<rparr>)"
proof -
  let ?f = "flows tb ! i" and ?r = "\<lambda>x. if x = flows tb ! i then a else x"
  let ?h = "flow_free ?f (h(a \<mapsto> g))"
  have ne: "?f \<noteq> a" using i a by auto
  have dist: "distinct (flows tb)" "distinct (iter_flows tb)" "set (iter_flows tb) = set (flows tb)"
    using inv by (simp_all add: linear_inv_def)
  have set': "set ((flows tb)[i := a]) = insert a (set (flows tb) - {?f})"
    using dist i by (simp add: set_list_update_distinct)
  have "inj_on ?r (set (iter_flows tb))" using dist a by (auto simp: inj_on_def)
  then have "distinct (map ?r (iter_flows tb))" using dist by (simp add: distinct_map)
  moreover have "set (map ?r (iter_flows tb)) = set ((flows tb)[i := a])"
    using dist i by (auto simp: set')
  moreover have "distinct ((flows tb)[i := a])" using dist a by (auto intro: distinct_list_update)
  moreover have "set ((flows tb)[i := a]) \<subseteq> dom ?h" using inv ne by (auto simp: set' linear_inv_def flow_free_def)
  moreover have "\<forall>x \<in> set ((flows tb)[i := a]). key_wf (key (fl ?h x))"
    using inv g ne by (auto simp: set' linear_inv_def)
  ultimately show ?thesis
    using inv prios_replace [OF dist(1) a i g(1)] by (simp add: linear_inv_def)
qed

text \<open>Adding \<open>a\<close> behind the entries of at least its priority keeps the invariant.\<close>

lemma prios_insert_at:
  assumes "sorted_wrt (\<ge>) (prios h fs)" "a \<notin> set fs"
    and "\<And>x. x \<in> set (take i fs) \<Longrightarrow> priority g \<le> priority (fl h x)"
    and "\<And>x. x \<in> set (drop i fs) \<Longrightarrow> priority (fl h x) \<le> priority g"
  shows "sorted_wrt (\<ge>) (prios (h(a \<mapsto> g)) (take i fs @ a # drop i fs))"
proof -
  have eq: "prios (h(a \<mapsto> g)) (take i fs @ a # drop i fs) =
      prios h (take i fs) @ priority g # prios h (drop i fs)"
    using assms(2) by (auto simp: prios_def dest: in_set_takeD in_set_dropD)
  have "prios h fs = prios h (take i fs) @ prios h (drop i fs)"
    by (metis append_take_drop_id map_append prios_def)
  then show ?thesis
    using assms(1,3,4) unfolding eq by (auto simp: sorted_wrt_append prios_def)
qed

lemma linear_inv_add:
  assumes inv: "linear_inv h tb" and a: "a \<notin> set (flows tb)" "key_wf (key g)" and room: "n_flows tb < max_flows tb"
    and scan: "tl_insert_scan h f (flows tb) = (i, False)" "priority g = priority f"
  shows "linear_inv (h(a \<mapsto> g)) (tb\<lparr> n_flows := n_flows tb + 1, next_serial := s,
    flows := take i (flows tb) @ a # drop i (flows tb), iter_flows := a # iter_flows tb \<rparr>)"
proof -
  have i: "i \<le> length (flows tb)" using scan(1) tl_insert_scan_le by blast
  let ?fs = "take i (flows tb) @ a # drop i (flows tb)"
  have set': "set ?fs = insert a (set (flows tb))" using i by (simp only: set_insert_at)
  have "unat (n_flows tb) < unat (max_flows tb)" using room by (simp add: word_less_nat_alt)
  then have n: "unat (n_flows tb + 1) = Suc (length (flows tb))" "Suc (length (flows tb)) \<le> unat (max_flows tb)"
    using inv unat_u32_less [of "max_flows tb"] by (auto simp: linear_inv_def unat_add_u32)
  have sorted: "sorted_wrt (\<ge>) (prios h (flows tb))" using inv by (simp add: linear_inv_def)
  have "sorted_wrt (\<ge>) (prios (h(a \<mapsto> g)) ?fs)"
    by (rule prios_insert_at [OF sorted a(1)])
      (use tl_insert_scan_before [OF scan(1)] tl_insert_scan_after [OF scan(1) sorted] in
        \<open>auto simp: scan(2) less_imp_le\<close>)
  moreover have "distinct ?fs"
    using inv a(1) by (auto simp: linear_inv_def distinct_take distinct_drop
        set_take_disj_set_drop_if_distinct dest: in_set_takeD in_set_dropD)
  moreover have "set ?fs \<subseteq> dom (h(a \<mapsto> g))" "\<forall>x \<in> set ?fs. key_wf (key (fl (h(a \<mapsto> g)) x))"
    unfolding set' using inv a by (auto simp: linear_inv_def)
  ultimately show ?thesis
    using inv a(1) n i set' by (simp add: linear_inv_def del: set_append)
qed

lemma linear_insert_inv:
  assumes inv: "linear_inv h tb" and a: "a \<notin> set (flows tb)" "key_wf (key (fl h a))"
    and ins: "table_linear_insert h tb a = (True, h', tb')"
  shows "linear_inv h' tb'"
proof (cases h a tb rule: table_linear_insert_cases)
  case (replaced i)
  then have i: "i < length (flows tb)" "replaces (fl h a) (fl h (flows tb ! i))"
    using tl_insert_scan_dup by blast+
  let ?g = "(fl h a)\<lparr> serial := serial (fl h (flows tb ! i)) \<rparr>"
  have "priority ?g = priority (fl h (flows tb ! i))" "key_wf (key ?g)"
    using i(2) a(2) by (simp_all add: replaces_def)
  from linear_inv_replace [OF inv i(1) a(1) this] show ?thesis using replaced(2) ins by simp
next
  case (added i)
  have "key_wf (key ((fl h a)\<lparr> serial := next_serial tb \<rparr>))"
    "priority ((fl h a)\<lparr> serial := next_serial tb \<rparr>) = priority (fl h a)"
    using a(2) by simp_all
  from linear_inv_add [OF inv a(1) this(1) added(2) added(1) this(2)] show ?thesis
    using added(3) ins by simp
qed (use ins in auto)


section \<open>Modification, deletion and expiry\<close>

lemma tl_modify_loop_heap:
  "tl_modify_loop ok k prio strict acts as c h = (n, h') \<Longrightarrow> distinct as \<Longrightarrow>
   h' a = (if a \<in> set as \<and> sel_desc h k strict a \<and> sel_prio h prio strict a
     then Some (flow_replace_acts (ok a) acts (fl h a)) else h a)"
proof (induction as arbitrary: c h)
  case (Cons b bs)
  let ?sel = "\<lambda>h a. sel_desc h k strict a \<and> sel_prio h prio strict a"
  let ?h = "if ?sel h b then h(b \<mapsto> flow_replace_acts (ok b) acts (fl h b)) else h"
  obtain c' where "tl_modify_loop ok k prio strict acts bs c' ?h = (n, h')"
    using Cons.prems(1) by (auto simp: sel_desc_def sel_prio_def split: if_splits)
  then have "h' a = (if a \<in> set bs \<and> ?sel ?h a then Some (flow_replace_acts (ok a) acts (fl ?h a)) else ?h a)"
    using Cons by simp
  moreover have "fl ?h a = fl h a" if "a \<noteq> b" using that by simp
  ultimately show ?case
    using Cons.prems(2) by (cases "a = b") (auto simp: sel_desc_def sel_prio_def)
qed simp

lemma filter_remove1_distinct: "distinct xs \<Longrightarrow> filter P (remove1 a xs) = filter (\<lambda>x. P x \<and> x \<noteq> a) xs"
  by (simp add: distinct_remove1_removeAll removeAll_filter_not_eq) (metis (mono_tags, lifting))

text \<open>Removing a set of entries from both lists.\<close>

definition tl_remove :: "addr set \<Rightarrow> sw_table_linear \<Rightarrow> sw_table_linear" where
  "tl_remove D tb = tb\<lparr> flows := filter (\<lambda>x. x \<notin> D) (flows tb), iter_flows := filter (\<lambda>x. x \<notin> D) (iter_flows tb) \<rparr>"

lemma tl_remove_empty: "tl_remove {} tb = tb"
  by (simp add: tl_remove_def)

lemma tl_remove_n_flows [simp]:
  "tl_remove D (tb\<lparr> n_flows := n \<rparr>) = (tl_remove D tb)\<lparr> n_flows := n \<rparr>" "n_flows (tl_remove D tb) = n_flows tb"
  by (simp_all add: tl_remove_def)

lemma tl_remove_unlink:
  "distinct (flows tb) \<Longrightarrow> distinct (iter_flows tb) \<Longrightarrow> tl_remove D (tl_unlink a tb) = tl_remove (insert a D) tb"
  by (simp add: tl_remove_def tl_unlink_def filter_remove1_distinct conj_commute)

lemma distinct_tl_unlink:
  "distinct (flows tb) \<Longrightarrow> distinct (flows (tl_unlink a tb))"
  "distinct (iter_flows tb) \<Longrightarrow> distinct (iter_flows (tl_unlink a tb))"
  by (simp_all add: tl_unlink_def)

definition tl_selected :: "fheap \<Rightarrow> sw_flow_key \<Rightarrow> u16 \<Rightarrow> u16 \<Rightarrow> bool \<Rightarrow> addr \<Rightarrow> bool" where
  "tl_selected h k out_port prio strict a \<longleftrightarrow>
     sel_desc h k strict a \<and> has_out_port (fl h a) out_port \<and> sel_prio h prio strict a"

lemma tl_selected_free: "b \<noteq> a \<Longrightarrow> tl_selected (flow_free a h) k out_port prio strict b = tl_selected h k out_port prio strict b"
  by (simp add: tl_selected_def sel_desc_def sel_prio_def)

lemma restrict_flow_free: "flow_free a h |` (- D) = h |` (- insert a D)"
  by (auto simp: restrict_map_def flow_free_def)

lemma tl_delete_loop_result:
  assumes "\<And>a. a \<in> set as \<Longrightarrow> acts_ok (sf_acts (fl h a))" "distinct as" "distinct (flows tb)" "distinct (iter_flows tb)"
  shows "tl_delete_loop k out_port prio strict as c h tb =
    (let D = filter (tl_selected h k out_port prio strict) as
     in Some (c + of_nat (length D), h |` (- set D), tl_remove (set D) tb))"
  using assms
proof (induction as arbitrary: c h tb)
  case Nil
  then show ?case by (simp add: tl_remove_empty restrict_map_def)
next
  case (Cons a as)
  have port: "flow_has_out_port (fl h a) out_port = Some (has_out_port (fl h a) out_port)"
    using Cons.prems(1) by (simp add: flow_has_out_port_ok)
  show ?case
  proof (cases "tl_selected h k out_port prio strict a")
    case True
    have same: "filter (tl_selected (flow_free a h) k out_port prio strict) as =
        filter (tl_selected h k out_port prio strict) as"
      using Cons.prems(2) by (intro filter_cong refl tl_selected_free) auto
    have "\<And>b. b \<in> set as \<Longrightarrow> acts_ok (sf_acts (fl (flow_free a h) b))"
      using Cons.prems(1,2) by (metis distinct.simps(2) fl_flow_free list.set_intros(2))
    then have IH: "tl_delete_loop k out_port prio strict as (c + 1) (flow_free a h) (tl_unlink a tb) =
      (let D = filter (tl_selected h k out_port prio strict) as
       in Some (c + 1 + of_nat (length D), flow_free a h |` (- set D), tl_remove (set D) (tl_unlink a tb)))"
      unfolding same [symmetric] using Cons.prems by (intro Cons.IH) (simp_all add: distinct_tl_unlink)
    have "tl_delete_loop k out_port prio strict (a # as) c h tb =
        tl_delete_loop k out_port prio strict as (c + 1) (flow_free a h) (tl_unlink a tb)"
      using True port by (simp add: tl_selected_def sel_desc_def sel_prio_def tl_do_delete_def)
    with IH True Cons.prems show ?thesis
      by (simp add: tl_remove_unlink restrict_flow_free Let_def ac_simps)
  next
    case False
    with Cons port show ?thesis by (auto simp: tl_selected_def sel_desc_def sel_prio_def)
  qed
qed


lemma sorted_prios_filter: "sorted_wrt (\<ge>) (prios h fs) \<Longrightarrow> sorted_wrt (\<ge>) (prios h (filter P fs))"
  by (simp add: prios_def sorted_wrt_map sorted_wrt_filter)

lemma length_filter_card: "distinct xs \<Longrightarrow> length (filter P xs) = card {x \<in> set xs. P x}"
  by (metis distinct_card distinct_filter set_filter)

text \<open>The invariant survives the removal of any set of entries, if the counter follows.\<close>

lemma linear_inv_remove:
  assumes inv: "linear_inv h tb" and D: "D \<subseteq> set (flows tb)"
    and h': "\<And>a. a \<in> set (flows tb) - D \<Longrightarrow> a \<in> dom h' \<and> same_entry (fl h' a) (fl h a)"
    and n: "n = n_flows tb - of_nat (card D)"
  shows "linear_inv h' ((tl_remove D tb)\<lparr> n_flows := n \<rparr>)"
proof -
  let ?fs = "filter (\<lambda>x. x \<notin> D) (flows tb)"
  have dist: "distinct (flows tb)" and len: "unat (n_flows tb) = length (flows tb)"
    using inv by (simp_all add: linear_inv_def)
  have "length ?fs = card (set (flows tb) - D)"
    using dist by (simp add: length_filter_card set_diff_eq)
  then have fs: "length ?fs = length (flows tb) - card D"
    using dist D by (simp add: card_Diff_subset finite_subset distinct_card)
  have "card D \<le> length (flows tb)" using D by (metis card_length card_mono finite_set le_trans)
  then have "unat (n_flows tb - of_nat (card D)) = length (flows tb) - card D"
    using len unat_sub_of_nat [of "card D" "n_flows tb"] by simp
  with fs n have n': "unat n = length ?fs" by simp
  have "prios h' ?fs = prios h ?fs"
    using h' by (intro prios_cong) (auto simp: same_entry_def)
  then have "sorted_wrt (\<ge>) (prios h' ?fs)" using inv by (simp add: linear_inv_def sorted_prios_filter)
  with inv h' n' fs show ?thesis by (auto simp: linear_inv_def tl_remove_def same_entry_def)
qed


lemma linear_delete_ok:
  fixes h tb k out_port prio strict
  assumes inv: "linear_inv h tb" and valid: "acts_valid h"
  defines "D \<equiv> {a \<in> set (flows tb). tl_selected h k out_port prio strict a}"
  defines "tb' \<equiv> (tl_remove D tb)\<lparr> n_flows := n_flows tb - of_nat (card D) \<rparr>"
  shows "table_linear_delete h tb k out_port prio strict = Some (of_nat (card D), h |` (- D), tb')"
    and "linear_inv (h |` (- D)) tb'" and "set (flows tb') = set (flows tb) - D"
proof -
  have dist: "distinct (flows tb)" "distinct (iter_flows tb)" and dom: "set (flows tb) \<subseteq> dom h"
    using inv by (simp_all add: linear_inv_def)
  have D: "D = set (filter (tl_selected h k out_port prio strict) (flows tb))"
    "card D = length (filter (tl_selected h k out_port prio strict) (flows tb))"
    using dist(1) by (simp_all add: D_def length_filter_card)
  have "\<And>a. a \<in> set (flows tb) \<Longrightarrow> acts_ok (sf_acts (fl h a))"
    using valid dom by (auto simp: acts_valid_def)
  then have "tl_delete_loop k out_port prio strict (flows tb) 0 h tb =
      Some (of_nat (card D), h |` (- D), tl_remove D tb)"
    using dist by (simp only: tl_delete_loop_result Let_def D [symmetric] add_0)
  then show "table_linear_delete h tb k out_port prio strict = Some (of_nat (card D), h |` (- D), tb')"
    by (simp add: table_linear_delete_def tb'_def)
  show "linear_inv (h |` (- D)) tb'"
    unfolding tb'_def using dom by (intro linear_inv_remove [OF inv]) (auto simp: D_def same_entry_def fl_def)
  show "set (flows tb') = set (flows tb) - D" by (auto simp: tb'_def tl_remove_def)
qed

lemma tl_timeout_loop_result:
  assumes "distinct as" "distinct (flows tb)" "distinct (iter_flows tb)"
  shows "tl_timeout_loop now as h tb ds =
    (let D = filter (\<lambda>a. expired now (fl h a)) as
     in ((\<lambda>a. if a \<in> set D then Some (snd (flow_timeout now (fl h a))) else h a),
         (tl_remove (set D) tb)\<lparr> n_flows := n_flows tb - of_nat (length D) \<rparr>, ds @ D))"
  using assms
proof (induction as arbitrary: h tb ds)
  case Nil
  then show ?case by (simp add: tl_remove_empty)
next
  case (Cons a as)
  show ?case
  proof (cases "expired now (fl h a)")
    case True
    let ?f = "snd (flow_timeout now (fl h a))" and ?tb = "tl_unlink a tb"
    have same: "filter (\<lambda>b. expired now (fl (h(a \<mapsto> ?f)) b)) as = filter (\<lambda>b. expired now (fl h b)) as"
      using Cons.prems(1) by (intro filter_cong refl) auto
    have "tl_timeout_loop now (a # as) h tb ds =
        tl_timeout_loop now as (h(a \<mapsto> ?f)) (?tb\<lparr> n_flows := n_flows tb - 1 \<rparr>) (ds @ [a])"
      using True by (cases "flow_timeout now (fl h a)") (simp add: expired_def tl_unlink_def)
    also have "\<dots> = (let D = filter (\<lambda>b. expired now (fl h b)) as
       in ((\<lambda>b. if b \<in> set D then Some (snd (flow_timeout now (fl (h(a \<mapsto> ?f)) b))) else (h(a \<mapsto> ?f)) b),
           (tl_remove (insert a (set D)) tb)\<lparr> n_flows := n_flows tb - 1 - of_nat (length D) \<rparr>, ds @ [a] @ D))"
      unfolding same [symmetric] using Cons.prems
      by (subst Cons.IH) (simp_all add: distinct_tl_unlink tl_remove_unlink Let_def del: fl_upd)
    finally show ?thesis
      using True Cons.prems(1) by (auto simp: Let_def fun_eq_iff algebra_simps)
  next
    case False
    then have "flow_timeout now (fl h a) = (False, fl h a)"
      by (auto simp: expired_def flow_timeout_def split: if_splits)
    with Cons False show ?thesis by simp
  qed
qed


lemma same_entry_timeout: "same_entry (snd (flow_timeout now f)) f"
  by (simp add: same_entry_def flow_timeout_def)

lemma linear_timeout_ok:
  fixes h tb now
  assumes inv: "linear_inv h tb" and out: "table_linear_timeout now h tb ds = (h', tb', ds')"
  defines "D \<equiv> filter (\<lambda>a. expired now (fl h a)) (flows tb)"
  shows "linear_inv h' tb'" and "set (flows tb') = {a \<in> set (flows tb). \<not> expired now (fl h a)}"
    and "ds' = ds @ D" and "h' = (\<lambda>a. if a \<in> set D then Some (snd (flow_timeout now (fl h a))) else h a)"
proof -
  have dist: "distinct (flows tb)" "distinct (iter_flows tb)" and dom: "set (flows tb) \<subseteq> dom h"
    using inv by (simp_all add: linear_inv_def)
  have res: "h' = (\<lambda>a. if a \<in> set D then Some (snd (flow_timeout now (fl h a))) else h a)"
    "tb' = (tl_remove (set D) tb)\<lparr> n_flows := n_flows tb - of_nat (length D) \<rparr>" "ds' = ds @ D"
    using out dist by (simp_all add: table_linear_timeout_def tl_timeout_loop_result Let_def D_def)
  have "length D = card (set D)" using dist(1) by (simp add: D_def length_filter_card)
  then show "linear_inv h' tb'"
    unfolding res(2) using dom
    by (intro linear_inv_remove [OF inv]) (auto simp: D_def res(1) same_entry_def fl_def)
  show "set (flows tb') = {a \<in> set (flows tb). \<not> expired now (fl h a)}"
    by (auto simp: res(2) tl_remove_def D_def)
  show "ds' = ds @ D" "h' = (\<lambda>a. if a \<in> set D then Some (snd (flow_timeout now (fl h a))) else h a)"
    by (fact res)+
qed


section \<open>The contract\<close>

text \<open>The entries that the insertion of \<open>a\<close> takes for duplicates of it, of which it replaces the first.\<close>

definition linear_dups :: "fheap \<Rightarrow> sw_table_linear \<Rightarrow> addr \<Rightarrow> addr set" where
  "linear_dups h tb a = {b \<in> set (flows tb). replaces (fl h a) (fl h b)}"

lemma linear_no_dups:
  assumes "linear_inv h tb" "tl_insert_scan h (fl h a) (flows tb) = (i, False)"
  shows "linear_dups h tb a = {}"
proof -
  have "\<not> replaces (fl h a) (fl h b)" if "b \<in> set (flows tb)" for b
  proof (cases "b \<in> set (take i (flows tb))")
    case True
    then show ?thesis using tl_insert_scan_before [OF assms(2)] by blast
  next
    case False
    then have "b \<in> set (drop i (flows tb))" using that by (metis Un_iff append_take_drop_id set_append)
    then have "priority (fl h b) < priority (fl h a)"
      using tl_insert_scan_after [OF assms(2)] assms(1) by (simp add: linear_inv_def)
    then have "priority (fl h b) \<noteq> priority (fl h a)" by simp
    then show ?thesis by (simp add: replaces_def)
  qed
  then show ?thesis by (auto simp: linear_dups_def)
qed

text \<open>A full table has room only for an entry that replaces another.\<close>

definition linear_room :: "fheap \<Rightarrow> sw_table_linear \<Rightarrow> addr \<Rightarrow> bool" where
  "linear_room h tb a \<longleftrightarrow> n_flows tb < max_flows tb \<or> linear_dups h tb a \<noteq> {}"

lemma linear_insert_room:
  assumes "linear_inv h tb"
  shows "fst (table_linear_insert h tb a) \<longleftrightarrow> linear_room h tb a"
proof (cases h a tb rule: table_linear_insert_cases)
  case (replaced i)
  then have "flows tb ! i \<in> linear_dups h tb a" using tl_insert_scan_dup [OF replaced(1)] by (simp add: linear_dups_def)
  then have "linear_dups h tb a \<noteq> {}" by blast
  then show ?thesis using replaced(2) by (simp add: linear_room_def)
qed (use linear_no_dups [OF assms] in \<open>auto simp: linear_room_def\<close>)

lemma linear_insert_dups:
  assumes inv: "linear_inv h tb" and new: "a \<notin> set (flows tb)" and ins: "table_linear_insert h tb a = (True, h', tb')"
  shows "if linear_dups h tb a = {} then set (flows tb) \<subseteq> set (flows tb')
    else \<exists>b \<in> linear_dups h tb a. set (flows tb) - set (flows tb') = {b}"
proof (cases h a tb rule: table_linear_insert_cases)
  case (replaced i)
  have i: "i < length (flows tb)" "replaces (fl h a) (fl h (flows tb ! i))" using tl_insert_scan_dup [OF replaced(1)] by auto
  then have "set (flows tb) - set (flows tb') = {flows tb ! i}"
    using replaced(2) inv ins new by (auto simp: linear_inv_def set_list_update_distinct)
  moreover have "flows tb ! i \<in> linear_dups h tb a" using i by (simp add: linear_dups_def)
  ultimately show ?thesis by auto
next
  case (added i)
  have "linear_dups h tb a = {}" by (rule linear_no_dups [OF inv added(1)])
  then show ?thesis using added(3) ins set_insert_at [OF tl_insert_scan_le [OF added(1)]] by auto
qed (use ins in simp)

interpretation linear: sw_table linear_inv "\<lambda>tb. set (flows tb)" table_linear_lookup table_linear_insert
  table_linear_modify table_linear_delete table_linear_timeout linear_dups "\<lambda>tb. True" linear_room
proof (unfold_locales, goal_cases)
  case (2 h t)
  then show ?case by (simp add: linear_inv_def)
next
  case (3 h t h')
  then show ?case by (rule linear_inv_cong)
next
  case (4 h t k a)
  then show ?case by (simp add: linear_lookup_sound)
next
  case (5 h t k a)
  then show ?case by (simp add: linear_lookup_complete)
next
  case (6 h t a h' t')
  then show ?case by (rule linear_insert_refused)
next
  case (7 h t a h' t')
  then show ?case using linear_insert_inv by blast
next
  case (8 h t a h' t')
  then show ?case using linear_insert_flows by blast
next
  case (9 h t a h' t')
  then show ?case using linear_insert_heap by blast
next
  case (10 h t a)
  then show ?case by (auto simp: linear_dups_def)
next
  case (11 h t a h' t')
  then show ?case using linear_insert_dups by blast
next
  case (12 h t k ok prio strict acts n h')
  then show ?case
    by (simp add: table_linear_modify_def linear_inv_def tl_modify_loop_heap)
next
  case (13 h t k out_port prio strict)
  obtain D t' where D: "D = {a \<in> set (flows t). tl_selected h k out_port prio strict a}"
    and del: "table_linear_delete h t k out_port prio strict = Some (of_nat (card D), h |` (- D), t')"
      "linear_inv (h |` (- D)) t'" "set (flows t') = set (flows t) - D"
    by (rule that [OF refl linear_delete_ok [OF 13(1,2)]])
  have gone: "set (flows t) - set (flows t') = D" using del(3) D by auto
  have "set (flows t') \<subseteq> set (flows t)" using del(3) by auto
  then show ?case
    unfolding del(1) by (intro exI [of _ "of_nat (card D)"] exI [of _ "h |` (- D)"] exI [of _ t'] conjI)
      (simp_all only: gone del(2), auto simp: D tl_selected_def)
next
  case (14 h t now ds h' t' ds')
  moreover have "distinct (flows t)" using 14(1) by (simp add: linear_inv_def)
  ultimately show ?case
    using linear_timeout_ok [OF 14] by (auto intro!: exI [of _ "filter (\<lambda>a. expired now (fl h a)) (flows t)"])
next
  case (15 h t a)
  then show ?case by (rule linear_insert_room)
qed simp_all


section \<open>Iteration\<close>

text \<open>
  The iteration order: serial numbers strictly decrease along \<open>iter_flows\<close> and stay below the next one.
\<close>

definition serials :: "fheap \<Rightarrow> addr list \<Rightarrow> u64 list" where
  "serials h as = map (\<lambda>a. serial (fl h a)) as"

definition linear_serials :: "fheap \<Rightarrow> sw_table_linear \<Rightarrow> bool" where
  "linear_serials h tb \<longleftrightarrow> sorted_wrt (>) (serials h (iter_flows tb)) \<and>
     (\<forall>s \<in> set (serials h (iter_flows tb)). s < next_serial tb)"

lemma linear_serials_replace:
  assumes "linear_serials h tb" and "serials h' (iter_flows tb') = serials h (iter_flows tb)"
    and "next_serial tb' = next_serial tb"
  shows "linear_serials h' tb'"
  using assms by (simp add: linear_serials_def)

lemma linear_serials_add:
  assumes ser: "linear_serials h tb" and "next_serial tb \<noteq> - 1"
    and "serials h' (iter_flows tb') = next_serial tb # serials h (iter_flows tb)"
    and "next_serial tb' = next_serial tb + 1"
  shows "linear_serials h' tb'"
proof -
  have less: "next_serial tb < next_serial tb + 1"
    using assms(2) by (simp add: not_le [symmetric] inc_less_eq_self_iff_eq)
  show ?thesis
    unfolding linear_serials_def assms(3,4)
    using ser less less_trans [OF _ less] by (auto simp: linear_serials_def)
qed

lemma linear_serials_insert:
  assumes inv: "linear_inv h tb" and ser: "linear_serials h tb" and a: "a \<notin> set (flows tb)"
    and room: "next_serial tb \<noteq> - 1" and ins: "table_linear_insert h tb a = (ok, h', tb')"
  shows "linear_serials h' tb'"
proof (cases h a tb rule: table_linear_insert_cases)
  case (replaced i)
  have "i < length (flows tb)" using replaced(1) tl_insert_scan_dup by blast
  then have "flows tb ! i \<noteq> a" using a by auto
  then have "serials h' (iter_flows tb') = serials h (iter_flows tb)"
    using replaced(2) ins inv a by (auto simp: linear_inv_def serials_def)
  then show ?thesis using replaced(2) ins by (intro linear_serials_replace [OF ser]) auto
next
  case (added i)
  have "serials h' (iter_flows tb') = next_serial tb # serials h (iter_flows tb)"
    using added(3) ins inv a by (auto simp: linear_inv_def serials_def)
  then show ?thesis using added(3) ins by (intro linear_serials_add [OF ser room]) auto
qed (use ser ins in auto)

lemma linear_serials_filter:
  assumes "linear_serials h tb" and "iter_flows tb' = filter P (iter_flows tb)" and "next_serial tb' = next_serial tb"
    and "\<And>a. a \<in> set (iter_flows tb') \<Longrightarrow> serial (fl h' a) = serial (fl h a)"
  shows "linear_serials h' tb'"
proof -
  have eq: "serials h' (iter_flows tb') = serials h (filter P (iter_flows tb))"
    using assms(2,4) by (simp add: serials_def)
  show ?thesis
    using assms(1) unfolding linear_serials_def eq assms(3)
    by (auto simp: serials_def sorted_wrt_map sorted_wrt_filter)
qed

text \<open>The entries that an iteration from a position still has to show to the callback.\<close>

definition tl_wanted :: "fheap \<Rightarrow> sw_flow_key \<Rightarrow> u16 \<Rightarrow> addr \<Rightarrow> bool" where
  "tl_wanted h k out_port a \<longleftrightarrow> flow_matches_2wild k (key (fl h a)) \<and> has_out_port (fl h a) out_port"

definition tl_pending :: "fheap \<Rightarrow> sw_table_linear \<Rightarrow> sw_flow_key \<Rightarrow> u16 \<Rightarrow> u64 \<Rightarrow> addr list" where
  "tl_pending h tb k out_port pos =
    filter (\<lambda>a. serial (fl h a) \<le> NOT pos \<and> tl_wanted h k out_port a) (iter_flows tb)"

lemma tl_iterate_loop_stops:
  assumes "\<And>a. a \<in> set as \<Longrightarrow> acts_ok (sf_acts (fl h a))"
    and "tl_iterate_loop h k out_port callback start as pos p = Some (e, pos', p')" "e \<noteq> 0"
  shows "\<exists>us a vs. as = us @ a # vs \<and> serial (fl h a) \<le> start \<and> tl_wanted h k out_port a \<and>
    pos' = NOT (serial (fl h a) - 1)"
  using assms
proof (induction as arbitrary: p)
  case (Cons a as)
  have port: "flow_has_out_port (fl h a) out_port = Some (has_out_port (fl h a) out_port)"
    using Cons.prems(1) by (simp add: flow_has_out_port_ok)
  show ?case
  proof (cases "serial (fl h a) \<le> start \<and> tl_wanted h k out_port a \<and> fst (callback (fl h a) p) \<noteq> 0")
    case True
    then have "pos' = NOT (serial (fl h a) - 1)"
      using Cons.prems(2) port by (simp add: tl_wanted_def split: prod.splits)
    with True show ?thesis by (intro exI [of _ "[]"] exI [of _ a] exI [of _ as]) simp
  next
    case False
    then obtain q where "tl_iterate_loop h k out_port callback start as pos q = Some (e, pos', p')"
      using Cons.prems(2) port by (auto simp: tl_wanted_def split: if_splits prod.splits)
    from Cons.IH [OF _ this Cons.prems(3)] Cons.prems(1) obtain us b vs
      where "as = us @ b # vs" "serial (fl h b) \<le> start" "tl_wanted h k out_port b"
        "pos' = NOT (serial (fl h b) - 1)"
      by auto
    then show ?thesis by (intro exI [of _ "a # us"] exI [of _ b] exI [of _ vs]) simp
  qed
qed simp

lemma tl_iterate_loop_total:
  assumes "\<And>a. a \<in> set as \<Longrightarrow> acts_ok (sf_acts (fl h a))"
  shows "\<exists>r. tl_iterate_loop h k out_port callback start as pos p = Some r"
  using assms
proof (induction as arbitrary: p)
  case (Cons a as)
  then show ?case by (auto simp: flow_has_out_port_ok split: prod.splits)
qed simp


lemma tl_pending_after:
  assumes ser: "linear_serials h tb" and it: "iter_flows tb = us @ a # vs" and a: "serial (fl h a) \<le> NOT pos"
  shows "\<exists>xs. tl_pending h tb k out_port pos = xs @ filter (tl_wanted h k out_port) (a # vs)"
    and "serial (fl h a) \<noteq> 0 \<Longrightarrow>
      tl_pending h tb k out_port (NOT (serial (fl h a) - 1)) = filter (tl_wanted h k out_port) vs"
proof -
  have order: "\<And>b. b \<in> set us \<Longrightarrow> serial (fl h a) < serial (fl h b)"
      "\<And>b. b \<in> set vs \<Longrightarrow> serial (fl h b) < serial (fl h a)"
    using ser by (auto simp: linear_serials_def serials_def it sorted_wrt_append)
  have "serial (fl h b) \<le> NOT pos" if "b \<in> set vs" for b
    using order(2) [OF that] a by simp
  then have "filter (\<lambda>b. serial (fl h b) \<le> NOT pos \<and> tl_wanted h k out_port b) (a # vs) =
      filter (tl_wanted h k out_port) (a # vs)"
    using a by (intro filter_cong refl) auto
  then show "\<exists>xs. tl_pending h tb k out_port pos = xs @ filter (tl_wanted h k out_port) (a # vs)"
    by (simp add: tl_pending_def it)
  assume nz: "serial (fl h a) \<noteq> 0"
  then have "serial (fl h b) \<le> serial (fl h a) - 1 \<longleftrightarrow> serial (fl h b) < serial (fl h a)" for b
    by (simp add: less_eq_dec_iff)
  then show "tl_pending h tb k out_port (NOT (serial (fl h a) - 1)) = filter (tl_wanted h k out_port) vs"
    using order by (auto simp: tl_pending_def it filter_empty_conv not_less less_imp_le intro!: filter_cong)
qed

text \<open>
  C12. A lookup in the priority table returns a matching entry of the highest priority among the
  matching entries, and returns none only when no entry matches.
\<close>

theorem table_linear_lookup_priority:
  assumes "linear_inv h tb"
  shows "case table_linear_lookup h tb k of
      None \<Rightarrow> \<forall>a \<in> set (flows tb). \<not> flow_matches_1wild k (key (fl h a))
    | Some a \<Rightarrow> a \<in> set (flows tb) \<and> flow_matches_1wild k (key (fl h a)) \<and>
        (\<forall>b \<in> set (flows tb). flow_matches_1wild k (key (fl h b)) \<longrightarrow> priority (fl h b) \<le> priority (fl h a))"
  using linear_lookup_sound linear_lookup_complete linear_lookup_max [OF assms]
  by (auto split: option.splits)

definition sample_heap :: fheap where
  "sample_heap = [0 \<mapsto> sample_flow 5 1, 1 \<mapsto> sample_flow 3 1]"

definition sample_linear :: sw_table_linear where
  "sample_linear = \<lparr> tl_swt = \<lparr> n_lookup = 0, n_matched = 0 \<rparr>, max_flows = 4, n_flows = 2, flows = [0, 1],
     iter_flows = [1, 0], next_serial = 2 \<rparr>"

lemma sample_linear_inv: "linear_inv sample_heap sample_linear"
  by (simp add: linear_inv_def sample_linear_def sample_heap_def prios_def fl_def insert_commute)

lemma sample_acts_valid: "acts_valid sample_heap"
  by (simp add: acts_valid_def sample_heap_def fl_def acts_ok_sample)

theorem table_linear_lookup_priority_witness:
  "table_linear_lookup sample_heap sample_linear (sample_packet 1) = Some 0 \<and>
   priority (fl sample_heap 1) \<le> priority (fl sample_heap 0)"
proof -
  have "table_linear_lookup sample_heap sample_linear (sample_packet 1) = Some 0"
    by (simp add: table_linear_lookup_def sample_linear_def sample_heap_def fl_def sample_matches)
  with table_linear_lookup_priority [OF sample_linear_inv, of "sample_packet 1"] show ?thesis
    by (simp add: sample_linear_def sample_heap_def fl_def sample_matches)
qed


text \<open>
  C13. Inserting an entry that the table does not hold yet.  The invariant survives.  The table refuses exactly
  when it is full and holds no duplicate, and then changes nothing.  Otherwise, without a duplicate the
  entry is added and nothing else changes; with one (same priority and wildcards, and a match of the
  other), exactly one duplicate is removed from the table and freed, and the entry takes its place.
\<close>

theorem table_linear_insert_correct:
  assumes "linear_inv h tb" and "a \<in> dom h" and "a \<notin> set (flows tb)" and "key_wf (key (fl h a))"
    and "table_linear_insert h tb a = (ok, h', tb')"
  shows "linear_inv h' tb' \<and> (ok \<longleftrightarrow> n_flows tb < max_flows tb \<or> linear_dups h tb a \<noteq> {}) \<and>
    (if ok then \<exists>R s. set (flows tb') = insert a (set (flows tb) - R) \<and> h' = (h |` (- R))(a \<mapsto> (fl h a)\<lparr> serial := s \<rparr>) \<and>
        (if linear_dups h tb a = {} then R = {} else \<exists>b \<in> linear_dups h tb a. R = {b})
     else h' = h \<and> tb' = tb)"
proof (cases ok)
  case True
  have room: "n_flows tb < max_flows tb \<or> linear_dups h tb a \<noteq> {}"
    using linear_insert_room [OF assms(1), of a] assms(5) True by (simp add: linear_room_def)
  have ins: "table_linear_insert h tb a = (True, h', tb')" using assms(5) True by simp
  let ?R = "set (flows tb) - set (flows tb')"
  have flows: "set (flows tb') = insert a (set (flows tb) - ?R)"
    using linear.insert_flows [OF assms(1-3) ins] by auto
  obtain s where heap: "h' = (h |` (- ?R))(a \<mapsto> (fl h a)\<lparr> serial := s \<rparr>)"
    using linear.insert_heap [OF assms(1-3) ins] by blast
  have "if linear_dups h tb a = {} then ?R = {} else \<exists>b \<in> linear_dups h tb a. ?R = {b}"
    using linear_insert_dups [OF assms(1,3) ins] by (auto split: if_splits)
  with flows heap have "\<exists>R s. set (flows tb') = insert a (set (flows tb) - R) \<and> h' = (h |` (- R))(a \<mapsto> (fl h a)\<lparr> serial := s \<rparr>) \<and>
      (if linear_dups h tb a = {} then R = {} else \<exists>b \<in> linear_dups h tb a. R = {b})" by blast
  then show ?thesis using True room linear.insert_inv [OF assms(1-4) ins] by simp
next
  case False
  have full: "\<not> (n_flows tb < max_flows tb \<or> linear_dups h tb a \<noteq> {})"
    using linear_insert_room [OF assms(1), of a] assms(5) False by (simp add: linear_room_def)
  moreover have "h' = h \<and> tb' = tb" using linear.insert_refused [of h tb a h' tb'] assms(5) False by simp
  ultimately show ?thesis using assms(1) False by simp
qed

theorem table_linear_insert_correct_witness:
  "fst (table_linear_insert (sample_heap(2 \<mapsto> sample_flow 4 2)) sample_linear 2) \<and>
   linear_inv (fst (snd (table_linear_insert (sample_heap(2 \<mapsto> sample_flow 4 2)) sample_linear 2)))
     (snd (snd (table_linear_insert (sample_heap(2 \<mapsto> sample_flow 4 2)) sample_linear 2)))"
proof -
  let ?h = "sample_heap(2 \<mapsto> sample_flow 4 2)"
  obtain ok h' tb' where ins: "table_linear_insert ?h sample_linear 2 = (ok, h', tb')" by (metis prod.exhaust)
  have inv: "linear_inv ?h sample_linear"
    by (simp add: linear_inv_def sample_linear_def sample_heap_def prios_def fl_def insert_commute)
  have "linear_inv h' tb' \<and> (ok \<or> n_flows sample_linear \<ge> max_flows sample_linear)"
    using table_linear_insert_correct [OF inv _ _ _ ins] by (auto simp: sample_linear_def split: if_splits)
  with ins show ?thesis by (simp add: sample_linear_def)
qed

text \<open>
  A packet that matches the new entry, and no other entry of at least its priority, is directed to
  the new entry after the insertion.
\<close>

theorem table_linear_insert_lookup:
  assumes "linear_inv h tb" and "a \<in> dom h" and "a \<notin> set (flows tb)" and "key_wf (key (fl h a))"
    and "table_linear_insert h tb a = (True, h', tb')"
    and "flow_matches_1wild k (key (fl h a))"
    and "\<forall>b \<in> set (flows tb') - {a}. flow_matches_1wild k (key (fl h b)) \<longrightarrow> priority (fl h b) < priority (fl h a)"
  shows "table_linear_lookup h' tb' k = Some a"
proof -
  have inv: "linear_inv h' tb'" using linear.insert_inv [OF assms(1-5)] .
  have a: "a \<in> set (flows tb')" using linear.insert_flows [OF assms(1-3,5)] by blast
  have fa: "key (fl h' a) = key (fl h a)" "priority (fl h' a) = priority (fl h a)"
    using linear.insert_heap [OF assms(1-3,5)] by auto
  have same: "fl h' b = fl h b" if "b \<in> set (flows tb')" "b \<noteq> a" for b
    using linear.insert_keeps(2) [OF assms(1-3,5) that] by (simp add: fl_def)
  obtain b where b: "table_linear_lookup h' tb' k = Some b"
    using linear_lookup_complete [OF _ a] assms(6) fa(1) by (metis option.exhaust)
  then have "priority (fl h' a) \<le> priority (fl h' b)" "b \<in> set (flows tb')" "flow_matches_1wild k (key (fl h' b))"
    using linear_lookup_max [OF inv b a] linear_lookup_sound [OF b] assms(6) fa(1) by auto
  then have "b = a" using assms(7) same fa(2) by (metis DiffI leD singletonD)
  with b show ?thesis by simp
qed

theorem table_linear_insert_lookup_witness:
  "table_linear_lookup (fst (snd (table_linear_insert (sample_heap(2 \<mapsto> sample_flow 4 2)) sample_linear 2)))
     (snd (snd (table_linear_insert (sample_heap(2 \<mapsto> sample_flow 4 2)) sample_linear 2))) (sample_packet 2) = Some 2"
proof -
  let ?h = "sample_heap(2 \<mapsto> sample_flow 4 2)"
  obtain ok h' tb' where ins: "table_linear_insert ?h sample_linear 2 = (ok, h', tb')" by (metis prod.exhaust)
  have inv: "linear_inv ?h sample_linear"
    by (simp add: linear_inv_def sample_linear_def sample_heap_def prios_def fl_def insert_commute)
  have ok: "ok"
    using ins by (cases ?h "2 :: nat" sample_linear rule: table_linear_insert_cases) (auto simp: sample_linear_def)
  have "set (flows tb') \<subseteq> insert 2 (set (flows sample_linear))"
    using linear.insert_flows [OF inv] ins ok by (simp add: sample_linear_def)
  then have "table_linear_lookup h' tb' (sample_packet 2) = Some 2"
    by (intro table_linear_insert_lookup [OF inv _ _ _ ins [unfolded ok [THEN eqTrueI]]])
      (auto simp: sample_linear_def sample_heap_def fl_def sample_matches)
  with ins show ?thesis by simp
qed


text \<open>
  Deletion on entries with well-formed actions always finishes; it removes and frees exactly the
  entries that match the description (with the priority, when strict) and that output to the given
  port, counts them, and keeps the invariant.
\<close>

theorem table_linear_delete_correct:
  assumes "linear_inv h tb" and "acts_valid h"
  shows "\<exists>n h' tb'. table_linear_delete h tb k out_port prio strict = Some (n, h', tb') \<and>
    linear_inv h' tb' \<and>
    set (flows tb') = {a \<in> set (flows tb). \<not> (flow_matches_desc (key (fl h a)) k strict \<and>
      has_out_port (fl h a) out_port \<and> (strict \<longrightarrow> priority (fl h a) = prio))} \<and>
    dom h' = dom h - (set (flows tb) - set (flows tb')) \<and> (\<forall>a \<in> dom h'. h' a = h a) \<and>
    unat n = length (flows tb) - length (flows tb')"
proof -
  obtain D tb' where D: "D = {a \<in> set (flows tb). tl_selected h k out_port prio strict a}"
    and del: "table_linear_delete h tb k out_port prio strict = Some (of_nat (card D), h |` (- D), tb')"
      "linear_inv (h |` (- D)) tb'" "set (flows tb') = set (flows tb) - D"
    by (rule that [OF refl linear_delete_ok [OF assms]])
  have sub: "D \<subseteq> set (flows tb)" using D by auto
  have len: "length (flows tb') = length (flows tb) - card D"
    using assms(1) del(2,3) sub by (metis card_Diff_subset distinct_card finite_set finite_subset linear_inv_def)
  have "card D \<le> length (flows tb)" using sub by (metis card_length card_mono finite_set le_trans)
  moreover have "length (flows tb) < 4294967296"
    using assms(1) unat_u32_less [of "n_flows tb"] by (simp add: linear_inv_def)
  ultimately have n: "unat (of_nat (card D) :: u32) = length (flows tb) - length (flows tb')"
    using len by (simp add: unat_of_nat_u32)
  have gone: "set (flows tb) - set (flows tb') = D" using del(3) sub by auto
  have dom: "dom (h |` (- D)) = dom h - (set (flows tb) - set (flows tb'))" by (auto simp: gone)
  have set': "set (flows tb') = {a \<in> set (flows tb). \<not> (flow_matches_desc (key (fl h a)) k strict \<and>
      has_out_port (fl h a) out_port \<and> (strict \<longrightarrow> priority (fl h a) = prio))}"
    by (auto simp: del(3) D tl_selected_def sel_desc_def sel_prio_def)
  have keep: "\<forall>a \<in> dom (h |` (- D)). (h |` (- D)) a = h a" by (auto simp: restrict_map_def split: if_splits)
  show ?thesis
    by (intro exI [of _ "of_nat (card D)"] exI [of _ "h |` (- D)"] exI [of _ tb'] conjI) (fact del set' n dom keep)+
qed

theorem table_linear_delete_correct_witness:
  "\<exists>n h' tb'. table_linear_delete sample_heap sample_linear (sample_packet 1) (htons OFPP_NONE) 5 True =
     Some (n, h', tb') \<and> unat n = 2 - length (flows tb')"
  using table_linear_delete_correct [OF sample_linear_inv sample_acts_valid, of "sample_packet 1" "htons OFPP_NONE" 5 True]
  by (auto simp: sample_linear_def)

text \<open>
  Resuming an interrupted iteration: when the callback stops the iteration at an entry, the position
  left behind makes the next iteration start with the entry after it, except at the entry with serial
  number 0, where the position becomes 0 and the next iteration starts over.
\<close>

theorem table_linear_iterate_resume:
  assumes inv: "linear_inv h tb" and ser: "linear_serials h tb" and valid: "acts_valid h"
    and stop: "table_linear_iterate h tb k out_port callback pos p = Some (e, pos', p')" "e \<noteq> 0"
  shows "\<exists>xs a ys. tl_pending h tb k out_port pos = xs @ a # ys \<and>
    (if serial (fl h a) = 0 then pos' = 0 else tl_pending h tb k out_port pos' = ys)"
proof -
  have "\<And>a. a \<in> set (iter_flows tb) \<Longrightarrow> acts_ok (sf_acts (fl h a))"
    using inv valid by (auto simp: linear_inv_def acts_valid_def)
  from tl_iterate_loop_stops [OF this stop(1) [unfolded table_linear_iterate_def] stop(2)]
  obtain us a vs where a: "iter_flows tb = us @ a # vs" "serial (fl h a) \<le> NOT pos" "tl_wanted h k out_port a"
    "pos' = NOT (serial (fl h a) - 1)" by blast
  from tl_pending_after(1) [OF ser a(1,2)] obtain xs where
    "tl_pending h tb k out_port pos = xs @ filter (tl_wanted h k out_port) (a # vs)" by blast
  with a(3) have "tl_pending h tb k out_port pos = xs @ a # filter (tl_wanted h k out_port) vs" by simp
  moreover have "if serial (fl h a) = 0 then pos' = 0
      else tl_pending h tb k out_port pos' = filter (tl_wanted h k out_port) vs"
    using tl_pending_after(2) [OF ser a(1,2)] by (simp add: a(4))
  ultimately show ?thesis by blast
qed

theorem table_linear_iterate_resume_witness:
  "\<exists>xs a ys. tl_pending (sample_heap(1 \<mapsto> (sample_flow 3 1)\<lparr> serial := 1 \<rparr>)) sample_linear (key (sample_flow 3 1))
      (htons OFPP_NONE) 0 = xs @ a # ys"
proof -
  let ?h = "sample_heap(1 \<mapsto> (sample_flow 3 1)\<lparr> serial := 1 \<rparr>)" and ?k = "key (sample_flow 3 1)"
  have inv: "linear_inv ?h sample_linear"
    by (simp add: linear_inv_def sample_linear_def sample_heap_def prios_def fl_def insert_commute)
  have ser: "linear_serials ?h sample_linear"
    by (simp add: linear_serials_def serials_def sample_linear_def sample_heap_def fl_def) (simp add: sample_flow_def)
  have valid: "acts_valid ?h" using sample_acts_valid acts_ok_sample [of 3 1] by (auto simp: acts_valid_def)
  have "table_linear_iterate ?h sample_linear ?k (htons OFPP_NONE) (\<lambda>f p. (1, p)) 0 () = Some (1, - 1, ())"
    by (simp add: table_linear_iterate_def sample_linear_def sample_heap_def fl_def flow_matches_2wild_refl)
  from table_linear_iterate_resume [OF inv ser valid this] show ?thesis by auto
qed

text \<open>The exceptional case happens: the last entry of a table can be the one with serial number 0.\<close>

lemma table_linear_iterate_restarts:
  defines "h \<equiv> [0 \<mapsto> sample_flow 5 1]" and "tb \<equiv> sample_linear\<lparr> n_flows := 1, flows := [0], iter_flows := [0] \<rparr>"
  shows "linear_inv h tb" and "linear_serials h tb"
    and "table_linear_iterate h tb (key (sample_flow 5 1)) (htons OFPP_NONE) (\<lambda>f p. (1, p)) 0 () = Some (1, 0, ())"
proof -
  show "linear_inv h tb"
    by (simp add: h_def tb_def linear_inv_def sample_linear_def prios_def fl_def)
  show "linear_serials h tb"
    by (simp add: h_def tb_def linear_serials_def serials_def sample_linear_def fl_def sample_flow_def)
  show "table_linear_iterate h tb (key (sample_flow 5 1)) (htons OFPP_NONE) (\<lambda>f p. (1, p)) 0 () = Some (1, 0, ())"
    by (simp add: h_def tb_def table_linear_iterate_def sample_linear_def fl_def flow_matches_2wild_refl)
      (simp add: sample_flow_def)
qed

end
