(* ===== verification/Table_Hash.thy ===== *)
theory Table_Hash
  imports Table_Linear
begin

text \<open>
  The exact-match tables of \<open>src/full/openflowlib/switch/table-hash.c\<close>: a one-entry-per-bucket hash
  table keyed by the CRC of the flow bytes, and the double-hashing table that tries two of them.  The
  interpretations \<open>hash\<close> and \<open>hash2\<close> discharge the contract \<open>sw_table\<close> for both.
\<close>

section \<open>The single hash table\<close>

record sw_table_hash =
  th_swt :: swt
  crc32 :: "u32 list"
  th_n_flows :: u32
  bucket_mask :: u32
  buckets :: "addr option list"

text \<open>\<open>find_bucket\<close>: the index of the bucket of a key; the hash covers the bytes of its flow.\<close>

definition find_bucket :: "sw_table_hash \<Rightarrow> sw_flow_key \<Rightarrow> nat" where
  "find_bucket th k = unat (crc32_calculate (crc32 th) (flow_bytes (key_flow k)) AND bucket_mask th)"

definition table_hash_lookup :: "fheap \<Rightarrow> sw_table_hash \<Rightarrow> sw_flow_key \<Rightarrow> addr option" where
  "table_hash_lookup h th k =
    (case buckets th ! find_bucket th k of
       None \<Rightarrow> None
     | Some a \<Rightarrow> if flow_compare (key_flow (key (fl h a))) (key_flow k) = 0 then Some a else None)"

definition table_hash_insert :: "fheap \<Rightarrow> sw_table_hash \<Rightarrow> addr \<Rightarrow> bool \<times> fheap \<times> sw_table_hash" where
  "table_hash_insert h th a =
    (if wildcards (key (fl h a)) \<noteq> 0 then (False, h, th)
     else let i = find_bucket th (key (fl h a)) in
       case buckets th ! i of
         None \<Rightarrow> (True, h, th\<lparr> th_n_flows := th_n_flows th + 1, buckets := (buckets th)[i := Some a] \<rparr>)
       | Some old \<Rightarrow>
           if flow_compare (key_flow (key (fl h old))) (key_flow (key (fl h a))) = 0
           then (True, flow_free old h, th\<lparr> buckets := (buckets th)[i := Some a] \<rparr>)
           else (False, h, th))"

text \<open>The bucket indices of the \<open>for\<close> loops over \<open>0 .. bucket_mask\<close>.\<close>

definition bucket_range :: "sw_table_hash \<Rightarrow> nat list" where
  "bucket_range th = [0..<Suc (unat (bucket_mask th))]"

definition th_modify_hit :: "fheap \<Rightarrow> sw_flow_key \<Rightarrow> u16 \<Rightarrow> bool \<Rightarrow> addr \<Rightarrow> bool" where
  "th_modify_hit h k prio strict a \<longleftrightarrow>
     flow_matches_desc (key (fl h a)) k strict \<and> (\<not> strict \<or> priority (fl h a) = prio)"

fun th_modify_loop :: "(addr \<Rightarrow> bool) \<Rightarrow> sw_flow_key \<Rightarrow> u16 \<Rightarrow> bool \<Rightarrow> u8 list \<Rightarrow> addr option list \<Rightarrow> u32 \<Rightarrow> fheap
    \<Rightarrow> u32 \<times> fheap" where
  "th_modify_loop ok k prio strict acts [] count h = (count, h)"
| "th_modify_loop ok k prio strict acts (b # bs) count h =
    (case b of
       None \<Rightarrow> th_modify_loop ok k prio strict acts bs count h
     | Some a \<Rightarrow>
         if th_modify_hit h k prio strict a
         then th_modify_loop ok k prio strict acts bs (count + 1) (h(a \<mapsto> flow_replace_acts (ok a) acts (fl h a)))
         else th_modify_loop ok k prio strict acts bs count h)"

definition table_hash_modify :: "(addr \<Rightarrow> bool) \<Rightarrow> fheap \<Rightarrow> sw_table_hash \<Rightarrow> sw_flow_key \<Rightarrow> u16 \<Rightarrow> bool
    \<Rightarrow> u8 list \<Rightarrow> u32 \<times> fheap" where
  "table_hash_modify ok h th k prio strict acts =
    (if wildcards k = 0 then
       (case buckets th ! find_bucket th k of
          None \<Rightarrow> (0, h)
        | Some a \<Rightarrow>
            if th_modify_hit h k prio strict a then (1, h(a \<mapsto> flow_replace_acts (ok a) acts (fl h a))) else (0, h))
     else th_modify_loop ok k prio strict acts (map (\<lambda>i. buckets th ! i) (bucket_range th)) 0 h)"

text \<open>\<open>do_delete\<close> frees the entry of a bucket and empties the bucket.\<close>

definition th_do_delete :: "nat \<Rightarrow> addr \<Rightarrow> fheap \<Rightarrow> sw_table_hash \<Rightarrow> fheap \<times> sw_table_hash" where
  "th_do_delete i a h th = (flow_free a h, th\<lparr> buckets := (buckets th)[i := None] \<rparr>)"

fun th_delete_loop :: "sw_flow_key \<Rightarrow> u16 \<Rightarrow> bool \<Rightarrow> nat list \<Rightarrow> u32 \<Rightarrow> fheap \<Rightarrow> sw_table_hash
    \<Rightarrow> (u32 \<times> fheap \<times> sw_table_hash) option" where
  "th_delete_loop k out_port strict [] count h th = Some (count, h, th)"
| "th_delete_loop k out_port strict (i # is) count h th =
    (case buckets th ! i of
       None \<Rightarrow> th_delete_loop k out_port strict is count h th
     | Some a \<Rightarrow>
         if flow_matches_desc (key (fl h a)) k strict then
           (case flow_has_out_port (fl h a) out_port of
              None \<Rightarrow> None
            | Some hit \<Rightarrow>
                if hit then (let (h, th) = th_do_delete i a h th
                             in th_delete_loop k out_port strict is (count + 1) h th)
                else th_delete_loop k out_port strict is count h th)
         else th_delete_loop k out_port strict is count h th)"

definition table_hash_delete :: "fheap \<Rightarrow> sw_table_hash \<Rightarrow> sw_flow_key \<Rightarrow> u16 \<Rightarrow> u16 \<Rightarrow> bool
    \<Rightarrow> (u32 \<times> fheap \<times> sw_table_hash) option" where
  "table_hash_delete h th k out_port prio strict =
    (case
       (if wildcards k = 0 then
          (case buckets th ! find_bucket th k of
             None \<Rightarrow> Some (0, h, th)
           | Some a \<Rightarrow>
               if flow_compare (key_flow (key (fl h a))) (key_flow k) = 0 then
                 (case flow_has_out_port (fl h a) out_port of
                    None \<Rightarrow> None
                  | Some hit \<Rightarrow> if hit then Some (1, th_do_delete (find_bucket th k) a h th) else Some (0, h, th))
               else Some (0, h, th))
        else th_delete_loop k out_port strict (bucket_range th) 0 h th) of
       None \<Rightarrow> None
     | Some (count, h, th) \<Rightarrow> Some (count, h, th\<lparr> th_n_flows := th_n_flows th - count \<rparr>))"

fun th_timeout_loop :: "int \<Rightarrow> nat list \<Rightarrow> fheap \<Rightarrow> sw_table_hash \<Rightarrow> addr list
    \<Rightarrow> fheap \<times> sw_table_hash \<times> addr list" where
  "th_timeout_loop now [] h th deleted = (h, th, deleted)"
| "th_timeout_loop now (i # is) h th deleted =
    (case buckets th ! i of
       None \<Rightarrow> th_timeout_loop now is h th deleted
     | Some a \<Rightarrow>
         (let (out, f) = flow_timeout now (fl h a) in
          if out then
            th_timeout_loop now is (h(a \<mapsto> f))
              (th\<lparr> buckets := (buckets th)[i := None], th_n_flows := th_n_flows th - 1 \<rparr>) (deleted @ [a])
          else th_timeout_loop now is h th deleted))"

definition table_hash_timeout :: "int \<Rightarrow> fheap \<Rightarrow> sw_table_hash \<Rightarrow> addr list
    \<Rightarrow> fheap \<times> sw_table_hash \<times> addr list" where
  "table_hash_timeout now h th deleted = th_timeout_loop now (bucket_range th) h th deleted"

fun th_destroy_loop :: "addr option list \<Rightarrow> fheap \<Rightarrow> fheap" where
  "th_destroy_loop [] h = h"
| "th_destroy_loop (b # bs) h = th_destroy_loop bs (case b of None \<Rightarrow> h | Some a \<Rightarrow> flow_free a h)"

definition table_hash_destroy :: "fheap \<Rightarrow> sw_table_hash \<Rightarrow> fheap" where
  "table_hash_destroy h th = th_destroy_loop (map (\<lambda>i. buckets th ! i) (bucket_range th)) h"

text \<open>\<open>position->private[0]\<close> is the next bucket; \<open>-1\<close> ends the iteration.\<close>

fun th_iterate_loop :: "fheap \<Rightarrow> sw_table_hash \<Rightarrow> sw_flow_key \<Rightarrow> u16 \<Rightarrow> (sw_flow \<Rightarrow> 'p \<Rightarrow> int \<times> 'p)
    \<Rightarrow> nat list \<Rightarrow> u64 \<Rightarrow> 'p \<Rightarrow> (int \<times> u64 \<times> 'p) option" where
  "th_iterate_loop h th k out_port callback [] pos p = Some (0, pos, p)"
| "th_iterate_loop h th k out_port callback (i # is) pos p =
    (case buckets th ! i of
       None \<Rightarrow> th_iterate_loop h th k out_port callback is pos p
     | Some a \<Rightarrow>
         if flow_matches_1wild (key (fl h a)) k then
           (case flow_has_out_port (fl h a) out_port of
              None \<Rightarrow> None
            | Some hit \<Rightarrow>
                if hit then
                  (let (error, p) = callback (fl h a) p in
                   if error \<noteq> 0 then Some (error, of_nat (i + 1), p)
                   else th_iterate_loop h th k out_port callback is pos p)
                else th_iterate_loop h th k out_port callback is pos p)
         else th_iterate_loop h th k out_port callback is pos p)"

definition table_hash_iterate :: "fheap \<Rightarrow> sw_table_hash \<Rightarrow> sw_flow_key \<Rightarrow> u16
    \<Rightarrow> (sw_flow \<Rightarrow> 'p \<Rightarrow> int \<times> 'p) \<Rightarrow> u64 \<Rightarrow> 'p \<Rightarrow> (int \<times> u64 \<times> 'p) option" where
  "table_hash_iterate h th k out_port callback pos p =
    (if pos > ucast (bucket_mask th) then Some (0, pos, p)
     else if wildcards k = 0 then
       (case table_hash_lookup h th k of
          None \<Rightarrow> Some (0, - 1, p)
        | Some a \<Rightarrow>
            (case flow_has_out_port (fl h a) out_port of
               None \<Rightarrow> None
             | Some hit \<Rightarrow> if hit then (let (error, p) = callback (fl h a) p in Some (error, - 1, p))
                          else Some (0, - 1, p)))
     else th_iterate_loop h th k out_port callback [unat pos..<Suc (unat (bucket_mask th))] pos p)"

definition table_hash_stats :: "sw_table_hash \<Rightarrow> sw_table_stats" where
  "table_hash_stats th =
    \<lparr> st_name = ''hash'', st_wildcards = 0, st_n_flows = th_n_flows th, st_max_flows = bucket_mask th + 1,
      st_n_lookup = n_lookup (th_swt th), st_n_matched = n_matched (th_swt th) \<rparr>"

text \<open>The assertion that \<open>n_buckets\<close> is a power of two is the \<open>None\<close> branch.\<close>

definition table_hash_create :: "u32 \<Rightarrow> u32 \<Rightarrow> sw_table_hash option" where
  "table_hash_create polynomial n_buckets =
    (if n_buckets AND (n_buckets - 1) \<noteq> 0 then None
     else Some \<lparr> th_swt = \<lparr> n_lookup = 0, n_matched = 0 \<rparr>, crc32 = crc32_init polynomial, th_n_flows = 0,
       bucket_mask = n_buckets - 1, buckets = replicate (unat n_buckets) None \<rparr>)"


section \<open>The double-hashing table\<close>

record sw_table_hash2 =
  t2_swt :: swt
  subtable0 :: sw_table_hash
  subtable1 :: sw_table_hash

definition table_hash2_lookup :: "fheap \<Rightarrow> sw_table_hash2 \<Rightarrow> sw_flow_key \<Rightarrow> addr option" where
  "table_hash2_lookup h t2 k =
    (case table_hash_lookup h (subtable0 t2) k of
       Some a \<Rightarrow> Some a
     | None \<Rightarrow> table_hash_lookup h (subtable1 t2) k)"

definition table_hash2_insert :: "fheap \<Rightarrow> sw_table_hash2 \<Rightarrow> addr \<Rightarrow> bool \<times> fheap \<times> sw_table_hash2" where
  "table_hash2_insert h t2 a =
    (let (ok, h, th) = table_hash_insert h (subtable0 t2) a; t2 = t2\<lparr> subtable0 := th \<rparr> in
     if ok then (True, h, t2)
     else (let (ok, h, th) = table_hash_insert h (subtable1 t2) a in (ok, h, t2\<lparr> subtable1 := th \<rparr>)))"

definition table_hash2_modify :: "(addr \<Rightarrow> bool) \<Rightarrow> fheap \<Rightarrow> sw_table_hash2 \<Rightarrow> sw_flow_key \<Rightarrow> u16 \<Rightarrow> bool
    \<Rightarrow> u8 list \<Rightarrow> u32 \<times> fheap" where
  "table_hash2_modify ok h t2 k prio strict acts =
    (let (m, h) = table_hash_modify ok h (subtable0 t2) k prio strict acts;
         (n, h) = table_hash_modify ok h (subtable1 t2) k prio strict acts
     in (m + n, h))"

definition table_hash2_delete :: "fheap \<Rightarrow> sw_table_hash2 \<Rightarrow> sw_flow_key \<Rightarrow> u16 \<Rightarrow> u16 \<Rightarrow> bool
    \<Rightarrow> (u32 \<times> fheap \<times> sw_table_hash2) option" where
  "table_hash2_delete h t2 k out_port prio strict =
    (case table_hash_delete h (subtable0 t2) k out_port prio strict of
       None \<Rightarrow> None
     | Some (m, h, th0) \<Rightarrow>
         (case table_hash_delete h (subtable1 t2) k out_port prio strict of
            None \<Rightarrow> None
          | Some (n, h, th1) \<Rightarrow> Some (m + n, h, t2\<lparr> subtable0 := th0, subtable1 := th1 \<rparr>)))"

definition table_hash2_timeout :: "int \<Rightarrow> fheap \<Rightarrow> sw_table_hash2 \<Rightarrow> addr list
    \<Rightarrow> fheap \<times> sw_table_hash2 \<times> addr list" where
  "table_hash2_timeout now h t2 deleted =
    (let (h, th0, deleted) = table_hash_timeout now h (subtable0 t2) deleted;
         (h, th1, deleted) = table_hash_timeout now h (subtable1 t2) deleted
     in (h, t2\<lparr> subtable0 := th0, subtable1 := th1 \<rparr>, deleted))"

definition table_hash2_destroy :: "fheap \<Rightarrow> sw_table_hash2 \<Rightarrow> fheap" where
  "table_hash2_destroy h t2 = table_hash_destroy (table_hash_destroy h (subtable0 t2)) (subtable1 t2)"

text \<open>Iteration runs over the subtables from \<open>position->private[1]\<close> on.\<close>

fun t2_iterate_loop :: "fheap \<Rightarrow> sw_table_hash list \<Rightarrow> sw_flow_key \<Rightarrow> u16 \<Rightarrow> (sw_flow \<Rightarrow> 'p \<Rightarrow> int \<times> 'p)
    \<Rightarrow> u64 \<times> u64 \<Rightarrow> 'p \<Rightarrow> (int \<times> (u64 \<times> u64) \<times> 'p) option" where
  "t2_iterate_loop h [] k out_port callback pos p = Some (0, pos, p)"
| "t2_iterate_loop h (th # ths) k out_port callback (pos0, pos1) p =
    (case table_hash_iterate h th k out_port callback pos0 p of
       None \<Rightarrow> None
     | Some (error, pos0, p) \<Rightarrow>
         if error \<noteq> 0 then Some (error, (pos0, pos1), p)
         else t2_iterate_loop h ths k out_port callback (0, pos1 + 1) p)"

definition table_hash2_iterate :: "fheap \<Rightarrow> sw_table_hash2 \<Rightarrow> sw_flow_key \<Rightarrow> u16
    \<Rightarrow> (sw_flow \<Rightarrow> 'p \<Rightarrow> int \<times> 'p) \<Rightarrow> u64 \<times> u64 \<Rightarrow> 'p \<Rightarrow> (int \<times> (u64 \<times> u64) \<times> 'p) option" where
  "table_hash2_iterate h t2 k out_port callback pos p =
    t2_iterate_loop h (drop (unat (snd pos)) [subtable0 t2, subtable1 t2]) k out_port callback pos p"

definition table_hash2_stats :: "sw_table_hash2 \<Rightarrow> sw_table_stats" where
  "table_hash2_stats t2 =
    (let s0 = table_hash_stats (subtable0 t2); s1 = table_hash_stats (subtable1 t2) in
     \<lparr> st_name = ''hash2'', st_wildcards = 0, st_n_flows = st_n_flows s0 + st_n_flows s1,
       st_max_flows = st_max_flows s0 + st_max_flows s1,
       st_n_lookup = n_lookup (t2_swt t2), st_n_matched = n_matched (t2_swt t2) \<rparr>)"

definition table_hash2_create :: "u32 \<Rightarrow> u32 \<Rightarrow> u32 \<Rightarrow> u32 \<Rightarrow> sw_table_hash2 option" where
  "table_hash2_create poly0 buckets0 poly1 buckets1 =
    (case (table_hash_create poly0 buckets0, table_hash_create poly1 buckets1) of
       (Some th0, Some th1) \<Rightarrow>
         Some \<lparr> t2_swt = \<lparr> n_lookup = 0, n_matched = 0 \<rparr>, subtable0 = th0, subtable1 = th1 \<rparr>
     | _ \<Rightarrow> None)"



section \<open>The invariant of a hash table\<close>

definition hash_flows :: "sw_table_hash \<Rightarrow> addr set" where
  "hash_flows th = {a. Some a \<in> set (buckets th)}"

text \<open>An entry sits in the bucket of its key, is allocated and has an exact key.\<close>

definition bucket_ok :: "fheap \<Rightarrow> sw_table_hash \<Rightarrow> nat \<Rightarrow> addr \<Rightarrow> bool" where
  "bucket_ok h th i a \<longleftrightarrow> a \<in> dom h \<and> wildcards (key (fl h a)) = 0 \<and> key_wf (key (fl h a)) \<and>
     find_bucket th (key (fl h a)) = i"

definition hash_shape :: "fheap \<Rightarrow> sw_table_hash \<Rightarrow> bool" where
  "hash_shape h th \<longleftrightarrow> length (buckets th) = Suc (unat (bucket_mask th)) \<and> bucket_mask th \<noteq> - 1 \<and>
     (\<forall>i < length (buckets th). \<forall>a. buckets th ! i = Some a \<longrightarrow> bucket_ok h th i a)"

definition hash_inv :: "fheap \<Rightarrow> sw_table_hash \<Rightarrow> bool" where
  "hash_inv h th \<longleftrightarrow> hash_shape h th \<and> unat (th_n_flows th) = card (hash_flows th)"

lemma find_bucket_cong:
  "crc32 th' = crc32 th \<Longrightarrow> bucket_mask th' = bucket_mask th \<Longrightarrow> find_bucket th' k = find_bucket th k"
  by (simp add: find_bucket_def)

lemma find_bucket_less: "hash_shape h th \<Longrightarrow> find_bucket th k < length (buckets th)"
  using unat_and_le by (simp add: hash_shape_def find_bucket_def less_Suc_eq_le)

lemma finite_hash_flows [simp]: "finite (hash_flows th)"
proof -
  have "hash_flows th \<subseteq> the ` set (buckets th)" by (force simp: hash_flows_def)
  then show ?thesis by (rule finite_subset) simp
qed

lemma hash_flows_iff: "a \<in> hash_flows th \<longleftrightarrow> (\<exists>i < length (buckets th). buckets th ! i = Some a)"
  by (auto simp: hash_flows_def in_set_conv_nth)

lemma hash_shape_bucket:
  "hash_shape h th \<Longrightarrow> i < length (buckets th) \<Longrightarrow> buckets th ! i = Some a \<Longrightarrow> bucket_ok h th i a"
  by (simp add: hash_shape_def)

lemma hash_flows_bucket:
  "hash_shape h th \<Longrightarrow> a \<in> hash_flows th \<Longrightarrow>
     buckets th ! find_bucket th (key (fl h a)) = Some a \<and> bucket_ok h th (find_bucket th (key (fl h a))) a"
  by (auto simp: hash_flows_iff hash_shape_def bucket_ok_def)

lemma hash_bucket_unique:
  "hash_shape h th \<Longrightarrow> i < length (buckets th) \<Longrightarrow> j < length (buckets th) \<Longrightarrow>
   buckets th ! i = Some a \<Longrightarrow> buckets th ! j = Some a \<Longrightarrow> i = j"
  by (simp add: hash_shape_def bucket_ok_def) metis

lemma hash_inv_cong:
  assumes "hash_inv h th" and "\<And>a. a \<in> hash_flows th \<Longrightarrow> a \<in> dom h' \<and> same_entry (fl h' a) (fl h a)"
  shows "hash_inv h' th"
  using assms by (fastforce simp: hash_inv_def hash_shape_def bucket_ok_def same_entry_def hash_flows_iff)

lemma table_hash_create_inv:
  assumes "table_hash_create poly n = Some th" and "n \<noteq> 0"
  shows "hash_inv h th"
proof -
  have th: "bucket_mask th = n - 1" "buckets th = replicate (unat n) None" "th_n_flows th = 0"
    using assms(1) by (auto simp: table_hash_create_def split: if_splits)
  have "unat (n - 1) = unat n - 1" "0 < unat n"
    using assms(2) by (simp_all add: unat_minus_one unat_gt_0)
  moreover have "n - 1 \<noteq> - 1" using assms(2) by (metis add.inverse_neutral add_diff_cancel_right' diff_0 diff_add_cancel)
  moreover have "hash_flows th = {}" by (simp add: hash_flows_def th)
  ultimately show ?thesis by (simp add: hash_inv_def hash_shape_def th)
qed

text \<open>Overwriting one bucket.\<close>

lemma hash_flows_fill:
  assumes inv: "hash_shape h th" and i: "i < length (buckets th)" and bs: "buckets th' = (buckets th)[i := b]"
  shows "hash_flows th' = set_option b \<union> (hash_flows th - set_option (buckets th ! i))"
proof -
  have "a \<in> hash_flows th' \<longleftrightarrow> (\<exists>j < length (buckets th). (if j = i then b else buckets th ! j) = Some a)" for a
    using i by (auto simp: hash_flows_iff bs nth_list_update)
  then show ?thesis
    using i hash_bucket_unique [OF inv] by (auto simp: set_eq_iff hash_flows_iff split: if_splits) metis+
qed

lemma hash_shape_fill:
  assumes inv: "hash_shape h th" and i: "i < length (buckets th)"
    and th': "buckets th' = (buckets th)[i := b]" "crc32 th' = crc32 th" "bucket_mask th' = bucket_mask th"
    and b: "\<And>a. b = Some a \<Longrightarrow> bucket_ok h' th i a"
    and h': "\<And>a. a \<in> hash_flows th - set_option (buckets th ! i) \<Longrightarrow> a \<in> dom h' \<and> same_entry (fl h' a) (fl h a)"
  shows "hash_shape h' th'"
proof -
  have ok: "bucket_ok h' th' j a \<longleftrightarrow> bucket_ok h' th j a" for j a
    using find_bucket_cong [OF th'(2,3)] by (simp add: bucket_ok_def)
  have "bucket_ok h' th' j a" if "j < length (buckets th')" "buckets th' ! j = Some a" for j a
  proof (cases "j = i")
    case True
    then show ?thesis using that b i by (simp add: ok th')
  next
    case False
    then have j: "j < length (buckets th)" "buckets th ! j = Some a" using that by (simp_all add: th')
    then have "a \<in> hash_flows th - set_option (buckets th ! i)"
      using False i hash_bucket_unique [OF inv] by (auto simp: hash_flows_iff)
    with h' have "a \<in> dom h'" "same_entry (fl h' a) (fl h a)" by auto
    then show ?thesis unfolding ok using hash_shape_bucket [OF inv j] by (simp add: bucket_ok_def same_entry_def)
  qed
  with inv show ?thesis by (simp add: hash_shape_def th')
qed

text \<open>An empty bucket leaves room in the counter.\<close>

lemma card_hash_flows_less:
  assumes "hash_shape h th" "i < length (buckets th)" "buckets th ! i = None"
  shows "card (hash_flows th) < 4294967295"
proof -
  have "hash_flows th \<subseteq> the ` (set (buckets th) - {None})" by (force simp: hash_flows_def)
  then have "card (hash_flows th) \<le> card (set (buckets th) - {None})"
    by (metis card_image_le card_mono finite_Diff finite_imageI finite_set le_trans)
  also have "\<dots> < card (set (buckets th))"
    using assms(2,3) by (metis List.finite_set card_Diff1_less nth_mem)
  also have "\<dots> \<le> length (buckets th)" by (rule card_length)
  also have "\<dots> \<le> 4294967295"
  proof -
    have "bucket_mask th \<noteq> - 1" using assms(1) by (simp add: hash_shape_def)
    then have "unat (bucket_mask th) \<noteq> unat (- 1 :: u32)" by (simp only: word_unat_eq_iff not_False_eq_True)
    then show ?thesis
      using assms(1) unat_u32_less [of "bucket_mask th"] by (simp add: hash_shape_def unat_minus_1_u32)
  qed
  finally show ?thesis .
qed


section \<open>The operations of a hash table\<close>

lemma hash_lookup_sound:
  assumes "hash_inv h th" "table_hash_lookup h th k = Some a"
  shows "a \<in> hash_flows th \<and> key_flow (key (fl h a)) = key_flow k"
  using assms find_bucket_less [of h th k]
  by (auto simp: table_hash_lookup_def hash_flows_iff hash_inv_def split: option.splits if_splits)

lemma hash_lookup_complete:
  assumes "hash_inv h th" "table_hash_lookup h th k = None" "a \<in> hash_flows th"
  shows "key_flow (key (fl h a)) \<noteq> key_flow k"
proof
  assume eq: "key_flow (key (fl h a)) = key_flow k"
  then have "find_bucket th k = find_bucket th (key (fl h a))" by (simp add: find_bucket_def)
  with assms eq hash_flows_bucket [of h th a] show False
    by (auto simp: table_hash_lookup_def hash_inv_def)
qed

lemma hash_lookup_iff:
  "hash_inv h th \<Longrightarrow> a \<in> hash_flows th \<Longrightarrow> table_hash_lookup h th k = Some a \<longleftrightarrow> key_flow (key (fl h a)) = key_flow k"
  using hash_lookup_sound [of h th k a] hash_flows_bucket [of h th a]
  by (auto simp: hash_inv_def table_hash_lookup_def find_bucket_def)


text \<open>The outcomes of an insertion.\<close>

lemma table_hash_insert_cases:
  obtains (added) i where "wildcards (key (fl h a)) = 0" "i = find_bucket th (key (fl h a))" "buckets th ! i = None"
      "table_hash_insert h th a =
        (True, h, th\<lparr> th_n_flows := th_n_flows th + 1, buckets := (buckets th)[i := Some a] \<rparr>)"
    | (replaced) i old where "wildcards (key (fl h a)) = 0" "i = find_bucket th (key (fl h a))"
      "buckets th ! i = Some old" "key_flow (key (fl h old)) = key_flow (key (fl h a))"
      "table_hash_insert h th a = (True, flow_free old h, th\<lparr> buckets := (buckets th)[i := Some a] \<rparr>)"
    | (refused) "table_hash_insert h th a = (False, h, th)"
  by (cases "buckets th ! find_bucket th (key (fl h a))")
    (fastforce simp: table_hash_insert_def Let_def split: if_splits)+

lemma hash_insert_refused: "table_hash_insert h th a = (False, h', th') \<Longrightarrow> h' = h \<and> th' = th"
  by (cases h a th rule: table_hash_insert_cases) auto

lemma hash_insert_flows:
  assumes inv: "hash_inv h th" and ins: "table_hash_insert h th a = (True, h', th')"
  shows "\<exists>D. D \<subseteq> hash_flows th \<and> hash_flows th' = insert a (hash_flows th - D) \<and> h' = h |` (- D)"
proof -
  have shape: "hash_shape h th" using inv by (simp add: hash_inv_def)
  note less = find_bucket_less [OF shape, of "key (fl h a)"]
  show ?thesis
  proof (cases h a th rule: table_hash_insert_cases)
    case (added i)
    then have "hash_flows th' = insert a (hash_flows th - {})"
      using ins less hash_flows_fill [OF shape, of i th' "Some a"] by auto
    moreover have "h' = h |` (- {})" using added(4) ins by (simp add: restrict_map_def)
    ultimately show ?thesis by blast
  next
    case (replaced i old)
    then have "hash_flows th' = insert a (hash_flows th - {old})"
      using ins less hash_flows_fill [OF shape, of i th' "Some a"] by auto
    moreover have "h' = h |` (- {old})" using replaced(5) ins by (auto simp: flow_free_def restrict_map_def)
    moreover have "old \<in> hash_flows th" using replaced(2,3) less by (auto simp: hash_flows_iff)
    ultimately show ?thesis by blast
  next
    case refused
    with ins show ?thesis by simp
  qed
qed

lemma hash_insert_inv:
  assumes inv: "hash_inv h th" and a: "a \<in> dom h" "a \<notin> hash_flows th" "key_wf (key (fl h a))"
    and ins: "table_hash_insert h th a = (True, h', th')"
  shows "hash_inv h' th'"
proof -
  have shape: "hash_shape h th" and n: "unat (th_n_flows th) = card (hash_flows th)"
    using inv by (simp_all add: hash_inv_def)
  note less = find_bucket_less [OF shape, of "key (fl h a)"]
  show ?thesis
  proof (cases h a th rule: table_hash_insert_cases)
    case (added i)
    have "hash_shape h' th'"
      using added ins less a shape hash_flows_bucket [OF shape]
      by (intro hash_shape_fill [OF shape, of i]) (auto simp: bucket_ok_def same_entry_def)
    moreover have "hash_flows th' = insert a (hash_flows th)"
      using added ins less hash_flows_fill [OF shape, of i th' "Some a"] by auto
    moreover have "card (hash_flows th) < 4294967295"
      using card_hash_flows_less [OF shape _ added(3)] less added(2) by simp
    ultimately show ?thesis using n a(2) added(4) ins by (auto simp: hash_inv_def unat_add_u32)
  next
    case (replaced i old)
    have old: "old \<in> hash_flows th" using replaced(2,3) less by (auto simp: hash_flows_iff)
    then have ne: "old \<noteq> a" using a(2) by auto
    have "hash_shape h' th'"
      using replaced ins less a ne shape hash_flows_bucket [OF shape]
      by (intro hash_shape_fill [OF shape, of i]) (auto simp: bucket_ok_def same_entry_def flow_free_def fl_def)
    moreover have "hash_flows th' = insert a (hash_flows th - {old})"
      using replaced ins less hash_flows_fill [OF shape, of i th' "Some a"] by auto
    moreover have "0 < card (hash_flows th)" using old by (auto simp: card_gt_0_iff)
    ultimately show ?thesis using n a(2) old replaced(5) ins by (auto simp: hash_inv_def card_Diff_singleton)
  next
    case refused
    with ins show ?thesis by simp
  qed
qed


lemma th_modify_loop_heap:
  "th_modify_loop ok k prio strict acts bs c h = (n, h') \<Longrightarrow> distinct (filter (\<lambda>b. b \<noteq> None) bs) \<Longrightarrow>
   h' a = (if Some a \<in> set bs \<and> th_modify_hit h k prio strict a
     then Some (flow_replace_acts (ok a) acts (fl h a)) else h a)"
proof (induction bs arbitrary: c h)
  case (Cons b bs)
  show ?case
  proof (cases b)
    case None
    with Cons show ?thesis by simp
  next
    case (Some x)
    let ?h = "if th_modify_hit h k prio strict x then h(x \<mapsto> flow_replace_acts (ok x) acts (fl h x)) else h"
    obtain c' where "th_modify_loop ok k prio strict acts bs c' ?h = (n, h')"
      using Cons.prems(1) Some by (auto split: if_splits)
    then have "h' a = (if Some a \<in> set bs \<and> th_modify_hit ?h k prio strict a
        then Some (flow_replace_acts (ok a) acts (fl ?h a)) else ?h a)"
      using Cons Some by simp
    moreover have "fl ?h a = fl h a" "th_modify_hit ?h k prio strict a = th_modify_hit h k prio strict a" if "a \<noteq> x"
      using that by (simp_all add: th_modify_hit_def)
    ultimately show ?thesis using Cons.prems(2) Some by (cases "a = x") auto
  qed
qed simp

lemma map_bucket_range: "hash_shape h th \<Longrightarrow> map (\<lambda>i. buckets th ! i) (bucket_range th) = buckets th"
  by (metis bucket_range_def hash_shape_def map_nth)

lemma distinct_buckets:
  assumes "hash_shape h th"
  shows "distinct (filter (\<lambda>b. b \<noteq> None) (buckets th))"
proof -
  have "distinct (filter (\<lambda>b. b \<noteq> None) bs)"
    if "\<And>i j a. i < length bs \<Longrightarrow> j < length bs \<Longrightarrow> bs ! i = Some a \<Longrightarrow> bs ! j = Some a \<Longrightarrow> i = j" for bs :: "addr option list"
    using that
  proof (induction bs)
    case (Cons b bs)
    have "b \<notin> set bs" if "b \<noteq> None"
    proof
      assume "b \<in> set bs"
      then obtain j where "j < length bs" "bs ! j = b" by (auto simp: in_set_conv_nth)
      with that Cons.prems [of 0 "Suc j"] show False by auto
    qed
    moreover have "i = j" if "i < length bs" "j < length bs" "bs ! i = Some a" "bs ! j = Some a" for i j a
      using Cons.prems [of "Suc i" "Suc j" a] that by simp
    ultimately show ?case using Cons.IH by auto
  qed simp
  with hash_bucket_unique [OF assms] show ?thesis by blast
qed

text \<open>With an exact description only the entry in its bucket can match.\<close>

lemma exact_desc:
  assumes "hash_shape h th" "key_wf k" "wildcards k = 0" "a \<in> hash_flows th"
  shows "sel_desc h k strict a \<longleftrightarrow> key_flow (key (fl h a)) = key_flow k"
proof -
  have "key_wf (key (fl h a))" "wildcards (key (fl h a)) = 0"
    using hash_flows_bucket [OF assms(1,4)] by (simp_all add: bucket_ok_def)
  then show ?thesis
    using assms(2,3) matches_1wild_exact [of k "key (fl h a)"]
    by (simp add: sel_desc_def flow_matches_desc_def key_wf_def)
qed

lemma exact_desc_bucket:
  "hash_shape h th \<Longrightarrow> key_wf k \<Longrightarrow> wildcards k = 0 \<Longrightarrow> a \<in> hash_flows th \<Longrightarrow> sel_desc h k strict a \<Longrightarrow>
   buckets th ! find_bucket th k = Some a"
  using hash_flows_bucket [of h th a] exact_desc [of h th k a strict] by (simp add: find_bucket_def)

lemma hash_modify_heap:
  assumes inv: "hash_inv h th" and k: "key_wf k" and mod: "table_hash_modify ok h th k prio strict acts = (n, h')"
  shows "h' a = (if a \<in> hash_flows th \<and> sel_desc h k strict a \<and> sel_prio h prio strict a
    then Some (flow_replace_acts (ok a) acts (fl h a)) else h a)"
proof -
  have shape: "hash_shape h th" using inv by (simp add: hash_inv_def)
  have hit: "th_modify_hit h k prio strict a \<longleftrightarrow> sel_desc h k strict a \<and> sel_prio h prio strict a" for a
    by (simp add: th_modify_hit_def sel_desc_def sel_prio_def)
  show ?thesis
  proof (cases "wildcards k = 0")
    case True
    note bucket = exact_desc_bucket [OF shape k True]
    show ?thesis
    proof (cases "buckets th ! find_bucket th k")
      case None
      then have "\<not> (a \<in> hash_flows th \<and> sel_desc h k strict a)" using bucket by force
      then show ?thesis using mod True None by (auto simp: table_hash_modify_def)
    next
      case (Some x)
      have "x \<in> hash_flows th" using Some find_bucket_less [OF shape, of k] by (auto simp: hash_flows_iff)
      moreover have "a \<noteq> x \<Longrightarrow> \<not> (a \<in> hash_flows th \<and> sel_desc h k strict a)" using bucket [of a] Some by auto
      moreover have "h' = (if sel_desc h k strict x \<and> sel_prio h prio strict x
          then h(x \<mapsto> flow_replace_acts (ok x) acts (fl h x)) else h)"
        using mod True Some by (auto simp: table_hash_modify_def hit split: if_splits)
      ultimately show ?thesis by (cases "a = x") auto
    qed
  next
    case False
    then have "th_modify_loop ok k prio strict acts (buckets th) 0 h = (n, h')"
      using mod by (simp add: table_hash_modify_def map_bucket_range [OF shape])
    from th_modify_loop_heap [OF this distinct_buckets [OF shape], of a] show ?thesis
      by (simp add: hash_flows_def hit)
  qed
qed


text \<open>The entries a deletion or an expiry sweep takes out of the buckets \<open>is\<close>.\<close>

definition th_hits :: "sw_table_hash \<Rightarrow> (addr \<Rightarrow> bool) \<Rightarrow> nat list \<Rightarrow> addr set" where
  "th_hits th P is = {a. (\<exists>i \<in> set is. buckets th ! i = Some a) \<and> P a}"

lemma th_hits_Nil [simp]: "th_hits th P [] = {}"
  by (simp add: th_hits_def)

lemma th_hits_skip:
  "buckets th ! i = None \<Longrightarrow> th_hits th P (i # is) = th_hits th P is"
  "buckets th ! i = Some a \<Longrightarrow> \<not> P a \<Longrightarrow> th_hits th P (i # is) = th_hits th P is"
  by (auto simp: th_hits_def)

lemma th_hits_take:
  assumes shape: "hash_shape h th" and i: "i < length (buckets th)" "i \<notin> set is" "\<forall>j \<in> set is. j < length (buckets th)"
    and a: "buckets th ! i = Some a" "P a" and th': "buckets th' = (buckets th)[i := None]"
    and Q: "\<And>b. b \<noteq> a \<Longrightarrow> Q b = P b"
  shows "th_hits th P (i # is) = insert a (th_hits th' Q is)" and "a \<notin> th_hits th' Q is"
proof -
  have other: "buckets th' ! j = buckets th ! j \<and> buckets th ! j \<noteq> Some a" if "j \<in> set is" for j
  proof -
    have "j \<noteq> i" using that i(2) by auto
    then show ?thesis using that i a(1) hash_bucket_unique [OF shape, of i j a] by (auto simp: th')
  qed
  then show "a \<notin> th_hits th' Q is" by (auto simp: th_hits_def)
  have "b \<in> th_hits th' Q is \<longleftrightarrow> b \<noteq> a \<and> b \<in> th_hits th P is" for b
    using other Q [of b] by (auto simp: th_hits_def)
  moreover have "b \<in> th_hits th P (i # is) \<longleftrightarrow> b = a \<or> b \<in> th_hits th P is" for b
    using a by (auto simp: th_hits_def)
  ultimately show "th_hits th P (i # is) = insert a (th_hits th' Q is)" by blast
qed

lemma finite_th_hits [simp]: "finite (th_hits th P is)"
proof -
  have "th_hits th P is \<subseteq> (\<lambda>i. the (buckets th ! i)) ` set is" by (force simp: th_hits_def)
  then show ?thesis by (rule finite_subset) simp
qed

definition th_delete_hit :: "fheap \<Rightarrow> sw_flow_key \<Rightarrow> u16 \<Rightarrow> bool \<Rightarrow> addr \<Rightarrow> bool" where
  "th_delete_hit h k out_port strict a \<longleftrightarrow> sel_desc h k strict a \<and> has_out_port (fl h a) out_port"

text \<open>What a sweep leaves: the table without the entries \<open>D\<close>, over the store \<open>h'\<close>.\<close>

definition swept :: "sw_table_hash \<Rightarrow> addr set \<Rightarrow> fheap \<Rightarrow> sw_table_hash \<Rightarrow> bool" where
  "swept th D h' th' \<longleftrightarrow> hash_shape h' th' \<and> hash_flows th' = hash_flows th - D \<and>
     crc32 th' = crc32 th \<and> bucket_mask th' = bucket_mask th"

lemma swept_step:
  assumes shape: "hash_shape h th" and i: "i < length (buckets th)" "buckets th ! i = Some a"
    and th1: "buckets th1 = (buckets th)[i := None]" "crc32 th1 = crc32 th" "bucket_mask th1 = bucket_mask th"
    and h1: "\<And>b. b \<noteq> a \<Longrightarrow> h1 b = h b"
  shows "hash_shape h1 th1" and "hash_flows th1 = hash_flows th - {a}"
proof -
  show "hash_flows th1 = hash_flows th - {a}" using hash_flows_fill [OF shape i(1) th1(1)] i(2) by simp
  have "b \<in> dom h" if "b \<in> hash_flows th" for b
    using hash_flows_bucket [OF shape that] by (simp add: bucket_ok_def)
  then show "hash_shape h1 th1"
    using i h1 by (intro hash_shape_fill [OF shape i(1) th1]) (auto simp: same_entry_def fl_def domIff)
qed

lemma th_delete_loop_result:
  assumes "hash_shape h th" "\<And>a. a \<in> hash_flows th \<Longrightarrow> acts_ok (sf_acts (fl h a))"
    "distinct is" "\<forall>i \<in> set is. i < length (buckets th)"
  shows "\<exists>th'. (let D = th_hits th (th_delete_hit h k out_port strict) is in
    th_delete_loop k out_port strict is c h th = Some (c + of_nat (card D), h |` (- D), th') \<and>
    swept th D (h |` (- D)) th' \<and> th_n_flows th' = th_n_flows th)"
  using assms
proof (induction "is" arbitrary: c h th)
  case Nil
  then show ?case by (simp add: swept_def restrict_map_def)
next
  case (Cons i "is")
  let ?P = "th_delete_hit h k out_port strict"
  show ?case
  proof (cases "buckets th ! i")
    case None
    with Cons show ?thesis by (simp add: th_hits_skip)
  next
    case (Some a)
    have i: "i < length (buckets th)" "i \<notin> set is" "\<forall>j \<in> set is. j < length (buckets th)" using Cons.prems by auto
    have "a \<in> hash_flows th" using Some i(1) by (auto simp: hash_flows_iff)
    then have port: "flow_has_out_port (fl h a) out_port = Some (has_out_port (fl h a) out_port)"
      using Cons.prems(2) by (simp add: flow_has_out_port_ok)
    show ?thesis
    proof (cases "?P a")
      case False
      with Cons Some port show ?thesis
        by (auto simp: th_hits_skip(2) th_delete_hit_def sel_desc_def)
    next
      case True
      let ?th = "th\<lparr> buckets := (buckets th)[i := None] \<rparr>" and ?h = "flow_free a h"
      let ?Q = "th_delete_hit ?h k out_port strict"
      have sw: "hash_shape ?h ?th" "hash_flows ?th = hash_flows th - {a}"
        by (rule swept_step [OF Cons.prems(1) i(1) Some]; simp)+
      have Q: "?Q b = ?P b" if "b \<noteq> a" for b using that by (simp add: th_delete_hit_def sel_desc_def)
      have hits: "th_hits th ?P (i # is) = insert a (th_hits ?th ?Q is)" "a \<notin> th_hits ?th ?Q is"
        by (rule th_hits_take [where P = ?P and Q = ?Q, OF Cons.prems(1) i Some True _ Q]; simp)+
      have ok: "acts_ok (sf_acts (fl ?h b))" if "b \<in> hash_flows ?th" for b
        using that sw(2) Cons.prems(2) by auto
      have step: "th_delete_loop k out_port strict (i # is) c h th = th_delete_loop k out_port strict is (c + 1) ?h ?th"
        using True port Some by (simp add: th_delete_hit_def sel_desc_def th_do_delete_def)
      from Cons.IH [OF sw(1) ok, of "c + 1"] i(3) Cons.prems(3) obtain th' where
        "th_delete_loop k out_port strict is (c + 1) ?h ?th =
           Some (c + 1 + of_nat (card (th_hits ?th ?Q is)), ?h |` (- th_hits ?th ?Q is), th')"
        "swept ?th (th_hits ?th ?Q is) (?h |` (- th_hits ?th ?Q is)) th'" "th_n_flows th' = th_n_flows th"
        by (auto simp: Let_def)
      then show ?thesis
        unfolding step hits(1) using hits(2) sw(2)
        by (intro exI [of _ th']) (auto simp: Let_def restrict_flow_free swept_def)
    qed
  qed
qed


lemma th_hits_range:
  assumes "hash_shape h th"
  shows "th_hits th P (bucket_range th) = {a \<in> hash_flows th. P a}"
proof -
  have "set (bucket_range th) = {..<length (buckets th)}" using assms by (auto simp: bucket_range_def hash_shape_def)
  then show ?thesis by (auto simp: th_hits_def hash_flows_iff)
qed

lemma bucket_range_ok:
  "hash_shape h th \<Longrightarrow> distinct (bucket_range th) \<and> (\<forall>i \<in> set (bucket_range th). i < length (buckets th))"
  by (simp add: bucket_range_def hash_shape_def)

text \<open>The counter follows a sweep.\<close>

lemma swept_inv:
  assumes inv: "hash_inv h th" and sw: "swept th D h' th'" and D: "D \<subseteq> hash_flows th"
    and n: "th_n_flows th'' = th_n_flows th - of_nat (card D)"
    and th'': "buckets th'' = buckets th'" "crc32 th'' = crc32 th'" "bucket_mask th'' = bucket_mask th'"
  shows "hash_inv h' th''" and "hash_flows th'' = hash_flows th - D"
proof -
  have flows: "hash_flows th'' = hash_flows th'" by (simp add: hash_flows_def th'')
  then show fl: "hash_flows th'' = hash_flows th - D" using sw by (simp add: swept_def)
  have "card D \<le> card (hash_flows th)" using D by (simp add: card_mono)
  then have "unat (th_n_flows th'') = card (hash_flows th) - card D"
    using inv by (simp add: n hash_inv_def unat_sub_of_nat)
  also have "\<dots> = card (hash_flows th'')" using D by (simp add: fl card_Diff_subset finite_subset)
  finally have "unat (th_n_flows th'') = card (hash_flows th'')" .
  moreover have "hash_shape h' th''"
    using sw find_bucket_cong [OF th''(2,3)] by (auto simp: swept_def hash_shape_def bucket_ok_def th'')
  ultimately show "hash_inv h' th''" by (simp add: hash_inv_def)
qed

lemma hash_delete_exact:
  assumes inv: "hash_inv h th" and valid: "acts_valid h" and k: "key_wf k" "wildcards k = 0"
  shows "\<exists>th'. (let D = {a \<in> hash_flows th. th_delete_hit h k out_port strict a} in
    table_hash_delete h th k out_port prio strict = Some (of_nat (card D), h |` (- D), th') \<and>
    hash_inv (h |` (- D)) th' \<and> hash_flows th' = hash_flows th - D)"
proof -
  have shape: "hash_shape h th" using inv by (simp add: hash_inv_def)
  let ?D = "{a \<in> hash_flows th. th_delete_hit h k out_port strict a}"
  let ?i = "find_bucket th k"
  have D: "?D = {a. buckets th ! ?i = Some a \<and> key_flow (key (fl h a)) = key_flow k \<and> has_out_port (fl h a) out_port}"
    using exact_desc [OF shape k, of _ strict] exact_desc_bucket [OF shape k, of _ strict] find_bucket_less [OF shape, of k]
    by (auto simp: th_delete_hit_def hash_flows_iff)
  show ?thesis
  proof (cases "\<exists>a. a \<in> ?D")
    case True
    then obtain a where a: "buckets th ! ?i = Some a" "key_flow (key (fl h a)) = key_flow k" "has_out_port (fl h a) out_port"
      unfolding D by blast
    then have Da: "?D = {a}" unfolding D by auto
    have af: "a \<in> hash_flows th" using a(1) find_bucket_less [OF shape, of k] by (auto simp: hash_flows_iff)
    then have "acts_ok (sf_acts (fl h a))"
      using valid hash_flows_bucket [OF shape] by (simp add: acts_valid_def bucket_ok_def)
    then have del: "table_hash_delete h th k out_port prio strict =
      Some (1, flow_free a h, th\<lparr> buckets := (buckets th)[?i := None], th_n_flows := th_n_flows th - 1 \<rparr>)"
      using a k(2) by (simp add: table_hash_delete_def flow_has_out_port_ok th_do_delete_def)
    let ?th = "th\<lparr> buckets := (buckets th)[?i := None] \<rparr>"
    have "swept th {a} (flow_free a h) ?th"
      unfolding swept_def by (intro conjI swept_step [OF shape find_bucket_less [OF shape] a(1)]) simp_all
    from swept_inv [OF inv this, of "th\<lparr> buckets := (buckets th)[?i := None], th_n_flows := th_n_flows th - 1 \<rparr>"] af
    show ?thesis
      unfolding Let_def Da restrict_single by (intro exI conjI) (simp_all add: del)
  next
    case False
    then have Da: "?D = {}" by blast
    have "table_hash_delete h th k out_port prio strict = Some (0, h, th)"
    proof (cases "buckets th ! ?i")
      case None
      then show ?thesis using k(2) by (simp add: table_hash_delete_def)
    next
      case (Some a)
      have "a \<in> hash_flows th" using Some find_bucket_less [OF shape, of k] by (auto simp: hash_flows_iff)
      then have "acts_ok (sf_acts (fl h a))"
        using valid hash_flows_bucket [OF shape] by (simp add: acts_valid_def bucket_ok_def)
      then show ?thesis
        using Some Da k(2) unfolding D by (auto simp: table_hash_delete_def flow_has_out_port_ok)
    qed
    then show ?thesis unfolding Let_def Da using inv by (simp add: restrict_map_def)
  qed
qed


lemma hash_delete_ok:
  assumes inv: "hash_inv h th" and valid: "acts_valid h" and k: "key_wf k"
  shows "\<exists>th'. (let D = {a \<in> hash_flows th. th_delete_hit h k out_port strict a} in
    table_hash_delete h th k out_port prio strict = Some (of_nat (card D), h |` (- D), th') \<and>
    hash_inv (h |` (- D)) th' \<and> hash_flows th' = hash_flows th - D)"
proof (cases "wildcards k = 0")
  case True
  then show ?thesis using hash_delete_exact [OF assms] by simp
next
  case False
  have shape: "hash_shape h th" using inv by (simp add: hash_inv_def)
  have ok: "acts_ok (sf_acts (fl h a))" if "a \<in> hash_flows th" for a
    using valid hash_flows_bucket [OF shape that] by (simp add: acts_valid_def bucket_ok_def)
  let ?D = "{a \<in> hash_flows th. th_delete_hit h k out_port strict a}"
  obtain th' where th': "th_delete_loop k out_port strict (bucket_range th) 0 h th =
      Some (of_nat (card ?D), h |` (- ?D), th')" "swept th ?D (h |` (- ?D)) th'" "th_n_flows th' = th_n_flows th"
    using th_delete_loop_result [OF shape ok, of "bucket_range th" k out_port strict 0] bucket_range_ok [OF shape]
    by (auto simp: Let_def th_hits_range [OF shape])
  let ?th = "th'\<lparr> th_n_flows := th_n_flows th' - of_nat (card ?D) \<rparr>"
  have "hash_inv (h |` (- ?D)) ?th" "hash_flows ?th = hash_flows th - ?D"
    by (rule swept_inv [OF inv th'(2)]; simp add: th'(3))+
  moreover have "table_hash_delete h th k out_port prio strict = Some (of_nat (card ?D), h |` (- ?D), ?th)"
    using False th'(1) by (simp add: table_hash_delete_def)
  ultimately show ?thesis unfolding Let_def by blast
qed

lemma th_timeout_loop_result:
  assumes "hash_shape h th" "distinct is" "\<forall>i \<in> set is. i < length (buckets th)"
  shows "\<exists>h' th' xs. th_timeout_loop now is h th ds = (h', th', ds @ xs) \<and> distinct xs \<and>
    set xs = th_hits th (\<lambda>a. expired now (fl h a)) is \<and> swept th (set xs) h' th' \<and>
    h' = (\<lambda>a. if a \<in> set xs then Some (snd (flow_timeout now (fl h a))) else h a) \<and>
    th_n_flows th' = th_n_flows th - of_nat (length xs)"
  using assms
proof (induction "is" arbitrary: h th ds)
  case Nil
  then show ?case by (simp add: swept_def)
next
  case (Cons i "is")
  let ?P = "\<lambda>a. expired now (fl h a)"
  show ?case
  proof (cases "buckets th ! i")
    case None
    with Cons show ?thesis by (simp add: th_hits_skip)
  next
    case (Some a)
    have i: "i < length (buckets th)" "i \<notin> set is" "\<forall>j \<in> set is. j < length (buckets th)" using Cons.prems by auto
    show ?thesis
    proof (cases "expired now (fl h a)")
      case False
      then have step: "th_timeout_loop now (i # is) h th ds = th_timeout_loop now is h th ds"
        using Some by (cases "flow_timeout now (fl h a)") (auto simp: expired_def)
      show ?thesis
        unfolding step using Cons th_hits_skip(2) [of th i a ?P "is", OF Some] False by simp
    next
      case True
      let ?f = "snd (flow_timeout now (fl h a))"
      let ?h = "h(a \<mapsto> ?f)" and ?th = "th\<lparr> buckets := (buckets th)[i := None], th_n_flows := th_n_flows th - 1 \<rparr>"
      let ?Q = "\<lambda>a. expired now (fl ?h a)"
      have step: "th_timeout_loop now (i # is) h th ds = th_timeout_loop now is ?h ?th (ds @ [a])"
        using Some True by (cases "flow_timeout now (fl h a)") (simp add: expired_def)
      have sw: "hash_shape ?h ?th" "hash_flows ?th = hash_flows th - {a}"
        by (rule swept_step [OF Cons.prems(1) i(1) Some]; simp)+
      have hits: "th_hits th ?P (i # is) = insert a (th_hits ?th ?Q is)" "a \<notin> th_hits ?th ?Q is"
        by (rule th_hits_take [where P = ?P and Q = ?Q, OF Cons.prems(1) i Some True]; simp)+
      have pre: "distinct is" "\<forall>j \<in> set is. j < length (buckets ?th)" using i(3) Cons.prems(2) by simp_all
      from Cons.IH [OF sw(1) pre, of "ds @ [a]"] obtain h' th' xs where
        IH: "th_timeout_loop now is ?h ?th (ds @ [a]) = (h', th', (ds @ [a]) @ xs)" "distinct xs"
          "set xs = th_hits ?th ?Q is" "swept ?th (set xs) h' th'"
          "h' = (\<lambda>b. if b \<in> set xs then Some (snd (flow_timeout now (fl ?h b))) else ?h b)"
          "th_n_flows th' = th_n_flows ?th - of_nat (length xs)"
        by blast
      have "swept th (set (a # xs)) h' th'" using IH(4) sw(2) by (auto simp: swept_def)
      moreover have "h' = (\<lambda>b. if b \<in> set (a # xs) then Some (snd (flow_timeout now (fl h b))) else h b)"
        using IH(3,5) hits(2) by (auto simp: fun_eq_iff)
      ultimately show ?thesis
        unfolding step using IH(1-3,6) hits
        by (intro exI [of _ h'] exI [of _ th'] exI [of _ "a # xs"]) simp
    qed
  qed
qed

lemma hash_timeout_ok:
  assumes inv: "hash_inv h th" and out: "table_hash_timeout now h th ds = (h', th', ds')"
  shows "hash_inv h' th' \<and> hash_flows th' = {a \<in> hash_flows th. \<not> expired now (fl h a)} \<and>
    (\<exists>xs. ds' = ds @ xs \<and> distinct xs \<and> set xs = {a \<in> hash_flows th. expired now (fl h a)} \<and>
      h' = (\<lambda>a. if a \<in> set xs then Some (snd (flow_timeout now (fl h a))) else h a))"
proof -
  have shape: "hash_shape h th" using inv by (simp add: hash_inv_def)
  from th_timeout_loop_result [OF shape, of "bucket_range th" now ds] bucket_range_ok [OF shape] out
  obtain xs where xs: "ds' = ds @ xs" "distinct xs" "set xs = {a \<in> hash_flows th. expired now (fl h a)}"
    "swept th (set xs) h' th'" "h' = (\<lambda>a. if a \<in> set xs then Some (snd (flow_timeout now (fl h a))) else h a)"
    "th_n_flows th' = th_n_flows th - of_nat (length xs)"
    by (auto simp: table_hash_timeout_def th_hits_range [OF shape])
  have "hash_inv h' th'" "hash_flows th' = hash_flows th - set xs"
    by (rule swept_inv [OF inv xs(4)]; simp add: xs(2,3,6) distinct_card [symmetric] del: distinct_card)+
  then show ?thesis using xs by auto
qed



section \<open>The contracts\<close>

lemma exact_matches:
  assumes "hash_shape h th" "a \<in> hash_flows th" "packet_key k"
  shows "flow_matches_1wild k (key (fl h a)) \<longleftrightarrow> key_flow (key (fl h a)) = key_flow k"
  using hash_flows_bucket [OF assms(1,2)] assms(3) matches_1wild_exact [of "key (fl h a)" k]
  by (auto simp: bucket_ok_def packet_key_def)

text \<open>The entry that the insertion of \<open>a\<close> replaces: the one with the same flow.\<close>

definition hash_dups :: "fheap \<Rightarrow> sw_table_hash \<Rightarrow> addr \<Rightarrow> addr set" where
  "hash_dups h th a = {b \<in> hash_flows th. key_flow (key (fl h b)) = key_flow (key (fl h a))}"

text \<open>
  The table has room for an entry without wildcards whose bucket is free or taken by the entry it
  replaces.
\<close>

definition hash_room :: "fheap \<Rightarrow> sw_table_hash \<Rightarrow> addr \<Rightarrow> bool" where
  "hash_room h th a \<longleftrightarrow> wildcards (key (fl h a)) = 0 \<and>
     (case buckets th ! find_bucket th (key (fl h a)) of
        None \<Rightarrow> True | Some b \<Rightarrow> key_flow (key (fl h b)) = key_flow (key (fl h a)))"

lemma hash_insert_room: "fst (table_hash_insert h th a) \<longleftrightarrow> hash_room h th a"
  by (simp add: table_hash_insert_def hash_room_def Let_def split: option.splits)

lemma hash_insert_dups:
  assumes inv: "hash_inv h th" and new: "a \<notin> hash_flows th" and ins: "table_hash_insert h th a = (True, h', th')"
  shows "if hash_dups h th a = {} then hash_flows th \<subseteq> hash_flows th'
    else \<exists>b \<in> hash_dups h th a. hash_flows th - hash_flows th' = {b}"
proof -
  have shape: "hash_shape h th" using inv by (simp add: hash_inv_def)
  let ?i = "find_bucket th (key (fl h a))"
  note less = find_bucket_less [OF shape, of "key (fl h a)"]
  have dups: "hash_dups h th a = {b. buckets th ! ?i = Some b \<and> key_flow (key (fl h b)) = key_flow (key (fl h a))}"
  proof -
    have same: "find_bucket th (key (fl h b)) = ?i" if "key_flow (key (fl h b)) = key_flow (key (fl h a))" for b
      using that by (simp add: find_bucket_def)
    have "b \<in> hash_flows th \<longleftrightarrow> buckets th ! ?i = Some b" if eq: "key_flow (key (fl h b)) = key_flow (key (fl h a))" for b
    proof
      assume "b \<in> hash_flows th"
      then show "buckets th ! ?i = Some b" using hash_flows_bucket [OF shape, of b, unfolded same [OF eq]] by blast
    next
      assume "buckets th ! ?i = Some b"
      then show "b \<in> hash_flows th" using less hash_flows_iff by blast
    qed
    then show ?thesis unfolding hash_dups_def by blast
  qed
  show ?thesis
  proof (cases h a th rule: table_hash_insert_cases)
    case (added i)
    then have "hash_flows th' = insert a (hash_flows th)"
      using ins less hash_flows_fill [OF shape, of i th' "Some a"] by auto
    then show ?thesis using added(2,3) dups by auto
  next
    case (replaced i old)
    then have "hash_flows th' = insert a (hash_flows th - {old})"
      using ins less hash_flows_fill [OF shape, of i th' "Some a"] by auto
    moreover have old: "old \<in> hash_dups h th a" using replaced(2-4) dups by simp
    moreover have "old \<in> hash_flows th" "old \<noteq> a" using old new by (auto simp: hash_dups_def)
    ultimately show ?thesis using new by auto
  qed (use ins in simp)
qed

lemma insert_heap_form:
  assumes "a \<in> dom h" "a \<notin> F" "D \<subseteq> F" "F' = insert a (F - D)" "h' = h |` (- D)"
  shows "\<exists>s. h' = (h |` (- (F - F')))(a \<mapsto> (fl h a)\<lparr> serial := s \<rparr>)"
proof -
  have "F - F' = D" "a \<notin> D" using assms(2-4) by auto
  moreover have "(fl h a)\<lparr> serial := serial (fl h a) \<rparr> = fl h a" by simp
  ultimately show ?thesis
    using assms(1,5) by (intro exI [of _ "serial (fl h a)"]) (auto simp: fun_eq_iff restrict_map_def fl_def)
qed

text \<open>How the set-valued outcome of a deletion gives the clause of the contract.\<close>

lemma delete_form:
  assumes "D = {a \<in> F. P a \<and> Q a}" "F' = F - D" "del = Some (of_nat (card D), h |` (- D), t')"
    and "I (h |` (- D)) t'"
  shows "\<exists>n h'. del = Some (n, h', t') \<and> I h' t' \<and> F' \<subseteq> F \<and> h' = h |` (- (F - F')) \<and> n = of_nat (card (F - F')) \<and>
    F - F' = {a \<in> F. P a \<and> Q a}"
proof -
  have "F - F' = D" using assms(1,2) by auto
  then show ?thesis using assms by auto
qed

interpretation hash: sw_table hash_inv hash_flows table_hash_lookup table_hash_insert
  table_hash_modify table_hash_delete table_hash_timeout hash_dups "\<lambda>t. False" hash_room
proof (unfold_locales, goal_cases)
  case (2 h t)
  then show ?case using hash_flows_bucket by (auto simp: hash_inv_def bucket_ok_def)
next
  case (3 h t h')
  then show ?case by (rule hash_inv_cong)
next
  case (4 h t k a)
  then show ?case using hash_lookup_sound [OF 4(1,2)] exact_matches [of h t a k] by (simp add: hash_inv_def)
next
  case (5 h t k a)
  then show ?case using hash_lookup_complete [OF 5(1,2,4)] exact_matches [of h t a k] by (simp add: hash_inv_def)
next
  case (6 h t a h' t')
  then show ?case by (rule hash_insert_refused)
next
  case (7 h t a h' t')
  then show ?case by (rule hash_insert_inv)
next
  case (8 h t a h' t')
  then show ?case using hash_insert_flows [OF 8(1,4)] by auto
next
  case (9 h t a h' t')
  then show ?case using hash_insert_flows [OF 9(1,4)] insert_heap_form [OF 9(2,3)] by metis
next
  case (10 h t a)
  then show ?case by (auto simp: hash_dups_def)
next
  case (11 h t a h' t')
  then show ?case using hash_insert_dups by blast
next
  case (12 h t k ok prio strict acts n h')
  then show ?case using hash_modify_heap by blast
next
  case (13 h t k out_port prio strict)
  obtain t' D where D: "D = {a \<in> hash_flows t. sel_desc h k strict a \<and> has_out_port (fl h a) out_port}"
    and t': "table_hash_delete h t k out_port prio strict = Some (of_nat (card D), h |` (- D), t')"
      "hash_inv (h |` (- D)) t'" "hash_flows t' = hash_flows t - D"
    using hash_delete_ok [OF 13, of out_port strict prio] by (auto simp: Let_def th_delete_hit_def)
  from delete_form [where I = hash_inv, OF D t'(3,1,2)] show ?case by simp
next
  case (14 h t now ds h' t' ds')
  then show ?case by (rule hash_timeout_ok)
next
  case (15 h t a)
  show ?case by (rule hash_insert_room)
qed simp_all

definition hash2_flows :: "sw_table_hash2 \<Rightarrow> addr set" where
  "hash2_flows t2 = hash_flows (subtable0 t2) \<union> hash_flows (subtable1 t2)"

definition hash2_inv :: "fheap \<Rightarrow> sw_table_hash2 \<Rightarrow> bool" where
  "hash2_inv h t2 \<longleftrightarrow> hash_inv h (subtable0 t2) \<and> hash_inv h (subtable1 t2) \<and>
     hash_flows (subtable0 t2) \<inter> hash_flows (subtable1 t2) = {}"


lemma hash2_inv_parts:
  assumes "hash2_inv h t2"
  shows "hash_inv h (subtable0 t2)" "hash_inv h (subtable1 t2)" "hash_flows (subtable0 t2) \<inter> hash_flows (subtable1 t2) = {}"
  using assms by (simp_all add: hash2_inv_def)

text \<open>A change of the store outside a table keeps its invariant.\<close>

lemma hash_inv_frame:
  assumes "hash_inv h th" "\<And>a. a \<in> hash_flows th \<Longrightarrow> h' a = h a"
  shows "hash_inv h' th"
proof (rule hash.inv_cong [OF assms(1)])
  fix a
  assume "a \<in> hash_flows th"
  then show "a \<in> dom h' \<and> same_entry (fl h' a) (fl h a)"
    using assms(2) [of a] hash.flows_dom [OF assms(1)] by (auto simp: same_entry_def fl_def domIff)
qed

text \<open>The insertion into one of the two subtables.\<close>

lemma table_hash2_insert_cases:
  obtains (first) th h1 where "table_hash_insert h (subtable0 dt) a = (True, h1, th)"
      "table_hash2_insert h dt a = (True, h1, dt\<lparr> subtable0 := th \<rparr>)"
    | (second) th h1 where "table_hash_insert h (subtable1 dt) a = (True, h1, th)"
      "table_hash2_insert h dt a = (True, h1, dt\<lparr> subtable1 := th \<rparr>)"
    | (refused) "table_hash2_insert h dt a = (False, h, dt)"
proof -
  obtain ok0 h0 th0 where t0: "table_hash_insert h (subtable0 dt) a = (ok0, h0, th0)" by (metis prod.exhaust)
  obtain ok1 h1 th1 where t1: "table_hash_insert h (subtable1 dt) a = (ok1, h1, th1)" by (metis prod.exhaust)
  show thesis
  proof (cases ok0)
    case True
    then show thesis using t0 by (intro first [of h0 th0]) (simp_all add: table_hash2_insert_def)
  next
    case False
    then have "h0 = h" "th0 = subtable0 dt" using hash.insert_refused t0 by auto
    then have "table_hash2_insert h dt a = (ok1, h1, dt\<lparr> subtable1 := th1 \<rparr>)"
      using False t0 t1 by (simp add: table_hash2_insert_def)
    moreover have "\<not> ok1 \<Longrightarrow> h1 = h \<and> th1 = subtable1 dt" using hash.insert_refused t1 by auto
    ultimately show thesis using second [of h1 th1] refused t1 by (cases ok1) auto
  qed
qed

lemma hash2_insert_sets:
  assumes inv: "hash2_inv h t2" and a: "a \<notin> hash2_flows t2" and ins: "table_hash2_insert h t2 a = (True, h', t2')"
  shows "\<exists>D. D \<subseteq> hash2_flows t2 \<and> hash2_flows t2' = insert a (hash2_flows t2 - D) \<and> h' = h |` (- D)"
proof (cases h a t2 rule: table_hash2_insert_cases)
  case (first th h1)
  obtain D where "D \<subseteq> hash_flows (subtable0 t2)" "hash_flows th = insert a (hash_flows (subtable0 t2) - D)" "h1 = h |` (- D)"
    using hash_insert_flows [OF hash2_inv_parts(1) [OF inv] first(1)] by blast
  then show ?thesis using first(2) ins hash2_inv_parts(3) [OF inv] by (intro exI [of _ D]) (auto simp: hash2_flows_def)
next
  case (second th h1)
  obtain D where "D \<subseteq> hash_flows (subtable1 t2)" "hash_flows th = insert a (hash_flows (subtable1 t2) - D)" "h1 = h |` (- D)"
    using hash_insert_flows [OF hash2_inv_parts(2) [OF inv] second(1)] by blast
  then show ?thesis using second(2) ins hash2_inv_parts(3) [OF inv] by (intro exI [of _ D]) (auto simp: hash2_flows_def)
qed (use ins in simp)

lemma hash2_insert_inv:
  assumes inv: "hash2_inv h t2" and a: "a \<in> dom h" "a \<notin> hash2_flows t2" "key_wf (key (fl h a))"
    and ins: "table_hash2_insert h t2 a = (True, h', t2')"
  shows "hash2_inv h' t2'"
proof -
  note p = hash2_inv_parts [OF inv]
  have a': "a \<notin> hash_flows (subtable0 t2)" "a \<notin> hash_flows (subtable1 t2)" using a(2) by (simp_all add: hash2_flows_def)
  show ?thesis
  proof (cases h a t2 rule: table_hash2_insert_cases)
    case (first th h1)
    obtain D where D: "D \<subseteq> hash_flows (subtable0 t2)" "hash_flows th = insert a (hash_flows (subtable0 t2) - D)" "h1 = h |` (- D)"
      using hash_insert_flows [OF p(1) first(1)] by blast
    have "hash_inv h1 (subtable1 t2)" using D p(3) by (intro hash_inv_frame [OF p(2)]) (auto simp: restrict_map_def)
    moreover have "hash_inv h1 th" by (rule hash.insert_inv [OF p(1) a(1) a'(1) a(3) first(1)])
    ultimately show ?thesis using first(2) ins D p(3) a' by (auto simp: hash2_inv_def)
  next
    case (second th h1)
    obtain D where D: "D \<subseteq> hash_flows (subtable1 t2)" "hash_flows th = insert a (hash_flows (subtable1 t2) - D)" "h1 = h |` (- D)"
      using hash_insert_flows [OF p(2) second(1)] by blast
    have "hash_inv h1 (subtable0 t2)" using D p(3) by (intro hash_inv_frame [OF p(1)]) (auto simp: restrict_map_def)
    moreover have "hash_inv h1 th" by (rule hash.insert_inv [OF p(2) a(1) a'(2) a(3) second(1)])
    ultimately show ?thesis using second(2) ins D p(3) a' by (auto simp: hash2_inv_def)
  qed (use ins in simp)
qed


lemma sel_cong: "fl h' a = fl h a \<Longrightarrow> sel_desc h' k strict a = sel_desc h k strict a"
    "fl h' a = fl h a \<Longrightarrow> sel_prio h' prio strict a = sel_prio h prio strict a"
  by (simp_all add: sel_desc_def sel_prio_def)

lemma hash2_modify_heap:
  assumes inv: "hash2_inv h t2" and k: "key_wf k" and mod: "table_hash2_modify ok h t2 k prio strict acts = (n, h')"
  shows "h' a = (if a \<in> hash2_flows t2 \<and> sel_desc h k strict a \<and> sel_prio h prio strict a
    then Some (flow_replace_acts (ok a) acts (fl h a)) else h a)"
proof -
  note p = hash2_inv_parts [OF inv]
  obtain m h1 where m: "table_hash_modify ok h (subtable0 t2) k prio strict acts = (m, h1)" by fastforce
  obtain n' where n': "table_hash_modify ok h1 (subtable1 t2) k prio strict acts = (n', h')"
    using mod m by (auto simp: table_hash2_modify_def split: prod.splits)
  have h1: "h1 a = (if a \<in> hash_flows (subtable0 t2) \<and> sel_desc h k strict a \<and> sel_prio h prio strict a
      then Some (flow_replace_acts (ok a) acts (fl h a)) else h a)" for a
    using hash.modify_heap [OF p(1) k m] by blast
  then have same: "h1 a = h a" if "a \<in> hash_flows (subtable1 t2)" for a using that p(3) by auto
  have inv1: "hash_inv h1 (subtable1 t2)" by (rule hash_inv_frame [OF p(2) same])
  have "h' a = (if a \<in> hash_flows (subtable1 t2) \<and> sel_desc h1 k strict a \<and> sel_prio h1 prio strict a
      then Some (flow_replace_acts (ok a) acts (fl h1 a)) else h1 a)"
    using hash.modify_heap [OF inv1 k n'] by blast
  then show ?thesis
  proof (cases "a \<in> hash_flows (subtable1 t2)")
    case True
    then have eq: "fl h1 a = fl h a" "h1 a = h a" using same by (simp_all add: fl_def)
    with \<open>h' a = _\<close> True show ?thesis by (simp add: hash2_flows_def sel_cong [OF eq(1)])
  next
    case False
    with \<open>h' a = _\<close> show ?thesis by (simp add: hash2_flows_def h1)
  qed
qed

lemma restrict_restrict_compl: "(h |` (- A)) |` (- B) = h |` (- (A \<union> B))"
  by (simp add: restrict_restrict Compl_Un)

lemma hash2_delete_ok:
  assumes inv: "hash2_inv h t2" and valid: "acts_valid h" and k: "key_wf k"
  shows "\<exists>t2'. (let D = {a \<in> hash2_flows t2. th_delete_hit h k out_port strict a} in
    table_hash2_delete h t2 k out_port prio strict = Some (of_nat (card D), h |` (- D), t2') \<and>
    hash2_inv (h |` (- D)) t2' \<and> hash2_flows t2' = hash2_flows t2 - D)"
proof -
  note p = hash2_inv_parts [OF inv]
  let ?hit = "\<lambda>h. th_delete_hit h k out_port strict"
  define D0 where "D0 = {a \<in> hash_flows (subtable0 t2). ?hit h a}"
  define D1 where "D1 = {a \<in> hash_flows (subtable1 t2). ?hit h a}"
  have disj: "D0 \<inter> hash_flows (subtable1 t2) = {}" "D1 \<inter> hash_flows (subtable0 t2) = {}" "D0 \<inter> D1 = {}"
    using p(3) by (auto simp: D0_def D1_def)
  have D: "{a \<in> hash2_flows t2. ?hit h a} = D0 \<union> D1" by (auto simp: D0_def D1_def hash2_flows_def)
  obtain th0 where th0: "table_hash_delete h (subtable0 t2) k out_port prio strict = Some (of_nat (card D0), h |` (- D0), th0)"
    "hash_inv (h |` (- D0)) th0" "hash_flows th0 = hash_flows (subtable0 t2) - D0"
    using hash_delete_ok [OF p(1) valid k, of out_port strict prio] by (auto simp: Let_def D0_def)
  have inv1: "hash_inv (h |` (- D0)) (subtable1 t2)" using disj(1) by (intro hash_inv_frame [OF p(2)]) (auto simp: restrict_map_def)
  have valid1: "acts_valid (h |` (- D0))" using valid by (auto simp: acts_valid_def fl_def restrict_map_def)
  have "{a \<in> hash_flows (subtable1 t2). ?hit (h |` (- D0)) a} = D1"
    using disj(1) by (auto simp: D1_def th_delete_hit_def sel_desc_def fl_def restrict_map_def)
  then obtain th1 where th1: "table_hash_delete (h |` (- D0)) (subtable1 t2) k out_port prio strict =
      Some (of_nat (card D1), h |` (- (D0 \<union> D1)), th1)"
    "hash_inv (h |` (- (D0 \<union> D1))) th1" "hash_flows th1 = hash_flows (subtable1 t2) - D1"
    using hash_delete_ok [OF inv1 valid1 k, of out_port strict prio] by (auto simp: Let_def restrict_restrict_compl)
  have "hash_inv (h |` (- (D0 \<union> D1))) th0" using disj(2) th0(3) by (intro hash_inv_frame [OF th0(2)]) (auto simp: restrict_map_def)
  moreover have "of_nat (card D0) + of_nat (card D1) = (of_nat (card (D0 \<union> D1)) :: u32)"
    using disj(3) by (subst card_Un_disjoint) (auto simp: D0_def D1_def)
  ultimately show ?thesis
    unfolding Let_def D using th0 th1 disj p(3)
    by (intro exI [of _ "t2\<lparr> subtable0 := th0, subtable1 := th1 \<rparr>"])
      (auto simp: table_hash2_delete_def hash2_inv_def hash2_flows_def)
qed

lemma hash2_timeout_ok:
  assumes inv: "hash2_inv h t2" and out: "table_hash2_timeout now h t2 ds = (h', t2', ds')"
  shows "hash2_inv h' t2' \<and> hash2_flows t2' = {a \<in> hash2_flows t2. \<not> expired now (fl h a)} \<and>
    (\<exists>xs. ds' = ds @ xs \<and> distinct xs \<and> set xs = {a \<in> hash2_flows t2. expired now (fl h a)} \<and>
      h' = (\<lambda>a. if a \<in> set xs then Some (snd (flow_timeout now (fl h a))) else h a))"
proof -
  note p = hash2_inv_parts [OF inv]
  obtain h0 th0 ds0 where t0: "table_hash_timeout now h (subtable0 t2) ds = (h0, th0, ds0)" by (metis prod.exhaust)
  obtain th1 where t1: "table_hash_timeout now h0 (subtable1 t2) ds0 = (h', th1, ds')"
    and t2': "t2' = t2\<lparr> subtable0 := th0, subtable1 := th1 \<rparr>"
    using out t0 by (auto simp: table_hash2_timeout_def split: prod.splits)
  obtain xs where xs: "hash_inv h0 th0" "hash_flows th0 = {a \<in> hash_flows (subtable0 t2). \<not> expired now (fl h a)}"
    "ds0 = ds @ xs" "distinct xs" "set xs = {a \<in> hash_flows (subtable0 t2). expired now (fl h a)}"
    "h0 = (\<lambda>a. if a \<in> set xs then Some (snd (flow_timeout now (fl h a))) else h a)"
    using hash.timeout_ok [OF p(1) t0] by blast
  have same: "h0 a = h a" if "a \<in> hash_flows (subtable1 t2)" for a using that p(3) xs(5,6) by auto
  have fl: "fl h0 a = fl h a" if "a \<in> hash_flows (subtable1 t2)" for a using same [OF that] by (simp add: fl_def)
  obtain ys where ys: "hash_inv h' th1" "hash_flows th1 = {a \<in> hash_flows (subtable1 t2). \<not> expired now (fl h0 a)}"
    "ds' = ds0 @ ys" "distinct ys" "set ys = {a \<in> hash_flows (subtable1 t2). expired now (fl h0 a)}"
    "h' = (\<lambda>a. if a \<in> set ys then Some (snd (flow_timeout now (fl h0 a))) else h0 a)"
    using hash.timeout_ok [OF hash_inv_frame [OF p(2) same] t1] by blast
  have "hash_inv h' th0" using xs(2) ys(5,6) p(3) by (intro hash_inv_frame [OF xs(1)]) auto
  moreover have "h' = (\<lambda>a. if a \<in> set (xs @ ys) then Some (snd (flow_timeout now (fl h a))) else h a)"
    using xs(5,6) ys(5,6) fl p(3) by (auto simp: fun_eq_iff)
  moreover have "ds' = ds @ (xs @ ys)" "distinct (xs @ ys)" using xs(3-5) ys(3-5) p(3) by auto
  moreover have "set (xs @ ys) = {a \<in> hash2_flows t2. expired now (fl h a)}"
    using xs(5) ys(5) fl by (auto simp: hash2_flows_def)
  moreover have "hash2_flows t2' = {a \<in> hash2_flows t2. \<not> expired now (fl h a)}"
    using xs(2) ys(2) fl by (auto simp: hash2_flows_def t2')
  moreover have "hash_flows th0 \<inter> hash_flows th1 = {}" using xs(2) ys(2) p(3) by auto
  ultimately have "hash2_inv h' t2'" using ys(1) by (simp add: hash2_inv_def t2')
  show ?thesis
    by (intro conjI exI [of _ "xs @ ys"]) fact+
qed


text \<open>
  The duplicate in the subtable that takes the entry; one in the other subtable is not looked for.
\<close>

definition hash2_dups :: "fheap \<Rightarrow> sw_table_hash2 \<Rightarrow> addr \<Rightarrow> addr set" where
  "hash2_dups h t2 a = hash_dups h (if hash_room h (subtable0 t2) a then subtable0 t2 else subtable1 t2) a"

definition hash2_room :: "fheap \<Rightarrow> sw_table_hash2 \<Rightarrow> addr \<Rightarrow> bool" where
  "hash2_room h t2 a \<longleftrightarrow> hash_room h (subtable0 t2) a \<or> hash_room h (subtable1 t2) a"

lemma hash2_insert_room: "fst (table_hash2_insert h t2 a) \<longleftrightarrow> hash2_room h t2 a"
proof -
  obtain ok h0 th0 where t0: "table_hash_insert h (subtable0 t2) a = (ok, h0, th0)" by (metis prod.exhaust)
  then have "\<not> ok \<Longrightarrow> h0 = h \<and> th0 = subtable0 t2" using hash_insert_refused by auto
  then show ?thesis using t0 hash_insert_room [of h "subtable0 t2" a] hash_insert_room [of h "subtable1 t2" a]
    by (cases ok) (auto simp: table_hash2_insert_def hash2_room_def split: prod.splits)
qed

lemma hash2_insert_dups:
  assumes inv: "hash2_inv h t2" and new: "a \<notin> hash2_flows t2" and ins: "table_hash2_insert h t2 a = (True, h', t2')"
  shows "if hash2_dups h t2 a = {} then hash2_flows t2 \<subseteq> hash2_flows t2'
    else \<exists>b \<in> hash2_dups h t2 a. hash2_flows t2 - hash2_flows t2' = {b}"
proof -
  note p = hash2_inv_parts [OF inv]
  have a: "a \<notin> hash_flows (subtable0 t2)" "a \<notin> hash_flows (subtable1 t2)" using new by (simp_all add: hash2_flows_def)
  obtain ok h0 th0 where t0: "table_hash_insert h (subtable0 t2) a = (ok, h0, th0)" by (metis prod.exhaust)
  show ?thesis
  proof (cases ok)
    case True
    with t0 have t0: "table_hash_insert h (subtable0 t2) a = (True, h0, th0)" by simp
    then have t2': "t2' = t2\<lparr>subtable0 := th0\<rparr>" using ins by (simp add: table_hash2_insert_def)
    have "b \<in> hash_dups h (subtable0 t2) a \<Longrightarrow> b \<notin> hash_flows (subtable1 t2)" for b using p(3) by (auto simp: hash_dups_def)
    moreover have "hash_room h (subtable0 t2) a" using hash_insert_room [of h "subtable0 t2" a] t0 by simp
    ultimately show ?thesis using hash_insert_dups [OF p(1) a(1) t0] p(3)
      by (auto simp: hash2_dups_def hash2_flows_def t2' split: if_splits)
  next
    case False
    then have "h0 = h" "th0 = subtable0 t2" using hash.insert_refused t0 by auto
    then obtain th1 where t1: "table_hash_insert h (subtable1 t2) a = (True, h', th1)" "t2' = t2\<lparr>subtable1 := th1\<rparr>"
      using ins t0 False by (auto simp: table_hash2_insert_def split: prod.splits)
    have "b \<in> hash_dups h (subtable1 t2) a \<Longrightarrow> b \<notin> hash_flows (subtable0 t2)" for b using p(3) by (auto simp: hash_dups_def)
    moreover have "\<not> hash_room h (subtable0 t2) a" using hash_insert_room [of h "subtable0 t2" a] t0 False by simp
    ultimately show ?thesis using hash_insert_dups [OF p(2) a(2) t1(1)] p(3)
      by (auto simp: hash2_dups_def hash2_flows_def t1(2) split: if_splits)
  qed
qed

interpretation hash2: sw_table hash2_inv hash2_flows table_hash2_lookup table_hash2_insert
  table_hash2_modify table_hash2_delete table_hash2_timeout hash2_dups "\<lambda>t. False" hash2_room
proof (unfold_locales, goal_cases)
  case (1 h t)
  then show ?case by (simp add: hash2_flows_def)
next
  case (2 h t)
  then show ?case using hash.flows_dom by (auto simp: hash2_flows_def hash2_inv_def)
next
  case (3 h t h')
  then show ?case
    using hash.inv_cong [of h "subtable0 t" h'] hash.inv_cong [of h "subtable1 t" h']
    by (auto simp: hash2_inv_def hash2_flows_def)
next
  case (4 h t k a)
  then show ?case
    using hash.lookup_sound by (fastforce simp: hash2_inv_def hash2_flows_def table_hash2_lookup_def split: option.splits)
next
  case (5 h t k a)
  then show ?case
    using hash.lookup_complete by (fastforce simp: hash2_inv_def hash2_flows_def table_hash2_lookup_def split: option.splits)
next
  case (6 h t a h' t')
  then show ?case by (cases h a t rule: table_hash2_insert_cases) auto
next
  case (7 h t a h' t')
  then show ?case by (rule hash2_insert_inv)
next
  case (8 h t a h' t')
  then show ?case using hash2_insert_sets [OF 8(1,3,4)] by auto
next
  case (9 h t a h' t')
  then show ?case using hash2_insert_sets [OF 9(1,3,4)] insert_heap_form [OF 9(2,3)] by metis
next
  case (10 h t a)
  then show ?case by (auto simp: hash2_dups_def hash_dups_def hash2_flows_def)
next
  case (11 h t a h' t')
  then show ?case using hash2_insert_dups by blast
next
  case (12 h t k ok prio strict acts n h')
  then show ?case using hash2_modify_heap by blast
next
  case (13 h t k out_port prio strict)
  obtain t' D where D: "D = {a \<in> hash2_flows t. sel_desc h k strict a \<and> has_out_port (fl h a) out_port}"
    and t': "table_hash2_delete h t k out_port prio strict = Some (of_nat (card D), h |` (- D), t')"
      "hash2_inv (h |` (- D)) t'" "hash2_flows t' = hash2_flows t - D"
    using hash2_delete_ok [OF 13, of out_port strict prio] by (auto simp: Let_def th_delete_hit_def)
  from delete_form [where I = hash2_inv, OF D t'(3,1,2)] show ?case by simp
next
  case (14 h t now ds h' t' ds')
  then show ?case by (rule hash2_timeout_ok)
next
  case (15 h t a)
  show ?case by (rule hash2_insert_room)
qed


text \<open>
  The double-hashing table is an exact-match table: a lookup returns an entry whose flow equals the
  packet's, and returns none only when no entry has that flow.
\<close>

theorem table_hash2_lookup_exact:
  assumes "hash2_inv h t2"
  shows "case table_hash2_lookup h t2 k of
      None \<Rightarrow> \<forall>a \<in> hash2_flows t2. key_flow (key (fl h a)) \<noteq> key_flow k
    | Some a \<Rightarrow> a \<in> hash2_flows t2 \<and> key_flow (key (fl h a)) = key_flow k"
proof -
  note p = hash2_inv_parts [OF assms]
  show ?thesis
    using hash_lookup_sound [OF p(1)] hash_lookup_sound [OF p(2)] hash_lookup_complete [OF p(1)]
      hash_lookup_complete [OF p(2)]
    by (fastforce simp: table_hash2_lookup_def hash2_flows_def split: option.splits)
qed

text \<open>A double-hashing table with one bucket in each half, holding one exact entry.\<close>

definition exact_flow :: "u16 \<Rightarrow> sw_flow" where
  "exact_flow port = (sample_flow 7 port)\<lparr> key := (sample_packet port)\<lparr> nw_src_mask := make_nw_mask 0,
     nw_dst_mask := make_nw_mask 0 \<rparr> \<rparr>"

definition sample_hash :: "addr option \<Rightarrow> sw_table_hash" where
  "sample_hash b = \<lparr> th_swt = \<lparr> n_lookup = 0, n_matched = 0 \<rparr>, crc32 = crc32_init 0x1EDC6F41,
     th_n_flows = (if b = None then 0 else 1), bucket_mask = 0, buckets = [b] \<rparr>"

definition sample_hash2 :: "addr option \<Rightarrow> addr option \<Rightarrow> sw_table_hash2" where
  "sample_hash2 b c = \<lparr> t2_swt = \<lparr> n_lookup = 0, n_matched = 0 \<rparr>, subtable0 = sample_hash b, subtable1 = sample_hash c \<rparr>"

lemma exact_flow_key:
  "key_wf (key (exact_flow port))" "wildcards (key (exact_flow port)) = 0"
  "key_flow (key (exact_flow port)) = key_flow (sample_packet port)"
  by (simp_all add: exact_flow_def key_wf_def sample_packet_def)

lemma sample_hash_inv:
  assumes "\<And>a. b = Some a \<Longrightarrow> a \<in> dom h \<and> (\<exists>port. fl h a = exact_flow port)"
  shows "hash_inv h (sample_hash b)" and "hash_flows (sample_hash b) = set_option b"
proof -
  show flows: "hash_flows (sample_hash b) = set_option b" by (cases b) (auto simp: hash_flows_def sample_hash_def)
  have "find_bucket (sample_hash b) k = 0" for k by (simp add: find_bucket_def sample_hash_def)
  then have "hash_shape h (sample_hash b)"
    using assms by (auto simp: hash_shape_def bucket_ok_def exact_flow_key) (auto simp: sample_hash_def exact_flow_key dest!: assms)
  then show "hash_inv h (sample_hash b)"
    unfolding hash_inv_def flows by (cases b) (simp_all add: sample_hash_def)
qed

theorem table_hash2_lookup_exact_witness:
  "table_hash2_lookup [0 \<mapsto> exact_flow 1] (sample_hash2 None (Some 0)) (sample_packet 1) = Some 0 \<and>
   (0 :: addr) \<in> hash2_flows (sample_hash2 None (Some 0))"
proof -
  let ?h = "[0 \<mapsto> exact_flow 1] :: fheap"
  have inv: "hash2_inv ?h (sample_hash2 None (Some 0))"
    using sample_hash_inv [of "Some 0" ?h] sample_hash_inv [of None ?h]
    by (auto simp: hash2_inv_def sample_hash2_def fl_def)
  have "table_hash2_lookup ?h (sample_hash2 None (Some 0)) (sample_packet 1) = Some 0"
    by (simp add: table_hash2_lookup_def table_hash_lookup_def sample_hash2_def sample_hash_def find_bucket_def
        fl_def exact_flow_key)
  with table_hash2_lookup_exact [OF inv, of "sample_packet 1"] show ?thesis by simp
qed

text \<open>
  A duplicate is not always replaced: with the entry in the second half and its bucket in the first half
  empty, the new entry goes to the first half and the old one stays.
\<close>

lemma table_hash2_insert_duplicate:
  assumes inv: "hash2_inv h t2" and b: "b \<in> hash_flows (subtable1 t2)" and a: "a \<notin> hash2_flows t2" "wildcards (key (fl h a)) = 0"
    and same: "key_flow (key (fl h a)) = key_flow (key (fl h b))"
    and empty: "buckets (subtable0 t2) ! find_bucket (subtable0 t2) (key (fl h a)) = None"
    and ins: "table_hash2_insert h t2 a = (ok, h', t2')"
  shows "ok \<and> a \<in> hash2_flows t2' \<and> b \<in> hash2_flows t2' \<and> h' = h"
proof -
  have shape: "hash_shape h (subtable0 t2)" using hash2_inv_parts(1) [OF inv] by (simp add: hash_inv_def)
  let ?th = "(subtable0 t2)\<lparr> th_n_flows := th_n_flows (subtable0 t2) + 1,
    buckets := (buckets (subtable0 t2))[find_bucket (subtable0 t2) (key (fl h a)) := Some a] \<rparr>"
  have "table_hash_insert h (subtable0 t2) a = (True, h, ?th)" using a(2) empty by (simp add: table_hash_insert_def Let_def)
  then have t2': "ok" "h' = h" "t2' = t2\<lparr> subtable0 := ?th \<rparr>" using ins by (auto simp: table_hash2_insert_def)
  have "a \<in> hash_flows ?th"
    using hash_flows_fill [OF shape find_bucket_less [OF shape], of ?th "key (fl h a)" "Some a"] by simp
  then show ?thesis using t2' b by (simp add: hash2_flows_def)
qed

end
