(* ===== verification/Chain.thy ===== *)
theory Chain
  imports Table_Hash
begin

text \<open>
  The chain of tables of \<open>src/full/openflowlib/switch/chain.c\<close>.  The function pointers of
  \<open>struct sw_table\<close> (\<open>switch/table.h\<close>) become a datatype of the tables the switch creates and one
  dispatching function per pointer; the interpretation \<open>tbl\<close> gives the contract for whichever table is
  behind the pointers, and the chain relies on that contract alone.
\<close>

section \<open>Dispatch\<close>

datatype sw_table = Hash sw_table_hash | Hash2 sw_table_hash2 | Linear sw_table_linear

primrec table_lookup :: "fheap \<Rightarrow> sw_table \<Rightarrow> sw_flow_key \<Rightarrow> addr option" where
  "table_lookup h (Hash t) k = table_hash_lookup h t k"
| "table_lookup h (Hash2 t) k = table_hash2_lookup h t k"
| "table_lookup h (Linear t) k = table_linear_lookup h t k"

primrec table_insert :: "fheap \<Rightarrow> sw_table \<Rightarrow> addr \<Rightarrow> bool \<times> fheap \<times> sw_table" where
  "table_insert h (Hash t) a = (let (ok, h, t) = table_hash_insert h t a in (ok, h, Hash t))"
| "table_insert h (Hash2 t) a = (let (ok, h, t) = table_hash2_insert h t a in (ok, h, Hash2 t))"
| "table_insert h (Linear t) a = (let (ok, h, t) = table_linear_insert h t a in (ok, h, Linear t))"

primrec table_modify :: "(addr \<Rightarrow> bool) \<Rightarrow> fheap \<Rightarrow> sw_table \<Rightarrow> sw_flow_key \<Rightarrow> u16 \<Rightarrow> bool \<Rightarrow> u8 list
    \<Rightarrow> u32 \<times> fheap" where
  "table_modify ok h (Hash t) k prio strict acts = table_hash_modify ok h t k prio strict acts"
| "table_modify ok h (Hash2 t) k prio strict acts = table_hash2_modify ok h t k prio strict acts"
| "table_modify ok h (Linear t) k prio strict acts = table_linear_modify ok h t k prio strict acts"

primrec table_delete :: "fheap \<Rightarrow> sw_table \<Rightarrow> sw_flow_key \<Rightarrow> u16 \<Rightarrow> u16 \<Rightarrow> bool
    \<Rightarrow> (u32 \<times> fheap \<times> sw_table) option" where
  "table_delete h (Hash t) k out_port prio strict =
    map_option (\<lambda>(n, h, t). (n, h, Hash t)) (table_hash_delete h t k out_port prio strict)"
| "table_delete h (Hash2 t) k out_port prio strict =
    map_option (\<lambda>(n, h, t). (n, h, Hash2 t)) (table_hash2_delete h t k out_port prio strict)"
| "table_delete h (Linear t) k out_port prio strict =
    map_option (\<lambda>(n, h, t). (n, h, Linear t)) (table_linear_delete h t k out_port prio strict)"

primrec table_timeout :: "int \<Rightarrow> fheap \<Rightarrow> sw_table \<Rightarrow> addr list \<Rightarrow> fheap \<times> sw_table \<times> addr list" where
  "table_timeout now h (Hash t) ds = (let (h, t, ds) = table_hash_timeout now h t ds in (h, Hash t, ds))"
| "table_timeout now h (Hash2 t) ds = (let (h, t, ds) = table_hash2_timeout now h t ds in (h, Hash2 t, ds))"
| "table_timeout now h (Linear t) ds = (let (h, t, ds) = table_linear_timeout now h t ds in (h, Linear t, ds))"

primrec table_destroy :: "fheap \<Rightarrow> sw_table \<Rightarrow> fheap" where
  "table_destroy h (Hash t) = table_hash_destroy h t"
| "table_destroy h (Hash2 t) = table_hash2_destroy h t"
| "table_destroy h (Linear t) = table_linear_destroy h t"

text \<open>Positions are the two words of \<open>position->private\<close> that the tables use.\<close>

primrec table_iterate :: "fheap \<Rightarrow> sw_table \<Rightarrow> sw_flow_key \<Rightarrow> u16 \<Rightarrow> (sw_flow \<Rightarrow> 'p \<Rightarrow> int \<times> 'p)
    \<Rightarrow> u64 \<times> u64 \<Rightarrow> 'p \<Rightarrow> (int \<times> (u64 \<times> u64) \<times> 'p) option" where
  "table_iterate h (Hash t) k out_port callback pos p =
    map_option (\<lambda>(e, pos0, p). (e, (pos0, snd pos), p)) (table_hash_iterate h t k out_port callback (fst pos) p)"
| "table_iterate h (Hash2 t) k out_port callback pos p = table_hash2_iterate h t k out_port callback pos p"
| "table_iterate h (Linear t) k out_port callback pos p =
    map_option (\<lambda>(e, pos0, p). (e, (pos0, snd pos), p)) (table_linear_iterate h t k out_port callback (fst pos) p)"

primrec table_stats :: "sw_table \<Rightarrow> sw_table_stats" where
  "table_stats (Hash t) = table_hash_stats t"
| "table_stats (Hash2 t) = table_hash2_stats t"
| "table_stats (Linear t) = table_linear_stats t"

primrec map_swt :: "(swt \<Rightarrow> swt) \<Rightarrow> sw_table \<Rightarrow> sw_table" where
  "map_swt f (Hash t) = Hash (t\<lparr> th_swt := f (th_swt t) \<rparr>)"
| "map_swt f (Hash2 t) = Hash2 (t\<lparr> t2_swt := f (t2_swt t) \<rparr>)"
| "map_swt f (Linear t) = Linear (t\<lparr> tl_swt := f (tl_swt t) \<rparr>)"


section \<open>The chain\<close>

abbreviation (input) ENOMEM :: int where "ENOMEM \<equiv> 12"
abbreviation (input) ENOBUFS :: int where "ENOBUFS \<equiv> 105"

text \<open>The tables of a chain, in order; \<open>n_tables\<close> is their number.\<close>

record sw_chain =
  tables :: "sw_table list"

definition CHAIN_MAX_TABLES :: nat where "CHAIN_MAX_TABLES = 4"
definition TABLE_LINEAR_MAX_FLOWS :: u32 where "TABLE_LINEAR_MAX_FLOWS = 100"
definition TABLE_HASH_MAX_FLOWS :: u32 where "TABLE_HASH_MAX_FLOWS = 65536"

definition add_table :: "fheap \<Rightarrow> sw_chain \<Rightarrow> sw_table option \<Rightarrow> int \<times> fheap \<times> sw_chain" where
  "add_table h c table =
    (case table of
       None \<Rightarrow> (- ENOMEM, h, c)
     | Some t \<Rightarrow>
         if CHAIN_MAX_TABLES \<le> length (tables c) then (- ENOBUFS, table_destroy h t, c)
         else (0, h, c\<lparr> tables := tables c @ [t] \<rparr>))"

definition chain_destroy :: "fheap \<Rightarrow> sw_chain \<Rightarrow> fheap" where
  "chain_destroy h c = fold (\<lambda>t h. table_destroy h t) (tables c) h"

definition chain_create :: "fheap \<Rightarrow> fheap \<times> sw_chain option" where
  "chain_create h =
    (let (e, h, c) = add_table h \<lparr> tables = [] \<rparr>
           (map_option Hash2 (table_hash2_create 0x1EDC6F41 TABLE_HASH_MAX_FLOWS 0x741B8CD7 TABLE_HASH_MAX_FLOWS))
     in if e \<noteq> 0 then (chain_destroy h c, None)
        else (let (e, h, c) = add_table h c (Some (Linear (table_linear_create TABLE_LINEAR_MAX_FLOWS)))
              in if e \<noteq> 0 then (chain_destroy h c, None) else (h, Some c)))"

fun chain_lookup_loop :: "fheap \<Rightarrow> sw_flow_key \<Rightarrow> sw_table list \<Rightarrow> addr option \<times> sw_table list" where
  "chain_lookup_loop h k [] = (None, [])"
| "chain_lookup_loop h k (t # ts) =
    (let t' = map_swt (\<lambda>s. s\<lparr> n_lookup := n_lookup s + 1 \<rparr>) t in
     case table_lookup h t k of
       Some a \<Rightarrow> (Some a, map_swt (\<lambda>s. s\<lparr> n_matched := n_matched s + 1 \<rparr>) t' # ts)
     | None \<Rightarrow> (let (r, ts) = chain_lookup_loop h k ts in (r, t' # ts)))"

text \<open>The assertion that the key has no wildcards is the \<open>None\<close> branch.\<close>

definition chain_lookup :: "fheap \<Rightarrow> sw_chain \<Rightarrow> sw_flow_key \<Rightarrow> (addr option \<times> sw_chain) option" where
  "chain_lookup h c k =
    (if wildcards k \<noteq> 0 then None
     else (let (r, ts) = chain_lookup_loop h k (tables c) in Some (r, c\<lparr> tables := ts \<rparr>)))"

fun chain_insert_loop :: "fheap \<Rightarrow> sw_table list \<Rightarrow> addr \<Rightarrow> int \<times> fheap \<times> sw_table list" where
  "chain_insert_loop h [] a = (- ENOBUFS, h, [])"
| "chain_insert_loop h (t # ts) a =
    (let (ok, h, t) = table_insert h t a in
     if ok then (0, h, t # ts)
     else (let (e, h, ts) = chain_insert_loop h ts a in (e, h, t # ts)))"

definition chain_insert :: "fheap \<Rightarrow> sw_chain \<Rightarrow> addr \<Rightarrow> int \<times> fheap \<times> sw_chain" where
  "chain_insert h c a = (let (e, h, ts) = chain_insert_loop h (tables c) a in (e, h, c\<lparr> tables := ts \<rparr>))"

fun chain_modify_loop :: "(addr \<Rightarrow> bool) \<Rightarrow> sw_table list \<Rightarrow> sw_flow_key \<Rightarrow> u16 \<Rightarrow> bool \<Rightarrow> u8 list \<Rightarrow> u32 \<Rightarrow> fheap
    \<Rightarrow> u32 \<times> fheap" where
  "chain_modify_loop ok [] k prio strict acts count h = (count, h)"
| "chain_modify_loop ok (t # ts) k prio strict acts count h =
    (let (n, h) = table_modify ok h t k prio strict acts in chain_modify_loop ok ts k prio strict acts (count + n) h)"

definition chain_modify :: "(addr \<Rightarrow> bool) \<Rightarrow> fheap \<Rightarrow> sw_chain \<Rightarrow> sw_flow_key \<Rightarrow> u16 \<Rightarrow> bool \<Rightarrow> u8 list
    \<Rightarrow> u32 \<times> fheap" where
  "chain_modify ok h c k prio strict acts = chain_modify_loop ok (tables c) k prio strict acts 0 h"

fun chain_delete_loop :: "sw_table list \<Rightarrow> sw_flow_key \<Rightarrow> u16 \<Rightarrow> u16 \<Rightarrow> bool \<Rightarrow> u32 \<Rightarrow> fheap
    \<Rightarrow> (u32 \<times> fheap \<times> sw_table list) option" where
  "chain_delete_loop [] k out_port prio strict count h = Some (count, h, [])"
| "chain_delete_loop (t # ts) k out_port prio strict count h =
    (case table_delete h t k out_port prio strict of
       None \<Rightarrow> None
     | Some (n, h, t) \<Rightarrow>
         map_option (\<lambda>(count, h, ts). (count, h, t # ts))
           (chain_delete_loop ts k out_port prio strict (count + n) h))"

definition chain_delete :: "fheap \<Rightarrow> sw_chain \<Rightarrow> sw_flow_key \<Rightarrow> u16 \<Rightarrow> u16 \<Rightarrow> bool
    \<Rightarrow> (u32 \<times> fheap \<times> sw_chain) option" where
  "chain_delete h c k out_port prio strict =
    map_option (\<lambda>(n, h, ts). (n, h, c\<lparr> tables := ts \<rparr>)) (chain_delete_loop (tables c) k out_port prio strict 0 h)"

fun chain_timeout_loop :: "int \<Rightarrow> sw_table list \<Rightarrow> fheap \<Rightarrow> addr list \<Rightarrow> fheap \<times> sw_table list \<times> addr list" where
  "chain_timeout_loop now [] h ds = (h, [], ds)"
| "chain_timeout_loop now (t # ts) h ds =
    (let (h, t, ds) = table_timeout now h t ds;
         (h, ts, ds) = chain_timeout_loop now ts h ds
     in (h, t # ts, ds))"

definition chain_timeout :: "int \<Rightarrow> fheap \<Rightarrow> sw_chain \<Rightarrow> addr list \<Rightarrow> fheap \<times> sw_chain \<times> addr list" where
  "chain_timeout now h c ds =
    (let (h, ts, ds) = chain_timeout_loop now (tables c) h ds in (h, c\<lparr> tables := ts \<rparr>, ds))"


section \<open>The contract behind the function pointers\<close>

primrec table_inv :: "fheap \<Rightarrow> sw_table \<Rightarrow> bool" where
  "table_inv h (Hash t) = hash_inv h t"
| "table_inv h (Hash2 t) = hash2_inv h t"
| "table_inv h (Linear t) = linear_inv h t"

primrec table_flows :: "sw_table \<Rightarrow> addr set" where
  "table_flows (Hash t) = hash_flows t"
| "table_flows (Hash2 t) = hash2_flows t"
| "table_flows (Linear t) = set (flows t)"

text \<open>
  What the insertion of an entry may replace, whether a table has room for it, and whether a strict
  deletion looks at the priorities: only the linear table does.
\<close>

primrec table_dups :: "fheap \<Rightarrow> sw_table \<Rightarrow> addr \<Rightarrow> addr set" where
  "table_dups h (Hash t) a = hash_dups h t a"
| "table_dups h (Hash2 t) a = hash2_dups h t a"
| "table_dups h (Linear t) a = linear_dups h t a"

primrec table_room :: "fheap \<Rightarrow> sw_table \<Rightarrow> addr \<Rightarrow> bool" where
  "table_room h (Hash t) a = hash_room h t a"
| "table_room h (Hash2 t) a = hash2_room h t a"
| "table_room h (Linear t) a = linear_room h t a"

primrec table_by_prio :: "sw_table \<Rightarrow> bool" where
  "table_by_prio (Hash t) = False"
| "table_by_prio (Hash2 t) = False"
| "table_by_prio (Linear t) = True"

lemma table_insertE:
  assumes "table_insert h t a = (ok, h', t')"
  obtains (hash) u u' where "t = Hash u" "t' = Hash u'" "table_hash_insert h u a = (ok, h', u')"
    | (hash2) u u' where "t = Hash2 u" "t' = Hash2 u'" "table_hash2_insert h u a = (ok, h', u')"
    | (linear) u u' where "t = Linear u" "t' = Linear u'" "table_linear_insert h u a = (ok, h', u')"
  using assms by (cases t) (auto split: prod.splits)

interpretation tbl: sw_table table_inv table_flows table_lookup table_insert table_modify table_delete table_timeout
  table_dups table_by_prio table_room
proof (unfold_locales, goal_cases)
  case (1 h t)
  then show ?case using hash2.finite_flows by (cases t) auto
next
  case (2 h t)
  then show ?case using hash.flows_dom hash2.flows_dom linear.flows_dom by (cases t) simp_all
next
  case (3 h t h')
  then show ?case using hash.inv_cong hash2.inv_cong linear.inv_cong by (cases t) fastforce+
next
  case (4 h t k a)
  then show ?case using hash.lookup_sound hash2.lookup_sound linear.lookup_sound by (cases t) simp_all
next
  case (5 h t k a)
  then show ?case using hash.lookup_complete hash2.lookup_complete linear.lookup_complete by (cases t) simp_all
next
  case (6 h t a h' t')
  then show ?case using hash.insert_refused hash2.insert_refused linear.insert_refused
    by (cases t) (auto split: prod.splits)
next
  case (7 h t a h' t')
  then show ?case
    using hash.insert_inv [OF _ 7(2)] hash2.insert_inv [OF _ 7(2)] linear.insert_inv [OF _ 7(2)]
    by (cases t) (auto split: prod.splits)
next
  case (8 h t a h' t')
  from 8(4) show ?case
  proof (cases rule: table_insertE)
    case (hash u u')
    then show ?thesis using hash.insert_flows [OF _ 8(2)] 8(1,3) by simp
  next
    case (hash2 u u')
    then show ?thesis using hash2.insert_flows [OF _ 8(2)] 8(1,3) by simp
  next
    case (linear u u')
    then show ?thesis using linear.insert_flows [OF _ 8(2)] 8(1,3) by simp
  qed
next
  case (9 h t a h' t')
  then show ?case
    using hash.insert_heap [OF _ 9(2)] hash2.insert_heap [OF _ 9(2)] linear.insert_heap [OF _ 9(2)]
    by (cases t) (auto split: prod.splits)
next
  case (10 h t a)
  then show ?case using hash.dups_flows hash2.dups_flows linear.dups_flows by (cases t) simp_all
next
  case (11 h t a h' t')
  from 11(4) show ?case
  proof (cases rule: table_insertE)
    case (hash u u')
    then show ?thesis using hash.insert_dups [OF _ 11(2) _ hash(3)] 11(1,3) by simp
  next
    case (hash2 u u')
    then show ?thesis using hash2.insert_dups [OF _ 11(2) _ hash2(3)] 11(1,3) by simp
  next
    case (linear u u')
    then show ?thesis using linear.insert_dups [OF _ 11(2) _ linear(3)] 11(1,3) by simp
  qed
next
  case (12 h t k ok prio strict acts n h')
  then show ?case using hash.modify_heap hash2.modify_heap linear.modify_heap by (cases t) auto
next
  case (13 h t k out_port prio strict)
  show ?case
  proof (cases t)
    case (Hash u)
    show ?thesis
      using hash.delete_ok [OF _ 13(2,3), of u out_port prio strict] 13(1) unfolding Hash
      by (simp, elim exE conjE, simp)
  next
    case (Hash2 u)
    show ?thesis
      using hash2.delete_ok [OF _ 13(2,3), of u out_port prio strict] 13(1) unfolding Hash2
      by (simp, elim exE conjE, simp)
  next
    case (Linear u)
    show ?thesis
      using linear.delete_ok [OF _ 13(2,3), of u out_port prio strict] 13(1) unfolding Linear
      by (simp, elim exE conjE, simp)
  qed
next
  case (14 h t now ds h' t' ds')
  then show ?case using hash.timeout_ok hash2.timeout_ok linear.timeout_ok by (cases t) (auto split: prod.splits)
next
  case (15 h t a)
  show ?case
  proof (cases t)
    case (Hash u)
    then show ?thesis using hash.insert_room [of h u a] 15 by (auto split: prod.splits)
  next
    case (Hash2 u)
    then show ?thesis using hash2.insert_room [of h u a] 15 by (auto split: prod.splits)
  next
    case (Linear u)
    then show ?thesis using linear.insert_room [of h u a] 15 by (auto split: prod.splits)
  qed
qed



section \<open>The invariant of a chain\<close>

definition tables_flows :: "sw_table list \<Rightarrow> addr set" where
  "tables_flows ts = (\<Union>t \<in> set ts. table_flows t)"

text \<open>Every table is well-formed and no entry is in two tables.\<close>

fun tables_inv :: "fheap \<Rightarrow> sw_table list \<Rightarrow> bool" where
  "tables_inv h [] \<longleftrightarrow> True"
| "tables_inv h (t # ts) \<longleftrightarrow> table_inv h t \<and> table_flows t \<inter> tables_flows ts = {} \<and> tables_inv h ts"

definition chain_inv :: "fheap \<Rightarrow> sw_chain \<Rightarrow> bool" where
  "chain_inv h c \<longleftrightarrow> tables_inv h (tables c)"

definition chain_flows :: "sw_chain \<Rightarrow> addr set" where
  "chain_flows c = tables_flows (tables c)"

lemma tables_flows_simps [simp]: "tables_flows [] = {}" "tables_flows (t # ts) = table_flows t \<union> tables_flows ts"
  by (simp_all add: tables_flows_def)

lemma tables_inv_cong:
  "tables_inv h ts \<Longrightarrow> (\<And>a. a \<in> tables_flows ts \<Longrightarrow> a \<in> dom h' \<and> same_entry (fl h' a) (fl h a)) \<Longrightarrow> tables_inv h' ts"
proof (induction ts)
  case (Cons t ts)
  then show ?case using tbl.inv_cong [of h t h'] by simp
qed simp

lemma tables_flows_dom: "tables_inv h ts \<Longrightarrow> tables_flows ts \<subseteq> dom h"
  using tbl.flows_dom by (induction ts) auto

lemma tables_inv_frame:
  assumes "tables_inv h ts" "\<And>a. a \<in> tables_flows ts \<Longrightarrow> h' a = h a"
  shows "tables_inv h' ts"
proof (rule tables_inv_cong [OF assms(1)])
  fix a
  assume "a \<in> tables_flows ts"
  then show "a \<in> dom h' \<and> same_entry (fl h' a) (fl h a)"
    using assms(2) [of a] tables_flows_dom [OF assms(1)] by (auto simp: same_entry_def fl_def domIff)
qed

lemma table_inv_frame:
  assumes "table_inv h t" "\<And>a. a \<in> table_flows t \<Longrightarrow> h' a = h a"
  shows "table_inv h' t"
  using tables_inv_frame [of h "[t]" h'] assms by simp


section \<open>Lookup\<close>

lemma map_swt_simps [simp]:
  "table_flows (map_swt f t) = table_flows t" "table_inv h (map_swt f t) = table_inv h t"
  by (cases t; simp add: hash_flows_def hash_inv_def hash_shape_def bucket_ok_def find_bucket_def
      hash2_flows_def hash2_inv_def linear_inv_def)+

lemma chain_lookup_loop_tables:
  "chain_lookup_loop h k ts = (r, ts') \<Longrightarrow> tables_flows ts' = tables_flows ts \<and> (tables_inv h ts' \<longleftrightarrow> tables_inv h ts)"
proof (induction ts arbitrary: r ts')
  case (Cons t ts)
  then show ?case by (cases "table_lookup h t k") (auto simp: Let_def split: prod.splits)
qed simp

lemma chain_lookup_loop_result:
  "fst (chain_lookup_loop h k ts) = (case find (\<lambda>t. table_lookup h t k \<noteq> None) ts of
     None \<Rightarrow> None | Some t \<Rightarrow> table_lookup h t k)"
  by (induction ts) (auto simp: Let_def split: option.splits prod.splits)

lemma tables_inv_table: "tables_inv h ts \<Longrightarrow> t \<in> set ts \<Longrightarrow> table_inv h t"
  by (induction ts) auto

lemma chain_lookup_sound:
  assumes "tables_inv h ts" "packet_key k" "fst (chain_lookup_loop h k ts) = Some a"
  shows "a \<in> tables_flows ts \<and> flow_matches_1wild k (key (fl h a))"
proof -
  obtain t where t: "find (\<lambda>t. table_lookup h t k \<noteq> None) ts = Some t" "table_lookup h t k = Some a"
    using assms(3) by (auto simp: chain_lookup_loop_result split: option.splits)
  then have "t \<in> set ts" by (auto dest: find_SomeD)
  with t(2) tbl.lookup_sound [OF tables_inv_table [OF assms(1)] t(2) assms(2)] show ?thesis
    by (auto simp: tables_flows_def)
qed

lemma chain_lookup_complete:
  assumes "tables_inv h ts" "packet_key k" "fst (chain_lookup_loop h k ts) = None" "a \<in> tables_flows ts"
  shows "\<not> flow_matches_1wild k (key (fl h a))"
proof -
  obtain t where t: "t \<in> set ts" "a \<in> table_flows t" using assms(4) by (auto simp: tables_flows_def)
  have "table_lookup h t k = None"
    using assms(3) t(1) by (auto simp: chain_lookup_loop_result find_None_iff dest: find_SomeD split: option.splits)
  then show ?thesis using tbl.lookup_complete [OF tables_inv_table [OF assms(1) t(1)] _ assms(2) t(2)] by blast
qed


section \<open>Insertion, deletion and expiry\<close>

lemma chain_insert_loop_ok:
  assumes "tables_inv h ts" "a \<in> dom h" "a \<notin> tables_flows ts" "key_wf (key (fl h a))"
    and "chain_insert_loop h ts a = (e, h', ts')"
  shows "tables_inv h' ts' \<and>
    (if e = 0 then a \<in> tables_flows ts' \<and> tables_flows ts' \<subseteq> insert a (tables_flows ts) \<and>
       (\<exists>s. h' = (h |` (- (tables_flows ts - tables_flows ts')))(a \<mapsto> (fl h a)\<lparr> serial := s \<rparr>))
     else e = - ENOBUFS \<and> h' = h \<and> ts' = ts)"
  using assms
proof (induction ts arbitrary: ts')
  case (Cons t ts)
  obtain ok h1 t1 where t1: "table_insert h t a = (ok, h1, t1)" by (metis prod.exhaust)
  have t: "table_inv h t" "a \<notin> table_flows t" and disj: "table_flows t \<inter> tables_flows ts = {}" "tables_inv h ts"
    "a \<notin> tables_flows ts"
    using Cons.prems by auto
  show ?case
  proof (cases ok)
    case True
    with t1 have ins: "table_insert h t a = (True, h1, t1)" by simp
    have res: "e = 0" "h' = h1" "ts' = t1 # ts" using Cons.prems(5) ins by auto
    have flows: "a \<in> table_flows t1" "table_flows t1 \<subseteq> insert a (table_flows t)"
      using tbl.insert_flows [OF t(1) Cons.prems(2) t(2) ins] by auto
    obtain s where s: "h1 = (h |` (- (table_flows t - table_flows t1)))(a \<mapsto> (fl h a)\<lparr> serial := s \<rparr>)"
      using tbl.insert_heap [OF t(1) Cons.prems(2) t(2) ins] by blast
    have "tables_inv h1 ts"
      using disj by (intro tables_inv_frame [OF disj(2)]) (auto simp: s restrict_map_def)
    moreover have "table_inv h1 t1" using tbl.insert_inv [OF t(1) Cons.prems(2) t(2) Cons.prems(4) ins] .
    ultimately have inv: "tables_inv h1 (t1 # ts)" using flows disj by auto
    have "tables_flows (t # ts) - tables_flows (t1 # ts) = table_flows t - table_flows t1"
      using disj(1) by auto
    then have "\<exists>s. h1 = (h |` (- (tables_flows (t # ts) - tables_flows (t1 # ts))))(a \<mapsto> (fl h a)\<lparr> serial := s \<rparr>)"
      using s by metis
    moreover have "a \<in> tables_flows (t1 # ts)" "tables_flows (t1 # ts) \<subseteq> insert a (tables_flows (t # ts))" using flows by auto
    ultimately show ?thesis unfolding res using inv by simp
  next
    case False
    then have "h1 = h" "t1 = t" using tbl.insert_refused [of h t a h1 t1] t1 by auto
    then obtain ts1 where IH: "chain_insert_loop h ts a = (e, h', ts1)" "ts' = t # ts1"
      using Cons.prems(5) False t1 by (auto split: prod.splits)
    have sub: "tables_inv h' ts1 \<and>
      (if e = 0 then a \<in> tables_flows ts1 \<and> tables_flows ts1 \<subseteq> insert a (tables_flows ts) \<and>
         (\<exists>s. h' = (h |` (- (tables_flows ts - tables_flows ts1)))(a \<mapsto> (fl h a)\<lparr> serial := s \<rparr>))
       else e = - ENOBUFS \<and> h' = h \<and> ts1 = ts)"
      using Cons.IH [OF disj(2) Cons.prems(2) disj(3) Cons.prems(4) IH(1)] .
    show ?thesis
    proof (cases "e = 0")
      case True
      with sub obtain s where s: "h' = (h |` (- (tables_flows ts - tables_flows ts1)))(a \<mapsto> (fl h a)\<lparr> serial := s \<rparr>)"
        "a \<in> tables_flows ts1" "tables_flows ts1 \<subseteq> insert a (tables_flows ts)" "tables_inv h' ts1" by auto
      have "table_inv h' t" using disj t(2) by (intro table_inv_frame [OF t(1)]) (auto simp: s(1) restrict_map_def)
      then have inv: "tables_inv h' (t # ts1)" using s(3,4) disj(1) t(2) by auto
      have "tables_flows (t # ts) - tables_flows (t # ts1) = tables_flows ts - tables_flows ts1"
        using disj(1) by auto
      then have "\<exists>s. h' = (h |` (- (tables_flows (t # ts) - tables_flows (t # ts1))))(a \<mapsto> (fl h a)\<lparr> serial := s \<rparr>)"
        using s(1) by metis
      moreover have "a \<in> tables_flows (t # ts1)" "tables_flows (t # ts1) \<subseteq> insert a (tables_flows (t # ts))" using s(2,3) by auto
      ultimately show ?thesis unfolding IH(2) using inv True by simp
    next
      case False
      with sub IH(2) Cons.prems(1) show ?thesis by simp
    qed
  qed
qed simp


lemma table_insert_exact:
  assumes "table_inv h t" "a \<in> dom h" "a \<notin> table_flows t" "table_insert h t a = (True, h', t')"
  obtains R s where "if table_dups h t a = {} then R = {} else \<exists>b \<in> table_dups h t a. R = {b}"
    "table_flows t' = insert a (table_flows t - R)" "R \<subseteq> table_flows t"
    "h' = (h |` (- R))(a \<mapsto> (fl h a)\<lparr> serial := s \<rparr>)"
proof -
  let ?R = "table_flows t - table_flows t'"
  obtain s where s: "h' = (h |` (- ?R))(a \<mapsto> (fl h a)\<lparr> serial := s \<rparr>)" using tbl.insert_heap [OF assms] by blast
  have "if table_dups h t a = {} then ?R = {} else \<exists>b \<in> table_dups h t a. ?R = {b}"
    using tbl.insert_dups [OF assms] by (cases "table_dups h t a = {}") simp_all
  moreover have "table_flows t' = insert a (table_flows t - ?R)" using tbl.insert_flows [OF assms] by blast
  ultimately show thesis using that [of ?R s] s by blast
qed

lemma tables_inv_append:
  "tables_inv h (us @ vs) \<longleftrightarrow> tables_inv h us \<and> tables_inv h vs \<and> tables_flows us \<inter> tables_flows vs = {}"
  by (induction us) (auto simp: tables_flows_def)

lemma tables_flows_replace:
  assumes "tables_inv h (us @ t # vs)" "table_flows t' = insert a (table_flows t - R)" "R \<subseteq> table_flows t"
  shows "tables_flows (us @ t' # vs) = insert a (tables_flows (us @ t # vs) - R)"
proof -
  have split: "tables_flows (us @ u # vs) = tables_flows us \<union> table_flows u \<union> tables_flows vs" for u
    by (auto simp: tables_flows_def)
  have "tables_flows us \<inter> table_flows t = {}" "table_flows t \<inter> tables_flows vs = {}"
    using assms(1) by (auto simp: tables_inv_append)
  then show ?thesis unfolding split assms(2) using assms(3) by blast
qed

text \<open>The tables are tried in order, and the first one with room takes the entry.\<close>

lemma chain_insert_loop_table:
  assumes "tables_inv h ts" "chain_insert_loop h ts a = (e, h', ts')"
  shows "if e = 0 then \<exists>us t t' vs. ts = us @ t # vs \<and> ts' = us @ t' # vs \<and> (\<forall>u \<in> set us. \<not> table_room h u a) \<and>
      table_room h t a \<and> table_insert h t a = (True, h', t')
    else \<forall>t \<in> set ts. \<not> table_room h t a"
  using assms
proof (induction ts arbitrary: ts')
  case (Cons t ts)
  obtain ok h1 t1 where t1: "table_insert h t a = (ok, h1, t1)" by (metis prod.exhaust)
  have room: "table_room h t a \<longleftrightarrow> ok" using tbl.insert_room [of h t a] t1 Cons.prems(1) by simp
  show ?case
  proof (cases ok)
    case True
    then show ?thesis using Cons.prems(2) t1 room by (intro if_P [THEN iffD2] exI [of _ "[]"]) auto
  next
    case False
    then have "h1 = h" "t1 = t" using tbl.insert_refused [of h t a h1 t1] t1 by auto
    then obtain ts1 where IH: "chain_insert_loop h ts a = (e, h', ts1)" "ts' = t # ts1"
      using Cons.prems(2) False t1 by (auto split: prod.splits)
    have sub: "if e = 0 then \<exists>us u u' vs. ts = us @ u # vs \<and> ts1 = us @ u' # vs \<and> (\<forall>u \<in> set us. \<not> table_room h u a) \<and>
        table_room h u a \<and> table_insert h u a = (True, h', u')
      else \<forall>t \<in> set ts. \<not> table_room h t a"
      using Cons.IH [OF _ IH(1)] Cons.prems(1) by simp
    show ?thesis
    proof (cases "e = 0")
      case True
      with sub obtain us u u' vs where us: "ts = us @ u # vs" "ts1 = us @ u' # vs" "\<forall>u \<in> set us. \<not> table_room h u a"
        "table_room h u a" "table_insert h u a = (True, h', u')" by auto
      have "t # ts = (t # us) @ u # vs" "ts' = (t # us) @ u' # vs" "\<forall>u \<in> set (t # us). \<not> table_room h u a"
        using us(1-3) IH(2) room False by simp_all
      then show ?thesis using True us(4,5) by metis
    next
      case e: False
      then show ?thesis using sub room False by simp
    qed
  qed
qed simp

lemma acts_valid_restrict: "acts_valid h \<Longrightarrow> acts_valid (h |` (- D))"
  by (auto simp: acts_valid_def fl_def restrict_map_def split: if_splits)

text \<open>
  The entries that a deletion removes: those the description and the output port select and, in a table
  that looks at the priorities of a strict deletion, that have the priority.
\<close>

definition deleted :: "fheap \<Rightarrow> sw_table list \<Rightarrow> sw_flow_key \<Rightarrow> u16 \<Rightarrow> u16 \<Rightarrow> bool \<Rightarrow> addr set" where
  "deleted h ts k out_port prio strict =
    {a. \<exists>t \<in> set ts. a \<in> table_flows t \<and> flow_matches_desc (key (fl h a)) k strict \<and> has_out_port (fl h a) out_port \<and>
      (table_by_prio t \<and> strict \<longrightarrow> priority (fl h a) = prio)}"

lemma deleted_Nil [simp]: "deleted h [] k out_port prio strict = {}"
  by (simp add: deleted_def)

lemma deleted_Cons: "deleted h (t # ts) k out_port prio strict =
    {a \<in> table_flows t. sel_desc h k strict a \<and> has_out_port (fl h a) out_port \<and>
      (table_by_prio t \<longrightarrow> sel_prio h prio strict a)} \<union> deleted h ts k out_port prio strict"
  by (auto simp: deleted_def sel_desc_def sel_prio_def)

lemma deleted_cong:
  assumes "\<And>a. a \<in> tables_flows ts \<Longrightarrow> fl h' a = fl h a"
  shows "deleted h' ts k out_port prio strict = deleted h ts k out_port prio strict"
proof -
  have "fl h' a = fl h a" if "t \<in> set ts" "a \<in> table_flows t" for t a
    using assms that by (auto simp: tables_flows_def)
  then show ?thesis unfolding deleted_def by (intro Collect_cong bex_cong refl conj_cong) simp_all
qed

lemma deleted_sub: "deleted h ts k out_port prio strict \<subseteq> tables_flows ts"
  by (auto simp: deleted_def tables_flows_def)

lemma finite_tables_flows: "tables_inv h ts \<Longrightarrow> finite (tables_flows ts)"
  by (induction ts) (auto simp: tbl.finite_flows)

lemma chain_delete_loop_ok:
  assumes "tables_inv h ts" "acts_valid h" "key_wf k"
  shows "\<exists>h' ts'. chain_delete_loop ts k out_port prio strict c h =
      Some (c + of_nat (card (deleted h ts k out_port prio strict)), h', ts') \<and> tables_inv h' ts' \<and>
    tables_flows ts' \<subseteq> tables_flows ts \<and> h' = h |` (- (tables_flows ts - tables_flows ts')) \<and>
    tables_flows ts - tables_flows ts' = deleted h ts k out_port prio strict"
  using assms
proof (induction ts arbitrary: c h)
  case Nil
  then show ?case by (simp add: restrict_map_def)
next
  case (Cons t ts)
  let ?D = "{a \<in> table_flows t. sel_desc h k strict a \<and> has_out_port (fl h a) out_port \<and>
      (table_by_prio t \<longrightarrow> sel_prio h prio strict a)}" and ?E = "deleted h ts k out_port prio strict"
  have t: "table_inv h t" "table_flows t \<inter> tables_flows ts = {}" "tables_inv h ts" using Cons.prems by auto
  obtain n h1 t1 where del: "table_delete h t k out_port prio strict = Some (n, h1, t1)"
      "n = of_nat (card (table_flows t - table_flows t1))"
    and t1: "table_inv h1 t1" "table_flows t1 \<subseteq> table_flows t" "h1 = h |` (- (table_flows t - table_flows t1))"
      "table_flows t - table_flows t1 = ?D"
    using tbl.delete_ok [OF t(1) Cons.prems(2,3), of out_port prio strict] by blast
  have n: "n = of_nat (card ?D)" unfolding del(2) t1(4) ..
  note t1 = del(1) [unfolded n] t1
  have same: "h1 a = h a" if "a \<in> tables_flows ts" for a using that t(2) by (auto simp: t1(4) restrict_map_def)
  then have E: "deleted h1 ts k out_port prio strict = ?E" by (intro deleted_cong) (simp add: fl_def)
  have "acts_valid h1" unfolding t1(4) by (rule acts_valid_restrict [OF Cons.prems(2)])
  from Cons.IH [OF tables_inv_frame [OF t(3) same] this Cons.prems(3), of "c + of_nat (card ?D)", unfolded E]
  obtain h2 ts2 where ts2: "chain_delete_loop ts k out_port prio strict (c + of_nat (card ?D)) h1 =
      Some (c + of_nat (card ?D) + of_nat (card ?E), h2, ts2)"
    "tables_inv h2 ts2" "tables_flows ts2 \<subseteq> tables_flows ts" "h2 = h1 |` (- (tables_flows ts - tables_flows ts2))"
    "tables_flows ts - tables_flows ts2 = ?E"
    by blast
  have gone: "tables_flows (t # ts) - tables_flows (t1 # ts2) =
      (table_flows t - table_flows t1) \<union> (tables_flows ts - tables_flows ts2)"
    using t(2) t1(3) ts2(3) by auto
  have "?D \<inter> ?E = {}" using t(2) deleted_sub [of h ts] by blast
  moreover have "finite ?D" "finite ?E"
    using tbl.finite_flows [OF t(1)] finite_subset [OF deleted_sub finite_tables_flows [OF t(3)]] by auto
  ultimately have card: "card (deleted h (t # ts) k out_port prio strict) = card ?D + card ?E"
    unfolding deleted_Cons by (simp add: card_Un_disjoint)
  have "table_inv h2 t1" using t(2) t1(3) by (intro table_inv_frame [OF t1(2)]) (auto simp: ts2(4) restrict_map_def)
  then have "tables_inv h2 (t1 # ts2)" using ts2(2,3) t1(3) t(2) by auto
  moreover have "h2 = h |` (- (tables_flows (t # ts) - tables_flows (t1 # ts2)))"
    unfolding gone ts2(4) t1(4) by (rule restrict_restrict_compl)
  moreover have "chain_delete_loop (t # ts) k out_port prio strict c h =
      Some (c + of_nat (card (deleted h (t # ts) k out_port prio strict)), h2, t1 # ts2)"
    using t1(1) ts2(1) by (simp add: card add.assoc)
  moreover have "tables_flows (t1 # ts2) \<subseteq> tables_flows (t # ts)" using t1(3) ts2(3) by auto
  moreover have "tables_flows (t # ts) - tables_flows (t1 # ts2) = deleted h (t # ts) k out_port prio strict"
    unfolding gone t1(5) ts2(5) deleted_Cons ..
  ultimately show ?case by blast
qed

lemma chain_timeout_loop_ok:
  assumes "tables_inv h ts" "chain_timeout_loop now ts h ds = (h', ts', ds')"
  shows "tables_inv h' ts' \<and> tables_flows ts' = {a \<in> tables_flows ts. \<not> expired now (fl h a)} \<and>
    (\<exists>xs. ds' = ds @ xs \<and> distinct xs \<and> set xs = {a \<in> tables_flows ts. expired now (fl h a)} \<and>
      h' = (\<lambda>a. if a \<in> set xs then Some (snd (flow_timeout now (fl h a))) else h a))"
  using assms
proof (induction ts arbitrary: h ds h' ts' ds')
  case (Cons t ts)
  obtain h1 t1 ds1 where t1: "table_timeout now h t ds = (h1, t1, ds1)" by (metis prod.exhaust)
  obtain ts1 where ts1: "chain_timeout_loop now ts h1 ds1 = (h', ts1, ds')" "ts' = t1 # ts1"
    using Cons.prems(2) t1 by (auto split: prod.splits)
  have t: "table_inv h t" "table_flows t \<inter> tables_flows ts = {}" "tables_inv h ts" using Cons.prems by auto
  obtain xs where xs: "table_inv h1 t1" "table_flows t1 = {a \<in> table_flows t. \<not> expired now (fl h a)}"
    "ds1 = ds @ xs" "distinct xs" "set xs = {a \<in> table_flows t. expired now (fl h a)}"
    "h1 = (\<lambda>a. if a \<in> set xs then Some (snd (flow_timeout now (fl h a))) else h a)"
    using tbl.timeout_ok [OF t(1) t1] by blast
  have same: "h1 a = h a" if "a \<in> tables_flows ts" for a using that t(2) xs(5,6) by auto
  have fl: "fl h1 a = fl h a" if "a \<in> tables_flows ts" for a using same [OF that] by (simp add: fl_def)
  obtain ys where ys: "tables_inv h' ts1" "tables_flows ts1 = {a \<in> tables_flows ts. \<not> expired now (fl h1 a)}"
    "ds' = ds1 @ ys" "distinct ys" "set ys = {a \<in> tables_flows ts. expired now (fl h1 a)}"
    "h' = (\<lambda>a. if a \<in> set ys then Some (snd (flow_timeout now (fl h1 a))) else h1 a)"
    using Cons.IH [OF tables_inv_frame [OF t(3) same] ts1(1)] by blast
  have "table_inv h' t1" using xs(2) ys(5,6) t(2) by (intro table_inv_frame [OF xs(1)]) auto
  then have inv: "tables_inv h' ts'" using ys(1,2) xs(2) t(2) by (auto simp: ts1(2))
  have h': "h' = (\<lambda>a. if a \<in> set (xs @ ys) then Some (snd (flow_timeout now (fl h a))) else h a)"
    using xs(5,6) ys(5,6) fl t(2) by (auto simp: fun_eq_iff)
  have ds': "ds' = ds @ (xs @ ys)" "distinct (xs @ ys)" using xs(3-5) ys(3-5) t(2) by auto
  have set: "set (xs @ ys) = {a \<in> tables_flows (t # ts). expired now (fl h a)}"
    using xs(5) ys(5) fl by auto
  have flows: "tables_flows ts' = {a \<in> tables_flows (t # ts). \<not> expired now (fl h a)}"
    using xs(2) ys(2) fl by (auto simp: ts1(2))
  show ?case by (intro conjI exI [of _ "xs @ ys"]) (fact inv flows h' ds' set)+
qed simp


lemma chain_modify_loop_heap:
  assumes "tables_inv h ts" "key_wf k" "chain_modify_loop ok ts k prio strict acts c h = (n, h')"
  shows "h' a = (if a \<in> tables_flows ts \<and> sel_desc h k strict a \<and> sel_prio h prio strict a
    then Some (flow_replace_acts (ok a) acts (fl h a)) else h a)"
  using assms
proof (induction ts arbitrary: c h)
  case (Cons t ts)
  obtain m h1 where m: "table_modify ok h t k prio strict acts = (m, h1)" by fastforce
  have t: "table_inv h t" "table_flows t \<inter> tables_flows ts = {}" "tables_inv h ts" using Cons.prems by auto
  have h1: "h1 a = (if a \<in> table_flows t \<and> sel_desc h k strict a \<and> sel_prio h prio strict a
      then Some (flow_replace_acts (ok a) acts (fl h a)) else h a)" for a
    using tbl.modify_heap [OF t(1) Cons.prems(2) m] by blast
  then have same: "h1 a = h a" if "a \<in> tables_flows ts" for a using that t(2) by auto
  have IH: "h' a = (if a \<in> tables_flows ts \<and> sel_desc h1 k strict a \<and> sel_prio h1 prio strict a
      then Some (flow_replace_acts (ok a) acts (fl h1 a)) else h1 a)"
    using Cons.prems(3) m by (intro Cons.IH [OF tables_inv_frame [OF t(3) same] Cons.prems(2)]) simp_all
  show ?case
  proof (cases "a \<in> tables_flows ts")
    case True
    then have eq: "fl h1 a = fl h a" "h1 a = h a" using same by (simp_all add: fl_def)
    with IH True show ?thesis by (simp add: sel_cong [OF eq(1)])
  next
    case False
    with IH show ?thesis by (simp add: h1)
  qed
qed simp

lemma chain_modify_inv:
  assumes inv: "tables_inv h ts" and k: "key_wf k" and mod: "chain_modify_loop ok ts k prio strict acts c h = (n, h')"
  shows "tables_inv h' ts"
proof (rule tables_inv_cong [OF inv])
  fix a
  assume "a \<in> tables_flows ts"
  then show "a \<in> dom h' \<and> same_entry (fl h' a) (fl h a)"
    using chain_modify_loop_heap [OF assms, of a] tables_flows_dom [OF inv]
    by (auto simp: fl_def same_entry_def flow_replace_acts_def domIff split: if_splits)
qed


section \<open>Properties of the chain\<close>

lemma chain_inv_create: "chain_create h = (h, Some c) \<Longrightarrow> chain_inv h c \<and> chain_flows c = {}"
proof -
  assume c: "chain_create h = (h, Some c)"
  obtain th0 th1 where th: "table_hash_create 0x1EDC6F41 TABLE_HASH_MAX_FLOWS = Some th0"
    "table_hash_create 0x741B8CD7 TABLE_HASH_MAX_FLOWS = Some th1"
    by (simp add: table_hash_create_def TABLE_HASH_MAX_FLOWS_def)
  have "hash_inv h th0" "hash_inv h th1"
    using th by (auto intro!: table_hash_create_inv simp: TABLE_HASH_MAX_FLOWS_def)
  moreover have "hash_flows th0 = {}" "hash_flows th1 = {}"
    using th by (auto simp: table_hash_create_def TABLE_HASH_MAX_FLOWS_def hash_flows_def)
  ultimately show ?thesis
    using c th linear_inv_create [of h]
    by (auto simp: chain_create_def add_table_def table_hash2_create_def CHAIN_MAX_TABLES_def chain_inv_def
        chain_flows_def hash2_inv_def hash2_flows_def table_linear_create_def)
qed

text \<open>
  C10. Looking a packet's key up in a chain never fails the assertion, changes only the counters, and
  returns an entry that matches the packet; it returns none only when no entry of any table matches.
\<close>

theorem chain_lookup_correct:
  assumes "chain_inv h c" and "packet_key k"
  shows "\<exists>r c'. chain_lookup h c k = Some (r, c') \<and> chain_inv h c' \<and> chain_flows c' = chain_flows c \<and>
    (case r of
       None \<Rightarrow> \<forall>a \<in> chain_flows c. \<not> flow_matches_1wild k (key (fl h a))
     | Some a \<Rightarrow> a \<in> chain_flows c \<and> flow_matches_1wild k (key (fl h a)))"
proof -
  obtain r ts where r: "chain_lookup_loop h k (tables c) = (r, ts)" by fastforce
  have "chain_lookup h c k = Some (r, c\<lparr> tables := ts \<rparr>)"
    using r assms(2) by (simp add: chain_lookup_def packet_key_def)
  moreover have "chain_inv h (c\<lparr> tables := ts \<rparr>)" "chain_flows (c\<lparr> tables := ts \<rparr>) = chain_flows c"
    using chain_lookup_loop_tables [OF r] assms(1) by (simp_all add: chain_inv_def chain_flows_def)
  moreover have "case r of None \<Rightarrow> \<forall>a \<in> chain_flows c. \<not> flow_matches_1wild k (key (fl h a))
     | Some a \<Rightarrow> a \<in> chain_flows c \<and> flow_matches_1wild k (key (fl h a))"
    using chain_lookup_sound [of h "tables c" k] chain_lookup_complete [of h "tables c" k] assms r
    by (auto simp: chain_inv_def chain_flows_def split: option.splits)
  ultimately show ?thesis by blast
qed

definition sample_chain :: sw_chain where
  "sample_chain = \<lparr> tables = [Hash2 (sample_hash2 None None), Linear sample_linear] \<rparr>"

lemma sample_hash2_empty: "hash2_inv h (sample_hash2 None None)" "hash2_flows (sample_hash2 None None) = {}"
  using sample_hash_inv [of None h] by (auto simp: hash2_inv_def hash2_flows_def sample_hash2_def)

lemma sample_chain_inv: "chain_inv sample_heap sample_chain" "chain_flows sample_chain = {0, 1}"
  using sample_hash2_empty sample_linear_inv
  by (auto simp: chain_inv_def chain_flows_def sample_chain_def sample_linear_def)

theorem chain_lookup_correct_witness:
  "\<exists>r c'. chain_lookup sample_heap sample_chain (sample_packet 1) = Some (r, c') \<and> r \<noteq> None"
proof -
  obtain r c' where r: "chain_lookup sample_heap sample_chain (sample_packet 1) = Some (r, c')"
    "case r of None \<Rightarrow> \<forall>a \<in> chain_flows sample_chain. \<not> flow_matches_1wild (sample_packet 1) (key (fl sample_heap a))
     | Some a \<Rightarrow> a \<in> chain_flows sample_chain \<and> flow_matches_1wild (sample_packet 1) (key (fl sample_heap a))"
    using chain_lookup_correct [OF sample_chain_inv(1) packet_key_sample] by blast
  moreover have "flow_matches_1wild (sample_packet 1) (key (fl sample_heap 0))"
    by (simp add: sample_heap_def fl_def sample_matches)
  ultimately show ?thesis by (auto simp: sample_chain_inv(2) split: option.splits)
qed




text \<open>
  C9. Deleting from a chain whose entries have well-formed actions always finishes, removes and frees
  exactly the entries that match the description, have an output action whose 32-bit port field equals the
  16-bit port of the request (unless that is \<open>OFPP_NONE\<close>) and, in the linear tables when the deletion is
  strict, have the priority, which the hash tables do not look at.  It returns their number; what remains
  is untouched, and the invariant survives.
\<close>

theorem chain_delete_correct:
  assumes "chain_inv h c" and "acts_valid h" and "key_wf k"
    and "D = {a. \<exists>t \<in> set (tables c). a \<in> table_flows t \<and> flow_matches_desc (key (fl h a)) k strict \<and>
        has_out_port (fl h a) out_port \<and> (table_by_prio t \<and> strict \<longrightarrow> priority (fl h a) = prio)}"
  shows "\<exists>c'. chain_delete h c k out_port prio strict = Some (of_nat (card D), h |` (- D), c') \<and>
    chain_inv (h |` (- D)) c' \<and> chain_flows c' = chain_flows c - D"
proof -
  have D: "D = deleted h (tables c) k out_port prio strict" unfolding assms(4) deleted_def ..
  obtain h' ts' where ts: "chain_delete_loop (tables c) k out_port prio strict 0 h = Some (0 + of_nat (card D), h', ts')"
    "tables_inv h' ts'" "tables_flows ts' \<subseteq> tables_flows (tables c)"
    "h' = h |` (- (tables_flows (tables c) - tables_flows ts'))" "tables_flows (tables c) - tables_flows ts' = D"
    using chain_delete_loop_ok [OF assms(1) [unfolded chain_inv_def] assms(2,3), of out_port prio strict 0, folded D] by blast
  have h': "h' = h |` (- D)" unfolding ts(4,5) ..
  have "tables_flows ts' = tables_flows (tables c) - D" using ts(3,5) by blast
  then show ?thesis using ts(1,2) by (simp add: h' chain_delete_def chain_inv_def chain_flows_def)
qed

theorem chain_delete_correct_witness:
  "\<exists>n h' c'. chain_delete sample_heap sample_chain (key (sample_flow 5 1)) (htons OFPP_NONE) 0 False = Some (n, h', c') \<and>
     chain_inv h' c'"
  using chain_delete_correct [OF sample_chain_inv(1) sample_acts_valid key_wf_sample refl,
      where strict = False and out_port = "htons OFPP_NONE" and prio = 0] by blast

text \<open>
  C11. Expiry over a chain removes exactly the entries whose idle or hard timeout has passed, appends each
  of them once to the list for the caller, marks them with the reason, and frees none.
\<close>

theorem chain_timeout_correct:
  assumes "chain_inv h c" and "chain_timeout now h c ds = (h', c', ds')"
  shows "chain_inv h' c' \<and> chain_flows c' = {a \<in> chain_flows c. \<not> expired now (fl h a)} \<and>
    (\<exists>xs. ds' = ds @ xs \<and> distinct xs \<and> set xs = {a \<in> chain_flows c. expired now (fl h a)} \<and>
      h' = (\<lambda>a. if a \<in> set xs then Some (snd (flow_timeout now (fl h a))) else h a))"
proof -
  obtain ts where ts: "chain_timeout_loop now (tables c) h ds = (h', ts, ds')" "tables c' = ts"
    using assms(2) by (auto simp: chain_timeout_def split: prod.splits)
  from chain_timeout_loop_ok [OF assms(1) [unfolded chain_inv_def] ts(1)] show ?thesis
    unfolding chain_inv_def chain_flows_def ts(2) .
qed

theorem chain_timeout_correct_witness:
  "\<exists>h' c' ds'. chain_timeout 11 sample_heap sample_chain [] = (h', c', ds') \<and> chain_flows c' = {}"
proof -
  obtain h' c' ds' where out: "chain_timeout 11 sample_heap sample_chain [] = (h', c', ds')" by (metis prod.exhaust)
  have "expired 11 (fl sample_heap a)" if "a \<in> {0, 1}" for a
    using that by (auto simp: expired_def flow_timeout_def sample_heap_def fl_def sample_flow_def)
  then have "{a \<in> chain_flows sample_chain. \<not> expired 11 (fl sample_heap a)} = {}"
    unfolding sample_chain_inv(2) by blast
  moreover have "chain_flows c' = {a \<in> chain_flows sample_chain. \<not> expired 11 (fl sample_heap a)}"
    using chain_timeout_correct [OF sample_chain_inv(1) out] by (rule conjunct2 [THEN conjunct1])
  ultimately have "chain_flows c' = {}" by simp
  with out show ?thesis by blast
qed

text \<open>
  An entry whose key comes from a controller's match is refused by the exact-match table, so a chain
  as \<open>chain_create\<close> builds it stores every such entry in its linear table: the insertion behaves as the
  insertion into the linear table alone.
\<close>

theorem chain_insert_controller_flow:
  assumes "tables c = [Hash2 t2, Linear tb]" and "key (fl h a) = flow_extract_match m"
  shows "chain_insert h c a =
    (case table_linear_insert h tb a of
       (ok, h', tb') \<Rightarrow> (if ok then 0 else - ENOBUFS, h', c\<lparr> tables := [Hash2 t2, Linear tb'] \<rparr>))"
proof -
  have "bit (norm_wildcards m) 20 \<or> bit (norm_wildcards m) 6"
    by (simp add: norm_wildcards_def Let_def match_bits)
  then have "wildcards (key (fl h a)) \<noteq> 0" using assms(2) by (auto simp: wildcards_flow_extract_match)
  then have "table_hash2_insert h t2 a = (False, h, t2)"
    by (simp add: table_hash2_insert_def table_hash_insert_def)
  then show ?thesis using assms(1) by (simp add: chain_insert_def split: prod.splits)
qed

theorem chain_insert_controller_flow_witness:
  "fst (chain_insert (sample_heap(2 \<mapsto> sample_flow 4 2)) sample_chain 2) = 0"
proof -
  let ?h = "sample_heap(2 \<mapsto> sample_flow 4 2)"
  have "fst (table_linear_insert ?h sample_linear 2)"
    by (cases ?h "2 :: nat" sample_linear rule: table_linear_insert_cases) (auto simp: sample_linear_def)
  moreover have "key (fl ?h 2) = flow_extract_match (sample_match 2)" by (simp add: sample_flow_def)
  ultimately show ?thesis
    using chain_insert_controller_flow [of sample_chain "sample_hash2 None None" sample_linear ?h 2 "sample_match 2"]
    by (auto simp: sample_chain_def split: prod.splits)
qed

end
