(* ===== verification/Ofpbuf.thy ===== *)
theory Ofpbuf
  imports Prelude "HOL-Library.Monad_Syntax"
begin

text \<open>
  Packet buffers, \<open>lib/ofpbuf.c\<close>.  A buffer owns an allocated area; the bytes in use are a window of
  it, with headroom before and tailroom behind, and the layer pointers point into it.  Pointers are
  offsets from the base of the area, \<open>None\<close> is the null pointer, and \<open>allocated\<close> is the length of the
  area, so that the reallocation of \<open>ofpbuf_prealloc_tailroom\<close>, which adds the distance of the two
  areas to every pointer, leaves the offsets as they are.

  Memory from \<open>malloc\<close> holds arbitrary bytes: every operation that allocates takes them as the
  argument \<open>junk\<close>.  A failed assertion and an access outside of the area are the value \<open>None\<close>.
\<close>

section \<open>The structure\<close>

record ofpbuf =
  area :: "u8 list"
  bdata :: nat
  bsize :: nat
  l2 :: "nat option"
  l2_5 :: "nat option"
  l3 :: "nat option"
  l4 :: "nat option"
  l7 :: "nat option"
  last_mpls_h :: u32

definition allocated :: "ofpbuf \<Rightarrow> nat" where
  "allocated b = length (area b)"

text \<open>Writing the bytes \<open>xs\<close> at offset \<open>i\<close> of an area (\<open>memcpy\<close>).\<close>

definition write_at :: "nat \<Rightarrow> u8 list \<Rightarrow> u8 list \<Rightarrow> u8 list" where
  "write_at i xs m = take i m @ xs @ drop (i + length xs) m"

definition fresh :: "(nat \<Rightarrow> u8) \<Rightarrow> nat \<Rightarrow> u8 list" where
  "fresh junk n = map junk [0..<n]"


section \<open>Creation\<close>

definition ofpbuf_use :: "u8 list \<Rightarrow> ofpbuf \<Rightarrow> ofpbuf" where
  "ofpbuf_use base b =
     b\<lparr>area := base, bdata := 0, bsize := 0, l2 := None, l2_5 := None, l3 := None, l4 := None, l7 := None\<rparr>"

definition ofpbuf_init :: "(nat \<Rightarrow> u8) \<Rightarrow> nat \<Rightarrow> ofpbuf \<Rightarrow> ofpbuf" where
  "ofpbuf_init junk n b = ofpbuf_use (fresh junk n) b"

text \<open>The structure itself comes from \<open>malloc\<close> too; \<open>last_mpls_h\<close> is never initialised.\<close>

definition junk_struct :: "(nat \<Rightarrow> u8) \<Rightarrow> ofpbuf" where
  "junk_struct junk = \<lparr>area = [], bdata = 0, bsize = 0, l2 = None, l2_5 = None, l3 = None, l4 = None,
     l7 = None, last_mpls_h = le32 (junk 0) (junk 1) (junk 2) (junk 3)\<rparr>"

definition ofpbuf_new :: "(nat \<Rightarrow> u8) \<Rightarrow> nat \<Rightarrow> ofpbuf" where
  "ofpbuf_new junk n = ofpbuf_init junk n (junk_struct junk)"


section \<open>Room at the ends\<close>

definition ofpbuf_tail :: "ofpbuf \<Rightarrow> nat" where
  "ofpbuf_tail b = bdata b + bsize b"

definition ofpbuf_end :: "ofpbuf \<Rightarrow> nat" where
  "ofpbuf_end b = allocated b"

definition ofpbuf_headroom :: "ofpbuf \<Rightarrow> nat" where
  "ofpbuf_headroom b = bdata b"

definition ofpbuf_tailroom :: "ofpbuf \<Rightarrow> nat" where
  "ofpbuf_tailroom b = ofpbuf_end b - ofpbuf_tail b"

definition ofpbuf_prealloc_tailroom :: "(nat \<Rightarrow> u8) \<Rightarrow> nat \<Rightarrow> ofpbuf \<Rightarrow> ofpbuf" where
  "ofpbuf_prealloc_tailroom junk n b =
     (if ofpbuf_tailroom b < n
      then let new_allocated = allocated b + max n 64 in
        b\<lparr>area := write_at 0 (area b) (fresh junk new_allocated)\<rparr>
      else b)"

definition ofpbuf_prealloc_headroom :: "nat \<Rightarrow> ofpbuf \<Rightarrow> ofpbuf option" where
  "ofpbuf_prealloc_headroom n b = (if n \<le> ofpbuf_headroom b then Some b else None)"


section \<open>Growing and shrinking\<close>

definition ofpbuf_put_uninit :: "(nat \<Rightarrow> u8) \<Rightarrow> nat \<Rightarrow> ofpbuf \<Rightarrow> nat \<times> ofpbuf" where
  "ofpbuf_put_uninit junk n b =
     (let b = ofpbuf_prealloc_tailroom junk n b; p = ofpbuf_tail b in (p, b\<lparr>bsize := bsize b + n\<rparr>))"

definition ofpbuf_put_zeros :: "(nat \<Rightarrow> u8) \<Rightarrow> nat \<Rightarrow> ofpbuf \<Rightarrow> nat \<times> ofpbuf" where
  "ofpbuf_put_zeros junk n b =
     (let (dst, b) = ofpbuf_put_uninit junk n b in (dst, b\<lparr>area := write_at dst (replicate n 0) (area b)\<rparr>))"

definition ofpbuf_put :: "(nat \<Rightarrow> u8) \<Rightarrow> u8 list \<Rightarrow> ofpbuf \<Rightarrow> nat \<times> ofpbuf" where
  "ofpbuf_put junk p b =
     (let (dst, b) = ofpbuf_put_uninit junk (length p) b in (dst, b\<lparr>area := write_at dst p (area b)\<rparr>))"

definition ofpbuf_reserve :: "(nat \<Rightarrow> u8) \<Rightarrow> nat \<Rightarrow> ofpbuf \<Rightarrow> ofpbuf option" where
  "ofpbuf_reserve junk n b =
     (if bsize b \<noteq> 0 then None
      else let b = ofpbuf_prealloc_tailroom junk n b in Some (b\<lparr>bdata := bdata b + n\<rparr>))"

definition ofpbuf_push_uninit :: "nat \<Rightarrow> ofpbuf \<Rightarrow> ofpbuf option" where
  "ofpbuf_push_uninit n b =
     (case ofpbuf_prealloc_headroom n b of
        None \<Rightarrow> None
      | Some b \<Rightarrow> Some (b\<lparr>bdata := bdata b - n, bsize := bsize b + n\<rparr>))"

definition ofpbuf_push :: "u8 list \<Rightarrow> ofpbuf \<Rightarrow> ofpbuf option" where
  "ofpbuf_push p b =
     (case ofpbuf_push_uninit (length p) b of
        None \<Rightarrow> None
      | Some b \<Rightarrow> Some (b\<lparr>area := write_at (bdata b) p (area b)\<rparr>))"

definition ofpbuf_at :: "ofpbuf \<Rightarrow> nat \<Rightarrow> nat \<Rightarrow> nat option" where
  "ofpbuf_at b offset n = (if offset + n \<le> bsize b then Some (bdata b + offset) else None)"

definition ofpbuf_at_assert :: "ofpbuf \<Rightarrow> nat \<Rightarrow> nat \<Rightarrow> nat option" where
  "ofpbuf_at_assert b offset n = (if offset + n \<le> bsize b then Some (bdata b + offset) else None)"

definition ofpbuf_clear :: "ofpbuf \<Rightarrow> ofpbuf" where
  "ofpbuf_clear b = b\<lparr>bdata := 0, bsize := 0\<rparr>"

definition ofpbuf_pull :: "nat \<Rightarrow> ofpbuf \<Rightarrow> (nat \<times> ofpbuf) option" where
  "ofpbuf_pull n b =
     (if n \<le> bsize b then Some (bdata b, b\<lparr>bdata := bdata b + n, bsize := bsize b - n\<rparr>) else None)"

text \<open>The outer option is the assertion, the inner one the null pointer returned for a short buffer.\<close>

definition ofpbuf_try_pull :: "nat \<Rightarrow> ofpbuf \<Rightarrow> (nat option \<times> ofpbuf) option" where
  "ofpbuf_try_pull n b =
     (if n \<le> bsize b then (case ofpbuf_pull n b of None \<Rightarrow> None | Some (p, b) \<Rightarrow> Some (Some p, b))
      else Some (None, b))"

definition ofpbuf_clone :: "(nat \<Rightarrow> u8) \<Rightarrow> ofpbuf \<Rightarrow> ofpbuf" where
  "ofpbuf_clone junk buffer =
     snd (ofpbuf_put junk (take (bsize buffer) (drop (bdata buffer) (area buffer)))
       (ofpbuf_new junk (allocated buffer)))"


section \<open>Removing and inserting in the middle\<close>

definition move_back :: "nat \<Rightarrow> nat \<Rightarrow> nat option \<Rightarrow> nat option" where
  "move_back pos n p = (case p of Some q \<Rightarrow> if pos < q then Some (q - n) else Some q | None \<Rightarrow> None)"

definition move_forward :: "nat \<Rightarrow> nat \<Rightarrow> nat option \<Rightarrow> nat option" where
  "move_forward pos n p = (case p of Some q \<Rightarrow> if q \<le> pos then Some (q + n) else Some q | None \<Rightarrow> None)"

definition ofpbuf_pop :: "nat \<Rightarrow> nat \<Rightarrow> ofpbuf \<Rightarrow> ofpbuf option" where
  "ofpbuf_pop offset num_bytes b =
     (if bsize b < offset + num_bytes then None
      else
        let pop_pos = bdata b + offset;
            scratch_size = bsize b - (offset + num_bytes);
            scratch = take scratch_size (drop (pop_pos + num_bytes) (area b));
            b = b\<lparr>area := write_at pop_pos scratch (area b)\<rparr>;
            b = b\<lparr>l2 := move_back pop_pos num_bytes (l2 b)\<rparr>;
            b = b\<lparr>l2_5 := move_back pop_pos num_bytes (l2_5 b)\<rparr>;
            b = b\<lparr>l3 := move_back pop_pos num_bytes (l3 b)\<rparr>;
            b = b\<lparr>l4 := move_back pop_pos num_bytes (l4 b)\<rparr>;
            b = b\<lparr>l7 := move_back pop_pos num_bytes (l7 b)\<rparr>;
            b = (if l2_5 b = l3 b then b\<lparr>l2_5 := None\<rparr> else b)
        in Some (b\<lparr>bsize := bsize b - num_bytes\<rparr>))"

text \<open>The flag is true when the function reports that there is not enough tailroom.\<close>

definition ofpbuf_push_at :: "nat \<Rightarrow> u8 list \<Rightarrow> ofpbuf \<Rightarrow> (bool \<times> ofpbuf) option" where
  "ofpbuf_push_at offset bytes b =
     (let num_bytes = length bytes;
          push_pos = bdata b + offset;
          headroom = bdata b;
          tailroom = allocated b - bsize b - headroom
      in if tailroom < num_bytes then Some (True, b)
         else if bsize b < offset then None
         else
           let scratch_size = bsize b - offset;
               scratch = take scratch_size (drop push_pos (area b));
               b = b\<lparr>area := write_at push_pos bytes (area b)\<rparr>;
               b = b\<lparr>area := write_at (push_pos + num_bytes) scratch (area b)\<rparr>;
               b = b\<lparr>l2 := move_forward push_pos num_bytes (l2 b)\<rparr>;
               b = b\<lparr>l2_5 := move_forward push_pos num_bytes (l2_5 b)\<rparr>;
               b = b\<lparr>l3 := move_forward push_pos num_bytes (l3 b)\<rparr>;
               b = b\<lparr>l4 := move_forward push_pos num_bytes (l4 b)\<rparr>;
               b = b\<lparr>l7 := move_forward push_pos num_bytes (l7 b)\<rparr>
           in Some (False, b\<lparr>bsize := bsize b + num_bytes\<rparr>))"


section \<open>Loads and stores through pointers\<close>

text \<open>An access at offset \<open>i\<close> of the area; outside of the area it is undefined, the value \<open>None\<close>.\<close>

definition ld8 :: "ofpbuf \<Rightarrow> nat \<Rightarrow> u8 option" where
  "ld8 b i = (if i < length (area b) then Some (area b ! i) else None)"

definition ld16 :: "ofpbuf \<Rightarrow> nat \<Rightarrow> u16 option" where
  "ld16 b i = (if i + 2 \<le> length (area b) then Some (get_u16 (area b) i) else None)"

definition ld32 :: "ofpbuf \<Rightarrow> nat \<Rightarrow> u32 option" where
  "ld32 b i = (if i + 4 \<le> length (area b) then Some (get_u32 (area b) i) else None)"

definition ldn :: "ofpbuf \<Rightarrow> nat \<Rightarrow> nat \<Rightarrow> u8 list option" where
  "ldn b i n = (if i + n \<le> length (area b) then Some (take n (drop i (area b))) else None)"

definition stn :: "nat \<Rightarrow> u8 list \<Rightarrow> ofpbuf \<Rightarrow> ofpbuf option" where
  "stn i xs b = (if i + length xs \<le> length (area b) then Some (b\<lparr>area := write_at i xs (area b)\<rparr>) else None)"

definition st8 :: "nat \<Rightarrow> u8 \<Rightarrow> ofpbuf \<Rightarrow> ofpbuf option" where
  "st8 i x = stn i [x]"

definition st16 :: "nat \<Rightarrow> u16 \<Rightarrow> ofpbuf \<Rightarrow> ofpbuf option" where
  "st16 i x = stn i (bytes16 x)"

definition st32 :: "nat \<Rightarrow> u32 \<Rightarrow> ofpbuf \<Rightarrow> ofpbuf option" where
  "st32 i x = stn i (bytes32 x)"


section \<open>The bytes in use\<close>

text \<open>The abstraction: a buffer stands for the list of its bytes in use.\<close>

definition contents :: "ofpbuf \<Rightarrow> u8 list" where
  "contents b = take (bsize b) (drop (bdata b) (area b))"

definition ofpbuf_ok :: "ofpbuf \<Rightarrow> bool" where
  "ofpbuf_ok b \<longleftrightarrow> bdata b + bsize b \<le> length (area b)"

lemma length_contents [simp]: "ofpbuf_ok b \<Longrightarrow> length (contents b) = bsize b"
  by (simp add: contents_def ofpbuf_ok_def)

lemma length_write_at [simp]: "i + length xs \<le> length m \<Longrightarrow> length (write_at i xs m) = length m"
  by (simp add: write_at_def)

lemma length_fresh [simp]: "length (fresh junk n) = n"
  by (simp add: fresh_def)

text \<open>Every area splits at the window; the operations are then list equations.\<close>

lemma area_split:
  assumes "ofpbuf_ok b"
  obtains pre post where "area b = pre @ contents b @ post" "length pre = bdata b"
    "length (contents b) = bsize b" "length (area b) = bdata b + bsize b + length post"
proof
  show "area b = take (bdata b) (area b) @ contents b @ drop (bsize b) (drop (bdata b) (area b))"
    by (simp add: contents_def del: drop_drop)
  show "length (take (bdata b) (area b)) = bdata b"
    "length (area b) = bdata b + bsize b + length (drop (bsize b) (drop (bdata b) (area b)))"
    using assms by (simp_all add: ofpbuf_ok_def)
  show "length (contents b) = bsize b" using assms by (rule length_contents)
qed

lemma contentsI:
  assumes "area b = pre @ xs @ post" and "length pre = bdata b" and "length xs = bsize b"
  shows "contents b = xs" "ofpbuf_ok b"
  using assms by (simp_all add: contents_def ofpbuf_ok_def)

lemma write_at_split: "length pre = i \<Longrightarrow> length ys = length xs \<Longrightarrow> write_at i xs (pre @ ys @ post) = pre @ xs @ post"
  by (simp add: write_at_def)

lemma prealloc_tailroom:
  assumes "ofpbuf_ok b"
  shows "ofpbuf_ok (ofpbuf_prealloc_tailroom junk n b)"
    "contents (ofpbuf_prealloc_tailroom junk n b) = contents b"
    "bdata (ofpbuf_prealloc_tailroom junk n b) = bdata b"
    "bsize (ofpbuf_prealloc_tailroom junk n b) = bsize b"
    "n \<le> ofpbuf_tailroom (ofpbuf_prealloc_tailroom junk n b)"
  using assms
  by (auto simp: ofpbuf_prealloc_tailroom_def ofpbuf_ok_def contents_def write_at_def ofpbuf_tailroom_def
      ofpbuf_end_def ofpbuf_tail_def allocated_def Let_def)

lemma ofpbuf_put_contents:
  assumes "ofpbuf_ok b"
  shows "contents (snd (ofpbuf_put junk p b)) = contents b @ p" "ofpbuf_ok (snd (ofpbuf_put junk p b))"
    "fst (ofpbuf_put junk p b) = bdata b + bsize b"
proof -
  define c where "c = ofpbuf_prealloc_tailroom junk (length p) b"
  note pre = prealloc_tailroom [OF assms, where junk = junk and n = "length p", folded c_def]
  obtain x y where xy: "area c = x @ contents c @ y" "length x = bdata c" "length (contents c) = bsize c"
    "length (area c) = bdata c + bsize c + length y" using area_split [OF pre(1)] .
  have "length p \<le> length y" using pre(5) xy(4) by (simp add: ofpbuf_tailroom_def ofpbuf_end_def ofpbuf_tail_def allocated_def)
  then have "write_at (bdata c + bsize c) p (area c) = x @ (contents c @ p) @ drop (length p) y"
    using xy by (simp add: write_at_def)
  then have *: "area (snd (ofpbuf_put junk p b)) = x @ (contents b @ p) @ drop (length p) y"
    "bdata (snd (ofpbuf_put junk p b)) = bdata c" "bsize (snd (ofpbuf_put junk p b)) = bsize c + length p"
    using pre by (simp_all add: ofpbuf_put_def ofpbuf_put_uninit_def Let_def c_def [symmetric] ofpbuf_tail_def)
  show "contents (snd (ofpbuf_put junk p b)) = contents b @ p" "ofpbuf_ok (snd (ofpbuf_put junk p b))"
    using contentsI [OF *(1)] *(2,3) xy pre by simp_all
  show "fst (ofpbuf_put junk p b) = bdata b + bsize b"
    using pre by (simp add: ofpbuf_put_def ofpbuf_put_uninit_def Let_def c_def [symmetric] ofpbuf_tail_def split_beta)
qed

lemma ofpbuf_new_contents [simp]:
  "contents (ofpbuf_new junk n) = []" "ofpbuf_ok (ofpbuf_new junk n)" "allocated (ofpbuf_new junk n) = n"
  by (simp_all add: ofpbuf_new_def ofpbuf_init_def ofpbuf_use_def contents_def ofpbuf_ok_def allocated_def)

lemma ofpbuf_clone_contents [simp]:
  "contents (ofpbuf_clone junk b) = contents b" "ofpbuf_ok (ofpbuf_clone junk b)"
  using ofpbuf_put_contents [OF ofpbuf_new_contents(2)]
  by (simp_all add: ofpbuf_clone_def contents_def [of b])

lemma ofpbuf_push_contents:
  assumes "ofpbuf_ok b" and "ofpbuf_push p b = Some c"
  shows "contents c = p @ contents b" "ofpbuf_ok c"
proof -
  have h: "length p \<le> bdata b" and c: "c = b\<lparr>bdata := bdata b - length p, bsize := bsize b + length p,
      area := write_at (bdata b - length p) p (area b)\<rparr>"
    using assms(2)
    by (auto simp: ofpbuf_push_def ofpbuf_push_uninit_def ofpbuf_prealloc_headroom_def ofpbuf_headroom_def
        split: if_splits option.splits)
  obtain x y where xy: "area b = x @ contents b @ y" "length x = bdata b" "length (contents b) = bsize b"
    using area_split [OF assms(1)] .
  have "area c = take (bdata b - length p) x @ (p @ contents b) @ y"
    using h xy by (simp add: c write_at_def)
  then show "contents c = p @ contents b" "ofpbuf_ok c"
    using contentsI [of c "take (bdata b - length p) x" "p @ contents b" y] xy(2,3) by (simp_all add: c)
qed

lemma ofpbuf_pull_contents:
  assumes "ofpbuf_ok b" and "ofpbuf_pull n b = Some (p, c)"
  shows "contents c = drop n (contents b)" "ofpbuf_ok c" "p = bdata b" "bdata c = bdata b + n"
    "bsize c = bsize b - n" "n \<le> bsize b" "area c = area b"
  using assms
  by (auto simp: ofpbuf_pull_def ofpbuf_ok_def contents_def drop_take add.commute split: if_splits)

lemma ofpbuf_pop_contents:
  assumes "ofpbuf_ok b" and "offset + n \<le> bsize b"
  obtains c where "ofpbuf_pop offset n b = Some c" "ofpbuf_ok c"
    "contents c = take offset (contents b) @ drop (offset + n) (contents b)"
    "bdata c = bdata b" "length (area c) = length (area b)" "bsize c = bsize b - n"
proof -
  obtain x y where xy: "area b = x @ contents b @ y" "length x = bdata b" "length (contents b) = bsize b"
    using area_split [OF assms(1)] .
  define d where "d = contents b"
  have s: "take (bsize b - (offset + n)) (drop (bdata b + offset + n) (area b)) = drop (offset + n) d"
    using xy assms(2) by (simp add: d_def add.assoc)
  have w: "write_at (bdata b + offset) (drop (offset + n) d) (area b) =
      x @ (take offset d @ drop (offset + n) d) @ drop (length d - n) d @ y"
    using xy assms(2) by (simp add: write_at_def d_def [symmetric])
  from assms(2) obtain c where c: "ofpbuf_pop offset n b = Some c" by (auto simp: ofpbuf_pop_def Let_def)
  then have a: "area c = x @ (take offset d @ drop (offset + n) d) @ drop (length d - n) d @ y"
    "bdata c = bdata b" "bsize c = bsize b - n"
    using assms(2) by (auto simp: ofpbuf_pop_def Let_def s w split: if_splits)
  have "contents c = take offset d @ drop (offset + n) d" "ofpbuf_ok c"
    using contentsI [OF a(1)] a(2,3) xy(2,3) assms(2) by (simp_all add: d_def)
  moreover have "length (area c) = length (area b)"
    using a(1) xy(1,3) assms(2) by (simp add: d_def)
  ultimately show ?thesis using that c a by (simp add: d_def)
qed

lemma ofpbuf_push_at_contents:
  assumes "ofpbuf_ok b" and "offset \<le> bsize b" and "length bytes \<le> ofpbuf_tailroom b"
  obtains c where "ofpbuf_push_at offset bytes b = Some (False, c)" "ofpbuf_ok c"
    "contents c = take offset (contents b) @ bytes @ drop offset (contents b)" "bdata c = bdata b"
    "length (area c) = length (area b)"
proof -
  obtain x y where xy: "area b = x @ contents b @ y" "length x = bdata b" "length (contents b) = bsize b"
    "length (area b) = bdata b + bsize b + length y"
    using area_split [OF assms(1)] .
  define d where "d = contents b"
  have room: "length bytes \<le> length y" "\<not> allocated b - bsize b - bdata b < length bytes"
    using assms(3) xy(4) by (auto simp: ofpbuf_tailroom_def ofpbuf_end_def ofpbuf_tail_def allocated_def)
  have s: "take (bsize b - offset) (drop (bdata b + offset) (area b)) = drop offset d"
    using xy assms(2) by (simp add: d_def)
  have arith: "bsize b + (offset + length bytes - bsize b) - (offset + (bsize b - (offset + length bytes))) = length bytes"
    using assms(2) by arith
  have w: "write_at (bdata b + offset + length bytes) (drop offset d) (write_at (bdata b + offset) bytes (area b)) =
      x @ (take offset d @ bytes @ drop offset d) @ drop (length bytes) y"
    using xy assms(2) room(1) arith by (simp add: write_at_def d_def [symmetric])
  from assms(2) room(2) obtain c where c: "ofpbuf_push_at offset bytes b = Some (False, c)"
    by (auto simp: ofpbuf_push_at_def Let_def)
  then have a: "area c = x @ (take offset d @ bytes @ drop offset d) @ drop (length bytes) y"
    "bdata c = bdata b" "bsize c = bsize b + length bytes"
    using assms(2) room(2) by (auto simp: ofpbuf_push_at_def Let_def s w)
  have "contents c = take offset d @ bytes @ drop offset d" "ofpbuf_ok c"
    using contentsI [OF a(1)] a(2,3) xy(2,3) assms(2) by (simp_all add: d_def)
  moreover have "length (area c) = length (area b)"
    using a(1) xy(1,3) room(1) by (simp add: d_def)
  ultimately show ?thesis using that c a(2) by (simp add: d_def)
qed


lemma ofpbuf_pop_fields:
  assumes "ofpbuf_pop offset n b = Some c"
  shows "l2 c = move_back (bdata b + offset) n (l2 b)" "l3 c = move_back (bdata b + offset) n (l3 b)"
    "l4 c = move_back (bdata b + offset) n (l4 b)" "l7 c = move_back (bdata b + offset) n (l7 b)"
    "l2_5 c = (if move_back (bdata b + offset) n (l2_5 b) = l3 c then None
       else move_back (bdata b + offset) n (l2_5 b))" "last_mpls_h c = last_mpls_h b"
  using assms by (auto simp: ofpbuf_pop_def Let_def split: if_splits)

lemma ofpbuf_push_at_fields:
  assumes "ofpbuf_push_at offset bytes b = Some (False, c)"
  shows "l2 c = move_forward (bdata b + offset) (length bytes) (l2 b)"
    "l2_5 c = move_forward (bdata b + offset) (length bytes) (l2_5 b)"
    "l3 c = move_forward (bdata b + offset) (length bytes) (l3 b)"
  using assms by (auto simp: ofpbuf_push_at_def Let_def split: if_splits)

text \<open>
  C33. A buffer implements a list of bytes: \<open>put\<close> appends, \<open>push\<close> prepends when there is headroom,
  \<open>pull\<close> drops and asserts that there is enough, \<open>try_pull\<close> drops or leaves a short buffer as it is and
  returns a null pointer, \<open>push_at\<close> inserts when there is tailroom, \<open>pop\<close> removes a slice, \<open>clone\<close> copies,
  \<open>clear\<close> empties; and each keeps the window inside the allocated area, whatever the fresh memory contains.
\<close>

theorem ofpbuf_refines_bytes:
  assumes "ofpbuf_ok b"
  shows "contents (snd (ofpbuf_put junk p b)) = contents b @ p \<and> ofpbuf_ok (snd (ofpbuf_put junk p b))
    \<and> contents (ofpbuf_clone junk b) = contents b \<and> ofpbuf_ok (ofpbuf_clone junk b)
    \<and> contents (ofpbuf_clear b) = [] \<and> ofpbuf_ok (ofpbuf_clear b)
    \<and> (case ofpbuf_push p b of
         None \<Rightarrow> ofpbuf_headroom b < length p
       | Some c \<Rightarrow> contents c = p @ contents b \<and> ofpbuf_ok c)
    \<and> (case ofpbuf_pull n b of
         None \<Rightarrow> length (contents b) < n
       | Some (_, c) \<Rightarrow> contents c = drop n (contents b) \<and> ofpbuf_ok c)
    \<and> (case ofpbuf_try_pull n b of
         None \<Rightarrow> False
       | Some (None, c) \<Rightarrow> c = b \<and> length (contents b) < n
       | Some (Some q, c) \<Rightarrow> q = bdata b \<and> n \<le> length (contents b) \<and> contents c = drop n (contents b) \<and> ofpbuf_ok c)
    \<and> (case ofpbuf_pop i n b of
         None \<Rightarrow> length (contents b) < i + n
       | Some c \<Rightarrow> contents c = take i (contents b) @ drop (i + n) (contents b) \<and> ofpbuf_ok c)
    \<and> (i \<le> length (contents b) \<longrightarrow> (case ofpbuf_push_at i p b of
         None \<Rightarrow> False
       | Some (True, c) \<Rightarrow> c = b \<and> ofpbuf_tailroom b < length p
       | Some (False, c) \<Rightarrow> contents c = take i (contents b) @ p @ drop i (contents b) \<and> ofpbuf_ok c))"
proof -
  have push: "case ofpbuf_push p b of None \<Rightarrow> ofpbuf_headroom b < length p
       | Some c \<Rightarrow> contents c = p @ contents b \<and> ofpbuf_ok c"
    using ofpbuf_push_contents [OF assms, of p]
    by (auto simp: ofpbuf_push_def ofpbuf_push_uninit_def ofpbuf_prealloc_headroom_def split: option.splits if_splits)
  have pull: "case ofpbuf_pull n b of None \<Rightarrow> length (contents b) < n
       | Some (_, c) \<Rightarrow> contents c = drop n (contents b) \<and> ofpbuf_ok c"
  proof (cases "ofpbuf_pull n b")
    case None
    then show ?thesis using assms by (simp add: ofpbuf_pull_def split: if_splits)
  next
    case (Some r)
    then show ?thesis using ofpbuf_pull_contents(1,2) [OF assms, of n "fst r" "snd r"] by (simp add: split_beta)
  qed
  have try_pull: "case ofpbuf_try_pull n b of None \<Rightarrow> False
       | Some (None, c) \<Rightarrow> c = b \<and> length (contents b) < n
       | Some (Some q, c) \<Rightarrow> q = bdata b \<and> n \<le> length (contents b) \<and> contents c = drop n (contents b) \<and> ofpbuf_ok c"
    using ofpbuf_pull_contents(1,2) [OF assms, of n] assms
    by (auto simp: ofpbuf_try_pull_def ofpbuf_pull_def)
  have clear: "contents (ofpbuf_clear b) = [] \<and> ofpbuf_ok (ofpbuf_clear b)"
    using assms by (simp add: ofpbuf_clear_def contents_def ofpbuf_ok_def)
  have pop: "case ofpbuf_pop i n b of None \<Rightarrow> length (contents b) < i + n
       | Some c \<Rightarrow> contents c = take i (contents b) @ drop (i + n) (contents b) \<and> ofpbuf_ok c"
  proof (cases "i + n \<le> bsize b")
    case True
    obtain c where "ofpbuf_pop i n b = Some c" "ofpbuf_ok c"
      "contents c = take i (contents b) @ drop (i + n) (contents b)" using ofpbuf_pop_contents [OF assms True] by blast
    then show ?thesis by simp
  next
    case False
    then show ?thesis using assms by (simp add: ofpbuf_pop_def)
  qed
  have push_at: "case ofpbuf_push_at i p b of None \<Rightarrow> False
       | Some (True, c) \<Rightarrow> c = b \<and> ofpbuf_tailroom b < length p
       | Some (False, c) \<Rightarrow> contents c = take i (contents b) @ p @ drop i (contents b) \<and> ofpbuf_ok c"
    if "i \<le> length (contents b)"
  proof (cases "length p \<le> ofpbuf_tailroom b")
    case True
    have "i \<le> bsize b" using that assms by simp
    then obtain c where "ofpbuf_push_at i p b = Some (False, c)" "ofpbuf_ok c"
      "contents c = take i (contents b) @ p @ drop i (contents b)"
      using ofpbuf_push_at_contents [OF assms _ True] by blast
    then show ?thesis by simp
  next
    case False
    then have "ofpbuf_push_at i p b = Some (True, b)"
      by (auto simp: ofpbuf_push_at_def ofpbuf_tailroom_def ofpbuf_end_def ofpbuf_tail_def Let_def)
    then show ?thesis using False by simp
  qed
  show ?thesis using ofpbuf_put_contents [OF assms] push pull try_pull clear pop push_at by simp
qed

definition sample_buf :: ofpbuf where
  "sample_buf = \<lparr>area = [0, 0, 0, 0, 1, 2, 3, 4, 5, 6, 0, 0, 0, 0], bdata = 4, bsize = 6, l2 = Some 4,
     l2_5 = Some 6, l3 = Some 8, l4 = None, l7 = None, last_mpls_h = 0\<rparr>"

theorem ofpbuf_refines_bytes_witness:
  "ofpbuf_ok sample_buf \<and> contents (snd (ofpbuf_put (\<lambda>_. 7) [9] sample_buf)) = [1, 2, 3, 4, 5, 6, 9]"
proof -
  have ok: "ofpbuf_ok sample_buf" by (simp add: sample_buf_def ofpbuf_ok_def)
  moreover have "contents sample_buf = [1, 2, 3, 4, 5, 6]"
    by (simp add: sample_buf_def contents_def numeral_eq_Suc)
  ultimately show ?thesis using ofpbuf_refines_bytes [OF ok, where junk = "\<lambda>_. 7" and p = "[9]"] by simp
qed

text \<open>
  Removing bytes keeps every layer behind them: the pointer of a layer that starts behind the
  removed slice is moved so that it designates the same bytes.
\<close>

theorem ofpbuf_pop_layers:
  assumes "ofpbuf_ok b" and "i + n \<le> bsize b" and "0 < n"
    and "l3 b = Some q" and "bdata b + i + n \<le> q" and "q \<le> ofpbuf_tail b"
  shows "\<exists>c. ofpbuf_pop i n b = Some c \<and> l3 c = Some (q - n)
    \<and> drop (q - n - bdata c) (contents c) = drop (q - bdata b) (contents b)"
proof -
  obtain c where c: "ofpbuf_pop i n b = Some c"
    "contents c = take i (contents b) @ drop (i + n) (contents b)" "bdata c = bdata b"
    using ofpbuf_pop_contents [OF assms(1,2)] by blast
  have "l3 c = Some (q - n)" using ofpbuf_pop_fields(2) [OF c(1)] assms(3-5) by (simp add: move_back_def)
  moreover have "drop (q - n - bdata b) (contents c) = drop (q - bdata b) (contents b)"
    using assms by (simp add: c(2))
  ultimately show ?thesis using c by simp
qed

theorem ofpbuf_pop_layers_witness:
  "\<exists>c. ofpbuf_pop 2 2 sample_buf = Some c \<and> l3 c = Some 6
    \<and> drop (6 - bdata c) (contents c) = drop 4 (contents sample_buf)"
proof -
  have "bdata sample_buf = 4" "ofpbuf_ok sample_buf" "2 + 2 \<le> bsize sample_buf" "l3 sample_buf = Some 8"
    "8 \<le> ofpbuf_tail sample_buf"
    by (simp_all add: sample_buf_def ofpbuf_ok_def ofpbuf_tail_def)
  then show ?thesis using ofpbuf_pop_layers [of sample_buf 2 2 8] by simp
qed

text \<open>
  Inserting bytes at the MPLS layer leaves the layer pointers wrong: the bytes are inserted, but the
  pointers of the layers before the insertion are moved forward and those behind it stay, so that the
  Ethernet pointer ends up inside the frame and the network pointer ends up before the network header.
\<close>

theorem ofpbuf_push_at_layers:
  assumes "ofpbuf_ok b" and "length bytes \<le> ofpbuf_tailroom b" and "i \<le> bsize b"
    and "l2 b = Some (bdata b)" and "l2_5 b = Some (bdata b + i)"
    and "l3 b = Some q" and "bdata b + i < q" and "q \<le> ofpbuf_tail b"
  shows "\<exists>c. ofpbuf_push_at i bytes b = Some (False, c) \<and> l2 c = Some (bdata c + length bytes)
    \<and> l2_5 c = Some (bdata c + i + length bytes) \<and> l3 c = Some q
    \<and> drop (q + length bytes - bdata c) (contents c) = drop (q - bdata b) (contents b)"
proof -
  obtain c where c: "ofpbuf_push_at i bytes b = Some (False, c)"
    "contents c = take i (contents b) @ bytes @ drop i (contents b)" "bdata c = bdata b"
    using ofpbuf_push_at_contents [OF assms(1,3,2)] by blast
  have "drop (q + length bytes - bdata b) (contents c) = drop (q - bdata b) (contents b)"
    using assms by (simp add: c(2))
  then show ?thesis
    using c ofpbuf_push_at_fields [OF c(1)] assms(4-7) by (simp add: move_forward_def)
qed

theorem ofpbuf_push_at_layers_witness:
  "\<exists>c. ofpbuf_push_at 2 [7, 7] sample_buf = Some (False, c) \<and> l2 c = Some (bdata c + 2) \<and> l3 c = Some 8"
proof -
  have "bdata sample_buf = 4" "ofpbuf_ok sample_buf" "length [7 :: u8, 7] \<le> ofpbuf_tailroom sample_buf"
    "2 \<le> bsize sample_buf" "l2 sample_buf = Some 4" "l2_5 sample_buf = Some 6" "l3 sample_buf = Some 8"
    "8 \<le> ofpbuf_tail sample_buf"
    by (simp_all add: sample_buf_def ofpbuf_ok_def ofpbuf_tail_def ofpbuf_tailroom_def ofpbuf_end_def allocated_def)
  then show ?thesis using ofpbuf_push_at_layers [of sample_buf "[7, 7]" 2 8] by fastforce
qed

end
