(* ===== verification/Flow_Extract.thy ===== *)
theory Flow_Extract
  imports Ofpbuf Flow_Key
begin

text \<open>
  Packet parsing, \<open>flow_extract\<close> of \<open>lib/flow.c\<close>: the headers of a frame are pulled one after the other
  from a copy \<open>b\<close> of the buffer structure that shares the bytes of \<open>packet\<close>; the fields go into a
  \<open>flow\<close>, the layer pointers into \<open>packet\<close>.  The value \<open>None\<close> is a null or wild pointer access.
\<close>

section \<open>The code\<close>

abbreviation (input) OFP_VLAN_NONE :: u16 where "OFP_VLAN_NONE \<equiv> 0xffff"
abbreviation (input) OFP_DL_TYPE_ETH2_CUTOFF :: u16 where "OFP_DL_TYPE_ETH2_CUTOFF \<equiv> 0x0600"
abbreviation (input) OFP_DL_TYPE_NOT_ETH_TYPE :: u16 where "OFP_DL_TYPE_NOT_ETH_TYPE \<equiv> 0x05ff"
abbreviation (input) VLAN_VID_MASK :: u16 where "VLAN_VID_MASK \<equiv> 0x0fff"
abbreviation (input) MPLS_INVALID_LABEL :: u32 where "MPLS_INVALID_LABEL \<equiv> 0xFFFFFFFF"
abbreviation (input) "ETH_HEADER_LEN \<equiv> 14 :: nat"
abbreviation (input) "VLAN_HEADER_LEN \<equiv> 4 :: nat"
abbreviation (input) "MPLS_HEADER_LEN \<equiv> 4 :: nat"
abbreviation (input) "IP_HEADER_LEN \<equiv> 20 :: nat"
abbreviation (input) "TCP_HEADER_LEN \<equiv> 20 :: nat"
abbreviation (input) "UDP_HEADER_LEN \<equiv> 8 :: nat"
abbreviation (input) "ICMP_HEADER_LEN \<equiv> 4 :: nat"

text \<open>The bit fields of an MPLS label stack entry in host order.\<close>

definition mpls_label :: "u32 \<Rightarrow> u32" where "mpls_label v = drop_bit 12 v"
definition mpls_exp :: "u32 \<Rightarrow> u8" where "mpls_exp v = ucast (drop_bit 9 v AND 7)"
definition mpls_s :: "u32 \<Rightarrow> bool" where "mpls_s v \<longleftrightarrow> bit v 8"
definition mpls_ttl :: "u32 \<Rightarrow> u8" where "mpls_ttl v = ucast v"

definition pull_mpls :: "ofpbuf \<Rightarrow> (nat option \<times> ofpbuf) option" where
  "pull_mpls packet = ofpbuf_try_pull MPLS_HEADER_LEN packet"

definition pull_ip :: "ofpbuf \<Rightarrow> (nat option \<times> ofpbuf) option" where
  "pull_ip packet =
     (if IP_HEADER_LEN \<le> bsize packet then do {
        ihl_ver \<leftarrow> ld8 packet (bdata packet);
        let ip_len = unat (ihl_ver AND 15) * 4;
        if IP_HEADER_LEN \<le> ip_len \<and> ip_len \<le> bsize packet
        then do { (p, b) \<leftarrow> ofpbuf_pull ip_len packet; Some (Some p, b) }
        else Some (None, packet)
      } else Some (None, packet))"

definition pull_tcp :: "ofpbuf \<Rightarrow> (nat option \<times> ofpbuf) option" where
  "pull_tcp packet =
     (if TCP_HEADER_LEN \<le> bsize packet then do {
        tcp_ctl \<leftarrow> ld16 packet (bdata packet + 12);
        let tcp_len = unat (drop_bit 12 (htons tcp_ctl)) * 4;
        if TCP_HEADER_LEN \<le> tcp_len \<and> tcp_len \<le> bsize packet
        then do { (p, b) \<leftarrow> ofpbuf_pull tcp_len packet; Some (Some p, b) }
        else Some (None, packet)
      } else Some (None, packet))"

definition pull_udp :: "ofpbuf \<Rightarrow> (nat option \<times> ofpbuf) option" where
  "pull_udp packet = ofpbuf_try_pull UDP_HEADER_LEN packet"

definition pull_icmp :: "ofpbuf \<Rightarrow> (nat option \<times> ofpbuf) option" where
  "pull_icmp packet = ofpbuf_try_pull ICMP_HEADER_LEN packet"

definition pull_eth :: "ofpbuf \<Rightarrow> (nat option \<times> ofpbuf) option" where
  "pull_eth packet = ofpbuf_try_pull ETH_HEADER_LEN packet"

definition pull_vlan :: "ofpbuf \<Rightarrow> (nat option \<times> ofpbuf) option" where
  "pull_vlan packet = ofpbuf_try_pull VLAN_HEADER_LEN packet"

text \<open>The Ethernet type; the inner \<open>None\<close> is the early return for a frame without room for LLC/SNAP.\<close>

definition extract_dl_type :: "nat \<Rightarrow> ofpbuf \<Rightarrow> (u16 \<times> ofpbuf) option option" where
  "extract_dl_type eth b = do {
     eth_type \<leftarrow> ld16 b (eth + 12);
     if OFP_DL_TYPE_ETH2_CUTOFF \<le> ntohs eth_type then Some (Some (eth_type, b))
     else case ofpbuf_at b 0 8 of
       None \<Rightarrow> Some None
     | Some h \<Rightarrow> do {
         llc \<leftarrow> ldn b h 3;
         org \<leftarrow> ldn b (h + 3) 3;
         if llc = [0xaa, 0xaa, 3] \<and> org = [0, 0, 0]
         then do {
           snap_type \<leftarrow> ld16 b (h + 6);
           (p, b) \<leftarrow> ofpbuf_pull 8 b;
           Some (Some (snap_type, b))
         } else do {
           (p, b) \<leftarrow> ofpbuf_pull 3 b;
           Some (Some (htons OFP_DL_TYPE_NOT_ETH_TYPE, b))
         }
       }
   }"

definition extract_vlan :: "flow \<Rightarrow> ofpbuf \<Rightarrow> (flow \<times> ofpbuf) option" where
  "extract_vlan flow b =
     (if dl_type flow = htons ETH_TYPE_VLAN then do {
        (vh, b) \<leftarrow> pull_vlan b;
        case vh of
          None \<Rightarrow> Some (flow, b)
        | Some vh \<Rightarrow> do {
            tci \<leftarrow> ld16 b vh;
            next_type \<leftarrow> ld16 b (vh + 2);
            Some (flow\<lparr>dl_type := next_type, dl_vlan := tci AND htons VLAN_VID_MASK\<rparr>, b)
          }
      } else Some (flow, b))"

text \<open>\<open>ntohl(pull_mpls(&b)->value)\<close>: the pulled pointer is not tested.\<close>

definition pull_mpls_value :: "ofpbuf \<Rightarrow> (u32 \<times> ofpbuf) option" where
  "pull_mpls_value b = do {
     (p, b) \<leftarrow> pull_mpls b;
     p \<leftarrow> p;
     v \<leftarrow> ld32 b p;
     Some (ntohl v, b)
   }"

lemma pull_mpls_value_size: "pull_mpls_value b = Some (v, b') \<Longrightarrow> bsize b' < bsize b"
  by (auto simp: pull_mpls_value_def pull_mpls_def ofpbuf_try_pull_def ofpbuf_pull_def
      split: if_splits bind_splits)

text \<open>The loop past the remaining labels; each round pulls four bytes, so it ends.\<close>

function skip_labels :: "u32 \<Rightarrow> ofpbuf \<Rightarrow> ofpbuf option" where
  "skip_labels v b =
     (if mpls_s v then Some b
      else case pull_mpls_value b of None \<Rightarrow> None | Some (v, b) \<Rightarrow> skip_labels v b)"
  by pat_completeness auto

termination
  by (relation "measure (\<lambda>(v, b). bsize b)") (auto dest: pull_mpls_value_size)

declare skip_labels.simps [simp del]

definition extract_mpls :: "flow \<Rightarrow> ofpbuf \<Rightarrow> (flow \<times> ofpbuf) option" where
  "extract_mpls flow b =
     (let flow = flow\<lparr>mpls_label1 := htonl MPLS_INVALID_LABEL, mpls_label2 := htonl MPLS_INVALID_LABEL\<rparr> in
      if dl_type flow = htons ETH_TYPE_MPLS_UNICAST then do {
        (v, b) \<leftarrow> pull_mpls_value b;
        let flow = flow\<lparr>mpls_label1 := htonl (mpls_label v)\<rparr>;
        (flow, v, b) \<leftarrow>
          (if \<not> mpls_s v then do {
             (v, b) \<leftarrow> pull_mpls_value b;
             Some (flow\<lparr>mpls_label2 := htonl (mpls_label v)\<rparr>, v, b)
           } else Some (flow, v, b));
        b \<leftarrow> skip_labels v b;
        Some (flow, b)
      } else Some (flow, b))"

definition extract_tp :: "flow \<Rightarrow> ofpbuf \<Rightarrow> ofpbuf \<Rightarrow> (ofpbuf \<times> flow) option" where
  "extract_tp flow packet b =
     (if nw_proto flow = IP_TYPE_TCP then do {
        (tcp, b) \<leftarrow> pull_tcp b;
        case tcp of
          Some tcp \<Rightarrow> do {
            src \<leftarrow> ld16 b tcp; dst \<leftarrow> ld16 b (tcp + 2);
            Some (packet\<lparr>l7 := Some (bdata b)\<rparr>, flow\<lparr>tp_src := src, tp_dst := dst\<rparr>)
          }
        | None \<Rightarrow> Some (packet, flow\<lparr>nw_proto := 0\<rparr>)
      } else if nw_proto flow = IP_TYPE_UDP then do {
        (udp, b) \<leftarrow> pull_udp b;
        case udp of
          Some udp \<Rightarrow> do {
            src \<leftarrow> ld16 b udp; dst \<leftarrow> ld16 b (udp + 2);
            Some (packet\<lparr>l7 := Some (bdata b)\<rparr>, flow\<lparr>tp_src := src, tp_dst := dst\<rparr>)
          }
        | None \<Rightarrow> Some (packet, flow\<lparr>nw_proto := 0\<rparr>)
      } else if nw_proto flow = IP_TYPE_ICMP then do {
        (icmp, b) \<leftarrow> pull_icmp b;
        case icmp of
          Some icmp \<Rightarrow> do {
            type \<leftarrow> ld8 b icmp; code \<leftarrow> ld8 b (icmp + 1);
            Some (packet\<lparr>l7 := Some (bdata b)\<rparr>, flow\<lparr>tp_src := htons (ucast type), tp_dst := htons (ucast code)\<rparr>)
          }
        | None \<Rightarrow> Some (packet, flow\<lparr>nw_proto := 0\<rparr>)
      } else Some (packet, flow))"

definition extract_nw :: "flow \<Rightarrow> ofpbuf \<Rightarrow> ofpbuf \<Rightarrow> (bool \<times> ofpbuf \<times> flow) option" where
  "extract_nw flow packet b = do {
     (nh, b) \<leftarrow> pull_ip b;
     case nh of
       None \<Rightarrow> Some (False, packet, flow)
     | Some nh \<Rightarrow> do {
         src \<leftarrow> ld32 b (nh + 12); dst \<leftarrow> ld32 b (nh + 16); proto \<leftarrow> ld8 b (nh + 9);
         let flow = flow\<lparr>nw_src := src, nw_dst := dst, nw_proto := proto\<rparr>;
         let packet = packet\<lparr>l4 := Some (bdata b)\<rparr>;
         frag_off \<leftarrow> ld16 b (nh + 6);
         if frag_off AND htons 0x3fff = 0 then do {
           (packet, flow) \<leftarrow> extract_tp flow packet b;
           Some (False, packet, flow)
         } else Some (True, packet, flow)
       }
   }"

definition eth_of_bytes :: "u8 list \<Rightarrow> eth_addr" where
  "eth_of_bytes bs = Eth (bs ! 0) (bs ! 1) (bs ! 2) (bs ! 3) (bs ! 4) (bs ! 5)"

definition zero_flow :: flow where
  "zero_flow = \<lparr>nw_src = 0, nw_dst = 0, in_port = 0, dl_vlan = 0, dl_type = 0, tp_src = 0, tp_dst = 0,
     dl_src = Eth 0 0 0 0 0 0, dl_dst = Eth 0 0 0 0 0 0, nw_proto = 0, reserved = 0,
     mpls_label1 = 0, mpls_label2 = 0\<rparr>"

definition flow_extract :: "ofpbuf \<Rightarrow> u16 \<Rightarrow> (bool \<times> ofpbuf \<times> flow) option" where
  "flow_extract packet port = do {
     let b = packet;
     let flow = zero_flow\<lparr>dl_vlan := htons OFP_VLAN_NONE, in_port := htons port\<rparr>;
     let packet = packet\<lparr>l2 := Some (bdata b), l3 := None, l4 := None, l7 := None\<rparr>;
     (eth, b) \<leftarrow> pull_eth b;
     case eth of
       None \<Rightarrow> Some (False, packet, flow)
     | Some eth \<Rightarrow> do {
         r \<leftarrow> extract_dl_type eth b;
         case r of
           None \<Rightarrow> Some (False, packet, flow)
         | Some (type, b) \<Rightarrow> do {
             (flow, b) \<leftarrow> extract_vlan (flow\<lparr>dl_type := type\<rparr>) b;
             dst \<leftarrow> ldn b eth 6;
             src \<leftarrow> ldn b (eth + 6) 6;
             let flow = flow\<lparr>dl_src := eth_of_bytes src, dl_dst := eth_of_bytes dst\<rparr>;
             let packet = packet\<lparr>l2_5 := Some (bdata b)\<rparr>;
             (flow, b) \<leftarrow> extract_mpls flow b;
             let packet = packet\<lparr>l3 := Some (bdata b)\<rparr>;
             if dl_type flow = htons ETH_TYPE_IP \<or> dl_type flow = htons ETH_TYPE_MPLS_UNICAST
             then extract_nw flow packet b
             else Some (False, packet, flow)
           }
       }
   }"


section \<open>The reference: a parser of byte lists\<close>

text \<open>
  The same frame formats read from the list of bytes alone: no buffer, no pointers.  \<open>None\<close> is an MPLS
  label stack that is cut off before its bottom entry.
\<close>

definition strip_tag :: "u16 \<times> u8 list \<Rightarrow> u16 \<Rightarrow> (u16 \<times> u16 \<times> u8 list)" where
  "strip_tag tr none = (let (t, rest) = tr in
     if t = htons ETH_TYPE_VLAN \<and> 4 \<le> length rest
     then (get_u16 rest 2, get_u16 rest 0 AND htons VLAN_VID_MASK, drop 4 rest) else (t, none, rest))"

definition link_type :: "u8 list \<Rightarrow> (u16 \<times> u8 list) option" where
  "link_type bs =
     (let t = get_u16 bs 12; rest = drop 14 bs in
      if length bs < 14 then None
      else if OFP_DL_TYPE_ETH2_CUTOFF \<le> ntohs t then Some (t, rest)
      else if length rest < 8 then None
      else if take 6 rest = [0xaa, 0xaa, 3, 0, 0, 0] then Some (get_u16 rest 6, drop 8 rest)
      else Some (htons OFP_DL_TYPE_NOT_ETH_TYPE, drop 3 rest))"

text \<open>The label stack: its entries in host order up to the bottom one, and the bytes behind it.\<close>

function label_stack :: "u8 list \<Rightarrow> (u32 list \<times> u8 list) option" where
  "label_stack bs =
     (if length bs < 4 then None
      else let v = ntohl (get_u32 bs 0) in
        if mpls_s v then Some ([v], drop 4 bs)
        else map_option (\<lambda>(vs, rest). (v # vs, rest)) (label_stack (drop 4 bs)))"
  by pat_completeness auto

termination
  by (relation "measure length") auto

declare label_stack.simps [simp del]

definition parse_tp :: "flow \<Rightarrow> u8 list \<Rightarrow> flow" where
  "parse_tp f bs =
     (let hlen = unat (drop_bit 12 (ntohs (get_u16 bs 12))) * 4 in
      if nw_proto f = IP_TYPE_TCP then
        if 20 \<le> length bs \<and> 20 \<le> hlen \<and> hlen \<le> length bs
        then f\<lparr>tp_src := get_u16 bs 0, tp_dst := get_u16 bs 2\<rparr> else f\<lparr>nw_proto := 0\<rparr>
      else if nw_proto f = IP_TYPE_UDP then
        if 8 \<le> length bs then f\<lparr>tp_src := get_u16 bs 0, tp_dst := get_u16 bs 2\<rparr> else f\<lparr>nw_proto := 0\<rparr>
      else if nw_proto f = IP_TYPE_ICMP then
        if 4 \<le> length bs then f\<lparr>tp_src := htons (ucast (bs ! 0)), tp_dst := htons (ucast (bs ! 1))\<rparr>
        else f\<lparr>nw_proto := 0\<rparr>
      else f)"

definition parse_nw :: "flow \<Rightarrow> u8 list \<Rightarrow> bool \<times> flow" where
  "parse_nw f bs =
     (let hlen = unat (bs ! 0 AND 15) * 4 in
      if length bs < 20 \<or> hlen < 20 \<or> length bs < hlen then (False, f)
      else
        let f = f\<lparr>nw_src := get_u32 bs 12, nw_dst := get_u32 bs 16, nw_proto := bs ! 9\<rparr> in
        if get_u16 bs 6 AND htons 0x3fff = 0 then (False, parse_tp f (drop hlen bs)) else (True, f))"

definition parse_mpls :: "flow \<Rightarrow> u8 list \<Rightarrow> (flow \<times> u8 list) option" where
  "parse_mpls f bs =
     (let f = f\<lparr>mpls_label1 := htonl MPLS_INVALID_LABEL, mpls_label2 := htonl MPLS_INVALID_LABEL\<rparr> in
      if dl_type f = htons ETH_TYPE_MPLS_UNICAST then
        map_option (\<lambda>(vs, rest). (f\<lparr>mpls_label1 := htonl (mpls_label (vs ! 0)),
          mpls_label2 := (if 1 < length vs then htonl (mpls_label (vs ! 1)) else htonl MPLS_INVALID_LABEL)\<rparr>, rest))
          (label_stack bs)
      else Some (f, bs))"

definition parse_frame :: "u8 list \<Rightarrow> u16 \<Rightarrow> (bool \<times> flow) option" where
  "parse_frame bs port =
     (let f = zero_flow\<lparr>dl_vlan := htons OFP_VLAN_NONE, in_port := htons port\<rparr> in
      case link_type bs of
        None \<Rightarrow> Some (False, f)
      | Some tr \<Rightarrow>
          let (t, vlan, rest) = strip_tag tr (htons OFP_VLAN_NONE) in
          case parse_mpls (f\<lparr>dl_type := t, dl_vlan := vlan, dl_src := eth_of_bytes (drop 6 bs),
              dl_dst := eth_of_bytes bs\<rparr>) rest of
            None \<Rightarrow> None
          | Some (f, rest) \<Rightarrow>
              if dl_type f = htons ETH_TYPE_IP \<or> dl_type f = htons ETH_TYPE_MPLS_UNICAST
              then Some (parse_nw f rest) else Some (False, f))"


section \<open>Pulling headers\<close>

text \<open>A buffer whose window starts \<open>n\<close> bytes later.\<close>

definition skip :: "nat \<Rightarrow> ofpbuf \<Rightarrow> ofpbuf" where
  "skip n b = b\<lparr>bdata := bdata b + n, bsize := bsize b - n\<rparr>"

lemma skip_fields [simp]: "area (skip n b) = area b" "bdata (skip n b) = bdata b + n" "bsize (skip n b) = bsize b - n"
  by (simp_all add: skip_def)

lemma skip_0 [simp]: "skip 0 b = b"
  by (simp add: skip_def)

lemma contents_skip [simp]: "n \<le> bsize b \<Longrightarrow> contents (skip n b) = drop n (contents b)"
  by (simp add: contents_def drop_take add.commute)

lemma skip_ok [simp]: "ofpbuf_ok b \<Longrightarrow> n \<le> bsize b \<Longrightarrow> ofpbuf_ok (skip n b)"
  by (simp add: ofpbuf_ok_def)

lemma skip_tail [simp]: "n \<le> bsize b \<Longrightarrow> ofpbuf_tail (skip n b) = ofpbuf_tail b"
  by (simp add: ofpbuf_tail_def)

lemma skip_skip: "skip m (skip n b) = skip (n + m) b"
  by (simp add: skip_def add.assoc)

lemma pull_skip: "ofpbuf_pull n b = (if n \<le> bsize b then Some (bdata b, skip n b) else None)"
  by (simp add: ofpbuf_pull_def skip_def)

lemma try_pull_skip:
  "ofpbuf_try_pull n b = Some (if n \<le> bsize b then (Some (bdata b), skip n b) else (None, b))"
  by (simp add: ofpbuf_try_pull_def pull_skip)

lemma ld_skip [simp]: "ld8 (skip n b) i = ld8 b i" "ld16 (skip n b) i = ld16 b i" "ld32 (skip n b) i = ld32 b i"
    "ldn (skip n b) i k = ldn b i k"
  by (simp_all add: ld8_def ld16_def ld32_def ldn_def)

lemma nth_contents: "ofpbuf_ok b \<Longrightarrow> k < bsize b \<Longrightarrow> contents b ! k = area b ! (bdata b + k)"
  by (simp add: contents_def ofpbuf_ok_def)

lemma ld_contents:
  assumes "ofpbuf_ok b"
  shows "k < bsize b \<Longrightarrow> ld8 b (bdata b + k) = Some (contents b ! k)"
    "k + 2 \<le> bsize b \<Longrightarrow> ld16 b (bdata b + k) = Some (get_u16 (contents b) k)"
    "k + 4 \<le> bsize b \<Longrightarrow> ld32 b (bdata b + k) = Some (get_u32 (contents b) k)"
    "k + n \<le> bsize b \<Longrightarrow> ldn b (bdata b + k) n = Some (take n (drop k (contents b)))"
proof -
  show "k < bsize b \<Longrightarrow> ld8 b (bdata b + k) = Some (contents b ! k)"
    "k + 2 \<le> bsize b \<Longrightarrow> ld16 b (bdata b + k) = Some (get_u16 (contents b) k)"
    "k + 4 \<le> bsize b \<Longrightarrow> ld32 b (bdata b + k) = Some (get_u32 (contents b) k)"
    using assms nth_contents [OF assms] nth_contents [OF assms, of "Suc k"]
    by (auto simp: ld8_def ld16_def ld32_def get_u16_def get_u32_def ofpbuf_ok_def add.assoc)
  show "k + n \<le> bsize b \<Longrightarrow> ldn b (bdata b + k) n = Some (take n (drop k (contents b)))"
    using assms by (auto simp: ldn_def contents_def ofpbuf_ok_def drop_take min_def add.commute)
qed

lemmas ld_contents_0 = ld_contents [where k = 0, simplified]

text \<open>Reads of a prefix of the bytes.\<close>

lemma get_drop:
  "get_u16 (drop n bs) k = get_u16 bs (n + k)" "get_u32 (drop n bs) k = get_u32 bs (n + k)"
  if "n \<le> length bs"
  using that by (simp_all add: get_u16_def get_u32_def add.assoc)

lemma pull_ip_parse:
  assumes "ofpbuf_ok b"
  shows "pull_ip b = Some (if bsize b < 20 \<or> unat (contents b ! 0 AND 15) * 4 < 20 \<or> bsize b < unat (contents b ! 0 AND 15) * 4
    then (None, b) else (Some (bdata b), skip (unat (contents b ! 0 AND 15) * 4) b))"
  using ld_contents_0(1) [OF assms]
  by (auto simp: pull_ip_def pull_skip Let_def not_less)

lemma pull_tcp_parse:
  assumes "ofpbuf_ok b"
  defines "h \<equiv> unat (drop_bit 12 (htons (get_u16 (contents b) 12))) * 4"
  shows "pull_tcp b = Some (if 20 \<le> bsize b \<and> 20 \<le> h \<and> h \<le> bsize b then (Some (bdata b), skip h b) else (None, b))"
  using ld_contents(2) [OF assms(1), of 12]
  by (auto simp: pull_tcp_def pull_skip Let_def not_less h_def)

lemma extract_tp_parse:
  assumes "ofpbuf_ok b"
  shows "\<exists>p. extract_tp f packet b = Some (p, parse_tp f (contents b)) \<and>
    (p = packet \<or> (\<exists>x. p = packet\<lparr>l7 := Some x\<rparr> \<and> bdata b \<le> x \<and> x \<le> ofpbuf_tail b)) \<and>
    (nw_proto (parse_tp f (contents b)) = IP_TYPE_TCP \<longrightarrow> 20 \<le> bsize b) \<and>
    (nw_proto (parse_tp f (contents b)) = IP_TYPE_UDP \<longrightarrow> 8 \<le> bsize b)"
proof -
  note ld = ld_contents [OF assms] ld_contents_0 [OF assms]
  consider "nw_proto f = IP_TYPE_TCP" | "nw_proto f = IP_TYPE_UDP" | "nw_proto f = IP_TYPE_ICMP"
    | "nw_proto f \<noteq> IP_TYPE_TCP" "nw_proto f \<noteq> IP_TYPE_UDP" "nw_proto f \<noteq> IP_TYPE_ICMP" by blast
  then show ?thesis
  proof cases
    case 1
    then show ?thesis using assms ld(2) [of 2] ld(6)
      by (auto simp: extract_tp_def parse_tp_def pull_tcp_parse ofpbuf_tail_def Let_def)
  next
    case 2
    then show ?thesis using assms ld(2) [of 2] ld(6)
      by (auto simp: extract_tp_def parse_tp_def pull_udp_def try_pull_skip ofpbuf_tail_def Let_def)
  next
    case 3
    then show ?thesis using assms ld(1) [of 1] ld(5)
      by (auto simp: extract_tp_def parse_tp_def pull_icmp_def try_pull_skip ofpbuf_tail_def Let_def)
  next
    case 4
    then show ?thesis by (simp add: extract_tp_def parse_tp_def)
  qed
qed


lemma extract_nw_parse:
  assumes "ofpbuf_ok b" and "nw_proto f = 0" and "l4 packet = None" and "l7 packet = None"
  obtains p where "extract_nw f packet b = Some (fst (parse_nw f (contents b)), p, snd (parse_nw f (contents b)))"
    "p\<lparr>l4 := None, l7 := None\<rparr> = packet"
    "\<And>x. l4 p = Some x \<Longrightarrow> bdata b + 20 \<le> x \<and> x \<le> ofpbuf_tail b"
    "\<And>x. l7 p = Some x \<Longrightarrow> \<exists>y. l4 p = Some y \<and> y \<le> x \<and> x \<le> ofpbuf_tail b"
    "\<not> fst (parse_nw f (contents b)) \<Longrightarrow> nw_proto (snd (parse_nw f (contents b))) = IP_TYPE_TCP \<Longrightarrow>
       \<exists>y. l4 p = Some y \<and> y + 20 \<le> ofpbuf_tail b"
    "\<not> fst (parse_nw f (contents b)) \<Longrightarrow> nw_proto (snd (parse_nw f (contents b))) = IP_TYPE_UDP \<Longrightarrow>
       \<exists>y. l4 p = Some y \<and> y + 8 \<le> ofpbuf_tail b"
proof -
  define hlen where "hlen = unat (contents b ! 0 AND 15) * 4"
  show ?thesis
  proof (cases "bsize b < 20 \<or> hlen < 20 \<or> bsize b < hlen")
    case True
    then have "extract_nw f packet b = Some (False, packet, f)" "parse_nw f (contents b) = (False, f)"
      using assms(1) by (auto simp: extract_nw_def pull_ip_parse parse_nw_def hlen_def Let_def)
    then show ?thesis using that [of packet] assms by simp
  next
    case False
    define g where "g = f\<lparr>nw_src := get_u32 (contents b) 12, nw_dst := get_u32 (contents b) 16, nw_proto := contents b ! 9\<rparr>"
    define q where "q = packet\<lparr>l4 := Some (bdata b + hlen)\<rparr>"
    note ld = ld_contents [OF assms(1)]
    have ok: "ofpbuf_ok (skip hlen b)" using False assms(1) by simp
    have reads: "ld32 b (bdata b + 12) = Some (get_u32 (contents b) 12)" "ld32 b (bdata b + 16) = Some (get_u32 (contents b) 16)"
      "ld8 b (bdata b + 9) = Some (contents b ! 9)" "ld16 b (bdata b + 6) = Some (get_u16 (contents b) 6)"
      using False ld by simp_all
    have e: "extract_nw f packet b = (if get_u16 (contents b) 6 AND htons 0x3fff = 0
        then map_option (\<lambda>(p, f). (False, p, f)) (extract_tp g q (skip hlen b)) else Some (True, q, g))"
      using False assms(1) reads
      by (auto simp: extract_nw_def pull_ip_parse hlen_def g_def q_def Let_def bind_eq_Some_conv map_option_case
          split: option.split)
    have pn: "parse_nw f (contents b) = (if get_u16 (contents b) 6 AND htons 0x3fff = 0
        then (False, parse_tp g (drop hlen (contents b))) else (True, g))"
      using False assms(1) by (simp add: parse_nw_def g_def hlen_def Let_def)
    have bounds: "bdata b + 20 \<le> bdata b + hlen" "bdata b + hlen \<le> ofpbuf_tail b"
      using False by (auto simp: ofpbuf_tail_def)
    show ?thesis
    proof (cases "get_u16 (contents b) 6 AND htons 0x3fff = 0")
      case True
      obtain p where p: "extract_tp g q (skip hlen b) = Some (p, parse_tp g (drop hlen (contents b)))"
        "p = q \<or> (\<exists>x. p = q\<lparr>l7 := Some x\<rparr> \<and> bdata b + hlen \<le> x \<and> x \<le> ofpbuf_tail b)"
        "nw_proto (parse_tp g (drop hlen (contents b))) = IP_TYPE_TCP \<longrightarrow> 20 \<le> bsize b - hlen"
        "nw_proto (parse_tp g (drop hlen (contents b))) = IP_TYPE_UDP \<longrightarrow> 8 \<le> bsize b - hlen"
        using extract_tp_parse [OF ok, of g q] False by auto
      then show ?thesis
        using e pn True bounds that [of p] assms(3,4) False
        by (auto simp: q_def ofpbuf_tail_def)
    next
      case frag: False
      then show ?thesis using e pn bounds that [of q] assms(3,4) by (simp add: q_def)
    qed
  qed
qed

lemma extract_vlan_parse:
  assumes "ofpbuf_ok b"
  shows "\<exists>n \<le> bsize b. extract_vlan f b =
    Some (case strip_tag (dl_type f, contents b) (dl_vlan f) of (t, v, _) \<Rightarrow> f\<lparr>dl_type := t, dl_vlan := v\<rparr>, skip n b)
    \<and> snd (snd (strip_tag (dl_type f, contents b) (dl_vlan f))) = drop n (contents b)"
proof (cases "dl_type f = htons ETH_TYPE_VLAN \<and> 4 \<le> bsize b")
  case True
  then show ?thesis
    using assms ld_contents(2) [OF assms, of 2] ld_contents_0(2) [OF assms]
    by (intro exI [of _ 4]) (simp add: extract_vlan_def strip_tag_def pull_vlan_def try_pull_skip)
next
  case False
  then show ?thesis
    using assms by (intro exI [of _ 0]) (auto simp: extract_vlan_def strip_tag_def pull_vlan_def try_pull_skip)
qed

lemma pull_mpls_value_parse:
  assumes "ofpbuf_ok b"
  shows "pull_mpls_value b = (if bsize b < 4 then None else Some (ntohl (get_u32 (contents b) 0), skip 4 b))"
  using ld_contents_0(3) [OF assms] by (simp add: pull_mpls_value_def pull_mpls_def try_pull_skip)

lemma skip_labels_parse:
  assumes "ofpbuf_ok b" and "\<not> mpls_s v"
  shows "case label_stack (contents b) of
      None \<Rightarrow> skip_labels v b = None
    | Some (vs, rest) \<Rightarrow> \<exists>n \<le> bsize b. skip_labels v b = Some (skip n b) \<and> rest = drop n (contents b)"
  using assms
proof (induction v b rule: skip_labels.induct)
  case (1 v b)
  note ok = \<open>ofpbuf_ok b\<close>
  show ?case
  proof (cases "bsize b < 4")
    case True
    then show ?thesis
      using 1 by (simp add: label_stack.simps [of "contents b"] skip_labels.simps [of v b] pull_mpls_value_parse)
  next
    case False
    define w where "w = ntohl (get_u32 (contents b) 0)"
    have pv: "pull_mpls_value b = Some (w, skip 4 b)" using False ok by (simp add: pull_mpls_value_parse w_def)
    have sk: "skip_labels v b = skip_labels w (skip 4 b)" using 1(3) pv by (simp add: skip_labels.simps [of v b])
    have ls: "label_stack (contents b) = (if mpls_s w then Some ([w], drop 4 (contents b))
      else map_option (\<lambda>(vs, rest). (w # vs, rest)) (label_stack (drop 4 (contents b))))"
      using False ok by (simp add: label_stack.simps [of "contents b"] w_def Let_def)
    show ?thesis
    proof (cases "mpls_s w")
      case True
      then show ?thesis using False ls sk by (auto simp: skip_labels.simps [of w] intro!: exI [of _ 4])
    next
      case ns: False
      have ok4: "ofpbuf_ok (skip 4 b)" using False ok by simp
      have ih: "case label_stack (drop 4 (contents b)) of None \<Rightarrow> skip_labels w (skip 4 b) = None
        | Some (vs, rest) \<Rightarrow> \<exists>n \<le> bsize b - 4. skip_labels w (skip 4 b) = Some (skip (4 + n) b)
            \<and> rest = drop (n + 4) (contents b)"
        using 1(1) [OF 1(3) pv refl ok4 ns] False ok by (auto simp: skip_skip split: option.splits)
      show ?thesis
      proof (cases "label_stack (drop 4 (contents b))")
        case None
        then show ?thesis using ih ls ns sk by simp
      next
        case (Some r)
        then obtain vs rest n where "r = (vs, rest)" "n \<le> bsize b - 4"
          "skip_labels w (skip 4 b) = Some (skip (4 + n) b)" "rest = drop (n + 4) (contents b)"
          using ih by (cases r) auto
        then show ?thesis using Some ls ns sk False by (auto intro!: exI [of _ "4 + n"] simp: add.commute)
      qed
    qed
  qed
qed


lemma label_stack_nonempty: "label_stack bs = Some (vs, rest) \<Longrightarrow> vs \<noteq> []"
  by (subst (asm) label_stack.simps) (auto simp: Let_def split: if_splits)

lemma extract_mpls_parse:
  assumes "ofpbuf_ok b"
  shows "case parse_mpls f (contents b) of
      None \<Rightarrow> extract_mpls f b = None
    | Some (g, rest) \<Rightarrow> \<exists>n \<le> bsize b. extract_mpls f b = Some (g, skip n b) \<and> rest = drop n (contents b)"
proof (cases "dl_type f = htons ETH_TYPE_MPLS_UNICAST")
  case False
  then show ?thesis by (auto simp: parse_mpls_def extract_mpls_def intro!: exI [of _ 0])
next
  case True
  define f0 where "f0 = f\<lparr>mpls_label1 := htonl MPLS_INVALID_LABEL, mpls_label2 := htonl MPLS_INVALID_LABEL\<rparr>"
  define v where "v = ntohl (get_u32 (contents b) 0)"
  define f1 where "f1 = f0\<lparr>mpls_label1 := htonl (mpls_label v)\<rparr>"
  have lc: "length (contents b) = bsize b" using assms by simp
  show ?thesis
  proof (cases "bsize b < 4")
    case small: True
    then show ?thesis
      using True assms
      by (simp add: parse_mpls_def extract_mpls_def label_stack.simps [of "contents b"] pull_mpls_value_parse)
  next
    case big: False
    have pv: "pull_mpls_value b = Some (v, skip 4 b)" using big assms by (simp add: pull_mpls_value_parse v_def)
    have ok4: "ofpbuf_ok (skip 4 b)" "contents (skip 4 b) = drop 4 (contents b)" "bsize (skip 4 b) = bsize b - 4"
      using big assms by simp_all
    have em: "extract_mpls f b = (if mpls_s v then map_option (\<lambda>b. (f1, b)) (skip_labels v (skip 4 b))
      else case pull_mpls_value (skip 4 b) of None \<Rightarrow> None
        | Some (w, c) \<Rightarrow> map_option (\<lambda>b. (f1\<lparr>mpls_label2 := htonl (mpls_label w)\<rparr>, b)) (skip_labels w c))"
      using True pv
      by (auto simp: extract_mpls_def f1_def f0_def Let_def map_option_case bind_eq_Some_conv
          split: option.split)
    show ?thesis
    proof (cases "mpls_s v")
      case True
      then show ?thesis
        using \<open>dl_type f = htons ETH_TYPE_MPLS_UNICAST\<close> big em lc
        by (auto simp: parse_mpls_def label_stack.simps [of "contents b"] v_def [symmetric] f1_def f0_def
            skip_labels.simps [of v] Let_def intro!: exI [of _ 4])
    next
      case ns: False
      have ls: "label_stack (contents b) = map_option (\<lambda>(vs, rest). (v # vs, rest)) (label_stack (drop 4 (contents b)))"
        using big ns lc by (simp add: label_stack.simps [of "contents b"] v_def Let_def)
      define w where "w = ntohl (get_u32 (drop 4 (contents b)) 0)"
      have pw: "pull_mpls_value (skip 4 b) = (if bsize b - 4 < 4 then None else Some (w, skip 8 b))"
        using pull_mpls_value_parse [OF ok4(1)] ok4 by (simp add: w_def skip_skip)
      have sl: "skip_labels v (skip 4 b) = (if bsize b - 4 < 4 then None else skip_labels w (skip 8 b))"
        using ns pw by (simp add: skip_labels.simps [of v])
      have em': "extract_mpls f b = map_option (\<lambda>b. (f1\<lparr>mpls_label2 := htonl (mpls_label w)\<rparr>, b)) (skip_labels v (skip 4 b))"
        using em ns pw sl by simp
      show ?thesis
      proof (cases "label_stack (drop 4 (contents b))")
        case None
        then have "skip_labels v (skip 4 b) = None"
          using skip_labels_parse [OF ok4(1) ns] ok4(2) by simp
        then show ?thesis using None ls em' True by (simp add: parse_mpls_def)
      next
        case (Some r)
        obtain vs rest where r: "r = (vs, rest)" by (cases r)
        then obtain n where n: "n \<le> bsize b - 4" "skip_labels v (skip 4 b) = Some (skip n (skip 4 b))"
          "rest = drop n (drop 4 (contents b))"
          using skip_labels_parse [OF ok4(1) ns] ok4(2,3) Some by auto
        have vs: "vs \<noteq> []" "vs ! 0 = w"
          using label_stack_nonempty Some r
          by (auto simp: label_stack.simps [of "drop 4 (contents b)"] w_def Let_def split: if_splits)
        then have "parse_mpls f (contents b) = Some (f1\<lparr>mpls_label2 := htonl (mpls_label w)\<rparr>, rest)"
          using ls Some r True by (simp add: parse_mpls_def f1_def f0_def Let_def)
        then show ?thesis
          using em' n big by (auto simp: skip_skip intro!: exI [of _ "n + 4"] simp: add.commute)
      qed
    qed
  qed
qed

lemma extract_dl_type_parse:
  assumes "ofpbuf_ok p" and "14 \<le> bsize p"
  shows "case link_type (contents p) of
      None \<Rightarrow> extract_dl_type (bdata p) (skip 14 p) = Some None
    | Some (t, rest) \<Rightarrow> \<exists>n \<le> bsize p. 14 \<le> n \<and> rest = drop n (contents p)
        \<and> extract_dl_type (bdata p) (skip 14 p) = Some (Some (t, skip n p))"
proof -
  have lc: "length (contents p) = bsize p" using assms by simp
  have t: "ld16 p (bdata p + 12) = Some (get_u16 (contents p) 12)" using assms ld_contents(2) by simp
  show ?thesis
  proof (cases "OFP_DL_TYPE_ETH2_CUTOFF \<le> ntohs (get_u16 (contents p) 12)")
    case True
    then show ?thesis using assms t lc by (auto simp: extract_dl_type_def link_type_def Let_def)
  next
    case False
    show ?thesis
    proof (cases "bsize p - 14 < 8")
      case True
      then show ?thesis using False assms t lc by (simp add: extract_dl_type_def link_type_def ofpbuf_at_def Let_def)
    next
      case big: False
      define r where "r = drop 14 (contents p)"
      have at: "ofpbuf_at (skip 14 p) 0 8 = Some (bdata p + 14)" using big by (simp add: ofpbuf_at_def)
      have l: "ldn p (bdata p + 14) 3 = Some (take 3 r)" "ldn p (bdata p + 14 + 3) 3 = Some (take 3 (drop 3 r))"
        "ld16 p (bdata p + 14 + 6) = Some (get_u16 r 6)"
        using big assms ld_contents(4) [OF assms(1), of 14 3] ld_contents(4) [OF assms(1), of 17 3]
          ld_contents(2) [OF assms(1), of 20] lc
        by (simp_all add: r_def get_drop add.assoc)
      have "take 6 r = take 3 r @ take 3 (drop 3 r)" using take_add [of 3 3 r] by simp
      moreover have "length (take 3 r) = 3" "length (take 3 (drop 3 r)) = 3" using big lc by (simp_all add: r_def)
      ultimately have cond: "take 6 r = [0xaa, 0xaa, 3, 0, 0, 0] \<longleftrightarrow> take 3 r = [0xaa, 0xaa, 3] \<and> take 3 (drop 3 r) = [0, 0, 0]"
        using append_eq_append_conv [of "take 3 r" "[0xaa, 0xaa, 3]" "take 3 (drop 3 r)" "[0, 0, 0]"] by simp
      have pulls: "ofpbuf_pull 8 (skip 14 p) = Some (bdata p + 14, skip 22 p)"
        "ofpbuf_pull 3 (skip 14 p) = Some (bdata p + 14, skip 17 p)"
        using big by (simp_all add: pull_skip skip_skip)
      show ?thesis
        using False t lc big at l cond pulls assms
        by (simp add: extract_dl_type_def link_type_def Let_def r_def [symmetric])
          (auto simp: r_def intro: exI [of _ 22] exI [of _ 17])
    qed
  qed
qed



section \<open>Parsing a frame\<close>

text \<open>
  The layer pointers of a parsed packet: in order and inside the bytes in use, with a complete network
  header before the transport layer, and a complete transport header when the flow names TCP or UDP and
  the packet is not a fragment.
\<close>

definition layers_ok :: "ofpbuf \<Rightarrow> bool" where
  "layers_ok p \<longleftrightarrow> l2 p = Some (bdata p)
     \<and> (\<forall>x. l3 p = Some x \<longrightarrow> (\<exists>y. l2_5 p = Some y \<and> bdata p \<le> y \<and> y \<le> x \<and> x \<le> ofpbuf_tail p))
     \<and> (\<forall>x. l4 p = Some x \<longrightarrow> (\<exists>y. l3 p = Some y \<and> y + 20 \<le> x \<and> x \<le> ofpbuf_tail p))
     \<and> (\<forall>x. l7 p = Some x \<longrightarrow> (\<exists>y. l4 p = Some y \<and> y \<le> x \<and> x \<le> ofpbuf_tail p))"

definition transport_ok :: "ofpbuf \<Rightarrow> flow \<Rightarrow> bool" where
  "transport_ok p f \<longleftrightarrow>
     (nw_proto f = IP_TYPE_TCP \<longrightarrow> (\<exists>y. l4 p = Some y \<and> y + 20 \<le> ofpbuf_tail p))
     \<and> (nw_proto f = IP_TYPE_UDP \<longrightarrow> (\<exists>y. l4 p = Some y \<and> y + 8 \<le> ofpbuf_tail p))"

definition same_bytes :: "ofpbuf \<Rightarrow> ofpbuf \<Rightarrow> bool" where
  "same_bytes p q \<longleftrightarrow> area q = area p \<and> bdata q = bdata p \<and> bsize q = bsize p"

lemma strip_tag_flow:
  "nw_proto (case strip_tag tr v of (t, w, _) \<Rightarrow> f\<lparr>dl_type := t, dl_vlan := w\<rparr>) = nw_proto f"
  by (simp add: split_beta)

lemma parse_mpls_proto: "parse_mpls f bs = Some (g, rest) \<Longrightarrow> nw_proto g = nw_proto f"
  by (cases "dl_type f = htons ETH_TYPE_MPLS_UNICAST") (auto simp: parse_mpls_def Let_def split_beta)

lemma flow_extract_parse:
  assumes ok: "ofpbuf_ok packet"
  shows "case parse_frame (contents packet) port of
      None \<Rightarrow> flow_extract packet port = None
    | Some (r, f) \<Rightarrow> \<exists>p. flow_extract packet port = Some (r, p, f) \<and> same_bytes packet p
        \<and> layers_ok p \<and> (r \<or> transport_ok p f)"
proof -
  define f0 where "f0 = zero_flow\<lparr>dl_vlan := htons OFP_VLAN_NONE, in_port := htons port\<rparr>"
  define p0 where "p0 = packet\<lparr>l2 := Some (bdata packet), l3 := None, l4 := None, l7 := None\<rparr>"
  have lc: "length (contents packet) = bsize packet" using ok by simp
  have p0: "same_bytes packet p0" "layers_ok p0" "transport_ok p0 f0"
    by (simp_all add: p0_def same_bytes_def layers_ok_def transport_ok_def f0_def zero_flow_def)
  show ?thesis
  proof (cases "14 \<le> bsize packet")
    case False
    then show ?thesis
      using p0 lc by (simp add: parse_frame_def link_type_def flow_extract_def pull_eth_def try_pull_skip
          p0_def [symmetric] f0_def [symmetric] Let_def)
  next
    case big: True
    have eth: "pull_eth packet = Some (Some (bdata packet), skip 14 packet)"
      using big by (simp add: pull_eth_def try_pull_skip)
    show ?thesis
    proof (cases "link_type (contents packet)")
      case None
      then have "extract_dl_type (bdata packet) (skip 14 packet) = Some None"
        using extract_dl_type_parse [OF ok big] by simp
      then show ?thesis
        using None p0 eth
        by (simp add: parse_frame_def flow_extract_def p0_def [symmetric] f0_def [symmetric] Let_def)
    next
      case (Some tr)
      obtain t rest where tr: "tr = (t, rest)" by (cases tr)
      obtain n where n: "n \<le> bsize packet" "14 \<le> n" "rest = drop n (contents packet)"
        "extract_dl_type (bdata packet) (skip 14 packet) = Some (Some (t, skip n packet))"
        using extract_dl_type_parse [OF ok big] Some tr by auto
      obtain t' v' rest' where st: "strip_tag (t, rest) (htons OFP_VLAN_NONE) = (t', v', rest')"
        by (cases "strip_tag (t, rest) (htons OFP_VLAN_NONE)")
      have okn: "ofpbuf_ok (skip n packet)" "contents (skip n packet) = rest" using ok n by simp_all
      obtain m where m: "m \<le> bsize packet - n" "rest' = drop m rest"
        "extract_vlan (f0\<lparr>dl_type := t\<rparr>) (skip n packet) = Some (f0\<lparr>dl_type := t', dl_vlan := v'\<rparr>, skip (n + m) packet)"
        using extract_vlan_parse [OF okn(1), of "f0\<lparr>dl_type := t\<rparr>"] okn(2) st by (auto simp: f0_def skip_skip)
      define k where "k = n + m"
      have k: "k \<le> bsize packet" "14 \<le> k" "rest' = drop k (contents packet)"
        using m n by (simp_all add: k_def add.commute)
      have okk: "ofpbuf_ok (skip k packet)" "contents (skip k packet) = rest'" using ok k by simp_all
      define f1 where "f1 = f0\<lparr>dl_type := t', dl_vlan := v', dl_src := eth_of_bytes (drop 6 (contents packet)),
        dl_dst := eth_of_bytes (contents packet)\<rparr>"
      have addrs: "ldn packet (bdata packet) 6 = Some (take 6 (contents packet))"
        "ldn packet (bdata packet + 6) 6 = Some (take 6 (drop 6 (contents packet)))"
        "eth_of_bytes (take 6 bs) = eth_of_bytes bs" for bs
        using ld_contents_0(4) [OF ok] ld_contents(4) [OF ok, of 6 6] big by (simp_all add: eth_of_bytes_def)
      define p1 where "p1 = p0\<lparr>l2_5 := Some (bdata packet + k)\<rparr>"
      have fe: "flow_extract packet port = do {
          (flow, b) \<leftarrow> extract_mpls f1 (skip k packet);
          if dl_type flow = htons ETH_TYPE_IP \<or> dl_type flow = htons ETH_TYPE_MPLS_UNICAST
          then extract_nw flow (p1\<lparr>l3 := Some (bdata b)\<rparr>) b
          else Some (False, p1\<lparr>l3 := Some (bdata b)\<rparr>, flow) }"
        using eth n(4) m(3) addrs
        by (simp add: flow_extract_def Let_def f0_def [symmetric] p0_def [symmetric] k_def [symmetric] f1_def p1_def
            cong: if_cong)
      have pf: "parse_frame (contents packet) port = (case parse_mpls f1 rest' of None \<Rightarrow> None
          | Some (f, rest) \<Rightarrow> if dl_type f = htons ETH_TYPE_IP \<or> dl_type f = htons ETH_TYPE_MPLS_UNICAST
              then Some (parse_nw f rest) else Some (False, f))"
        using Some st by (simp add: parse_frame_def tr f0_def [symmetric] f1_def Let_def)
      show ?thesis
      proof (cases "parse_mpls f1 rest'")
        case None
        then show ?thesis using extract_mpls_parse [OF okk(1), of f1] okk(2) fe pf by simp
      next
        case pm: (Some g)
        obtain f2 rest2 where g: "g = (f2, rest2)" by (cases g)
        obtain j where j: "j \<le> bsize packet - k" "rest2 = drop j rest'"
          "extract_mpls f1 (skip k packet) = Some (f2, skip (k + j) packet)"
          using extract_mpls_parse [OF okk(1), of f1] okk(2) pm g by (auto simp: skip_skip)
        have kj: "k + j \<le> bsize packet" using j k by simp
        have ok2: "ofpbuf_ok (skip (k + j) packet)" "contents (skip (k + j) packet) = rest2"
          using ok kj j(2) k(3) by (simp_all add: add.commute)
        have proto: "nw_proto f2 = 0"
          using parse_mpls_proto pm g by (fastforce simp: f1_def f0_def zero_flow_def)
        define p2 where "p2 = p1\<lparr>l3 := Some (bdata packet + (k + j))\<rparr>"
        have p2: "same_bytes packet p2" "layers_ok p2" "l4 p2 = None" "l7 p2 = None" "l2 p2 = Some (bdata packet)"
          "l2_5 p2 = Some (bdata packet + k)" "l3 p2 = Some (bdata packet + (k + j))"
          using kj by (simp_all add: p2_def p1_def p0_def same_bytes_def layers_ok_def ofpbuf_tail_def)
        have fe2: "flow_extract packet port =
          (if dl_type f2 = htons ETH_TYPE_IP \<or> dl_type f2 = htons ETH_TYPE_MPLS_UNICAST
           then extract_nw f2 p2 (skip (k + j) packet) else Some (False, p2, f2))"
          using fe j(3) by (simp add: p2_def)
        show ?thesis
        proof (cases "dl_type f2 = htons ETH_TYPE_IP \<or> dl_type f2 = htons ETH_TYPE_MPLS_UNICAST")
          case False
          then show ?thesis using fe2 pf pm g p2 proto by (simp add: transport_ok_def)
        next
          case True
          obtain p where p: "extract_nw f2 p2 (skip (k + j) packet) = Some (fst (parse_nw f2 rest2), p, snd (parse_nw f2 rest2))"
            "p\<lparr>l4 := None, l7 := None\<rparr> = p2"
            "\<And>x. l4 p = Some x \<Longrightarrow> bdata packet + (k + j) + 20 \<le> x \<and> x \<le> ofpbuf_tail packet"
            "\<And>x. l7 p = Some x \<Longrightarrow> \<exists>y. l4 p = Some y \<and> y \<le> x \<and> x \<le> ofpbuf_tail packet"
            "fst (parse_nw f2 rest2) \<or> transport_ok p (snd (parse_nw f2 rest2))"
          proof (rule extract_nw_parse [OF ok2(1) proto p2(3,4)])
            fix p
            assume *: "extract_nw f2 p2 (skip (k + j) packet) = Some (fst (parse_nw f2 (contents (skip (k + j) packet))),
                p, snd (parse_nw f2 (contents (skip (k + j) packet))))"
              "p\<lparr>l4 := None, l7 := None\<rparr> = p2"
              "\<And>x. l4 p = Some x \<Longrightarrow> bdata (skip (k + j) packet) + 20 \<le> x \<and> x \<le> ofpbuf_tail (skip (k + j) packet)"
              "\<And>x. l7 p = Some x \<Longrightarrow> \<exists>y. l4 p = Some y \<and> y \<le> x \<and> x \<le> ofpbuf_tail (skip (k + j) packet)"
              "\<not> fst (parse_nw f2 (contents (skip (k + j) packet))) \<Longrightarrow>
                nw_proto (snd (parse_nw f2 (contents (skip (k + j) packet)))) = IP_TYPE_TCP \<Longrightarrow>
                \<exists>y. l4 p = Some y \<and> y + 20 \<le> ofpbuf_tail (skip (k + j) packet)"
              "\<not> fst (parse_nw f2 (contents (skip (k + j) packet))) \<Longrightarrow>
                nw_proto (snd (parse_nw f2 (contents (skip (k + j) packet)))) = IP_TYPE_UDP \<Longrightarrow>
                \<exists>y. l4 p = Some y \<and> y + 8 \<le> ofpbuf_tail (skip (k + j) packet)"
            have "ofpbuf_tail p = ofpbuf_tail packet"
              using *(2) p2(1) by (auto simp: ofpbuf_tail_def same_bytes_def)
            then show thesis using * that [of p] ok2(2) kj by (auto simp: transport_ok_def)
          qed
          have fields: "area p = area packet" "bdata p = bdata packet" "bsize p = bsize packet"
            "l2 p = l2 p2" "l2_5 p = l2_5 p2" "l3 p = l3 p2"
            using p(2) p2(1) unfolding same_bytes_def
            by (metis ofpbuf.select_convs ofpbuf.surjective ofpbuf.update_convs)+
          have "same_bytes packet p" "layers_ok p"
            using fields p2 p(3,4) kj by (auto simp: same_bytes_def layers_ok_def ofpbuf_tail_def)
          then show ?thesis using fe2 pf pm g True p(1,5) by (auto simp: split_beta)
        qed
      qed
    qed
  qed
qed


text \<open>
  C34. \<open>flow_extract\<close> computes what the byte-list parser computes from the bytes in use: neither the
  headroom, the tailroom nor old layer pointers have an influence on the flow.
\<close>

theorem flow_extract_equiv:
  assumes "ofpbuf_ok packet"
  shows "map_option (\<lambda>(fragment, p, flow). (fragment, flow)) (flow_extract packet port) =
    parse_frame (contents packet) port"
  using flow_extract_parse [OF assms, of port] by (auto split: option.splits)

text \<open>
  Parsing changes no byte of the packet and leaves layer pointers that are in order and inside the
  bytes in use; there is a whole IP header before the transport layer, and a whole TCP or UDP header
  when the flow says TCP or UDP, unless the packet is a fragment.
\<close>

theorem flow_extract_layers:
  assumes "ofpbuf_ok packet" and "flow_extract packet port = Some (fragment, p, flow)"
  shows "same_bytes packet p \<and> layers_ok p \<and> (fragment \<or> transport_ok p flow)"
  using flow_extract_parse [OF assms(1), of port] assms(2) by (auto split: option.splits)

text \<open>
  C35. \<open>flow_extract\<close> dereferences a null pointer exactly when the frame is an MPLS frame whose label
  stack is cut off before an entry with the bottom-of-stack bit.
\<close>

theorem flow_extract_crash_iff:
  assumes "ofpbuf_ok packet"
  shows "flow_extract packet port = None \<longleftrightarrow>
    (\<exists>tr vlan rest. link_type (contents packet) = Some tr
       \<and> strip_tag tr (htons OFP_VLAN_NONE) = (htons ETH_TYPE_MPLS_UNICAST, vlan, rest) \<and> label_stack rest = None)"
proof -
  have "flow_extract packet port = None \<longleftrightarrow> parse_frame (contents packet) port = None"
    using flow_extract_parse [OF assms, of port] by (auto split: option.splits)
  also have "\<dots> \<longleftrightarrow> (\<exists>tr vlan rest. link_type (contents packet) = Some tr
       \<and> strip_tag tr (htons OFP_VLAN_NONE) = (htons ETH_TYPE_MPLS_UNICAST, vlan, rest) \<and> label_stack rest = None)"
    by (auto simp: parse_frame_def parse_mpls_def Let_def split: option.splits if_splits prod.splits)
  finally show ?thesis .
qed


section \<open>Frames put together from header fields\<close>

definition eth_frame :: "eth_addr \<Rightarrow> eth_addr \<Rightarrow> u16 \<Rightarrow> u8 list \<Rightarrow> u8 list" where
  "eth_frame dst src t payload = eth_bytes dst @ eth_bytes src @ bytes16 t @ payload"

definition vlan_tag :: "u16 \<Rightarrow> u16 \<Rightarrow> u8 list \<Rightarrow> u8 list" where
  "vlan_tag tci t payload = bytes16 tci @ bytes16 t @ payload"

definition ip_packet :: "u8 list \<Rightarrow> u8 \<Rightarrow> u8 \<Rightarrow> u16 \<Rightarrow> u32 \<Rightarrow> u32 \<Rightarrow> u8 list \<Rightarrow> u8 list" where
  "ip_packet hdr ttl proto cs src dst payload =
     [0x45] @ hdr @ bytes16 0 @ [ttl, proto] @ bytes16 cs @ bytes32 src @ bytes32 dst @ payload"

definition tcp_segment :: "u16 \<Rightarrow> u16 \<Rightarrow> u8 list \<Rightarrow> u8 list \<Rightarrow> u8 list" where
  "tcp_segment src dst rest payload = bytes16 src @ bytes16 dst @ rest @ payload"

lemma get_u16_append: "i + 2 \<le> length xs \<Longrightarrow> get_u16 (xs @ ys) i = get_u16 xs i"
    "length xs \<le> i \<Longrightarrow> get_u16 (xs @ ys) i = get_u16 ys (i - length xs)"
  by (auto simp: get_u16_def nth_append Suc_diff_le)

lemma get_u32_append: "i + 4 \<le> length xs \<Longrightarrow> get_u32 (xs @ ys) i = get_u32 xs i"
    "length xs \<le> i \<Longrightarrow> get_u32 (xs @ ys) i = get_u32 ys (i - length xs)"
  by (auto simp: get_u32_def nth_append Suc_diff_le add.commute)

lemma get_bytes: "get_u16 (bytes16 x @ ys) 0 = x" "get_u32 (bytes32 z @ ys) 0 = z"
  by (simp_all add: get_u16_def get_u32_def bytes16_def bytes32_def le16_bytes le32_bytes)

lemma eth_of_bytes_append [simp]: "eth_of_bytes (eth_bytes a @ xs) = a"
  by (cases a) (simp add: eth_of_bytes_def)

lemma link_type_frame:
  assumes "OFP_DL_TYPE_ETH2_CUTOFF \<le> ntohs t"
  shows "link_type (eth_frame dst src t payload) = Some (t, payload)"
proof -
  have "get_u16 (eth_frame dst src t payload) 12 = t"
    by (simp add: eth_frame_def get_u16_append(2) get_bytes)
  then show ?thesis using assms by (simp add: link_type_def eth_frame_def)
qed

lemma parse_nw_tcp:
  assumes "length h = 5" and "length r = 16" and "drop_bit 12 (ntohs (get_u16 r 8)) = 5"
  shows "parse_nw f (ip_packet h ttl IP_TYPE_TCP cs src dst (tcp_segment sp dp r payload)) =
    (False, f\<lparr>nw_src := src, nw_dst := dst, nw_proto := IP_TYPE_TCP, tp_src := sp, tp_dst := dp\<rparr>)"
proof -
  let ?tcp = "tcp_segment sp dp r payload"
  let ?ip = "ip_packet h ttl IP_TYPE_TCP cs src dst ?tcp"
  have ip: "get_u32 ?ip 12 = src" "get_u32 ?ip 16 = dst" "get_u16 ?ip 6 = 0" "?ip ! 9 = IP_TYPE_TCP" "?ip ! 0 = 0x45"
      "drop 20 ?ip = ?tcp" "length ?ip = 20 + length ?tcp"
    using assms(1) by (simp_all add: ip_packet_def get_u32_append(2) get_u16_append get_bytes nth_append
        get_u32_def get_u16_def bytes16_def bytes32_def le32_bytes le16_bytes le16_def)
  have tcp: "get_u16 ?tcp 0 = sp" "get_u16 ?tcp 2 = dp" "get_u16 ?tcp 12 = get_u16 r 8" "20 \<le> length ?tcp"
    using assms(2) by (simp_all add: tcp_segment_def get_u16_append get_bytes)
  show ?thesis
    using ip tcp assms(3) by (simp add: parse_nw_def parse_tp_def Let_def)
qed

text \<open>
  Round trip: the flow extracted from a TCP/IP frame, with or without a VLAN tag, has exactly the
  fields the frame was put together from.
\<close>

theorem flow_extract_tcp_frame:
  assumes "ofpbuf_ok packet" and "length h = 5" and "length r = 16" and "drop_bit 12 (ntohs (get_u16 r 8)) = 5"
    and "contents packet = (case tag of
        None \<Rightarrow> eth_frame dmac smac (htons ETH_TYPE_IP) ip
      | Some tci \<Rightarrow> eth_frame dmac smac (htons ETH_TYPE_VLAN) (vlan_tag tci (htons ETH_TYPE_IP) ip))"
    and "ip = ip_packet h ttl IP_TYPE_TCP cs src dst (tcp_segment sp dp r payload)"
  shows "\<exists>p. flow_extract packet port = Some (False, p, \<lparr>nw_src = src, nw_dst = dst, in_port = htons port,
      dl_vlan = (case tag of None \<Rightarrow> htons OFP_VLAN_NONE | Some tci \<Rightarrow> tci AND htons VLAN_VID_MASK),
      dl_type = htons ETH_TYPE_IP, tp_src = sp, tp_dst = dp, dl_src = smac, dl_dst = dmac,
      nw_proto = IP_TYPE_TCP, reserved = 0,
      mpls_label1 = htonl MPLS_INVALID_LABEL, mpls_label2 = htonl MPLS_INVALID_LABEL\<rparr>)"
proof -
  have types: "OFP_DL_TYPE_ETH2_CUTOFF \<le> ntohs (htons ETH_TYPE_IP)" "OFP_DL_TYPE_ETH2_CUTOFF \<le> ntohs (htons ETH_TYPE_VLAN)"
    by simp_all
  have macs: "eth_of_bytes (eth_frame dmac smac t x) = dmac" "eth_of_bytes (drop 6 (eth_frame dmac smac t x)) = smac" for t x
    by (simp_all add: eth_frame_def)
  have tag: "get_u16 (vlan_tag tci t x) 2 = t" "get_u16 (vlan_tag tci t x) 0 = tci" "drop 4 (vlan_tag tci t x) = x"
      "4 \<le> length (vlan_tag tci t x)" for tci t x
    by (simp_all add: vlan_tag_def get_u16_append get_bytes)
  have "parse_frame (contents packet) port = Some (False, \<lparr>nw_src = src, nw_dst = dst, in_port = htons port,
      dl_vlan = (case tag of None \<Rightarrow> htons OFP_VLAN_NONE | Some tci \<Rightarrow> tci AND htons VLAN_VID_MASK),
      dl_type = htons ETH_TYPE_IP, tp_src = sp, tp_dst = dp, dl_src = smac, dl_dst = dmac,
      nw_proto = IP_TYPE_TCP, reserved = 0,
      mpls_label1 = htonl MPLS_INVALID_LABEL, mpls_label2 = htonl MPLS_INVALID_LABEL\<rparr>)"
    using assms(5) link_type_frame [OF types(1)] link_type_frame [OF types(2)] macs tag
    unfolding assms(6)
    by (cases tag)
      (simp_all add: parse_frame_def strip_tag_def parse_mpls_def parse_nw_tcp [OF assms(2-4)] zero_flow_def Let_def)
  then show ?thesis using flow_extract_parse [OF assms(1), of port] by auto
qed

definition sample_ip :: "u8 list" where
  "sample_ip = ip_packet [0, 0, 40, 0, 1] 64 IP_TYPE_TCP 0 1 2
     (tcp_segment 3 4 ([0, 0, 0, 1, 0, 0, 0, 2, 0x50, 0x10] @ replicate 6 0) [])"

definition packet_of :: "u8 list \<Rightarrow> ofpbuf" where
  "packet_of bs = \<lparr>area = bs, bdata = 0, bsize = length bs, l2 = None, l2_5 = None, l3 = None, l4 = None,
     l7 = None, last_mpls_h = 0\<rparr>"

lemma packet_of_simps [simp]: "ofpbuf_ok (packet_of bs)" "contents (packet_of bs) = bs"
  by (simp_all add: packet_of_def ofpbuf_ok_def contents_def)

definition sample_frame :: "u8 list" where
  "sample_frame = eth_frame (Eth 1 2 3 4 5 6) (Eth 7 8 9 10 11 12) (htons ETH_TYPE_VLAN)
     (vlan_tag (htons 7) (htons ETH_TYPE_IP) sample_ip)"

definition sample_mpls :: "u8 list" where
  "sample_mpls = eth_frame (Eth 1 2 3 4 5 6) (Eth 7 8 9 10 11 12) (htons ETH_TYPE_MPLS_UNICAST) [0, 0, 0x10, 64]"

theorem flow_extract_tcp_frame_witness:
  "\<exists>p f. flow_extract (packet_of sample_frame) 5 = Some (False, p, f) \<and> tp_dst f = 4 \<and> dl_vlan f = htons 7"
proof -
  let ?r = "[0, 0, 0, 1, 0, 0, 0, 2, 0x50, 0x10] @ replicate 6 0 :: u8 list"
  have "drop_bit 12 (ntohs (get_u16 ?r 8)) = 5" by code_simp
  moreover have "htons 7 AND htons VLAN_VID_MASK = htons 7" by code_simp
  ultimately show ?thesis
    using flow_extract_tcp_frame [where packet = "packet_of sample_frame" and h = "[0, 0, 40, 0, 1]" and r = ?r
        and tag = "Some (htons 7)" and dmac = "Eth 1 2 3 4 5 6" and smac = "Eth 7 8 9 10 11 12" and ip = sample_ip
        and ttl = 64 and cs = 0 and src = 1 and dst = 2 and sp = 3 and dp = 4 and payload = "[]" and port = 5]
    by (fastforce simp: sample_frame_def sample_ip_def)
qed

theorem flow_extract_equiv_witness:
  "map_option (\<lambda>(fragment, p, flow). (fragment, flow)) (flow_extract (packet_of sample_frame) 5) =
     parse_frame sample_frame 5"
  using flow_extract_equiv [of "packet_of sample_frame" 5] by simp

theorem flow_extract_layers_witness:
  "\<exists>p f. flow_extract (packet_of [1, 2, 3]) 5 = Some (False, p, f) \<and> layers_ok p"
proof -
  have "flow_extract (packet_of [1, 2, 3]) 5 =
      Some (False, (packet_of [1, 2, 3])\<lparr>l2 := Some 0, l3 := None, l4 := None, l7 := None\<rparr>,
        zero_flow\<lparr>dl_vlan := htons OFP_VLAN_NONE, in_port := htons 5\<rparr>)"
    by (simp add: flow_extract_def pull_eth_def try_pull_skip packet_of_def Let_def)
  then show ?thesis using flow_extract_layers [of "packet_of [1, 2, 3]" 5] by fastforce
qed

theorem flow_extract_crash_iff_witness: "flow_extract (packet_of sample_mpls) 5 = None"
proof -
  let ?p = "[0, 0, 0x10, 64] :: u8 list"
  have t: "OFP_DL_TYPE_ETH2_CUTOFF \<le> ntohs (htons ETH_TYPE_MPLS_UNICAST)" by simp
  have "htons ETH_TYPE_MPLS_UNICAST \<noteq> htons ETH_TYPE_VLAN" by simp
  moreover have "\<not> mpls_s (ntohl (get_u32 ?p 0))" by code_simp
  then have "label_stack ?p = None"
    by (simp add: label_stack.simps [of ?p] label_stack.simps [of "[]"] Let_def)
  ultimately show ?thesis
    using flow_extract_crash_iff [of "packet_of sample_mpls" 5] link_type_frame [OF t]
    by (simp add: sample_mpls_def strip_tag_def)
qed

end
