(* ===== verification/Packet_Actions.thy ===== *)
theory Packet_Actions
  imports Flow_Extract Flow_Store Csum
begin

text \<open>
  The actions that rewrite a packet: \<open>switch/dp_act.c\<close> (VLAN, MAC, IP, TCP/UDP and MPLS fields),
  \<open>switch/pt_act.c\<close> (MPLS push and pop, port actions) and \<open>switch/er_act.c\<close> (their vendor versions).
  An action works on the buffer and the key of the packet; \<open>None\<close> is a failed assertion or an access
  through a null pointer or outside of the allocated memory.
\<close>

section \<open>Reading an action\<close>

definition ah8 :: "u8 list \<Rightarrow> nat \<Rightarrow> u8 option" where
  "ah8 ah i = (if i < length ah then Some (ah ! i) else None)"

definition ah16 :: "u8 list \<Rightarrow> nat \<Rightarrow> u16 option" where
  "ah16 ah i = (if i + 2 \<le> length ah then Some (get_u16 ah i) else None)"

definition ah32 :: "u8 list \<Rightarrow> nat \<Rightarrow> u32 option" where
  "ah32 ah i = (if i + 4 \<le> length ah then Some (get_u32 ah i) else None)"

abbreviation (input) OFPAT_SET_DL_SRC :: u16 where "OFPAT_SET_DL_SRC \<equiv> 4"
abbreviation (input) OFPAT_SET_NW_SRC :: u16 where "OFPAT_SET_NW_SRC \<equiv> 6"
abbreviation (input) OFPAT_SET_TP_SRC :: u16 where "OFPAT_SET_TP_SRC \<equiv> 8"
abbreviation (input) OFPAT_VENDOR :: u16 where "OFPAT_VENDOR \<equiv> 0xffff"
abbreviation (input) VLAN_PCP_MASK :: u16 where "VLAN_PCP_MASK \<equiv> 0xe000"
abbreviation (input) NX_VENDOR_ID :: u32 where "NX_VENDOR_ID \<equiv> 0x00002320"
abbreviation (input) ER_VENDOR_ID :: u32 where "ER_VENDOR_ID \<equiv> 0x000001EC"

text \<open>Assignments to the bit fields of an MPLS entry.\<close>

definition mpls_set_label :: "u32 \<Rightarrow> u32 \<Rightarrow> u32" where
  "mpls_set_label l v = (v AND mask 12) OR push_bit 12 l"

definition mpls_set_exp :: "u8 \<Rightarrow> u32 \<Rightarrow> u32" where
  "mpls_set_exp e v = (v AND NOT (push_bit 9 (mask 3))) OR push_bit 9 (take_bit 3 (ucast e))"

definition mpls_set_s :: "bool \<Rightarrow> u32 \<Rightarrow> u32" where
  "mpls_set_s s v = (v AND NOT (push_bit 8 1)) OR (if s then push_bit 8 1 else 0)"

definition mpls_set_ttl :: "u8 \<Rightarrow> u32 \<Rightarrow> u32" where
  "mpls_set_ttl t v = (v AND NOT (mask 8)) OR ucast t"


section \<open>MPLS label and EXP\<close>

definition set_mpls_label_act :: "u32 \<Rightarrow> sw_flow_key \<Rightarrow> ofpbuf \<Rightarrow> ofpbuf option" where
  "set_mpls_label_act label_out k b =
     (if ntohs (dl_type (key_flow k)) = ETH_TYPE_MPLS_UNICAST then do {
        p \<leftarrow> l2_5 b;
        v \<leftarrow> ld32 b p;
        st32 p (htonl (mpls_set_label (ntohl label_out) (htonl v))) b
      } else Some b)"

definition set_mpls_exp_act :: "u8 \<Rightarrow> sw_flow_key \<Rightarrow> ofpbuf \<Rightarrow> ofpbuf option" where
  "set_mpls_exp_act e k b =
     (if ntohs (dl_type (key_flow k)) = ETH_TYPE_MPLS_UNICAST then do {
        p \<leftarrow> l2_5 b;
        v \<leftarrow> ld32 b p;
        st32 p (htonl (mpls_set_exp e (htonl v))) b
      } else Some b)"


section \<open>VLAN\<close>

definition set_key_vlan :: "u16 \<Rightarrow> sw_flow_key \<Rightarrow> sw_flow_key" where
  "set_key_vlan v k = k\<lparr>key_flow := (key_flow k)\<lparr>dl_vlan := v\<rparr>\<rparr>"

definition modify_vlan_tci :: "u16 \<Rightarrow> u16 \<Rightarrow> ofpbuf \<Rightarrow> sw_flow_key \<Rightarrow> (ofpbuf \<times> sw_flow_key) option" where
  "modify_vlan_tci tci msk b k = do {
     (veh, b) \<leftarrow>
       (if dl_vlan (key_flow k) \<noteq> htons OFP_VLAN_NONE then do {
          veh \<leftarrow> l2 b;
          x \<leftarrow> ld16 b (veh + 14);
          b \<leftarrow> st16 (veh + 14) (x AND NOT (htons msk)) b;
          x \<leftarrow> ld16 b (veh + 14);
          b \<leftarrow> st16 (veh + 14) (x OR htons tci) b;
          Some (veh, b)
        } else do {
          eh \<leftarrow> l2 b;
          addrs \<leftarrow> ldn b eh 12;
          eth_type \<leftarrow> ld16 b (eh + 12);
          let tmp = addrs @ bytes16 (htons ETH_TYPE_VLAN) @ bytes16 (htons tci) @ bytes16 eth_type;
          b \<leftarrow> ofpbuf_push_uninit VLAN_HEADER_LEN b;
          let veh = bdata b;
          b \<leftarrow> stn veh tmp b;
          Some (veh, b\<lparr>l2 := map_option (\<lambda>p. p - VLAN_HEADER_LEN) (l2 b)\<rparr>)
        });
     x \<leftarrow> ld16 b (veh + 14);
     Some (b, set_key_vlan (x AND htons VLAN_VID_MASK) k)
   }"

definition vlan_pull_tag :: "ofpbuf \<Rightarrow> ofpbuf option" where
  "vlan_pull_tag b = do {
     veh \<leftarrow> l2 b;
     veth_type \<leftarrow> ld16 b (veh + 12);
     if veth_type = htons ETH_TYPE_VLAN then do {
       addrs \<leftarrow> ldn b veh 12;
       next_type \<leftarrow> ld16 b (veh + 16);
       let tmp = addrs @ bytes16 next_type;
       if bsize b < VLAN_HEADER_LEN then None
       else do {
         let b = b\<lparr>bsize := bsize b - VLAN_HEADER_LEN, bdata := bdata b + VLAN_HEADER_LEN,
                   l2 := map_option (\<lambda>p. p + VLAN_HEADER_LEN) (l2 b)\<rparr>;
         stn (bdata b) tmp b
       }
     } else Some b
   }"

definition set_vlan_vid :: "u8 list \<Rightarrow> ofpbuf \<Rightarrow> sw_flow_key \<Rightarrow> (ofpbuf \<times> sw_flow_key) option" where
  "set_vlan_vid ah b k = do {
     vlan_vid \<leftarrow> ah16 ah 4;
     modify_vlan_tci (ntohs vlan_vid) VLAN_VID_MASK b k
   }"

definition set_vlan_pcp :: "u8 list \<Rightarrow> ofpbuf \<Rightarrow> sw_flow_key \<Rightarrow> (ofpbuf \<times> sw_flow_key) option" where
  "set_vlan_pcp ah b k = do {
     vlan_pcp \<leftarrow> ah8 ah 4;
     modify_vlan_tci (push_bit 13 (ucast vlan_pcp)) VLAN_PCP_MASK b k
   }"

definition strip_vlan :: "u8 list \<Rightarrow> ofpbuf \<Rightarrow> sw_flow_key \<Rightarrow> (ofpbuf \<times> sw_flow_key) option" where
  "strip_vlan ah b k = do {
     b \<leftarrow> vlan_pull_tag b;
     Some (b, set_key_vlan (htons OFP_VLAN_NONE) k)
   }"


section \<open>Addresses and ports\<close>

definition set_dl_addr :: "u8 list \<Rightarrow> ofpbuf \<Rightarrow> sw_flow_key \<Rightarrow> (ofpbuf \<times> sw_flow_key) option" where
  "set_dl_addr ah b k = do {
     eh \<leftarrow> l2 b;
     type \<leftarrow> ah16 ah 0;
     if length ah < 10 then None
     else do {
       let dl_addr = take 6 (drop 4 ah);
       b \<leftarrow> (if type = htons OFPAT_SET_DL_SRC then stn (eh + 6) dl_addr b else stn eh dl_addr b);
       Some (b, k)
     }
   }"

definition set_mpls_label :: "u8 list \<Rightarrow> ofpbuf \<Rightarrow> sw_flow_key \<Rightarrow> (ofpbuf \<times> sw_flow_key) option" where
  "set_mpls_label ah b k = do {
     label_out \<leftarrow> ah32 ah 4;
     b \<leftarrow> set_mpls_label_act label_out k b;
     Some (b, k)
   }"

definition set_mpls_exp :: "u8 list \<Rightarrow> ofpbuf \<Rightarrow> sw_flow_key \<Rightarrow> (ofpbuf \<times> sw_flow_key) option" where
  "set_mpls_exp ah b k = do {
     e \<leftarrow> ah8 ah 4;
     b \<leftarrow> set_mpls_exp_act e k b;
     Some (b, k)
   }"

text \<open>The transport checksum after a change of a 32-bit field it covers (a UDP checksum 0 means none).\<close>

definition update_tp_csum :: "u8 \<Rightarrow> u32 \<Rightarrow> u32 \<Rightarrow> ofpbuf \<Rightarrow> ofpbuf option" where
  "update_tp_csum proto old new b =
     (if proto = IP_TYPE_TCP then do {
        th \<leftarrow> l4 b;
        c \<leftarrow> ld16 b (th + 16);
        st16 (th + 16) (recalc_csum32 c old new) b
      } else if proto = IP_TYPE_UDP then do {
        th \<leftarrow> l4 b;
        c \<leftarrow> ld16 b (th + 6);
        if c \<noteq> 0 then do {
          let c = recalc_csum32 c old new;
          st16 (th + 6) (if c = 0 then 0xffff else c) b
        } else Some b
      } else Some b)"

text \<open>The type of the action is compared in network byte order with a host constant, as in the code.\<close>

definition set_nw_addr :: "u8 list \<Rightarrow> ofpbuf \<Rightarrow> sw_flow_key \<Rightarrow> (ofpbuf \<times> sw_flow_key) option" where
  "set_nw_addr ah b k =
     (if ntohs (dl_type (key_flow k)) = ETH_TYPE_IP then do {
        nh \<leftarrow> l3 b;
        new \<leftarrow> ah32 ah 4;
        type \<leftarrow> ah16 ah 0;
        let field = (if type = OFPAT_SET_NW_SRC then nh + 12 else nh + 16);
        old \<leftarrow> ld32 b field;
        b \<leftarrow> update_tp_csum (nw_proto (key_flow k)) old new b;
        c \<leftarrow> ld16 b (nh + 10);
        old \<leftarrow> ld32 b field;
        b \<leftarrow> st16 (nh + 10) (recalc_csum32 c old new) b;
        b \<leftarrow> st32 field new b;
        Some (b, k)
      } else Some (b, k))"

definition set_tp_field :: "nat \<Rightarrow> nat \<Rightarrow> nat \<Rightarrow> u16 \<Rightarrow> ofpbuf \<Rightarrow> ofpbuf option" where
  "set_tp_field th csum_off field_off new b = do {
     c \<leftarrow> ld16 b (th + csum_off);
     old \<leftarrow> ld16 b (th + field_off);
     b \<leftarrow> st16 (th + csum_off) (recalc_csum16 c old new) b;
     st16 (th + field_off) new b
   }"

definition set_tp_port :: "u8 list \<Rightarrow> ofpbuf \<Rightarrow> sw_flow_key \<Rightarrow> (ofpbuf \<times> sw_flow_key) option" where
  "set_tp_port ah b k =
     (if ntohs (dl_type (key_flow k)) = ETH_TYPE_IP then do {
        new \<leftarrow> ah16 ah 4;
        type \<leftarrow> ah16 ah 0;
        let field = (if type = OFPAT_SET_TP_SRC then 0 else 2);
        if nw_proto (key_flow k) = IP_TYPE_TCP then do {
          th \<leftarrow> l4 b;
          b \<leftarrow> set_tp_field th 16 field new b;
          Some (b, k)
        } else if nw_proto (key_flow k) = IP_TYPE_UDP then do {
          th \<leftarrow> l4 b;
          b \<leftarrow> set_tp_field th 6 field new b;
          Some (b, k)
        } else Some (b, k)
      } else Some (b, k))"


section \<open>MPLS push and pop\<close>

definition update_checksums :: "sw_flow_key \<Rightarrow> u32 \<Rightarrow> u32 \<Rightarrow> ofpbuf \<Rightarrow> ofpbuf option" where
  "update_checksums k old_word new_word b = do {
     b \<leftarrow> update_tp_csum (nw_proto (key_flow k)) old_word new_word b;
     nh \<leftarrow> l3 b;
     c \<leftarrow> ld16 b (nh + 10);
     st16 (nh + 10) (recalc_csum32 c old_word new_word) b
   }"

record action_pop_mpls =
  pop_eth_type :: u16
  pop_flags :: u8

record action_push_mpls =
  push_label_out :: u32
  push_exp :: u8
  push_ttl :: u8
  push_flags :: u8

text \<open>Bit 0 of the pop flags is \<open>DONT_POP\<close>, 1 \<open>DECREMENT_TTL\<close>, 2 \<open>COPY_TTL\<close>, 3 \<open>COPY_EXP\<close>.\<close>

definition pop_last_label :: "action_pop_mpls \<Rightarrow> sw_flow_key \<Rightarrow> u32 \<Rightarrow> ofpbuf \<Rightarrow> ofpbuf option" where
  "pop_last_label apm k mpls_h b = do {
     eth_h \<leftarrow> l2 b;
     b \<leftarrow> st16 (eth_h + 12) (pop_eth_type apm) b;
     b \<leftarrow> (if bit (pop_flags apm) 2 then do {
            ip_h \<leftarrow> l3 b;
            old_word \<leftarrow> ld32 b (ip_h + 6);
            b \<leftarrow> st8 (ip_h + 8) (mpls_ttl mpls_h) b;
            new_word \<leftarrow> ld32 b (ip_h + 6);
            update_checksums k old_word new_word b
          } else Some b);
     if bit (pop_flags apm) 3 then do {
       ip_h \<leftarrow> l3 b;
       old_word \<leftarrow> ld32 b ip_h;
       b \<leftarrow> st8 (ip_h + 1) (mpls_exp mpls_h) b;
       new_word \<leftarrow> ld32 b ip_h;
       update_checksums k old_word new_word b
     } else Some b
   }"

definition pop_inner_label :: "action_pop_mpls \<Rightarrow> u32 \<Rightarrow> ofpbuf \<Rightarrow> ofpbuf option" where
  "pop_inner_label apm mpls_h b = do {
     p \<leftarrow> l2_5 b;
     v \<leftarrow> ld32 b p;
     let mpls_h2 = htonl v;
     let mpls_h2 = (if bit (pop_flags apm) 2 then mpls_set_ttl (mpls_ttl mpls_h) mpls_h2 else mpls_h2);
     let mpls_h2 = (if bit (pop_flags apm) 3 then mpls_set_exp (mpls_exp mpls_h) mpls_h2 else mpls_h2);
     st32 p (htonl mpls_h2) b
   }"

definition pop_mpls_act :: "action_pop_mpls \<Rightarrow> sw_flow_key \<Rightarrow> ofpbuf \<Rightarrow> ofpbuf option" where
  "pop_mpls_act apm k b =
     (if ntohs (dl_type (key_flow k)) = ETH_TYPE_MPLS_UNICAST then do {
        p \<leftarrow> l2_5 b;
        v \<leftarrow> ld32 b p;
        let mpls_h = htonl v;
        let mpls_h = (if bit (pop_flags apm) 1 then mpls_set_ttl (mpls_ttl mpls_h - 1) mpls_h else mpls_h);
        b \<leftarrow> (if bit (pop_flags apm) 1 then st32 p (htonl mpls_h) b else Some b);
        lst \<leftarrow> ld32 b p;
        let b = b\<lparr>last_mpls_h := lst\<rparr>;
        if bit (pop_flags apm) 0 then Some b
        else do {
          eth_h \<leftarrow> l2 b;
          b \<leftarrow> (if p < eth_h then None else ofpbuf_pop (p - eth_h) 4 b);
          if mpls_s mpls_h then pop_last_label apm k mpls_h b else pop_inner_label apm mpls_h b
        }
      } else Some b)"

text \<open>
  Bit 0 of the push flags is \<open>DECREMENT_TTL\<close>, 1 \<open>TTL_NEXT\<close>, 2 \<open>EXP_NEXT\<close>, 3 \<open>TTL_PREV\<close>, 4 \<open>EXP_PREV\<close>.
  The local \<open>mpls_h\<close> starts out uninitialised (\<open>h0\<close>), and keeps its bottom-of-stack bit when the frame
  is neither MPLS nor IP.  The result of \<open>ofpbuf_push_at\<close> is not looked at.
\<close>

definition push_mpls_act :: "u32 \<Rightarrow> action_push_mpls \<Rightarrow> ofpbuf \<Rightarrow> ofpbuf option" where
  "push_mpls_act h0 apm b = do {
     layer \<leftarrow> (case l2_5 b of Some p \<Rightarrow> Some p | None \<Rightarrow> l3 b);
     eth_h \<leftarrow> l2 b;
     eth_type \<leftarrow> ld16 b (eth_h + 12);
     let mpls_h = mpls_set_label (ntohl (push_label_out apm)) h0;
     let lst = ntohl (last_mpls_h b);
     (mpls_h, b) \<leftarrow>
       (if ntohs eth_type = ETH_TYPE_MPLS_UNICAST then Some (mpls_set_s False mpls_h, b)
        else if ntohs eth_type = ETH_TYPE_IP then do {
          b \<leftarrow> st16 (eth_h + 12) (htons ETH_TYPE_MPLS_UNICAST) b;
          Some (mpls_set_s True mpls_h, b)
        } else Some (mpls_h, b));
     ttl \<leftarrow>
       (if bit (push_flags apm) 3 then Some (mpls_ttl lst - (push_flags apm AND 1))
        else if bit (push_flags apm) 1 then do {
          ip_h \<leftarrow> l3 b;
          ip_ttl \<leftarrow> ld8 b (ip_h + 8);
          Some (ip_ttl - (push_flags apm AND 1))
        } else Some (push_ttl apm));
     e \<leftarrow>
       (if bit (push_flags apm) 4 then Some (mpls_exp lst)
        else if bit (push_flags apm) 2 then do { ip_h \<leftarrow> l3 b; ld8 b (ip_h + 1) }
        else Some (push_exp apm));
     let mpls_h = mpls_set_exp e (mpls_set_ttl ttl mpls_h);
     (failed, b) \<leftarrow> (if layer < eth_h then None else ofpbuf_push_at (layer - eth_h) (bytes32 (htonl mpls_h)) b);
     Some b
   }"

definition pop_at :: "u8 list \<Rightarrow> nat \<Rightarrow> action_pop_mpls option" where
  "pop_at ah i = do {
     eth_type \<leftarrow> ah16 ah i; flags \<leftarrow> ah8 ah (i + 2);
     Some \<lparr>pop_eth_type = eth_type, pop_flags = flags\<rparr>
   }"

definition push_at :: "u8 list \<Rightarrow> nat \<Rightarrow> action_push_mpls option" where
  "push_at ah i = do {
     label_out \<leftarrow> ah32 ah i; e \<leftarrow> ah8 ah (i + 4); ttl \<leftarrow> ah8 ah (i + 5); flags \<leftarrow> ah8 ah (i + 6);
     Some \<lparr>push_label_out = label_out, push_exp = e, push_ttl = ttl, push_flags = flags\<rparr>
   }"

definition er_pop_mpls_act :: "u8 list \<Rightarrow> ofpbuf \<Rightarrow> sw_flow_key \<Rightarrow> ofpbuf option" where
  "er_pop_mpls_act ah b k = do { apm \<leftarrow> pop_at ah 16; pop_mpls_act apm k b }"

definition er_push_mpls_act :: "u32 \<Rightarrow> u8 list \<Rightarrow> ofpbuf \<Rightarrow> sw_flow_key \<Rightarrow> ofpbuf option" where
  "er_push_mpls_act h0 ah b k = do { apm \<leftarrow> push_at ah 16; push_mpls_act h0 apm b }"

definition pt_pop_mpls_act :: "u8 list \<Rightarrow> ofpbuf \<Rightarrow> sw_flow_key \<Rightarrow> ofpbuf option" where
  "pt_pop_mpls_act ah b k = do { apm \<leftarrow> pop_at ah 4; pop_mpls_act apm k b }"

definition pt_push_mpls_act :: "u32 \<Rightarrow> u8 list \<Rightarrow> ofpbuf \<Rightarrow> sw_flow_key \<Rightarrow> ofpbuf option" where
  "pt_push_mpls_act h0 ah b k = do { apm \<leftarrow> push_at ah 4; push_mpls_act h0 apm b }"

definition pt_set_mpls_label_act :: "u8 list \<Rightarrow> ofpbuf \<Rightarrow> sw_flow_key \<Rightarrow> ofpbuf option" where
  "pt_set_mpls_label_act ah b k = do { label_out \<leftarrow> ah32 ah 4; set_mpls_label_act label_out k b }"

definition pt_set_mpls_exp_act :: "u8 list \<Rightarrow> ofpbuf \<Rightarrow> sw_flow_key \<Rightarrow> ofpbuf option" where
  "pt_set_mpls_exp_act ah b k = do { e \<leftarrow> ah8 ah 4; set_mpls_exp_act e k b }"


section \<open>Dispatch\<close>

definition of_actions :: "(nat \<times> nat) list" where
  "of_actions = [(16, 16), (8, 8), (8, 8), (8, 8), (16, 16), (16, 16), (8, 8), (8, 8), (8, 8), (8, 8), (8, 8), (8, 8)]"

text \<open>The built-in actions; \<open>OFPAT_OUTPUT\<close> has no execute function.\<close>

definition execute_ofpat :: "u16 \<Rightarrow> u8 list \<Rightarrow> ofpbuf \<Rightarrow> sw_flow_key \<Rightarrow> (ofpbuf \<times> sw_flow_key) option" where
  "execute_ofpat type ah b k =
     (if type = 1 then set_vlan_vid ah b k
      else if type = 2 then set_vlan_pcp ah b k
      else if type = 3 then strip_vlan ah b k
      else if type = 4 \<or> type = 5 then set_dl_addr ah b k
      else if type = 6 \<or> type = 7 then set_nw_addr ah b k
      else if type = 8 \<or> type = 9 then set_tp_port ah b k
      else if type = 10 then set_mpls_label ah b k
      else if type = 11 then set_mpls_exp ah b k
      else Some (b, k))"

definition nx_execute_act :: "u8 list \<Rightarrow> ofpbuf \<Rightarrow> sw_flow_key \<Rightarrow> ofpbuf option" where
  "nx_execute_act avh b k = Some b"

text \<open>The vendor table has two entries; the subtype indexes it unchecked.\<close>

definition er_execute_act :: "u32 \<Rightarrow> u8 list \<Rightarrow> ofpbuf \<Rightarrow> sw_flow_key \<Rightarrow> ofpbuf option" where
  "er_execute_act h0 avh b k = do {
     subtype \<leftarrow> ah16 avh 8;
     if ntohs subtype = 0 then er_pop_mpls_act avh b k
     else if ntohs subtype = 1 then er_push_mpls_act h0 avh b k
     else None
   }"

definition execute_vendor :: "u32 \<Rightarrow> u8 list \<Rightarrow> ofpbuf \<Rightarrow> sw_flow_key \<Rightarrow> ofpbuf option" where
  "execute_vendor h0 ah b k = do {
     vendor \<leftarrow> ah32 ah 4;
     if ntohl vendor = NX_VENDOR_ID then nx_execute_act ah b k
     else if ntohl vendor = ER_VENDOR_ID then er_execute_act h0 ah b k
     else Some b
   }"

text \<open>One action that is not an output, as the body of the loop of \<open>execute_actions\<close> runs it.\<close>

definition execute_one :: "u32 \<Rightarrow> u8 list \<Rightarrow> ofpbuf \<Rightarrow> sw_flow_key \<Rightarrow> (ofpbuf \<times> sw_flow_key) option" where
  "execute_one h0 ah b k =
     (let type = ntohs (act_type ah) in
      if unat type < length of_actions then execute_ofpat type ah b k
      else if type = OFPAT_VENDOR then do { b \<leftarrow> execute_vendor h0 ah b k; Some (b, k) }
      else Some (b, k))"

text \<open>
  The loops over an action list.  The output function \<open>out\<close> is that of the datapath; \<open>prev_port\<close> is the
  pending output, \<open>-1\<close> for none.  A length of 0 repeats the same action for ever and a length beyond the
  remaining bytes runs through foreign memory: both are \<open>None\<close>.
\<close>

type_synonym 's output_fun = "ofpbuf \<Rightarrow> u16 \<Rightarrow> nat \<Rightarrow> u32 \<Rightarrow> bool \<Rightarrow> 's \<Rightarrow> 's option"

function execute_actions_loop :: "'s output_fun \<Rightarrow> (nat \<Rightarrow> u8) \<Rightarrow> u32 \<Rightarrow> u16 \<Rightarrow> bool \<Rightarrow> u8 list
    \<Rightarrow> u32 \<Rightarrow> nat \<Rightarrow> ofpbuf \<Rightarrow> sw_flow_key \<Rightarrow> 's \<Rightarrow> 's option" where
  "execute_actions_loop out junk h0 port ignore_no_fwd p prev_port max_len b k s =
     (if p = [] then
        (if prev_port \<noteq> - 1 then out b port max_len prev_port ignore_no_fwd s else Some s)
      else if length p < 4 then None
      else do {
        let len = act_len p;
        s \<leftarrow> (if prev_port \<noteq> - 1 then out (ofpbuf_clone junk b) port max_len prev_port ignore_no_fwd s else Some s);
        (prev_port, max_len, b, k) \<leftarrow>
          (if act_type p = htons OFPAT_OUTPUT then do {
             oport \<leftarrow> ah32 p 4;
             mlen \<leftarrow> ah16 p 8;
             Some (ntohl oport, unat (ntohs mlen), b, k)
           } else do {
             (b, k) \<leftarrow> execute_one h0 p b k;
             Some (- 1, max_len, b, k)
           });
        if len = 0 \<or> length p < len then None
        else execute_actions_loop out junk h0 port ignore_no_fwd (drop len p) prev_port max_len b k s
      })"
  by pat_completeness auto

termination
  by (relation "measure (\<lambda>(_, _, _, _, _, p, _). length p)") auto

declare execute_actions_loop.simps [simp del]

definition execute_actions :: "'s output_fun \<Rightarrow> (nat \<Rightarrow> u8) \<Rightarrow> u32 \<Rightarrow> ofpbuf \<Rightarrow> sw_flow_key \<Rightarrow> u8 list
    \<Rightarrow> bool \<Rightarrow> 's \<Rightarrow> 's option" where
  "execute_actions out junk h0 b k actions ignore_no_fwd s =
     execute_actions_loop out junk h0 (ntohs (in_port (key_flow k))) ignore_no_fwd actions (- 1) 0 b k s"


section \<open>Outputs\<close>

text \<open>
  The reference for \<open>execute_actions\<close>: an output action hands over the packet at once.  The code instead
  keeps the last output pending, so that the final one can pass on the buffer itself instead of a clone.
\<close>

type_synonym output_log = "(u8 list \<times> u32 \<times> nat) list"

definition log_output :: "output_log output_fun" where
  "log_output b port max_len out_port ignore_no_fwd s = Some (s @ [(contents b, out_port, max_len)])"

function run_actions :: "u32 \<Rightarrow> u8 list \<Rightarrow> ofpbuf \<Rightarrow> sw_flow_key \<Rightarrow> output_log \<Rightarrow> output_log option" where
  "run_actions h0 p b k s =
     (if p = [] then Some s
      else if length p < 4 \<or> act_len p = 0 \<or> length p < act_len p then None
      else if act_type p = htons OFPAT_OUTPUT then do {
        oport \<leftarrow> ah32 p 4;
        mlen \<leftarrow> ah16 p 8;
        run_actions h0 (drop (act_len p) p) b k
          (if ntohl oport = - 1 then s else s @ [(contents b, ntohl oport, unat (ntohs mlen))])
      } else do {
        (b, k) \<leftarrow> execute_one h0 p b k;
        run_actions h0 (drop (act_len p) p) b k s
      })"
  by pat_completeness auto

termination
  by (relation "measure (\<lambda>(_, p, _). length p)") auto

declare run_actions.simps [simp del]

lemma execute_actions_loop_run:
  assumes "acts_ok p"
  shows "execute_actions_loop log_output junk h0 port ign p prev max_len b k s =
    run_actions h0 p b k (if prev = - 1 then s else s @ [(contents b, prev, max_len)])"
  using assms
proof (induction p arbitrary: prev max_len b k s rule: acts_ok.induct)
  case (1 p)
  show ?case
  proof (cases "p = []")
    case True
    then show ?thesis
      by (simp add: execute_actions_loop.simps [of _ _ _ _ _ "[]"] run_actions.simps [of _ "[]"] log_output_def)
  next
    case False
    with "1.prems" have ok: "8 \<le> act_len p" "act_len p \<le> length p" "acts_ok (drop (act_len p) p)"
      by (auto simp: acts_ok.simps [of p] split: if_splits)
    note ih = "1.IH" [OF False conjI [OF ok(1,2)] ok(3)]
    define s' where "s' = (if prev = - 1 then s else s @ [(contents b, prev, max_len)])"
    have out: "(if prev \<noteq> - 1 then log_output (ofpbuf_clone junk b) port max_len prev ign s else Some s) = Some s'"
      by (simp add: s'_def log_output_def)
    have guards: "\<not> length p < 4" "\<not> (act_len p = 0 \<or> length p < act_len p)"
      "\<not> (length p < 4 \<or> act_len p = 0 \<or> length p < act_len p)" using ok by auto
    show ?thesis
      unfolding execute_actions_loop.simps [of _ _ _ _ _ p] run_actions.simps [of _ p] s'_def [symmetric] out Let_def
      using False guards
      by (simp add: ih Option.bind_assoc case_prod_beta' cong: if_cong)
  qed
qed

text \<open>
  C36. Executing a well-formed action list sends exactly the packets a straightforward execution sends:
  for each output action, in order, the packet as the actions before it left it, to the port it names
  (the port \<open>0xffffffff\<close> apart, which the code takes for \<open>no pending output\<close>).
\<close>

theorem execute_actions_outputs:
  assumes "acts_ok actions"
  shows "execute_actions log_output junk h0 b k actions ignore_no_fwd s = run_actions h0 actions b k s"
  using execute_actions_loop_run [OF assms, of junk h0 _ ignore_no_fwd "- 1"] by (simp add: execute_actions_def)


definition sample_outputs :: "u8 list" where
  "sample_outputs = bytes16 (htons 0) @ bytes16 (htons 16) @ bytes32 (htonl 3) @ bytes16 (htons 64) @ replicate 6 0 @
     bytes16 (htons 0) @ bytes16 (htons 16) @ bytes32 (htonl 4) @ bytes16 (htons 0) @ replicate 6 0"

lemma sample_outputs_ok: "acts_ok sample_outputs"
  unfolding sample_outputs_def by code_simp

theorem execute_actions_outputs_witness:
  "acts_ok sample_outputs \<and>
   execute_actions log_output (\<lambda>_. 0) 0 (packet_of sample_frame) (sample_packet 1) sample_outputs False [] =
     run_actions 0 sample_outputs (packet_of sample_frame) (sample_packet 1) []"
  using execute_actions_outputs [OF sample_outputs_ok] sample_outputs_ok by simp


section \<open>Stores in the packet\<close>

lemma stn_contents:
  assumes "ofpbuf_ok b" and "bdata b \<le> i" and "i + length xs \<le> ofpbuf_tail b"
  shows "stn i xs b = Some (b\<lparr>area := write_at i xs (area b)\<rparr>)"
    and "contents (b\<lparr>area := write_at i xs (area b)\<rparr>) = write_at (i - bdata b) xs (contents b)"
    and "ofpbuf_ok (b\<lparr>area := write_at i xs (area b)\<rparr>)"
proof -
  obtain x y where xy: "area b = x @ contents b @ y" "length x = bdata b" "length (contents b) = bsize b"
    "length (area b) = bdata b + bsize b + length y" using area_split [OF assms(1)] .
  have fit: "i - bdata b + length xs \<le> bsize b" "i + length xs \<le> length (area b)"
    using assms(2,3) xy(4) by (auto simp: ofpbuf_tail_def)
  then show "stn i xs b = Some (b\<lparr>area := write_at i xs (area b)\<rparr>)" by (simp add: stn_def)
  have "write_at i xs (area b) = x @ write_at (i - bdata b) xs (contents b) @ y"
    using fit assms(2) xy(2,3) unfolding write_at_def xy(1) by (simp add: drop_append take_append)
  moreover have "length (write_at (i - bdata b) xs (contents b)) = bsize b" using fit xy(3) by simp
  ultimately show "contents (b\<lparr>area := write_at i xs (area b)\<rparr>) = write_at (i - bdata b) xs (contents b)"
    "ofpbuf_ok (b\<lparr>area := write_at i xs (area b)\<rparr>)"
    using contentsI [of "b\<lparr>area := write_at i xs (area b)\<rparr>" x _ y] xy(2) by simp_all
qed

text \<open>The tagged frame: four bytes behind the addresses.\<close>

definition tagged :: "u16 \<Rightarrow> u8 list \<Rightarrow> u8 list" where
  "tagged tci c = take 12 c @ bytes16 (htons ETH_TYPE_VLAN) @ bytes16 (htons tci) @ drop 12 c"

lemma ldn_ld16_prefix:
  assumes "ofpbuf_ok b" and "14 \<le> bsize b"
  shows "ldn b (bdata b) 12 = Some (take 12 (contents b))"
    "ld16 b (bdata b + 12) = Some (get_u16 (contents b) 12)"
    "bytes16 (get_u16 (contents b) 12) = take 2 (drop 12 (contents b))"
proof -
  have len: "length (contents b) = bsize b" using assms(1) by simp
  show "ldn b (bdata b) 12 = Some (take 12 (contents b))" "ld16 b (bdata b + 12) = Some (get_u16 (contents b) 12)"
    using assms ld_contents_0(4) [OF assms(1)] ld_contents(2) [OF assms(1), of 12] by simp_all
  have high: "\<not> bit x (8 + n)" for x :: u8 and n using bit_imp_le_length [of x "8 + n"] by auto
  have "bytes16 (le16 x y) = [x, y]" for x y
    by (simp add: bytes16_def le16_def) (auto intro!: bit_word_eqI simp: bit_simps high)
  then have "bytes16 (get_u16 (contents b) 12) = [contents b ! 12, contents b ! 13]" by (simp add: get_u16_def)
  also have "\<dots> = take 2 (drop 12 (contents b))"
    using assms(2) len by (simp add: list_eq_iff_nth_eq nth_Cons' less_Suc_eq)
  finally show "bytes16 (get_u16 (contents b) 12) = take 2 (drop 12 (contents b))" .
qed

lemma set_vlan_inserts:
  assumes "ofpbuf_ok b" and "14 \<le> bsize b" and "4 \<le> bdata b" and "l2 b = Some (bdata b)"
    and "dl_vlan (key_flow k) = htons OFP_VLAN_NONE"
  obtains c where "modify_vlan_tci tci msk b k = Some (c, set_key_vlan (htons tci AND htons VLAN_VID_MASK) k)"
    "contents c = tagged tci (contents b)" "ofpbuf_ok c" "l2 c = Some (bdata c)" "bdata c = bdata b - 4"
    "l3 c = l3 b" "l4 c = l4 b"
proof -
  have len: "length (contents b) = bsize b" using assms(1) by simp
  define t where "t = get_u16 (contents b) 12"
  define tmp where "tmp = take 12 (contents b) @ bytes16 (htons ETH_TYPE_VLAN) @ bytes16 (htons tci) @ bytes16 t"
  have l: "length tmp = 18" using assms(2) len by (simp add: tmp_def)
  define d where "d = b\<lparr>bdata := bdata b - 4, bsize := bsize b + 4\<rparr>"
  have push: "ofpbuf_push_uninit 4 b = Some d"
    using assms(3) by (simp add: ofpbuf_push_uninit_def ofpbuf_prealloc_headroom_def ofpbuf_headroom_def d_def)
  have okd: "ofpbuf_ok d" using assms(1,3) by (simp add: d_def ofpbuf_ok_def)
  have cd: "drop 4 (contents d) = contents b" "length (contents d) = bsize b + 4"
    using assms(1,3) okd by (simp_all add: d_def contents_def drop_take ofpbuf_ok_def)
  have d18: "drop 18 (contents d) = drop 14 (contents b)" by (simp flip: cd(1))
  have fit: "bdata d + length tmp \<le> ofpbuf_tail d" using assms(2,3) l by (simp add: d_def ofpbuf_tail_def)
  note st = stn_contents [OF okd order_refl fit]
  define c where "c = d\<lparr>area := write_at (bdata d) tmp (area d), l2 := Some (bdata b - 4)\<rparr>"
  have "contents c = contents (d\<lparr>area := write_at (bdata d) tmp (area d)\<rparr>)" by (simp add: c_def contents_def)
  also have "\<dots> = tmp @ drop 14 (contents b)"
    using st(2) d18 l by (simp add: write_at_def)
  finally have cc: "contents c = tmp @ drop 14 (contents b)" .
  have "bytes16 t @ drop 14 (contents b) = drop 12 (contents b)"
    using ldn_ld16_prefix(3) [OF assms(1,2)] append_take_drop_id [of 2 "drop 12 (contents b)"] by (simp add: t_def)
  then have ct: "contents c = tagged tci (contents b)" by (simp add: cc tmp_def tagged_def)
  have okc: "ofpbuf_ok c" using st(3) by (simp add: c_def ofpbuf_ok_def)
  have "ld16 c (bdata c + 14) = Some (get_u16 (contents c) 14)"
    using ld_contents(2) [OF okc, of 14] assms(2) by (simp add: c_def d_def)
  moreover have "get_u16 (contents c) 14 = htons tci"
    using assms(2) len by (simp add: ct tagged_def get_u16_append get_bytes)
  moreover have "bdata c = bdata d" "l2 d = Some (bdata b)" by (simp_all add: c_def d_def assms(4))
  ultimately have "modify_vlan_tci tci msk b k = Some (c, set_key_vlan (htons tci AND htons VLAN_VID_MASK) k)"
    using assms(4,5) ldn_ld16_prefix(1,2) [OF assms(1,2)] push st(1)
    by (simp add: modify_vlan_tci_def tmp_def t_def c_def Let_def)
  then show ?thesis using that ct okc by (simp add: c_def d_def)
qed


lemma strip_vlan_removes:
  assumes "ofpbuf_ok b" and "18 \<le> bsize b" and "l2 b = Some (bdata b)"
    and "get_u16 (contents b) 12 = htons ETH_TYPE_VLAN"
  obtains c where "strip_vlan ah b k = Some (c, set_key_vlan (htons OFP_VLAN_NONE) k)"
    "contents c = take 12 (contents b) @ drop 16 (contents b)" "ofpbuf_ok c" "l2 c = Some (bdata c)"
proof -
  have len: "length (contents b) = bsize b" using assms(1) by simp
  define tmp where "tmp = take 12 (contents b) @ bytes16 (get_u16 (contents b) 16)"
  have l: "length tmp = 14" using assms(2) len by (simp add: tmp_def)
  define d where "d = b\<lparr>bsize := bsize b - 4, bdata := bdata b + 4, l2 := Some (bdata b + 4)\<rparr>"
  have okd: "ofpbuf_ok d" "contents d = drop 4 (contents b)"
    using assms(1,2) by (simp_all add: d_def contents_def ofpbuf_ok_def drop_take add.commute)
  have fit: "bdata d + length tmp \<le> ofpbuf_tail d" using assms(2) l by (simp add: d_def ofpbuf_tail_def)
  note st = stn_contents [OF okd(1) order_refl fit]
  define c where "c = d\<lparr>area := write_at (bdata d) tmp (area d)\<rparr>"
  have reads: "ld16 b (bdata b + 12) = Some (htons ETH_TYPE_VLAN)" "ldn b (bdata b) 12 = Some (take 12 (contents b))"
    "ld16 b (bdata b + 16) = Some (get_u16 (contents b) 16)"
    using ld_contents(2) [OF assms(1)] ld_contents_0(4) [OF assms(1)] assms(2,4) by simp_all
  have "vlan_pull_tag b = stn (bdata d) tmp d"
    using assms(2,3) reads by (simp add: vlan_pull_tag_def d_def tmp_def Let_def)
  then have s: "strip_vlan ah b k = Some (c, set_key_vlan (htons OFP_VLAN_NONE) k)"
    using st(1) by (simp add: strip_vlan_def c_def)
  have b16: "bytes16 (get_u16 (contents b) 16) = take 2 (drop 16 (contents b))"
    using ldn_ld16_prefix(3) [of "skip 4 b"] assms(1,2) len by (simp add: get_drop)
  have "contents c = tmp @ drop 18 (contents b)"
    using st(2) okd(2) l by (simp add: c_def write_at_def)
  also have "\<dots> = take 12 (contents b) @ drop 16 (contents b)"
    using append_take_drop_id [of 2 "drop 16 (contents b)"] by (simp add: tmp_def b16)
  finally have "contents c = take 12 (contents b) @ drop 16 (contents b)" .
  then show ?thesis using that s st(3) by (simp add: c_def d_def)
qed

text \<open>
  On an untagged frame with headroom, setting the VLAN inserts a tag behind the addresses that the
  parser reads back as the new VLAN of the key, and stripping it restores the frame byte for byte.
\<close>

theorem set_vlan_strip_roundtrip:
  assumes "ofpbuf_ok b" and "14 \<le> bsize b" and "4 \<le> ofpbuf_headroom b" and "l2 b = Some (bdata b)"
    and "dl_vlan (key_flow k) = htons OFP_VLAN_NONE" and "ah16 ah 4 = Some vid"
  shows "\<exists>c k' d k''. set_vlan_vid ah b k = Some (c, k') \<and> contents c = tagged (ntohs vid) (contents b)
    \<and> dl_vlan (key_flow k') = vid AND htons VLAN_VID_MASK
    \<and> strip_tag (htons ETH_TYPE_VLAN, drop 14 (contents c)) (htons OFP_VLAN_NONE) =
        (get_u16 (contents b) 12, dl_vlan (key_flow k'), drop 14 (contents b))
    \<and> strip_vlan ah' c k' = Some (d, k'') \<and> contents d = contents b \<and> key_flow k'' = key_flow k"
proof -
  have len: "length (contents b) = bsize b" using assms(1) by simp
  have room: "4 \<le> bdata b" using assms(3) by (simp add: ofpbuf_headroom_def)
  obtain c where c: "modify_vlan_tci (ntohs vid) VLAN_VID_MASK b k = Some (c, set_key_vlan (vid AND htons VLAN_VID_MASK) k)"
    "contents c = tagged (ntohs vid) (contents b)" "ofpbuf_ok c" "l2 c = Some (bdata c)"
    by (rule set_vlan_inserts [OF assms(1,2) room assms(4,5), of "ntohs vid" VLAN_VID_MASK]) simp
  let ?k = "set_key_vlan (vid AND htons VLAN_VID_MASK) k"
  have sz: "bsize c = bsize b + 4" using c(2,3) length_contents [OF c(3)] len assms(2) by (simp add: tagged_def)
  then have big: "18 \<le> bsize c" using assms(2) by simp
  have at: "get_u16 (contents c) 12 = htons ETH_TYPE_VLAN"
    using len assms(2) by (simp add: c(2) tagged_def get_u16_append get_bytes)
  obtain d where d: "strip_vlan ah' c ?k = Some (d, set_key_vlan (htons OFP_VLAN_NONE) ?k)"
    "contents d = take 12 (contents c) @ drop 16 (contents c)"
    by (rule strip_vlan_removes [OF c(3) big c(4) at])
  have "contents d = contents b" using len assms(2) by (simp add: d(2) c(2) tagged_def)
  moreover have "drop 14 (contents c) = vlan_tag vid (get_u16 (contents b) 12) (drop 14 (contents b))"
    using ldn_ld16_prefix(3) [OF assms(1,2)] append_take_drop_id [of 2 "drop 12 (contents b)"] len assms(2)
    by (simp add: c(2) tagged_def vlan_tag_def)
  then have "strip_tag (htons ETH_TYPE_VLAN, drop 14 (contents c)) (htons OFP_VLAN_NONE) =
      (get_u16 (contents b) 12, vid AND htons VLAN_VID_MASK, drop 14 (contents b))"
    by (simp add: strip_tag_def vlan_tag_def get_u16_append get_bytes)
  ultimately show ?thesis
    using c(1,2) d(1) assms(5,6) by (auto simp: set_vlan_vid_def set_key_vlan_def)
qed

definition sample_room :: ofpbuf where
  "sample_room = \<lparr>area = replicate 4 0 @ eth_frame (Eth 1 2 3 4 5 6) (Eth 7 8 9 10 11 12) (htons ETH_TYPE_IP) [9, 9],
     bdata = 4, bsize = 16, l2 = Some 4, l2_5 = None, l3 = None, l4 = None, l7 = None, last_mpls_h = 0\<rparr>"

theorem set_vlan_strip_roundtrip_witness:
  "\<exists>c k' d k''. set_vlan_vid [0, 1, 0, 8, 0, 5, 0, 0] sample_room (sample_packet 1\<lparr>key_flow :=
       (key_flow (sample_packet 1))\<lparr>dl_vlan := htons OFP_VLAN_NONE\<rparr>\<rparr>) = Some (c, k')
     \<and> strip_vlan [] c k' = Some (d, k'') \<and> contents d = contents sample_room"
proof -
  have "ofpbuf_ok sample_room" "14 \<le> bsize sample_room" "4 \<le> ofpbuf_headroom sample_room"
    "l2 sample_room = Some (bdata sample_room)"
    by (simp_all add: sample_room_def ofpbuf_ok_def ofpbuf_headroom_def eth_frame_def)
  moreover have "ah16 [0, 1, 0, 8, 0, 5, 0, 0] 4 = Some (get_u16 [0, 1, 0, 8, 0, 5, 0, 0] 4)" by (simp add: ah16_def)
  ultimately show ?thesis
    using set_vlan_strip_roundtrip [of sample_room "sample_packet 1\<lparr>key_flow :=
       (key_flow (sample_packet 1))\<lparr>dl_vlan := htons OFP_VLAN_NONE\<rparr>\<rparr>" "[0, 1, 0, 8, 0, 5, 0, 0]" _ "[]"]
    by fastforce
qed



section \<open>Rewriting IP addresses\<close>

lemma nth_write_at:
  assumes "i + length xs \<le> length m" and "j < length m"
  shows "write_at i xs m ! j = (if i \<le> j \<and> j < i + length xs then xs ! (j - i) else m ! j)"
  using assms by (auto simp: write_at_def nth_append min_def)

lemma get_u32_cong: "(\<And>j. i \<le> j \<Longrightarrow> j < i + 4 \<Longrightarrow> m ! j = m' ! j) \<Longrightarrow> get_u32 m i = get_u32 m' i"
  by (simp add: get_u32_def)

lemma get_u32_write_same: "i + 4 \<le> length m \<Longrightarrow> get_u32 (write_at i (bytes32 v) m) i = v"
  by (simp add: get_u32_def nth_write_at) (simp add: bytes32_def le32_bytes)

text \<open>A store that only changes the area, and only from a given offset on.\<close>

definition stores_from :: "nat \<Rightarrow> ofpbuf \<Rightarrow> ofpbuf \<Rightarrow> bool" where
  "stores_from i b c \<longleftrightarrow> (\<exists>a. c = b\<lparr>area := a\<rparr> \<and> length a = length (area b) \<and> (\<forall>j < i. a ! j = area b ! j))"

lemma stores_from_refl [simp]: "stores_from i b b"
  unfolding stores_from_def by (rule exI [of _ "area b"]) simp

lemma stores_from_stn:
  assumes "i + length xs \<le> length (area b)" and "n \<le> i"
  shows "\<exists>c. stn i xs b = Some c \<and> stores_from n b c"
  using assms by (auto simp: stn_def stores_from_def nth_write_at intro!: exI [of _ "write_at i xs (area b)"])

lemma stores_from_fields:
  assumes "stores_from i b c"
  shows "length (area c) = length (area b)" "bdata c = bdata b" "bsize c = bsize b" "l2 c = l2 b" "l3 c = l3 b"
    "l4 c = l4 b" "ofpbuf_ok c = ofpbuf_ok b" "j < i \<Longrightarrow> area c ! j = area b ! j"
  using assms by (auto simp: stores_from_def ofpbuf_ok_def)

lemma update_tp_csum_stores:
  assumes "ofpbuf_ok b" and "transport_ok b f" and "\<And>x. l4 b = Some x \<Longrightarrow> n \<le> x"
  shows "\<exists>c. update_tp_csum (nw_proto f) old new b = Some c \<and> stores_from n b c"
proof -
  consider (tcp) th where "nw_proto f = IP_TYPE_TCP" "l4 b = Some th" "th + 20 \<le> length (area b)" "n \<le> th"
    | (udp) th where "nw_proto f = IP_TYPE_UDP" "l4 b = Some th" "th + 8 \<le> length (area b)" "n \<le> th"
    | (other) "nw_proto f \<noteq> IP_TYPE_TCP" "nw_proto f \<noteq> IP_TYPE_UDP"
    using assms by (fastforce simp: transport_ok_def ofpbuf_tail_def ofpbuf_ok_def)
  then show ?thesis
  proof cases
    case tcp
    then show ?thesis
      using stores_from_stn [of "th + 16" "bytes16 (recalc_csum32 (get_u16 (area b) (th + 16)) old new)" b n]
      by (simp add: update_tp_csum_def ld16_def st16_def)
  next
    case udp
    then show ?thesis
      using stores_from_stn [of "th + 6" "bytes16 v" b n for v]
      by (auto simp: update_tp_csum_def ld16_def st16_def Let_def)
  next
    case other
    then show ?thesis by (simp add: update_tp_csum_def)
  qed
qed

text \<open>
  On a parsed packet with a whole IP header, setting a network address stays inside the packet; and
  whichever address the action names, \<open>OFPAT_SET_NW_SRC\<close> or \<open>OFPAT_SET_NW_DST\<close>, it is the destination
  address that is set and the source address that stays.
\<close>

theorem set_nw_addr_sets_destination:
  assumes "ofpbuf_ok b" and "layers_ok b" and "transport_ok b (key_flow k)"
    and "dl_type (key_flow k) = htons ETH_TYPE_IP" and "l3 b = Some nh" and "l4 b \<noteq> None"
    and "ah32 ah 4 = Some new" and "ah16 ah 0 = Some (htons type)" and "type = 6 \<or> type = 7"
  shows "\<exists>c. set_nw_addr ah b k = Some (c, k) \<and> ofpbuf_ok c \<and> bdata c = bdata b \<and> bsize c = bsize b
    \<and> ld32 c (nh + 16) = Some new \<and> ld32 c (nh + 12) = ld32 b (nh + 12)"
proof -
  obtain th where th: "l4 b = Some th" "nh + 20 \<le> th" "th \<le> length (area b)"
    using assms(1,2,5,6) by (auto simp: layers_ok_def ofpbuf_tail_def ofpbuf_ok_def)
  obtain b1 where b1: "update_tp_csum (nw_proto (key_flow k)) (get_u32 (area b) (nh + 16)) new b = Some b1" "stores_from (nh + 20) b b1"
    using update_tp_csum_stores [OF assms(1,3), of "nh + 20"] th by auto
  note f1 = stores_from_fields [OF b1(2)]
  obtain b2 where b2: "st16 (nh + 10) (recalc_csum32 (get_u16 (area b1) (nh + 10)) (get_u32 (area b1) (nh + 16)) new) b1 = Some b2"
      "b2 = b1\<lparr>area := write_at (nh + 10) (bytes16 (recalc_csum32 (get_u16 (area b1) (nh + 10)) (get_u32 (area b1) (nh + 16)) new)) (area b1)\<rparr>"
    using th f1(1) by (simp add: st16_def stn_def)
  have f2: "length (area b2) = length (area b)" "get_u32 (area b2) (nh + 12) = get_u32 (area b) (nh + 12)"
    using th f1 by (auto simp: b2(2) nth_write_at intro!: get_u32_cong)
  define c where "c = b2\<lparr>area := write_at (nh + 16) (bytes32 new) (area b2)\<rparr>"
  have c: "st32 (nh + 16) new b2 = Some c" using th f2 by (simp add: st32_def stn_def c_def)
  have nt: "htons type \<noteq> OFPAT_SET_NW_SRC"
    using assms(9) by (auto simp: htons_def)
  have reads: "ld32 b (nh + 16) = Some (get_u32 (area b) (nh + 16))" "ld16 b1 (nh + 10) = Some (get_u16 (area b1) (nh + 10))"
    "ld32 b1 (nh + 16) = Some (get_u32 (area b1) (nh + 16))" using th f1(1) by (simp_all add: ld32_def ld16_def)
  have "set_nw_addr ah b k = Some (c, k)"
    using assms(4,5,7,8) nt b1(1) b2(1) c reads by (simp add: set_nw_addr_def Let_def)
  moreover have "ld32 c (nh + 16) = Some new" using th f2 by (simp add: c_def ld32_def get_u32_write_same)
  moreover have "get_u32 (area c) (nh + 12) = get_u32 (area b2) (nh + 12)"
    using th f2(1) by (auto simp: c_def nth_write_at intro!: get_u32_cong)
  then have "ld32 c (nh + 12) = ld32 b (nh + 12)" using th f2 by (simp add: c_def ld32_def)
  ultimately show ?thesis using f1 th f2(1) assms(1) by (auto simp: c_def b2(2) ofpbuf_ok_def)
qed


definition sample_tcp_packet :: ofpbuf where
  "sample_tcp_packet = \<lparr>area = eth_frame (Eth 1 2 3 4 5 6) (Eth 7 8 9 10 11 12) (htons ETH_TYPE_IP) sample_ip,
     bdata = 0, bsize = 54, l2 = Some 0, l2_5 = Some 14, l3 = Some 14, l4 = Some 34, l7 = Some 54, last_mpls_h = 0\<rparr>"

definition sample_tcp_key :: sw_flow_key where
  "sample_tcp_key = (sample_packet 1)\<lparr>key_flow := (key_flow (sample_packet 1))\<lparr>dl_type := htons ETH_TYPE_IP,
     nw_proto := IP_TYPE_TCP\<rparr>\<rparr>"

lemma sample_tcp_packet_ok:
  "ofpbuf_ok sample_tcp_packet" "layers_ok sample_tcp_packet" "transport_ok sample_tcp_packet (key_flow sample_tcp_key)"
  by (simp_all add: sample_tcp_packet_def ofpbuf_ok_def layers_ok_def transport_ok_def sample_tcp_key_def
      eth_frame_def sample_ip_def ip_packet_def tcp_segment_def ofpbuf_tail_def)

theorem set_nw_addr_sets_destination_witness:
  "\<exists>c. set_nw_addr [0, 6, 0, 8, 10, 0, 0, 1] sample_tcp_packet sample_tcp_key = Some (c, sample_tcp_key)
     \<and> ld32 c 30 = Some (get_u32 [0, 6, 0, 8, 10, 0, 0, 1] 4) \<and> ld32 c 26 = ld32 sample_tcp_packet 26"
proof -
  let ?ah = "[0, 6, 0, 8, 10, 0, 0, 1] :: u8 list"
  have "ah16 ?ah 0 = Some (htons 6)" by code_simp
  moreover have "ah32 ?ah 4 = Some (get_u32 ?ah 4)" by (simp add: ah32_def)
  moreover have "dl_type (key_flow sample_tcp_key) = htons ETH_TYPE_IP" "l3 sample_tcp_packet = Some 14"
    "l4 sample_tcp_packet \<noteq> None" by (simp_all add: sample_tcp_key_def sample_tcp_packet_def)
  ultimately show ?thesis
    using set_nw_addr_sets_destination [OF sample_tcp_packet_ok, of 14 ?ah "get_u32 ?ah 4" 6] by auto
qed


section \<open>MPLS entries\<close>

lemma mpls_fields_set_label:
  "mpls_label (mpls_set_label l v) = take_bit 20 l" "mpls_exp (mpls_set_label l v) = mpls_exp v"
  "mpls_s (mpls_set_label l v) = mpls_s v" "mpls_ttl (mpls_set_label l v) = mpls_ttl v"
proof -
  have seven: "(7 :: u32) = mask 3" by (simp add: mask_eq_exp_minus_1)
  show "mpls_label (mpls_set_label l v) = take_bit 20 l"
    by (rule bit_word_eqI) (auto simp: mpls_label_def mpls_set_label_def bit_simps)
  show "mpls_exp (mpls_set_label l v) = mpls_exp v"
    unfolding mpls_exp_def mpls_set_label_def seven by (rule bit_word_eqI) (auto simp: bit_simps)
  show "mpls_s (mpls_set_label l v) = mpls_s v"
    by (auto simp: mpls_s_def mpls_set_label_def bit_simps)
  show "mpls_ttl (mpls_set_label l v) = mpls_ttl v"
    by (rule bit_word_eqI) (auto simp: mpls_ttl_def mpls_set_label_def bit_simps)
qed

text \<open>
  Setting the MPLS label rewrites the label of the top entry, truncated to its 20 bits, and nothing
  else: EXP, bottom-of-stack bit and TTL of the entry and all other bytes stay.
\<close>

theorem set_mpls_label_top:
  assumes "ofpbuf_ok b" and "dl_type (key_flow k) = htons ETH_TYPE_MPLS_UNICAST"
    and "l2_5 b = Some p" and "p + 4 \<le> length (area b)" and "ah32 ah 4 = Some label_out"
  shows "\<exists>c v v'. set_mpls_label ah b k = Some (c, k) \<and> ld32 b p = Some (htonl v) \<and> ld32 c p = Some (htonl v')
    \<and> mpls_label v' = take_bit 20 (ntohl label_out) \<and> mpls_exp v' = mpls_exp v \<and> mpls_s v' = mpls_s v
    \<and> mpls_ttl v' = mpls_ttl v \<and> (\<forall>j < length (area b). j < p \<or> p + 4 \<le> j \<longrightarrow> area c ! j = area b ! j)"
proof -
  define v where "v = htonl (get_u32 (area b) p)"
  define v' where "v' = mpls_set_label (ntohl label_out) v"
  define c where "c = b\<lparr>area := write_at p (bytes32 (htonl v')) (area b)\<rparr>"
  have "set_mpls_label ah b k = Some (c, k)"
    using assms by (simp add: set_mpls_label_def set_mpls_label_act_def ld32_def st32_def stn_def c_def v'_def v_def)
  moreover have "ld32 b p = Some (htonl v)" "ld32 c p = Some (htonl v')"
    using assms(4) by (simp_all add: ld32_def v_def c_def get_u32_write_same)
  moreover have "\<forall>j < length (area b). j < p \<or> p + 4 \<le> j \<longrightarrow> area c ! j = area b ! j"
    using assms(4) by (auto simp: c_def nth_write_at)
  ultimately show ?thesis using mpls_fields_set_label [of "ntohl label_out" v] by (auto simp: v'_def)
qed

theorem set_mpls_label_top_witness:
  "\<exists>c. set_mpls_label [0, 10, 0, 8, 0, 0, 0, 99] ((packet_of sample_mpls)\<lparr>l2_5 := Some 14\<rparr>)
     ((sample_packet 1)\<lparr>key_flow := (key_flow (sample_packet 1))\<lparr>dl_type := htons ETH_TYPE_MPLS_UNICAST\<rparr>\<rparr>)
     = Some (c, (sample_packet 1)\<lparr>key_flow := (key_flow (sample_packet 1))\<lparr>dl_type := htons ETH_TYPE_MPLS_UNICAST\<rparr>\<rparr>)"
proof -
  let ?b = "(packet_of sample_mpls)\<lparr>l2_5 := Some 14\<rparr>"
  let ?k = "(sample_packet 1)\<lparr>key_flow := (key_flow (sample_packet 1))\<lparr>dl_type := htons ETH_TYPE_MPLS_UNICAST\<rparr>\<rparr>"
  let ?ah = "[0, 10, 0, 8, 0, 0, 0, 99] :: u8 list"
  have "ofpbuf_ok ?b" "14 + 4 \<le> length (area ?b)" "l2_5 ?b = Some 14" "dl_type (key_flow ?k) = htons ETH_TYPE_MPLS_UNICAST"
    "ah32 ?ah 4 = Some (get_u32 ?ah 4)"
    by (simp_all add: packet_of_def sample_mpls_def eth_frame_def ofpbuf_ok_def ah32_def)
  then show ?thesis using set_mpls_label_top [of ?b ?k 14 ?ah "get_u32 ?ah 4"] by blast
qed

end
