(* ===== verification/Action_Lists.thy ===== *)
theory Action_Lists
  imports Packet_Actions
begin

text \<open>
  Validation of action lists, before a flow entry or a virtual port stores them: \<open>validate_actions\<close> of
  \<open>switch/dp_act.c\<close> with the vendor actions of \<open>switch/nx_act.c\<close> and \<open>switch/er_act.c\<close>, and
  \<open>validate_vport_actions\<close> and \<open>execute_vport_actions\<close> of \<open>switch/pt_act.c\<close>.  The validation of flow
  actions always ends; \<open>None\<close> is a read behind the list or behind the table of vendor actions.  The
  validation of port actions may run for ever, and there \<open>None\<close> is just that.
\<close>

section \<open>Flow actions\<close>

abbreviation (input) OFPBAC_BAD_TYPE :: u16 where "OFPBAC_BAD_TYPE \<equiv> 0"
abbreviation (input) OFPBAC_BAD_LEN :: u16 where "OFPBAC_BAD_LEN \<equiv> 1"
abbreviation (input) OFPBAC_BAD_VENDOR :: u16 where "OFPBAC_BAD_VENDOR \<equiv> 2"
abbreviation (input) OFPBAC_BAD_VENDOR_TYPE :: u16 where "OFPBAC_BAD_VENDOR_TYPE \<equiv> 3"
abbreviation (input) OFPBAC_BAD_OUT_PORT :: u16 where "OFPBAC_BAD_OUT_PORT \<equiv> 4"
abbreviation (input) ACT_VALIDATION_OK :: u16 where "ACT_VALIDATION_OK \<equiv> 0xffff"

definition validate_output :: "sw_flow_key \<Rightarrow> u8 list \<Rightarrow> u16 option" where
  "validate_output k ah = do {
     port \<leftarrow> ah32 ah 4;
     Some (if port = htonl 0xffff \<or> port = ucast (in_port (key_flow k)) then OFPBAC_BAD_OUT_PORT
           else ACT_VALIDATION_OK)
   }"

definition validate_ofpat :: "sw_flow_key \<Rightarrow> u8 list \<Rightarrow> u16 \<Rightarrow> nat \<Rightarrow> u16 option" where
  "validate_ofpat k ah type len =
     (let (min_size, max_size) = of_actions ! unat type in
      if len < min_size \<or> max_size < len then Some OFPBAC_BAD_LEN
      else if type = OFPAT_OUTPUT then validate_output k ah
      else Some ACT_VALIDATION_OK)"

definition nx_validate_act :: "u8 list \<Rightarrow> nat \<Rightarrow> u16" where
  "nx_validate_act avh len = OFPBAC_BAD_VENDOR_TYPE"

definition er_of_actions :: "(nat \<times> nat) list" where
  "er_of_actions = [(24, 24), (24, 24)]"

text \<open>The subtype indexes the table of two entries unchecked, before the length is looked at.\<close>

definition er_validate_act :: "u8 list \<Rightarrow> nat \<Rightarrow> u16 option" where
  "er_validate_act avh len = do {
     subtype \<leftarrow> ah16 avh 8;
     (min_size, max_size) \<leftarrow>
       (if unat (ntohs subtype) < length er_of_actions then Some (er_of_actions ! unat (ntohs subtype)) else None);
     Some (if len < min_size \<or> max_size < len then OFPBAC_BAD_LEN else ACT_VALIDATION_OK)
   }"

definition validate_vendor :: "u8 list \<Rightarrow> nat \<Rightarrow> u16 option" where
  "validate_vendor ah len =
     (if len < 8 then Some OFPBAC_BAD_LEN
      else do {
        vendor \<leftarrow> ah32 ah 4;
        if ntohl vendor = NX_VENDOR_ID then Some (nx_validate_act ah len)
        else if ntohl vendor = ER_VENDOR_ID then er_validate_act ah len
        else Some OFPBAC_BAD_VENDOR
      })"

text \<open>The body of the loop of \<open>validate_actions\<close> for the action at the start of the remaining bytes.\<close>

definition validate_one :: "sw_flow_key \<Rightarrow> u8 list \<Rightarrow> u16 option" where
  "validate_one k p =
     (let len = act_len p; type = ntohs (act_type p) in
      if length p < len \<or> len mod 8 \<noteq> 0 then Some OFPBAC_BAD_LEN
      else if unat type < length of_actions then validate_ofpat k p type len
      else if type = OFPAT_VENDOR then validate_vendor p len
      else Some OFPBAC_BAD_TYPE)"

lemma of_actions_simps [simp]: "length of_actions = 12"
  by (simp add: of_actions_def)

lemma of_actions_bounds: "i < 12 \<Longrightarrow> of_actions ! i = (n, m) \<Longrightarrow> n = m \<and> (n = 8 \<or> n = 16)"
  by (auto simp: of_actions_def nth_Cons split: nat.splits)

lemma er_of_actions_nth: "i < length er_of_actions \<Longrightarrow> er_of_actions ! i = (24, 24)"
  by (auto simp: er_of_actions_def less_Suc_eq)

lemma validate_ofpat_len:
  assumes "validate_ofpat k ah type len = Some ACT_VALIDATION_OK" and "unat type < 12"
  shows "of_actions ! unat type = (len, len)" and "8 \<le> len"
proof -
  obtain n m where nm: "of_actions ! unat type = (n, m)" by fastforce
  then show "of_actions ! unat type = (len, len)" "8 \<le> len"
    using of_actions_bounds [OF assms(2) nm] assms(1) by (auto simp: validate_ofpat_def Let_def split: if_splits)
qed

lemma er_validate_act_len: "er_validate_act avh len = Some ACT_VALIDATION_OK \<Longrightarrow> len = 24"
  by (auto simp: er_validate_act_def er_of_actions_nth split: if_splits bind_splits)

lemma validate_one_len:
  assumes "validate_one k p = Some ACT_VALIDATION_OK"
  shows "8 \<le> act_len p" and "act_len p \<le> length p"
  using assms
  by (auto simp: validate_one_def Let_def validate_vendor_def dest: validate_ofpat_len(2) split: if_splits)

function validate_actions :: "sw_flow_key \<Rightarrow> u8 list \<Rightarrow> u16 option" where
  "validate_actions k p =
     (if 4 \<le> length p then
        (case validate_one k p of
           None \<Rightarrow> None
         | Some err \<Rightarrow> if err \<noteq> ACT_VALIDATION_OK then Some err else validate_actions k (drop (act_len p) p))
      else if p \<noteq> [] then Some OFPBAC_BAD_LEN
      else Some ACT_VALIDATION_OK)"
  by pat_completeness auto

termination
  by (relation "measure (\<lambda>(_, p). length p)") (auto dest: validate_one_len)

declare validate_actions.simps [simp del]


section \<open>Port actions\<close>

text \<open>
  The table of port actions has no entry for \<open>OFPPAT_OUTPUT\<close>; the array leaves its sizes 0.
\<close>

definition port_actions :: "(nat \<times> nat) list" where
  "port_actions = [(0, 0), (16, 16), (16, 16), (8, 8), (8, 8)]"

definition validate_ofppat :: "u16 \<Rightarrow> nat \<Rightarrow> u16" where
  "validate_ofppat type len =
     (let (min_size, max_size) = port_actions ! unat type in
      if len < min_size \<or> max_size < len then OFPBAC_BAD_LEN else ACT_VALIDATION_OK)"

definition validate_vport_one :: "u8 list \<Rightarrow> u16" where
  "validate_vport_one p =
     (let len = act_len p; type = ntohs (act_type p) in
      if length p < len \<or> len mod 8 \<noteq> 0 then OFPBAC_BAD_LEN
      else if unat type < length port_actions then validate_ofppat type len
      else OFPBAC_BAD_TYPE)"

partial_function (option) validate_vport_actions :: "u8 list \<Rightarrow> u16 option" where
  "validate_vport_actions p =
     (if 4 \<le> length p then
        (if validate_vport_one p \<noteq> ACT_VALIDATION_OK then Some (validate_vport_one p)
         else validate_vport_actions (drop (act_len p) p))
      else if p \<noteq> [] then Some OFPBAC_BAD_LEN
      else Some ACT_VALIDATION_OK)"

definition execute_ofppat :: "u32 \<Rightarrow> u16 \<Rightarrow> u8 list \<Rightarrow> ofpbuf \<Rightarrow> sw_flow_key \<Rightarrow> ofpbuf option" where
  "execute_ofppat h0 type ah b k =
     (if type = 1 then pt_pop_mpls_act ah b k
      else if type = 2 then pt_push_mpls_act h0 ah b k
      else if type = 3 then pt_set_mpls_label_act ah b k
      else if type = 4 then pt_set_mpls_exp_act ah b k
      else Some b)"

text \<open>
  \<open>execute_vport_actions\<close> hands a pending last output the buffer itself and returns it to the caller all
  the same.
\<close>

function execute_vport_actions_loop :: "'s output_fun \<Rightarrow> (nat \<Rightarrow> u8) \<Rightarrow> u32 \<Rightarrow> u16 \<Rightarrow> u8 list
    \<Rightarrow> u32 \<Rightarrow> nat \<Rightarrow> ofpbuf \<Rightarrow> sw_flow_key \<Rightarrow> 's \<Rightarrow> (ofpbuf \<times> 's) option" where
  "execute_vport_actions_loop out junk h0 port p prev_port max_len b k s =
     (if p = [] then do {
        s \<leftarrow> (if prev_port \<noteq> - 1 then out b port max_len prev_port False s else Some s);
        Some (b, s)
      }
      else if length p < 4 then None
      else do {
        let len = act_len p;
        s \<leftarrow> (if prev_port \<noteq> - 1 then out (ofpbuf_clone junk b) port max_len prev_port False s else Some s);
        (prev_port, max_len, b) \<leftarrow>
          (if act_type p = htons OFPAT_OUTPUT then do {
             oport \<leftarrow> ah32 p 4;
             mlen \<leftarrow> ah16 p 8;
             Some (ntohl oport, unat (ntohs mlen), b)
           } else do {
             let type = ntohs (act_type p);
             b \<leftarrow> (if unat type < length port_actions then execute_ofppat h0 type p b k else Some b);
             Some (- 1, max_len, b)
           });
        if len = 0 \<or> length p < len then None
        else execute_vport_actions_loop out junk h0 port (drop len p) prev_port max_len b k s
      })"
  by pat_completeness auto

termination
  by (relation "measure (\<lambda>(_, _, _, _, p, _). length p)") auto

declare execute_vport_actions_loop.simps [simp del]

definition execute_vport_actions :: "'s output_fun \<Rightarrow> (nat \<Rightarrow> u8) \<Rightarrow> u32 \<Rightarrow> ofpbuf \<Rightarrow> sw_flow_key \<Rightarrow> u8 list
    \<Rightarrow> 's \<Rightarrow> (ofpbuf \<times> 's) option" where
  "execute_vport_actions out junk h0 b k actions s =
     execute_vport_actions_loop out junk h0 (ntohs (in_port (key_flow k))) actions (- 1) 0 b k s"

section \<open>What validation accepts\<close>

text \<open>The actions that may appear in a flow entry, one by one.\<close>

definition action_valid :: "sw_flow_key \<Rightarrow> u8 list \<Rightarrow> bool" where
  "action_valid k c \<longleftrightarrow>
     (let type = ntohs (act_type c); port = ntohl (get_u32 c 4) in
      unat type < 12 \<and> of_actions ! unat type = (length c, length c) \<and>
        \<not> (type = OFPAT_OUTPUT \<and> (port = 0xffff \<or> port = push_bit 16 (ucast (ntohs (in_port (key_flow k)))))) \<or>
      type = OFPAT_VENDOR \<and> length c = 24 \<and> ntohl (get_u32 c 4) = ER_VENDOR_ID \<and> unat (ntohs (get_u16 c 8)) < 2)"

definition port_action_valid :: "u8 list \<Rightarrow> bool" where
  "port_action_valid c \<longleftrightarrow>
     (let type = ntohs (act_type c) in
      (type = 1 \<or> type = 2) \<and> length c = 16 \<or> (type = 3 \<or> type = 4) \<and> length c = 8)"

definition port_actions_valid :: "u8 list \<Rightarrow> bool" where
  "port_actions_valid p \<longleftrightarrow> acts_ok p \<and> list_all port_action_valid (acts_split p)"

lemma htonl_ucast_port: "htonl (ucast (x :: u16)) = push_bit 16 (ucast (ntohs x))"
  by (rule bit_word_eqI) (auto simp: bit_htonl bit_htons bit_simps dest: bit_imp_le_length)

lemma output_port_cases:
  "port = ucast (x :: u16) \<longleftrightarrow> ntohl port = push_bit 16 (ucast (ntohs x))"
  by (metis htonl_htonl htonl_ucast_port)

lemma get_take:
  "i + 2 \<le> n \<Longrightarrow> get_u16 (take n p) i = get_u16 p i"
  "i + 4 \<le> n \<Longrightarrow> get_u32 (take n p) i = get_u32 p i"
  by (simp_all add: get_u16_def get_u32_def)

lemma act_take: "4 \<le> n \<Longrightarrow> act_type (take n p) = act_type p" "4 \<le> n \<Longrightarrow> act_len (take n p) = act_len p"
  by (simp_all add: act_type_def act_len_def get_take)

lemma action_valid_len: "action_valid k c \<Longrightarrow> length c = 8 \<or> length c = 16 \<or> length c = 24"
  using of_actions_bounds [of "unat (ntohs (act_type c))" "length c" "length c"]
  by (auto simp: action_valid_def Let_def)

lemma validate_one_iff:
  assumes "4 \<le> length p"
  shows "validate_one k p = Some ACT_VALIDATION_OK \<longleftrightarrow>
    8 \<le> act_len p \<and> act_len p \<le> length p \<and> action_valid k (take (act_len p) p)" (is "?ok \<longleftrightarrow> ?valid")
proof -
  let ?n = "act_len p" and ?t = "ntohs (act_type p)"
  have out: "validate_output k p = Some ACT_VALIDATION_OK \<longleftrightarrow>
      ntohl (get_u32 p 4) \<noteq> 0xffff \<and> ntohl (get_u32 p 4) \<noteq> push_bit 16 (ucast (ntohs (in_port (key_flow k))))"
    if "8 \<le> length p"
    using that htonl_inject [of "get_u32 p 4" "htonl 0xffff"]
    by (auto simp: validate_output_def ah32_def output_port_cases)
  have er: "er_validate_act p ?n = Some ACT_VALIDATION_OK \<longleftrightarrow> ?n = 24 \<and> unat (ntohs (get_u16 p 8)) < 2"
    if "?n \<le> length p" "8 \<le> ?n"
    using that
    by (auto simp: er_validate_act_def ah16_def er_of_actions_nth split: if_splits bind_splits)
      (simp_all add: er_of_actions_def)
  have guard: "\<not> (length p < ?n \<or> ?n mod 8 \<noteq> 0)" if "?n \<le> length p" "?n = 8 \<or> ?n = 16 \<or> ?n = 24"
    using that by auto
  have len: "length (take ?n p) = ?n" if "?n \<le> length p" using that by simp
  show ?thesis
  proof
    assume ok: ?ok
    note bounds = validate_one_len [OF ok]
    have "length p < ?n \<or> ?n mod 8 \<noteq> 0 \<longleftrightarrow> False" using ok unfolding validate_one_def Let_def by (auto split: if_splits)
    note one = ok [unfolded validate_one_def Let_def this if_False]
    have "action_valid k (take ?n p)"
    proof (cases "unat ?t < length of_actions")
      case True
      with one have of: "validate_ofpat k p ?t ?n = Some ACT_VALIDATION_OK" by simp
      note sizes = validate_ofpat_len [OF of]
      have "?t = OFPAT_OUTPUT \<Longrightarrow> validate_output k p = Some ACT_VALIDATION_OK"
        using of sizes(1) True by (simp add: validate_ofpat_def)
      then show ?thesis
        using sizes(1) True bounds out unfolding action_valid_def Let_def by (auto simp: act_take get_take len)
    next
      case False
      with one have "?t = OFPAT_VENDOR" "validate_vendor p ?n = Some ACT_VALIDATION_OK" by (auto split: if_splits)
      then show ?thesis
        using bounds er unfolding action_valid_def Let_def
        by (auto simp: act_take get_take len validate_vendor_def nx_validate_act_def ah32_def split: if_splits)
    qed
    with bounds show ?valid by simp
  next
    assume valid: ?valid
    then have sizes: "?n = 8 \<or> ?n = 16 \<or> ?n = 24" using action_valid_len [of k "take ?n p"] by auto
    note c = valid [THEN conjunct2, THEN conjunct2, unfolded action_valid_def Let_def]
    consider (of) "unat ?t < 12" "of_actions ! unat ?t = (?n, ?n)" "?t = OFPAT_OUTPUT \<Longrightarrow> validate_output k p = Some ACT_VALIDATION_OK"
      | (vendor) "?t = OFPAT_VENDOR" "validate_vendor p ?n = Some ACT_VALIDATION_OK"
      using c valid out er by (auto simp: act_take get_take len validate_vendor_def ah32_def)
    then show ?ok
    proof cases
      case of
      then show ?thesis using guard [OF _ sizes] valid by (simp add: validate_one_def Let_def validate_ofpat_def)
    next
      case vendor
      then show ?thesis using guard [OF _ sizes] valid by (simp add: validate_one_def Let_def vendor)
    qed
  qed
qed

lemma validate_actions_OK:
  "validate_actions k p = Some ACT_VALIDATION_OK \<longleftrightarrow> acts_ok p \<and> list_all (action_valid k) (acts_split p)"
proof (induction k p rule: validate_actions.induct)
  case (1 k p)
  show ?case
  proof (cases "4 \<le> length p")
    case False
    then show ?thesis
      by (cases p)
        (auto simp: validate_actions.simps [of k "_ # _"] validate_actions.simps [of k "[]"]
          acts_ok.simps [of "_ # _"] acts_ok.simps [of "[]"] acts_split.simps [of "[]"])
  next
    case long: True
    then have ne: "p \<noteq> []" by auto
    show ?thesis
    proof (cases "validate_one k p = Some ACT_VALIDATION_OK")
      case True
      note valid = True [unfolded validate_one_iff [OF long]]
      with ne have "acts_split p = take (act_len p) p # acts_split (drop (act_len p) p)"
        by (simp add: acts_split.simps [of p])
      then show ?thesis
        using 1 [OF long True] True valid ne long by (simp add: validate_actions.simps [of k p] acts_ok.simps [of p])
    next
      case False
      then have "validate_actions k p \<noteq> Some ACT_VALIDATION_OK"
        using long by (auto simp: validate_actions.simps [of k p] split: option.splits)
      then show ?thesis
        using False ne validate_one_iff [OF long]
        by (auto simp: acts_ok.simps [of p] acts_split.simps [of p] split: if_splits)
    qed
  qed
qed


text \<open>
  C37. Validation accepts exactly the lists made of known actions of their exact sizes, one behind the
  other up to the end of the list, whose outputs name neither \<open>OFPP_NONE\<close> nor the value that the input
  port has when its two bytes are taken for the upper half of a port number.
\<close>

theorem validate_actions_accepts_iff:
  "validate_actions k p = Some ACT_VALIDATION_OK \<longleftrightarrow> acts_ok p \<and> list_all (action_valid k) (acts_split p)"
  by (rule validate_actions_OK)


section \<open>Port actions, accepted or looping\<close>

lemma port_actions_nth:
  "i < 5 \<Longrightarrow> port_actions ! i = (if i = 0 then (0, 0) else if i \<le> 2 then (16, 16) else (8, 8))"
  by (auto simp: port_actions_def nth_Cons split: nat.splits)

lemma u16_less_5: "unat (t :: u16) < 5 \<longleftrightarrow> t = 0 \<or> t = 1 \<or> t = 2 \<or> t = 3 \<or> t = 4"
proof
  assume "unat t < 5"
  then consider "unat t = 0" | "unat t = 1" | "unat t = 2" | "unat t = 3" | "unat t = 4" by linarith
  then show "t = 0 \<or> t = 1 \<or> t = 2 \<or> t = 3 \<or> t = 4"
    by cases (simp_all add: word_unat_eq_iff)
qed auto

lemma validate_vport_one_iff:
  "validate_vport_one p = ACT_VALIDATION_OK \<longleftrightarrow>
    act_type p = htons OFPAT_OUTPUT \<and> act_len p = 0 \<or>
    8 \<le> act_len p \<and> act_len p \<le> length p \<and> port_action_valid (take (act_len p) p)" (is "?ok \<longleftrightarrow> ?r")
proof -
  let ?n = "act_len p" and ?t = "ntohs (act_type p)"
  have type: "act_type p = htons OFPAT_OUTPUT \<longleftrightarrow> ?t = 0" by (metis htons_htons)
  have five: "length port_actions = 5" by (simp add: port_actions_def)
  show ?thesis
    unfolding type
    by (cases "unat ?t < 5")
      (auto simp: five u16_less_5 validate_vport_one_def validate_ofppat_def Let_def port_actions_nth port_action_valid_def
        act_take min_absorb2 split: if_splits)
qed

lemma acts_append:
  assumes "8 \<le> act_len p" and "act_len p \<le> length p"
  shows "acts_ok (take (act_len p) p @ q) = acts_ok q"
    and "acts_split (take (act_len p) p @ q) = take (act_len p) p # acts_split q"
proof -
  let ?x = "take (act_len p) p"
  have "length ?x = act_len p" "act_len (?x @ q) = act_len p" "p \<noteq> []"
    using assms by (auto simp: act_len_def get_u16_def nth_append)
  then show "acts_ok (?x @ q) = acts_ok q" "acts_split (?x @ q) = ?x # acts_split q"
    using assms by (simp_all add: acts_ok.simps [of "?x @ q"] acts_split.simps [of "?x @ q"])
qed

lemma validate_vport_actions_loops:
  assumes "4 \<le> length p" and "act_type p = htons OFPAT_OUTPUT" and "act_len p = 0"
  shows "validate_vport_actions p = None"
proof -
  have "\<not> (4 \<le> length p \<and> validate_vport_one p = ACT_VALIDATION_OK \<and> act_len p = 0)"
    if "validate_vport_actions p = Some y" for p y
    using that
  proof (rule validate_vport_actions.raw_induct [rotated])
    fix f p y
    assume ih: "\<And>p y. f p = Some y \<Longrightarrow> \<not> (4 \<le> length p \<and> validate_vport_one p = ACT_VALIDATION_OK \<and> act_len p = 0)"
      and step: "(if 4 \<le> length p
         then if validate_vport_one p \<noteq> ACT_VALIDATION_OK then Some (validate_vport_one p) else f (drop (act_len p) p)
         else if p \<noteq> [] then Some OFPBAC_BAD_LEN else Some ACT_VALIDATION_OK) = Some y"
    show "\<not> (4 \<le> length p \<and> validate_vport_one p = ACT_VALIDATION_OK \<and> act_len p = 0)"
      using step ih [of p y] by (cases "act_len p = 0") auto
  qed
  then show ?thesis using assms validate_vport_one_iff by (metis option.exhaust)
qed

definition port_actions_stuck :: "u8 list \<Rightarrow> bool" where
  "port_actions_stuck p \<longleftrightarrow>
     (\<exists>q r. p = q @ r \<and> port_actions_valid q \<and> 4 \<le> length r \<and> act_type r = htons OFPAT_OUTPUT \<and> act_len r = 0)"

lemma port_actions_valid_step:
  assumes "8 \<le> act_len p" and "act_len p \<le> length p" and "port_action_valid (take (act_len p) p)"
  shows "port_actions_valid p \<longleftrightarrow> port_actions_valid (drop (act_len p) p)"
  using acts_append [OF assms(1,2), of "drop (act_len p) p"] assms(3) by (simp add: port_actions_valid_def)

lemma port_actions_valid_first:
  assumes "port_actions_valid p" and "p \<noteq> []"
  shows "8 \<le> act_len p" and "act_len p \<le> length p" and "port_action_valid (take (act_len p) p)"
  using assms by (auto simp: port_actions_valid_def acts_ok.simps [of p] acts_split.simps [of p] split: if_splits)

lemma act_len_prefix: "4 \<le> length q \<Longrightarrow> act_len (q @ r) = act_len q" "4 \<le> length q \<Longrightarrow> act_type (q @ r) = act_type q"
  by (auto simp: act_len_def act_type_def get_u16_def nth_append)

lemma port_actions_stuck_step:
  assumes "8 \<le> act_len p" and "act_len p \<le> length p" and "port_action_valid (take (act_len p) p)"
  shows "port_actions_stuck p \<longleftrightarrow> port_actions_stuck (drop (act_len p) p)"
proof
  let ?n = "act_len p"
  assume "port_actions_stuck p"
  then obtain q r where qr: "p = q @ r" "port_actions_valid q" "4 \<le> length r" "act_type r = htons OFPAT_OUTPUT" "act_len r = 0"
    by (auto simp: port_actions_stuck_def)
  have ne: "q \<noteq> []" using qr(1,5) assms(1) by auto
  note first = port_actions_valid_first [OF qr(2) ne]
  have "?n = act_len q" using first(1,2) unfolding qr(1) by (simp add: act_len_prefix)
  then have "drop ?n p = drop ?n q @ r" "port_actions_valid (drop ?n q)"
    using first port_actions_valid_step [OF first] qr(1,2) by simp_all
  then show "port_actions_stuck (drop ?n p)" using qr(3-5) unfolding port_actions_stuck_def by blast
next
  let ?n = "act_len p" and ?x = "take (act_len p) p"
  assume "port_actions_stuck (drop ?n p)"
  then obtain q r where qr: "drop ?n p = q @ r" "port_actions_valid q" "4 \<le> length r" "act_type r = htons OFPAT_OUTPUT" "act_len r = 0"
    by (auto simp: port_actions_stuck_def)
  have "p = (?x @ q) @ r" using qr(1) append_take_drop_id [of ?n p] by simp
  moreover have "port_actions_valid (?x @ q)"
    using acts_append [OF assms(1,2)] assms(3) qr(2) by (simp add: port_actions_valid_def)
  ultimately show "port_actions_stuck p" using qr(3-5) unfolding port_actions_stuck_def by blast
qed

lemma validate_vport_actions_result:
  "(validate_vport_actions p = Some ACT_VALIDATION_OK \<longleftrightarrow> port_actions_valid p) \<and>
   (validate_vport_actions p = None \<longleftrightarrow> port_actions_stuck p)"
proof (induction p rule: measure_induct_rule [where f = length])
  case (less p)
  note simps = validate_vport_actions.simps [of p]
  have valid_long: "4 \<le> length p" if "port_actions_valid p" "p \<noteq> []" using port_actions_valid_first [OF that] by linarith
  have stuck_first: "validate_vport_one p = ACT_VALIDATION_OK" "4 \<le> length p" if stuck: "port_actions_stuck p"
  proof -
    obtain q r where qr: "p = q @ r" "port_actions_valid q" "4 \<le> length r" "act_type r = htons OFPAT_OUTPUT" "act_len r = 0"
      using stuck by (auto simp: port_actions_stuck_def)
    show "validate_vport_one p = ACT_VALIDATION_OK"
    proof (cases "q = []")
      case True
      then show ?thesis using qr by (simp add: validate_vport_one_iff)
    next
      case False
      note first = port_actions_valid_first [OF qr(2) False]
      then have "act_len p = act_len q" "take (act_len q) p = take (act_len q) q" "act_len q \<le> length p"
        using qr(1) by (simp_all add: act_len_prefix)
      then show ?thesis using first by (simp add: validate_vport_one_iff)
    qed
    show "4 \<le> length p" using qr(1,3) by simp
  qed
  consider (short) "length p < 4" | (bad) "4 \<le> length p" "validate_vport_one p \<noteq> ACT_VALIDATION_OK"
    | (loop) "4 \<le> length p" "act_type p = htons OFPAT_OUTPUT" "act_len p = 0"
    | (step) "4 \<le> length p" "8 \<le> act_len p" "act_len p \<le> length p" "port_action_valid (take (act_len p) p)"
    using validate_vport_one_iff [of p] by fastforce
  then show ?case
  proof cases
    case short
    then have "validate_vport_actions p = Some (if p = [] then ACT_VALIDATION_OK else OFPBAC_BAD_LEN)" by (simp add: simps)
    moreover have "port_actions_valid []" by (simp add: port_actions_valid_def acts_ok.simps acts_split.simps)
    ultimately show ?thesis using short valid_long stuck_first(2)
      by (cases "p = []"; cases "port_actions_stuck p") auto
  next
    case bad
    then have some: "validate_vport_actions p = Some (validate_vport_one p)" by (simp add: simps)
    have "\<not> port_actions_valid p"
      using bad port_actions_valid_first [of p] validate_vport_one_iff [of p] by fastforce
    then show ?thesis using some bad stuck_first(1) by auto
  next
    case loop
    have "port_actions_valid []" by (simp add: port_actions_valid_def acts_ok.simps acts_split.simps)
    then have "port_actions_stuck p" using loop unfolding port_actions_stuck_def by (metis append_Nil)
    moreover have "\<not> port_actions_valid p" using port_actions_valid_first(1) [of p] loop by fastforce
    ultimately show ?thesis using validate_vport_actions_loops [OF loop] by simp
  next
    case step
    then have "validate_vport_actions p = validate_vport_actions (drop (act_len p) p)"
      using validate_vport_one_iff [of p] by (simp add: simps)
    then show ?thesis
      using less.IH [of "drop (act_len p) p"] step port_actions_valid_step [OF step(2-4)] port_actions_stuck_step [OF step(2-4)]
      by simp
  qed
qed


text \<open>
  The validation of port actions accepts exactly the lists of MPLS actions of their exact sizes.  It
  returns on every list but those in which, behind such actions, there is an output action of length 0:
  there it runs for ever, and since output actions of every other length are refused, no accepted list
  has an output.
\<close>

theorem validate_vport_actions_cases:
  "(validate_vport_actions p = Some ACT_VALIDATION_OK \<longleftrightarrow> port_actions_valid p) \<and>
   (validate_vport_actions p = None \<longleftrightarrow> port_actions_stuck p)"
  by (rule validate_vport_actions_result)

text \<open>Executing an accepted list of port actions leaves the state of the output function alone.\<close>

lemma execute_vport_actions_state:
  assumes "port_actions_valid p" and "execute_vport_actions out junk h0 b k p s = Some (b', s')"
  shows "s' = s"
proof -
  have "s' = s" if "port_actions_valid p" "execute_vport_actions_loop out junk h0 port p (- 1) m b k s = Some (b', s')"
    for port m b
    using that
  proof (induction p arbitrary: m b rule: measure_induct_rule [where f = length])
    case (less p)
    show ?case
    proof (cases "p = []")
      case True
      then show ?thesis using less.prems(2) by (simp add: execute_vport_actions_loop.simps [of _ _ _ _ "[]"])
    next
      case False
      note first = port_actions_valid_first [OF less.prems(1) False]
      have type: "act_type p \<noteq> htons OFPAT_OUTPUT"
      proof
        assume "act_type p = htons OFPAT_OUTPUT"
        with first show False by (simp add: port_action_valid_def Let_def act_take)
      qed
      have fits: "\<not> length p < 4" "\<not> (act_len p = 0 \<or> length p < act_len p)" using first by auto
      obtain b2 where
        "execute_vport_actions_loop out junk h0 port (drop (act_len p) p) (- 1) m b2 k s = Some (b', s')"
        using less.prems(2) False type fits unfolding execute_vport_actions_loop.simps [of _ _ _ _ p] Let_def
        by (auto split: bind_splits if_splits)
      moreover have "port_actions_valid (drop (act_len p) p)" "length (drop (act_len p) p) < length p"
        using port_actions_valid_step [OF first] less.prems(1) first by auto
      ultimately show ?thesis using less.IH by blast
    qed
  qed
  then show ?thesis using assms unfolding execute_vport_actions_def by blast
qed

end
