(* ===== verification/Vport.thy ===== *)
theory Vport
  imports Action_Lists
begin

text \<open>
  The virtual port table, \<open>switch/switch-port.c\<close>.  A virtual port rewrites a packet and hands it on to
  its parent, a physical port or another virtual port, to which it keeps a pointer.  Entries live in a
  store by address, like flow entries; the red-black tree that finds an entry by its number is the map
  from numbers to addresses it implements.
\<close>

section \<open>Entries and table\<close>

abbreviation (input) OFPP_VP_START :: u32 where "OFPP_VP_START \<equiv> 0x10000"
abbreviation (input) OFPP_VP_END :: u32 where "OFPP_VP_END \<equiv> 0x40000000"
abbreviation (input) EINVAL :: int where "EINVAL \<equiv> 22"

record vport_table_entry =
  vport :: u32
  parent_port :: u32
  parent_port_ptr :: "addr option"
  vp_packet_count :: u64
  vp_byte_count :: u64
  port_acts :: "u8 list"

type_synonym vheap = "addr \<rightharpoonup> vport_table_entry"

record vport_table_t =
  vtable :: "u32 \<rightharpoonup> addr"
  max_vports :: u32
  active_vports :: u32
  lookup_count :: u64
  port_match_count :: u64
  chain_match_count :: u64

definition vport_table_init :: vport_table_t where
  "vport_table_init = \<lparr>vtable = Map.empty, max_vports = OFPP_VP_END - OFPP_VP_START, active_vports = 0,
     lookup_count = 0, port_match_count = 0, chain_match_count = 0\<rparr>"

text \<open>
  The allocator \<open>al\<close> gives an unused address or fails; the fields that \<open>vport_table_entry_alloc\<close> leaves
  uninitialised are taken from \<open>junk\<close>.
\<close>

definition vport_table_entry_alloc :: "(vheap \<Rightarrow> addr option) \<Rightarrow> vport_table_entry \<Rightarrow> nat \<Rightarrow> vheap \<Rightarrow> (addr \<times> vheap) option" where
  "vport_table_entry_alloc al junk actions_len h =
     (case al h of
        None \<Rightarrow> None
      | Some a \<Rightarrow> Some (a, h(a \<mapsto> junk\<lparr>vport := 0, parent_port_ptr := None, vp_packet_count := 0, vp_byte_count := 0,
          port_acts := take actions_len (port_acts junk)\<rparr>)))"

definition free_vport_table_entry :: "addr \<Rightarrow> vheap \<Rightarrow> vheap" where
  "free_vport_table_entry a h = h(a := None)"

definition vport_table_lookup :: "vport_table_t \<Rightarrow> u32 \<Rightarrow> addr option" where
  "vport_table_lookup t v = vtable t v"

text \<open>The result of an operation: an error code (0 for success), the store and the table.\<close>

definition link_vport :: "addr \<Rightarrow> vport_table_entry \<Rightarrow> addr option \<Rightarrow> vheap \<Rightarrow> vport_table_t \<Rightarrow> int \<times> vheap \<times> vport_table_t" where
  "link_vport a vpe parent h t =
     (0, h(a \<mapsto> vpe\<lparr>parent_port_ptr := parent\<rparr>),
      t\<lparr>vtable := (vtable t)(vport vpe \<mapsto> a), active_vports := active_vports t + 1\<rparr>)"

definition insert_vport_table_entry :: "addr \<Rightarrow> vheap \<Rightarrow> vport_table_t \<Rightarrow> (int \<times> vheap \<times> vport_table_t) option" where
  "insert_vport_table_entry a h t = do {
     vpe \<leftarrow> h a;
     Some (if parent_port vpe = vport vpe then (EINVAL, h, t)
           else if parent_port vpe < OFPP_VP_START then link_vport a vpe None h t
           else if parent_port vpe \<le> OFPP_VP_END then
             (case vport_table_lookup t (parent_port vpe) of
                None \<Rightarrow> (EINVAL, h, t)
              | Some p \<Rightarrow> link_vport a vpe (Some p) h t)
           else (EINVAL, h, t))
   }"

definition remove_vport_table_entry :: "u32 \<Rightarrow> vheap \<Rightarrow> vport_table_t \<Rightarrow> int \<times> vheap \<times> vport_table_t" where
  "remove_vport_table_entry v h t =
     (case vport_table_lookup t v of
        Some a \<Rightarrow> (0, free_vport_table_entry a h, t\<lparr>vtable := (vtable t)(v := None), active_vports := active_vports t - 1\<rparr>)
      | None \<Rightarrow> (EINVAL, h, t))"

definition vport_used :: "nat \<Rightarrow> vport_table_entry \<Rightarrow> vport_table_entry" where
  "vport_used n vpe = vpe\<lparr>vp_packet_count := vp_packet_count vpe + 1, vp_byte_count := vp_byte_count vpe + of_nat n\<rparr>"


section \<open>The chain of parents\<close>

text \<open>Following the parent pointers from an entry ends at an entry on a physical port.\<close>

inductive vport_path :: "vheap \<Rightarrow> addr \<Rightarrow> u32 list \<Rightarrow> u32 \<Rightarrow> bool" for h where
  physical: "h a = Some e \<Longrightarrow> parent_port_ptr e = None \<Longrightarrow> parent_port e < OFPP_VP_START \<Longrightarrow>
   vport_path h a [vport e] (parent_port e)"
| virtual: "h a = Some e \<Longrightarrow> parent_port_ptr e = Some b \<Longrightarrow> vport_path h b vs out \<Longrightarrow>
   vport_path h a (vport e # vs) out"

text \<open>
  The invariant of the table: it finds every entry under its number, in the range of virtual port
  numbers and with actions that validation has accepted.
\<close>

definition vport_inv :: "vheap \<Rightarrow> vport_table_t \<Rightarrow> bool" where
  "vport_inv h t \<longleftrightarrow> finite (dom (vtable t)) \<and> inj_on (vtable t) (dom (vtable t)) \<and>
     active_vports t = of_nat (card (dom (vtable t))) \<and>
     (\<forall>v a. vtable t v = Some a \<longrightarrow> OFPP_VP_START \<le> v \<and> v \<le> OFPP_VP_END \<and>
        (\<exists>e. h a = Some e \<and> vport e = v \<and> port_actions_valid (port_acts e)))"

definition vport_closed :: "vheap \<Rightarrow> vport_table_t \<Rightarrow> bool" where
  "vport_closed h t \<longleftrightarrow> (\<forall>w b e. vtable t w = Some b \<longrightarrow> h b = Some e \<longrightarrow>
     (case parent_port_ptr e of
        None \<Rightarrow> parent_port e < OFPP_VP_START
      | Some p \<Rightarrow> vtable t (parent_port e) = Some p))"

definition vport_linked :: "vheap \<Rightarrow> vport_table_t \<Rightarrow> bool" where
  "vport_linked h t \<longleftrightarrow> vport_closed h t \<and> (\<forall>v a. vtable t v = Some a \<longrightarrow> (\<exists>vs out. vport_path h a vs out))"

definition vport_has_child :: "vheap \<Rightarrow> vport_table_t \<Rightarrow> u32 \<Rightarrow> bool" where
  "vport_has_child h t v \<longleftrightarrow> (\<exists>w b e. w \<noteq> v \<and> vtable t w = Some b \<and> h b = Some e \<and> parent_port e = v)"

lemma vport_path_agree:
  assumes "vport_path h a vs out" and "\<And>a e. h a = Some e \<Longrightarrow> h' a = Some e"
  shows "vport_path h' a vs out"
  using assms by (induction rule: vport_path.induct) (auto intro: vport_path.intros)

lemma vport_path_dom: "vport_path h a vs out \<Longrightarrow> a \<in> dom h"
  by (auto elim: vport_path.cases)

lemma vport_inv_dom: "vport_inv h t \<Longrightarrow> vtable t v = Some a \<Longrightarrow> a \<in> dom h"
  by (fastforce simp: vport_inv_def)

lemma vport_linkedD:
  assumes "vport_linked h t" and "vtable t v = Some a"
  obtains vs out where "vport_path h a vs out"
  using assms unfolding vport_linked_def by blast

lemma vport_inv_init: "vport_inv Map.empty vport_table_init" "vport_linked Map.empty vport_table_init"
  by (simp_all add: vport_inv_def vport_linked_def vport_closed_def vport_table_init_def)

lemma link_vport_inv:
  assumes inv: "vport_inv h t" and a: "a \<notin> dom h" and new: "vtable t (vport e) = None"
    and e: "OFPP_VP_START \<le> vport e" "vport e \<le> OFPP_VP_END" "port_actions_valid (port_acts e)"
    and link: "link_vport a e p (h(a \<mapsto> e)) t = (err, h', t')"
  shows "vport_inv h' t'"
proof -
  have h': "h' = h(a \<mapsto> e\<lparr>parent_port_ptr := p\<rparr>)" and t': "vtable t' = (vtable t)(vport e \<mapsto> a)"
    "active_vports t' = active_vports t + 1"
    using link by (auto simp: link_vport_def)
  have other: "vtable t v \<noteq> Some a" for v using vport_inv_dom [OF inv, of v a] a by blast
  have fin: "finite (dom (vtable t))" and inj: "inj_on (vtable t) (dom (vtable t))" using inv by (auto simp: vport_inv_def)
  have "vport e \<notin> dom (vtable t)" using new by auto
  then have card: "card (dom (vtable t')) = card (dom (vtable t)) + 1" using fin by (simp add: t')
  have "inj_on (vtable t') (dom (vtable t'))"
    using inj other new unfolding t' by (auto simp: inj_on_def)
  then show ?thesis
    using inv e other fin card unfolding vport_inv_def h' t' by auto
qed

lemma link_vport_linked:
  assumes inv: "vport_inv h t" and linked: "vport_linked h t" and a: "a \<notin> dom h" and new: "vtable t (vport e) = None"
    and p: "case p of None \<Rightarrow> parent_port e < OFPP_VP_START | Some b \<Rightarrow> vtable t (parent_port e) = Some b"
    and link: "link_vport a e p (h(a \<mapsto> e)) t = (err, h', t')"
  shows "vport_linked h' t'"
proof -
  let ?e = "e\<lparr>parent_port_ptr := p\<rparr>"
  have h': "h' = h(a \<mapsto> ?e)" and t': "vtable t' = (vtable t)(vport e \<mapsto> a)"
    using link by (auto simp: link_vport_def)
  have keep: "h' b = Some x" if "h b = Some x" for b x using a that unfolding h' by auto
  have other: "vtable t v \<noteq> Some a" for v using vport_inv_dom [OF inv, of v a] a by blast
  have "vport_closed h' t'"
    unfolding vport_closed_def
  proof (intro allI impI)
    fix w b x assume wb: "vtable t' w = Some b" "h' b = Some x"
    show "case parent_port_ptr x of None \<Rightarrow> parent_port x < OFPP_VP_START | Some p \<Rightarrow> vtable t' (parent_port x) = Some p"
    proof (cases "w = vport e")
      case True
      then have "b = a" "x = ?e" using wb by (auto simp: t' h')
      then show ?thesis using p new by (auto simp: t' split: option.splits)
    next
      case False
      then have "vtable t w = Some b" "h b = Some x" using wb other [of w] by (auto simp: t' h' split: if_splits)
      then have "case parent_port_ptr x of None \<Rightarrow> parent_port x < OFPP_VP_START | Some p \<Rightarrow> vtable t (parent_port x) = Some p"
        using linked by (auto simp: vport_linked_def vport_closed_def)
      then show ?thesis using new by (auto simp: t' split: option.splits)
    qed
  qed
  moreover have "\<exists>vs out. vport_path h' b vs out" if "vtable t' w = Some b" for w b
  proof (cases "w = vport e")
    case True
    then have b: "b = a" using that by (simp add: t')
    show ?thesis
    proof (cases p)
      case None
      then have "vport_path h' a [vport ?e] (parent_port ?e)" using p by (intro vport_path.physical) (simp_all add: h')
      then show ?thesis using b by blast
    next
      case (Some q)
      then have "vtable t (parent_port e) = Some q" using p by simp
      then obtain vs out where "vport_path h q vs out" by (rule vport_linkedD [OF linked])
      then have "vport_path h' q vs out" by (rule vport_path_agree) (rule keep)
      then have "vport_path h' a (vport ?e # vs) out" using \<open>p = Some q\<close> by (intro vport_path.virtual) (simp_all add: h')
      then show ?thesis using b by blast
    qed
  next
    case False
    then have "vtable t w = Some b" using that by (simp add: t')
    then obtain vs out where "vport_path h b vs out" by (rule vport_linkedD [OF linked])
    then have "vport_path h' b vs out" by (rule vport_path_agree) (rule keep)
    then show ?thesis by blast
  qed
  ultimately show ?thesis by (auto simp: vport_linked_def)
qed

lemma insert_vport_cases:
  assumes "insert_vport_table_entry a (h(a \<mapsto> e)) t = Some (err, h', t')"
  obtains (refused) "err = EINVAL" "h' = h(a \<mapsto> e)" "t' = t"
    | (linked) p where "link_vport a e p (h(a \<mapsto> e)) t = (err, h', t')"
        "case p of None \<Rightarrow> parent_port e < OFPP_VP_START | Some b \<Rightarrow> vtable t (parent_port e) = Some b"
proof -
  consider "parent_port e = vport e" | "parent_port e \<noteq> vport e" "parent_port e < OFPP_VP_START"
    | "parent_port e \<noteq> vport e" "\<not> parent_port e < OFPP_VP_START" "parent_port e \<le> OFPP_VP_END"
    | "parent_port e \<noteq> vport e" "\<not> parent_port e < OFPP_VP_START" "\<not> parent_port e \<le> OFPP_VP_END"
    by blast
  then show thesis
  proof cases
    case 1
    then show thesis using assms refused by (simp add: insert_vport_table_entry_def)
  next
    case 2
    then show thesis using assms linked [of None] by (simp add: insert_vport_table_entry_def)
  next
    case 3
    then show thesis
      using assms refused linked
      by (cases "vtable t (parent_port e)") (simp_all add: insert_vport_table_entry_def vport_table_lookup_def)
  next
    case 4
    then show thesis using assms refused by (simp add: insert_vport_table_entry_def)
  qed
qed

lemma insert_vport_inv:
  assumes "vport_inv h t" and "a \<notin> dom h" and "vtable t (vport e) = None"
    and "OFPP_VP_START \<le> vport e" and "vport e \<le> OFPP_VP_END" and "port_actions_valid (port_acts e)"
    and "insert_vport_table_entry a (h(a \<mapsto> e)) t = Some (err, h', t')"
  shows "vport_inv h' t'"
  using assms(7)
proof (cases rule: insert_vport_cases)
  case refused
  have "(h(a \<mapsto> e)) b = h b" if "vtable t v = Some b" for v b
    using that vport_inv_dom [OF assms(1) that] assms(2) by auto
  then show ?thesis using assms(1) refused unfolding vport_inv_def by (metis (no_types, lifting))
next
  case (linked p)
  then show ?thesis using link_vport_inv [OF assms(1-6)] by blast
qed

lemma remove_vport_inv:
  assumes inv: "vport_inv h t" and rem: "remove_vport_table_entry v h t = (err, h', t')"
  shows "vport_inv h' t'"
proof (cases "vtable t v")
  case None
  then show ?thesis using assms by (simp add: remove_vport_table_entry_def vport_table_lookup_def)
next
  case (Some a)
  then have h': "h' = h(a := None)" and t': "vtable t' = (vtable t)(v := None)" "active_vports t' = active_vports t - 1"
    using rem by (auto simp: remove_vport_table_entry_def vport_table_lookup_def free_vport_table_entry_def)
  have fin: "finite (dom (vtable t))" and inj: "inj_on (vtable t) (dom (vtable t))" using inv by (auto simp: vport_inv_def)
  have "v \<in> dom (vtable t)" using Some by auto
  then have "card (dom (vtable t)) = card (dom (vtable t')) + 1" using card_Suc_Diff1 [OF fin, of v] by (simp add: t')
  then have "active_vports t' = of_nat (card (dom (vtable t')))" using inv by (simp add: vport_inv_def t')
  moreover have "b \<noteq> a" if "vtable t' w = Some b" for w b
  proof
    assume "b = a"
    with that have "w \<noteq> v" "vtable t w = vtable t v" using Some by (auto simp: t' split: if_splits)
    then show False using inj_onD [OF inj, of w v] that Some by (auto simp: t')
  qed
  moreover have "inj_on (vtable t') (dom (vtable t'))" using inj by (auto simp: t' inj_on_def)
  ultimately show ?thesis using inv fin unfolding vport_inv_def h' by (auto simp: t' split: if_splits)
qed

lemma insert_vport_linked:
  assumes inv: "vport_inv h t" and linked: "vport_linked h t" and a: "a \<notin> dom h" and new: "vtable t (vport e) = None"
    and ins: "insert_vport_table_entry a (h(a \<mapsto> e)) t = Some (err, h', t')"
  shows "vport_linked h' t'"
  using ins
proof (cases rule: insert_vport_cases)
  case refused
  have same: "(h(a \<mapsto> e)) b = h b" if "vtable t v = Some b" for v b
    using that vport_inv_dom [OF inv that] a by auto
  have "vport_closed h' t'" using linked same refused unfolding vport_linked_def vport_closed_def by metis
  moreover have "\<exists>vs out. vport_path h' b vs out" if "vtable t' w = Some b" for w b
  proof -
    have "vtable t w = Some b" using that refused by simp
    then obtain vs out where "vport_path h b vs out" by (rule vport_linkedD [OF linked])
    then have "vport_path h' b vs out" by (rule vport_path_agree) (use a refused in auto)
    then show ?thesis by blast
  qed
  ultimately show ?thesis by (simp add: vport_linked_def)
next
  case (linked p)
  then show ?thesis using link_vport_linked [OF inv assms(2) a new] by blast
qed

lemma remove_vport_linked:
  assumes inv: "vport_inv h t" and linked: "vport_linked h t" and rem: "remove_vport_table_entry v h t = (0, h', t')"
  shows "vport_linked h' t' \<longleftrightarrow> \<not> vport_has_child h t v"
proof -
  obtain a where a: "vtable t v = Some a"
    using rem by (auto simp: remove_vport_table_entry_def vport_table_lookup_def split: option.splits)
  then have h': "h' = h(a := None)" and t': "vtable t' = (vtable t)(v := None)"
    using rem by (auto simp: remove_vport_table_entry_def vport_table_lookup_def free_vport_table_entry_def)
  have inj: "inj_on (vtable t) (dom (vtable t))" using inv by (simp add: vport_inv_def)
  have closed: "vport_closed h t" using linked by (simp add: vport_linked_def)
  have start: "OFPP_VP_START \<le> v" using inv a by (simp add: vport_inv_def)
  have only: "b \<noteq> a" if "vtable t w = Some b" "w \<noteq> v" for w b
    using inj_onD [OF inj, of w v] that a by auto
  have to: "parent_port_ptr x = Some a \<longleftrightarrow> parent_port x = v" if "vtable t w = Some b" "h b = Some x" for w b x
  proof
    assume "parent_port_ptr x = Some a"
    then have "vtable t (parent_port x) = Some a" using closed that by (auto simp: vport_closed_def split: option.splits)
    then show "parent_port x = v" using only by blast
  next
    assume "parent_port x = v"
    then show "parent_port_ptr x = Some a"
      using closed that a start unfolding vport_closed_def by (cases "parent_port_ptr x") fastforce+
  qed
  show ?thesis
  proof
    assume linked': "vport_linked h' t'"
    show "\<not> vport_has_child h t v"
    proof
      assume "vport_has_child h t v"
      then obtain w b x where child: "w \<noteq> v" "vtable t w = Some b" "h b = Some x" "parent_port x = v"
        by (auto simp: vport_has_child_def)
      have "vtable t' w = Some b" using child by (simp add: t')
      then obtain vs out where "vport_path h' b vs out" by (rule vport_linkedD [OF linked'])
      moreover have "parent_port_ptr x = Some a" using to [OF child(2,3)] child(4) by simp
      moreover have "h' b = Some x" using only [OF child(2,1)] child(3) by (simp add: h')
      ultimately have "\<exists>vs out. vport_path h' a vs out" by (cases rule: vport_path.cases) auto
      then show False using vport_path_dom [of h' a] by (auto simp: h')
    qed
  next
    assume childless: "\<not> vport_has_child h t v"
    have path: "vport_path h' b vs out" if "vport_path h b vs out" "vtable t w = Some b" "w \<noteq> v" for w b vs out
      using that
    proof (induction arbitrary: w rule: vport_path.induct)
      case (physical b x)
      then show ?case using only by (intro vport_path.physical) (auto simp: h')
    next
      case (virtual b x c vs out)
      have c: "vtable t (parent_port x) = Some c" using closed virtual.prems virtual.hyps(1,2)
        by (fastforce simp: vport_closed_def)
      have "parent_port x \<noteq> v" using childless virtual.prems virtual.hyps(1) by (auto simp: vport_has_child_def)
      then have p: "vport_path h' c vs out" using virtual.IH [OF c] by blast
      have "h' b = Some x" using virtual.hyps(1) only [OF virtual.prems] by (simp add: h')
      then show ?case by (rule vport_path.virtual [OF _ virtual.hyps(2) p])
    qed
    have "vport_closed h' t'"
      unfolding vport_closed_def
    proof (intro allI impI)
      fix w b x assume "vtable t' w = Some b" "h' b = Some x"
      then have wb: "w \<noteq> v" "vtable t w = Some b" "h b = Some x" by (auto simp: t' h' split: if_splits)
      have "parent_port x \<noteq> v" using childless wb by (auto simp: vport_has_child_def)
      then show "case parent_port_ptr x of None \<Rightarrow> parent_port x < OFPP_VP_START | Some p \<Rightarrow> vtable t' (parent_port x) = Some p"
        using closed [unfolded vport_closed_def, rule_format, OF wb(2,3)] by (auto simp: t' split: option.splits)
    qed
    moreover have "\<exists>vs out. vport_path h' b vs out" if "vtable t' w = Some b" for w b
    proof -
      have w: "w \<noteq> v" "vtable t w = Some b" using that by (auto simp: t' split: if_splits)
      obtain vs out where "vport_path h b vs out" by (rule vport_linkedD [OF linked w(2)])
      then show ?thesis using path w by blast
    qed
    ultimately show "vport_linked h' t'" by (simp add: vport_linked_def)
  qed
qed

text \<open>
  The pointers between virtual ports.  While virtual ports are only added, every one of them leads
  to a physical port.  Removing one keeps that exactly when no other virtual port has it for a parent:
  otherwise the pointer of the child is left on freed memory.
\<close>

theorem vport_links:
  assumes inv: "vport_inv h t" and linked: "vport_linked h t"
  shows "(a \<notin> dom h \<longrightarrow> vtable t (vport e) = None \<longrightarrow>
      insert_vport_table_entry a (h(a \<mapsto> e)) t = Some (err, h', t') \<longrightarrow> vport_linked h' t') \<and>
    (remove_vport_table_entry v h t = (0, h'', t'') \<longrightarrow> vport_linked h'' t'' \<longleftrightarrow> \<not> vport_has_child h t v)"
proof (intro conjI impI)
  assume a: "a \<notin> dom h" and new: "vtable t (vport e) = None"
    and ins: "insert_vport_table_entry a (h(a \<mapsto> e)) t = Some (err, h', t')"
  show "vport_linked h' t'" using insert_vport_linked [OF inv linked a new ins] .
next
  assume "remove_vport_table_entry v h t = (0, h'', t'')"
  then show "vport_linked h'' t'' \<longleftrightarrow> \<not> vport_has_child h t v" by (rule remove_vport_linked [OF inv linked])
qed


definition sample_vport :: "u32 \<Rightarrow> u32 \<Rightarrow> addr option \<Rightarrow> vport_table_entry" where
  "sample_vport v parent p = \<lparr>vport = v, parent_port = parent, parent_port_ptr = p, vp_packet_count = 0,
     vp_byte_count = 0, port_acts = []\<rparr>"

definition sample_vheap :: vheap where
  "sample_vheap = [0 \<mapsto> sample_vport 0x10000 3 None, 1 \<mapsto> sample_vport 0x10001 0x10000 (Some 0)]"

definition sample_vtable :: vport_table_t where
  "sample_vtable = vport_table_init\<lparr>vtable := [0x10000 \<mapsto> 0, 0x10001 \<mapsto> 1], active_vports := 2\<rparr>"

lemma port_actions_valid_Nil [simp]: "port_actions_valid []"
  by (simp add: port_actions_valid_def acts_ok.simps acts_split.simps)

lemma sample_vport_ok: "vport_inv sample_vheap sample_vtable" "vport_linked sample_vheap sample_vtable"
proof -
  show "vport_inv sample_vheap sample_vtable"
    by (auto simp: vport_inv_def sample_vheap_def sample_vtable_def sample_vport_def)
  have 0: "vport_path sample_vheap 0 [vport (sample_vport 0x10000 3 None)] (parent_port (sample_vport 0x10000 3 None))"
    by (rule vport_path.physical) (simp_all add: sample_vheap_def sample_vport_def)
  have 1: "vport_path sample_vheap 1 [vport (sample_vport 0x10001 0x10000 (Some 0)), vport (sample_vport 0x10000 3 None)]
      (parent_port (sample_vport 0x10000 3 None))"
    by (rule vport_path.virtual [OF _ _ 0]) (simp_all add: sample_vheap_def sample_vport_def)
  show "vport_linked sample_vheap sample_vtable"
    using 0 1
    by (auto simp: vport_linked_def vport_closed_def sample_vtable_def split: if_splits)
      (auto simp: sample_vheap_def sample_vport_def)
qed

theorem vport_links_witness:
  "\<exists>h'' t''. remove_vport_table_entry 0x10000 sample_vheap sample_vtable = (0, h'', t'') \<and> \<not> vport_linked h'' t''"
proof -
  have child: "vport_has_child sample_vheap sample_vtable 0x10000"
    unfolding vport_has_child_def
    by (rule exI [of _ "0x10001"], rule exI [of _ 1]) (simp add: sample_vheap_def sample_vtable_def sample_vport_def)
  obtain h'' t'' where rem: "remove_vport_table_entry 0x10000 sample_vheap sample_vtable = (0, h'', t'')"
    by (simp add: remove_vport_table_entry_def vport_table_lookup_def sample_vtable_def)
  then have "\<not> vport_linked h'' t''" using vport_links [OF sample_vport_ok] child by blast
  with rem show ?thesis by blast
qed

end
