(* ===== verification/Datapath.thy ===== *)
theory Datapath
  imports Chain Vport
begin

text \<open>
  The datapath of the switch, \<open>switch/datapath.c\<close>: packet buffers for the controller, output to ports and
  the packet pipeline through the flow tables and the virtual ports.  What lies outside of the program
  (devices, the connection to the controller, the clock, the allocator) is the environment record; what
  the datapath does to the outside is the list of events.  \<open>None\<close> is a failed assertion, an access to
  memory that is not there, or an endless recursion: output to \<open>OFPP_TABLE\<close> runs the packet through the
  tables again, so the functions that send packets carry the depth of the recursion as fuel.
  \<open>ofpbuf_delete\<close> only gives memory back and is left out.
\<close>

section \<open>State\<close>

abbreviation (input) DP_MAX_PORTS :: nat where "DP_MAX_PORTS \<equiv> 255"
abbreviation (input) OFPP_IN_PORT :: u32 where "OFPP_IN_PORT \<equiv> 0xfff8"
abbreviation (input) OFPP_TABLE :: u32 where "OFPP_TABLE \<equiv> 0xfff9"
abbreviation (input) OFPP_FLOOD :: u32 where "OFPP_FLOOD \<equiv> 0xfffb"
abbreviation (input) OFPP_ALL :: u32 where "OFPP_ALL \<equiv> 0xfffc"
abbreviation (input) OFPP_CONTROLLER :: u32 where "OFPP_CONTROLLER \<equiv> 0xfffd"
abbreviation (input) ESRCH :: int where "ESRCH \<equiv> 3"
abbreviation (input) OFP_VERSION :: u8 where "OFP_VERSION \<equiv> 0x97"
abbreviation (input) OFPT_PACKET_IN :: u8 where "OFPT_PACKET_IN \<equiv> 12"
abbreviation (input) OFPR_NO_MATCH :: u8 where "OFPR_NO_MATCH \<equiv> 0"
abbreviation (input) OFPR_ACTION :: u8 where "OFPR_ACTION \<equiv> 1"

record sw_port =
  sp_config :: u32
  sp_state :: u32
  sp_netdev :: "nat option"
  rx_packets :: u64
  rx_bytes :: u64
  tx_packets :: u64
  tx_bytes :: u64
  tx_dropped :: u64
  mpls_ttl0_dropped :: u64

record packet_buffer =
  pb_buffer :: "ofpbuf option"
  pb_cookie :: u32
  pb_timeout :: int

datatype dp_event =
    Netdev_Send nat "u8 list"
  | Rconn_Send nat "u8 list"
  | Turn_Flags_On nat
  | Turn_Flags_Off nat

text \<open>The origin of a message, and a reply of several messages in progress, with the state of its kind.\<close>

record sender =
  s_remote :: nat
  s_xid :: u32

record flow_stats_state =
  fs_table_idx :: nat
  fs_position :: "u64 \<times> u64"
  fs_rq :: "u8 list"

datatype stats_state =
    No_State
  | Flow_State flow_stats_state
  | Aggregate_State "u8 list"
  | Port_State "u32 list"

record stats_dump_cb =
  cb_finished :: bool
  cb_sender :: sender
  cb_type :: u16
  cb_state :: stats_state

text \<open>
  The datapath.  Connections are numbers, 0 that to the controller; a connection with a reply in progress is
  in \<open>cb_dump\<close>.  The flow entries, the virtual ports and the packet buffers, which the code keeps in memory and
  in static variables, are part of the record, as is the log of events.
\<close>

record datapath =
  remotes :: "nat list"
  cb_dump :: "nat \<rightharpoonup> stats_dump_cb"
  last_timeout :: int
  dp_id :: u64
  dp_chain :: sw_chain
  dp_heap :: fheap
  dp_flags :: u16
  miss_send_len :: u16
  dp_ports :: "sw_port list"
  port_list :: "nat list"
  vport_table :: vport_table_t
  vport_heap :: vheap
  buffers :: "packet_buffer list"
  buffer_idx :: u32
  events :: "dp_event list"

text \<open>
  The environment: the contents of fresh memory and of uninitialised variables, the allocators of flow and
  port entries, the clock, a random identifier, the texts that describe the switch; of a device whether it
  takes a frame, its address, name, feature words, whether its flags can be read and say that it is up, its
  link status, its MTU and what it delivers (an error code or a frame); of a connection the messages that
  wait, whether its queue has room at the n-th look, whether it is alive, and the error code with which it
  answers to a message; how many new connections wait, and where they are allocated.
\<close>

record dp_env =
  e_junk :: "nat \<Rightarrow> u8"
  e_stack :: u32
  e_sw_flow :: sw_flow
  e_vport :: vport_table_entry
  e_alloc_flow :: "fheap \<Rightarrow> addr option"
  e_alloc_vport :: "vheap \<Rightarrow> addr option"
  e_alloc_acts :: "addr \<Rightarrow> bool"
  e_now :: int
  e_random_id :: u64
  e_send :: "nat \<Rightarrow> u8 list \<Rightarrow> bool"
  e_addr :: "nat \<Rightarrow> eth_addr"
  e_name :: "nat \<Rightarrow> u8 list"
  e_features :: "nat \<Rightarrow> nat \<Rightarrow> u32"
  e_flags_up :: "nat \<Rightarrow> bool option"
  e_link :: "nat \<Rightarrow> int"
  e_rconn :: "u8 list \<Rightarrow> int"
  e_desc :: "nat \<Rightarrow> u8 list"
  e_mtu :: "nat \<Rightarrow> nat"
  e_recv :: "nat \<Rightarrow> int + u8 list"
  e_msgs :: "nat \<Rightarrow> u8 list list"
  e_txq_room :: "nat \<Rightarrow> nat \<Rightarrow> bool"
  e_alive :: "nat \<Rightarrow> bool"
  e_accept :: nat
  e_alloc_remote :: "nat list \<Rightarrow> nat"

definition log_event :: "dp_event \<Rightarrow> datapath \<Rightarrow> datapath" where
  "log_event e dp = dp\<lparr>events := events dp @ [e]\<rparr>"

definition update_port :: "nat \<Rightarrow> (sw_port \<Rightarrow> sw_port) \<Rightarrow> datapath \<Rightarrow> datapath" where
  "update_port i f dp = dp\<lparr>dp_ports := (dp_ports dp)[i := f (dp_ports dp ! i)]\<rparr>"


section \<open>Packet buffers\<close>

abbreviation (input) PKT_BUFFER_MASK :: u32 where "PKT_BUFFER_MASK \<equiv> 0xff"
abbreviation (input) PKT_BUFFER_BITS :: nat where "PKT_BUFFER_BITS \<equiv> 8"

definition save_buffer :: "dp_env \<Rightarrow> ofpbuf \<Rightarrow> datapath \<Rightarrow> u32 \<times> datapath" where
  "save_buffer env b dp =
     (let idx = (buffer_idx dp + 1) AND PKT_BUFFER_MASK;
          p = buffers dp ! unat idx;
          cookie = (if pb_cookie p + 1 \<ge> 0xffffff then 0 else pb_cookie p + 1);
          p = \<lparr>pb_buffer = Some (ofpbuf_clone (e_junk env) b), pb_cookie = cookie, pb_timeout = e_now env + 1\<rparr>
      in (idx OR push_bit PKT_BUFFER_BITS cookie,
          dp\<lparr>buffer_idx := idx, buffers := (buffers dp)[unat idx := p]\<rparr>))"

definition retrieve_buffer :: "u32 \<Rightarrow> datapath \<Rightarrow> ofpbuf option \<times> datapath" where
  "retrieve_buffer bid dp =
     (let i = unat (bid AND PKT_BUFFER_MASK); p = buffers dp ! i in
      if pb_cookie p = drop_bit PKT_BUFFER_BITS bid
      then (pb_buffer p, dp\<lparr>buffers := (buffers dp)[i := p\<lparr>pb_buffer := None\<rparr>]\<rparr>)
      else (None, dp))"

definition discard_buffer :: "u32 \<Rightarrow> datapath \<Rightarrow> datapath" where
  "discard_buffer bid dp =
     (let i = unat (bid AND PKT_BUFFER_MASK); p = buffers dp ! i in
      if pb_cookie p = drop_bit PKT_BUFFER_BITS bid
      then dp\<lparr>buffers := (buffers dp)[i := p\<lparr>pb_buffer := None\<rparr>]\<rparr>
      else dp)"


section \<open>Output\<close>

definition update_openflow_length :: "ofpbuf \<Rightarrow> ofpbuf option" where
  "update_openflow_length b = do { p \<leftarrow> ofpbuf_at_assert b 0 8; st16 (p + 2) (htons (of_nat (bsize b))) b }"

text \<open>
  A message is logged when the connection \<open>remote\<close> (0 for the controller) takes it; a connection that was
  closed is a pointer to freed memory.
\<close>

definition send_openflow_buffer :: "dp_env \<Rightarrow> nat \<Rightarrow> ofpbuf \<Rightarrow> datapath \<Rightarrow> (int \<times> datapath) option" where
  "send_openflow_buffer env remote b dp =
     (if remote \<in> set (remotes dp) then do {
        b \<leftarrow> update_openflow_length b;
        let retval = e_rconn env (contents b);
        Some (retval, if retval = 0 then log_event (Rconn_Send remote (contents b)) dp else dp)
      } else None)"

definition packet_in_header :: "nat \<Rightarrow> u32 \<Rightarrow> nat \<Rightarrow> u16 \<Rightarrow> u8 \<Rightarrow> u8 list" where
  "packet_in_header len buffer_id total_len port rsn =
     [OFP_VERSION, OFPT_PACKET_IN] @ bytes16 (htons (of_nat len)) @ bytes32 (htonl 0) @ bytes32 (htonl buffer_id) @
     bytes16 (htons (of_nat total_len)) @ bytes16 (htons port) @ [rsn, 0]"

definition dp_output_control :: "dp_env \<Rightarrow> ofpbuf \<Rightarrow> u16 \<Rightarrow> nat \<Rightarrow> u8 \<Rightarrow> datapath \<Rightarrow> datapath option" where
  "dp_output_control env b port max_len rsn dp = do {
     let (buffer_id, dp) = save_buffer env b dp;
     let total_len = bsize b;
     let b = (if buffer_id \<noteq> - 1 \<and> max_len \<noteq> 0 \<and> max_len < bsize b then b\<lparr>bsize := max_len\<rparr> else b);
     b \<leftarrow> ofpbuf_push_uninit 18 b;
     b \<leftarrow> stn (bdata b) (packet_in_header (bsize b) buffer_id total_len port rsn) b;
     (retval, dp) \<leftarrow> send_openflow_buffer env 0 b dp;
     Some dp
   }"

definition output_packet :: "dp_env \<Rightarrow> ofpbuf \<Rightarrow> u32 \<Rightarrow> datapath \<Rightarrow> datapath" where
  "output_packet env b out_port dp =
     (let i = unat out_port; p = dp_ports dp ! i in
      if i < DP_MAX_PORTS \<and> sp_netdev p \<noteq> None \<and> \<not> bit (sp_config p) 0 then
        (if e_send env (the (sp_netdev p)) (contents b)
         then log_event (Netdev_Send (the (sp_netdev p)) (contents b))
           (update_port i (\<lambda>p. p\<lparr>tx_packets := tx_packets p + 1, tx_bytes := tx_bytes p + of_nat (bsize b)\<rparr>) dp)
         else update_port i (\<lambda>p. p\<lparr>tx_dropped := tx_dropped p + 1\<rparr>) dp)
      else dp)"

type_synonym port_output = "ofpbuf \<Rightarrow> u16 \<Rightarrow> u32 \<Rightarrow> bool \<Rightarrow> datapath \<Rightarrow> datapath option"

text \<open>
  The loop of \<open>output_all\<close> over the list of ports, with the pending port; \<open>out\<close> is \<open>dp_output_port\<close>.
\<close>

fun output_all_loop :: "port_output \<Rightarrow> (nat \<Rightarrow> u8) \<Rightarrow> ofpbuf \<Rightarrow> u16 \<Rightarrow> bool \<Rightarrow> nat list \<Rightarrow> nat option
    \<Rightarrow> datapath \<Rightarrow> datapath option" where
  "output_all_loop out junk b port flood [] prev_port dp =
     (case prev_port of None \<Rightarrow> Some dp | Some q \<Rightarrow> out b port (of_nat q) False dp)"
| "output_all_loop out junk b port flood (i # is) prev_port dp =
     (if i = unat port then output_all_loop out junk b port flood is prev_port dp
      else if flood \<and> bit (sp_config (dp_ports dp ! i)) 4 then output_all_loop out junk b port flood is prev_port dp
      else do {
        dp \<leftarrow> (case prev_port of None \<Rightarrow> Some dp | Some q \<Rightarrow> out (ofpbuf_clone junk b) port (of_nat q) False dp);
        output_all_loop out junk b port flood is (Some i) dp
      })"

definition output_all :: "port_output \<Rightarrow> dp_env \<Rightarrow> ofpbuf \<Rightarrow> u16 \<Rightarrow> bool \<Rightarrow> datapath \<Rightarrow> datapath option" where
  "output_all out env b port flood dp = output_all_loop out (e_junk env) b port flood (port_list dp) None dp"

text \<open>\<open>do_output\<close> of \<open>dp_act.c\<close>, over the \<open>dp_output_port\<close> it calls.\<close>

definition do_output :: "port_output \<Rightarrow> dp_env \<Rightarrow> datapath output_fun" where
  "do_output out env b port max_len out_port ignore_no_fwd dp =
     (if out_port \<noteq> OFPP_CONTROLLER then out b port out_port ignore_no_fwd dp
      else dp_output_control env b port max_len OFPR_ACTION dp)"


section \<open>The pipeline\<close>

definition stp_eth_addr :: eth_addr where
  "stp_eth_addr = Eth 0x01 0x80 0xC2 0 0 0"

text \<open>The key of a packet; everything but the flow is left to the stack where the code does not set it.\<close>

definition packet_sw_key :: "dp_env \<Rightarrow> u32 \<Rightarrow> flow \<Rightarrow> sw_flow_key" where
  "packet_sw_key env w f = \<lparr>key_flow = f, wildcards = w, nw_src_mask = e_stack env, nw_dst_mask = e_stack env\<rparr>"

definition port_arg :: "nat option \<Rightarrow> u16" where
  "port_arg p = (case p of Some i \<Rightarrow> of_nat i | None \<Rightarrow> 0xffff)"

definition drops_fragments :: "datapath \<Rightarrow> bool" where
  "drops_fragments dp \<longleftrightarrow> dp_flags dp AND 6 = 2"

definition no_recv :: "nat option \<Rightarrow> flow \<Rightarrow> datapath \<Rightarrow> bool" where
  "no_recv p f dp \<longleftrightarrow> (case p of None \<Rightarrow> False | Some i \<Rightarrow>
     let c = sp_config (dp_ports dp ! i) in
     (bit c 2 \<or> bit c 3) \<and> (if \<not> eth_addr_equals (dl_dst f) stp_eth_addr then bit c 2 else bit c 3))"

text \<open>The TTL test on what the code takes for an MPLS label; \<open>Some True\<close> means that it is 1.\<close>

definition mpls_ttl_out :: "ofpbuf \<Rightarrow> bool option" where
  "mpls_ttl_out b = (case l2_5 b of None \<Rightarrow> Some False | Some q \<Rightarrow> do { v \<leftarrow> ld32 b q; Some (mpls_ttl (ntohl v) = 1) })"

definition run_flow :: "port_output \<Rightarrow> dp_env \<Rightarrow> ofpbuf \<Rightarrow> sw_flow_key \<Rightarrow> addr \<Rightarrow> datapath \<Rightarrow> datapath option" where
  "run_flow out env b k a dp =
     (let dp = dp\<lparr>dp_heap := (dp_heap dp)(a \<mapsto> flow_used (e_now env) (bsize b) (fl (dp_heap dp) a))\<rparr> in
      execute_actions (do_output out env) (e_junk env) (e_stack env) b k (sf_acts (fl (dp_heap dp) a)) False dp)"

definition run_flow_through_tables :: "port_output \<Rightarrow> dp_env \<Rightarrow> ofpbuf \<Rightarrow> nat option \<Rightarrow> datapath
    \<Rightarrow> (int \<times> ofpbuf \<times> datapath) option" where
  "run_flow_through_tables out env b p dp = do {
     (frag, b, f) \<leftarrow> flow_extract b (port_arg p);
     if frag \<and> drops_fragments dp then Some (0, b, dp)
     else do {
       ttl_out \<leftarrow> mpls_ttl_out b;
       if ttl_out then do {
         i \<leftarrow> p;
         Some (0, b, update_port i (\<lambda>p. p\<lparr>mpls_ttl0_dropped := mpls_ttl0_dropped p + 1\<rparr>) dp)
       }
       else if no_recv p f dp then Some (0, b, dp)
       else do {
         let k = packet_sw_key env 0 f;
         (r, c) \<leftarrow> chain_lookup (dp_heap dp) (dp_chain dp) k;
         let dp = dp\<lparr>dp_chain := c\<rparr>;
         (case r of
            None \<Rightarrow> Some (- ESRCH, b, dp)
          | Some a \<Rightarrow> do { dp \<leftarrow> run_flow out env b k a dp; Some (0, b, dp) })
       }
     }
   }"

text \<open>The loop of \<open>run_through_vport_table\<close> along the parent pointers, at most \<open>n\<close> of them.\<close>

fun vport_loop :: "port_output \<Rightarrow> dp_env \<Rightarrow> nat option \<Rightarrow> sw_flow_key \<Rightarrow> nat \<Rightarrow> addr option \<Rightarrow> ofpbuf \<Rightarrow> datapath
    \<Rightarrow> datapath option" where
  "vport_loop out env p k n None b dp = Some dp"
| "vport_loop out env p k 0 (Some a) b dp = None"
| "vport_loop out env p k (Suc n) (Some a) b dp = do {
     vpe \<leftarrow> vport_heap dp a;
     (b, dp) \<leftarrow> execute_vport_actions (do_output out env) (e_junk env) (e_stack env) b k (port_acts vpe) dp;
     vpe \<leftarrow> vport_heap dp a;
     let dp = dp\<lparr>vport_heap := (vport_heap dp)(a \<mapsto> vport_used (bsize b) vpe)\<rparr>;
     dp \<leftarrow> (case parent_port_ptr vpe of
        None \<Rightarrow> if parent_port vpe \<le> OFPP_VP_START then out b (port_arg p) (parent_port vpe) False dp else Some dp
      | Some q \<Rightarrow> Some (dp\<lparr>vport_table := (vport_table dp)\<lparr>chain_match_count := chain_match_count (vport_table dp) + 1\<rparr>\<rparr>));
     vport_loop out env p k n (parent_port_ptr vpe) b dp
   }"

definition run_through_vport_table :: "port_output \<Rightarrow> dp_env \<Rightarrow> nat \<Rightarrow> ofpbuf \<Rightarrow> nat option \<Rightarrow> u32 \<Rightarrow> datapath
    \<Rightarrow> datapath option" where
  "run_through_vport_table out env n b p v dp = do {
     (frag, b, f) \<leftarrow> flow_extract b (port_arg p);
     if frag \<and> drops_fragments dp then Some dp
     else do {
       let vpe = vport_table_lookup (vport_table dp) v;
       let t = (vport_table dp)\<lparr>lookup_count := lookup_count (vport_table dp) + 1\<rparr>;
       let t = (if vpe \<noteq> None then t\<lparr>port_match_count := port_match_count t + 1\<rparr> else t);
       vport_loop out env p (packet_sw_key env 0 f) n vpe b (dp\<lparr>vport_table := t\<rparr>)
     }
   }"

text \<open>
  \<open>dp_output_port\<close>.  The number bounds the depth of nested outputs and the parent pointers followed; a
  nested output beyond that depth is left to \<open>stop\<close>, so that a recursion that goes on (the result depends
  on \<open>stop\<close>) is told from an access error or a failed assertion (\<open>None\<close> whatever \<open>stop\<close> is).
\<close>

primrec dp_output_port_from :: "port_output \<Rightarrow> dp_env \<Rightarrow> nat \<Rightarrow> port_output" where
  "dp_output_port_from stop env 0 b port out_port ignore_no_fwd dp = stop b port out_port ignore_no_fwd dp"
| "dp_output_port_from stop env (Suc n) b port out_port ignore_no_fwd dp =
     (if out_port = OFPP_FLOOD then output_all (dp_output_port_from stop env n) env b port True dp
      else if out_port = OFPP_ALL then output_all (dp_output_port_from stop env n) env b port False dp
      else if out_port = OFPP_CONTROLLER then dp_output_control env b port 0 OFPR_ACTION dp
      else if out_port = OFPP_IN_PORT then Some (output_packet env b (ucast port) dp)
      else if out_port = OFPP_TABLE then do {
        (retval, b, dp) \<leftarrow> run_flow_through_tables (dp_output_port_from stop env n) env b
          (if unat port < DP_MAX_PORTS then Some (unat port) else None) dp;
        Some dp
      }
      else if OFPP_VP_START \<le> out_port \<and> out_port \<le> OFPP_VP_END then
        run_through_vport_table (dp_output_port_from stop env n) env n b
          (if unat port < DP_MAX_PORTS then Some (unat port) else None) out_port dp
      else if ucast port = out_port then Some dp
      else Some (output_packet env b out_port dp))"

definition dp_output_port :: "dp_env \<Rightarrow> nat \<Rightarrow> port_output" where
  "dp_output_port = dp_output_port_from (\<lambda>b port out_port ignore_no_fwd dp. None)"

definition fwd_port_input :: "dp_env \<Rightarrow> nat \<Rightarrow> ofpbuf \<Rightarrow> nat option \<Rightarrow> datapath \<Rightarrow> datapath option" where
  "fwd_port_input env n b p dp = do {
     (retval, b, dp) \<leftarrow> run_flow_through_tables (dp_output_port env n) env b p dp;
     if retval \<noteq> 0 then do {
       i \<leftarrow> p;
       dp_output_control env b (of_nat i) (unat (miss_send_len dp)) OFPR_NO_MATCH dp
     } else Some dp
   }"


section \<open>The invariant\<close>

text \<open>The flow tables and the entries they own: every allocated entry is in exactly one table.\<close>

definition flows_inv :: "fheap \<Rightarrow> sw_chain \<Rightarrow> bool" where
  "flows_inv h c \<longleftrightarrow> chain_inv h c \<and> acts_valid h \<and> dom h = chain_flows c"

definition buffers_inv :: "datapath \<Rightarrow> bool" where
  "buffers_inv dp \<longleftrightarrow> length (buffers dp) = 256 \<and> buffer_idx dp < 256 \<and> (\<forall>p \<in> set (buffers dp). pb_cookie p < 0xffffff)"

definition ports_inv :: "datapath \<Rightarrow> bool" where
  "ports_inv dp \<longleftrightarrow> length (dp_ports dp) = DP_MAX_PORTS \<and> distinct (port_list dp) \<and>
     (\<forall>i \<in> set (port_list dp). i < DP_MAX_PORTS \<and> sp_netdev (dp_ports dp ! i) \<noteq> None)"

text \<open>A reply in progress has the state that belongs to its kind, and goes to the connection that asked for it.\<close>

definition cb_ok :: "stats_dump_cb \<Rightarrow> bool" where
  "cb_ok cb \<longleftrightarrow> (case cb_state cb of
     No_State \<Rightarrow> cb_type cb \<in> {0, 3, 5}
   | Flow_State s \<Rightarrow> cb_type cb = 1 \<and> length (fs_rq s) = 48
   | Aggregate_State rq \<Rightarrow> cb_type cb = 2 \<and> length rq = 48
   | Port_State ports \<Rightarrow> cb_type cb = 4)"

definition dumps_inv :: "nat list \<Rightarrow> (nat \<rightharpoonup> stats_dump_cb) \<Rightarrow> bool" where
  "dumps_inv rs dumps \<longleftrightarrow> distinct rs \<and> dom dumps \<subseteq> set rs \<and>
     (\<forall>r cb. dumps r = Some cb \<longrightarrow> cb_ok cb \<and> s_remote (cb_sender cb) = r)"

definition dp_inv :: "datapath \<Rightarrow> bool" where
  "dp_inv dp \<longleftrightarrow> flows_inv (dp_heap dp) (dp_chain dp) \<and> buffers_inv dp \<and> ports_inv dp \<and>
     vport_inv (vport_heap dp) (vport_table dp) \<and> dumps_inv (remotes dp) (cb_dump dp)"

text \<open>The invariant together with the list of connections, which nothing but \<open>dp_run\<close> changes.\<close>

definition dp_inv_at :: "nat list \<Rightarrow> datapath \<Rightarrow> bool" where
  "dp_inv_at rs dp \<longleftrightarrow> dp_inv dp \<and> rs = remotes dp"

lemmas inv_defs = dp_inv_at_def dp_inv_def buffers_inv_def ports_inv_def

lemma log_event_inv [simp]: "dp_inv_at rs (log_event e dp) = dp_inv_at rs dp"
  by (simp add: log_event_def inv_defs)

lemma update_port_inv:
  assumes "dp_inv_at rs dp" and "\<And>p. sp_netdev (f p) = sp_netdev p"
  shows "dp_inv_at rs (update_port i f dp)"
  using assms by (cases "i < length (dp_ports dp)") (auto simp: inv_defs update_port_def nth_list_update_if)

lemma set_list_update_elim: "x \<in> set (xs[i := y]) \<Longrightarrow> x = y \<or> x \<in> set xs"
  using set_update_subset_insert by fastforce

lemma save_buffer_inv:
  assumes "dp_inv_at rs dp" and "save_buffer env b dp = (bid, dp')"
  shows "dp_inv_at rs dp'"
proof -
  have idx: "((buffer_idx dp + 1) AND 0xff) < (256 :: u32)"
    using and_mask_less' [of 8 "buffer_idx dp + 1"] by (simp add: mask_eq_exp_minus_1)
  show ?thesis
    using assms idx unfolding save_buffer_def Let_def by (auto simp: inv_defs not_le dest!: set_list_update_elim)
qed

lemma clear_buffer_inv: "dp_inv_at rs dp \<Longrightarrow> dp_inv_at rs (dp\<lparr>buffers := (buffers dp)[i := (buffers dp ! i)\<lparr>pb_buffer := None\<rparr>]\<rparr>)"
  by (cases "i < length (buffers dp)")
    (auto simp: inv_defs list_update_beyond not_less dest!: set_list_update_elim)

lemma retrieve_buffer_inv: "dp_inv_at rs dp \<Longrightarrow> retrieve_buffer bid dp = (r, dp') \<Longrightarrow> dp_inv_at rs dp'"
  by (auto simp: retrieve_buffer_def Let_def clear_buffer_inv split: if_splits)

lemma discard_buffer_inv: "dp_inv_at rs dp \<Longrightarrow> dp_inv_at rs (discard_buffer bid dp)"
  by (simp add: discard_buffer_def Let_def clear_buffer_inv)

lemma output_packet_inv: "dp_inv_at rs dp \<Longrightarrow> dp_inv_at rs (output_packet env b out_port dp)"
  by (simp add: output_packet_def Let_def update_port_inv)

lemma send_openflow_buffer_inv: "dp_inv_at rs dp \<Longrightarrow> send_openflow_buffer env r b dp = Some (v, dp') \<Longrightarrow> dp_inv_at rs dp'"
  by (auto simp: send_openflow_buffer_def Let_def split: bind_splits if_splits)

lemma dp_output_control_inv:
  assumes "dp_inv_at rs dp" and "dp_output_control env b port m r dp = Some dp'"
  shows "dp_inv_at rs dp'"
proof -
  obtain bid dp1 where s: "save_buffer env b dp = (bid, dp1)" by fastforce
  then show ?thesis
    using assms(2) save_buffer_inv [OF assms(1) s]
    by (auto simp: dp_output_control_def Let_def dest: send_openflow_buffer_inv split: bind_splits)
qed


subsection \<open>The flow tables\<close>

lemma flows_inv_tables: "flows_inv h c \<longleftrightarrow> tables_inv h (tables c) \<and> acts_valid h \<and> dom h = tables_flows (tables c)"
  by (simp add: flows_inv_def chain_inv_def chain_flows_def)

lemma flows_inv_lookup:
  assumes "flows_inv h c" and "chain_lookup h c k = Some (r, c')"
  shows "flows_inv h c'" and "packet_key k \<Longrightarrow> r = Some a \<Longrightarrow> a \<in> dom h \<and> flow_matches_1wild k (key (fl h a))"
proof -
  obtain ts where ts: "chain_lookup_loop h k (tables c) = (r, ts)" "tables c' = ts"
    using assms(2) by (auto simp: chain_lookup_def split: if_splits prod.splits)
  show "flows_inv h c'" using chain_lookup_loop_tables [OF ts(1)] assms(1) ts(2) by (auto simp: flows_inv_tables)
  show "a \<in> dom h \<and> flow_matches_1wild k (key (fl h a))" if "packet_key k" "r = Some a"
    using chain_lookup_sound [of h "tables c" k a] ts that assms(1) by (simp add: flows_inv_tables)
qed

lemma flows_inv_entry:
  assumes "flows_inv h c" and "a \<in> dom h" and "same_entry f (fl h a)" and "acts_ok (sf_acts f)"
  shows "flows_inv (h(a \<mapsto> f)) c"
proof -
  have tinv: "tables_inv h (tables c)" using assms(1) by (simp add: flows_inv_tables)
  have "tables_inv (h(a \<mapsto> f)) (tables c)"
  proof (rule tables_inv_cong [OF tinv])
    fix b assume "b \<in> tables_flows (tables c)"
    then have "b \<in> dom h" using tables_flows_dom [OF tinv] by blast
    then show "b \<in> dom (h(a \<mapsto> f)) \<and> same_entry (fl (h(a \<mapsto> f)) b) (fl h b)"
      using assms(3) by (simp add: same_entry_def)
  qed
  moreover have "dom (h(a \<mapsto> f)) = dom h" using assms(2) by auto
  ultimately show ?thesis using assms by (auto simp: flows_inv_tables acts_valid_def)
qed

lemma flows_inv_used:
  assumes "flows_inv h c" and "a \<in> dom h"
  shows "flows_inv (h(a \<mapsto> flow_used now n (fl h a))) c"
proof (rule flows_inv_entry [OF assms])
  show "acts_ok (sf_acts (flow_used now n (fl h a)))"
    using assms by (simp add: flow_used_def flows_inv_def acts_valid_def)
qed (simp add: same_entry_def flow_used_def)

lemma flows_inv_insert:
  assumes inv: "flows_inv h c" and a: "a \<notin> dom h" and f: "key_wf (key f)" "acts_ok (sf_acts f)"
    and ins: "chain_insert (h(a \<mapsto> f)) c a = (e, h', c')"
  shows "e = 0 \<Longrightarrow> flows_inv h' c' \<and> a \<in> dom h'" and "e \<noteq> 0 \<Longrightarrow> flows_inv (flow_free a h') c'"
proof -
  let ?h = "h(a \<mapsto> f)" and ?ts = "tables c"
  obtain ts where ts: "chain_insert_loop ?h ?ts a = (e, h', ts)" "c' = c\<lparr>tables := ts\<rparr>"
    using ins by (auto simp: chain_insert_def split: prod.splits)
  have dom: "dom h = tables_flows ?ts" and acts: "acts_valid h" and tinv: "tables_inv h ?ts"
    using inv by (auto simp: flows_inv_tables)
  have "tables_inv ?h ?ts" using a dom by (intro tables_inv_frame [OF tinv]) auto
  moreover have "a \<in> dom ?h" "a \<notin> tables_flows ?ts" "key_wf (key (fl ?h a))" using a dom f by auto
  ultimately have r: "tables_inv h' ts" "if e = 0 then a \<in> tables_flows ts \<and> tables_flows ts \<subseteq> insert a (tables_flows ?ts) \<and>
       (\<exists>s. h' = (?h |` (- (tables_flows ?ts - tables_flows ts)))(a \<mapsto> (fl ?h a)\<lparr>serial := s\<rparr>))
     else e = - ENOBUFS \<and> h' = ?h \<and> ts = ?ts"
    using chain_insert_loop_ok [OF _ _ _ _ ts(1)] by blast+
  show "flows_inv h' c' \<and> a \<in> dom h'" if e0: "e = 0"
  proof -
    obtain s where s: "a \<in> tables_flows ts" "tables_flows ts \<subseteq> insert a (tables_flows ?ts)"
      "h' = (?h |` (- (tables_flows ?ts - tables_flows ts)))(a \<mapsto> f\<lparr>serial := s\<rparr>)"
      using r(2) unfolding if_P [OF e0] fl_upd if_P [OF refl] by blast
    have "dom h' = insert a (insert a (dom h) \<inter> - (tables_flows ?ts - tables_flows ts))" using s(3) by auto
    then have "dom h' = tables_flows ts" using s(1,2) dom by auto
    moreover have "acts_valid h'"
      using acts f(2) s(3) unfolding acts_valid_def by (auto simp: fl_def restrict_map_def split: if_splits)
    ultimately show ?thesis using r(1) ts(2) s(1) by (simp add: flows_inv_tables)
  qed
  show "flows_inv (flow_free a h') c'" if "e \<noteq> 0"
  proof -
    have "flow_free a h' = h" "ts = ?ts" using r(2) that a by (auto simp: flow_free_def fun_upd_idem)
    then show ?thesis using inv ts(2) by simp
  qed
qed

lemma flows_inv_modify:
  assumes inv: "flows_inv h c" and "key_wf k" and acts: "acts_ok acts"
    and mod: "chain_modify ok h c k prio strict acts = (n, h')"
  shows "flows_inv h' c"
proof -
  have tinv: "tables_inv h (tables c)" and dom: "dom h = tables_flows (tables c)" and valid: "acts_valid h"
    using inv by (auto simp: flows_inv_tables)
  note loop = mod [unfolded chain_modify_def]
  note h' = chain_modify_loop_heap [OF tinv assms(2) loop]
  have "dom h' = dom h"
  proof (intro set_eqI)
    fix a show "a \<in> dom h' \<longleftrightarrow> a \<in> dom h" using h' [of a] dom by (auto simp: domIff split: if_splits)
  qed
  moreover have "acts_valid h'"
    using valid acts tables_flows_dom [OF tinv] unfolding acts_valid_def fl_def
    by (auto simp: h' fl_def flow_replace_acts_def domIff subset_iff split: if_splits)
  ultimately show ?thesis using chain_modify_inv [OF tinv assms(2) loop] dom by (simp add: flows_inv_tables)
qed

lemma flows_inv_delete:
  assumes inv: "flows_inv h c" and "key_wf k"
  obtains n h' c' where "chain_delete h c k out_port prio strict = Some (n, h', c')" "flows_inv h' c'"
proof -
  have tinv: "tables_inv h (tables c)" and dom: "dom h = tables_flows (tables c)" and valid: "acts_valid h"
    using inv by (auto simp: flows_inv_tables)
  obtain n h' ts where ts: "chain_delete_loop (tables c) k out_port prio strict 0 h = Some (n, h', ts)"
    "tables_inv h' ts" "tables_flows ts \<subseteq> tables_flows (tables c)"
    "h' = h |` (- (tables_flows (tables c) - tables_flows ts))"
    using chain_delete_loop_ok [OF tinv valid assms(2), of out_port prio strict 0] by blast
  have "flows_inv h' (c\<lparr>tables := ts\<rparr>)"
    using ts(2,3) dom acts_valid_restrict [OF valid, of "tables_flows (tables c) - tables_flows ts"]
    unfolding flows_inv_tables ts(4) by auto
  then show thesis using that ts(1) by (simp add: chain_delete_def)
qed


subsection \<open>Sending keeps the invariant\<close>

text \<open>
  The contract between the code that runs actions and the function it outputs packets with: the output
  keeps a property of the state.
\<close>

locale output_keeps =
  fixes out :: "'s output_fun" and inv :: "'s \<Rightarrow> bool"
  assumes out_keeps: "inv s \<Longrightarrow> out b port m out_port ign s = Some s' \<Longrightarrow> inv s'"
begin

lemma execute_actions_loop_keeps:
  "inv s \<Longrightarrow> execute_actions_loop out junk h0 port ign p prev m b k s = Some s' \<Longrightarrow> inv s'"
proof (induction p arbitrary: prev m b k s rule: measure_induct_rule [where f = length])
  case (less p)
  show ?case
  proof (cases "p = []")
    case True
    then show ?thesis
      using less.prems out_keeps by (auto simp: execute_actions_loop.simps [of _ _ _ _ _ "[]"] split: if_splits)
  next
    case False
    note step = less.prems(2) [unfolded execute_actions_loop.simps [of _ _ _ _ _ p] Let_def]
    obtain s1 where s1: "inv s1"
      "(if prev \<noteq> - 1 then out (ofpbuf_clone junk b) port m prev ign s else Some s) = Some s1"
      using step less.prems(1) False out_keeps by (auto split: if_splits bind_splits)
    obtain prev' m' b' k' where
      "execute_actions_loop out junk h0 port ign (drop (act_len p) p) prev' m' b' k' s1 = Some s'"
      "length (drop (act_len p) p) < length p"
      using step False unfolding s1(2) by (auto split: if_splits bind_splits)
    then show ?thesis using less.IH s1(1) by blast
  qed
qed

lemma execute_vport_actions_loop_keeps:
  "inv s \<Longrightarrow> execute_vport_actions_loop out junk h0 port p prev m b k s = Some (b', s') \<Longrightarrow> inv s'"
proof (induction p arbitrary: prev m b s rule: measure_induct_rule [where f = length])
  case (less p)
  show ?case
  proof (cases "p = []")
    case True
    then show ?thesis
      using less.prems out_keeps
      by (auto simp: execute_vport_actions_loop.simps [of _ _ _ _ "[]"] split: if_splits bind_splits)
  next
    case False
    note step = less.prems(2) [unfolded execute_vport_actions_loop.simps [of _ _ _ _ p] Let_def]
    obtain s1 where s1: "inv s1"
      "(if prev \<noteq> - 1 then out (ofpbuf_clone junk b) port m prev False s else Some s) = Some s1"
      using step less.prems(1) False out_keeps by (auto split: if_splits bind_splits)
    obtain prev' m' b2 where
      "execute_vport_actions_loop out junk h0 port (drop (act_len p) p) prev' m' b2 k s1 = Some (b', s')"
      "length (drop (act_len p) p) < length p"
      using step False unfolding s1(2) by (auto split: if_splits bind_splits)
    then show ?thesis using less.IH s1(1) by blast
  qed
qed

lemma execute_vport_actions_keeps:
  "inv s \<Longrightarrow> execute_vport_actions out junk h0 b k acts s = Some (b', s') \<Longrightarrow> inv s'"
  unfolding execute_vport_actions_def by (rule execute_vport_actions_loop_keeps)

lemma execute_actions_keeps:
  "inv s \<Longrightarrow> execute_actions out junk h0 b k acts ign s = Some s' \<Longrightarrow> inv s'"
  unfolding execute_actions_def by (rule execute_actions_loop_keeps)

end


lemma vport_used_inv:
  assumes "vport_inv h t" and "h a = Some e"
  shows "vport_inv (h(a \<mapsto> vport_used n e)) t"
proof -
  have "\<exists>x. (h(a \<mapsto> vport_used n e)) b = Some x \<and> vport x = vport y \<and> port_acts x = port_acts y" if "h b = Some y" for b y
    using that assms(2) by (auto simp: vport_used_def)
  then show ?thesis using assms(1) unfolding vport_inv_def by metis
qed

lemma vport_counters_inv [simp]:
  "vport_inv h (t\<lparr>lookup_count := x\<rparr>) = vport_inv h t" "vport_inv h (t\<lparr>port_match_count := x\<rparr>) = vport_inv h t"
  "vport_inv h (t\<lparr>chain_match_count := x\<rparr>) = vport_inv h t"
  by (simp_all add: vport_inv_def)

lemma dp_inv_vport_heap:
  "dp_inv_at rs dp \<Longrightarrow> vport_heap dp a = Some e \<Longrightarrow> dp_inv_at rs (dp\<lparr>vport_heap := (vport_heap dp)(a \<mapsto> vport_used n e)\<rparr>)"
  by (simp add: inv_defs vport_used_inv)

lemma dp_inv_vport_table: "vport_inv (vport_heap dp) t \<Longrightarrow> dp_inv_at rs dp \<Longrightarrow> dp_inv_at rs (dp\<lparr>vport_table := t\<rparr>)"
  by (simp add: inv_defs)

lemma extract_reserved:
  "extract_vlan f b = Some (f', b') \<Longrightarrow> reserved f' = reserved f"
  "extract_mpls f b = Some (f', b') \<Longrightarrow> reserved f' = reserved f"
  "extract_tp f p b = Some (p', f') \<Longrightarrow> reserved f' = reserved f"
  "extract_nw f p b = Some (r, p', f') \<Longrightarrow> reserved f' = reserved f"
proof -
  show "extract_vlan f b = Some (f', b') \<Longrightarrow> reserved f' = reserved f"
    by (auto simp: extract_vlan_def split: if_splits bind_splits option.splits)
  show "extract_mpls f b = Some (f', b') \<Longrightarrow> reserved f' = reserved f"
    by (auto simp: extract_mpls_def Let_def split: if_splits bind_splits option.splits)
  show tp: "extract_tp f p b = Some (p', f') \<Longrightarrow> reserved f' = reserved f" for f p b p' f'
    by (auto simp: extract_tp_def split: if_splits bind_splits option.splits)
  show "extract_nw f p b = Some (r, p', f') \<Longrightarrow> reserved f' = reserved f"
    by (auto simp: extract_nw_def Let_def dest!: tp split: if_splits bind_splits option.splits)
qed

lemma flow_extract_reserved:
  assumes "flow_extract b port = Some (frag, b', f)"
  shows "reserved f = 0"
  using assms unfolding flow_extract_def Let_def
  by (auto simp: zero_flow_def dest!: extract_reserved split: if_splits bind_splits option.splits)

locale port_output_keeps =
  fixes out :: port_output and env :: dp_env
  assumes port_out_keeps: "dp_inv_at rs dp \<Longrightarrow> out b port out_port ign dp = Some dp' \<Longrightarrow> dp_inv_at rs dp'"
begin

lemma do_output_keeps: "dp_inv_at rs dp \<Longrightarrow> do_output out env b port m out_port ign dp = Some dp' \<Longrightarrow> dp_inv_at rs dp'"
  by (auto simp: do_output_def dest: port_out_keeps dp_output_control_inv split: if_splits)

end

sublocale port_output_keeps \<subseteq> act: output_keeps "do_output out env" "dp_inv_at rs"
  by unfold_locales (rule do_output_keeps)

context port_output_keeps
begin

lemma output_all_loop_keeps:
  "dp_inv_at rs dp \<Longrightarrow> output_all_loop out junk b port flood is prev dp = Some dp' \<Longrightarrow> dp_inv_at rs dp'"
proof (induction "is" arbitrary: prev dp)
  case Nil
  then show ?case by (auto dest: port_out_keeps split: option.splits)
next
  case (Cons i "is")
  then show ?case by (auto dest: port_out_keeps split: option.splits if_splits bind_splits)
qed

lemma run_flow_inv:
  assumes inv: "dp_inv_at rs dp" and a: "a \<in> dom (dp_heap dp)" and run: "run_flow out env b k a dp = Some dp'"
  shows "dp_inv_at rs dp'"
proof -
  have "dp_inv_at rs (dp\<lparr>dp_heap := (dp_heap dp)(a \<mapsto> flow_used (e_now env) (bsize b) (fl (dp_heap dp) a))\<rparr>)"
    using inv a by (simp add: inv_defs flows_inv_used)
  then show ?thesis using run unfolding run_flow_def Let_def by (rule act.execute_actions_keeps)
qed

lemma run_flow_keeps:
  assumes inv: "dp_inv_at rs dp" and run: "run_flow_through_tables out env b p dp = Some (r, b', dp')"
  shows "dp_inv_at rs dp'"
proof -
  obtain frag b1 f where f: "flow_extract b (port_arg p) = Some (frag, b1, f)"
    using run by (auto simp: run_flow_through_tables_def split: bind_splits)
  let ?k = "packet_sw_key env 0 f"
  have k: "packet_key ?k" using flow_extract_reserved [OF f] by (simp add: packet_key_def packet_sw_key_def)
  note run' = run [unfolded run_flow_through_tables_def f Option.bind.simps prod.case Let_def]
  consider "dp' = dp" | i where "dp' = update_port i (\<lambda>p. p\<lparr>mpls_ttl0_dropped := mpls_ttl0_dropped p + 1\<rparr>) dp"
    | x c where "chain_lookup (dp_heap dp) (dp_chain dp) ?k = Some (x, c)"
      "(case x of None \<Rightarrow> Some (- ESRCH, b1, dp\<lparr>dp_chain := c\<rparr>)
        | Some a \<Rightarrow> do { dp \<leftarrow> run_flow out env b1 ?k a (dp\<lparr>dp_chain := c\<rparr>); Some (0, b1, dp) }) = Some (r, b', dp')"
    using run' by (auto split: if_splits bind_splits)
  then show ?thesis
  proof cases
    case 1
    then show ?thesis using inv by simp
  next
    case 2
    then show ?thesis using update_port_inv [OF inv] by simp
  next
    case (3 x c)
    have flows: "flows_inv (dp_heap dp) (dp_chain dp)" using inv by (simp add: dp_inv_at_def dp_inv_def)
    note lookup = flows_inv_lookup [OF flows 3(1)]
    show ?thesis
    proof (cases x)
      case None
      then show ?thesis using 3(2) lookup(1) inv by (auto simp: inv_defs)
    next
      case (Some a)
      have a: "a \<in> dom (dp_heap dp)" using lookup(2) [OF k Some] by simp
      have "dp_inv_at rs (dp\<lparr>dp_chain := c\<rparr>)" using inv lookup(1) by (simp add: inv_defs)
      then show ?thesis using 3(2) Some a by (auto dest!: run_flow_inv [rotated 2] split: bind_splits)
    qed
  qed
qed

lemma vport_loop_keeps:
  "dp_inv_at rs dp \<Longrightarrow> vport_loop out env p k n a b dp = Some dp' \<Longrightarrow> dp_inv_at rs dp'"
proof (induction n arbitrary: a b dp)
  case 0
  then show ?case by (cases a) simp_all
next
  case (Suc n)
  show ?case
  proof (cases a)
    case None
    then show ?thesis using Suc.prems by simp
  next
    case (Some a')
    obtain vpe b1 dp1 vpe1 where step: "vport_heap dp a' = Some vpe"
      "execute_vport_actions (do_output out env) (e_junk env) (e_stack env) b k (port_acts vpe) dp = Some (b1, dp1)"
      "vport_heap dp1 a' = Some vpe1"
      using Suc.prems(2) Some by (auto split: bind_splits)
    let ?dp = "dp1\<lparr>vport_heap := (vport_heap dp1)(a' \<mapsto> vport_used (bsize b1) vpe1)\<rparr>"
    have inv: "dp_inv_at rs ?dp"
      using act.execute_vport_actions_keeps [OF Suc.prems(1) step(2)] step(3) by (rule dp_inv_vport_heap)
    then have table: "dp_inv_at rs (?dp\<lparr>vport_table := (vport_table ?dp)\<lparr>chain_match_count := x\<rparr>\<rparr>)" for x
      by (intro dp_inv_vport_table) (simp_all add: dp_inv_at_def dp_inv_def)
    obtain dp2 where dp2: "vport_loop out env p k n (parent_port_ptr vpe1) b1 dp2 = Some dp'"
      "(case parent_port_ptr vpe1 of
          None \<Rightarrow> if parent_port vpe1 \<le> OFPP_VP_START then out b1 (port_arg p) (parent_port vpe1) False ?dp else Some ?dp
        | Some q \<Rightarrow> Some (?dp\<lparr>vport_table := (vport_table ?dp)\<lparr>chain_match_count := chain_match_count (vport_table ?dp) + 1\<rparr>\<rparr>)) = Some dp2"
      using Suc.prems(2) Some step by (auto simp: Let_def split: bind_splits)
    have "dp_inv_at rs dp2"
      using dp2(2) inv table by (auto dest: port_out_keeps split: option.splits if_splits)
    then show ?thesis using Suc.IH dp2(1) by blast
  qed
qed

lemma run_vport_keeps:
  assumes inv: "dp_inv_at rs dp" and run: "run_through_vport_table out env n b p v dp = Some dp'"
  shows "dp_inv_at rs dp'"
proof -
  have "vport_inv (vport_heap dp) (vport_table dp)" using inv by (simp add: dp_inv_at_def dp_inv_def)
  then have table: "dp_inv_at rs (dp\<lparr>vport_table := (vport_table dp)\<lparr>lookup_count := x\<rparr>\<rparr>)"
    "dp_inv_at rs (dp\<lparr>vport_table := (vport_table dp)\<lparr>lookup_count := x, port_match_count := y\<rparr>\<rparr>)" for x y
    using inv by (auto intro!: dp_inv_vport_table)
  show ?thesis
    using run inv vport_loop_keeps [OF table(1)] vport_loop_keeps [OF table(2)]
    unfolding run_through_vport_table_def Let_def by (auto simp: table split: bind_splits if_splits)
qed

end

lemma dp_output_port_inv: "dp_inv_at rs dp \<Longrightarrow> dp_output_port env n b port out_port ign dp = Some dp' \<Longrightarrow> dp_inv_at rs dp'"
  unfolding dp_output_port_def
proof (induction n arbitrary: rs b port out_port ign dp dp')
  case 0
  then show ?case by simp
next
  case (Suc n)
  have out: "port_output_keeps (dp_output_port_from (\<lambda>b port out_port ignore_no_fwd dp. None) env n)"
    by unfold_locales (rule Suc.IH)
  show ?case
    using Suc.prems
    by (auto simp: output_all_def intro: output_packet_inv
        dest: dp_output_control_inv port_output_keeps.output_all_loop_keeps [OF out]
          port_output_keeps.run_flow_keeps [OF out] port_output_keeps.run_vport_keeps [OF out]
        split: if_splits bind_splits)
qed

interpretation dpo: port_output_keeps "dp_output_port env n" env for env n
  by unfold_locales (rule dp_output_port_inv)

lemma fwd_port_input_inv:
  assumes inv: "dp_inv_at rs dp" and run: "fwd_port_input env n b p dp = Some dp'"
  shows "dp_inv_at rs dp'"
proof -
  obtain r b1 dp1 where r: "run_flow_through_tables (dp_output_port env n) env b p dp = Some (r, b1, dp1)"
    using run by (auto simp: fwd_port_input_def split: bind_splits)
  have "dp_inv_at rs dp1" using dpo.run_flow_keeps [OF inv r] .
  then show ?thesis
    using run r by (auto simp: fwd_port_input_def dest: dp_output_control_inv split: if_splits bind_splits)
qed



section \<open>Packet buffers as a ring\<close>

lemma unat_next_idx: "x < (256 :: u32) \<Longrightarrow> unat ((x + 1) AND PKT_BUFFER_MASK) = (unat x + 1) mod 256"
proof -
  assume idx: "x < 256"
  have m: "(0xff :: u32) = mask 8" by (simp add: mask_eq_exp_minus_1)
  have "unat x < 256" using idx by (simp add: word_less_nat_alt)
  then have "unat (x + 1) = unat x + 1" by (simp add: unat_word_ariths)
  moreover have "unat ((x + 1) AND mask 8) = take_bit 8 (unat (x + 1))"
    by (simp only: unsigned_take_bit_eq flip: take_bit_eq_mask)
  ultimately show ?thesis unfolding m by (simp add: take_bit_eq_mod)
qed

lemma bit_less_exp: "(x :: u32) < 2 ^ k \<Longrightarrow> bit x j \<Longrightarrow> j < k"
  by (metis bit_take_bit_iff less_mask_eq take_bit_eq_mask)

lemma buffer_id_parts:
  assumes "idx < (256 :: u32)" and "cookie < (0x1000000 :: u32)"
  shows "(idx OR push_bit 8 cookie) AND PKT_BUFFER_MASK = idx" and "drop_bit 8 (idx OR push_bit 8 cookie) = cookie"
proof -
  have m: "(0xff :: u32) = mask 8" by (simp add: mask_eq_exp_minus_1)
  have i: "bit idx j \<Longrightarrow> j < 8" for j using bit_less_exp [of idx 8 j] assms(1) by simp
  have c: "bit cookie j \<Longrightarrow> j < 24" for j using bit_less_exp [of cookie 24 j] assms(2) by simp
  show "(idx OR push_bit 8 cookie) AND PKT_BUFFER_MASK = idx"
    unfolding m by (rule bit_word_eqI) (auto simp: bit_simps dest: i)
  show "drop_bit 8 (idx OR push_bit 8 cookie) = cookie"
    by (rule bit_word_eqI) (auto simp: bit_simps dest: i c)
qed

lemma save_buffer_result:
  assumes "buffers_inv dp" and "save_buffer env b dp = (bid, dp')"
  obtains i c where "i = (unat (buffer_idx dp) + 1) mod 256" "unat (buffer_idx dp') = i" "buffers_inv dp'"
    "buffers dp' = (buffers dp)[i := \<lparr>pb_buffer = Some (ofpbuf_clone (e_junk env) b), pb_cookie = c, pb_timeout = e_now env + 1\<rparr>]"
    "c < 0xffffff" "c \<noteq> pb_cookie (buffers dp ! i)" "unat (bid AND PKT_BUFFER_MASK) = i" "drop_bit 8 bid = c"
proof -
  let ?idx = "(buffer_idx dp + 1) AND PKT_BUFFER_MASK"
  let ?p = "buffers dp ! unat ?idx"
  let ?c = "if pb_cookie ?p + 1 \<ge> 0xffffff then 0 else pb_cookie ?p + 1"
  have idx: "?idx < 256" using and_mask_less' [of 8 "buffer_idx dp + 1"] by (simp add: mask_eq_exp_minus_1)
  have i: "unat ?idx = (unat (buffer_idx dp) + 1) mod 256" using unat_next_idx assms(1) by (simp add: buffers_inv_def)
  have "?p \<in> set (buffers dp)" using assms(1) i by (simp add: buffers_inv_def)
  then have p: "pb_cookie ?p < 0xffffff" using assms(1) by (simp add: buffers_inv_def)
  have "pb_cookie ?p + 1 < 0xffffff \<or> pb_cookie ?p + 1 = 0xffffff" using inc_le [OF p] by (auto simp: le_less)
  then have c: "?c < 0xffffff" "?c \<noteq> pb_cookie ?p" by (auto simp: word_le_nat_alt)
  have "dp' = dp\<lparr>buffer_idx := ?idx, buffers := (buffers dp)[unat ?idx :=
      \<lparr>pb_buffer = Some (ofpbuf_clone (e_junk env) b), pb_cookie = ?c, pb_timeout = e_now env + 1\<rparr>]\<rparr>"
    "bid = ?idx OR push_bit 8 ?c"
    using assms(2) by (simp_all add: save_buffer_def Let_def)
  moreover have "?c < 0x1000000" using c(1) by (rule less_trans) simp
  ultimately show thesis
    using i idx c assms(1) buffer_id_parts [of ?idx ?c]
    by (intro that [of "unat ?idx" ?c]) (auto simp: buffers_inv_def dest!: set_list_update_elim)
qed


text \<open>The packets \<open>bs\<close> are saved one after the other.\<close>

fun save_all :: "dp_env \<Rightarrow> ofpbuf list \<Rightarrow> datapath \<Rightarrow> datapath" where
  "save_all env [] dp = dp"
| "save_all env (b # bs) dp = save_all env bs (snd (save_buffer env b dp))"

lemma save_all_append: "save_all env (xs @ ys) dp = save_all env ys (save_all env xs dp)"
  by (induction xs arbitrary: dp) simp_all

lemma save_all_ring:
  assumes "buffers_inv dp"
  shows "buffers_inv (save_all env bs dp) \<and> unat (buffer_idx (save_all env bs dp)) = (unat (buffer_idx dp) + length bs) mod 256 \<and>
    (\<forall>j < 256. (\<forall>t \<in> {1..length bs}. (unat (buffer_idx dp) + t) mod 256 \<noteq> j) \<longrightarrow>
      buffers (save_all env bs dp) ! j = buffers dp ! j)"
  using assms
proof (induction bs arbitrary: dp)
  case Nil
  then have "unat (buffer_idx dp) < 256" by (simp add: buffers_inv_def word_less_nat_alt)
  then show ?case using Nil by simp
next
  case (Cons b bs)
  obtain bid dp1 where save: "save_buffer env b dp = (bid, dp1)" by fastforce
  obtain i c where s: "i = (unat (buffer_idx dp) + 1) mod 256" "unat (buffer_idx dp1) = i" "buffers_inv dp1"
    "buffers dp1 = (buffers dp)[i := \<lparr>pb_buffer = Some (ofpbuf_clone (e_junk env) b), pb_cookie = c, pb_timeout = e_now env + 1\<rparr>]"
    by (rule save_buffer_result [OF Cons.prems save])
  note ih = Cons.IH [OF s(3)]
  have shift: "(i + t) mod 256 = (unat (buffer_idx dp) + (t + 1)) mod 256" for t
    unfolding s(1) by (simp add: mod_add_left_eq)
  have "buffers (save_all env bs dp1) ! j = buffers dp ! j"
    if "j < 256" and free: "\<forall>t \<in> {1..length (b # bs)}. (unat (buffer_idx dp) + t) mod 256 \<noteq> j" for j
  proof -
    have "j \<noteq> i" using free s(1) by (auto dest!: bspec [of _ _ 1])
    moreover have "(i + t) mod 256 \<noteq> j" if "t \<in> {1..length bs}" for t
      using free [rule_format, of "t + 1"] that by (simp add: shift)
    ultimately show ?thesis using ih \<open>j < 256\<close> s(2) by (simp add: s(4))
  qed
  moreover have "(i + length bs) mod 256 = (unat (buffer_idx dp) + length (b # bs)) mod 256" by (simp add: shift)
  ultimately show ?case using ih s(2) save by simp
qed

text \<open>
  C38. A packet saved for the controller can be retrieved by its identifier, which is never the reserved
  value, once, as long as less than 256 further packets have been saved; the 256th further packet takes
  its buffer, and the identifier is then refused.
\<close>

theorem save_buffer_retrieve:
  assumes inv: "buffers_inv dp" and save: "save_buffer env b dp = (bid, dp1)" and dp2: "dp2 = save_all env bs dp1"
  shows "bid \<noteq> - 1 \<and>
    (length bs < 256 \<longrightarrow> fst (retrieve_buffer bid dp2) = Some (ofpbuf_clone (e_junk env) b) \<and>
       fst (retrieve_buffer bid (snd (retrieve_buffer bid dp2))) = None) \<and>
    (length bs = 256 \<longrightarrow> fst (retrieve_buffer bid dp2) = None)"
proof -
  obtain i c where s: "unat (buffer_idx dp1) = i" "buffers_inv dp1"
    "buffers dp1 = (buffers dp)[i := \<lparr>pb_buffer = Some (ofpbuf_clone (e_junk env) b), pb_cookie = c, pb_timeout = e_now env + 1\<rparr>]"
    "c < 0xffffff" "unat (bid AND PKT_BUFFER_MASK) = i" "drop_bit 8 bid = c" "i < 256"
    using save_buffer_result [OF inv save] by (metis mod_less_divisor zero_less_numeral)
  define p where "p = \<lparr>pb_buffer = Some (ofpbuf_clone (e_junk env) b), pb_cookie = c, pb_timeout = e_now env + 1\<rparr>"
  have slot1: "buffers dp1 ! i = p" using s(3,7) inv by (simp add: p_def buffers_inv_def)
  have kept: "buffers (save_all env xs dp1) ! i = p" if "length xs < 256" for xs
  proof -
    have "(i + t) mod 256 \<noteq> i" if "t \<in> {1..length xs}" for t
    proof
      assume hit: "(i + t) mod 256 = i"
      have t: "1 \<le> t" "t < 256" using that \<open>length xs < 256\<close> by auto
      show False using hit t s(7) by (cases "i + t < 256") (simp_all add: le_mod_geq)
    qed
    then show ?thesis using save_all_ring [OF s(2), of env xs] s(1,7) slot1 by simp
  qed
  have "bid \<noteq> - 1"
  proof
    assume "bid = - 1"
    then have "c = 0xffffff" using s(6) by (simp add: mask_eq_exp_minus_1)
    then show False using s(4) by simp
  qed
  moreover have "fst (retrieve_buffer bid dp2) = Some (ofpbuf_clone (e_junk env) b) \<and>
      fst (retrieve_buffer bid (snd (retrieve_buffer bid dp2))) = None" if "length bs < 256"
  proof -
    have "buffers dp2 ! i = p" "length (buffers dp2) = 256"
      using kept [OF that] save_all_ring [OF s(2), of env bs] by (simp_all add: dp2 buffers_inv_def)
    then show ?thesis using s(5-7) by (simp add: retrieve_buffer_def Let_def p_def)
  qed
  moreover have "fst (retrieve_buffer bid dp2) = None" if m: "length bs = 256"
  proof -
    obtain xs y where xs: "bs = xs @ [y]" "length xs = 255" using m by (cases bs rule: rev_cases) auto
    let ?dp3 = "save_all env xs dp1"
    have ring: "buffers_inv ?dp3" "unat (buffer_idx ?dp3) = (i + 255) mod 256" "buffers ?dp3 ! i = p"
      using save_all_ring [OF s(2), of env xs] s(1) xs(2) kept [of xs] by simp_all
    obtain bid' dp4 where save': "save_buffer env y ?dp3 = (bid', dp4)" by fastforce
    have at: "(unat (buffer_idx ?dp3) + 1) mod 256 = i" unfolding ring(2) mod_add_left_eq using s(7) by simp
    obtain c' where c': "buffers dp4 = (buffers ?dp3)[i :=
        \<lparr>pb_buffer = Some (ofpbuf_clone (e_junk env) y), pb_cookie = c', pb_timeout = e_now env + 1\<rparr>]"
      "c' \<noteq> pb_cookie (buffers ?dp3 ! i)"
      using save_buffer_result [OF ring(1) save', unfolded at] by blast
    have "pb_cookie (buffers dp4 ! i) = c'" "c' \<noteq> c"
      using c' ring(1,3) s(7) by (simp_all add: p_def buffers_inv_def)
    moreover have "dp2 = dp4" using save' by (simp add: dp2 xs(1) save_all_append)
    ultimately show ?thesis using s(5,6) by (simp add: retrieve_buffer_def Let_def)
  qed
  ultimately show ?thesis by blast
qed


section \<open>Messages with packets\<close>

lemma push_header_contents:
  assumes ok: "ofpbuf_ok b" and head: "length hdr \<le> bdata b"
  obtains b1 b2 where "ofpbuf_push_uninit (length hdr) b = Some b1" "stn (bdata b1) hdr b1 = Some b2"
    "contents b2 = hdr @ contents b" "ofpbuf_ok b2" "bsize b1 = length hdr + bsize b" "bsize b2 = length hdr + bsize b"
    "length (area b2) = length (area b)" "bdata b2 = bdata b - length hdr"
proof -
  let ?b1 = "b\<lparr>bdata := bdata b - length hdr, bsize := bsize b + length hdr\<rparr>"
  have b1: "ofpbuf_push_uninit (length hdr) b = Some ?b1"
    using head by (simp add: ofpbuf_push_uninit_def ofpbuf_prealloc_headroom_def ofpbuf_headroom_def)
  have fit: "bdata ?b1 + length hdr \<le> length (area ?b1)" using ok head by (simp add: ofpbuf_ok_def)
  have b2: "stn (bdata ?b1) hdr ?b1 = Some (?b1\<lparr>area := write_at (bdata ?b1) hdr (area b)\<rparr>)" using fit by (simp add: stn_def)
  have p: "ofpbuf_push hdr b = Some (?b1\<lparr>area := write_at (bdata ?b1) hdr (area b)\<rparr>)"
    using b1 by (simp add: ofpbuf_push_def)
  show thesis
  proof (rule that [OF b1 b2])
    show "contents (?b1\<lparr>area := write_at (bdata ?b1) hdr (area b)\<rparr>) = hdr @ contents b"
      "ofpbuf_ok (?b1\<lparr>area := write_at (bdata ?b1) hdr (area b)\<rparr>)"
      using ofpbuf_push_contents [OF ok] p head by (auto simp: ofpbuf_headroom_def)
  qed (use fit in \<open>simp_all add: write_at_def\<close>)
qed


lemma update_openflow_length_same:
  assumes ok: "ofpbuf_ok b" and c: "contents b = [v, t] @ bytes16 (htons (of_nat (bsize b))) @ rest" and "8 \<le> bsize b"
  obtains b' where "update_openflow_length b = Some b'" "contents b' = contents b"
proof -
  let ?x = "bytes16 (htons (of_nat (bsize b)))"
  have "bdata b + 2 + length ?x \<le> ofpbuf_tail b" using assms(3) by (simp add: ofpbuf_tail_def)
  note st = stn_contents [OF ok _ this]
  have "write_at 2 ?x (contents b) = contents b" unfolding c by (simp add: write_at_def)
  then show thesis
    using st that assms(3) by (simp add: update_openflow_length_def ofpbuf_at_assert_def st16_def)
qed

lemma save_buffer_id: "buffers_inv dp \<Longrightarrow> fst (save_buffer env b dp) \<noteq> - 1"
proof
  assume inv: "buffers_inv dp" and id: "fst (save_buffer env b dp) = - 1"
  obtain bid dp1 where s: "save_buffer env b dp = (bid, dp1)" by fastforce
  obtain c where "c < 0xffffff" "drop_bit 8 bid = c" using save_buffer_result [OF inv s] by blast
  then show False using id s by (auto simp: mask_eq_exp_minus_1)
qed

definition packet_in :: "dp_env \<Rightarrow> ofpbuf \<Rightarrow> u16 \<Rightarrow> nat \<Rightarrow> u8 \<Rightarrow> datapath \<Rightarrow> u8 list" where
  "packet_in env b port max_len r dp =
     (let n = (if max_len = 0 then bsize b else min max_len (bsize b)) in
      packet_in_header (18 + n) (fst (save_buffer env b dp)) (bsize b) port r @ take n (contents b))"

lemma length_packet_in_header [simp]: "length (packet_in_header len bid tot port r) = 18"
  by (simp add: packet_in_header_def)

lemma dp_output_control_sends:
  assumes ok: "ofpbuf_ok b" and inv: "buffers_inv dp" and conn: "0 \<in> set (remotes dp)" and head: "18 \<le> bdata b"
  obtains dp' where "dp_output_control env b port max_len r dp = Some dp'"
    "events dp' = (if e_rconn env (packet_in env b port max_len r dp) = 0
       then events dp @ [Rconn_Send 0 (packet_in env b port max_len r dp)] else events dp)"
proof -
  obtain bid dp1 where s: "save_buffer env b dp = (bid, dp1)" by fastforce
  have ev: "events dp1 = events dp" "remotes dp1 = remotes dp" using s by (auto simp: save_buffer_def Let_def)
  define n where "n = (if max_len = 0 then bsize b else min max_len (bsize b))"
  define b0 where "b0 = (if bid \<noteq> - 1 \<and> max_len \<noteq> 0 \<and> max_len < bsize b then b\<lparr>bsize := max_len\<rparr> else b)"
  have id: "bid \<noteq> - 1" using save_buffer_id [OF inv, of env b] s by simp
  have b0: "bsize b0 = n" "ofpbuf_ok b0" "contents b0 = take n (contents b)" "bdata b0 = bdata b"
    using ok id by (auto simp: b0_def n_def ofpbuf_ok_def contents_def min_def)
  define hdr where "hdr = packet_in_header (18 + n) bid (bsize b) port r"
  have hdr: "length hdr = 18" by (simp add: hdr_def)
  obtain b1 b2 where b12: "ofpbuf_push_uninit 18 b0 = Some b1" "stn (bdata b1) hdr b1 = Some b2"
    "contents b2 = hdr @ contents b0" "ofpbuf_ok b2" "bsize b1 = 18 + n" "bsize b2 = 18 + n"
    using push_header_contents [OF b0(2), of hdr, unfolded hdr b0(1,4)] head by blast
  obtain b3 where b3: "update_openflow_length b2 = Some b3" "contents b3 = contents b2"
    by (rule update_openflow_length_same [OF b12(4), of OFP_VERSION OFPT_PACKET_IN
        "drop 4 hdr @ contents b0"])
      (use b12 in \<open>simp_all add: hdr_def packet_in_header_def bytes16_def bytes32_def\<close>)
  have msg: "contents b3 = packet_in env b port max_len r dp"
    using s by (simp add: b3(2) b12(3) b0(3) packet_in_def hdr_def n_def Let_def)
  have "dp_output_control env b port max_len r dp =
      Some (if e_rconn env (contents b3) = 0 then log_event (Rconn_Send 0 (contents b3)) dp1 else dp1)"
    unfolding dp_output_control_def s Let_def prod.case b0_def [symmetric]
    using b12(1,2) b3(1) b12(5) conn ev(2) by (simp add: send_openflow_buffer_def Let_def hdr_def)
  then show thesis using that ev unfolding msg by (simp add: log_event_def)
qed

text \<open>
  A packet that goes to the controller is sent behind a packet-in header that gives its full length,
  its input port and the identifier of its saved copy, cut to the requested number of bytes.  This takes
  18 bytes of headroom: with less the switch stops on an assertion, and a clone of a packet, which is what
  every output action but the last one sends, has no headroom at all.
\<close>

theorem dp_output_control_message:
  assumes ok: "ofpbuf_ok b" and inv: "buffers_inv dp" and conn: "0 \<in> set (remotes dp)"
  shows "(dp_output_control env b port max_len r dp = None \<longleftrightarrow> bdata b < 18) \<and>
    (18 \<le> bdata b \<longrightarrow> e_rconn env (packet_in env b port max_len r dp) = 0 \<longrightarrow>
      map_option events (dp_output_control env b port max_len r dp) =
        Some (events dp @ [Rconn_Send 0 (packet_in env b port max_len r dp)])) \<and>
    dp_output_control env (ofpbuf_clone junk b) port max_len r dp = None"
proof -
  have short: "dp_output_control env x port max_len r dp = None" if "bdata x < 18" for x
    using that by (simp add: dp_output_control_def ofpbuf_push_uninit_def ofpbuf_prealloc_headroom_def
        ofpbuf_headroom_def Let_def case_prod_beta)
  have "bdata (ofpbuf_clone junk b) = 0"
    by (simp add: ofpbuf_clone_def ofpbuf_put_def ofpbuf_put_uninit_def ofpbuf_prealloc_tailroom_def ofpbuf_new_def
        ofpbuf_init_def ofpbuf_use_def Let_def)
  then have clone: "dp_output_control env (ofpbuf_clone junk b) port max_len r dp = None" by (intro short) simp
  show ?thesis
  proof (cases "bdata b < 18")
    case True
    then show ?thesis using short clone by auto
  next
    case False
    then have "18 \<le> bdata b" by simp
    with ok inv conn obtain dp' where dp': "dp_output_control env b port max_len r dp = Some dp'"
      "events dp' = (if e_rconn env (packet_in env b port max_len r dp) = 0
         then events dp @ [Rconn_Send 0 (packet_in env b port max_len r dp)] else events dp)"
      by (rule dp_output_control_sends)
    then show ?thesis using clone False by auto
  qed
qed


section \<open>The TTL test\<close>

lemma extract_nw_l2_5: "extract_nw f p b = Some (r, p', f') \<Longrightarrow> l2_5 p' = l2_5 p"
  by (auto simp: extract_nw_def extract_tp_def Let_def split: if_splits bind_splits option.splits)

lemma flow_extract_ip:
  assumes ok: "ofpbuf_ok b" and len: "14 \<le> bsize b" and ip: "get_u16 (contents b) 12 = htons ETH_TYPE_IP"
  obtains r p f where "flow_extract b port = Some (r, p, f)" "l2_5 p = Some (bdata b + 14)" "same_bytes b p"
proof -
  let ?t = "htons ETH_TYPE_IP"
  have lc: "length (contents b) = bsize b" using ok by simp
  have ty: "OFP_DL_TYPE_ETH2_CUTOFF \<le> ntohs ?t" "?t \<noteq> htons ETH_TYPE_VLAN" "?t \<noteq> htons ETH_TYPE_MPLS_UNICAST"
    by (simp_all add: htons_inject)
  have "link_type (contents b) = Some (?t, drop 14 (contents b))" using lc len ip ty(1) by (simp add: link_type_def Let_def)
  then have "parse_frame (contents b) port \<noteq> None"
    using ty by (simp add: parse_frame_def strip_tag_def parse_mpls_def Let_def)
  then obtain r p f where fe: "flow_extract b port = Some (r, p, f)" "same_bytes b p"
    using flow_extract_parse [OF ok, of port] by (auto split: option.splits)
  have eth: "pull_eth b = Some (Some (bdata b), skip 14 b)" using len by (simp add: pull_eth_def try_pull_skip)
  have dl: "extract_dl_type (bdata b) (skip 14 b) = Some (Some (?t, skip 14 b))"
    using ld_contents(2) [OF ok, of 12] len ip ty(1) by (simp add: extract_dl_type_def Let_def)
  have "l2_5 p = Some (bdata b + 14)"
    using fe(1) ty unfolding flow_extract_def Let_def eth
    by (auto simp: dl extract_vlan_def extract_mpls_def Let_def dest!: extract_nw_l2_5 split: bind_splits if_splits)
  then show thesis using that fe by blast
qed

lemma ttl_of_ip:
  assumes ok: "ofpbuf_ok b" and len: "18 \<le> bsize b" and p: "l2_5 p = Some (bdata b + 14)" "same_bytes b p"
  shows "mpls_ttl_out p = Some (contents b ! 17 = 1)"
proof -
  have "ld32 p (bdata b + 14) = Some (get_u32 (contents b) 14)"
    using ld_contents(3) [OF ok, of 14] len p(2) by (auto simp: ld32_def same_bytes_def split: if_splits)
  moreover have "mpls_ttl (ntohl (get_u32 (contents b) 14)) = contents b ! 17"
    unfolding mpls_ttl_def get_u32_def
    by (rule bit_word_eqI) (auto simp: bit_simps bit_htonl le32_def dest: bit_imp_le_length)
  ultimately show ?thesis using p(1) by (simp add: mpls_ttl_out_def)
qed

text \<open>
  The test for an MPLS label with TTL 1 is made on every packet, whether it has a label or not: of an
  IP packet without label it looks at the low byte of the IP total length.  Packets whose total length is
  1 modulo 256 are dropped and counted as expired labels; without an input port the switch dereferences a
  null pointer.
\<close>

theorem ip_length_taken_for_ttl:
  assumes ok: "ofpbuf_ok b" and len: "18 \<le> bsize b" and ip: "get_u16 (contents b) 12 = htons ETH_TYPE_IP"
    and total: "contents b ! 17 = 1" and "\<not> drops_fragments dp"
  shows "(\<exists>b'. run_flow_through_tables out env b (Some i) dp =
      Some (0, b', update_port i (\<lambda>p. p\<lparr>mpls_ttl0_dropped := mpls_ttl0_dropped p + 1\<rparr>) dp)) \<and>
    run_flow_through_tables out env b None dp = None"
proof -
  have ttl: "mpls_ttl_out p = Some True" if p: "l2_5 p = Some (bdata b + 14)" "same_bytes b p" for p
    using ttl_of_ip [OF ok len p] total by simp
  have len14: "14 \<le> bsize b" using len by simp
  obtain r p f where 1: "flow_extract b (port_arg (Some i)) = Some (r, p, f)" "mpls_ttl_out p = Some True"
    using flow_extract_ip [OF ok len14 ip, of "port_arg (Some i)"] ttl by metis
  obtain r' p' f' where 2: "flow_extract b (port_arg None) = Some (r', p', f')" "mpls_ttl_out p' = Some True"
    using flow_extract_ip [OF ok len14 ip, of "port_arg None"] ttl by metis
  show ?thesis using 1 2 assms(5) by (simp add: run_flow_through_tables_def)
qed


section \<open>Packets that go round in circles\<close>

lemma table_lookup_keys:
  assumes "\<And>x. key (fl h' x) = key (fl h x)"
  shows "table_lookup h' (map_swt g t) k = table_lookup h t k"
  using assms
  by (cases t) (simp_all add: table_linear_lookup_def table_hash_lookup_def table_hash2_lookup_def find_bucket_def
      cong: option.case_cong)

lemma chain_lookup_again:
  assumes "chain_lookup h c k = Some (r, c')" and "\<And>x. key (fl h' x) = key (fl h x)"
  shows "\<exists>c''. chain_lookup h' c' k = Some (r, c'')"
proof -
  have loop: "chain_lookup_loop h k ts = (r, ts') \<Longrightarrow> fst (chain_lookup_loop h' k ts') = r" for ts ts'
  proof (induction ts arbitrary: ts')
    case (Cons t ts)
    then show ?case
      using table_lookup_keys [OF assms(2)] table_lookup_keys [of h h, OF refl]
      by (cases "table_lookup h t k") (auto simp: Let_def split: prod.splits option.splits)
  qed simp
  obtain ts where ts: "chain_lookup_loop h k (tables c) = (r, ts)" "tables c' = ts" "wildcards k = 0"
    using assms(1) by (auto simp: chain_lookup_def split: if_splits prod.splits)
  then show ?thesis
    using loop [OF ts(1)] by (cases "chain_lookup_loop h' k ts") (simp add: chain_lookup_def)
qed

lemma extract_in_port:
  "extract_vlan f b = Some (f', b') \<Longrightarrow> in_port f' = in_port f"
  "extract_mpls f b = Some (f', b') \<Longrightarrow> in_port f' = in_port f"
  "extract_nw f p b = Some (r, p', f') \<Longrightarrow> in_port f' = in_port f"
proof -
  show "extract_vlan f b = Some (f', b') \<Longrightarrow> in_port f' = in_port f"
    by (auto simp: extract_vlan_def split: if_splits bind_splits option.splits)
  show "extract_mpls f b = Some (f', b') \<Longrightarrow> in_port f' = in_port f"
    by (auto simp: extract_mpls_def Let_def split: if_splits bind_splits option.splits)
  have tp: "extract_tp f p b = Some (p', f') \<Longrightarrow> in_port f' = in_port f" for f p b p' f'
    by (auto simp: extract_tp_def split: if_splits bind_splits option.splits)
  show "extract_nw f p b = Some (r, p', f') \<Longrightarrow> in_port f' = in_port f"
    by (auto simp: extract_nw_def Let_def dest!: tp split: if_splits bind_splits option.splits)
qed

lemma flow_extract_in_port:
  assumes "flow_extract b port = Some (frag, b', f)"
  shows "in_port f = htons port"
  using assms unfolding flow_extract_def Let_def
  by (auto dest!: extract_in_port split: if_splits bind_splits option.splits)

definition table_output :: "u8 list" where
  "table_output = bytes16 (htons 0) @ bytes16 (htons 16) @ bytes32 (htonl OFPP_TABLE) @ replicate 8 0"

lemma table_output_fields:
  "table_output \<noteq> []" "length table_output = 16" "act_type table_output = htons OFPAT_OUTPUT" "act_len table_output = 16"
  "get_u32 table_output 4 = htonl OFPP_TABLE" "get_u16 table_output 8 = 0"
  unfolding table_output_def by code_simp+

lemma validate_table_output: "validate_actions k table_output = Some ACT_VALIDATION_OK"
proof -
  have "push_bit 16 (ucast x) \<noteq> (OFPP_TABLE :: u32)" for x :: u16
  proof
    assume eq: "push_bit 16 (ucast x) = OFPP_TABLE"
    have "bit (push_bit 16 (ucast x :: u32)) 0 \<longleftrightarrow> bit OFPP_TABLE 0" unfolding eq ..
    then show False by (simp add: bit_simps)
  qed
  then show ?thesis
    by (simp add: validate_actions_OK acts_ok.simps [of table_output] acts_split.simps [of table_output] acts_ok.simps [of "[]"]
        acts_split.simps [of "[]"] table_output_fields action_valid_def of_actions_def)
qed

lemma execute_table_output:
  "execute_actions (do_output out env) junk h0 b k table_output ign dp =
     out b (ntohs (in_port (key_flow k))) OFPP_TABLE ign dp"
  by (simp add: execute_actions_def execute_actions_loop.simps [of _ _ _ _ _ table_output]
      execute_actions_loop.simps [of _ _ _ _ _ "[]"] table_output_fields ah32_def ah16_def do_output_def)


text \<open>
  One turn: the packet is sent to the tables again, with the same bytes, and finds a flow with the same
  actions; the output is the nested output and nothing else.
\<close>

lemma table_output_turn:
  assumes A: "ofpbuf_ok b" "18 \<le> bsize b" "get_u16 (contents b) 12 = htons ETH_TYPE_IP" "contents b ! 17 \<noteq> 1"
    "unat port < DP_MAX_PORTS" "\<not> drops_fragments dp"
    "\<not> bit (sp_config (dp_ports dp ! unat port)) 2" "\<not> bit (sp_config (dp_ports dp ! unat port)) 3"
    "parse_frame (contents b) port = Some (frag, f)"
    "chain_lookup (dp_heap dp) (dp_chain dp) (packet_sw_key env 0 f) = Some (Some a, c)"
    "sf_acts (fl (dp_heap dp) a) = table_output"
  obtains p c2 h where "ofpbuf_ok p" "bsize p = bsize b" "contents p = contents b"
    "chain_lookup h c (packet_sw_key env 0 f) = Some (Some a, c2)" "sf_acts (fl h a) = table_output"
    "\<And>stop n ign. dp_output_port_from stop env (Suc n) b port OFPP_TABLE ign dp =
      dp_output_port_from stop env n p port OFPP_TABLE False (dp\<lparr>dp_chain := c, dp_heap := h\<rparr>)"
proof -
  let ?p = "Some (unat port)"
  have port: "port_arg ?p = port" by (simp add: port_arg_def)
  have len14: "14 \<le> bsize b" using A(2) by simp
  obtain r p g where fe: "flow_extract b port = Some (r, p, g)" "l2_5 p = Some (bdata b + 14)" "same_bytes b p"
    by (rule flow_extract_ip [OF A(1) len14 A(3), of port])
  have g: "g = f" using flow_extract_parse [OF A(1), of port] A(9) fe(1) by auto
  have ttl: "mpls_ttl_out p = Some False" using ttl_of_ip [OF A(1,2) fe(2,3)] A(4) by simp
  have recv: "\<not> no_recv ?p f dp" using A(7,8) by (simp add: no_recv_def Let_def)
  define h where "h = (dp_heap dp)(a \<mapsto> flow_used (e_now env) (bsize p) (fl (dp_heap dp) a))"
  let ?dp = "dp\<lparr>dp_chain := c, dp_heap := h\<rparr>"
  have keys: "key (fl h x) = key (fl (dp_heap dp) x)" for x by (simp add: h_def flow_used_def)
  obtain c2 where c2: "chain_lookup h c (packet_sw_key env 0 f) = Some (Some a, c2)"
    using chain_lookup_again [OF A(10), of h] keys by blast
  have acts: "sf_acts (fl h a) = table_output" using A(11) by (simp add: h_def flow_used_def)
  have in_port: "ntohs (in_port (key_flow (packet_sw_key env 0 f))) = port"
    using flow_extract_in_port [OF fe(1)] g by (simp add: packet_sw_key_def)
  have p: "ofpbuf_ok p" "bsize p = bsize b" "contents p = contents b"
    using A(1,2) fe(3) by (simp_all add: same_bytes_def ofpbuf_ok_def contents_def)
  have flow: "run_flow out env p (packet_sw_key env 0 f) a (dp\<lparr>dp_chain := c\<rparr>) = out p port OFPP_TABLE False ?dp" for out
    using acts by (simp add: run_flow_def execute_table_output in_port flip: h_def)
  have "run_flow_through_tables out env b ?p dp =
      map_option (\<lambda>dp. (0, p, dp)) (out p port OFPP_TABLE False ?dp)" for out
    using fe(1) g ttl recv A(6,10)
    by (cases "out p port OFPP_TABLE False ?dp") (simp_all add: run_flow_through_tables_def port flow)
  then have "dp_output_port_from stop env (Suc n) b port OFPP_TABLE ign dp =
      dp_output_port_from stop env n p port OFPP_TABLE False ?dp" for stop n ign
    using A(5) by (cases "dp_output_port_from stop env n p port OFPP_TABLE False ?dp") simp_all
  then show thesis using that [OF p c2 acts] by blast
qed

text \<open>
  C39. Although the comment in \<open>validate_output\<close> says otherwise, an output to \<open>OFPP_TABLE\<close> is a valid
  action of a flow, for every key.  A packet that finds such a flow is run through the tables again, finds
  the same flow again, and so on without end: for every depth \<open>n\<close> the output makes \<open>n\<close> nested calls without
  an access error or a failed assertion and is then just the next nested call, again for \<open>OFPP_TABLE\<close> and
  with the same bytes, whatever that call does.  In particular no depth of recursion gives a result.
\<close>

theorem table_output_loops:
  assumes "ofpbuf_ok b" and "18 \<le> bsize b" and "get_u16 (contents b) 12 = htons ETH_TYPE_IP" and "contents b ! 17 \<noteq> 1"
    and "unat port < DP_MAX_PORTS" and "\<not> drops_fragments dp"
    and "\<not> bit (sp_config (dp_ports dp ! unat port)) 2" and "\<not> bit (sp_config (dp_ports dp ! unat port)) 3"
    and "parse_frame (contents b) port = Some (frag, f)"
    and "chain_lookup (dp_heap dp) (dp_chain dp) (packet_sw_key env 0 f) = Some (Some a, c)"
    and "sf_acts (fl (dp_heap dp) a) = table_output"
  shows "validate_actions k table_output = Some ACT_VALIDATION_OK \<and>
    (\<forall>n. (\<exists>p ign' dp'. contents p = contents b \<and>
        (\<forall>stop. dp_output_port_from stop env n b port OFPP_TABLE ign dp = stop p port OFPP_TABLE ign' dp')) \<and>
      dp_output_port env n b port OFPP_TABLE ign dp = None)"
proof -
  have nested: "\<exists>p ign' dp'. contents p = contents b \<and>
      (\<forall>stop. dp_output_port_from stop env n b port OFPP_TABLE ign dp = stop p port OFPP_TABLE ign' dp')" for n
    using assms
  proof (induction n arbitrary: b dp c ign)
    case 0
    then show ?case by auto
  next
    case (Suc n)
    note A = Suc.prems
    obtain p c2 h where p: "ofpbuf_ok p" "bsize p = bsize b" "contents p = contents b"
        "chain_lookup h c (packet_sw_key env 0 f) = Some (Some a, c2)" "sf_acts (fl h a) = table_output"
      and turn: "\<And>stop m ign. dp_output_port_from stop env (Suc m) b port OFPP_TABLE ign dp =
        dp_output_port_from stop env m p port OFPP_TABLE False (dp\<lparr>dp_chain := c, dp_heap := h\<rparr>)"
      by (rule table_output_turn [OF A]) (rule that)
    have "\<exists>q ign' dp'. contents q = contents p \<and> (\<forall>stop. dp_output_port_from stop env n p port OFPP_TABLE False
        (dp\<lparr>dp_chain := c, dp_heap := h\<rparr>) = stop q port OFPP_TABLE ign' dp')"
      by (rule Suc.IH [of p "dp\<lparr>dp_chain := c, dp_heap := h\<rparr>" c2]) (use A p in \<open>simp_all add: drops_fragments_def\<close>)
    then show ?case unfolding turn p(3) .
  qed
  have "dp_output_port env n b port OFPP_TABLE ign dp = None" for n
    unfolding dp_output_port_def using nested [of n] by (elim exE conjE) simp
  then show ?thesis using validate_table_output nested by blast
qed


section \<open>Concrete inputs\<close>

text \<open>
  An environment that takes everything, an IP frame of the shortest kind, a flow entry for it that sends it
  back to the tables, and a switch with that entry and nothing else.
\<close>

definition sample_env :: dp_env where
  "sample_env = \<lparr>e_junk = (\<lambda>i. 0), e_stack = 0, e_sw_flow = sample_flow 0 0, e_vport = sample_vport 0 0 None,
     e_alloc_flow = (\<lambda>h. None), e_alloc_vport = (\<lambda>h. None), e_alloc_acts = (\<lambda>a. False), e_now = 0, e_random_id = 0,
     e_send = (\<lambda>d bs. True), e_addr = (\<lambda>d. zero_eth), e_name = (\<lambda>d. []), e_features = (\<lambda>d i. 0),
     e_flags_up = (\<lambda>d. None), e_link = (\<lambda>d. 0), e_rconn = (\<lambda>bs. 0),
     e_desc = (\<lambda>i. []), e_mtu = (\<lambda>d. 1500), e_recv = (\<lambda>d. Inl 11), e_msgs = (\<lambda>r. []), e_txq_room = (\<lambda>r i. True),
     e_alive = (\<lambda>r. True), e_accept = 0, e_alloc_remote = (\<lambda>rs. Suc (Max (set (0 # rs))))\<rparr>"

definition sample_ip_frame :: "u8 \<Rightarrow> u8 list" where
  "sample_ip_frame n = replicate 12 0 @ bytes16 (htons ETH_TYPE_IP) @ [0, 0, 0, n]"

definition sample_table_flow :: sw_flow where
  "sample_table_flow = (sample_flow 5 1)\<lparr>
     key := packet_sw_key sample_env 0 (snd (the (parse_frame (sample_ip_frame 0) 1))), sf_acts := table_output\<rparr>"

definition sample_dp :: datapath where
  "sample_dp = \<lparr>remotes = [0], cb_dump = Map.empty, last_timeout = 0, dp_id = 1,
     dp_chain = \<lparr>tables = [Linear (sample_linear\<lparr>n_flows := 1, flows := [0], iter_flows := [0]\<rparr>)]\<rparr>,
     dp_heap = [0 \<mapsto> sample_table_flow], dp_flags = 0, miss_send_len = 128,
     dp_ports = replicate DP_MAX_PORTS \<lparr>sp_config = 0, sp_state = 0, sp_netdev = None, rx_packets = 0, rx_bytes = 0,
       tx_packets = 0, tx_bytes = 0, tx_dropped = 0, mpls_ttl0_dropped = 0\<rparr>,
     port_list = [], vport_table = vport_table_init, vport_heap = Map.empty,
     buffers = replicate 256 \<lparr>pb_buffer = None, pb_cookie = 0, pb_timeout = 0\<rparr>, buffer_idx = 0, events = []\<rparr>"

lemma sample_dp_buffers: "buffers_inv sample_dp"
  by (simp add: buffers_inv_def sample_dp_def)

lemma sample_dp_frags: "\<not> drops_fragments sample_dp"
  by (simp add: drops_fragments_def sample_dp_def)

lemma sample_ip_frame_fields:
  "length (sample_ip_frame n) = 18" "get_u16 (sample_ip_frame n) 12 = htons ETH_TYPE_IP" "sample_ip_frame n ! 17 = n"
proof -
  show "length (sample_ip_frame n) = 18" by (simp add: sample_ip_frame_def bytes16_def)
  have "get_u16 (sample_ip_frame n) 12 = get_u16 (bytes16 (htons ETH_TYPE_IP)) 0"
    by (simp add: sample_ip_frame_def get_u16_def bytes16_def nth_append)
  also have "\<dots> = htons ETH_TYPE_IP" by code_simp
  finally show "get_u16 (sample_ip_frame n) 12 = htons ETH_TYPE_IP" .
  show "sample_ip_frame n ! 17 = n" by (simp add: sample_ip_frame_def bytes16_def nth_append)
qed

lemma sample_packet_size [simp]: "bsize (packet_of bs) = length bs" "bdata (packet_of bs) = 0"
  by (simp_all add: packet_of_def)

theorem save_buffer_retrieve_witness:
  "\<exists>b. fst (retrieve_buffer (fst (save_buffer sample_env sample_buf sample_dp))
     (save_all sample_env [sample_buf] (snd (save_buffer sample_env sample_buf sample_dp)))) = Some b"
  using save_buffer_retrieve [OF sample_dp_buffers prod.collapse [symmetric] refl, of sample_env sample_buf "[sample_buf]"]
  by simp

theorem dp_output_control_message_witness:
  "dp_output_control sample_env (packet_of (sample_ip_frame 0)) 1 0 OFPR_ACTION sample_dp = None"
  using dp_output_control_message [OF packet_of_simps(1) sample_dp_buffers, of sample_env "sample_ip_frame 0" 1 0 OFPR_ACTION]
  by (simp add: sample_dp_def)

theorem ip_length_taken_for_ttl_witness:
  "run_flow_through_tables (\<lambda>b port out ign dp. Some dp) sample_env (packet_of (sample_ip_frame 1)) None sample_dp = None"
proof -
  let ?b = "packet_of (sample_ip_frame 1)"
  have "18 \<le> bsize ?b" "get_u16 (contents ?b) 12 = htons ETH_TYPE_IP" "contents ?b ! 17 = 1"
    by (simp_all add: sample_ip_frame_fields)
  from ip_length_taken_for_ttl [OF packet_of_simps(1) this sample_dp_frags]
  show ?thesis by blast
qed

lemma sample_parse: "parse_frame (sample_ip_frame n) 1 \<noteq> None"
proof -
  have ty: "OFP_DL_TYPE_ETH2_CUTOFF \<le> ntohs (htons ETH_TYPE_IP)" "htons ETH_TYPE_IP \<noteq> htons ETH_TYPE_VLAN"
    "htons ETH_TYPE_IP \<noteq> htons ETH_TYPE_MPLS_UNICAST" by (simp_all add: htons_inject)
  then have "link_type (sample_ip_frame n) = Some (htons ETH_TYPE_IP, drop 14 (sample_ip_frame n))"
    by (simp add: link_type_def sample_ip_frame_fields Let_def)
  then show ?thesis using ty by (simp add: parse_frame_def strip_tag_def parse_mpls_def Let_def parse_nw_def sample_ip_frame_fields)
qed

theorem table_output_loops_witness:
  "\<exists>p ign' dp'. contents p = sample_ip_frame 0 \<and>
    (\<forall>stop. dp_output_port_from stop sample_env 1000 (packet_of (sample_ip_frame 0)) 1 OFPP_TABLE False sample_dp =
      stop p 1 OFPP_TABLE ign' dp')"
proof -
  let ?b = "packet_of (sample_ip_frame 0)"
  obtain frag f where f: "parse_frame (sample_ip_frame 0) 1 = Some (frag, f)" using sample_parse [of 0] by auto
  let ?k = "packet_sw_key sample_env 0 f"
  have "flow_matches_1wild ?k ?k"
    by (simp add: flow_matches_1wild_def flow_fields_match_def eth_addr_equals_def)
  then have "\<exists>c. chain_lookup (dp_heap sample_dp) (dp_chain sample_dp) ?k = Some (Some 0, c)"
    using f by (simp add: chain_lookup_def sample_dp_def table_linear_lookup_def fl_def sample_table_flow_def
        packet_sw_key_def Let_def)
  then obtain c where c: "chain_lookup (dp_heap sample_dp) (dp_chain sample_dp) ?k = Some (Some 0, c)" ..
  have "18 \<le> bsize ?b" "get_u16 (contents ?b) 12 = htons ETH_TYPE_IP" "contents ?b ! 17 \<noteq> 1"
    by (simp_all add: sample_ip_frame_fields)
  moreover have "unat (1 :: u16) < DP_MAX_PORTS" "\<not> bit (sp_config (dp_ports sample_dp ! unat (1 :: u16))) 2"
    "\<not> bit (sp_config (dp_ports sample_dp ! unat (1 :: u16))) 3" by (simp_all add: sample_dp_def)
  moreover have "sf_acts (fl (dp_heap sample_dp) 0) = table_output"
    by (simp add: sample_dp_def fl_def sample_table_flow_def)
  ultimately show ?thesis
    using table_output_loops [OF packet_of_simps(1) _ _ _ _ sample_dp_frags, of "sample_ip_frame 0" 1 frag f sample_env 0 c
        undefined False] f c
    by simp
qed

end
