(* ===== verification/Control.thy ===== *)
theory Control
  imports Datapath
begin

text \<open>
  The messages of the controller, second half of \<open>switch/datapath.c\<close>: configuration, packets sent by
  the controller, flow and virtual port modifications and port modifications.  A message is the list of
  its bytes, from the header on, at least as many as the header says (\<open>fwd_control_input\<close> refuses shorter
  ones); the handlers go by the length in the header.  Where that is less than the fixed part of the
  message, the length of the actions wraps around and the handlers read beyond the message: \<open>None\<close>.
\<close>

section \<open>Sending\<close>

abbreviation (input) ENOMEM :: int where "ENOMEM \<equiv> 12"
abbreviation (input) ENODEV :: int where "ENODEV \<equiv> 19"
abbreviation (input) OFPT_ERROR :: u8 where "OFPT_ERROR \<equiv> 1"
abbreviation (input) OFPET_BAD_ACTION :: u16 where "OFPET_BAD_ACTION \<equiv> 2"
abbreviation (input) OFPET_FLOW_MOD_FAILED :: u16 where "OFPET_FLOW_MOD_FAILED \<equiv> 3"
abbreviation (input) OFPET_VPORT_MOD_FAILED :: u16 where "OFPET_VPORT_MOD_FAILED \<equiv> 4"
abbreviation (input) OFPFMFC_ALL_TABLES_FULL :: u16 where "OFPFMFC_ALL_TABLES_FULL \<equiv> 0"

definition ofp_length :: "u8 list \<Rightarrow> nat" where
  "ofp_length msg = unat (ntohs (get_u16 msg 2))"

definition ofp_bytes :: "u8 list \<Rightarrow> u8 list" where
  "ofp_bytes msg = take (ofp_length msg) msg"

definition make_openflow_xid :: "(nat \<Rightarrow> u8) \<Rightarrow> nat \<Rightarrow> u8 \<Rightarrow> u32 \<Rightarrow> ofpbuf option" where
  "make_openflow_xid junk openflow_len type xid =
     (if openflow_len < 8 \<or> 65535 < openflow_len then None
      else let (oh, b) = ofpbuf_put_zeros junk openflow_len (ofpbuf_new junk openflow_len) in
        stn oh ([OFP_VERSION, type] @ bytes16 (htons (of_nat openflow_len)) @ bytes32 xid) b)"

definition dp_send_error_msg :: "dp_env \<Rightarrow> sender \<Rightarrow> u16 \<Rightarrow> u16 \<Rightarrow> u8 list \<Rightarrow> datapath \<Rightarrow> datapath option" where
  "dp_send_error_msg env sender type code data dp = do {
     b \<leftarrow> make_openflow_xid (e_junk env) (12 + length data) OFPT_ERROR (s_xid sender);
     b \<leftarrow> stn (bdata b + 8) (bytes16 (htons type) @ bytes16 (htons code) @ data) b;
     (retval, dp) \<leftarrow> send_openflow_buffer env (s_remote sender) b dp;
     Some dp
   }"


section \<open>Configuration and ports\<close>

definition recv_set_config :: "u8 list \<Rightarrow> datapath \<Rightarrow> datapath" where
  "recv_set_config msg dp =
     (let flags = ntohs (get_u16 msg 8) AND 7;
          flags = (if flags AND 6 \<noteq> 0 \<and> flags AND 6 \<noteq> 2 then (flags AND NOT 6) OR 2 else flags)
      in dp\<lparr>dp_flags := flags, miss_send_len := ntohs (get_u16 msg 10)\<rparr>)"

text \<open>The device of a port that is not in use is a null pointer.\<close>

definition dp_update_port_flags :: "dp_env \<Rightarrow> u8 list \<Rightarrow> datapath \<Rightarrow> datapath option" where
  "dp_update_port_flags env opm dp =
     (let port_no = unat (ntohs (get_u16 opm 8)); cfg = get_u32 opm 16; msk = get_u32 opm 20 in
      if port_no < DP_MAX_PORTS then do {
        nd \<leftarrow> sp_netdev (dp_ports dp ! port_no);
        if eth_addr_equals (eth_of_bytes (drop 10 opm)) (e_addr env nd) then
          let dp = (if msk \<noteq> 0
                    then update_port port_no (\<lambda>p. p\<lparr>sp_config := (sp_config p AND NOT (ntohl msk)) OR (ntohl cfg AND ntohl msk)\<rparr>) dp
                    else dp)
          in if msk AND htonl 1 \<noteq> 0 then
               (if cfg AND htonl 1 \<noteq> 0 \<and> sp_config (dp_ports dp ! port_no) AND 1 = 0
                then Some (log_event (Turn_Flags_Off nd) (update_port port_no (\<lambda>p. p\<lparr>sp_config := sp_config p OR 1\<rparr>) dp))
                else if cfg AND htonl 1 = 0 \<and> sp_config (dp_ports dp ! port_no) AND 1 \<noteq> 0
                then Some (log_event (Turn_Flags_On nd) (update_port port_no (\<lambda>p. p\<lparr>sp_config := sp_config p AND NOT 1\<rparr>) dp))
                else Some dp)
             else Some dp
        else Some dp
      } else Some dp)"

definition recv_port_mod :: "dp_env \<Rightarrow> u8 list \<Rightarrow> datapath \<Rightarrow> (int \<times> datapath) option" where
  "recv_port_mod env msg dp = do { dp \<leftarrow> dp_update_port_flags env msg dp; Some (0, dp) }"


section \<open>Packets from the controller\<close>

text \<open>
  With a header length below the fixed part, which no transport delivers in a message of at least that
  size, the length of the actions wraps around: the first test passes, a new buffer of negative size
  cannot be allocated (\<open>None\<close>), and a saved packet goes through the actions of the message.
\<close>

definition recv_packet_out :: "dp_env \<Rightarrow> nat \<Rightarrow> sender \<Rightarrow> u8 list \<Rightarrow> datapath \<Rightarrow> (int \<times> datapath) option" where
  "recv_packet_out env n sender msg dp =
     (let actions_len = unat (ntohs (get_u16 msg 14)); acts = take actions_len (drop 16 msg) in
      if 16 \<le> ofp_length msg \<and> ofp_length msg - 16 < actions_len then Some (- EINVAL, dp)
      else if ofp_length msg < 16 \<and> ntohl (get_u32 msg 8) = - 1 then None
      else
        let (buf, dp) =
          (if ntohl (get_u32 msg 8) = - 1
           then (Some (snd (ofpbuf_put (e_junk env) (drop (16 + actions_len) (ofp_bytes msg))
                   (ofpbuf_new (e_junk env) (ofp_length msg - 16 - actions_len)))), dp)
           else retrieve_buffer (ntohl (get_u32 msg 8)) dp)
        in case buf of
             None \<Rightarrow> Some (- ESRCH, dp)
           | Some b \<Rightarrow> if length msg < 16 + actions_len then None else do {
               (frag, b, f) \<leftarrow> flow_extract b (ntohs (get_u16 msg 12));
               let k = packet_sw_key env (e_stack env) f;
               v_code \<leftarrow> validate_actions k acts;
               if v_code \<noteq> ACT_VALIDATION_OK then do {
                 dp \<leftarrow> dp_send_error_msg env sender OFPET_BAD_ACTION v_code (ofp_bytes msg) dp;
                 Some (- EINVAL, dp)
               } else do {
                 dp \<leftarrow> execute_actions (do_output (dp_output_port env n) env) (e_junk env) (e_stack env) b k acts True dp;
                 Some (0, dp)
               }
             })"


section \<open>Virtual ports\<close>

definition dp_add_vport :: "dp_env \<Rightarrow> sender \<Rightarrow> u8 list \<Rightarrow> datapath \<Rightarrow> (int \<times> datapath) option" where
  "dp_add_vport env sender ovpm dp =
     (let acts = drop 24 (ofp_bytes ovpm); v = ntohl (get_u32 ovpm 8); parent = ntohl (get_u32 ovpm 12) in
      if vport_table_lookup (vport_table dp) v \<noteq> None then do {
        dp \<leftarrow> dp_send_error_msg env sender OFPET_BAD_ACTION OFPET_VPORT_MOD_FAILED (ofp_bytes ovpm) dp;
        Some (EINVAL, dp)
      } else if ofp_length ovpm < 24 then None
      else do {
        v_code \<leftarrow> validate_vport_actions acts;
        if v_code \<noteq> ACT_VALIDATION_OK then do {
          dp \<leftarrow> dp_send_error_msg env sender OFPET_BAD_ACTION v_code (ofp_bytes ovpm) dp;
          Some (EINVAL, dp)
        } else do {
          (a, h) \<leftarrow> vport_table_entry_alloc (e_alloc_vport env) (e_vport env) (length acts) (vport_heap dp);
          vpe \<leftarrow> h a;
          let vpe = vpe\<lparr>vport := v, parent_port := parent\<rparr>;
          if \<not> (OFPP_VP_START \<le> v \<and> v \<le> OFPP_VP_END) then do {
            dp \<leftarrow> dp_send_error_msg env sender OFPET_BAD_ACTION OFPET_VPORT_MOD_FAILED (ofp_bytes ovpm) dp;
            Some (EINVAL, dp\<lparr>vport_heap := free_vport_table_entry a (h(a \<mapsto> vpe))\<rparr>)
          } else do {
            let vpe = vpe\<lparr>port_acts := acts\<rparr>;
            (error, h, t) \<leftarrow> insert_vport_table_entry a (h(a \<mapsto> vpe)) (vport_table dp);
            Some (error, dp\<lparr>vport_heap := h, vport_table := t\<rparr>)
          }
        }
      })"

definition recv_vport_mod :: "dp_env \<Rightarrow> sender \<Rightarrow> u8 list \<Rightarrow> datapath \<Rightarrow> (int \<times> datapath) option" where
  "recv_vport_mod env sender msg dp =
     (let command = ntohs (get_u16 msg 16) in
      if command = 0 then dp_add_vport env sender msg dp
      else if command = 1 then
        let (error, h, t) = remove_vport_table_entry (ntohl (get_u32 msg 8)) (vport_heap dp) (vport_table dp);
            dp = dp\<lparr>vport_heap := h, vport_table := t\<rparr>
        in if error \<noteq> 0 then do {
             dp \<leftarrow> dp_send_error_msg env sender OFPET_BAD_ACTION OFPET_VPORT_MOD_FAILED (ofp_bytes msg) dp;
             Some (0, dp)
           } else Some (0, dp)
      else Some (0, dp))"


section \<open>Flow modifications\<close>

text \<open>The \<open>struct ofp_match\<close> at an offset of a message.\<close>

definition get_match :: "u8 list \<Rightarrow> nat \<Rightarrow> ofp_match" where
  "get_match m i = \<lparr>m_wildcards = get_u32 m i, m_in_port = get_u16 m (i + 4), m_dl_src = eth_of_bytes (drop (i + 6) m),
     m_dl_dst = eth_of_bytes (drop (i + 12) m), m_dl_vlan = get_u16 m (i + 18), m_dl_type = get_u16 m (i + 20),
     m_nw_proto = m ! (i + 22), m_pad = m ! (i + 23), m_nw_src = get_u32 m (i + 24), m_nw_dst = get_u32 m (i + 28),
     m_tp_src = get_u16 m (i + 32), m_tp_dst = get_u16 m (i + 34), m_mpls_label1 = get_u32 m (i + 36),
     m_mpls_label2 = get_u32 m (i + 40)\<rparr>"

definition fm_command :: "u8 list \<Rightarrow> u16" where "fm_command m = ntohs (get_u16 m 52)"
definition fm_idle_timeout :: "u8 list \<Rightarrow> u16" where "fm_idle_timeout m = ntohs (get_u16 m 54)"
definition fm_hard_timeout :: "u8 list \<Rightarrow> u16" where "fm_hard_timeout m = ntohs (get_u16 m 56)"
definition fm_priority :: "u8 list \<Rightarrow> u16" where "fm_priority m = ntohs (get_u16 m 58)"
definition fm_buffer_id :: "u8 list \<Rightarrow> u32" where "fm_buffer_id m = ntohl (get_u32 m 60)"
definition fm_out_port :: "u8 list \<Rightarrow> u16" where "fm_out_port m = get_u16 m 64"

definition entry_priority :: "sw_flow_key \<Rightarrow> u8 list \<Rightarrow> u16" where
  "entry_priority k m = (if wildcards k \<noteq> 0 then fm_priority m else - 1)"

text \<open>The packet that waits in a buffer for the flow is run through the actions of the message.\<close>

definition run_buffered :: "dp_env \<Rightarrow> nat \<Rightarrow> u8 list \<Rightarrow> u8 list \<Rightarrow> ofpbuf \<Rightarrow> datapath \<Rightarrow> datapath option" where
  "run_buffered env n ofm acts b dp = do {
     (frag, b, f) \<leftarrow> flow_extract b (ntohs (m_in_port (get_match ofm 8)));
     execute_actions (do_output (dp_output_port env n) env) (e_junk env) (e_stack env) b
       (packet_sw_key env (e_stack env) f) acts False dp
   }"

definition flow_alloc :: "dp_env \<Rightarrow> fheap \<Rightarrow> (addr \<times> sw_flow) option" where
  "flow_alloc env h = (case e_alloc_flow env h of None \<Rightarrow> None | Some a \<Rightarrow> Some (a, e_sw_flow env))"

definition discard_for :: "u8 list \<Rightarrow> datapath \<Rightarrow> datapath" where
  "discard_for ofm dp = (if fm_buffer_id ofm \<noteq> - 1 then discard_buffer (fm_buffer_id ofm) dp else dp)"

definition add_flow :: "dp_env \<Rightarrow> nat \<Rightarrow> sender \<Rightarrow> u8 list \<Rightarrow> datapath \<Rightarrow> (int \<times> datapath) option" where
  "add_flow env n sender ofm dp =
     (if ofp_length ofm < 72 then None
      else
        let acts = drop 72 (ofp_bytes ofm) in
        case flow_alloc env (dp_heap dp) of
          None \<Rightarrow> Some (- ENOMEM, discard_for ofm dp)
        | Some (a, flow) \<Rightarrow> do {
            let flow = flow\<lparr>key := flow_extract_match (get_match ofm 8)\<rparr>;
            v_code \<leftarrow> validate_actions (key flow) acts;
            if v_code \<noteq> ACT_VALIDATION_OK then do {
              dp \<leftarrow> dp_send_error_msg env sender OFPET_BAD_ACTION v_code (ofp_bytes ofm) dp;
              Some (- ENOMEM, discard_for ofm dp)
            } else do {
              let flow = flow\<lparr>priority := entry_priority (key flow) ofm, idle_timeout := fm_idle_timeout ofm,
                hard_timeout := fm_hard_timeout ofm, used := e_now env, created := e_now env, byte_count := 0,
                packet_count := 0, sf_acts := acts\<rparr>;
              let (error, h, c) = chain_insert ((dp_heap dp)(a \<mapsto> flow)) (dp_chain dp) a;
              if error = - ENOBUFS then do {
                dp \<leftarrow> dp_send_error_msg env sender OFPET_FLOW_MOD_FAILED OFPFMFC_ALL_TABLES_FULL (ofp_bytes ofm)
                  (dp\<lparr>dp_heap := h, dp_chain := c\<rparr>);
                Some (error, discard_for ofm (dp\<lparr>dp_heap := flow_free a (dp_heap dp)\<rparr>))
              } else if error \<noteq> 0 then Some (error, discard_for ofm (dp\<lparr>dp_heap := flow_free a h, dp_chain := c\<rparr>))
              else
                let dp = dp\<lparr>dp_heap := h, dp_chain := c\<rparr> in
                if fm_buffer_id ofm \<noteq> - 1 then
                  (case retrieve_buffer (fm_buffer_id ofm) dp of
                     (None, dp) \<Rightarrow> Some (- ESRCH, dp)
                   | (Some b, dp) \<Rightarrow> do {
                       dp \<leftarrow> run_buffered env n ofm acts b
                         (dp\<lparr>dp_heap := (dp_heap dp)(a \<mapsto> flow_used (e_now env) (bsize b) (fl (dp_heap dp) a))\<rparr>);
                       Some (0, dp)
                     })
                else Some (0, dp)
            }
          })"

definition mod_flow :: "dp_env \<Rightarrow> nat \<Rightarrow> sender \<Rightarrow> u8 list \<Rightarrow> datapath \<Rightarrow> (int \<times> datapath) option" where
  "mod_flow env n sender ofm dp =
     (if ofp_length ofm < 72 then None
      else do {
        let k = flow_extract_match (get_match ofm 8);
        let acts = drop 72 (ofp_bytes ofm);
        v_code \<leftarrow> validate_actions k acts;
        if v_code \<noteq> ACT_VALIDATION_OK then do {
          dp \<leftarrow> dp_send_error_msg env sender OFPET_BAD_ACTION v_code (ofp_bytes ofm) dp;
          Some (- ENOMEM, discard_for ofm dp)
        } else do {
          let (m, h) = chain_modify (e_alloc_acts env) (dp_heap dp) (dp_chain dp) k (entry_priority k ofm)
            (fm_command ofm = 2) acts;
          let dp = dp\<lparr>dp_heap := h\<rparr>;
          if fm_buffer_id ofm \<noteq> - 1 then
            (case retrieve_buffer (fm_buffer_id ofm) dp of
               (None, dp) \<Rightarrow> Some (- ESRCH, dp)
             | (Some b, dp) \<Rightarrow> do { dp \<leftarrow> run_buffered env n ofm acts b dp; Some (- ENOMEM, dp) })
          else Some (- ENOMEM, dp)
        }
      })"

definition del_flow :: "u8 list \<Rightarrow> sw_flow_key \<Rightarrow> u16 \<Rightarrow> bool \<Rightarrow> datapath \<Rightarrow> (int \<times> datapath) option" where
  "del_flow ofm k prio strict dp = do {
     (m, h, c) \<leftarrow> chain_delete (dp_heap dp) (dp_chain dp) k (fm_out_port ofm) prio strict;
     Some (if m \<noteq> 0 then 0 else - ESRCH, dp\<lparr>dp_heap := h, dp_chain := c\<rparr>)
   }"

definition recv_flow :: "dp_env \<Rightarrow> nat \<Rightarrow> sender \<Rightarrow> u8 list \<Rightarrow> datapath \<Rightarrow> (int \<times> datapath) option" where
  "recv_flow env n sender ofm dp =
     (let command = fm_command ofm; k = flow_extract_match (get_match ofm 8) in
      if command = 0 then add_flow env n sender ofm dp
      else if command = 1 \<or> command = 2 then mod_flow env n sender ofm dp
      else if command = 3 then del_flow ofm k 0 False dp
      else if command = 4 then del_flow ofm k (entry_priority k ofm) True dp
      else Some (- ENODEV, dp))"


section \<open>Every message keeps the invariant\<close>

text \<open>What \<open>malloc\<close> promises: a fresh address is not in use.\<close>

definition alloc_ok :: "dp_env \<Rightarrow> bool" where
  "alloc_ok env \<longleftrightarrow> (\<forall>h a. e_alloc_flow env h = Some a \<longrightarrow> a \<notin> dom h) \<and> (\<forall>h a. e_alloc_vport env h = Some a \<longrightarrow> a \<notin> dom h) \<and>
     (\<forall>rs. e_alloc_remote env rs \<notin> set rs)"

lemma dp_send_error_msg_log:
  assumes "dp_send_error_msg env s t c d dp = Some dp'"
  shows "dp' = dp \<or> (\<exists>e. dp' = log_event e dp)"
  using assms by (auto simp: dp_send_error_msg_def send_openflow_buffer_def Let_def split: bind_splits if_splits)

lemma dp_send_error_msg_inv: "dp_send_error_msg env s t c d dp = Some dp' \<Longrightarrow> dp_inv_at rs dp' = dp_inv_at rs dp"
  by (drule dp_send_error_msg_log) auto

lemma dp_send_error_msg_fields:
  assumes "dp_send_error_msg env s t c d dp = Some dp'"
  shows "dp_heap dp' = dp_heap dp" "dp_chain dp' = dp_chain dp" "vport_heap dp' = vport_heap dp"
    "vport_table dp' = vport_table dp" "buffers dp' = buffers dp"
  using dp_send_error_msg_log [OF assms] by (auto simp: log_event_def)

lemma discard_for_inv: "dp_inv_at rs dp \<Longrightarrow> dp_inv_at rs (discard_for ofm dp)"
  by (simp add: discard_for_def discard_buffer_inv)

lemma recv_set_config_inv: "dp_inv_at rs dp \<Longrightarrow> dp_inv_at rs (recv_set_config msg dp)"
  by (simp add: recv_set_config_def Let_def inv_defs)

lemma dp_update_port_flags_inv: "dp_inv_at rs dp \<Longrightarrow> dp_update_port_flags env msg dp = Some dp' \<Longrightarrow> dp_inv_at rs dp'"
  by (auto simp: dp_update_port_flags_def Let_def update_port_inv split: if_splits bind_splits)

lemma execute_keeps:
  "dp_inv_at rs dp \<Longrightarrow> execute_actions (do_output (dp_output_port env n) env) junk h0 b k acts ign dp = Some dp' \<Longrightarrow> dp_inv_at rs dp'"
  by (rule dpo.act.execute_actions_keeps)

lemma recv_packet_out_inv:
  assumes inv: "dp_inv_at rs dp" and run: "recv_packet_out env n s msg dp = Some (r, dp')"
  shows "dp_inv_at rs dp'"
proof -
  have err: "dp_send_error_msg env s t c d dp1 = Some dp' \<Longrightarrow> dp_inv_at rs dp1 \<Longrightarrow> dp_inv_at rs dp'" for t c d dp1
    using dp_send_error_msg_inv by blast
  have ret: "retrieve_buffer bid dp = (x, dp1) \<Longrightarrow> dp_inv_at rs dp1" for bid x dp1 using retrieve_buffer_inv inv by blast
  show ?thesis
    using run inv unfolding recv_packet_out_def Let_def
    by (auto dest!: ret dest: err execute_keeps split: if_splits bind_splits option.splits prod.splits)
qed

lemma run_buffered_inv: "dp_inv_at rs dp \<Longrightarrow> run_buffered env n ofm acts b dp = Some dp' \<Longrightarrow> dp_inv_at rs dp'"
  by (auto simp: run_buffered_def dest: execute_keeps split: bind_splits)

lemma dp_add_vport_inv:
  assumes inv: "dp_inv_at rs dp" and al: "alloc_ok env" and run: "dp_add_vport env s msg dp = Some (r, dp')"
  shows "dp_inv_at rs dp'"
proof -
  let ?acts = "drop 24 (ofp_bytes msg)" and ?v = "ntohl (get_u32 msg 8)" and ?h = "vport_heap dp" and ?t = "vport_table dp"
  have vinv: "vport_inv ?h ?t" using inv by (simp add: dp_inv_at_def dp_inv_def)
  have err: "dp_inv_at rs dp1" if "dp_send_error_msg env s t c d dp = Some dp1" for t c d dp1
    using dp_send_error_msg_inv that inv by blast
  show ?thesis
  proof (cases "vport_table_lookup ?t ?v = None \<and> validate_vport_actions ?acts = Some ACT_VALIDATION_OK")
    case False
    then show ?thesis
      using run err unfolding dp_add_vport_def Let_def by (auto split: if_splits bind_splits)
  next
    case True
    then have new: "vtable ?t ?v = None" and valid: "port_actions_valid ?acts"
      using validate_vport_actions_result [of ?acts] by (auto simp: vport_table_lookup_def)
    obtain a where a: "e_alloc_vport env ?h = Some a"
      using run True unfolding dp_add_vport_def Let_def
      by (cases "e_alloc_vport env ?h") (auto simp: vport_table_entry_alloc_def split: if_splits)
    then have fresh: "a \<notin> dom ?h" using al by (simp add: alloc_ok_def)
    show ?thesis
    proof (cases "OFPP_VP_START \<le> ?v \<and> ?v \<le> OFPP_VP_END")
      case False
      obtain dp1 where dp1: "dp_send_error_msg env s OFPET_BAD_ACTION OFPET_VPORT_MOD_FAILED (ofp_bytes msg) dp = Some dp1"
        "dp' = dp1\<lparr>vport_heap := ?h(a := None)\<rparr>"
        using run True a False unfolding dp_add_vport_def Let_def
        by (auto simp: vport_table_entry_alloc_def free_vport_table_entry_def split: if_splits bind_splits)
      have "?h(a := None) = ?h" using fresh by (simp add: fun_upd_idem domIff)
      then have "dp' = dp1" using dp1 dp_send_error_msg_fields(3) [OF dp1(1)] by simp
      then show ?thesis using err [OF dp1(1)] by simp
    next
      case range: True
      obtain e err h t where ins: "insert_vport_table_entry a (?h(a \<mapsto> e)) ?t = Some (err, h, t)"
        "dp' = dp\<lparr>vport_heap := h, vport_table := t\<rparr>" "vport e = ?v" "port_acts e = ?acts"
        using run True a range unfolding dp_add_vport_def Let_def
        by (auto simp: vport_table_entry_alloc_def split: if_splits bind_splits)
      have "vport_inv h t"
        using new valid range by (intro insert_vport_inv [OF vinv fresh _ _ _ _ ins(1)]) (simp_all add: ins)
      then show ?thesis using inv ins(2) by (simp add: inv_defs)
    qed
  qed
qed

lemma recv_vport_mod_inv:
  assumes inv: "dp_inv_at rs dp" and al: "alloc_ok env" and run: "recv_vport_mod env s msg dp = Some (r, dp')"
  shows "dp_inv_at rs dp'"
proof -
  obtain err h t where rem: "remove_vport_table_entry (ntohl (get_u32 msg 8)) (vport_heap dp) (vport_table dp) = (err, h, t)"
    by (metis prod.exhaust)
  have "vport_inv h t" using remove_vport_inv [OF _ rem] inv by (simp add: dp_inv_at_def dp_inv_def)
  then have "dp_inv_at rs (dp\<lparr>vport_heap := h, vport_table := t\<rparr>)" using inv by (simp add: inv_defs)
  then show ?thesis
    using run inv al rem dp_add_vport_inv [OF inv al] dp_send_error_msg_inv
    unfolding recv_vport_mod_def Let_def by (auto split: if_splits bind_splits)
qed

lemma run_retrieved_inv:
  assumes "dp_inv_at rs dp" and "\<And>b dp1. dp_inv_at rs dp1 \<Longrightarrow> dp_heap dp1 = dp_heap dp \<Longrightarrow> f b dp1 = Some (r, dp') \<Longrightarrow> dp_inv_at rs dp'"
    and "(case retrieve_buffer bid dp of (None, dp) \<Rightarrow> Some (e, dp) | (Some b, dp) \<Rightarrow> f b dp) = Some (r, dp')"
  shows "dp_inv_at rs dp'"
proof -
  obtain x dp1 where x: "retrieve_buffer bid dp = (x, dp1)" by fastforce
  have "dp_inv_at rs dp1" using retrieve_buffer_inv [OF assms(1) x] .
  moreover have "dp_heap dp1 = dp_heap dp" using x by (auto simp: retrieve_buffer_def Let_def split: if_splits)
  ultimately show ?thesis using assms(2,3) x by (cases x) auto
qed

lemma dp_inv_flows: "dp_inv_at rs dp \<Longrightarrow> flows_inv h c \<Longrightarrow> dp_inv_at rs (dp\<lparr>dp_heap := h, dp_chain := c\<rparr>)"
  by (simp add: inv_defs)

lemma mod_flow_inv:
  assumes inv: "dp_inv_at rs dp" and run: "mod_flow env n s ofm dp = Some (r, dp')"
  shows "dp_inv_at rs dp'"
proof -
  let ?k = "flow_extract_match (get_match ofm 8)" and ?acts = "drop 72 (ofp_bytes ofm)"
  show ?thesis
  proof (cases "validate_actions ?k ?acts = Some ACT_VALIDATION_OK")
    case False
    then show ?thesis
      using run inv discard_for_inv dp_send_error_msg_inv unfolding mod_flow_def Let_def
      by (auto split: if_splits bind_splits)
  next
    case True
    then have acts: "acts_ok ?acts" by (simp add: validate_actions_OK)
    obtain m h where mod: "chain_modify (e_alloc_acts env) (dp_heap dp) (dp_chain dp) ?k (entry_priority ?k ofm)
        (fm_command ofm = 2) ?acts = (m, h)" by fastforce
    have "flows_inv h (dp_chain dp)"
      using flows_inv_modify [OF _ key_wf_extract acts mod] inv by (simp add: dp_inv_at_def dp_inv_def)
    then have dp1: "dp_inv_at rs (dp\<lparr>dp_heap := h\<rparr>)" using inv by (simp add: inv_defs)
    show ?thesis
    proof (cases "fm_buffer_id ofm = - 1")
      case True
      then show ?thesis using run dp1 mod \<open>validate_actions ?k ?acts = _\<close> by (auto simp: mod_flow_def Let_def split: if_splits)
    next
      case False
      then show ?thesis
        using run mod \<open>validate_actions ?k ?acts = _\<close> unfolding mod_flow_def Let_def
        by (auto elim!: run_retrieved_inv [OF dp1, rotated] dest: run_buffered_inv split: if_splits bind_splits)
    qed
  qed
qed

lemma del_flow_inv:
  assumes inv: "dp_inv_at rs dp" and k: "key_wf k" and run: "del_flow ofm k prio strict dp = Some (r, dp')"
  shows "dp_inv_at rs dp'"
proof -
  have "flows_inv (dp_heap dp) (dp_chain dp)" using inv by (simp add: dp_inv_at_def dp_inv_def)
  then obtain m h c where del: "chain_delete (dp_heap dp) (dp_chain dp) k (fm_out_port ofm) prio strict = Some (m, h, c)"
    "flows_inv h c" using k by (rule flows_inv_delete)
  then show ?thesis using run dp_inv_flows [OF inv] by (auto simp: del_flow_def)
qed


text \<open>The entry that \<open>add_flow\<close> fills in.\<close>

definition new_entry :: "dp_env \<Rightarrow> sw_flow \<Rightarrow> u8 list \<Rightarrow> sw_flow" where
  "new_entry env f ofm =
     (let f = f\<lparr>key := flow_extract_match (get_match ofm 8)\<rparr> in
      f\<lparr>priority := entry_priority (key f) ofm, idle_timeout := fm_idle_timeout ofm, hard_timeout := fm_hard_timeout ofm,
        used := e_now env, created := e_now env, byte_count := 0, packet_count := 0, sf_acts := drop 72 (ofp_bytes ofm)\<rparr>)"

lemma new_entry_fields [simp]:
  "key (new_entry env f ofm) = flow_extract_match (get_match ofm 8)" "sf_acts (new_entry env f ofm) = drop 72 (ofp_bytes ofm)"
  by (simp_all add: new_entry_def Let_def)

lemma add_flow_accepted:
  assumes "72 \<le> ofp_length ofm" and "e_alloc_flow env (dp_heap dp) = Some a"
    and "validate_actions (flow_extract_match (get_match ofm 8)) (drop 72 (ofp_bytes ofm)) = Some ACT_VALIDATION_OK"
    and "chain_insert ((dp_heap dp)(a \<mapsto> new_entry env (e_sw_flow env) ofm)) (dp_chain dp) a = (e, h, c)"
  shows "add_flow env n s ofm dp =
    (if e = - ENOBUFS then do {
       dp \<leftarrow> dp_send_error_msg env s OFPET_FLOW_MOD_FAILED OFPFMFC_ALL_TABLES_FULL (ofp_bytes ofm) (dp\<lparr>dp_heap := h, dp_chain := c\<rparr>);
       Some (e, discard_for ofm (dp\<lparr>dp_heap := flow_free a (dp_heap dp)\<rparr>))
     } else if e \<noteq> 0 then Some (e, discard_for ofm (dp\<lparr>dp_heap := flow_free a h, dp_chain := c\<rparr>))
     else if fm_buffer_id ofm \<noteq> - 1 then
       (case retrieve_buffer (fm_buffer_id ofm) (dp\<lparr>dp_heap := h, dp_chain := c\<rparr>) of
          (None, dp) \<Rightarrow> Some (- ESRCH, dp)
        | (Some b, dp) \<Rightarrow> do {
            dp \<leftarrow> run_buffered env n ofm (drop 72 (ofp_bytes ofm)) b
              (dp\<lparr>dp_heap := (dp_heap dp)(a \<mapsto> flow_used (e_now env) (bsize b) (fl (dp_heap dp) a))\<rparr>);
            Some (0, dp)
          })
     else Some (0, dp\<lparr>dp_heap := h, dp_chain := c\<rparr>))"
  using assms by (simp add: add_flow_def flow_alloc_def new_entry_def Let_def)

lemma add_flow_inv:
  assumes inv: "dp_inv_at rs dp" and al: "alloc_ok env" and run: "add_flow env n s ofm dp = Some (r, dp')"
  shows "dp_inv_at rs dp'"
proof -
  let ?k = "flow_extract_match (get_match ofm 8)" and ?acts = "drop 72 (ofp_bytes ofm)" and ?f = "new_entry env (e_sw_flow env) ofm"
  have len: "72 \<le> ofp_length ofm" using run by (auto simp: add_flow_def split: if_splits)
  show ?thesis
  proof (cases "e_alloc_flow env (dp_heap dp) \<noteq> None \<and> validate_actions ?k ?acts = Some ACT_VALIDATION_OK")
    case False
    then show ?thesis
      using run inv discard_for_inv dp_send_error_msg_inv unfolding add_flow_def flow_alloc_def Let_def
      by (auto split: if_splits bind_splits option.splits)
  next
    case True
    then obtain a where a: "e_alloc_flow env (dp_heap dp) = Some a" by blast
    have fresh: "a \<notin> dom (dp_heap dp)" using a al by (simp add: alloc_ok_def)
    have acts: "acts_ok ?acts" using True by (simp add: validate_actions_OK)
    obtain e h c where ins: "chain_insert ((dp_heap dp)(a \<mapsto> ?f)) (dp_chain dp) a = (e, h, c)" by (metis prod.exhaust)
    note add = add_flow_accepted [OF len a conjunct2 [OF True] ins, of n s, unfolded run]
    have flows: "flows_inv (dp_heap dp) (dp_chain dp)" using inv by (simp add: dp_inv_at_def dp_inv_def)
    have f: "key_wf (key ?f)" "acts_ok (sf_acts ?f)" using acts by (simp_all add: key_wf_extract)
    note r = flows_inv_insert [OF flows fresh f ins]
    show ?thesis
    proof (cases "e = 0")
      case e0: False
      then have free: "dp_inv_at rs (dp\<lparr>dp_heap := flow_free a h, dp_chain := c\<rparr>)" using r(2) dp_inv_flows [OF inv] by blast
      have "dp_inv_at rs (dp1\<lparr>dp_heap := flow_free a (dp_heap dp1)\<rparr>)"
        if "dp_send_error_msg env s t x d (dp\<lparr>dp_heap := h, dp_chain := c\<rparr>) = Some dp1" for t x d dp1
        using dp_send_error_msg_log [OF that] free by (auto simp: log_event_def inv_defs)
      then show ?thesis using add e0 free discard_for_inv by (auto split: if_splits bind_splits)
    next
      case True
      then have dp1: "dp_inv_at rs (dp\<lparr>dp_heap := h, dp_chain := c\<rparr>)" and a': "a \<in> dom h"
        using r(1) dp_inv_flows [OF inv] by blast+
      have used: "dp_inv_at rs (dp2\<lparr>dp_heap := (dp_heap dp2)(a \<mapsto> flow_used now m (fl (dp_heap dp2) a))\<rparr>)"
        if "dp_inv_at rs dp2" "dp_heap dp2 = h" for dp2 now m
        using that a' by (simp add: inv_defs flows_inv_used)
      show ?thesis
      proof (cases "fm_buffer_id ofm = - 1")
        case True
        then show ?thesis using add dp1 \<open>e = 0\<close> by simp
      next
        case False
        show ?thesis
        proof (rule run_retrieved_inv [OF dp1])
          show "(case retrieve_buffer (fm_buffer_id ofm) (dp\<lparr>dp_heap := h, dp_chain := c\<rparr>) of
              (None, dp) \<Rightarrow> Some (- ESRCH, dp)
            | (Some b, dp) \<Rightarrow> do {
                dp \<leftarrow> run_buffered env n ofm ?acts b
                  (dp\<lparr>dp_heap := (dp_heap dp)(a \<mapsto> flow_used (e_now env) (bsize b) (fl (dp_heap dp) a))\<rparr>);
                Some (0, dp)
              }) = Some (r, dp')"
            using add \<open>e = 0\<close> False by simp
        next
          fix b :: ofpbuf and dp2 assume dp2: "dp_inv_at rs dp2" "dp_heap dp2 = dp_heap (dp\<lparr>dp_heap := h, dp_chain := c\<rparr>)"
          then have "dp_inv_at rs (dp2\<lparr>dp_heap := (dp_heap dp2)(a \<mapsto> flow_used (e_now env) (bsize b) (fl (dp_heap dp2) a))\<rparr>)"
            by (intro used) simp_all
          moreover assume "do {
              dp \<leftarrow> run_buffered env n ofm ?acts b
                (dp2\<lparr>dp_heap := (dp_heap dp2)(a \<mapsto> flow_used (e_now env) (bsize b) (fl (dp_heap dp2) a))\<rparr>);
              Some (0, dp)
            } = Some (r, dp')"
          ultimately show "dp_inv_at rs dp'" by (auto dest: run_buffered_inv split: bind_splits)
        qed
      qed
    qed
  qed
qed

lemma recv_flow_inv:
  assumes inv: "dp_inv_at rs dp" and al: "alloc_ok env" and run: "recv_flow env n s ofm dp = Some (r, dp')"
  shows "dp_inv_at rs dp'"
  using run inv add_flow_inv [OF inv al] mod_flow_inv [OF inv] del_flow_inv [OF inv key_wf_extract]
  unfolding recv_flow_def Let_def by (auto split: if_splits)

end
