(* ===== verification/Replies.thy ===== *)
theory Replies
  imports Control
begin

text \<open>
  What the switch tells its controller, from \<open>switch/datapath.c\<close>: descriptions of ports, notifications,
  replies to requests, statistics, and \<open>fwd_control_input\<close>, which takes a message to its handler.  Where the
  code appends zeros to a message and fills in a structure, the model appends the bytes of the structure.
\<close>

section \<open>Port descriptions and notifications\<close>

abbreviation (input) OFPT_FLOW_EXPIRED :: u8 where "OFPT_FLOW_EXPIRED \<equiv> 13"
abbreviation (input) OFPT_PORT_STATUS :: u8 where "OFPT_PORT_STATUS \<equiv> 14"
abbreviation (input) OFPPR_ADD :: u8 where "OFPPR_ADD \<equiv> 0"
abbreviation (input) OFPPR_DELETE :: u8 where "OFPPR_DELETE \<equiv> 1"
abbreviation (input) OFPPR_MODIFY :: u8 where "OFPPR_MODIFY \<equiv> 2"

definition port_name :: "u8 list \<Rightarrow> u8 list" where
  "port_name s = (take 16 (s @ replicate 16 0))[15 := 0]"

text \<open>The 48 bytes of \<open>struct ofp_phy_port\<close>; the device of an unused port is a null pointer.\<close>

definition fill_port_desc :: "dp_env \<Rightarrow> nat \<Rightarrow> datapath \<Rightarrow> u8 list option" where
  "fill_port_desc env i dp = do {
     let p = dp_ports dp ! i;
     nd \<leftarrow> sp_netdev p;
     Some (bytes16 (htons (of_nat i)) @ eth_bytes (e_addr env nd) @ port_name (e_name env nd) @
       bytes32 (htonl (sp_config p)) @ bytes32 (htonl (sp_state p)) @ bytes32 (htonl (e_features env nd 0)) @
       bytes32 (htonl (e_features env nd 1)) @ bytes32 (htonl (e_features env nd 2)) @ bytes32 (htonl (e_features env nd 3)))
   }"

definition send_port_status :: "dp_env \<Rightarrow> nat \<Rightarrow> u8 \<Rightarrow> datapath \<Rightarrow> datapath option" where
  "send_port_status env i status dp = do {
     b \<leftarrow> make_openflow_xid (e_junk env) 64 OFPT_PORT_STATUS 0;
     desc \<leftarrow> fill_port_desc env i dp;
     b \<leftarrow> stn (bdata b + 8) ([status] @ replicate 7 0 @ desc) b;
     (retval, dp) \<leftarrow> send_openflow_buffer env 0 b dp;
     Some dp
   }"

definition match_bytes :: "ofp_match \<Rightarrow> u8 list" where
  "match_bytes m = bytes32 (m_wildcards m) @ bytes16 (m_in_port m) @ eth_bytes (m_dl_src m) @ eth_bytes (m_dl_dst m) @
     bytes16 (m_dl_vlan m) @ bytes16 (m_dl_type m) @ [m_nw_proto m, m_pad m] @ bytes32 (m_nw_src m) @ bytes32 (m_nw_dst m) @
     bytes16 (m_tp_src m) @ bytes16 (m_tp_dst m) @ bytes32 (m_mpls_label1 m) @ bytes32 (m_mpls_label2 m)"

definition send_flow_expired :: "dp_env \<Rightarrow> sw_flow \<Rightarrow> datapath \<Rightarrow> datapath option" where
  "send_flow_expired env f dp = do {
     b \<leftarrow> make_openflow_xid (e_junk env) 80 OFPT_FLOW_EXPIRED 0;
     b \<leftarrow> stn (bdata b + 8) (match_bytes (flow_fill_match (key f)) @ bytes16 (htons (priority f)) @ [reason f, 0] @
       bytes32 (htonl (of_int (e_now env - created f))) @ replicate 4 0 @ bytes64 (htonll (packet_count f)) @
       bytes64 (htonll (byte_count f))) b;
     (retval, dp) \<leftarrow> send_openflow_buffer env 0 b dp;
     Some dp
   }"


section \<open>Replies to simple requests\<close>

abbreviation (input) OFPT_ECHO_REPLY :: u8 where "OFPT_ECHO_REPLY \<equiv> 3"
abbreviation (input) OFPT_FEATURES_REPLY :: u8 where "OFPT_FEATURES_REPLY \<equiv> 6"
abbreviation (input) OFPT_VPORT_TABLE_FEATURES_REPLY :: u8 where "OFPT_VPORT_TABLE_FEATURES_REPLY \<equiv> 8"
abbreviation (input) OFPT_GET_CONFIG_REPLY :: u8 where "OFPT_GET_CONFIG_REPLY \<equiv> 10"
abbreviation (input) OFPT_STATS_REPLY :: u8 where "OFPT_STATS_REPLY \<equiv> 20"
abbreviation (input) OFP_SUPPORTED_CAPABILITIES :: u32 where "OFP_SUPPORTED_CAPABILITIES \<equiv> 0x57"
abbreviation (input) OFP_SUPPORTED_ACTIONS :: u32 where "OFP_SUPPORTED_ACTIONS \<equiv> 0xfff"
abbreviation (input) OFP_SUPPORTED_VPORT_TABLE_ACTIONS :: u32 where "OFP_SUPPORTED_VPORT_TABLE_ACTIONS \<equiv> 0x1f"
abbreviation (input) N_PKT_BUFFERS :: u32 where "N_PKT_BUFFERS \<equiv> 256"

definition put_bytes :: "dp_env \<Rightarrow> u8 list \<Rightarrow> ofpbuf \<Rightarrow> ofpbuf" where
  "put_bytes env bs b = snd (ofpbuf_put (e_junk env) bs b)"

fun put_port_descs :: "dp_env \<Rightarrow> datapath \<Rightarrow> nat list \<Rightarrow> ofpbuf \<Rightarrow> ofpbuf option" where
  "put_port_descs env dp [] b = Some b"
| "put_port_descs env dp (i # is) b = do {
     desc \<leftarrow> fill_port_desc env i dp;
     put_port_descs env dp is (put_bytes env desc b)
   }"

definition dp_send_features_reply :: "dp_env \<Rightarrow> sender \<Rightarrow> datapath \<Rightarrow> datapath option" where
  "dp_send_features_reply env sender dp = do {
     b \<leftarrow> make_openflow_xid (e_junk env) 32 OFPT_FEATURES_REPLY (s_xid sender);
     b \<leftarrow> stn (bdata b + 8) (bytes64 (htonll (dp_id dp)) @ bytes32 (htonl N_PKT_BUFFERS) @
       [of_nat (length (tables (dp_chain dp))), 0, 0, 0] @ bytes32 (htonl OFP_SUPPORTED_CAPABILITIES) @
       bytes32 (htonl OFP_SUPPORTED_ACTIONS)) b;
     b \<leftarrow> put_port_descs env dp (port_list dp) b;
     (retval, dp) \<leftarrow> send_openflow_buffer env (s_remote sender) b dp;
     Some dp
   }"

definition dp_send_vport_table_features :: "dp_env \<Rightarrow> sender \<Rightarrow> datapath \<Rightarrow> datapath option" where
  "dp_send_vport_table_features env sender dp = do {
     b \<leftarrow> make_openflow_xid (e_junk env) 24 OFPT_VPORT_TABLE_FEATURES_REPLY (s_xid sender);
     b \<leftarrow> stn (bdata b + 8) (bytes32 (htonl (max_vports (vport_table dp))) @
       bytes32 (htonl OFP_SUPPORTED_VPORT_TABLE_ACTIONS) @ bytes16 (htons (- 1)) @ [1, 0, 0, 0, 0, 0]) b;
     (retval, dp) \<leftarrow> send_openflow_buffer env (s_remote sender) b dp;
     Some dp
   }"

definition recv_features_request :: "dp_env \<Rightarrow> sender \<Rightarrow> datapath \<Rightarrow> (int \<times> datapath) option" where
  "recv_features_request env sender dp = do { dp \<leftarrow> dp_send_features_reply env sender dp; Some (0, dp) }"

definition recv_vport_table_features_request :: "dp_env \<Rightarrow> sender \<Rightarrow> datapath \<Rightarrow> (int \<times> datapath) option" where
  "recv_vport_table_features_request env sender dp = do { dp \<leftarrow> dp_send_vport_table_features env sender dp; Some (0, dp) }"

definition recv_get_config_request :: "dp_env \<Rightarrow> sender \<Rightarrow> datapath \<Rightarrow> (int \<times> datapath) option" where
  "recv_get_config_request env sender dp = do {
     b \<leftarrow> make_openflow_xid (e_junk env) 12 OFPT_GET_CONFIG_REPLY (s_xid sender);
     b \<leftarrow> stn (bdata b + 8) (bytes16 (htons (dp_flags dp)) @ bytes16 (htons (miss_send_len dp))) b;
     send_openflow_buffer env (s_remote sender) b dp
   }"

definition make_echo_reply :: "dp_env \<Rightarrow> u8 list \<Rightarrow> ofpbuf option" where
  "make_echo_reply env rq = do {
     let (reply, out) = ofpbuf_put (e_junk env) (ofp_bytes rq) (ofpbuf_new (e_junk env) (ofp_length rq));
     st8 (reply + 1) OFPT_ECHO_REPLY out
   }"

definition recv_echo_request :: "dp_env \<Rightarrow> sender \<Rightarrow> u8 list \<Rightarrow> datapath \<Rightarrow> (int \<times> datapath) option" where
  "recv_echo_request env sender oh dp = do {
     b \<leftarrow> make_echo_reply env oh;
     send_openflow_buffer env (s_remote sender) b dp
   }"


section \<open>Statistics\<close>

abbreviation (input) OFPST_DESC :: u16 where "OFPST_DESC \<equiv> 0"
abbreviation (input) OFPST_FLOW :: u16 where "OFPST_FLOW \<equiv> 1"
abbreviation (input) OFPST_AGGREGATE :: u16 where "OFPST_AGGREGATE \<equiv> 2"
abbreviation (input) OFPST_TABLE :: u16 where "OFPST_TABLE \<equiv> 3"
abbreviation (input) OFPST_PORT :: u16 where "OFPST_PORT \<equiv> 4"
abbreviation (input) OFPST_PORT_TABLE :: u16 where "OFPST_PORT_TABLE \<equiv> 5"
abbreviation (input) MAX_FLOW_STATS_BYTES :: nat where "MAX_FLOW_STATS_BYTES \<equiv> 4096"
abbreviation (input) OFPP_MAX :: u32 where "OFPP_MAX \<equiv> 0xff00"

text \<open>The match of an entry as the statistics give it; the MPLS labels stay 0.\<close>

definition flow_stats_match :: "sw_flow_key \<Rightarrow> ofp_match" where
  "flow_stats_match k =
     (let f = key_flow k in
      \<lparr>m_wildcards = htonl (wildcards k), m_in_port = in_port f, m_dl_src = dl_src f, m_dl_dst = dl_dst f,
       m_dl_vlan = dl_vlan f, m_dl_type = dl_type f, m_nw_proto = nw_proto f, m_pad = 0, m_nw_src = nw_src f,
       m_nw_dst = nw_dst f, m_tp_src = tp_src f, m_tp_dst = tp_dst f, m_mpls_label1 = 0, m_mpls_label2 = 0\<rparr>)"

definition fill_flow_stats :: "dp_env \<Rightarrow> nat \<Rightarrow> sw_flow \<Rightarrow> ofpbuf \<Rightarrow> ofpbuf" where
  "fill_flow_stats env table_idx f b =
     put_bytes env (bytes16 (htons (of_nat (80 + length (sf_acts f)))) @ [of_nat table_idx, 0] @
       match_bytes (flow_stats_match (key f)) @ bytes32 (htonl (of_int (e_now env - created f))) @
       bytes16 (htons (priority f)) @ bytes16 (htons (idle_timeout f)) @ bytes16 (htons (hard_timeout f)) @ replicate 6 0 @
       bytes64 (htonll (packet_count f)) @ bytes64 (htonll (byte_count f)) @ sf_acts f) b"

definition flow_stats_dump_callback :: "dp_env \<Rightarrow> nat \<Rightarrow> sw_flow \<Rightarrow> ofpbuf \<Rightarrow> int \<times> ofpbuf" where
  "flow_stats_dump_callback env table_idx f b =
     (let b = fill_flow_stats env table_idx f b in (if MAX_FLOW_STATS_BYTES \<le> bsize b then 1 else 0, b))"

text \<open>The request for flow and for aggregate statistics: a match, a table, a port.\<close>

definition rq_table_id :: "u8 list \<Rightarrow> u8" where "rq_table_id rq = rq ! 44"
definition rq_out_port :: "u8 list \<Rightarrow> u16" where "rq_out_port rq = get_u16 rq 46"

definition rq_first_table :: "u8 list \<Rightarrow> nat" where
  "rq_first_table rq = (if rq_table_id rq = 0xff then 0 else unat (rq_table_id rq))"

text \<open>
  The loop of \<open>flow_stats_dump\<close> over the tables that are left, the first of which has the number \<open>i\<close>; the result
  is the number and the position of the iteration that was stopped, or of the first table not looked at.
\<close>

fun flow_stats_loop :: "dp_env \<Rightarrow> fheap \<Rightarrow> u8 list \<Rightarrow> sw_table list \<Rightarrow> nat \<Rightarrow> u64 \<times> u64 \<Rightarrow> ofpbuf
    \<Rightarrow> (nat \<times> (u64 \<times> u64) \<times> ofpbuf) option" where
  "flow_stats_loop env h rq [] i pos b = Some (i, pos, b)"
| "flow_stats_loop env h rq (t # ts) i pos b =
     (if rq_table_id rq = 0xff \<or> unat (rq_table_id rq) = i then do {
        (e, pos, b) \<leftarrow> table_iterate h t (flow_extract_match (get_match rq 0)) (rq_out_port rq) (flow_stats_dump_callback env i) pos b;
        if e \<noteq> 0 then Some (i, pos, b) else flow_stats_loop env h rq ts (i + 1) (0, 0) b
      } else Some (i, pos, b))"

definition flow_stats_dump :: "dp_env \<Rightarrow> flow_stats_state \<Rightarrow> ofpbuf \<Rightarrow> datapath \<Rightarrow> (int \<times> flow_stats_state \<times> ofpbuf) option" where
  "flow_stats_dump env s b dp = do {
     (i, pos, b) \<leftarrow> flow_stats_loop env (dp_heap dp) (fs_rq s) (drop (fs_table_idx s) (tables (dp_chain dp)))
       (fs_table_idx s) (fs_position s) b;
     Some (if MAX_FLOW_STATS_BYTES \<le> bsize b then 1 else 0, s\<lparr>fs_table_idx := i, fs_position := pos\<rparr>, b)
   }"

text \<open>Aggregate statistics: packets, bytes, flows.\<close>

definition aggregate_stats_dump_callback :: "sw_flow \<Rightarrow> u64 \<times> u64 \<times> u32 \<Rightarrow> int \<times> u64 \<times> u64 \<times> u32" where
  "aggregate_stats_dump_callback f rpy =
     (case rpy of (pc, bc, fc) \<Rightarrow> (0, pc + packet_count f, bc + byte_count f, fc + 1))"

fun aggregate_stats_loop :: "fheap \<Rightarrow> u8 list \<Rightarrow> sw_table list \<Rightarrow> nat \<Rightarrow> u64 \<times> u64 \<times> u32 \<Rightarrow> (int \<times> u64 \<times> u64 \<times> u32) option" where
  "aggregate_stats_loop h rq [] i rpy = Some (0, rpy)"
| "aggregate_stats_loop h rq (t # ts) i rpy =
     (if rq_table_id rq = 0xff \<or> unat (rq_table_id rq) = i then do {
        (e, pos, rpy) \<leftarrow> table_iterate h t (flow_extract_match (get_match rq 0)) (rq_out_port rq) aggregate_stats_dump_callback (0, 0) rpy;
        if e \<noteq> 0 then Some (e, rpy) else aggregate_stats_loop h rq ts (i + 1) rpy
      } else Some (0, rpy))"

definition aggregate_stats_dump :: "dp_env \<Rightarrow> u8 list \<Rightarrow> ofpbuf \<Rightarrow> datapath \<Rightarrow> (int \<times> ofpbuf) option" where
  "aggregate_stats_dump env rq b dp = do {
     (e, pc, bc, fc) \<leftarrow> aggregate_stats_loop (dp_heap dp) rq (drop (rq_first_table rq) (tables (dp_chain dp))) (rq_first_table rq) (0, 0, 0);
     Some (e, if e \<noteq> 0 then put_bytes env (bytes64 pc @ bytes64 bc @ bytes32 fc @ replicate 4 0) b
              else put_bytes env (bytes64 (htonll pc) @ bytes64 (htonll bc) @ bytes32 (htonl fc) @ replicate 4 0) b)
   }"

text \<open>\<open>strncpy\<close> of a string into an array of \<open>n\<close> bytes that were 0.\<close>

definition strncpy :: "nat \<Rightarrow> u8 list \<Rightarrow> u8 list" where
  "strncpy n s = take n (s @ replicate n 0)"

definition desc_stats_dump :: "dp_env \<Rightarrow> ofpbuf \<Rightarrow> ofpbuf" where
  "desc_stats_dump env b =
     put_bytes env (strncpy 256 (e_desc env 0) @ strncpy 256 (e_desc env 1) @ strncpy 256 (e_desc env 2) @ strncpy 32 (e_desc env 3)) b"

fun table_stats_dump :: "dp_env \<Rightarrow> nat \<Rightarrow> sw_table list \<Rightarrow> ofpbuf \<Rightarrow> ofpbuf" where
  "table_stats_dump env i [] b = b"
| "table_stats_dump env i (t # ts) b =
     (let s = table_stats t in
      table_stats_dump env (i + 1) ts (put_bytes env ([of_nat i, 0, 0, 0] @ strncpy 32 (map of_char (st_name s)) @
        bytes32 (htonl (st_wildcards s)) @ bytes32 (htonl (st_max_flows s)) @ bytes32 (htonl (st_n_flows s)) @
        bytes64 (htonll (st_n_lookup s)) @ bytes64 (htonll (st_n_matched s))) b))"

definition port_table_stats_dump :: "dp_env \<Rightarrow> vport_table_t \<Rightarrow> ofpbuf \<Rightarrow> ofpbuf" where
  "port_table_stats_dump env t b =
     put_bytes env (bytes32 (htonl (max_vports t)) @ bytes32 (htonl (active_vports t)) @ bytes64 (htonll (lookup_count t)) @
       bytes64 (htonll (port_match_count t)) @ bytes64 (htonll (chain_match_count t))) b"

text \<open>A \<open>struct ofp_port_stats\<close>: the number of the port and its counters in host order.\<close>

definition port_stats_bytes :: "u32 \<Rightarrow> u64 list \<Rightarrow> u8 list" where
  "port_stats_bytes no counters = bytes32 (htonl no) @ replicate 4 0 @ concat (map (bytes64 \<circ> htonll) counters)"

text \<open>The loop of \<open>port_stats_dump\<close>; a number above the array of ports but not above \<open>OFPP_MAX\<close> reads behind the array.\<close>

fun port_stats_loop :: "dp_env \<Rightarrow> datapath \<Rightarrow> u32 list \<Rightarrow> ofpbuf \<Rightarrow> ofpbuf option" where
  "port_stats_loop env dp [] b = Some b"
| "port_stats_loop env dp (q # qs) b =
     (let port = ntohl q in
      if port \<le> OFPP_MAX then
        if unat port < DP_MAX_PORTS then
          let p = dp_ports dp ! unat port in
          port_stats_loop env dp qs
            (if sp_netdev p = None then b
             else put_bytes env (port_stats_bytes port [rx_packets p, tx_packets p, rx_bytes p, tx_bytes p, - 1, tx_dropped p,
               - 1, - 1, - 1, - 1, - 1, - 1, mpls_ttl0_dropped p]) b)
        else None
      else if OFPP_VP_START \<le> port \<and> port \<le> OFPP_VP_END then
        case vport_table_lookup (vport_table dp) port of
          None \<Rightarrow> port_stats_loop env dp qs b
        | Some a \<Rightarrow> do {
            vpe \<leftarrow> vport_heap dp a;
            port_stats_loop env dp qs (put_bytes env (port_stats_bytes (vport vpe) [- 1, vp_packet_count vpe, - 1,
              vp_byte_count vpe, - 1, - 1, - 1, - 1, - 1, - 1, - 1, - 1, - 1]) b)
          }
      else port_stats_loop env dp qs b)"

text \<open>The table of the kinds of statistics: type, least and greatest length of the request's body.\<close>

definition stats_types :: "(u16 \<times> nat \<times> nat) list" where
  "stats_types = [(OFPST_DESC, 0, 0), (OFPST_FLOW, 48, 48), (OFPST_AGGREGATE, 48, 48), (OFPST_TABLE, 0, 0),
     (OFPST_PORT, 0, 2 ^ 64 - 1), (OFPST_PORT_TABLE, 0, 0)]"

definition flow_stats_init :: "u8 list \<Rightarrow> flow_stats_state" where
  "flow_stats_init body = \<lparr>fs_table_idx = rq_first_table body, fs_position = (0, 0), fs_rq = body\<rparr>"

definition port_stats_init :: "u8 list \<Rightarrow> u32 list" where
  "port_stats_init body = map (\<lambda>i. get_u32 body (4 * i)) [0..<length body div 4]"

definition stats_init :: "u16 \<Rightarrow> u8 list \<Rightarrow> stats_state" where
  "stats_init type body =
     (if type = OFPST_FLOW then Flow_State (flow_stats_init body)
      else if type = OFPST_AGGREGATE then Aggregate_State body
      else if type = OFPST_PORT then Port_State (port_stats_init body)
      else No_State)"

text \<open>The \<open>dump\<close> function of the kind of statistics; \<open>None\<close> also for a state of another kind, which \<open>stats_init\<close> never makes.\<close>

definition stats_dump_one :: "dp_env \<Rightarrow> u16 \<Rightarrow> stats_state \<Rightarrow> ofpbuf \<Rightarrow> datapath \<Rightarrow> (int \<times> stats_state \<times> ofpbuf) option" where
  "stats_dump_one env type st b dp =
     (case st of
        Flow_State s \<Rightarrow> if type = OFPST_FLOW then do { (e, s, b) \<leftarrow> flow_stats_dump env s b dp; Some (e, Flow_State s, b) } else None
      | Aggregate_State rq \<Rightarrow> if type = OFPST_AGGREGATE then do { (e, b) \<leftarrow> aggregate_stats_dump env rq b dp; Some (e, st, b) } else None
      | Port_State ports \<Rightarrow> if type = OFPST_PORT then do { b \<leftarrow> port_stats_loop env dp ports b; Some (0, st, b) } else None
      | No_State \<Rightarrow>
          if type = OFPST_DESC then Some (0, st, desc_stats_dump env b)
          else if type = OFPST_TABLE then Some (0, st, table_stats_dump env 0 (tables (dp_chain dp)) b)
          else if type = OFPST_PORT_TABLE then Some (0, st, port_table_stats_dump env (vport_table dp) b)
          else None)"

definition stats_dump :: "dp_env \<Rightarrow> stats_dump_cb \<Rightarrow> datapath \<Rightarrow> (int \<times> stats_dump_cb \<times> datapath) option" where
  "stats_dump env cb dp =
     (if cb_finished cb then Some (0, cb, dp)
      else do {
        b \<leftarrow> make_openflow_xid (e_junk env) 12 OFPT_STATS_REPLY (s_xid (cb_sender cb));
        b \<leftarrow> stn (bdata b + 8) (bytes16 (htons (cb_type cb)) @ [0, 0]) b;
        (err, st, b) \<leftarrow> stats_dump_one env (cb_type cb) (cb_state cb) b dp;
        let cb = cb\<lparr>cb_state := st\<rparr>;
        if 0 \<le> err then do {
          let cb = (if err = 0 then cb\<lparr>cb_finished := True\<rparr> else cb);
          b \<leftarrow> (if err = 0 then Some b else do { osr \<leftarrow> ofpbuf_at_assert b 0 12; st16 (osr + 10) (ntohs 1) b });
          (err2, dp) \<leftarrow> send_openflow_buffer env (s_remote (cb_sender cb)) b dp;
          Some (if err2 \<noteq> 0 then err2 else err, cb, dp)
        } else Some (err, cb, dp)
      })"

text \<open>
  A request for statistics leaves a reply in progress.  The length of the body is a signed number that
  the comparisons take for an unsigned one; \<open>xmalloc\<close> stops the program on such a length.
\<close>

definition recv_stats_request :: "sender \<Rightarrow> u8 list \<Rightarrow> datapath \<Rightarrow> (int \<times> datapath) option" where
  "recv_stats_request sender rq dp =
     (let type = ntohs (get_u16 rq 8); rq_len = ofp_length rq;
          body_len = (if rq_len < 12 then 2 ^ 64 - (12 - rq_len) else rq_len - 12) in
      case map_of stats_types type of
        None \<Rightarrow> Some (- EINVAL, dp)
      | Some (min_body, max_body) \<Rightarrow>
          if body_len < min_body \<or> max_body < body_len then Some (- EINVAL, dp)
          else if rq_len < 12 then None
          else if cb_dump dp (s_remote sender) \<noteq> None then None
          else Some (0, dp\<lparr>cb_dump := (cb_dump dp)(s_remote sender \<mapsto> \<lparr>cb_finished = False, cb_sender = sender,
            cb_type = type, cb_state = stats_init type (drop 12 (ofp_bytes rq))\<rparr>)\<rparr>))"


section \<open>Dispatch\<close>

abbreviation (input) EFAULT :: int where "EFAULT \<equiv> 14"
abbreviation (input) OFPET_BAD_REQUEST :: u16 where "OFPET_BAD_REQUEST \<equiv> 1"
abbreviation (input) OFPBRC_BAD_TYPE :: u16 where "OFPBRC_BAD_TYPE \<equiv> 1"

text \<open>The types of messages that have a handler, with the least size that is asked of them.\<close>

definition min_sizes :: "(u8 \<times> nat) list" where
  "min_sizes = [(5, 8), (9, 8), (11, 12), (15, 16), (16, 72), (17, 32), (19, 12), (2, 8), (3, 8), (18, 24), (7, 8)]"

definition handle_message :: "dp_env \<Rightarrow> nat \<Rightarrow> sender \<Rightarrow> u8 list \<Rightarrow> datapath \<Rightarrow> (int \<times> datapath) option" where
  "handle_message env n sender msg dp =
     (let type = msg ! 1 in
      if type = 5 then recv_features_request env sender dp
      else if type = 9 then recv_get_config_request env sender dp
      else if type = 11 then Some (0, recv_set_config msg dp)
      else if type = 15 then recv_packet_out env n sender msg dp
      else if type = 16 then recv_flow env n sender msg dp
      else if type = 17 then recv_port_mod env msg dp
      else if type = 19 then recv_stats_request sender msg dp
      else if type = 2 then recv_echo_request env sender msg dp
      else if type = 3 then Some (0, dp)
      else if type = 18 then recv_vport_mod env sender msg dp
      else recv_vport_table_features_request env sender dp)"

definition fwd_control_input :: "dp_env \<Rightarrow> nat \<Rightarrow> sender \<Rightarrow> u8 list \<Rightarrow> datapath \<Rightarrow> (int \<times> datapath) option" where
  "fwd_control_input env n sender msg dp =
     (if length msg < ofp_length msg then Some (- EINVAL, dp)
      else if msg ! 0 \<noteq> OFP_VERSION then None
      else case map_of min_sizes (msg ! 1) of
        None \<Rightarrow> do {
          dp \<leftarrow> dp_send_error_msg env sender OFPET_BAD_REQUEST OFPBRC_BAD_TYPE msg dp;
          Some (- EINVAL, dp)
        }
      | Some min_size \<Rightarrow> if length msg < min_size then Some (- EFAULT, dp) else handle_message env n sender msg dp)"


section \<open>Replies keep the invariant\<close>

lemma send_openflow_buffer_log:
  assumes "send_openflow_buffer env r b dp = Some (v, dp')"
  shows "dp' = dp \<or> (\<exists>e. dp' = log_event e dp)"
  using assms by (auto simp: send_openflow_buffer_def Let_def split: bind_splits if_splits)

lemma send_port_status_inv:
  assumes "send_port_status env i s dp = Some dp'"
  shows "dp_inv_at rs dp' = dp_inv_at rs dp" and "port_list dp' = port_list dp" and "dp_ports dp' = dp_ports dp"
    and "dp_heap dp' = dp_heap dp"
proof -
  have "dp' = dp \<or> (\<exists>e. dp' = log_event e dp)"
    using assms by (auto simp: send_port_status_def dest: send_openflow_buffer_log split: bind_splits)
  then show "dp_inv_at rs dp' = dp_inv_at rs dp" "port_list dp' = port_list dp" "dp_ports dp' = dp_ports dp" "dp_heap dp' = dp_heap dp"
    by (auto simp: log_event_def inv_defs)
qed

lemma send_flow_expired_log:
  "send_flow_expired env f dp = Some dp' \<Longrightarrow> dp' = dp \<or> (\<exists>e. dp' = log_event e dp)"
  by (auto simp: send_flow_expired_def dest: send_openflow_buffer_log split: bind_splits)

lemma dp_send_features_reply_log:
  "dp_send_features_reply env s dp = Some dp' \<Longrightarrow> dp' = dp \<or> (\<exists>e. dp' = log_event e dp)"
  by (auto simp: dp_send_features_reply_def dest: send_openflow_buffer_log split: bind_splits)

lemma dp_send_vport_table_features_log:
  "dp_send_vport_table_features env s dp = Some dp' \<Longrightarrow> dp' = dp \<or> (\<exists>e. dp' = log_event e dp)"
  by (auto simp: dp_send_vport_table_features_def dest: send_openflow_buffer_log split: bind_splits)

lemma recv_get_config_request_log:
  "recv_get_config_request env s dp = Some (r, dp') \<Longrightarrow> dp' = dp \<or> (\<exists>e. dp' = log_event e dp)"
  by (auto simp: recv_get_config_request_def dest: send_openflow_buffer_log split: bind_splits)

lemma recv_echo_request_log:
  "recv_echo_request env s msg dp = Some (r, dp') \<Longrightarrow> dp' = dp \<or> (\<exists>e. dp' = log_event e dp)"
  by (auto simp: recv_echo_request_def dest: send_openflow_buffer_log split: bind_splits)

lemma cb_ok_init:
  assumes "map_of stats_types t = Some (lo, hi)" and "lo \<le> length body" and "length body \<le> hi"
  shows "cb_ok \<lparr>cb_finished = fin, cb_sender = s, cb_type = t, cb_state = stats_init t body\<rparr>"
  using assms by (auto simp: stats_types_def cb_ok_def stats_init_def flow_stats_init_def split: if_splits)

lemma recv_stats_request_inv:
  assumes inv: "dp_inv_at rs dp" and s: "s_remote s \<in> set (remotes dp)" and len: "ofp_length msg \<le> length msg"
    and run: "recv_stats_request s msg dp = Some (r, dp')"
  shows "dp_inv_at rs dp'"
proof -
  define t where "t = ntohs (get_u16 msg 8)"
  define cb where "cb = \<lparr>cb_finished = False, cb_sender = s, cb_type = t, cb_state = stats_init t (drop 12 (ofp_bytes msg))\<rparr>"
  have body: "length (drop 12 (ofp_bytes msg)) = ofp_length msg - 12" using len by (simp add: ofp_bytes_def)
  consider "dp' = dp" | lo hi where "map_of stats_types t = Some (lo, hi)" "lo \<le> ofp_length msg - 12" "ofp_length msg - 12 \<le> hi"
      "dp' = dp\<lparr>cb_dump := (cb_dump dp)(s_remote s \<mapsto> cb)\<rparr>"
    using run unfolding recv_stats_request_def Let_def t_def [symmetric] cb_def [symmetric]
    by (cases "map_of stats_types t") (force simp: not_less split: prod.splits if_splits)+
  then show ?thesis
  proof cases
    case 2
    then have "cb_ok cb" unfolding cb_def by (intro cb_ok_init) (simp_all only: body)
    then show ?thesis using inv s 2 by (auto simp: inv_defs dumps_inv_def cb_def)
  qed (use inv in simp)
qed

lemma handle_message_inv:
  assumes inv: "dp_inv_at rs dp" and al: "alloc_ok env" and s: "s_remote s \<in> set (remotes dp)" and len: "ofp_length msg \<le> length msg"
    and run: "handle_message env n s msg dp = Some (r, dp')"
  shows "dp_inv_at rs dp'"
proof -
  have log: "dp' = dp \<or> (\<exists>e. dp' = log_event e dp) \<Longrightarrow> ?thesis" using inv by auto
  note logs = dp_send_features_reply_log dp_send_vport_table_features_log recv_get_config_request_log recv_echo_request_log
  note keeps = recv_packet_out_inv [OF inv] recv_flow_inv [OF inv al] dp_update_port_flags_inv [OF inv]
    recv_stats_request_inv [OF inv s len] recv_vport_mod_inv [OF inv al] recv_set_config_inv [OF inv]
  show ?thesis
    using run log keeps logs inv unfolding handle_message_def Let_def recv_features_request_def recv_vport_table_features_request_def recv_port_mod_def
    by (fastforce split: if_splits bind_splits)
qed

lemma fwd_control_input_inv:
  assumes inv: "dp_inv_at rs dp" and al: "alloc_ok env" and s: "s_remote s \<in> set (remotes dp)"
    and run: "fwd_control_input env n s msg dp = Some (r, dp')"
  shows "dp_inv_at rs dp'"
  using run inv handle_message_inv [OF inv al s] dp_send_error_msg_inv unfolding fwd_control_input_def
  by (auto simp: not_less split: if_splits option.splits bind_splits)

end
