(* ===== verification/Statistics.thy ===== *)
theory Statistics
  imports Replies
begin

text \<open>
  Statistics replies: which requests stop the switch, and when a reply never comes to its end.  The
  iterations of the tables are shown to keep what their callback keeps.
\<close>

section \<open>Messages under construction\<close>

lemma ofpbuf_put_zeros_put: "ofpbuf_put_zeros junk n b = ofpbuf_put junk (replicate n 0) b"
  by (simp add: ofpbuf_put_zeros_def ofpbuf_put_def)

lemma put_bytes_ok:
  assumes "ofpbuf_ok b"
  shows "ofpbuf_ok (put_bytes env bs b)" "contents (put_bytes env bs b) = contents b @ bs"
    "bsize (put_bytes env bs b) = bsize b + length bs"
proof -
  show ok: "ofpbuf_ok (put_bytes env bs b)" and c: "contents (put_bytes env bs b) = contents b @ bs"
    using ofpbuf_put_contents [OF assms] by (simp_all add: put_bytes_def)
  show "bsize (put_bytes env bs b) = bsize b + length bs"
    using arg_cong [OF c, of length] ok assms by simp
qed

lemma make_openflow_xid_ok:
  assumes "8 \<le> n" and "n \<le> 65535"
  obtains b where "make_openflow_xid junk n t xid = Some b" "ofpbuf_ok b" "bsize b = n" "bdata b = 0"
    "contents b = [OFP_VERSION, t] @ bytes16 (htons (of_nat n)) @ bytes32 xid @ replicate (n - 8) 0"
proof -
  obtain oh b where put: "ofpbuf_put junk (replicate n 0) (ofpbuf_new junk n) = (oh, b)" by fastforce
  note c = ofpbuf_put_contents [of "ofpbuf_new junk n" junk "replicate n 0", unfolded put, simplified]
  have oh: "oh = 0" "bdata b = 0" using put by (auto simp: ofpbuf_put_def ofpbuf_put_uninit_def ofpbuf_prealloc_tailroom_def
      ofpbuf_new_def ofpbuf_init_def ofpbuf_use_def Let_def ofpbuf_tail_def split: if_splits)
  have size: "bsize b = n" using arg_cong [OF c(1), of length] c(2) by simp
  let ?x = "[OFP_VERSION, t] @ bytes16 (htons (of_nat n)) @ bytes32 xid"
  have lx: "length ?x = 8" by simp
  have "bdata b \<le> oh" "oh + length ?x \<le> ofpbuf_tail b" using oh size assms(1) by (simp_all add: ofpbuf_tail_def)
  note st = stn_contents [OF c(2) this]
  have "write_at 0 ?x (replicate n 0) = ?x @ replicate (n - 8) 0" by (simp add: write_at_def lx)
  then show thesis
    using that [of "b\<lparr>area := write_at oh ?x (area b)\<rparr>"] st assms put size oh c(1)
    by (simp add: make_openflow_xid_def ofpbuf_put_zeros_put)
qed

lemma stn_ok:
  assumes "ofpbuf_ok b" and "i + length xs \<le> bsize b"
  obtains b' where "stn (bdata b + i) xs b = Some b'" "ofpbuf_ok b'" "bsize b' = bsize b" "bdata b' = bdata b"
    "contents b' = write_at i xs (contents b)"
  using stn_contents [OF assms(1), of "bdata b + i" xs] assms(2) that by (simp add: ofpbuf_tail_def)

lemma send_openflow_buffer_ok:
  assumes "ofpbuf_ok b" and "8 \<le> bsize b" and "r \<in> set (remotes dp)"
  shows "send_openflow_buffer env r b dp \<noteq> None"
proof -
  have "2 + length (bytes16 (htons (of_nat (bsize b)))) \<le> bsize b" using assms(2) by simp
  with assms(1) obtain b' where "stn (bdata b + 2) (bytes16 (htons (of_nat (bsize b)))) b = Some b'" by (rule stn_ok)
  then show ?thesis
    using assms(2,3) by (simp add: send_openflow_buffer_def update_openflow_length_def ofpbuf_at_assert_def st16_def Let_def)
qed


section \<open>Iterations keep what the callback keeps\<close>

text \<open>\<open>P\<close> holds of what the callback works on, the result included.\<close>

definition callback_keeps :: "('p \<Rightarrow> bool) \<Rightarrow> (sw_flow \<Rightarrow> 'p \<Rightarrow> int \<times> 'p) \<Rightarrow> bool" where
  "callback_keeps P callback \<longleftrightarrow> (\<forall>f p. P p \<longrightarrow> P (snd (callback f p)))"

lemma callback_keepsD: "callback_keeps P callback \<Longrightarrow> callback f p = (e, p') \<Longrightarrow> P p \<Longrightarrow> P p'"
  by (metis callback_keeps_def snd_conv)

lemma th_iterate_loop_keeps:
  assumes "callback_keeps P callback" and "P p"
    and "\<And>i a. i \<in> set is \<Longrightarrow> buckets th ! i = Some a \<Longrightarrow> acts_ok (sf_acts (fl h a))"
  shows "\<exists>e pos' p'. th_iterate_loop h th k out_port callback is pos p = Some (e, pos', p') \<and> P p'"
  using assms(2,3)
proof (induction "is" arbitrary: p)
  case (Cons i "is")
  have acts: "\<And>j b. j \<in> set is \<Longrightarrow> buckets th ! j = Some b \<Longrightarrow> acts_ok (sf_acts (fl h b))"
    using Cons.prems(2) by (metis list.set_intros(2))
  show ?case
  proof (cases "buckets th ! i")
    case (Some a)
    obtain e p' where cb: "callback (fl h a) p = (e, p')" by fastforce
    have "P p'" using callback_keepsD [OF assms(1) cb Cons.prems(1)] .
    moreover have "flow_has_out_port (fl h a) out_port = Some (has_out_port (fl h a) out_port)"
      using Cons.prems(2) [of i a] Some by (simp add: flow_has_out_port_ok)
    ultimately show ?thesis using Cons.IH [OF Cons.prems(1) acts] Cons.IH [of p', OF _ acts] Some cb by simp
  qed (use Cons.IH [OF Cons.prems(1) acts] in simp)
qed simp

lemma table_hash_iterate_keeps:
  assumes cb: "callback_keeps P callback" and p: "P p" and inv: "hash_inv h th" and acts: "acts_valid h"
  shows "\<exists>e pos' p'. table_hash_iterate h th k out_port callback pos p = Some (e, pos', p') \<and> P p'"
proof -
  have ok: "acts_ok (sf_acts (fl h a))" if "a \<in> hash_flows th" for a
    using acts hash.flows_dom [OF inv] that by (auto simp: acts_valid_def)
  show ?thesis
  proof (cases "ucast (bucket_mask th) < pos \<or> wildcards k \<noteq> 0")
    case True
    have "i < length (buckets th)" if "i \<in> set [unat pos..<Suc (unat (bucket_mask th))]" for i
      using that inv by (simp add: hash_inv_def hash_shape_def del: upt_Suc)
    then have "\<exists>e pos' p'. th_iterate_loop h th k out_port callback [unat pos..<Suc (unat (bucket_mask th))] pos p =
        Some (e, pos', p') \<and> P p'"
      by (intro th_iterate_loop_keeps [OF cb p] ok) (auto simp: hash_flows_iff simp del: upt_Suc)
    then show ?thesis using True p by (auto simp: table_hash_iterate_def simp del: upt_Suc)
  next
    case False
    have "flow_has_out_port (fl h a) out_port = Some (has_out_port (fl h a) out_port)" if "table_hash_lookup h th k = Some a" for a
      using ok hash_lookup_sound [OF inv that] by (simp add: flow_has_out_port_ok)
    then show ?thesis
      using False p callback_keepsD [OF cb] by (auto simp: table_hash_iterate_def split: option.splits prod.splits)
  qed
qed

lemma t2_iterate_loop_keeps:
  assumes cb: "callback_keeps P callback" and acts: "acts_valid h"
  shows "P p \<Longrightarrow> \<forall>th \<in> set ths. hash_inv h th \<Longrightarrow>
    \<exists>e pos' p'. t2_iterate_loop h ths k out_port callback pos p = Some (e, pos', p') \<and> P p'"
proof (induction ths arbitrary: pos p)
  case (Cons th ths)
  obtain p0 p1 where pos: "pos = (p0, p1)" by fastforce
  obtain e pos' p' where r: "table_hash_iterate h th k out_port callback p0 p = Some (e, pos', p')" "P p'"
    using table_hash_iterate_keeps [OF cb Cons.prems(1) _ acts, of th k out_port p0] Cons.prems(2) by auto
  then show ?case using Cons.IH [of p' "(0, p1 + 1)"] Cons.prems(2) by (simp add: pos)
qed (simp add: exI)

lemma tl_iterate_loop_keeps:
  assumes "callback_keeps P callback" and "\<And>a. a \<in> set as \<Longrightarrow> acts_ok (sf_acts (fl h a))"
  shows "P p \<Longrightarrow> \<exists>e pos' p'. tl_iterate_loop h k out_port callback start as pos p = Some (e, pos', p') \<and> P p'"
  using assms(2)
proof (induction "as" arbitrary: p)
  case (Cons a "as")
  obtain e p' where cb: "callback (fl h a) p = (e, p')" by fastforce
  have "P p'" using callback_keepsD [OF assms(1) cb Cons.prems(1)] .
  then show ?case using Cons cb by (simp add: flow_has_out_port_ok)
qed simp

lemma table_iterate_keeps:
  assumes cb: "callback_keeps P callback" and p: "P p" and inv: "table_inv h t" and acts: "acts_valid h"
  shows "\<exists>e pos' p'. table_iterate h t k out_port callback pos p = Some (e, pos', p') \<and> P p'"
proof (cases t)
  case (Hash x)
  then show ?thesis using table_hash_iterate_keeps [OF cb p _ acts, of x k out_port "fst pos"] inv by force
next
  case (Hash2 x)
  have "\<forall>th \<in> set (drop (unat (snd pos)) [subtable0 x, subtable1 x]). hash_inv h th"
    using inv Hash2 by (auto simp: hash2_inv_def dest!: in_set_dropD)
  from t2_iterate_loop_keeps [OF cb acts p this] show ?thesis by (simp add: Hash2 table_hash2_iterate_def)
next
  case (Linear x)
  have "acts_ok (sf_acts (fl h a))" if "a \<in> set (iter_flows x)" for a
    using that acts inv Linear by (auto simp: linear_inv_def acts_valid_def)
  from tl_iterate_loop_keeps [OF cb this p, of "iter_flows x" k out_port "NOT (fst pos)" "fst pos"]
  show ?thesis by (auto simp: Linear table_linear_iterate_def)
qed



section \<open>Requests that stop the switch\<close>

definition reply_ok :: "ofpbuf \<Rightarrow> bool" where
  "reply_ok b \<longleftrightarrow> ofpbuf_ok b \<and> 12 \<le> bsize b"

lemma reply_ok_put: "reply_ok b \<Longrightarrow> reply_ok (put_bytes env bs b)"
  by (simp add: reply_ok_def put_bytes_ok)

lemma flow_stats_loop_ok:
  assumes "tables_inv h ts" and "acts_valid h" and "reply_ok b"
  shows "\<exists>i' pos' b'. flow_stats_loop env h rq ts i pos b = Some (i', pos', b') \<and> reply_ok b'"
  using assms(1,3)
proof (induction ts arbitrary: i pos b)
  case (Cons t ts)
  have cb: "callback_keeps reply_ok (flow_stats_dump_callback env i)"
    by (simp add: callback_keeps_def flow_stats_dump_callback_def fill_flow_stats_def reply_ok_put Let_def)
  have inv: "table_inv h t" "tables_inv h ts" using Cons.prems(1) by simp_all
  obtain e pos' b' where "table_iterate h t (flow_extract_match (get_match rq 0)) (rq_out_port rq)
      (flow_stats_dump_callback env i) pos b = Some (e, pos', b')" "reply_ok b'"
    using table_iterate_keeps [OF cb Cons.prems(2) inv(1) assms(2)] by blast
  then show ?case using Cons.IH [OF inv(2), of b' "i + 1" "(0, 0)"] Cons.prems(2) by simp
qed simp

lemma aggregate_stats_loop_ok:
  assumes "tables_inv h ts" and "acts_valid h"
  shows "aggregate_stats_loop h rq ts i rpy \<noteq> None"
  using assms(1)
proof (induction ts arbitrary: i rpy)
  case (Cons t ts)
  have cb: "callback_keeps (\<lambda>p. True) aggregate_stats_dump_callback" by (simp add: callback_keeps_def)
  have inv: "table_inv h t" "tables_inv h ts" using Cons.prems(1) by simp_all
  obtain e pos' r where "table_iterate h t (flow_extract_match (get_match rq 0)) (rq_out_port rq)
      aggregate_stats_dump_callback (0, 0) rpy = Some (e, pos', r)"
    using table_iterate_keeps [OF cb TrueI inv(1) assms(2)] by blast
  then show ?case using Cons.IH [OF inv(2), of "i + 1" r] by (cases r, cases rpy) simp
qed simp

lemma table_stats_dump_ok: "reply_ok b \<Longrightarrow> reply_ok (table_stats_dump env i ts b)"
  by (induction env i ts b rule: table_stats_dump.induct) (simp_all add: Let_def reply_ok_put)

text \<open>A port number for which the statistics read behind the array of ports.\<close>

definition port_behind :: "u32 \<Rightarrow> bool" where
  "port_behind q \<longleftrightarrow> DP_MAX_PORTS \<le> unat (ntohl q) \<and> ntohl q \<le> OFPP_MAX"

lemma port_stats_loop_ok:
  assumes "vport_inv (vport_heap dp) (vport_table dp)" and "reply_ok b"
  shows "(port_stats_loop env dp qs b = None \<longleftrightarrow> (\<exists>q \<in> set qs. port_behind q)) \<and>
    (\<forall>b'. port_stats_loop env dp qs b = Some b' \<longrightarrow> reply_ok b')"
  using assms(2)
proof (induction qs arbitrary: b)
  case (Cons q qs)
  have vp: "\<exists>vpe. vport_heap dp a = Some vpe" if "vport_table_lookup (vport_table dp) (ntohl q) = Some a" for a
    using assms(1) that by (auto simp: vport_inv_def vport_table_lookup_def)
  note ih = Cons.IH [OF Cons.prems] and put = Cons.IH [OF reply_ok_put [OF Cons.prems]]
  consider "port_behind q" | "ntohl q \<le> OFPP_MAX" "\<not> port_behind q" | "\<not> ntohl q \<le> OFPP_MAX" by blast
  then show ?case
  proof cases
    case 1
    then show ?thesis by (simp add: Let_def port_behind_def)
  next
    case 2
    then show ?thesis using ih put by (auto simp: Let_def port_behind_def)
  next
    case 3
    then have "\<not> port_behind q" by (simp add: port_behind_def)
    then show ?thesis
      using 3 ih vp put [THEN conjunct2]
      by (cases "vport_table_lookup (vport_table dp) (ntohl q)") (auto simp: Let_def put [THEN conjunct1])
  qed
qed simp



lemma tables_inv_drop: "tables_inv h ts \<Longrightarrow> tables_inv h (drop n ts)"
  by (induction ts arbitrary: n) (auto simp: drop_Cons' split: nat.splits)

lemma stats_dump_one_ok:
  assumes inv: "dp_inv dp" and cb: "cb_ok cb" and b: "reply_ok b"
  shows "(stats_dump_one env (cb_type cb) (cb_state cb) b dp = None \<longleftrightarrow>
      (\<exists>ports. cb_state cb = Port_State ports \<and> (\<exists>q \<in> set ports. port_behind q))) \<and>
    (\<forall>e st b'. stats_dump_one env (cb_type cb) (cb_state cb) b dp = Some (e, st, b') \<longrightarrow>
      reply_ok b' \<and> cb_ok (cb\<lparr>cb_state := st\<rparr>))"
proof -
  have inv': "tables_inv (dp_heap dp) (drop n (tables (dp_chain dp)))" "acts_valid (dp_heap dp)"
    "vport_inv (vport_heap dp) (vport_table dp)" for n
    using inv tables_inv_drop by (auto simp: dp_inv_def flows_inv_tables)
  show ?thesis
  proof (cases "cb_state cb")
    case No_State
    then show ?thesis
      using cb b table_stats_dump_ok [OF b]
      by (auto simp: cb_ok_def stats_dump_one_def desc_stats_dump_def port_table_stats_dump_def reply_ok_put)
  next
    case (Flow_State s)
    obtain i pos b' where "flow_stats_loop env (dp_heap dp) (fs_rq s) (drop (fs_table_idx s) (tables (dp_chain dp)))
        (fs_table_idx s) (fs_position s) b = Some (i, pos, b')" "reply_ok b'"
      using flow_stats_loop_ok [OF inv'(1,2) b] by blast
    then show ?thesis using Flow_State cb by (simp add: cb_ok_def stats_dump_one_def flow_stats_dump_def)
  next
    case (Aggregate_State rq)
    obtain e pc bc fc where "aggregate_stats_loop (dp_heap dp) rq (drop (rq_first_table rq) (tables (dp_chain dp)))
        (rq_first_table rq) (0, 0, 0) = Some (e, pc, bc, fc)"
      using aggregate_stats_loop_ok [OF inv'(1,2), of rq "rq_first_table rq" "rq_first_table rq" "(0, 0, 0)"] by auto
    then show ?thesis
      using Aggregate_State cb b by (simp add: cb_ok_def stats_dump_one_def aggregate_stats_dump_def reply_ok_put)
  next
    case (Port_State ports)
    then show ?thesis
      using port_stats_loop_ok [OF inv'(3) b, of env ports] cb
      by (cases "port_stats_loop env dp ports b") (simp_all add: cb_ok_def stats_dump_one_def)
  qed
qed

lemma stats_reply_start:
  obtains b0 b where "make_openflow_xid junk 12 OFPT_STATS_REPLY xid = Some b0"
    "stn (bdata b0 + 8) (bytes16 (htons t) @ [0, 0]) b0 = Some b" "reply_ok b"
proof -
  obtain b0 where b0: "make_openflow_xid junk 12 OFPT_STATS_REPLY xid = Some b0" "ofpbuf_ok b0" "bsize b0 = 12"
    by (rule make_openflow_xid_ok [of 12 junk OFPT_STATS_REPLY xid]) auto
  moreover obtain b where "stn (bdata b0 + 8) (bytes16 (htons t) @ [0, 0]) b0 = Some b" "ofpbuf_ok b" "bsize b = bsize b0"
    by (rule stn_ok [OF b0(2), of 8 "bytes16 (htons t) @ [0, 0]"]) (use b0(3) in auto)
  ultimately show thesis using that by (simp add: reply_ok_def)
qed

lemma reply_more_ok:
  assumes "reply_ok b"
  obtains b' where "do { osr \<leftarrow> ofpbuf_at_assert b 0 12; st16 (osr + 10) (ntohs 1) b } = Some b'" "reply_ok b'"
  using stn_ok [of b 10 "bytes16 (ntohs 1)"] assms that
  by (fastforce simp: reply_ok_def ofpbuf_at_assert_def st16_def)

lemma stats_dump_cases:
  assumes inv: "dp_inv dp" and cb: "cb_dump dp r = Some cb"
  shows "(stats_dump env cb dp = None \<longleftrightarrow>
      \<not> cb_finished cb \<and> (\<exists>ports. cb_state cb = Port_State ports \<and> (\<exists>q \<in> set ports. port_behind q))) \<and>
    (\<forall>e cb' dp'. stats_dump env cb dp = Some (e, cb', dp') \<longrightarrow>
      (dp' = dp \<or> (\<exists>ev. dp' = log_event ev dp)) \<and> cb_ok cb' \<and> cb_sender cb' = cb_sender cb)"
proof (cases "cb_finished cb")
  case False
  have cb': "cb_ok cb" "s_remote (cb_sender cb) = r" "r \<in> set (remotes dp)"
    using inv cb by (auto simp: dp_inv_def dumps_inv_def)
  obtain b0 b where b: "make_openflow_xid (e_junk env) 12 OFPT_STATS_REPLY (s_xid (cb_sender cb)) = Some b0"
    "stn (bdata b0 + 8) (bytes16 (htons (cb_type cb)) @ [0, 0]) b0 = Some b" "reply_ok b" by (rule stats_reply_start)
  note one = stats_dump_one_ok [OF inv cb'(1) b(3), of env]
  show ?thesis
  proof (cases "stats_dump_one env (cb_type cb) (cb_state cb) b dp")
    case None
    then show ?thesis using one False b by (simp add: stats_dump_def)
  next
    case (Some x)
    obtain e st b1 where x: "x = (e, st, b1)" by (cases x)
    have ok: "reply_ok b1" "cb_ok (cb\<lparr>cb_state := st\<rparr>)" using one Some x by auto
    then have fin: "cb_ok (cb\<lparr>cb_state := st, cb_finished := True\<rparr>)" by (cases st) (simp_all add: cb_ok_def)
    obtain b2 where b2: "do { osr \<leftarrow> ofpbuf_at_assert b1 0 12; st16 (osr + 10) (ntohs 1) b1 } = Some b2" "reply_ok b2"
      using ok(1) by (rule reply_more_ok)
    have send: "\<exists>v dp'. send_openflow_buffer env r x dp = Some (v, dp')" if "reply_ok x" for x
      using send_openflow_buffer_ok [of x r dp env] that cb'(3) by (auto simp: reply_ok_def)
    obtain v1 dp1 v2 dp2 where s: "send_openflow_buffer env r b1 dp = Some (v1, dp1)" "send_openflow_buffer env r b2 dp = Some (v2, dp2)"
      using send [OF ok(1)] send [OF b2(2)] by blast
    note logs = send_openflow_buffer_log [OF s(1)] send_openflow_buffer_log [OF s(2)]
    have "\<not> (\<exists>ports. cb_state cb = Port_State ports \<and> (\<exists>q \<in> set ports. port_behind q))" using one Some by auto
    then show ?thesis
      using False b Some x ok fin b2(1) s logs cb'(2)
      by (auto simp: stats_dump_def Let_def split: if_splits)
  qed
qed (use inv cb in \<open>auto simp: stats_dump_def dp_inv_def dumps_inv_def\<close>)

text \<open>
  C40. A statistics reply in progress never stops the switch on an assertion or on a bad access, except for
  the statistics of ports: asked for a port above the array of ports but not above \<open>OFPP_MAX\<close>, the switch
  reads behind the array.
\<close>

theorem stats_dump_crash_iff:
  assumes "dp_inv dp" and "cb_dump dp r = Some cb"
  shows "stats_dump env cb dp = None \<longleftrightarrow>
    \<not> cb_finished cb \<and> (\<exists>ports. cb_state cb = Port_State ports \<and> (\<exists>q \<in> set ports. port_behind q))"
  using stats_dump_cases [OF assms] by blast



section \<open>A reply without end\<close>

definition entry_size :: "sw_flow \<Rightarrow> nat" where
  "entry_size f = 80 + length (sf_acts f)"

lemma length_match_bytes [simp]: "length (match_bytes m) = 44"
  by (simp add: match_bytes_def)

lemma length_bytes64 [simp]: "length (bytes64 x) = 8"
  by (simp add: bytes64_def)

lemma fill_flow_stats_ok:
  assumes "ofpbuf_ok b"
  shows "ofpbuf_ok (fill_flow_stats env i f b)" "bsize (fill_flow_stats env i f b) = bsize b + entry_size f"
  using put_bytes_ok [OF assms] by (simp_all add: fill_flow_stats_def entry_size_def)

lemma flow_stats_stop:
  assumes "\<And>x. x \<in> set (as @ [a]) \<Longrightarrow> acts_ok (sf_acts (fl h x))" and "tl_wanted h k out_port a" and "serial (fl h a) = 0"
    and "ofpbuf_ok b" and "bsize b + sum_list (map (entry_size \<circ> fl h) (filter (tl_wanted h k out_port) as)) < MAX_FLOW_STATS_BYTES"
    and "MAX_FLOW_STATS_BYTES \<le> bsize b + sum_list (map (entry_size \<circ> fl h) (filter (tl_wanted h k out_port) as)) + entry_size (fl h a)"
  shows "\<exists>b'. tl_iterate_loop h k out_port (flow_stats_dump_callback env i) (- 1) (as @ [a]) pos b = Some (1, 0, b') \<and>
    ofpbuf_ok b' \<and> MAX_FLOW_STATS_BYTES \<le> bsize b'"
  using assms(1,4-6)
proof (induction "as" arbitrary: b)
  case Nil
  then show ?case
    using assms(2,3) fill_flow_stats_ok [OF Nil.prems(2), of env i "fl h a"]
    by (simp add: tl_wanted_def flow_has_out_port_ok flow_stats_dump_callback_def Let_def)
next
  case (Cons x "as")
  let ?b = "fill_flow_stats env i (fl h x) b"
  have acts: "\<And>y. y \<in> set (as @ [a]) \<Longrightarrow> acts_ok (sf_acts (fl h y))" and x: "acts_ok (sf_acts (fl h x))"
    using Cons.prems(1) by simp_all
  note b = fill_flow_stats_ok [OF Cons.prems(2), of env i "fl h x"]
  show ?case
  proof (cases "tl_wanted h k out_port x")
    case True
    then have "flow_stats_dump_callback env i (fl h x) b = (0, ?b)"
      using Cons.prems(3) b(2) by (simp add: flow_stats_dump_callback_def Let_def)
    moreover have "\<exists>b'. tl_iterate_loop h k out_port (flow_stats_dump_callback env i) (- 1) (as @ [a]) pos ?b = Some (1, 0, b') \<and>
        ofpbuf_ok b' \<and> MAX_FLOW_STATS_BYTES \<le> bsize b'"
      using Cons.prems(3,4) True b by (intro Cons.IH acts) simp_all
    ultimately show ?thesis using True x by (simp add: tl_wanted_def flow_has_out_port_ok)
  next
    case False
    moreover have "\<exists>b'. tl_iterate_loop h k out_port (flow_stats_dump_callback env i) (- 1) (as @ [a]) pos b = Some (1, 0, b') \<and>
        ofpbuf_ok b' \<and> MAX_FLOW_STATS_BYTES \<le> bsize b'"
      using Cons.prems False by (intro Cons.IH acts) simp_all
    ultimately show ?thesis using x by (auto simp: tl_wanted_def flow_has_out_port_ok)
  qed
qed

text \<open>The callback is called \<open>n\<close> times, as long as it asks to be called again.\<close>

primrec stats_dump_again :: "dp_env \<Rightarrow> nat \<Rightarrow> stats_dump_cb \<Rightarrow> datapath \<Rightarrow> (stats_dump_cb \<times> datapath) option" where
  "stats_dump_again env 0 cb dp = Some (cb, dp)"
| "stats_dump_again env (Suc n) cb dp = do {
     (e, cb, dp) \<leftarrow> stats_dump env cb dp;
     if 0 < e then stats_dump_again env n cb dp else None
   }"

text \<open>What the flow statistics of a table take up in a reply.\<close>

definition flow_stats_size :: "fheap \<Rightarrow> u8 list \<Rightarrow> addr list \<Rightarrow> nat" where
  "flow_stats_size h rq as = sum_list (map (entry_size \<circ> fl h)
     (filter (tl_wanted h (flow_extract_match (get_match rq 0)) (rq_out_port rq)) as))"

lemma stats_dump_same:
  assumes inv: "dp_inv dp" and cb: "cb_dump dp r = Some cb" "\<not> cb_finished cb" "cb_state cb = Flow_State s"
    and tab: "drop (fs_table_idx s) (tables (dp_chain dp)) = Linear tb # ts" "fst (fs_position s) = 0"
      "rq_table_id (fs_rq s) = 0xff \<or> unat (rq_table_id (fs_rq s)) = fs_table_idx s"
    and last: "iter_flows tb = as @ [a]" "serial (fl (dp_heap dp) a) = 0"
      "tl_wanted (dp_heap dp) (flow_extract_match (get_match (fs_rq s) 0)) (rq_out_port (fs_rq s)) a"
    and size: "12 + flow_stats_size (dp_heap dp) (fs_rq s) as < MAX_FLOW_STATS_BYTES"
      "MAX_FLOW_STATS_BYTES \<le> 12 + flow_stats_size (dp_heap dp) (fs_rq s) (as @ [a])"
    and conn: "\<And>bs. e_rconn env bs = 0"
  shows "\<exists>ev. stats_dump env cb dp = Some (1, cb, log_event ev dp)"
proof -
  let ?h = "dp_heap dp" and ?rq = "fs_rq s" and ?i = "fs_table_idx s"
  let ?k = "flow_extract_match (get_match ?rq 0)"
  obtain b0 where b0: "make_openflow_xid (e_junk env) 12 OFPT_STATS_REPLY (s_xid (cb_sender cb)) = Some b0" "ofpbuf_ok b0"
    "bsize b0 = 12" by (rule make_openflow_xid_ok [of 12 "e_junk env" OFPT_STATS_REPLY "s_xid (cb_sender cb)"]) auto
  obtain b where b: "stn (bdata b0 + 8) (bytes16 (htons (cb_type cb)) @ [0, 0]) b0 = Some b" "ofpbuf_ok b" "bsize b = 12"
    by (rule stn_ok [OF b0(2), of 8 "bytes16 (htons (cb_type cb)) @ [0, 0]"]) (use b0(3) in auto)
  have cb': "s_remote (cb_sender cb) = r" "r \<in> set (remotes dp)" "cb_ok cb"
    using inv cb(1) by (auto simp: dp_inv_def dumps_inv_def)
  then have flow: "cb_type cb = OFPST_FLOW" using cb(3) by (simp add: cb_ok_def)
  have tinv: "table_inv ?h (Linear tb)" "acts_valid ?h"
    using tables_inv_drop [of ?h "tables (dp_chain dp)" ?i] inv tab(1) by (auto simp: dp_inv_def flows_inv_tables)
  then have "set (iter_flows tb) \<subseteq> dom ?h" by (simp add: linear_inv_def)
  then have acts: "\<And>x. x \<in> set (as @ [a]) \<Longrightarrow> acts_ok (sf_acts (fl ?h x))"
    unfolding last(1) acts_valid_def using tinv(2) [unfolded acts_valid_def] by blast
  have all: "NOT (fst (fs_position s)) = - 1" using tab(2) by simp
  obtain b1 where b1: "tl_iterate_loop ?h ?k (rq_out_port ?rq) (flow_stats_dump_callback env ?i) (- 1) (as @ [a]) (fst (fs_position s)) b =
      Some (1, 0, b1)" "ofpbuf_ok b1" "MAX_FLOW_STATS_BYTES \<le> bsize b1"
    using flow_stats_stop [OF acts last(3,2) b(2), where env = env and i = ?i and pos = "fst (fs_position s)"] size last(3) b(3)
    by (auto simp: flow_stats_size_def)
  have same: "s\<lparr>fs_table_idx := ?i, fs_position := (0, snd (fs_position s))\<rparr> = s" using tab(2) by (cases s) (auto simp: prod_eq_iff)
  have dump: "flow_stats_dump env s b dp = Some (1, s, b1)"
    using tab(3) b1(1,3) same by (simp add: flow_stats_dump_def tab(1) table_linear_iterate_def last(1) all)
  have "reply_ok b1" using b1(2,3) by (simp add: reply_ok_def)
  then obtain b2 where b2: "do { osr \<leftarrow> ofpbuf_at_assert b1 0 12; st16 (osr + 10) (ntohs 1) b1 } = Some b2" "reply_ok b2"
    by (rule reply_more_ok)
  have "send_openflow_buffer env r b2 dp \<noteq> None" using send_openflow_buffer_ok b2(2) cb'(2) by (simp add: reply_ok_def)
  then obtain ev where "send_openflow_buffer env r b2 dp = Some (0, log_event ev dp)"
    using conn by (auto simp: send_openflow_buffer_def Let_def split: bind_splits if_splits)
  moreover have "cb\<lparr>cb_state := Flow_State s\<rparr> = cb" using cb(3) by (cases cb) simp
  moreover obtain osr where "ofpbuf_at_assert b1 0 12 = Some osr" "st16 (osr + 10) (ntohs 1) b1 = Some b2"
    using b2(1) by (auto split: bind_splits)
  ultimately have "stats_dump env cb dp = Some (1, cb, log_event ev dp)"
    using cb(2,3) cb'(1) flow b0(1) b(1) dump by (simp add: stats_dump_def stats_dump_one_def)
  then show ?thesis ..
qed

text \<open>
  A flow statistics reply that fills a message with the very first flow of the linear table, the one with
  serial number 0, starts over with the next message: the callback asks to be called again and again, and
  the state of the reply stays the same.
\<close>

theorem flow_stats_never_end:
  assumes "dp_inv dp" and "cb_dump dp r = Some cb" and "\<not> cb_finished cb" and "cb_state cb = Flow_State s"
    and "drop (fs_table_idx s) (tables (dp_chain dp)) = Linear tb # ts" and "fst (fs_position s) = 0"
    and "rq_table_id (fs_rq s) = 0xff \<or> unat (rq_table_id (fs_rq s)) = fs_table_idx s"
    and "iter_flows tb = as @ [a]" and "serial (fl (dp_heap dp) a) = 0"
    and "tl_wanted (dp_heap dp) (flow_extract_match (get_match (fs_rq s) 0)) (rq_out_port (fs_rq s)) a"
    and "12 + flow_stats_size (dp_heap dp) (fs_rq s) as < MAX_FLOW_STATS_BYTES"
    and "MAX_FLOW_STATS_BYTES \<le> 12 + flow_stats_size (dp_heap dp) (fs_rq s) (as @ [a])"
    and "\<And>bs. e_rconn env bs = 0"
  shows "\<exists>dp'. stats_dump_again env n cb dp = Some (cb, dp') \<and> length (events dp') = length (events dp) + n"
  using assms
proof (induction n arbitrary: dp)
  case (Suc n)
  obtain ev where ev: "stats_dump env cb dp = Some (1, cb, log_event ev dp)"
    using stats_dump_same [OF Suc.prems] by blast
  have "\<exists>dp'. stats_dump_again env n cb (log_event ev dp) = Some (cb, dp') \<and>
      length (events dp') = length (events (log_event ev dp)) + n"
    by (rule Suc.IH) (use Suc.prems in \<open>simp_all add: log_event_def inv_defs\<close>)
  then show ?case using ev by (auto simp: log_event_def)
qed simp



section \<open>Concrete inputs\<close>

text \<open>
  A switch without flows that was asked for the statistics of port 255, and one whose only flow has an
  action of 4008 bytes, asked for the statistics of the flows from port 1.
\<close>

definition quiet_dp :: "stats_dump_cb \<Rightarrow> datapath" where
  "quiet_dp cb = sample_dp\<lparr>dp_chain := \<lparr>tables = []\<rparr>, dp_heap := Map.empty, cb_dump := [0 \<mapsto> cb]\<rparr>"

definition port_cb :: stats_dump_cb where
  "port_cb = \<lparr>cb_finished = False, cb_sender = \<lparr>s_remote = 0, s_xid = 0\<rparr>, cb_type = 4, cb_state = Port_State [htonl 255]\<rparr>"

definition long_action :: "u8 list" where
  "long_action = [0xff, 0xff, 0x0f, 0xa8] @ replicate 4004 0"

definition long_flow :: sw_flow where
  "long_flow = (sample_flow 5 1)\<lparr>sf_acts := long_action, serial := 0\<rparr>"

definition long_rq :: "u8 list" where
  "long_rq = match_bytes (sample_match 1) @ [0xff, 0] @ bytes16 (htons OFPP_NONE)"

definition long_state :: flow_stats_state where
  "long_state = \<lparr>fs_table_idx = 0, fs_position = (0, 0), fs_rq = long_rq\<rparr>"

definition flow_cb :: stats_dump_cb where
  "flow_cb = \<lparr>cb_finished = False, cb_sender = \<lparr>s_remote = 0, s_xid = 0\<rparr>, cb_type = 1, cb_state = Flow_State long_state\<rparr>"

definition long_dp :: datapath where
  "long_dp = sample_dp\<lparr>dp_chain := \<lparr>tables = [Linear (sample_linear\<lparr>n_flows := 1, flows := [0], iter_flows := [0]\<rparr>)]\<rparr>,
     dp_heap := [0 \<mapsto> long_flow], cb_dump := [0 \<mapsto> flow_cb]\<rparr>"

lemma quiet_dp_inv: "cb_ok cb \<Longrightarrow> s_remote (cb_sender cb) = 0 \<Longrightarrow> dp_inv (quiet_dp cb)"
  using vport_inv_init(1)
  by (simp add: inv_defs quiet_dp_def sample_dp_def flows_inv_tables acts_valid_def dumps_inv_def)

lemma long_action_ok: "acts_ok long_action" "length long_action = 4008"
proof -
  show "length long_action = 4008" by (simp add: long_action_def)
  then show "acts_ok long_action"
    by (simp add: acts_ok.simps [of long_action] act_len_def get_u16_def le16_def htons_def)
      (simp add: long_action_def nth_append acts_ok.simps [of "[]"])
qed

lemma long_rq_fields:
  "length long_rq = 48" "get_match long_rq 0 = sample_match 1" "rq_out_port long_rq = htons OFPP_NONE" "rq_table_id long_rq = 0xff"
  unfolding long_rq_def rq_out_port_def rq_table_id_def by code_simp+

lemma long_wanted:
  "tl_wanted (dp_heap long_dp) (flow_extract_match (get_match long_rq 0)) (rq_out_port long_rq) 0"
proof -
  have "key (fl (dp_heap long_dp) 0) = flow_extract_match (sample_match 1)"
    by (simp add: long_dp_def fl_def long_flow_def sample_flow_def)
  then show ?thesis
    using flow_matches_2wild_refl by (simp add: tl_wanted_def long_rq_fields has_out_port_def)
qed

lemma long_dp_inv: "dp_inv long_dp"
proof -
  have "key_wf (key long_flow)" "priority long_flow = 5" "sf_acts long_flow = long_action" by (simp_all add: long_flow_def)
  then have "flows_inv (dp_heap long_dp) (dp_chain long_dp)"
    using long_action_ok(1)
    by (simp add: flows_inv_tables long_dp_def linear_inv_def sample_linear_def prios_def fl_def acts_valid_def)
  then show ?thesis
    using vport_inv_init(1) long_rq_fields(1)
    by (simp add: inv_defs long_dp_def sample_dp_def dumps_inv_def cb_ok_def flow_cb_def long_state_def)
qed

theorem stats_dump_crash_iff_witness: "stats_dump sample_env port_cb (quiet_dp port_cb) = None"
proof -
  have "dp_inv (quiet_dp port_cb)" by (rule quiet_dp_inv) (simp_all add: port_cb_def cb_ok_def)
  moreover have "cb_dump (quiet_dp port_cb) 0 = Some port_cb" by (simp add: quiet_dp_def)
  moreover have "\<not> cb_finished port_cb" "cb_state port_cb = Port_State [htonl 255]" by (simp_all add: port_cb_def)
  moreover have "port_behind (htonl 255)" by (simp add: port_behind_def)
  ultimately show ?thesis using stats_dump_crash_iff [of "quiet_dp port_cb" 0 port_cb sample_env] by auto
qed

theorem flow_stats_never_end_witness:
  "\<exists>dp'. stats_dump_again sample_env 1000 flow_cb long_dp = Some (flow_cb, dp') \<and> length (events dp') = 1000"
proof -
  let ?tb = "sample_linear\<lparr>n_flows := 1, flows := [0], iter_flows := [0]\<rparr>"
  have size: "flow_stats_size (dp_heap long_dp) long_rq [] = 0" "flow_stats_size (dp_heap long_dp) long_rq ([] @ [0]) = 4088"
    using long_wanted by (simp_all add: flow_stats_size_def entry_size_def long_action_ok(2)
      long_dp_def long_flow_def fl_def)
  have "cb_dump long_dp 0 = Some flow_cb" "\<not> cb_finished flow_cb" "cb_state flow_cb = Flow_State long_state"
    "drop (fs_table_idx long_state) (tables (dp_chain long_dp)) = Linear ?tb # []" "fst (fs_position long_state) = 0"
    "rq_table_id (fs_rq long_state) = 0xff" "iter_flows ?tb = [] @ [0]" "serial (fl (dp_heap long_dp) 0) = 0"
    "fs_rq long_state = long_rq" "events long_dp = []"
    by (simp_all add: long_dp_def flow_cb_def long_state_def long_rq_fields fl_def long_flow_def sample_dp_def)
  moreover have "e_rconn sample_env bs = 0" for bs by (simp add: sample_env_def)
  ultimately show ?thesis
    using flow_stats_never_end [OF long_dp_inv, of 0 flow_cb long_state ?tb "[]" "[]" 0 sample_env 1000] size long_wanted
    by simp
qed

end
