(* ===== verification/Switch.thy ===== *)
theory Switch
  imports Statistics
begin

text \<open>
  The life of a switch, first half of \<open>switch/datapath.c\<close>: creation, adding and deleting ports, the
  periodic work of \<open>dp_run\<close> (port status, expiry of flows, received frames), and the steps between the
  states of a switch that the other theories define.
\<close>

section \<open>Creation and ports\<close>

abbreviation (input) EXFULL :: int where "EXFULL \<equiv> 54"
abbreviation (input) ETH_TOTAL_MIN :: nat where "ETH_TOTAL_MIN \<equiv> 60"

definition zero_sw_port :: sw_port where
  "zero_sw_port = \<lparr>sp_config = 0, sp_state = 0, sp_netdev = None, rx_packets = 0, rx_bytes = 0, tx_packets = 0, tx_bytes = 0,
     tx_dropped = 0, mpls_ttl0_dropped = 0\<rparr>"

text \<open>A new datapath, its connections left out; the packet buffers are static and start as zeros.\<close>

definition dp_new :: "dp_env \<Rightarrow> u64 \<Rightarrow> datapath option" where
  "dp_new env dpid = (case chain_create Map.empty of
     (h, None) \<Rightarrow> None
   | (h, Some c) \<Rightarrow> Some \<lparr>remotes = [0], cb_dump = Map.empty, last_timeout = e_now env,
       dp_id = (if dpid \<le> 0xffffffffffff then dpid else e_random_id env), dp_chain = c, dp_heap = h, dp_flags = 0, miss_send_len = 128, 
       dp_ports = replicate 255 zero_sw_port, port_list = [], vport_table = vport_table_init, vport_heap = Map.empty,
       buffers = replicate 256 \<lparr>pb_buffer = None, pb_cookie = 0, pb_timeout = 0\<rparr>, buffer_idx = 0, events = []\<rparr>)"

text \<open>\<open>dp_add_port\<close> on an opened device, or on the error code that opening it gave.\<close>

definition dp_add_port :: "dp_env \<Rightarrow> int + nat \<Rightarrow> datapath \<Rightarrow> (int \<times> datapath) option" where
  "dp_add_port env dev dp =
     (case dev of
        Inl error \<Rightarrow> Some (error, dp)
      | Inr nd \<Rightarrow>
          (case find (\<lambda>i. sp_netdev (dp_ports dp ! i) = None) [0..<DP_MAX_PORTS] of
             None \<Rightarrow> Some (EXFULL, dp)
           | Some i \<Rightarrow> do {
               dp \<leftarrow> send_port_status env i OFPPR_ADD
                 (dp\<lparr>dp_ports := (dp_ports dp)[i := zero_sw_port\<lparr>sp_netdev := Some nd\<rparr>], port_list := port_list dp @ [i]\<rparr>);
               Some (0, dp)
             }))"

definition del_switch_port :: "dp_env \<Rightarrow> nat \<Rightarrow> datapath \<Rightarrow> datapath option" where
  "del_switch_port env i dp = do {
     dp \<leftarrow> send_port_status env i OFPPR_DELETE dp;
     Some (update_port i (\<lambda>p. p\<lparr>sp_netdev := None\<rparr>) dp \<lparr>port_list := remove1 i (port_list dp)\<rparr>)
   }"


section \<open>Periodic work\<close>

definition update_port_status :: "dp_env \<Rightarrow> nat \<Rightarrow> datapath \<Rightarrow> (bool \<times> datapath) option" where
  "update_port_status env i dp = do {
     let p = dp_ports dp ! i;
     nd \<leftarrow> sp_netdev p;
     (case e_flags_up env nd of
        None \<Rightarrow> Some (False, dp)
      | Some up \<Rightarrow>
          let config = (if up then sp_config p AND NOT 1 else sp_config p OR 1);
              state = (if e_link env nd = 1 then sp_state p AND NOT 1
                       else if e_link env nd = 0 then sp_state p OR 1 else sp_state p)
          in Some (sp_config p \<noteq> config \<or> sp_state p \<noteq> state,
                   update_port i (\<lambda>p. p\<lparr>sp_config := config, sp_state := state\<rparr>) dp))
   }"

fun port_status_loop :: "dp_env \<Rightarrow> nat list \<Rightarrow> datapath \<Rightarrow> datapath option" where
  "port_status_loop env [] dp = Some dp"
| "port_status_loop env (i # is) dp = do {
     (changed, dp) \<leftarrow> update_port_status env i dp;
     dp \<leftarrow> (if changed then send_port_status env i OFPPR_MODIFY dp else Some dp);
     port_status_loop env is dp
   }"

fun expired_loop :: "dp_env \<Rightarrow> addr list \<Rightarrow> datapath \<Rightarrow> datapath option" where
  "expired_loop env [] dp = Some dp"
| "expired_loop env (a # as) dp = do {
     dp \<leftarrow> send_flow_expired env (fl (dp_heap dp) a) dp;
     expired_loop env as (dp\<lparr>dp_heap := flow_free a (dp_heap dp)\<rparr>)
   }"

text \<open>The part of \<open>dp_run\<close> that runs at most once per second.\<close>

definition dp_run_timeout :: "dp_env \<Rightarrow> datapath \<Rightarrow> datapath option" where
  "dp_run_timeout env dp =
     (if e_now env \<noteq> last_timeout dp then do {
        dp \<leftarrow> port_status_loop env (port_list dp) dp;
        let (h, c, deleted) = chain_timeout (e_now env) (dp_heap dp) (dp_chain dp) [];
        dp \<leftarrow> expired_loop env deleted (dp\<lparr>dp_heap := h, dp_chain := c\<rparr>);
        Some (dp\<lparr>last_timeout := e_now env\<rparr>)
      } else Some dp)"

text \<open>
  Frames.  The buffer for a frame has 130 bytes of headroom; it is kept for the next port when a device has
  nothing to deliver.  \<open>pad_to_minimum_length\<close> and \<open>netdev_recv\<close> are from \<open>lib/netdev.c\<close>, on what the device delivers.
\<close>

definition pad_to_minimum_length :: "(nat \<Rightarrow> u8) \<Rightarrow> ofpbuf \<Rightarrow> ofpbuf" where
  "pad_to_minimum_length junk b =
     (if bsize b < ETH_TOTAL_MIN then snd (ofpbuf_put_zeros junk (ETH_TOTAL_MIN - bsize b) b) else b)"

definition netdev_recv :: "(nat \<Rightarrow> u8) \<Rightarrow> int + u8 list \<Rightarrow> ofpbuf \<Rightarrow> (int \<times> ofpbuf) option" where
  "netdev_recv junk r b =
     (if bsize b \<noteq> 0 \<or> ofpbuf_tailroom b < ETH_TOTAL_MIN then None
      else case r of
        Inl error \<Rightarrow> Some (error, b)
      | Inr frame \<Rightarrow>
          let bs = take (ofpbuf_tailroom b) frame in
          Some (0, pad_to_minimum_length junk
            (b\<lparr>area := write_at (ofpbuf_tail b) bs (area b), bsize := bsize b + length bs\<rparr>)))"

definition recv_buffer :: "dp_env \<Rightarrow> nat \<Rightarrow> ofpbuf" where
  "recv_buffer env mtu = (let b = ofpbuf_new (e_junk env) (130 + 18 + mtu) in b\<lparr>bdata := bdata b + 130\<rparr>)"

fun run_ports :: "dp_env \<Rightarrow> nat \<Rightarrow> nat list \<Rightarrow> ofpbuf option \<Rightarrow> datapath \<Rightarrow> datapath option" where
  "run_ports env n [] buf dp = Some dp"
| "run_ports env n (i # is) buf dp = do {
     nd \<leftarrow> sp_netdev (dp_ports dp ! i);
     let b = (case buf of Some b \<Rightarrow> b | None \<Rightarrow> recv_buffer env (e_mtu env nd));
     (error, b) \<leftarrow> netdev_recv (e_junk env) (e_recv env nd) b;
     if error = 0 then do {
       dp \<leftarrow> fwd_port_input env n b (Some i)
         (update_port i (\<lambda>p. p\<lparr>rx_packets := rx_packets p + 1, rx_bytes := rx_bytes p + of_nat (bsize b)\<rparr>) dp);
       run_ports env n is None dp
     } else run_ports env n is (Some b) dp
   }"


section \<open>Connections\<close>

definition remote_create :: "nat \<Rightarrow> datapath \<Rightarrow> datapath" where
  "remote_create r dp = dp\<lparr>remotes := remotes dp @ [r], cb_dump := (cb_dump dp)(r := None)\<rparr>"

definition remote_destroy :: "nat \<Rightarrow> datapath \<Rightarrow> datapath" where
  "remote_destroy r dp = dp\<lparr>remotes := remove1 r (remotes dp), cb_dump := (cb_dump dp)(r := None)\<rparr>"

text \<open>
  The loop of \<open>remote_run\<close>, at most \<open>m\<close> times: with a reply in progress its next message is sent when the queue
  has room, otherwise the next of the messages that wait is handled.
\<close>

fun remote_run_loop :: "dp_env \<Rightarrow> nat \<Rightarrow> nat \<Rightarrow> nat \<Rightarrow> u8 list list \<Rightarrow> datapath \<Rightarrow> datapath option" where
  "remote_run_loop env n r 0 msgs dp = Some dp"
| "remote_run_loop env n r (Suc m) msgs dp =
     (case cb_dump dp r of
        None \<Rightarrow>
          (case msgs of
             [] \<Rightarrow> Some dp
           | msg # msgs \<Rightarrow>
               if 8 \<le> length msg then do {
                 (retval, dp) \<leftarrow> fwd_control_input env n \<lparr>s_remote = r, s_xid = get_u32 msg 4\<rparr> msg dp;
                 remote_run_loop env n r m msgs dp
               } else remote_run_loop env n r m msgs dp)
      | Some cb \<Rightarrow>
          if e_txq_room env r m then do {
            (error, cb, dp) \<leftarrow> stats_dump env cb dp;
            remote_run_loop env n r m msgs (dp\<lparr>cb_dump := (cb_dump dp)(r := (if error \<le> 0 then None else Some cb))\<rparr>)
          } else Some dp)"

definition remote_run :: "dp_env \<Rightarrow> nat \<Rightarrow> nat \<Rightarrow> datapath \<Rightarrow> datapath option" where
  "remote_run env n r dp = do {
     dp \<leftarrow> remote_run_loop env n r 50 (e_msgs env r) dp;
     Some (if e_alive env r then dp else remote_destroy r dp)
   }"

fun run_remotes :: "dp_env \<Rightarrow> nat \<Rightarrow> nat list \<Rightarrow> datapath \<Rightarrow> datapath option" where
  "run_remotes env n [] dp = Some dp"
| "run_remotes env n (r # rs) dp = do { dp \<leftarrow> remote_run env n r dp; run_remotes env n rs dp }"

primrec accept_remotes :: "dp_env \<Rightarrow> nat \<Rightarrow> datapath \<Rightarrow> datapath" where
  "accept_remotes env 0 dp = dp"
| "accept_remotes env (Suc k) dp = accept_remotes env k (remote_create (e_alloc_remote env (remotes dp)) dp)"

definition dp_run :: "dp_env \<Rightarrow> nat \<Rightarrow> datapath \<Rightarrow> datapath option" where
  "dp_run env n dp = do {
     dp \<leftarrow> dp_run_timeout env dp;
     dp \<leftarrow> run_ports env n (port_list dp) None dp;
     dp \<leftarrow> run_remotes env n (remotes dp) dp;
     Some (accept_remotes env (e_accept env) dp)
   }"

fun del_switch_ports :: "dp_env \<Rightarrow> nat list \<Rightarrow> datapath \<Rightarrow> datapath option" where
  "del_switch_ports env [] dp = Some dp"
| "del_switch_ports env (i # is) dp = do { dp \<leftarrow> del_switch_port env i dp; del_switch_ports env is dp }"

definition dp_destroy :: "dp_env \<Rightarrow> datapath \<Rightarrow> datapath option" where
  "dp_destroy env dp = do {
     dp \<leftarrow> del_switch_ports env (port_list dp) dp;
     Some (dp\<lparr>dp_heap := chain_destroy (dp_heap dp) (dp_chain dp)\<rparr>)
   }"


section \<open>Steps and reachable states\<close>

lemma chain_create_Some: obtains c where "chain_create h = (h, Some c)"
  by (simp add: chain_create_def add_table_def table_hash2_create_def table_hash_create_def TABLE_HASH_MAX_FLOWS_def
      CHAIN_MAX_TABLES_def)

lemma dp_new_inv: "dp_new env dpid = Some dp \<Longrightarrow> dp_inv dp"
proof -
  assume new: "dp_new env dpid = Some dp"
  obtain c where c: "chain_create Map.empty = (Map.empty, Some c)" by (rule chain_create_Some)
  have "flows_inv Map.empty c" using chain_inv_create [OF c] by (simp add: flows_inv_def acts_valid_def)
  then show ?thesis using new c vport_inv_init(1) by (auto simp: dp_new_def inv_defs dumps_inv_def)
qed

lemma dp_add_port_inv:
  assumes inv: "dp_inv_at rs dp" and run: "dp_add_port env dev dp = Some (r, dp')"
  shows "dp_inv_at rs dp'"
proof (cases dev)
  case (Inl e)
  then show ?thesis using assms by (simp add: dp_add_port_def)
next
  case (Inr nd)
  show ?thesis
  proof (cases "find (\<lambda>i. sp_netdev (dp_ports dp ! i) = None) [0..<DP_MAX_PORTS]")
    case None
    then show ?thesis using assms Inr by (simp add: dp_add_port_def)
  next
    case (Some i)
    then have i: "i < DP_MAX_PORTS" "sp_netdev (dp_ports dp ! i) = None" by (auto dest: find_SomeD)
    let ?dp = "dp\<lparr>dp_ports := (dp_ports dp)[i := zero_sw_port\<lparr>sp_netdev := Some nd\<rparr>], port_list := port_list dp @ [i]\<rparr>"
    have "i \<notin> set (port_list dp)" using inv i by (auto simp: inv_defs)
    then have "dp_inv_at rs ?dp" using inv i by (auto simp: inv_defs nth_list_update_if)
    then show ?thesis using run Inr Some send_port_status_inv(1) by (auto simp: dp_add_port_def split: bind_splits)
  qed
qed

lemma del_switch_port_inv:
  assumes inv: "dp_inv_at rs dp" and run: "del_switch_port env i dp = Some dp'"
  shows "dp_inv_at rs dp'"
proof -
  obtain dp1 where dp1: "send_port_status env i OFPPR_DELETE dp = Some dp1"
    "dp' = update_port i (\<lambda>p. p\<lparr>sp_netdev := None\<rparr>) dp1 \<lparr>port_list := remove1 i (port_list dp1)\<rparr>"
    using run by (auto simp: del_switch_port_def split: bind_splits)
  have "dp_inv_at rs dp1" using send_port_status_inv(1) [OF dp1(1)] inv by simp
  then show ?thesis using dp1(2) by (auto simp: inv_defs update_port_def nth_list_update_if)
qed

lemma update_port_status_inv:
  "dp_inv_at rs dp \<Longrightarrow> update_port_status env i dp = Some (c, dp') \<Longrightarrow> dp_inv_at rs dp'"
  by (auto simp: update_port_status_def Let_def update_port_inv split: bind_splits option.splits)

lemma port_status_loop_inv: "dp_inv_at rs dp \<Longrightarrow> port_status_loop env is dp = Some dp' \<Longrightarrow> dp_inv_at rs dp'"
proof (induction "is" arbitrary: dp)
  case (Cons i "is")
  obtain c dp1 dp2 where step: "update_port_status env i dp = Some (c, dp1)"
    "(if c then send_port_status env i OFPPR_MODIFY dp1 else Some dp1) = Some dp2" "port_status_loop env is dp2 = Some dp'"
    using Cons.prems(2) by (auto split: bind_splits)
  have "dp_inv_at rs dp2"
    using update_port_status_inv [OF Cons.prems(1) step(1)] step(2) send_port_status_inv(1) by (auto split: if_splits)
  then show ?case using Cons.IH step(3) by blast
qed simp

lemma flow_free_restrict: "flow_free a h |` (- set as) = h |` (- set (a # as))"
  by (auto simp: flow_free_def restrict_map_def)

lemma expired_loop_inv:
  "dp_inv_at rs (dp\<lparr>dp_heap := dp_heap dp |` (- set as)\<rparr>) \<Longrightarrow> expired_loop env as dp = Some dp' \<Longrightarrow> dp_inv_at rs dp'"
proof (induction "as" arbitrary: dp)
  case Nil
  then show ?case by (simp add: restrict_map_def)
next
  case (Cons a "as")
  obtain dp1 where dp1: "send_flow_expired env (fl (dp_heap dp) a) dp = Some dp1"
    "expired_loop env as (dp1\<lparr>dp_heap := flow_free a (dp_heap dp1)\<rparr>) = Some dp'"
    using Cons.prems(2) by (auto split: bind_splits)
  let ?dp = "dp1\<lparr>dp_heap := flow_free a (dp_heap dp1)\<rparr>"
  have "dp_inv_at rs (dp1\<lparr>dp_heap := dp_heap dp1 |` (- set (a # as))\<rparr>)"
    using send_flow_expired_log [OF dp1(1)] Cons.prems(1) by (auto simp: log_event_def inv_defs)
  then have "dp_inv_at rs (?dp\<lparr>dp_heap := dp_heap ?dp |` (- set as)\<rparr>)" by (simp add: flow_free_restrict del: list.set)
  then show ?case using Cons.IH dp1(2) by blast
qed

lemma flows_inv_timeout:
  assumes inv: "flows_inv h c" and to: "chain_timeout now h c [] = (h', c', ds)"
  shows "flows_inv (h' |` (- set ds)) c'"
proof -
  obtain ts where ts: "chain_timeout_loop now (tables c) h [] = (h', ts, ds)" "tables c' = ts"
    using to by (auto simp: chain_timeout_def split: prod.splits)
  have tinv: "tables_inv h (tables c)" and dom: "dom h = tables_flows (tables c)" and acts: "acts_valid h"
    using inv by (auto simp: flows_inv_tables)
  have r: "tables_inv h' ts" "tables_flows ts = {a \<in> tables_flows (tables c). \<not> expired now (fl h a)}"
    "set ds = {a \<in> tables_flows (tables c). expired now (fl h a)}"
    "h' = (\<lambda>a. if a \<in> set ds then Some (snd (flow_timeout now (fl h a))) else h a)"
    using chain_timeout_loop_ok [OF tinv ts(1)] by auto
  have rest: "h' |` (- set ds) = h |` (- set ds)" by (auto simp: r(4) restrict_map_def)
  have "tables_inv (h' |` (- set ds)) ts" using r(2,3) by (intro tables_inv_frame [OF r(1)]) auto
  moreover have "dom (h' |` (- set ds)) = tables_flows ts" unfolding rest dom_restrict dom using r(2,3) by auto
  moreover have "acts_valid (h' |` (- set ds))" using acts_valid_restrict [OF acts] by (simp add: rest)
  ultimately show ?thesis using ts(2) by (simp add: flows_inv_tables)
qed

lemma dp_run_timeout_inv:
  assumes inv: "dp_inv_at rs dp" and run: "dp_run_timeout env dp = Some dp'"
  shows "dp_inv_at rs dp'"
proof (cases "e_now env = last_timeout dp")
  case True
  then show ?thesis using assms by (simp add: dp_run_timeout_def)
next
  case False
  obtain dp1 h c ds dp2 where dp1: "port_status_loop env (port_list dp) dp = Some dp1"
    "chain_timeout (e_now env) (dp_heap dp1) (dp_chain dp1) [] = (h, c, ds)"
    "expired_loop env ds (dp1\<lparr>dp_heap := h, dp_chain := c\<rparr>) = Some dp2" "dp' = dp2\<lparr>last_timeout := e_now env\<rparr>"
    using run False by (auto simp: dp_run_timeout_def split: bind_splits prod.splits)
  have inv1: "dp_inv_at rs dp1" using port_status_loop_inv [OF inv dp1(1)] .
  then have "flows_inv (h |` (- set ds)) c" using flows_inv_timeout [OF _ dp1(2)] by (simp add: dp_inv_at_def dp_inv_def)
  then have "dp_inv_at rs ((dp1\<lparr>dp_heap := h, dp_chain := c\<rparr>)\<lparr>dp_heap := h |` (- set ds)\<rparr>)" using inv1 by (simp add: inv_defs)
  then have "dp_inv_at rs dp2" using expired_loop_inv [OF _ dp1(3)] by simp
  then show ?thesis using dp1(4) by (simp add: inv_defs)
qed

lemma run_ports_inv: "dp_inv_at rs dp \<Longrightarrow> run_ports env n is buf dp = Some dp' \<Longrightarrow> dp_inv_at rs dp'"
proof (induction env n "is" buf dp rule: run_ports.induct)
  case (2 env n i "is" buf dp)
  obtain nd e b where step: "sp_netdev (dp_ports dp ! i) = Some nd"
    "netdev_recv (e_junk env) (e_recv env nd) (case buf of Some b \<Rightarrow> b | None \<Rightarrow> recv_buffer env (e_mtu env nd)) = Some (e, b)"
    using "2.prems"(2) by (auto simp: Let_def split: bind_splits)
  show ?case
  proof (cases "e = 0")
    case True
    let ?dp = "update_port i (\<lambda>p. p\<lparr>rx_packets := rx_packets p + 1, rx_bytes := rx_bytes p + of_nat (bsize b)\<rparr>) dp"
    obtain dp1 where dp1: "fwd_port_input env n b (Some i) ?dp = Some dp1" "run_ports env n is None dp1 = Some dp'"
      using "2.prems"(2) step True by (auto simp: Let_def split: bind_splits)
    have "dp_inv_at rs ?dp" using "2.prems"(1) by (rule update_port_inv) simp
    then have "dp_inv_at rs dp1" using dp1(1) by (rule fwd_port_input_inv)
    then show ?thesis using "2.IH"(1) [OF step(1) refl step(2) refl True] dp1 by blast
  next
    case False
    then have "run_ports env n is (Some b) dp = Some dp'" using "2.prems"(2) step by (simp add: Let_def)
    then show ?thesis using "2.IH"(2) [OF step(1) refl step(2) refl False] "2.prems"(1) by blast
  qed
qed simp


section \<open>Connections keep the invariant\<close>

lemma dp_inv_at_remotes: "dp_inv_at (remotes dp) dp = dp_inv dp"
  by (simp add: dp_inv_at_def)

lemma dump_done_inv:
  assumes inv: "dp_inv_at rs dp" and cb: "cb_dump dp r = Some cb" and run: "stats_dump env cb dp = Some (e, cb', dp')"
  shows "dp_inv_at rs (dp'\<lparr>cb_dump := (cb_dump dp')(r := (if e \<le> 0 then None else Some cb'))\<rparr>)"
proof -
  have dp: "dp_inv dp" using inv by (simp add: dp_inv_at_def)
  note r = stats_dump_cases [OF dp cb, of env, THEN conjunct2, rule_format, OF run]
  have old: "dumps_inv (remotes dp) (cb_dump dp)" using dp by (simp add: dp_inv_def)
  have "s_remote (cb_sender cb) = r" "r \<in> set (remotes dp)" using old cb by (auto simp: dumps_inv_def)
  then have "dumps_inv (remotes dp) ((cb_dump dp)(r := (if e \<le> 0 then None else Some cb')))"
    using old r by (auto simp: dumps_inv_def)
  then show ?thesis using inv r by (auto simp: log_event_def inv_defs)
qed

lemma remote_run_loop_inv:
  assumes "alloc_ok env" and "r \<in> set rs"
  shows "dp_inv_at rs dp \<Longrightarrow> remote_run_loop env n r m msgs dp = Some dp' \<Longrightarrow> dp_inv_at rs dp'"
proof (induction m arbitrary: msgs dp)
  case (Suc m)
  have r: "r \<in> set (remotes dp)" using Suc.prems(1) assms(2) by (simp add: dp_inv_at_def)
  show ?case
  proof (cases "cb_dump dp r")
    case None
    show ?thesis
    proof (cases msgs)
      case (Cons msg ms)
      have "dp_inv_at rs dp1" if "fwd_control_input env n \<lparr>s_remote = r, s_xid = get_u32 msg 4\<rparr> msg dp = Some (v, dp1)" for v dp1
        using fwd_control_input_inv [OF Suc.prems(1) assms(1) _ that] r by simp
      then show ?thesis using Suc None Cons by (auto split: if_splits bind_splits)
    qed (use Suc.prems None in simp)
  next
    case (Some cb)
    show ?thesis
    proof (cases "e_txq_room env r m")
      case True
      obtain e cb' dp1 where dump: "stats_dump env cb dp = Some (e, cb', dp1)"
        "remote_run_loop env n r m msgs (dp1\<lparr>cb_dump := (cb_dump dp1)(r := (if e \<le> 0 then None else Some cb'))\<rparr>) = Some dp'"
        using Suc.prems(2) Some True by (auto split: bind_splits)
      then show ?thesis using Suc.IH dump_done_inv [OF Suc.prems(1) Some dump(1)] by blast
    qed (use Suc.prems Some in simp)
  qed
qed simp

lemma remote_destroy_inv: "dp_inv dp \<Longrightarrow> dp_inv (remote_destroy r dp)"
  by (auto simp: remote_destroy_def inv_defs dumps_inv_def)

lemma remote_run_inv:
  assumes "alloc_ok env" and "dp_inv dp" and "r \<in> set (remotes dp)" and "remote_run env n r dp = Some dp'"
  shows "dp_inv dp' \<and> set (remotes dp) - {r} \<subseteq> set (remotes dp')"
proof -
  obtain dp1 where dp1: "remote_run_loop env n r 50 (e_msgs env r) dp = Some dp1"
    "dp' = (if e_alive env r then dp1 else remote_destroy r dp1)"
    using assms(4) by (auto simp: remote_run_def split: bind_splits)
  have "dp_inv_at (remotes dp) dp1"
    using remote_run_loop_inv [OF assms(1,3) _ dp1(1)] assms(2) by (simp add: dp_inv_at_def)
  then have inv1: "dp_inv dp1" "remotes dp1 = remotes dp" by (simp_all add: dp_inv_at_def)
  then show ?thesis
    using dp1(2) remote_destroy_inv [OF inv1(1)] by (auto simp: remote_destroy_def inv_defs dumps_inv_def)
qed

lemma run_remotes_inv:
  assumes "alloc_ok env"
  shows "dp_inv dp \<Longrightarrow> set rs \<subseteq> set (remotes dp) \<Longrightarrow> distinct rs \<Longrightarrow> run_remotes env n rs dp = Some dp' \<Longrightarrow> dp_inv dp'"
proof (induction rs arbitrary: dp)
  case (Cons r rs)
  obtain dp1 where dp1: "remote_run env n r dp = Some dp1" "run_remotes env n rs dp1 = Some dp'"
    using Cons.prems(4) by (auto split: bind_splits)
  have "dp_inv dp1" "set (remotes dp) - {r} \<subseteq> set (remotes dp1)"
    using remote_run_inv [OF assms Cons.prems(1) _ dp1(1)] Cons.prems(2) by auto
  moreover from this have "set rs \<subseteq> set (remotes dp1)" using Cons.prems(2,3) by auto
  ultimately show ?case using Cons.IH dp1(2) Cons.prems(3) by simp
qed simp

lemma accept_remotes_inv: "alloc_ok env \<Longrightarrow> dp_inv dp \<Longrightarrow> dp_inv (accept_remotes env k dp)"
proof (induction k arbitrary: dp)
  case (Suc k)
  have "dp_inv (remote_create (e_alloc_remote env (remotes dp)) dp)"
    using Suc.prems by (auto simp: remote_create_def inv_defs dumps_inv_def alloc_ok_def)
  then show ?case using Suc by simp
qed simp

lemma dp_run_inv:
  assumes "alloc_ok env" and inv: "dp_inv dp" and run: "dp_run env n dp = Some dp'"
  shows "dp_inv dp'"
proof -
  obtain dp1 dp2 dp3 where step: "dp_run_timeout env dp = Some dp1" "run_ports env n (port_list dp1) None dp1 = Some dp2"
    "run_remotes env n (remotes dp2) dp2 = Some dp3" "dp' = accept_remotes env (e_accept env) dp3"
    using run by (auto simp: dp_run_def split: bind_splits)
  have "dp_inv_at (remotes dp) dp" using inv by (simp add: dp_inv_at_def)
  then have "dp_inv_at (remotes dp) dp2" using dp_run_timeout_inv [OF _ step(1)] run_ports_inv [OF _ step(2)] by blast
  then have "dp_inv dp2" by (simp add: dp_inv_at_def)
  moreover from this have "distinct (remotes dp2)" by (simp add: dp_inv_def dumps_inv_def)
  ultimately have "dp_inv dp3" using run_remotes_inv [OF assms(1)] step(3) by blast
  then show ?thesis using accept_remotes_inv [OF assms(1)] step(4) by simp
qed


section \<open>Tearing down\<close>

lemma restrict_map_UNIV [simp]: "h |` UNIV = h"
  by (simp add: restrict_map_def)

lemma tl_destroy_loop_heap: "tl_destroy_loop as h = h |` (- set as)"
proof (induction "as" arbitrary: h)
  case (Cons a "as")
  then show ?case by (auto simp: flow_free_def restrict_map_def)
qed simp

lemma th_destroy_loop_heap: "th_destroy_loop bs h = h |` (- {a. Some a \<in> set bs})"
proof (induction bs arbitrary: h)
  case (Cons b bs)
  then show ?case by (cases b) (auto simp: flow_free_def restrict_map_def)
qed simp

lemma table_hash_destroy_heap: "hash_inv h' th \<Longrightarrow> table_hash_destroy h th = h |` (- hash_flows th)"
proof -
  assume "hash_inv h' th"
  then have "map (\<lambda>i. buckets th ! i) (bucket_range th) = buckets th"
    using map_nth [of "buckets th"] by (simp add: bucket_range_def hash_inv_def hash_shape_def del: upt_Suc)
  then show ?thesis by (simp add: table_hash_destroy_def th_destroy_loop_heap hash_flows_def)
qed

lemma table_destroy_heap: "table_inv h' t \<Longrightarrow> table_destroy h t = h |` (- table_flows t)"
  by (cases t) (auto simp: table_linear_destroy_def tl_destroy_loop_heap table_hash2_destroy_def table_hash_destroy_heap
      hash2_inv_def hash2_flows_def restrict_restrict Compl_Un Int_commute)

lemma chain_destroy_heap: "chain_inv h' c \<Longrightarrow> chain_destroy h c = h |` (- chain_flows c)"
proof -
  have "tables_inv h' ts \<Longrightarrow> fold (\<lambda>t h. table_destroy h t) ts h = h |` (- tables_flows ts)" for ts
  proof (induction ts arbitrary: h)
    case (Cons t ts)
    then have "table_destroy h t = h |` (- table_flows t)" by (intro table_destroy_heap [of h']) simp
    then show ?case using Cons by (simp add: Compl_Un)
  qed simp
  then show "chain_inv h' c \<Longrightarrow> ?thesis" by (simp add: chain_destroy_def chain_inv_def chain_flows_def)
qed

lemma del_switch_ports_inv:
  assumes "dp_inv_at rs dp" and "del_switch_ports env is dp = Some dp'"
  shows "dp_inv_at rs dp' \<and> port_list dp' = fold remove1 is (port_list dp) \<and> vport_heap dp' = vport_heap dp"
  using assms
proof (induction "is" arbitrary: dp)
  case (Cons i "is")
  obtain dp1 where dp1: "del_switch_port env i dp = Some dp1" "del_switch_ports env is dp1 = Some dp'"
    using Cons.prems(2) by (auto split: bind_splits)
  obtain dp0 where dp0: "send_port_status env i OFPPR_DELETE dp = Some dp0"
    "dp1 = update_port i (\<lambda>p. p\<lparr>sp_netdev := None\<rparr>) dp0 \<lparr>port_list := remove1 i (port_list dp0)\<rparr>"
    using dp1(1) by (auto simp: del_switch_port_def split: bind_splits)
  have "dp0 = dp \<or> (\<exists>e. dp0 = log_event e dp)"
    using dp0(1) by (auto simp: send_port_status_def dest: send_openflow_buffer_log split: bind_splits)
  then have "port_list dp1 = remove1 i (port_list dp)" "vport_heap dp1 = vport_heap dp"
    using dp0(2) by (auto simp: log_event_def update_port_def)
  then show ?case using Cons.IH [OF _ dp1(2)] del_switch_port_inv [OF Cons.prems(1) dp1(1)] by simp
qed simp

lemma fold_remove1_self: "distinct xs \<Longrightarrow> fold remove1 xs xs = []"
  by (induction xs) simp_all

lemma del_switch_ports_total:
  assumes "0 \<in> set (remotes dp)"
  shows "distinct is \<Longrightarrow> \<forall>i \<in> set is. i < length (dp_ports dp) \<and> sp_netdev (dp_ports dp ! i) \<noteq> None \<Longrightarrow> 0 \<in> set (remotes dp) \<Longrightarrow>
    \<exists>dp'. del_switch_ports env is dp = Some dp'"
proof (induction "is" arbitrary: dp)
  case (Cons i "is")
  obtain nd where nd: "sp_netdev (dp_ports dp ! i) = Some nd" using Cons.prems(2) by auto
  obtain b where b: "make_openflow_xid (e_junk env) 64 OFPT_PORT_STATUS 0 = Some b" "ofpbuf_ok b" "bsize b = 64"
    by (rule make_openflow_xid_ok [of 64 "e_junk env" OFPT_PORT_STATUS 0]) auto
  obtain desc where desc: "fill_port_desc env i dp = Some desc" "length desc = 48"
    using nd by (simp add: fill_port_desc_def port_name_def Let_def min_def)
  have "8 + length ([OFPPR_DELETE] @ replicate 7 0 @ desc) \<le> bsize b" using desc(2) b(3) by simp
  with b(2) obtain b' where b': "stn (bdata b + 8) ([OFPPR_DELETE] @ replicate 7 0 @ desc) b = Some b'" "ofpbuf_ok b'" "bsize b' = bsize b"
    by (rule stn_ok)
  obtain v dp0 where dp0: "send_openflow_buffer env 0 b' dp = Some (v, dp0)"
    using send_openflow_buffer_ok [OF b'(2), of 0 dp env] b'(3) b(3) Cons.prems(3) by auto
  let ?dp = "update_port i (\<lambda>p. p\<lparr>sp_netdev := None\<rparr>) dp0 \<lparr>port_list := remove1 i (port_list dp0)\<rparr>"
  have del: "del_switch_port env i dp = Some ?dp"
    using b(1) desc(1) b'(1) dp0 by (simp add: del_switch_port_def send_port_status_def)
  have "dp_ports dp0 = dp_ports dp" "remotes dp0 = remotes dp" using send_openflow_buffer_log [OF dp0] by (auto simp: log_event_def)
  then have "\<exists>dp'. del_switch_ports env is ?dp = Some dp'"
    using Cons.prems by (intro Cons.IH) (auto simp: update_port_def nth_list_update_if)
  then show ?case using del by simp
qed simp

text \<open>
  Destroying a switch that still has its connection to the controller always finishes, deletes every port
  and frees every flow entry; the entries of the virtual ports are never freed.
\<close>

theorem dp_destroy_frees:
  assumes "dp_inv dp" and "0 \<in> set (remotes dp)"
  shows "\<exists>dp'. dp_destroy env dp = Some dp' \<and> dp_heap dp' = Map.empty \<and> port_list dp' = [] \<and> vport_heap dp' = vport_heap dp"
proof -
  have ports: "distinct (port_list dp)" "\<forall>i \<in> set (port_list dp). i < length (dp_ports dp) \<and> sp_netdev (dp_ports dp ! i) \<noteq> None"
    using assms(1) by (auto simp: inv_defs)
  obtain dp1 where dp1: "del_switch_ports env (port_list dp) dp = Some dp1"
    using del_switch_ports_total [OF assms(2) ports assms(2)] by blast
  have r: "dp_inv dp1" "port_list dp1 = []" "vport_heap dp1 = vport_heap dp"
    using del_switch_ports_inv [OF _ dp1, of "remotes dp"] assms(1) fold_remove1_self [OF ports(1)] by (simp_all add: dp_inv_at_def)
  then have "chain_inv (dp_heap dp1) (dp_chain dp1)" "dom (dp_heap dp1) = chain_flows (dp_chain dp1)"
    by (simp_all add: dp_inv_def flows_inv_def)
  then have "chain_destroy (dp_heap dp1) (dp_chain dp1) = Map.empty"
    by (auto simp: chain_destroy_heap restrict_map_def fun_eq_iff domIff)
  then show ?thesis using dp1 r by (simp add: dp_destroy_def)
qed


section \<open>Reachable states\<close>

text \<open>
  What can happen to a switch: a port is added, or \<open>dp_run\<close> is called and handles what the clock,
  the devices and the connections bring.  The environment may be another one at every step, as long as the
  allocator does not hand out memory that is in use.
\<close>

inductive dp_step :: "datapath \<Rightarrow> datapath \<Rightarrow> bool" where
  add_port: "dp_add_port env dev dp = Some (r, dp') \<Longrightarrow> dp_step dp dp'"
| run: "alloc_ok env \<Longrightarrow> dp_run env n dp = Some dp' \<Longrightarrow> dp_step dp dp'"

inductive dp_reachable :: "datapath \<Rightarrow> bool" where
  new: "dp_new env dpid = Some dp \<Longrightarrow> dp_reachable dp"
| step: "dp_reachable dp \<Longrightarrow> dp_step dp dp' \<Longrightarrow> dp_reachable dp'"

lemma dp_step_inv: "dp_step dp dp' \<Longrightarrow> dp_inv dp \<Longrightarrow> dp_inv dp'"
proof (induction rule: dp_step.induct)
  case (add_port env dev dp r dp')
  then have "dp_inv_at (remotes dp) dp'" using dp_add_port_inv [of "remotes dp" dp] by (simp add: dp_inv_at_def)
  then show ?case by (simp add: dp_inv_at_def)
next
  case (run env n dp dp')
  then show ?case using dp_run_inv by blast
qed

text \<open>
  C2. In every reachable state of a switch the flow tables are well formed, all allocated flow entries are
  in them, with actions that were validated; the packet buffers have their number and cookies below the
  reserved value; the list of ports names the ports with a device, each once; and the virtual port table
  finds every port under its number, with actions that were validated.
\<close>

theorem dp_reachable_inv: "dp_reachable dp \<Longrightarrow> dp_inv dp"
  by (induction rule: dp_reachable.induct) (blast intro: dp_new_inv dp_step_inv)+

theorem dp_reachable_inv_witness: "\<exists>dp. dp_new sample_env 1 = Some dp \<and> dp_inv dp"
proof -
  obtain c where "chain_create Map.empty = (Map.empty, Some c)" by (rule chain_create_Some)
  then obtain dp where dp: "dp_new sample_env 1 = Some dp" by (simp add: dp_new_def)
  then have "dp_reachable dp" by (rule dp_reachable.new)
  with dp dp_reachable_inv show ?thesis by blast
qed

theorem dp_destroy_frees_witness: "\<exists>dp'. dp_destroy sample_env (quiet_dp port_cb) = Some dp' \<and> dp_heap dp' = Map.empty"
proof -
  have "dp_inv (quiet_dp port_cb)" by (rule quiet_dp_inv) (simp_all add: port_cb_def cb_ok_def)
  moreover have "0 \<in> set (remotes (quiet_dp port_cb))" by (simp add: quiet_dp_def sample_dp_def)
  ultimately show ?thesis using dp_destroy_frees [of "quiet_dp port_cb" sample_env] by blast
qed

end
