(* ===== verification/Linked_Lists.thy ===== *)
theory Linked_Lists
  imports Prelude "HOL-Library.Monad_Syntax"
begin

text \<open>
  The circular doubly linked lists of \<open>lib/list.c\<close>, the containers of the flow tables, of the remotes of
  a datapath and of the MAC table.  The nodes live in an explicit store of \<open>prev\<close> and \<open>next\<close> pointers and
  every operation is the sequence of pointer writes of the source.  \<open>ring h l xs\<close> says that the store \<open>h\<close>
  holds a list with head node \<open>l\<close> and elements \<open>xs\<close>; the lemmas show that each operation implements
  the one on sequences and leaves every other list alone, which is what the rest of the development
  relies on when it represents such lists by sequences of addresses.
\<close>

section \<open>Nodes and operations\<close>

type_synonym lptr = nat

abbreviation (input) LNULL :: lptr where "LNULL \<equiv> 0"

record list_node =
  lprev :: lptr
  lnext :: lptr

type_synonym lheap = "lptr \<Rightarrow> list_node"

definition set_prev :: "lptr \<Rightarrow> lptr \<Rightarrow> lheap \<Rightarrow> lheap" where
  "set_prev a v h = h(a := (h a)\<lparr>lprev := v\<rparr>)"

definition set_next :: "lptr \<Rightarrow> lptr \<Rightarrow> lheap \<Rightarrow> lheap" where
  "set_next a v h = h(a := (h a)\<lparr>lnext := v\<rparr>)"

definition list_init :: "lptr \<Rightarrow> lheap \<Rightarrow> lheap" where
  "list_init l h = (let h = set_prev l l h in set_next l l h)"

definition list_insert :: "lptr \<Rightarrow> lptr \<Rightarrow> lheap \<Rightarrow> lheap" where
  "list_insert bef el h =
    (let h = set_prev el (lprev (h bef)) h;
         h = set_next el bef h;
         h = set_next (lprev (h bef)) el h
     in set_prev bef el h)"

definition list_splice :: "lptr \<Rightarrow> lptr \<Rightarrow> lptr \<Rightarrow> lheap \<Rightarrow> lheap" where
  "list_splice bef first lst h =
    (if first = lst then h
     else let lst = lprev (h lst);
              h = set_next (lprev (h first)) (lnext (h lst)) h;
              h = set_prev (lnext (h lst)) (lprev (h first)) h;
              h = set_prev first (lprev (h bef)) h;
              h = set_next lst bef h;
              h = set_next (lprev (h bef)) first h
          in set_prev bef lst h)"

definition list_push_front :: "lptr \<Rightarrow> lptr \<Rightarrow> lheap \<Rightarrow> lheap" where
  "list_push_front l el h = list_insert (lnext (h l)) el h"

definition list_push_back :: "lptr \<Rightarrow> lptr \<Rightarrow> lheap \<Rightarrow> lheap" where
  "list_push_back l el h = list_insert l el h"

definition list_replace :: "lptr \<Rightarrow> lptr \<Rightarrow> lheap \<Rightarrow> lheap" where
  "list_replace el pos h =
    (let h = set_next el (lnext (h pos)) h;
         h = set_prev (lnext (h el)) el h;
         h = set_prev el (lprev (h pos)) h
     in set_next (lprev (h el)) el h)"

definition list_remove :: "lptr \<Rightarrow> lheap \<Rightarrow> lptr \<times> lheap" where
  "list_remove el h =
    (let h = set_next (lprev (h el)) (lnext (h el)) h;
         h = set_prev (lnext (h el)) (lprev (h el)) h
     in (lnext (h el), h))"

definition list_pop_front :: "lptr \<Rightarrow> lheap \<Rightarrow> lptr \<times> lheap" where
  "list_pop_front l h = (let front = lnext (h l) in (front, snd (list_remove front h)))"

definition list_pop_back :: "lptr \<Rightarrow> lheap \<Rightarrow> lptr \<times> lheap" where
  "list_pop_back l h = (let back = lprev (h l) in (back, snd (list_remove back h)))"

definition list_is_empty :: "lptr \<Rightarrow> lheap \<Rightarrow> bool" where
  "list_is_empty l h \<longleftrightarrow> lnext (h l) = l"

text \<open>\<open>None\<close> is the failed assertion.\<close>

definition list_front :: "lptr \<Rightarrow> lheap \<Rightarrow> lptr option" where
  "list_front l h = (if list_is_empty l h then None else Some (lnext (h l)))"

definition list_back :: "lptr \<Rightarrow> lheap \<Rightarrow> lptr option" where
  "list_back l h = (if list_is_empty l h then None else Some (lprev (h l)))"

text \<open>The loop of \<open>list_size\<close> need not end on a store that holds no list; \<open>None\<close> is the endless loop.\<close>

partial_function (option) list_size_loop :: "lheap \<Rightarrow> lptr \<Rightarrow> lptr \<Rightarrow> u64 \<Rightarrow> u64 option" where
  "list_size_loop h l e cnt =
    (if e = l then Some cnt else list_size_loop h l (lnext (h e)) (cnt + 1))"

definition list_size :: "lptr \<Rightarrow> lheap \<Rightarrow> u64 option" where
  "list_size l h = list_size_loop h l (lnext (h l)) 0"

text \<open>
  \<open>LIST_FOR_EACH\<close> of \<open>lib/list.h\<close> with a body that returns at the first element satisfying \<open>P\<close>; the
  result is that element, or \<open>LNULL\<close> when the loop comes round to the head.
\<close>

partial_function (option) list_search :: "(lptr \<Rightarrow> bool) \<Rightarrow> lheap \<Rightarrow> lptr \<Rightarrow> lptr \<Rightarrow> lptr option" where
  "list_search P h l e =
    (if e = l then Some LNULL else if P e then Some e else list_search P h l (lnext (h e)))"


section \<open>Lists in the store\<close>

fun links :: "lheap \<Rightarrow> lptr list \<Rightarrow> bool" where
  "links h (a # b # xs) \<longleftrightarrow> lnext (h a) = b \<and> lprev (h b) = a \<and> links h (b # xs)"
| "links h _ \<longleftrightarrow> True"

definition ring :: "lheap \<Rightarrow> lptr \<Rightarrow> lptr list \<Rightarrow> bool" where
  "ring h l xs \<longleftrightarrow> distinct (l # xs) \<and> links h (l # xs @ [l])"

lemmas store_defs = set_prev_def set_next_def Let_def

lemma links_append: "links h (xs @ a # ys) \<longleftrightarrow> links h (xs @ [a]) \<and> links h (a # ys)"
proof (induction xs)
  case Nil
  then show ?case by simp
next
  case (Cons x xs)
  then show ?case by (cases xs) auto
qed

text \<open>A chain depends on the \<open>next\<close> of all its nodes but the last and the \<open>prev\<close> of all but the first.\<close>

lemma links_cong:
  assumes "\<And>a. a \<in> set (butlast ys) \<Longrightarrow> lnext (h' a) = lnext (h a)"
    and "\<And>a. a \<in> set (tl ys) \<Longrightarrow> lprev (h' a) = lprev (h a)"
  shows "links h' ys = links h ys"
  using assms
proof (induction h ys rule: links.induct)
  case (1 h a b xs)
  have "links h' (b # xs) = links h (b # xs)"
    by (rule 1(1)) (use 1(2,3) in \<open>auto split: if_splits\<close>)
  moreover have "lnext (h' a) = lnext (h a)" using 1(2) by simp
  moreover have "lprev (h' b) = lprev (h b)" using 1(3) by simp
  ultimately show ?case by simp
qed auto

lemma links_set_next [simp]: "a \<notin> set (butlast ys) \<Longrightarrow> links (set_next a v h) ys = links h ys"
  by (rule links_cong) (auto simp: set_next_def)

lemma links_set_prev [simp]: "a \<notin> set (tl ys) \<Longrightarrow> links (set_prev a v h) ys = links h ys"
  by (rule links_cong) (auto simp: set_prev_def)

lemma lnext_set_next [simp]: "lnext (set_next a v h b) = (if b = a then v else lnext (h b))"
  by (simp add: set_next_def)

lemma lprev_set_next [simp]: "lprev (set_next a v h b) = lprev (h b)"
  by (simp add: set_next_def)

lemma lnext_set_prev [simp]: "lnext (set_prev a v h b) = lnext (h b)"
  by (simp add: set_prev_def)

lemma lprev_set_prev [simp]: "lprev (set_prev a v h b) = (if b = a then v else lprev (h b))"
  by (simp add: set_prev_def)

lemma set_next_other: "b \<noteq> a \<Longrightarrow> set_next a v h b = h b"
  by (simp add: set_next_def)

lemma set_prev_other: "b \<noteq> a \<Longrightarrow> set_prev a v h b = h b"
  by (simp add: set_prev_def)

lemma ring_frame:
  assumes "ring h l xs" and "\<And>a. a \<in> set (l # xs) \<Longrightarrow> h' a = h a"
  shows "ring h' l xs"
proof -
  have "links h' (l # xs @ [l]) = links h (l # xs @ [l])"
    by (rule links_cong) (use assms(2) in \<open>auto simp: butlast_append\<close>)
  with assms(1) show ?thesis by (simp add: ring_def)
qed

text \<open>
  The place before a node of a ring: the ring falls into the chain up to the predecessor \<open>a\<close> and the chain
  from the node \<open>b\<close> on; each is safe from the writes the operations make at \<open>a\<close> and \<open>b\<close>.
\<close>

definition gap :: "lheap \<Rightarrow> lptr \<Rightarrow> lptr list \<Rightarrow> lptr list \<Rightarrow> lptr list \<Rightarrow> lptr \<Rightarrow> lptr \<Rightarrow> lptr list \<Rightarrow> bool" where
  "gap h l xs ys P a b Q \<longleftrightarrow>
    l # xs = P @ [a] \<and> ys @ [l] = b # Q \<and> links h (P @ [a]) \<and> links h (b # Q) \<and>
    a \<notin> set P \<and> b \<notin> set Q \<and> a \<notin> set ys \<and> b \<notin> set xs \<and>
    tl (P @ [a]) = xs \<and> butlast (b # Q) = ys"

lemma gapI:
  assumes "distinct (l # xs @ ys)" and "links h (l # xs)" and "links h (ys @ [l])"
    and e: "l # xs = P @ [a]" "ys @ [l] = b # Q"
  shows "gap h l xs ys P a b Q"
proof -
  have "distinct (P @ [a])" using assms(1) e(1) by (metis append_Cons distinct_append)
  moreover have "distinct (b # Q)" using assms(1) e(2) [symmetric] by auto
  moreover have "butlast (b # Q) = ys" using e(2) by (metis butlast_snoc)
  moreover have "tl (P @ [a]) = xs" using e(1) by (metis list.sel(3))
  moreover have "a \<in> set (l # xs)" "b \<in> set (ys @ [l])" using e by auto
  moreover have "a \<notin> set ys" "b \<notin> set xs" using assms(1) calculation(5,6) by auto
  ultimately show ?thesis using assms(2,3) e by (simp add: gap_def)
qed

lemma ring_gap:
  assumes "ring h l (xs @ ys)"
  obtains P a b Q where "gap h l xs ys P a b Q" "lnext (h a) = b" "lprev (h b) = a"
proof -
  define P a b Q where "P = butlast (l # xs)" and "a = last (l # xs)" and
    "b = hd (ys @ [l])" and "Q = tl (ys @ [l])"
  have e: "l # xs = P @ [a]" "ys @ [l] = b # Q" by (auto simp: P_def a_def b_def Q_def)
  have eq: "l # (xs @ ys) @ [l] = P @ a # b # Q" using e by (metis append_Cons append_assoc append_Nil)
  have d: "distinct (l # xs @ ys)" and "links h (P @ a # b # Q)"
    using assms unfolding ring_def eq by simp_all
  then have s: "links h (P @ [a])" "links h (b # Q)" "lnext (h a) = b" "lprev (h b) = a"
    using links_append [of h P a "b # Q"] by auto
  have "gap h l xs ys P a b Q" by (rule gapI [OF d _ _ e]) (use s e in simp_all)
  with s that show ?thesis by blast
qed

lemma ring_gapI:
  assumes "l # xs = P @ [a]" "ys @ [l] = b # Q" and "links h (P @ [a])" and "links h (b # Q)"
    and "lnext (h a) = b" and "lprev (h b) = a" and "distinct (l # xs @ ys)"
  shows "ring h l (xs @ ys)"
proof -
  have eq: "l # (xs @ ys) @ [l] = P @ a # b # Q" using assms(1,2)
    by (metis append_Cons append_assoc append_Nil)
  have "links h (P @ a # b # Q)" using assms(3-6) links_append [of h P a "b # Q"] by simp
  with assms(7) show ?thesis unfolding ring_def eq by simp
qed


section \<open>The operations on sequences\<close>

lemma list_init_ring: "ring (list_init l h) l []"
  by (simp add: ring_def list_init_def Let_def)

lemma gap_sets:
  assumes "gap h l xs ys P a b Q"
  shows "set (l # xs @ ys) = insert a (insert b (set P \<union> set Q))" and "set xs \<subseteq> insert a (set P)"
    and "set ys \<subseteq> insert b (set Q)"
proof -
  have "set (l # xs) = insert a (set P)" "set (ys @ [l]) = insert b (set Q)"
    using assms by (simp_all add: gap_def)
  then show "set (l # xs @ ys) = insert a (insert b (set P \<union> set Q))" "set xs \<subseteq> insert a (set P)"
    "set ys \<subseteq> insert b (set Q)" by auto
qed

text \<open>Writes of the operations at the edges of a gap.\<close>

lemma gap_writes:
  assumes "gap h l xs ys P a b Q"
  shows "links (set_prev b v h) (P @ [a])" "links (set_prev b v h) (b # Q)"
    "links (set_next a v h) (P @ [a])" "links (set_next a v h) (b # Q)"
    "gap (set_prev b v h) l xs ys P a b Q" "gap (set_next a v h) l xs ys P a b Q"
  using assms by (auto simp: gap_def)

lemma gap_write_other:
  assumes "gap h l xs ys P a b Q" and "c \<notin> set (l # xs @ ys)"
  shows "gap (set_prev c v h) l xs ys P a b Q" "gap (set_next c v h) l xs ys P a b Q"
proof -
  have "c \<notin> insert a (set P)" "c \<notin> insert b (set Q)"
    using assms(2) unfolding gap_sets(1) [OF assms(1)] by auto
  then have "c \<notin> set (butlast (P @ [a]))" "c \<notin> set (butlast (b # Q))" "c \<notin> set (tl (P @ [a]))"
    "c \<notin> set (tl (b # Q))" by (auto dest: in_set_butlastD list.set_sel(2) [rotated])
  then show "gap (set_prev c v h) l xs ys P a b Q" "gap (set_next c v h) l xs ys P a b Q"
    using assms(1) by (simp_all add: gap_def)
qed

text \<open>A chain linked into a gap makes a ring.\<close>

lemma gap_fill:
  assumes g: "gap h l xs ys P a b Q" and ms: "links h (m # ms)" and d: "distinct (l # xs @ m # ms @ ys)"
    and k: "lnext (h a) = m" "lprev (h m) = a" "lnext (h (last (m # ms))) = b" "lprev (h b) = last (m # ms)"
  shows "ring h l (xs @ m # ms @ ys)"
proof -
  have "ring h l ((xs @ m # ms) @ ys)"
  proof (rule ring_gapI)
    show "l # xs @ m # ms = (P @ a # butlast (m # ms)) @ [last (m # ms)]" "ys @ [l] = b # Q" "links h (b # Q)"
      using g by (simp_all add: gap_def)
    have "links h (P @ a # m # ms)" using g k ms links_append [of h P a "m # ms"] by (simp add: gap_def)
    moreover have "(P @ a # butlast (m # ms)) @ [last (m # ms)] = P @ a # m # ms"
      using append_butlast_last_id [of "m # ms"] by simp
    ultimately show "links h ((P @ a # butlast (m # ms)) @ [last (m # ms)])" by metis
  qed (use k d in simp_all)
  then show ?thesis by simp
qed

lemma list_insert_ring:
  assumes r: "ring h l (xs @ ys)" and el: "el \<notin> set (l # xs @ ys)" and b: "b = hd (ys @ [l])"
  shows "ring (list_insert b el h) l (xs @ el # ys)"
proof -
  obtain P a b' Q where g: "gap h l xs ys P a b' Q" and p: "lprev (h b') = a" using ring_gap [OF r] .
  have "b' = b" using g b by (simp add: gap_def)
  with g p have g: "gap h l xs ys P a b Q" and p: "lprev (h b) = a" by simp_all
  have ne: "el \<noteq> a" "el \<noteq> b" using el unfolding gap_sets(1) [OF g] by auto
  define h' where "h' = list_insert b el h"
  have h': "h' = set_prev b el (set_next a el (set_next el b (set_prev el a h)))"
    using ne p by (simp add: h'_def list_insert_def Let_def)
  have g': "gap h' l xs ys P a b Q" unfolding h'
    by (intro gap_writes gap_write_other [OF _ el] g)
  have n: "lnext (h' a) = el" "lprev (h' el) = a" "lnext (h' el) = b" "lprev (h' b) = el"
    using ne by (simp_all add: h')
  have "ring h' l (xs @ el # [] @ ys)"
    by (rule gap_fill [OF g']) (use n r el in \<open>auto simp: ring_def\<close>)
  then show ?thesis by (simp add: h'_def)
qed

lemma list_insert_frame: "c \<notin> {el, b, lprev (h b)} \<Longrightarrow> list_insert b el h c = h c"
  by (auto simp: list_insert_def Let_def set_next_other set_prev_other)

lemma list_remove_ring:
  assumes r: "ring h l (xs @ el # ys)"
  shows "ring (snd (list_remove el h)) l (xs @ ys)" and "fst (list_remove el h) = hd (ys @ [l])"
proof -
  obtain P a b' Q' where g: "gap h l xs (el # ys) P a b' Q'" and n: "lnext (h a) = b'" "lprev (h b') = a"
    using ring_gap [OF r] .
  have b': "b' = el" "Q' = ys @ [l]" using g by (auto simp: gap_def)
  define b Q where "b = hd (ys @ [l])" and "Q = tl (ys @ [l])"
  have bQ: "ys @ [l] = b # Q" by (simp add: b_def Q_def)
  have g1: "l # xs = P @ [a]" "links h (P @ [a])" "links h (el # b # Q)"
    using g unfolding b' bQ by (auto simp: gap_def)
  have d: "distinct (l # xs @ ys)" "el \<notin> set (l # xs @ ys)" using r by (auto simp: ring_def)
  have g2: "gap h l xs ys P a b Q"
    by (rule gapI [OF d(1) _ _ g1(1) bQ]) (use g1 bQ in auto)
  have ne: "el \<noteq> a" "el \<noteq> b" using d(2) unfolding gap_sets(1) [OF g2] by auto
  have e: "lprev (h el) = a" "lnext (h el) = b" using n g1 by (auto simp: b')
  define h' where "h' = snd (list_remove el h)"
  have h': "h' = set_prev b a (set_next a b h)" "fst (list_remove el h) = b"
    using ne e by (simp_all add: h'_def list_remove_def Let_def)
  have g': "gap h' l xs ys P a b Q" unfolding h' by (intro gap_writes g2)
  have "ring h' l (xs @ ys)"
    by (rule ring_gapI [of l xs P a ys b Q]) (use g' d h' in \<open>auto simp: gap_def\<close>)
  then show "ring (snd (list_remove el h)) l (xs @ ys)" "fst (list_remove el h) = hd (ys @ [l])"
    using h' by (simp_all add: h'_def b_def)
qed

lemma list_remove_frame: "c \<notin> {lprev (h el), lnext (h el)} \<Longrightarrow> snd (list_remove el h) c = h c"
  by (auto simp: list_remove_def Let_def set_next_other set_prev_other)

lemma list_replace_ring:
  assumes r: "ring h l (xs @ pos # ys)" and el: "el \<notin> set (l # xs @ pos # ys)"
  shows "ring (list_replace el pos h) l (xs @ el # ys)"
proof -
  obtain P a b' Q' where g: "gap h l xs (pos # ys) P a b' Q'" and n: "lnext (h a) = b'" "lprev (h b') = a"
    using ring_gap [OF r] .
  have b': "b' = pos" "Q' = ys @ [l]" using g by (auto simp: gap_def)
  define b Q where "b = hd (ys @ [l])" and "Q = tl (ys @ [l])"
  have bQ: "ys @ [l] = b # Q" by (simp add: b_def Q_def)
  have g1: "l # xs = P @ [a]" "links h (P @ [a])" "links h (pos # b # Q)"
    using g unfolding b' bQ by (auto simp: gap_def)
  have d: "distinct (l # xs @ ys)" "pos \<notin> set (l # xs @ ys)" "el \<notin> set (l # xs @ ys)" "el \<noteq> pos"
    using r el by (auto simp: ring_def)
  have g2: "gap h l xs ys P a b Q"
    by (rule gapI [OF d(1) _ _ g1(1) bQ]) (use g1 bQ in auto)
  have ne: "pos \<noteq> a" "pos \<noteq> b" "el \<noteq> a" "el \<noteq> b" using d(2,3) unfolding gap_sets(1) [OF g2] by auto
  have e: "lprev (h pos) = a" "lnext (h pos) = b" using n g1 by (auto simp: b')
  define h' where "h' = list_replace el pos h"
  have h': "h' = set_next a el (set_prev el a (set_prev b el (set_next el b h)))"
    using ne e d(4) by (simp add: h'_def list_replace_def Let_def)
  have g': "gap h' l xs ys P a b Q" unfolding h'
    by (intro gap_writes gap_write_other [OF _ d(3)] g2)
  have k: "lnext (h' a) = el" "lprev (h' el) = a" "lnext (h' el) = b" "lprev (h' b) = el"
    using ne by (simp_all add: h')
  have "ring h' l (xs @ el # [] @ ys)"
    by (rule gap_fill [OF g']) (use k d in auto)
  then show ?thesis by (simp add: h'_def)
qed

lemma gap_cong:
  assumes "gap h l xs ys P a b Q"
    and "\<And>c. c \<in> set (l # xs @ ys) \<Longrightarrow> c \<noteq> a \<Longrightarrow> lnext (h' c) = lnext (h c)"
    and "\<And>c. c \<in> set (l # xs @ ys) \<Longrightarrow> c \<noteq> b \<Longrightarrow> lprev (h' c) = lprev (h c)"
  shows "gap h' l xs ys P a b Q"
proof -
  note s = gap_sets(1) [OF assms(1)]
  have "links h' (P @ [a]) = links h (P @ [a])"
    by (rule links_cong) (use assms s in \<open>auto simp: gap_def\<close>)
  moreover have "links h' (b # Q) = links h (b # Q)"
    by (rule links_cong) (use assms s in \<open>auto simp: gap_def\<close>)
  ultimately show ?thesis using assms(1) by (simp add: gap_def)
qed

lemma ring_between:
  assumes "ring h l (xs @ ys)"
  shows "lprev (h (hd (ys @ [l]))) = last (l # xs)" and "lnext (h (last (l # xs))) = hd (ys @ [l])"
proof -
  obtain P a b Q where g: "gap h l xs ys P a b Q" and n: "lnext (h a) = b" "lprev (h b) = a"
    using ring_gap [OF assms] .
  have "hd (ys @ [l]) = b" "last (l # xs) = a" using g by (simp_all add: gap_def)
  with n show "lprev (h (hd (ys @ [l]))) = last (l # xs)" "lnext (h (last (l # xs))) = hd (ys @ [l])"
    by simp_all
qed

lemma ring_ends:
  assumes "ring h l xs"
  shows "lnext (h l) = hd (xs @ [l])" and "lprev (h l) = last (l # xs)"
  using ring_between(2) [of h l "[]" xs] ring_between(1) [of h l xs "[]"] assms by simp_all

lemma ring_neighbours:
  assumes "ring h l xs" and "c \<in> set (l # xs)"
  shows "lprev (h c) \<in> set (l # xs)" and "lnext (h c) \<in> set (l # xs)"
proof -
  have hd_in: "hd (zs @ [l]) \<in> set (l # zs)" for zs by (cases zs) auto
  have "lprev (h c) \<in> set (l # xs) \<and> lnext (h c) \<in> set (l # xs)"
  proof (cases "c = l")
    case True
    with ring_ends [OF assms(1)] hd_in [of xs] show ?thesis by auto
  next
    case False
    then obtain us vs where xs: "xs = us @ c # vs" using assms(2) by (metis set_ConsD split_list)
    have "lprev (h c) = last (l # us)" using ring_between(1) [of h l us "c # vs"] assms(1) xs by simp
    moreover have "lnext (h c) = hd (vs @ [l])"
      using ring_between(2) [of h l "us @ [c]" vs] assms(1) xs by simp
    ultimately show ?thesis using hd_in [of vs] last_in_set [of "l # us"] by (auto simp: xs)
  qed
  then show "lprev (h c) \<in> set (l # xs)" "lnext (h c) \<in> set (l # xs)" by blast+
qed

text \<open>Operations on one list leave the others alone.\<close>

lemma list_insert_other:
  assumes "ring h l xs" "b \<in> set (l # xs)" and "ring h m zs" "set (m # zs) \<inter> set (l # xs) = {}" "el \<notin> set (m # zs)"
  shows "ring (list_insert b el h) m zs"
  using assms(3)
proof (rule ring_frame)
  fix c
  assume "c \<in> set (m # zs)"
  then show "list_insert b el h c = h c"
    using assms ring_neighbours(1) [OF assms(1,2)] by (intro list_insert_frame) blast
qed

lemma list_remove_other:
  assumes "ring h l xs" "el \<in> set (l # xs)" and "ring h m zs" "set (m # zs) \<inter> set (l # xs) = {}"
  shows "ring (snd (list_remove el h)) m zs"
  using assms(3)
proof (rule ring_frame)
  fix c
  assume "c \<in> set (m # zs)"
  then show "snd (list_remove el h) c = h c"
    using assms ring_neighbours [OF assms(1,2)] by (intro list_remove_frame) blast
qed

lemma list_push_front_ring:
  assumes "ring h l xs" and "el \<notin> set (l # xs)"
  shows "ring (list_push_front l el h) l (el # xs)"
  using list_insert_ring [of h l "[]" xs el] assms ring_ends(1) [OF assms(1)]
  by (simp add: list_push_front_def)

lemma list_push_back_ring:
  assumes "ring h l xs" and "el \<notin> set (l # xs)"
  shows "ring (list_push_back l el h) l (xs @ [el])"
  using list_insert_ring [of h l xs "[]" el] assms by (simp add: list_push_back_def)

lemma list_push_front_other:
  assumes "ring h l xs" and "ring h m zs" "set (m # zs) \<inter> set (l # xs) = {}" "el \<notin> set (m # zs)"
  shows "ring (list_push_front l el h) m zs"
  unfolding list_push_front_def
  by (rule list_insert_other [OF assms(1) _ assms(2-)]) (use ring_neighbours(2) [OF assms(1), of l] in simp)

lemma list_push_back_other:
  assumes "ring h l xs" and "ring h m zs" "set (m # zs) \<inter> set (l # xs) = {}" "el \<notin> set (m # zs)"
  shows "ring (list_push_back l el h) m zs"
  unfolding list_push_back_def by (rule list_insert_other [OF assms(1) _ assms(2-)]) simp

lemma list_push_front_outside:
  "ring h l xs \<Longrightarrow> c \<notin> set (el # l # xs) \<Longrightarrow> list_push_front l el h c = h c"
  unfolding list_push_front_def using ring_neighbours [of h l xs l] ring_neighbours(1) [of h l xs "lnext (h l)"]
  by (intro list_insert_frame) auto

lemma list_push_back_outside:
  "ring h l xs \<Longrightarrow> c \<notin> set (el # l # xs) \<Longrightarrow> list_push_back l el h c = h c"
  unfolding list_push_back_def using ring_neighbours [of h l xs l]
  by (intro list_insert_frame) auto

lemma list_remove_outside:
  "ring h l xs \<Longrightarrow> el \<in> set xs \<Longrightarrow> c \<notin> set (l # xs) \<Longrightarrow> snd (list_remove el h) c = h c"
  using ring_neighbours [of h l xs el] by (intro list_remove_frame) auto

lemma list_pop_front_ring:
  assumes "ring h l (x # xs)"
  shows "fst (list_pop_front l h) = x" and "ring (snd (list_pop_front l h)) l xs"
  using assms list_remove_ring(1) [of h l "[]" x xs] ring_ends(1) [OF assms]
  by (simp_all add: list_pop_front_def Let_def)

lemma list_pop_back_ring:
  assumes "ring h l (xs @ [x])"
  shows "fst (list_pop_back l h) = x" and "ring (snd (list_pop_back l h)) l xs"
  using assms list_remove_ring(1) [of h l xs x "[]"] ring_ends(2) [OF assms]
  by (simp_all add: list_pop_back_def Let_def)

lemma list_is_empty_ring: "ring h l xs \<Longrightarrow> list_is_empty l h \<longleftrightarrow> xs = []"
  using ring_ends(1) [of h l xs] by (cases xs) (auto simp: list_is_empty_def ring_def)

lemma list_front_ring: "ring h l xs \<Longrightarrow> list_front l h = (if xs = [] then None else Some (hd xs))"
  using ring_ends(1) [of h l xs] list_is_empty_ring [of h l xs] by (auto simp: list_front_def)

lemma list_back_ring: "ring h l xs \<Longrightarrow> list_back l h = (if xs = [] then None else Some (last xs))"
  using ring_ends(2) [of h l xs] list_is_empty_ring [of h l xs] by (auto simp: list_back_def)

text \<open>Loops over a list end at its head.\<close>

lemma list_search_links:
  "links h (ys @ [l]) \<Longrightarrow> l \<notin> set ys \<Longrightarrow>
    list_search P h l (hd (ys @ [l])) = Some (case find P ys of None \<Rightarrow> LNULL | Some e \<Rightarrow> e)"
proof (induction ys)
  case Nil
  then show ?case by (simp add: list_search.simps)
next
  case (Cons a ys)
  define n where "n = hd (ys @ [l])"
  have "links h (a # n # tl (ys @ [l]))" using Cons.prems(1) by (cases ys) (auto simp: n_def)
  then have "lnext (h a) = n" "links h (ys @ [l])" by (cases ys; simp add: n_def)+
  with Cons show ?case by (simp add: list_search.simps [of P h l a] n_def)
qed

lemma list_search_ring:
  assumes "ring h l xs"
  shows "list_search P h l (lnext (h l)) = Some (case find P xs of None \<Rightarrow> LNULL | Some e \<Rightarrow> e)"
proof -
  have "links h (xs @ [l])" using assms by (cases xs) (auto simp: ring_def)
  with assms show ?thesis using list_search_links [of h xs l P] ring_ends(1) [OF assms]
    by (simp add: ring_def)
qed

lemma list_size_loop_links:
  "links h (ys @ [l]) \<Longrightarrow> l \<notin> set ys \<Longrightarrow>
    list_size_loop h l (hd (ys @ [l])) cnt = Some (cnt + of_nat (length ys))"
proof (induction ys arbitrary: cnt)
  case Nil
  then show ?case by (simp add: list_size_loop.simps)
next
  case (Cons a ys)
  define n where "n = hd (ys @ [l])"
  have "links h (a # n # tl (ys @ [l]))" using Cons.prems(1) by (cases ys) (auto simp: n_def)
  then have "lnext (h a) = n" "links h (ys @ [l])" by (cases ys; simp add: n_def)+
  with Cons show ?case by (simp add: list_size_loop.simps [of h l a] n_def)
qed

lemma list_size_ring:
  assumes "ring h l xs"
  shows "list_size l h = Some (of_nat (length xs))"
proof -
  have "links h (xs @ [l])" using assms by (cases xs) (auto simp: ring_def)
  with assms show ?thesis using list_size_loop_links [of h xs l 0] ring_ends(1) [OF assms]
    by (simp add: ring_def list_size_def)
qed


lemma ring_middle:
  assumes r: "ring h l (us @ m # ms @ vs)"
  obtains P a b Q where "gap h l us vs P a b Q" "links h (m # ms)" "lprev (h m) = a" "lnext (h (last (m # ms))) = b"
proof -
  define P a b Q where "P = butlast (l # us)" and "a = last (l # us)" and
    "b = hd (vs @ [l])" and "Q = tl (vs @ [l])"
  have e: "l # us = P @ [a]" "vs @ [l] = b # Q" by (auto simp: P_def a_def b_def Q_def)
  have "l # (us @ m # ms @ vs) @ [l] = (P @ [a]) @ (m # ms) @ b # Q" using e
    by (metis append_Cons append_assoc)
  with r have lk: "links h (P @ a # m # ms @ b # Q)" and d: "distinct (l # us @ m # ms @ vs)"
    by (simp_all add: ring_def)
  from lk have l1: "links h (P @ [a])" "lnext (h a) = m" "lprev (h m) = a" "links h ((m # ms) @ b # Q)"
    using links_append [of h P a "m # ms @ b # Q"] by auto
  then have l2: "links h ((m # ms) @ [b])" "links h (b # Q)" using links_append [of h "m # ms" b Q] by auto
  define c cs where "c = last (m # ms)" and "cs = butlast (m # ms)"
  have cs: "m # ms = cs @ [c]" by (simp add: c_def cs_def)
  have "links h (m # ms)" "lnext (h (last (m # ms))) = b"
    using l2(1) links_append [of h cs c "[b]"] unfolding cs by simp_all
  moreover have "gap h l us vs P a b Q"
    by (rule gapI [OF _ _ _ e]) (use d e l1 l2 in auto)
  ultimately show ?thesis using that l1(3) by blast
qed

text \<open>Splicing moves a section of one list before a node of another.\<close>

lemma list_splice_ring:
  assumes r: "ring h l (xs @ ys)" and s: "ring h k (us @ ms @ vs)"
    and dis: "set (l # xs @ ys) \<inter> set (k # us @ ms @ vs) = {}"
    and args: "bef = hd (ys @ [l])" "fst_el = hd (ms @ vs @ [k])" "lst = hd (vs @ [k])"
  shows "ring (list_splice bef fst_el lst h) l (xs @ ms @ ys)"
    and "ring (list_splice bef fst_el lst h) k (us @ vs)"
proof -
  have "ring (list_splice bef fst_el lst h) l (xs @ ms @ ys) \<and> ring (list_splice bef fst_el lst h) k (us @ vs)"
  proof (cases ms)
    case Nil
    with args have "fst_el = lst" by simp
    with Nil r s show ?thesis by (simp add: list_splice_def)
  next
    case (Cons m ms')
    define e where "e = last (m # ms')"
    obtain P a b Q where g: "gap h l xs ys P a b Q" and p: "lprev (h b) = a" using ring_gap [OF r] .
    have b: "bef = b" using g args by (simp add: gap_def)
    obtain P' a' b' Q' where g': "gap h k us vs P' a' b' Q'" and c: "links h (m # ms')"
      and n': "lprev (h m) = a'" "lnext (h e) = b'"
      by (rule ring_middle [of h k us m ms' vs]) (use s Cons in \<open>simp_all add: e_def\<close>)
    have b': "lst = b'" "fst_el = m" using g' args Cons by (simp_all add: gap_def)
    have d: "distinct (k # us @ vs)" "distinct (m # ms')" "set (m # ms') \<inter> set (k # us @ vs) = {}"
      "distinct (l # xs @ ys)" "set (m # ms') \<inter> set (l # xs @ ys) = {}" "set (k # us @ vs) \<inter> set (l # xs @ ys) = {}"
      using s r dis Cons by (auto simp: ring_def)
    have em: "e \<in> set (m # ms')" "m \<in> set (m # ms')" unfolding e_def by (rule last_in_set) auto
    have ab: "a \<in> set (l # xs @ ys)" "b \<in> set (l # xs @ ys)" unfolding gap_sets(1) [OF g] by auto
    have ab': "a' \<in> set (k # us @ vs)" "b' \<in> set (k # us @ vs)" unfolding gap_sets(1) [OF g'] by auto
    have pb': "lprev (h b') = e"
      using ring_between(1) [of h k "us @ m # ms'" vs] s Cons g' by (simp add: gap_def e_def)
    have ne: "b \<noteq> b'" "b \<noteq> m" "a' \<noteq> a" "a' \<noteq> e" "b' \<noteq> m" "a \<noteq> e" 
      using em ab ab' d(3,5,6) by blast+
    define h' where "h' = list_splice bef fst_el lst h"
    have h': "h' = set_prev b e (set_next a m (set_next e b (set_prev m a (set_prev b' a' (set_next a' b' h)))))"
      using p n' pb' ne by (simp add: h'_def list_splice_def Let_def b b')
    have nx: "lnext (h' c) = (if c = a then m else if c = e then b else if c = a' then b' else lnext (h c))" for c
      by (simp add: h')
    have pv: "lprev (h' c) = (if c = b then e else if c = m then a else if c = b' then a' else lprev (h c))" for c
      by (simp add: h')
    have g1: "gap h' l xs ys P a b Q"
      by (rule gap_cong [OF g]; unfold nx pv) (use em ab' d(5,6) in \<open>auto simp del: set_append\<close>)
    have g2: "gap h' k us vs P' a' b' Q'"
      by (rule gap_cong [OF g']; unfold nx pv) (use em ab d(3,6) in \<open>auto simp del: set_append\<close>)
    have "links h' (m # ms') = links h (m # ms')"
    proof (rule links_cong)
      fix c
      assume c: "c \<in> set (butlast (m # ms'))"
      then have "c \<noteq> e" using d(2) unfolding e_def
        by (metis append_butlast_last_id distinct_append disjoint_iff list.distinct(1) list.set_intros(1))
      moreover have "c \<noteq> a" "c \<noteq> a'" using in_set_butlastD [OF c] ab ab' d(3,5) by blast+
      ultimately show "lnext (h' c) = lnext (h c)" by (simp add: nx)
    next
      fix c
      assume "c \<in> set (tl (m # ms'))"
      then have "c \<noteq> m" "c \<in> set (m # ms')" using d(2) by auto
      moreover from this(2) have "c \<noteq> b" "c \<noteq> b'" using ab ab' d(3,5) by blast+
      ultimately show "lprev (h' c) = lprev (h c)" by (simp add: pv)
    qed
    with c have c': "links h' (m # ms')" by simp
    have "distinct (l # xs @ m # ms' @ ys)" using d(2,4,5) by auto
    then have "ring h' l (xs @ m # ms' @ ys)"
      by (rule gap_fill [OF g1 c']; unfold e_def [symmetric] nx pv) (use ne in simp_all)
    moreover have "ring h' k (us @ vs)"
      by (rule ring_gapI [of k us P' a' vs b' Q']) (use g2 d(1) ne in \<open>simp_all add: gap_def nx pv\<close>)
    ultimately show ?thesis by (simp add: h'_def Cons)
  qed
  then show "ring (list_splice bef fst_el lst h) l (xs @ ms @ ys)"
    "ring (list_splice bef fst_el lst h) k (us @ vs)" by blast+
qed



section \<open>The interface\<close>

text \<open>
  What the clients of the lists rely on: after an operation the list is the changed sequence, and lists
  that share no node with it are as before.
\<close>

locale list_store =
  fixes is_list :: "'h \<Rightarrow> 'p \<Rightarrow> 'p list \<Rightarrow> bool"
    and push_front push_back :: "'p \<Rightarrow> 'p \<Rightarrow> 'h \<Rightarrow> 'h"
    and remove :: "'p \<Rightarrow> 'h \<Rightarrow> 'p \<times> 'h"
  assumes list_distinct: "is_list h l xs \<Longrightarrow> distinct (l # xs)"
    and push_front: "is_list h l xs \<Longrightarrow> el \<notin> set (l # xs) \<Longrightarrow> is_list (push_front l el h) l (el # xs)"
    and push_back: "is_list h l xs \<Longrightarrow> el \<notin> set (l # xs) \<Longrightarrow> is_list (push_back l el h) l (xs @ [el])"
    and remove: "is_list h l (xs @ el # ys) \<Longrightarrow> is_list (snd (remove el h)) l (xs @ ys)"
    and push_front_other: "is_list h l xs \<Longrightarrow> is_list h m zs \<Longrightarrow> set (m # zs) \<inter> set (l # xs) = {} \<Longrightarrow>
      el \<notin> set (m # zs) \<Longrightarrow> is_list (push_front l el h) m zs"
    and push_back_other: "is_list h l xs \<Longrightarrow> is_list h m zs \<Longrightarrow> set (m # zs) \<inter> set (l # xs) = {} \<Longrightarrow>
      el \<notin> set (m # zs) \<Longrightarrow> is_list (push_back l el h) m zs"
    and remove_other: "is_list h l xs \<Longrightarrow> el \<in> set (l # xs) \<Longrightarrow> is_list h m zs \<Longrightarrow>
      set (m # zs) \<inter> set (l # xs) = {} \<Longrightarrow> is_list (snd (remove el h)) m zs"
begin

text \<open>Moving an element to the end of its list.\<close>

lemma move_to_back:
  assumes "is_list h l (xs @ el # ys)"
  shows "is_list (push_back l el (snd (remove el h))) l (xs @ ys @ [el])"
  using push_back [OF remove [OF assms], of el] list_distinct [OF assms] by auto

lemma move_to_back_other:
  assumes l: "is_list h l (xs @ el # ys)" and m: "is_list h m zs"
    and dis: "set (m # zs) \<inter> set (l # xs @ el # ys) = {}"
  shows "is_list (push_back l el (snd (remove el h))) m zs"
proof (rule push_back_other [OF remove [OF l]])
  show "is_list (snd (remove el h)) m zs" by (rule remove_other [OF l _ m dis]) simp
qed (use dis in auto)

end

interpretation rings: list_store ring list_push_front list_push_back list_remove
proof unfold_locales
  show "\<And>h l xs. ring h l xs \<Longrightarrow> distinct (l # xs)" by (simp add: ring_def)
qed (rule list_push_front_ring list_push_back_ring list_remove_ring(1) list_push_front_other
      list_push_back_other list_remove_other; assumption)+

text \<open>
  C23. The linked lists of the switch implement sequences: initialisation gives the empty sequence,
  insertion, splicing, replacement, removal and the two pops change the sequence where their arguments
  point to, the front and back are asserted to exist, and counting returns.
\<close>

theorem list_refines_sequence:
  assumes r: "ring h l (xs @ ys)" and el: "el \<notin> set (l # xs @ ys)"
  shows "ring (list_init el h) el [] \<and>
    ring (list_insert (hd (ys @ [l])) el h) l (xs @ el # ys) \<and>
    ring (list_push_front l el h) l (el # xs @ ys) \<and>
    ring (list_push_back l el h) l ((xs @ ys) @ [el]) \<and>
    list_front l h = (if xs @ ys = [] then None else Some (hd (xs @ ys))) \<and>
    list_back l h = (if xs @ ys = [] then None else Some (last (xs @ ys))) \<and>
    list_size l h = Some (of_nat (length (xs @ ys))) \<and>
    (\<forall>y zs. ys = y # zs \<longrightarrow>
      ring (list_replace el y h) l (xs @ el # zs) \<and>
      ring (snd (list_remove y h)) l (xs @ zs) \<and> fst (list_remove y h) = hd (zs @ [l]) \<and>
      (xs = [] \<longrightarrow> fst (list_pop_front l h) = y \<and> ring (snd (list_pop_front l h)) l zs) \<and>
      (zs = [] \<longrightarrow> fst (list_pop_back l h) = y \<and> ring (snd (list_pop_back l h)) l xs)) \<and>
    (\<forall>k us ms vs. ring h k (us @ ms @ vs) \<longrightarrow> set (l # xs @ ys) \<inter> set (k # us @ ms @ vs) = {} \<longrightarrow>
      ring (list_splice (hd (ys @ [l])) (hd (ms @ vs @ [k])) (hd (vs @ [k])) h) l (xs @ ms @ ys) \<and>
      ring (list_splice (hd (ys @ [l])) (hd (ms @ vs @ [k])) (hd (vs @ [k])) h) k (us @ vs))"
proof (intro conjI allI impI)
  fix y zs
  assume ys: "ys = y # zs"
  show "ring (list_replace el y h) l (xs @ el # zs)" using list_replace_ring r el by (simp add: ys)
  show "ring (snd (list_remove y h)) l (xs @ zs)" "fst (list_remove y h) = hd (zs @ [l])"
    using list_remove_ring [of h l xs y zs] r by (simp_all add: ys)
  show "fst (list_pop_front l h) = y" "ring (snd (list_pop_front l h)) l zs" if "xs = []"
    using list_pop_front_ring [of h l y zs] r that by (simp_all add: ys)
  show "fst (list_pop_back l h) = y" "ring (snd (list_pop_back l h)) l xs" if "zs = []"
    using list_pop_back_ring [of h l xs y] r that by (simp_all add: ys)
qed (use list_init_ring list_insert_ring [OF r el] rings.push_front [OF r el] rings.push_back [OF r el]
      list_front_ring [OF r] list_back_ring [OF r] list_size_ring [OF r] list_splice_ring [OF r]
      in \<open>simp_all del: append_assoc\<close>)

text \<open>Three nodes 2, 3, 4 on the list 1, and a second list 9 with the node 8.\<close>

definition sample_lists :: lheap where
  "sample_lists = list_push_back 1 4 (list_push_back 1 3 (list_push_back 1 2 (list_init 1
     (list_push_front 9 8 (list_init 9 (\<lambda>_. \<lparr>lprev = 0, lnext = 0\<rparr>))))))"

lemma sample_lists_rings: "ring sample_lists 1 [2, 3, 4]" "ring sample_lists 9 [8]"
  by (simp_all add: sample_lists_def ring_def list_init_def list_push_back_def list_push_front_def
      list_insert_def Let_def)

theorem list_refines_sequence_witness:
  "ring sample_lists 1 ([2] @ [3, 4]) \<and> ring (list_insert 3 7 sample_lists) 1 [2, 7, 3, 4] \<and>
    ring (list_splice 3 8 9 sample_lists) 1 [2, 8, 3, 4] \<and> ring (list_splice 3 8 9 sample_lists) 9 []"
proof -
  have r: "ring sample_lists 1 ([2] @ [3, 4])" using sample_lists_rings by simp
  note f = list_refines_sequence [OF r, of 7, simplified]
  have "ring (list_splice 3 8 9 sample_lists) 1 [2, 8, 3, 4] \<and> ring (list_splice 3 8 9 sample_lists) 9 []"
    using f sample_lists_rings(2) by (elim conjE allE [of _ 9] allE [of _ "[]"] allE [of _ "[8]"]) auto
  with f r show ?thesis by simp
qed

end
