(* ===== verification/Mac_Learning.thy ===== *)
theory Mac_Learning
  imports Linked_Lists Flow_Key
begin

text \<open>
  The MAC learning table of \<open>lib/mac-learning.c\<close>: 1024 entries that are elements of two linked lists each,
  a hash bucket and the list of all entries in the order of their last use.  The lists live in the node
  store of \<open>Linked_Lists\<close>.  The specification is a bounded sequence of addresses with the port and time
  of their last sighting, least recently seen first; every operation of the table refines it.
\<close>

section \<open>The table\<close>

abbreviation (input) MAC_HASH_BITS :: u32 where "MAC_HASH_BITS \<equiv> 10"
abbreviation (input) MAC_HASH_SIZE :: nat where "MAC_HASH_SIZE \<equiv> 1024"
abbreviation (input) MAC_MAX :: nat where "MAC_MAX \<equiv> 1024"
abbreviation (input) FLOOD_PORT :: u16 where "FLOOD_PORT \<equiv> 0xfffb"

record mac_entry =
  me_used :: int
  me_mac :: eth_addr
  me_port :: int

record mac_learning =
  ml_nodes :: lheap
  ml_entries :: "nat \<Rightarrow> mac_entry"

text \<open>Addresses of the list nodes inside of the structure, and the entries that contain them.\<close>

definition lrus :: lptr where "lrus = 1"
definition table_node :: "nat \<Rightarrow> lptr" where "table_node i = 2 + i"
definition hash_node :: "nat \<Rightarrow> lptr" where "hash_node e = 1026 + 2 * e"
definition lru_node :: "nat \<Rightarrow> lptr" where "lru_node e = 1027 + 2 * e"
definition hash_entry :: "lptr \<Rightarrow> nat" where "hash_entry a = (a - 1026) div 2"
definition lru_entry :: "lptr \<Rightarrow> nat" where "lru_entry a = (a - 1027) div 2"

definition eth_addr_is_multicast :: "eth_addr \<Rightarrow> bool" where
  "eth_addr_is_multicast ea \<longleftrightarrow> bit (eth_bytes ea ! 0) 0"

text \<open>The index of the bucket; the source masks with \<open>MAC_HASH_BITS\<close> where \<open>MAC_HASH_MASK\<close> is meant.\<close>

definition mac_table_index :: "eth_addr \<Rightarrow> nat" where
  "mac_table_index m = unat (hash_fnv (eth_bytes m) 2166136261 AND MAC_HASH_BITS)"

definition mac_table_bucket :: "eth_addr \<Rightarrow> lptr" where
  "mac_table_bucket m = table_node (mac_table_index m)"

definition search_bucket :: "mac_learning \<Rightarrow> lptr \<Rightarrow> eth_addr \<Rightarrow> nat option option" where
  "search_bucket ml bucket m =
    map_option (\<lambda>a. if a = LNULL then None else Some (hash_entry a))
      (list_search (\<lambda>a. eth_addr_equals (me_mac (ml_entries ml (hash_entry a))) m)
        (ml_nodes ml) bucket (lnext (ml_nodes ml bucket)))"

text \<open>The arguments are the contents of the memory that \<open>xmalloc\<close> returns.\<close>

definition mac_learning_create :: "lheap \<Rightarrow> (nat \<Rightarrow> mac_entry) \<Rightarrow> mac_learning" where
  "mac_learning_create garbage garbage_entries =
    (let h = list_init lrus garbage;
         h = fold (\<lambda>i. list_init (table_node i)) [0..<MAC_HASH_SIZE] h;
         h = fold (\<lambda>i h. let h = list_push_front lrus (lru_node i) h in set_next (hash_node i) LNULL h)
               [0..<MAC_MAX] h
     in \<lparr>ml_nodes = h, ml_entries = garbage_entries\<rparr>)"

text \<open>The entry for a new address: the least recently used one, taken out of its old bucket.\<close>

definition mac_entry_reuse :: "mac_learning \<Rightarrow> lptr \<Rightarrow> eth_addr \<Rightarrow> nat \<times> mac_learning" where
  "mac_entry_reuse ml bucket src_mac =
    (let e = lru_entry (lnext (ml_nodes ml lrus));
         en = (ml_entries ml)(e := (ml_entries ml e)\<lparr>me_mac := src_mac\<rparr>);
         h = (if lnext (ml_nodes ml (hash_node e)) \<noteq> LNULL
              then snd (list_remove (hash_node e) (ml_nodes ml)) else ml_nodes ml);
         h = list_push_front bucket (hash_node e) h
     in (e, \<lparr>ml_nodes = h, ml_entries = en(e := (en e)\<lparr>me_port := -1\<rparr>)\<rparr>))"

definition mac_learning_learn :: "mac_learning \<Rightarrow> eth_addr \<Rightarrow> u16 \<Rightarrow> int \<Rightarrow> (bool \<times> mac_learning) option" where
  "mac_learning_learn ml src_mac src_port now =
    (if eth_addr_is_multicast src_mac then Some (False, ml)
     else do {
       let bucket = mac_table_bucket src_mac;
       found \<leftarrow> search_bucket ml bucket src_mac;
       let (e, ml) = (case found of Some e \<Rightarrow> (e, ml) | None \<Rightarrow> mac_entry_reuse ml bucket src_mac);
       let h = snd (list_remove (lru_node e) (ml_nodes ml));
       let h = list_push_back lrus (lru_node e) h;
       let en = (ml_entries ml)(e := (ml_entries ml e)\<lparr>me_used := now\<rparr>);
       if me_port (en e) \<noteq> uint src_port
       then Some (True, \<lparr>ml_nodes = h, ml_entries = en(e := (en e)\<lparr>me_port := uint src_port\<rparr>)\<rparr>)
       else Some (False, \<lparr>ml_nodes = h, ml_entries = en\<rparr>)
     })"

definition mac_learning_lookup :: "mac_learning \<Rightarrow> eth_addr \<Rightarrow> int \<Rightarrow> u16 option" where
  "mac_learning_lookup ml dst now =
    (if eth_addr_is_multicast dst then Some FLOOD_PORT
     else do {
       found \<leftarrow> search_bucket ml (mac_table_bucket dst) dst;
       Some (case found of None \<Rightarrow> FLOOD_PORT
             | Some e \<Rightarrow> if now - me_used (ml_entries ml e) < 60 then word_of_int (me_port (ml_entries ml e))
                        else FLOOD_PORT)
     })"


section \<open>Specification\<close>

type_synonym mac_row = "eth_addr \<times> u16 \<times> int"

definition mac_spec_learn :: "eth_addr \<Rightarrow> u16 \<Rightarrow> int \<Rightarrow> mac_row list \<Rightarrow> bool \<times> mac_row list" where
  "mac_spec_learn m p t L =
    (if eth_addr_is_multicast m then (False, L)
     else (map_option fst (map_of L m) \<noteq> Some p,
       (if m \<in> fst ` set L then filter (\<lambda>r. fst r \<noteq> m) L
        else if length L < MAC_MAX then L else tl L) @ [(m, p, t)]))"

definition mac_spec_lookup :: "eth_addr \<Rightarrow> int \<Rightarrow> mac_row list \<Rightarrow> u16" where
  "mac_spec_lookup m t L =
    (case map_of L m of
      Some (p, u) \<Rightarrow> if \<not> eth_addr_is_multicast m \<and> t - u < 60 then p else FLOOD_PORT
    | None \<Rightarrow> FLOOD_PORT)"


section \<open>Nodes\<close>

lemmas node_defs = lrus_def table_node_def hash_node_def lru_node_def

lemma hash_entry_node [simp]: "hash_entry (hash_node e) = e"
  by (simp add: hash_entry_def hash_node_def)

lemma lru_entry_node [simp]: "lru_entry (lru_node e) = e"
  by (simp add: lru_entry_def lru_node_def)

lemma node_eq [simp]:
  "hash_node e = hash_node f \<longleftrightarrow> e = f" "lru_node e = lru_node f \<longleftrightarrow> e = f" "table_node i = table_node j \<longleftrightarrow> i = j"
  "hash_node e \<noteq> lru_node f" "lru_node f \<noteq> hash_node e" "lrus \<noteq> hash_node e" "lrus \<noteq> lru_node e"
  "hash_node e \<noteq> lrus" "lru_node e \<noteq> lrus" "lrus \<noteq> table_node i" "table_node i \<noteq> lrus"
  "LNULL < hash_node e" "LNULL < lru_node e" "LNULL < table_node i"
  by (auto simp: node_defs) presburger+

lemma table_node_neq [simp]:
  "i < 1024 \<Longrightarrow> table_node i \<noteq> hash_node e" "i < 1024 \<Longrightarrow> hash_node e \<noteq> table_node i"
  "i < 1024 \<Longrightarrow> table_node i \<noteq> lru_node e" "i < 1024 \<Longrightarrow> lru_node e \<noteq> table_node i"
  by (auto simp: node_defs)

lemma mac_table_index_less: "mac_table_index m < 1024"
  using unat_and_le [of "hash_fnv (eth_bytes m) 2166136261" 10] by (simp add: mac_table_index_def)

text \<open>
  Only four of the 1024 buckets of the MAC table are ever used: the index is masked with the number
  of hash bits instead of the bit mask.
\<close>

theorem mac_table_four_buckets: "mac_table_index m \<in> {0, 2, 8, 10}"
proof -
  have "(x :: u32) AND 10 \<in> {0, 2, 8, 10}" for x
  proof -
    define k where "k = unat x mod 16"
    have "x AND 15 = take_bit 4 x" by (simp add: take_bit_eq_mask mask_eq_exp_minus_1)
    moreover have "unat (take_bit 4 x) = k" 
      unfolding unsigned_take_bit_eq by (simp add: k_def take_bit_eq_mod)
    ultimately have "x AND 15 = of_nat k" by (metis of_nat_unat ucast_id)
    moreover have "x AND 10 = (x AND 15) AND 10" by (simp add: and.assoc)
    ultimately have "x AND 10 = of_nat k AND 10" by simp
    moreover have "k \<in> set [0..<16]" by (simp add: k_def)
    ultimately show ?thesis by (auto simp: upt_conv_Cons)
  qed
  from this [of "hash_fnv (eth_bytes m) 2166136261"] show ?thesis by (auto simp: mac_table_index_def)
qed



section \<open>Invariant\<close>

text \<open>
  \<open>bs i\<close> are the entries in bucket \<open>i\<close>.  The entries in use, \<open>vs\<close>, follow the entries never used, \<open>us\<close>,
  in the list of all entries; an entry in use is in the bucket of its address, and no two of them have
  the same address.
\<close>

definition buckets_ok :: "lheap \<Rightarrow> (nat \<Rightarrow> nat list) \<Rightarrow> bool" where
  "buckets_ok h bs \<longleftrightarrow> (\<forall>i < 1024. ring h (table_node i) (map hash_node (bs i))) \<and>
    (\<forall>i < 1024. \<forall>j < 1024. i \<noteq> j \<longrightarrow> set (bs i) \<inter> set (bs j) = {})"

definition mac_entry_ok :: "(nat \<Rightarrow> mac_entry) \<Rightarrow> (nat \<Rightarrow> nat list) \<Rightarrow> nat \<Rightarrow> bool" where
  "mac_entry_ok en bs e \<longleftrightarrow>
    (\<forall>i < 1024. e \<in> set (bs i) \<longleftrightarrow> i = mac_table_index (me_mac (en e))) \<and>
    0 \<le> me_port (en e) \<and> me_port (en e) < 65536"

definition mac_inv :: "mac_learning \<Rightarrow> nat list \<Rightarrow> nat list \<Rightarrow> (nat \<Rightarrow> nat list) \<Rightarrow> bool" where
  "mac_inv ml us vs bs \<longleftrightarrow>
    ring (ml_nodes ml) lrus (map lru_node (us @ vs)) \<and> set (us @ vs) = {..<1024} \<and>
    buckets_ok (ml_nodes ml) bs \<and> (\<forall>i < 1024. set (bs i) \<subseteq> set vs) \<and>
    (\<forall>e \<in> set us. lnext (ml_nodes ml (hash_node e)) = LNULL) \<and>
    (\<forall>e \<in> set vs. mac_entry_ok (ml_entries ml) bs e) \<and>
    inj_on (\<lambda>e. me_mac (ml_entries ml e)) (set vs)"

definition mac_row_of :: "(nat \<Rightarrow> mac_entry) \<Rightarrow> nat \<Rightarrow> mac_row" where
  "mac_row_of en e = (me_mac (en e), word_of_int (me_port (en e)), me_used (en e))"

definition mac_rel :: "mac_learning \<Rightarrow> mac_row list \<Rightarrow> bool" where
  "mac_rel ml L \<longleftrightarrow> (\<exists>us vs bs. mac_inv ml us vs bs \<and> L = map (mac_row_of (ml_entries ml)) vs)"

lemma mac_relI: "mac_inv ml us vs bs \<Longrightarrow> mac_rel ml (map (mac_row_of (ml_entries ml)) vs)"
  by (auto simp: mac_rel_def)

lemma ring_hash_distinct: "buckets_ok h bs \<Longrightarrow> i < 1024 \<Longrightarrow> distinct (bs i)"
  unfolding buckets_ok_def ring_def by (metis distinct.simps(2) distinct_map)

lemma bucket_disjoint:
  assumes "buckets_ok h bs" "i < 1024" "j < 1024" "i \<noteq> j"
  shows "set (table_node i # map hash_node (bs i)) \<inter> set (table_node j # map hash_node (bs j)) = {}"
proof -
  have "set (bs i) \<inter> set (bs j) = {}" using assms by (simp add: buckets_ok_def)
  with assms(2-4) show ?thesis by auto
qed

lemma bucket_lru_disjoint:
  "i < 1024 \<Longrightarrow> set (table_node i # map hash_node es) \<inter> set (lrus # map lru_node fs) = {}"
  by auto

lemma buckets_push:
  assumes ok: "buckets_ok h bs" and e: "\<And>i. i < 1024 \<Longrightarrow> e \<notin> set (bs i)" and b: "b < 1024"
  shows "buckets_ok (list_push_front (table_node b) (hash_node e) h) (bs(b := e # bs b))"
proof -
  have r: "ring h (table_node b) (map hash_node (bs b))" using ok b by (simp add: buckets_ok_def)
  have "ring (list_push_front (table_node b) (hash_node e) h) (table_node i) (map hash_node ((bs(b := e # bs b)) i))"
    if i: "i < 1024" for i
  proof (cases "i = b")
    case True
    have "hash_node e \<notin> set (table_node b # map hash_node (bs b))" using e [OF b] b by auto
    with rings.push_front [OF r] True show ?thesis by simp
  next
    case False
    have "ring h (table_node i) (map hash_node (bs i))" using ok i by (simp add: buckets_ok_def)
    moreover have "hash_node e \<notin> set (table_node i # map hash_node (bs i))" using e [OF i] i by auto
    ultimately show ?thesis
      using rings.push_front_other [OF r _ bucket_disjoint [OF ok i b False]] False by simp
  qed
  then show ?thesis using ok e by (auto simp: buckets_ok_def)
qed

lemma buckets_remove:
  assumes ok: "buckets_ok h bs" and b: "b < 1024" "bs b = xs @ e # ys"
  shows "buckets_ok (snd (list_remove (hash_node e) h)) (bs(b := xs @ ys))"
proof -
  have r: "ring h (table_node b) (map hash_node xs @ hash_node e # map hash_node ys)"
    using ok b unfolding buckets_ok_def by (metis list.simps(9) map_append)
  have "ring (snd (list_remove (hash_node e) h)) (table_node i) (map hash_node ((bs(b := xs @ ys)) i))"
    if i: "i < 1024" for i
  proof (cases "i = b")
    case True
    with rings.remove [OF r] show ?thesis by simp
  next
    case False
    have "ring h (table_node i) (map hash_node (bs i))" using ok i by (simp add: buckets_ok_def)
    then show ?thesis
      using rings.remove_other [OF r _ _, of "hash_node e"] bucket_disjoint [OF ok i b(1) False] False b by simp
  qed
  then show ?thesis using ok b by (fastforce simp: buckets_ok_def)
qed

lemma buckets_lru_move:
  assumes ok: "buckets_ok h bs" and l: "ring h lrus (map lru_node (xs @ e # ys))"
  shows "buckets_ok (list_push_back lrus (lru_node e) (snd (list_remove (lru_node e) h))) bs"
proof -
  have "ring (list_push_back lrus (lru_node e) (snd (list_remove (lru_node e) h))) (table_node i) (map hash_node (bs i))"
    if i: "i < 1024" for i
  proof (rule rings.move_to_back_other)
    show "ring h lrus (map lru_node xs @ lru_node e # map lru_node ys)" using l by simp
    show "ring h (table_node i) (map hash_node (bs i))" using ok i by (simp add: buckets_ok_def)
  qed (use bucket_lru_disjoint [OF i, of "bs i" "xs @ e # ys"] in simp)
  with ok show ?thesis by (simp add: buckets_ok_def)
qed

lemma lru_move:
  assumes "ring h lrus (map lru_node (xs @ e # ys))"
  shows "ring (list_push_back lrus (lru_node e) (snd (list_remove (lru_node e) h))) lrus (map lru_node (xs @ ys @ [e]))"
  using rings.move_to_back [of h lrus "map lru_node xs" "lru_node e" "map lru_node ys"] assms by simp



section \<open>Refinement\<close>

lemma find_map: "find P (map f xs) = map_option f (find (P \<circ> f) xs)"
  by (induction xs) auto

lemma search_bucket_inv:
  assumes inv: "mac_inv ml us vs bs"
  obtains r where "search_bucket ml (mac_table_bucket m) m = Some r"
    and "\<And>e. r = Some e \<longleftrightarrow> e \<in> set vs \<and> me_mac (ml_entries ml e) = m"
proof -
  define i where "i = mac_table_index m"
  define r where "r = find (\<lambda>e. me_mac (ml_entries ml e) = m) (bs i)"
  have i: "i < 1024" by (simp add: i_def mac_table_index_less)
  have "ring (ml_nodes ml) (table_node i) (map hash_node (bs i))"
    using inv i by (simp add: mac_inv_def buckets_ok_def)
  note s = list_search_ring [OF this, of "\<lambda>a. eth_addr_equals (me_mac (ml_entries ml (hash_entry a))) m"]
  have "search_bucket ml (mac_table_bucket m) m = Some r"
    unfolding search_bucket_def mac_table_bucket_def i_def [symmetric] s
    by (simp add: find_map r_def o_def eth_addr_equals_def split: option.split)
  moreover have "r = Some e \<longleftrightarrow> e \<in> set vs \<and> me_mac (ml_entries ml e) = m" for e
  proof
    assume "r = Some e"
    then have "e \<in> set (bs i)" "me_mac (ml_entries ml e) = m" unfolding r_def by (blast dest: find_SomeD)+
    with inv i show "e \<in> set vs \<and> me_mac (ml_entries ml e) = m" by (auto simp: mac_inv_def)
  next
    assume e: "e \<in> set vs \<and> me_mac (ml_entries ml e) = m"
    then have "e \<in> set (bs i)" using inv i by (simp add: mac_inv_def mac_entry_ok_def i_def)
    with e obtain f where f: "r = Some f" unfolding r_def by (metis (mono_tags) find_None_iff not_Some_eq)
    then have "f \<in> set (bs i)" "me_mac (ml_entries ml f) = m" unfolding r_def by (blast dest: find_SomeD)+
    moreover from this(1) have "f \<in> set vs" using inv i by (auto simp: mac_inv_def)
    moreover have "inj_on (\<lambda>e. me_mac (ml_entries ml e)) (set vs)" using inv by (simp add: mac_inv_def)
    ultimately have "f = e" using e by (metis inj_onD)
    with f show "r = Some e" by simp
  qed
  ultimately show ?thesis by (rule that)
qed

lemma mac_row_fst [simp]: "fst (mac_row_of en e) = me_mac (en e)"
  by (simp add: mac_row_of_def)

lemma mac_inv_distinct: "mac_inv ml us vs bs \<Longrightarrow> distinct (us @ vs)"
  unfolding mac_inv_def ring_def by (metis distinct.simps(2) distinct_map)

lemma map_of_rows:
  assumes "inj_on (\<lambda>e. me_mac (en e)) (set vs)" and "e \<in> set vs"
  shows "map_of (map (mac_row_of en) vs) (me_mac (en e)) = Some (word_of_int (me_port (en e)), me_used (en e))"
  using assms
proof (induction vs)
  case (Cons f vs)
  show ?case
  proof (cases "me_mac (en f) = me_mac (en e)")
    case True
    with Cons.prems have "f = e" by (metis inj_onD list.set_intros(1))
    then show ?thesis by (simp add: mac_row_of_def)
  next
    case False
    then have "e \<in> set vs" using Cons.prems(2) by auto
    with False Cons show ?thesis by (auto simp: mac_row_of_def)
  qed
qed simp

lemma map_of_rows_None:
  "map_of (map (mac_row_of en) vs) m = None \<longleftrightarrow> m \<notin> (\<lambda>e. me_mac (en e)) ` set vs"
  by (auto simp: map_of_eq_None_iff image_image)

text \<open>The last part of learning: the entry \<open>e\<close> becomes the most recently used one.\<close>

lemma mac_touch:
  assumes ring: "ring h lrus (map lru_node (xs @ e # ys))" and all: "set (xs @ e # ys) = {..<1024}"
    and split: "xs @ ys = us @ vs" and ok: "buckets_ok h bs"
    and sub: "\<And>i. i < 1024 \<Longrightarrow> set (bs i) \<subseteq> insert e (set vs)"
    and unused: "\<And>f. f \<in> set us \<Longrightarrow> lnext (h (hash_node f)) = LNULL"
    and others: "\<And>f. f \<in> set vs \<Longrightarrow> mac_entry_ok en bs f"
    and here: "\<And>i. i < 1024 \<Longrightarrow> e \<in> set (bs i) \<longleftrightarrow> i = mac_table_index (me_mac (en e))"
    and inj: "inj_on (\<lambda>e. me_mac (en e)) (insert e (set vs))"
    and h': "h' = list_push_back lrus (lru_node e) (snd (list_remove (lru_node e) h))"
    and en': "en' = en(e := \<lparr>me_used = now, me_mac = me_mac (en e), me_port = uint (p :: u16)\<rparr>)"
  shows "mac_inv \<lparr>ml_nodes = h', ml_entries = en'\<rparr> us (vs @ [e]) bs"
    and "map (mac_row_of en') (vs @ [e]) = map (mac_row_of en) vs @ [(me_mac (en e), p, now)]"
proof -
  have d: "distinct (xs @ e # ys)" using ring unfolding ring_def by (metis distinct.simps(2) distinct_map)
  then have "e \<notin> set (xs @ ys)" by auto
  then have e: "e \<notin> set us" "e \<notin> set vs" unfolding split by auto
  have r': "ring h' lrus (map lru_node (us @ vs @ [e]))"
    using lru_move [OF ring] split h' by (metis append_assoc)
  have out: "h' (hash_node f) = h (hash_node f)" for f
  proof -
    have "ring (snd (list_remove (lru_node e) h)) lrus (map lru_node (xs @ ys))"
      using rings.remove [of h lrus "map lru_node xs" "lru_node e" "map lru_node ys"] ring by simp
    then have "h' (hash_node f) = snd (list_remove (lru_node e) h) (hash_node f)"
      unfolding h' by (rule list_push_back_outside) auto
    also have "\<dots> = h (hash_node f)" by (rule list_remove_outside [OF ring]) auto
    finally show ?thesis .
  qed
  have mac: "me_mac (en' f) = me_mac (en f)" for f by (simp add: en')
  have p: "0 \<le> uint p" "uint p < 65536" using unsigned_less [of p, where 'a = int] by auto
  have ok': "mac_entry_ok en' bs f" if "f \<in> set (vs @ [e])" for f
  proof (cases "f = e")
    case True
    with here p show ?thesis by (simp add: mac_entry_ok_def en')
  next
    case False
    with that others [of f] show ?thesis by (simp add: mac_entry_ok_def en')
  qed
  have "buckets_ok h' bs" unfolding h' by (rule buckets_lru_move [OF ok ring])
  moreover have "set (us @ vs @ [e]) = {..<1024}"
  proof -
    have "set (xs @ e # ys) = insert e (set (xs @ ys))" by simp
    also have "\<dots> = set (us @ vs @ [e])" unfolding split by simp
    finally show ?thesis using all by simp
  qed
  ultimately show "mac_inv \<lparr>ml_nodes = h', ml_entries = en'\<rparr> us (vs @ [e]) bs"
    using r' sub unused out ok' inj by (simp add: mac_inv_def mac)
  have "map (mac_row_of en') vs = map (mac_row_of en) vs" using e by (auto simp: mac_row_of_def en')
  then show "map (mac_row_of en') (vs @ [e]) = map (mac_row_of en) vs @ [(me_mac (en e), p, now)]"
    by (simp add: mac_row_of_def en')
qed


text \<open>Reusing an entry: the hash bucket of the new address gets it, its old bucket loses it.\<close>

definition bs_without :: "nat \<Rightarrow> (nat \<Rightarrow> nat list) \<Rightarrow> nat \<Rightarrow> nat list" where
  "bs_without e bs i = filter (\<lambda>f. f \<noteq> e) (bs i)"

lemma buckets_without:
  assumes ok: "buckets_ok h bs" and i: "i < 1024" "e \<in> set (bs i)"
  shows "buckets_ok (snd (list_remove (hash_node e) h)) (bs_without e bs)"
proof -
  obtain xs ys where s: "bs i = xs @ e # ys" using i(2) by (metis split_list)
  have d: "distinct (bs i)" by (rule ring_hash_distinct [OF ok i(1)])
  have "bs_without e bs j = (bs(i := xs @ ys)) j" if j: "j < 1024" for j
  proof (cases "j = i")
    case True
    have "e \<notin> set xs" "e \<notin> set ys" using d s by auto
    then have "filter (\<lambda>f. f \<noteq> e) xs = xs" "filter (\<lambda>f. f \<noteq> e) ys = ys" by (auto intro!: filter_True)
    with True s show ?thesis by (simp add: bs_without_def)
  next
    case False
    then have "e \<notin> set (bs j)" using ok i j by (auto simp: buckets_ok_def)
    then have "filter (\<lambda>f. f \<noteq> e) (bs j) = bs j" by (auto intro!: filter_True)
    with False show ?thesis by (simp add: bs_without_def)
  qed
  then show ?thesis using buckets_remove [OF ok i(1) s] by (simp add: buckets_ok_def)
qed

lemma bs_without_id: "(\<And>i. i < 1024 \<Longrightarrow> e \<notin> set (bs i)) \<Longrightarrow> i < 1024 \<Longrightarrow> bs_without e bs i = bs i"
  unfolding bs_without_def by (rule filter_True) auto

lemma ring_hash_used:
  assumes ok: "buckets_ok h bs" and i: "i < 1024" "e \<in> set (bs i)"
  shows "lnext (h (hash_node e)) \<noteq> LNULL"
proof -
  have r: "ring h (table_node i) (map hash_node (bs i))" using ok i by (simp add: buckets_ok_def)
  have "lnext (h (hash_node e)) \<in> set (table_node i # map hash_node (bs i))"
    by (rule ring_neighbours(2) [OF r]) (use i in simp)
  then show ?thesis by auto
qed

lemma mac_reuse:
  assumes inv: "mac_inv ml us vs bs" and all: "us @ vs = e # ws" and new: "m \<notin> (\<lambda>e. me_mac (ml_entries ml e)) ` set vs"
    and us': "us' = (if us = [] then [] else tl us)" and vs': "vs' = (if us = [] then tl vs else vs)"
    and bs': "bs' = (let b = mac_table_index m in (bs_without e bs)(b := e # bs_without e bs b))"
    and re: "mac_entry_reuse ml (mac_table_bucket m) m = (f, ml')"
  shows "f = e" and "ring (ml_nodes ml') lrus (map lru_node (e # us' @ vs'))" and "buckets_ok (ml_nodes ml') bs'"
    and "\<And>g. g \<in> set us' \<Longrightarrow> lnext (ml_nodes ml' (hash_node g)) = LNULL"
    and "ml_entries ml' = (ml_entries ml)(e := \<lparr>me_used = me_used (ml_entries ml e), me_mac = m, me_port = -1\<rparr>)"
proof -
  let ?h = "ml_nodes ml" and ?b = "mac_table_index m"
  have r: "ring ?h lrus (map lru_node (us @ vs))" and ok: "buckets_ok ?h bs"
    and sub: "\<And>i. i < 1024 \<Longrightarrow> set (bs i) \<subseteq> set vs" using inv by (auto simp: mac_inv_def)
  have e: "lru_entry (lnext (?h lrus)) = e" using ring_ends(1) [OF r] unfolding all by simp
  define h1 where "h1 = (if lnext (?h (hash_node e)) \<noteq> LNULL then snd (list_remove (hash_node e) ?h) else ?h)"
  have ml': "ml' = \<lparr>ml_nodes = list_push_front (mac_table_bucket m) (hash_node e) h1, ml_entries =
      (ml_entries ml)(e := \<lparr>me_used = me_used (ml_entries ml e), me_mac = m, me_port = -1\<rparr>)\<rparr>" and f: "f = e"
    using re e by (auto simp: mac_entry_reuse_def Let_def h1_def)
  then show "f = e" "ml_entries ml' = (ml_entries ml)(e := \<lparr>me_used = me_used (ml_entries ml e), me_mac = m, me_port = -1\<rparr>)"
    by simp_all
  have seq: "e # us' @ vs' = us @ vs" using all us' vs' by (cases us) auto
  have d: "distinct (us @ vs)" by (rule mac_inv_distinct [OF inv])
  have h1: "buckets_ok h1 (bs_without e bs) \<and> ring h1 lrus (map lru_node (us @ vs)) \<and> (us \<noteq> [] \<longrightarrow> h1 = ?h)"
  proof (cases "us = []")
    case False
    then have "e \<in> set us" using all by (cases us) auto
    then have "lnext (?h (hash_node e)) = LNULL" "\<And>i. i < 1024 \<Longrightarrow> e \<notin> set (bs i)"
      using inv d sub by (auto simp: mac_inv_def)
    with ok r bs_without_id [of e bs] show ?thesis by (simp add: h1_def buckets_ok_def)
  next
    case True
    then have "e \<in> set vs" using all by simp
    then obtain i where i: "i < 1024" "e \<in> set (bs i)"
      using inv mac_table_index_less by (auto simp: mac_inv_def mac_entry_ok_def)
    have h1: "h1 = snd (list_remove (hash_node e) ?h)" using ring_hash_used [OF ok i] by (simp add: h1_def)
    have ri: "ring ?h (table_node i) (map hash_node (bs i))" using ok i by (simp add: buckets_ok_def)
    have "ring h1 lrus (map lru_node (us @ vs))" unfolding h1
      by (rule rings.remove_other [OF ri _ r]) (use i bucket_lru_disjoint [OF i(1), of "bs i" "us @ vs"] in auto)
    with buckets_without [OF ok i] h1 True show ?thesis by simp
  qed
  then have ok1: "buckets_ok h1 (bs_without e bs)" and r1: "ring h1 lrus (map lru_node (us @ vs))" by simp_all
  have b: "?b < 1024" by (rule mac_table_index_less)
  have r2: "ring h1 (table_node ?b) (map hash_node (bs_without e bs ?b))" using ok1 b by (simp add: buckets_ok_def)
  show "buckets_ok (ml_nodes ml') bs'"
    using buckets_push [OF ok1 _ b, of e] by (simp add: ml' bs' Let_def mac_table_bucket_def bs_without_def)
  show "ring (ml_nodes ml') lrus (map lru_node (e # us' @ vs'))"
    unfolding seq ml' mac_table_bucket_def mac_learning.simps
    by (rule rings.push_front_other [OF r2 r1]) (use b in auto)
  show "lnext (ml_nodes ml' (hash_node g)) = LNULL" if g: "g \<in> set us'" for g
  proof -
    from g us' all have "us = e # us'" by (cases us) (auto split: if_splits)
    then have "us \<noteq> []" "g \<in> set us" "g \<noteq> e" using d g by auto
    then have "lnext (h1 (hash_node g)) = LNULL" "g \<notin> set (bs ?b)" using h1 inv d sub [OF b]
      by (auto simp: mac_inv_def)
    moreover have "ml_nodes ml' (hash_node g) = h1 (hash_node g)" unfolding ml' mac_table_bucket_def
      by (simp, rule list_push_front_outside [OF r2])
        (use \<open>g \<noteq> e\<close> \<open>g \<notin> set (bs ?b)\<close> b in \<open>auto simp: bs_without_def\<close>)
    ultimately show ?thesis by simp
  qed
qed


lemma mac_reuse_state:
  assumes inv: "mac_inv ml us vs bs" and all: "us @ vs = e # ws" and new: "m \<notin> (\<lambda>e. me_mac (ml_entries ml e)) ` set vs"
    and us': "us' = (if us = [] then [] else tl us)" and vs': "vs' = (if us = [] then tl vs else vs)"
    and bs': "bs' = (let b = mac_table_index m in (bs_without e bs)(b := e # bs_without e bs b))"
    and en: "en = (ml_entries ml)(e := \<lparr>me_used = u, me_mac = m, me_port = -1\<rparr>)"
  shows "set ([] @ e # us' @ vs') = {..<1024}" and "\<And>i. i < 1024 \<Longrightarrow> set (bs' i) \<subseteq> insert e (set vs')"
    and "\<And>f. f \<in> set vs' \<Longrightarrow> mac_entry_ok en bs' f"
    and "\<And>i. i < 1024 \<Longrightarrow> e \<in> set (bs' i) \<longleftrightarrow> i = mac_table_index (me_mac (en e))"
    and "inj_on (\<lambda>e. me_mac (en e)) (insert e (set vs'))"
    and "map (mac_row_of en) vs' = map (mac_row_of (ml_entries ml)) vs'"
proof -
  have d: "distinct (us @ vs)" by (rule mac_inv_distinct [OF inv])
  have sub: "\<And>i. i < 1024 \<Longrightarrow> set (bs i) \<subseteq> set vs" using inv by (auto simp: mac_inv_def)
  have seq: "e # us' @ vs' = us @ vs" using all us' vs' by (cases us) auto
  have vs: "set vs' \<subseteq> set vs" "set vs \<subseteq> insert e (set vs')" and e: "e \<notin> set vs'"
    using seq d us' vs' by (cases us; cases vs; auto)+
  show "set ([] @ e # us' @ vs') = {..<1024}" using seq inv by (simp add: mac_inv_def)
  show "set (bs' i) \<subseteq> insert e (set vs')" if "i < 1024" for i
    using sub [OF that] vs by (auto simp: bs' bs_without_def Let_def)
  have same: "en f = ml_entries ml f" if "f \<in> set vs'" for f using that e by (auto simp: en)
  then show "map (mac_row_of en) vs' = map (mac_row_of (ml_entries ml)) vs'" by (simp add: mac_row_of_def)
  show "mac_entry_ok en bs' f" if f: "f \<in> set vs'" for f
  proof -
    have "mac_entry_ok (ml_entries ml) bs f" "f \<noteq> e" using f vs e inv by (auto simp: mac_inv_def)
    then show ?thesis by (auto simp: mac_entry_ok_def same [OF f] bs' bs_without_def Let_def)
  qed
  show "e \<in> set (bs' i) \<longleftrightarrow> i = mac_table_index (me_mac (en e))" if "i < 1024" for i
    by (simp add: bs' bs_without_def Let_def en)
  have "inj_on (\<lambda>e. me_mac (ml_entries ml e)) (set vs')"
    using inv vs by (auto simp: mac_inv_def intro: inj_on_subset)
  then have "inj_on (\<lambda>e. me_mac (en e)) (set vs')" by (simp add: same inj_on_def)
  moreover have "me_mac (en e) \<notin> (\<lambda>e. me_mac (en e)) ` set vs'" using new vs same by (auto simp: en)
  ultimately show "inj_on (\<lambda>e. me_mac (en e)) (insert e (set vs'))" using e by (simp add: inj_on_insert)
qed

lemma mac_learn_known:
  assumes inv: "mac_inv ml us vs bs" and e: "e \<in> set vs" "me_mac (ml_entries ml e) = m"
    and uni: "\<not> eth_addr_is_multicast m" and s: "search_bucket ml (mac_table_bucket m) m = Some (Some e)"
  defines "L \<equiv> map (mac_row_of (ml_entries ml)) vs"
  shows "\<exists>ml'. mac_learning_learn ml m p now = Some (fst (mac_spec_learn m p now L), ml') \<and>
    mac_rel ml' (snd (mac_spec_learn m p now L))"
proof -
  obtain v1 v2 where v: "vs = v1 @ e # v2" using e(1) by (metis split_list)
  define h' where "h' = list_push_back lrus (lru_node e) (snd (list_remove (lru_node e) (ml_nodes ml)))"
  define en' where "en' = (ml_entries ml)(e := \<lparr>me_used = now, me_mac = me_mac (ml_entries ml e), me_port = uint p\<rparr>)"
  have inj: "inj_on (\<lambda>e. me_mac (ml_entries ml e)) (set vs)" and
    port: "0 \<le> me_port (ml_entries ml e)" "me_port (ml_entries ml e) < 65536"
    using inv e by (auto simp: mac_inv_def mac_entry_ok_def)
  have prem: "ring (ml_nodes ml) lrus (map lru_node ((us @ v1) @ e # v2))" "set ((us @ v1) @ e # v2) = {..<1024}"
      "(us @ v1) @ v2 = us @ v1 @ v2" "buckets_ok (ml_nodes ml) bs"
    using inv by (simp_all add: mac_inv_def v)
  have elems: "set (v1 @ v2) \<subseteq> set vs" "set vs = insert e (set (v1 @ v2))" by (auto simp: v)
  have p1: "\<And>i. i < 1024 \<Longrightarrow> set (bs i) \<subseteq> insert e (set (v1 @ v2))" using inv elems(2) by (simp add: mac_inv_def)
  have p2: "\<And>f. f \<in> set us \<Longrightarrow> lnext (ml_nodes ml (hash_node f)) = LNULL" using inv by (simp add: mac_inv_def)
  have p3: "\<And>f. f \<in> set (v1 @ v2) \<Longrightarrow> mac_entry_ok (ml_entries ml) bs f" using inv elems by (auto simp: mac_inv_def)
  have p4: "\<And>i. i < 1024 \<Longrightarrow> e \<in> set (bs i) \<longleftrightarrow> i = mac_table_index (me_mac (ml_entries ml e))"
    using inv e by (simp add: mac_inv_def mac_entry_ok_def)
  have p5: "inj_on (\<lambda>e. me_mac (ml_entries ml e)) (insert e (set (v1 @ v2)))" using inj elems(2) by simp
  note t = mac_touch [OF prem p1 p2 p3 p4 p5 h'_def en'_def]
  have d: "distinct vs" using mac_inv_distinct [OF inv] by simp
  have f: "filter (\<lambda>r. fst r \<noteq> m) L = map (mac_row_of (ml_entries ml)) (v1 @ v2)"
  proof -
    have "me_mac (ml_entries ml f) \<noteq> m" if "f \<in> set (v1 @ v2)" for f
      using that inj e d unfolding v by (auto simp: inj_on_def)
    then show ?thesis using e(2) unfolding L_def v by (auto intro!: filter_True)
  qed
  have "map_of L m = Some (word_of_int (me_port (ml_entries ml e)), me_used (ml_entries ml e))"
    using map_of_rows [OF inj e(1)] e(2) by (simp add: L_def)
  moreover have "(word_of_int (me_port (ml_entries ml e)) :: u16) = p \<longleftrightarrow> me_port (ml_entries ml e) = uint p"
    using port by (auto simp: word_of_int_inverse)
  moreover have "m \<in> fst ` set L" using e by (auto simp: L_def image_image)
  ultimately have spec: "mac_spec_learn m p now L =
      (me_port (ml_entries ml e) \<noteq> uint p, map (mac_row_of en') ((v1 @ v2) @ [e]))"
    using uni f t e(2) by (simp add: mac_spec_learn_def)
  have "mac_learning_learn ml m p now = Some (me_port (ml_entries ml e) \<noteq> uint p, \<lparr>ml_nodes = h', ml_entries = en'\<rparr>)"
    using s uni by (auto simp: mac_learning_learn_def h'_def en'_def Let_def fun_eq_iff)
  moreover have "mac_rel \<lparr>ml_nodes = h', ml_entries = en'\<rparr> (map (mac_row_of en') ((v1 @ v2) @ [e]))"
    using mac_relI [OF t(1)] by simp
  ultimately show ?thesis by (simp add: spec)
qed


lemma mac_learn_new:
  assumes inv: "mac_inv ml us vs bs" and new: "m \<notin> (\<lambda>e. me_mac (ml_entries ml e)) ` set vs"
    and uni: "\<not> eth_addr_is_multicast m" and s: "search_bucket ml (mac_table_bucket m) m = Some None"
  defines "L \<equiv> map (mac_row_of (ml_entries ml)) vs"
  shows "\<exists>ml'. mac_learning_learn ml m p now = Some (fst (mac_spec_learn m p now L), ml') \<and>
    mac_rel ml' (snd (mac_spec_learn m p now L))"
proof -
  have "set (us @ vs) = {..<1024}" "distinct (us @ vs)" using inv mac_inv_distinct [OF inv] by (auto simp: mac_inv_def)
  then have len: "length (us @ vs) = 1024" by (metis card_lessThan distinct_card)
  then obtain e ws where all: "us @ vs = e # ws" by (cases "us @ vs") auto
  define us' vs' where "us' = (if us = [] then [] else tl us)" and "vs' = (if us = [] then tl vs else vs)"
  define bs' where "bs' = (let b = mac_table_index m in (bs_without e bs)(b := e # bs_without e bs b))"
  obtain f ml1 where re: "mac_entry_reuse ml (mac_table_bucket m) m = (f, ml1)" by fastforce
  note r = mac_reuse [OF inv all new us'_def vs'_def bs'_def re]
  note st = mac_reuse_state [OF inv all new us'_def vs'_def bs'_def r(5)]
  define h' where "h' = list_push_back lrus (lru_node e) (snd (list_remove (lru_node e) (ml_nodes ml1)))"
  define en' where "en' = (ml_entries ml1)(e := \<lparr>me_used = now, me_mac = me_mac (ml_entries ml1 e), me_port = uint p\<rparr>)"
  have ring: "ring (ml_nodes ml1) lrus (map lru_node ([] @ e # us' @ vs'))" using r(2) by simp
  note t = mac_touch [OF ring st(1) _ r(3) st(2) r(4) st(3-5) h'_def en'_def, of us', simplified]
  have mac: "me_mac (ml_entries ml1 e) = m" "me_port (ml_entries ml1 e) = -1" using r(5) by simp_all
  have "-1 \<noteq> uint p" using unsigned_greater_eq [of p, where 'a = int] by linarith
  then have "mac_learning_learn ml m p now = Some (True, \<lparr>ml_nodes = h', ml_entries = en'\<rparr>)"
    using s uni re r(1) mac by (auto simp: mac_learning_learn_def h'_def en'_def Let_def fun_eq_iff)
  moreover have "mac_rel \<lparr>ml_nodes = h', ml_entries = en'\<rparr> (map (mac_row_of en') (vs' @ [e]))"
    using mac_relI [OF t(1)] by simp
  moreover have "mac_spec_learn m p now L = (True, map (mac_row_of en') (vs' @ [e]))"
  proof -
    have "map_of L m = None" using new by (simp add: L_def map_of_rows_None)
    moreover have "m \<notin> fst ` set L" using new by (auto simp: L_def image_image)
    moreover have "(if length L < 1024 then L else tl L) = map (mac_row_of (ml_entries ml)) vs'"
      using len by (cases us) (auto simp: L_def vs'_def map_tl)
    ultimately show ?thesis using uni t(2) st(6) mac by (simp add: mac_spec_learn_def)
  qed
  ultimately show ?thesis by simp
qed

lemma mac_learn_refines:
  assumes "mac_rel ml L"
  shows "\<exists>ml'. mac_learning_learn ml m p now = Some (fst (mac_spec_learn m p now L), ml') \<and>
    mac_rel ml' (snd (mac_spec_learn m p now L))"
proof (cases "eth_addr_is_multicast m")
  case True
  with assms show ?thesis by (simp add: mac_learning_learn_def mac_spec_learn_def)
next
  case False
  obtain us vs bs where inv: "mac_inv ml us vs bs" and L: "L = map (mac_row_of (ml_entries ml)) vs"
    using assms by (auto simp: mac_rel_def)
  obtain r where s: "search_bucket ml (mac_table_bucket m) m = Some r"
    and r: "\<And>e. r = Some e \<longleftrightarrow> e \<in> set vs \<and> me_mac (ml_entries ml e) = m"
    using search_bucket_inv [OF inv] by blast
  show ?thesis
  proof (cases r)
    case None
    then have "m \<notin> (\<lambda>e. me_mac (ml_entries ml e)) ` set vs" using r by auto
    from mac_learn_new [OF inv this False] s None show ?thesis by (simp add: L)
  next
    case (Some e)
    with r have "e \<in> set vs" "me_mac (ml_entries ml e) = m" by auto
    from mac_learn_known [OF inv this False] s Some show ?thesis by (simp add: L)
  qed
qed

lemma mac_lookup_refines:
  assumes "mac_rel ml L"
  shows "mac_learning_lookup ml m now = Some (mac_spec_lookup m now L)"
proof (cases "eth_addr_is_multicast m")
  case True
  then show ?thesis by (simp add: mac_learning_lookup_def mac_spec_lookup_def split: option.split)
next
  case False
  obtain us vs bs where inv: "mac_inv ml us vs bs" and L: "L = map (mac_row_of (ml_entries ml)) vs"
    using assms by (auto simp: mac_rel_def)
  obtain r where s: "search_bucket ml (mac_table_bucket m) m = Some r"
    and r: "\<And>e. r = Some e \<longleftrightarrow> e \<in> set vs \<and> me_mac (ml_entries ml e) = m"
    using search_bucket_inv [OF inv] by blast
  have inj: "inj_on (\<lambda>e. me_mac (ml_entries ml e)) (set vs)" using inv by (simp add: mac_inv_def)
  show ?thesis
  proof (cases r)
    case None
    then have "map_of L m = None" using r by (auto simp: L map_of_rows_None)
    with None s False show ?thesis by (simp add: mac_learning_lookup_def mac_spec_lookup_def)
  next
    case (Some e)
    with r have "e \<in> set vs" "me_mac (ml_entries ml e) = m" by auto
    from map_of_rows [OF inj this(1)] this(2) s Some False show ?thesis
      by (simp add: mac_learning_lookup_def mac_spec_lookup_def L)
  qed
qed


lemma list_init_outside: "c \<noteq> l \<Longrightarrow> list_init l h c = h c"
  by (simp add: list_init_def Let_def set_next_other set_prev_other)

lemma list_init_other: "ring h m zs \<Longrightarrow> l \<notin> set (m # zs) \<Longrightarrow> ring (list_init l h) m zs"
  by (erule ring_frame) (auto intro!: list_init_outside)

lemma create_tables:
  assumes "ring h lrus []" and "n \<le> 1024"
  shows "ring (fold (\<lambda>i. list_init (table_node i)) [0..<n] h) lrus [] \<and>
    (\<forall>i < n. ring (fold (\<lambda>i. list_init (table_node i)) [0..<n] h) (table_node i) [])"
  using assms(2)
proof (induction n)
  case 0
  with assms show ?case by simp
next
  case (Suc n)
  then show ?case by (auto simp: less_Suc_eq list_init_ring intro!: list_init_other)
qed

lemma create_entries:
  assumes "ring h lrus []" and "\<And>i. i < 1024 \<Longrightarrow> ring h (table_node i) []" and "n \<le> 1024"
  defines "g \<equiv> fold (\<lambda>i h. let h = list_push_front lrus (lru_node i) h in set_next (hash_node i) LNULL h)"
  shows "ring (g [0..<n] h) lrus (map lru_node (rev [0..<n])) \<and>
    (\<forall>i < 1024. ring (g [0..<n] h) (table_node i) []) \<and> (\<forall>i < n. lnext (g [0..<n] h (hash_node i)) = LNULL)"
  using assms(3)
proof (induction n)
  case 0
  with assms show ?case by simp
next
  case (Suc n)
  define k where "k = g [0..<n] h"
  have IH: "ring k lrus (map lru_node (rev [0..<n]))" "\<And>i. i < 1024 \<Longrightarrow> ring k (table_node i) []"
    "\<And>i. i < n \<Longrightarrow> lnext (k (hash_node i)) = LNULL" using Suc by (auto simp: k_def)
  define k1 where "k1 = list_push_front lrus (lru_node n) k"
  have eq: "g [0..<Suc n] h = set_next (hash_node n) LNULL k1" by (simp add: g_def k_def k1_def)
  have "ring k1 lrus (lru_node n # map lru_node (rev [0..<n]))" unfolding k1_def
    by (rule rings.push_front [OF IH(1)]) auto
  then have "ring (g [0..<Suc n] h) lrus (map lru_node (rev [0..<Suc n]))" unfolding eq
    by (simp, elim ring_frame) (auto intro!: set_next_other)
  moreover have "ring (g [0..<Suc n] h) (table_node i) []" if i: "i < 1024" for i
  proof -
    have "ring k1 (table_node i) []" unfolding k1_def
      by (rule rings.push_front_other [OF IH(1) IH(2) [OF i]]) (use i in auto)
    then show ?thesis unfolding eq by (rule ring_frame) (use i in \<open>auto intro!: set_next_other\<close>)
  qed
  moreover have "lnext (g [0..<Suc n] h (hash_node i)) = LNULL" if "i < Suc n" for i
  proof -
    have "k1 (hash_node i) = k (hash_node i)" unfolding k1_def by (rule list_push_front_outside [OF IH(1)]) auto
    then show ?thesis unfolding eq using that IH(3) [of i] by (auto simp: less_Suc_eq)
  qed
  ultimately show ?case by blast
qed

lemma mac_create_refines: "mac_rel (mac_learning_create garbage garbage_entries) []"
proof -
  define h1 where "h1 = fold (\<lambda>i. list_init (table_node i)) [0..<MAC_HASH_SIZE] (list_init lrus garbage)"
  have h1: "ring h1 lrus []" "\<And>i. i < 1024 \<Longrightarrow> ring h1 (table_node i) []"
    using create_tables [OF list_init_ring, of 1024] unfolding h1_def by blast+
  let ?ml = "mac_learning_create garbage garbage_entries"
  have nodes: "ml_nodes ?ml = fold (\<lambda>i h. let h = list_push_front lrus (lru_node i) h in set_next (hash_node i) LNULL h)
      [0..<MAC_MAX] h1" unfolding mac_learning_create_def h1_def Let_def mac_learning.simps ..
  have "mac_inv ?ml (rev [0..<1024]) [] (\<lambda>_. [])"
    using create_entries [OF h1 order_refl] unfolding nodes [symmetric]
    by (auto simp: mac_inv_def buckets_ok_def atLeast0LessThan simp flip: nodes)
  then show ?thesis using mac_relI [of ?ml] by fastforce
qed


text \<open>A sequence of sightings (address, port, time).\<close>

fun mac_run :: "mac_row list \<Rightarrow> mac_learning \<Rightarrow> mac_learning option" where
  "mac_run [] ml = Some ml"
| "mac_run ((m, p, t) # ops) ml = do { (_, ml) \<leftarrow> mac_learning_learn ml m p t; mac_run ops ml }"

definition mac_spec_run :: "mac_row list \<Rightarrow> mac_row list \<Rightarrow> mac_row list" where
  "mac_spec_run = fold (\<lambda>(m, p, t) L. snd (mac_spec_learn m p t L))"

lemma mac_run_refines:
  "mac_rel ml L \<Longrightarrow> \<exists>ml'. mac_run ops ml = Some ml' \<and> mac_rel ml' (mac_spec_run ops L)"
proof (induction ops ml arbitrary: L rule: mac_run.induct)
  case (2 m p t ops ml)
  obtain ml' where "mac_learning_learn ml m p t = Some (fst (mac_spec_learn m p t L), ml')"
    "mac_rel ml' (snd (mac_spec_learn m p t L))" using mac_learn_refines [OF 2(2)] by blast
  with 2(1) show ?case by (fastforce simp: mac_spec_run_def)
qed (simp add: mac_spec_run_def)

text \<open>
  C24. The MAC table implements a bounded sequence in the order of the last sightings: a new table
  stands for the empty sequence, every sequence of sightings returns (no loop over a bucket runs on) and
  leaves the table that stands for the sequence of the specification, and then every lookup returns what
  the specification returns.
\<close>

theorem mac_learning_refines:
  "\<exists>ml. mac_run ops (mac_learning_create garbage garbage_entries) = Some ml \<and>
    mac_rel ml (mac_spec_run ops []) \<and>
    (\<forall>m p t. map_option fst (mac_learning_learn ml m p t) = Some (fst (mac_spec_learn m p t (mac_spec_run ops [])))) \<and>
    (\<forall>m t. mac_learning_lookup ml m t = Some (mac_spec_lookup m t (mac_spec_run ops [])))"
proof -
  obtain ml where ml: "mac_run ops (mac_learning_create garbage garbage_entries) = Some ml"
    "mac_rel ml (mac_spec_run ops [])" using mac_run_refines [OF mac_create_refines] by blast
  have "map_option fst (mac_learning_learn ml m p t) = Some (fst (mac_spec_learn m p t (mac_spec_run ops [])))" for m p t
    using mac_learn_refines [OF ml(2), of m p t] by auto
  with ml mac_lookup_refines [OF ml(2)] show ?thesis by blast
qed


section \<open>What the table remembers\<close>

definition mac_spec_ok :: "mac_row list \<Rightarrow> bool" where
  "mac_spec_ok L \<longleftrightarrow> distinct (map fst L) \<and> length L \<le> 1024"

lemma mac_spec_learn_ok:
  assumes "mac_spec_ok L"
  shows "mac_spec_ok (snd (mac_spec_learn m p t L))"
proof (cases "m \<in> fst ` set L")
  case True
  have "length (filter (\<lambda>r. fst r \<noteq> m) L) < length L"
    using True by (auto simp: length_filter_less)
  with assms True show ?thesis by (auto simp: mac_spec_learn_def mac_spec_ok_def distinct_map_filter)
next
  case False
  with assms show ?thesis
    by (cases L) (auto simp: mac_spec_learn_def mac_spec_ok_def)
qed

lemma mac_spec_run_ok: "mac_spec_ok L \<Longrightarrow> mac_spec_ok (mac_spec_run ops L)"
  unfolding mac_spec_run_def
  by (rule fold_invariant_set [where P = mac_spec_ok]) (auto intro: mac_spec_learn_ok)

text \<open>A row stays in the sequence until as many other addresses have been seen as the table has entries.\<close>

lemma mac_spec_learn_keeps:
  assumes ok: "mac_spec_ok (L1 @ (m, p, t) # L2)" and sub: "insert n (fst ` set L2) \<subseteq> A"
    and A: "finite A" "card A < 1024" and n: "n \<noteq> m"
  shows "\<exists>L1' L2'. snd (mac_spec_learn n q u (L1 @ (m, p, t) # L2)) = L1' @ (m, p, t) # L2' \<and> fst ` set L2' \<subseteq> A"
proof -
  let ?L = "L1 @ (m, p, t) # L2"
  consider "eth_addr_is_multicast n" | "\<not> eth_addr_is_multicast n" "n \<in> fst ` set ?L"
    | "\<not> eth_addr_is_multicast n" "n \<notin> fst ` set ?L" "length ?L < 1024"
    | "\<not> eth_addr_is_multicast n" "n \<notin> fst ` set ?L" "length ?L = 1024"
    using ok by (auto simp: mac_spec_ok_def le_less)
  then show ?thesis
  proof cases
    case 1
    then show ?thesis using sub by (auto simp: mac_spec_learn_def)
  next
    case 2
    then have "snd (mac_spec_learn n q u ?L) = filter (\<lambda>r. fst r \<noteq> n) L1 @ (m, p, t) # (filter (\<lambda>r. fst r \<noteq> n) L2 @ [(n, q, u)])"
      using n by (simp add: mac_spec_learn_def)
    moreover have "fst ` set (filter (\<lambda>r. fst r \<noteq> n) L2 @ [(n, q, u)]) \<subseteq> A" using sub by auto
    ultimately show ?thesis by blast
  next
    case 3
    then have "snd (mac_spec_learn n q u ?L) = L1 @ (m, p, t) # (L2 @ [(n, q, u)])" by (simp add: mac_spec_learn_def)
    moreover have "fst ` set (L2 @ [(n, q, u)]) \<subseteq> A" using sub by auto
    ultimately show ?thesis by blast
  next
    case 4
    have "L1 \<noteq> []"
    proof
      assume L1: "L1 = []"
      have "card (fst ` set L2) = length L2" using ok by (simp add: mac_spec_ok_def L1 distinct_card flip: set_map)
      then have "card (insert n (fst ` set L2)) = 1024" using 4 by (simp add: L1)
      with card_mono [OF A(1) sub] A(2) show False by simp
    qed
    then have "snd (mac_spec_learn n q u ?L) = tl L1 @ (m, p, t) # (L2 @ [(n, q, u)])" using 4 by (simp add: mac_spec_learn_def)
    moreover have "fst ` set (L2 @ [(n, q, u)]) \<subseteq> A" using sub by auto
    ultimately show ?thesis by blast
  qed
qed

lemma mac_spec_run_keeps:
  assumes "mac_spec_ok (L1 @ (m, p, t) # L2)" and "fst ` set L2 \<union> fst ` set ops \<subseteq> A"
    and "finite A" "card A < 1024" and "m \<notin> fst ` set ops"
  shows "\<exists>L1' L2'. mac_spec_run ops (L1 @ (m, p, t) # L2) = L1' @ (m, p, t) # L2'"
  using assms
proof (induction ops arbitrary: L1 L2)
  case Nil
  then show ?case by (auto simp: mac_spec_run_def)
next
  case (Cons x ops)
  obtain n q u where x: "x = (n, q, u)" by (cases x)
  obtain K1 K2 where K: "snd (mac_spec_learn n q u (L1 @ (m, p, t) # L2)) = K1 @ (m, p, t) # K2" "fst ` set K2 \<subseteq> A"
    using mac_spec_learn_keeps [OF Cons.prems(1), of n A q u] Cons.prems by (auto simp: x)
  have "mac_spec_ok (K1 @ (m, p, t) # K2)" using mac_spec_learn_ok [OF Cons.prems(1)] K(1) by metis
  from Cons.IH [OF this] K(2) Cons.prems have "\<exists>L1' L2'. mac_spec_run ops (K1 @ (m, p, t) # K2) = L1' @ (m, p, t) # L2'"
    by simp
  then show ?case using K(1) by (simp add: mac_spec_run_def x)
qed

text \<open>
  The MAC table remembers: a unicast address last seen on a port is looked up to that port for a
  minute, whatever was seen before, as long as fewer than 1024 different addresses have been seen since;
  after a minute it is unknown and its frames are flooded.
\<close>

theorem mac_learning_remembers:
  assumes "\<not> eth_addr_is_multicast m" and "m \<notin> fst ` set later" and "card (fst ` set later) < 1024"
  shows "\<exists>ml. mac_run (earlier @ (m, p, t) # later) (mac_learning_create garbage garbage_entries) = Some ml \<and>
    mac_learning_lookup ml m now = Some (if now - t < 60 then p else FLOOD_PORT)"
proof -
  obtain ml where ml: "mac_run (earlier @ (m, p, t) # later) (mac_learning_create garbage garbage_entries) = Some ml"
    "mac_rel ml (mac_spec_run (earlier @ (m, p, t) # later) [])" using mac_run_refines [OF mac_create_refines] by blast
  define L where "L = snd (mac_spec_learn m p t (mac_spec_run earlier []))"
  have run: "mac_spec_run (earlier @ (m, p, t) # later) [] = mac_spec_run later L"
    by (simp add: mac_spec_run_def L_def)
  have ok: "mac_spec_ok L" unfolding L_def
    by (intro mac_spec_learn_ok mac_spec_run_ok) (simp add: mac_spec_ok_def)
  obtain L1 where "L = L1 @ (m, p, t) # []" using assms(1) by (auto simp: L_def mac_spec_learn_def)
  with ok mac_spec_run_keeps [of L1 m p t "[]" later "fst ` set later"] assms(2,3)
  obtain K1 K2 where K: "mac_spec_run later L = K1 @ (m, p, t) # K2" by auto
  have "distinct (map fst (K1 @ (m, p, t) # K2))" using mac_spec_run_ok [OF ok, of later] by (simp add: K mac_spec_ok_def)
  then have "map_of (K1 @ (m, p, t) # K2) m = Some (p, t)" by (rule map_of_is_SomeI) simp
  then have "mac_spec_lookup m now (mac_spec_run later L) = (if now - t < 60 then p else FLOOD_PORT)"
    using assms(1) by (simp add: mac_spec_lookup_def K)
  with ml mac_lookup_refines [OF ml(2), of m now] show ?thesis by (simp add: run)
qed

theorem mac_learning_remembers_witness:
  "\<not> eth_addr_is_multicast (Eth 2 0 0 0 0 1) \<and>
   (\<exists>ml. mac_run [(Eth 2 0 0 0 0 9, 1, 5), (Eth 2 0 0 0 0 1, 7, 10), (Eth 2 0 0 0 0 2, 3, 11)]
      (mac_learning_create (\<lambda>_. \<lparr>lprev = 0, lnext = 0\<rparr>) (\<lambda>_. \<lparr>me_used = 0, me_mac = Eth 0 0 0 0 0 0, me_port = 0\<rparr>)) = Some ml \<and>
    mac_learning_lookup ml (Eth 2 0 0 0 0 1) 30 = Some 7)"
  using mac_learning_remembers [of "Eth 2 0 0 0 0 1" "[(Eth 2 0 0 0 0 2, 3, 11)]" "[(Eth 2 0 0 0 0 9, 1, 5)]" 7 10
      "\<lambda>_. \<lparr>lprev = 0, lnext = 0\<rparr>" "\<lambda>_. \<lparr>me_used = 0, me_mac = Eth 0 0 0 0 0 0, me_port = 0\<rparr>" 30]
  by (simp add: eth_addr_is_multicast_def)

end
