(* ===== verification/Packet_Queue.thy ===== *)
theory Packet_Queue
  imports Prelude "HOL-Library.Monad_Syntax"
begin

text \<open>
  The packet queues of \<open>lib/queue.c\<close>, singly linked through the \<open>next\<close> field of the packet buffers, with
  a count and pointers to both ends.  The argument \<open>nx\<close> gives the \<open>next\<close> field of every buffer;
  \<open>None\<close> is a failed assertion or an access through a null pointer.  A queue implements a sequence of
  buffers, first in, first out.
\<close>

section \<open>Operations\<close>

type_synonym qptr = nat

abbreviation (input) QNULL :: qptr where "QNULL \<equiv> 0"

type_synonym qnexts = "qptr \<Rightarrow> qptr"

record ofp_queue =
  q_n :: int
  q_head :: qptr
  q_tail :: qptr

definition queue_init :: ofp_queue where
  "queue_init = \<lparr>q_n = 0, q_head = QNULL, q_tail = QNULL\<rparr>"

text \<open>The buffers that \<open>queue_destroy\<close> deletes, in this order; \<open>next\<close> is read before the buffer is freed.\<close>

partial_function (option) queue_destroy_loop :: "qnexts \<Rightarrow> qptr \<Rightarrow> qptr list \<Rightarrow> qptr list option" where
  "queue_destroy_loop nx cur freed =
    (if cur = QNULL then Some freed else queue_destroy_loop nx (nx cur) (freed @ [cur]))"

definition queue_destroy :: "qnexts \<Rightarrow> ofp_queue \<Rightarrow> qptr list option" where
  "queue_destroy nx q = queue_destroy_loop nx (q_head q) []"

definition queue_clear :: "qnexts \<Rightarrow> ofp_queue \<Rightarrow> (qptr list \<times> ofp_queue) option" where
  "queue_clear nx q = do { freed \<leftarrow> queue_destroy nx q; Some (freed, queue_init) }"

definition queue_advance_head :: "ofp_queue \<Rightarrow> qptr \<Rightarrow> ofp_queue option" where
  "queue_advance_head q nxt =
    (if q_n q = 0 \<or> q_head q = QNULL then None
     else let q = q\<lparr>q_head := nxt\<rparr>;
              q = (if q_head q = QNULL then q\<lparr>q_tail := QNULL\<rparr> else q)
          in Some (q\<lparr>q_n := q_n q - 1\<rparr>))"

definition queue_push_tail :: "qnexts \<Rightarrow> ofp_queue \<Rightarrow> qptr \<Rightarrow> (qnexts \<times> ofp_queue) option" where
  "queue_push_tail nx q b =
    (let nx = nx(b := QNULL); n = q_n q; q = q\<lparr>q_n := n + 1\<rparr> in
     if n \<noteq> 0 then
       if q_tail q = QNULL then None
       else Some (nx(q_tail q := b), q\<lparr>q_tail := b\<rparr>)
     else Some (nx, q\<lparr>q_head := b, q_tail := b\<rparr>))"

definition queue_pop_head :: "qnexts \<Rightarrow> ofp_queue \<Rightarrow> (qptr \<times> ofp_queue) option" where
  "queue_pop_head nx q =
    (if q_head q = QNULL then None
     else do { q' \<leftarrow> queue_advance_head q (nx (q_head q)); Some (q_head q, q') })"


section \<open>Queues as sequences\<close>

fun qchain :: "qnexts \<Rightarrow> qptr \<Rightarrow> qptr list \<Rightarrow> bool" where
  "qchain nx p [] \<longleftrightarrow> p = QNULL"
| "qchain nx p (x # xs) \<longleftrightarrow> p = x \<and> x \<noteq> QNULL \<and> qchain nx (nx x) xs"

definition queue_rel :: "qnexts \<Rightarrow> ofp_queue \<Rightarrow> qptr list \<Rightarrow> bool" where
  "queue_rel nx q xs \<longleftrightarrow> distinct xs \<and> qchain nx (q_head q) xs \<and> q_n q = int (length xs) \<and>
     q_tail q = (if xs = [] then QNULL else last xs)"

lemma qchain_outside: "b \<notin> set xs \<Longrightarrow> qchain (nx(b := v)) p xs = qchain nx p xs"
  by (induction xs arbitrary: p) auto

lemma qchain_not_null: "qchain nx p xs \<Longrightarrow> QNULL \<notin> set xs"
  by (induction xs arbitrary: p) auto

lemma qchain_snoc:
  assumes "qchain nx p (xs @ [y])" and "distinct (xs @ [y])" and "b \<notin> set (xs @ [y])" and "b \<noteq> QNULL"
  shows "qchain (nx(b := QNULL, y := b)) p (xs @ [y, b])"
  using assms
proof (induction xs arbitrary: p)
  case (Cons x xs)
  then have "x \<noteq> y" "x \<noteq> b" by auto
  with Cons show ?case by simp
qed auto

lemma queue_destroy_loop_chain:
  "qchain nx p xs \<Longrightarrow> queue_destroy_loop nx p freed = Some (freed @ xs)"
proof (induction xs arbitrary: p freed)
  case Nil
  then show ?case by (simp add: queue_destroy_loop.simps)
next
  case (Cons x xs)
  from Cons.prems Cons.IH [of "nx x" "freed @ [x]"] show ?case
    by (simp add: queue_destroy_loop.simps [of nx x])
qed

lemma queue_push_tail_rel:
  assumes "queue_rel nx q xs" and "b \<notin> set xs" and "b \<noteq> QNULL"
  obtains nx' q' where "queue_push_tail nx q b = Some (nx', q')" "queue_rel nx' q' (xs @ [b])"
    "\<And>c. c \<noteq> b \<Longrightarrow> c \<notin> set xs \<Longrightarrow> nx' c = nx c"
proof (cases xs rule: rev_cases)
  case Nil
  with assms that [of "nx(b := QNULL)" "q\<lparr>q_n := 1, q_head := b, q_tail := b\<rparr>"] show ?thesis
    by (auto simp: queue_push_tail_def queue_rel_def Let_def)
next
  case (snoc ys y)
  define nx' where "nx' = nx(b := QNULL, y := b)"
  have y: "q_tail q = y" "y \<noteq> QNULL" "q_n q \<noteq> 0" using assms(1) snoc qchain_not_null [of nx "q_head q" xs]
    by (auto simp: queue_rel_def)
  have "qchain nx' (q_head q) (ys @ [y, b])" unfolding nx'_def
    by (rule qchain_snoc) (use assms snoc in \<open>auto simp: queue_rel_def\<close>)
  then have "queue_rel nx' (q\<lparr>q_n := q_n q + 1, q_tail := b\<rparr>) (xs @ [b])"
    using assms snoc by (auto simp: queue_rel_def)
  moreover have "queue_push_tail nx q b = Some (nx', q\<lparr>q_n := q_n q + 1, q_tail := b\<rparr>)"
    using y by (simp add: queue_push_tail_def Let_def nx'_def)
  ultimately show ?thesis using that [of nx' "q\<lparr>q_n := q_n q + 1, q_tail := b\<rparr>"] snoc by (auto simp: nx'_def)
qed

lemma queue_pop_head_rel:
  "queue_rel nx q (x # xs) \<Longrightarrow> \<exists>q'. queue_pop_head nx q = Some (x, q') \<and> queue_rel nx q' xs"
  by (cases xs) (auto simp: queue_pop_head_def queue_advance_head_def queue_rel_def Let_def)

lemma queue_pop_head_empty: "queue_rel nx q [] \<Longrightarrow> queue_pop_head nx q = None"
  by (simp add: queue_pop_head_def queue_rel_def)

lemma queue_init_rel: "queue_rel nx queue_init []"
  by (simp add: queue_init_def queue_rel_def)

lemma queue_clear_rel: "queue_rel nx q xs \<Longrightarrow> queue_clear nx q = Some (xs, queue_init)"
  using queue_destroy_loop_chain [of nx "q_head q" xs "[]"]
  by (simp add: queue_clear_def queue_destroy_def queue_rel_def)


section \<open>First in, first out\<close>

text \<open>Pushing a sequence of buffers, and popping a number of them.\<close>

fun queue_push_all :: "qnexts \<Rightarrow> ofp_queue \<Rightarrow> qptr list \<Rightarrow> (qnexts \<times> ofp_queue) option" where
  "queue_push_all nx q [] = Some (nx, q)"
| "queue_push_all nx q (b # bs) = do { (nx, q) \<leftarrow> queue_push_tail nx q b; queue_push_all nx q bs }"

fun queue_pop_n :: "qnexts \<Rightarrow> nat \<Rightarrow> ofp_queue \<Rightarrow> (qptr list \<times> ofp_queue) option" where
  "queue_pop_n nx 0 q = Some ([], q)"
| "queue_pop_n nx (Suc k) q = do { (b, q) \<leftarrow> queue_pop_head nx q; (bs, q) \<leftarrow> queue_pop_n nx k q; Some (b # bs, q) }"

lemma queue_push_all_rel:
  "queue_rel nx q xs \<Longrightarrow> distinct (xs @ bs) \<Longrightarrow> QNULL \<notin> set bs \<Longrightarrow>
    \<exists>nx' q'. queue_push_all nx q bs = Some (nx', q') \<and> queue_rel nx' q' (xs @ bs)"
proof (induction bs arbitrary: nx q xs)
  case (Cons b bs)
  obtain nx' q' where "queue_push_tail nx q b = Some (nx', q')" "queue_rel nx' q' (xs @ [b])"
    by (rule queue_push_tail_rel [OF Cons.prems(1), of b]) (use Cons.prems in auto)
  with Cons.IH [of nx' q' "xs @ [b]"] Cons.prems show ?case by auto
qed simp

lemma queue_pop_n_rel:
  "queue_rel nx q (xs @ ys) \<Longrightarrow> \<exists>q'. queue_pop_n nx (length xs) q = Some (xs, q') \<and> queue_rel nx q' ys"
proof (induction xs arbitrary: q)
  case (Cons x xs)
  obtain q' where "queue_pop_head nx q = Some (x, q')" "queue_rel nx q' (xs @ ys)"
    using queue_pop_head_rel [of nx q x "xs @ ys"] Cons.prems by auto
  with Cons.IH [of q'] show ?case by auto
qed simp

text \<open>
  A packet queue is first in, first out: buffers pushed on a queue come out after the ones that were
  in it and in the order they were pushed, with no assertion failing; one pop more than that fails, and
  clearing a queue frees exactly the buffers in it.
\<close>

theorem queue_fifo:
  assumes "queue_rel nx q xs" and "distinct (xs @ bs)" and "QNULL \<notin> set bs"
  shows "\<exists>nx' q1 q2. queue_push_all nx q bs = Some (nx', q1) \<and> queue_clear nx' q1 = Some (xs @ bs, queue_init) \<and>
    queue_pop_n nx' (length (xs @ bs)) q1 = Some (xs @ bs, q2) \<and> queue_pop_head nx' q2 = None"
proof -
  obtain nx' q1 where q1: "queue_push_all nx q bs = Some (nx', q1)" "queue_rel nx' q1 (xs @ bs)"
    using queue_push_all_rel [OF assms] by blast
  obtain q2 where "queue_pop_n nx' (length (xs @ bs)) q1 = Some (xs @ bs, q2)" "queue_rel nx' q2 []"
    using queue_pop_n_rel [of nx' q1 "xs @ bs" "[]"] q1(2) by auto
  with q1 queue_clear_rel [OF q1(2)] queue_pop_head_empty show ?thesis by blast
qed

theorem queue_fifo_witness:
  "queue_rel (\<lambda>_. 9) queue_init [] \<and>
   (\<exists>nx' q1 q2. queue_push_all (\<lambda>_. 9) queue_init [5, 3, 8] = Some (nx', q1) \<and>
     queue_clear nx' q1 = Some ([5, 3, 8], queue_init) \<and> queue_pop_n nx' 3 q1 = Some ([5, 3, 8], q2) \<and>
     queue_pop_head nx' q2 = None)"
  using queue_fifo [of "\<lambda>_. 9" queue_init "[]" "[5, 3, 8]"] queue_init_rel
  by (simp add: eval_nat_numeral del: queue_push_all.simps queue_pop_n.simps)

end
