(* ===== verification/Vconn.thy ===== *)
theory Vconn
  imports Statistics
begin

text \<open>
  Virtual connections, \<open>lib/vconn.c\<close>: the negotiation of the protocol version by an exchange of hello
  messages, and the sending and receiving of messages on top of a transport class.  The classes (TCP and
  Unix domain sockets) are input and output on the operating system; they are the record \<open>transport\<close> of
  functions over a state \<open>'w\<close> of the outside world, with the results \<open>lib/vconn-provider.h\<close> documents.
  A message is the list of its bytes.  \<open>None\<close> is a failed assertion or a loop that never ends.
\<close>

section \<open>Connections and transports\<close>

abbreviation (input) EAGAIN :: int where "EAGAIN \<equiv> 11"
abbreviation (input) EPROTO :: int where "EPROTO \<equiv> 71"
abbreviation (input) EAFNOSUPPORT :: int where "EAFNOSUPPORT \<equiv> 97"
abbreviation (input) EINPROGRESS :: int where "EINPROGRESS \<equiv> 115"
abbreviation (input) OFPT_HELLO :: u8 where "OFPT_HELLO \<equiv> 0"
abbreviation (input) OFPT_ECHO_REQUEST :: u8 where "OFPT_ECHO_REQUEST \<equiv> 2"
abbreviation (input) OFPET_HELLO_FAILED :: u16 where "OFPET_HELLO_FAILED \<equiv> 0"
abbreviation (input) OFPHFC_INCOMPATIBLE :: u16 where "OFPHFC_INCOMPATIBLE \<equiv> 0"

datatype vconn_state = VCS_CONNECTING | VCS_SEND_HELLO | VCS_RECV_HELLO | VCS_CONNECTED
  | VCS_SEND_ERROR | VCS_DISCONNECTED

datatype vconn_wait_type = WAIT_CONNECT | WAIT_RECV | WAIT_SEND

record vconn =
  v_state :: vconn_state
  v_error :: int
  v_min_version :: int
  v_version :: int
  v_ip :: u32
  v_name :: string
  v_handle :: nat

text \<open>
  The names of the classes, whether a connection's class has a \<open>connect\<close> function, its functions, the
  pseudo-random numbers of \<open>random_uint32\<close>, the contents of fresh memory and the poll loop.
\<close>

record 'w transport =
  t_classes :: "string list"
  t_pclasses :: "string list"
  t_can_connect :: "nat \<Rightarrow> bool"
  t_open :: "string \<Rightarrow> string \<Rightarrow> string \<Rightarrow> 'w \<Rightarrow> int \<times> vconn \<times> 'w"
  t_close :: "nat \<Rightarrow> 'w \<Rightarrow> 'w"
  t_connect :: "nat \<Rightarrow> 'w \<Rightarrow> int \<times> 'w"
  t_recv :: "nat \<Rightarrow> 'w \<Rightarrow> int \<times> u8 list \<times> 'w"
  t_send :: "nat \<Rightarrow> u8 list \<Rightarrow> 'w \<Rightarrow> int \<times> 'w"
  t_wait :: "nat \<Rightarrow> vconn_wait_type \<Rightarrow> 'w \<Rightarrow> 'w"
  t_listen :: "string \<Rightarrow> string \<Rightarrow> string \<Rightarrow> 'w \<Rightarrow> int \<times> nat \<times> 'w"
  t_accept :: "nat \<Rightarrow> 'w \<Rightarrow> int \<times> vconn \<times> 'w"
  t_poll_block :: "'w \<Rightarrow> 'w"
  t_wake :: "'w \<Rightarrow> 'w"
  t_random :: "'w \<Rightarrow> u32 \<times> 'w"
  t_junk :: "nat \<Rightarrow> u8"

definition vconn_init :: "nat \<Rightarrow> int \<Rightarrow> u32 \<Rightarrow> string \<Rightarrow> vconn" where
  "vconn_init class connect_status ip name =
    \<lparr>v_state = (if connect_status = EAGAIN then VCS_CONNECTING
               else if connect_status = 0 then VCS_SEND_HELLO else VCS_DISCONNECTED),
     v_error = connect_status, v_min_version = -1, v_version = -1, v_ip = ip, v_name = name, v_handle = class\<rparr>"


section \<open>Opening and closing\<close>

definition name_prefix :: "string \<Rightarrow> string" where
  "name_prefix name = takeWhile (\<lambda>c. c \<noteq> CHR '':'') name"

definition vconn_open :: "'w transport \<Rightarrow> string \<Rightarrow> int \<Rightarrow> 'w \<Rightarrow> (int \<times> vconn option \<times> 'w) option" where
  "vconn_open tr name min_version w =
    (let prefix_len = length (name_prefix name) in
     if prefix_len = length name then Some (EAFNOSUPPORT, None, w)
     else case find (\<lambda>class. class = name_prefix name) (t_classes tr) of
       None \<Rightarrow> Some (EAFNOSUPPORT, None, w)
     | Some class \<Rightarrow>
         let (retval, vc, w) = t_open tr class name (drop (prefix_len + 1) name) w in
         if retval = 0 then
           if v_state vc = VCS_CONNECTING \<and> \<not> t_can_connect tr (v_handle vc) then None
           else Some (retval, Some (vc\<lparr>v_min_version := min_version\<rparr>), w)
         else Some (retval, None, w))"

definition vconn_close :: "'w transport \<Rightarrow> vconn option \<Rightarrow> 'w \<Rightarrow> 'w" where
  "vconn_close tr vc w = (case vc of None \<Rightarrow> w | Some vc \<Rightarrow> t_close tr (v_handle vc) w)"

definition pvconn_open :: "'w transport \<Rightarrow> string \<Rightarrow> 'w \<Rightarrow> int \<times> nat option \<times> 'w" where
  "pvconn_open tr name w =
    (let prefix_len = length (name_prefix name) in
     if prefix_len = length name then (EAFNOSUPPORT, None, w)
     else case find (\<lambda>class. class = name_prefix name) (t_pclasses tr) of
       None \<Rightarrow> (EAFNOSUPPORT, None, w)
     | Some class \<Rightarrow>
         let (retval, pv, w) = t_listen tr class name (drop (prefix_len + 1) name) w in
         (retval, if retval = 0 then Some pv else None, w))"

definition pvconn_accept ::
  "'w transport \<Rightarrow> nat \<Rightarrow> int \<Rightarrow> 'w \<Rightarrow> (int \<times> vconn option \<times> 'w) option" where
  "pvconn_accept tr pv min_version w =
    (let (retval, vc, w) = t_accept tr pv w in
     if retval \<noteq> 0 then Some (retval, None, w)
     else if v_state vc = VCS_CONNECTING \<and> \<not> t_can_connect tr (v_handle vc) then None
     else Some (retval, Some (vc\<lparr>v_min_version := min_version\<rparr>), w))"


section \<open>Messages on the transport\<close>

abbreviation (input) oh_version :: "u8 list \<Rightarrow> u8" where "oh_version oh \<equiv> oh ! 0"
abbreviation (input) oh_type :: "u8 list \<Rightarrow> u8" where "oh_type oh \<equiv> oh ! 1"

definition symmetric_type :: "u8 \<Rightarrow> bool" where
  "symmetric_type t \<longleftrightarrow> t = 0 \<or> t = 1 \<or> t = 2 \<or> t = 3 \<or> t = 4"

definition do_recv :: "'w transport \<Rightarrow> vconn \<Rightarrow> 'w \<Rightarrow> (int \<times> u8 list \<times> 'w) option" where
  "do_recv tr vc w =
    (let (retval, msg, w) = t_recv tr (v_handle vc) w in
     if retval \<noteq> 0 then Some (retval, [], w)
     else if length msg < 8 then None
     else if uint (oh_version msg) \<noteq> v_version vc \<and> \<not> symmetric_type (oh_type msg) then Some (EPROTO, [], w)
     else Some (0, msg, w))"

definition do_send :: "'w transport \<Rightarrow> vconn \<Rightarrow> u8 list \<Rightarrow> 'w \<Rightarrow> (int \<times> 'w) option" where
  "do_send tr vc msg w =
    (if length msg < 8 then None
     else if get_u16 msg 2 \<noteq> htons (of_nat (length msg)) then None
     else Some (t_send tr (v_handle vc) msg w))"

definition make_openflow ::
  "'w transport \<Rightarrow> nat \<Rightarrow> u8 \<Rightarrow> 'w \<Rightarrow> (ofpbuf \<times> 'w) option" where
  "make_openflow tr openflow_len type w =
    (let (xid, w) = t_random tr w in
     do { b \<leftarrow> make_openflow_xid (t_junk tr) openflow_len type xid; Some (b, w) })"


section \<open>Version negotiation\<close>

definition vcs_connecting :: "'w transport \<Rightarrow> vconn \<Rightarrow> 'w \<Rightarrow> (vconn \<times> 'w) option" where
  "vcs_connecting tr vc w =
    (let (retval, w) = t_connect tr (v_handle vc) w in
     if retval = EINPROGRESS then None
     else if retval = 0 then Some (vc\<lparr>v_state := VCS_SEND_HELLO\<rparr>, w)
     else if retval \<noteq> EAGAIN then Some (vc\<lparr>v_state := VCS_DISCONNECTED, v_error := retval\<rparr>, w)
     else Some (vc, w))"

definition vcs_send_hello :: "'w transport \<Rightarrow> vconn \<Rightarrow> 'w \<Rightarrow> (vconn \<times> 'w) option" where
  "vcs_send_hello tr vc w = do {
     (b, w) \<leftarrow> make_openflow tr 8 OFPT_HELLO w;
     (retval, w) \<leftarrow> do_send tr vc (contents b) w;
     if retval = 0 then Some (vc\<lparr>v_state := VCS_RECV_HELLO\<rparr>, w)
     else if retval \<noteq> EAGAIN then Some (vc\<lparr>v_state := VCS_DISCONNECTED, v_error := retval\<rparr>, w)
     else Some (vc, w)
   }"

definition vcs_recv_hello :: "'w transport \<Rightarrow> vconn \<Rightarrow> 'w \<Rightarrow> (vconn \<times> 'w) option" where
  "vcs_recv_hello tr vc w = do {
     (retval, oh, w) \<leftarrow> do_recv tr vc w;
     if retval = 0 \<and> oh_type oh = OFPT_HELLO then
       let vc = vc\<lparr>v_version := min (uint OFP_VERSION) (uint (oh_version oh))\<rparr> in
       if v_version vc < v_min_version vc then Some (vc\<lparr>v_state := VCS_SEND_ERROR\<rparr>, w)
       else Some (vc\<lparr>v_state := VCS_CONNECTED\<rparr>, w)
     else
       let retval = (if retval = 0 then EPROTO else retval) in
       if retval \<noteq> EAGAIN then Some (vc\<lparr>v_state := VCS_DISCONNECTED, v_error := retval\<rparr>, w)
       else Some (vc, w)
   }"

text \<open>The text of the error message, with \<open>%02x\<close> in hexadecimal.\<close>

definition hex_digit :: "nat \<Rightarrow> char" where
  "hex_digit d = ''0123456789abcdef'' ! d"

fun hex_digits :: "nat \<Rightarrow> string" where
  "hex_digits n = (if n < 16 then [hex_digit n] else hex_digits (n div 16) @ [hex_digit (n mod 16)])"

declare hex_digits.simps [simp del]

definition hex02 :: "int \<Rightarrow> string" where
  "hex02 n = (let s = hex_digits (nat (n mod 4294967296)) in if length s < 2 then CHR ''0'' # s else s)"

definition incompatible_text :: "int \<Rightarrow> int \<Rightarrow> u8 list" where
  "incompatible_text min_version version = take 127 (map of_char
     (''We support versions 0x'' @ hex02 min_version @ '' to 0x'' @ hex02 (uint OFP_VERSION) @
      '' inclusive but you support no later than version 0x'' @ hex02 (version mod 256) @ ''.''))"

definition vcs_send_error :: "'w transport \<Rightarrow> vconn \<Rightarrow> 'w \<Rightarrow> (vconn \<times> 'w) option" where
  "vcs_send_error tr vc w = do {
     (b, w) \<leftarrow> make_openflow tr 12 OFPT_ERROR w;
     b \<leftarrow> st16 (bdata b + 8) (htons OFPET_HELLO_FAILED) b;
     b \<leftarrow> st16 (bdata b + 10) (htons OFPHFC_INCOMPATIBLE) b;
     let (p, b) = ofpbuf_put (t_junk tr) (incompatible_text (v_min_version vc) (v_version vc)) b;
     b \<leftarrow> update_openflow_length b;
     (retval, w) \<leftarrow> do_send tr vc (contents b) w;
     if retval \<noteq> EAGAIN then
       Some (vc\<lparr>v_state := VCS_DISCONNECTED, v_error := (if retval \<noteq> 0 then retval else EPROTO)\<rparr>, w)
     else Some (vc, w)
   }"

text \<open>One turn of the loop of \<open>vconn_connect\<close> in a state that does not end it.\<close>

definition vconn_turn :: "'w transport \<Rightarrow> vconn \<Rightarrow> 'w \<Rightarrow> (vconn \<times> 'w) option" where
  "vconn_turn tr vc w =
    (case v_state vc of
       VCS_CONNECTING \<Rightarrow> vcs_connecting tr vc w
     | VCS_SEND_HELLO \<Rightarrow> vcs_send_hello tr vc w
     | VCS_RECV_HELLO \<Rightarrow> vcs_recv_hello tr vc w
     | VCS_SEND_ERROR \<Rightarrow> vcs_send_error tr vc w
     | _ \<Rightarrow> Some (vc, w))"

partial_function (option) vconn_connect_loop ::
  "'w transport \<Rightarrow> vconn \<Rightarrow> 'w \<Rightarrow> (int \<times> vconn \<times> 'w) option" where
  "vconn_connect_loop tr vc w =
    (if v_state vc = VCS_CONNECTED then Some (0, vc, w)
     else if v_state vc = VCS_DISCONNECTED then Some (v_error vc, vc, w)
     else Option.bind (vconn_turn tr vc w) (\<lambda>r.
       if v_state (fst r) \<noteq> v_state vc then vconn_connect_loop tr (fst r) (snd r)
       else Some (EAGAIN, fst r, snd r)))"

definition vconn_connect :: "'w transport \<Rightarrow> vconn \<Rightarrow> 'w \<Rightarrow> (int \<times> vconn \<times> 'w) option" where
  "vconn_connect tr vc w = (if v_min_version vc < 0 then None else vconn_connect_loop tr vc w)"

definition vconn_recv :: "'w transport \<Rightarrow> vconn \<Rightarrow> 'w \<Rightarrow> (int \<times> u8 list \<times> vconn \<times> 'w) option" where
  "vconn_recv tr vc w = do {
     (retval, vc, w) \<leftarrow> vconn_connect tr vc w;
     if retval = 0 then do { (retval, msg, w) \<leftarrow> do_recv tr vc w; Some (retval, msg, vc, w) }
     else Some (retval, [], vc, w)
   }"

definition vconn_send :: "'w transport \<Rightarrow> vconn \<Rightarrow> u8 list \<Rightarrow> 'w \<Rightarrow> (int \<times> vconn \<times> 'w) option" where
  "vconn_send tr vc msg w = do {
     (retval, vc, w) \<leftarrow> vconn_connect tr vc w;
     if retval = 0 then do { (retval, w) \<leftarrow> do_send tr vc msg w; Some (retval, vc, w) }
     else Some (retval, vc, w)
   }"

definition vconn_wait :: "'w transport \<Rightarrow> vconn \<Rightarrow> vconn_wait_type \<Rightarrow> 'w \<Rightarrow> 'w" where
  "vconn_wait tr vc wait w =
    (case v_state vc of
       VCS_CONNECTING \<Rightarrow> t_wait tr (v_handle vc) WAIT_CONNECT w
     | VCS_SEND_HELLO \<Rightarrow> t_wait tr (v_handle vc) WAIT_SEND w
     | VCS_SEND_ERROR \<Rightarrow> t_wait tr (v_handle vc) WAIT_SEND w
     | VCS_RECV_HELLO \<Rightarrow> t_wait tr (v_handle vc) WAIT_RECV w
     | VCS_CONNECTED \<Rightarrow> t_wait tr (v_handle vc) wait w
     | VCS_DISCONNECTED \<Rightarrow> t_wake tr w)"



section \<open>Blocking operations\<close>

partial_function (option) vconn_open_loop ::
  "'w transport \<Rightarrow> int \<Rightarrow> vconn option \<Rightarrow> 'w \<Rightarrow> (int \<times> vconn option \<times> 'w) option" where
  "vconn_open_loop tr err vc w =
    (if err = EAGAIN then
       if vc = None then None
       else Option.bind (vconn_connect tr (the vc) (t_poll_block tr (vconn_wait tr (the vc) WAIT_CONNECT w))) (\<lambda>r.
         if fst r = EINPROGRESS then None
         else vconn_open_loop tr (fst r) (Some (fst (snd r))) (snd (snd r)))
     else Some (err, vc, w))"

definition vconn_open_block :: "'w transport \<Rightarrow> string \<Rightarrow> int \<Rightarrow> 'w \<Rightarrow> (int \<times> vconn option \<times> 'w) option" where
  "vconn_open_block tr name min_version w = do {
     (err, vc, w) \<leftarrow> vconn_open tr name min_version w;
     (err, vc, w) \<leftarrow> vconn_open_loop tr err vc w;
     if err \<noteq> 0 then Some (err, None, vconn_close tr vc w) else Some (err, vc, w)
   }"

partial_function (option) vconn_send_block ::
  "'w transport \<Rightarrow> vconn \<Rightarrow> u8 list \<Rightarrow> 'w \<Rightarrow> (int \<times> vconn \<times> 'w) option" where
  "vconn_send_block tr vc msg w =
    Option.bind (vconn_send tr vc msg w) (\<lambda>r.
      if fst r = EAGAIN then
        vconn_send_block tr (fst (snd r)) msg (t_poll_block tr (vconn_wait tr (fst (snd r)) WAIT_SEND (snd (snd r))))
      else Some r)"

partial_function (option) vconn_recv_block ::
  "'w transport \<Rightarrow> vconn \<Rightarrow> 'w \<Rightarrow> (int \<times> u8 list \<times> vconn \<times> 'w) option" where
  "vconn_recv_block tr vc w =
    Option.bind (vconn_recv tr vc w) (\<lambda>r.
      if fst r = EAGAIN then
        vconn_recv_block tr (fst (snd (snd r)))
          (t_poll_block tr (vconn_wait tr (fst (snd (snd r))) WAIT_RECV (snd (snd (snd r)))))
      else Some r)"

partial_function (option) vconn_recv_xid ::
  "'w transport \<Rightarrow> vconn \<Rightarrow> u32 \<Rightarrow> 'w \<Rightarrow> (int \<times> u8 list \<times> vconn \<times> 'w) option" where
  "vconn_recv_xid tr vc xid w =
    Option.bind (vconn_recv_block tr vc w) (\<lambda>r.
      if fst r \<noteq> 0 then Some (fst r, [], snd (snd r))
      else if get_u32 (fst (snd r)) 4 = xid then Some r
      else vconn_recv_xid tr (fst (snd (snd r))) xid (snd (snd (snd r))))"

definition vconn_transact ::
  "'w transport \<Rightarrow> vconn \<Rightarrow> u8 list \<Rightarrow> 'w \<Rightarrow> (int \<times> u8 list \<times> vconn \<times> 'w) option" where
  "vconn_transact tr vc request w = do {
     let send_xid = get_u32 request 4;
     (err, vc, w) \<leftarrow> vconn_send_block tr vc request w;
     if err \<noteq> 0 then Some (err, [], vc, w) else vconn_recv_xid tr vc send_xid w
   }"


section \<open>Negotiation ends\<close>

text \<open>
  What \<open>lib/vconn-provider.h\<close> asks of a transport, and that a received message is as long as its header
  says, as the stream class makes sure of.
\<close>

definition msg_ok :: "u8 list \<Rightarrow> bool" where
  "msg_ok msg \<longleftrightarrow> 8 \<le> length msg \<and> get_u16 msg 2 = htons (of_nat (length msg))"

definition transport_ok :: "'w transport \<Rightarrow> bool" where
  "transport_ok tr \<longleftrightarrow> (\<forall>h w. fst (t_connect tr h w) \<noteq> EINPROGRESS) \<and>
    (\<forall>h w. fst (t_recv tr h w) = 0 \<longrightarrow> msg_ok (fst (snd (t_recv tr h w))))"

definition vconn_ok :: "vconn \<Rightarrow> bool" where
  "vconn_ok vc \<longleftrightarrow> 0 \<le> v_min_version vc \<and>
    (v_state vc = VCS_CONNECTED \<longrightarrow> v_min_version vc \<le> v_version vc \<and> v_version vc \<le> uint OFP_VERSION) \<and>
    (v_state vc = VCS_DISCONNECTED \<longrightarrow> v_error vc \<noteq> 0 \<and> v_error vc \<noteq> EAGAIN)"

text \<open>The states are numbered in the order in which they are passed.\<close>

primrec vcs_rank :: "vconn_state \<Rightarrow> nat" where
  "vcs_rank VCS_CONNECTING = 0"
| "vcs_rank VCS_SEND_HELLO = 1"
| "vcs_rank VCS_RECV_HELLO = 2"
| "vcs_rank VCS_CONNECTED = 3"
| "vcs_rank VCS_SEND_ERROR = 4"
| "vcs_rank VCS_DISCONNECTED = 5"

definition vconn_follows :: "vconn \<Rightarrow> vconn \<Rightarrow> bool" where
  "vconn_follows vc vc' \<longleftrightarrow> v_min_version vc' = v_min_version vc \<and> v_name vc' = v_name vc \<and>
    v_handle vc' = v_handle vc \<and> v_ip vc' = v_ip vc \<and>
    (vc' = vc \<or> vcs_rank (v_state vc) < vcs_rank (v_state vc'))"

lemma vconn_follows_trans: "vconn_follows a b \<Longrightarrow> vconn_follows b c \<Longrightarrow> vconn_follows a c"
  by (auto simp: vconn_follows_def)

lemma get_u16_write_at:
  "2 + i \<le> length m \<Longrightarrow> get_u16 (write_at i (bytes16 x) m) i = x"
  by (simp add: get_u16_def write_at_def nth_append bytes16_def le16_bytes)

lemma get_u16_header: "get_u16 ([v, t] @ bytes16 x @ rest) 2 = x"
  by (simp add: get_u16_def bytes16_def le16_bytes)

lemma update_openflow_length_ok:
  assumes "ofpbuf_ok b" and "8 \<le> bsize b"
  obtains b' where "update_openflow_length b = Some b'" "ofpbuf_ok b'" "bsize b' = bsize b"
    "get_u16 (contents b') 2 = htons (of_nat (bsize b))"
proof -
  have "2 + length (bytes16 (htons (of_nat (bsize b)))) \<le> bsize b" using assms(2) by simp
  with assms(1) obtain b' where b': "stn (bdata b + 2) (bytes16 (htons (of_nat (bsize b)))) b = Some b'"
    "ofpbuf_ok b'" "bsize b' = bsize b" "contents b' = write_at 2 (bytes16 (htons (of_nat (bsize b)))) (contents b)"
    by (rule stn_ok)
  moreover have "length (contents b) = bsize b" using assms(1) by simp
  ultimately show thesis using that [of b'] assms(2) get_u16_write_at [of 2 "contents b"]
    by (simp add: update_openflow_length_def ofpbuf_at_assert_def st16_def)
qed

lemma make_hello: "\<exists>b w'. make_openflow tr 8 OFPT_HELLO w = Some (b, w') \<and> length (contents b) = 8 \<and>
    get_u16 (contents b) 2 = htons 8"
proof -
  obtain xid w' where r: "t_random tr w = (xid, w')" by fastforce
  obtain b where "make_openflow_xid (t_junk tr) 8 OFPT_HELLO xid = Some b"
    "contents b = [OFP_VERSION, OFPT_HELLO] @ bytes16 (htons (of_nat 8)) @ bytes32 xid @ replicate (8 - 8) 0"
    by (rule make_openflow_xid_ok [of 8 "t_junk tr" OFPT_HELLO xid]) auto
  then show ?thesis using r get_u16_header [of OFP_VERSION OFPT_HELLO "htons 8" "bytes32 xid"]
    by (simp add: make_openflow_def)
qed

lemma make_hello_error:
  "\<exists>b w' b1 b2 p b3 b4. make_openflow tr 12 OFPT_ERROR w = Some (b, w') \<and>
    st16 (bdata b + 8) (htons OFPET_HELLO_FAILED) b = Some b1 \<and>
    st16 (bdata b1 + 10) (htons OFPHFC_INCOMPATIBLE) b1 = Some b2 \<and>
    ofpbuf_put (t_junk tr) tx b2 = (p, b3) \<and> update_openflow_length b3 = Some b4 \<and>
    length (contents b4) = 12 + length tx \<and> get_u16 (contents b4) 2 = htons (of_nat (12 + length tx))"
proof -
  obtain xid w' where r: "t_random tr w = (xid, w')" by fastforce
  obtain b where b: "make_openflow_xid (t_junk tr) 12 OFPT_ERROR xid = Some b" "ofpbuf_ok b" "bsize b = 12"
    by (rule make_openflow_xid_ok [of 12 "t_junk tr" OFPT_ERROR xid]) auto
  obtain b1 where b1: "st16 (bdata b + 8) (htons OFPET_HELLO_FAILED) b = Some b1" "ofpbuf_ok b1" "bsize b1 = 12"
    using stn_ok [OF b(2), of 8 "bytes16 (htons OFPET_HELLO_FAILED)"] b(3) unfolding st16_def by auto
  obtain b2 where b2: "st16 (bdata b1 + 10) (htons OFPHFC_INCOMPATIBLE) b1 = Some b2" "ofpbuf_ok b2" "bsize b2 = 12"
    using stn_ok [OF b1(2), of 10 "bytes16 (htons OFPHFC_INCOMPATIBLE)"] b1(3) unfolding st16_def by auto
  obtain p b3 where p: "ofpbuf_put (t_junk tr) tx b2 = (p, b3)" by fastforce
  have b3: "ofpbuf_ok b3" "contents b3 = contents b2 @ tx"
    using ofpbuf_put_contents [OF b2(2), of "t_junk tr" tx] p by simp_all
  have "length (contents b3) = bsize b3" "length (contents b2) = bsize b2" using b3(1) b2(2) by simp_all
  then have s3: "bsize b3 = 12 + length tx" using b3(2) b2(3) by simp
  then obtain b4 where "update_openflow_length b3 = Some b4" "ofpbuf_ok b4" "bsize b4 = bsize b3"
    "get_u16 (contents b4) 2 = htons (of_nat (bsize b3))"
    using update_openflow_length_ok [OF b3(1)] by auto
  with r b b1 b2 p s3 show ?thesis by (auto simp: make_openflow_def)
qed


lemma do_send_returns:
  "8 \<le> length msg \<Longrightarrow> get_u16 msg 2 = htons (of_nat (length msg)) \<Longrightarrow>
    do_send tr vc msg w = Some (t_send tr (v_handle vc) msg w)"
  by (simp add: do_send_def)

lemma do_recv_returns:
  assumes "transport_ok tr"
  obtains r msg w' where "do_recv tr vc w = Some (r, msg, w')" "r = 0 \<longrightarrow> msg_ok msg"
    "r = 0 \<longrightarrow> uint (oh_version msg) = v_version vc \<or> symmetric_type (oh_type msg)"
proof -
  obtain r m w' where t: "t_recv tr (v_handle vc) w = (r, m, w')" using prod_cases3 by blast
  then have "r = 0 \<Longrightarrow> msg_ok m" using assms unfolding transport_ok_def by (metis fst_conv snd_conv)
  with t that show thesis
    by (cases "r = 0"; cases "uint (oh_version m) \<noteq> v_version vc \<and> \<not> symmetric_type (oh_type m)")
      (auto simp: do_recv_def msg_ok_def)
qed

lemma vconn_turn_ok:
  assumes tr: "transport_ok tr" and ok: "vconn_ok vc"
  obtains vc' w' where "vconn_turn tr vc w = Some (vc', w')" "vconn_ok vc'" "vconn_follows vc vc'"
proof (cases "v_state vc")
  case VCS_CONNECTING
  obtain r w' where c: "t_connect tr (v_handle vc) w = (r, w')" by fastforce
  moreover have "r \<noteq> EINPROGRESS" using tr c unfolding transport_ok_def by (metis fst_conv)
  ultimately show thesis using that VCS_CONNECTING ok
    by (cases "r = 0"; cases "r = EAGAIN") (auto simp: vconn_turn_def vcs_connecting_def vconn_ok_def vconn_follows_def)
next
  case VCS_SEND_HELLO
  obtain b w1 where b: "make_openflow tr 8 OFPT_HELLO w = Some (b, w1)" "length (contents b) = 8"
    "get_u16 (contents b) 2 = htons 8" using make_hello [of tr w] by auto
  obtain r w2 where s: "t_send tr (v_handle vc) (contents b) w1 = (r, w2)" by fastforce
  have "do_send tr vc (contents b) w1 = Some (r, w2)" using b s by (simp add: do_send_returns)
  with b(1) VCS_SEND_HELLO ok that show thesis
    by (cases "r = 0"; cases "r = EAGAIN") (auto simp: vconn_turn_def vcs_send_hello_def vconn_ok_def vconn_follows_def)
next
  case VCS_RECV_HELLO
  obtain r msg w1 where d: "do_recv tr vc w = Some (r, msg, w1)" using do_recv_returns [OF tr] by blast
  consider "r = 0" "oh_type msg = OFPT_HELLO" | "r = 0" "oh_type msg \<noteq> OFPT_HELLO" | "r \<noteq> 0" "r = EAGAIN"
    | "r \<noteq> 0" "r \<noteq> EAGAIN" by blast
  then show thesis
  proof cases
    case 1
    with d VCS_RECV_HELLO ok that show thesis
      by (cases "min (uint OFP_VERSION) (uint (oh_version msg)) < v_min_version vc")
        (auto simp: vconn_turn_def vcs_recv_hello_def vconn_ok_def vconn_follows_def min_less_iff_disj not_less)
  qed (use d VCS_RECV_HELLO ok that in \<open>auto simp: vconn_turn_def vcs_recv_hello_def vconn_ok_def vconn_follows_def\<close>)
next
  case VCS_SEND_ERROR
  obtain b w1 b1 b2 p b3 b4 where b: "make_openflow tr 12 OFPT_ERROR w = Some (b, w1)"
    "st16 (bdata b + 8) (htons OFPET_HELLO_FAILED) b = Some b1"
    "st16 (bdata b1 + 10) (htons OFPHFC_INCOMPATIBLE) b1 = Some b2"
    "ofpbuf_put (t_junk tr) (incompatible_text (v_min_version vc) (v_version vc)) b2 = (p, b3)"
    "update_openflow_length b3 = Some b4" "8 \<le> length (contents b4)"
    "get_u16 (contents b4) 2 = htons (of_nat (length (contents b4)))"
    using make_hello_error [of tr w "incompatible_text (v_min_version vc) (v_version vc)"] by auto
  obtain r w2 where s: "t_send tr (v_handle vc) (contents b4) w1 = (r, w2)" by fastforce
  have "do_send tr vc (contents b4) w1 = Some (r, w2)" using b s by (simp add: do_send_returns)
  with b VCS_SEND_ERROR ok that show thesis
    by (cases "r = EAGAIN") (auto simp: vconn_turn_def vcs_send_error_def vconn_ok_def vconn_follows_def)
qed (use that ok in \<open>auto simp: vconn_turn_def vconn_follows_def\<close>)

lemma vconn_connect_loop_ok:
  assumes tr: "transport_ok tr" and "vconn_ok vc"
  shows "\<exists>r vc' w'. vconn_connect_loop tr vc w = Some (r, vc', w') \<and> vconn_ok vc' \<and> vconn_follows vc vc' \<and>
    (r = 0 \<longleftrightarrow> v_state vc' = VCS_CONNECTED) \<and>
    (r \<noteq> 0 \<and> r \<noteq> EAGAIN \<longleftrightarrow> v_state vc' = VCS_DISCONNECTED) \<and>
    (v_state vc' = VCS_DISCONNECTED \<longrightarrow> r = v_error vc')"
  using assms(2)
proof (induction "5 - vcs_rank (v_state vc)" arbitrary: vc w rule: less_induct)
  case less
  consider "v_state vc = VCS_CONNECTED" | "v_state vc = VCS_DISCONNECTED"
    | "v_state vc \<noteq> VCS_CONNECTED" "v_state vc \<noteq> VCS_DISCONNECTED" by blast
  then show ?case
  proof cases
    case 3
    obtain vc' w' where t: "vconn_turn tr vc w = Some (vc', w')" "vconn_ok vc'" "vconn_follows vc vc'"
      by (rule vconn_turn_ok [OF tr less.prems])
    show ?thesis
    proof (cases "v_state vc' = v_state vc")
      case True
      with t(3) have "vc' = vc" by (simp add: vconn_follows_def)
      with 3 t show ?thesis by (simp add: vconn_connect_loop.simps [of tr vc])
    next
      case False
      have "vcs_rank (v_state vc') \<le> 5" by (cases "v_state vc'") simp_all
      with False t(3) have "5 - vcs_rank (v_state vc') < 5 - vcs_rank (v_state vc)"
        by (auto simp: vconn_follows_def)
      have "vconn_connect_loop tr vc w = vconn_connect_loop tr vc' w'"
        using False 3 t by (simp add: vconn_connect_loop.simps [of tr vc])
      with less.hyps [OF \<open>5 - _ < 5 - _\<close> t(2), of w'] vconn_follows_trans [OF t(3)] show ?thesis
        by metis
    qed
  qed (use less.prems in \<open>simp_all add: vconn_connect_loop.simps vconn_follows_def vconn_ok_def\<close>)
qed

lemma vconn_connect_ok:
  assumes "transport_ok tr" and "vconn_ok vc"
  obtains r vc' w' where "vconn_connect tr vc w = Some (r, vc', w')" "vconn_ok vc'" "vconn_follows vc vc'"
    "r = 0 \<longleftrightarrow> v_state vc' = VCS_CONNECTED" "r \<noteq> 0 \<and> r \<noteq> EAGAIN \<longleftrightarrow> v_state vc' = VCS_DISCONNECTED"
    "v_state vc' = VCS_DISCONNECTED \<longrightarrow> r = v_error vc'"
proof -
  obtain r vc' w' where "vconn_connect_loop tr vc w = Some (r, vc', w')" "vconn_ok vc'" "vconn_follows vc vc'"
    "r = 0 \<longleftrightarrow> v_state vc' = VCS_CONNECTED" "r \<noteq> 0 \<and> r \<noteq> EAGAIN \<longleftrightarrow> v_state vc' = VCS_DISCONNECTED"
    "v_state vc' = VCS_DISCONNECTED \<longrightarrow> r = v_error vc'" using vconn_connect_loop_ok [OF assms] by metis
  with that assms(2) show thesis by (simp add: vconn_connect_def vconn_ok_def)
qed

text \<open>A connection is only established by a hello message of the other side, the last message received.\<close>

definition agreed_hello :: "'w transport \<Rightarrow> vconn \<Rightarrow> 'w \<Rightarrow> bool" where
  "agreed_hello tr vc w' \<longleftrightarrow> (\<exists>w oh. t_recv tr (v_handle vc) w = (0, oh, w') \<and> oh_type oh = OFPT_HELLO \<and>
     v_version vc = min (uint OFP_VERSION) (uint (oh_version oh)))"

lemma do_recv_from: "do_recv tr vc w = Some (0, msg, w') \<Longrightarrow> t_recv tr (v_handle vc) w = (0, msg, w')"
  by (auto simp: do_recv_def Let_def split: prod.splits if_splits)

lemma vconn_turn_hello:
  assumes "vconn_turn tr vc w = Some (vc', w')" "v_state vc \<noteq> VCS_CONNECTED" "v_state vc' = VCS_CONNECTED"
  shows "agreed_hello tr vc' w'"
proof (cases "v_state vc")
  case VCS_RECV_HELLO
  obtain r oh w1 where d: "do_recv tr vc w = Some (r, oh, w1)"
    using assms(1) VCS_RECV_HELLO by (auto simp: vconn_turn_def vcs_recv_hello_def split: option.splits bind_splits)
  have e: "r = 0" "oh_type oh = OFPT_HELLO" "w1 = w'" "v_handle vc' = v_handle vc"
      "v_version vc' = min (uint OFP_VERSION) (uint (oh_version oh))"
    using assms(1,3) d VCS_RECV_HELLO by (auto simp: vconn_turn_def vcs_recv_hello_def Let_def split: if_splits)
  have "t_recv tr (v_handle vc') w = (0, oh, w')" using d e(1,3,4) by (simp add: do_recv_from)
  then show ?thesis unfolding agreed_hello_def using e(2,5) by blast
qed (use assms in \<open>auto simp: vconn_turn_def vcs_connecting_def vcs_send_hello_def vcs_send_error_def Let_def
      split: prod.splits if_splits bind_splits\<close>)

lemma vconn_connect_loop_hello:
  assumes tr: "transport_ok tr" and "vconn_ok vc" "vconn_connect_loop tr vc w = Some (0, vc', w')"
  shows "vc' = vc \<or> agreed_hello tr vc' w'"
  using assms(2,3)
proof (induction "5 - vcs_rank (v_state vc)" arbitrary: vc w rule: less_induct)
  case less
  show ?case
  proof (cases "v_state vc = VCS_CONNECTED \<or> v_state vc = VCS_DISCONNECTED")
    case True
    then show ?thesis using less.prems by (auto simp: vconn_connect_loop.simps [of tr vc] vconn_ok_def)
  next
    case False
    obtain vc1 w1 where t: "vconn_turn tr vc w = Some (vc1, w1)" "vconn_ok vc1" "vconn_follows vc vc1"
      by (rule vconn_turn_ok [OF tr less.prems(1)])
    have other: "v_state vc1 \<noteq> v_state vc" and loop: "vconn_connect_loop tr vc1 w1 = Some (0, vc', w')"
      using less.prems(2) False t(1) by (auto simp: vconn_connect_loop.simps [of tr vc] split: if_splits)
    have "vcs_rank (v_state vc1) \<le> 5" by (cases "v_state vc1") simp_all
    with other t(3) have rank: "5 - vcs_rank (v_state vc1) < 5 - vcs_rank (v_state vc)"
      by (auto simp: vconn_follows_def)
    consider "v_state vc1 = VCS_CONNECTED" | "vc' = vc1" "v_state vc1 \<noteq> VCS_CONNECTED" | "agreed_hello tr vc' w'"
      using less.hyps [OF rank t(2) loop] by blast
    then show ?thesis
    proof cases
      case 1
      then have "vc' = vc1" "w' = w1" using loop by (simp_all add: vconn_connect_loop.simps [of tr vc1])
      then show ?thesis using vconn_turn_hello [OF t(1)] False 1 by simp
    next
      case 2
      have "v_state vc' = VCS_CONNECTED" using vconn_connect_loop_ok [OF tr t(2), of w1] loop by auto
      then show ?thesis using 2 by simp
    qed simp
  qed
qed

text \<open>
  C22. The negotiation of the version always comes to a result: on a transport that keeps its contract
  \<open>vconn_connect\<close> returns 0, an error or \<open>EAGAIN\<close>; it returns 0 exactly when the connection is established,
  and then the version agreed upon lies between the least acceptable one and \<open>OFP_VERSION\<close>.  If the
  connection was not established before, the last message received was a hello of the other side, and
  the version agreed upon is the lesser of \<open>OFP_VERSION\<close> and the version in it.  After an error
  the connection is closed and stays so; otherwise it is further on or waits in the same state.
\<close>

theorem vconn_connect_negotiates:
  assumes "transport_ok tr" and "vconn_ok vc"
  shows "\<exists>r vc' w'. vconn_connect tr vc w = Some (r, vc', w') \<and> vconn_ok vc' \<and>
    (r = 0 \<longleftrightarrow> v_state vc' = VCS_CONNECTED) \<and>
    (r = 0 \<longrightarrow> v_min_version vc \<le> v_version vc' \<and> v_version vc' \<le> 0x97) \<and>
    (r = 0 \<and> v_state vc \<noteq> VCS_CONNECTED \<longrightarrow> (\<exists>w1 oh. t_recv tr (v_handle vc) w1 = (0, oh, w') \<and>
       oh ! 1 = OFPT_HELLO \<and> v_version vc' = min (uint OFP_VERSION) (uint (oh ! 0)))) \<and>
    (r \<noteq> 0 \<and> r \<noteq> EAGAIN \<longrightarrow> v_state vc' = VCS_DISCONNECTED \<and> (\<forall>w. vconn_connect tr vc' w = Some (r, vc', w))) \<and>
    (vc' = vc \<or> vcs_rank (v_state vc) < vcs_rank (v_state vc'))"
proof -
  obtain r vc' w' where c: "vconn_connect tr vc w = Some (r, vc', w')" "vconn_ok vc'" "vconn_follows vc vc'"
    "r = 0 \<longleftrightarrow> v_state vc' = VCS_CONNECTED" "r \<noteq> 0 \<and> r \<noteq> EAGAIN \<longleftrightarrow> v_state vc' = VCS_DISCONNECTED"
    "v_state vc' = VCS_DISCONNECTED \<longrightarrow> r = v_error vc'"
    by (rule vconn_connect_ok [OF assms, of w])
  have v: "r = 0 \<Longrightarrow> v_min_version vc \<le> v_version vc' \<and> v_version vc' \<le> 0x97"
    using c(2-4) by (simp add: vconn_ok_def vconn_follows_def)
  have hello: "\<exists>w1 oh. t_recv tr (v_handle vc) w1 = (0, oh, w') \<and> oh ! 1 = OFPT_HELLO \<and>
      v_version vc' = min (uint OFP_VERSION) (uint (oh ! 0))" if "r = 0" "v_state vc \<noteq> VCS_CONNECTED"
  proof -
    have "vconn_connect_loop tr vc w = Some (0, vc', w')"
      using c(1) that(1) by (simp add: vconn_connect_def split: if_splits)
    then have "vc' = vc \<or> agreed_hello tr vc' w'" by (rule vconn_connect_loop_hello [OF assms])
    moreover have "vc' \<noteq> vc" using c(4) that by auto
    ultimately show ?thesis using c(3) by (simp add: agreed_hello_def vconn_follows_def)
  qed
  have "vconn_connect tr vc' w = Some (r, vc', w)" if "v_state vc' = VCS_DISCONNECTED" for w
    using that c(2,6) by (simp add: vconn_connect_def vconn_ok_def vconn_connect_loop.simps)
  with c v hello show ?thesis unfolding vconn_follows_def by blast
qed

text \<open>Sending and receiving return, and deliver only messages of the version agreed upon.\<close>

lemma vconn_recv_ok:
  assumes "transport_ok tr" and "vconn_ok vc"
  obtains r msg vc' w' where "vconn_recv tr vc w = Some (r, msg, vc', w')" "vconn_ok vc'" "vconn_follows vc vc'"
    "r = 0 \<longrightarrow> v_state vc' = VCS_CONNECTED \<and> msg_ok msg \<and>
      (uint (oh_version msg) = v_version vc' \<or> symmetric_type (oh_type msg))"
proof -
  obtain r vc' w1 where c: "vconn_connect tr vc w = Some (r, vc', w1)" "vconn_ok vc'" "vconn_follows vc vc'"
    "r = 0 \<longleftrightarrow> v_state vc' = VCS_CONNECTED" by (rule vconn_connect_ok [OF assms, of w])
  show thesis
  proof (cases "r = 0")
    case True
    obtain r' msg w2 where d: "do_recv tr vc' w1 = Some (r', msg, w2)" "r' = 0 \<longrightarrow> msg_ok msg"
      "r' = 0 \<longrightarrow> uint (oh_version msg) = v_version vc' \<or> symmetric_type (oh_type msg)"
      by (rule do_recv_returns [OF assms(1), of vc' w1])
    have "vconn_recv tr vc w = Some (r', msg, vc', w2)" using c(1) d(1) True by (simp add: vconn_recv_def)
    with c d True that show thesis by blast
  next
    case False
    then have "vconn_recv tr vc w = Some (r, [], vc', w1)" using c(1) by (simp add: vconn_recv_def)
    with c False that show thesis by blast
  qed
qed

lemma vconn_send_ok:
  assumes "transport_ok tr" and "vconn_ok vc" and "msg_ok msg"
  obtains r vc' w' where "vconn_send tr vc msg w = Some (r, vc', w')" "vconn_ok vc'" "vconn_follows vc vc'"
proof -
  obtain r vc' w1 where c: "vconn_connect tr vc w = Some (r, vc', w1)" "vconn_ok vc'" "vconn_follows vc vc'"
    by (rule vconn_connect_ok [OF assms(1,2), of w])
  obtain r2 w2 where s: "do_send tr vc' msg w1 = Some (r2, w2)"
    using do_send_returns [of msg tr vc' w1] assms(3) by (cases "t_send tr (v_handle vc') msg w1") (simp add: msg_ok_def)
  show thesis
  proof (cases "r = 0")
    case True
    with c s that show thesis by (simp add: vconn_send_def)
  next
    case False
    with c that show thesis by (simp add: vconn_send_def)
  qed
qed

text \<open>A transport whose peer answers each hello with its own, of version 0x97, and accepts everything.\<close>

definition echo_transport :: "unit transport" where
  "echo_transport = \<lparr>t_classes = [''tcp'', ''unix''], t_pclasses = [''ptcp'', ''punix''], t_can_connect = \<lambda>_. True,
     t_open = \<lambda>c n s w. (0, vconn_init 1 EAGAIN 0 n, w), t_close = \<lambda>_ w. w, t_connect = \<lambda>_ w. (0, w),
     t_recv = \<lambda>_ w. (0, [0x97, 0, 0, 8, 0, 0, 0, 0], w), t_send = \<lambda>_ _ w. (0, w), t_wait = \<lambda>_ _ w. w,
     t_listen = \<lambda>c n s w. (0, 1, w), t_accept = \<lambda>_ w. (0, vconn_init 1 0 0 ''passive'', w),
     t_poll_block = \<lambda>w. w, t_wake = \<lambda>w. w, t_random = \<lambda>w. (5, w), t_junk = \<lambda>_. 0\<rparr>"

lemma echo_transport_ok: "transport_ok echo_transport"
  by (simp add: transport_ok_def echo_transport_def msg_ok_def get_u16_def le16_def htons_def)

theorem vconn_connect_negotiates_witness:
  "transport_ok echo_transport \<and> vconn_ok ((vconn_init 1 EAGAIN 0 ''tcp:a'')\<lparr>v_min_version := 0x97\<rparr>) \<and>
   (\<exists>r vc' w'. vconn_connect echo_transport ((vconn_init 1 EAGAIN 0 ''tcp:a'')\<lparr>v_min_version := 0x97\<rparr>) () = Some (r, vc', w') \<and>
     (r = 0 \<longrightarrow> v_version vc' = 0x97))"
proof -
  have ok: "vconn_ok ((vconn_init 1 EAGAIN 0 ''tcp:a'')\<lparr>v_min_version := 0x97\<rparr>)"
    by (simp add: vconn_ok_def vconn_init_def)
  show ?thesis using vconn_connect_negotiates [OF echo_transport_ok ok, of "()"] ok echo_transport_ok by force
qed

end
