(* ===== verification/Rconn.thy ===== *)
theory Rconn
  imports Vconn
begin

text \<open>
  Reliable connections, \<open>lib/rconn.c\<close>: the state machine that connects, backs off, probes an idle peer
  and queues messages, on top of the virtual connections of \<open>Vconn\<close>.  The send queue is the sequence of
  its packets (\<open>Packet_Queue\<close> shows that the linked queue implements one), each with the client's counter
  its \<open>private\<close> field points to; the counters are kept with the connection.  \<open>now\<close> is the time that
  \<open>time_now()\<close> gives during the call.  \<open>None\<close> is a null pointer access, a failed assertion or a loop that
  never ends.  Log messages are left out.
\<close>

section \<open>State\<close>

abbreviation (input) ENOTCONN :: int where "ENOTCONN \<equiv> 107"
abbreviation (input) UINT_MAX :: u32 where "UINT_MAX \<equiv> 0xffffffff"
abbreviation (input) TIME_MAX :: int where "TIME_MAX \<equiv> 9223372036854775807"
abbreviation (input) TIME_MIN :: int where "TIME_MIN \<equiv> - 9223372036854775808"
abbreviation (input) MAX_MONITORS :: nat where "MAX_MONITORS \<equiv> 8"

datatype rconn_state = S_VOID | S_BACKOFF | S_CONNECTING | S_ACTIVE | S_IDLE

type_synonym tx_packet = "u8 list \<times> nat option"

record rconn =
  rc_state :: rconn_state
  state_entered :: int
  rc_vconn :: "vconn option"
  rc_name :: string
  reliable :: bool
  txq :: "tx_packet list"
  backoff :: int
  max_backoff :: int
  backoff_deadline :: int
  last_received :: int
  last_connected :: int
  packets_sent :: u32
  probably_admitted :: bool
  last_admitted :: int
  packets_received :: u32
  n_attempted_connections :: u32
  n_successful_connections :: u32
  creation_time :: int
  total_time_connected :: u64
  questionable_connectivity :: bool
  last_questioned :: int
  probe_interval :: int
  monitors :: "vconn list"
  n_queued :: "nat \<Rightarrow> int"

text \<open>Saturating arithmetic, \<open>lib/sat-math.h\<close>.\<close>

definition sat_add :: "u32 \<Rightarrow> u32 \<Rightarrow> u32" where
  "sat_add x y = (if x + y \<ge> x then x + y else UINT_MAX)"

definition sat_sub :: "u32 \<Rightarrow> u32 \<Rightarrow> u32" where
  "sat_sub x y = (if x \<ge> y then x - y else 0)"

definition sat_mul :: "u32 \<Rightarrow> u32 \<Rightarrow> u32" where
  "sat_mul x y = (if y = 0 then 0 else if x \<le> UINT_MAX div y then x * y else UINT_MAX)"

definition is_connected_state :: "rconn_state \<Rightarrow> bool" where
  "is_connected_state st \<longleftrightarrow> st = S_ACTIVE \<or> st = S_IDLE"

definition rconn_is_connected :: "rconn \<Rightarrow> bool" where
  "rconn_is_connected rc = is_connected_state (rc_state rc)"

definition rconn_is_alive :: "rconn \<Rightarrow> bool" where
  "rconn_is_alive rc \<longleftrightarrow> rc_state rc \<noteq> S_VOID"

definition rconn_failure_duration :: "int \<Rightarrow> rconn \<Rightarrow> int" where
  "rconn_failure_duration now rc = (if rconn_is_connected rc then 0 else now - last_admitted rc)"

definition rconn_get_ip :: "rconn \<Rightarrow> u32" where
  "rconn_get_ip rc = (case rc_vconn rc of Some vc \<Rightarrow> v_ip vc | None \<Rightarrow> 0)"

definition rconn_is_connectivity_questionable :: "rconn \<Rightarrow> bool \<times> rconn" where
  "rconn_is_connectivity_questionable rc =
    (questionable_connectivity rc, rc\<lparr>questionable_connectivity := False\<rparr>)"

definition is_admitted_msg :: "u8 list \<Rightarrow> bool" where
  "is_admitted_msg b \<longleftrightarrow> oh_type b \<notin> {0, 1, 2, 3, 4, 5, 6, 9, 10, 11}"

definition elapsed_in_this_state :: "int \<Rightarrow> rconn \<Rightarrow> u32" where
  "elapsed_in_this_state now rc = of_int (now - state_entered rc)"

definition rconn_get_total_time_connected :: "int \<Rightarrow> rconn \<Rightarrow> u64" where
  "rconn_get_total_time_connected now rc =
    total_time_connected rc + (if rconn_is_connected rc then ucast (elapsed_in_this_state now rc) else 0)"

definition timeout_VOID :: "rconn \<Rightarrow> u32" where
  "timeout_VOID rc = UINT_MAX"

definition timeout_BACKOFF :: "rconn \<Rightarrow> u32" where
  "timeout_BACKOFF rc = of_int (backoff rc)"

definition timeout_CONNECTING :: "rconn \<Rightarrow> u32" where
  "timeout_CONNECTING rc = of_int (max 1 (backoff rc))"

definition timeout_ACTIVE :: "rconn \<Rightarrow> u32" where
  "timeout_ACTIVE rc =
    (if probe_interval rc \<noteq> 0 then
       let base = of_int (max (last_received rc) (state_entered rc)) in
       base + of_int (probe_interval rc) - of_int (state_entered rc)
     else UINT_MAX)"

definition timeout_IDLE :: "rconn \<Rightarrow> u32" where
  "timeout_IDLE rc = of_int (probe_interval rc)"

definition timeout :: "rconn \<Rightarrow> u32" where
  "timeout rc = (case rc_state rc of
     S_VOID \<Rightarrow> timeout_VOID rc
   | S_BACKOFF \<Rightarrow> timeout_BACKOFF rc
   | S_CONNECTING \<Rightarrow> timeout_CONNECTING rc
   | S_ACTIVE \<Rightarrow> timeout_ACTIVE rc
   | S_IDLE \<Rightarrow> timeout_IDLE rc)"

lemmas timeout_defs = timeout_def timeout_VOID_def timeout_BACKOFF_def timeout_CONNECTING_def timeout_ACTIVE_def
  timeout_IDLE_def

definition timed_out :: "int \<Rightarrow> rconn \<Rightarrow> bool" where
  "timed_out now rc \<longleftrightarrow> now \<ge> uint (sat_add (of_int (state_entered rc)) (timeout rc))"

definition state_transition :: "int \<Rightarrow> rconn_state \<Rightarrow> rconn \<Rightarrow> rconn" where
  "state_transition now st rc =
    (let rc = (if is_connected_state st \<and> \<not> is_connected_state (rc_state rc) then rc\<lparr>probably_admitted := False\<rparr> else rc);
         rc = (if rconn_is_connected rc
               then rc\<lparr>total_time_connected := total_time_connected rc + ucast (elapsed_in_this_state now rc)\<rparr> else rc)
     in rc\<lparr>rc_state := st, state_entered := now\<rparr>)"

definition question_connectivity :: "int \<Rightarrow> rconn \<Rightarrow> rconn" where
  "question_connectivity now rc =
    (if now - last_questioned rc > 60 then rc\<lparr>questionable_connectivity := True, last_questioned := now\<rparr> else rc)"


section \<open>Connecting and disconnecting\<close>

definition count_down :: "nat option \<Rightarrow> rconn \<Rightarrow> rconn" where
  "count_down p rc = (case p of None \<Rightarrow> rc | Some c \<Rightarrow> rc\<lparr>n_queued := (n_queued rc)(c := n_queued rc c - 1)\<rparr>)"

definition count_up :: "nat option \<Rightarrow> rconn \<Rightarrow> rconn" where
  "count_up p rc = (case p of None \<Rightarrow> rc | Some c \<Rightarrow> rc\<lparr>n_queued := (n_queued rc)(c := n_queued rc c + 1)\<rparr>)"

function flush_loop :: "rconn \<Rightarrow> rconn" where
  "flush_loop rc = (case txq rc of [] \<Rightarrow> rc | b # bs \<Rightarrow> flush_loop (count_down (snd b) (rc\<lparr>txq := bs\<rparr>)))"
  by auto
termination
  by (relation "measure (\<lambda>rc. length (txq rc))") (auto simp: count_down_def split: option.split)

declare flush_loop.simps [simp del]

definition flush_queue :: "'w transport \<Rightarrow> rconn \<Rightarrow> 'w \<Rightarrow> rconn \<times> 'w" where
  "flush_queue tr rc w = (if txq rc = [] then (rc, w) else (flush_loop rc, t_wake tr w))"

definition rconn_disconnect :: "'w transport \<Rightarrow> int \<Rightarrow> rconn \<Rightarrow> 'w \<Rightarrow> rconn \<times> 'w" where
  "rconn_disconnect tr now rc w =
    (if rc_state rc \<noteq> S_VOID then
       let w = (case rc_vconn rc of Some vc \<Rightarrow> vconn_close tr (Some vc) w | None \<Rightarrow> w) in
       (state_transition now S_VOID
          (rc\<lparr>rc_vconn := None, rc_name := ''void'', reliable := False, backoff := 0, backoff_deadline := TIME_MIN\<rparr>), w)
     else (rc, w))"

definition disconnect :: "'w transport \<Rightarrow> int \<Rightarrow> rconn \<Rightarrow> 'w \<Rightarrow> rconn \<times> 'w" where
  "disconnect tr now rc w =
    (if reliable rc then
       let (rc, w) = (if rc_state rc = S_CONNECTING \<or> rc_state rc = S_ACTIVE \<or> rc_state rc = S_IDLE
                      then flush_queue tr (rc\<lparr>rc_vconn := None\<rparr>) (vconn_close tr (rc_vconn rc) w)
                      else (rc, w));
           rc = (if now \<ge> backoff_deadline rc then rc\<lparr>backoff := 1\<rparr>
                 else rc\<lparr>backoff := min (max_backoff rc) (max 1 (2 * backoff rc))\<rparr>);
           rc = state_transition now S_BACKOFF (rc\<lparr>backoff_deadline := now + backoff rc\<rparr>);
           rc = (if now - last_connected rc > 60 then question_connectivity now rc else rc)
       in (rc, w)
     else rconn_disconnect tr now rc w)"

definition reconnect :: "'w transport \<Rightarrow> int \<Rightarrow> rconn \<Rightarrow> 'w \<Rightarrow> (int \<times> rconn \<times> 'w) option" where
  "reconnect tr now rc w = do {
     let rc = rc\<lparr>n_attempted_connections := n_attempted_connections rc + 1\<rparr>;
     (retval, vc, w) \<leftarrow> vconn_open tr (rc_name rc) (uint OFP_VERSION) w;
     let rc = rc\<lparr>rc_vconn := vc\<rparr>;
     if retval = 0 then
       Some (retval, state_transition now S_CONNECTING (rc\<lparr>backoff_deadline := now + backoff rc\<rparr>), w)
     else
       let (rc, w) = disconnect tr now (rc\<lparr>backoff_deadline := TIME_MAX\<rparr>) w in Some (retval, rc, w)
   }"

definition rconn_create :: "int \<Rightarrow> int \<Rightarrow> int \<Rightarrow> (nat \<Rightarrow> int) \<Rightarrow> rconn" where
  "rconn_create now probe max_bo counters =
    \<lparr>rc_state = S_VOID, state_entered = now, rc_vconn = None, rc_name = ''void'', reliable = False, txq = [],
     backoff = 0, max_backoff = (if max_bo \<noteq> 0 then max_bo else 60), backoff_deadline = TIME_MIN,
     last_received = now, last_connected = now, packets_sent = 0, probably_admitted = False, last_admitted = now,
     packets_received = 0, n_attempted_connections = 0, n_successful_connections = 0, creation_time = now,
     total_time_connected = 0, questionable_connectivity = False, last_questioned = now,
     probe_interval = (if probe \<noteq> 0 then max 5 probe else 0), monitors = [], n_queued = counters\<rparr>"

definition rconn_connect :: "'w transport \<Rightarrow> int \<Rightarrow> string \<Rightarrow> rconn \<Rightarrow> 'w \<Rightarrow> (int \<times> rconn \<times> 'w) option" where
  "rconn_connect tr now name rc w =
    (let (rc, w) = rconn_disconnect tr now rc w
     in reconnect tr now (rc\<lparr>rc_name := name, reliable := True\<rparr>) w)"

definition rconn_connect_unreliably ::
  "'w transport \<Rightarrow> int \<Rightarrow> string \<Rightarrow> vconn option \<Rightarrow> rconn \<Rightarrow> 'w \<Rightarrow> (rconn \<times> 'w) option" where
  "rconn_connect_unreliably tr now name vc rc w =
    (if vc = None then None
     else let (rc, w) = rconn_disconnect tr now rc w in
       Some (state_transition now S_ACTIVE
         (rc\<lparr>rc_name := name, reliable := False, rc_vconn := vc, last_connected := now\<rparr>), w))"

definition rconn_new :: "'w transport \<Rightarrow> int \<Rightarrow> string \<Rightarrow> int \<Rightarrow> int \<Rightarrow> (nat \<Rightarrow> int) \<Rightarrow> 'w \<Rightarrow> (rconn \<times> 'w) option" where
  "rconn_new tr now name probe max_bo counters w = do {
     (_, rc, w) \<leftarrow> rconn_connect tr now name (rconn_create now probe max_bo counters) w; Some (rc, w) }"

definition rconn_new_from_vconn ::
  "'w transport \<Rightarrow> int \<Rightarrow> string \<Rightarrow> vconn option \<Rightarrow> (nat \<Rightarrow> int) \<Rightarrow> 'w \<Rightarrow> (rconn \<times> 'w) option" where
  "rconn_new_from_vconn tr now name vc counters w =
    rconn_connect_unreliably tr now name vc (rconn_create now 60 0 counters) w"

definition rconn_destroy :: "'w transport \<Rightarrow> rconn \<Rightarrow> 'w \<Rightarrow> rconn \<times> 'w" where
  "rconn_destroy tr rc w =
    (let w = vconn_close tr (rc_vconn rc) w;
         (rc, w) = flush_queue tr rc w
     in (rc, fold (\<lambda>m. vconn_close tr (Some m)) (monitors rc) w))"


section \<open>Sending and receiving\<close>

definition try_send :: "'w transport \<Rightarrow> int \<Rightarrow> rconn \<Rightarrow> 'w \<Rightarrow> (int \<times> rconn \<times> 'w) option" where
  "try_send tr now rc w =
    (case (txq rc, rc_vconn rc) of
       ((b, counter) # bs, Some vc) \<Rightarrow> do {
         (retval, vc, w) \<leftarrow> vconn_send tr vc b w;
         let rc = rc\<lparr>rc_vconn := Some vc\<rparr>;
         if retval \<noteq> 0 then
           let (rc, w) = (if retval \<noteq> EAGAIN then disconnect tr now rc w else (rc, w)) in Some (retval, rc, w)
         else
           let rc = count_down counter (rc\<lparr>packets_sent := packets_sent rc + 1\<rparr>) in Some (0, rc\<lparr>txq := bs\<rparr>, w)
       }
     | _ \<Rightarrow> None)"

text \<open>A monitor that fails is overwritten by the last one; its connection is not closed.\<close>

function copy_to_monitor_loop :: "'w transport \<Rightarrow> u8 list \<Rightarrow> nat \<Rightarrow> vconn list \<Rightarrow> 'w \<Rightarrow> (vconn list \<times> 'w) option" where
  "copy_to_monitor_loop tr b i ms w =
    (if i < length ms then do {
       (retval, vc, w) \<leftarrow> vconn_send tr (ms ! i) b w;
       let ms = ms[i := vc];
       if retval \<noteq> 0 \<and> retval \<noteq> EAGAIN then copy_to_monitor_loop tr b i (butlast (ms[i := last ms])) w
       else copy_to_monitor_loop tr b (i + 1) ms w
     } else Some (ms, w))"
  by auto
termination
  by (relation "measure (\<lambda>(tr, b, i, ms, w). length ms - i)") auto

declare copy_to_monitor_loop.simps [simp del]

definition copy_to_monitor :: "'w transport \<Rightarrow> u8 list \<Rightarrow> rconn \<Rightarrow> 'w \<Rightarrow> (rconn \<times> 'w) option" where
  "copy_to_monitor tr b rc w = do {
     (ms, w) \<leftarrow> copy_to_monitor_loop tr b 0 (monitors rc) w; Some (rc\<lparr>monitors := ms\<rparr>, w) }"

definition rconn_add_monitor :: "'w transport \<Rightarrow> vconn \<Rightarrow> rconn \<Rightarrow> 'w \<Rightarrow> rconn \<times> 'w" where
  "rconn_add_monitor tr vc rc w =
    (if length (monitors rc) < MAX_MONITORS then (rc\<lparr>monitors := monitors rc @ [vc]\<rparr>, w)
     else (rc, vconn_close tr (Some vc) w))"

definition rconn_send :: "'w transport \<Rightarrow> int \<Rightarrow> u8 list \<Rightarrow> nat option \<Rightarrow> rconn \<Rightarrow> 'w \<Rightarrow> (int \<times> rconn \<times> 'w) option" where
  "rconn_send tr now b counter rc w =
    (if rconn_is_connected rc then do {
       (rc, w) \<leftarrow> copy_to_monitor tr b rc w;
       let rc = count_up counter rc;
       let rc = rc\<lparr>txq := txq rc @ [(b, counter)]\<rparr>;
       if length (txq rc) = 1 then do { (_, rc, w) \<leftarrow> try_send tr now rc w; Some (0, rc, w) }
       else Some (0, rc, w)
     } else Some (ENOTCONN, rc, w))"

definition rconn_send_with_limit ::
  "'w transport \<Rightarrow> int \<Rightarrow> u8 list \<Rightarrow> nat \<Rightarrow> int \<Rightarrow> rconn \<Rightarrow> 'w \<Rightarrow> (int \<times> rconn \<times> 'w) option" where
  "rconn_send_with_limit tr now b counter queue_limit rc w =
    (if n_queued rc counter \<ge> queue_limit then Some (EAGAIN, rc, w)
     else rconn_send tr now b (Some counter) rc w)"

definition rconn_recv :: "'w transport \<Rightarrow> int \<Rightarrow> rconn \<Rightarrow> 'w \<Rightarrow> (u8 list option \<times> rconn \<times> 'w) option" where
  "rconn_recv tr now rc w =
    (if rc_state rc = S_ACTIVE \<or> rc_state rc = S_IDLE then
       case rc_vconn rc of None \<Rightarrow> None
       | Some vc \<Rightarrow> do {
           (err, buffer, vc, w) \<leftarrow> vconn_recv tr vc w;
           let rc = rc\<lparr>rc_vconn := Some vc\<rparr>;
           if err = 0 then do {
             (rc, w) \<leftarrow> copy_to_monitor tr buffer rc w;
             let rc = (if is_admitted_msg buffer \<or> now - last_connected rc \<ge> 30
                       then rc\<lparr>probably_admitted := True, last_admitted := now\<rparr> else rc);
             let rc = rc\<lparr>last_received := now, packets_received := packets_received rc + 1\<rparr>;
             let rc = (if rc_state rc = S_IDLE then state_transition now S_ACTIVE rc else rc);
             Some (Some buffer, rc, w)
           } else if err \<noteq> EAGAIN then let (rc, w) = disconnect tr now rc w in Some (None, rc, w)
           else Some (None, rc, w)
         }
     else Some (None, rc, w))"


section \<open>Running\<close>

definition make_echo_request :: "u8 list" where
  "make_echo_request = [OFP_VERSION, OFPT_ECHO_REQUEST] @ bytes16 (htons 8) @ bytes32 0"

partial_function (option) tx_loop :: "'w transport \<Rightarrow> int \<Rightarrow> rconn \<Rightarrow> 'w \<Rightarrow> (rconn \<times> 'w) option" where
  "tx_loop tr now rc w =
    (if txq rc = [] then Some (rc, w)
     else Option.bind (try_send tr now rc w) (\<lambda>r.
       if fst r \<noteq> 0 then Some (snd r) else tx_loop tr now (fst (snd r)) (snd (snd r))))"

definition do_tx_work :: "'w transport \<Rightarrow> int \<Rightarrow> rconn \<Rightarrow> 'w \<Rightarrow> (rconn \<times> 'w) option" where
  "do_tx_work tr now rc w =
    (if txq rc = [] then Some (rc, w)
     else do { (rc, w) \<leftarrow> tx_loop tr now rc w; Some (rc, if txq rc = [] then t_wake tr w else w) })"

definition run_VOID :: "'w transport \<Rightarrow> int \<Rightarrow> rconn \<Rightarrow> 'w \<Rightarrow> (rconn \<times> 'w) option" where
  "run_VOID tr now rc w = Some (rc, w)"

definition run_BACKOFF :: "'w transport \<Rightarrow> int \<Rightarrow> rconn \<Rightarrow> 'w \<Rightarrow> (rconn \<times> 'w) option" where
  "run_BACKOFF tr now rc w =
    (if timed_out now rc then do { (_, rc, w) \<leftarrow> reconnect tr now rc w; Some (rc, w) } else Some (rc, w))"

definition run_CONNECTING :: "'w transport \<Rightarrow> int \<Rightarrow> rconn \<Rightarrow> 'w \<Rightarrow> (rconn \<times> 'w) option" where
  "run_CONNECTING tr now rc w =
    (case rc_vconn rc of None \<Rightarrow> None
     | Some vc \<Rightarrow> do {
         (retval, vc, w) \<leftarrow> vconn_connect tr vc w;
         let rc = rc\<lparr>rc_vconn := Some vc\<rparr>;
         if retval = 0 then
           let rc = state_transition now S_ACTIVE (rc\<lparr>n_successful_connections := n_successful_connections rc + 1\<rparr>)
           in Some (rc\<lparr>last_connected := state_entered rc\<rparr>, w)
         else if retval \<noteq> EAGAIN then Some (disconnect tr now rc w)
         else if timed_out now rc then Some (disconnect tr now (rc\<lparr>backoff_deadline := TIME_MAX\<rparr>) w)
         else Some (rc, w)
       })"

definition run_ACTIVE :: "'w transport \<Rightarrow> int \<Rightarrow> rconn \<Rightarrow> 'w \<Rightarrow> (rconn \<times> 'w) option" where
  "run_ACTIVE tr now rc w =
    (if timed_out now rc then do {
       (_, rc, w) \<leftarrow> rconn_send tr now make_echo_request None rc w;
       Some (state_transition now S_IDLE rc, w)
     } else do_tx_work tr now rc w)"

definition run_IDLE :: "'w transport \<Rightarrow> int \<Rightarrow> rconn \<Rightarrow> 'w \<Rightarrow> (rconn \<times> 'w) option" where
  "run_IDLE tr now rc w =
    (if timed_out now rc then Some (disconnect tr now (question_connectivity now rc) w)
     else do_tx_work tr now rc w)"

definition run_state :: "'w transport \<Rightarrow> int \<Rightarrow> rconn \<Rightarrow> 'w \<Rightarrow> (rconn \<times> 'w) option" where
  "run_state tr now rc w = (case rc_state rc of
     S_VOID \<Rightarrow> run_VOID tr now rc w
   | S_BACKOFF \<Rightarrow> run_BACKOFF tr now rc w
   | S_CONNECTING \<Rightarrow> run_CONNECTING tr now rc w
   | S_ACTIVE \<Rightarrow> run_ACTIVE tr now rc w
   | S_IDLE \<Rightarrow> run_IDLE tr now rc w)"

partial_function (option) rconn_run :: "'w transport \<Rightarrow> int \<Rightarrow> rconn \<Rightarrow> 'w \<Rightarrow> (rconn \<times> 'w) option" where
  "rconn_run tr now rc w =
    Option.bind (run_state tr now rc w) (\<lambda>r.
      if rc_state (fst r) \<noteq> rc_state rc then rconn_run tr now (fst r) (snd r) else Some r)"

text \<open>The timer that \<open>rconn_run_wait\<close> sets in the poll loop, in milliseconds, and what it waits for.\<close>

definition rconn_run_wait :: "'w transport \<Rightarrow> int \<Rightarrow> rconn \<Rightarrow> 'w \<Rightarrow> (u32 option \<times> 'w) option" where
  "rconn_run_wait tr now rc w =
    (let timeo = timeout rc;
         timer = (if timeo \<noteq> UINT_MAX
                  then Some (sat_mul (sat_sub (sat_add (of_int (state_entered rc)) timeo) (of_int now)) 1000) else None)
     in if (rc_state rc = S_ACTIVE \<or> rc_state rc = S_IDLE) \<and> txq rc \<noteq> [] then
          case rc_vconn rc of None \<Rightarrow> None | Some vc \<Rightarrow> Some (timer, vconn_wait tr vc WAIT_SEND w)
        else Some (timer, w))"

definition rconn_recv_wait :: "'w transport \<Rightarrow> rconn \<Rightarrow> 'w \<Rightarrow> 'w" where
  "rconn_recv_wait tr rc w = (case rc_vconn rc of Some vc \<Rightarrow> vconn_wait tr vc WAIT_RECV w | None \<Rightarrow> w)"



section \<open>What the helpers change\<close>

text \<open>The number of packets in a queue that a counter counts.\<close>

definition queued :: "nat \<Rightarrow> tx_packet list \<Rightarrow> int" where
  "queued c q = int (length (filter (\<lambda>p. snd p = Some c) q))"

lemma queued_simps [simp]:
  "queued c [] = 0" "queued c (p # q) = (if snd p = Some c then 1 else 0) + queued c q" "queued c (q @ r) = queued c q + queued c r"
  by (simp_all add: queued_def)

named_theorems rc_changes

lemma state_transition_eq [rc_changes]:
  "state_transition now st rc = rc\<lparr>
     probably_admitted := probably_admitted rc \<and> (is_connected_state st \<longrightarrow> is_connected_state (rc_state rc)),
     total_time_connected := total_time_connected rc +
       (if is_connected_state (rc_state rc) then ucast (elapsed_in_this_state now rc) else 0),
     rc_state := st, state_entered := now\<rparr>"
  by (simp add: state_transition_def Let_def rconn_is_connected_def elapsed_in_this_state_def)

lemma question_connectivity_eq [rc_changes]:
  "question_connectivity now rc = rc\<lparr>
     questionable_connectivity := questionable_connectivity rc \<or> now - last_questioned rc > 60,
     last_questioned := (if now - last_questioned rc > 60 then now else last_questioned rc)\<rparr>"
  by (simp add: question_connectivity_def)

lemma count_down_eq [rc_changes]:
  "count_down p rc = rc\<lparr>n_queued := (\<lambda>c. n_queued rc c - (if p = Some c then 1 else 0))\<rparr>"
  by (auto simp: count_down_def fun_eq_iff split: option.split)

lemma count_up_eq [rc_changes]:
  "count_up p rc = rc\<lparr>n_queued := (\<lambda>c. n_queued rc c + (if p = Some c then 1 else 0))\<rparr>"
  by (auto simp: count_up_def fun_eq_iff split: option.split)

lemma flush_loop_eq [rc_changes]:
  "flush_loop rc = rc\<lparr>txq := [], n_queued := (\<lambda>c. n_queued rc c - queued c (txq rc))\<rparr>"
proof (induction rc rule: flush_loop.induct)
  case (1 rc)
  show ?case
  proof (cases "txq rc")
    case Nil
    then have "rc\<lparr>txq := []\<rparr> = rc" by simp
    with Nil show ?thesis by (simp add: flush_loop.simps [of rc])
  next
    case (Cons b bs)
    show ?thesis using "1.IH" [OF Cons] Cons
      by (auto simp: flush_loop.simps [of rc] count_down_eq fun_eq_iff)
  qed
qed

end
