(* ===== verification/Rconn_Safety.thy ===== *)
theory Rconn_Safety
  imports Rconn
begin

text \<open>
  Safety of the reliable connections of \<open>Rconn\<close>: the invariant that ties the state to the connection
  and bounds the timers, kept by every operation; termination of \<open>rconn_run\<close>; the counters of queued
  packets; what goes wrong when an inactivity probe cannot be sent; the doubling of the back-off.
\<close>

section \<open>Invariant\<close>

text \<open>
  A connection exists exactly in the states that use it.  The clock, the intervals and the messages are
  in range: \<open>max_backoff\<close> below \<open>2 ^ 30\<close> keeps the doubling from overflowing.
\<close>

definition rconn_base :: "int \<Rightarrow> rconn \<Rightarrow> bool" where
  "rconn_base now rc \<longleftrightarrow>
    0 \<le> state_entered rc \<and> state_entered rc \<le> now \<and> last_received rc \<le> now \<and> now < 2147483648 \<and>
    (\<forall>vc. rc_vconn rc = Some vc \<longrightarrow> vconn_ok vc) \<and> list_all vconn_ok (monitors rc) \<and> length (monitors rc) \<le> 8 \<and>
    list_all (\<lambda>p. msg_ok (fst p)) (txq rc) \<and>
    1 \<le> max_backoff rc \<and> max_backoff rc < 1073741824 \<and> 0 \<le> backoff rc \<and> backoff rc \<le> max_backoff rc \<and>
    (probe_interval rc = 0 \<or> 5 \<le> probe_interval rc) \<and> probe_interval rc < 1073741824"

definition rconn_linked :: "rconn \<Rightarrow> bool" where
  "rconn_linked rc \<longleftrightarrow>
    (rc_vconn rc = None \<longleftrightarrow> rc_state rc = S_VOID \<or> rc_state rc = S_BACKOFF) \<and>
    (rc_state rc = S_VOID \<longrightarrow> \<not> reliable rc) \<and> (rc_state rc = S_BACKOFF \<or> rc_state rc = S_CONNECTING \<longrightarrow> reliable rc) \<and>
    (rc_state rc = S_BACKOFF \<longrightarrow> 1 \<le> backoff rc) \<and> (rc_state rc = S_IDLE \<longrightarrow> probe_interval rc \<noteq> 0)"

definition rconn_inv :: "int \<Rightarrow> rconn \<Rightarrow> bool" where
  "rconn_inv now rc \<longleftrightarrow> rconn_base now rc \<and> rconn_linked rc"

lemma rconn_inv_mono: "rconn_inv now rc \<Longrightarrow> now \<le> now' \<Longrightarrow> now' < 2147483648 \<Longrightarrow> rconn_inv now' rc"
  by (auto simp: rconn_inv_def rconn_base_def)

lemma rconn_create_inv:
  "0 \<le> now \<Longrightarrow> now < 2147483648 \<Longrightarrow> 0 \<le> probe \<Longrightarrow> probe < 1073741824 \<Longrightarrow> 0 \<le> max_bo \<Longrightarrow> max_bo < 1073741824 \<Longrightarrow>
    rconn_inv now (rconn_create now probe max_bo counters)"
  by (auto simp: rconn_inv_def rconn_base_def rconn_linked_def rconn_create_def)

lemma flush_queue_eq: "fst (flush_queue tr rc w) = flush_loop rc"
  by (simp add: flush_queue_def flush_loop.simps [of rc])

lemma rconn_disconnect_eq: "fst (rconn_disconnect tr now rc w) =
    (if rc_state rc = S_VOID then rc
     else state_transition now S_VOID
       (rc\<lparr>rc_vconn := None, rc_name := ''void'', reliable := False, backoff := 0, backoff_deadline := TIME_MIN\<rparr>))"
  by (simp add: rconn_disconnect_def Let_def)

lemma disconnect_unreliable: "\<not> reliable rc \<Longrightarrow> disconnect tr now rc w = rconn_disconnect tr now rc w"
  by (simp add: disconnect_def)

text \<open>What a reliable connection becomes when it is dropped, the questioning of the connectivity apart.\<close>

lemma disconnect_reliable:
  assumes "reliable rc"
  obtains q l where "fst (disconnect tr now rc w) = (state_transition now S_BACKOFF
    ((if rc_state rc = S_VOID \<or> rc_state rc = S_BACKOFF then rc else flush_loop (rc\<lparr>rc_vconn := None\<rparr>))
     \<lparr>backoff := (if now \<ge> backoff_deadline rc then 1 else min (max_backoff rc) (max 1 (2 * backoff rc))),
      backoff_deadline := now + (if now \<ge> backoff_deadline rc then 1 else min (max_backoff rc) (max 1 (2 * backoff rc)))\<rparr>))
     \<lparr>questionable_connectivity := q, last_questioned := l\<rparr>"
proof -
  define rc1 where "rc1 = (if rc_state rc = S_VOID \<or> rc_state rc = S_BACKOFF then rc else flush_loop (rc\<lparr>rc_vconn := None\<rparr>))"
  obtain w1 where d1: "(if rc_state rc = S_CONNECTING \<or> rc_state rc = S_ACTIVE \<or> rc_state rc = S_IDLE
      then flush_queue tr (rc\<lparr>rc_vconn := None\<rparr>) (vconn_close tr (rc_vconn rc) w) else (rc, w)) = (rc1, w1)"
    using flush_queue_eq [of tr "rc\<lparr>rc_vconn := None\<rparr>" "vconn_close tr (rc_vconn rc) w"]
    by (cases "rc_state rc"; cases "flush_queue tr (rc\<lparr>rc_vconn := None\<rparr>) (vconn_close tr (rc_vconn rc) w)")
      (auto simp: rc1_def)
  have f: "backoff rc1 = backoff rc" "max_backoff rc1 = max_backoff rc" "backoff_deadline rc1 = backoff_deadline rc"
    "last_connected rc1 = last_connected rc" by (simp_all add: rc1_def flush_loop_eq)
  define b where "b = (if now \<ge> backoff_deadline rc then 1 else min (max_backoff rc) (max 1 (2 * backoff rc)))"
  define rc2 where "rc2 = state_transition now S_BACKOFF (rc1\<lparr>backoff := b, backoff_deadline := now + b\<rparr>)"
  have "fst (disconnect tr now rc w) = (if now - last_connected rc2 > 60 then question_connectivity now rc2 else rc2)"
    using assms d1 f by (simp add: disconnect_def rc2_def b_def)
  moreover have "\<exists>q l. (if now - last_connected rc2 > 60 then question_connectivity now rc2 else rc2) =
      rc2\<lparr>questionable_connectivity := q, last_questioned := l\<rparr>"
  proof (cases "now - last_connected rc2 > 60")
    case True
    then show ?thesis using question_connectivity_eq [of now rc2] by metis
  next
    case False
    have "rc2 = rc2\<lparr>questionable_connectivity := questionable_connectivity rc2, last_questioned := last_questioned rc2\<rparr>" by simp
    with False show ?thesis by metis
  qed
  ultimately show thesis using that unfolding rc2_def rc1_def b_def by metis
qed

lemma disconnect_inv:
  assumes base: "rconn_base now rc" and link: "rc_vconn rc = None \<or> rc_state rc \<noteq> S_VOID \<and> rc_state rc \<noteq> S_BACKOFF"
    and new: "rc' = fst (disconnect tr now rc w)"
  shows "rconn_inv now rc'" and "rc_state rc' = (if reliable rc then S_BACKOFF else S_VOID)"
    and "rc_vconn rc' = None" and "rc_state rc = S_VOID \<and> \<not> reliable rc \<or> state_entered rc' = now"
proof -
  have "rconn_inv now rc' \<and> rc_state rc' = (if reliable rc then S_BACKOFF else S_VOID) \<and> rc_vconn rc' = None \<and>
    (rc_state rc = S_VOID \<and> \<not> reliable rc \<or> state_entered rc' = now)"
  proof (cases "reliable rc")
    case True
    define b where "b = (if now \<ge> backoff_deadline rc then 1 else min (max_backoff rc) (max 1 (2 * backoff rc)))"
    have b: "1 \<le> b" "b \<le> max_backoff rc" using base by (auto simp: b_def rconn_base_def)
    obtain q l where "rc' = (state_transition now S_BACKOFF
        ((if rc_state rc = S_VOID \<or> rc_state rc = S_BACKOFF then rc else flush_loop (rc\<lparr>rc_vconn := None\<rparr>))
         \<lparr>backoff := b, backoff_deadline := now + b\<rparr>))\<lparr>questionable_connectivity := q, last_questioned := l\<rparr>"
      using disconnect_reliable [OF True, of tr now w] new unfolding b_def by metis
    with base link True b show ?thesis
      by (cases "rc_state rc = S_VOID \<or> rc_state rc = S_BACKOFF")
        (auto simp: rconn_inv_def rconn_base_def rconn_linked_def rc_changes)
  next
    case False
    with base link new show ?thesis
      by (auto simp: disconnect_unreliable rconn_disconnect_eq rconn_inv_def rconn_base_def rconn_linked_def rc_changes)
  qed
  then show "rconn_inv now rc'" "rc_state rc' = (if reliable rc then S_BACKOFF else S_VOID)"
    "rc_vconn rc' = None" "rc_state rc = S_VOID \<and> \<not> reliable rc \<or> state_entered rc' = now" by blast+
qed



section \<open>Sending keeps the invariant\<close>

text \<open>Either the connection is in the state it was, or it was dropped now.\<close>

definition same_or_dropped :: "int \<Rightarrow> rconn \<Rightarrow> rconn \<Rightarrow> bool" where
  "same_or_dropped now rc rc' \<longleftrightarrow>
    rc_state rc' = rc_state rc \<and> state_entered rc' = state_entered rc \<and> last_received rc' = last_received rc \<and>
      probe_interval rc' = probe_interval rc
    \<or> (rc_state rc' = S_BACKOFF \<or> rc_state rc' = S_VOID) \<and> state_entered rc' = now"

lemma same_or_dropped_refl [simp]: "same_or_dropped now rc rc"
  by (simp add: same_or_dropped_def)

lemma same_or_dropped_trans:
  "same_or_dropped now a b \<Longrightarrow> rc_state b = rc_state a \<Longrightarrow> rc_state a \<noteq> S_BACKOFF \<Longrightarrow> rc_state a \<noteq> S_VOID \<Longrightarrow>
    same_or_dropped now b c \<Longrightarrow> same_or_dropped now a c"
  by (auto simp: same_or_dropped_def)

lemma rconn_inv_connected:
  assumes "rconn_inv now rc" and "rconn_is_connected rc"
  obtains vc where "rc_vconn rc = Some vc" "vconn_ok vc" "rc_state rc \<noteq> S_VOID" "rc_state rc \<noteq> S_BACKOFF"
  using assms by (auto simp: rconn_inv_def rconn_linked_def rconn_base_def rconn_is_connected_def is_connected_state_def)

lemma rconn_inv_vconn:
  "rconn_inv now rc \<Longrightarrow> rc_state rc \<noteq> S_VOID \<Longrightarrow> rc_state rc \<noteq> S_BACKOFF \<Longrightarrow> vconn_ok vc \<Longrightarrow>
    rconn_inv now (rc\<lparr>rc_vconn := Some vc\<rparr>)"
  by (auto simp: rconn_inv_def rconn_base_def rconn_linked_def)

lemma disconnect_connected:
  assumes "rconn_inv now rc" and "rc_state rc \<noteq> S_VOID" and "rc_state rc \<noteq> S_BACKOFF"
  obtains rc' w' where "disconnect tr now rc w = (rc', w')" "rconn_inv now rc'" "same_or_dropped now rc rc'"
    "rc_vconn rc' = None"
proof -
  obtain rc' w' where d: "disconnect tr now rc w = (rc', w')" by fastforce
  have "rconn_base now rc" using assms by (simp add: rconn_inv_def)
  from disconnect_inv [OF this, of rc' tr w] assms d that show thesis
    by (auto simp: same_or_dropped_def split: if_splits)
qed

lemma try_send_ok:
  assumes tr: "transport_ok tr" and inv: "rconn_inv now rc" and con: "rconn_is_connected rc" and q: "txq rc = p # bs"
  obtains r rc' w' where "try_send tr now rc w = Some (r, rc', w')" "rconn_inv now rc'" "same_or_dropped now rc rc'"
    "r = 0 \<longrightarrow> txq rc' = bs \<and> rc_state rc' = rc_state rc" "rc_vconn rc' = None \<longrightarrow> r \<noteq> 0"
proof -
  obtain b counter where p: "p = (b, counter)" by (cases p)
  obtain vc where vc: "rc_vconn rc = Some vc" "vconn_ok vc" and st: "rc_state rc \<noteq> S_VOID" "rc_state rc \<noteq> S_BACKOFF"
    by (rule rconn_inv_connected [OF inv con])
  have "msg_ok b" using inv q p by (simp add: rconn_inv_def rconn_base_def)
  then obtain r vc' w1 where s: "vconn_send tr vc b w = Some (r, vc', w1)" "vconn_ok vc'"
    using vconn_send_ok [OF tr vc(2)] by metis
  define rc1 where "rc1 = rc\<lparr>rc_vconn := Some vc'\<rparr>"
  have i1: "rconn_inv now rc1" unfolding rc1_def by (rule rconn_inv_vconn [OF inv st s(2)])
  consider "r = 0" | "r = EAGAIN" | "r \<noteq> 0" "r \<noteq> EAGAIN" by blast
  then show thesis
  proof cases
    case 1
    define rc2 where "rc2 = (count_down counter (rc1\<lparr>packets_sent := packets_sent rc1 + 1\<rparr>))\<lparr>txq := bs\<rparr>"
    have "try_send tr now rc w = Some (0, rc2, w1)" using q p vc s 1 by (simp add: try_send_def rc2_def rc1_def)
    moreover have "rconn_inv now rc2" using i1 q
      by (simp add: rc2_def rc_changes rconn_inv_def rconn_base_def rconn_linked_def rc1_def)
    ultimately show thesis using that [of 0 rc2 w1] by (simp add: same_or_dropped_def rc2_def rc_changes rc1_def)
  next
    case 2
    have "try_send tr now rc w = Some (EAGAIN, rc1, w1)" using q p vc s 2 by (simp add: try_send_def rc1_def)
    then show thesis using that i1 by (simp add: same_or_dropped_def rc1_def)
  next
    case 3
    have st1: "rc_state rc1 \<noteq> S_VOID" "rc_state rc1 \<noteq> S_BACKOFF" using st by (simp_all add: rc1_def)
    obtain rc2 w2 where d: "disconnect tr now rc1 w1 = (rc2, w2)" "rconn_inv now rc2" "same_or_dropped now rc1 rc2"
      by (rule disconnect_connected [OF i1 st1])
    have "try_send tr now rc w = Some (r, rc2, w2)" using q p vc s 3 d by (simp add: try_send_def rc1_def)
    then show thesis using that d 3 by (simp add: same_or_dropped_def rc1_def)
  qed
qed


lemma tx_loop_ok:
  assumes tr: "transport_ok tr" and "rconn_inv now rc" and "rconn_is_connected rc"
  shows "\<exists>rc' w'. tx_loop tr now rc w = Some (rc', w') \<and> rconn_inv now rc' \<and> same_or_dropped now rc rc'"
  using assms(2,3)
proof (induction "txq rc" arbitrary: rc w)
  case Nil
  then show ?case by (simp add: tx_loop.simps [of tr now rc])
next
  case (Cons p bs)
  obtain r rc' w' where t: "try_send tr now rc w = Some (r, rc', w')" "rconn_inv now rc'" "same_or_dropped now rc rc'"
    "r = 0 \<longrightarrow> txq rc' = bs \<and> rc_state rc' = rc_state rc"
    using try_send_ok [OF tr Cons.prems Cons.hyps(2) [symmetric]] by metis
  show ?case
  proof (cases "r = 0")
    case True
    with t have s: "bs = txq rc'" "rc_state rc' = rc_state rc" by simp_all
    moreover from this(2) have con: "rconn_is_connected rc'" using Cons.prems(2) by (simp add: rconn_is_connected_def)
    ultimately obtain rc2 w2 where l: "tx_loop tr now rc' w' = Some (rc2, w2)" "rconn_inv now rc2" "same_or_dropped now rc' rc2"
      using Cons.hyps(1) [OF _ t(2)] by metis
    have "same_or_dropped now rc rc2"
      by (rule same_or_dropped_trans [OF t(3) s(2) _ _ l(3)])
        (use Cons.prems(2) in \<open>auto simp: rconn_is_connected_def is_connected_state_def\<close>)
    moreover have "tx_loop tr now rc w = Some (rc2, w2)"
      using t(1) True l(1) Cons.hyps(2) [symmetric] by (simp add: tx_loop.simps [of tr now rc])
    ultimately show ?thesis using l(2) by blast
  next
    case False
    with t Cons.hyps(2) [symmetric] show ?thesis by (simp add: tx_loop.simps [of tr now rc])
  qed
qed

lemma do_tx_work_ok:
  assumes "transport_ok tr" and "rconn_inv now rc" and "rconn_is_connected rc"
  obtains rc' w' where "do_tx_work tr now rc w = Some (rc', w')" "rconn_inv now rc'" "same_or_dropped now rc rc'"
proof (cases "txq rc = []")
  case True
  with assms(2) that show thesis by (simp add: do_tx_work_def)
next
  case False
  obtain rc' w' where "tx_loop tr now rc w = Some (rc', w')" "rconn_inv now rc'" "same_or_dropped now rc rc'"
    using tx_loop_ok [OF assms, of w] by blast
  with False that show thesis by (simp add: do_tx_work_def)
qed

lemma list_all_butlast_update:
  assumes "list_all P ms" and "i < length ms"
  shows "list_all P (butlast (ms[i := last ms]))"
proof -
  have "set (butlast (ms[i := last ms])) \<subseteq> insert (last ms) (set ms)"
    using set_update_subset_insert [of ms i "last ms"] by (auto dest: in_set_butlastD)
  moreover have "last ms \<in> set ms" using assms(2) by (intro last_in_set) auto
  ultimately show ?thesis using assms(1) by (auto simp: list_all_iff)
qed

lemma list_all_update: "list_all P ms \<Longrightarrow> P x \<Longrightarrow> list_all P (ms[i := x])"
  using set_update_subset_insert [of ms i x] by (auto simp: list_all_iff)

lemma copy_to_monitor_loop_ok:
  assumes tr: "transport_ok tr" and b: "msg_ok b"
  shows "list_all vconn_ok ms \<Longrightarrow>
    \<exists>ms' w'. copy_to_monitor_loop tr b i ms w = Some (ms', w') \<and> list_all vconn_ok ms' \<and> length ms' \<le> length ms"
proof (induction "length ms - i" arbitrary: i ms w rule: less_induct)
  case less
  show ?case
  proof (cases "i < length ms")
    case False
    with less.prems show ?thesis by (simp add: copy_to_monitor_loop.simps [of tr b i ms])
  next
    case True
    then have "vconn_ok (ms ! i)" using less.prems by (simp add: list_all_length)
    then obtain r vc w1 where s: "vconn_send tr (ms ! i) b w = Some (r, vc, w1)" "vconn_ok vc"
      using vconn_send_ok [OF tr] b by metis
    define ms1 where "ms1 = ms[i := vc]"
    have m1: "list_all vconn_ok ms1" "length ms1 = length ms"
      using less.prems s(2) by (simp_all add: ms1_def list_all_update)
    show ?thesis
    proof (cases "r \<noteq> 0 \<and> r \<noteq> EAGAIN")
      case bad: True
      define ms2 where "ms2 = butlast (ms1[i := last ms1])"
      have m2: "list_all vconn_ok ms2" "length ms2 = length ms - 1"
        using list_all_butlast_update [of vconn_ok ms1 i] m1 True by (simp_all add: ms2_def)
      have eq: "copy_to_monitor_loop tr b i ms w = copy_to_monitor_loop tr b i ms2 w1"
        using s(1) True bad by (simp add: copy_to_monitor_loop.simps [of tr b i ms] ms1_def ms2_def)
      have "length ms2 - i < length ms - i" using True m2(2) by linarith
      from less.hyps [OF this m2(1), of w1] m2(2) eq show ?thesis by (metis diff_le_self le_trans)
    next
      case good: False
      have eq: "copy_to_monitor_loop tr b i ms w = copy_to_monitor_loop tr b (i + 1) ms1 w1"
        using s(1) True good by (auto simp: copy_to_monitor_loop.simps [of tr b i ms] ms1_def)
      have "length ms1 - (i + 1) < length ms - i" using True m1(2) by linarith
      from less.hyps [OF this m1(1), of w1] m1(2) eq show ?thesis by metis
    qed
  qed
qed

lemma copy_to_monitor_ok:
  assumes "transport_ok tr" and "msg_ok b" and inv: "rconn_inv now rc"
  obtains ms w' where "copy_to_monitor tr b rc w = Some (rc\<lparr>monitors := ms\<rparr>, w')" "rconn_inv now (rc\<lparr>monitors := ms\<rparr>)"
proof -
  have m: "list_all vconn_ok (monitors rc)" "length (monitors rc) \<le> 8" using inv by (simp_all add: rconn_inv_def rconn_base_def)
  obtain ms w' where c: "copy_to_monitor_loop tr b 0 (monitors rc) w = Some (ms, w')" "list_all vconn_ok ms"
    "length ms \<le> length (monitors rc)" using copy_to_monitor_loop_ok [OF assms(1,2) m(1), of 0 w] by blast
  then have "rconn_inv now (rc\<lparr>monitors := ms\<rparr>)" using inv m(2) by (simp add: rconn_inv_def rconn_base_def rconn_linked_def)
  with c that show thesis by (simp add: copy_to_monitor_def)
qed

lemma rconn_send_ok:
  assumes tr: "transport_ok tr" and b: "msg_ok b" and inv: "rconn_inv now rc"
  obtains r rc' w' where "rconn_send tr now b counter rc w = Some (r, rc', w')" "rconn_inv now rc'" "same_or_dropped now rc rc'"
    "r = (if rconn_is_connected rc then 0 else ENOTCONN)"
proof (cases "rconn_is_connected rc")
  case False
  with inv that show thesis by (simp add: rconn_send_def)
next
  case True
  obtain ms w1 where c: "copy_to_monitor tr b rc w = Some (rc\<lparr>monitors := ms\<rparr>, w1)" "rconn_inv now (rc\<lparr>monitors := ms\<rparr>)"
    by (rule copy_to_monitor_ok [OF tr b inv])
  define rc1 where "rc1 = (count_up counter (rc\<lparr>monitors := ms\<rparr>))\<lparr>txq := txq rc @ [(b, counter)]\<rparr>"
  have i1: "rconn_inv now rc1" using c(2) b by (simp add: rc1_def rc_changes rconn_inv_def rconn_base_def rconn_linked_def)
  have s1: "same_or_dropped now rc rc1" "rc_state rc1 = rc_state rc" by (simp_all add: same_or_dropped_def rc1_def rc_changes)
  have con: "rconn_is_connected rc1" using True s1(2) by (simp add: rconn_is_connected_def)
  have q1: "txq rc1 = txq rc @ [(b, counter)]" by (simp add: rc1_def)
  show thesis
  proof (cases "txq rc")
    case Nil
    with q1 have "txq rc1 = (b, counter) # []" by simp
    then obtain r rc' w' where t: "try_send tr now rc1 w1 = Some (r, rc', w')" "rconn_inv now rc'" "same_or_dropped now rc1 rc'"
      by (rule try_send_ok [OF tr i1 con])
    have "rconn_send tr now b counter rc w = Some (0, rc', w')"
      using True c(1) t(1) Nil by (simp add: rconn_send_def rc1_def rc_changes)
    moreover have "same_or_dropped now rc rc'"
      by (rule same_or_dropped_trans [OF s1 _ _ t(3)]) (use True in \<open>auto simp: rconn_is_connected_def is_connected_state_def\<close>)
    ultimately show thesis using that True t(2) by simp
  next
    case (Cons p q)
    then have "rconn_send tr now b counter rc w = Some (0, rc1, w1)"
      using True c(1) by (simp add: rconn_send_def rc1_def rc_changes)
    with that True i1 s1 show thesis by simp
  qed
qed



section \<open>Timers\<close>

lemma uint_sat_add: "uint (sat_add x y) = min (uint x + uint y) 4294967295"
proof -
  have b: "uint x < 4294967296" "uint y < 4294967296" "0 \<le> uint x" "0 \<le> uint y"
    using unsigned_less [of x, where 'a = int] unsigned_less [of y, where 'a = int] by simp_all
  have s: "uint (x + y) = (uint x + uint y) mod 4294967296" by (simp add: uint_word_ariths)
  show ?thesis
  proof (cases "uint x + uint y < 4294967296")
    case True
    then have u: "uint (x + y) = uint x + uint y" using s b by (simp add: mod_pos_pos_trivial)
    then have "x \<le> x + y" using b by (simp add: word_le_def)
    with True u show ?thesis by (simp add: sat_add_def)
  next
    case False
    have "uint (x + y) = uint x + uint y - 4294967296"
      using s b False mod_pos_pos_trivial [of "uint x + uint y - 4294967296" 4294967296] by (simp flip: mod_diff_right_eq)
    then have "\<not> x \<le> x + y" using b by (simp add: word_le_def)
    with False show ?thesis by (simp add: sat_add_def)
  qed
qed

lemma uint_of_int_small: "0 \<le> i \<Longrightarrow> i < 4294967296 \<Longrightarrow> uint (of_int i :: u32) = i"
  by (simp add: word_of_int_inverse)

text \<open>A state that was entered just now has not timed out.\<close>

lemma fresh_not_timed_out_base:
  assumes inv: "rconn_base now rc" and fresh: "state_entered rc = now"
    and link: "rc_state rc = S_BACKOFF \<longrightarrow> 1 \<le> backoff rc" "rc_state rc = S_IDLE \<longrightarrow> probe_interval rc \<noteq> 0"
  shows "\<not> timed_out now rc"
proof -
  have now: "0 \<le> now" "now < 2147483648" "last_received rc \<le> now" using inv fresh by (auto simp: rconn_base_def)
  have "1 \<le> uint (timeout rc)"
  proof (cases "rc_state rc")
    case S_BACKOFF
    then show ?thesis using inv link
      by (simp add: timeout_defs rconn_base_def uint_of_int_small)
  next
    case S_CONNECTING
    have "uint (of_int (max 1 (backoff rc)) :: u32) = max 1 (backoff rc)"
      using inv by (intro uint_of_int_small) (auto simp: rconn_base_def)
    with S_CONNECTING show ?thesis by (simp add: timeout_defs)
  next
    case S_ACTIVE
    have "max (last_received rc) now = now" using now by simp
    with S_ACTIVE fresh inv show ?thesis
      by (auto simp: timeout_defs Let_def rconn_base_def uint_of_int_small)
  next
    case S_IDLE
    then show ?thesis using inv link
      by (auto simp: timeout_defs rconn_base_def uint_of_int_small)
  qed (simp add: timeout_defs)
  moreover have "uint (of_int now :: u32) = now" using now by (simp add: uint_of_int_small)
  ultimately show ?thesis using now by (simp add: timed_out_def uint_sat_add fresh)
qed

lemma fresh_not_timed_out: "rconn_inv now rc \<Longrightarrow> state_entered rc = now \<Longrightarrow> \<not> timed_out now rc"
  by (rule fresh_not_timed_out_base) (simp_all add: rconn_inv_def rconn_linked_def)

lemma active_timed_out_probe:
  assumes inv: "rconn_inv now rc" and "rc_state rc = S_ACTIVE" and "timed_out now rc"
  shows "probe_interval rc \<noteq> 0"
proof
  assume "probe_interval rc = 0"
  then have "uint (timeout rc) = 4294967295" using assms(2) by (simp add: timeout_defs)
  moreover have "0 \<le> uint (of_int (state_entered rc) :: u32)" by simp
  ultimately have "uint (sat_add (of_int (state_entered rc)) (timeout rc)) = 4294967295"
    unfolding uint_sat_add by linarith
  with assms(3) inv show False by (simp add: timed_out_def rconn_inv_def rconn_base_def)
qed


section \<open>Running\<close>

text \<open>The classes set up a new connection with \<open>vconn_init\<close>.\<close>

definition transport_opens :: "'w transport \<Rightarrow> bool" where
  "transport_opens tr \<longleftrightarrow> (\<forall>c n s w vc w'. t_open tr c n s w = (0, vc, w') \<longrightarrow>
    (\<exists>h status ip. vc = vconn_init h status ip n \<and> (status = EAGAIN \<longrightarrow> t_can_connect tr h)))"

lemma vconn_open_ok:
  assumes "transport_opens tr" and "0 \<le> min_version"
  obtains r v w' where "vconn_open tr name min_version w = Some (r, v, w')"
    "if r = 0 then \<exists>vc. v = Some vc \<and> vconn_ok vc else v = None"
proof (cases "find (\<lambda>class. class = name_prefix name) (t_classes tr)")
  case None
  with that show thesis by (simp add: vconn_open_def Let_def split: if_splits)
next
  case (Some c)
  let ?s = "drop (length (name_prefix name) + 1) name"
  obtain r vc w' where o: "t_open tr c name ?s w = (r, vc, w')" using prod_cases3 by blast
  show thesis
  proof (cases "length (name_prefix name) = length name \<or> r \<noteq> 0")
    case True
    define n where "n = (if length (name_prefix name) = length name then (EAFNOSUPPORT, w) else (r, w'))"
    have "vconn_open tr name min_version w = Some (fst n, None, snd n)" "fst n \<noteq> 0"
      using True Some o by (auto simp: vconn_open_def Let_def n_def)
    with that show thesis by auto
  next
    case False
    then obtain h status ip where v: "vc = vconn_init h status ip name" "status = EAGAIN \<longrightarrow> t_can_connect tr h"
      using assms(1) o unfolding transport_opens_def by metis
    then have "\<not> (v_state vc = VCS_CONNECTING \<and> \<not> t_can_connect tr (v_handle vc))"
      by (simp add: vconn_init_def)
    then have "vconn_open tr name min_version w = Some (0, Some (vc\<lparr>v_min_version := min_version\<rparr>), w')"
      using False Some o by (auto simp: vconn_open_def Let_def)
    moreover have "vconn_ok (vc\<lparr>v_min_version := min_version\<rparr>)" using v(1) assms(2) by (simp add: vconn_ok_def vconn_init_def)
    ultimately show thesis using that by simp
  qed
qed

lemma reconnect_ok:
  assumes op: "transport_opens tr" and base: "rconn_base now rc" and rel: "reliable rc"
    and st: "rc_state rc = S_VOID \<or> rc_state rc = S_BACKOFF"
  obtains r rc' w' where "reconnect tr now rc w = Some (r, rc', w')" "rconn_inv now rc'"
    "rc_state rc' = (if r = 0 then S_CONNECTING else S_BACKOFF)" "state_entered rc' = now"
proof -
  obtain r v w1 where o: "vconn_open tr (rc_name rc) (uint OFP_VERSION) w = Some (r, v, w1)"
    "if r = 0 then \<exists>vc. v = Some vc \<and> vconn_ok vc else v = None"
    by (rule vconn_open_ok [OF op, of "uint OFP_VERSION" "rc_name rc" w]) simp
  define rc1 where "rc1 = rc\<lparr>n_attempted_connections := n_attempted_connections rc + 1, rc_vconn := v\<rparr>"
  have base1: "rconn_base now rc1" using base o(2) by (auto simp: rc1_def rconn_base_def split: if_splits)
  show thesis
  proof (cases "r = 0")
    case True
    let ?rc = "state_transition now S_CONNECTING (rc1\<lparr>backoff_deadline := now + backoff rc1\<rparr>)"
    have "reconnect tr now rc w = Some (r, ?rc, w1)" using o(1) True by (simp add: reconnect_def rc1_def Let_def)
    moreover have "rconn_inv now ?rc" using base1 o(2) True rel
      by (auto simp: rc_changes rconn_inv_def rconn_base_def rconn_linked_def rc1_def)
    ultimately show thesis using that True by (simp add: rc_changes)
  next
    case False
    define rc2 where "rc2 = rc1\<lparr>backoff_deadline := TIME_MAX\<rparr>"
    obtain rc' w' where d: "disconnect tr now rc2 w1 = (rc', w')" by fastforce
    have b2: "rconn_base now rc2" using base1 by (simp add: rc2_def rconn_base_def)
    have l2: "rc_vconn rc2 = None \<or> rc_state rc2 \<noteq> S_VOID \<and> rc_state rc2 \<noteq> S_BACKOFF" and "reliable rc2"
      using o(2) False rel by (simp_all add: rc2_def rc1_def)
    note n = disconnect_inv [OF b2 l2, of rc' tr w1]
    have "reconnect tr now rc w = Some (r, rc', w')" using o(1) False d by (simp add: reconnect_def rc1_def rc2_def Let_def)
    with that n d \<open>reliable rc2\<close> False show thesis by simp
  qed
qed


text \<open>The probe that \<open>run_ACTIVE\<close> sends is lost when sending it drops the connection.\<close>

definition probe_lost :: "'w transport \<Rightarrow> int \<Rightarrow> rconn \<Rightarrow> 'w \<Rightarrow> bool" where
  "probe_lost tr now rc w \<longleftrightarrow> rc_state rc = S_ACTIVE \<and> timed_out now rc \<and>
    (case rconn_send tr now make_echo_request None rc w of Some (_, rc', _) \<Rightarrow> rc_vconn rc' = None | None \<Rightarrow> False)"

lemma echo_request_ok: "msg_ok make_echo_request"
  using get_u16_header [of OFP_VERSION OFPT_ECHO_REQUEST "htons 8" "bytes32 0"] by (simp add: msg_ok_def make_echo_request_def)

lemma run_CONNECTING_ok:
  assumes tr: "transport_ok tr" and inv: "rconn_inv now rc" and st: "rc_state rc = S_CONNECTING"
  obtains rc' w' where "run_CONNECTING tr now rc w = Some (rc', w')" "rconn_inv now rc'"
    "rc_state rc' = S_CONNECTING \<or> (rc_state rc' = S_ACTIVE \<or> rc_state rc' = S_BACKOFF) \<and> state_entered rc' = now"
proof -
  obtain vc where vc: "rc_vconn rc = Some vc" "vconn_ok vc" using inv st
    by (auto simp: rconn_inv_def rconn_linked_def rconn_base_def)
  obtain r vc' w1 where c: "vconn_connect tr vc w = Some (r, vc', w1)" "vconn_ok vc'"
    by (rule vconn_connect_ok [OF tr vc(2)])
  define rc1 where "rc1 = rc\<lparr>rc_vconn := Some vc'\<rparr>"
  have i1: "rconn_inv now rc1" unfolding rc1_def by (rule rconn_inv_vconn [OF inv _ _ c(2)]) (simp_all add: st)
  have s1: "rc_state rc1 = S_CONNECTING" "reliable rc1" using st inv
    by (simp_all add: rc1_def rconn_inv_def rconn_linked_def)
  have dis: "rconn_inv now (fst (disconnect tr now rc2 w1)) \<and> rc_state (fst (disconnect tr now rc2 w1)) = S_BACKOFF \<and>
      state_entered (fst (disconnect tr now rc2 w1)) = now"
    if "rc2 = rc1 \<or> rc2 = rc1\<lparr>backoff_deadline := TIME_MAX\<rparr>" for rc2
  proof -
    have "rconn_base now rc2" "rc_state rc2 = S_CONNECTING" "reliable rc2" using i1 s1 that
      by (auto simp: rconn_inv_def rconn_base_def)
    moreover from this have "rc_vconn rc2 = None \<or> rc_state rc2 \<noteq> S_VOID \<and> rc_state rc2 \<noteq> S_BACKOFF" by simp
    ultimately show ?thesis using disconnect_inv [OF _ _ refl, of now rc2 tr w1] by auto
  qed
  consider "r = 0" | "r \<noteq> 0" "r \<noteq> EAGAIN" | "r = EAGAIN" "timed_out now rc1" | "r = EAGAIN" "\<not> timed_out now rc1" by blast
  then show thesis
  proof cases
    case 1
    let ?rc = "(state_transition now S_ACTIVE (rc1\<lparr>n_successful_connections := n_successful_connections rc1 + 1\<rparr>))
      \<lparr>last_connected := now\<rparr>"
    have "run_CONNECTING tr now rc w = Some (?rc, w1)"
      using vc c(1) 1 by (simp add: run_CONNECTING_def rc1_def Let_def rc_changes)
    moreover have "rconn_inv now ?rc" using i1 by (auto simp: rc_changes rconn_inv_def rconn_base_def rconn_linked_def rc1_def)
    ultimately show thesis using that by (simp add: rc_changes)
  next
    case 2
    then have "run_CONNECTING tr now rc w = Some (disconnect tr now rc1 w1)"
      using vc c(1) by (simp add: run_CONNECTING_def rc1_def Let_def)
    with dis [of rc1] that show thesis by (cases "disconnect tr now rc1 w1") simp
  next
    case 3
    then have "run_CONNECTING tr now rc w = Some (disconnect tr now (rc1\<lparr>backoff_deadline := TIME_MAX\<rparr>) w1)"
      using vc c(1) by (simp add: run_CONNECTING_def rc1_def Let_def)
    with dis [of "rc1\<lparr>backoff_deadline := TIME_MAX\<rparr>"] that show thesis
      by (cases "disconnect tr now (rc1\<lparr>backoff_deadline := TIME_MAX\<rparr>) w1") simp
  next
    case 4
    then have "run_CONNECTING tr now rc w = Some (rc1, w1)"
      using vc c(1) by (simp add: run_CONNECTING_def rc1_def Let_def)
    with i1 s1 that show thesis by simp
  qed
qed

lemma run_ACTIVE_ok:
  assumes tr: "transport_ok tr" and inv: "rconn_inv now rc" and st: "rc_state rc = S_ACTIVE" and np: "\<not> probe_lost tr now rc w"
  obtains rc' w' where "run_ACTIVE tr now rc w = Some (rc', w')" "rconn_inv now rc'"
    "rc_state rc' = S_ACTIVE \<or> rc_state rc' \<noteq> S_CONNECTING \<and> state_entered rc' = now"
    "timed_out now rc \<or> rc_state rc' \<noteq> S_IDLE"
proof (cases "timed_out now rc")
  case True
  obtain r rc1 w1 where s: "rconn_send tr now make_echo_request None rc w = Some (r, rc1, w1)" "rconn_inv now rc1"
    "same_or_dropped now rc rc1" by (rule rconn_send_ok [OF tr echo_request_ok inv])
  have "rc_vconn rc1 \<noteq> None" using np True st s(1) by (auto simp: probe_lost_def)
  then have "rc_state rc1 \<noteq> S_VOID" "rc_state rc1 \<noteq> S_BACKOFF" using s(2) by (auto simp: rconn_inv_def rconn_linked_def)
  with s(3) have "probe_interval rc1 \<noteq> 0" using active_timed_out_probe [OF inv st True] by (auto simp: same_or_dropped_def)
  with s(2) \<open>rc_vconn rc1 \<noteq> None\<close> have "rconn_inv now (state_transition now S_IDLE rc1)"
    by (auto simp: rc_changes rconn_inv_def rconn_base_def rconn_linked_def)
  moreover have "run_ACTIVE tr now rc w = Some (state_transition now S_IDLE rc1, w1)" using s(1) True by (simp add: run_ACTIVE_def)
  ultimately show thesis using that True by (simp add: rc_changes)
next
  case False
  have "rconn_is_connected rc" using st by (simp add: rconn_is_connected_def is_connected_state_def)
  then obtain rc' w' where "do_tx_work tr now rc w = Some (rc', w')" "rconn_inv now rc'" "same_or_dropped now rc rc'"
    by (rule do_tx_work_ok [OF tr inv])
  with False st that show thesis by (auto simp: run_ACTIVE_def same_or_dropped_def)
qed

lemma run_IDLE_ok:
  assumes tr: "transport_ok tr" and inv: "rconn_inv now rc" and st: "rc_state rc = S_IDLE"
  obtains rc' w' where "run_IDLE tr now rc w = Some (rc', w')" "rconn_inv now rc'"
    "rc_state rc' = S_IDLE \<or> (rc_state rc' = S_BACKOFF \<or> rc_state rc' = S_VOID) \<and> state_entered rc' = now"
proof (cases "timed_out now rc")
  case True
  define rc1 where "rc1 = question_connectivity now rc"
  have "rconn_inv now rc1" using inv by (simp add: rc1_def rc_changes rconn_inv_def rconn_base_def rconn_linked_def)
  moreover have "rc_state rc1 = S_IDLE" using st by (simp add: rc1_def rc_changes)
  ultimately obtain rc' w' where "disconnect tr now rc1 w = (rc', w')" "rconn_inv now rc'" "same_or_dropped now rc1 rc'"
    using disconnect_connected [of now rc1] by (metis rconn_state.distinct(7,13))
  with True that \<open>rc_state rc1 = S_IDLE\<close> show thesis by (auto simp: run_IDLE_def rc1_def same_or_dropped_def)
next
  case False
  have "rconn_is_connected rc" using st by (simp add: rconn_is_connected_def is_connected_state_def)
  then obtain rc' w' where "do_tx_work tr now rc w = Some (rc', w')" "rconn_inv now rc'" "same_or_dropped now rc rc'"
    by (rule do_tx_work_ok [OF tr inv])
  with False st that show thesis by (auto simp: run_IDLE_def same_or_dropped_def)
qed


text \<open>How far a state entered just now may go on within the same call.\<close>

primrec run_rank :: "rconn_state \<Rightarrow> nat" where
  "run_rank S_VOID = 0"
| "run_rank S_BACKOFF = 0"
| "run_rank S_ACTIVE = 1"
| "run_rank S_IDLE = 1"
| "run_rank S_CONNECTING = 2"

lemma run_state_ok:
  assumes tr: "transport_ok tr" "transport_opens tr" and inv: "rconn_inv now rc" and np: "\<not> probe_lost tr now rc w"
  obtains rc' w' where "run_state tr now rc w = Some (rc', w')" "rconn_inv now rc'"
    "rc_state rc' = rc_state rc \<or> state_entered rc' = now"
    "state_entered rc = now \<longrightarrow> rc_state rc' = rc_state rc \<or> run_rank (rc_state rc') < run_rank (rc_state rc)"
proof (cases "rc_state rc")
  case S_VOID
  with inv that show thesis by (simp add: run_state_def run_VOID_def)
next
  case S_BACKOFF
  show thesis
  proof (cases "timed_out now rc")
    case True
    have "reliable rc" "rconn_base now rc" using inv S_BACKOFF by (auto simp: rconn_inv_def rconn_linked_def)
    with S_BACKOFF obtain r rc' w' where "reconnect tr now rc w = Some (r, rc', w')" "rconn_inv now rc'" "state_entered rc' = now"
      using reconnect_ok [OF tr(2)] by metis
    with True S_BACKOFF that fresh_not_timed_out [OF inv] show thesis by (auto simp: run_state_def run_BACKOFF_def)
  next
    case False
    with inv S_BACKOFF that show thesis by (simp add: run_state_def run_BACKOFF_def)
  qed
next
  case S_CONNECTING
  obtain rc' w' where "run_CONNECTING tr now rc w = Some (rc', w')" "rconn_inv now rc'"
    "rc_state rc' = S_CONNECTING \<or> (rc_state rc' = S_ACTIVE \<or> rc_state rc' = S_BACKOFF) \<and> state_entered rc' = now"
    by (rule run_CONNECTING_ok [OF tr(1) inv S_CONNECTING])
  with S_CONNECTING that show thesis by (auto simp: run_state_def)
next
  case S_ACTIVE
  obtain rc' w' where r: "run_ACTIVE tr now rc w = Some (rc', w')" "rconn_inv now rc'"
    "rc_state rc' = S_ACTIVE \<or> rc_state rc' \<noteq> S_CONNECTING \<and> state_entered rc' = now"
    "timed_out now rc \<or> rc_state rc' \<noteq> S_IDLE"
    by (rule run_ACTIVE_ok [OF tr(1) inv S_ACTIVE np])
  have "state_entered rc = now \<longrightarrow> rc_state rc' = S_ACTIVE \<or> run_rank (rc_state rc') < 1"
    using r(3,4) fresh_not_timed_out [OF inv] by (cases "rc_state rc'") auto
  with r S_ACTIVE that show thesis by (auto simp: run_state_def)
next
  case S_IDLE
  obtain rc' w' where "run_IDLE tr now rc w = Some (rc', w')" "rconn_inv now rc'"
    "rc_state rc' = S_IDLE \<or> (rc_state rc' = S_BACKOFF \<or> rc_state rc' = S_VOID) \<and> state_entered rc' = now"
    by (rule run_IDLE_ok [OF tr(1) inv S_IDLE])
  with S_IDLE that show thesis by (auto simp: run_state_def)
qed

lemma fresh_no_probe: "rconn_inv now rc \<Longrightarrow> state_entered rc = now \<Longrightarrow> \<not> probe_lost tr now rc w"
  using fresh_not_timed_out by (auto simp: probe_lost_def)

lemma rconn_run_fresh:
  assumes tr: "transport_ok tr" "transport_opens tr" and "rconn_inv now rc" and "state_entered rc = now"
  shows "\<exists>rc' w'. rconn_run tr now rc w = Some (rc', w') \<and> rconn_inv now rc'"
  using assms(3,4)
proof (induction "run_rank (rc_state rc)" arbitrary: rc w rule: less_induct)
  case less
  obtain rc1 w1 where s: "run_state tr now rc w = Some (rc1, w1)" "rconn_inv now rc1"
    "rc_state rc1 = rc_state rc \<or> state_entered rc1 = now"
    "state_entered rc = now \<longrightarrow> rc_state rc1 = rc_state rc \<or> run_rank (rc_state rc1) < run_rank (rc_state rc)"
    by (rule run_state_ok [OF tr less.prems(1) fresh_no_probe [OF less.prems]])
  show ?case
  proof (cases "rc_state rc1 = rc_state rc")
    case True
    with s show ?thesis by (simp add: rconn_run.simps [of tr now rc])
  next
    case False
    then have "run_rank (rc_state rc1) < run_rank (rc_state rc)" "state_entered rc1 = now" using s less.prems(2) by auto
    from less.hyps [OF this(1) s(2) this(2), of w1] False s(1) show ?thesis by (simp add: rconn_run.simps [of tr now rc])
  qed
qed

lemma rconn_run_ok:
  assumes tr: "transport_ok tr" "transport_opens tr" and inv: "rconn_inv now rc" and np: "\<not> probe_lost tr now rc w"
  obtains rc' w' where "rconn_run tr now rc w = Some (rc', w')" "rconn_inv now rc'"
proof -
  obtain rc1 w1 where s: "run_state tr now rc w = Some (rc1, w1)" "rconn_inv now rc1"
    "rc_state rc1 = rc_state rc \<or> state_entered rc1 = now" by (rule run_state_ok [OF tr inv np])
  show thesis
  proof (cases "rc_state rc1 = rc_state rc")
    case True
    with s that show thesis by (simp add: rconn_run.simps [of tr now rc])
  next
    case False
    then obtain rc' w' where "rconn_run tr now rc1 w1 = Some (rc', w')" "rconn_inv now rc'"
      using rconn_run_fresh [OF tr s(2), of w1] s(3) by blast
    with False s(1) that show thesis by (simp add: rconn_run.simps [of tr now rc])
  qed
qed

lemma rconn_recv_ok:
  assumes tr: "transport_ok tr" and inv: "rconn_inv now rc"
  obtains m rc' w' where "rconn_recv tr now rc w = Some (m, rc', w')" "rconn_inv now rc'"
proof (cases "rconn_is_connected rc")
  case False
  with inv that show thesis by (simp add: rconn_recv_def rconn_is_connected_def is_connected_state_def)
next
  case True
  then have st: "rc_state rc = S_ACTIVE \<or> rc_state rc = S_IDLE" by (simp add: rconn_is_connected_def is_connected_state_def)
  obtain vc where vc: "rc_vconn rc = Some vc" "vconn_ok vc" and st': "rc_state rc \<noteq> S_VOID" "rc_state rc \<noteq> S_BACKOFF"
    by (rule rconn_inv_connected [OF inv True])
  obtain r msg vc' w1 where v: "vconn_recv tr vc w = Some (r, msg, vc', w1)" "vconn_ok vc'" "r = 0 \<longrightarrow> msg_ok msg"
    using vconn_recv_ok [OF tr vc(2)] by metis
  define rc1 where "rc1 = rc\<lparr>rc_vconn := Some vc'\<rparr>"
  have i1: "rconn_inv now rc1" unfolding rc1_def by (rule rconn_inv_vconn [OF inv st' v(2)])
  have s1: "rc_state rc1 \<noteq> S_VOID" "rc_state rc1 \<noteq> S_BACKOFF" using st' by (simp_all add: rc1_def)
  consider "r = 0" | "r = EAGAIN" | "r \<noteq> 0" "r \<noteq> EAGAIN" by blast
  then show thesis
  proof cases
    case 1
    obtain ms w2 where c: "copy_to_monitor tr msg rc1 w1 = Some (rc1\<lparr>monitors := ms\<rparr>, w2)" "rconn_inv now (rc1\<lparr>monitors := ms\<rparr>)"
      using copy_to_monitor_ok [OF tr _ i1] v(3) 1 by metis
    define rc2 where "rc2 = rc1\<lparr>monitors := ms\<rparr>"
    define rc3 where "rc3 = (if is_admitted_msg msg \<or> now - last_connected rc2 \<ge> 30
                       then rc2\<lparr>probably_admitted := True, last_admitted := now\<rparr> else rc2)"
    define rc4 where "rc4 = rc3\<lparr>last_received := now, packets_received := packets_received rc3 + 1\<rparr>"
    define rc5 where "rc5 = (if rc_state rc4 = S_IDLE then state_transition now S_ACTIVE rc4 else rc4)"
    have "rconn_recv tr now rc w = Some (Some msg, rc5, w2)"
      using st vc(1) v(1) 1 c(1) unfolding rconn_recv_def rc5_def rc4_def rc3_def rc2_def rc1_def by auto
    moreover have "rconn_inv now rc4" using c(2)
      by (auto simp: rc4_def rc3_def rc2_def rconn_inv_def rconn_base_def rconn_linked_def)
    then have "rconn_inv now rc5" unfolding rc5_def
      by (auto simp: rc_changes rconn_inv_def rconn_base_def rconn_linked_def)
    ultimately show thesis using that by blast
  next
    case 2
    then have "rconn_recv tr now rc w = Some (None, rc1, w1)" using st vc(1) v(1) by (auto simp: rconn_recv_def rc1_def)
    with i1 that show thesis by blast
  next
    case 3
    obtain rc2 w2 where d: "disconnect tr now rc1 w1 = (rc2, w2)" "rconn_inv now rc2"
      by (rule disconnect_connected [OF i1 s1])
    then have "rconn_recv tr now rc w = Some (None, rc2, w2)" using st vc(1) v(1) 3 by (auto simp: rconn_recv_def rc1_def)
    with d that show thesis by blast
  qed
qed

lemma rconn_connect_ok:
  assumes op: "transport_opens tr" and inv: "rconn_inv now rc"
  obtains r rc' w' where "rconn_connect tr now name rc w = Some (r, rc', w')" "rconn_inv now rc'"
proof -
  define rc1 where "rc1 = fst (rconn_disconnect tr now rc w)"
  have b: "rconn_base now (rc1\<lparr>rc_name := name, reliable := True\<rparr>)" "rc_state rc1 = S_VOID"
    using inv by (auto simp: rc1_def rconn_disconnect_eq rc_changes rconn_inv_def rconn_base_def)
  obtain r rc' w' where "reconnect tr now (rc1\<lparr>rc_name := name, reliable := True\<rparr>) (snd (rconn_disconnect tr now rc w))
      = Some (r, rc', w')" "rconn_inv now rc'"
    by (rule reconnect_ok [OF op b(1), where w = "snd (rconn_disconnect tr now rc w)"]) (use b(2) in auto)
  with that show thesis by (simp add: rconn_connect_def rc1_def split_def Let_def)
qed

lemma rconn_connect_unreliably_ok:
  assumes inv: "rconn_inv now rc" and vc: "vconn_ok vc"
  obtains rc' w' where "rconn_connect_unreliably tr now name (Some vc) rc w = Some (rc', w')" "rconn_inv now rc'"
proof -
  define rc1 where "rc1 = fst (rconn_disconnect tr now rc w)"
  have "rconn_inv now (state_transition now S_ACTIVE
      (rc1\<lparr>rc_name := name, reliable := False, rc_vconn := Some vc, last_connected := now\<rparr>))"
    using inv vc by (auto simp: rc1_def rconn_disconnect_eq rc_changes rconn_inv_def rconn_base_def rconn_linked_def)
  with that show thesis by (simp add: rconn_connect_unreliably_def rc1_def split_def Let_def)
qed



section \<open>A lost probe\<close>

lemma probe_lost_result:
  assumes tr: "transport_ok tr" and inv: "rconn_inv now rc" and lost: "probe_lost tr now rc w"
  obtains e rc1 w1 where "rconn_send tr now make_echo_request None rc w = Some (e, rc1, w1)"
    "txq rc1 = (if reliable rc then [] else [(make_echo_request, None)])" "rc_vconn rc1 = None"
    "rconn_base now rc1" "probe_interval rc1 = probe_interval rc"
proof -
  have st: "rc_state rc = S_ACTIVE" using lost by (simp add: probe_lost_def)
  then have con: "rconn_is_connected rc" by (simp add: rconn_is_connected_def is_connected_state_def)
  obtain vc where vc: "rc_vconn rc = Some vc" "vconn_ok vc" by (rule rconn_inv_connected [OF inv con])
  obtain ms w1 where c: "copy_to_monitor tr make_echo_request rc w = Some (rc\<lparr>monitors := ms\<rparr>, w1)"
    "rconn_inv now (rc\<lparr>monitors := ms\<rparr>)" by (rule copy_to_monitor_ok [OF tr echo_request_ok inv])
  define rc1 where "rc1 = rc\<lparr>monitors := ms, txq := txq rc @ [(make_echo_request, None)]\<rparr>"
  have q: "txq rc = []"
  proof (rule ccontr)
    assume "txq rc \<noteq> []"
    then have "rconn_send tr now make_echo_request None rc w = Some (0, rc1, w1)"
      using con c(1) by (simp add: rconn_send_def rc1_def count_up_def)
    with lost vc show False by (simp add: probe_lost_def rc1_def)
  qed
  obtain r vc' w2 where v: "vconn_send tr vc make_echo_request w1 = Some (r, vc', w2)" "vconn_ok vc'"
    by (rule vconn_send_ok [OF tr vc(2) echo_request_ok])
  define rc2 where "rc2 = rc1\<lparr>rc_vconn := Some vc'\<rparr>"
  have send: "rconn_send tr now make_echo_request None rc w =
      (case try_send tr now rc1 w1 of None \<Rightarrow> None | Some (_, rc', w') \<Rightarrow> Some (0, rc', w'))"
    using con c(1) q by (auto simp: rconn_send_def rc1_def count_up_def split: option.split)
  have "r \<noteq> 0 \<and> r \<noteq> EAGAIN"
  proof (rule ccontr)
    assume "\<not> (r \<noteq> 0 \<and> r \<noteq> EAGAIN)"
    then obtain rc' where "try_send tr now rc1 w1 = Some (r, rc', w2)" "rc_vconn rc' = Some vc'"
      using v(1) vc(1) q by (auto simp: try_send_def rc1_def count_down_def)
    with lost send show False by (simp add: probe_lost_def)
  qed
  then have t: "try_send tr now rc1 w1 = Some (r, fst (disconnect tr now rc2 w2), snd (disconnect tr now rc2 w2))"
    using v(1) vc(1) q by (simp add: try_send_def rc1_def rc2_def split_def)
  have i2: "rconn_inv now rc2" using c(2) v(2) st echo_request_ok q
    by (simp add: rc2_def rc1_def rconn_inv_def rconn_base_def rconn_linked_def)
  have f2: "rc_state rc2 = S_ACTIVE" "reliable rc2 = reliable rc" "txq rc2 = [(make_echo_request, None)]"
    "probe_interval rc2 = probe_interval rc" using st q by (simp_all add: rc2_def rc1_def)
  define rc3 where "rc3 = fst (disconnect tr now rc2 w2)"
  have "rconn_base now rc3" "rc_vconn rc3 = None"
    using disconnect_inv [of now rc2 rc3 tr w2] i2 f2 by (simp_all add: rc3_def rconn_inv_def)
  moreover have "txq rc3 = (if reliable rc then [] else [(make_echo_request, None)]) \<and> probe_interval rc3 = probe_interval rc"
  proof (cases "reliable rc")
    case True
    then have "reliable rc2" using f2 by simp
    obtain b d q l where "rc3 = (state_transition now S_BACKOFF
        ((if rc_state rc2 = S_VOID \<or> rc_state rc2 = S_BACKOFF then rc2 else flush_loop (rc2\<lparr>rc_vconn := None\<rparr>))
         \<lparr>backoff := b, backoff_deadline := d\<rparr>))\<lparr>questionable_connectivity := q, last_questioned := l\<rparr>"
      unfolding rc3_def by (rule disconnect_reliable [OF \<open>reliable rc2\<close>])
    with f2 True show ?thesis by (simp add: rc_changes)
  next
    case False
    with f2 show ?thesis by (simp add: rc3_def disconnect_unreliable rconn_disconnect_eq rc_changes)
  qed
  moreover have "rconn_send tr now make_echo_request None rc w = Some (0, rc3, snd (disconnect tr now rc2 w2))"
    using send t by (simp add: rc3_def)
  ultimately show thesis using that by blast
qed

text \<open>
  C21. A probe that cannot be sent brings the connection into a state with no connection behind it:
  when an idle peer is probed and sending the probe drops the connection, a reliable connection is left
  in the idle state with a null pointer for its virtual connection, which the next attempt to receive a
  message follows; an unreliable one follows it at once, because its queue still holds the probe.
\<close>

theorem rconn_lost_probe_crashes:
  assumes "transport_ok tr" and "rconn_inv now rc" and "probe_lost tr now rc w"
  shows "if reliable rc
    then \<exists>rc' w'. rconn_run tr now rc w = Some (rc', w') \<and> rc_state rc' = S_IDLE \<and> rc_vconn rc' = None \<and>
      (\<forall>now' w. rconn_recv tr now' rc' w = None)
    else rconn_run tr now rc w = None"
proof -
  have st: "rc_state rc = S_ACTIVE" "timed_out now rc" using assms(3) by (simp_all add: probe_lost_def)
  obtain e rc1 w1 where s: "rconn_send tr now make_echo_request None rc w = Some (e, rc1, w1)"
    "txq rc1 = (if reliable rc then [] else [(make_echo_request, None)])" "rc_vconn rc1 = None"
    "rconn_base now rc1" "probe_interval rc1 = probe_interval rc"
    by (rule probe_lost_result [OF assms])
  define rc2 where "rc2 = state_transition now S_IDLE rc1"
  have f: "rc_state rc2 = S_IDLE" "rc_vconn rc2 = None" "txq rc2 = txq rc1" using s(3) by (simp_all add: rc2_def rc_changes)
  have "rconn_base now rc2" "probe_interval rc2 \<noteq> 0" "state_entered rc2 = now"
    using s(4,5) active_timed_out_probe [OF assms(2) st] by (auto simp: rc2_def rc_changes rconn_base_def)
  then have nt: "\<not> timed_out now rc2" using fresh_not_timed_out_base f(1) by simp
  have run: "rconn_run tr now rc w = rconn_run tr now rc2 w1"
    using st s(1) f(1) by (simp add: rconn_run.simps [of tr now rc] run_state_def run_ACTIVE_def rc2_def [symmetric])
  show ?thesis
  proof (cases "reliable rc")
    case True
    then have "rconn_run tr now rc2 w1 = Some (rc2, w1)"
      using f nt s(2) by (simp add: rconn_run.simps [of tr now rc2] run_state_def run_IDLE_def do_tx_work_def)
    moreover have "rconn_recv tr now' rc2 w' = None" for now' w' using f by (simp add: rconn_recv_def)
    ultimately show ?thesis using True run f by simp
  next
    case False
    then have "try_send tr now rc2 w1 = None" "txq rc2 \<noteq> []" using f s(2) by (simp_all add: try_send_def)
    then have "rconn_run tr now rc2 w1 = None"
      using f nt by (simp add: rconn_run.simps [of tr now rc2] run_state_def run_IDLE_def do_tx_work_def tx_loop.simps [of tr now rc2])
    with False run show ?thesis by simp
  qed
qed



section \<open>Counters\<close>

text \<open>What a client's counter shows beyond the packets of the queue that point to it; no operation changes it.\<close>

definition excess :: "rconn \<Rightarrow> nat \<Rightarrow> int" where
  "excess rc c = n_queued rc c - queued c (txq rc)"

lemma disconnect_excess: "excess (fst (disconnect tr now rc w)) = excess rc"
proof (cases "reliable rc")
  case True
  obtain b d q l where "fst (disconnect tr now rc w) = (state_transition now S_BACKOFF
      ((if rc_state rc = S_VOID \<or> rc_state rc = S_BACKOFF then rc else flush_loop (rc\<lparr>rc_vconn := None\<rparr>))
       \<lparr>backoff := b, backoff_deadline := d\<rparr>))\<lparr>questionable_connectivity := q, last_questioned := l\<rparr>"
    by (rule disconnect_reliable [OF True])
  then show ?thesis by (simp add: rc_changes excess_def fun_eq_iff)
next
  case False
  then show ?thesis by (simp add: disconnect_unreliable rconn_disconnect_eq rc_changes excess_def fun_eq_iff)
qed

lemma rconn_disconnect_excess: "excess (fst (rconn_disconnect tr now rc w)) = excess rc"
  by (simp add: rconn_disconnect_eq rc_changes excess_def fun_eq_iff)

lemma excess_simps [simp]:
  "excess (rc\<lparr>rc_vconn := v\<rparr>) = excess rc" "excess (rc\<lparr>monitors := ms\<rparr>) = excess rc"
  "excess (rc\<lparr>backoff_deadline := d\<rparr>) = excess rc" "excess (state_transition now st rc) = excess rc"
  "excess (rc\<lparr>n_attempted_connections := n\<rparr>) = excess rc" "excess (rc\<lparr>n_successful_connections := n\<rparr>) = excess rc"
  "excess (question_connectivity now rc) = excess rc" "excess (rc\<lparr>rc_name := nm\<rparr>) = excess rc"
  "excess (rc\<lparr>reliable := r\<rparr>) = excess rc" "excess (rc\<lparr>last_connected := t\<rparr>) = excess rc"
  "excess (rc\<lparr>last_received := t\<rparr>) = excess rc" "excess (rc\<lparr>packets_received := u\<rparr>) = excess rc"
  "excess (rc\<lparr>probably_admitted := r\<rparr>) = excess rc" "excess (rc\<lparr>last_admitted := t\<rparr>) = excess rc"
  "excess (rc\<lparr>questionable_connectivity := r\<rparr>) = excess rc"
  by (simp_all add: excess_def fun_eq_iff rc_changes)

lemma try_send_excess: "try_send tr now rc w = Some (r, rc', w') \<Longrightarrow> excess rc' = excess rc"
proof -
  assume s: "try_send tr now rc w = Some (r, rc', w')"
  then obtain b c bs vc where q: "txq rc = (b, c) # bs" "rc_vconn rc = Some vc"
    by (auto simp: try_send_def split: list.splits option.splits)
  then obtain r1 vc1 w1 where v: "vconn_send tr vc b w = Some (r1, vc1, w1)"
    using s by (auto simp: try_send_def split: bind_splits)
  consider "r1 = 0" | "r1 = EAGAIN" | "r1 \<noteq> 0" "r1 \<noteq> EAGAIN" by blast
  then show ?thesis
  proof cases
    case 1
    with s q v have "rc' = (count_down c (rc\<lparr>rc_vconn := Some vc1, packets_sent := packets_sent rc + 1\<rparr>))\<lparr>txq := bs\<rparr>"
      by (simp add: try_send_def)
    with q show ?thesis by (simp add: excess_def fun_eq_iff rc_changes)
  next
    case 2
    with s q v have "rc' = rc\<lparr>rc_vconn := Some vc1\<rparr>" by (simp add: try_send_def)
    then show ?thesis by simp
  next
    case 3
    with s q v have "rc' = fst (disconnect tr now (rc\<lparr>rc_vconn := Some vc1\<rparr>) w1)" by (auto simp: try_send_def split_def)
    then show ?thesis by (simp add: disconnect_excess)
  qed
qed

lemma copy_to_monitor_excess: "copy_to_monitor tr b rc w = Some (rc', w') \<Longrightarrow> excess rc' = excess rc"
  by (auto simp: copy_to_monitor_def split: bind_splits)

lemma rconn_send_excess: "rconn_send tr now b c rc w = Some (r, rc', w') \<Longrightarrow> excess rc' = excess rc"
proof -
  assume s: "rconn_send tr now b c rc w = Some (r, rc', w')"
  show ?thesis
  proof (cases "rconn_is_connected rc")
    case True
    with s obtain rc1 w1 where c: "copy_to_monitor tr b rc w = Some (rc1, w1)"
      by (auto simp: rconn_send_def split: bind_splits)
    define rc2 where "rc2 = (count_up c rc1)\<lparr>txq := txq rc1 @ [(b, c)]\<rparr>"
    have "excess rc2 = excess rc1" by (auto simp: rc2_def excess_def fun_eq_iff rc_changes)
    then have e: "excess rc2 = excess rc" using copy_to_monitor_excess [OF c] by simp
    show ?thesis
    proof (cases "txq rc1 = []")
      case emp: True
      with s True c obtain r1 where "try_send tr now rc2 w1 = Some (r1, rc', w')"
        by (auto simp: rconn_send_def rc2_def rc_changes split: bind_splits)
      with try_send_excess e show ?thesis by metis
    next
      case False
      with s True c have "rc' = rc2" by (simp add: rconn_send_def rc2_def rc_changes)
      with e show ?thesis by simp
    qed
  next
    case False
    with s show ?thesis by (simp add: rconn_send_def)
  qed
qed

lemma tx_loop_excess:
  assumes "tx_loop tr now rc w = Some y"
  shows "excess (fst y) = excess rc"
proof (rule tx_loop.raw_induct [where P = "\<lambda>tr now rc w y. excess (fst y) = excess rc", OF _ assms])
  fix loop and tr :: "'a transport" and now and rc :: rconn and w y
  assume IH: "\<And>tr now rc w y. loop tr now rc w = Some y \<Longrightarrow> excess (fst y) = excess rc"
    and eq: "(if txq rc = [] then Some (rc, w) else Option.bind (try_send tr now rc w) (\<lambda>r.
      if fst r \<noteq> 0 then Some (snd r) else loop tr now (fst (snd r)) (snd (snd r)))) = Some y"
  show "excess (fst y) = excess rc"
  proof (cases "txq rc = []")
    case True
    with eq show ?thesis by auto
  next
    case False
    with eq obtain r rc1 w1 where t: "try_send tr now rc w = Some (r, rc1, w1)" by (auto split: bind_splits)
    then have "excess rc1 = excess rc" by (rule try_send_excess)
    with IH eq False t show ?thesis by (cases "r = 0") auto
  qed
qed

lemma do_tx_work_excess: "do_tx_work tr now rc w = Some (rc', w') \<Longrightarrow> excess rc' = excess rc"
  by (auto simp: do_tx_work_def split: if_splits bind_splits dest: tx_loop_excess)

lemma reconnect_excess: "reconnect tr now rc w = Some (r, rc', w') \<Longrightarrow> excess rc' = excess rc"
proof -
  assume s: "reconnect tr now rc w = Some (r, rc', w')"
  then obtain r1 v w1 where o: "vconn_open tr (rc_name rc) (uint OFP_VERSION) w = Some (r1, v, w1)"
    by (auto simp: reconnect_def split: bind_splits)
  define rc1 where "rc1 = rc\<lparr>n_attempted_connections := n_attempted_connections rc + 1, rc_vconn := v\<rparr>"
  have "excess rc1 = excess rc" by (simp add: rc1_def)
  moreover have "rc' = state_transition now S_CONNECTING (rc1\<lparr>backoff_deadline := now + backoff rc1\<rparr>) \<or>
      rc' = fst (disconnect tr now (rc1\<lparr>backoff_deadline := TIME_MAX\<rparr>) w1)"
    using s o by (auto simp: reconnect_def rc1_def Let_def split_def split: if_splits)
  ultimately show ?thesis by (auto simp: disconnect_excess)
qed

lemma run_state_excess: "run_state tr now rc w = Some (rc', w') \<Longrightarrow> excess rc' = excess rc"
proof (cases "rc_state rc")
  case S_BACKOFF
  assume "run_state tr now rc w = Some (rc', w')"
  with S_BACKOFF show ?thesis
    by (auto simp: run_state_def run_BACKOFF_def split: if_splits bind_splits dest: reconnect_excess)
next
  case S_CONNECTING
  assume s: "run_state tr now rc w = Some (rc', w')"
  then obtain vc r vc1 w1 where v: "rc_vconn rc = Some vc" "vconn_connect tr vc w = Some (r, vc1, w1)"
    using S_CONNECTING by (auto simp: run_state_def run_CONNECTING_def split: option.splits bind_splits)
  define rc1 where "rc1 = rc\<lparr>rc_vconn := Some vc1\<rparr>"
  have "rc' = (state_transition now S_ACTIVE (rc1\<lparr>n_successful_connections := n_successful_connections rc1 + 1\<rparr>))\<lparr>last_connected := now\<rparr> \<or>
      rc' = fst (disconnect tr now rc1 w1) \<or> rc' = fst (disconnect tr now (rc1\<lparr>backoff_deadline := TIME_MAX\<rparr>) w1) \<or> rc' = rc1"
    using s S_CONNECTING v by (auto simp: run_state_def run_CONNECTING_def rc1_def Let_def rc_changes split: if_splits)
  moreover have "excess rc1 = excess rc" by (simp add: rc1_def)
  ultimately show ?thesis by (auto simp: disconnect_excess)
next
  case S_ACTIVE
  assume "run_state tr now rc w = Some (rc', w')"
  with S_ACTIVE show ?thesis
    by (auto simp: run_state_def run_ACTIVE_def split: if_splits bind_splits dest: rconn_send_excess do_tx_work_excess)
next
  case S_IDLE
  assume "run_state tr now rc w = Some (rc', w')"
  with S_IDLE disconnect_excess [of tr now "question_connectivity now rc" w] show ?thesis
    by (auto simp: run_state_def run_IDLE_def split: if_splits dest: do_tx_work_excess)
qed (simp add: run_state_def run_VOID_def)

lemma rconn_run_excess:
  assumes "rconn_run tr now rc w = Some y"
  shows "excess (fst y) = excess rc"
proof (rule rconn_run.raw_induct [where P = "\<lambda>tr now rc w y. excess (fst y) = excess rc", OF _ assms])
  fix loop and tr :: "'a transport" and now and rc :: rconn and w y
  assume IH: "\<And>tr now rc w y. loop tr now rc w = Some y \<Longrightarrow> excess (fst y) = excess rc"
    and eq: "Option.bind (run_state tr now rc w) (\<lambda>r.
      if rc_state (fst r) \<noteq> rc_state rc then loop tr now (fst r) (snd r) else Some r) = Some y"
  then obtain rc1 w1 where s: "run_state tr now rc w = Some (rc1, w1)" by (auto split: bind_splits)
  then have "excess rc1 = excess rc" by (rule run_state_excess)
  with IH eq s show "excess (fst y) = excess rc" by (auto split: if_splits)
qed

lemma rconn_recv_excess: "rconn_recv tr now rc w = Some (m, rc', w') \<Longrightarrow> excess rc' = excess rc"
proof -
  assume s: "rconn_recv tr now rc w = Some (m, rc', w')"
  show ?thesis
  proof (cases "rc_state rc = S_ACTIVE \<or> rc_state rc = S_IDLE")
    case True
    with s obtain vc r msg vc1 w1 where v: "rc_vconn rc = Some vc" "vconn_recv tr vc w = Some (r, msg, vc1, w1)"
      by (auto simp: rconn_recv_def split: option.splits bind_splits)
    show ?thesis
    proof (cases "r = 0")
      case ok: True
      with s True v obtain rc1 w2 where c: "copy_to_monitor tr msg (rc\<lparr>rc_vconn := Some vc1\<rparr>) w1 = Some (rc1, w2)"
        by (auto simp: rconn_recv_def split: bind_splits)
      have "excess rc1 = excess rc" using copy_to_monitor_excess [OF c] by simp
      with s True v ok c show ?thesis by (auto simp: rconn_recv_def Let_def split: if_splits)
    next
      case False
      with s True v have "rc' = rc\<lparr>rc_vconn := Some vc1\<rparr> \<or> rc' = fst (disconnect tr now (rc\<lparr>rc_vconn := Some vc1\<rparr>) w1)"
        by (auto simp: rconn_recv_def split_def Let_def split: if_splits)
      then show ?thesis by (auto simp: disconnect_excess)
    qed
  next
    case False
    with s show ?thesis by (auto simp: rconn_recv_def)
  qed
qed



section \<open>Reachable connections\<close>

text \<open>
  The calls of a client at time \<open>now\<close>.  A message has a header that gives its length, a connection that is
  handed over has a least version; \<open>rconn_run\<close> does not lose a probe.
\<close>

inductive rconn_call :: "'w transport \<Rightarrow> int \<Rightarrow> rconn \<Rightarrow> rconn \<Rightarrow> bool" for tr now where
  call_run: "\<not> probe_lost tr now rc w \<Longrightarrow> rconn_run tr now rc w = Some (rc', w') \<Longrightarrow> rconn_call tr now rc rc'"
| call_send: "msg_ok b \<Longrightarrow> rconn_send tr now b c rc w = Some (r, rc', w') \<Longrightarrow> rconn_call tr now rc rc'"
| call_send_with_limit: "msg_ok b \<Longrightarrow> rconn_send_with_limit tr now b c lim rc w = Some (r, rc', w') \<Longrightarrow> rconn_call tr now rc rc'"
| call_recv: "rconn_recv tr now rc w = Some (m, rc', w') \<Longrightarrow> rconn_call tr now rc rc'"
| call_connect: "rconn_connect tr now name rc w = Some (r, rc', w') \<Longrightarrow> rconn_call tr now rc rc'"
| call_connect_unreliably: "vconn_ok vc \<Longrightarrow> rconn_connect_unreliably tr now name (Some vc) rc w = Some (rc', w') \<Longrightarrow>
    rconn_call tr now rc rc'"
| call_disconnect: "rconn_call tr now rc (fst (rconn_disconnect tr now rc w))"
| call_add_monitor: "vconn_ok vc \<Longrightarrow> rconn_call tr now rc (fst (rconn_add_monitor tr vc rc w))"
| call_questionable: "rconn_call tr now rc (snd (rconn_is_connectivity_questionable rc))"

inductive rconn_reachable :: "'w transport \<Rightarrow> int \<Rightarrow> rconn \<Rightarrow> bool" for tr where
  rconn_start: "0 \<le> now \<Longrightarrow> now < 2147483648 \<Longrightarrow> 0 \<le> probe \<Longrightarrow> probe < 1073741824 \<Longrightarrow> 0 \<le> max_bo \<Longrightarrow>
    max_bo < 1073741824 \<Longrightarrow> rconn_reachable tr now (rconn_create now probe max_bo (\<lambda>_. 0))"
| rconn_next: "rconn_reachable tr now rc \<Longrightarrow> now \<le> now' \<Longrightarrow> now' < 2147483648 \<Longrightarrow> rconn_call tr now' rc rc' \<Longrightarrow>
    rconn_reachable tr now' rc'"

lemma rconn_call_inv:
  assumes "rconn_call tr now rc rc'" and tr: "transport_ok tr" "transport_opens tr" and inv: "rconn_inv now rc"
  shows "rconn_inv now rc'"
  using assms(1)
proof cases
  case (call_run w w')
  then show ?thesis using rconn_run_ok [OF tr inv call_run(1)] by auto
next
  case (call_send b c w r w')
  then show ?thesis using rconn_send_ok [OF tr(1) call_send(1) inv, of c w] by auto
next
  case (call_send_with_limit b c lim w r w')
  then show ?thesis using rconn_send_ok [OF tr(1) call_send_with_limit(1) inv, of "Some c" w] inv
    by (auto simp: rconn_send_with_limit_def split: if_splits)
next
  case (call_recv w m w')
  then show ?thesis using rconn_recv_ok [OF tr(1) inv, of w] by auto
next
  case (call_connect name w r w')
  then show ?thesis using rconn_connect_ok [OF tr(2) inv, of name w] by auto
next
  case (call_connect_unreliably vc name w w')
  then show ?thesis using rconn_connect_unreliably_ok [OF inv call_connect_unreliably(1), of tr name w] by auto
next
  case (call_disconnect w)
  then show ?thesis using inv by (auto simp: rconn_disconnect_eq rc_changes rconn_inv_def rconn_base_def rconn_linked_def)
next
  case (call_add_monitor vc w)
  then show ?thesis using inv by (auto simp: rconn_add_monitor_def rconn_inv_def rconn_base_def rconn_linked_def)
next
  case call_questionable
  then show ?thesis using inv
    by (simp add: rconn_is_connectivity_questionable_def rconn_inv_def rconn_base_def rconn_linked_def)
qed

lemma rconn_call_excess: "rconn_call tr now rc rc' \<Longrightarrow> excess rc' = excess rc"
proof (induction rule: rconn_call.induct)
  case (call_run rc w rc' w')
  then show ?case by (metis rconn_run_excess fst_conv)
next
  case (call_connect name rc w r rc' w')
  then show ?case using rconn_disconnect_excess [of tr now rc w]
    by (auto simp: rconn_connect_def split_def Let_def dest: reconnect_excess)
next
  case (call_connect_unreliably vc name rc w rc' w')
  then show ?case using rconn_disconnect_excess [of tr now rc w]
    by (auto simp: rconn_connect_unreliably_def split_def Let_def)
qed (auto simp: rconn_send_with_limit_def rconn_add_monitor_def rconn_is_connectivity_questionable_def rconn_disconnect_excess
      split: if_splits dest: rconn_send_excess rconn_recv_excess)

lemma rconn_reachable_inv:
  assumes "rconn_reachable tr now rc" and "transport_ok tr" "transport_opens tr"
  shows "rconn_inv now rc \<and> excess rc = (\<lambda>_. 0)"
  using assms(1)
proof induction
  case (rconn_start now probe max_bo)
  then have "rconn_inv now (rconn_create now probe max_bo (\<lambda>_. 0))" by (intro rconn_create_inv)
  then show ?case by (simp add: excess_def rconn_create_def)
next
  case (rconn_next now rc now' rc')
  then have "rconn_inv now' rc" using rconn_inv_mono by blast
  with rconn_next rconn_call_inv [OF _ assms(2,3)] rconn_call_excess show ?case by metis
qed

text \<open>
  C20. A reliable connection is safe as long as no probe is lost: whatever a client has done, the
  connection exists exactly in the states that use it, each counter of a client is the number of its
  packets in the queue, and every further operation returns, \<open>rconn_run\<close> too, whose loop over the
  states ends.
\<close>

theorem rconn_safe:
  assumes "transport_ok tr" and "transport_opens tr" and "rconn_reachable tr now rc" and "now \<le> now'" and "now' < 2147483648"
    and "msg_ok b"
  shows "(rc_vconn rc = None \<longleftrightarrow> rc_state rc = S_VOID \<or> rc_state rc = S_BACKOFF) \<and>
    (\<forall>c. n_queued rc c = queued c (txq rc)) \<and>
    (\<not> probe_lost tr now' rc w \<longrightarrow> rconn_run tr now' rc w \<noteq> None) \<and>
    rconn_send tr now' b c rc w \<noteq> None \<and> rconn_recv tr now' rc w \<noteq> None \<and> rconn_connect tr now' name rc w \<noteq> None"
proof -
  have i: "rconn_inv now rc" "excess rc = (\<lambda>_. 0)" using rconn_reachable_inv [OF assms(3,1,2)] by simp_all
  have inv: "rconn_inv now' rc" by (rule rconn_inv_mono [OF i(1) assms(4,5)])
  have "rconn_run tr now' rc w \<noteq> None" if "\<not> probe_lost tr now' rc w"
    by (rule rconn_run_ok [OF assms(1,2) inv that]) simp
  moreover have "rconn_send tr now' b c rc w \<noteq> None" by (rule rconn_send_ok [OF assms(1,6) inv, of c w]) simp
  moreover have "rconn_recv tr now' rc w \<noteq> None" by (rule rconn_recv_ok [OF assms(1) inv, of w]) simp
  moreover have "rconn_connect tr now' name rc w \<noteq> None" by (rule rconn_connect_ok [OF assms(2) inv, of name w]) simp
  moreover have "n_queued rc c = queued c (txq rc)" for c using fun_cong [OF i(2), of c] by (simp add: excess_def)
  ultimately show ?thesis using i(1) by (simp add: rconn_inv_def rconn_linked_def)
qed


lemma echo_transport_opens: "transport_opens echo_transport"
  by (auto simp: transport_opens_def echo_transport_def)

theorem rconn_safe_witness:
  "transport_ok echo_transport \<and> transport_opens echo_transport \<and>
   rconn_reachable echo_transport 5 (rconn_create 5 60 0 (\<lambda>_. 0)) \<and> msg_ok make_echo_request \<and>
   rconn_connect echo_transport 9 ''tcp:a'' (rconn_create 5 60 0 (\<lambda>_. 0)) () \<noteq> None"
proof -
  have r: "rconn_reachable echo_transport 5 (rconn_create 5 60 0 (\<lambda>_. 0))" by (rule rconn_start) simp_all
  show ?thesis using rconn_safe [OF echo_transport_ok echo_transport_opens r, of 9 make_echo_request "()" None "''tcp:a''"]
    r echo_transport_ok echo_transport_opens echo_request_ok by simp
qed

text \<open>A connection to a controller that has been silent for a minute and whose transport is broken.\<close>

definition broken_transport :: "unit transport" where
  "broken_transport = echo_transport\<lparr>t_send := \<lambda>_ _ w. (32, w)\<rparr>"

definition silent_rconn :: rconn where
  "silent_rconn = (rconn_create 5 60 0 (\<lambda>_. 0))\<lparr>rc_state := S_ACTIVE, reliable := True, rc_name := ''tcp:a'',
     rc_vconn := Some \<lparr>v_state = VCS_CONNECTED, v_error = 0, v_min_version = 0x97, v_version = 0x97, v_ip = 0,
       v_name = ''tcp:a'', v_handle = 1\<rparr>\<rparr>"

lemma broken_transport_ok: "transport_ok broken_transport"
  using echo_transport_ok by (simp add: transport_ok_def broken_transport_def)

lemma silent_rconn_inv: "rconn_inv 70 silent_rconn"
  by (simp add: silent_rconn_def rconn_create_def rconn_inv_def rconn_base_def rconn_linked_def vconn_ok_def)

lemma silent_rconn_probe: "probe_lost broken_transport 70 silent_rconn ()"
proof -
  have t: "timed_out 70 silent_rconn"
    by (simp add: timed_out_def uint_sat_add timeout_defs silent_rconn_def rconn_create_def Let_def)
  have m: "8 \<le> length make_echo_request" "get_u16 make_echo_request 2 = htons (of_nat (length make_echo_request))"
    using echo_request_ok by (simp_all add: msg_ok_def)
  let ?vc = "\<lparr>v_state = VCS_CONNECTED, v_error = 0, v_min_version = 0x97, v_version = 0x97, v_ip = 0,
       v_name = ''tcp:a'', v_handle = 1\<rparr>"
  have v: "vconn_send broken_transport ?vc make_echo_request () = Some (32, ?vc, ())"
    using do_send_returns [OF m, of broken_transport ?vc "()"]
    by (simp add: vconn_send_def vconn_connect_def vconn_connect_loop.simps broken_transport_def)
  define rc1 where "rc1 = silent_rconn\<lparr>monitors := [], txq := [(make_echo_request, None)]\<rparr>"
  define rc2 where "rc2 = rc1\<lparr>rc_vconn := Some ?vc\<rparr>"
  have c: "copy_to_monitor broken_transport make_echo_request silent_rconn () = Some (silent_rconn\<lparr>monitors := []\<rparr>, ())"
    by (simp add: copy_to_monitor_def copy_to_monitor_loop.simps silent_rconn_def rconn_create_def)
  have s: "rc_vconn rc1 = Some ?vc" "txq rc1 = [(make_echo_request, None)]" by (simp_all add: rc1_def silent_rconn_def)
  define rc3 where "rc3 = fst (disconnect broken_transport 70 rc2 ())"
  have d: "disconnect broken_transport 70 rc2 () = (rc3, ())" by (simp add: rc3_def prod_eq_iff)
  have b: "rconn_base 70 rc2" "rc_state rc2 = S_ACTIVE" using silent_rconn_inv echo_request_ok
    by (simp_all add: rc2_def rc1_def silent_rconn_def rconn_inv_def rconn_base_def vconn_ok_def)
  then have "rc_vconn rc3 = None" using disconnect_inv(3) [of 70 rc2 rc3 broken_transport "()"] d by simp
  moreover have "try_send broken_transport 70 rc1 () = Some (32, rc3, ())"
    using s v d by (simp add: try_send_def rc2_def)
  moreover have "rconn_send broken_transport 70 make_echo_request None silent_rconn () =
      Option.bind (try_send broken_transport 70 rc1 ()) (\<lambda>(_, rc, w). Some (0, rc, w))"
    using c by (simp add: rconn_send_def rconn_is_connected_def is_connected_state_def count_up_def rc1_def silent_rconn_def
        rconn_create_def)
  moreover have "rc_state silent_rconn = S_ACTIVE" by (simp add: silent_rconn_def)
  ultimately show ?thesis using t by (simp add: probe_lost_def)
qed

theorem rconn_lost_probe_crashes_witness:
  "transport_ok broken_transport \<and> rconn_inv 70 silent_rconn \<and> probe_lost broken_transport 70 silent_rconn () \<and>
   (\<exists>rc' w'. rconn_run broken_transport 70 silent_rconn () = Some (rc', w') \<and> rc_state rc' = S_IDLE \<and>
     (\<forall>now' w. rconn_recv broken_transport now' rc' w = None))"
proof -
  have "reliable silent_rconn" by (simp add: silent_rconn_def)
  with rconn_lost_probe_crashes [OF broken_transport_ok silent_rconn_inv silent_rconn_probe]
  show ?thesis using broken_transport_ok silent_rconn_inv silent_rconn_probe by auto
qed


section \<open>Back-off\<close>

text \<open>Attempts to connect at the given times, one after the other.\<close>

fun attempts :: "'w transport \<Rightarrow> int list \<Rightarrow> rconn \<Rightarrow> 'w \<Rightarrow> (rconn \<times> 'w) option" where
  "attempts tr [] rc w = Some (rc, w)"
| "attempts tr (now # ts) rc w = do { (_, rc, w) \<leftarrow> reconnect tr now rc w; attempts tr ts rc w }"

lemma reconnect_fails:
  assumes "vconn_open tr (rc_name rc) 0x97 w = Some (e, v, w1)" and "e \<noteq> 0" and "reliable rc"
    and "rc_state rc = S_VOID \<or> rc_state rc = S_BACKOFF" and "now < TIME_MAX"
  obtains rc' w' where "reconnect tr now rc w = Some (e, rc', w')" "rc_state rc' = S_BACKOFF" "reliable rc'"
    "backoff rc' = min (max_backoff rc) (max 1 (2 * backoff rc))" "max_backoff rc' = max_backoff rc" "rc_name rc' = rc_name rc"
proof -
  define rc1 where "rc1 = rc\<lparr>n_attempted_connections := n_attempted_connections rc + 1, rc_vconn := v, backoff_deadline := TIME_MAX\<rparr>"
  have "reliable rc1" using assms(3) by (simp add: rc1_def)
  then obtain q l where "fst (disconnect tr now rc1 w1) = (state_transition now S_BACKOFF
    ((if rc_state rc1 = S_VOID \<or> rc_state rc1 = S_BACKOFF then rc1 else flush_loop (rc1\<lparr>rc_vconn := None\<rparr>))
     \<lparr>backoff := (if now \<ge> backoff_deadline rc1 then 1 else min (max_backoff rc1) (max 1 (2 * backoff rc1))),
      backoff_deadline := now + (if now \<ge> backoff_deadline rc1 then 1 else min (max_backoff rc1) (max 1 (2 * backoff rc1)))\<rparr>))
     \<lparr>questionable_connectivity := q, last_questioned := l\<rparr>" by (rule disconnect_reliable)
  moreover have "reconnect tr now rc w = Some (e, fst (disconnect tr now rc1 w1), snd (disconnect tr now rc1 w1))"
    using assms(1,2) by (simp add: reconnect_def rc1_def split_def Let_def)
  ultimately show thesis using that assms(3-5) by (simp add: rc1_def rc_changes)
qed

text \<open>
  The pause between attempts to connect doubles with every failure, from one second up to
  \<open>max_backoff\<close>: after \<open>n + 1\<close> failures in a row it is the lesser of \<open>2 ^ n\<close> and \<open>max_backoff\<close>.
\<close>

theorem rconn_backoff_doubles:
  assumes fail: "\<forall>w. \<exists>e v w'. vconn_open tr (rc_name rc) 0x97 w = Some (e, v, w') \<and> e \<noteq> 0"
    and rc: "reliable rc" "rc_state rc = S_VOID \<or> rc_state rc = S_BACKOFF" "backoff rc = 0" "1 \<le> max_backoff rc"
    and ts: "length ts = Suc n" "\<forall>now \<in> set ts. now < TIME_MAX"
  shows "\<exists>rc' w'. attempts tr ts rc w = Some (rc', w') \<and> rc_state rc' = S_BACKOFF \<and> backoff rc' = min (max_backoff rc) (2 ^ n)"
proof -
  have step: "\<exists>rc' w'. attempts tr ts rc1 w = Some (rc', w') \<and> rc_state rc' = S_BACKOFF \<and>
      backoff rc' = min (max_backoff rc1) (2 ^ (k + length ts))"
    if "rc_name rc1 = rc_name rc" "reliable rc1" "rc_state rc1 = S_BACKOFF" "backoff rc1 = min (max_backoff rc1) (2 ^ k)"
      "1 \<le> max_backoff rc1" "\<forall>now \<in> set ts. now < TIME_MAX" for ts rc1 w k
    using that
  proof (induction ts arbitrary: rc1 w k)
    case Nil
    then show ?case by simp
  next
    case (Cons now ts)
    obtain e v w1 where o: "vconn_open tr (rc_name rc1) 0x97 w = Some (e, v, w1)" "e \<noteq> 0" using fail Cons.prems(1) by metis
    obtain rc2 w2 where r: "reconnect tr now rc1 w = Some (e, rc2, w2)" "rc_state rc2 = S_BACKOFF" "reliable rc2"
      "backoff rc2 = min (max_backoff rc1) (max 1 (2 * backoff rc1))" "max_backoff rc2 = max_backoff rc1" "rc_name rc2 = rc_name rc1"
      by (rule reconnect_fails [OF o Cons.prems(2)]) (use Cons.prems in auto)
    define p :: int where "p = 2 ^ k"
    have "1 \<le> p" "2 ^ Suc k = 2 * p" by (simp_all add: p_def)
    then have "backoff rc2 = min (max_backoff rc2) (2 ^ Suc k)"
      using r(4,5) Cons.prems(4,5) unfolding p_def [symmetric] by (auto simp: min_def max_def)
    from Cons.IH [OF _ r(3,2) this, of w2] r Cons.prems show ?case by simp
  qed
  obtain t ts' where t: "ts = t # ts'" "length ts' = n" using ts(1) by (cases ts) auto
  obtain e v w1 where o: "vconn_open tr (rc_name rc) 0x97 w = Some (e, v, w1)" "e \<noteq> 0" using fail by metis
  obtain rc2 w2 where r: "reconnect tr t rc w = Some (e, rc2, w2)" "rc_state rc2 = S_BACKOFF" "reliable rc2"
    "backoff rc2 = min (max_backoff rc) (max 1 (2 * backoff rc))" "max_backoff rc2 = max_backoff rc" "rc_name rc2 = rc_name rc"
    by (rule reconnect_fails [OF o rc(1,2)]) (use ts t in auto)
  have "backoff rc2 = min (max_backoff rc2) (2 ^ 0)" using r(4,5) rc(3,4) by simp
  from step [OF r(6,3,2) this, of ts' w2] r rc ts t show ?thesis by simp
qed

theorem rconn_backoff_doubles_witness:
  "\<exists>rc' w'. attempts echo_transport [10, 20, 30] ((rconn_create 5 60 0 (\<lambda>_. 0))\<lparr>reliable := True, rc_name := ''host''\<rparr>) () = Some (rc', w') \<and>
    rc_state rc' = S_BACKOFF \<and> backoff rc' = 4"
proof -
  let ?rc = "(rconn_create 5 60 0 (\<lambda>_. 0))\<lparr>reliable := True, rc_name := ''host''\<rparr>"
  have "\<forall>w. \<exists>e v w'. vconn_open echo_transport (rc_name ?rc) 0x97 w = Some (e, v, w') \<and> e \<noteq> 0"
    by (simp add: vconn_open_def name_prefix_def)
  from rconn_backoff_doubles [OF this, of "[10, 20, 30]" 2 "()"] show ?thesis by (simp add: rconn_create_def)
qed

end
