(* ===== verification/Sim_State.thy ===== *)
theory Sim_State
  imports Prelude
begin

text \<open>
  The objects of the simulation engine (\<open>src/full/api\<close>): events, processes, entities, channels and
  timelines, and the event lists of a timeline.  Every C++ object is reached through its address, so
  the state of a simulation is a record of stores from addresses to objects.  \<open>ltime_t\<close> is a signed
  64-bit count of ticks and is an integer here: the engine itself never checks for overflow, and a
  clock would have to pass \<open>2 ^ 63\<close> ticks for the two to differ.

  The engine is the one the Linux build makes: raw event and message pointers (neither
  \<open>SAFE_EVT_PTR\<close> nor \<open>SAFE_MSG_PTR\<close>), no emulation (\<open>OPENVZ_EMULATION\<close>), and no composite
  synchronisation (\<open>COMPOSITE_SYNC\<close>).
\<close>


section \<open>Events\<close>

type_synonym ltime = int

datatype evtype = EVTYPE_NULL | EVTYPE_TIMEOUT | EVTYPE_ACTIVATE | EVTYPE_EXEC_ACTIVATE
  | EVTYPE_WAIT_APPT | EVTYPE_MAKE_APPT | EVTYPE_BIND | EVTYPE_CANCEL

text \<open>
  The pointers an event does not carry are \<open>None\<close>; the constructors that leave them unset are never
  followed by a read of them.  An activation is the address of its message.
\<close>

record event =
  ev_time :: ltime
  ev_key2 :: int
  ev_num :: u32
  ev_type :: evtype
  ev_proc :: "nat option"
  ev_inc :: "nat option"
  ev_tl :: nat
  ev_pri :: u32
  ev_bind :: bool
  ev_act :: "nat option"
  ev_home :: nat

definition event_null :: event where
  "event_null = \<lparr>ev_time = 0, ev_key2 = 0, ev_num = 0, ev_type = EVTYPE_NULL, ev_proc = None,
     ev_inc = None, ev_tl = 0, ev_pri = 0, ev_bind = False, ev_act = None, ev_home = 0\<rparr>"

definition event_timeout :: "ltime \<Rightarrow> int \<Rightarrow> nat \<Rightarrow> nat option \<Rightarrow> nat \<Rightarrow> u32 \<Rightarrow> event" where
  "event_timeout t key2 proc act home_tl evtnum =
     event_null\<lparr>ev_num := evtnum, ev_type := EVTYPE_TIMEOUT, ev_proc := Some proc, ev_act := act,
       ev_home := home_tl, ev_time := t, ev_key2 := key2\<rparr>"

definition event_channel ::
  "evtype \<Rightarrow> ltime \<Rightarrow> int \<Rightarrow> nat \<Rightarrow> nat option \<Rightarrow> nat option \<Rightarrow> nat \<Rightarrow> u32 \<Rightarrow> event" where
  "event_channel etype t key2 inc act proc home_tl evtnum =
     event_null\<lparr>ev_num := evtnum, ev_type := etype, ev_proc := proc, ev_inc := Some inc,
       ev_act := act, ev_home := home_tl, ev_time := t, ev_key2 := key2\<rparr>"

definition event_appt :: "ltime \<Rightarrow> int \<Rightarrow> nat \<Rightarrow> evtype \<Rightarrow> nat \<Rightarrow> u32 \<Rightarrow> event" where
  "event_appt t key2 tlid etype home_tl evtnum =
     event_null\<lparr>ev_num := evtnum, ev_type := etype, ev_tl := tlid, ev_home := home_tl, ev_time := t,
       ev_key2 := key2\<rparr>"

definition event_bind :: "ltime \<Rightarrow> int \<Rightarrow> nat \<Rightarrow> nat \<Rightarrow> bool \<Rightarrow> u32 \<Rightarrow> nat \<Rightarrow> u32 \<Rightarrow> event" where
  "event_bind t key2 inc proc bind pri home_tl evtnum =
     event_null\<lparr>ev_num := evtnum, ev_type := EVTYPE_BIND, ev_proc := Some proc, ev_inc := Some inc,
       ev_pri := pri, ev_bind := bind, ev_home := home_tl, ev_time := t, ev_key2 := key2\<rparr>"

definition user_pri :: "u32 \<Rightarrow> u32" where
  "user_pri p = push_bit 8 (p + 1) AND 0xffffff"

definition default_sched_pri :: u32 where
  "default_sched_pri = push_bit 16 1 - 1"

definition min_sched_pri :: int where
  "min_sched_pri = 2147483647"


section \<open>The other objects\<close>

record mappedChannel =
  mc_oc :: nat
  mc_ic :: "nat option"
  mc_delay :: ltime
  mc_select :: bool
  mc_xtimeline :: bool
  mc_asynchronous :: bool

record ProcessPri =
  pp_proc :: nat
  pp_b :: bool
  pp_pri :: int

record process =
  pr_owner :: nat
  pr_active :: "nat option"
  pr_pri :: u32
  pr_alignment :: nat

record inchannel =
  ic_owner :: nat
  waitingList :: "ProcessPri list"
  ve_attached :: bool

record outchannel =
  oc_owner :: nat
  oc_min_write_delay :: ltime
  mapped_to :: "mappedChannel list"

record entity =
  ent_timeline :: nat
  outchannel_list :: "nat list"
  inchannel_list :: "nat list"
  process_list :: "nat list"

datatype TimelineState = INITIALIZING | BLOCKED | RUNNING | WAITING

text \<open>
  Where the thread of a timeline is: at the barrier that starts an epoch, at the top of the loop over
  windows, at the bottom barrier with its offer made, executing the events of a window, at the barrier
  after the window, or gone from \<open>thread_function\<close>.
\<close>

datatype phase = At_epoch | At_top | At_bottom | In_window | At_end | Exited

record timeline =
  tl_state :: TimelineState
  tl_this :: "nat option"
  entity_list :: "nat list"
  min_cross_delay :: ltime
  min_all_delay :: ltime
  min_same_delay :: ltime
  window_size :: ltime
  channels_at_minimum :: u32
  recompute_min_delay :: bool
  tl_time :: ltime
  stop_before :: ltime
  tl_window :: u32
  activeChannel :: "nat option"
  window_list :: "nat list"
  channels_to_map :: "mappedChannel list"
  delays_to_change :: "mappedChannel list"
  in_appointment :: "nat \<Rightarrow> ltime"
  in_waiting :: "nat \<Rightarrow> bool"
  out_lookahead :: "nat \<Rightarrow> ltime"
  out_events :: "nat \<Rightarrow> nat list"
  tl_events :: "nat list"
  ve_sink_events :: "nat list"
  executed :: u64
  work_executed :: u64
  executed_one_window :: u64
  work_executed_one_window :: u64
  evtnum :: u32
  t_prime :: ltime
  tl_phase :: phase

text \<open>
  The two fields \<open>bottom_min\<close> and \<open>bottom_prev\<close> are the min-reduction at the bottom barrier,
  \<open>epoch_end\<close> and \<open>sim_clock\<close> belong to the interface.  Events and messages get addresses that were
  not used before.
\<close>

record sim =
  num_timelines :: nat
  tls :: "nat \<Rightarrow> timeline"
  num_entities :: nat
  ents :: "nat \<Rightarrow> entity"
  num_processes :: nat
  procs :: "nat \<Rightarrow> process"
  num_inchannels :: nat
  ics :: "nat \<Rightarrow> inchannel"
  num_outchannels :: nat
  ocs :: "nat \<Rightarrow> outchannel"
  evs :: "nat \<Rightarrow> event option"
  next_ev :: nat
  next_msg :: nat
  bottom_min :: ltime
  bottom_prev :: ltime
  epoch_end :: ltime
  sim_clock :: ltime

text \<open>
  What the engine stops on: a failed assertion, a null pointer, an access outside of a container or to
  a deleted object, an event of the composite synchronisation; and a call that a process must not make.
\<close>

datatype sim_error = Assertion_failed | Null_pointer | Undefined_behaviour | Composite_sync | Misuse

definition ic_alignment :: "sim \<Rightarrow> nat \<Rightarrow> nat" where
  "ic_alignment s ic = ent_timeline (ents s (ic_owner (ics s ic)))"

definition oc_alignment :: "sim \<Rightarrow> nat \<Rightarrow> nat" where
  "oc_alignment s oc = ent_timeline (ents s (oc_owner (ocs s oc)))"

definition upd_tl :: "nat \<Rightarrow> (timeline \<Rightarrow> timeline) \<Rightarrow> sim \<Rightarrow> sim" where
  "upd_tl t f s = s\<lparr>tls := (tls s)(t := f (tls s t))\<rparr>"

definition upd_ic :: "nat \<Rightarrow> (inchannel \<Rightarrow> inchannel) \<Rightarrow> sim \<Rightarrow> sim" where
  "upd_ic ic f s = s\<lparr>ics := (ics s)(ic := f (ics s ic))\<rparr>"

definition upd_oc :: "nat \<Rightarrow> (outchannel \<Rightarrow> outchannel) \<Rightarrow> sim \<Rightarrow> sim" where
  "upd_oc oc f s = s\<lparr>ocs := (ocs s)(oc := f (ocs s oc))\<rparr>"

definition upd_proc :: "nat \<Rightarrow> (process \<Rightarrow> process) \<Rightarrow> sim \<Rightarrow> sim" where
  "upd_proc p f s = s\<lparr>procs := (procs s)(p := f (procs s p))\<rparr>"

text \<open>\<open>new Event(..., __evtnum++)\<close>: the event takes the number of the timeline that makes it.\<close>

definition new_event :: "nat \<Rightarrow> (u32 \<Rightarrow> event) \<Rightarrow> sim \<Rightarrow> nat \<times> sim" where
  "new_event this mk s =
     (next_ev s,
      upd_tl this (\<lambda>tl. tl\<lparr>evtnum := evtnum tl + 1\<rparr>)
        (s\<lparr>evs := (evs s)(next_ev s := Some (mk (evtnum (tls s this)))), next_ev := Suc (next_ev s)\<rparr>))"

definition push_event :: "nat \<Rightarrow> nat \<Rightarrow> sim \<Rightarrow> sim" where
  "push_event this e = upd_tl this (\<lambda>tl. tl\<lparr>tl_events := tl_events tl @ [e]\<rparr>)"

definition push_ve_sink :: "nat \<Rightarrow> nat \<Rightarrow> sim \<Rightarrow> sim" where
  "push_ve_sink this e = upd_tl this (\<lambda>tl. tl\<lparr>ve_sink_events := ve_sink_events tl @ [e]\<rparr>)"


section \<open>The event lists\<close>

text \<open>
  \<open>STL_EventList\<close> is a \<open>std::priority_queue\<close> ordered by \<open>evt_Comparer\<close>.  Its \<open>top\<close> is an element
  after which the comparer puts no other; the standard does not say which of several.  The model
  keeps the elements in a list and lets every such element be the top.
\<close>

definition evt_Comparer :: "event \<Rightarrow> event \<Rightarrow> bool" where
  "evt_Comparer lhs rhs =
     (if ev_time lhs > ev_time rhs then True
      else if ev_time lhs < ev_time rhs then False
      else if ev_key2 lhs > ev_key2 rhs then True
      else False)"

definition ev :: "sim \<Rightarrow> nat \<Rightarrow> event" where
  "ev s e = (case evs s e of None \<Rightarrow> event_null | Some x \<Rightarrow> x)"

definition is_top :: "sim \<Rightarrow> nat list \<Rightarrow> nat \<Rightarrow> bool" where
  "is_top s q e \<longleftrightarrow> e \<in> set q \<and> (\<forall>x \<in> set q. \<not> evt_Comparer (ev s e) (ev s x))"

text \<open>
  \<open>select_next_event\<close> and \<open>next_time\<close> with the tops of the two lists as arguments: which list the
  next event comes from (0 for none), and its time.
\<close>

definition select_next_event :: "sim \<Rightarrow> nat option \<Rightarrow> nat option \<Rightarrow> nat \<times> ltime" where
  "select_next_event s top_ev top_ve =
     (case (top_ev, top_ve) of
        (None, None) \<Rightarrow> (0, -1)
      | (None, Some v) \<Rightarrow> (2, ev_time (ev s v))
      | (Some e, None) \<Rightarrow> (1, ev_time (ev s e))
      | (Some e, Some v) \<Rightarrow>
          let lhs = ev s e; rhs = ev s v in
          if ev_time lhs > ev_time rhs then (2, ev_time rhs)
          else if ev_time lhs < ev_time rhs then (1, ev_time lhs)
          else if ev_key2 lhs > ev_key2 rhs then (2, ev_time rhs)
          else (1, ev_time lhs))"

text \<open>The smallest time in a list of events, read off the top.\<close>

fun least_time :: "sim \<Rightarrow> nat list \<Rightarrow> ltime" where
  "least_time s [] = -1"
| "least_time s [e] = ev_time (ev s e)"
| "least_time s (e # es) = min (ev_time (ev s e)) (least_time s es)"

definition next_time :: "sim \<Rightarrow> nat \<Rightarrow> ltime" where
  "next_time s t =
     (let evq = tl_events (tls s t); veq = ve_sink_events (tls s t) in
      if evq = [] \<and> veq = [] then -1
      else if evq = [] then least_time s veq
      else if veq = [] then least_time s evq
      else min (least_time s veq) (least_time s evq))"

lemma least_time_Cons:
  "least_time s (e # es) = (if es = [] then ev_time (ev s e) else min (ev_time (ev s e)) (least_time s es))"
  by (cases es) auto

lemma least_time_le: "e \<in> set q \<Longrightarrow> least_time s q \<le> ev_time (ev s e)"
  by (induction q) (auto simp: least_time_Cons)

lemma least_time_in: "q \<noteq> [] \<Longrightarrow> \<exists>e \<in> set q. least_time s q = ev_time (ev s e)"
proof (induction q)
  case (Cons a q)
  show ?case
  proof (cases "q = []")
    case False
    then obtain e where "e \<in> set q" "least_time s q = ev_time (ev s e)" using Cons.IH by blast
    then show ?thesis using False by (cases "ev_time (ev s a) \<le> least_time s q") (auto simp: least_time_Cons min_def)
  qed simp
qed simp

lemma is_topD: "is_top s q e \<Longrightarrow> x \<in> set q \<Longrightarrow> ev_time (ev s e) \<le> ev_time (ev s x)"
  by (fastforce simp: is_top_def evt_Comparer_def split: if_splits)

lemma is_top_time: "is_top s q e \<Longrightarrow> ev_time (ev s e) = least_time s q"
  using is_topD least_time_le [of e q s] least_time_in [of q s] by (fastforce simp: is_top_def)

lemma next_time_le:
  "e \<in> set (tl_events (tls s t)) \<union> set (ve_sink_events (tls s t)) \<Longrightarrow> next_time s t \<le> ev_time (ev s e)"
  using least_time_le [of e "tl_events (tls s t)" s] least_time_le [of e "ve_sink_events (tls s t)" s]
  by (auto simp: next_time_def Let_def)

lemma next_time_in:
  assumes "tl_events (tls s t) \<noteq> [] \<or> ve_sink_events (tls s t) \<noteq> []"
  obtains e where "e \<in> set (tl_events (tls s t)) \<union> set (ve_sink_events (tls s t))"
    "next_time s t = ev_time (ev s e)"
  using assms least_time_in [of "tl_events (tls s t)" s] least_time_in [of "ve_sink_events (tls s t)" s]
  by (fastforce simp: next_time_def Let_def min_def split: if_splits)

lemma user_pri_default: "user_pri default_sched_pri = 0"
  by (simp add: user_pri_def default_sched_pri_def push_bit_eq_mult)

end
