(* ===== verification/Sim_Channel.thy ===== *)
theory Sim_Channel
  imports Sim_State
begin

text \<open>
  The operations of the engine that a model calls: construction of entities, processes and channels
  (\<open>entity.cc\<close>, \<open>process.cc\<close>, \<open>inchannel.cc\<close>, \<open>outchannel.cc\<close>), the three \<open>schedule\<close> methods of a
  timeline with the \<open>waitFor\<close>, \<open>write\<close>, \<open>waitOn\<close> and \<open>bind\<close> calls that end in them, the cancelling of
  an event through its handle, and the mapping of outchannels to inchannels with its delays.
\<close>


section \<open>Construction\<close>

definition BuildEntity :: "nat \<Rightarrow> sim \<Rightarrow> nat \<times> sim" where
  "BuildEntity t s =
     (let e = num_entities s in
      (e, upd_tl t (\<lambda>tl. tl\<lparr>entity_list := entity_list tl @ [e]\<rparr>)
            (s\<lparr>num_entities := Suc e,
               ents := (ents s)(e := \<lparr>ent_timeline = t, outchannel_list = [], inchannel_list = [],
                                      process_list = []\<rparr>)\<rparr>)))"

definition upd_ent :: "nat \<Rightarrow> (entity \<Rightarrow> entity) \<Rightarrow> sim \<Rightarrow> sim" where
  "upd_ent e f s = s\<lparr>ents := (ents s)(e := f (ents s e))\<rparr>"

definition new_process :: "nat \<Rightarrow> sim \<Rightarrow> nat \<times> sim" where
  "new_process owner s =
     (let p = num_processes s in
      (p, upd_ent owner (\<lambda>e. e\<lparr>process_list := process_list e @ [p]\<rparr>)
            (s\<lparr>num_processes := Suc p,
               procs := (procs s)(p := \<lparr>pr_owner = owner, pr_active = None, pr_pri = default_sched_pri,
                                        pr_alignment = ent_timeline (ents s owner)\<rparr>)\<rparr>)))"

text \<open>
  The constructor that takes a name does not set \<open>__alignment\<close>: the field keeps what the memory held,
  the argument \<open>junk\<close>.  (The directory of names is left out.)
\<close>

definition new_process_named :: "nat \<Rightarrow> nat \<Rightarrow> sim \<Rightarrow> nat \<times> sim" where
  "new_process_named junk owner s =
     (let p = num_processes s in
      (p, upd_ent owner (\<lambda>e. e\<lparr>process_list := process_list e @ [p]\<rparr>)
            (s\<lparr>num_processes := Suc p,
               procs := (procs s)(p := \<lparr>pr_owner = owner, pr_active = None, pr_pri = default_sched_pri,
                                        pr_alignment = junk\<rparr>)\<rparr>)))"

definition new_inchannel :: "nat \<Rightarrow> sim \<Rightarrow> nat \<times> sim" where
  "new_inchannel owner s =
     (let c = num_inchannels s in
      (c, upd_ent owner (\<lambda>e. e\<lparr>inchannel_list := inchannel_list e @ [c]\<rparr>)
            (s\<lparr>num_inchannels := Suc c,
               ics := (ics s)(c := \<lparr>ic_owner = owner, waitingList = [], ve_attached = False\<rparr>)\<rparr>)))"

definition new_outchannel :: "nat \<Rightarrow> ltime \<Rightarrow> sim \<Rightarrow> nat \<times> sim" where
  "new_outchannel owner min_write_delay s =
     (let c = num_outchannels s in
      (c, upd_ent owner (\<lambda>e. e\<lparr>outchannel_list := outchannel_list e @ [c]\<rparr>)
            (s\<lparr>num_outchannels := Suc c,
               ocs := (ocs s)(c := \<lparr>oc_owner = owner, oc_min_write_delay = min_write_delay,
                                    mapped_to = []\<rparr>)\<rparr>)))"

definition mk_mappedChannel :: "bool \<Rightarrow> sim \<Rightarrow> nat \<Rightarrow> nat option \<Rightarrow> ltime \<Rightarrow> bool \<Rightarrow> mappedChannel" where
  "mk_mappedChannel junk s oc ic t sel =
     \<lparr>mc_oc = oc, mc_ic = ic, mc_delay = t, mc_select = sel,
      mc_xtimeline = (case ic of None \<Rightarrow> False | Some c \<Rightarrow> ic_alignment s c \<noteq> oc_alignment s oc),
      mc_asynchronous = junk\<rparr>"


section \<open>Scheduling\<close>

definition now :: "sim \<Rightarrow> nat \<Rightarrow> ltime" where
  "now s t = tl_time (tls s t)"

definition horizon :: "sim \<Rightarrow> nat \<Rightarrow> ltime" where
  "horizon s t = stop_before (tls s t)"

definition schedule_process ::
  "nat \<Rightarrow> nat \<Rightarrow> ltime \<Rightarrow> u32 \<Rightarrow> nat option \<Rightarrow> sim \<Rightarrow> sim_error + nat \<times> sim" where
  "schedule_process this proc t pri act s =
     (if ent_timeline (ents s (pr_owner (procs s proc))) \<noteq> this then Inl Assertion_failed
      else let (h, s1) = new_event this (event_timeout t (sint pri) proc act this) s
           in Inr (h, push_event this h s1))"

definition schedule_channel ::
  "nat \<Rightarrow> nat \<Rightarrow> ltime \<Rightarrow> u32 \<Rightarrow> nat option \<Rightarrow> sim \<Rightarrow> nat \<times> sim" where
  "schedule_channel this ic t pri act s =
     (let tgt = ic_alignment s ic;
          (h, s1) = new_event this (event_channel EVTYPE_ACTIVATE t 0 ic act None tgt) s in
      if tgt \<noteq> this \<and> horizon s this \<le> t
      then (h, upd_tl tgt (\<lambda>tl. tl\<lparr>window_list := window_list tl @ [h]\<rparr>) s1)
      else if tgt \<noteq> this \<and> t < horizon s this
      then (h, upd_tl this
                 (\<lambda>tl. tl\<lparr>out_events := (out_events tl)(tgt := out_events tl tgt @ [h])\<rparr>) s1)
      else if ve_attached (ics s ic) then (h, push_ve_sink this h s1)
      else (h, push_event this h s1))"

definition schedule_bind :: "nat \<Rightarrow> nat \<Rightarrow> nat \<Rightarrow> bool \<Rightarrow> u32 \<Rightarrow> sim \<Rightarrow> sim" where
  "schedule_bind this ic proc bind pri s =
     (let (h, s1) = new_event this (event_bind (now s this) (sint pri) ic proc bind pri this) s
      in push_event this h s1)"

text \<open>
  The eight \<open>waitFor\<close> methods of an entity are one: without a process it is the running one of the
  timeline, without a priority it is the default.
\<close>

definition waitFor ::
  "nat \<Rightarrow> nat option \<Rightarrow> nat option \<Rightarrow> ltime \<Rightarrow> u32 \<Rightarrow> sim \<Rightarrow> sim_error + nat \<times> sim" where
  "waitFor ent proc act delay pri s =
     (let this = ent_timeline (ents s ent) in
      case (case proc of None \<Rightarrow> tl_this (tls s this) | Some p \<Rightarrow> Some p) of
        None \<Rightarrow> Inl Null_pointer
      | Some p \<Rightarrow> schedule_process this p (now s this + delay) (user_pri pri) act s)"

record handle =
  h_eptr :: nat
  h_time :: ltime
  h_home :: nat

definition mk_handle :: "sim \<Rightarrow> nat \<Rightarrow> handle" where
  "mk_handle s e = \<lparr>h_eptr = e, h_time = ev_time (ev s e), h_home = ev_home (ev s e)\<rparr>"

text \<open>
  Cancelling tests the clock of the timeline of the event, marks the event object in place and tests the
  clock again; an object that was already deleted is a dangling pointer.  \<open>handle_cancel\<close> is the run of
  the three without another thread in between, as on the timeline of the event itself.  A process of
  another timeline may find, when it marks the event, that the clock has moved on since the first test.
\<close>

definition handle_before :: "handle \<Rightarrow> sim \<Rightarrow> bool" where
  "handle_before h s \<longleftrightarrow> \<not> h_time h \<le> now s (h_home h)"

definition handle_mark :: "handle \<Rightarrow> sim \<Rightarrow> sim_error + sim" where
  "handle_mark h s =
     (case evs s (h_eptr h) of
        None \<Rightarrow> Inl Undefined_behaviour
      | Some e \<Rightarrow> Inr (s\<lparr>evs := (evs s)(h_eptr h := Some (e\<lparr>ev_type := EVTYPE_CANCEL\<rparr>))\<rparr>))"

definition handle_cancel :: "handle \<Rightarrow> sim \<Rightarrow> sim_error + bool \<times> sim" where
  "handle_cancel h s =
     (if \<not> handle_before h s then Inr (False, s)
      else case handle_mark h s of
             Inl err \<Rightarrow> Inl err
           | Inr s1 \<Rightarrow> if \<not> handle_before h s1 then Inr (False, s1) else Inr (True, s1))"


section \<open>Inchannels\<close>

fun insert_pri :: "ProcessPri \<Rightarrow> ProcessPri list \<Rightarrow> ProcessPri list" where
  "insert_pri pp [] = [pp]"
| "insert_pri pp (q # qs) = (if pp_pri q > pp_pri pp then pp # q # qs else q # insert_pri pp qs)"

definition insert_process_pri :: "nat \<Rightarrow> nat \<Rightarrow> bool \<Rightarrow> u32 \<Rightarrow> sim \<Rightarrow> sim" where
  "insert_process_pri ic proc b pri =
     upd_ic ic (\<lambda>c. c\<lparr>waitingList :=
       insert_pri \<lparr>pp_proc = proc, pp_b = b, pp_pri = sint pri\<rparr> (waitingList c)\<rparr>)"

definition insertion_gateway :: "nat \<Rightarrow> nat \<Rightarrow> bool \<Rightarrow> u32 \<Rightarrow> sim \<Rightarrow> sim_error + sim" where
  "insertion_gateway ic proc b pri s =
     (let t = ic_alignment s ic in
      if t \<noteq> pr_alignment (procs s proc) then Inl Assertion_failed
      else if activeChannel (tls s t) \<noteq> Some ic then Inr (insert_process_pri ic proc b (user_pri pri) s)
      else Inr (schedule_bind t ic proc b (user_pri pri) s))"

definition add_process :: "nat \<Rightarrow> nat \<Rightarrow> sim \<Rightarrow> sim_error + sim" where
  "add_process ic proc s = insertion_gateway ic proc False (pr_pri (procs s proc)) s"

definition running_or :: "nat \<Rightarrow> nat option \<Rightarrow> sim \<Rightarrow> nat option" where
  "running_or ic proc s =
     (case proc of None \<Rightarrow> tl_this (tls s (ic_alignment s ic)) | Some p \<Rightarrow> Some p)"

definition waitOn :: "nat \<Rightarrow> nat option \<Rightarrow> sim \<Rightarrow> sim_error + sim" where
  "waitOn ic proc s =
     (case running_or ic proc s of None \<Rightarrow> Inl Assertion_failed | Some p \<Rightarrow> add_process ic p s)"

definition bind_process :: "nat \<Rightarrow> nat option \<Rightarrow> sim \<Rightarrow> sim_error + sim" where
  "bind_process ic proc s =
     (case running_or ic proc s of
        None \<Rightarrow> Inl Assertion_failed
      | Some p \<Rightarrow> insertion_gateway ic p True (pr_pri (procs s p)) s)"

fun erase_first :: "('a \<Rightarrow> bool) \<Rightarrow> 'a list \<Rightarrow> bool \<times> 'a list" where
  "erase_first P [] = (False, [])"
| "erase_first P (x # xs) = (if P x then (True, xs) else let (r, ys) = erase_first P xs in (r, x # ys))"

definition unbind :: "nat \<Rightarrow> nat \<Rightarrow> sim \<Rightarrow> bool \<times> sim" where
  "unbind ic proc s =
     (let (r, ws) = erase_first (\<lambda>pp. proc = pp_proc pp \<and> pp_b pp) (waitingList (ics s ic)) in
      (r, upd_ic ic (\<lambda>c. c\<lparr>waitingList := ws\<rparr>) s))"

definition unwaitOn :: "nat \<Rightarrow> nat \<Rightarrow> sim \<Rightarrow> bool \<times> sim" where
  "unwaitOn ic proc s =
     (let (r, ws) = erase_first (\<lambda>pp. proc = pp_proc pp \<and> \<not> pp_b pp) (waitingList (ics s ic)) in
      (r, upd_ic ic (\<lambda>c. c\<lparr>waitingList := ws\<rparr>) s))"

definition is_bound :: "nat \<Rightarrow> nat \<Rightarrow> sim \<Rightarrow> bool" where
  "is_bound ic proc s = list_ex (\<lambda>pp. proc = pp_proc pp \<and> pp_b pp) (waitingList (ics s ic))"

definition is_waiting :: "nat \<Rightarrow> nat \<Rightarrow> sim \<Rightarrow> bool" where
  "is_waiting ic proc s = list_ex (\<lambda>pp. proc = pp_proc pp \<and> \<not> pp_b pp) (waitingList (ics s ic))"

section \<open>Outchannels\<close>

text \<open>
  \<open>write\<close> copies the message for every delivery but the first (\<open>clone\<close>, a new message); the state of
  the loop is the simulation with the two flags \<open>allsent\<close> and \<open>onesent\<close>.
\<close>

definition clone_msg :: "sim \<Rightarrow> nat \<times> sim" where
  "clone_msg s = (next_msg s, s\<lparr>next_msg := Suc (next_msg s)\<rparr>)"

fun write_loop ::
  "nat \<Rightarrow> nat \<Rightarrow> ltime \<Rightarrow> ltime \<Rightarrow> ltime \<Rightarrow> u32 \<Rightarrow> mappedChannel list \<Rightarrow> bool \<Rightarrow> bool \<Rightarrow> sim \<Rightarrow>
   sim_error + bool \<times> bool \<times> sim" where
  "write_loop this act delivery1 mwd hz pri [] allsent onesent s = Inr (allsent, onesent, s)"
| "write_loop this act delivery1 mwd hz pri (m # ms) allsent onesent s =
     (let delivery2 = delivery1 + mc_delay m + mwd in
      if \<not> mc_xtimeline m \<or> hz \<le> delivery2 \<or> mc_asynchronous m
      then case mc_ic m of
             None \<Rightarrow> Inl Null_pointer
           | Some ic \<Rightarrow>
               let (a, s1) = (if onesent then clone_msg s else (act, s));
                   (h, s2) = schedule_channel this ic delivery2 (user_pri pri) (Some a) s1
               in write_loop this act delivery1 mwd hz pri ms allsent True s2
      else write_loop this act delivery1 mwd hz pri ms False onesent s)"

definition oc_write :: "nat \<Rightarrow> nat \<Rightarrow> ltime \<Rightarrow> u32 \<Rightarrow> sim \<Rightarrow> sim_error + bool \<times> sim" where
  "oc_write oc act write_delay pri s =
     (let this = oc_alignment s oc;
          delivery1 = now s this + write_delay in
      case write_loop this act delivery1 (oc_min_write_delay (ocs s oc)) (horizon s this) pri
             (mapped_to (ocs s oc)) True False s of
        Inl e \<Rightarrow> Inl e
      | Inr (allsent, onesent, s1) \<Rightarrow> Inr (allsent, s1))"

definition min_or_first :: "ltime \<Rightarrow> ltime \<Rightarrow> ltime" where
  "min_or_first old delay = (if old = -1 \<or> delay < old then delay else old)"

definition cross_timeline_delay :: "nat \<Rightarrow> ltime \<Rightarrow> sim \<Rightarrow> sim" where
  "cross_timeline_delay t delay =
     upd_tl t (\<lambda>tl. tl\<lparr>min_cross_delay := min_or_first (min_cross_delay tl) delay\<rparr>)"

definition same_timeline_delay :: "nat \<Rightarrow> ltime \<Rightarrow> sim \<Rightarrow> sim" where
  "same_timeline_delay t delay =
     upd_tl t (\<lambda>tl. tl\<lparr>min_same_delay := min_or_first (min_same_delay tl) delay\<rparr>)"

definition all_timeline_delay :: "nat \<Rightarrow> ltime \<Rightarrow> sim \<Rightarrow> sim" where
  "all_timeline_delay t delay =
     upd_tl t (\<lambda>tl. tl\<lparr>min_all_delay := min_or_first (min_all_delay tl) delay\<rparr>)"

definition mapto :: "bool \<Rightarrow> nat \<Rightarrow> nat \<Rightarrow> ltime \<Rightarrow> sim \<Rightarrow> ltime \<times> sim" where
  "mapto junk oc ic delay s =
     (let t = oc_alignment s oc; mc = mk_mappedChannel junk s oc (Some ic) delay False in
      if delay = 0 \<and> oc_min_write_delay (ocs s oc) = 0 \<and> ic_alignment s ic \<noteq> t then (-1, s)
      else case find (\<lambda>m. mc_ic m = Some ic) (mapped_to (ocs s oc)) of
        Some m \<Rightarrow> (if mc_delay m \<noteq> delay then -1 else now s t, s)
      | None \<Rightarrow>
          (case find (\<lambda>m. mc_ic m = Some ic \<and> mc_oc m = oc) (channels_to_map (tls s t)) of
             Some m \<Rightarrow> (if mc_delay m \<noteq> delay then -1 else now s t, s)
           | None \<Rightarrow>
               if tl_state (tls s t) \<noteq> RUNNING
               then (now s t,
                     all_timeline_delay t delay
                       ((if mc_xtimeline mc then cross_timeline_delay t delay else same_timeline_delay t delay)
                          (upd_oc oc (\<lambda>c. c\<lparr>mapped_to := mapped_to c @ [mc]\<rparr>) s)))
               else (horizon s t,
                     upd_tl t (\<lambda>tl. tl\<lparr>channels_to_map := channels_to_map tl @ [mc]\<rparr>) s)))"

fun first_index :: "('a \<Rightarrow> bool) \<Rightarrow> 'a list \<Rightarrow> nat option" where
  "first_index P [] = None"
| "first_index P (x # xs) = (if P x then Some 0 else map_option Suc (first_index P xs))"

text \<open>
  An established mapping is overwritten with the element behind the last one: \<open>__mapped_to[end]\<close>,
  where \<open>end\<close> is the length.  A buffered one is removed as intended.
\<close>

definition unmap :: "nat \<Rightarrow> nat \<Rightarrow> sim \<Rightarrow> sim_error + bool \<times> sim" where
  "unmap oc ic s =
     (let t = oc_alignment s oc in
      case first_index (\<lambda>m. mc_ic m = Some ic) (mapped_to (ocs s oc)) of
        Some i \<Rightarrow> Inl Undefined_behaviour
      | None \<Rightarrow>
          (let q = channels_to_map (tls s t) in
           case first_index (\<lambda>m. mc_ic m = Some ic \<and> mc_oc m = oc) q of
             Some i \<Rightarrow> Inr (True, upd_tl t (\<lambda>tl. tl\<lparr>channels_to_map := butlast (q[i := last q])\<rparr>) s)
           | None \<Rightarrow> Inr (False, s)))"

definition is_mapped :: "nat \<Rightarrow> nat \<Rightarrow> sim \<Rightarrow> bool" where
  "is_mapped oc ic s = list_ex (\<lambda>m. mc_ic m = Some ic) (mapped_to (ocs s oc))"

definition transfer_delay :: "nat \<Rightarrow> nat \<Rightarrow> sim \<Rightarrow> ltime" where
  "transfer_delay oc ic s =
     (case find (\<lambda>m. mc_ic m = Some ic) (mapped_to (ocs s oc)) of None \<Rightarrow> -1 | Some m \<Rightarrow> mc_delay m)"

definition min_xtransfer_delay :: "nat \<Rightarrow> sim \<Rightarrow> ltime" where
  "min_xtransfer_delay oc s =
     fold (\<lambda>m ans. if mc_xtimeline m \<and> (ans < 0 \<or> mc_delay m < ans) then mc_delay m else ans)
       (mapped_to (ocs s oc)) (-1)"

definition set_transfer_delay :: "nat \<Rightarrow> nat \<Rightarrow> ltime \<Rightarrow> sim \<Rightarrow> sim" where
  "set_transfer_delay oc i delay =
     upd_oc oc (\<lambda>c. c\<lparr>mapped_to := (mapped_to c)[i := (mapped_to c ! i)\<lparr>mc_delay := delay\<rparr>]\<rparr>)"

definition new_transfer_delay :: "bool \<Rightarrow> nat \<Rightarrow> nat \<Rightarrow> ltime \<Rightarrow> sim \<Rightarrow> ltime \<times> sim" where
  "new_transfer_delay junk oc ic delay s =
     (let t = oc_alignment s oc; c = ocs s oc in
      case first_index (\<lambda>m. mc_ic m = Some ic) (mapped_to c) of
        None \<Rightarrow> (horizon s t, s)
      | Some i \<Rightarrow>
          (let m = mapped_to c ! i; xtransfer = oc_min_write_delay c + delay;
               least = min_cross_delay (tls s t); set = set_transfer_delay oc i delay in
           if delay = mc_delay m then (now s t, s)
           else if \<not> mc_xtimeline m then (now s t, set s)
           else if mc_delay m < delay then (now s t, set s)
           else if xtransfer = least
           then (now s t, set (upd_tl t (\<lambda>tl. tl\<lparr>channels_at_minimum := channels_at_minimum tl + 1\<rparr>) s))
           else if xtransfer < least \<and>
                   (tl_state (tls s t) \<noteq> RUNNING \<or> horizon s t \<le> now s t + xtransfer)
           then (now s t, set s)
           else (horizon s t,
                 upd_tl t (\<lambda>tl. tl\<lparr>recompute_min_delay := True,
                   delays_to_change := delays_to_change tl @
                     [mk_mappedChannel junk s oc (Some ic) delay False]\<rparr>) s)))"

definition new_min_write_delay :: "bool \<Rightarrow> nat \<Rightarrow> ltime \<Rightarrow> sim \<Rightarrow> ltime \<times> sim" where
  "new_min_write_delay junk oc mwd s =
     (let t = oc_alignment s oc in
      if oc_min_write_delay (ocs s oc) \<le> mwd
      then (now s t, upd_oc oc (\<lambda>c. c\<lparr>oc_min_write_delay := mwd\<rparr>) s)
      else if horizon s t \<le> mwd + min_xtransfer_delay oc s
      then (now s t, upd_oc oc (\<lambda>c. c\<lparr>oc_min_write_delay := mwd\<rparr>) s)
      else (horizon s t,
            upd_tl t (\<lambda>tl. tl\<lparr>delays_to_change := delays_to_change tl @
              [mk_mappedChannel junk s oc None mwd True]\<rparr>) s))"


section \<open>The least delay across timelines\<close>

definition oc_min_sync_cross :: "ltime \<Rightarrow> nat \<Rightarrow> sim \<Rightarrow> ltime" where
  "oc_min_sync_cross thrs oc s =
     (let c = ocs s oc; mwd = oc_min_write_delay c; thrs1 = thrs - mwd;
          ans = fold (\<lambda>m ans. if mc_xtimeline m \<and> thrs1 \<le> mc_delay m \<and> (mc_delay m < ans \<or> ans < 0)
                              then mc_delay m else ans) (mapped_to c) (-1)
      in if mapped_to c = [] then -1 else if ans = -1 then -1 else ans + mwd)"

definition oc_min_sync_all :: "ltime \<Rightarrow> nat \<Rightarrow> sim \<Rightarrow> ltime" where
  "oc_min_sync_all thrs oc s =
     (let c = ocs s oc; mwd = oc_min_write_delay c; thrs1 = thrs - mwd;
          ans = fold (\<lambda>m ans. if thrs1 \<le> mc_delay m \<and> (mc_delay m < ans \<or> ans < 0)
                              then mc_delay m else ans) (mapped_to c) (-1)
      in if mapped_to c = [] then -1 else if ans = -1 then -1 else ans + mwd)"

text \<open>The loop ends early when the index of the last mapping is 0.\<close>

definition oc_count_min_delay_crossings :: "ltime \<Rightarrow> nat \<Rightarrow> sim \<Rightarrow> u32" where
  "oc_count_min_delay_crossings thrs oc s =
     (let c = ocs s oc; hi = int (length (mapped_to c)) - 1 in
      if hi = 0 then 0
      else fold (\<lambda>m ans. if mc_xtimeline m \<and> mc_delay m + oc_min_write_delay c \<le> thrs then ans + 1 else ans)
             (mapped_to c) 0)"

definition ent_min_sync_cross :: "ltime \<Rightarrow> nat \<Rightarrow> sim \<Rightarrow> ltime" where
  "ent_min_sync_cross thrs e s =
     fold (\<lambda>oc ans. let ch_min = oc_min_sync_cross thrs oc s in
             if -1 < ch_min \<and> thrs \<le> ch_min \<and> (ans < 0 \<or> ch_min < ans) then ch_min else ans)
       (outchannel_list (ents s e)) (-1)"

definition ent_min_sync_all :: "ltime \<Rightarrow> nat \<Rightarrow> sim \<Rightarrow> ltime" where
  "ent_min_sync_all thrs e s =
     fold (\<lambda>oc ans. let ch_min = oc_min_sync_all thrs oc s in
             if -1 < ch_min \<and> thrs \<le> ch_min \<and> (ans < 0 \<or> ch_min < ans) then ch_min else ans)
       (outchannel_list (ents s e)) (-1)"

definition ent_count_min_delay_crossings :: "ltime \<Rightarrow> nat \<Rightarrow> sim \<Rightarrow> u32" where
  "ent_count_min_delay_crossings thrs e s =
     fold (\<lambda>oc ans. ans + oc_count_min_delay_crossings thrs oc s) (outchannel_list (ents s e)) 0"

definition min_sync_cross_timeline_delay :: "ltime \<Rightarrow> nat \<Rightarrow> sim \<Rightarrow> ltime" where
  "min_sync_cross_timeline_delay thrs t s =
     fold (\<lambda>e ans. let ent_delay = ent_min_sync_cross thrs e s in
             if ent_delay \<noteq> -1 \<and> thrs \<le> ent_delay \<and> (ans < 0 \<or> ent_delay < ans) then ent_delay else ans)
       (entity_list (tls s t)) (-1)"

definition min_sync_all_timeline_delay :: "ltime \<Rightarrow> nat \<Rightarrow> sim \<Rightarrow> ltime" where
  "min_sync_all_timeline_delay thrs t s =
     fold (\<lambda>e ans. let ent_delay = ent_min_sync_all thrs e s in
             if ent_delay \<noteq> -1 \<and> thrs \<le> ent_delay \<and> (ans < 0 \<or> ent_delay < ans) then ent_delay else ans)
       (entity_list (tls s t)) (-1)"

definition count_min_delay_crossings :: "ltime \<Rightarrow> nat \<Rightarrow> sim \<Rightarrow> u32" where
  "count_min_delay_crossings thrs t s =
     fold (\<lambda>e ans. ans + ent_count_min_delay_crossings thrs e s) (entity_list (tls s t)) 0"

end
