(* ===== verification/Sim_Timeline.thy ===== *)
theory Sim_Timeline
  imports Sim_Channel
begin

text \<open>
  The timelines of the engine (\<open>timeline.cc\<close>) and the interface that drives them (\<open>interface.cc\<close>):
  execution of one event, the end of a synchronisation window, the barrier that fixes the next one,
  and the threads of all timelines as one step relation.  A timeline is a thread; between two barriers
  its events are executed one at a time in any interleaving with those of the others.

  A process body is code of the model, not of the engine.  All it can do to the engine is to call the
  operations of \<open>Sim_Channel\<close>, so one run of a body is a list of calls, and the step relation allows
  every list that keeps to the interface (\<open>legal\<close>): a body uses the objects of its own timeline and
  gives delays that are not negative.
\<close>


section \<open>Calls of a process body\<close>

text \<open>
  \<open>Cancel_mark\<close> is the second half of a cancellation whose test was made before other threads took their
  last steps.
\<close>

datatype api_call =
    WaitFor nat "nat option" "nat option" ltime u32
  | Write nat nat ltime u32
  | WaitOn nat "nat option"
  | Bind nat "nat option"
  | Unbind nat nat
  | UnwaitOn nat nat
  | Mapto bool nat nat ltime
  | Unmap nat nat
  | New_transfer_delay bool nat nat ltime
  | New_min_write_delay bool nat ltime
  | Cancel handle
  | Cancel_mark handle
  | Set_pri nat u32
  | Set_ve_attached nat bool

definition keep :: "('e + 'a \<times> 's) \<Rightarrow> 'e + 's" where
  "keep r = (case r of Inl e \<Rightarrow> Inl e | Inr (x, s) \<Rightarrow> Inr s)"

fun api :: "api_call \<Rightarrow> sim \<Rightarrow> sim_error + sim" where
  "api (WaitFor ent proc act delay pri) s = keep (waitFor ent proc act delay pri s)"
| "api (Write oc act delay pri) s = keep (oc_write oc act delay pri s)"
| "api (WaitOn ic proc) s = waitOn ic proc s"
| "api (Bind ic proc) s = bind_process ic proc s"
| "api (Unbind ic proc) s = Inr (snd (unbind ic proc s))"
| "api (UnwaitOn ic proc) s = Inr (snd (unwaitOn ic proc s))"
| "api (Mapto junk oc ic delay) s = Inr (snd (mapto junk oc ic delay s))"
| "api (Unmap oc ic) s = keep (unmap oc ic s)"
| "api (New_transfer_delay junk oc ic delay) s = Inr (snd (new_transfer_delay junk oc ic delay s))"
| "api (New_min_write_delay junk oc mwd) s = Inr (snd (new_min_write_delay junk oc mwd s))"
| "api (Cancel h) s = keep (handle_cancel h s)"
| "api (Cancel_mark h) s = handle_mark h s"
| "api (Set_pri p pri) s = Inr (upd_proc p (\<lambda>x. x\<lparr>pr_pri := pri\<rparr>) s)"
| "api (Set_ve_attached ic v) s = Inr (upd_ic ic (\<lambda>x. x\<lparr>ve_attached := v\<rparr>) s)"

fun legal :: "nat \<Rightarrow> sim \<Rightarrow> api_call \<Rightarrow> bool" where
  "legal t s (WaitFor ent proc act delay pri) \<longleftrightarrow> ent_timeline (ents s ent) = t \<and> 0 \<le> delay"
| "legal t s (Write oc act delay pri) \<longleftrightarrow> oc_alignment s oc = t \<and> 0 \<le> delay"
| "legal t s (WaitOn ic proc) \<longleftrightarrow> ic_alignment s ic = t"
| "legal t s (Bind ic proc) \<longleftrightarrow> ic_alignment s ic = t"
| "legal t s (Unbind ic proc) \<longleftrightarrow> ic_alignment s ic = t"
| "legal t s (UnwaitOn ic proc) \<longleftrightarrow> ic_alignment s ic = t"
| "legal t s (Mapto junk oc ic delay) \<longleftrightarrow>
     oc < num_outchannels s \<and> oc_alignment s oc = t \<and> 0 \<le> delay"
| "legal t s (Unmap oc ic) \<longleftrightarrow> oc_alignment s oc = t"
| "legal t s (New_transfer_delay junk oc ic delay) \<longleftrightarrow> oc_alignment s oc = t \<and> 0 \<le> delay"
| "legal t s (New_min_write_delay junk oc mwd) \<longleftrightarrow> oc_alignment s oc = t \<and> 0 \<le> mwd"
| "legal t s (Cancel h) \<longleftrightarrow> True"
| "legal t s (Cancel_mark h) \<longleftrightarrow> True"
| "legal t s (Set_pri p pri) \<longleftrightarrow> ent_timeline (ents s (pr_owner (procs s p))) = t"
| "legal t s (Set_ve_attached ic v) \<longleftrightarrow> ic_alignment s ic = t"

text \<open>One run of a body; the calls are checked against the state in which they are made.\<close>

fun run_body :: "nat \<Rightarrow> api_call list \<Rightarrow> sim \<Rightarrow> sim_error + sim" where
  "run_body t [] s = Inr s"
| "run_body t (c # cs) s =
     (if legal t s c then (case api c s of Inl e \<Rightarrow> Inl e | Inr s1 \<Rightarrow> run_body t cs s1)
      else Inl Misuse)"


section \<open>Execution of an event\<close>

text \<open>
  The loop over the processes that wait at an inchannel.  Erasing an entry moves the iterator to the
  next one, and the loop then increments it once more: the entry after an erased one is passed over,
  and if the erased one was the last, the iterator moves beyond the end.
\<close>

definition activate_one :: "nat \<Rightarrow> nat \<Rightarrow> nat option \<Rightarrow> ProcessPri \<Rightarrow> sim \<Rightarrow> sim" where
  "activate_one this ic act pp s =
     (let p = pp_proc pp;
          key2 = (if pp_pri pp > 0 then pp_pri pp else sint (pr_pri (procs s p)));
          (h, s1) = new_event this (event_channel EVTYPE_EXEC_ACTIVATE (now s this) key2 ic act (Some p) this) s in
      if ve_attached (ics s ic) then push_ve_sink this h s1 else push_event this h s1)"

fun activate_loop ::
  "nat \<Rightarrow> nat \<Rightarrow> nat option \<Rightarrow> ProcessPri list \<Rightarrow> sim \<Rightarrow> sim_error + ProcessPri list \<times> sim" where
  "activate_loop this ic act [] s = Inr ([], s)"
| "activate_loop this ic act (pp # pps) s =
     (if pp_b pp
      then (case activate_loop this ic act pps (activate_one this ic act pp s) of
              Inl e \<Rightarrow> Inl e | Inr (ws, s3) \<Rightarrow> Inr (pp # ws, s3))
      else (case pps of
              [] \<Rightarrow> Inl Undefined_behaviour
            | q # qs \<Rightarrow>
                (case activate_loop this ic act qs (activate_one this ic act pp s) of
                   Inl e \<Rightarrow> Inl e | Inr (ws, s3) \<Rightarrow> Inr (q # ws, s3))))"

text \<open>From the pop to the \<open>switch\<close>: list 2 is the list of events for virtual machines.\<close>

definition pop_event :: "nat \<Rightarrow> nat \<Rightarrow> nat \<Rightarrow> sim \<Rightarrow> sim" where
  "pop_event this which e s =
     upd_tl this
       (\<lambda>tl. let tl1 = (if which = 2
                        then tl\<lparr>ve_sink_events := remove1 e (ve_sink_events tl),
                               t_prime := if t_prime tl = 0 then ev_time (ev s e) else t_prime tl\<rparr>
                        else tl\<lparr>tl_events := remove1 e (tl_events tl)\<rparr>)
             in tl1\<lparr>tl_time := ev_time (ev s e), executed := executed tl1 + 1,
                    executed_one_window := executed_one_window tl1 + 1\<rparr>) s"

definition count_work :: "nat \<Rightarrow> sim \<Rightarrow> sim" where
  "count_work this = upd_tl this (\<lambda>tl. tl\<lparr>work_executed := work_executed tl + 1,
     work_executed_one_window := work_executed_one_window tl + 1\<rparr>)"

definition set_running :: "nat \<Rightarrow> nat option \<Rightarrow> nat \<Rightarrow> nat option \<Rightarrow> sim \<Rightarrow> sim" where
  "set_running this run p inc s =
     upd_proc p (\<lambda>x. x\<lparr>pr_active := inc\<rparr>) (upd_tl this (\<lambda>tl. tl\<lparr>tl_this := run\<rparr>) s)"

definition put_activeChannel :: "nat \<Rightarrow> nat option \<Rightarrow> sim \<Rightarrow> sim" where
  "put_activeChannel this inc = upd_tl this (\<lambda>tl. tl\<lparr>activeChannel := inc\<rparr>)"

text \<open>The state in which the body of a process starts, for a timeout or for an arrival at \<open>inc\<close>.\<close>

definition enter_body :: "nat \<Rightarrow> nat \<Rightarrow> nat option \<Rightarrow> sim \<Rightarrow> sim" where
  "enter_body this p inc s =
     (let s1 = set_running this (Some p) p inc (count_work this s) in
      case inc of None \<Rightarrow> s1 | Some ic \<Rightarrow> put_activeChannel this (Some ic) s1)"

definition release_event :: "nat \<Rightarrow> sim \<Rightarrow> sim" where
  "release_event e s = s\<lparr>evs := (evs s)(e := None)\<rparr>"

definition dispatch_event :: "nat \<Rightarrow> event \<Rightarrow> api_call list \<Rightarrow> sim \<Rightarrow> sim_error + sim" where
  "dispatch_event this x calls s =
     (case ev_type x of
        EVTYPE_TIMEOUT \<Rightarrow>
          (case ev_proc x of
             None \<Rightarrow> Inl Null_pointer
           | Some p \<Rightarrow>
               (case run_body this calls (enter_body this p None s) of
                  Inl err \<Rightarrow> Inl err
                | Inr s1 \<Rightarrow> Inr (upd_tl this (\<lambda>tl. tl\<lparr>tl_this := None\<rparr>) s1)))
      | EVTYPE_ACTIVATE \<Rightarrow>
          (case ev_inc x of
             None \<Rightarrow> Inl Null_pointer
           | Some ic \<Rightarrow>
               (case activate_loop this ic (ev_act x) (waitingList (ics s ic)) s of
                  Inl err \<Rightarrow> Inl err
                | Inr (ws, s1) \<Rightarrow> Inr (upd_ic ic (\<lambda>c. c\<lparr>waitingList := ws\<rparr>) s1)))
      | EVTYPE_EXEC_ACTIVATE \<Rightarrow>
          (case (ev_proc x, ev_inc x) of
             (Some p, Some ic) \<Rightarrow>
               if ev_act x = None then Inl Assertion_failed
               else (case run_body this calls (enter_body this p (Some ic) s) of
                       Inl err \<Rightarrow> Inl err
                     | Inr s1 \<Rightarrow> Inr (set_running this None p None (put_activeChannel this None s1)))
           | _ \<Rightarrow> Inl Null_pointer)
      | EVTYPE_BIND \<Rightarrow>
          (case (ev_proc x, ev_inc x) of
             (Some p, Some ic) \<Rightarrow>
               Inr (insert_process_pri ic p (ev_bind x) (user_pri (ev_pri x)) (count_work this s))
           | _ \<Rightarrow> Inl Null_pointer)
      | EVTYPE_CANCEL \<Rightarrow>
          Inr (upd_tl this (\<lambda>tl. tl\<lparr>executed := executed tl - 1,
                 executed_one_window := executed_one_window tl - 1\<rparr>) s)
      | EVTYPE_MAKE_APPT \<Rightarrow> Inl Composite_sync
      | EVTYPE_WAIT_APPT \<Rightarrow> Inl Composite_sync
      | EVTYPE_NULL \<Rightarrow> Inr s)"

definition exec_event :: "nat \<Rightarrow> nat \<Rightarrow> nat \<Rightarrow> api_call list \<Rightarrow> sim \<Rightarrow> sim_error + sim" where
  "exec_event this which e calls s =
     (case dispatch_event this (ev s e) calls (pop_event this which e s) of
        Inl err \<Rightarrow> Inl err
      | Inr s1 \<Rightarrow> Inr (release_event e s1))"


section \<open>The end of a window\<close>

definition crossing_changed :: "nat \<Rightarrow> ltime \<Rightarrow> sim \<Rightarrow> sim" where
  "crossing_changed t crossing =
     upd_tl t (\<lambda>tl. if crossing = min_cross_delay tl then tl\<lparr>channels_at_minimum := channels_at_minimum tl + 1\<rparr>
                    else if crossing < min_cross_delay tl then tl\<lparr>recompute_min_delay := True\<rparr>
                    else tl)"

definition apply_map :: "nat \<Rightarrow> mappedChannel \<Rightarrow> sim \<Rightarrow> sim" where
  "apply_map t mc s =
     crossing_changed t (oc_min_write_delay (ocs s (mc_oc mc)) + mc_delay mc)
       (upd_oc (mc_oc mc) (\<lambda>c. c\<lparr>mapped_to := mapped_to c @ [mc]\<rparr>) s)"

definition change_transfer :: "nat \<Rightarrow> nat \<Rightarrow> nat option \<Rightarrow> ltime \<Rightarrow> sim \<Rightarrow> sim" where
  "change_transfer t oc ic delay s =
     (case first_index (\<lambda>m. mc_ic m = ic) (mapped_to (ocs s oc)) of
        None \<Rightarrow> s
      | Some i \<Rightarrow> crossing_changed t (oc_min_write_delay (ocs s oc) + delay) (set_transfer_delay oc i delay s))"

definition apply_delay :: "nat \<Rightarrow> mappedChannel \<Rightarrow> sim \<Rightarrow> sim" where
  "apply_delay t d s =
     (let oc = mc_oc d; delay = mc_delay d in
      if mc_select d
      then (let xtransfer = min_xtransfer_delay oc s; crossing = delay + xtransfer in
            if xtransfer \<ge> -1 \<and> crossing = 0 then s
            else change_transfer t oc (mc_ic d) delay
                   (crossing_changed t crossing (upd_oc oc (\<lambda>c. c\<lparr>oc_min_write_delay := delay\<rparr>) s)))
      else change_transfer t oc (mc_ic d) delay s)"

definition recompute_delays :: "nat \<Rightarrow> sim \<Rightarrow> sim" where
  "recompute_delays t s =
     (if recompute_min_delay (tls s t)
      then let d = min_sync_cross_timeline_delay (window_size (tls s t)) t s in
           upd_tl t (\<lambda>tl. tl\<lparr>min_cross_delay := d, channels_at_minimum := count_min_delay_crossings d t s\<rparr>) s
      else s)"

definition finish_window :: "nat \<Rightarrow> sim \<Rightarrow> sim" where
  "finish_window t s =
     (let s1 = upd_tl t (\<lambda>tl. tl\<lparr>channels_to_map := []\<rparr>) (fold (apply_map t) (channels_to_map (tls s t)) s);
          s2 = upd_tl t (\<lambda>tl. tl\<lparr>delays_to_change := []\<rparr>) (fold (apply_delay t) (delays_to_change (tls s1 t)) s1);
          s3 = recompute_delays t s2 in
      upd_tl t (\<lambda>tl. tl\<lparr>tl_time := stop_before tl - 1, executed_one_window := 0,
                        work_executed_one_window := 0\<rparr>) s3)"

text \<open>The preamble of \<open>sync_window\<close>.\<close>

definition start_window :: "ltime \<Rightarrow> timeline \<Rightarrow> timeline" where
  "start_window edge x =
     x\<lparr>stop_before := edge, tl_state := RUNNING, recompute_min_delay := False,
        tl_window := tl_window x + 1, tl_phase := In_window\<rparr>"

definition get_cross_timeline_events :: "nat \<Rightarrow> sim \<Rightarrow> sim" where
  "get_cross_timeline_events t s =
     (let todo = takeWhile (\<lambda>e. ev_inc (ev s e) \<noteq> None) (window_list (tls s t));
          to_ve = (\<lambda>e. (case ev_inc (ev s e) of None \<Rightarrow> False | Some ic \<Rightarrow> ve_attached (ics s ic)) \<and>
                       (ev_type (ev s e) = EVTYPE_EXEC_ACTIVATE \<or> ev_type (ev s e) = EVTYPE_ACTIVATE)) in
      upd_tl t (\<lambda>tl. tl\<lparr>tl_events := tl_events tl @ filter (\<lambda>e. \<not> to_ve e) todo,
                        ve_sink_events := ve_sink_events tl @ filter to_ve todo,
                        window_list := []\<rparr>) s)"

end
