(* ===== verification/Sim_Barrier.thy ===== *)
theory Sim_Barrier
  imports Sim_State
begin

text \<open>
  The barrier with a min-reduction (\<open>src/full/aux/barrier_mutex.cc\<close>), and the reduction that
  \<open>timeline.cc\<close> performs by hand in front of a POSIX barrier, which is what the Linux build uses
  (\<open>PTHREAD_BARRIER\<close> in \<open>src/full/s3f.h\<close>).  An offer below zero is no offer.
\<close>

datatype barrier_kind = MUTEX_BARRIER | PTHREAD_BARRIER

record barrier_mutex =
  threshold :: nat
  counter :: nat
  cycle :: bool
  valid :: bool
  min_value :: ltime
  reduction_value :: ltime

definition barrier_init :: "nat \<Rightarrow> barrier_mutex" where
  "barrier_init count = \<lparr>threshold = count, counter = count, cycle = False, valid = True,
     min_value = -1, reduction_value = -1\<rparr>"

definition mutex_reduce :: "ltime \<Rightarrow> ltime \<Rightarrow> ltime" where
  "mutex_reduce t m = (if \<not> t < 0 \<and> (m < 0 \<or> m > t) then t else m)"

text \<open>
  The arrival of one thread: the result is what \<open>wait\<close> returns at once (\<open>EINVAL\<close>, or -1 for the last
  thread), or \<open>None\<close> when the thread has to sleep until the cycle changes.
\<close>

definition EINVAL :: int where
  "EINVAL = 22"

definition barrier_wait :: "ltime \<Rightarrow> barrier_mutex \<Rightarrow> int option \<times> barrier_mutex" where
  "barrier_wait t b =
     (if \<not> valid b then (Some EINVAL, b)
      else let b1 = b\<lparr>min_value := mutex_reduce t (min_value b), counter := counter b - 1\<rparr> in
           if counter b1 = 0
           then (Some (-1), b1\<lparr>cycle := \<not> cycle b1, counter := threshold b1,
                              reduction_value := min_value b1, min_value := -1\<rparr>)
           else (None, b1))"

definition EBUSY :: int where
  "EBUSY = 16"

definition barrier_destroy :: "barrier_mutex \<Rightarrow> int \<times> barrier_mutex" where
  "barrier_destroy b =
     (if \<not> valid b then (EINVAL, b)
      else if counter b \<noteq> threshold b then (EBUSY, b)
      else (0, b\<lparr>valid := False\<rparr>))"

fun barrier_waits :: "ltime list \<Rightarrow> barrier_mutex \<Rightarrow> int option list \<times> barrier_mutex" where
  "barrier_waits [] b = ([], b)"
| "barrier_waits (t # ts) b =
     (let (r, b1) = barrier_wait t b; (rs, b2) = barrier_waits ts b1 in (r # rs, b2))"

text \<open>
  The reduction in front of the POSIX barrier: the pair holds \<open>bottom_barrier_min_value\<close> and the
  value it had in the window before.
\<close>

definition pthread_reduce :: "ltime \<Rightarrow> ltime \<Rightarrow> ltime \<Rightarrow> ltime" where
  "pthread_reduce prev t m = (if m = prev \<or> m > t then t else m)"


section \<open>What the reductions compute\<close>

lemma mutex_reduce_fold:
  "fold mutex_reduce ts m =
    (let offers = filter (\<lambda>t. 0 \<le> t) ((if m < 0 then [] else [m]) @ ts) in
     if offers = [] then m else Min (set offers))"
proof (induction ts rule: rev_induct)
  case Nil
  then show ?case by (auto simp: Let_def)
next
  case (snoc t ts)
  show ?case
  proof (cases "t < 0")
    case True
    then show ?thesis using snoc by (simp add: mutex_reduce_def [of t] Let_def)
  next
    case False
    let ?os = "filter (\<lambda>t. 0 \<le> t) ((if m < 0 then [] else [m]) @ ts)"
    show ?thesis
    proof (cases "?os = []")
      case True
      then have "m < 0" by (auto split: if_splits)
      moreover have "fold mutex_reduce ts m = m" using snoc True by (simp add: Let_def)
      ultimately show ?thesis using True False by (auto simp: mutex_reduce_def [of t] Let_def)
    next
      case nonempty: False
      have eq: "fold mutex_reduce ts m = Min (set ?os)" using snoc nonempty by (simp add: Let_def)
      have "Min (set ?os) \<in> set ?os" using nonempty by (intro Min_in) (simp_all only: set_empty finite_set not_False_eq_True)
      then have "0 \<le> Min (set ?os)" by auto
      then have "fold mutex_reduce (ts @ [t]) m = min t (Min (set ?os))"
        using eq False by (auto simp: mutex_reduce_def [of t])
      also have "\<dots> = Min (insert t (set ?os))" using nonempty by (subst Min_insert) (simp_all only: set_empty finite_set not_False_eq_True)
      also have "insert t (set ?os) = set (filter (\<lambda>t. 0 \<le> t) ((if m < 0 then [] else [m]) @ ts @ [t]))"
        using False by auto
      finally show ?thesis using False by (auto simp: Let_def)
    qed
  qed
qed

lemma barrier_waits_before_last:
  assumes "valid b" "length ts < counter b"
  shows "barrier_waits ts b =
    (replicate (length ts) None,
     b\<lparr>min_value := fold mutex_reduce ts (min_value b), counter := counter b - length ts\<rparr>)"
  using assms
proof (induction ts arbitrary: b)
  case (Cons t ts)
  let ?b1 = "b\<lparr>min_value := mutex_reduce t (min_value b), counter := counter b - 1\<rparr>"
  have "barrier_wait t b = (None, ?b1)"
    using Cons.prems by (simp add: barrier_wait_def Let_def)
  moreover have "barrier_waits ts ?b1 = (replicate (length ts) None,
     ?b1\<lparr>min_value := fold mutex_reduce ts (min_value ?b1), counter := counter ?b1 - length ts\<rparr>)"
    using Cons.prems by (intro Cons.IH) auto
  ultimately show ?case by simp
qed simp

lemma barrier_waits_append:
  "barrier_waits (ts @ us) b =
    (let (rs, b1) = barrier_waits ts b; (qs, b2) = barrier_waits us b1 in (rs @ qs, b2))"
  by (induction ts arbitrary: b) (auto simp: Let_def split: prod.splits)

text \<open>
  C19. A round of the mutex barrier.  Whatever the order in which its threads arrive, all but the last
  one sleep, the last one returns -1 and changes the cycle that wakes the others, the reduction is the
  least of the offers that are not negative (-1 when there is none), and the barrier is ready for the
  next round.
\<close>

theorem barrier_round:
  assumes "valid b" "counter b = threshold b" "min_value b = -1" "length ts = threshold b" "ts \<noteq> []"
  shows "barrier_waits ts b =
    (replicate (length ts - 1) None @ [Some (-1)],
     b\<lparr>cycle := \<not> cycle b,
       reduction_value := (if \<exists>t \<in> set ts. 0 \<le> t then Min {t \<in> set ts. 0 \<le> t} else -1)\<rparr>)"
proof -
  obtain us t where ts: "ts = us @ [t]" using assms(5) by (cases ts rule: rev_cases) auto
  let ?b1 = "b\<lparr>min_value := fold mutex_reduce us (-1), counter := 1\<rparr>"
  have "barrier_waits us b = (replicate (length us) None, ?b1)"
    using barrier_waits_before_last [of b us] assms ts by simp
  moreover have "barrier_wait t ?b1 =
     (Some (-1), b\<lparr>cycle := \<not> cycle b, reduction_value := fold mutex_reduce ts (-1)\<rparr>)"
    using assms(1-4) by (simp add: barrier_wait_def ts Let_def)
  moreover have "fold mutex_reduce ts (-1) =
      (if \<exists>t \<in> set ts. 0 \<le> t then Min {t \<in> set ts. 0 \<le> t} else -1)"
    using mutex_reduce_fold [of ts "-1"] by (auto simp: Let_def filter_empty_conv)
  ultimately show ?thesis by (simp add: ts barrier_waits_append)
qed

theorem barrier_round_witness:
  "barrier_waits [7, -1, 4] (barrier_init 3) =
     ([None, None, Some (-1)],
      (barrier_init 3)\<lparr>cycle := True, reduction_value := 4\<rparr>)"
proof -
  have "{t \<in> set [7, -1, 4 :: int]. 0 \<le> t} = {4, 7}" by auto
  then show ?thesis
    using barrier_round [of "barrier_init 3" "[7, -1, 4]"] by (simp add: barrier_init_def)
qed

lemma pthread_reduce_fold_le:
  assumes "m \<noteq> prev" "prev \<notin> set ts"
  shows "fold (pthread_reduce prev) ts m = Min (insert m (set ts))"
  using assms
proof (induction ts arbitrary: m)
  case (Cons t ts)
  have "pthread_reduce prev t m = min m t" using Cons.prems by (auto simp: pthread_reduce_def)
  moreover have "min m t \<noteq> prev" using Cons.prems by (auto simp: min_def)
  ultimately have "fold (pthread_reduce prev) (t # ts) m = Min (insert (min m t) (set ts))"
    using Cons by simp
  also have "\<dots> = Min (insert m (insert t (set ts)))"
    by (cases "ts = []") (auto simp: min.assoc)
  finally show ?case by simp
qed simp

text \<open>
  The reduction in front of the POSIX barrier.  If no offer equals the edge of the window before,
  it computes the least offer.  If the least offer does equal it, a later arrival replaces it: the
  result then depends on the order in which the threads arrive, and can be larger than an offer.
\<close>

theorem pthread_reduce_correct_or_lost:
  fixes ts :: "ltime list" and prev a b :: ltime
  shows "(prev \<notin> set ts \<and> ts \<noteq> [] \<longrightarrow> fold (pthread_reduce prev) ts prev = Min (set ts)) \<and>
    (prev < b \<longrightarrow> fold (pthread_reduce prev) [b, prev] prev = prev \<and>
                   fold (pthread_reduce prev) [prev, b] prev = b)"
proof (intro conjI impI)
  assume asm: "prev \<notin> set ts \<and> ts \<noteq> []"
  then obtain t us where "ts = t # us" by (cases ts) auto
  then show "fold (pthread_reduce prev) ts prev = Min (set ts)"
    using asm pthread_reduce_fold_le [of t prev us] by (simp add: pthread_reduce_def)
qed (auto simp: pthread_reduce_def)

theorem pthread_reduce_correct_or_lost_witness:
  "fold (pthread_reduce 5) [9, 7] 5 = Min {9, 7} \<and> fold (pthread_reduce 5) [5, 9] 5 = 9"
  using pthread_reduce_correct_or_lost [of 5 "[9, 7]" 9] by (simp add: insert_commute)

end
