(* ===== verification/Sim_Engine.thy ===== *)
theory Sim_Engine
  imports Sim_Timeline Sim_Barrier
begin

text \<open>
  The simulation as a whole: construction of a model, its initialisation (\<open>Interface::InitModel\<close>), and
  the threads of all timelines between the barriers of an epoch (\<open>sim_global_scheduler_one_epoch\<close>,
  \<open>thread_function\<close>, \<open>Interface::advance\<close>) as a step relation.
\<close>


section \<open>Construction and initialisation\<close>

text \<open>
  The constructor of a timeline leaves \<open>__stop_before\<close>, \<open>__recompute_min_delay\<close>, \<open>__window\<close> and
  \<open>__window_size\<close> unset; \<open>junk\<close> is what the memory held.
\<close>

definition new_timeline :: "timeline \<Rightarrow> timeline" where
  "new_timeline junk = junk\<lparr>tl_state := INITIALIZING, tl_this := None, entity_list := [],
     min_cross_delay := -1, min_all_delay := -1, min_same_delay := -1, channels_at_minimum := 0,
     tl_time := 0, activeChannel := None, window_list := [], channels_to_map := [],
     delays_to_change := [], out_events := (\<lambda>_. []), tl_events := [], ve_sink_events := [],
     executed := 0, work_executed := 0, executed_one_window := 0, work_executed_one_window := 0,
     evtnum := 0, t_prime := 0, tl_phase := At_epoch\<rparr>"

definition new_sim :: "nat \<Rightarrow> (nat \<Rightarrow> timeline) \<Rightarrow> sim" where
  "new_sim n junk =
     \<lparr>num_timelines = n, tls = (\<lambda>t. new_timeline (junk t)),
      num_entities = 0,
      ents = (\<lambda>_. \<lparr>ent_timeline = 0, outchannel_list = [], inchannel_list = [], process_list = []\<rparr>),
      num_processes = 0,
      procs = (\<lambda>_. \<lparr>pr_owner = 0, pr_active = None, pr_pri = 0, pr_alignment = 0\<rparr>),
      num_inchannels = 0, ics = (\<lambda>_. \<lparr>ic_owner = 0, waitingList = [], ve_attached = False\<rparr>),
      num_outchannels = 0, ocs = (\<lambda>_. \<lparr>oc_owner = 0, oc_min_write_delay = 0, mapped_to = []\<rparr>),
      evs = (\<lambda>_. None), next_ev = 0, next_msg = 0,
      bottom_min = -1, bottom_prev = -1, epoch_end = 0, sim_clock = 0\<rparr>"

text \<open>The loop of \<open>initialize_appt\<close> over the mappings of one outchannel.\<close>

definition appt_mapping :: "nat \<Rightarrow> nat \<Rightarrow> mappedChannel \<Rightarrow> sim \<Rightarrow> sim" where
  "appt_mapping t oc m s =
     (case mc_ic m of
        Some ic \<Rightarrow>
          if mc_xtimeline m
          then let lookahead = oc_min_write_delay (ocs s oc) + mc_delay m; tgt = ic_alignment s ic in
               upd_tl t (\<lambda>tl. if out_lookahead tl tgt < 0 \<or> lookahead < out_lookahead tl tgt
                              then tl\<lparr>out_lookahead := (out_lookahead tl)(tgt := lookahead)\<rparr> else tl) s
          else s
      | None \<Rightarrow> s)"

definition appt_channel :: "nat \<Rightarrow> ltime \<Rightarrow> nat \<Rightarrow> sim \<Rightarrow> sim" where
  "appt_channel t thrs oc s =
     fold (appt_mapping t oc) (mapped_to (ocs s oc))
       (upd_oc oc (\<lambda>c. c\<lparr>mapped_to := map (\<lambda>m. if mc_xtimeline m
          then m\<lparr>mc_asynchronous := (oc_min_write_delay c + mc_delay m < thrs)\<rparr> else m) (mapped_to c)\<rparr>) s)"

text \<open>An appointment with timeline \<open>i\<close>, for which the least lookahead is below the threshold.\<close>

definition make_appt :: "nat \<Rightarrow> ltime \<Rightarrow> nat \<Rightarrow> sim \<Rightarrow> sim" where
  "make_appt t thrs i s =
     (let la = out_lookahead (tls s t) i in
      if la \<noteq> -1 \<and> la < thrs
      then let (e, s1) = new_event t (event_appt la (min_sched_pri - 1) i EVTYPE_MAKE_APPT t) s;
               (f, s2) = new_event t (event_appt la min_sched_pri t EVTYPE_WAIT_APPT i) (push_event t e s1)
           in push_event i f s2
      else s)"

definition initialize_appt :: "nat \<Rightarrow> ltime \<Rightarrow> sim \<Rightarrow> sim" where
  "initialize_appt t thrs s =
     (let s1 = upd_tl t (\<lambda>tl. tl\<lparr>window_size := thrs, in_waiting := (\<lambda>_. False),
                 in_appointment := (\<lambda>_. -1), out_lookahead := (\<lambda>_. -1)\<rparr>) s;
          s2 = fold (appt_channel t thrs)
                 (concat (map (\<lambda>e. outchannel_list (ents s e)) (entity_list (tls s t)))) s1
      in fold (make_appt t thrs) [0 ..< num_timelines s] s2)"

definition init_timeline :: "ltime \<Rightarrow> nat \<Rightarrow> sim \<Rightarrow> sim" where
  "init_timeline thrs t s =
     (let s1 = upd_tl t (\<lambda>tl. tl\<lparr>min_cross_delay := min_sync_cross_timeline_delay thrs t s,
                 window_size := thrs\<rparr>) s;
          s2 = initialize_appt t thrs s1 in
      if entity_list (tls s2 t) = [] then s2
      else upd_tl t (\<lambda>tl. tl\<lparr>channels_at_minimum := count_min_delay_crossings thrs t s2\<rparr>) s2)"

text \<open>
  \<open>InitModel\<close> after the calls of \<open>init\<close> of the entities; without composite synchronisation the
  threshold is 0.
\<close>

definition InitModel :: "sim \<Rightarrow> sim" where
  "InitModel s = fold (init_timeline 0) [0 ..< num_timelines s] s"

text \<open>
  Everything a model can do before the simulation runs: build objects, and call the operations of the
  engine from the constructors and from \<open>init\<close>.  The predicate \<open>ok\<close> picks the calls a model may make.
\<close>

inductive built :: "(api_call \<Rightarrow> bool) \<Rightarrow> sim \<Rightarrow> bool" for ok where
  new: "0 < n \<Longrightarrow> built ok (new_sim n junk)"
| entity: "built ok s \<Longrightarrow> t < num_timelines s \<Longrightarrow> built ok (snd (BuildEntity t s))"
| process: "built ok s \<Longrightarrow> e < num_entities s \<Longrightarrow> built ok (snd (new_process e s))"
| process_named: "built ok s \<Longrightarrow> e < num_entities s \<Longrightarrow> built ok (snd (new_process_named junk_pr e s))"
| inchannel: "built ok s \<Longrightarrow> e < num_entities s \<Longrightarrow> built ok (snd (new_inchannel e s))"
| outchannel: "built ok s \<Longrightarrow> e < num_entities s \<Longrightarrow> 0 \<le> mwd \<Longrightarrow> built ok (snd (new_outchannel e mwd s))"
| call: "built ok s \<Longrightarrow> t < num_timelines s \<Longrightarrow> ok c \<Longrightarrow> legal t s c \<Longrightarrow> api c s = Inr s1 \<Longrightarrow> built ok s1"


section \<open>Windows and epochs\<close>

definition offer_value :: "nat \<Rightarrow> sim \<Rightarrow> ltime option" where
  "offer_value t s =
     (let nxt_time = next_time s t; time = now s t; d = min_cross_delay (tls s t) in
      if nxt_time < 0 \<or> d < 0
      then let this_window = max time nxt_time + window_size (tls s t) in
           if this_window > time then Some this_window else None
      else Some (max time nxt_time + max 0 d))"

definition barrier_offer :: "barrier_kind \<Rightarrow> ltime option \<Rightarrow> sim \<Rightarrow> sim" where
  "barrier_offer b v s =
     (case v of
        None \<Rightarrow> s
      | Some t \<Rightarrow> s\<lparr>bottom_min :=
          (case b of MUTEX_BARRIER \<Rightarrow> mutex_reduce t (bottom_min s)
           | PTHREAD_BARRIER \<Rightarrow> pthread_reduce (bottom_prev s) t (bottom_min s))\<rparr>)"

definition window_edge :: "sim \<Rightarrow> ltime" where
  "window_edge s = (if bottom_min s \<le> 0 then epoch_end s else min (bottom_min s) (epoch_end s))"

text \<open>
  With the POSIX barrier one of the threads, the serial one, remembers the minimum, but only if it had
  a value to offer.
\<close>

definition barrier_release :: "barrier_kind \<Rightarrow> bool \<Rightarrow> sim \<Rightarrow> sim" where
  "barrier_release b serial_offered s =
     (case b of
        MUTEX_BARRIER \<Rightarrow> s\<lparr>bottom_min := -1\<rparr>
      | PTHREAD_BARRIER \<Rightarrow> if serial_offered then s\<lparr>bottom_prev := bottom_min s\<rparr> else s)"

definition upd_all :: "(timeline \<Rightarrow> timeline) \<Rightarrow> sim \<Rightarrow> sim" where
  "upd_all f s = s\<lparr>tls := (\<lambda>t. if t < num_timelines s then f (tls s t) else tls s t)\<rparr>"

definition all_in :: "phase \<Rightarrow> sim \<Rightarrow> bool" where
  "all_in p s \<longleftrightarrow> (\<forall>t < num_timelines s. tl_phase (tls s t) = p)"

text \<open>From the top of the loop to the bottom barrier; a single timeline has no barrier to wait at.\<close>

definition begin_window :: "barrier_kind \<Rightarrow> nat \<Rightarrow> sim \<Rightarrow> sim" where
  "begin_window b t s =
     (let s1 = upd_tl t (\<lambda>tl. tl\<lparr>tl_state := BLOCKED\<rparr>) (get_cross_timeline_events t s) in
      if num_timelines s > 1
      then upd_tl t (\<lambda>tl. tl\<lparr>tl_phase := At_bottom\<rparr>) (barrier_offer b (offer_value t s1) s1)
      else upd_tl t (start_window (epoch_end s)) s1)"

text \<open>
  All threads leave the bottom barrier; \<open>t\<close> is the serial one.  What it computed its offer from has not
  changed while it waited.
\<close>

definition release_window :: "barrier_kind \<Rightarrow> nat \<Rightarrow> sim \<Rightarrow> sim" where
  "release_window b t s = barrier_release b (offer_value t s \<noteq> None) (upd_all (start_window (window_edge s)) s)"

definition end_window :: "nat \<Rightarrow> sim \<Rightarrow> sim" where
  "end_window t s = upd_tl t (\<lambda>tl. tl\<lparr>tl_state := BLOCKED, tl_phase := At_end\<rparr>) (finish_window t s)"

definition next_window :: "sim \<Rightarrow> sim" where
  "next_window s = upd_all (\<lambda>tl. tl\<lparr>tl_phase := At_top\<rparr>) s"

definition end_epoch :: "sim \<Rightarrow> sim" where
  "end_epoch s = (upd_all (\<lambda>tl. tl\<lparr>tl_phase := At_epoch\<rparr>) s)\<lparr>sim_clock := epoch_end s\<rparr>"

text \<open>\<open>Interface::advance(t)\<close>: a thread whose clock already reached the end of the epoch returns.\<close>

definition advance :: "ltime \<Rightarrow> sim \<Rightarrow> sim" where
  "advance d s =
     (let s1 = s\<lparr>epoch_end := sim_clock s + d\<rparr> in
      upd_all (\<lambda>tl. tl\<lparr>tl_phase := (if epoch_end s1 \<le> tl_time tl + 1 then Exited else At_top)\<rparr>) s1)"

definition pending :: "timeline \<Rightarrow> nat set" where
  "pending x = set (tl_events x) \<union> set (ve_sink_events x)"

text \<open>
  The event that \<open>sync_window\<close> executes next: the top of one of the two lists, chosen by
  \<open>select_next_event\<close>, and before the end of the window.
\<close>

definition top_of :: "sim \<Rightarrow> nat list \<Rightarrow> nat option \<Rightarrow> bool" where
  "top_of s q r = (case r of None \<Rightarrow> q = [] | Some e \<Rightarrow> is_top s q e)"

definition selects :: "sim \<Rightarrow> nat \<Rightarrow> nat \<Rightarrow> nat \<Rightarrow> bool" where
  "selects s t which e \<longleftrightarrow>
     (\<exists>a b. top_of s (tl_events (tls s t)) a \<and> top_of s (ve_sink_events (tls s t)) b \<and>
        fst (select_next_event s a b) = which \<and> which \<noteq> 0 \<and>
        (if which = 1 then a else b) = Some e \<and>
        snd (select_next_event s a b) < stop_before (tls s t))"

inductive sim_step :: "barrier_kind \<Rightarrow> (api_call \<Rightarrow> bool) \<Rightarrow> sim \<Rightarrow> sim \<Rightarrow> bool" for b allowed where
  advance: "all_in At_epoch s \<Longrightarrow> sim_step b allowed s (advance d s)"
| begin_window: "t < num_timelines s \<Longrightarrow> tl_phase (tls s t) = At_top \<Longrightarrow>
    sim_step b allowed s (begin_window b t s)"
| release: "all_in At_bottom s \<Longrightarrow> t < num_timelines s \<Longrightarrow> sim_step b allowed s (release_window b t s)"
| exec: "t < num_timelines s \<Longrightarrow> tl_phase (tls s t) = In_window \<Longrightarrow> selects s t which e \<Longrightarrow>
    list_all allowed calls \<Longrightarrow> exec_event t which e calls s = Inr s1 \<Longrightarrow> sim_step b allowed s s1"
| end_window: "t < num_timelines s \<Longrightarrow> tl_phase (tls s t) = In_window \<Longrightarrow>
    \<forall>e \<in> pending (tls s t). stop_before (tls s t) \<le> ev_time (ev s e) \<Longrightarrow>
    sim_step b allowed s (end_window t s)"
| next_window: "all_in At_end s \<Longrightarrow> \<forall>t < num_timelines s. stop_before (tls s t) < epoch_end s \<Longrightarrow>
    sim_step b allowed s (next_window s)"
| end_epoch: "all_in At_end s \<Longrightarrow> \<forall>t < num_timelines s. \<not> stop_before (tls s t) < epoch_end s \<Longrightarrow>
    sim_step b allowed s (end_epoch s)"

inductive sim_reach :: "barrier_kind \<Rightarrow> (api_call \<Rightarrow> bool) \<Rightarrow> (api_call \<Rightarrow> bool) \<Rightarrow> sim \<Rightarrow> bool" for b ok allowed where
  init: "built ok s \<Longrightarrow> sim_reach b ok allowed (InitModel s)"
| step: "sim_reach b ok allowed s \<Longrightarrow> sim_step b allowed s s1 \<Longrightarrow> sim_reach b ok allowed s1"

end
