(* ===== verification/Sim_Causality.thy ===== *)
theory Sim_Causality
  imports Sim_Engine
begin

text \<open>
  The invariants of a running simulation, and what follows from them: no timeline ever executes an
  event before its clock, whatever the interleaving of the threads, the bodies of the processes and the
  result of the min-reduction.
\<close>

lemmas sim_upds = upd_tl_def upd_ic_def upd_oc_def upd_proc_def upd_ent_def


section \<open>Well-formed event lists\<close>

definition qs :: "timeline \<Rightarrow> nat list" where
  "qs x = tl_events x @ ve_sink_events x @ window_list x"

definition ev_ok :: "sim \<Rightarrow> nat \<Rightarrow> nat \<Rightarrow> bool" where
  "ev_ok s t e \<longleftrightarrow> (\<exists>x. evs s e = Some x \<and> ev_home x = t \<and>
     ev_type x \<noteq> EVTYPE_WAIT_APPT \<and> ev_type x \<noteq> EVTYPE_MAKE_APPT)"

definition delays_ok :: "sim \<Rightarrow> bool" where
  "delays_ok s \<longleftrightarrow>
     (\<forall>oc. 0 \<le> oc_min_write_delay (ocs s oc) \<and> (\<forall>m \<in> set (mapped_to (ocs s oc)). 0 \<le> mc_delay m)) \<and>
     (\<forall>t. \<forall>m \<in> set (channels_to_map (tls s t)) \<union> set (delays_to_change (tls s t)). 0 \<le> mc_delay m)"

definition base :: "sim \<Rightarrow> bool" where
  "base s \<longleftrightarrow> (\<forall>e. ent_timeline (ents s e) < num_timelines s) \<and>
     (\<forall>e. evs s e \<noteq> None \<longrightarrow> e < next_ev s) \<and>
     (\<forall>t. distinct (qs (tls s t)) \<and> (\<forall>e \<in> set (qs (tls s t)). ev_ok s t e)) \<and> delays_ok s"

text \<open>
  What the calls of timeline \<open>t\<close> may do: add fresh events that are not in its past to its own lists,
  and fresh events from its horizon on to the window lists of the others.
\<close>

definition ext :: "nat \<Rightarrow> sim \<Rightarrow> sim \<Rightarrow> bool" where
  "ext t s s1 \<longleftrightarrow>
     num_timelines s1 = num_timelines s \<and> ents s1 = ents s \<and>
     bottom_min s1 = bottom_min s \<and> bottom_prev s1 = bottom_prev s \<and>
     epoch_end s1 = epoch_end s \<and> sim_clock s1 = sim_clock s \<and> next_ev s \<le> next_ev s1 \<and>
     (\<forall>u. tl_time (tls s1 u) = tl_time (tls s u) \<and> stop_before (tls s1 u) = stop_before (tls s u) \<and>
          tl_phase (tls s1 u) = tl_phase (tls s u)) \<and>
     (\<forall>e x. evs s e = Some x \<longrightarrow>
        (\<exists>y. evs s1 e = Some y \<and> ev_time y = ev_time x \<and> ev_home y = ev_home x)) \<and>
     (\<forall>u e. e \<in> pending (tls s1 u) \<longrightarrow> e \<in> pending (tls s u) \<or>
        (u = t \<and> next_ev s \<le> e \<and> tl_time (tls s t) \<le> ev_time (ev s1 e))) \<and>
     (\<forall>u e. e \<in> set (window_list (tls s1 u)) \<longrightarrow> e \<in> set (window_list (tls s u)) \<or>
        (u \<noteq> t \<and> next_ev s \<le> e \<and> tl_time (tls s t) \<le> ev_time (ev s1 e) \<and>
         stop_before (tls s t) \<le> ev_time (ev s1 e)))"

definition moves :: "nat \<Rightarrow> sim \<Rightarrow> sim \<Rightarrow> bool" where
  "moves t s s1 \<longleftrightarrow> base s1 \<and> ext t s s1"

lemma ev_Some [simp]: "evs s e = Some x \<Longrightarrow> ev s e = x"
  by (simp add: ev_def)

lemma ext_refl [simp]: "ext t s s"
  by (auto simp: ext_def)

lemma baseD:
  assumes "base s" "e \<in> set (qs (tls s t))"
  shows "evs s e \<noteq> None" "ev_home (ev s e) = t" "e < next_ev s"
    "ev_type (ev s e) \<noteq> EVTYPE_WAIT_APPT" "ev_type (ev s e) \<noteq> EVTYPE_MAKE_APPT"
proof -
  have ok: "ev_ok s t e" using assms by (auto simp: base_def)
  then obtain x where x: "evs s e = Some x" "ev_home x = t" "ev_type x \<noteq> EVTYPE_WAIT_APPT"
    "ev_type x \<noteq> EVTYPE_MAKE_APPT"
    by (auto simp: ev_ok_def)
  then show "evs s e \<noteq> None" "ev_home (ev s e) = t" "ev_type (ev s e) \<noteq> EVTYPE_WAIT_APPT"
    "ev_type (ev s e) \<noteq> EVTYPE_MAKE_APPT" by auto
  show "e < next_ev s" using assms x by (auto simp: base_def)
qed

lemma pending_qs: "e \<in> pending x \<Longrightarrow> e \<in> set (qs x)" "e \<in> set (window_list x) \<Longrightarrow> e \<in> set (qs x)"
  by (auto simp: pending_def qs_def)

lemma ext_Some:
  "ext t s s1 \<Longrightarrow> evs s e = Some x \<Longrightarrow>
   \<exists>y. evs s1 e = Some y \<and> ev_time y = ev_time x \<and> ev_home y = ev_home x"
  unfolding ext_def by (elim conjE) blast

lemma ext_ev: "ext t s s1 \<Longrightarrow> evs s e \<noteq> None \<Longrightarrow> ev_time (ev s1 e) = ev_time (ev s e) \<and> ev_home (ev s1 e) = ev_home (ev s e)"
  using ext_Some [of t s s1 e] by (cases "evs s e") auto

lemma ext_trans:
  assumes "base s1" "ext t s s1" "ext t s1 s2"
  shows "ext t s s2"
proof -
  have keep: "ev_time (ev s2 e) = ev_time (ev s1 e)" if "e \<in> set (qs (tls s1 u))" for e u
    using ext_ev [OF assms(3)] baseD(1) [OF assms(1) that] by blast
  have p: "e \<in> pending (tls s u) \<or> (u = t \<and> next_ev s \<le> e \<and> tl_time (tls s t) \<le> ev_time (ev s2 e))"
    if "e \<in> pending (tls s2 u)" for u e
  proof (cases "e \<in> pending (tls s1 u)")
    case True
    then have "e \<in> set (qs (tls s1 u))" by (rule pending_qs)
    with True keep show ?thesis using assms(2) by (auto simp: ext_def)
  next
    case False
    with that assms(3) have "u = t" "next_ev s1 \<le> e" "tl_time (tls s1 t) \<le> ev_time (ev s2 e)"
      by (auto simp: ext_def)
    with assms(2) show ?thesis by (auto simp: ext_def)
  qed
  have w: "e \<in> set (window_list (tls s u)) \<or> (u \<noteq> t \<and> next_ev s \<le> e \<and>
      tl_time (tls s t) \<le> ev_time (ev s2 e) \<and> stop_before (tls s t) \<le> ev_time (ev s2 e))"
    if "e \<in> set (window_list (tls s2 u))" for u e
  proof (cases "e \<in> set (window_list (tls s1 u))")
    case True
    then have "e \<in> set (qs (tls s1 u))" by (rule pending_qs)
    with True keep show ?thesis using assms(2) by (auto simp: ext_def)
  next
    case False
    with that assms(3) have "u \<noteq> t" "next_ev s1 \<le> e" "tl_time (tls s1 t) \<le> ev_time (ev s2 e)"
      "stop_before (tls s1 t) \<le> ev_time (ev s2 e)"
      by (auto simp: ext_def)
    with assms(2) show ?thesis by (auto simp: ext_def)
  qed
  have x: "\<exists>y. evs s2 e = Some y \<and> ev_time y = ev_time x \<and> ev_home y = ev_home x"
    if "evs s e = Some x" for e x
    using ext_Some [OF assms(2) that] ext_Some [OF assms(3)] by fastforce
  from assms(2,3) have "num_timelines s2 = num_timelines s" "ents s2 = ents s"
    "bottom_min s2 = bottom_min s" "bottom_prev s2 = bottom_prev s" "epoch_end s2 = epoch_end s"
    "sim_clock s2 = sim_clock s" "next_ev s \<le> next_ev s2"
    "\<forall>u. tl_time (tls s2 u) = tl_time (tls s u) \<and> stop_before (tls s2 u) = stop_before (tls s u) \<and>
       tl_phase (tls s2 u) = tl_phase (tls s u)"
    by (simp_all add: ext_def)
  with p w x show ?thesis unfolding ext_def by blast
qed

lemma moves_trans: "moves t s s1 \<Longrightarrow> moves t s1 s2 \<Longrightarrow> moves t s s2"
  using ext_trans by (auto simp: moves_def)

lemma moves_refl: "base s \<Longrightarrow> moves t s s"
  by (simp add: moves_def)

text \<open>Steps that leave the event lists and the clocks alone.\<close>

definition same_core :: "sim \<Rightarrow> sim \<Rightarrow> bool" where
  "same_core s s1 \<longleftrightarrow>
     num_timelines s1 = num_timelines s \<and> ents s1 = ents s \<and>
     bottom_min s1 = bottom_min s \<and> bottom_prev s1 = bottom_prev s \<and>
     epoch_end s1 = epoch_end s \<and> sim_clock s1 = sim_clock s \<and> next_ev s1 = next_ev s \<and> evs s1 = evs s \<and>
     (\<forall>u. tl_time (tls s1 u) = tl_time (tls s u) \<and> stop_before (tls s1 u) = stop_before (tls s u) \<and>
          tl_phase (tls s1 u) = tl_phase (tls s u) \<and> tl_events (tls s1 u) = tl_events (tls s u) \<and>
          ve_sink_events (tls s1 u) = ve_sink_events (tls s u) \<and> window_list (tls s1 u) = window_list (tls s u))"

lemma same_core_refl [simp]: "same_core s s"
  by (simp add: same_core_def)

lemma same_core_trans: "same_core s s1 \<Longrightarrow> same_core s1 s2 \<Longrightarrow> same_core s s2"
  by (simp add: same_core_def)

lemma same_core_upds [simp]:
  "same_core s (upd_ic ic f s)" "same_core s (upd_oc oc g s)" "same_core s (upd_proc p h s)"
  "same_core s (s\<lparr>next_msg := n\<rparr>)"
  by (simp_all add: same_core_def sim_upds)

lemma same_core_upd_tl:
  assumes "tl_time (f (tls s t)) = tl_time (tls s t)" "stop_before (f (tls s t)) = stop_before (tls s t)"
    "tl_phase (f (tls s t)) = tl_phase (tls s t)" "qs (f (tls s t)) = qs (tls s t)"
    "tl_events (f (tls s t)) = tl_events (tls s t)" "ve_sink_events (f (tls s t)) = ve_sink_events (tls s t)"
  shows "same_core s (upd_tl t f s)"
  using assms by (auto simp: same_core_def sim_upds qs_def)

lemma moves_frame:
  assumes "base s" "same_core s s1" "delays_ok s1"
  shows "moves t s s1"
proof -
  have "ev s1 = ev s" using assms(2) by (auto simp: same_core_def ev_def)
  moreover have "qs (tls s1 u) = qs (tls s u)" "pending (tls s1 u) = pending (tls s u)" for u
    using assms(2) by (auto simp: same_core_def qs_def pending_def)
  ultimately show ?thesis
    using assms by (auto simp: moves_def base_def ext_def same_core_def ev_ok_def)
qed

text \<open>A new event, put into a list of its home timeline.\<close>

lemma base_fresh: "base s \<Longrightarrow> evs s (next_ev s) = None"
  by (metis base_def less_irrefl)

lemma fresh_notin: "base s \<Longrightarrow> next_ev s \<notin> set (qs (tls s u))"
  using baseD(3) by blast

lemma moves_add:
  assumes b: "base s"
    and core: "num_timelines s1 = num_timelines s" "ents s1 = ents s" "bottom_min s1 = bottom_min s"
      "bottom_prev s1 = bottom_prev s" "epoch_end s1 = epoch_end s" "sim_clock s1 = sim_clock s"
    and new: "next_ev s1 = Suc (next_ev s)" "evs s1 = (evs s)(next_ev s := Some x)"
    and tl: "\<And>u. tl_time (tls s1 u) = tl_time (tls s u) \<and> stop_before (tls s1 u) = stop_before (tls s u) \<and>
          tl_phase (tls s1 u) = tl_phase (tls s u)"
    and others: "\<And>u. u \<noteq> ev_home x \<Longrightarrow> tl_events (tls s1 u) = tl_events (tls s u) \<and>
          ve_sink_events (tls s1 u) = ve_sink_events (tls s u) \<and> window_list (tls s1 u) = window_list (tls s u)"
    and home: "let a = tls s (ev_home x); c = tls s1 (ev_home x); n = next_ev s in
       (ev_home x = t \<and> tl_events c = tl_events a @ [n] \<and> ve_sink_events c = ve_sink_events a \<and> window_list c = window_list a) \<or>
       (ev_home x = t \<and> tl_events c = tl_events a \<and> ve_sink_events c = ve_sink_events a @ [n] \<and> window_list c = window_list a) \<or>
       (ev_home x \<noteq> t \<and> tl_events c = tl_events a \<and> ve_sink_events c = ve_sink_events a \<and>
        (window_list c = window_list a \<or> window_list c = window_list a @ [n] \<and> stop_before (tls s t) \<le> ev_time x))"
    and due: "tl_time (tls s t) \<le> ev_time x"
    and type: "ev_type x \<noteq> EVTYPE_WAIT_APPT" "ev_type x \<noteq> EVTYPE_MAKE_APPT"
    and del: "delays_ok s1"
  shows "moves t s s1"
proof -
  let ?n = "next_ev s" let ?h = "ev_home x"
  have evn: "ev s1 ?n = x" using new by (simp add: ev_def)
  have q: "(set (qs (tls s1 u)) \<subseteq> insert ?n (set (qs (tls s u))) \<and> distinct (qs (tls s1 u))) \<and>
      (u \<noteq> ?h \<longrightarrow> qs (tls s1 u) = qs (tls s u))" for u
  proof (cases "u = ?h")
    case True
    have "distinct (qs (tls s ?h))" "?n \<notin> set (qs (tls s ?h))"
      using b fresh_notin [OF b] by (auto simp: base_def)
    with home True show ?thesis by (auto simp: qs_def Let_def)
  next
    case False
    then have "qs (tls s1 u) = qs (tls s u)" using others by (simp add: qs_def)
    then show ?thesis using b by (auto simp: base_def)
  qed
  have ok: "ev_ok s1 u e" if "e \<in> set (qs (tls s1 u))" for u e
  proof (cases "e \<in> set (qs (tls s u))")
    case True
    then have "ev_ok s u e" "e \<noteq> ?n" using b baseD(3) [OF b] by (auto simp: base_def)
    then show ?thesis using new by (auto simp: ev_ok_def)
  next
    case False
    with q that have "e = ?n" "u = ?h" by (blast, metis)
    then show ?thesis using new type by (simp add: ev_ok_def)
  qed
  have "base s1"
    using b q ok core new del by (auto simp: base_def less_Suc_eq split: if_splits)
  moreover have "ext t s s1"
  proof -
    have p: "e \<in> pending (tls s u) \<or> (u = t \<and> ?n \<le> e \<and> tl_time (tls s t) \<le> ev_time (ev s1 e))"
      if "e \<in> pending (tls s1 u)" for u e
      using that home others [of u] evn due by (cases "u = ?h") (auto simp: pending_def Let_def)
    have w: "e \<in> set (window_list (tls s u)) \<or> (u \<noteq> t \<and> ?n \<le> e \<and>
        tl_time (tls s t) \<le> ev_time (ev s1 e) \<and> stop_before (tls s t) \<le> ev_time (ev s1 e))"
      if "e \<in> set (window_list (tls s1 u))" for u e
      using that home others [of u] evn due by (cases "u = ?h") (auto simp: Let_def)
    have e: "\<exists>y. evs s1 e = Some y \<and> ev_time y = ev_time z \<and> ev_home y = ev_home z" if "evs s e = Some z" for e z
      using that new base_fresh [OF b] by (auto split: if_splits)
    show ?thesis using core new tl p w e unfolding ext_def by simp
  qed
  ultimately show ?thesis by (simp add: moves_def)
qed

lemmas event_mk = event_timeout_def event_channel_def event_bind_def event_appt_def event_null_def

lemma base_delays: "base s \<Longrightarrow> delays_ok s"
  by (simp add: base_def)

lemma delays_ok_cong:
  assumes "delays_ok s" "ocs s1 = ocs s"
    "\<And>u. channels_to_map (tls s1 u) = channels_to_map (tls s u) \<and> delays_to_change (tls s1 u) = delays_to_change (tls s u)"
  shows "delays_ok s1"
  using assms by (simp add: delays_ok_def)

lemma schedule_process_moves:
  assumes "base s" "tl_time (tls s this) \<le> t" "schedule_process this p t pri act s = Inr (h, s1)"
  shows "moves this s s1"
proof -
  have s1: "s1 = push_event this (next_ev s) (snd (new_event this (event_timeout t (sint pri) p act this) s))"
    using assms(3) by (auto simp: schedule_process_def new_event_def split: if_splits)
  have "delays_ok s1"
    by (rule delays_ok_cong [OF base_delays [OF assms(1)]])
      (auto simp: s1 push_event_def new_event_def sim_upds)
  with assms(1,2) show ?thesis
    by (intro moves_add [where x = "event_timeout t (sint pri) p act this (evtnum (tls s this))"])
      (auto simp: s1 push_event_def new_event_def sim_upds event_mk)
qed

lemma schedule_bind_moves:
  assumes "base s"
  shows "moves this s (schedule_bind this ic p b pri s)"
proof -
  let ?s1 = "schedule_bind this ic p b pri s"
  have "delays_ok ?s1"
    by (rule delays_ok_cong [OF base_delays [OF assms(1)]])
      (auto simp: schedule_bind_def push_event_def new_event_def sim_upds)
  with assms show ?thesis
    by (intro moves_add [where x = "event_bind (now s this) (sint pri) ic p b pri this (evtnum (tls s this))"])
      (auto simp: schedule_bind_def push_event_def new_event_def sim_upds event_mk now_def)
qed

lemma schedule_channel_moves:
  assumes "base s" "tl_time (tls s this) \<le> t"
  shows "moves this s (snd (schedule_channel this ic t pri act s))"
proof -
  let ?s1 = "snd (schedule_channel this ic t pri act s)"
  have "delays_ok ?s1"
    by (rule delays_ok_cong [OF base_delays [OF assms(1)]])
      (auto simp: schedule_channel_def push_event_def push_ve_sink_def new_event_def sim_upds Let_def)
  with assms show ?thesis
    by (intro moves_add [where x = "event_channel EVTYPE_ACTIVATE t 0 ic act None (ic_alignment s ic) (evtnum (tls s this))"])
      (auto simp: schedule_channel_def push_event_def push_ve_sink_def new_event_def sim_upds event_mk
         horizon_def Let_def)
qed

lemma waitFor_moves:
  assumes "base s" "waitFor ent p act delay pri s = Inr (h, s1)" "ent_timeline (ents s ent) = t" "0 \<le> delay"
  shows "moves t s s1"
proof -
  obtain q where "schedule_process t q (tl_time (tls s t) + delay) (user_pri pri) act s = Inr (h, s1)"
    using assms(2,3) by (auto simp: waitFor_def Let_def now_def split: option.splits)
  then show ?thesis using assms(1,4) by (intro schedule_process_moves) auto
qed

lemma insertion_gateway_moves:
  assumes "base s" "insertion_gateway ic p b pri s = Inr s1" "ic_alignment s ic = t"
  shows "moves t s s1"
proof (cases "activeChannel (tls s t) = Some ic")
  case True
  then have "s1 = schedule_bind t ic p b (user_pri pri) s"
    using assms by (auto simp: insertion_gateway_def Let_def split: if_splits)
  then show ?thesis using schedule_bind_moves [OF assms(1)] by simp
next
  case False
  then have s1: "s1 = insert_process_pri ic p b (user_pri pri) s"
    using assms by (auto simp: insertion_gateway_def Let_def split: if_splits)
  moreover have "delays_ok s1"
    by (rule delays_ok_cong [OF base_delays [OF assms(1)]]) (auto simp: s1 insert_process_pri_def sim_upds)
  ultimately show ?thesis
    using assms(1) by (intro moves_frame) (auto simp: insert_process_pri_def)
qed

lemma moves_tl_time: "moves t s s1 \<Longrightarrow> tl_time (tls s1 u) = tl_time (tls s u)"
  by (simp add: moves_def ext_def)

lemma moves_base: "moves t s s1 \<Longrightarrow> base s1"
  by (simp add: moves_def)

lemma clone_moves: "base s \<Longrightarrow> moves t s (snd (clone_msg s))"
  by (auto simp: clone_msg_def intro!: moves_frame delays_ok_cong [OF base_delays])

lemma write_loop_moves:
  assumes "base s" "\<forall>m \<in> set ms. 0 \<le> mc_delay m" "0 \<le> mwd" "tl_time (tls s this) \<le> d1"
    "write_loop this act d1 mwd hz pri ms al os s = Inr (al1, os1, s1)"
  shows "moves this s s1"
  using assms
proof (induction ms arbitrary: al os s)
  case Nil
  then show ?case by (simp add: moves_refl)
next
  case (Cons m ms)
  let ?d2 = "d1 + mc_delay m + mwd"
  show ?case
  proof (cases "\<not> mc_xtimeline m \<or> hz \<le> ?d2 \<or> mc_asynchronous m")
    case False
    then have "write_loop this act d1 mwd hz pri ms False os s = Inr (al1, os1, s1)"
      using Cons.prems(5) by (simp add: Let_def)
    then show ?thesis using Cons.prems by (intro Cons.IH) auto
  next
    case True
    then obtain ic where ic: "mc_ic m = Some ic"
      using Cons.prems(5) by (cases "mc_ic m") (simp_all add: Let_def)
    let ?p = "if os then clone_msg s else (act, s)"
    let ?s2 = "snd (schedule_channel this ic ?d2 (user_pri pri) (Some (fst ?p)) (snd ?p))"
    have c: "moves this s (snd ?p)" using Cons.prems(1) clone_moves by (auto intro: moves_refl)
    have "moves this (snd ?p) ?s2"
      using schedule_channel_moves [of "snd ?p" this ?d2] moves_base [OF c] moves_tl_time [OF c] Cons.prems
      by simp
    then have m: "moves this s ?s2" by (rule moves_trans [OF c])
    have run: "write_loop this act d1 mwd hz pri ms al True ?s2 = Inr (al1, os1, s1)"
      using Cons.prems(5) True ic by (auto simp: Let_def split: prod.splits if_splits)
    have "moves this ?s2 s1"
      by (rule Cons.IH [OF _ _ _ _ run]) (use Cons.prems moves_base [OF m] moves_tl_time [OF m] in auto)
    then show ?thesis by (rule moves_trans [OF m])
  qed
qed

lemma oc_write_moves:
  assumes "base s" "oc_write oc act delay pri s = Inr (r, s1)" "oc_alignment s oc = t" "0 \<le> delay"
  shows "moves t s s1"
proof -
  obtain os where "write_loop t act (tl_time (tls s t) + delay) (oc_min_write_delay (ocs s oc)) (horizon s t) pri
      (mapped_to (ocs s oc)) True False s = Inr (r, os, s1)"
    using assms(2,3) by (auto simp: oc_write_def Let_def now_def split: sum.splits)
  then show ?thesis
    using assms(1,4) base_delays [OF assms(1)] by (intro write_loop_moves) (auto simp: delays_ok_def)
qed

lemma handle_mark_moves:
  assumes "base s" "handle_mark h s = Inr s1"
  shows "moves t s s1"
proof -
  obtain x where x: "evs s (h_eptr h) = Some x"
    and s1: "s1 = s\<lparr>evs := (evs s)(h_eptr h := Some (x\<lparr>ev_type := EVTYPE_CANCEL\<rparr>))\<rparr>"
    using assms(2) by (auto simp: handle_mark_def split: option.splits)
  have ok: "ev_ok s1 u e" if "ev_ok s u e" for u e
    using that x by (auto simp: ev_ok_def s1)
  have "base s1"
    using assms(1) ok x by (auto simp: base_def s1 delays_ok_def split: if_splits)
  moreover have "ext t s s1" using x by (auto simp: ext_def s1)
  ultimately show ?thesis by (simp add: moves_def)
qed

lemma handle_cancel_moves:
  assumes "base s" "handle_cancel h s = Inr (r, s1)"
  shows "moves t s s1"
  using assms handle_mark_moves [OF assms(1), of h s1 t]
  by (auto simp: handle_cancel_def moves_refl split: if_splits sum.splits)

lemma first_index_Some: "first_index P xs = Some i \<Longrightarrow> i < length xs \<and> P (xs ! i)"
  by (induction xs arbitrary: i) (auto split: if_splits)

lemma set_butlast_update_last: "i < length q \<Longrightarrow> set (butlast (q[i := last q])) \<subseteq> set q"
  using set_update_subset_insert [of q i "last q"] last_in_set [of q]
  by (cases "q = []") (auto dest!: in_set_butlastD)

lemma delays_ok_upd_tl:
  "delays_ok s \<Longrightarrow> set (channels_to_map (f (tls s t))) \<subseteq> A \<union> set (channels_to_map (tls s t)) \<Longrightarrow>
   set (delays_to_change (f (tls s t))) \<subseteq> A \<union> set (delays_to_change (tls s t)) \<Longrightarrow>
   (\<forall>m \<in> A. 0 \<le> mc_delay m) \<Longrightarrow> delays_ok (upd_tl t f s)"
  by (fastforce simp: delays_ok_def sim_upds)

lemma delays_ok_upd_oc:
  "delays_ok s \<Longrightarrow> 0 \<le> oc_min_write_delay (f (ocs s oc)) \<Longrightarrow>
   (\<forall>m \<in> set (mapped_to (f (ocs s oc))). 0 \<le> mc_delay m) \<Longrightarrow> delays_ok (upd_oc oc f s)"
  by (auto simp: delays_ok_def sim_upds)

lemma delays_okD:
  "delays_ok s \<Longrightarrow> 0 \<le> oc_min_write_delay (ocs s oc)"
  "delays_ok s \<Longrightarrow> m \<in> set (mapped_to (ocs s oc)) \<Longrightarrow> 0 \<le> mc_delay m"
  "delays_ok s \<Longrightarrow> m \<in> set (channels_to_map (tls s t)) \<Longrightarrow> 0 \<le> mc_delay m"
  "delays_ok s \<Longrightarrow> m \<in> set (delays_to_change (tls s t)) \<Longrightarrow> 0 \<le> mc_delay m"
  by (auto simp: delays_ok_def)

lemma same_core_upd_tl_frame:
  "(\<And>x. tl_time (f x) = tl_time x \<and> stop_before (f x) = stop_before x \<and> tl_phase (f x) = tl_phase x \<and>
     tl_events (f x) = tl_events x \<and> ve_sink_events (f x) = ve_sink_events x \<and> window_list (f x) = window_list x) \<Longrightarrow>
   same_core s (upd_tl t f s)"
  by (simp add: same_core_def sim_upds)

definition frame :: "sim \<Rightarrow> sim \<Rightarrow> bool" where
  "frame s s1 \<longleftrightarrow> same_core s s1 \<and> (delays_ok s \<longrightarrow> delays_ok s1)"

lemma frame_refl [simp]: "frame s s"
  by (simp add: frame_def)

lemma frame_trans: "frame s s1 \<Longrightarrow> frame s1 s2 \<Longrightarrow> frame s s2"
  by (auto simp: frame_def intro: same_core_trans)

lemma frame_moves: "base s \<Longrightarrow> frame s s1 \<Longrightarrow> moves t s s1"
  using moves_frame base_delays by (auto simp: frame_def)

lemma set_transfer_delay_frame:
  assumes "0 \<le> delay"
  shows "frame s (set_transfer_delay oc i delay s)"
proof -
  have "delays_ok (set_transfer_delay oc i delay s)" if "delays_ok s"
    unfolding set_transfer_delay_def
    using assms that delays_okD [OF that]
    by (intro delays_ok_upd_oc) (auto dest!: set_update_subset_insert [THEN subsetD])
  then show ?thesis by (simp add: frame_def set_transfer_delay_def)
qed

lemma mapto_moves:
  assumes "base s" "0 \<le> delay"
  shows "moves t s (snd (mapto junk oc ic delay s))"
proof -
  let ?s1 = "snd (mapto junk oc ic delay s)"
  let ?u = "oc_alignment s oc" let ?mc = "mk_mappedChannel junk s oc (Some ic) delay False"
  let ?m = "upd_oc oc (\<lambda>c. c\<lparr>mapped_to := mapped_to c @ [?mc]\<rparr>) s"
  let ?f = "if mc_xtimeline ?mc then cross_timeline_delay ?u delay else same_timeline_delay ?u delay"
  let ?q = "upd_tl ?u (\<lambda>tl. tl\<lparr>channels_to_map := channels_to_map tl @ [?mc]\<rparr>) s"
  have mc: "mc_delay ?mc = delay" by (simp add: mk_mappedChannel_def)
  have f: "frame x (?f x)" for x
    by (auto simp: frame_def cross_timeline_delay_def same_timeline_delay_def
        intro!: same_core_upd_tl_frame delays_ok_upd_tl [where A = "{}"])
  have a: "frame x (all_timeline_delay ?u delay x)" for x
    by (auto simp: frame_def all_timeline_delay_def
        intro!: same_core_upd_tl_frame delays_ok_upd_tl [where A = "{}"])
  have m: "frame s ?m"
    using assms(2) delays_okD by (auto simp: frame_def mc intro!: delays_ok_upd_oc)
  have q: "frame s ?q"
    using assms(2) by (auto simp: frame_def mc intro!: same_core_upd_tl_frame delays_ok_upd_tl [where A = "{?mc}"])
  have "?s1 = s \<or> ?s1 = all_timeline_delay ?u delay (?f ?m) \<or> ?s1 = ?q"
    by (auto simp: mapto_def Let_def split: option.splits)
  moreover have "frame s (all_timeline_delay ?u delay (?f ?m))"
    by (rule frame_trans [OF frame_trans [OF m f] a])
  ultimately have "frame s ?s1" using q by (elim disjE) simp_all
  then show ?thesis by (rule frame_moves [OF assms(1)])
qed

lemma unmap_moves:
  assumes "base s" "unmap oc ic s = Inr (r, s1)"
  shows "moves t s s1"
proof -
  let ?u = "oc_alignment s oc" let ?q = "channels_to_map (tls s ?u)"
  have "s1 = s \<or> (\<exists>i < length ?q. s1 = upd_tl ?u (\<lambda>tl. tl\<lparr>channels_to_map := butlast (?q[i := last ?q])\<rparr>) s)"
    using assms(2) by (auto simp: unmap_def Let_def dest!: first_index_Some split: option.splits)
  moreover have "frame s (upd_tl ?u (\<lambda>tl. tl\<lparr>channels_to_map := butlast (?q[i := last ?q])\<rparr>) s)"
    if "i < length ?q" for i
    using set_butlast_update_last [OF that]
    by (auto simp: frame_def intro!: same_core_upd_tl_frame delays_ok_upd_tl [where A = "{}"])
  ultimately have "frame s s1" by auto
  then show ?thesis by (rule frame_moves [OF assms(1)])
qed

lemma new_transfer_delay_moves:
  assumes "base s" "0 \<le> delay"
  shows "moves t s (snd (new_transfer_delay junk oc ic delay s))"
proof -
  let ?s1 = "snd (new_transfer_delay junk oc ic delay s)"
  let ?u = "oc_alignment s oc" let ?mc = "mk_mappedChannel junk s oc (Some ic) delay False"
  let ?c = "upd_tl ?u (\<lambda>tl. tl\<lparr>channels_at_minimum := channels_at_minimum tl + 1\<rparr>) s"
  let ?q = "upd_tl ?u (\<lambda>tl. tl\<lparr>recompute_min_delay := True, delays_to_change := delays_to_change tl @ [?mc]\<rparr>) s"
  have "?s1 = s \<or> (\<exists>i. ?s1 = set_transfer_delay oc i delay s \<or> ?s1 = set_transfer_delay oc i delay ?c) \<or> ?s1 = ?q"
    by (auto simp: new_transfer_delay_def Let_def split: option.splits)
  moreover have c: "frame s ?c" and q: "frame s ?q"
    using assms(2) by (auto simp: frame_def mk_mappedChannel_def
        intro!: same_core_upd_tl_frame delays_ok_upd_tl [where A = "{?mc}"])
  ultimately have "frame s ?s1"
    using set_transfer_delay_frame [OF assms(2)] frame_trans [OF c set_transfer_delay_frame [OF assms(2)]]
    by (elim disjE exE) simp_all
  then show ?thesis by (rule frame_moves [OF assms(1)])
qed

lemma new_min_write_delay_moves:
  assumes "base s" "0 \<le> mwd"
  shows "moves t s (snd (new_min_write_delay junk oc mwd s))"
proof -
  let ?s1 = "snd (new_min_write_delay junk oc mwd s)"
  have d: "delays_ok s" using assms(1) by (rule base_delays)
  let ?u = "oc_alignment s oc" let ?mc = "mk_mappedChannel junk s oc None mwd True"
  have "same_core s ?s1 \<and> delays_ok ?s1"
    using d delays_okD [OF d] assms(2)
    by (auto simp: new_min_write_delay_def Let_def mk_mappedChannel_def
        intro!: same_core_upd_tl_frame delays_ok_upd_oc delays_ok_upd_tl [where A = "{?mc}"])
  then show ?thesis using moves_frame [OF assms(1)] by blast
qed

lemma upd_ic_moves: "base s \<Longrightarrow> moves t s (upd_ic ic f s)"
  and upd_proc_moves: "base s \<Longrightarrow> moves t s (upd_proc p g s)"
  by (auto simp: sim_upds intro!: moves_frame delays_ok_cong [OF base_delays])
     (simp_all add: same_core_def)

lemma keep_Inr: "keep r = Inr s1 \<longleftrightarrow> (\<exists>x. r = Inr (x, s1))"
  by (auto simp: keep_def split: sum.splits)

lemma api_moves:
  assumes "base s" "legal t s c" "api c s = Inr s1"
  shows "moves t s s1"
proof (cases c)
  case (WaitOn ic p)
  then show ?thesis
    using assms by (auto simp: waitOn_def add_process_def split: option.splits intro: insertion_gateway_moves)
next
  case (Bind ic p)
  then show ?thesis
    using assms by (auto simp: bind_process_def split: option.splits intro: insertion_gateway_moves)
next
  case (Unbind ic p)
  then show ?thesis using assms by (auto simp: unbind_def split: prod.splits intro: upd_ic_moves)
next
  case (UnwaitOn ic p)
  then show ?thesis using assms by (auto simp: unwaitOn_def split: prod.splits intro: upd_ic_moves)
qed (use assms in \<open>auto simp: keep_Inr intro: waitFor_moves oc_write_moves mapto_moves unmap_moves
       new_transfer_delay_moves new_min_write_delay_moves handle_cancel_moves handle_mark_moves upd_ic_moves upd_proc_moves\<close>)

lemma run_body_moves:
  "base s \<Longrightarrow> run_body t cs s = Inr s1 \<Longrightarrow> moves t s s1"
proof (induction t cs s rule: run_body.induct)
  case (1 t s)
  then show ?case by (simp add: moves_refl)
next
  case (2 t c cs s)
  then obtain s2 where s2: "legal t s c" "api c s = Inr s2" "run_body t cs s2 = Inr s1"
    by (auto split: if_splits sum.splits)
  have m: "moves t s s2" using api_moves [OF "2.prems"(1) s2(1,2)] .
  then show ?case using "2.IH" [OF s2(1,2) moves_base [OF m] s2(3)] moves_trans by blast
qed

section \<open>Executing an event\<close>

lemma activate_one_moves:
  assumes "base s"
  shows "moves this s (activate_one this ic act pp s)"
proof -
  obtain k where one: "activate_one this ic act pp s =
    (let r = new_event this (event_channel EVTYPE_EXEC_ACTIVATE (now s this) k ic act (Some (pp_proc pp)) this) s in
     if ve_attached (ics s ic) then push_ve_sink this (fst r) (snd r) else push_event this (fst r) (snd r))"
    by (simp add: activate_one_def case_prod_beta Let_def)
  let ?x = "event_channel EVTYPE_EXEC_ACTIVATE (now s this) k ic act (Some (pp_proc pp)) this (evtnum (tls s this))"
  note d = push_event_def push_ve_sink_def new_event_def sim_upds Let_def
  have del: "delays_ok (activate_one this ic act pp s)"
    unfolding one by (rule delays_ok_cong [OF base_delays [OF assms]]) (simp_all add: d)
  show ?thesis
  proof (cases "ve_attached (ics s ic)")
    case True
    with del assms show ?thesis unfolding one
      by (intro moves_add [where x = ?x]) (simp_all add: d event_mk now_def)
  next
    case False
    with del assms show ?thesis unfolding one
      by (intro moves_add [where x = ?x]) (simp_all add: d event_mk now_def)
  qed
qed

lemma activate_loop_step:
  assumes "activate_loop this ic act (pp # pps) s = Inr (ws, s1)"
  shows "\<exists>rs vs. length rs < Suc (length pps) \<and> activate_loop this ic act rs (activate_one this ic act pp s) = Inr (vs, s1)"
proof (cases "pp_b pp")
  case True
  then have "\<exists>vs. activate_loop this ic act pps (activate_one this ic act pp s) = Inr (vs, s1)"
    using assms by (cases "activate_loop this ic act pps (activate_one this ic act pp s)") auto
  then show ?thesis by auto
next
  case False
  then obtain q rs where q: "pps = q # rs" using assms by (cases pps) auto
  then have "\<exists>vs. activate_loop this ic act rs (activate_one this ic act pp s) = Inr (vs, s1)"
    using assms False by (cases "activate_loop this ic act rs (activate_one this ic act pp s)") auto
  then obtain vs where "activate_loop this ic act rs (activate_one this ic act pp s) = Inr (vs, s1)" by blast
  then show ?thesis using q by (intro exI [of _ rs] exI [of _ vs]) simp
qed

lemma activate_loop_moves:
  assumes "base s" "activate_loop this ic act pps s = Inr (ws, s1)"
  shows "moves this s s1"
  using assms
proof (induction pps arbitrary: s ws rule: length_induct)
  case (1 pps)
  show ?case
  proof (cases pps)
    case Nil
    then show ?thesis using 1 by (simp add: moves_refl)
  next
    case (Cons pp qqs)
    let ?s2 = "activate_one this ic act pp s"
    have m: "moves this s ?s2" using "1.prems"(1) by (rule activate_one_moves)
    have "\<exists>rs vs. length rs < length pps \<and> activate_loop this ic act rs ?s2 = Inr (vs, s1)"
      using activate_loop_step [of this ic act pp qqs s ws s1] "1.prems"(2) Cons by simp
    then obtain rs vs where "length rs < length pps" "activate_loop this ic act rs ?s2 = Inr (vs, s1)"
      by blast
    then have "moves this ?s2 s1" using "1.IH" moves_base [OF m] by blast
    then show ?thesis by (rule moves_trans [OF m])
  qed
qed

lemma upd_tl_frame:
  "(\<And>x. tl_time (f x) = tl_time x \<and> stop_before (f x) = stop_before x \<and> tl_phase (f x) = tl_phase x \<and>
     tl_events (f x) = tl_events x \<and> ve_sink_events (f x) = ve_sink_events x \<and> window_list (f x) = window_list x \<and>
     channels_to_map (f x) = channels_to_map x \<and> delays_to_change (f x) = delays_to_change x) \<Longrightarrow>
   frame s (upd_tl t f s)"
  by (auto simp: frame_def intro!: same_core_upd_tl_frame delays_ok_upd_tl [where A = "{}"])

lemma upd_ic_frame: "frame s (upd_ic ic f s)" and upd_proc_frame: "frame s (upd_proc p g s)"
  by (auto simp: frame_def delays_ok_def sim_upds same_core_def)

lemma count_work_frame: "frame s (count_work t s)"
  and put_activeChannel_frame: "frame s (put_activeChannel t inc s)"
  and insert_process_pri_frame: "frame s (insert_process_pri ic p b pri s)"
  by (auto simp: count_work_def put_activeChannel_def insert_process_pri_def intro!: upd_tl_frame upd_ic_frame)

lemma set_running_frame: "frame s (set_running t run p inc s)"
  unfolding set_running_def by (rule frame_trans [OF upd_tl_frame upd_proc_frame]) simp

lemma enter_body_frame: "frame s (enter_body t p inc s)"
  using frame_trans [OF count_work_frame set_running_frame]
    frame_trans [OF frame_trans [OF count_work_frame set_running_frame] put_activeChannel_frame]
  by (auto simp: enter_body_def Let_def split: option.splits)

lemma dispatch_event_moves:
  assumes "base s" "dispatch_event t x calls s = Inr s1"
  shows "moves t s s1"
proof (cases "ev_type x")
  case EVTYPE_TIMEOUT
  then obtain p s2 where p: "run_body t calls (enter_body t p None s) = Inr s2"
    and s1: "s1 = upd_tl t (\<lambda>tl. tl\<lparr>tl_this := None\<rparr>) s2"
    using assms(2) by (auto simp: dispatch_event_def split: option.splits sum.splits)
  have r: "moves t s (enter_body t p None s)" by (rule frame_moves [OF assms(1) enter_body_frame])
  have m: "moves t s s2" by (rule moves_trans [OF r run_body_moves [OF moves_base [OF r] p]])
  have "moves t s2 s1" unfolding s1 by (rule frame_moves [OF moves_base [OF m] upd_tl_frame]) simp
  then show ?thesis by (rule moves_trans [OF m])
next
  case EVTYPE_ACTIVATE
  then obtain ic ws s2 where "activate_loop t ic (ev_act x) (waitingList (ics s ic)) s = Inr (ws, s2)"
    and s1: "s1 = upd_ic ic (\<lambda>c. c\<lparr>waitingList := ws\<rparr>) s2"
    using assms(2) by (auto simp: dispatch_event_def split: option.splits sum.splits)
  then have m: "moves t s s2" using activate_loop_moves [OF assms(1)] by blast
  then show ?thesis unfolding s1 using upd_ic_moves [OF moves_base [OF m]] moves_trans by blast
next
  case EVTYPE_EXEC_ACTIVATE
  then obtain p ic s2 where p: "run_body t calls (enter_body t p (Some ic) s) = Inr s2"
    and s1: "s1 = set_running t None p None (put_activeChannel t None s2)"
    using assms(2) by (auto simp: dispatch_event_def split: option.splits sum.splits if_splits)
  have r: "moves t s (enter_body t p (Some ic) s)" by (rule frame_moves [OF assms(1) enter_body_frame])
  have m: "moves t s s2" by (rule moves_trans [OF r run_body_moves [OF moves_base [OF r] p]])
  have "moves t s2 s1" unfolding s1
    by (rule frame_moves [OF moves_base [OF m] frame_trans [OF put_activeChannel_frame set_running_frame]])
  then show ?thesis by (rule moves_trans [OF m])
next
  case EVTYPE_BIND
  then obtain ic p where "s1 = insert_process_pri ic p (ev_bind x) (user_pri (ev_pri x)) (count_work t s)"
    using assms(2) by (auto simp: dispatch_event_def split: option.splits)
  then show ?thesis
    using frame_moves [OF assms(1) frame_trans [OF count_work_frame insert_process_pri_frame]] by simp
next
  case EVTYPE_CANCEL
  then show ?thesis
    using assms by (auto simp: dispatch_event_def intro!: frame_moves upd_tl_frame)
qed (use assms in \<open>auto simp: dispatch_event_def moves_refl\<close>)

lemma selectsD:
  assumes "selects s t which e"
  shows "which = 1 \<and> e \<in> set (tl_events (tls s t)) \<or> which = 2 \<and> e \<in> set (ve_sink_events (tls s t))"
    and "\<And>x. x \<in> pending (tls s t) \<Longrightarrow> ev_time (ev s e) \<le> ev_time (ev s x)"
    and "ev_time (ev s e) < stop_before (tls s t)"
proof -
  obtain a b where ab: "top_of s (tl_events (tls s t)) a" "top_of s (ve_sink_events (tls s t)) b"
    "fst (select_next_event s a b) = which" "which \<noteq> 0" "(if which = 1 then a else b) = Some e"
    "snd (select_next_event s a b) < stop_before (tls s t)"
    using assms by (auto simp: selects_def)
  show "which = 1 \<and> e \<in> set (tl_events (tls s t)) \<or> which = 2 \<and> e \<in> set (ve_sink_events (tls s t))"
    using ab by (auto simp: select_next_event_def top_of_def is_top_def Let_def split: option.splits if_splits)
  show "ev_time (ev s e) < stop_before (tls s t)"
    using ab by (auto simp: select_next_event_def Let_def split: option.splits if_splits)
  show "ev_time (ev s e) \<le> ev_time (ev s x)" if "x \<in> pending (tls s t)" for x
  proof (cases a; cases b)
    fix c assume "a = Some c" "b = None"
    then show ?thesis using ab that is_topD
      by (auto simp: select_next_event_def top_of_def pending_def split: if_splits)
  next
    fix c assume "a = None" "b = Some c"
    then show ?thesis using ab that is_topD
      by (auto simp: select_next_event_def top_of_def pending_def split: if_splits)
  next
    fix c d assume "a = Some c" "b = Some d"
    then have top: "is_top s (tl_events (tls s t)) c" "is_top s (ve_sink_events (tls s t)) d"
      and e: "e = c \<and> ev_time (ev s c) \<le> ev_time (ev s d) \<or> e = d \<and> ev_time (ev s d) \<le> ev_time (ev s c)"
      using ab by (auto simp: select_next_event_def top_of_def Let_def split: if_splits)
    then show ?thesis using that is_topD [OF top(1)] is_topD [OF top(2)]
      by (fastforce simp: pending_def)
  qed (use ab in \<open>auto simp: select_next_event_def\<close>)
qed

text \<open>The effect of one event of timeline \<open>t\<close> on what the invariants mention.\<close>

definition executes :: "nat \<Rightarrow> nat \<Rightarrow> sim \<Rightarrow> sim \<Rightarrow> bool" where
  "executes t e s s1 \<longleftrightarrow>
     num_timelines s1 = num_timelines s \<and> bottom_min s1 = bottom_min s \<and> bottom_prev s1 = bottom_prev s \<and>
     epoch_end s1 = epoch_end s \<and> sim_clock s1 = sim_clock s \<and>
     (\<forall>u. stop_before (tls s1 u) = stop_before (tls s u) \<and> tl_phase (tls s1 u) = tl_phase (tls s u) \<and>
          tl_time (tls s1 u) = (if u = t then ev_time (ev s e) else tl_time (tls s u))) \<and>
     (\<forall>x y. evs s x = Some y \<longrightarrow> x = e \<or>
        (\<exists>z. evs s1 x = Some z \<and> ev_time z = ev_time y \<and> ev_home z = ev_home y)) \<and>
     (\<forall>u x. x \<in> pending (tls s1 u) \<longrightarrow>
        (x \<in> pending (tls s u) \<and> ev_time (ev s1 x) = ev_time (ev s x)) \<or>
        (u = t \<and> ev_time (ev s e) \<le> ev_time (ev s1 x))) \<and>
     (\<forall>u x. x \<in> set (window_list (tls s1 u)) \<longrightarrow>
        (x \<in> set (window_list (tls s u)) \<and> ev_time (ev s1 x) = ev_time (ev s x)) \<or>
        stop_before (tls s t) \<le> ev_time (ev s1 x))"

lemma pop_event_ok:
  assumes b: "base s"
    and e: "which = 1 \<and> e \<in> set (tl_events (tls s t)) \<or> which = 2 \<and> e \<in> set (ve_sink_events (tls s t))"
  defines "s0 \<equiv> pop_event t which e s"
  shows "base s0" "evs s0 = evs s" "next_ev s0 = next_ev s" "e < next_ev s"
    "\<And>u. u \<noteq> t \<Longrightarrow> tls s0 u = tls s u" "tl_time (tls s0 t) = ev_time (ev s e)"
    "stop_before (tls s0 u) = stop_before (tls s u)" "tl_phase (tls s0 u) = tl_phase (tls s u)"
    "set (window_list (tls s0 u)) = set (window_list (tls s u))"
    "pending (tls s0 u) \<subseteq> pending (tls s u)" "e \<notin> set (qs (tls s0 u))"
    "num_timelines s0 = num_timelines s" "bottom_min s0 = bottom_min s" "bottom_prev s0 = bottom_prev s"
    "epoch_end s0 = epoch_end s" "sim_clock s0 = sim_clock s"
proof -
  have eq: "e \<in> set (qs (tls s t))" using e by (auto simp: qs_def)
  have dist: "distinct (qs (tls s t))" using b by (simp add: base_def)
  have sub: "set (qs (tls s0 u)) \<subseteq> set (qs (tls s u))" for u
    by (auto simp: s0_def pop_event_def sim_upds qs_def Let_def dest: set_remove1_subset [THEN subsetD])
  have dq: "distinct (qs (tls s0 t))" and notin: "e \<notin> set (qs (tls s0 t))"
    using dist e by (auto simp: s0_def pop_event_def sim_upds qs_def Let_def)
  show other: "tls s0 u = tls s u" if "u \<noteq> t" for u using that by (simp add: s0_def pop_event_def sim_upds)
  show same: "evs s0 = evs s" "next_ev s0 = next_ev s" "num_timelines s0 = num_timelines s"
    "bottom_min s0 = bottom_min s" "bottom_prev s0 = bottom_prev s"
    "epoch_end s0 = epoch_end s" "sim_clock s0 = sim_clock s"
    by (simp_all add: s0_def pop_event_def sim_upds)
  show "e < next_ev s" using baseD(3) [OF b eq] .
  have dl: "delays_ok s0"
    using base_delays [OF b] by (rule delays_ok_cong) (auto simp: s0_def pop_event_def sim_upds Let_def)
  have "distinct (qs (tls s0 u))" for u using dq other b by (cases "u = t") (auto simp: base_def)
  moreover have "\<forall>x \<in> set (qs (tls s0 u)). ev_ok s0 u x" for u
    using b sub [of u] same(1) unfolding base_def ev_ok_def by auto
  moreover have "ents s0 = ents s" by (simp add: s0_def pop_event_def sim_upds)
  ultimately show "base s0" using b same dl unfolding base_def by auto
  show "tl_time (tls s0 t) = ev_time (ev s e)"
    by (simp add: s0_def pop_event_def sim_upds Let_def)
  show "stop_before (tls s0 u) = stop_before (tls s u)" "tl_phase (tls s0 u) = tl_phase (tls s u)"
    "set (window_list (tls s0 u)) = set (window_list (tls s u))"
    by (simp_all add: s0_def pop_event_def sim_upds Let_def)
  show "pending (tls s0 u) \<subseteq> pending (tls s u)"
    by (auto simp: s0_def pop_event_def sim_upds Let_def pending_def dest: set_remove1_subset [THEN subsetD])
  show "e \<notin> set (qs (tls s0 u))"
  proof (cases "u = t")
    case False
    then have "e \<notin> set (qs (tls s u))" using baseD(2) [OF b eq] baseD(2) [OF b] by blast
    then show ?thesis using False other by simp
  qed (use notin in simp)
qed

lemma base_release:
  assumes "base s" "\<And>u. e \<notin> set (qs (tls s u))"
  shows "base (release_event e s)"
  using assms by (fastforce simp: base_def release_event_def ev_ok_def delays_ok_def)

lemma exec_event_executes:
  assumes b: "base s" and sel: "selects s t which e" and run: "exec_event t which e calls s = Inr s1"
  shows "base s1" "executes t e s s1"
proof -
  let ?s0 = "pop_event t which e s"
  note pop = pop_event_ok [OF b selectsD(1) [OF sel]]
  obtain s2 where s2: "dispatch_event t (ev s e) calls ?s0 = Inr s2" and s1: "s1 = release_event e s2"
    using run by (auto simp: exec_event_def split: sum.splits)
  have m: "base s2" "ext t ?s0 s2" using dispatch_event_moves [OF pop(1) s2] by (auto simp: moves_def)
  have tl1: "tls s1 = tls s2" and evs1: "evs s1 = (evs s2)(e := None)" by (auto simp: s1 release_event_def)
  have new: "next_ev s \<le> x" if "x \<in> set (qs (tls s2 u))" "x \<notin> set (qs (tls ?s0 u))" for x u
  proof -
    have "x \<in> pending (tls s2 u) \<or> x \<in> set (window_list (tls s2 u))"
      "x \<notin> pending (tls ?s0 u)" "x \<notin> set (window_list (tls ?s0 u))"
      using that by (auto simp: qs_def pending_def)
    then show ?thesis using m(2) pop(3) unfolding ext_def by metis
  qed
  have notin: "e \<notin> set (qs (tls s2 u))" for u
    using pop(11) [of u] pop(4) new [of e u] by (meson leD)
  show "base s1" unfolding s1 by (rule base_release [OF m(1) notin])
  have ev1: "ev s1 x = ev s2 x" if "x \<noteq> e" for x using that by (simp add: ev_def evs1)
  have t2: "ev_time (ev s1 x) = ev_time (ev s x)" if "x \<in> set (qs (tls ?s0 u))" "x \<noteq> e" for x u
  proof -
    have "evs ?s0 x \<noteq> None" using baseD(1) [OF pop(1) that(1)] .
    then have "ev_time (ev s2 x) = ev_time (ev ?s0 x)" using ext_ev [OF m(2)] by blast
    then show ?thesis using ev1 [OF that(2)] pop(2) by (simp add: ev_def)
  qed
  have p: "(x \<in> pending (tls s u) \<and> ev_time (ev s1 x) = ev_time (ev s x)) \<or>
      (u = t \<and> ev_time (ev s e) \<le> ev_time (ev s1 x))" if "x \<in> pending (tls s1 u)" for u x
  proof -
    have x2: "x \<in> pending (tls s2 u)" using that tl1 by simp
    then have ne: "x \<noteq> e" using notin pending_qs by blast
    show ?thesis
    proof (cases "x \<in> pending (tls ?s0 u)")
      case True
      then show ?thesis using pop(10) t2 ne pending_qs(1) by blast
    next
      case False
      then have "u = t \<and> tl_time (tls ?s0 t) \<le> ev_time (ev s2 x)"
        using m(2) x2 unfolding ext_def by blast
      then show ?thesis using pop(6) ev1 [OF ne] by simp
    qed
  qed
  have w: "(x \<in> set (window_list (tls s u)) \<and> ev_time (ev s1 x) = ev_time (ev s x)) \<or>
      stop_before (tls s t) \<le> ev_time (ev s1 x)" if "x \<in> set (window_list (tls s1 u))" for u x
  proof -
    have x2: "x \<in> set (window_list (tls s2 u))" using that tl1 by simp
    then have ne: "x \<noteq> e" using notin pending_qs by blast
    show ?thesis
    proof (cases "x \<in> set (window_list (tls ?s0 u))")
      case True
      then show ?thesis using pop(9) t2 ne pending_qs(2) by blast
    next
      case False
      then have "stop_before (tls ?s0 t) \<le> ev_time (ev s2 x)"
        using m(2) x2 unfolding ext_def by blast
      then show ?thesis using pop(7) ev1 [OF ne] by simp
    qed
  qed
  have ev: "x = e \<or> (\<exists>z. evs s1 x = Some z \<and> ev_time z = ev_time y \<and> ev_home z = ev_home y)"
    if "evs s x = Some y" for x y
    using ext_Some [OF m(2), of x y] that pop(2) by (simp add: evs1)
  have "num_timelines s1 = num_timelines s" "bottom_min s1 = bottom_min s" "bottom_prev s1 = bottom_prev s"
    "epoch_end s1 = epoch_end s" "sim_clock s1 = sim_clock s"
    "\<forall>u. stop_before (tls s1 u) = stop_before (tls s u) \<and> tl_phase (tls s1 u) = tl_phase (tls s u) \<and>
         tl_time (tls s1 u) = (if u = t then ev_time (ev s e) else tl_time (tls s u))"
    using m(2) pop(5-8,12-16) by (auto simp: ext_def s1 release_event_def)
  with p w ev show "executes t e s s1" unfolding executes_def by blast
qed

end
