(* ===== verification/Sim_Windows.thy ===== *)
theory Sim_Windows
  imports Sim_Causality
begin

text \<open>
  The invariant of the whole simulation over its windows and epochs, and the theorem that a running
  simulation respects causality.
\<close>


section \<open>Between and inside of windows\<close>

text \<open>
  Between two windows all clocks agree on a time \<open>T\<close>, and after the start every event that waits is
  later.  The reduction at the bottom barrier is either not above zero, which stands for no offer, or
  later than \<open>T\<close>.
\<close>

definition idle_tl :: "(nat \<Rightarrow> event) \<Rightarrow> ltime \<Rightarrow> ltime \<Rightarrow> timeline \<Rightarrow> bool" where
  "idle_tl evt ee T x \<longleftrightarrow> tl_time x = T \<and> tl_phase x \<in> {At_epoch, At_top, At_bottom, Exited} \<and>
     (tl_phase x \<in> {At_top, At_bottom} \<longrightarrow> T < ee) \<and> (tl_phase x = At_bottom \<longrightarrow> window_list x = []) \<and>
     (\<forall>e \<in> set (qs x). T \<le> ev_time (evt e) \<and> (T = 0 \<or> T < ev_time (evt e)))"

definition idle :: "sim \<Rightarrow> ltime \<Rightarrow> bool" where
  "idle s T \<longleftrightarrow> 0 \<le> T \<and> (bottom_min s \<le> 0 \<or> T < bottom_min s) \<and>
     (\<forall>t < num_timelines s. idle_tl (ev s) (epoch_end s) T (tls s t))"

text \<open>
  Inside of a window all timelines have the same horizon \<open>E\<close>, their clocks are before it, no event of
  a timeline is before its clock, and what other timelines sent is not before \<open>E\<close>.
\<close>

definition window_tl :: "(nat \<Rightarrow> event) \<Rightarrow> ltime \<Rightarrow> timeline \<Rightarrow> bool" where
  "window_tl evt E x \<longleftrightarrow> stop_before x = E \<and> tl_phase x \<in> {In_window, At_end} \<and>
     0 \<le> tl_time x \<and> tl_time x < E \<and> (tl_phase x = At_end \<longrightarrow> tl_time x = E - 1) \<and>
     (\<forall>e \<in> pending x. tl_time x \<le> ev_time (evt e) \<and> (tl_phase x = At_end \<longrightarrow> E \<le> ev_time (evt e))) \<and>
     (\<forall>e \<in> set (window_list x). E \<le> ev_time (evt e))"

definition window :: "sim \<Rightarrow> ltime \<Rightarrow> bool" where
  "window s E \<longleftrightarrow> (bottom_min s \<le> 0 \<or> E \<le> bottom_min s) \<and>
     (\<forall>t < num_timelines s. window_tl (ev s) E (tls s t))"

lemma upd_tl_simps [simp]:
  "tls (upd_tl t f s) = (tls s)(t := f (tls s t))" "num_timelines (upd_tl t f s) = num_timelines s"
  "epoch_end (upd_tl t f s) = epoch_end s" "bottom_min (upd_tl t f s) = bottom_min s"
  "bottom_prev (upd_tl t f s) = bottom_prev s" "sim_clock (upd_tl t f s) = sim_clock s"
  "evs (upd_tl t f s) = evs s" "next_ev (upd_tl t f s) = next_ev s" "ents (upd_tl t f s) = ents s"
  "ocs (upd_tl t f s) = ocs s" "num_outchannels (upd_tl t f s) = num_outchannels s"
  "num_entities (upd_tl t f s) = num_entities s"
  by (simp_all add: upd_tl_def)

lemma upd_all_simps [simp]:
  "t < num_timelines s \<Longrightarrow> tls (upd_all f s) t = f (tls s t)" "num_timelines (upd_all f s) = num_timelines s"
  "epoch_end (upd_all f s) = epoch_end s" "bottom_min (upd_all f s) = bottom_min s"
  "bottom_prev (upd_all f s) = bottom_prev s" "sim_clock (upd_all f s) = sim_clock s"
  "evs (upd_all f s) = evs s" "ocs (upd_all f s) = ocs s" "ents (upd_all f s) = ents s"
  by (simp_all add: upd_all_def)

definition sim_inv :: "sim \<Rightarrow> bool" where
  "sim_inv s \<longleftrightarrow> base s \<and> 0 < num_timelines s \<and> (num_timelines s = 1 \<longrightarrow> bottom_min s \<le> 0) \<and>
     ((\<exists>T. idle s T) \<or> (\<exists>E. window s E))"

lemma set_qs: "set (qs x) = pending x \<union> set (window_list x)"
  by (auto simp: qs_def pending_def)

lemma all_in_idle: "sim_inv s \<Longrightarrow> all_in p s \<Longrightarrow> p \<in> {At_epoch, At_top, At_bottom, Exited} \<Longrightarrow> \<exists>T. idle s T"
  and all_in_window: "sim_inv s \<Longrightarrow> all_in p s \<Longrightarrow> p \<in> {In_window, At_end} \<Longrightarrow> \<exists>E. window s E"
  by (auto simp: sim_inv_def all_in_def window_def idle_def window_tl_def idle_tl_def)

lemma phase_idle: "sim_inv s \<Longrightarrow> t < num_timelines s \<Longrightarrow> tl_phase (tls s t) = At_top \<Longrightarrow> \<exists>T. idle s T"
  and phase_window: "sim_inv s \<Longrightarrow> t < num_timelines s \<Longrightarrow> tl_phase (tls s t) = In_window \<Longrightarrow> \<exists>E. window s E"
  by (auto simp: sim_inv_def window_def idle_def window_tl_def idle_tl_def)

lemma base_cong:
  assumes "base s" "num_timelines s1 = num_timelines s" "ents s1 = ents s" "evs s1 = evs s" "next_ev s1 = next_ev s"
    "\<And>u. distinct (qs (tls s1 u)) \<and> set (qs (tls s1 u)) \<subseteq> set (qs (tls s u))" "delays_ok s1"
  shows "base s1"
proof -
  have "ev_ok s1 u e" if "e \<in> set (qs (tls s1 u))" for u e
  proof -
    have "e \<in> set (qs (tls s u))" using assms(6) [of u] that by blast
    then have "ev_ok s u e" using assms(1) by (auto simp: base_def)
    then show ?thesis by (simp add: ev_ok_def assms(4))
  qed
  then show ?thesis using assms unfolding base_def by auto
qed

lemma base_upd_all:
  assumes "base s" "\<And>x. qs (f x) = qs x \<and> channels_to_map (f x) = channels_to_map x \<and> delays_to_change (f x) = delays_to_change x"
  shows "base (upd_all f s)"
  using assms by (intro base_cong [OF assms(1)]) (auto simp: upd_all_def base_def delays_ok_def)

lemma base_globals: "base s \<Longrightarrow> base (s\<lparr>bottom_min := a\<rparr>)" "base s \<Longrightarrow> base (s\<lparr>bottom_prev := a\<rparr>)"
  "base s \<Longrightarrow> base (s\<lparr>epoch_end := a\<rparr>)" "base s \<Longrightarrow> base (s\<lparr>sim_clock := a\<rparr>)"
  by (auto simp: base_def ev_ok_def delays_ok_def)

lemma ev_globals [simp]: "ev (s\<lparr>bottom_min := a\<rparr>) = ev s" "ev (s\<lparr>bottom_prev := a\<rparr>) = ev s"
  "ev (s\<lparr>epoch_end := a\<rparr>) = ev s" "ev (s\<lparr>sim_clock := a\<rparr>) = ev s" "ev (upd_all f s) = ev s" "ev (upd_tl t g s) = ev s"
  by (auto simp: ev_def upd_all_def sim_upds)

lemma base_upd_tl:
  assumes "base s" "distinct (qs (f (tls s t)))" "set (qs (f (tls s t))) \<subseteq> set (qs (tls s t))"
    "channels_to_map (f (tls s t)) = channels_to_map (tls s t)" "delays_to_change (f (tls s t)) = delays_to_change (tls s t)"
  shows "base (upd_tl t f s)"
  using assms by (intro base_cong [OF assms(1)]) (auto simp: sim_upds base_def delays_ok_def)


section \<open>Every step keeps the invariant\<close>

lemma advance_inv:
  assumes "sim_inv s" "all_in At_epoch s"
  shows "sim_inv (advance d s)"
proof -
  obtain T where T: "idle s T" using all_in_idle [OF assms] by auto
  have "base (advance d s)"
    using assms(1) unfolding advance_def Let_def
    by (intro base_upd_all base_globals) (auto simp: sim_inv_def qs_def)
  moreover have "idle (advance d s) T"
    using T assms(2) by (auto simp: idle_def idle_tl_def advance_def Let_def qs_def all_in_def)
  ultimately show ?thesis using assms(1) by (auto simp: sim_inv_def advance_def Let_def)
qed

lemma get_cross_base:
  assumes "base s"
  shows "base (get_cross_timeline_events t s)"
    and "pending (tls (get_cross_timeline_events t s) t) \<subseteq> set (qs (tls s t))"
    and "window_list (tls (get_cross_timeline_events t s) t) = []"
proof -
  have d: "distinct (qs (tls s t))" using assms by (simp add: base_def)
  let ?todo = "takeWhile (\<lambda>e. ev_inc (ev s e) \<noteq> None) (window_list (tls s t))"
  have sub: "set ?todo \<subseteq> set (window_list (tls s t))" by (auto dest: set_takeWhileD)
  have dt: "distinct ?todo" using d by (auto simp: qs_def)
  show "base (get_cross_timeline_events t s)"
    unfolding get_cross_timeline_events_def Let_def
    using d sub dt by (intro base_upd_tl [OF assms]) (auto simp: qs_def)
  show "pending (tls (get_cross_timeline_events t s) t) \<subseteq> set (qs (tls s t))"
    using sub by (auto simp: get_cross_timeline_events_def Let_def sim_upds pending_def qs_def)
  show "window_list (tls (get_cross_timeline_events t s) t) = []"
    by (simp add: get_cross_timeline_events_def Let_def sim_upds)
qed

lemma offer_value_after:
  assumes "offer_value t s = Some v" "tl_time (tls s t) = T" "0 \<le> T"
    "\<forall>e \<in> pending (tls s t). T \<le> ev_time (ev s e) \<and> (T = 0 \<or> T < ev_time (ev s e))"
  shows "v \<le> 0 \<or> T < v"
proof (cases "next_time s t < 0 \<or> min_cross_delay (tls s t) < 0")
  case True
  then show ?thesis using assms(1,2) by (auto simp: offer_value_def Let_def now_def split: if_splits)
next
  case False
  then have v: "v = max T (next_time s t) + max 0 (min_cross_delay (tls s t))"
    using assms(1,2) by (simp add: offer_value_def Let_def now_def)
  have "tl_events (tls s t) \<noteq> [] \<or> ve_sink_events (tls s t) \<noteq> []"
    using False by (auto simp: next_time_def)
  then obtain e where "e \<in> pending (tls s t)" "next_time s t = ev_time (ev s e)"
    by (metis next_time_in pending_def)
  then show ?thesis using v assms(3,4) by auto
qed

lemma barrier_offer_bottom:
  "bottom_min (barrier_offer b v s) = bottom_min s \<or> (\<exists>x. v = Some x \<and> bottom_min (barrier_offer b v s) = x)"
  by (auto simp: barrier_offer_def mutex_reduce_def pthread_reduce_def split: option.splits barrier_kind.splits)

lemma barrier_offer_core [simp]:
  "tls (barrier_offer b v s) = tls s" "num_timelines (barrier_offer b v s) = num_timelines s"
  "epoch_end (barrier_offer b v s) = epoch_end s" "ev (barrier_offer b v s) = ev s"
  "base s \<Longrightarrow> base (barrier_offer b v s)"
  by (auto simp: barrier_offer_def ev_def base_globals split: option.splits)

lemma begin_window_inv:
  assumes "sim_inv s" "t < num_timelines s" "tl_phase (tls s t) = At_top"
  shows "sim_inv (begin_window b t s)"
proof -
  obtain T where T: "idle s T" using phase_idle [OF assms] by auto
  have bs: "base s" and n: "0 < num_timelines s" using assms(1) by (auto simp: sim_inv_def)
  let ?g = "get_cross_timeline_events t s"
  let ?s1 = "upd_tl t (\<lambda>tl. tl\<lparr>tl_state := BLOCKED\<rparr>) ?g"
  note g = get_cross_base [OF bs, of t]
  have b1: "base ?s1"
    using g(1) by (intro base_upd_tl) (auto simp: qs_def base_def)
  define s1 where "s1 = ?s1"
  have tl1: "\<And>u. u \<noteq> t \<Longrightarrow> tls s1 u = tls s u" "tl_time (tls s1 t) = T" "window_list (tls s1 t) = []"
    "pending (tls s1 t) \<subseteq> set (qs (tls s t))" "ev s1 = ev s" "num_timelines s1 = num_timelines s"
    "epoch_end s1 = epoch_end s" "bottom_min s1 = bottom_min s"
    using g(2,3) T assms(2)
    by (auto simp: s1_def idle_def idle_tl_def pending_def get_cross_timeline_events_def Let_def)
  have late: "\<forall>e \<in> pending (tls s1 t). T \<le> ev_time (ev s1 e) \<and> (T = 0 \<or> T < ev_time (ev s1 e))"
    using tl1(4,5) T assms(2) unfolding idle_def idle_tl_def by auto
  have T0: "0 \<le> T" "T < epoch_end s" using T assms(2,3) by (auto simp: idle_def idle_tl_def)
  have b1': "base s1" using b1 by (simp add: s1_def)
  show ?thesis
  proof (cases "num_timelines s > 1")
    case True
    define s2 where "s2 = barrier_offer b (offer_value t s1) s1"
    have s3: "begin_window b t s = upd_tl t (\<lambda>tl. tl\<lparr>tl_phase := At_bottom\<rparr>) s2"
      using True by (simp add: begin_window_def Let_def s1_def s2_def)
    have s2: "tls s2 = tls s1" "num_timelines s2 = num_timelines s" "epoch_end s2 = epoch_end s" "ev s2 = ev s" "base s2"
      using tl1 b1' by (simp_all add: s2_def)
    have b3: "base (begin_window b t s)"
      unfolding s3 using s2(5) by (intro base_upd_tl) (auto simp: qs_def base_def)
    have "bottom_min s2 \<le> 0 \<or> T < bottom_min s2"
      using barrier_offer_bottom [of b "offer_value t s1" s1] offer_value_after [OF _ tl1(2) T0(1) late] T tl1(8)
      by (auto simp: idle_def s2_def)
    moreover have "idle_tl (ev s) (epoch_end s) T ((tls s1 t)\<lparr>tl_phase := At_bottom\<rparr>)"
      using tl1(2,3,5) late T0(2) by (auto simp: idle_tl_def qs_def pending_def)
    ultimately have "idle (begin_window b t s) T"
      using T tl1(1) T0(1) s2 unfolding s3 by (auto simp: idle_def)
    then show ?thesis using b3 n True s2 unfolding s3 by (auto simp: sim_inv_def)
  next
    case False
    then have n1: "num_timelines s = 1" and t0: "t = 0" using n assms(2) by auto
    have s3: "begin_window b t s = upd_tl t (start_window (epoch_end s)) s1"
      using False by (simp add: begin_window_def Let_def s1_def)
    have b3: "base (begin_window b t s)"
      unfolding s3 using b1' by (intro base_upd_tl) (auto simp: qs_def base_def start_window_def)
    have b0: "bottom_min s \<le> 0" using assms(1) n1 by (simp add: sim_inv_def)
    have "window_tl (ev s) (epoch_end s) (start_window (epoch_end s) (tls s1 t))"
      using tl1(2,3,5) late T0 by (auto simp: window_tl_def start_window_def pending_def)
    then have "window (begin_window b t s) (epoch_end s)"
      using b0 n1 t0 tl1 unfolding s3 by (simp add: window_def)
    then show ?thesis using b3 n n1 b0 tl1(6,8) unfolding s3 by (auto simp: sim_inv_def)
  qed
qed

lemma release_window_inv:
  assumes "sim_inv s" "all_in At_bottom s"
  shows "sim_inv (release_window b t s)"
proof -
  obtain T where T: "idle s T" using all_in_idle [OF assms] by auto
  have n: "0 < num_timelines s" and bs: "base s" using assms(1) by (auto simp: sim_inv_def)
  let ?E = "window_edge s" let ?u = "upd_all (start_window ?E) s"
  have tl: "idle_tl (ev s) (epoch_end s) T (tls s t)" "tl_phase (tls s t) = At_bottom" if "t < num_timelines s" for t
    using T assms(2) that by (auto simp: idle_def all_in_def)
  have ee: "T < epoch_end s" "0 \<le> T" using tl [OF n] T by (auto simp: idle_tl_def idle_def)
  then have E: "T < ?E" using T by (auto simp: window_edge_def idle_def)
  have "window_tl (ev s) ?E (start_window ?E (tls s t))" if "t < num_timelines s" for t
    using tl [OF that] E ee by (auto simp: idle_tl_def window_tl_def start_window_def pending_def qs_def)
  then have w: "window ?u ?E \<and> (bottom_min s \<le> 0 \<or> ?E \<le> bottom_min s)"
    by (auto simp: window_def window_edge_def)
  have "base ?u" using bs by (rule base_upd_all) (auto simp: qs_def start_window_def)
  then show ?thesis
    using w n assms(1)
    by (cases b) (auto simp: sim_inv_def release_window_def barrier_release_def base_globals window_def)
qed

lemma exec_event_inv:
  assumes "sim_inv s" "t < num_timelines s" "tl_phase (tls s t) = In_window" "selects s t which e"
    "exec_event t which e calls s = Inr s1"
  shows "sim_inv s1"
proof -
  obtain E where E: "window s E" using phase_window [OF assms(1-3)] by auto
  have bs: "base s" using assms(1) by (simp add: sim_inv_def)
  have ex: "base s1" "executes t e s s1" using exec_event_executes [OF bs assms(4,5)] by auto
  have x: "num_timelines s1 = num_timelines s" "bottom_min s1 = bottom_min s"
    "stop_before (tls s1 u) = stop_before (tls s u)" "tl_phase (tls s1 u) = tl_phase (tls s u)"
    "tl_time (tls s1 u) = (if u = t then ev_time (ev s e) else tl_time (tls s u))" for u
    using ex(2) by (auto simp: executes_def)
  have p: "\<And>u x. x \<in> pending (tls s1 u) \<Longrightarrow>
        (x \<in> pending (tls s u) \<and> ev_time (ev s1 x) = ev_time (ev s x)) \<or>
        (u = t \<and> ev_time (ev s e) \<le> ev_time (ev s1 x))"
    and w: "\<And>u x. x \<in> set (window_list (tls s1 u)) \<Longrightarrow>
        (x \<in> set (window_list (tls s u)) \<and> ev_time (ev s1 x) = ev_time (ev s x)) \<or> E \<le> ev_time (ev s1 x)"
    using ex(2) E assms(2) by (auto simp: executes_def window_def window_tl_def)
  have e: "e \<in> pending (tls s t)" using selectsD(1) [OF assms(4)] by (auto simp: pending_def)
  have E0: "stop_before (tls s t) = E" "0 \<le> ev_time (ev s e)" "ev_time (ev s e) < E"
    using E assms(2) e selectsD(3) [OF assms(4)] unfolding window_def window_tl_def by fastforce+
  have "window_tl (ev s1) E (tls s1 u)" if u: "u < num_timelines s" for u
  proof -
    have s: "window_tl (ev s) E (tls s u)" using E u by (simp add: window_def)
    have w1: "E \<le> ev_time (ev s1 y)" if "y \<in> set (window_list (tls s1 u))" for y
      using w [OF that] s by (auto simp: window_tl_def)
    have p1: "tl_time (tls s1 u) \<le> ev_time (ev s1 y) \<and> (tl_phase (tls s1 u) = At_end \<longrightarrow> E \<le> ev_time (ev s1 y))"
      if "y \<in> pending (tls s1 u)" for y
      using p [OF that] s x selectsD(2) [OF assms(4)] assms(3) by (auto simp: window_tl_def)
    show ?thesis using s x w1 p1 E0 assms(3) by (auto simp: window_tl_def)
  qed
  then have "window s1 E" using E x by (simp add: window_def)
  then show ?thesis using ex(1) x assms(1) by (auto simp: sim_inv_def)
qed

lemma fold_frame:
  assumes "\<And>m x. m \<in> set ms \<Longrightarrow> frame x (f m x)"
  shows "frame s (fold f ms s)"
  using assms by (induction ms arbitrary: s) (auto intro: frame_trans)

lemma crossing_changed_frame: "frame s (crossing_changed t c s)"
  unfolding crossing_changed_def by (rule upd_tl_frame) auto

lemma apply_map_frame:
  assumes "0 \<le> mc_delay mc"
  shows "frame s (apply_map t mc s)"
proof -
  have "frame s (upd_oc (mc_oc mc) (\<lambda>c. c\<lparr>mapped_to := mapped_to c @ [mc]\<rparr>) s)"
    using assms delays_okD by (auto simp: frame_def intro!: delays_ok_upd_oc)
  then show ?thesis unfolding apply_map_def by (rule frame_trans [OF _ crossing_changed_frame])
qed

lemma change_transfer_frame: "0 \<le> delay \<Longrightarrow> frame s (change_transfer t oc ic delay s)"
  unfolding change_transfer_def
  using frame_trans [OF set_transfer_delay_frame crossing_changed_frame] by (auto split: option.splits)

lemma apply_delay_frame:
  assumes "0 \<le> mc_delay d"
  shows "frame s (apply_delay t d s)"
proof -
  let ?u = "upd_oc (mc_oc d) (\<lambda>c. c\<lparr>oc_min_write_delay := mc_delay d\<rparr>) s"
  have "frame s ?u" using assms delays_okD by (auto simp: frame_def intro!: delays_ok_upd_oc)
  then have "frame s (change_transfer t (mc_oc d) (mc_ic d) (mc_delay d) (crossing_changed t c ?u))" for c
    using frame_trans [OF frame_trans [OF _ crossing_changed_frame] change_transfer_frame [OF assms]] by blast
  then show ?thesis using change_transfer_frame [OF assms] by (simp add: apply_delay_def Let_def)
qed

lemma recompute_delays_frame: "frame s (recompute_delays t s)"
  unfolding recompute_delays_def Let_def by (auto intro!: upd_tl_frame)

lemma upd_tl_shrink_frame:
  "(\<And>x. tl_time (f x) = tl_time x \<and> stop_before (f x) = stop_before x \<and> tl_phase (f x) = tl_phase x \<and>
     tl_events (f x) = tl_events x \<and> ve_sink_events (f x) = ve_sink_events x \<and> window_list (f x) = window_list x \<and>
     set (channels_to_map (f x)) \<subseteq> set (channels_to_map x) \<and> set (delays_to_change (f x)) \<subseteq> set (delays_to_change x)) \<Longrightarrow>
   frame s (upd_tl t f s)"
  by (auto simp: frame_def intro!: same_core_upd_tl_frame delays_ok_upd_tl [where A = "{}"])

lemma finish_window_frame:
  assumes "base s"
  obtains s3 where "frame s s3" "finish_window t s =
    upd_tl t (\<lambda>tl. tl\<lparr>tl_time := stop_before tl - 1, executed_one_window := 0, work_executed_one_window := 0\<rparr>) s3"
proof -
  let ?m = "fold (apply_map t) (channels_to_map (tls s t)) s"
  let ?s1 = "upd_tl t (\<lambda>tl. tl\<lparr>channels_to_map := []\<rparr>) ?m"
  let ?d = "fold (apply_delay t) (delays_to_change (tls ?s1 t)) ?s1"
  let ?s2 = "upd_tl t (\<lambda>tl. tl\<lparr>delays_to_change := []\<rparr>) ?d"
  have d: "delays_ok s" using assms by (rule base_delays)
  have "frame s ?m"
    using delays_okD(3) [OF d] by (intro fold_frame apply_map_frame) blast
  moreover have "frame ?m ?s1" by (rule upd_tl_shrink_frame) simp
  ultimately have f1: "frame s ?s1" by (rule frame_trans)
  then have "delays_ok ?s1" using d by (simp add: frame_def)
  then have "frame ?s1 ?d"
    using delays_okD(4) by (intro fold_frame apply_delay_frame) blast
  moreover have "frame ?d ?s2" by (rule upd_tl_shrink_frame) simp
  ultimately have "frame s (recompute_delays t ?s2)"
    using f1 recompute_delays_frame frame_trans by meson
  then show thesis by (rule that) (simp add: finish_window_def Let_def)
qed

lemma end_window_inv:
  assumes "sim_inv s" "t < num_timelines s" "tl_phase (tls s t) = In_window"
    "\<forall>e \<in> pending (tls s t). stop_before (tls s t) \<le> ev_time (ev s e)"
  shows "sim_inv (end_window t s)"
proof -
  obtain E where E: "window s E" using phase_window [OF assms(1-3)] by auto
  have bs: "base s" using assms(1) by (simp add: sim_inv_def)
  obtain s3 where f: "frame s s3" and fw: "finish_window t s =
    upd_tl t (\<lambda>tl. tl\<lparr>tl_time := stop_before tl - 1, executed_one_window := 0, work_executed_one_window := 0\<rparr>) s3"
    using finish_window_frame [OF bs] .
  have b3: "base s3" using frame_moves [OF bs f] by (simp add: moves_def)
  have cg: "num_timelines s3 = num_timelines s" "bottom_min s3 = bottom_min s" "ev s3 = ev s"
    using f by (auto simp: frame_def same_core_def ev_def)
  have c: "stop_before (tls s3 u) = stop_before (tls s u)" "tl_phase (tls s3 u) = tl_phase (tls s u)"
    "tl_time (tls s3 u) = tl_time (tls s u)" "pending (tls s3 u) = pending (tls s u)"
    "window_list (tls s3 u) = window_list (tls s u)" for u
    using f by (auto simp: frame_def same_core_def ev_def pending_def)
  let ?x = "(tls s3 t)\<lparr>tl_time := stop_before (tls s3 t) - 1, executed_one_window := 0,
      work_executed_one_window := 0, tl_state := BLOCKED, tl_phase := At_end\<rparr>"
  have s1: "end_window t s = upd_tl t (\<lambda>_. ?x) s3"
    by (simp add: end_window_def fw upd_tl_def)
  have b1: "base (end_window t s)"
    unfolding s1 using b3 by (intro base_upd_tl) (auto simp: qs_def base_def)
  have st: "window_tl (ev s) E (tls s t)" using E assms(2) by (simp add: window_def)
  have "pending ?x = pending (tls s3 t)" by (simp add: pending_def)
  then have px: "pending ?x = pending (tls s t)" using c(4) by simp
  have "E - 1 \<le> ev_time (ev s e) \<and> E \<le> ev_time (ev s e)" if "e \<in> pending (tls s t)" for e
    using assms(4) that st by (force simp: window_tl_def)
  then have "window_tl (ev s) E ?x"
    using st c [of t] px by (simp add: window_tl_def)
  moreover have "window_tl (ev s) E (tls s3 u)" if "u < num_timelines s" for u
    using E that c [of u] by (simp add: window_def window_tl_def)
  ultimately have "window (end_window t s) E" using E cg unfolding s1 by (auto simp: window_def)
  then show ?thesis using b1 cg assms(1) unfolding s1 by (auto simp: sim_inv_def)
qed

lemma window_to_idle:
  assumes "sim_inv s" "all_in At_end s" "p = At_epoch \<or> p = At_top \<and> (\<forall>t < num_timelines s. stop_before (tls s t) < epoch_end s)"
  shows "sim_inv (upd_all (\<lambda>tl. tl\<lparr>tl_phase := p\<rparr>) s)"
proof -
  obtain E where E: "window s E" using all_in_window [OF assms(1,2)] by auto
  have n: "0 < num_timelines s" and bs: "base s" using assms(1) by (auto simp: sim_inv_def)
  have tl: "window_tl (ev s) E (tls s t)" "tl_phase (tls s t) = At_end" if "t < num_timelines s" for t
    using E assms(2) that by (auto simp: window_def all_in_def)
  have "0 \<le> E - 1" using tl [OF n] by (auto simp: window_tl_def)
  moreover have "idle_tl (ev s) (epoch_end s) (E - 1) ((tls s t)\<lparr>tl_phase := p\<rparr>)" if "t < num_timelines s" for t
  proof -
    have "E \<le> ev_time (ev s e)" if "e \<in> set (qs (tls s t))" for e
      using tl [OF \<open>t < num_timelines s\<close>] that by (auto simp: window_tl_def set_qs)
    moreover have "qs ((tls s t)\<lparr>tl_phase := p\<rparr>) = qs (tls s t)" by (simp add: qs_def)
    moreover have "p = At_top \<longrightarrow> E < epoch_end s" using assms(3) tl [OF that] that by (auto simp: window_tl_def)
    ultimately show ?thesis using tl [OF that] assms(3) by (fastforce simp: window_tl_def idle_tl_def)
  qed
  ultimately have "idle (upd_all (\<lambda>tl. tl\<lparr>tl_phase := p\<rparr>) s) (E - 1)"
    using E by (auto simp: idle_def window_def)
  moreover have "base (upd_all (\<lambda>tl. tl\<lparr>tl_phase := p\<rparr>) s)" using bs by (rule base_upd_all) (auto simp: qs_def)
  ultimately show ?thesis using assms(1) by (auto simp: sim_inv_def)
qed

lemma sim_step_inv:
  assumes "sim_step b allowed s s1" "sim_inv s"
  shows "sim_inv s1"
  using assms
proof cases
  case end_epoch
  then have "sim_inv (upd_all (\<lambda>tl. tl\<lparr>tl_phase := At_epoch\<rparr>) s)" using window_to_idle assms(2) by blast
  then show ?thesis using end_epoch(1) by (auto simp: end_epoch_def sim_inv_def idle_def window_def base_globals)
next
  case next_window
  then show ?thesis using window_to_idle assms(2) by (simp add: next_window_def)
qed (use assms(2) advance_inv begin_window_inv release_window_inv exec_event_inv end_window_inv in auto)

section \<open>The start of a simulation\<close>

definition built_ok :: "sim \<Rightarrow> bool" where
  "built_ok s \<longleftrightarrow> base s \<and> 0 < num_timelines s \<and> bottom_min s = -1 \<and> bottom_prev s = -1 \<and>
     (\<forall>t. tl_time (tls s t) = 0 \<and> tl_phase (tls s t) = At_epoch \<and> (\<forall>e \<in> set (qs (tls s t)). 0 \<le> ev_time (ev s e)))"

lemma built_ok_frame:
  assumes "built_ok s" "frame s s1"
  shows "built_ok s1"
proof -
  have "base s1" using assms frame_moves by (auto simp: built_ok_def moves_def)
  moreover have "ev s1 = ev s" "\<And>u. qs (tls s1 u) = qs (tls s u)"
    using assms(2) by (auto simp: frame_def same_core_def ev_def qs_def)
  ultimately show ?thesis using assms by (simp add: built_ok_def frame_def same_core_def)
qed

lemma built_ok_moves:
  assumes "built_ok s" "moves t s s1"
  shows "built_ok s1"
proof -
  have e: "ext t s s1" "base s1" using assms(2) by (auto simp: moves_def)
  have "0 \<le> ev_time (ev s1 x)" if "x \<in> set (qs (tls s1 u))" for u x
  proof (cases "x \<in> set (qs (tls s u))")
    case True
    moreover have "evs s x \<noteq> None" using assms(1) True baseD(1) by (auto simp: built_ok_def)
    ultimately show ?thesis using ext_ev [OF e(1)] assms(1) by (auto simp: built_ok_def)
  next
    case False
    then have "tl_time (tls s t) \<le> ev_time (ev s1 x)"
      using that e(1) unfolding ext_def set_qs by blast
    then show ?thesis using assms(1) by (simp add: built_ok_def)
  qed
  then show ?thesis using assms(1) e by (auto simp: built_ok_def ext_def)
qed

lemma built_ok_objects:
  assumes "built_ok s" "num_timelines s1 = num_timelines s" "bottom_min s1 = bottom_min s" "bottom_prev s1 = bottom_prev s"
    "evs s1 = evs s" "next_ev s1 = next_ev s" "\<And>e. ent_timeline (ents s1 e) < num_timelines s"
    "\<And>u. tl_time (tls s1 u) = tl_time (tls s u) \<and> tl_phase (tls s1 u) = tl_phase (tls s u) \<and> qs (tls s1 u) = qs (tls s u)"
    "delays_ok s1"
  shows "built_ok s1"
proof -
  have "ev s1 = ev s" using assms(5) by (auto simp: ev_def)
  then show ?thesis using assms unfolding built_ok_def base_def ev_ok_def by simp
qed

lemma ent_timeline_upd_ent:
  "(\<And>x. ent_timeline (f x) = ent_timeline x) \<Longrightarrow> ent_timeline (ents (upd_ent e f s) d) = ent_timeline (ents s d)"
  by (simp add: upd_ent_def)

lemma built_built_ok: "built ok s \<Longrightarrow> built_ok s"
proof (induction rule: built.induct)
  case (new n junk)
  then show ?case
    by (auto simp: built_ok_def base_def new_sim_def new_timeline_def qs_def delays_ok_def)
next
  case (entity s t)
  then show ?case
    by (intro built_ok_objects [OF entity.IH])
      (auto simp: BuildEntity_def Let_def upd_tl_def qs_def built_ok_def base_def delays_ok_def)
next
  case (process s e)
  then show ?case
    by (intro built_ok_objects [OF process.IH])
      (auto simp: new_process_def Let_def upd_ent_def built_ok_def base_def delays_ok_def)
next
  case (process_named s e junk_pr)
  then show ?case
    by (intro built_ok_objects [OF process_named.IH])
      (auto simp: new_process_named_def Let_def upd_ent_def built_ok_def base_def delays_ok_def)
next
  case (inchannel s e)
  then show ?case
    by (intro built_ok_objects [OF inchannel.IH])
      (auto simp: new_inchannel_def Let_def upd_ent_def built_ok_def base_def delays_ok_def)
next
  case (outchannel s e mwd)
  then show ?case
    by (intro built_ok_objects [OF outchannel.IH])
      (auto simp: new_outchannel_def Let_def upd_ent_def built_ok_def base_def delays_ok_def)
next
  case (call s t c s1)
  then have "moves t s s1" using api_moves by (auto simp: built_ok_def)
  then show ?case by (rule built_ok_moves [OF call.IH])
qed

text \<open>With threshold 0 the initialisation schedules no appointments.\<close>

definition la_ok :: "nat \<Rightarrow> sim \<Rightarrow> bool" where
  "la_ok t s \<longleftrightarrow> delays_ok s \<and> (\<forall>i. -1 \<le> out_lookahead (tls s t) i)"

lemma appt_mapping_ok:
  assumes "la_ok t s" "0 \<le> mc_delay m"
  shows "frame s (appt_mapping t oc m s) \<and> la_ok t (appt_mapping t oc m s)"
proof -
  have d: "0 \<le> oc_min_write_delay (ocs s oc)" using assms(1) delays_okD(1) by (auto simp: la_ok_def)
  have f: "frame s (appt_mapping t oc m s)"
    unfolding appt_mapping_def Let_def by (auto split: option.splits intro!: upd_tl_frame)
  then have "delays_ok (appt_mapping t oc m s)" using assms(1) by (simp add: frame_def la_ok_def)
  then show ?thesis using f d assms
    by (auto simp: la_ok_def appt_mapping_def Let_def split: option.splits)
qed

lemma fold_frame_inv:
  assumes "P s" "\<And>m x. m \<in> set ms \<Longrightarrow> P x \<Longrightarrow> frame x (f m x) \<and> P (f m x)"
  shows "frame s (fold f ms s) \<and> P (fold f ms s)"
  using assms by (induction ms arbitrary: s) (auto intro: frame_trans)

lemma appt_channel_ok:
  assumes "la_ok t s"
  shows "frame s (appt_channel t thrs oc s) \<and> la_ok t (appt_channel t thrs oc s)"
proof -
  let ?u = "upd_oc oc (\<lambda>c. c\<lparr>mapped_to := map (\<lambda>m. if mc_xtimeline m
          then m\<lparr>mc_asynchronous := (oc_min_write_delay c + mc_delay m < thrs)\<rparr> else m) (mapped_to c)\<rparr>) s"
  have d: "delays_ok s" using assms by (simp add: la_ok_def)
  have "delays_ok ?u" using d delays_okD [OF d] by (intro delays_ok_upd_oc) auto
  then have u: "frame s ?u" "la_ok t ?u"
    using assms by (auto simp: frame_def la_ok_def upd_oc_def same_core_def)
  have "frame ?u (fold (appt_mapping t oc) (mapped_to (ocs s oc)) ?u) \<and>
      la_ok t (fold (appt_mapping t oc) (mapped_to (ocs s oc)) ?u)"
    using delays_okD(2) [OF d] appt_mapping_ok by (intro fold_frame_inv u(2)) blast
  then show ?thesis unfolding appt_channel_def using u(1) frame_trans by blast
qed

definition appt_channels :: "nat \<Rightarrow> sim \<Rightarrow> sim" where
  "appt_channels t s = fold (appt_channel t 0) (concat (map (\<lambda>e. outchannel_list (ents s e)) (entity_list (tls s t))))
     (upd_tl t (\<lambda>tl. tl\<lparr>window_size := 0, in_waiting := (\<lambda>_. False),
                 in_appointment := (\<lambda>_. -1), out_lookahead := (\<lambda>_. -1)\<rparr>) s)"

lemma initialize_appt_0:
  assumes "delays_ok s"
  shows "initialize_appt t 0 s = appt_channels t s" "frame s (appt_channels t s)"
proof -
  let ?s1 = "upd_tl t (\<lambda>tl. tl\<lparr>window_size := 0, in_waiting := (\<lambda>_. False),
                 in_appointment := (\<lambda>_. -1), out_lookahead := (\<lambda>_. -1)\<rparr>) s"
  let ?s2 = "appt_channels t s"
  have f1: "frame s ?s1" by (rule upd_tl_frame) simp
  then have "la_ok t ?s1" using assms by (simp add: la_ok_def frame_def)
  then have f2: "frame ?s1 ?s2" "la_ok t ?s2"
    unfolding appt_channels_def
    using fold_frame_inv [where P = "la_ok t" and f = "appt_channel t 0", OF _ appt_channel_ok] by blast+
  have "make_appt t 0 i x = x" if "la_ok t x" for i x
  proof -
    have "-1 \<le> out_lookahead (tls x t) i" using that by (simp add: la_ok_def)
    then have "\<not> (out_lookahead (tls x t) i \<noteq> -1 \<and> out_lookahead (tls x t) i < 0)" by linarith
    then show ?thesis unfolding make_appt_def Let_def by (rule if_not_P)
  qed
  then have "fold (make_appt t 0) is ?s2 = ?s2" for "is" using f2(2) by (induction "is") auto
  then show "initialize_appt t 0 s = ?s2" by (simp add: initialize_appt_def appt_channels_def Let_def)
  show "frame s ?s2" by (rule frame_trans [OF f1 f2(1)])
qed

lemma initialize_appt_0_frame: "delays_ok s \<Longrightarrow> frame s (initialize_appt t 0 s)"
  using initialize_appt_0 by simp

lemma init_timeline_frame:
  assumes "delays_ok s"
  shows "frame s (init_timeline 0 t s)"
proof -
  let ?s1 = "upd_tl t (\<lambda>tl. tl\<lparr>min_cross_delay := min_sync_cross_timeline_delay 0 t s, window_size := 0\<rparr>) s"
  have f1: "frame s ?s1" by (rule upd_tl_frame) simp
  then have "delays_ok ?s1" using assms by (simp add: frame_def)
  then have f2: "frame s (initialize_appt t 0 ?s1)" using frame_trans [OF f1 initialize_appt_0_frame] by blast
  have "frame x (upd_tl t (\<lambda>tl. tl\<lparr>channels_at_minimum := c\<rparr>) x)" for x c by (rule upd_tl_frame) simp
  then have "frame s (upd_tl t (\<lambda>tl. tl\<lparr>channels_at_minimum := c\<rparr>) (initialize_appt t 0 ?s1))" for c
    using f2 frame_trans by blast
  then show ?thesis using f2 by (simp add: init_timeline_def Let_def)
qed

lemma InitModel_frame:
  assumes "delays_ok s"
  shows "frame s (InitModel s)"
proof -
  have "frame s (fold (init_timeline 0) ts s) \<and> delays_ok (fold (init_timeline 0) ts s)" for ts
    using init_timeline_frame by (intro fold_frame_inv assms) (auto simp: frame_def)
  then show ?thesis by (simp add: InitModel_def)
qed

lemma built_ok_idle: "built_ok s \<Longrightarrow> sim_inv s"
  by (auto simp: built_ok_def sim_inv_def idle_def idle_tl_def intro!: exI [of _ 0])

lemma sim_reach_inv: "sim_reach b ok allowed s \<Longrightarrow> sim_inv s"
proof (induction rule: sim_reach.induct)
  case (init s)
  then have "built_ok s" by (rule built_built_ok)
  moreover have "frame s (InitModel s)"
    using calculation by (intro InitModel_frame base_delays) (simp add: built_ok_def)
  ultimately show ?case by (intro built_ok_idle) (rule built_ok_frame)
next
  case (step s s1)
  then show ?case using sim_step_inv by blast
qed

section \<open>Causality\<close>

lemma executes_clock:
  assumes "sim_inv s" "t < num_timelines s" "tl_phase (tls s t) = In_window" "selects s t which e"
    "exec_event t which e calls s = Inr s1"
  shows "tl_time (tls s u) \<le> tl_time (tls s1 u)"
proof -
  obtain E where E: "window s E" using phase_window [OF assms(1-3)] by auto
  have "e \<in> pending (tls s t)" using selectsD(1) [OF assms(4)] by (auto simp: pending_def)
  then have "tl_time (tls s t) \<le> ev_time (ev s e)" using E assms(2) by (auto simp: window_def window_tl_def)
  moreover have "executes t e s s1" using exec_event_executes assms by (auto simp: sim_inv_def)
  ultimately show ?thesis by (auto simp: executes_def)
qed

lemma end_window_clock:
  assumes "sim_inv s" "t < num_timelines s" "tl_phase (tls s t) = In_window"
  shows "tl_time (tls s u) \<le> tl_time (tls (end_window t s) u)" "evs (end_window t s) = evs s"
proof -
  obtain E where E: "window s E" using phase_window [OF assms] by auto
  have bs: "base s" using assms(1) by (simp add: sim_inv_def)
  obtain s3 where f: "frame s s3" and fw: "finish_window t s =
    upd_tl t (\<lambda>tl. tl\<lparr>tl_time := stop_before tl - 1, executed_one_window := 0, work_executed_one_window := 0\<rparr>) s3"
    using finish_window_frame [OF bs] .
  have c: "stop_before (tls s3 v) = stop_before (tls s v)" "tl_time (tls s3 v) = tl_time (tls s v)" for v
    using f by (auto simp: frame_def same_core_def)
  have "window_tl (ev s) E (tls s t)" using E assms(2) by (simp add: window_def)
  then show "tl_time (tls s u) \<le> tl_time (tls (end_window t s) u)"
    using c by (auto simp: end_window_def fw window_tl_def)
  show "evs (end_window t s) = evs s"
    using f by (simp add: end_window_def fw frame_def same_core_def)
qed

lemma begin_window_clock:
  "tl_time (tls (begin_window b t s) u) = tl_time (tls s u)" "evs (begin_window b t s) = evs s"
  by (auto simp: begin_window_def Let_def get_cross_timeline_events_def start_window_def barrier_offer_def
      split: option.splits)

lemma upd_all_clock: "(\<And>x. tl_time (f x) = tl_time x) \<Longrightarrow> tl_time (tls (upd_all f s) u) = tl_time (tls s u)"
  by (simp add: upd_all_def)

lemma sim_step_clock:
  assumes "sim_step b allowed s s1" "sim_inv s"
  shows "tl_time (tls s u) \<le> tl_time (tls s1 u)"
  using assms(1)
proof cases
  case (exec t which e calls)
  then show ?thesis using executes_clock assms(2) by blast
next
  case (end_window t)
  then show ?thesis using end_window_clock assms(2) by blast
qed (auto simp: advance_def Let_def begin_window_clock release_window_def barrier_release_def
      next_window_def end_epoch_def upd_all_clock start_window_def split: barrier_kind.splits)

section \<open>A small model\<close>

text \<open>
  One entity on timeline 0 with one process, which is to run at time 5; \<open>n\<close> timelines.  The states of
  its first window are used as examples below.
\<close>

definition blank_timeline :: timeline where
  "blank_timeline = \<lparr>tl_state = INITIALIZING, tl_this = None, entity_list = [], min_cross_delay = 0,
     min_all_delay = 0, min_same_delay = 0, window_size = 0, channels_at_minimum = 0,
     recompute_min_delay = False, tl_time = 0, stop_before = 0, tl_window = 0, activeChannel = None,
     window_list = [], channels_to_map = [], delays_to_change = [], in_appointment = (\<lambda>_. 0),
     in_waiting = (\<lambda>_. False), out_lookahead = (\<lambda>_. 0), out_events = (\<lambda>_. []), tl_events = [],
     ve_sink_events = [], executed = 0, work_executed = 0, executed_one_window = 0,
     work_executed_one_window = 0, evtnum = 0, t_prime = 0, tl_phase = At_epoch\<rparr>"

definition demo_objects :: "nat \<Rightarrow> sim" where
  "demo_objects n = snd (new_process 0 (snd (BuildEntity 0 (new_sim n (\<lambda>_. blank_timeline)))))"

definition demo :: "nat \<Rightarrow> sim" where
  "demo n = (case api (WaitFor 0 (Some 0) None 5 0) (demo_objects n) of Inl e \<Rightarrow> demo_objects n | Inr s \<Rightarrow> s)"

lemmas demo_defs = demo_objects_def new_process_def BuildEntity_def new_sim_def blank_timeline_def
  new_timeline_def upd_ent_def Let_def

lemma demo_call: "api (WaitFor 0 (Some 0) None 5 0) (demo_objects n) = Inr (demo n)"
  by (simp add: demo_def demo_defs waitFor_def keep_def schedule_process_def new_event_def split: prod.splits)

lemma demo_built:
  assumes "0 < n" "ok (WaitFor 0 (Some 0) None 5 0)"
  shows "built ok (demo n)"
proof -
  let ?e = "snd (BuildEntity 0 (new_sim n (\<lambda>_. blank_timeline)))"
  have "built ok ?e" using assms(1) by (intro built.entity built.new) (simp_all add: new_sim_def)
  moreover have "0 < num_entities ?e" by (simp add: BuildEntity_def Let_def upd_tl_def new_sim_def)
  ultimately have "built ok (demo_objects n)" unfolding demo_objects_def by (rule built.process)
  then show ?thesis
    by (rule built.call [where t = 0, OF _ _ _ _ demo_call]) (use assms in \<open>simp_all add: demo_defs\<close>)
qed

lemmas demo_eval = InitModel_def init_timeline_def initialize_appt_def demo_def demo_defs waitFor_def keep_def
  schedule_process_def new_event_def now_def user_pri_def push_event_def min_sync_cross_timeline_delay_def
  ent_min_sync_cross_def make_appt_def count_min_delay_crossings_def ent_count_min_delay_crossings_def
  begin_window_def advance_def upd_all_def upd_tl_def event_mk get_cross_timeline_events_def start_window_def
  exec_event_def dispatch_event_def pop_event_def ev_def enter_body_def set_running_def count_work_def upd_proc_def
  release_event_def

definition demo_window :: sim where
  "demo_window = begin_window PTHREAD_BARRIER 0 (advance 100 (InitModel (demo 1)))"

lemma demo_window_reach: "sim_reach PTHREAD_BARRIER (\<lambda>_. True) (\<lambda>_. True) demo_window"
proof -
  have "sim_reach PTHREAD_BARRIER (\<lambda>_. True) (\<lambda>_. True) (InitModel (demo 1))"
    by (intro sim_reach.init demo_built) auto
  moreover have "all_in At_epoch (InitModel (demo 1))" by (simp add: all_in_def demo_eval)
  ultimately have "sim_reach PTHREAD_BARRIER (\<lambda>_. True) (\<lambda>_. True) (advance 100 (InitModel (demo 1)))"
    by (rule sim_reach.step [OF _ sim_step.advance])
  then show ?thesis unfolding demo_window_def
    by (rule sim_reach.step [OF _ sim_step.begin_window]) (simp_all add: demo_eval)
qed

lemma demo_window_exec:
  "num_timelines demo_window = 1" "tl_time (tls demo_window 0) = 0" "tl_phase (tls demo_window 0) = In_window"
  "selects demo_window 0 1 0"
  "\<exists>s1. exec_event 0 1 0 [] demo_window = Inr s1 \<and> tl_time (tls s1 0) = 5"
  unfolding demo_window_def
  by (simp_all add: demo_eval selects_def top_of_def select_next_event_def is_top_def evt_Comparer_def
      exI [of _ "Some (0 :: nat)"] exI [of _ None])

text \<open>
  C3. Causality.  In every state that a simulation can reach, whatever its processes do within the
  interface, however the threads interleave and whichever barrier is used: no event that waits at a
  timeline is before the clock of that timeline, an event sent by another timeline is not before the
  clock either, and a step of any thread never turns a clock back.
\<close>

theorem sim_causality:
  assumes "sim_reach b ok allowed s" "t < num_timelines s"
  shows "(\<forall>e \<in> pending (tls s t) \<union> set (window_list (tls s t)). tl_time (tls s t) \<le> ev_time (ev s e)) \<and>
    (\<forall>s1. sim_step b allowed s s1 \<longrightarrow> tl_time (tls s t) \<le> tl_time (tls s1 t))"
proof -
  have inv: "sim_inv s" using assms(1) by (rule sim_reach_inv)
  then consider T where "idle s T" | E where "window s E" by (auto simp: sim_inv_def)
  then have "\<forall>e \<in> pending (tls s t) \<union> set (window_list (tls s t)). tl_time (tls s t) \<le> ev_time (ev s e)"
  proof cases
    case 1
    then show ?thesis using assms(2) by (auto simp: idle_def idle_tl_def set_qs)
  next
    case 2
    then show ?thesis using assms(2) by (fastforce simp: window_def window_tl_def)
  qed
  then show ?thesis using sim_step_clock [OF _ inv] by blast
qed

theorem sim_causality_witness:
  "\<exists>s s1. sim_reach PTHREAD_BARRIER (\<lambda>_. True) (\<lambda>_. True) s \<and> sim_step PTHREAD_BARRIER (\<lambda>_. True) s s1 \<and>
     tl_time (tls s 0) = 0 \<and> tl_time (tls s1 0) = 5 \<and> tl_time (tls s 0) \<le> tl_time (tls s1 0)"
proof -
  obtain s1 where s1: "exec_event 0 1 0 [] demo_window = Inr s1" "tl_time (tls s1 0) = 5"
    using demo_window_exec(5) by blast
  have "sim_step PTHREAD_BARRIER (\<lambda>_. True) demo_window s1"
    by (rule sim_step.exec [OF _ demo_window_exec(3,4) _ s1(1)]) (simp_all add: demo_window_exec)
  moreover have "tl_time (tls demo_window 0) \<le> tl_time (tls s1 0)"
    using sim_causality [OF demo_window_reach, of 0] calculation by (simp add: demo_window_exec)
  ultimately show ?thesis using demo_window_reach demo_window_exec(2) s1(2) by blast
qed

section \<open>Handles\<close>

lemma sim_step_evs:
  assumes "sim_step b allowed s s1" "sim_inv s" "evs s e = Some x"
  shows "(\<exists>y. evs s1 e = Some y \<and> ev_time y = ev_time x \<and> ev_home y = ev_home x) \<or>
    ev_time x \<le> tl_time (tls s1 (ev_home x))"
  using assms(1)
proof cases
  case (exec t which d calls)
  have bs: "base s" using assms(2) by (simp add: sim_inv_def)
  have ex: "executes t d s s1" using exec_event_executes [OF bs] exec by blast
  show ?thesis
  proof (cases "e = d")
    case True
    then have "e \<in> set (qs (tls s t))" using selectsD(1) [OF exec(3)] by (auto simp: qs_def)
    then have "ev_home (ev s e) = t" by (rule baseD(2) [OF bs])
    then have "ev_home x = t" using assms(3) by simp
    then show ?thesis using ex True assms(3) by (simp add: executes_def)
  next
    case False
    then show ?thesis using ex assms(3) unfolding executes_def by blast
  qed
next
  case (end_window t)
  then show ?thesis using end_window_clock(2) assms(2,3) by fastforce
qed (use assms(3) in \<open>auto simp: advance_def Let_def begin_window_clock release_window_def barrier_release_def
      next_window_def end_epoch_def split: barrier_kind.splits\<close>)

lemma event_lives:
  assumes "(sim_step b allowed)\<^sup>*\<^sup>* s s1" "sim_inv s" "evs s e = Some x"
  shows "sim_inv s1 \<and> ((\<exists>y. evs s1 e = Some y \<and> ev_time y = ev_time x \<and> ev_home y = ev_home x) \<or>
    ev_time x \<le> tl_time (tls s1 (ev_home x)))"
  using assms(1)
proof (induction rule: rtranclp_induct)
  case base
  then show ?case using assms by blast
next
  case (step s2 s3)
  then have inv: "sim_inv s2" by blast
  have "sim_inv s3" using sim_step_inv [OF step.hyps(2) inv] .
  moreover have "tl_time (tls s2 (ev_home x)) \<le> tl_time (tls s3 (ev_home x))"
    using sim_step_clock [OF step.hyps(2) inv] .
  ultimately show ?case using step.IH sim_step_evs [OF step.hyps(2) inv, of e] by fastforce
qed

lemma steps_clock:
  assumes "(sim_step b allowed)\<^sup>*\<^sup>* s s1" "sim_inv s"
  shows "tl_time (tls s u) \<le> tl_time (tls s1 u)"
proof -
  have "sim_inv s1 \<and> tl_time (tls s u) \<le> tl_time (tls s1 u)" using assms(1)
  proof (induction rule: rtranclp_induct)
    case base
    then show ?case using assms(2) by simp
  next
    case (step s2 s3)
    then show ?case using sim_step_inv [OF step.hyps(2)] sim_step_clock [OF step.hyps(2), of u] by simp
  qed
  then show ?thesis by simp
qed

text \<open>
  C16. Handles.  The handle of an event that exists at some point \<open>s\<close> of a simulation is used later.
  Without another thread in between (\<open>s1\<close>): either the clock of its timeline has reached the event, and
  \<open>cancel\<close> refuses without touching the event object, or the object still exists, is marked as cancelled
  with its time unchanged, and \<open>cancel\<close> succeeds.  For a cancellation from another timeline, whose first
  test is made in \<open>s1\<close> and which marks the event in a later state \<open>s2\<close>: as long as the clock of the event's
  timeline has not reached the event in \<open>s2\<close>, both tests succeed and the mark meets the same object.
\<close>

theorem handle_cancel_safe:
  assumes "sim_reach b ok allowed s" "evs s e = Some x" "(sim_step b allowed)\<^sup>*\<^sup>* s s1" "(sim_step b allowed)\<^sup>*\<^sup>* s1 s2"
    "h = mk_handle s e"
  shows "(if ev_time x \<le> tl_time (tls s1 (ev_home x))
      then handle_cancel h s1 = Inr (False, s1)
      else \<exists>y. evs s1 e = Some y \<and> ev_time y = ev_time x \<and>
             handle_cancel h s1 = Inr (True, s1\<lparr>evs := (evs s1)(e := Some (y\<lparr>ev_type := EVTYPE_CANCEL\<rparr>))\<rparr>)) \<and>
    (\<not> ev_time x \<le> tl_time (tls s2 (ev_home x)) \<longrightarrow>
      handle_before h s1 \<and> (\<exists>y s3. evs s2 e = Some y \<and> ev_time y = ev_time x \<and> ev_home y = ev_home x \<and>
        handle_mark h s2 = Inr s3 \<and> s3 = s2\<lparr>evs := (evs s2)(e := Some (y\<lparr>ev_type := EVTYPE_CANCEL\<rparr>))\<rparr> \<and>
        handle_before h s3))"
proof -
  have h: "h = \<lparr>h_eptr = e, h_time = ev_time x, h_home = ev_home x\<rparr>" using assms(2,5) by (simp add: mk_handle_def)
  note inv = sim_reach_inv [OF assms(1)]
  note lives1 = event_lives [OF assms(3) inv assms(2)]
    and lives2 = event_lives [OF rtranclp_trans [OF assms(3,4)] inv assms(2)]
  have clock: "tl_time (tls s1 u) \<le> tl_time (tls s2 u)" for u
    by (rule steps_clock [OF assms(4)]) (use lives1 in simp)
  note eval = h handle_cancel_def handle_before_def handle_mark_def now_def
  have "if ev_time x \<le> tl_time (tls s1 (ev_home x)) then handle_cancel h s1 = Inr (False, s1)
      else \<exists>y. evs s1 e = Some y \<and> ev_time y = ev_time x \<and>
             handle_cancel h s1 = Inr (True, s1\<lparr>evs := (evs s1)(e := Some (y\<lparr>ev_type := EVTYPE_CANCEL\<rparr>))\<rparr>)"
    using lives1 by (auto simp: eval)
  moreover have "handle_before h s1 \<and> (\<exists>y s3. evs s2 e = Some y \<and> ev_time y = ev_time x \<and> ev_home y = ev_home x \<and>
        handle_mark h s2 = Inr s3 \<and> s3 = s2\<lparr>evs := (evs s2)(e := Some (y\<lparr>ev_type := EVTYPE_CANCEL\<rparr>))\<rparr> \<and>
        handle_before h s3)" if "\<not> ev_time x \<le> tl_time (tls s2 (ev_home x))"
    using lives2 that clock [of "ev_home x"] by (auto simp: eval)
  ultimately show ?thesis by blast
qed

theorem handle_cancel_safe_witness:
  "\<exists>s x. sim_reach PTHREAD_BARRIER (\<lambda>_. True) (\<lambda>_. True) s \<and> evs s 0 = Some x \<and> ev_time x = 5 \<and>
     (\<exists>y. handle_cancel (mk_handle s 0) s = Inr (True, s\<lparr>evs := (evs s)(0 := Some (y\<lparr>ev_type := EVTYPE_CANCEL\<rparr>))\<rparr>))"
proof -
  obtain x where x: "evs demo_window 0 = Some x" "ev_time x = 5" "ev_home x = 0"
    unfolding demo_window_def by (simp add: demo_eval)
  have "\<not> ev_time x \<le> tl_time (tls demo_window (ev_home x))" using x demo_window_exec(2) by simp
  then show ?thesis
    using handle_cancel_safe [OF demo_window_reach x(1) rtranclp.rtrancl_refl rtranclp.rtrancl_refl refl] x demo_window_reach by auto
qed


section \<open>Types of the events\<close>

text \<open>No operation of the interface and no body ends in an event of the composite synchronisation.\<close>

lemma write_loop_error: "write_loop this act d1 mwd hz pri ms al os s = Inl err \<Longrightarrow> err = Null_pointer"
  by (induction ms arbitrary: al os s) (auto simp: Let_def split: if_splits option.splits prod.splits)

lemma keep_Inl: "keep r = Inl err \<longleftrightarrow> r = Inl err"
  by (auto simp: keep_def split: sum.splits)

lemma insertion_gateway_error: "insertion_gateway ic p b pri s = Inl err \<Longrightarrow> err = Assertion_failed"
  by (simp add: insertion_gateway_def Let_def split: if_splits)

lemma api_error:
  assumes "api c s = Inl err"
  shows "err \<noteq> Composite_sync"
proof (cases c)
  case (WaitFor ent p act d pri)
  then show ?thesis using assms
    by (auto simp: keep_Inl waitFor_def schedule_process_def Let_def split: option.splits if_splits prod.splits)
next
  case (Write oc act d pri)
  then show ?thesis using assms write_loop_error
    by (fastforce simp: keep_Inl oc_write_def Let_def split: sum.splits)
next
  case (WaitOn ic p)
  then show ?thesis using assms insertion_gateway_error
    by (fastforce simp: waitOn_def add_process_def split: option.splits)
next
  case (Bind ic p)
  then show ?thesis using assms insertion_gateway_error by (fastforce simp: bind_process_def split: option.splits)
next
  case (Unmap oc ic)
  then show ?thesis using assms by (auto simp: keep_Inl unmap_def Let_def split: option.splits)
next
  case (Cancel h)
  then show ?thesis using assms
    by (auto simp: keep_Inl handle_cancel_def handle_mark_def split: option.splits if_splits)
next
  case (Cancel_mark h)
  then show ?thesis using assms by (auto simp: handle_mark_def split: option.splits)
qed (use assms in auto)

lemma run_body_error: "run_body t cs s = Inl err \<Longrightarrow> err \<noteq> Composite_sync"
  by (induction t cs s rule: run_body.induct) (auto split: if_splits sum.splits dest: api_error)

lemma activate_loop_error: "activate_loop this ic act ws s = Inl err \<Longrightarrow> err = Undefined_behaviour"
proof (induction ws arbitrary: s rule: length_induct)
  case (1 ws)
  show ?case
  proof (cases ws)
    case Nil
    then show ?thesis using "1.prems" by simp
  next
    case (Cons pp pps)
    let ?s = "activate_one this ic act pp s"
    consider "activate_loop this ic act pps ?s = Inl err" | "pps = []" "err = Undefined_behaviour"
      | q rs where "pps = q # rs" "activate_loop this ic act rs ?s = Inl err"
      using "1.prems" Cons by (cases pps) (simp_all split: if_splits sum.splits prod.splits)
    then show ?thesis
    proof cases
      case 1
      then show ?thesis using "1.IH" Cons by auto
    next
      case (3 q rs)
      then have "length rs < length ws" using Cons by simp
      then show ?thesis using "1.IH" 3(2) by blast
    qed simp
  qed
qed

lemma dispatch_event_error:
  assumes "dispatch_event t x calls s = Inl err" "ev_type x \<noteq> EVTYPE_MAKE_APPT" "ev_type x \<noteq> EVTYPE_WAIT_APPT"
  shows "err \<noteq> Composite_sync"
  using assms by (cases "ev_type x")
    (auto simp: dispatch_event_def split: option.splits sum.splits if_splits dest: run_body_error activate_loop_error)

text \<open>
  C14. The event lists are well typed.  In every state that a simulation can reach, each of the three
  lists of a timeline holds live event objects of that timeline, none of them twice or in two lists,
  and of the types that the engine without composite synchronisation executes; so \<open>sync_window\<close> never
  comes to the code for appointments.
\<close>

theorem event_lists_typed:
  assumes "sim_reach b ok allowed s"
  shows "distinct (tl_events (tls s t) @ ve_sink_events (tls s t) @ window_list (tls s t)) \<and>
    (\<forall>e \<in> set (tl_events (tls s t) @ ve_sink_events (tls s t) @ window_list (tls s t)).
       \<exists>x. evs s e = Some x \<and> ev_home x = t \<and> ev_type x \<noteq> EVTYPE_WAIT_APPT \<and> ev_type x \<noteq> EVTYPE_MAKE_APPT) \<and>
    (\<forall>which e calls. selects s t which e \<longrightarrow> exec_event t which e calls s \<noteq> Inl Composite_sync)"
proof -
  have bs: "base s" using sim_reach_inv [OF assms] by (simp add: sim_inv_def)
  have "exec_event t which e calls s \<noteq> Inl Composite_sync" if sel: "selects s t which e" for which e calls
  proof -
    have "e \<in> set (qs (tls s t))" using selectsD(1) [OF sel] by (auto simp: qs_def)
    then have "ev_type (ev s e) \<noteq> EVTYPE_WAIT_APPT" "ev_type (ev s e) \<noteq> EVTYPE_MAKE_APPT"
      by (auto dest: baseD(4,5) [OF bs])
    then show ?thesis using dispatch_event_error by (auto simp: exec_event_def split: sum.splits)
  qed
  moreover have "distinct (qs (tls s t))" "\<forall>e \<in> set (qs (tls s t)). ev_ok s t e"
    using bs by (simp_all add: base_def)
  ultimately show ?thesis by (auto simp: qs_def ev_ok_def)
qed

theorem event_lists_typed_witness:
  "\<exists>s. sim_reach PTHREAD_BARRIER (\<lambda>_. True) (\<lambda>_. True) s \<and> tl_events (tls s 0) = [0] \<and>
     (\<exists>x. evs s 0 = Some x \<and> ev_home x = 0 \<and> ev_type x \<noteq> EVTYPE_WAIT_APPT \<and> ev_type x \<noteq> EVTYPE_MAKE_APPT)"
proof -
  have "tl_events (tls demo_window 0) = [0]" unfolding demo_window_def by (simp add: demo_eval)
  then show ?thesis using event_lists_typed [OF demo_window_reach, of 0] demo_window_reach by auto
qed

end
