(* ===== verification/Sim_Livelock.thy ===== *)
theory Sim_Livelock
  imports Sim_Windows
begin

text \<open>
  Where the windows of an epoch stop making progress.  The window size is 0 without composite
  synchronisation, so a timeline without outgoing cross-timeline channel offers the time of its first
  event and not a later one, and the reduction in front of the POSIX barrier is never reset.
\<close>

lemma timeline_noop:
  "window_list x = [] \<Longrightarrow> x\<lparr>window_list := []\<rparr> = x" "channels_to_map x = [] \<Longrightarrow> x\<lparr>channels_to_map := []\<rparr> = x"
  "delays_to_change x = [] \<Longrightarrow> x\<lparr>delays_to_change := []\<rparr> = (x :: timeline)"
  by (cases x; simp)+

lemma finish_window_quiet:
  assumes "channels_to_map (tls s t) = []" "delays_to_change (tls s t) = []" "\<not> recompute_min_delay (tls s t)"
  shows "finish_window t s =
    upd_tl t (\<lambda>tl. tl\<lparr>tl_time := stop_before tl - 1, executed_one_window := 0, work_executed_one_window := 0\<rparr>) s"
  using assms by (simp add: finish_window_def recompute_delays_def Let_def upd_tl_def timeline_noop)

text \<open>
  A timeline at the edge \<open>E\<close> that was reached: it has no events at all, or its first event is at \<open>E\<close>
  and it has no outgoing cross-timeline channel.
\<close>

definition stuck_tl :: "sim \<Rightarrow> ltime \<Rightarrow> nat \<Rightarrow> bool" where
  "stuck_tl s E t \<longleftrightarrow> (let x = tls s t in
     tl_time x = E - 1 \<and> window_list x = [] \<and> channels_to_map x = [] \<and> delays_to_change x = [] \<and> window_size x = 0 \<and>
     (pending x = {} \<or> min_cross_delay x < 0 \<and> next_time s t = E) \<and>
     tl_phase x \<in> {At_top, At_bottom, In_window, At_end} \<and>
     (tl_phase x \<in> {In_window, At_end} \<longrightarrow> stop_before x = E) \<and>
     (tl_phase x = In_window \<longrightarrow> \<not> recompute_min_delay x))"

definition stuck :: "sim \<Rightarrow> ltime \<Rightarrow> bool" where
  "stuck s E \<longleftrightarrow> 1 < num_timelines s \<and> 0 < E \<and> E < epoch_end s \<and> bottom_min s = E \<and> bottom_prev s = E \<and>
     (\<forall>t < num_timelines s. stuck_tl s E t)"

lemma next_time_cong:
  assumes "ev s1 = ev s" "tl_events (tls s1 t) = tl_events (tls s t)" "ve_sink_events (tls s1 t) = ve_sink_events (tls s t)"
  shows "next_time s1 t = next_time s t"
proof -
  have "least_time s1 q = least_time s q" for q
    using assms(1) by (induction q) (auto simp: least_time_Cons)
  then show ?thesis by (simp add: next_time_def Let_def assms)
qed

lemma stuck_offer:
  assumes "stuck_tl s E t" "0 < E"
  shows "offer_value t s = None \<or> offer_value t s = Some E"
proof (cases "pending (tls s t) = {}")
  case True
  then have "next_time s t = -1" by (simp add: next_time_def pending_def)
  then show ?thesis using assms by (simp add: stuck_tl_def Let_def offer_value_def now_def)
next
  case False
  then show ?thesis using assms by (auto simp: stuck_tl_def Let_def offer_value_def now_def)
qed

lemma stuck_step:
  assumes "sim_step PTHREAD_BARRIER allowed s s1" "stuck s E"
  shows "stuck s1 E \<and> evs s1 = evs s \<and> epoch_end s1 = epoch_end s \<and> num_timelines s1 = num_timelines s"
  using assms(1)
proof cases
  case (advance d)
  then show ?thesis using assms(2) by (force simp: stuck_def stuck_tl_def all_in_def Let_def)
next
  case (begin_window t)
  have st: "stuck_tl s E t" and n: "1 < num_timelines s" using begin_window(2) assms(2) by (auto simp: stuck_def)
  let ?s1 = "upd_tl t (\<lambda>tl. tl\<lparr>tl_state := BLOCKED\<rparr>) (get_cross_timeline_events t s)"
  have g: "get_cross_timeline_events t s = s"
    using st by (simp add: get_cross_timeline_events_def stuck_tl_def Let_def upd_tl_def timeline_noop)
  have "next_time ?s1 t = next_time s t" unfolding g by (rule next_time_cong) auto
  then have st1: "stuck_tl ?s1 E t" using st unfolding g by (auto simp: stuck_tl_def Let_def pending_def)
  have o: "barrier_offer PTHREAD_BARRIER (offer_value t ?s1) ?s1 = ?s1"
    using stuck_offer [OF st1] assms(2)
    by (auto simp: g barrier_offer_def pthread_reduce_def stuck_def split: option.splits)
  have s1: "s1 = upd_tl t (\<lambda>tl. tl\<lparr>tl_phase := At_bottom\<rparr>) ?s1"
    using begin_window(1) n o by (simp add: begin_window_def Let_def)
  have "stuck_tl s1 E u" if "u < num_timelines s" for u
  proof -
    have nt: "next_time s1 u = next_time s u" unfolding s1 g by (rule next_time_cong) auto
    have "stuck_tl s E u" using that assms(2) by (simp add: stuck_def)
    then show ?thesis using nt st begin_window(3) unfolding s1 g by (auto simp: stuck_tl_def Let_def pending_def)
  qed
  then show ?thesis using assms(2) unfolding s1 g by (simp add: stuck_def)
next
  case (release t)
  have E: "window_edge s = E" using assms(2) by (simp add: window_edge_def stuck_def)
  have "stuck_tl s1 E u" if "u < num_timelines s" for u
  proof -
    have nt: "next_time s1 u = next_time s u" using that unfolding release(1)
      by (intro next_time_cong) (auto simp: release_window_def barrier_release_def start_window_def)
    have "stuck_tl s E u" using that assms(2) by (simp add: stuck_def)
    then show ?thesis using nt that E unfolding release(1)
      by (auto simp: stuck_tl_def Let_def pending_def release_window_def barrier_release_def start_window_def)
  qed
  moreover have "num_timelines s1 = num_timelines s" "epoch_end s1 = epoch_end s" "evs s1 = evs s"
      "bottom_min s1 = bottom_min s" "bottom_prev s1 = E"
    using assms(2) unfolding release(1) by (simp_all add: stuck_def release_window_def barrier_release_def)
  ultimately show ?thesis using assms(2) by (simp add: stuck_def)
next
  case (exec t which e calls)
  have st: "stuck_tl s E t" using exec(1) assms(2) by (simp add: stuck_def)
  have e: "e \<in> pending (tls s t)" using selectsD(1) [OF exec(3)] by (auto simp: pending_def)
  then have "next_time s t = E" "stop_before (tls s t) = E" using st exec(2) by (auto simp: stuck_tl_def Let_def)
  then have "E \<le> ev_time (ev s e)" using e next_time_le [of e s t] by (simp add: pending_def)
  then show ?thesis using selectsD(3) [OF exec(3)] \<open>stop_before (tls s t) = E\<close> by simp
next
  case (end_window t)
  have st: "stuck_tl s E t" using end_window(2) assms(2) by (simp add: stuck_def)
  then have f: "finish_window t s =
    upd_tl t (\<lambda>tl. tl\<lparr>tl_time := stop_before tl - 1, executed_one_window := 0, work_executed_one_window := 0\<rparr>) s"
    using end_window(3) by (intro finish_window_quiet) (auto simp: stuck_tl_def Let_def)
  have "stuck_tl s1 E u" if "u < num_timelines s" for u
  proof -
    have nt: "next_time s1 u = next_time s u" unfolding end_window(1)
      by (intro next_time_cong) (auto simp: end_window_def f)
    have "stuck_tl s E u" using that assms(2) by (simp add: stuck_def)
    then show ?thesis using nt st end_window(3) unfolding end_window(1)
      by (auto simp: stuck_tl_def Let_def pending_def end_window_def f)
  qed
  then show ?thesis using assms(2) unfolding end_window(1) by (simp add: stuck_def end_window_def f)
next
  case next_window
  have "stuck_tl s1 E u" if "u < num_timelines s" for u
  proof -
    have nt: "next_time s1 u = next_time s u" using that unfolding next_window(1)
      by (intro next_time_cong) (auto simp: next_window_def)
    have "stuck_tl s E u" using that assms(2) by (simp add: stuck_def)
    then show ?thesis using nt that unfolding next_window(1)
      by (auto simp: stuck_tl_def Let_def pending_def next_window_def)
  qed
  then show ?thesis using assms(2) unfolding next_window(1) by (simp add: stuck_def next_window_def)
next
  case end_epoch
  then show ?thesis using assms(2) by (fastforce simp: stuck_def stuck_tl_def all_in_def Let_def)
qed


definition demo_stuck :: sim where
  "demo_stuck =
     next_window (end_window 1 (end_window 0 (release_window PTHREAD_BARRIER 0
       (begin_window PTHREAD_BARRIER 1 (begin_window PTHREAD_BARRIER 0 (advance 100 (InitModel (demo 2))))))))"

lemmas stuck_eval = demo_eval barrier_offer_def offer_value_def next_time_def pthread_reduce_def
  release_window_def barrier_release_def window_edge_def end_window_def finish_window_def recompute_delays_def
  next_window_def upt_rec numeral_2_eq_2

lemma less_2_cases: "(\<forall>t < Suc (Suc 0). P t) \<longleftrightarrow> P 0 \<and> P (Suc 0)"
  by (auto simp: less_Suc_eq)

lemma demo_stuck_reach: "sim_reach PTHREAD_BARRIER (\<lambda>_. True) (\<lambda>_. True) demo_stuck"
proof -
  let ?reach = "sim_reach PTHREAD_BARRIER (\<lambda>_. True) (\<lambda>_. True)"
  let ?s0 = "advance 100 (InitModel (demo 2))"
  let ?s1 = "begin_window PTHREAD_BARRIER 0 ?s0"
  let ?s2 = "begin_window PTHREAD_BARRIER 1 ?s1"
  let ?s3 = "release_window PTHREAD_BARRIER 0 ?s2"
  let ?s4 = "end_window 0 ?s3"
  let ?s5 = "end_window 1 ?s4"
  have "?reach (InitModel (demo 2))" by (intro sim_reach.init demo_built) auto
  then have 0: "?reach ?s0"
    by (rule sim_reach.step [OF _ sim_step.advance]) (simp add: all_in_def stuck_eval)
  have 1: "?reach ?s1"
    by (rule sim_reach.step [OF 0 sim_step.begin_window]) (simp_all add: stuck_eval)
  have 2: "?reach ?s2"
    by (rule sim_reach.step [OF 1 sim_step.begin_window]) (simp_all add: stuck_eval)
  have 3: "?reach ?s3"
    by (rule sim_reach.step [OF 2 sim_step.release]) (simp_all add: all_in_def less_2_cases stuck_eval)
  have 4: "?reach ?s4"
    by (rule sim_reach.step [OF 3 sim_step.end_window]) (simp_all add: stuck_eval pending_def)
  have 5: "?reach ?s5"
    by (rule sim_reach.step [OF 4 sim_step.end_window]) (simp_all add: stuck_eval pending_def)
  show ?thesis unfolding demo_stuck_def
    by (rule sim_reach.step [OF 5 sim_step.next_window]) (simp_all add: all_in_def less_2_cases stuck_eval)
qed

lemma demo_stuck_stuck: "stuck demo_stuck 5" "pending (tls demo_stuck 0) = {0}" "num_timelines demo_stuck = 2"
  by (simp_all add: demo_stuck_def stuck_def stuck_tl_def less_2_cases stuck_eval pending_def)


end
