(* ===== verification/Sim_Lookahead.thy ===== *)
theory Sim_Lookahead
  imports Sim_Livelock
begin

text \<open>
  Conservative synchronisation: with the mutex barrier, and in a model that makes its mappings before
  the simulation runs, the edge of every window is early enough that no write of a process is refused.
\<close>

fun static_call :: "api_call \<Rightarrow> bool" where
  "static_call (Mapto _ _ _ _) = False"
| "static_call (Unmap _ _) = False"
| "static_call (New_transfer_delay _ _ _ _) = False"
| "static_call (New_min_write_delay _ _ _) = False"
| "static_call _ = True"

fun build_call :: "api_call \<Rightarrow> bool" where
  "build_call (Mapto _ _ _ _) = True"
| "build_call c = static_call c"


section \<open>Calls that leave the mappings alone\<close>

definition keeps :: "sim \<Rightarrow> sim \<Rightarrow> bool" where
  "keeps s s1 \<longleftrightarrow> ocs s1 = ocs s \<and> ents s1 = ents s \<and> num_outchannels s1 = num_outchannels s \<and>
     num_entities s1 = num_entities s \<and> num_timelines s1 = num_timelines s \<and>
     (\<forall>t. entity_list (tls s1 t) = entity_list (tls s t) \<and> channels_to_map (tls s1 t) = channels_to_map (tls s t) \<and>
          delays_to_change (tls s1 t) = delays_to_change (tls s t) \<and> tl_state (tls s1 t) = tl_state (tls s t) \<and>
          min_cross_delay (tls s1 t) = min_cross_delay (tls s t) \<and>
          recompute_min_delay (tls s1 t) = recompute_min_delay (tls s t))"

lemma keeps_refl [simp]: "keeps s s"
  by (simp add: keeps_def)

lemma keeps_trans: "keeps s s1 \<Longrightarrow> keeps s1 s2 \<Longrightarrow> keeps s s2"
  by (simp add: keeps_def)

lemma keeps_new_event: "keeps s (snd (new_event t mk s))"
  and keeps_push_event: "keeps s (push_event t e s)"
  and keeps_push_ve: "keeps s (push_ve_sink t e s)"
  and keeps_ic: "keeps s (upd_ic ic f s)"
  and keeps_proc: "keeps s (upd_proc p g s)"
  and keeps_clone: "keeps s (snd (clone_msg s))"
  and keeps_work: "keeps s (count_work t s)"
  and keeps_active: "keeps s (put_activeChannel t inc s)"
  and keeps_release: "keeps s (release_event e s)"
  and keeps_pop: "keeps s (pop_event t which e s)"
  by (simp_all add: keeps_def new_event_def push_event_def push_ve_sink_def sim_upds clone_msg_def count_work_def
      put_activeChannel_def release_event_def pop_event_def Let_def)

lemma keeps_upd_tl:
  "(\<And>x. entity_list (f x) = entity_list x \<and> channels_to_map (f x) = channels_to_map x \<and>
     delays_to_change (f x) = delays_to_change x \<and> tl_state (f x) = tl_state x \<and>
     min_cross_delay (f x) = min_cross_delay x \<and> recompute_min_delay (f x) = recompute_min_delay x) \<Longrightarrow>
   keeps s (upd_tl t f s)"
  by (simp add: keeps_def)

lemma keeps_running: "keeps s (set_running t run p inc s)"
  unfolding set_running_def by (rule keeps_trans [OF keeps_upd_tl keeps_proc]) simp

lemma keeps_enter: "keeps s (enter_body t p inc s)"
  using keeps_trans [OF keeps_work keeps_running] keeps_trans [OF keeps_trans [OF keeps_work keeps_running] keeps_active]
  by (auto simp: enter_body_def Let_def split: option.splits)

lemma keeps_schedule_channel: "keeps s (snd (schedule_channel this ic t pri act s))"
  by (simp add: schedule_channel_def Let_def new_event_def push_event_def push_ve_sink_def keeps_def)

lemma keeps_schedule_bind: "keeps s (schedule_bind this ic p b pri s)"
  by (simp add: schedule_bind_def new_event_def push_event_def keeps_def)

lemma keeps_schedule_process: "schedule_process this p t pri act s = Inr (h, s1) \<Longrightarrow> keeps s s1"
  by (auto simp: schedule_process_def new_event_def push_event_def keeps_def split: if_splits)

lemma keeps_gateway: "insertion_gateway ic p b pri s = Inr s1 \<Longrightarrow> keeps s s1"
  by (auto simp: insertion_gateway_def Let_def insert_process_pri_def keeps_ic keeps_schedule_bind split: if_splits)

lemma keeps_write_loop:
  "write_loop this act d1 mwd hz pri ms al os s = Inr (al1, os1, s1) \<Longrightarrow> keeps s s1"
proof (induction ms arbitrary: al os s)
  case (Cons m ms)
  let ?d2 = "d1 + mc_delay m + mwd"
  show ?case
  proof (cases "\<not> mc_xtimeline m \<or> hz \<le> ?d2 \<or> mc_asynchronous m")
    case False
    then have "write_loop this act d1 mwd hz pri ms False os s = Inr (al1, os1, s1)"
      using Cons.prems by (simp add: Let_def)
    then show ?thesis by (rule Cons.IH)
  next
    case True
    then obtain ic where ic: "mc_ic m = Some ic" using Cons.prems by (cases "mc_ic m") (simp_all add: Let_def)
    let ?p = "if os then clone_msg s else (act, s)"
    let ?s2 = "snd (schedule_channel this ic ?d2 (user_pri pri) (Some (fst ?p)) (snd ?p))"
    have "write_loop this act d1 mwd hz pri ms al True ?s2 = Inr (al1, os1, s1)"
      using Cons.prems True ic by (auto simp: Let_def split: prod.splits if_splits)
    then have "keeps ?s2 s1" by (rule Cons.IH)
    moreover have "keeps s (snd ?p)" using keeps_clone by simp
    ultimately show ?thesis using keeps_schedule_channel keeps_trans by blast
  qed
qed simp

lemma keeps_api:
  assumes "static_call c" "api c s = Inr s1"
  shows "keeps s s1"
proof (cases c)
  case (WaitFor ent p act d pri)
  then show ?thesis using assms
    by (auto simp: waitFor_def Let_def keep_Inr split: option.splits intro: keeps_schedule_process)
next
  case (Write oc act d pri)
  then show ?thesis using assms
    by (auto simp: oc_write_def Let_def keep_Inr split: sum.splits intro: keeps_write_loop)
next
  case (WaitOn ic p)
  then show ?thesis using assms by (auto simp: waitOn_def add_process_def split: option.splits intro: keeps_gateway)
next
  case (Bind ic p)
  then show ?thesis using assms by (auto simp: bind_process_def split: option.splits intro: keeps_gateway)
next
  case (Cancel h)
  then show ?thesis using assms
    by (auto simp: handle_cancel_def handle_mark_def keep_Inr keeps_def split: if_splits option.splits)
next
  case (Cancel_mark h)
  then show ?thesis using assms by (auto simp: handle_mark_def keeps_def split: option.splits)
qed (use assms in \<open>auto simp: unbind_def unwaitOn_def keeps_ic keeps_proc split: prod.splits\<close>)

lemma keeps_body: "run_body t cs s = Inr s1 \<Longrightarrow> list_all static_call cs \<Longrightarrow> keeps s s1"
proof (induction t cs s rule: run_body.induct)
  case (2 t c cs s)
  then obtain s2 where s2: "legal t s c" "api c s = Inr s2" "run_body t cs s2 = Inr s1"
    by (auto split: if_splits sum.splits)
  have "keeps s s2" using keeps_api [OF _ s2(2)] "2.prems"(2) by simp
  moreover have "keeps s2 s1" using "2.IH" [OF s2] "2.prems"(2) by simp
  ultimately show ?case by (rule keeps_trans)
qed simp

lemma keeps_activate_one: "keeps s (activate_one this ic act pp s)"
  unfolding activate_one_def Let_def case_prod_beta
  using keeps_trans [OF keeps_new_event keeps_push_event] keeps_trans [OF keeps_new_event keeps_push_ve] by simp

lemma keeps_activate: "activate_loop this ic act pps s = Inr (ws, s1) \<Longrightarrow> keeps s s1"
proof (induction pps arbitrary: s ws rule: length_induct)
  case (1 pps)
  show ?case
  proof (cases pps)
    case Nil
    then show ?thesis using 1 by simp
  next
    case (Cons pp qqs)
    let ?s2 = "activate_one this ic act pp s"
    have "\<exists>rs vs. length rs < length pps \<and> activate_loop this ic act rs ?s2 = Inr (vs, s1)"
      using activate_loop_step [of this ic act pp qqs s ws s1] "1.prems" Cons by simp
    then have "keeps ?s2 s1" using "1.IH" by blast
    then show ?thesis by (rule keeps_trans [OF keeps_activate_one])
  qed
qed

lemma keeps_dispatch:
  assumes "dispatch_event t x calls s = Inr s1" "list_all static_call calls"
  shows "keeps s s1"
proof (cases "ev_type x")
  case EVTYPE_TIMEOUT
  then obtain p s2 where p: "run_body t calls (enter_body t p None s) = Inr s2"
    and s1: "s1 = upd_tl t (\<lambda>tl. tl\<lparr>tl_this := None\<rparr>) s2"
    using assms(1) by (auto simp: dispatch_event_def split: option.splits sum.splits)
  have "keeps s2 s1" unfolding s1 by (rule keeps_upd_tl) simp
  then show ?thesis using keeps_body [OF p assms(2)] keeps_enter keeps_trans by blast
next
  case EVTYPE_ACTIVATE
  then show ?thesis using assms(1) keeps_activate keeps_ic keeps_trans
    by (fastforce simp: dispatch_event_def split: option.splits sum.splits)
next
  case EVTYPE_EXEC_ACTIVATE
  then obtain p ic s2 where p: "run_body t calls (enter_body t p (Some ic) s) = Inr s2"
    and s1: "s1 = set_running t None p None (put_activeChannel t None s2)"
    using assms(1) by (auto simp: dispatch_event_def split: option.splits sum.splits if_splits)
  have "keeps s2 s1" unfolding s1 by (rule keeps_trans [OF keeps_active keeps_running])
  then show ?thesis using keeps_body [OF p assms(2)] keeps_enter keeps_trans by blast
next
  case EVTYPE_BIND
  then show ?thesis using assms(1) keeps_trans [OF keeps_work keeps_ic]
    by (auto simp: dispatch_event_def insert_process_pri_def split: option.splits)
next
  case EVTYPE_CANCEL
  then show ?thesis using assms(1) by (auto simp: dispatch_event_def intro!: keeps_upd_tl)
qed (use assms in \<open>auto simp: dispatch_event_def\<close>)

lemma keeps_exec:
  assumes "exec_event t which e calls s = Inr s1" "list_all static_call calls"
  shows "keeps s s1"
proof -
  obtain s2 where s2: "dispatch_event t (ev s e) calls (pop_event t which e s) = Inr s2" and s1: "s1 = release_event e s2"
    using assms(1) by (auto simp: exec_event_def split: sum.splits)
  show ?thesis unfolding s1
    by (rule keeps_trans [OF keeps_trans [OF keeps_pop keeps_dispatch [OF s2 assms(2)]] keeps_release])
qed

section \<open>The least delay that the initialisation finds\<close>

lemma fold_least:
  fixes f :: "'a \<Rightarrow> int"
  assumes "\<And>x. x \<in> set xs \<Longrightarrow> P x \<Longrightarrow> 0 \<le> f x"
  defines "r \<equiv> fold (\<lambda>x ans. if P x \<and> (ans < 0 \<or> f x < ans) then f x else ans) xs (-1)"
  shows "(r = -1 \<and> (\<forall>x \<in> set xs. \<not> P x)) \<or> (\<exists>x \<in> set xs. P x \<and> r = f x \<and> (\<forall>y \<in> set xs. P y \<longrightarrow> r \<le> f y))"
  using assms(1) unfolding r_def
proof (induction xs rule: rev_induct)
  case (snoc a xs)
  let ?r = "fold (\<lambda>x ans. if P x \<and> (ans < 0 \<or> f x < ans) then f x else ans) xs (-1)"
  have IH: "(?r = -1 \<and> (\<forall>x \<in> set xs. \<not> P x)) \<or> (\<exists>x \<in> set xs. P x \<and> ?r = f x \<and> (\<forall>y \<in> set xs. P y \<longrightarrow> ?r \<le> f y))"
    using snoc by simp
  have a: "P a \<Longrightarrow> 0 \<le> f a" using snoc.prems by simp
  show ?case
  proof (cases "P a \<and> (?r < 0 \<or> f a < ?r)")
    case True
    then have r: "fold (\<lambda>x ans. if P x \<and> (ans < 0 \<or> f x < ans) then f x else ans) (xs @ [a]) (-1) = f a" by simp
    have "\<forall>y \<in> set xs. P y \<longrightarrow> f a \<le> f y"
    proof (intro ballI impI)
      fix y assume y: "y \<in> set xs" "P y"
      then obtain x where x: "x \<in> set xs" "P x" "?r = f x" "?r \<le> f y" using IH by blast
      moreover have "0 \<le> f x" using x snoc.prems by simp
      ultimately show "f a \<le> f y" using True by linarith
    qed
    then show ?thesis unfolding r using True by auto
  next
    case False
    then have r: "fold (\<lambda>x ans. if P x \<and> (ans < 0 \<or> f x < ans) then f x else ans) (xs @ [a]) (-1) = ?r" by auto
    show ?thesis unfolding r using IH False by (fastforce simp: not_less)
  qed
qed simp

lemma fold_least':
  fixes f :: "'a \<Rightarrow> int"
  assumes "\<And>x ans. g x ans = (if P x \<and> (ans < 0 \<or> f x < ans) then f x else ans)" "\<And>x. x \<in> set xs \<Longrightarrow> P x \<Longrightarrow> 0 < f x"
  shows "(fold g xs (-1) = -1 \<or> 0 < fold g xs (-1)) \<and>
    (\<forall>x \<in> set xs. P x \<longrightarrow> 0 < fold g xs (-1) \<and> fold g xs (-1) \<le> f x)"
proof -
  have g: "g = (\<lambda>x ans. if P x \<and> (ans < 0 \<or> f x < ans) then f x else ans)" using assms(1) by (intro ext) simp
  have "0 \<le> f x" if "x \<in> set xs" "P x" for x using assms(2) [OF that] by simp
  from fold_least [of xs P f, OF this] show ?thesis unfolding g
    using assms(2) by (metis (no_types, lifting))
qed

text \<open>Every cross-timeline mapping has a positive delay, and a model has at least two timelines then.\<close>

definition mappings_ok :: "sim \<Rightarrow> bool" where
  "mappings_ok s \<longleftrightarrow> (\<forall>oc. \<forall>m \<in> set (mapped_to (ocs s oc)). mc_ic m \<noteq> None \<and> 0 \<le> mc_delay m \<and>
     0 \<le> oc_min_write_delay (ocs s oc) \<and>
     (mc_xtimeline m \<longrightarrow> 0 < oc_min_write_delay (ocs s oc) + mc_delay m \<and> 1 < num_timelines s))"

lemma oc_min_sync_cross_least:
  fixes oc :: nat
  assumes "mappings_ok s"
  defines "v \<equiv> oc_min_sync_cross 0 oc s"
  shows "v = -1 \<or> 0 < v"
    and "m \<in> set (mapped_to (ocs s oc)) \<Longrightarrow> mc_xtimeline m \<Longrightarrow> 0 < v \<and> v \<le> oc_min_write_delay (ocs s oc) + mc_delay m"
proof -
  let ?c = "ocs s oc" let ?mwd = "oc_min_write_delay ?c" let ?ms = "mapped_to ?c"
  let ?P = "\<lambda>m. mc_xtimeline m \<and> - ?mwd \<le> mc_delay m"
  let ?r = "fold (\<lambda>m ans. if mc_xtimeline m \<and> 0 - ?mwd \<le> mc_delay m \<and> (mc_delay m < ans \<or> ans < 0)
                              then mc_delay m else ans) ?ms (-1)"
  have v: "v = (if ?ms = [] then -1 else if ?r = -1 then -1 else ?r + ?mwd)"
    by (simp add: v_def oc_min_sync_cross_def Let_def)
  have g: "?r = fold (\<lambda>m ans. if ?P m \<and> (ans < 0 \<or> mc_delay m < ans) then mc_delay m else ans) ?ms (-1)"
    by (rule arg_cong [where f = "\<lambda>f. fold f ?ms (-1)"]) (auto simp: fun_eq_iff)
  have ok: "0 \<le> mc_delay m \<and> 0 \<le> ?mwd \<and> (mc_xtimeline m \<longrightarrow> 0 < ?mwd + mc_delay m)" if "m \<in> set ?ms" for m
    using assms(1) that by (auto simp: mappings_ok_def)
  have r: "(?r = -1 \<and> (\<forall>m \<in> set ?ms. \<not> ?P m)) \<or> (\<exists>m \<in> set ?ms. ?P m \<and> ?r = mc_delay m \<and> (\<forall>y \<in> set ?ms. ?P y \<longrightarrow> ?r \<le> mc_delay y))"
    unfolding g using ok by (intro fold_least) blast
  then have "?r = -1 \<or> 0 < ?r + ?mwd"
  proof (elim disjE bexE conjE)
    fix y assume "y \<in> set ?ms" "mc_xtimeline y" "?r = mc_delay y"
    then show ?thesis using ok [of y] by simp
  qed simp
  then show "v = -1 \<or> 0 < v" using v by auto
  assume m: "m \<in> set ?ms" "mc_xtimeline m"
  then have "?P m" using ok [OF m(1)] by simp
  then obtain y where y: "y \<in> set ?ms" "?P y" "?r = mc_delay y" "?r \<le> mc_delay m" using r m(1) by blast
  have "v = ?r + ?mwd" using v y ok [OF y(1)] m(1) by auto
  then show "0 < v \<and> v \<le> ?mwd + mc_delay m" using y ok [OF y(1)] by simp
qed

lemma ent_min_sync_cross_least:
  assumes "mappings_ok s"
  shows "ent_min_sync_cross 0 e s = -1 \<or> 0 < ent_min_sync_cross 0 e s"
    and "oc \<in> set (outchannel_list (ents s e)) \<Longrightarrow> m \<in> set (mapped_to (ocs s oc)) \<Longrightarrow> mc_xtimeline m \<Longrightarrow>
      0 < ent_min_sync_cross 0 e s \<and> ent_min_sync_cross 0 e s \<le> oc_min_write_delay (ocs s oc) + mc_delay m"
proof -
  let ?f = "\<lambda>oc. oc_min_sync_cross 0 oc s"
  have fl: "(ent_min_sync_cross 0 e s = -1 \<or> 0 < ent_min_sync_cross 0 e s) \<and>
    (\<forall>x \<in> set (outchannel_list (ents s e)). -1 < ?f x \<longrightarrow> 0 < ent_min_sync_cross 0 e s \<and> ent_min_sync_cross 0 e s \<le> ?f x)"
    unfolding ent_min_sync_cross_def
    by (rule fold_least' [where P = "\<lambda>oc. -1 < ?f oc" and f = ?f])
      (use oc_min_sync_cross_least(1) [OF assms] in \<open>force simp: Let_def\<close>)+
  then show "ent_min_sync_cross 0 e s = -1 \<or> 0 < ent_min_sync_cross 0 e s" by blast
  assume "oc \<in> set (outchannel_list (ents s e))" "m \<in> set (mapped_to (ocs s oc))" "mc_xtimeline m"
  then show "0 < ent_min_sync_cross 0 e s \<and> ent_min_sync_cross 0 e s \<le> oc_min_write_delay (ocs s oc) + mc_delay m"
    using fl oc_min_sync_cross_least(2) [OF assms, of m oc] by fastforce
qed

lemma min_sync_cross_least:
  assumes "mappings_ok s"
  shows "min_sync_cross_timeline_delay 0 t s = -1 \<or> 0 < min_sync_cross_timeline_delay 0 t s"
    and "e \<in> set (entity_list (tls s t)) \<Longrightarrow> oc \<in> set (outchannel_list (ents s e)) \<Longrightarrow> m \<in> set (mapped_to (ocs s oc)) \<Longrightarrow>
      mc_xtimeline m \<Longrightarrow> 0 < min_sync_cross_timeline_delay 0 t s \<and>
      min_sync_cross_timeline_delay 0 t s \<le> oc_min_write_delay (ocs s oc) + mc_delay m"
proof -
  let ?f = "\<lambda>e. ent_min_sync_cross 0 e s" let ?v = "min_sync_cross_timeline_delay 0 t s"
  have fl: "(?v = -1 \<or> 0 < ?v) \<and> (\<forall>x \<in> set (entity_list (tls s t)). ?f x \<noteq> -1 \<and> 0 \<le> ?f x \<longrightarrow> 0 < ?v \<and> ?v \<le> ?f x)"
    unfolding min_sync_cross_timeline_delay_def
    by (rule fold_least' [where P = "\<lambda>e. ?f e \<noteq> -1 \<and> 0 \<le> ?f e" and f = ?f])
      (use ent_min_sync_cross_least(1) [OF assms] in \<open>force simp: Let_def\<close>)+
  then show "?v = -1 \<or> 0 < ?v" by blast
  assume "e \<in> set (entity_list (tls s t))" "oc \<in> set (outchannel_list (ents s e))" "m \<in> set (mapped_to (ocs s oc))"
    "mc_xtimeline m"
  then show "0 < ?v \<and> ?v \<le> oc_min_write_delay (ocs s oc) + mc_delay m"
    using fl ent_min_sync_cross_least(2) [OF assms, of oc e m] by fastforce
qed

section \<open>Models whose mappings are made before the run\<close>

definition layout :: "sim \<Rightarrow> bool" where
  "layout s \<longleftrightarrow> mappings_ok s \<and> (\<forall>oc. mapped_to (ocs s oc) \<noteq> [] \<longrightarrow> oc < num_outchannels s) \<and>
     (\<forall>oc < num_outchannels s. oc_owner (ocs s oc) < num_entities s \<and>
        oc \<in> set (outchannel_list (ents s (oc_owner (ocs s oc))))) \<and>
     (\<forall>e < num_entities s. e \<in> set (entity_list (tls s (ent_timeline (ents s e))))) \<and>
     (\<forall>t. channels_to_map (tls s t) = [] \<and> delays_to_change (tls s t) = [] \<and> tl_state (tls s t) = INITIALIZING)"

lemma layout_keeps: "layout s \<Longrightarrow> keeps s s1 \<Longrightarrow> layout s1"
  by (simp add: layout_def keeps_def mappings_ok_def)

lemma layout_mapto:
  assumes "layout s" "base s" "oc < num_outchannels s" "0 \<le> delay"
  shows "layout (snd (mapto junk oc ic delay s))"
proof -
  let ?t = "oc_alignment s oc" let ?mc = "mk_mappedChannel junk s oc (Some ic) delay False"
  let ?m = "upd_oc oc (\<lambda>c. c\<lparr>mapped_to := mapped_to c @ [?mc]\<rparr>) s"
  let ?g = "\<lambda>x. all_timeline_delay ?t delay ((if mc_xtimeline ?mc then cross_timeline_delay ?t delay else same_timeline_delay ?t delay) x)"
  have al: "ic_alignment s ic < num_timelines s" "?t < num_timelines s"
    using assms(2) by (auto simp: base_def ic_alignment_def oc_alignment_def)
  have mwd: "0 \<le> oc_min_write_delay (ocs s oc)" using delays_okD(1) [OF base_delays [OF assms(2)]] .
  have g: "layout (?g x)" if "layout x" for x
    using that by (auto simp: layout_def mappings_ok_def all_timeline_delay_def cross_timeline_delay_def same_timeline_delay_def)
  have m: "layout ?m" if nz: "\<not> (delay = 0 \<and> oc_min_write_delay (ocs s oc) = 0 \<and> ic_alignment s ic \<noteq> ?t)"
  proof -
    have "mc_xtimeline ?mc \<longrightarrow> 0 < oc_min_write_delay (ocs s oc) + delay \<and> 1 < num_timelines s"
      using nz mwd assms(4) al by (auto simp: mk_mappedChannel_def)
    then have "mappings_ok ?m"
      using assms(1,4) mwd by (auto simp: layout_def mappings_ok_def upd_oc_def mk_mappedChannel_def)
    then show ?thesis using assms(1,3) by (auto simp: layout_def upd_oc_def)
  qed
  have "snd (mapto junk oc ic delay s) = s \<or>
    \<not> (delay = 0 \<and> oc_min_write_delay (ocs s oc) = 0 \<and> ic_alignment s ic \<noteq> ?t) \<and> snd (mapto junk oc ic delay s) = ?g ?m"
    using assms(1) by (auto simp: mapto_def Let_def layout_def split: option.splits)
  then show ?thesis
  proof (elim disjE conjE)
    assume "snd (mapto junk oc ic delay s) = s"
    then show ?thesis using assms(1) by simp
  next
    assume nz: "\<not> (delay = 0 \<and> oc_min_write_delay (ocs s oc) = 0 \<and> ic_alignment s ic \<noteq> ?t)"
      and eq: "snd (mapto junk oc ic delay s) = ?g ?m"
    show ?thesis unfolding eq by (rule g [OF m [OF nz]])
  qed
qed

lemma built_layout: "built build_call s \<Longrightarrow> layout s"
proof (induction rule: built.induct)
  case (new n junk)
  then show ?case by (simp add: layout_def mappings_ok_def new_sim_def new_timeline_def)
next
  case (entity s t)
  then show ?case by (auto simp: layout_def mappings_ok_def BuildEntity_def Let_def less_Suc_eq)
next
  case (process s e)
  then show ?case by (auto simp: layout_def mappings_ok_def new_process_def Let_def upd_ent_def)
next
  case (process_named s e junk_pr)
  then show ?case by (auto simp: layout_def mappings_ok_def new_process_named_def Let_def upd_ent_def)
next
  case (inchannel s e)
  then show ?case by (auto simp: layout_def mappings_ok_def new_inchannel_def Let_def upd_ent_def)
next
  case (outchannel s e mwd)
  then show ?case by (auto simp: layout_def mappings_ok_def new_outchannel_def Let_def upd_ent_def less_Suc_eq split: if_splits)
next
  case (call s t c s1)
  have bs: "base s" using built_built_ok [OF call.hyps(1)] by (simp add: built_ok_def)
  show ?case
  proof (cases "static_call c")
    case True
    then show ?thesis using layout_keeps [OF call.IH] keeps_api call.hyps(5) by blast
  next
    case False
    then obtain junk oc ic delay where c: "c = Mapto junk oc ic delay"
      using call.hyps(3) by (cases c) auto
    then show ?thesis using layout_mapto [OF call.IH bs] call.hyps(4,5) by auto
  qed
qed

text \<open>The initialisation changes nothing of a mapping but its flag for asynchronous channels.\<close>

definition retag :: "sim \<Rightarrow> sim \<Rightarrow> bool" where
  "retag s s1 \<longleftrightarrow> ents s1 = ents s \<and> num_outchannels s1 = num_outchannels s \<and>
     num_entities s1 = num_entities s \<and> num_timelines s1 = num_timelines s \<and>
     (\<forall>oc. oc_owner (ocs s1 oc) = oc_owner (ocs s oc) \<and>
        oc_min_write_delay (ocs s1 oc) = oc_min_write_delay (ocs s oc) \<and>
        map (\<lambda>m. (mc_ic m, mc_delay m, mc_xtimeline m)) (mapped_to (ocs s1 oc)) =
        map (\<lambda>m. (mc_ic m, mc_delay m, mc_xtimeline m)) (mapped_to (ocs s oc))) \<and>
     (\<forall>t. entity_list (tls s1 t) = entity_list (tls s t) \<and> channels_to_map (tls s1 t) = channels_to_map (tls s t) \<and>
          delays_to_change (tls s1 t) = delays_to_change (tls s t) \<and> tl_state (tls s1 t) = tl_state (tls s t) \<and>
          min_cross_delay (tls s1 t) = min_cross_delay (tls s t))"

lemma retag_trans: "retag s s1 \<Longrightarrow> retag s1 s2 \<Longrightarrow> retag s s2"
  by (simp add: retag_def)

lemma retag_refl [simp]: "retag s s"
  by (simp add: retag_def)

lemma retag_mapping:
  assumes "retag s s1" "m1 \<in> set (mapped_to (ocs s1 oc))"
  obtains m where "m \<in> set (mapped_to (ocs s oc))" "mc_ic m = mc_ic m1" "mc_delay m = mc_delay m1" "mc_xtimeline m = mc_xtimeline m1"
proof -
  let ?tr = "\<lambda>m. (mc_ic m, mc_delay m, mc_xtimeline m)"
  have "?tr m1 \<in> set (map ?tr (mapped_to (ocs s1 oc)))" unfolding set_map by (rule image_eqI [where x = m1]) (use assms(2) in simp_all)
  then have "?tr m1 \<in> set (map ?tr (mapped_to (ocs s oc)))" using assms(1) by (simp only: retag_def)
  then show thesis using that by auto
qed

lemma retag_layout:
  assumes "retag s s1" "layout s"
  shows "layout s1"
proof -
  have m: "mappings_ok s1"
    unfolding mappings_ok_def
  proof (intro allI ballI)
    fix oc m1 assume "m1 \<in> set (mapped_to (ocs s1 oc))"
    then obtain m where m: "m \<in> set (mapped_to (ocs s oc))" "mc_ic m = mc_ic m1" "mc_delay m = mc_delay m1"
      "mc_xtimeline m = mc_xtimeline m1" by (rule retag_mapping [OF assms(1)])
    have s1: "oc_min_write_delay (ocs s1 oc) = oc_min_write_delay (ocs s oc)" "num_timelines s1 = num_timelines s"
      using assms(1) by (auto simp: retag_def)
    have "mc_ic m \<noteq> None \<and> 0 \<le> mc_delay m \<and> 0 \<le> oc_min_write_delay (ocs s oc) \<and>
      (mc_xtimeline m \<longrightarrow> 0 < oc_min_write_delay (ocs s oc) + mc_delay m \<and> 1 < num_timelines s)"
      using assms(2) m(1) by (simp add: layout_def mappings_ok_def)
    then show "mc_ic m1 \<noteq> None \<and> 0 \<le> mc_delay m1 \<and> 0 \<le> oc_min_write_delay (ocs s1 oc) \<and>
      (mc_xtimeline m1 \<longrightarrow> 0 < oc_min_write_delay (ocs s1 oc) + mc_delay m1 \<and> 1 < num_timelines s1)"
      using m s1 by simp
  qed
  have "mapped_to (ocs s1 oc) = [] \<longleftrightarrow> mapped_to (ocs s oc) = []" for oc
  proof -
    have "map (\<lambda>m. (mc_ic m, mc_delay m, mc_xtimeline m)) (mapped_to (ocs s1 oc)) =
        map (\<lambda>m. (mc_ic m, mc_delay m, mc_xtimeline m)) (mapped_to (ocs s oc))"
      using assms(1) by (simp add: retag_def)
    from arg_cong [OF this, of length] show ?thesis by auto
  qed
  then show ?thesis using m assms by (simp add: layout_def retag_def)
qed

text \<open>The least cross-timeline delay of a timeline is a lower bound for its mappings.\<close>

definition bounded :: "sim \<Rightarrow> nat \<Rightarrow> bool" where
  "bounded s t \<longleftrightarrow> (min_cross_delay (tls s t) = -1 \<or> 0 < min_cross_delay (tls s t)) \<and>
     (\<forall>oc. oc_alignment s oc = t \<longrightarrow> (\<forall>m \<in> set (mapped_to (ocs s oc)). mc_xtimeline m \<longrightarrow>
        0 < min_cross_delay (tls s t) \<and> min_cross_delay (tls s t) \<le> oc_min_write_delay (ocs s oc) + mc_delay m))"

lemma retag_bounded:
  assumes "retag s s1" "bounded s t"
  shows "bounded s1 t"
proof -
  have c: "min_cross_delay (tls s1 t) = min_cross_delay (tls s t)"
    "oc_alignment s1 oc = oc_alignment s oc" "oc_min_write_delay (ocs s1 oc) = oc_min_write_delay (ocs s oc)" for oc
    using assms(1) by (auto simp: retag_def oc_alignment_def)
  have "0 < min_cross_delay (tls s t) \<and> min_cross_delay (tls s t) \<le> oc_min_write_delay (ocs s oc) + mc_delay m1"
    if al: "oc_alignment s oc = t" and m1: "m1 \<in> set (mapped_to (ocs s1 oc))" "mc_xtimeline m1" for oc m1
  proof -
    obtain m where m: "m \<in> set (mapped_to (ocs s oc))" "mc_ic m = mc_ic m1" "mc_delay m = mc_delay m1"
      "mc_xtimeline m = mc_xtimeline m1" by (rule retag_mapping [OF assms(1) m1(1)])
    have "0 < min_cross_delay (tls s t) \<and> min_cross_delay (tls s t) \<le> oc_min_write_delay (ocs s oc) + mc_delay m"
      using assms(2) al m(1,4) m1(2) by (simp add: bounded_def)
    then show ?thesis using m(3) by simp
  qed
  then show ?thesis using assms(2) by (simp add: bounded_def c)
qed

lemma retag_keeps: "keeps s s1 \<Longrightarrow> retag s s1"
  by (simp add: keeps_def retag_def)

lemma retag_upd_tl:
  "(\<And>x. entity_list (f x) = entity_list x \<and> channels_to_map (f x) = channels_to_map x \<and>
     delays_to_change (f x) = delays_to_change x \<and> tl_state (f x) = tl_state x \<and>
     min_cross_delay (f x) = min_cross_delay x) \<Longrightarrow> retag s (upd_tl t f s)"
  by (simp add: retag_def)

lemma fold_retag: "(\<And>m x. retag x (f m x)) \<Longrightarrow> retag s (fold f ms s)"
  by (induction ms arbitrary: s) (auto intro: retag_trans)

lemma appt_channels_retag: "retag s (appt_channels t s)"
proof -
  have m: "retag x (appt_mapping t oc m x)" for oc m x
    by (auto simp: appt_mapping_def Let_def split: option.splits intro!: retag_upd_tl)
  have "retag x (appt_channel t 0 oc x)" for oc x
  proof -
    let ?u = "upd_oc oc (\<lambda>c. c\<lparr>mapped_to := map (\<lambda>m. if mc_xtimeline m
          then m\<lparr>mc_asynchronous := (oc_min_write_delay c + mc_delay m < 0)\<rparr> else m) (mapped_to c)\<rparr>) x"
    have "retag x ?u" by (auto simp: retag_def upd_oc_def)
    then show ?thesis unfolding appt_channel_def by (rule retag_trans [OF _ fold_retag [OF m]])
  qed
  then show ?thesis unfolding appt_channels_def
    by (intro retag_trans [OF retag_upd_tl fold_retag]) auto
qed

lemma init_timeline_bounded:
  assumes "layout s" "delays_ok s"
  shows "layout (init_timeline 0 t s) \<and> bounded (init_timeline 0 t s) t \<and>
    (\<forall>u. u \<noteq> t \<longrightarrow> bounded s u \<longrightarrow> bounded (init_timeline 0 t s) u)"
proof -
  let ?d = "min_sync_cross_timeline_delay 0 t s"
  let ?s1 = "upd_tl t (\<lambda>tl. tl\<lparr>min_cross_delay := ?d, window_size := 0\<rparr>) s"
  have mo: "mappings_ok s" using assms(1) by (simp add: layout_def)
  have "0 < ?d \<and> ?d \<le> oc_min_write_delay (ocs s oc) + mc_delay m"
    if "oc_alignment s oc = t" "m \<in> set (mapped_to (ocs s oc))" "mc_xtimeline m" for oc m
  proof -
    let ?e = "oc_owner (ocs s oc)"
    have "mapped_to (ocs s oc) \<noteq> []" using that(2) by auto
    then have oc: "oc < num_outchannels s" using assms(1) by (simp add: layout_def)
    then have e: "?e < num_entities s" "oc \<in> set (outchannel_list (ents s ?e))" using assms(1) by (auto simp: layout_def)
    then have "?e \<in> set (entity_list (tls s t))" using assms(1) that(1) by (auto simp: layout_def oc_alignment_def)
    then show ?thesis using min_sync_cross_least(2) [OF mo _ e(2) that(2,3)] by blast
  qed
  then have b1: "bounded ?s1 t"
    using min_sync_cross_least(1) [OF mo, of t] by (simp add: bounded_def oc_alignment_def)
  have l1: "layout ?s1" using assms(1) by (auto simp: layout_def mappings_ok_def)
  have u1: "bounded ?s1 u" if "u \<noteq> t" "bounded s u" for u using that by (simp add: bounded_def oc_alignment_def)
  have "delays_ok ?s1" using assms(2) by (rule delays_ok_cong) auto
  then have i: "initialize_appt t 0 ?s1 = appt_channels t ?s1" by (rule initialize_appt_0)
  have c: "retag x (upd_tl t (\<lambda>tl. tl\<lparr>channels_at_minimum := k\<rparr>) x)" for x k by (rule retag_upd_tl) simp
  have "retag ?s1 (init_timeline 0 t s)"
    using appt_channels_retag [of ?s1 t] retag_trans [OF appt_channels_retag [of ?s1 t] c]
    by (simp add: init_timeline_def Let_def i)
  then show ?thesis using retag_layout [OF _ l1] retag_bounded [OF _ b1] retag_bounded u1 by blast
qed

text \<open>What a static model keeps while it runs.\<close>

definition static_ok :: "sim \<Rightarrow> bool" where
  "static_ok s \<longleftrightarrow> mappings_ok s \<and> (\<forall>t < num_timelines s. bounded s t) \<and>
     (\<forall>t. channels_to_map (tls s t) = [] \<and> delays_to_change (tls s t) = [])"

lemma InitModel_static:
  assumes "built build_call s"
  shows "static_ok (InitModel s)"
proof -
  have "frame s (fold (init_timeline 0) ts s) \<and> layout (fold (init_timeline 0) ts s) \<and>
      (\<forall>t \<in> set ts. bounded (fold (init_timeline 0) ts s) t)" for ts
  proof (induction ts rule: rev_induct)
    case Nil
    then show ?case using built_layout [OF assms] by simp
  next
    case (snoc t ts)
    let ?s = "fold (init_timeline 0) ts s"
    have d: "delays_ok s" using built_built_ok [OF assms] by (simp add: built_ok_def base_def)
    then have d1: "delays_ok ?s" using snoc by (simp add: frame_def)
    have "frame s (init_timeline 0 t ?s)" using snoc init_timeline_frame [OF d1] frame_trans by blast
    moreover note init_timeline_bounded [OF _ d1, of t]
    ultimately show ?case using snoc by auto
  qed
  then have *: "frame s (InitModel s)" "layout (InitModel s)" "\<forall>t < num_timelines s. bounded (InitModel s) t"
    by (simp_all add: InitModel_def)
  then show ?thesis by (auto simp: static_ok_def layout_def frame_def same_core_def)
qed

lemma static_ok_cong:
  assumes "static_ok s" "ocs s1 = ocs s" "ents s1 = ents s" "num_timelines s1 = num_timelines s"
    "\<And>t. channels_to_map (tls s1 t) = channels_to_map (tls s t) \<and> delays_to_change (tls s1 t) = delays_to_change (tls s t) \<and>
       min_cross_delay (tls s1 t) = min_cross_delay (tls s t)"
  shows "static_ok s1"
  using assms by (simp add: static_ok_def mappings_ok_def bounded_def oc_alignment_def)

section \<open>No write is refused\<close>

definition safe_tl :: "ltime \<Rightarrow> nat \<Rightarrow> (nat \<Rightarrow> event) \<Rightarrow> timeline \<Rightarrow> bool" where
  "safe_tl bmin n evt x \<longleftrightarrow> (tl_phase x = In_window \<longrightarrow> \<not> recompute_min_delay x) \<and>
     (0 < min_cross_delay x \<longrightarrow>
        (tl_phase x = At_bottom \<longrightarrow> (\<forall>e \<in> pending x. 0 < bmin \<and> bmin \<le> ev_time (evt e) + min_cross_delay x)) \<and>
        (tl_phase x = In_window \<and> 1 < n \<longrightarrow> (\<forall>e \<in> pending x. stop_before x \<le> ev_time (evt e) + min_cross_delay x)))"

definition look :: "sim \<Rightarrow> bool" where
  "look s \<longleftrightarrow> sim_inv s \<and> static_ok s \<and> (bottom_min s < 0 \<or> 0 < bottom_min s) \<and>
     (\<forall>t < num_timelines s. safe_tl (bottom_min s) (num_timelines s) (ev s) (tls s t))"

lemma look_init:
  assumes "built build_call s"
  shows "look (InitModel s)"
proof -
  have b: "built_ok s" using assms by (rule built_built_ok)
  then have "frame s (InitModel s)" by (intro InitModel_frame) (simp add: built_ok_def base_def)
  then have b1: "built_ok (InitModel s)" by (rule built_ok_frame [OF b])
  then have "safe_tl (bottom_min (InitModel s)) n (ev (InitModel s)) (tls (InitModel s) t)" for n t
    by (simp add: safe_tl_def built_ok_def)
  moreover have "bottom_min (InitModel s) < 0" using b1 by (simp add: built_ok_def)
  ultimately show ?thesis using built_ok_idle [OF b1] InitModel_static [OF assms] by (auto simp: look_def)
qed

lemma offer_positive:
  assumes "offer_value t s = Some v" "0 \<le> tl_time (tls s t)" "bounded s t"
  shows "0 < v"
  using assms by (auto simp: offer_value_def Let_def now_def bounded_def split: if_splits)

lemma offer_bound:
  assumes "0 < min_cross_delay (tls s t)" "e \<in> pending (tls s t)" "0 \<le> tl_time (tls s t)"
    "\<forall>x \<in> pending (tls s t). tl_time (tls s t) \<le> ev_time (ev s x)"
  shows "\<exists>v. offer_value t s = Some v \<and> 0 < v \<and> v \<le> ev_time (ev s e) + min_cross_delay (tls s t)"
proof -
  have "tl_events (tls s t) \<noteq> [] \<or> ve_sink_events (tls s t) \<noteq> []" using assms(2) by (auto simp: pending_def)
  then obtain x where "x \<in> pending (tls s t)" "next_time s t = ev_time (ev s x)"
    by (metis next_time_in pending_def)
  then have nt: "tl_time (tls s t) \<le> next_time s t" using assms(4) by simp
  moreover have "next_time s t \<le> ev_time (ev s e)" using assms(2) next_time_le [of e s t] by (simp add: pending_def)
  ultimately show ?thesis using assms(1,3) by (simp add: offer_value_def Let_def now_def max_def)
qed

lemma mutex_reduce_bounds:
  assumes "0 < v" "m < 0 \<or> 0 < m"
  shows "0 < mutex_reduce v m \<and> mutex_reduce v m \<le> v \<and> (0 < m \<longrightarrow> mutex_reduce v m \<le> m)"
  using assms by (auto simp: mutex_reduce_def)

lemma begin_window_look:
  assumes "look s" "t < num_timelines s" "tl_phase (tls s t) = At_top"
  shows "look (begin_window MUTEX_BARRIER t s)"
proof -
  let ?b = "begin_window MUTEX_BARRIER t s"
  define s1 where "s1 = upd_tl t (\<lambda>tl. tl\<lparr>tl_state := BLOCKED\<rparr>) (get_cross_timeline_events t s)"
  have inv: "sim_inv s" and st: "static_ok s" and b0: "bottom_min s < 0 \<or> 0 < bottom_min s"
    and safe: "\<And>u. u < num_timelines s \<Longrightarrow> safe_tl (bottom_min s) (num_timelines s) (ev s) (tls s u)"
    using assms(1) by (auto simp: look_def)
  obtain T where T: "idle s T" using phase_idle [OF inv assms(2,3)] by auto
  have bs: "base s" using inv by (simp add: sim_inv_def)
  have s1: "static_ok s1" "num_timelines s1 = num_timelines s" "bottom_min s1 = bottom_min s" "ev s1 = ev s"
    "\<And>u. u \<noteq> t \<Longrightarrow> tls s1 u = tls s u" "tl_time (tls s1 t) = T" "pending (tls s1 t) \<subseteq> set (qs (tls s t))"
    "recompute_min_delay (tls s1 t) = recompute_min_delay (tls s t)"
    using T assms(2) get_cross_base(2) [OF bs, of t]
    by (auto simp: s1_def get_cross_timeline_events_def Let_def idle_def idle_tl_def pending_def intro!: static_ok_cong [OF st])
  have T0: "0 \<le> T" and late: "\<forall>x \<in> pending (tls s1 t). tl_time (tls s1 t) \<le> ev_time (ev s1 x)"
    using T assms(2) s1(4,6,7) by (auto simp: idle_def idle_tl_def)
  have inv1: "sim_inv ?b" by (rule begin_window_inv [OF inv assms(2,3)])
  show ?thesis
  proof (cases "1 < num_timelines s")
    case False
    have e: "?b = upd_tl t (start_window (epoch_end s)) s1" using False by (simp add: begin_window_def Let_def s1_def)
    have "static_ok ?b" unfolding e by (rule static_ok_cong [OF s1(1)]) (auto simp: start_window_def)
    moreover have "safe_tl (bottom_min ?b) (num_timelines ?b) (ev ?b) (tls ?b u)" if "u < num_timelines ?b" for u
      using that safe [of u] False s1 unfolding e by (auto simp: safe_tl_def start_window_def)
    ultimately show ?thesis using inv1 b0 s1(3) unfolding e by (simp add: look_def)
  next
    case True
    define s2 where "s2 = barrier_offer MUTEX_BARRIER (offer_value t s1) s1"
    have e: "?b = upd_tl t (\<lambda>tl. tl\<lparr>tl_phase := At_bottom\<rparr>) s2"
      using True by (simp add: begin_window_def Let_def s1_def s2_def)
    have s2: "tls s2 = tls s1" "num_timelines s2 = num_timelines s" "ev s2 = ev s" "static_ok s2"
      using s1 by (auto simp: s2_def barrier_offer_def split: option.splits intro!: static_ok_cong [OF s1(1)])
    have bd: "bounded s1 t" using s1(1,2) assms(2) by (simp add: static_ok_def)
    have bm: "(bottom_min s2 < 0 \<or> 0 < bottom_min s2) \<and> (0 < bottom_min s \<longrightarrow> 0 < bottom_min s2 \<and> bottom_min s2 \<le> bottom_min s)"
    proof (cases "offer_value t s1")
      case None
      then show ?thesis using b0 s1(3) by (auto simp: s2_def barrier_offer_def)
    next
      case (Some v)
      have "0 < v" using offer_positive [OF Some _ bd] T0 s1(6) by simp
      then show ?thesis using mutex_reduce_bounds [of v "bottom_min s"] b0 s1(3) Some
        by (auto simp: s2_def barrier_offer_def)
    qed
    have own: "0 < bottom_min s2 \<and> bottom_min s2 \<le> ev_time (ev s x) + min_cross_delay (tls s1 t)"
      if mc: "0 < min_cross_delay (tls s1 t)" and x: "x \<in> pending (tls s1 t)" for x
    proof -
      obtain v where v: "offer_value t s1 = Some v" "0 < v" "v \<le> ev_time (ev s1 x) + min_cross_delay (tls s1 t)"
        using offer_bound [OF mc x] late T0 s1(6) by auto
      then show ?thesis using mutex_reduce_bounds [of v "bottom_min s"] b0 s1(3,4) by (auto simp: s2_def barrier_offer_def)
    qed
    have "static_ok ?b" unfolding e by (rule static_ok_cong [OF s2(4)]) auto
    moreover have "safe_tl (bottom_min s2) (num_timelines s) (ev s) (tls ?b u)" if u: "u < num_timelines s" for u
    proof (cases "u = t")
      case True
      then show ?thesis using own s2(1) unfolding e by (auto simp: safe_tl_def pending_def)
    next
      case False
      then show ?thesis using safe [OF u] bm s1(5) s2(1) unfolding e by (auto simp: safe_tl_def)
    qed
    ultimately show ?thesis using inv1 bm s2 unfolding e by (simp add: look_def)
  qed
qed

lemma look_phase:
  assumes "look s" "sim_inv s1" "static_ok s1" "ev s1 = ev s" "num_timelines s1 = num_timelines s"
    "bottom_min s1 = bottom_min s" "\<And>t. t < num_timelines s \<Longrightarrow> tl_phase (tls s1 t) \<notin> {At_bottom, In_window}"
  shows "look s1"
  using assms by (auto simp: look_def safe_tl_def)

lemma look_step:
  assumes "sim_step MUTEX_BARRIER static_call s s1" "look s"
  shows "look s1"
proof -
  have inv: "sim_inv s" and st: "static_ok s" and b0: "bottom_min s < 0 \<or> 0 < bottom_min s"
    and safe: "\<And>u. u < num_timelines s \<Longrightarrow> safe_tl (bottom_min s) (num_timelines s) (ev s) (tls s u)"
    using assms(2) by (auto simp: look_def)
  have inv1: "sim_inv s1" using sim_step_inv [OF assms(1) inv] .
  show ?thesis using assms(1)
  proof cases
    case (advance d)
    show ?thesis unfolding advance(1)
      by (rule look_phase [OF assms(2) inv1 [unfolded advance(1)]])
        (auto simp: advance_def Let_def upd_all_def ev_def intro!: static_ok_cong [OF st])
  next
    case (begin_window t)
    then show ?thesis using begin_window_look [OF assms(2)] by simp
  next
    case (release t)
    have E: "window_edge s \<le> bottom_min s" if "0 < bottom_min s" using that by (simp add: window_edge_def)
    have s1: "bottom_min s1 = -1" "num_timelines s1 = num_timelines s" "ev s1 = ev s"
      by (auto simp: release(1) release_window_def barrier_release_def)
    have "static_ok s1" unfolding release(1)
      by (rule static_ok_cong [OF st]) (auto simp: release_window_def barrier_release_def upd_all_def start_window_def)
    moreover have "safe_tl (-1) (num_timelines s) (ev s) (tls s1 u)" if u: "u < num_timelines s" for u
    proof -
      have tl: "tls s1 u = start_window (window_edge s) (tls s u)"
        using u by (simp add: release(1) release_window_def barrier_release_def)
      have "tl_phase (tls s u) = At_bottom" using release(2) u by (simp add: all_in_def)
      then show ?thesis using safe [OF u] E unfolding tl by (force simp: safe_tl_def start_window_def pending_def)
    qed
    ultimately show ?thesis using inv1 s1 by (simp add: look_def)
  next
    case (exec t which e calls)
    have bs: "base s" using inv by (simp add: sim_inv_def)
    have ex: "executes t e s s1" using exec_event_executes [OF bs exec(3,5)] by simp
    have k: "keeps s s1" using keeps_exec [OF exec(5)] exec(4) by (simp add: list_all_iff)
    have "static_ok s1" by (rule static_ok_cong [OF st]) (use k in \<open>auto simp: keeps_def\<close>)
    moreover have "safe_tl (bottom_min s) (num_timelines s) (ev s1) (tls s1 u)" if u: "u < num_timelines s" for u
    proof -
      have f: "tl_phase (tls s1 u) = tl_phase (tls s u)" "stop_before (tls s1 u) = stop_before (tls s u)"
        "min_cross_delay (tls s1 u) = min_cross_delay (tls s u)" "recompute_min_delay (tls s1 u) = recompute_min_delay (tls s u)"
        using ex k by (auto simp: executes_def keeps_def)
      have e: "e \<in> pending (tls s t)" using selectsD(1) [OF exec(3)] by (auto simp: pending_def)
      have p: "(x \<in> pending (tls s u) \<and> ev_time (ev s1 x) = ev_time (ev s x)) \<or> (u = t \<and> ev_time (ev s e) \<le> ev_time (ev s1 x))"
        if "x \<in> pending (tls s1 u)" for x using ex that unfolding executes_def by blast
      show ?thesis using safe [OF u] f p e exec(2) by (fastforce simp: safe_tl_def)
    qed
    ultimately show ?thesis using inv1 b0 ex by (simp add: look_def executes_def)
  next
    case (end_window t)
    have q: "finish_window t s =
      upd_tl t (\<lambda>tl. tl\<lparr>tl_time := stop_before tl - 1, executed_one_window := 0, work_executed_one_window := 0\<rparr>) s"
      using st safe [OF end_window(2)] end_window(3) by (intro finish_window_quiet) (auto simp: static_ok_def safe_tl_def)
    have "static_ok s1" unfolding end_window(1)
      by (rule static_ok_cong [OF st]) (auto simp: end_window_def q)
    moreover have "safe_tl (bottom_min s) (num_timelines s) (ev s) (tls s1 u)" if "u < num_timelines s" for u
      using safe [OF that] by (auto simp: end_window(1) end_window_def q safe_tl_def pending_def)
    ultimately show ?thesis using inv1 b0 by (simp add: look_def end_window(1) end_window_def q)
  next
    case next_window
    show ?thesis unfolding next_window(1)
      by (rule look_phase [OF assms(2) inv1 [unfolded next_window(1)]])
        (auto simp: next_window_def upd_all_def ev_def intro!: static_ok_cong [OF st])
  next
    case end_epoch
    show ?thesis unfolding end_epoch(1)
      by (rule look_phase [OF assms(2) inv1 [unfolded end_epoch(1)]])
        (auto simp: end_epoch_def upd_all_def ev_def intro!: static_ok_cong [OF st])
  qed
qed

lemma look_reach: "sim_reach MUTEX_BARRIER build_call static_call s \<Longrightarrow> look s"
  by (induction rule: sim_reach.induct) (auto intro: look_init look_step)


text \<open>A write succeeds when every mapping has an inchannel and delivers at the horizon or later.\<close>

lemma write_loop_sends:
  "(\<And>m. m \<in> set ms \<Longrightarrow> mc_ic m \<noteq> None \<and> (mc_xtimeline m \<longrightarrow> hz \<le> d1 + mc_delay m + mwd)) \<Longrightarrow>
   \<exists>os1 s1. write_loop this act d1 mwd hz pri ms al os s = Inr (al, os1, s1)"
proof (induction ms arbitrary: os s)
  case (Cons m ms)
  obtain ic where ic: "mc_ic m = Some ic" using Cons.prems [of m] by auto
  have sent: "\<not> mc_xtimeline m \<or> hz \<le> d1 + mc_delay m + mwd" using Cons.prems [of m] by auto
  let ?p = "if os then clone_msg s else (act, s)"
  let ?q = "schedule_channel this ic (d1 + mc_delay m + mwd) (user_pri pri) (Some (fst ?p)) (snd ?p)"
  have "write_loop this act d1 mwd hz pri (m # ms) al os s = write_loop this act d1 mwd hz pri ms al True (snd ?q)"
    using ic sent by (auto simp: Let_def split: prod.splits)
  then show ?case using Cons.IH [of True "snd ?q"] Cons.prems by simp
qed simp

lemma write_accepted:
  assumes "static_ok s" "oc_alignment s oc = t" "t < num_timelines s" "0 \<le> delay"
    "0 < min_cross_delay (tls s t) \<Longrightarrow> 1 < num_timelines s \<Longrightarrow> stop_before (tls s t) \<le> tl_time (tls s t) + min_cross_delay (tls s t)"
  shows "\<exists>s1. oc_write oc act delay pri s = Inr (True, s1)"
proof -
  let ?c = "ocs s oc"
  have "mc_ic m \<noteq> None \<and> (mc_xtimeline m \<longrightarrow> horizon s t \<le> (now s t + delay) + mc_delay m + oc_min_write_delay ?c)"
    if m: "m \<in> set (mapped_to ?c)" for m
  proof -
    have ok: "mc_ic m \<noteq> None \<and> (mc_xtimeline m \<longrightarrow> 1 < num_timelines s)"
      using assms(1) m by (auto simp: static_ok_def mappings_ok_def)
    have "mc_xtimeline m \<Longrightarrow> 0 < min_cross_delay (tls s t) \<and> min_cross_delay (tls s t) \<le> oc_min_write_delay ?c + mc_delay m"
      using assms(1,2,3) m by (auto simp: static_ok_def bounded_def)
    then show ?thesis using ok assms(4,5) by (auto simp: horizon_def now_def)
  qed
  then obtain os1 s1 where "write_loop t act (now s t + delay) (oc_min_write_delay ?c) (horizon s t) pri (mapped_to ?c) True False s
      = Inr (True, os1, s1)"
    using write_loop_sends by blast
  then show ?thesis using assms(2) by (simp add: oc_write_def Let_def)
qed

definition mapped_objects :: sim where
  "mapped_objects = snd (new_inchannel 1 (snd (new_outchannel 0 0 (snd (BuildEntity 1 (demo 2))))))"

definition mapped :: sim where
  "mapped = snd (mapto False 0 0 10 mapped_objects)"

lemma mapped_built: "built build_call mapped"
proof -
  let ?b = "built build_call"
  let ?s1 = "snd (BuildEntity 1 (demo 2))" let ?s2 = "snd (new_outchannel 0 0 ?s1)"
  have "?b (demo 2)" by (rule demo_built) simp_all
  then have 1: "?b ?s1" by (rule built.entity) (simp add: stuck_eval)
  then have 2: "?b ?s2" by (rule built.outchannel) (simp_all add: stuck_eval)
  then have 3: "?b mapped_objects"
    unfolding mapped_objects_def by (rule built.inchannel) (simp add: stuck_eval new_outchannel_def)
  have "api (Mapto False 0 0 10) mapped_objects = Inr mapped" by (simp add: mapped_def)
  then show ?thesis
    by (rule built.call [OF 3, where t = 0, rotated 3]) (simp_all add: mapped_objects_def stuck_eval new_outchannel_def new_inchannel_def oc_alignment_def)
qed

definition mapped_window :: sim where
  "mapped_window = release_window MUTEX_BARRIER 0 (begin_window MUTEX_BARRIER 1
     (begin_window MUTEX_BARRIER 0 (advance 100 (InitModel mapped))))"

lemmas mapped_eval = stuck_eval mapped_def mapped_objects_def new_outchannel_def new_inchannel_def oc_alignment_def
  mapto_def mk_mappedChannel_def ic_alignment_def all_timeline_delay_def cross_timeline_delay_def min_or_first_def
  upd_oc_def oc_min_sync_cross_def appt_channel_def appt_mapping_def oc_count_min_delay_crossings_def mutex_reduce_def
  least_time.simps

lemma mapped_window_reach: "sim_reach MUTEX_BARRIER build_call static_call mapped_window"
proof -
  let ?reach = "sim_reach MUTEX_BARRIER build_call static_call"
  let ?s0 = "advance 100 (InitModel mapped)"
  let ?s1 = "begin_window MUTEX_BARRIER 0 ?s0"
  let ?s2 = "begin_window MUTEX_BARRIER 1 ?s1"
  have "?reach (InitModel mapped)" by (intro sim_reach.init mapped_built)
  then have 0: "?reach ?s0"
    by (rule sim_reach.step [OF _ sim_step.advance]) (simp add: all_in_def mapped_eval less_2_cases)
  have 1: "?reach ?s1"
    by (rule sim_reach.step [OF 0 sim_step.begin_window]) (simp_all add: mapped_eval)
  have 2: "?reach ?s2"
    by (rule sim_reach.step [OF 1 sim_step.begin_window]) (simp_all add: mapped_eval)
  show ?thesis unfolding mapped_window_def
    by (rule sim_reach.step [OF 2 sim_step.release]) (simp_all add: all_in_def less_2_cases mapped_eval)
qed

lemma mapped_window_exec:
  "num_timelines mapped_window = 2" "tl_phase (tls mapped_window 0) = In_window"
  "selects mapped_window 0 1 0" "stop_before (tls mapped_window 0) = 15"
  "oc_alignment (enter_body 0 0 None (pop_event 0 1 0 mapped_window)) 0 = 0"
  unfolding mapped_window_def
  by (simp_all add: mapped_eval selects_def top_of_def select_next_event_def is_top_def evt_Comparer_def
      exI [of _ "Some (0 :: nat)"] exI [of _ None])

text \<open>
  Cancelling the event of another timeline is a race: a thread that has passed the first test of
  \<open>Handle::cancel\<close> can be overtaken by the timeline of the event, which executes and deletes it, and then
  marks an object that does not exist any more.
\<close>

lemma handle_cancel_race:
  "\<exists>s s1. sim_reach MUTEX_BARRIER build_call static_call s \<and> num_timelines s = 2 \<and> tl_phase (tls s 1) = In_window \<and>
     h_home (mk_handle s 0) = 0 \<and> handle_before (mk_handle s 0) s \<and> sim_step MUTEX_BARRIER static_call s s1 \<and>
     handle_mark (mk_handle s 0) s1 = Inl Undefined_behaviour"
proof -
  have w: "tl_phase (tls mapped_window 1) = In_window" "h_home (mk_handle mapped_window 0) = 0"
      "handle_before (mk_handle mapped_window 0) mapped_window"
      "\<exists>s1. exec_event 0 1 0 [] mapped_window = Inr s1 \<and> evs s1 0 = None"
    unfolding mapped_window_def by (simp_all add: mapped_eval handle_before_def mk_handle_def)
  then obtain s1 where s1: "exec_event 0 1 0 [] mapped_window = Inr s1" "evs s1 0 = None" by blast
  have "sim_step MUTEX_BARRIER static_call mapped_window s1"
    by (rule sim_step.exec [OF _ mapped_window_exec(2,3) _ s1(1)]) (simp_all add: mapped_window_exec)
  moreover have "handle_mark (mk_handle mapped_window 0) s1 = Inl Undefined_behaviour"
    using s1(2) by (simp add: handle_mark_def mk_handle_def)
  ultimately show ?thesis using mapped_window_reach mapped_window_exec(1) w(1-3) by blast
qed



end
