(* ===== verification/Sim_Activation.thy ===== *)
theory Sim_Activation
  imports Sim_Windows
begin

text \<open>
  What happens at an inchannel: the order in which processes wait there, and which of them an arriving
  message activates.
\<close>


section \<open>The waiting list\<close>

text \<open>A new entry goes behind every entry whose priority is not larger.\<close>

lemma insert_pri_split:
  "insert_pri pp ws = takeWhile (\<lambda>q. pp_pri q \<le> pp_pri pp) ws @ pp # dropWhile (\<lambda>q. pp_pri q \<le> pp_pri pp) ws"
  by (induction ws) auto

lemma set_insert_pri: "set (insert_pri pp ws) = insert pp (set ws)"
  by (induction ws) auto

lemma insert_pri_sorted:
  "sorted (map pp_pri ws) \<Longrightarrow> sorted (map pp_pri (insert_pri pp ws))"
  by (induction ws) (auto simp: set_insert_pri)

text \<open>
  C18. First come, first served.  An inchannel whose waiting list is sorted by priority keeps it sorted
  under every \<open>waitOn\<close> and \<open>bind\<close>, and among entries of one priority the new one comes last: the
  entries of each priority are the old ones in their order, followed by the new one.
\<close>

theorem insert_process_pri_fcfs:
  assumes "sorted (map pp_pri (waitingList (ics s ic)))"
  shows "let pp = \<lparr>pp_proc = p, pp_b = b, pp_pri = sint pri\<rparr>;
             ws = waitingList (ics s ic); vs = waitingList (ics (insert_process_pri ic p b pri s) ic)
         in sorted (map pp_pri vs) \<and>
            (\<forall>k. filter (\<lambda>q. pp_pri q = k) vs = filter (\<lambda>q. pp_pri q = k) ws @ (if k = sint pri then [pp] else []))"
proof -
  let ?pp = "\<lparr>pp_proc = p, pp_b = b, pp_pri = sint pri\<rparr>"
  have f: "filter (\<lambda>q. pp_pri q = k) (insert_pri ?pp ws) =
      filter (\<lambda>q. pp_pri q = k) ws @ (if k = sint pri then [?pp] else [])"
    if "sorted (map pp_pri ws)" for k ws using that
  proof (induction ws)
    case (Cons q ws)
    have "filter (\<lambda>q. pp_pri q = sint pri) ws = []" if "sint pri < pp_pri q"
      using Cons.prems that by (auto simp: filter_empty_conv)
    then show ?case using Cons by auto
  qed simp
  show ?thesis using insert_pri_sorted [OF assms] f [OF assms]
    by (simp add: Let_def insert_process_pri_def upd_ic_def)
qed

theorem insert_process_pri_fcfs_witness:
  "\<exists>s. map pp_proc (waitingList (ics (insert_process_pri 0 3 False 1 s) 0)) = [1, 3, 2] \<and>
     sorted (map pp_pri (waitingList (ics (insert_process_pri 0 3 False 1 s) 0)))"
proof -
  let ?s = "upd_ic 0 (\<lambda>c. c\<lparr>waitingList := [\<lparr>pp_proc = 1, pp_b = True, pp_pri = 1\<rparr>, \<lparr>pp_proc = 2, pp_b = False, pp_pri = 2\<rparr>]\<rparr>)
    (demo 1)"
  have "sorted (map pp_pri (waitingList (ics (insert_process_pri 0 3 False 1 ?s) 0)))"
    using insert_process_pri_fcfs [of ?s 0 3 False 1] by (simp add: Let_def upd_ic_def)
  then show ?thesis by (intro exI [of _ ?s]) (simp add: insert_process_pri_def upd_ic_def)
qed


section \<open>Activation\<close>

text \<open>
  The events that were created between two states, if each of them is a pending activation of
  \<open>ic\<close> at the current time of timeline \<open>t\<close>: the processes they activate.
\<close>

definition new_events :: "sim \<Rightarrow> sim \<Rightarrow> nat list" where
  "new_events s s1 = [next_ev s ..< next_ev s1]"

definition activates :: "nat \<Rightarrow> nat \<Rightarrow> nat option \<Rightarrow> sim \<Rightarrow> sim \<Rightarrow> nat list \<Rightarrow> bool" where
  "activates t ic act s s1 ps \<longleftrightarrow> map (\<lambda>e. ev_proc (ev s1 e)) (new_events s s1) = map Some ps \<and>
     (\<forall>e \<in> set (new_events s s1). ev_type (ev s1 e) = EVTYPE_EXEC_ACTIVATE \<and> ev_time (ev s1 e) = now s t \<and>
        ev_inc (ev s1 e) = Some ic \<and> ev_act (ev s1 e) = act \<and> ev_home (ev s1 e) = t) \<and>
     (if ve_attached (ics s ic)
      then ve_sink_events (tls s1 t) = ve_sink_events (tls s t) @ new_events s s1 \<and> tl_events (tls s1 t) = tl_events (tls s t)
      else tl_events (tls s1 t) = tl_events (tls s t) @ new_events s s1 \<and> ve_sink_events (tls s1 t) = ve_sink_events (tls s t)) \<and>
     next_ev s \<le> next_ev s1 \<and> now s1 t = now s t \<and> ics s1 = ics s \<and> (\<forall>e < next_ev s. ev s1 e = ev s e)"

lemma activates_refl: "activates t ic act s s []"
  by (simp add: activates_def new_events_def)

lemma activates_trans:
  assumes "activates t ic act s s1 ps" "activates t ic act s1 s2 rs"
  shows "activates t ic act s s2 (ps @ rs)"
proof -
  have le: "next_ev s \<le> next_ev s1" "next_ev s1 \<le> next_ev s2" using assms by (auto simp: activates_def)
  have n: "new_events s s2 = new_events s s1 @ new_events s1 s2"
    using le upt_add_eq_append [of "next_ev s" "next_ev s1" "next_ev s2 - next_ev s1"] by (simp add: new_events_def)
  have old: "ev s2 e = ev s1 e" if "e \<in> set (new_events s s1)" for e
    using that assms(2) by (simp add: activates_def new_events_def)
  have "ev s2 e = ev s e" if "e < next_ev s" for e using that le assms by (simp add: activates_def)
  moreover have "map (\<lambda>e. ev_proc (ev s2 e)) (new_events s s1) = map (\<lambda>e. ev_proc (ev s1 e)) (new_events s s1)"
    using old by simp
  ultimately show ?thesis using assms old le unfolding activates_def n by (simp add: now_def ball_Un)
qed

lemma activate_one_activates: "activates t ic act s (activate_one t ic act pp s) [pp_proc pp]"
  by (simp add: activates_def new_events_def activate_one_def Let_def new_event_def push_event_def push_ve_sink_def
      upd_tl_def event_mk ev_def now_def)

lemma activate_bound:
  "list_all pp_b ws \<Longrightarrow> \<exists>s1. activate_loop t ic act ws s = Inr (ws, s1) \<and> activates t ic act s s1 (map pp_proc ws)"
proof (induction ws arbitrary: s)
  case Nil
  then show ?case by (simp add: activates_refl)
next
  case (Cons w ws)
  let ?s = "activate_one t ic act w s"
  obtain s1 where s1: "activate_loop t ic act ws ?s = Inr (ws, s1)" "activates t ic act ?s s1 (map pp_proc ws)"
    using Cons.IH [of ?s] Cons.prems by auto
  then show ?case using Cons.prems activates_trans [OF activate_one_activates s1(2)] by auto
qed

lemma activate_bound_append:
  "list_all pp_b ws \<Longrightarrow> \<exists>s1. activates t ic act s s1 (map pp_proc ws) \<and>
     activate_loop t ic act (ws @ vs) s =
       (case activate_loop t ic act vs s1 of Inl e \<Rightarrow> Inl e | Inr (us, s2) \<Rightarrow> Inr (ws @ us, s2))"
proof (induction ws arbitrary: s)
  case Nil
  then show ?case by (intro exI [of _ s]) (auto simp: activates_refl split: sum.splits)
next
  case (Cons w ws)
  let ?s = "activate_one t ic act w s"
  obtain s1 where s1: "activates t ic act ?s s1 (map pp_proc ws)"
    "activate_loop t ic act (ws @ vs) ?s =
       (case activate_loop t ic act vs s1 of Inl e \<Rightarrow> Inl e | Inr (us, s2) \<Rightarrow> Inr (ws @ us, s2))"
    using Cons.IH [of ?s] Cons.prems by auto
  then show ?case using Cons.prems activates_trans [OF activate_one_activates s1(1)]
    by (intro exI [of _ s1]) (auto split: sum.splits)
qed

text \<open>
  C17. Which processes an arrival activates.  When every process at the inchannel is bound, each of
  them gets exactly one activation at the current time, in the order of the list, with the message that
  arrived, and the list stays.  A process that only waits (\<open>w\<close>) is taken off the list, but the loop
  then steps over the entry behind it: that one is not activated and stays.  If \<open>w\<close> is the last entry,
  the loop moves its iterator beyond the end of the list.
\<close>

theorem activation_cases:
  assumes "list_all pp_b bs" "list_all pp_b cs" "\<not> pp_b w"
  shows "(\<exists>s1. activate_loop t ic act bs s = Inr (bs, s1) \<and> activates t ic act s s1 (map pp_proc bs)) \<and>
    (\<exists>s1. activate_loop t ic act (bs @ w # q # cs) s = Inr (bs @ q # cs, s1) \<and>
        activates t ic act s s1 (map pp_proc (bs @ w # cs))) \<and>
    activate_loop t ic act (bs @ [w]) s = Inl Undefined_behaviour"
proof -
  obtain s2 where s2: "activates t ic act s s2 (map pp_proc bs)" "activate_loop t ic act (bs @ w # q # cs) s =
      (case activate_loop t ic act (w # q # cs) s2 of Inl e \<Rightarrow> Inl e | Inr (us, s3) \<Rightarrow> Inr (bs @ us, s3))"
    using activate_bound_append [OF assms(1)] by blast
  let ?s2 = "activate_one t ic act w s2"
  obtain s3 where s3: "activate_loop t ic act cs ?s2 = Inr (cs, s3)" "activates t ic act ?s2 s3 (map pp_proc cs)"
    using activate_bound [OF assms(2)] by blast
  have "activates t ic act s s3 (map pp_proc bs @ [pp_proc w] @ map pp_proc cs)"
    by (rule activates_trans [OF s2(1) activates_trans [OF activate_one_activates s3(2)]])
  then have 2: "\<exists>s1. activate_loop t ic act (bs @ w # q # cs) s = Inr (bs @ q # cs, s1) \<and>
      activates t ic act s s1 (map pp_proc (bs @ w # cs))"
    using s2(2) s3(1) assms(3) by simp
  have "activate_loop t ic act (bs @ [w]) s = Inl Undefined_behaviour"
    using activate_bound_append [OF assms(1), of t ic act s "[w]"] assms(3) by auto
  with 2 show ?thesis using activate_bound [OF assms(1)] by blast
qed

theorem activation_cases_witness:
  "\<exists>w. \<not> pp_b w \<and> activate_loop 0 0 None [w] (demo 1) = Inl Undefined_behaviour"
  using activation_cases [of "[]" "[]" "\<lparr>pp_proc = 0, pp_b = False, pp_pri = 0\<rparr>" 0 0 None "demo 1"]
  by (intro exI [of _ "\<lparr>pp_proc = 0, pp_b = False, pp_pri = 0\<rparr>"]) simp

end
