(* ===== verification/Net_Address.thy ===== *)
theory Net_Address
  imports Prelude "HOL-Library.Sublist"
begin

text \<open>
  IP addresses and prefixes of the network simulator (\<open>src/full/s3fnet/src/net/ip_prefix.cc\<close>): their
  text form in both directions, and containment of an address in a prefix.  A C string is the list of
  its characters before the terminating null.
\<close>


section \<open>Decimal text\<close>

text \<open>\<open>sprintf\<close> with \<open>%u\<close>, and the decimal numbers that \<open>atoi\<close> and \<open>strtol\<close> read.\<close>

definition digit :: "nat \<Rightarrow> char" where
  "digit n = char_of (48 + n)"

fun dec :: "nat \<Rightarrow> string" where
  "dec n = (if n < 10 then [digit n] else dec (n div 10) @ [digit (n mod 10)])"

declare dec.simps [simp del]

definition isdigit :: "char \<Rightarrow> bool" where
  "isdigit c \<longleftrightarrow> 48 \<le> (of_char c :: nat) \<and> (of_char c :: nat) \<le> 57"

definition digit_value :: "char \<Rightarrow> nat" where
  "digit_value c = of_char c - 48"

definition isspace :: "char \<Rightarrow> bool" where
  "isspace c \<longleftrightarrow> (of_char c :: nat) = 32 \<or> (9 \<le> (of_char c :: nat) \<and> (of_char c :: nat) \<le> 13)"

fun read_digits :: "nat \<Rightarrow> string \<Rightarrow> nat \<times> string" where
  "read_digits v [] = (v, [])"
| "read_digits v (c # cs) = (if isdigit c then read_digits (10 * v + digit_value c) cs else (v, c # cs))"

text \<open>
  \<open>strtol(p, &endp, 10)\<close>: the value and the text at \<open>endp\<close>, or \<open>None\<close> when there are no digits and
  \<open>endp\<close> is \<open>p\<close>.  Values beyond the range of a \<open>long\<close> are cut off by the library and are integers here.
\<close>

definition strtol :: "string \<Rightarrow> (int \<times> string) option" where
  "strtol p =
     (let q = dropWhile isspace p;
          (neg, r) = (case q of [] \<Rightarrow> (False, q)
                      | c # cs \<Rightarrow> if c = CHR ''-'' then (True, cs) else if c = CHR ''+'' then (False, cs) else (False, q)) in
      if r = [] \<or> \<not> isdigit (hd r) then None
      else let (v, endp) = read_digits 0 r in Some (if neg then - int v else int v, endp))"

definition atoi :: "string \<Rightarrow> int" where
  "atoi p = (case strtol p of None \<Rightarrow> 0 | Some (v, _) \<Rightarrow> v)"


section \<open>Prefixes\<close>

record IPPrefix =
  pf_addr :: u32
  pf_len :: int

definition IPADDR_LENGTH :: int where
  "IPADDR_LENGTH = 32"

definition IPADDR_INVALID :: u32 where
  "IPADDR_INVALID = 0"

definition masks :: "u32 list" where
  "masks = [0x0,
     0x80000000,0xC0000000,0xE0000000,0xF0000000,
     0xF8000000,0xFC000000,0xFE000000,0xFF000000,
     0xFF800000,0xFFC00000,0xFFE00000,0xFFF00000,
     0xFFF80000,0xFFFC0000,0xFFFE0000,0xFFFF0000,
     0xFFFF8000,0xFFFFC000,0xFFFFE000,0xFFFFF000,
     0xFFFFF800,0xFFFFFC00,0xFFFFFE00,0xFFFFFF00,
     0xFFFFFF80,0xFFFFFFC0,0xFFFFFFE0,0xFFFFFFF0,
     0xFFFFFFF8,0xFFFFFFFC,0xFFFFFFFE,0xFFFFFFFF]"

text \<open>The four bytes of an address with dots between them.\<close>

definition ip_byte :: "u32 \<Rightarrow> nat \<Rightarrow> nat" where
  "ip_byte ip i = unat (drop_bit i ip AND 0xFF)"

definition ip2txt :: "u32 \<Rightarrow> string" where
  "ip2txt ip = dec (ip_byte ip 24) @ ''.'' @ dec (ip_byte ip 16) @ ''.'' @ dec (ip_byte ip 8) @ ''.'' @ dec (ip_byte ip 0)"

definition dec_int :: "int \<Rightarrow> string" where
  "dec_int i = (if i < 0 then ''-'' @ dec (nat (- i)) else dec (nat i))"

definition toString :: "IPPrefix \<Rightarrow> string" where
  "toString p = ip2txt (pf_addr p) @ (if pf_len p < IPADDR_LENGTH then ''/'' @ dec_int (pf_len p) else [])"

text \<open>The loop of \<open>txt2ip(str, len)\<close>; it stops at the first character it does not expect.\<close>

fun txt2ip_loop :: "string \<Rightarrow> nat \<Rightarrow> u32 \<Rightarrow> u32 \<Rightarrow> int \<Rightarrow> u32 \<times> int" where
  "txt2ip_loop [] dot_num base incr len = (base * 256 + incr, len)"
| "txt2ip_loop (c # cs) dot_num base incr len =
     (if isdigit c then txt2ip_loop cs dot_num base (incr * 10 + of_nat (digit_value c)) len
      else if c = CHR ''/'' then (base * 256 + incr, atoi cs)
      else if c = CHR ''.'' \<and> dot_num \<le> 2 then txt2ip_loop cs (dot_num + 1) (base * 256 + incr) 0 len
      else (base, len))"

definition txt2ip :: "string \<Rightarrow> u32 \<times> int" where
  "txt2ip str = txt2ip_loop str 0 0 0 32"

text \<open>
  \<open>txt2ip(str, addr)\<close>: one segment and the text behind the character that ends it; the last segment
  has to end the string.
\<close>

definition segment :: "int \<Rightarrow> string \<Rightarrow> (int \<times> string) option" where
  "segment tot p =
     (case strtol p of
        None \<Rightarrow> None
      | Some (t, endp) \<Rightarrow>
          if endp = [] \<or> t < 0 \<or> 255 < t \<or> tl endp = [] then None
          else Some (tot * 256 + t, tl endp))"

definition txt2ip_checked :: "string \<Rightarrow> u32 option" where
  "txt2ip_checked str =
     (case segment 0 str of None \<Rightarrow> None | Some (a, p) \<Rightarrow>
      case segment a p of None \<Rightarrow> None | Some (b, q) \<Rightarrow>
      case segment b q of None \<Rightarrow> None | Some (c, r) \<Rightarrow>
      case strtol r of None \<Rightarrow> None | Some (t, endp) \<Rightarrow>
        if endp \<noteq> [] \<or> t < 0 \<or> 255 < t then None else Some (of_int (c * 256 + t)))"

text \<open>\<open>masks[len]\<close> is outside of the array for a length that is not between 0 and 32.\<close>

definition pf_mask :: "IPPrefix \<Rightarrow> u32 option" where
  "pf_mask p = (if 0 \<le> pf_len p \<and> pf_len p \<le> 32 then Some (masks ! nat (pf_len p)) else None)"

definition contains :: "IPPrefix \<Rightarrow> u32 \<Rightarrow> bool option" where
  "contains p ipaddr = map_option (\<lambda>m. (ipaddr XOR pf_addr p) AND m = 0) (pf_mask p)"

definition prefix_eq :: "IPPrefix \<Rightarrow> IPPrefix \<Rightarrow> bool option" where
  "prefix_eq p q =
     (if pf_len p \<noteq> pf_len q then Some False
      else map_option (\<lambda>m. pf_addr p AND m = pf_addr q AND m) (pf_mask p))"


section \<open>Text and back\<close>

lemma digit_simps:
  assumes "n < 10"
  shows "isdigit (digit n)" "digit_value (digit n) = n"
proof -
  have "(of_char (digit n) :: nat) = 48 + n" using assms by (simp add: digit_def)
  then show "isdigit (digit n)" "digit_value (digit n) = n" using assms by (auto simp: isdigit_def digit_value_def)
qed

lemma not_isdigit: "\<not> isdigit CHR ''.''" "\<not> isdigit CHR ''/''"
  by (simp_all add: isdigit_def)

lemma dec_not_Nil [simp]: "dec n \<noteq> []"
  by (subst dec.simps) simp

lemma isdigit_hd_dec: "isdigit (hd (dec n))"
proof (induction n rule: dec.induct)
  case (1 n)
  show ?case
  proof (cases "n < 10")
    case True
    then show ?thesis by (subst dec.simps) (simp add: digit_simps)
  next
    case False
    then have "dec n = dec (n div 10) @ [digit (n mod 10)]" by (subst dec.simps) simp
    then show ?thesis using 1 False by simp
  qed
qed

lemma txt2ip_loop_dec: "txt2ip_loop (dec n @ cs) d b 0 len = txt2ip_loop cs d b (of_nat n) len"
proof (induction n arbitrary: cs rule: dec.induct)
  case (1 n)
  show ?case
  proof (cases "n < 10")
    case True
    then show ?thesis by (subst dec.simps) (simp add: digit_simps)
  next
    case False
    have "of_nat n = (of_nat (n div 10) * 10 + of_nat (n mod 10) :: u32)"
      by (metis div_mult_mod_eq of_nat_add of_nat_mult of_nat_numeral)
    moreover have "dec n = dec (n div 10) @ [digit (n mod 10)]" using False by (subst dec.simps) simp
    ultimately show ?thesis using 1 False by (simp add: digit_simps)
  qed
qed

lemma read_digits_dec:
  assumes "cs = [] \<or> \<not> isdigit (hd cs)"
  shows "read_digits 0 (dec n @ cs) = (n, cs)"
proof -
  have *: "read_digits 0 (dec n @ cs) = read_digits n cs" for cs
  proof (induction n arbitrary: cs rule: dec.induct)
    case (1 n)
    show ?case
    proof (cases "n < 10")
      case True
      then show ?thesis by (subst dec.simps) (simp add: digit_simps)
    next
      case False
      then have "dec n = dec (n div 10) @ [digit (n mod 10)]" by (subst dec.simps) simp
      then show ?thesis using 1 False by (simp add: digit_simps)
    qed
  qed
  show ?thesis using assms unfolding * by (cases cs) auto
qed

lemma strtol_dec:
  assumes "cs = [] \<or> \<not> isdigit (hd cs)"
  shows "strtol (dec n @ cs) = Some (int n, cs)"
proof -
  obtain c ds where cd: "dec n = c # ds" by (cases "dec n") auto
  have c: "isdigit c" using isdigit_hd_dec [of n] cd by simp
  then have "\<not> isspace c" "c \<noteq> CHR ''-''" "c \<noteq> CHR ''+''" by (auto simp: isdigit_def isspace_def)
  then show ?thesis using read_digits_dec [OF assms, of n] cd c by (simp add: strtol_def)
qed

lemma atoi_dec: "atoi (dec n) = int n"
  using strtol_dec [of "[]" n] by (simp add: atoi_def)

lemma ip_byte_less: "ip_byte ip i < 256"
proof -
  have "unat (drop_bit i ip AND 0xFF) \<le> 255"
    using word_and_le1 [of "drop_bit i ip" "0xFF :: u32"] by (simp add: word_le_nat_alt)
  then show ?thesis by (simp add: ip_byte_def)
qed

lemma ip_bytes: "((of_nat (ip_byte ip 24) * 256 + of_nat (ip_byte ip 16)) * 256 + of_nat (ip_byte ip 8)) * 256
    + of_nat (ip_byte ip 0) = (ip :: u32)"
proof -
  let ?n = "unat ip"
  have b: "ip_byte ip i = ?n div 2 ^ i mod 256" for i
  proof -
    have "drop_bit i ip AND 0xFF = take_bit 8 (drop_bit i ip)" by (simp add: take_bit_eq_mask mask_eq_exp_minus_1)
    then have "ip_byte ip i = take_bit 8 (drop_bit i ?n)" unfolding ip_byte_def
      by (simp only: unsigned_take_bit_eq unat_drop_bit_eq)
    then show ?thesis by (simp add: take_bit_eq_mod drop_bit_eq_div)
  qed
  have "?n < 2 ^ 32" using unsigned_less [of ip, where ?'a = nat] by simp
  then have "?n div 2^24 mod 256 = ?n div 256 div 256 div 256" by (simp add: div_mult2_eq [symmetric])
  moreover have "?n div 2^16 = ?n div 256 div 256" "?n div 2^8 = ?n div 256" by (simp_all add: div_mult2_eq [symmetric])
  ultimately have "((?n div 2^24 mod 256 * 256 + ?n div 2^16 mod 256) * 256 + ?n div 2^8 mod 256) * 256 + ?n div 2^0 mod 256 = ?n"
    using div_mult_mod_eq [of ?n 256] div_mult_mod_eq [of "?n div 256" 256] div_mult_mod_eq [of "?n div 256 div 256" 256]
    by simp
  from arg_cong [OF this, of "of_nat :: nat \<Rightarrow> u32"] show ?thesis
    unfolding b by (simp only: of_nat_add of_nat_mult of_nat_numeral of_nat_unat ucast_id)
qed

text \<open>
  C26. Printing and reading of addresses and prefixes.  An address printed by \<open>ip2txt\<close> is read back by
  both parsers, and a prefix of any length from 0 to 32 printed by \<open>toString\<close> is read back with its
  length by the parser of prefixes.  The checking parser of addresses refuses the prefixes shorter than
  32 bits, although its description says that the mask length is ignored.
\<close>

theorem ip_text_roundtrip:
  "txt2ip (ip2txt a) = (a, 32) \<and> txt2ip_checked (ip2txt a) = Some a \<and>
   (0 \<le> n \<and> n \<le> 32 \<longrightarrow> txt2ip (toString \<lparr>pf_addr = a, pf_len = n\<rparr>) = (a, n) \<and>
     txt2ip_checked (toString \<lparr>pf_addr = a, pf_len = n\<rparr>) = (if n = 32 then Some a else None))"
proof -
  have loop: "txt2ip (ip2txt a @ cs) = txt2ip_loop cs 3
      ((of_nat (ip_byte a 24) * 256 + of_nat (ip_byte a 16)) * 256 + of_nat (ip_byte a 8)) (of_nat (ip_byte a 0)) 32" for cs
    by (simp add: txt2ip_def ip2txt_def txt2ip_loop_dec not_isdigit numeral_eq_Suc)
  then have 1: "txt2ip (ip2txt a) = (a, 32)" using loop [of "[]"] ip_bytes [of a] by simp
  have seg: "segment t (dec (ip_byte a i) @ CHR ''.'' # dec k @ cs) = Some (t * 256 + int (ip_byte a i), dec k @ cs)" for t i k cs
    using ip_byte_less [of a i] by (simp add: segment_def strtol_dec not_isdigit)
  have "txt2ip_checked (ip2txt a) =
      Some (of_int (((int (ip_byte a 24) * 256 + int (ip_byte a 16)) * 256 + int (ip_byte a 8)) * 256 + int (ip_byte a 0)))"
    using seg [where cs = "[]"] seg strtol_dec [of "[]" "ip_byte a 0"] ip_byte_less [of a 0]
    by (simp add: txt2ip_checked_def ip2txt_def)
  then have 2: "txt2ip_checked (ip2txt a) = Some a" using ip_bytes [of a] by simp
  have 3: "txt2ip_checked (ip2txt a @ ''/'' @ dec k) = None" for k
    using seg [where cs = "''/'' @ dec k"] seg strtol_dec [of "''/'' @ dec k" "ip_byte a 0"]
    by (simp add: txt2ip_checked_def ip2txt_def not_isdigit)
  have "txt2ip (toString \<lparr>pf_addr = a, pf_len = n\<rparr>) = (a, n) \<and>
      txt2ip_checked (toString \<lparr>pf_addr = a, pf_len = n\<rparr>) = (if n = 32 then Some a else None)" if "0 \<le> n" "n \<le> 32"
  proof (cases "n = 32")
    case True
    then show ?thesis using 1 2 by (simp add: toString_def IPADDR_LENGTH_def)
  next
    case False
    then show ?thesis using that loop [of "''/'' @ dec (nat n)"] ip_bytes [of a] 3 [of "nat n"]
      by (simp add: toString_def IPADDR_LENGTH_def dec_int_def not_isdigit atoi_dec)
  qed
  with 1 2 show ?thesis by blast
qed

theorem ip_text_roundtrip_witness:
  "toString \<lparr>pf_addr = 0x0A0A0000, pf_len = 16\<rparr> = ''10.10.0.0/16'' \<and> txt2ip ''10.10.0.0/16'' = (0x0A0A0000, 16)"
proof -
  have "toString \<lparr>pf_addr = 0x0A0A0000, pf_len = 16\<rparr> = ''10.10.0.0/16''" by code_simp
  then show ?thesis using ip_text_roundtrip [of "0x0A0A0000" 16] by simp
qed


section \<open>Containment\<close>

text \<open>The bits of an address from the most significant one, and those a prefix fixes.\<close>

definition ip_bits :: "u32 \<Rightarrow> bool list" where
  "ip_bits ip = map (\<lambda>i. bit ip (31 - i)) [0 ..< 32]"

definition pf_bits :: "IPPrefix \<Rightarrow> bool list" where
  "pf_bits p = take (nat (pf_len p)) (ip_bits (pf_addr p))"

definition pf_ok :: "IPPrefix \<Rightarrow> bool" where
  "pf_ok p \<longleftrightarrow> 0 \<le> pf_len p \<and> pf_len p \<le> 32"

lemma length_ip_bits [simp]: "length (ip_bits ip) = 32"
  by (simp add: ip_bits_def)

lemma nth_ip_bits: "i < 32 \<Longrightarrow> ip_bits ip ! i = bit ip (31 - i)"
  by (simp add: ip_bits_def)

lemma length_pf_bits: "pf_ok p \<Longrightarrow> length (pf_bits p) = nat (pf_len p)"
  by (auto simp: pf_bits_def pf_ok_def min_def)

lemma ip_bits_inject: "ip_bits a = ip_bits b \<longleftrightarrow> a = b"
proof
  assume e: "ip_bits a = ip_bits b"
  show "a = b"
  proof (rule bit_word_eqI)
    fix n assume "n < LENGTH(32)"
    then have "n = 31 - (31 - n)" "31 - n < 32" by simp_all
    then show "bit a n = bit b n" using nth_ip_bits [of "31 - n"] e by metis
  qed
qed simp

lemma masks_eq: "masks = map (\<lambda>n. push_bit (32 - n) (mask n)) [0 ..< 33]"
  by code_simp

lemma bit_masks: "n \<le> 32 \<Longrightarrow> bit (masks ! n) k \<longleftrightarrow> k < 32 \<and> 32 - n \<le> k"
  unfolding masks_eq by (auto simp: nth_append bit_simps simp del: upt_Suc)

lemma masked_zero_iff:
  assumes "n \<le> 32"
  shows "(a XOR b) AND (masks ! n) = 0 \<longleftrightarrow> take n (ip_bits a) = take n (ip_bits b)"
proof -
  have "(a XOR b) AND (masks ! n) = 0 \<longleftrightarrow> (\<forall>k. k < 32 \<and> 32 - n \<le> k \<longrightarrow> bit a k = bit b k)"
    using bit_masks [OF assms] by (auto simp: bit_eq_iff bit_simps)
  also have "\<dots> \<longleftrightarrow> (\<forall>i < n. bit a (31 - i) = bit b (31 - i))"
  proof (rule iffI; intro allI impI)
    fix i assume h: "\<forall>k. k < 32 \<and> 32 - n \<le> k \<longrightarrow> bit a k = bit b k" "i < n"
    moreover have "31 - i < 32 \<and> 32 - n \<le> 31 - i" using h(2) assms by auto
    ultimately show "bit a (31 - i) = bit b (31 - i)" by blast
  next
    fix k assume h: "\<forall>i < n. bit a (31 - i) = bit b (31 - i)" "k < 32 \<and> 32 - n \<le> k"
    then have "31 - k < n" "31 - (31 - k) = k" using assms by auto
    then show "bit a k = bit b k" using h(1) by metis
  qed
  also have "\<dots> \<longleftrightarrow> take n (ip_bits a) = take n (ip_bits b)"
    using assms by (auto simp: list_eq_iff_nth_eq nth_ip_bits)
  finally show ?thesis .
qed

lemma prefix_take: "n \<le> length ys \<Longrightarrow> n \<le> length xs \<Longrightarrow> prefix (take n xs) ys \<longleftrightarrow> take n xs = take n ys"
proof
  assume "n \<le> length ys" "n \<le> length xs" "prefix (take n xs) ys"
  then obtain zs where "ys = take n xs @ zs" by (auto elim: prefixE)
  then show "take n xs = take n ys" using \<open>n \<le> length xs\<close> by simp
qed (simp add: take_is_prefix)

lemma contains_prefix: "pf_ok p \<Longrightarrow> contains p ip = Some (prefix (pf_bits p) (ip_bits ip))"
  by (auto simp: contains_def pf_mask_def pf_ok_def pf_bits_def masked_zero_iff prefix_take)

lemma prefix_eq_bits:
  assumes "pf_ok p" "pf_ok q"
  shows "prefix_eq p q = Some (pf_bits p = pf_bits q)"
proof (cases "pf_len p = pf_len q")
  case True
  have "(a AND m = b AND m) \<longleftrightarrow> (a XOR b) AND m = 0" for a b m :: u32
    by (auto simp: bit_eq_iff bit_simps)
  then show ?thesis using assms True masked_zero_iff
    by (auto simp: prefix_eq_def pf_mask_def pf_ok_def pf_bits_def)
next
  case False
  then have "length (pf_bits p) \<noteq> length (pf_bits q)" using assms by (auto simp: length_pf_bits) (auto simp: pf_ok_def)
  then show ?thesis using False by (auto simp: prefix_eq_def)
qed

end
