(* ===== verification/Net_Trie.thy ===== *)
theory Net_Trie
  imports Net_Address
begin

text \<open>
  The tries of the forwarding table (\<open>src/full/s3fnet/src/util/trie.h\<close>, \<open>tries/trie0.cc\<close>,
  \<open>tries/trie1.cc\<close>).  A node belongs to one parent, so the nodes below a pointer are a tree, and a
  pointer into the trie is the path of bits that leads to it.  Shifting a 32-bit integer by 32 or more
  places has no defined result in C; the argument \<open>ub\<close> stands for what the machine computes then.
\<close>


section \<open>Nodes\<close>

datatype 'd trie_node = Null | TrieNode "'d option" "'d trie_node" "'d trie_node"

record 'd trie =
  root :: "'d trie_node"
  nElements :: int

definition new_trie :: "'d trie" where
  "new_trie = \<lparr>root = TrieNode None Null Null, nElements = 0\<rparr>"

definition shr32 :: "u32 \<Rightarrow> int \<Rightarrow> u32 \<Rightarrow> u32" where
  "shr32 ub n x = (if 0 \<le> n \<and> n < 32 then drop_bit (nat n) x else ub)"

definition shl32 :: "u32 \<Rightarrow> int \<Rightarrow> u32 \<Rightarrow> u32" where
  "shl32 ub n x = (if 0 \<le> n \<and> n < 32 then push_bit (nat n) x else ub)"

definition GETBIT :: "u32 \<Rightarrow> int \<Rightarrow> u32 \<Rightarrow> bool" where
  "GETBIT ub n bits \<longleftrightarrow> bit (shr32 ub (32 - n - 1) bits) 0"

text \<open>A change of the node behind a pointer; \<open>None\<close> is a null pointer or a failed assertion.\<close>

fun modify :: "bool list \<Rightarrow> ('d trie_node \<Rightarrow> 'd trie_node option) \<Rightarrow> 'd trie_node \<Rightarrow> 'd trie_node option" where
  "modify [] f n = f n"
| "modify (b # p) f Null = None"
| "modify (b # p) f (TrieNode d l r) =
     (if b then map_option (\<lambda>r. TrieNode d l r) (modify p f r) else map_option (\<lambda>l. TrieNode d l r) (modify p f l))"

fun set_data :: "'d option \<Rightarrow> 'd trie_node \<Rightarrow> 'd trie_node option" where
  "set_data x Null = None"
| "set_data x (TrieNode d l r) = Some (TrieNode x l r)"

fun set_child :: "bool \<Rightarrow> 'd trie_node \<Rightarrow> 'd trie_node \<Rightarrow> 'd trie_node option" where
  "set_child b c Null = None"
| "set_child b c (TrieNode d l r) = Some (if b then TrieNode d l c else TrieNode d c r)"

fun node_at :: "'d trie_node \<Rightarrow> bool list \<Rightarrow> 'd trie_node" where
  "node_at n [] = n"
| "node_at Null (b # p) = Null"
| "node_at (TrieNode d l r) (b # p) = node_at (if b then r else l) p"

fun tn_data :: "'d trie_node \<Rightarrow> 'd option" where
  "tn_data Null = None"
| "tn_data (TrieNode d l r) = d"

fun is_leaf :: "'d trie_node \<Rightarrow> bool" where
  "is_leaf Null = True"
| "is_leaf (TrieNode d l r) \<longleftrightarrow> l = Null \<and> r = Null"


section \<open>Search\<close>

text \<open>
  The loop of \<open>search\<close>: the variables \<open>cur\<close> (the node and the path to it), \<open>lastcur\<close>, \<open>bitpos\<close>, and
  the last match with its parent and the index in the parent.
\<close>

fun search_loop :: "u32 \<Rightarrow> u32 \<Rightarrow> int \<Rightarrow> 'd trie_node \<Rightarrow> bool list \<Rightarrow> bool list \<Rightarrow> int \<Rightarrow>
    (bool list \<times> bool list \<times> bool) option \<Rightarrow>
    'd trie_node \<times> bool list \<times> bool list \<times> int \<times> (bool list \<times> bool list \<times> bool) option" where
  "search_loop ub key len Null cur lastcur bitpos m = (Null, cur, lastcur, bitpos, m)"
| "search_loop ub key len (TrieNode d l r) cur lastcur bitpos m =
     (if bitpos < len
      then let m1 = (if d \<noteq> None then Some (cur, lastcur, GETBIT ub (bitpos - 1) key) else m);
               curbit = GETBIT ub bitpos key in
           if curbit then search_loop ub key len r (cur @ [True]) cur (bitpos + 1) m1
           else search_loop ub key len l (cur @ [False]) cur (bitpos + 1) m1
      else (TrieNode d l r, cur, lastcur, bitpos, m))"

text \<open>
  \<open>Trie1::search\<close>: a match with its parent and its index there, or the node where the search failed
  and the position of the bit.
\<close>

datatype search_result = Match "bool list" "bool list" bool | Fail "bool list" int

definition search1 :: "u32 \<Rightarrow> u32 \<Rightarrow> int \<Rightarrow> 'd trie_node \<Rightarrow> search_result" where
  "search1 ub key len0 rt =
     (let len = (if 32 < len0 then 32 else len0);
          (curn, cur, lastcur, bitpos, m) = search_loop ub key len rt [] [] 0 None in
      if tn_data curn \<noteq> None then Match cur lastcur (GETBIT ub (bitpos - 1) key)
      else case m of
             Some (match, parent, parentbit) \<Rightarrow> Match match parent parentbit
           | None \<Rightarrow> if curn \<noteq> Null then Fail cur bitpos else Fail lastcur (bitpos - 1))"

text \<open>\<open>Trie0::search\<close> reports no parent.\<close>

datatype search_result0 = Match0 "bool list" | Fail0 "bool list" int

definition search0 :: "u32 \<Rightarrow> u32 \<Rightarrow> int \<Rightarrow> 'd trie_node \<Rightarrow> search_result0" where
  "search0 ub key len rt =
     (let (curn, cur, lastcur, bitpos, m) = search_loop ub key (min len 32) rt [] [] 0 None in
      if tn_data curn \<noteq> None then Match0 cur
      else case m of
             Some (match, _) \<Rightarrow> Match0 match
           | None \<Rightarrow> if curn \<noteq> Null then Fail0 cur bitpos else Fail0 lastcur (bitpos - 1))"


section \<open>Operations\<close>

fun create_loop :: "u32 \<Rightarrow> u32 \<Rightarrow> int \<Rightarrow> nat \<Rightarrow> 'd \<Rightarrow> 'd trie_node \<Rightarrow> 'd trie_node option" where
  "create_loop ub key i n data Null = None"
| "create_loop ub key i 0 data (TrieNode d l r) = Some (TrieNode (Some data) l r)"
| "create_loop ub key i (Suc n) data (TrieNode d l r) =
     (if (if GETBIT ub i key then r else l) \<noteq> Null then None
      else case create_loop ub key (i + 1) n data (TrieNode None Null Null) of
             None \<Rightarrow> None
           | Some c \<Rightarrow> Some (if GETBIT ub i key then TrieNode d l c else TrieNode d c r))"

definition create :: "u32 \<Rightarrow> bool list \<Rightarrow> u32 \<Rightarrow> int \<Rightarrow> 'd \<Rightarrow> 'd trie_node \<Rightarrow> 'd trie_node option" where
  "create ub theroot key nBits data rt = modify theroot (create_loop ub key 0 (nat nBits) data) rt"

text \<open>The result of an insertion is the data it returns, and the trie.\<close>

definition replace_data :: "bool list \<Rightarrow> 'd \<Rightarrow> bool \<Rightarrow> 'd trie \<Rightarrow> ('d option \<times> 'd trie) option" where
  "replace_data match data replace t =
     (if \<not> replace then Some (Some data, t)
      else map_option (\<lambda>rt. (tn_data (node_at (root t) match), t\<lparr>root := rt\<rparr>))
             (modify match (set_data (Some data)) (root t)))"

definition create_data :: "u32 \<Rightarrow> bool list \<Rightarrow> int \<Rightarrow> u32 \<Rightarrow> int \<Rightarrow> 'd \<Rightarrow> 'd trie \<Rightarrow> ('d option \<times> 'd trie) option" where
  "create_data ub fail bitpos key nBits data t =
     map_option (\<lambda>rt. (None, t\<lparr>root := rt, nElements := nElements t + 1\<rparr>))
       (create ub fail (shl32 ub bitpos key) (nBits - bitpos) data (root t))"

definition trie1_insert :: "u32 \<Rightarrow> u32 \<Rightarrow> int \<Rightarrow> 'd \<Rightarrow> bool \<Rightarrow> 'd trie \<Rightarrow> ('d option \<times> 'd trie) option" where
  "trie1_insert ub key nBits data replace t =
     (case search1 ub key nBits (root t) of
        Match match _ _ \<Rightarrow> replace_data match data replace t
      | Fail fail bitpos \<Rightarrow> create_data ub fail bitpos key nBits data t)"

definition trie0_insert :: "u32 \<Rightarrow> u32 \<Rightarrow> int \<Rightarrow> 'd \<Rightarrow> bool \<Rightarrow> 'd trie \<Rightarrow> ('d option \<times> 'd trie) option" where
  "trie0_insert ub key nBits data replace t =
     (case search0 ub key nBits (root t) of
        Match0 match \<Rightarrow> replace_data match data replace t
      | Fail0 fail bitpos \<Rightarrow> create_data ub fail bitpos key nBits data t)"

fun lookup_loop :: "'d trie_node \<Rightarrow> u32 \<Rightarrow> 'd option \<Rightarrow> 'd option" where
  "lookup_loop Null key pData = pData"
| "lookup_loop (TrieNode d l r) key pData =
     (let pData = (if d \<noteq> None then d else pData) in
      if key AND 0x80000000 \<noteq> 0 then lookup_loop r (push_bit 1 key) pData
      else lookup_loop l (push_bit 1 key) pData)"

definition trie0_lookup :: "'d trie \<Rightarrow> u32 \<Rightarrow> 'd option" where
  "trie0_lookup t key = lookup_loop (root t) key None"

text \<open>\<open>Trie1::lookup\<close> takes the first step in front of its loop, and shifts before each further one.\<close>

fun lookup1_loop :: "'d trie_node \<Rightarrow> u32 \<Rightarrow> 'd option \<Rightarrow> 'd option" where
  "lookup1_loop Null key pData = pData"
| "lookup1_loop (TrieNode d l r) key pData =
     (let pData = (if d \<noteq> None then d else pData); key = push_bit 1 key in
      if key AND 0x80000000 \<noteq> 0 then lookup1_loop r key pData else lookup1_loop l key pData)"

definition trie1_lookup :: "'d trie \<Rightarrow> u32 \<Rightarrow> 'd option" where
  "trie1_lookup t key =
     lookup1_loop (node_at (root t) [key AND 0x80000000 \<noteq> 0]) key (tn_data (root t))"

definition trie0_remove :: "u32 \<Rightarrow> u32 \<Rightarrow> int \<Rightarrow> 'd trie \<Rightarrow> ('d option \<times> 'd trie) option" where
  "trie0_remove ub key nBits t =
     (case search0 ub key nBits (root t) of
        Fail0 _ _ \<Rightarrow> Some (None, t)
      | Match0 p \<Rightarrow>
          map_option (\<lambda>rt. (tn_data (node_at (root t) p), t\<lparr>root := rt, nElements := nElements t - 1\<rparr>))
            (modify p (set_data None) (root t)))"

definition trie1_remove :: "u32 \<Rightarrow> u32 \<Rightarrow> int \<Rightarrow> 'd trie \<Rightarrow> ('d option \<times> 'd trie) option" where
  "trie1_remove ub key nBits t =
     (case search1 ub key nBits (root t) of
        Fail _ _ \<Rightarrow> Some (None, t)
      | Match p parent index \<Rightarrow>
          (case modify p (set_data None) (root t) of
             None \<Rightarrow> None
           | Some rt \<Rightarrow>
               map_option (\<lambda>rt. (tn_data (node_at (root t) p), t\<lparr>root := rt, nElements := nElements t - 1\<rparr>))
                 (if is_leaf (node_at rt p) then modify parent (set_child index Null) rt else Some rt)))"

definition trie_getDefault :: "'d trie \<Rightarrow> 'd option" where
  "trie_getDefault t = tn_data (root t)"


section \<open>Contents and longest prefixes\<close>

text \<open>The contents of a trie: a map from prefixes, as lists of bits, to data.\<close>

fun tmap :: "'d trie_node \<Rightarrow> bool list \<Rightarrow> 'd option" where
  "tmap Null p = None"
| "tmap (TrieNode d l r) [] = d"
| "tmap (TrieNode d l r) (b # p) = tmap (if b then r else l) p"

text \<open>The longest prefix of \<open>ks\<close> that has an entry.\<close>

definition best :: "(bool list \<Rightarrow> 'd option) \<Rightarrow> bool list \<Rightarrow> bool list option" where
  "best m ks = find (\<lambda>p. m p \<noteq> None) (rev (prefixes ks))"

fun best_path :: "'d trie_node \<Rightarrow> bool list \<Rightarrow> bool list option" where
  "best_path Null ks = None"
| "best_path (TrieNode d l r) [] = (if d \<noteq> None then Some [] else None)"
| "best_path (TrieNode d l r) (b # ks) =
     (case best_path (if b then r else l) ks of
        Some p \<Rightarrow> Some (b # p)
      | None \<Rightarrow> if d \<noteq> None then Some [] else None)"

lemma find_append: "find P (xs @ ys) = (case find P xs of None \<Rightarrow> find P ys | Some x \<Rightarrow> Some x)"
  by (induction xs) auto

lemma best_empty [simp]: "best (\<lambda>_. None) ks = None"
  by (simp add: best_def find_None_iff)

lemma best_Nil: "best m [] = (if m [] \<noteq> None then Some [] else None)"
  by (simp add: best_def)

lemma best_Cons:
  "best m (b # ks) = (case best (\<lambda>p. m (b # p)) ks of
     Some p \<Rightarrow> Some (b # p) | None \<Rightarrow> if m [] \<noteq> None then Some [] else None)"
proof -
  have "find (\<lambda>p. m p \<noteq> None) (rev (map ((#) b) xs)) = map_option ((#) b) (find (\<lambda>p. m (b # p) \<noteq> None) (rev xs))" for xs
    by (induction xs) (auto simp: find_append split: option.splits)
  then show ?thesis by (auto simp: best_def find_append split: option.splits)
qed

lemma best_path_best: "best_path n ks = best (tmap n) ks"
proof (induction n ks rule: best_path.induct)
  case (1 ks)
  have "tmap Null = (\<lambda>_. None)" by auto
  then show ?case by simp
next
  case (3 d l r b ks)
  then show ?case by (cases b) (simp_all add: best_Cons split: option.splits)
qed (simp add: best_Nil)

lemma best_SomeD:
  assumes "best m ks = Some p"
  shows "prefix p ks" "m p \<noteq> None" "\<And>q. prefix q ks \<Longrightarrow> m q \<noteq> None \<Longrightarrow> prefix q p"
  using assms
proof (induction ks arbitrary: m p)
  case Nil
  {
    case 1
    then show ?case by (simp add: best_Nil split: if_splits)
  next
    case 2
    then show ?case by (auto simp: best_Nil split: if_splits)
  next
    case (3 q)
    then show ?case by simp
  }
next
  case (Cons b ks)
  {
    case 1
    then show ?case using Cons.IH(1) by (auto simp: best_Cons split: option.splits if_splits)
  next
    case 2
    then show ?case using Cons.IH(2) by (auto simp: best_Cons split: option.splits if_splits)
  next
    case (3 q)
    note IH = Cons.IH(3)
    show ?case
    proof (cases q)
      case (Cons c q')
      then have q: "c = b" "prefix q' ks" "m (b # q') \<noteq> None" using 3 by auto
      then obtain p' where "best (\<lambda>p. m (b # p)) ks = Some p'"
        by (cases "best (\<lambda>p. m (b # p)) ks") (auto simp: best_def find_None_iff)
      then have "prefix q' p'" "p = b # p'" using 3(3) q IH [of q' "\<lambda>p. m (b # p)" p'] by (simp_all add: best_Cons)
      then show ?thesis using q(1) \<open>q = c # q'\<close> by simp
    qed simp
  }
qed

lemma best_NoneD: "best m ks = None \<Longrightarrow> prefix q ks \<Longrightarrow> m q = None"
  by (auto simp: best_def find_None_iff in_set_prefixes)

lemma best_eqI:
  assumes "prefix p ks" "m p \<noteq> None" "\<And>q. prefix q ks \<Longrightarrow> m q \<noteq> None \<Longrightarrow> prefix q p"
  shows "best m ks = Some p"
proof (cases "best m ks")
  case None
  then show ?thesis using best_NoneD [OF None assms(1)] assms(2) by simp
next
  case (Some q)
  have "prefix p q" "prefix q p"
    using best_SomeD(3) [OF Some assms(1,2)] assms(3) [OF best_SomeD(1,2) [OF Some]] .
  then show ?thesis using Some prefix_order.antisym by blast
qed


section \<open>What a search finds\<close>

lemma GETBIT_ip_bits: "0 \<le> i \<Longrightarrow> i < 32 \<Longrightarrow> GETBIT ub i key = ip_bits key ! nat i"
proof -
  assume i: "0 \<le> i" "i < 32"
  then have "nat (31 - i) = 31 - nat i" by (simp add: nat_diff_distrib)
  then show ?thesis using i by (simp add: GETBIT_def shr32_def nth_ip_bits bit_drop_bit_eq)
qed

text \<open>The part of the path \<open>ks\<close> that has nodes.\<close>

fun reach :: "'d trie_node \<Rightarrow> bool list \<Rightarrow> bool list" where
  "reach Null ks = []"
| "reach (TrieNode d l r) [] = []"
| "reach (TrieNode d l r) (b # ks) = (let c = (if b then r else l) in if c = Null then [] else b # reach c ks)"

definition finish_search :: "u32 \<Rightarrow> u32 \<Rightarrow> 'd trie_node \<times> bool list \<times> bool list \<times> int \<times> (bool list \<times> bool list \<times> bool) option \<Rightarrow>
    search_result" where
  "finish_search ub key st =
     (case st of (curn, cur, lastcur, bitpos, m) \<Rightarrow>
        if tn_data curn \<noteq> None then Match cur lastcur (GETBIT ub (bitpos - 1) key)
        else case m of
               Some (match, parent, parentbit) \<Rightarrow> Match match parent parentbit
             | None \<Rightarrow> if curn \<noteq> Null then Fail cur bitpos else Fail lastcur (bitpos - 1))"

definition found :: "u32 \<Rightarrow> u32 \<Rightarrow> int \<Rightarrow> 'd trie_node \<Rightarrow> bool list \<Rightarrow> bool list \<Rightarrow> bool list \<Rightarrow>
    (bool list \<times> bool list \<times> bool) option \<Rightarrow> search_result" where
  "found ub key k n ks cur lastcur m =
     (case best_path n ks of
        Some q \<Rightarrow> if q = [] then Match cur lastcur (GETBIT ub (k - 1) key) else Match (cur @ q) (cur @ butlast q) (last q)
      | None \<Rightarrow>
          (case m of
             Some (match, parent, parentbit) \<Rightarrow> Match match parent parentbit
           | None \<Rightarrow> if n = Null then Fail lastcur (k - 1) else Fail (cur @ reach n ks) (k + int (length (reach n ks)))))"

lemma found_Null: "found ub key k Null ks cur lastcur m = found ub key k Null [] cur lastcur m"
  by (simp add: found_def)

lemma found_step:
  assumes "GETBIT ub k key = b"
  shows "found ub key k (TrieNode d l r) (b # ks) cur lastcur m =
    found ub key (k + 1) (if b then r else l) ks (cur @ [b]) cur
      (if d \<noteq> None then Some (cur, lastcur, GETBIT ub (k - 1) key) else m)"
proof (cases "best_path (if b then r else l) ks")
  case None
  then show ?thesis by (auto simp: found_def Let_def split: option.splits)
next
  case (Some q)
  then show ?thesis using assms by (auto simp: found_def)
qed

lemma search_loop_found:
  assumes "0 \<le> len" "len \<le> 32" "0 \<le> k" "k \<le> len" "ks = drop (nat k) (take (nat len) (ip_bits key))"
  shows "finish_search ub key (search_loop ub key len n cur lastcur k m) = found ub key k n ks cur lastcur m"
  using assms
proof (induction ub key len n cur lastcur k m arbitrary: ks rule: search_loop.induct)
  case (1 ub key len cur lastcur k m)
  then show ?case by (auto simp: finish_search_def found_def split: option.splits)
next
  case (2 ub key len d l r cur lastcur k m)
  show ?case
  proof (cases "k < len")
    case False
    then have "ks = []" using "2.prems" by simp
    then show ?thesis using False by (auto simp: finish_search_def found_def split: option.splits)
  next
    case True
    let ?b = "GETBIT ub k key" let ?rest = "drop (nat (k + 1)) (take (nat len) (ip_bits key))"
    have kl: "nat k < nat len" using True "2.prems" by simp
    have kn: "nat k < length (take (nat len) (ip_bits key))" using kl "2.prems" by simp
    have "ks = take (nat len) (ip_bits key) ! nat k # drop (Suc (nat k)) (take (nat len) (ip_bits key))"
      unfolding "2.prems"(5) by (rule Cons_nth_drop_Suc [OF kn, symmetric])
    moreover have "Suc (nat k) = nat (k + 1)" using "2.prems" by simp
    moreover have "take (nat len) (ip_bits key) ! nat k = ?b" using kl "2.prems" by (simp add: GETBIT_ip_bits)
    ultimately have ks: "ks = ?b # ?rest" by simp
    have IH: "finish_search ub key (search_loop ub key len (if ?b then r else l) (cur @ [?b]) cur (k + 1)
          (if d \<noteq> None then Some (cur, lastcur, GETBIT ub (k - 1) key) else m)) =
        found ub key (k + 1) (if ?b then r else l) ?rest (cur @ [?b]) cur
          (if d \<noteq> None then Some (cur, lastcur, GETBIT ub (k - 1) key) else m)"
      using "2.IH"(1) [OF True refl refl, of ?rest] "2.IH"(2) [OF True refl refl, of ?rest] "2.prems" True
      by (cases ?b) simp_all
    show ?thesis unfolding ks found_step [OF refl] IH [symmetric] using True by (cases ?b) simp_all
  qed
qed

lemma search1_found:
  assumes "0 \<le> len" "len \<le> 32"
  shows "search1 ub key len n = found ub key 0 n (take (nat len) (ip_bits key)) [] [] None"
  using search_loop_found [of len 0 "take (nat len) (ip_bits key)" key ub n "[]" "[]" None] assms
  by (simp add: search1_def finish_search_def Let_def)

definition forget :: "search_result \<Rightarrow> search_result0" where
  "forget r = (case r of Match p _ _ \<Rightarrow> Match0 p | Fail f i \<Rightarrow> Fail0 f i)"

lemma search0_forget: "search0 ub key len n = forget (search1 ub key len n)"
proof -
  have "(if 32 < len then 32 else len) = min len 32" by (simp add: min_def)
  then show ?thesis
    by (simp add: search0_def search1_def forget_def Let_def split: prod.splits option.splits)
qed


section \<open>What the operations do to the contents\<close>

lemma node_at_Null [simp]: "node_at Null p = Null"
  by (cases p) auto

lemma tmap_node_at: "tmap n p = tn_data (node_at n p)"
  by (induction n p rule: tmap.induct) auto

lemma modify_set_data:
  assumes "node_at n p \<noteq> Null"
  shows "\<exists>n1. modify p (set_data x) n = Some n1 \<and> tmap n1 = (tmap n)(p := x) \<and>
    is_leaf (node_at n1 p) = is_leaf (node_at n p) \<and> (\<forall>q. node_at n1 q = Null \<longleftrightarrow> node_at n q = Null)"
  using assms
proof (induction p arbitrary: n)
  case Nil
  then obtain d l r where n: "n = TrieNode d l r" by (cases n) auto
  have "tmap (TrieNode x l r) = (tmap n)([] := x)"
  proof
    fix q show "tmap (TrieNode x l r) q = ((tmap n)([] := x)) q" using n by (cases q) auto
  qed
  moreover have "node_at (TrieNode x l r) q = Null \<longleftrightarrow> node_at n q = Null" for q using n by (cases q) auto
  ultimately show ?case using n by (simp add: fun_upd_def)
next
  case (Cons b p)
  then obtain d l r where n: "n = TrieNode d l r" by (cases n) auto
  let ?c = "if b then r else l"
  have "node_at ?c p \<noteq> Null" using Cons.prems n by simp
  then obtain c1 where c1: "modify p (set_data x) ?c = Some c1" "tmap c1 = (tmap ?c)(p := x)"
    "is_leaf (node_at c1 p) = is_leaf (node_at ?c p)" "\<And>q. node_at c1 q = Null \<longleftrightarrow> node_at ?c q = Null"
    using Cons.IH [of ?c] by metis
  let ?n1 = "if b then TrieNode d l c1 else TrieNode d c1 r"
  have "tmap ?n1 = (tmap n)(b # p := x)"
  proof
    fix q show "tmap ?n1 q = ((tmap n)(b # p := x)) q" using n c1(2) by (cases q) auto
  qed
  moreover have "node_at ?n1 q = Null \<longleftrightarrow> node_at n q = Null" for q using n c1(4) by (cases q) auto
  moreover have "modify (b # p) (set_data x) n = Some ?n1" using n c1(1) by (auto split: if_splits)
  moreover have "is_leaf (node_at ?n1 (b # p)) = is_leaf (node_at n (b # p))" using n c1(3) by auto
  ultimately show ?case by blast
qed

lemma modify_set_child_Null:
  assumes "node_at n p \<noteq> Null" "\<And>q. tmap (node_at n (p @ [b])) q = None"
  shows "\<exists>n1. modify p (set_child b Null) n = Some n1 \<and> tmap n1 = tmap n \<and>
    (\<forall>q. node_at n1 q \<noteq> Null \<longrightarrow> node_at n q \<noteq> Null) \<and> n1 \<noteq> Null"
  using assms
proof (induction p arbitrary: n)
  case Nil
  then obtain d l r where n: "n = TrieNode d l r" by (cases n) auto
  let ?n1 = "if b then TrieNode d l Null else TrieNode d Null r"
  have "tmap ?n1 = tmap n"
  proof
    fix q show "tmap ?n1 q = tmap n q" using n Nil(2) by (cases q) auto
  qed
  moreover have "node_at ?n1 q \<noteq> Null \<longrightarrow> node_at n q \<noteq> Null" for q
    using n by (cases q) auto
  ultimately show ?case using n by simp
next
  case (Cons c p)
  then obtain d l r where n: "n = TrieNode d l r" by (cases n) auto
  let ?c = "if c then r else l"
  have "node_at ?c p \<noteq> Null" "\<And>q. tmap (node_at ?c (p @ [b])) q = None" using Cons.prems n by simp_all
  then obtain c1 where c1: "modify p (set_child b Null) ?c = Some c1" "tmap c1 = tmap ?c"
    "\<And>q. node_at c1 q \<noteq> Null \<longrightarrow> node_at ?c q \<noteq> Null"
    using Cons.IH [of ?c] by metis
  let ?n1 = "if c then TrieNode d l c1 else TrieNode d c1 r"
  have "tmap ?n1 = tmap n"
  proof
    fix q show "tmap ?n1 q = tmap n q" using n c1(2) by (cases q) auto
  qed
  moreover have "node_at ?n1 q \<noteq> Null \<longrightarrow> node_at n q \<noteq> Null" for q using n c1(3) by (cases q) auto
  moreover have "modify (c # p) (set_child b Null) n = Some ?n1" using n c1(1) by (auto split: if_splits)
  ultimately show ?case by auto
qed

fun put :: "'d trie_node \<Rightarrow> bool list \<Rightarrow> 'd \<Rightarrow> 'd trie_node" where
  "put Null [] x = TrieNode (Some x) Null Null"
| "put Null (b # ks) x = (if b then TrieNode None Null (put Null ks x) else TrieNode None (put Null ks x) Null)"
| "put (TrieNode d l r) [] x = TrieNode (Some x) l r"
| "put (TrieNode d l r) (b # ks) x = (if b then TrieNode d l (put r ks x) else TrieNode d (put l ks x) r)"

lemma tmap_put: "tmap (put n ks x) q = ((tmap n)(ks \<mapsto> x)) q"
proof (induction n ks x arbitrary: q rule: put.induct)
  case (1 x)
  then show ?case by (cases q) auto
next
  case (2 b ks x)
  then show ?case by (cases q) auto
next
  case (3 d l r x)
  then show ?case by (cases q) auto
next
  case (4 d l r b ks x)
  then show ?case by (cases q) auto
qed

lemma put_depth: "node_at (put n ks x) q \<noteq> Null \<Longrightarrow> node_at n q \<noteq> Null \<or> length q \<le> length ks"
proof (induction n ks x arbitrary: q rule: put.induct)
  case (1 x)
  then show ?case by (cases q) (auto split: if_splits)
next
  case (2 b ks x)
  then show ?case by (cases q) (auto split: if_splits)
next
  case (3 d l r x)
  then show ?case by (cases q) auto
next
  case (4 d l r b ks x)
  then show ?case by (cases q) (auto split: if_splits)
qed

lemma create_loop_Null: "(\<And>j. j < length bs \<Longrightarrow> GETBIT ub (i + int j) w = bs ! j) \<Longrightarrow>
    create_loop ub w i (length bs) x (TrieNode None Null Null) = Some (put Null bs x)"
proof (induction bs arbitrary: i)
  case (Cons b bs)
  have "GETBIT ub i w = b" using Cons.prems [of 0] by simp
  moreover have "create_loop ub w (i + 1) (length bs) x (TrieNode None Null Null) = Some (put Null bs x)"
    using Cons.prems [of "Suc _"] by (intro Cons.IH) (simp add: algebra_simps)
  ultimately show ?case by simp
qed simp

lemma create_loop_put:
  assumes "\<And>j. j < length bs \<Longrightarrow> GETBIT ub (int j) w = bs ! j"
    "bs \<noteq> [] \<Longrightarrow> node_at (TrieNode d l r) [hd bs] = Null"
  shows "create_loop ub w 0 (length bs) x (TrieNode d l r) = Some (put (TrieNode d l r) bs x)"
proof (cases bs)
  case (Cons b cs)
  have b: "GETBIT ub 0 w = b" "(if b then r else l) = Null" using assms(1) [of 0] assms(2) Cons by simp_all
  have "create_loop ub w 1 (length cs) x (TrieNode None Null Null) = Some (put Null cs x)"
    using assms(1) [of "Suc _"] Cons by (intro create_loop_Null) (simp add: algebra_simps)
  then show ?thesis using b Cons by auto
qed simp

lemma modify_reach:
  assumes "n \<noteq> Null" "f (node_at n (reach n ks)) = Some (put (node_at n (reach n ks)) (drop (length (reach n ks)) ks) x)"
  shows "modify (reach n ks) f n = Some (put n ks x)"
  using assms
proof (induction n ks rule: reach.induct)
  case (3 d l r b ks)
  then show ?case by (cases b) (auto simp: Let_def)
qed simp_all

lemma reach_stops:
  assumes "n \<noteq> Null"
  shows "node_at n (reach n ks) \<noteq> Null \<and> prefix (reach n ks) ks \<and>
    (drop (length (reach n ks)) ks \<noteq> [] \<longrightarrow> node_at n (reach n ks @ [hd (drop (length (reach n ks)) ks)]) = Null)"
  using assms
proof (induction n ks rule: reach.induct)
  case (3 d l r b ks)
  then show ?case by (cases b) (auto simp: Let_def)
qed simp_all


section \<open>Lookup\<close>

lemma top_bit: "key AND 0x80000000 \<noteq> 0 \<longleftrightarrow> bit key 31" for key :: u32
proof -
  have "bit (2 ^ 31 :: u32) n \<longleftrightarrow> n = 31" for n by (simp only: bit_exp_iff possible_bit_word) auto
  then have b: "n < 32 \<and> bit (0x80000000 :: u32) n \<longleftrightarrow> n = 31" for n by auto
  have "key AND 0x80000000 = 0 \<longleftrightarrow> (\<forall>n < 32. \<not> bit (key AND 0x80000000) n)"
    by (simp only: bit_eq_iff [of _ "0 :: u32"] bit_0_eq) simp
  then show ?thesis using b by (metis bit_and_iff)
qed

lemma top_bit_push: "k < 32 \<Longrightarrow> bit (push_bit k key) 31 \<longleftrightarrow> ip_bits key ! k" for key :: u32
  by (simp add: nth_ip_bits bit_simps)

lemma lookup_loop_best:
  assumes "\<And>q. node_at n q \<noteq> Null \<Longrightarrow> k + length q \<le> 32"
  shows "lookup_loop n (push_bit k key) x =
    (case best_path n (drop k (ip_bits key)) of Some p \<Rightarrow> tmap n p | None \<Rightarrow> x)"
  using assms
proof (induction n arbitrary: k x)
  case (TrieNode d l r)
  let ?key = "push_bit k key" let ?b = "bit ?key 31" let ?c = "if ?b then r else l"
  have k: "k \<le> 32" using TrieNode.prems [of "[]"] by simp
  have step: "lookup_loop (TrieNode d l r) ?key x = lookup_loop ?c (push_bit (Suc k) key) (if d \<noteq> None then d else x)"
    by (simp add: top_bit Let_def)
  have c: "Suc k + length q \<le> 32" if "node_at ?c q \<noteq> Null" for q using TrieNode.prems [of "?b # q"] that by simp
  show ?case
  proof (cases "k = 32")
    case True
    then have "node_at ?c [] = Null" using c [of "[]"] by auto
    then show ?thesis using True step by simp
  next
    case False
    then have "drop k (ip_bits key) = ?b # drop (Suc k) (ip_bits key)"
      using k Cons_nth_drop_Suc [of k "ip_bits key"] top_bit_push [of k key] by simp
    moreover have "lookup_loop ?c (push_bit (Suc k) key) (if d \<noteq> None then d else x) =
        (case best_path ?c (drop (Suc k) (ip_bits key)) of Some p \<Rightarrow> tmap ?c p | None \<Rightarrow> (if d \<noteq> None then d else x))"
    proof (cases ?b)
      case True
      then show ?thesis using TrieNode.IH(2) [of "Suc k" "if d \<noteq> None then d else x"] c by simp
    next
      case False
      then show ?thesis using TrieNode.IH(1) [of "Suc k" "if d \<noteq> None then d else x"] c by simp
    qed
    ultimately show ?thesis unfolding step by (auto split: option.splits)
  qed
qed simp

lemma lookup1_loop_eq: "lookup1_loop n key x = lookup_loop n (push_bit 1 key) x"
  by (induction n arbitrary: key x) (auto simp: Let_def)

lemma trie1_lookup_eq: "root t \<noteq> Null \<Longrightarrow> trie1_lookup t key = trie0_lookup t key"
  by (cases "root t") (auto simp: trie1_lookup_def trie0_lookup_def lookup1_loop_eq Let_def)


section \<open>The tries as maps from prefixes\<close>

definition content :: "'d trie \<Rightarrow> bool list \<Rightarrow> 'd option" where
  "content t = tmap (root t)"

definition trie_ok :: "'d trie \<Rightarrow> bool" where
  "trie_ok t \<longleftrightarrow> root t \<noteq> Null \<and> (\<forall>p. node_at (root t) p \<noteq> Null \<longrightarrow> length p \<le> 32) \<and>
     nElements t = int (card (dom (content t)))"

text \<open>
  What the operations do to the map: they act on the longest entry that is a prefix of the key, which
  need not be the key itself.
\<close>

definition spec_insert :: "bool list \<Rightarrow> 'd \<Rightarrow> bool \<Rightarrow> (bool list \<Rightarrow> 'd option) \<Rightarrow> 'd option \<times> (bool list \<Rightarrow> 'd option)" where
  "spec_insert ks x replace m =
     (case best m ks of
        None \<Rightarrow> (None, m(ks \<mapsto> x))
      | Some p \<Rightarrow> if replace then (m p, m(p \<mapsto> x)) else (Some x, m))"

definition spec_remove :: "bool list \<Rightarrow> (bool list \<Rightarrow> 'd option) \<Rightarrow> 'd option \<times> (bool list \<Rightarrow> 'd option)" where
  "spec_remove ks m = (case best m ks of None \<Rightarrow> (None, m) | Some p \<Rightarrow> (m p, m(p := None)))"

definition spec_lookup :: "bool list \<Rightarrow> (bool list \<Rightarrow> 'd option) \<Rightarrow> 'd option" where
  "spec_lookup ks m = (case best m ks of None \<Rightarrow> None | Some p \<Rightarrow> m p)"

lemma spec_insert_exact:
  assumes "\<And>q. strict_prefix q ks \<Longrightarrow> m q = None"
  shows "spec_insert ks x True m = (m ks, m(ks \<mapsto> x))"
proof (cases "best m ks")
  case None
  then show ?thesis using best_NoneD [OF None, of ks] by (simp add: spec_insert_def)
next
  case (Some q)
  have "prefix q ks" "m q \<noteq> None" using best_SomeD [OF Some] by auto
  then have "q = ks" using assms [of q] by (cases "q = ks") (auto simp: strict_prefix_def)
  then show ?thesis using Some by (simp add: spec_insert_def)
qed

lemma finite_tmap: "finite (dom (tmap n))"
proof (induction n)
  case (TrieNode d l r)
  have "dom (tmap (TrieNode d l r)) \<subseteq> insert [] ((#) True ` dom (tmap r) \<union> (#) False ` dom (tmap l))"
  proof
    fix q assume "q \<in> dom (tmap (TrieNode d l r))"
    then show "q \<in> insert [] ((#) True ` dom (tmap r) \<union> (#) False ` dom (tmap l))" by (cases q) (auto simp: image_def split: if_splits)
  qed
  then show ?case using TrieNode finite_subset by blast
qed (simp add: dom_def)

lemma new_trie_ok: "content (new_trie :: 'd trie) = Map.empty" "trie_ok (new_trie :: 'd trie)"
proof -
  have "tmap (TrieNode None Null Null :: 'd trie_node) p = None" for p by (cases p) auto
  then show "content (new_trie :: 'd trie) = Map.empty" by (simp add: content_def new_trie_def fun_eq_iff)
  then show "trie_ok (new_trie :: 'd trie)"
  proof -
    assume c: "content (new_trie :: 'd trie) = Map.empty"
    have "node_at (TrieNode None Null Null :: 'd trie_node) p \<noteq> Null \<Longrightarrow> length p \<le> 32" for p by (cases p) auto
    then show ?thesis using c by (simp add: trie_ok_def) (simp add: new_trie_def)
  qed
qed

lemma card_upd_new: "finite (dom m) \<Longrightarrow> m k = None \<Longrightarrow> card (dom (m(k \<mapsto> x))) = card (dom m) + 1"
  by (simp add: domIff)

lemma card_upd_old: "m k \<noteq> None \<Longrightarrow> card (dom (m(k \<mapsto> x))) = card (dom m)"
  by (simp add: domIff insert_absorb)

lemma card_del: "finite (dom m) \<Longrightarrow> m k \<noteq> None \<Longrightarrow> int (card (dom (m(k := None)))) = int (card (dom m)) - 1"
  by (simp add: domIff card_Diff_singleton) (metis One_nat_def Suc_leI card_gt_0_iff domI empty_iff int_ops(6) of_nat_1 of_nat_diff)


lemma node_at_append: "node_at n (p @ q) = node_at (node_at n p) q"
  by (induction n p rule: node_at.induct) auto

lemma tmap_append: "tmap n (p @ q) = tmap (node_at n p) q"
  by (simp add: tmap_node_at node_at_append)

lemma content_node: "content t p \<noteq> None \<Longrightarrow> node_at (root t) p \<noteq> Null"
  by (auto simp: content_def tmap_node_at)

lemma replace_data_spec:
  assumes "trie_ok t" "best (content t) ks = Some p"
  shows "\<exists>t1. replace_data p x replace t = Some (fst (spec_insert ks x replace (content t)), t1) \<and>
    trie_ok t1 \<and> content t1 = snd (spec_insert ks x replace (content t))"
proof (cases replace)
  case True
  have p: "content t p \<noteq> None" using best_SomeD(2) [OF assms(2)] .
  then obtain n1 where n1: "modify p (set_data (Some x)) (root t) = Some n1" "tmap n1 = (tmap (root t))(p := Some x)"
    "\<And>q. node_at n1 q = Null \<longleftrightarrow> node_at (root t) q = Null"
    using modify_set_data [OF content_node, of t p "Some x"] by metis
  have "n1 \<noteq> Null" using n1(3) [of "[]"] assms(1) by (simp add: trie_ok_def)
  moreover have "card (dom (tmap n1)) = card (dom (content t))"
    unfolding n1(2) using card_upd_old [of "content t" p] p by (simp add: content_def)
  ultimately show ?thesis using True n1 assms
    by (simp add: replace_data_def spec_insert_def trie_ok_def content_def tmap_node_at [symmetric])
next
  case False
  then show ?thesis using assms by (simp add: replace_data_def spec_insert_def)
qed

lemma create_data_spec:
  assumes "trie_ok t" "0 \<le> n" "n \<le> 32" "ks = take (nat n) (ip_bits key)" "best (content t) ks = None"
  shows "\<exists>t1. create_data ub (reach (root t) ks) (int (length (reach (root t) ks))) key n x t = Some (None, t1) \<and>
    trie_ok t1 \<and> content t1 = (content t)(ks \<mapsto> x)"
proof -
  let ?r = "reach (root t) ks" let ?k = "length ?r" let ?bs = "drop ?k ks"
  have rt: "root t \<noteq> Null" using assms(1) by (simp add: trie_ok_def)
  note stop = reach_stops [OF rt, of ks]
  have lks: "length ks = nat n" using assms(2,3,4) by simp
  have le: "?k \<le> nat n" using stop lks prefix_length_le [of ?r ks] by simp
  then have lbs: "length ?bs = nat (n - int ?k)" using lks assms(2) by simp
  obtain d l r where node: "node_at (root t) ?r = TrieNode d l r" using stop by (cases "node_at (root t) ?r") auto
  have "GETBIT ub (int j) (shl32 ub (int ?k) key) = ?bs ! j" if j: "j < length ?bs" for j
  proof -
    have kj: "?k + j < nat n" using j lbs assms(2) by linarith
    then have lt: "j < 32" "?k < 32" "?k + j < 32" using assms(3) by linarith+
    then have "GETBIT ub (int j) (shl32 ub (int ?k) key) = bit (push_bit ?k key) (31 - j)"
      by (simp add: GETBIT_ip_bits nth_ip_bits shl32_def)
    also have "\<dots> = bit key (31 - (?k + j))" using lt by (auto simp: bit_simps add.commute)
    also have "\<dots> = ?bs ! j" using kj lks assms(4) lt by (simp add: nth_ip_bits)
    finally show ?thesis .
  qed
  moreover have "?bs \<noteq> [] \<Longrightarrow> node_at (TrieNode d l r) [hd ?bs] = Null"
    using stop node by (simp add: node_at_append)
  ultimately have "create_loop ub (shl32 ub (int ?k) key) 0 (length ?bs) x (TrieNode d l r) = Some (put (TrieNode d l r) ?bs x)"
    by (rule create_loop_put)
  then have "create ub ?r (shl32 ub (int ?k) key) (n - int ?k) x (root t) = Some (put (root t) ks x)"
    unfolding create_def lbs [symmetric] using node by (intro modify_reach [OF rt]) simp
  moreover have "tmap (put (root t) ks x) = (content t)(ks \<mapsto> x)"
    by (simp add: fun_eq_iff tmap_put content_def)
  moreover have "put (root t) ks x \<noteq> Null" using rt by (cases "root t"; cases ks) auto
  moreover have "length q \<le> 32" if "node_at (put (root t) ks x) q \<noteq> Null" for q
    using put_depth [OF that] assms(1,3) lks by (auto simp: trie_ok_def)
  moreover have "card (dom ((content t)(ks \<mapsto> x))) = card (dom (content t)) + 1"
    using best_NoneD [OF assms(5), of ks] finite_tmap by (intro card_upd_new) (simp_all add: content_def)
  ultimately show ?thesis using assms(1) by (simp add: create_data_def trie_ok_def content_def)
qed

lemma search1_cases:
  assumes "trie_ok t" "0 \<le> n" "n \<le> 32" "ks = take (nat n) (ip_bits key)"
  shows "search1 ub key n (root t) =
    (case best (content t) ks of
       None \<Rightarrow> Fail (reach (root t) ks) (int (length (reach (root t) ks)))
     | Some p \<Rightarrow> if p = [] then Match [] [] (GETBIT ub (-1) key) else Match p (butlast p) (last p))"
  using assms by (simp add: search1_found found_def best_path_best content_def trie_ok_def split: option.splits)

lemma trie1_insert_spec:
  assumes "trie_ok t" "0 \<le> n" "n \<le> 32"
  shows "\<exists>t1. trie1_insert ub key n x replace t = Some (fst (spec_insert (take (nat n) (ip_bits key)) x replace (content t)), t1) \<and>
    trie_ok t1 \<and> content t1 = snd (spec_insert (take (nat n) (ip_bits key)) x replace (content t))"
proof (cases "best (content t) (take (nat n) (ip_bits key))")
  case None
  then show ?thesis using create_data_spec [OF assms refl None, of ub x] search1_cases [OF assms refl, of ub]
    by (simp add: trie1_insert_def spec_insert_def)
next
  case (Some p)
  have "trie1_insert ub key n x replace t = replace_data p x replace t"
    using search1_cases [OF assms refl, of ub] Some by (simp add: trie1_insert_def)
  then show ?thesis using replace_data_spec [OF assms(1) Some] by simp
qed

lemma trie0_insert_eq: "trie0_insert ub key n x replace t = trie1_insert ub key n x replace t"
  by (simp add: trie0_insert_def trie1_insert_def search0_forget forget_def split: search_result.splits)

lemma trie_lookup_spec:
  assumes "trie_ok t"
  shows "trie0_lookup t key = spec_lookup (ip_bits key) (content t)" "trie1_lookup t key = spec_lookup (ip_bits key) (content t)"
proof -
  have "lookup_loop (root t) (push_bit 0 key) None = (case best_path (root t) (drop 0 (ip_bits key)) of Some p \<Rightarrow> tmap (root t) p | None \<Rightarrow> None)"
    using assms by (intro lookup_loop_best) (simp add: trie_ok_def)
  then show 1: "trie0_lookup t key = spec_lookup (ip_bits key) (content t)"
    by (simp add: trie0_lookup_def spec_lookup_def best_path_best content_def split: option.splits)
  show "trie1_lookup t key = spec_lookup (ip_bits key) (content t)"
    using trie1_lookup_eq [of t] assms 1 by (simp add: trie_ok_def)
qed


lemma remove_data:
  assumes "trie_ok t" "best (content t) ks = Some p"
  obtains n1 where "modify p (set_data None) (root t) = Some n1" "tmap n1 = (content t)(p := None)"
    "n1 \<noteq> Null" "\<And>q. node_at n1 q = Null \<longleftrightarrow> node_at (root t) q = Null" "node_at n1 p \<noteq> Null" "tn_data (node_at n1 p) = None"
    "nElements t - 1 = int (card (dom (tmap n1)))"
proof -
  have p: "content t p \<noteq> None" using best_SomeD(2) [OF assms(2)] .
  then obtain n1 where n1: "modify p (set_data None) (root t) = Some n1" "tmap n1 = (content t)(p := None)"
    "\<And>q. node_at n1 q = Null \<longleftrightarrow> node_at (root t) q = Null"
    using modify_set_data [OF content_node, of t p None] unfolding content_def by metis
  have "n1 \<noteq> Null" using n1(3) [of "[]"] assms(1) by (simp add: trie_ok_def)
  moreover have "node_at n1 p \<noteq> Null" using n1(3) content_node [OF p] by simp
  moreover have "tn_data (node_at n1 p) = None" using n1(2) tmap_node_at [of n1 p] by simp
  moreover have "nElements t - 1 = int (card (dom (tmap n1)))"
    unfolding n1(2) using card_del [of "content t" p] p assms(1) finite_tmap [of "root t"] by (simp add: content_def trie_ok_def)
  ultimately show ?thesis using that n1 by blast
qed

lemma trie0_remove_spec:
  assumes "trie_ok t" "0 \<le> n" "n \<le> 32"
  shows "\<exists>t1. trie0_remove ub key n t = Some (fst (spec_remove (take (nat n) (ip_bits key)) (content t)), t1) \<and>
    trie_ok t1 \<and> content t1 = snd (spec_remove (take (nat n) (ip_bits key)) (content t))"
proof (cases "best (content t) (take (nat n) (ip_bits key))")
  case None
  then show ?thesis using search1_cases [OF assms refl, of ub] assms(1)
    by (simp add: trie0_remove_def search0_forget forget_def spec_remove_def)
next
  case (Some p)
  obtain n1 where n1: "modify p (set_data None) (root t) = Some n1" "tmap n1 = (content t)(p := None)"
    "n1 \<noteq> Null" "\<And>q. node_at n1 q = Null \<longleftrightarrow> node_at (root t) q = Null" "nElements t - 1 = int (card (dom (tmap n1)))"
    using remove_data [OF assms(1) Some] by metis
  have "search0 ub key n (root t) = Match0 p"
    using search1_cases [OF assms refl, of ub] Some by (simp add: search0_forget forget_def)
  then have "trie0_remove ub key n t = Some (content t p, t\<lparr>root := n1, nElements := nElements t - 1\<rparr>)"
    using n1(1) by (simp add: trie0_remove_def content_def tmap_node_at)
  moreover have "trie_ok (t\<lparr>root := n1, nElements := nElements t - 1\<rparr>)"
    using n1(3,4,5) assms(1) by (auto simp: trie_ok_def content_def)
  ultimately show ?thesis using Some n1(2) by (simp add: spec_remove_def content_def)
qed

lemma leaf_empty: "is_leaf n \<Longrightarrow> tn_data n = None \<Longrightarrow> tmap n q = None"
  by (cases n; cases q) auto

lemma prune:
  assumes "n \<noteq> Null" "node_at n p \<noteq> Null" "is_leaf (node_at n p)" "tn_data (node_at n p) = None"
    "parent = butlast p" "p \<noteq> [] \<Longrightarrow> b = last p"
  shows "\<exists>n1. modify parent (set_child b Null) n = Some n1 \<and> tmap n1 = tmap n \<and>
    (\<forall>q. node_at n1 q \<noteq> Null \<longrightarrow> node_at n q \<noteq> Null) \<and> n1 \<noteq> Null"
proof (rule modify_set_child_Null)
  show "node_at n parent \<noteq> Null"
  proof (cases "p = []")
    case False
    then have "node_at n p = node_at (node_at n parent) [last p]"
      using assms(5) node_at_append [of n "butlast p" "[last p]"] by simp
    then show ?thesis using assms(2) by auto
  qed (simp add: assms)
  show "tmap (node_at n (parent @ [b])) q = None" for q
  proof (cases "p = []")
    case True
    then show ?thesis using assms by (cases n; cases b) auto
  next
    case False
    then have "parent @ [b] = p" using assms(5,6) by simp
    then show ?thesis using leaf_empty [OF assms(3,4)] by simp
  qed
qed

lemma trie1_remove_spec:
  assumes "trie_ok t" "0 \<le> n" "n \<le> 32"
  shows "\<exists>t1. trie1_remove ub key n t = Some (fst (spec_remove (take (nat n) (ip_bits key)) (content t)), t1) \<and>
    trie_ok t1 \<and> content t1 = snd (spec_remove (take (nat n) (ip_bits key)) (content t))"
proof (cases "best (content t) (take (nat n) (ip_bits key))")
  case None
  then show ?thesis using search1_cases [OF assms refl, of ub] assms(1)
    by (simp add: trie1_remove_def spec_remove_def)
next
  case (Some p)
  obtain n1 where n1: "modify p (set_data None) (root t) = Some n1" "tmap n1 = (content t)(p := None)" "n1 \<noteq> Null"
    "\<And>q. node_at n1 q = Null \<longleftrightarrow> node_at (root t) q = Null" "node_at n1 p \<noteq> Null" "tn_data (node_at n1 p) = None"
    "nElements t - 1 = int (card (dom (tmap n1)))"
    using remove_data [OF assms(1) Some] by metis
  define index where "index = (if p = [] then GETBIT ub (-1) key else last p)"
  have s: "search1 ub key n (root t) = Match p (butlast p) index"
    using search1_cases [OF assms refl, of ub] Some by (simp add: index_def)
  obtain n2 where n2: "(if is_leaf (node_at n1 p) then modify (butlast p) (set_child index Null) n1 else Some n1) = Some n2"
    "tmap n2 = tmap n1" "n2 \<noteq> Null" "\<And>q. node_at n2 q \<noteq> Null \<Longrightarrow> node_at n1 q \<noteq> Null"
  proof (cases "is_leaf (node_at n1 p)")
    case True
    then show ?thesis using prune [OF n1(3,5) True n1(6) refl, of index] that by (auto simp: index_def)
  qed (use n1(3) that in auto)
  have "trie1_remove ub key n t = Some (content t p, t\<lparr>root := n2, nElements := nElements t - 1\<rparr>)"
    using s n1(1) n2(1) by (simp add: trie1_remove_def content_def tmap_node_at)
  moreover have "trie_ok (t\<lparr>root := n2, nElements := nElements t - 1\<rparr>)"
    using n2 n1(4,7) assms(1) by (auto simp: trie_ok_def content_def)
  ultimately show ?thesis using Some n1(2) n2(2) by (simp add: spec_remove_def content_def)
qed


section \<open>The interface of a trie\<close>

text \<open>
  The virtual methods of class \<open>Trie\<close>, with the map of prefixes as what they promise.
\<close>

locale prefix_trie =
  fixes ok :: "'t \<Rightarrow> bool" and cont :: "'t \<Rightarrow> bool list \<Rightarrow> 'd option" and elements :: "'t \<Rightarrow> int"
    and ins :: "u32 \<Rightarrow> int \<Rightarrow> 'd \<Rightarrow> bool \<Rightarrow> 't \<Rightarrow> ('d option \<times> 't) option"
    and rem :: "u32 \<Rightarrow> int \<Rightarrow> 't \<Rightarrow> ('d option \<times> 't) option"
    and look :: "'t \<Rightarrow> u32 \<Rightarrow> 'd option" and dflt :: "'t \<Rightarrow> 'd option"
  assumes ins: "ok t \<Longrightarrow> 0 \<le> n \<Longrightarrow> n \<le> 32 \<Longrightarrow>
      \<exists>t1. ins key n x rep t = Some (fst (spec_insert (take (nat n) (ip_bits key)) x rep (cont t)), t1) \<and>
        ok t1 \<and> cont t1 = snd (spec_insert (take (nat n) (ip_bits key)) x rep (cont t))"
    and rem: "ok t \<Longrightarrow> 0 \<le> n \<Longrightarrow> n \<le> 32 \<Longrightarrow>
      \<exists>t1. rem key n t = Some (fst (spec_remove (take (nat n) (ip_bits key)) (cont t)), t1) \<and>
        ok t1 \<and> cont t1 = snd (spec_remove (take (nat n) (ip_bits key)) (cont t))"
    and look: "ok t \<Longrightarrow> look t key = spec_lookup (ip_bits key) (cont t)"
    and dflt: "ok t \<Longrightarrow> dflt t = cont t []"
    and elements: "ok t \<Longrightarrow> elements t = int (card (dom (cont t)))"
begin

text \<open>
  An insertion that finds no shorter entry on its way adds or replaces exactly the entry of its prefix.
\<close>

lemma insert_exact:
  assumes "ok t" "pf_ok p" "\<And>q. strict_prefix q (pf_bits p) \<Longrightarrow> cont t q = None"
  shows "\<exists>t1. ins (pf_addr p) (pf_len p) x True t = Some (cont t (pf_bits p), t1) \<and> ok t1 \<and>
    cont t1 = (cont t)(pf_bits p \<mapsto> x)"
proof -
  have "spec_insert (pf_bits p) x True (cont t) = (cont t (pf_bits p), (cont t)(pf_bits p \<mapsto> x))"
    by (rule spec_insert_exact [OF assms(3)])
  moreover have "0 \<le> pf_len p" "pf_len p \<le> 32" using assms(2) by (simp_all add: pf_ok_def)
  ultimately show ?thesis using ins [OF assms(1), of "pf_len p" "pf_addr p" x True] by (simp add: pf_bits_def)
qed

text \<open>A lookup finds the longest prefix that contains the address.\<close>

lemma look_longest:
  assumes "ok t"
  shows "(look t ip = None \<longleftrightarrow> (\<forall>q. prefix q (ip_bits ip) \<longrightarrow> cont t q = None)) \<and>
    (\<forall>x. look t ip = Some x \<longrightarrow> (\<exists>p. prefix p (ip_bits ip) \<and> cont t p = Some x \<and>
       (\<forall>q. prefix q (ip_bits ip) \<and> cont t q \<noteq> None \<longrightarrow> prefix q p)))"
proof (cases "best (cont t) (ip_bits ip)")
  case None
  then show ?thesis using look [OF assms] best_NoneD [OF None] by (simp add: spec_lookup_def)
next
  case (Some p)
  have "look t ip = cont t p" using look [OF assms] Some by (simp add: spec_lookup_def)
  then show ?thesis using best_SomeD [OF Some] by auto
qed

end

lemma trie_default_size:
  "trie_getDefault t = content t []" "trie_ok t \<Longrightarrow> nElements t = int (card (dom (content t)))"
  by (simp_all add: trie_getDefault_def content_def tmap_node_at trie_ok_def)

interpretation simple: prefix_trie trie_ok content nElements "trie1_insert ub" "trie1_remove ub" trie1_lookup trie_getDefault for ub
  by unfold_locales (simp_all add: trie1_insert_spec trie1_remove_spec trie_lookup_spec trie_default_size)

interpretation original: prefix_trie trie_ok content nElements "trie0_insert ub" "trie0_remove ub" trie0_lookup trie_getDefault for ub
  by unfold_locales (simp_all add: trie0_insert_eq trie1_insert_spec trie0_remove_spec trie_lookup_spec trie_default_size)


text \<open>
  C7. A trie is a map from prefixes.  The trie that the forwarding table uses by default never fails an
  assertion for prefixes of 0 to 32 bits, keeps its invariant, counts its entries, and behaves as the
  map of its prefixes under insertion, removal and lookup: a lookup is by the longest prefix, and
  insertion and removal act on the longest entry that is a prefix of their key.  No result depends on
  what the machine computes for a shift by 32.
\<close>

theorem trie1_refines_map:
  assumes "trie_ok t" "0 \<le> n" "n \<le> 32" "ks = take (nat n) (ip_bits key)"
  shows "(\<exists>t1. trie1_insert ub key n x replace t = Some (fst (spec_insert ks x replace (content t)), t1) \<and>
       trie_ok t1 \<and> content t1 = snd (spec_insert ks x replace (content t))) \<and>
    (\<exists>t1. trie1_remove ub key n t = Some (fst (spec_remove ks (content t)), t1) \<and>
       trie_ok t1 \<and> content t1 = snd (spec_remove ks (content t))) \<and>
    trie1_lookup t key = spec_lookup (ip_bits key) (content t) \<and>
    trie_getDefault t = content t [] \<and> nElements t = int (card (dom (content t)))"
  using simple.ins [OF assms(1-3), of ub key x replace] simple.rem [OF assms(1-3), of ub key]
    simple.look [OF assms(1), of key] simple.dflt [OF assms(1)] simple.elements [OF assms(1)]
  by (simp add: assms(4))

theorem trie1_refines_map_witness:
  "\<exists>t1. trie1_insert 0 0x0A000000 8 (7 :: nat) True new_trie = Some (None, t1) \<and>
     content t1 = [[False, False, False, False, True, False, True, False] \<mapsto> 7]"
proof -
  have "take 8 (ip_bits 0x0A000000) = [False, False, False, False, True, False, True, False]" by code_simp
  then show ?thesis
    using trie1_refines_map [OF new_trie_ok(2) _ _ refl, of 8 0 "0x0A000000" "7 :: nat" True]
    by (simp add: spec_insert_def new_trie_ok) blast
qed

end
