(* ===== verification/Net_Cache.thy ===== *)
theory Net_Cache
  imports Net_Trie
begin

text \<open>
  Routes and the route caches in front of the forwarding table (\<open>src/full/s3fnet/src/net/route_caches\<close>,
  \<open>net/forwardingtable.h\<close>).  A route is an object in a heap; a cache holds addresses of routes.  The locale
  \<open>route_cache\<close> is the interface of class \<open>RouteCache\<close>.
\<close>


section \<open>Routes\<close>

record RouteInfo =
  destination :: IPPrefix
  next_hop :: u32
  nic :: nat
  cost :: int
  protocol :: int
  resolved :: bool

definition route_eq :: "RouteInfo \<Rightarrow> RouteInfo \<Rightarrow> bool option" where
  "route_eq a b = map_option (\<lambda>e. e \<and> next_hop a = next_hop b \<and> nic a = nic b \<and> cost a = cost b \<and>
     protocol a = protocol b \<and> resolved a = resolved b) (prefix_eq (destination a) (destination b))"


section \<open>Caches\<close>

record cache0 =
  cached_addr :: u32
  cached_route :: "nat option"

definition new_cache0 :: cache0 where
  "new_cache0 = \<lparr>cached_addr = IPADDR_INVALID, cached_route = None\<rparr>"

definition cache0_lookup :: "cache0 \<Rightarrow> u32 \<Rightarrow> nat option" where
  "cache0_lookup c ipaddr = (if cached_route c \<noteq> None \<and> cached_addr c = ipaddr then cached_route c else None)"

definition cache0_update :: "cache0 \<Rightarrow> u32 \<Rightarrow> nat \<Rightarrow> cache0" where
  "cache0_update c ipaddr route =
     (if ipaddr \<noteq> IPADDR_INVALID then c\<lparr>cached_addr := ipaddr, cached_route := Some route\<rparr> else c)"

definition cache0_invalidate :: "cache0 \<Rightarrow> cache0" where
  "cache0_invalidate c =
     (if cached_addr c \<noteq> IPADDR_INVALID then c\<lparr>cached_addr := IPADDR_INVALID, cached_route := None\<rparr> else c)"

text \<open>The direct-mapped cache; an entry that is not valid holds what the memory held.  The counter \<open>ce_ctr\<close> is a
  field of the entries of the associative cache only and is never read here.\<close>

record cache_entry =
  ce_valid :: bool
  ce_ipaddr :: u32
  ce_route :: nat
  ce_ctr :: u8

type_synonym cache1 = "cache_entry list"

definition cache_index :: "u32 \<Rightarrow> u32 \<Rightarrow> nat" where
  "cache_index msk ipaddr = unat (ipaddr AND msk)"

definition cache1_lookup :: "cache1 \<Rightarrow> u32 \<Rightarrow> nat option" where
  "cache1_lookup c ipaddr =
     (let rce = c ! cache_index 0xff ipaddr in
      if ce_valid rce \<and> ce_ipaddr rce = ipaddr then Some (ce_route rce) else None)"

definition cache1_update :: "cache1 \<Rightarrow> u32 \<Rightarrow> nat \<Rightarrow> cache1" where
  "cache1_update c ipaddr route =
     (if ipaddr \<noteq> IPADDR_INVALID
      then c[cache_index 0xff ipaddr := \<lparr>ce_valid = True, ce_ipaddr = ipaddr, ce_route = route, ce_ctr = 0\<rparr>]
      else c)"

definition cache1_invalidate :: "cache1 \<Rightarrow> cache1" where
  "cache1_invalidate c = map (\<lambda>e. e\<lparr>ce_valid := False\<rparr>) c"

text \<open>
  The associative cache.  \<open>foundInvalid\<close> and \<open>lowestCtr\<close> are read before they are set; \<open>junk\<close> is what
  the stack held.  In its loop over the further ways the pointer still designates the first one.
\<close>

record cache2 =
  mData :: "cache_entry list"
  mEvictor :: "nat list"

definition cache2_scan :: "cache_entry \<Rightarrow> u32 \<Rightarrow> nat \<Rightarrow> bool \<times> nat \<times> u8 \<Rightarrow> nat option \<times> bool \<times> nat \<times> u8" where
  "cache2_scan rce ipaddr i st =
     (case st of (foundInvalid, target, lowestCtr) \<Rightarrow>
        if ce_valid rce \<and> ce_ipaddr rce = ipaddr then (Some (ce_route rce), st)
        else let st1 = (if \<not> ce_valid rce \<and> \<not> foundInvalid then (True, i, lowestCtr) else st) in
             case st1 of (foundInvalid, target, lowestCtr) \<Rightarrow>
               (None, if \<not> foundInvalid \<and> ce_ctr rce < lowestCtr then (foundInvalid, i, ce_ctr rce) else st1))"

definition cache2_lookup :: "bool \<times> u8 \<Rightarrow> cache2 \<Rightarrow> u32 \<Rightarrow> nat option \<times> cache2" where
  "cache2_lookup junk c ipaddr =
     (let way = cache_index 0x7f ipaddr; rce = mData c ! (2 * way) in
      if ce_valid rce \<and> ce_ipaddr rce = ipaddr then (Some (ce_route rce), c)
      else let foundInvalid = (if ce_valid rce then fst junk else True);
               lowestCtr = (if \<not> foundInvalid then ce_ctr rce else snd junk) in
           case cache2_scan rce ipaddr 1 (foundInvalid, 0, lowestCtr) of
             (Some r, foundInvalid, target, lowestCtr) \<Rightarrow>
               (Some r, if foundInvalid then c\<lparr>mEvictor := (mEvictor c)[way := target]\<rparr> else c)
           | (None, foundInvalid, target, lowestCtr) \<Rightarrow> (None, c\<lparr>mEvictor := (mEvictor c)[way := target]\<rparr>))"

definition cache2_update :: "cache2 \<Rightarrow> u32 \<Rightarrow> nat \<Rightarrow> cache2" where
  "cache2_update c ipaddr route =
     (if ipaddr \<noteq> IPADDR_INVALID
      then let way = cache_index 0x7f ipaddr; index = 2 * way + mEvictor c ! way in
           c\<lparr>mData := (mData c)[index := \<lparr>ce_valid = True, ce_ipaddr = ipaddr, ce_route = route, ce_ctr = 0\<rparr>]\<rparr>
      else c)"

definition cache2_invalidate :: "cache2 \<Rightarrow> cache2" where
  "cache2_invalidate c = c\<lparr>mData := map (\<lambda>e. e\<lparr>ce_valid := False\<rparr>) (mData c)\<rparr>"

definition new_cache1 :: "(nat \<Rightarrow> cache_entry) \<Rightarrow> cache1" where
  "new_cache1 junk = map (\<lambda>i. (junk i)\<lparr>ce_valid := False\<rparr>) [0 ..< 256]"

definition new_cache2 :: "(nat \<Rightarrow> cache_entry) \<Rightarrow> cache2" where
  "new_cache2 junk = \<lparr>mData = map (\<lambda>i. (junk i)\<lparr>ce_valid := False\<rparr>) [0 ..< 256], mEvictor = replicate 128 0\<rparr>"

datatype RouteCache = No_cache | Cache0 cache0 | Cache1 cache1 | Cache2 cache2

definition cache_lookup :: "bool \<times> u8 \<Rightarrow> RouteCache \<Rightarrow> u32 \<Rightarrow> nat option \<times> RouteCache" where
  "cache_lookup junk mCache ipaddr =
     (case mCache of
        No_cache \<Rightarrow> (None, No_cache)
      | Cache0 c \<Rightarrow> (cache0_lookup c ipaddr, Cache0 c)
      | Cache1 c \<Rightarrow> (cache1_lookup c ipaddr, Cache1 c)
      | Cache2 c \<Rightarrow> (let (r, c1) = cache2_lookup junk c ipaddr in (r, Cache2 c1)))"

definition cache_update :: "RouteCache \<Rightarrow> u32 \<Rightarrow> nat \<Rightarrow> RouteCache" where
  "cache_update mCache ipaddr route =
     (case mCache of
        No_cache \<Rightarrow> No_cache
      | Cache0 c \<Rightarrow> Cache0 (cache0_update c ipaddr route)
      | Cache1 c \<Rightarrow> Cache1 (cache1_update c ipaddr route)
      | Cache2 c \<Rightarrow> Cache2 (cache2_update c ipaddr route))"

definition cache_invalidate :: "RouteCache \<Rightarrow> RouteCache" where
  "cache_invalidate mCache =
     (case mCache of
        No_cache \<Rightarrow> No_cache
      | Cache0 c \<Rightarrow> Cache0 (cache0_invalidate c)
      | Cache1 c \<Rightarrow> Cache1 (cache1_invalidate c)
      | Cache2 c \<Rightarrow> Cache2 (cache2_invalidate c))"


section \<open>What a cache promises\<close>

text \<open>
  The virtual methods of class \<open>RouteCache\<close>: \<open>holds c ip r\<close> says that a cache may answer \<open>r\<close> for \<open>ip\<close>.
\<close>

locale route_cache =
  fixes cok :: "'c \<Rightarrow> bool" and holds :: "'c \<Rightarrow> u32 \<Rightarrow> nat \<Rightarrow> bool"
    and look :: "'c \<Rightarrow> u32 \<Rightarrow> nat option \<times> 'c" and upd :: "'c \<Rightarrow> u32 \<Rightarrow> nat \<Rightarrow> 'c" and inval :: "'c \<Rightarrow> 'c"
  assumes look_hit: "cok c \<Longrightarrow> fst (look c ip) = Some r \<Longrightarrow> holds c ip r"
    and look_keeps: "cok c \<Longrightarrow> cok (snd (look c ip)) \<and> (holds (snd (look c ip)) i r \<longrightarrow> holds c i r)"
    and upd: "cok c \<Longrightarrow> cok (upd c ip r) \<and> (holds (upd c ip r) i q \<longrightarrow> holds c i q \<or> i = ip \<and> q = r)"
    and inval: "cok c \<Longrightarrow> cok (inval c) \<and> \<not> holds (inval c) i r"
begin

text \<open>A cache is coherent with the routes \<open>f\<close> if it holds nothing else.\<close>

definition coherent :: "'c \<Rightarrow> (u32 \<Rightarrow> nat option) \<Rightarrow> bool" where
  "coherent c f \<longleftrightarrow> cok c \<and> (\<forall>i r. holds c i r \<longrightarrow> f i = Some r)"

lemma coherent_inval: "coherent c f \<Longrightarrow> coherent (inval c) g"
  using inval by (auto simp: coherent_def)

lemma coherent_look:
  assumes "coherent c f"
  shows "(fst (look c ip) \<noteq> None \<longrightarrow> fst (look c ip) = f ip) \<and> coherent (snd (look c ip)) f \<and>
    (\<forall>r. f ip = Some r \<longrightarrow> coherent (upd (snd (look c ip)) ip r) f)"
proof -
  have c: "coherent (snd (look c ip)) f" using assms look_keeps unfolding coherent_def by blast
  then have "coherent (upd (snd (look c ip)) ip r) f" if "f ip = Some r" for r
    using that upd unfolding coherent_def by blast
  moreover have "fst (look c ip) = f ip" if hit: "fst (look c ip) \<noteq> None"
  proof -
    obtain r where r: "fst (look c ip) = Some r" using hit by blast
    then have "holds c ip r" using assms look_hit [of c ip r] by (simp add: coherent_def)
    then show ?thesis using assms r by (simp add: coherent_def)
  qed
  ultimately show ?thesis using c by blast
qed

end

definition cache0_ok :: "cache0 \<Rightarrow> bool" where
  "cache0_ok c \<longleftrightarrow> (cached_addr c = IPADDR_INVALID \<longrightarrow> cached_route c = None)"

definition cache0_holds :: "cache0 \<Rightarrow> u32 \<Rightarrow> nat \<Rightarrow> bool" where
  "cache0_holds c ip r \<longleftrightarrow> cached_route c = Some r \<and> cached_addr c = ip"

interpretation single: route_cache cache0_ok cache0_holds "\<lambda>c ip. (cache0_lookup c ip, c)" cache0_update cache0_invalidate
proof
  fix c ip r assume "fst (cache0_lookup c ip, c) = Some r"
  then show "cache0_holds c ip r" by (simp add: cache0_holds_def cache0_lookup_def split: if_splits)
next
  fix c ip r i q assume "cache0_ok c"
  then show "cache0_ok (cache0_update c ip r) \<and> (cache0_holds (cache0_update c ip r) i q \<longrightarrow> cache0_holds c i q \<or> i = ip \<and> q = r)"
    by (simp add: cache0_ok_def cache0_holds_def cache0_update_def)
qed (simp_all add: cache0_ok_def cache0_holds_def cache0_invalidate_def)

text \<open>The entries of an array that are valid.\<close>

definition entries_hold :: "cache_entry list \<Rightarrow> u32 \<Rightarrow> nat \<Rightarrow> bool" where
  "entries_hold es ip r \<longleftrightarrow> (\<exists>e \<in> set es. ce_valid e \<and> ce_ipaddr e = ip \<and> ce_route e = r)"

lemma entries_hold_update:
  "entries_hold (es[k := \<lparr>ce_valid = True, ce_ipaddr = i, ce_route = q, ce_ctr = n\<rparr>]) ip r \<longrightarrow>
   entries_hold es ip r \<or> ip = i \<and> r = q"
  using set_update_subset_insert [of es k "\<lparr>ce_valid = True, ce_ipaddr = i, ce_route = q, ce_ctr = n\<rparr>"]
  by (auto simp: entries_hold_def)

lemma entries_hold_invalid: "\<not> entries_hold (map (\<lambda>e. e\<lparr>ce_valid := False\<rparr>) es) ip r"
  by (auto simp: entries_hold_def)

lemma entries_hold_nth: "k < length es \<Longrightarrow> ce_valid (es ! k) \<Longrightarrow> entries_hold es (ce_ipaddr (es ! k)) (ce_route (es ! k))"
  by (auto simp: entries_hold_def)

lemma cache_index_less: "cache_index 0xff ip < 256" "cache_index 0x7f ip < 128"
proof -
  have "unat (ip AND 0xff) \<le> 0xff" "unat (ip AND 0x7f) \<le> 0x7f"
    using word_and_le1 [of ip "0xff :: u32"] word_and_le1 [of ip "0x7f :: u32"] by (simp_all add: word_le_nat_alt)
  then show "cache_index 0xff ip < 256" "cache_index 0x7f ip < 128" by (simp_all add: cache_index_def)
qed

definition cache1_ok :: "cache1 \<Rightarrow> bool" where
  "cache1_ok c \<longleftrightarrow> length c = 256"

interpretation direct: route_cache cache1_ok entries_hold "\<lambda>c ip. (cache1_lookup c ip, c)" cache1_update cache1_invalidate
proof
  fix c ip r assume "cache1_ok c" "fst (cache1_lookup c ip, c) = Some r"
  then show "entries_hold c ip r" using entries_hold_nth [of "cache_index 0xff ip" c] cache_index_less(1) [of ip]
    by (auto simp: cache1_lookup_def cache1_ok_def Let_def split: if_splits)
next
  fix c ip r i q assume "cache1_ok c"
  then show "cache1_ok (cache1_update c ip r) \<and> (entries_hold (cache1_update c ip r) i q \<longrightarrow> entries_hold c i q \<or> i = ip \<and> q = r)"
    using entries_hold_update [of c _ ip r 0 i q] by (simp add: cache1_update_def cache1_ok_def)
qed (auto simp: cache1_ok_def cache1_invalidate_def entries_hold_invalid)

definition cache2_ok :: "cache2 \<Rightarrow> bool" where
  "cache2_ok c \<longleftrightarrow> length (mData c) = 256 \<and> mEvictor c = replicate 128 0"

definition cache2_holds :: "cache2 \<Rightarrow> u32 \<Rightarrow> nat \<Rightarrow> bool" where
  "cache2_holds c ip r \<longleftrightarrow> entries_hold (mData c) ip r"

text \<open>A lookup in the associative cache only ever looks at the first way, and evicts only the first way.\<close>

lemma cache2_lookup_cases:
  assumes "cache2_ok c"
  shows "cache2_lookup junk c ip =
    (let rce = mData c ! (2 * cache_index 0x7f ip) in
     (if ce_valid rce \<and> ce_ipaddr rce = ip then Some (ce_route rce) else None, c))"
proof -
  have "(replicate 128 (0 :: nat))[cache_index 0x7f ip := 0] = replicate 128 0"
    using list_update_id [of "replicate 128 (0 :: nat)" "cache_index 0x7f ip"] cache_index_less(2) [of ip] by simp
  then have "c\<lparr>mEvictor := (mEvictor c)[cache_index 0x7f ip := 0]\<rparr> = c" using assms by (simp add: cache2_ok_def)
  then show ?thesis by (auto simp: cache2_lookup_def cache2_scan_def Let_def)
qed

interpretation associative: route_cache cache2_ok cache2_holds "cache2_lookup junk" cache2_update cache2_invalidate for junk
proof
  fix c ip r assume c: "cache2_ok c" and hit: "fst (cache2_lookup junk c ip) = Some r"
  let ?k = "2 * cache_index 0x7f ip"
  have "?k < length (mData c)" using c cache_index_less(2) [of ip] by (simp add: cache2_ok_def)
  then show "cache2_holds c ip r" using hit entries_hold_nth [of ?k "mData c"]
    by (auto simp: cache2_lookup_cases [OF c] cache2_holds_def Let_def split: if_splits)
next
  fix c ip i r assume "cache2_ok c"
  then show "cache2_ok (snd (cache2_lookup junk c ip)) \<and> (cache2_holds (snd (cache2_lookup junk c ip)) i r \<longrightarrow> cache2_holds c i r)"
    by (simp add: cache2_lookup_cases Let_def)
next
  fix c ip r i q assume "cache2_ok c"
  then show "cache2_ok (cache2_update c ip r) \<and> (cache2_holds (cache2_update c ip r) i q \<longrightarrow> cache2_holds c i q \<or> i = ip \<and> q = r)"
    using entries_hold_update [of "mData c" _ ip r 0 i q] by (simp add: cache2_update_def cache2_ok_def cache2_holds_def Let_def)
qed (auto simp: cache2_ok_def cache2_holds_def cache2_invalidate_def entries_hold_invalid)

fun cache_ok :: "RouteCache \<Rightarrow> bool" where
  "cache_ok No_cache = True"
| "cache_ok (Cache0 c) = cache0_ok c"
| "cache_ok (Cache1 c) = cache1_ok c"
| "cache_ok (Cache2 c) = cache2_ok c"

fun cache_holds :: "RouteCache \<Rightarrow> u32 \<Rightarrow> nat \<Rightarrow> bool" where
  "cache_holds No_cache ip r = False"
| "cache_holds (Cache0 c) ip r = cache0_holds c ip r"
| "cache_holds (Cache1 c) ip r = entries_hold c ip r"
| "cache_holds (Cache2 c) ip r = cache2_holds c ip r"

interpretation cache: route_cache cache_ok cache_holds "cache_lookup junk" cache_update cache_invalidate for junk
proof
  fix c ip r assume h: "cache_ok c" "fst (cache_lookup junk c ip) = Some r"
  show "cache_holds c ip r"
  proof (cases c)
    case (Cache0 x)
    then show ?thesis using h single.look_hit [of x ip r] by (simp add: cache_lookup_def)
  next
    case (Cache1 x)
    then show ?thesis using h direct.look_hit [of x ip r] by (simp add: cache_lookup_def)
  next
    case (Cache2 x)
    then show ?thesis using h associative.look_hit [of x junk ip r] by (simp add: cache_lookup_def split: prod.splits)
  qed (use h in \<open>simp add: cache_lookup_def\<close>)
next
  fix c ip i r assume h: "cache_ok c"
  show "cache_ok (snd (cache_lookup junk c ip)) \<and> (cache_holds (snd (cache_lookup junk c ip)) i r \<longrightarrow> cache_holds c i r)"
  proof (cases c)
    case (Cache2 x)
    then show ?thesis using h associative.look_keeps [of x junk ip i r]
      by (cases "cache2_lookup junk x ip") (simp add: cache_lookup_def)
  qed (use h in \<open>simp_all add: cache_lookup_def\<close>)
next
  fix c ip r i q assume h: "cache_ok c"
  show "cache_ok (cache_update c ip r) \<and> (cache_holds (cache_update c ip r) i q \<longrightarrow> cache_holds c i q \<or> i = ip \<and> q = r)"
  proof (cases c)
    case (Cache0 x)
    then show ?thesis using h single.upd [of x ip r i q] by (simp add: cache_update_def)
  next
    case (Cache1 x)
    then show ?thesis using h direct.upd [of x ip r i q] by (simp add: cache_update_def)
  next
    case (Cache2 x)
    then show ?thesis using h associative.upd [of x ip r i q] by (simp add: cache_update_def)
  qed (simp add: cache_update_def)
next
  fix c i r assume h: "cache_ok c"
  show "cache_ok (cache_invalidate c) \<and> \<not> cache_holds (cache_invalidate c) i r"
  proof (cases c)
    case (Cache0 x)
    then show ?thesis using h single.inval [of x i r] by (simp add: cache_invalidate_def)
  next
    case (Cache1 x)
    then show ?thesis using h direct.inval [of x i r] by (simp add: cache_invalidate_def)
  next
    case (Cache2 x)
    then show ?thesis using h associative.inval [of x i r] by (simp add: cache_invalidate_def)
  qed (simp add: cache_invalidate_def)
qed

end
