(* ===== verification/Net_Forwarding.thy ===== *)
theory Net_Forwarding
  imports Net_Cache
begin

text \<open>
  The forwarding table of a simulated host (\<open>src/full/s3fnet/src/net/forwardingtable.cc\<close>).  Routes are
  objects in a heap; the trie and the cache hold their addresses.  The calls of the listeners, a set ordered
  by address, are recorded in the order in which they are made.
\<close>


section \<open>The forwarding table\<close>

datatype any_trie = Trie0 "nat trie" | Trie1 "nat trie"

definition trie_insert :: "u32 \<Rightarrow> u32 \<Rightarrow> int \<Rightarrow> nat \<Rightarrow> bool \<Rightarrow> any_trie \<Rightarrow> (nat option \<times> any_trie) option" where
  "trie_insert ub key nBits data replace mTrie =
     (case mTrie of
        Trie0 t \<Rightarrow> map_option (\<lambda>(r, t). (r, Trie0 t)) (trie0_insert ub key nBits data replace t)
      | Trie1 t \<Rightarrow> map_option (\<lambda>(r, t). (r, Trie1 t)) (trie1_insert ub key nBits data replace t))"

definition trie_remove :: "u32 \<Rightarrow> u32 \<Rightarrow> int \<Rightarrow> any_trie \<Rightarrow> (nat option \<times> any_trie) option" where
  "trie_remove ub key nBits mTrie =
     (case mTrie of
        Trie0 t \<Rightarrow> map_option (\<lambda>(r, t). (r, Trie0 t)) (trie0_remove ub key nBits t)
      | Trie1 t \<Rightarrow> map_option (\<lambda>(r, t). (r, Trie1 t)) (trie1_remove ub key nBits t))"

definition trie_lookup :: "any_trie \<Rightarrow> u32 \<Rightarrow> nat option" where
  "trie_lookup mTrie key = (case mTrie of Trie0 t \<Rightarrow> trie0_lookup t key | Trie1 t \<Rightarrow> trie1_lookup t key)"

definition trie_default :: "any_trie \<Rightarrow> nat option" where
  "trie_default mTrie = (case mTrie of Trie0 t \<Rightarrow> trie_getDefault t | Trie1 t \<Rightarrow> trie_getDefault t)"

datatype fib_ctrl = IP_CTRL_FIB_ADDROUTE | IP_CTRL_FIB_DELROUTE

record ForwardingTable =
  mTrie :: any_trie
  mCache :: RouteCache
  listeners :: "nat set"
  route_heap :: "nat \<Rightarrow> RouteInfo option"
  controls :: "(nat \<times> fib_ctrl \<times> nat) list"

datatype ft_code = FT_ROUTE_SUCCESS | FT_ROUTE_OVERWRITTEN | FT_ROUTE_NOT_REPLACED | FT_ROUTE_NOT_FOUND

text \<open>
  The constructor.  The version -1 stands for the default, and an invalid version falls back to it.  The
  tries \<open>PREFIX\<close>, \<open>UNORDERED_PREFIX\<close> and \<open>ARRAY_BACKED\<close> (versions 2 to 4) are outside of the model, and a
  table with one of them is \<open>None\<close>.
\<close>

abbreviation (input) ORIGINAL :: int where "ORIGINAL \<equiv> 0"
abbreviation (input) SIMPLE :: int where "SIMPLE \<equiv> 1"
abbreviation (input) PREFIX :: int where "PREFIX \<equiv> 2"
abbreviation (input) UNORDERED_PREFIX :: int where "UNORDERED_PREFIX \<equiv> 3"
abbreviation (input) ARRAY_BACKED :: int where "ARRAY_BACKED \<equiv> 4"
abbreviation (input) SINGLE_ENTRY :: int where "SINGLE_ENTRY \<equiv> 0"
abbreviation (input) DIRECT_MAPPED :: int where "DIRECT_MAPPED \<equiv> 1"
abbreviation (input) ASSOCIATIVE :: int where "ASSOCIATIVE \<equiv> 2"
abbreviation (input) NONE :: int where "NONE \<equiv> 255"

definition DEFAULT_TRIE_VERSION :: int where "DEFAULT_TRIE_VERSION = SIMPLE"
definition DEFAULT_CACHE_VERSION :: int where "DEFAULT_CACHE_VERSION = SINGLE_ENTRY"

definition new_mTrie :: "int \<Rightarrow> any_trie option" where
  "new_mTrie trie_version =
     (let v = (if trie_version = -1 then DEFAULT_TRIE_VERSION else trie_version);
          v = (if v \<in> {ORIGINAL, SIMPLE, PREFIX, UNORDERED_PREFIX, ARRAY_BACKED} then v else DEFAULT_TRIE_VERSION)
      in if v = ORIGINAL then Some (Trie0 new_trie) else if v = SIMPLE then Some (Trie1 new_trie) else None)"

definition new_mCache :: "int \<Rightarrow> (nat \<Rightarrow> cache_entry) \<Rightarrow> RouteCache" where
  "new_mCache cache_version junk =
     (let v = (if cache_version = -1 then DEFAULT_CACHE_VERSION else cache_version);
          v = (if v \<in> {SINGLE_ENTRY, DIRECT_MAPPED, ASSOCIATIVE, NONE} then v else DEFAULT_CACHE_VERSION)
      in if v = SINGLE_ENTRY then Cache0 new_cache0 else if v = DIRECT_MAPPED then Cache1 (new_cache1 junk)
         else if v = ASSOCIATIVE then Cache2 (new_cache2 junk) else No_cache)"

definition new_ForwardingTable :: "int \<Rightarrow> int \<Rightarrow> (nat \<Rightarrow> cache_entry) \<Rightarrow> (nat \<Rightarrow> RouteInfo option) \<Rightarrow>
    ForwardingTable option" where
  "new_ForwardingTable trie_version cache_version junk heap =
     map_option (\<lambda>t. \<lparr>mTrie = t, mCache = new_mCache cache_version junk, listeners = {}, route_heap = heap, controls = []\<rparr>)
       (new_mTrie trie_version)"

text \<open>Deleting an object twice, and any use of a deleted one, is \<open>None\<close>.\<close>

definition delete_route :: "nat \<Rightarrow> ForwardingTable \<Rightarrow> ForwardingTable option" where
  "delete_route a s = (if route_heap s a = None then None else Some (s\<lparr>route_heap := (route_heap s)(a := None)\<rparr>))"

definition addRoute :: "u32 \<Rightarrow> nat \<Rightarrow> bool \<Rightarrow> ForwardingTable \<Rightarrow> (ft_code \<times> ForwardingTable) option" where
  "addRoute ub route replace s =
     (case route_heap s route of
        None \<Rightarrow> None
      | Some ri \<Rightarrow>
          let s1 = s\<lparr>mCache := cache_invalidate (mCache s)\<rparr> in
          (case trie_insert ub (pf_addr (destination ri)) (pf_len (destination ri)) route replace (mTrie s1) of
             None \<Rightarrow> None
           | Some (None, t) \<Rightarrow>
               Some (FT_ROUTE_SUCCESS, s1\<lparr>mTrie := t,
                 controls := controls s1 @ map (\<lambda>l. (l, IP_CTRL_FIB_ADDROUTE, route)) (sorted_list_of_set (listeners s1))\<rparr>)
           | Some (Some conflict, t) \<Rightarrow>
               if replace
               then map_option (Pair FT_ROUTE_OVERWRITTEN)
                      (delete_route conflict (s1\<lparr>mTrie := t, controls := controls s1 @ concat (map (\<lambda>l.
                         [(l, IP_CTRL_FIB_DELROUTE, conflict), (l, IP_CTRL_FIB_ADDROUTE, route)]) (sorted_list_of_set (listeners s1)))\<rparr>))
               else if conflict = route
               then map_option (Pair FT_ROUTE_NOT_REPLACED) (delete_route conflict (s1\<lparr>mTrie := t\<rparr>))
               else None))"

definition removeRoute :: "u32 \<Rightarrow> nat \<Rightarrow> ForwardingTable \<Rightarrow> (ft_code \<times> ForwardingTable) option" where
  "removeRoute ub route s =
     (case route_heap s route of
        None \<Rightarrow> None
      | Some ri \<Rightarrow>
          let s1 = s\<lparr>mCache := cache_invalidate (mCache s)\<rparr> in
          (case trie_remove ub (pf_addr (destination ri)) (pf_len (destination ri)) (mTrie s1) of
             None \<Rightarrow> None
           | Some (None, t) \<Rightarrow> map_option (Pair FT_ROUTE_NOT_FOUND) (delete_route route (s1\<lparr>mTrie := t\<rparr>))
           | Some (Some old, t) \<Rightarrow>
               let s2 = s1\<lparr>mTrie := t\<rparr> in
               (case route_heap s2 old of
                  None \<Rightarrow> None
                | Some oi \<Rightarrow>
                    (case route_eq ri oi of
                       None \<Rightarrow> None
                     | Some False \<Rightarrow>
                         (case addRoute ub old True s2 of
                            None \<Rightarrow> None
                          | Some (_, s3) \<Rightarrow> map_option (Pair FT_ROUTE_SUCCESS) (delete_route route s3))
                     | Some True \<Rightarrow>
                         (case delete_route old (s2\<lparr>controls := controls s2 @
                                 map (\<lambda>l. (l, IP_CTRL_FIB_DELROUTE, old)) (sorted_list_of_set (listeners s2))\<rparr>) of
                            None \<Rightarrow> None
                          | Some s3 \<Rightarrow> map_option (Pair FT_ROUTE_SUCCESS) (delete_route route s3))))))"

definition getRoute :: "bool \<times> u8 \<Rightarrow> u32 \<Rightarrow> ForwardingTable \<Rightarrow> nat option \<times> ForwardingTable" where
  "getRoute junk ipaddr s =
     (case cache_lookup junk (mCache s) ipaddr of
        (Some r, c) \<Rightarrow> (Some r, s\<lparr>mCache := c\<rparr>)
      | (None, c) \<Rightarrow>
          (case trie_lookup (mTrie s) ipaddr of
             None \<Rightarrow> (None, s\<lparr>mCache := c\<rparr>)
           | Some r \<Rightarrow> (Some r, s\<lparr>mCache := cache_update c ipaddr r\<rparr>)))"

definition getDefaultRoute :: "ForwardingTable \<Rightarrow> nat option" where
  "getDefaultRoute s = trie_default (mTrie s)"

definition addListener :: "nat \<Rightarrow> ForwardingTable \<Rightarrow> ForwardingTable" where
  "addListener sess s = s\<lparr>listeners := insert sess (listeners s)\<rparr>"

text \<open>
  \<open>deallocate\<close>, which the destructors of the tries call: the nodes delete their routes, children first.
  The destructor of the table does not get there: the class \<open>Trie\<close> has no virtual destructor, and
  \<open>delete mTrie\<close> is undefined.
\<close>

fun deallocate :: "nat trie_node \<Rightarrow> (nat \<Rightarrow> RouteInfo option) \<Rightarrow> (nat \<Rightarrow> RouteInfo option) option" where
  "deallocate Null h = Some h"
| "deallocate (TrieNode d l r) h =
     (case deallocate l h of
        None \<Rightarrow> None
      | Some h1 \<Rightarrow>
          (case deallocate r h1 of
             None \<Rightarrow> None
           | Some h2 \<Rightarrow>
               (case d of
                  None \<Rightarrow> Some h2
                | Some x \<Rightarrow> if h2 x = None then None else Some (h2(x := None)))))"

text \<open>
  \<open>RouteInfo::resolve\<close>: the address of the interface, and the addresses of all interfaces on its link, or
  \<open>None\<close> without a link.  The result says whether the route is valid; the next hop may have been changed
  even if it is not.
\<close>

fun other_end :: "u32 \<Rightarrow> u32 \<Rightarrow> u32 list \<Rightarrow> u32" where
  "other_end local_ip hop [] = hop"
| "other_end local_ip hop (a # ifaces) = (if a \<noteq> local_ip then a else other_end local_ip a ifaces)"

definition resolve :: "u32 \<Rightarrow> u32 list option \<Rightarrow> RouteInfo \<Rightarrow> bool \<times> RouteInfo" where
  "resolve local_ip link ri =
     (if resolved ri then (True, ri)
      else case link of
        None \<Rightarrow> (False, ri)
      | Some ifaces \<Rightarrow>
          let ri = (if next_hop ri = local_ip then ri\<lparr>next_hop := IPADDR_INVALID\<rparr> else ri) in
          if next_hop ri = IPADDR_INVALID
          then if 2 < length ifaces then (False, ri)
               else (True, ri\<lparr>next_hop := other_end local_ip IPADDR_INVALID ifaces, resolved := True\<rparr>)
          else if next_hop ri \<in> set ifaces then (True, ri\<lparr>resolved := True\<rparr>) else (False, ri))"


section \<open>The table and its routes\<close>

fun any_ok :: "any_trie \<Rightarrow> bool" where
  "any_ok (Trie0 t) = trie_ok t"
| "any_ok (Trie1 t) = trie_ok t"

fun any_content :: "any_trie \<Rightarrow> bool list \<Rightarrow> nat option" where
  "any_content (Trie0 t) = content t"
| "any_content (Trie1 t) = content t"

fun any_elements :: "any_trie \<Rightarrow> int" where
  "any_elements (Trie0 t) = nElements t"
| "any_elements (Trie1 t) = nElements t"

interpretation any: prefix_trie any_ok any_content any_elements "trie_insert ub" "trie_remove ub" trie_lookup trie_default for ub
proof
  fix t :: any_trie and n :: int and key x rep
  assume t: "any_ok t" and n: "0 \<le> n" "n \<le> 32"
  show "\<exists>t1. trie_insert ub key n x rep t = Some (fst (spec_insert (take (nat n) (ip_bits key)) x rep (any_content t)), t1) \<and>
    any_ok t1 \<and> any_content t1 = snd (spec_insert (take (nat n) (ip_bits key)) x rep (any_content t))"
  proof (cases t)
    case (Trie0 u)
    then obtain u1 where "trie0_insert ub key n x rep u = Some (fst (spec_insert (take (nat n) (ip_bits key)) x rep (content u)), u1)"
      "trie_ok u1" "content u1 = snd (spec_insert (take (nat n) (ip_bits key)) x rep (content u))"
      using original.ins [OF _ n, of u ub key x rep] t by auto
    then show ?thesis using Trie0 by (intro exI [of _ "Trie0 u1"]) (simp add: trie_insert_def)
  next
    case (Trie1 u)
    then obtain u1 where "trie1_insert ub key n x rep u = Some (fst (spec_insert (take (nat n) (ip_bits key)) x rep (content u)), u1)"
      "trie_ok u1" "content u1 = snd (spec_insert (take (nat n) (ip_bits key)) x rep (content u))"
      using simple.ins [OF _ n, of u ub key x rep] t by auto
    then show ?thesis using Trie1 by (intro exI [of _ "Trie1 u1"]) (simp add: trie_insert_def)
  qed
  show "\<exists>t1. trie_remove ub key n t = Some (fst (spec_remove (take (nat n) (ip_bits key)) (any_content t)), t1) \<and>
    any_ok t1 \<and> any_content t1 = snd (spec_remove (take (nat n) (ip_bits key)) (any_content t))"
  proof (cases t)
    case (Trie0 u)
    then obtain u1 where "trie0_remove ub key n u = Some (fst (spec_remove (take (nat n) (ip_bits key)) (content u)), u1)"
      "trie_ok u1" "content u1 = snd (spec_remove (take (nat n) (ip_bits key)) (content u))"
      using original.rem [OF _ n, of u ub key] t by auto
    then show ?thesis using Trie0 by (intro exI [of _ "Trie0 u1"]) (simp add: trie_remove_def)
  next
    case (Trie1 u)
    then obtain u1 where "trie1_remove ub key n u = Some (fst (spec_remove (take (nat n) (ip_bits key)) (content u)), u1)"
      "trie_ok u1" "content u1 = snd (spec_remove (take (nat n) (ip_bits key)) (content u))"
      using simple.rem [OF _ n, of u ub key] t by auto
    then show ?thesis using Trie1 by (intro exI [of _ "Trie1 u1"]) (simp add: trie_remove_def)
  qed
next
  fix t key assume "any_ok t"
  then show "trie_lookup t key = spec_lookup (ip_bits key) (any_content t)"
    by (cases t) (simp_all add: trie_lookup_def trie_lookup_spec)
next
  fix t assume "any_ok t"
  then show "trie_default t = any_content t []" "any_elements t = int (card (dom (any_content t)))"
    by (cases t; simp add: trie_default_def trie_default_size)+
qed

text \<open>
  The routes of a table are allocated, have prefixes of 0 to 32 bits, and each is stored once.
\<close>

definition routes_ok :: "(bool list \<Rightarrow> nat option) \<Rightarrow> (nat \<Rightarrow> RouteInfo option) \<Rightarrow> bool" where
  "routes_ok m h \<longleftrightarrow> (\<forall>p r. m p = Some r \<longrightarrow> (\<exists>ri. h r = Some ri \<and> pf_ok (destination ri))) \<and>
     (\<forall>p q r. m p = Some r \<and> m q = Some r \<longrightarrow> p = q)"

definition free_conflict :: "nat option \<Rightarrow> (nat \<Rightarrow> RouteInfo option) \<Rightarrow> (nat \<Rightarrow> RouteInfo option)" where
  "free_conflict c h = (case c of None \<Rightarrow> h | Some x \<Rightarrow> h(x := None))"

lemma routes_ok_free: "routes_ok m h \<Longrightarrow> r \<notin> ran m \<Longrightarrow> routes_ok m (h(r := None))"
  unfolding routes_ok_def by (metis fun_upd_apply ranI)

lemma routes_ok_drop: "routes_ok m h \<Longrightarrow> routes_ok (m(p := None)) h"
  unfolding routes_ok_def by (simp add: fun_upd_apply)

lemma routes_ok_add:
  "routes_ok m h \<Longrightarrow> h r = Some ri \<Longrightarrow> pf_ok (destination ri) \<Longrightarrow> r \<notin> ran m \<Longrightarrow> routes_ok (m(p \<mapsto> r)) h"
  unfolding routes_ok_def by (simp add: fun_upd_apply ran_def)

lemma routes_ok_insert:
  assumes ok: "routes_ok m h" and r: "h route = Some ri" "pf_ok (destination ri)" "route \<notin> ran m"
    and c: "spec_insert ks route rep m = (c, m1)"
  shows "routes_ok m1 (free_conflict c h) \<and> (\<forall>x. c = Some x \<longrightarrow> h x \<noteq> None \<and> (\<not> rep \<longrightarrow> x = route))"
proof (cases "best m ks")
  case None
  then show ?thesis using c routes_ok_add [OF ok r] by (auto simp: spec_insert_def free_conflict_def)
next
  case (Some p)
  obtain x where x: "m p = Some x" using best_SomeD(2) [OF Some] by auto
  have hx: "h x \<noteq> None" "\<And>q. m q = Some x \<Longrightarrow> q = p" using ok x unfolding routes_ok_def by blast+
  show ?thesis
  proof (cases rep)
    case True
    have "x \<noteq> route" using r(3) x by (auto simp: ran_def)
    then have "x \<notin> ran (m(p \<mapsto> route))" using hx(2) by (auto simp: ran_def)
    then have "routes_ok (m(p \<mapsto> route)) (h(x := None))"
      using routes_ok_free [OF routes_ok_add [OF ok r, of p]] by blast
    moreover have "c = Some x" "m1 = m(p \<mapsto> route)" using c Some True x by (simp_all add: spec_insert_def)
    ultimately show ?thesis using True hx(1) by (simp add: free_conflict_def)
  next
    case False
    then show ?thesis using c Some routes_ok_free [OF ok r(3)] r(1) by (auto simp: spec_insert_def free_conflict_def)
  qed
qed

lemma routes_ok_remove:
  assumes ok: "routes_ok m h" and c: "spec_remove ks m = (c, m1)"
  shows "routes_ok m1 h \<and> (\<forall>x. c = Some x \<longrightarrow> (\<exists>xi. h x = Some xi \<and> pf_ok (destination xi)) \<and> x \<notin> ran m1 \<and> x \<in> ran m)"
proof (cases "best m ks")
  case None
  then show ?thesis using c ok by (auto simp: spec_remove_def)
next
  case (Some p)
  obtain x where x: "m p = Some x" using best_SomeD(2) [OF Some] by auto
  have "c = Some x" "m1 = m(p := None)" using c Some x by (auto simp: spec_remove_def)
  moreover have "\<exists>xi. h x = Some xi \<and> pf_ok (destination xi)" using ok x unfolding routes_ok_def by blast
  moreover have "x \<notin> ran (m(p := None))" 
  proof
    assume "x \<in> ran (m(p := None))"
    then obtain q where "q \<noteq> p" "m q = Some x" by (auto simp: ran_def split: if_splits)
    then show False using ok x unfolding routes_ok_def by blast
  qed
  ultimately show ?thesis using routes_ok_drop [OF ok, of p] ranI [of m p x] x by blast
qed

definition table_ok :: "ForwardingTable \<Rightarrow> bool" where
  "table_ok s \<longleftrightarrow> any_ok (mTrie s) \<and> cache.coherent (mCache s) (trie_lookup (mTrie s)) \<and>
     routes_ok (any_content (mTrie s)) (route_heap s)"

abbreviation table :: "ForwardingTable \<Rightarrow> bool list \<Rightarrow> nat option" where
  "table s \<equiv> any_content (mTrie s)"

lemma delete_route_alive: "route_heap s a \<noteq> None \<Longrightarrow> delete_route a s = Some (s\<lparr>route_heap := (route_heap s)(a := None)\<rparr>)"
  by (simp add: delete_route_def)

lemma coherent_after_change: "table_ok s \<Longrightarrow> cache.coherent (cache_invalidate (mCache s)) g"
  by (auto simp: table_ok_def intro: cache.coherent_inval)

text \<open>
  What the operations do to the map of routes and to the heap, for a route that the table does not hold.
\<close>

lemma addRoute_spec:
  assumes ok: "table_ok s" and r: "route_heap s route = Some ri" "pf_ok (destination ri)" "route \<notin> ran (table s)"
    and c: "spec_insert (pf_bits (destination ri)) route replace (table s) = (c, m)"
  obtains s1 where "addRoute ub route replace s =
      Some (if c = None then FT_ROUTE_SUCCESS else if replace then FT_ROUTE_OVERWRITTEN else FT_ROUTE_NOT_REPLACED, s1)"
    "table_ok s1" "table s1 = m" "route_heap s1 = free_conflict c (route_heap s)" "listeners s1 = listeners s"
proof -
  let ?d = "destination ri" and ?s = "s\<lparr>mCache := cache_invalidate (mCache s)\<rparr>"
  have routes: "routes_ok m (free_conflict c (route_heap s))" "\<And>x. c = Some x \<Longrightarrow> route_heap s x \<noteq> None"
    "\<And>x. c = Some x \<Longrightarrow> \<not> replace \<Longrightarrow> x = route"
    using routes_ok_insert [of "table s" "route_heap s", OF _ r c] ok unfolding table_ok_def by blast+
  have "any_ok (mTrie s)" "0 \<le> pf_len ?d" "pf_len ?d \<le> 32" using ok r(2) by (simp_all add: table_ok_def pf_ok_def)
  from any.ins [OF this, of ub "pf_addr ?d" route replace]
  obtain t where t: "trie_insert ub (pf_addr ?d) (pf_len ?d) route replace (mTrie s) = Some (c, t)" "any_ok t" "any_content t = m"
    using c by (auto simp: pf_bits_def)
  have good: "table_ok s1" if "mTrie s1 = t" "mCache s1 = mCache ?s" "route_heap s1 = free_conflict c (route_heap s)" for s1
    using that t routes(1) coherent_after_change [OF ok] by (simp add: table_ok_def)
  show ?thesis
  proof (cases c)
    case None
    let ?s1 = "?s\<lparr>mTrie := t, controls := controls ?s @ map (\<lambda>l. (l, IP_CTRL_FIB_ADDROUTE, route)) (sorted_list_of_set (listeners ?s))\<rparr>"
    have "addRoute ub route replace s = Some (FT_ROUTE_SUCCESS, ?s1)" using t(1) r(1) None by (simp add: addRoute_def)
    then show ?thesis using that [of ?s1] good [of ?s1] None t(3) by (simp add: free_conflict_def)
  next
    case (Some x)
    let ?cs = "concat (map (\<lambda>l. [(l, IP_CTRL_FIB_DELROUTE, x), (l, IP_CTRL_FIB_ADDROUTE, route)]) (sorted_list_of_set (listeners ?s)))"
    let ?s1 = "(if replace then ?s\<lparr>mTrie := t, controls := controls ?s @ ?cs\<rparr> else ?s\<lparr>mTrie := t\<rparr>)\<lparr> route_heap := free_conflict c (route_heap s)\<rparr>"
    have "addRoute ub route replace s = Some (if replace then FT_ROUTE_OVERWRITTEN else FT_ROUTE_NOT_REPLACED, ?s1)"
      using t(1) r(1) Some routes(2,3) [OF Some] by (cases replace) (simp_all add: addRoute_def Let_def delete_route_def free_conflict_def)
    then show ?thesis using that [of ?s1] good [of ?s1] Some t(3) by (simp add: free_conflict_def)
  qed
qed

lemma getRoute_spec:
  assumes "table_ok s"
  shows "fst (getRoute junk ip s) = spec_lookup (ip_bits ip) (table s)"
    "table_ok (snd (getRoute junk ip s))" "table (snd (getRoute junk ip s)) = table s"
    "route_heap (snd (getRoute junk ip s)) = route_heap s"
proof -
  obtain hit c where oc: "cache_lookup junk (mCache s) ip = (hit, c)" by (cases "cache_lookup junk (mCache s) ip")
  have ok: "any_ok (mTrie s)" "cache.coherent (mCache s) (trie_lookup (mTrie s))" "routes_ok (table s) (route_heap s)"
    using assms by (simp_all add: table_ok_def)
  note co = cache.coherent_look [OF ok(2), of junk ip, unfolded oc fst_conv snd_conv]
  note lk = any.look [OF ok(1), of ip]
  show "fst (getRoute junk ip s) = spec_lookup (ip_bits ip) (table s)"
    using co lk by (cases hit) (auto simp: getRoute_def oc split: option.splits)
  show "table_ok (snd (getRoute junk ip s))"
    using co ok by (cases hit) (auto simp: getRoute_def oc table_ok_def split: option.splits)
  show "table (snd (getRoute junk ip s)) = table s" "route_heap (snd (getRoute junk ip s)) = route_heap s"
    by (cases hit; simp add: getRoute_def oc split: option.splits)+
qed


lemma route_eq_defined: "pf_ok (destination a) \<Longrightarrow> pf_ok (destination b) \<Longrightarrow> route_eq a b \<noteq> None"
  by (simp add: route_eq_def prefix_eq_bits)

lemma trie_remove_table:
  assumes "table_ok s" "pf_ok d" "spec_remove (pf_bits d) (table s) = (c, m)"
  obtains t where "trie_remove ub (pf_addr d) (pf_len d) (mTrie s) = Some (c, t)" "any_ok t" "any_content t = m"
proof -
  have "any_ok (mTrie s)" "0 \<le> pf_len d" "pf_len d \<le> 32" using assms by (simp_all add: table_ok_def pf_ok_def)
  from any.rem [OF this, of ub "pf_addr d"] show ?thesis using that assms(3) by (auto simp: pf_bits_def)
qed

text \<open>The three outcomes of a removal: not found, removed, and another route that is put back.\<close>

lemma remove_first:
  assumes ok: "table_ok s" and r: "route_heap s route = Some ri" "pf_ok (destination ri)" "route \<notin> ran (table s)"
    and c: "spec_remove (pf_bits (destination ri)) (table s) = (c, m)"
  obtains t where "trie_remove ub (pf_addr (destination ri)) (pf_len (destination ri)) (mTrie s) = Some (c, t)"
    "any_content t = m" "table_ok (s\<lparr>mCache := cache_invalidate (mCache s), mTrie := t\<rparr>)" "route \<notin> ran m"
    "\<forall>x. c = Some x \<longrightarrow> x \<noteq> route \<and> x \<notin> ran m \<and> (\<exists>xi. route_heap s x = Some xi \<and> pf_ok (destination xi))"
proof -
  obtain t where t: "trie_remove ub (pf_addr (destination ri)) (pf_len (destination ri)) (mTrie s) = Some (c, t)"
    "any_ok t" "any_content t = m" using trie_remove_table [OF ok r(2) c] by metis
  have routes: "routes_ok m (route_heap s)"
    "\<And>x. c = Some x \<Longrightarrow> (\<exists>xi. route_heap s x = Some xi \<and> pf_ok (destination xi)) \<and> x \<notin> ran m \<and> x \<in> ran (table s)"
    using routes_ok_remove [OF _ c, of "route_heap s"] ok unfolding table_ok_def by blast+
  have "ran m \<subseteq> ran (table s)"
    using c best_SomeD(2) by (auto simp: spec_remove_def ran_def split: option.splits if_splits)
  then have "route \<notin> ran m" using r(3) by blast
  moreover have "table_ok (s\<lparr>mCache := cache_invalidate (mCache s), mTrie := t\<rparr>)"
    using t routes(1) coherent_after_change [OF ok] by (simp add: table_ok_def)
  moreover have "x \<noteq> route" if "c = Some x" for x using routes(2) [OF that] r(3) by blast
  ultimately show ?thesis using that t(1,3) routes(2) by blast
qed

lemma table_ok_free:
  assumes "table_ok s" "x \<notin> ran (table s)" "mTrie s1 = mTrie s" "mCache s1 = mCache s" "route_heap s1 = (route_heap s)(x := None)"
  shows "table_ok s1"
  using assms routes_ok_free [of "table s" "route_heap s" x] by (simp add: table_ok_def)

lemma removeRoute_not_found:
  assumes "table_ok s" "route_heap s route = Some ri" "pf_ok (destination ri)" "route \<notin> ran (table s)"
    "best (table s) (pf_bits (destination ri)) = None"
  obtains s1 where "removeRoute ub route s = Some (FT_ROUTE_NOT_FOUND, s1)" "table_ok s1" "table s1 = table s"
    "route_heap s1 = (route_heap s)(route := None)"
proof -
  have c: "spec_remove (pf_bits (destination ri)) (table s) = (None, table s)" using assms(5) by (simp add: spec_remove_def)
  obtain t where t: "trie_remove ub (pf_addr (destination ri)) (pf_len (destination ri)) (mTrie s) = Some (None, t)"
    "any_content t = table s" "table_ok (s\<lparr>mCache := cache_invalidate (mCache s), mTrie := t\<rparr>)"
    by (rule remove_first [OF assms(1-4) c])
  let ?s1 = "s\<lparr>mCache := cache_invalidate (mCache s), mTrie := t, route_heap := (route_heap s)(route := None)\<rparr>"
  have "removeRoute ub route s = Some (FT_ROUTE_NOT_FOUND, ?s1)"
    using t(1) assms(2) by (simp add: removeRoute_def Let_def delete_route_def)
  moreover have "table_ok ?s1" using table_ok_free [OF t(3), of route ?s1] assms(4) t(2) by simp
  ultimately show ?thesis using that [of ?s1] t(2) by simp
qed

lemma removeRoute_match:
  assumes "table_ok s" "route_heap s route = Some ri" "pf_ok (destination ri)" "route \<notin> ran (table s)"
    "best (table s) (pf_bits (destination ri)) = Some p" "table s p = Some old" "route_heap s old = Some oi" "route_eq ri oi = Some True"
  obtains s1 where "removeRoute ub route s = Some (FT_ROUTE_SUCCESS, s1)" "table_ok s1" "table s1 = (table s)(p := None)"
    "route_heap s1 = (route_heap s)(old := None, route := None)"
proof -
  have c: "spec_remove (pf_bits (destination ri)) (table s) = (Some old, (table s)(p := None))" using assms(5,6) by (simp add: spec_remove_def)
  let ?m = "(table s)(p := None)"
  obtain t where t: "trie_remove ub (pf_addr (destination ri)) (pf_len (destination ri)) (mTrie s) = Some (Some old, t)"
    "any_content t = ?m" "table_ok (s\<lparr>mCache := cache_invalidate (mCache s), mTrie := t\<rparr>)" "route \<notin> ran ?m" "old \<noteq> route" "old \<notin> ran ?m"
    using remove_first [OF assms(1-4) c, of ub] by blast
  let ?s = "s\<lparr>mCache := cache_invalidate (mCache s), mTrie := t\<rparr>"
  let ?s1 = "?s\<lparr>controls := controls ?s @ map (\<lambda>l. (l, IP_CTRL_FIB_DELROUTE, old)) (sorted_list_of_set (listeners ?s)),
    route_heap := (route_heap s)(old := None, route := None)\<rparr>"
  have "removeRoute ub route s = Some (FT_ROUTE_SUCCESS, ?s1)"
    using t(1,5) assms(2,7,8) by (simp add: removeRoute_def Let_def delete_route_def)
  moreover have "table_ok (?s\<lparr>route_heap := (route_heap s)(old := None)\<rparr>)" by (rule table_ok_free [OF t(3), of old]) (simp_all add: t(2,6))
  then have "table_ok ?s1" by (rule table_ok_free [of _ route]) (simp_all add: t(2,4))
  ultimately show ?thesis using that [of ?s1] t(2) by simp
qed

lemma removeRoute_mismatch:
  assumes "table_ok s" "route_heap s route = Some ri" "pf_ok (destination ri)" "route \<notin> ran (table s)"
    "best (table s) (pf_bits (destination ri)) = Some p" "table s p = Some old" "route_heap s old = Some oi" "route_eq ri oi = Some False"
    and c2: "spec_insert (pf_bits (destination oi)) old True ((table s)(p := None)) = (c2, m2)"
  obtains s1 where "removeRoute ub route s = Some (FT_ROUTE_SUCCESS, s1)" "table_ok s1" "table s1 = m2"
    "route_heap s1 = (free_conflict c2 (route_heap s))(route := None)"
proof -
  have c: "spec_remove (pf_bits (destination ri)) (table s) = (Some old, (table s)(p := None))" using assms(5,6) by (simp add: spec_remove_def)
  let ?m = "(table s)(p := None)"
  obtain t where t: "trie_remove ub (pf_addr (destination ri)) (pf_len (destination ri)) (mTrie s) = Some (Some old, t)"
    "any_content t = ?m" "table_ok (s\<lparr>mCache := cache_invalidate (mCache s), mTrie := t\<rparr>)" "route \<notin> ran ?m" and
    all: "\<forall>x. Some old = Some x \<longrightarrow> x \<noteq> route \<and> x \<notin> ran ?m \<and> (\<exists>xi. route_heap s x = Some xi \<and> pf_ok (destination xi))"
    by (rule remove_first [OF assms(1-4) c])
  have old: "old \<noteq> route" "old \<notin> ran ?m" "pf_ok (destination oi)" using all assms(7) by auto
  let ?s = "s\<lparr>mCache := cache_invalidate (mCache s), mTrie := t\<rparr>"
  have h: "route_heap ?s old = Some oi" "pf_ok (destination oi)" "old \<notin> ran (table ?s)"
    using assms(7) t(2) old by simp_all
  have "spec_insert (pf_bits (destination oi)) old True (table ?s) = (c2, m2)" using c2 t(2) by simp
  then obtain s3 where s3: "addRoute ub old True ?s =
      Some (if c2 = None then FT_ROUTE_SUCCESS else if True then FT_ROUTE_OVERWRITTEN else FT_ROUTE_NOT_REPLACED, s3)"
    "table_ok s3" "table s3 = m2" "route_heap s3 = free_conflict c2 (route_heap ?s)"
    by (rule addRoute_spec [OF t(3) h])
  have m2: "ran m2 \<subseteq> insert old (ran ?m)" "\<And>x. c2 = Some x \<Longrightarrow> x \<in> ran ?m"
    using c2 best_SomeD(2) by (auto simp: spec_insert_def ran_def split: option.splits if_splits)
  have alive: "route_heap s3 route = Some ri" using s3(4) m2(2) t(4) assms(2) by (cases c2) (auto simp: free_conflict_def)
  let ?s4 = "s3\<lparr>route_heap := (route_heap s3)(route := None)\<rparr>"
  have "removeRoute ub route s = Some (FT_ROUTE_SUCCESS, ?s4)"
    using t(1) assms(2,7,8) s3(1) alive by (simp add: removeRoute_def Let_def delete_route_def)
  moreover have "route \<notin> ran (table s3)" using s3(3) m2(1) t(4) old(1) by auto
  then have "table_ok ?s4" using table_ok_free [OF s3(2), of route ?s4] by simp
  ultimately show ?thesis using that [of ?s4] s3(3,4) by simp
qed


lemma new_mTrie_cases: "new_mTrie tv = Some t \<longleftrightarrow> tv \<notin> {2, 3, 4} \<and> t = (if tv = 0 then Trie0 new_trie else Trie1 new_trie)"
  by (auto simp: new_mTrie_def Let_def DEFAULT_TRIE_VERSION_def)

lemma new_mCache_coherent: "cache.coherent (new_mCache cv junk) f"
proof -
  have "\<not> entries_hold (map (\<lambda>i. (junk i)\<lparr>ce_valid := False\<rparr>) xs) i r" for xs i r
    by (auto simp: entries_hold_def)
  then show ?thesis
    by (simp add: new_mCache_def Let_def cache.coherent_def cache0_ok_def cache0_holds_def new_cache0_def
        cache1_ok_def new_cache1_def cache2_ok_def cache2_holds_def new_cache2_def)
qed

lemma new_table_ok:
  assumes "new_ForwardingTable tv cv junk h = Some s"
  shows "table_ok s" "table s = Map.empty" "route_heap s = h"
proof -
  obtain t where t: "new_mTrie tv = Some t"
    "s = \<lparr>mTrie = t, mCache = new_mCache cv junk, listeners = {}, route_heap = h, controls = []\<rparr>"
    using assms by (auto simp: new_ForwardingTable_def)
  show tab: "table s = Map.empty" using t by (simp add: new_mTrie_cases new_trie_ok)
  show "route_heap s = h" by (simp add: t(2))
  have "any_ok (mTrie s)" using t by (simp add: new_mTrie_cases new_trie_ok)
  then show "table_ok s" using tab new_mCache_coherent by (simp add: table_ok_def routes_ok_def t(2))
qed

lemma new_table_exists: "tv \<notin> {2, 3, 4} \<Longrightarrow> \<exists>s. new_ForwardingTable tv cv junk h = Some s"
  by (auto simp: new_ForwardingTable_def new_mTrie_cases)

lemma deallocate_frees:
  assumes "\<And>p r. tmap n p = Some r \<Longrightarrow> h r \<noteq> None" "\<And>p q r. tmap n p = Some r \<Longrightarrow> tmap n q = Some r \<Longrightarrow> p = q"
  shows "deallocate n h = Some (\<lambda>x. if x \<in> ran (tmap n) then None else h x)"
  using assms
proof (induction n arbitrary: h)
  case (TrieNode d l r)
  have left: "tmap l p = tmap (TrieNode d l r) (False # p)" and right: "tmap r p = tmap (TrieNode d l r) (True # p)" for p by simp_all
  let ?h1 = "\<lambda>x. if x \<in> ran (tmap l) then None else h x"
  let ?h2 = "\<lambda>x. if x \<in> ran (tmap r) then None else ?h1 x"
  have apart: "x \<notin> ran (tmap l)" if x: "tmap r p = Some x" for x p
  proof
    assume "x \<in> ran (tmap l)"
    then obtain q where "tmap l q = Some x" by (auto simp: ran_def)
    then have "True # p = False # q" using TrieNode.prems(2) [of "True # p" x "False # q"] x by simp
    then show False by simp
  qed
  have 1: "deallocate l h = Some ?h1"
  proof (rule TrieNode.IH(1))
    show "h x \<noteq> None" if "tmap l p = Some x" for p x using TrieNode.prems(1) [of "False # p" x] that by simp
    show "p = q" if "tmap l p = Some x" "tmap l q = Some x" for p q x
      using TrieNode.prems(2) [of "False # p" x "False # q"] that by simp
  qed
  have 2: "deallocate r ?h1 = Some ?h2"
  proof (rule TrieNode.IH(2))
    show "?h1 x \<noteq> None" if "tmap r p = Some x" for p x using TrieNode.prems(1) [of "True # p" x] apart [OF that] that by simp
    show "p = q" if "tmap r p = Some x" "tmap r q = Some x" for p q x
      using TrieNode.prems(2) [of "True # p" x "True # q"] that by simp
  qed
  have root: "x \<notin> ran (tmap l) \<and> x \<notin> ran (tmap r) \<and> h x \<noteq> None" if x: "d = Some x" for x
    using TrieNode.prems(1) [of "[]" x] TrieNode.prems(2) [of "[]" x "False # _"] TrieNode.prems(2) [of "[]" x "True # _"] x
    by (auto simp: ran_def)
  have ran: "x \<in> ran (tmap (TrieNode d l r)) \<longleftrightarrow> d = Some x \<or> x \<in> ran (tmap l) \<or> x \<in> ran (tmap r)" for x
  proof
    assume "x \<in> ran (tmap (TrieNode d l r))"
    then obtain p where "tmap (TrieNode d l r) p = Some x" by (auto simp: ran_def)
    then show "d = Some x \<or> x \<in> ran (tmap l) \<or> x \<in> ran (tmap r)" by (cases p) (auto simp: ran_def split: if_splits)
  next
    assume "d = Some x \<or> x \<in> ran (tmap l) \<or> x \<in> ran (tmap r)"
    then show "x \<in> ran (tmap (TrieNode d l r))"
      by (elim disjE) (auto simp: ran_def left right intro: exI [of _ "[]"] simp del: tmap.simps(3))
  qed
  have "(\<lambda>x. if x \<in> ran (tmap (TrieNode d l r)) then None else h x) = (case d of None \<Rightarrow> ?h2 | Some a \<Rightarrow> ?h2(a := None))"
    unfolding ran by (cases d) (simp_all add: fun_eq_iff)
  then show ?case using 1 2 root by (cases d) simp_all
qed (simp add: ran_def)

lemma deallocate_table:
  assumes "table_ok s" "mTrie s = Trie0 t \<or> mTrie s = Trie1 t"
  shows "deallocate (root t) (route_heap s) = Some (\<lambda>x. if x \<in> ran (table s) then None else route_heap s x)"
proof -
  have tab: "table s = tmap (root t)" using assms(2) by (auto simp: content_def)
  show ?thesis unfolding tab
  proof (rule deallocate_frees)
    show "route_heap s r \<noteq> None" if "tmap (root t) p = Some r" for p r
      using assms(1) that tab unfolding table_ok_def routes_ok_def by (metis option.distinct(1))
    show "p = q" if "tmap (root t) p = Some r" "tmap (root t) q = Some r" for p q r
      using assms(1) that tab unfolding table_ok_def routes_ok_def by metis
  qed
qed

text \<open>
  A resolved route leads to an interface on the link; only when no other address is there is it the
  address of its own interface.
\<close>

lemma other_end_attached: "ifaces \<noteq> [] \<Longrightarrow> other_end local_ip hop ifaces \<in> set ifaces \<and>
    (other_end local_ip hop ifaces = local_ip \<longrightarrow> set ifaces = {local_ip})"
proof (induction ifaces arbitrary: hop)
  case (Cons a ifaces)
  show ?case
  proof (cases "a = local_ip \<and> ifaces \<noteq> []")
    case True
    then show ?thesis using Cons.IH [of a] by simp
  qed (cases "a = local_ip"; simp)
qed simp

lemma resolve_attached:
  assumes "resolve local_ip (Some ifaces) ri = (True, ri1)" "\<not> resolved ri" "ifaces \<noteq> []"
  shows "resolved ri1 \<and> next_hop ri1 \<in> set ifaces \<and> (next_hop ri1 = local_ip \<longrightarrow> set ifaces = {local_ip}) \<and>
    destination ri1 = destination ri"
proof (cases "next_hop ri = local_ip \<or> next_hop ri = IPADDR_INVALID")
  case True
  note attached = other_end_attached [OF assms(3), of local_ip IPADDR_INVALID]
  have "next_hop ri1 = other_end local_ip IPADDR_INVALID ifaces" "resolved ri1" "destination ri1 = destination ri"
    using True assms(1,2) by (auto simp: resolve_def Let_def split: if_splits)
  then show ?thesis using attached by simp
next
  case False
  then have "next_hop ri \<in> set ifaces" "ri1 = ri\<lparr>resolved := True\<rparr>"
    using assms(1,2) by (simp_all add: resolve_def Let_def split: if_splits)
  then show ?thesis using False by simp
qed

lemma removeRoute_ok:
  assumes "table_ok s" "route_heap s route = Some ri" "pf_ok (destination ri)" "route \<notin> ran (table s)"
  shows "\<exists>code s1. removeRoute ub route s = Some (code, s1) \<and> table_ok s1"
proof (cases "best (table s) (pf_bits (destination ri))")
  case None
  then show ?thesis using removeRoute_not_found [OF assms None, of ub] by metis
next
  case (Some p)
  then obtain old where old: "table s p = Some old" using best_SomeD(2) [OF Some] by auto
  then obtain oi where oi: "route_heap s old = Some oi" "pf_ok (destination oi)"
    using assms(1) unfolding table_ok_def routes_ok_def by blast
  obtain e where e: "route_eq ri oi = Some e" using route_eq_defined [OF assms(3) oi(2)] by auto
  show ?thesis
  proof (cases e)
    case True
    then show ?thesis using removeRoute_match [OF assms Some old oi(1), of ub] e by metis
  next
    case False
    obtain c2 m2 where "spec_insert (pf_bits (destination oi)) old True ((table s)(p := None)) = (c2, m2)" by fastforce
    then show ?thesis using removeRoute_mismatch [OF assms Some old oi(1), of c2 m2 ub] e False by metis
  qed
qed

lemma addRoute_exact:
  assumes ok: "table_ok s" "route_heap s route = Some ri" "pf_ok (destination ri)" "route \<notin> ran (table s)"
    and none: "\<And>q. strict_prefix q (pf_bits (destination ri)) \<Longrightarrow> table s q = None"
  obtains s1 where "addRoute ub route True s =
      Some (if table s (pf_bits (destination ri)) = None then FT_ROUTE_SUCCESS else FT_ROUTE_OVERWRITTEN, s1)"
    "table_ok s1" "table s1 = (table s)(pf_bits (destination ri) \<mapsto> route)"
    "route_heap s1 = free_conflict (table s (pf_bits (destination ri))) (route_heap s)"
proof -
  have "spec_insert (pf_bits (destination ri)) route True (table s) =
    (table s (pf_bits (destination ri)), (table s)(pf_bits (destination ri) \<mapsto> route))" by (rule spec_insert_exact [OF none])
  then show ?thesis by (rule addRoute_spec [where ub = ub, OF ok]) (rule that; simp)
qed

text \<open>
  C6. Memory safety of the forwarding table with the original or the simple trie and any cache: with a
  route that is allocated, has a prefix of 0 to 32 bits and is not already stored, \<open>addRoute\<close> and
  \<open>removeRoute\<close> run to their end without failing an assertion or using or deleting a deleted route, and
  they keep the invariant: every stored route is allocated and stored once, and the cache agrees with the
  trie.  Every route that \<open>getRoute\<close> returns is allocated.
\<close>

theorem forwarding_table_safe:
  assumes "table_ok s" "route_heap s route = Some ri" "pf_ok (destination ri)" "route \<notin> ran (table s)"
  shows "(\<exists>code s1. addRoute ub route replace s = Some (code, s1) \<and> table_ok s1) \<and>
    (\<exists>code s1. removeRoute ub route s = Some (code, s1) \<and> table_ok s1) \<and>
    table_ok (snd (getRoute junk ip s)) \<and>
    (\<forall>r. fst (getRoute junk ip s) = Some r \<longrightarrow> route_heap s r \<noteq> None)"
proof -
  obtain c m where c: "spec_insert (pf_bits (destination ri)) route replace (table s) = (c, m)" by fastforce
  have "\<exists>code s1. addRoute ub route replace s = Some (code, s1) \<and> table_ok s1"
    using addRoute_spec [OF assms c, of ub] by metis
  moreover have "route_heap s r \<noteq> None" if hit: "fst (getRoute junk ip s) = Some r" for r
  proof -
    obtain p where "table s p = Some r" using hit getRoute_spec(1) [OF assms(1), of junk ip] by (auto simp: spec_lookup_def split: option.splits)
    then show ?thesis using assms(1) unfolding table_ok_def routes_ok_def by blast
  qed
  ultimately show ?thesis using removeRoute_ok [OF assms] getRoute_spec(2) [OF assms(1)] by blast
qed

definition sample_route :: "u32 \<Rightarrow> int \<Rightarrow> int \<Rightarrow> RouteInfo" where
  "sample_route a n c = \<lparr>destination = \<lparr>pf_addr = a, pf_len = n\<rparr>, next_hop = 0x0A000001, nic = 0, cost = c, protocol = 1, resolved = True\<rparr>"

definition sample_table :: "(nat \<Rightarrow> RouteInfo option) \<Rightarrow> ForwardingTable" where
  "sample_table h = the (new_ForwardingTable (-1) (-1) (\<lambda>_. \<lparr>ce_valid = False, ce_ipaddr = 0, ce_route = 0, ce_ctr = 0\<rparr>) h)"

lemma sample_table_new: "new_ForwardingTable (-1) (-1) (\<lambda>_. \<lparr>ce_valid = False, ce_ipaddr = 0, ce_route = 0, ce_ctr = 0\<rparr>) h = Some (sample_table h)"
  by (simp add: sample_table_def new_ForwardingTable_def new_mTrie_def DEFAULT_TRIE_VERSION_def)

lemmas sample_table_ok = new_table_ok [OF sample_table_new]

theorem forwarding_table_safe_witness:
  "\<exists>code s1. addRoute 0 1 True (sample_table [1 \<mapsto> sample_route 0x0A000000 8 1]) = Some (code, s1) \<and> table_ok s1"
  using forwarding_table_safe [of "sample_table [1 \<mapsto> sample_route 0x0A000000 8 1]" 1 "sample_route 0x0A000000 8 1" 0 True]
  by (simp add: sample_table_ok pf_ok_def sample_route_def)

text \<open>
  Deleting the object of the table.  \<open>removeRoute\<close> deletes the route it is given besides the stored
  one that equals it: called with the pointer that the table holds, it deletes the object twice.
\<close>

theorem removeRoute_stored_deleted_twice:
  assumes "table_ok s" "route_heap s route = Some ri" "table s (pf_bits (destination ri)) = Some route"
  shows "removeRoute ub route s = None"
proof -
  have d: "pf_ok (destination ri)" using assms unfolding table_ok_def routes_ok_def by force
  have "best (table s) (pf_bits (destination ri)) = Some (pf_bits (destination ri))"
    using assms(3) by (intro best_eqI) auto
  then have "spec_remove (pf_bits (destination ri)) (table s) = (Some route, (table s)(pf_bits (destination ri) := None))"
    using assms(3) by (simp add: spec_remove_def)
  then obtain t where "trie_remove ub (pf_addr (destination ri)) (pf_len (destination ri)) (mTrie s) = Some (Some route, t)"
    using trie_remove_table [OF assms(1) d] by metis
  moreover have "route_eq ri ri = Some True" using d by (simp add: route_eq_def prefix_eq_bits)
  ultimately show ?thesis using assms(2) by (simp add: removeRoute_def Let_def delete_route_def)
qed

theorem removeRoute_stored_deleted_twice_witness:
  "\<exists>s1. addRoute 0 1 True (sample_table [1 \<mapsto> sample_route 0x0A000000 8 1]) = Some (FT_ROUTE_SUCCESS, s1) \<and>
     removeRoute 0 1 s1 = None"
proof -
  let ?r = "sample_route 0x0A000000 8 1" and ?h = "[1 \<mapsto> sample_route 0x0A000000 8 1]"
  have s: "table_ok (sample_table ?h)" "route_heap (sample_table ?h) 1 = Some ?r" "pf_ok (destination ?r)" "1 \<notin> ran (table (sample_table ?h))"
    by (simp_all add: sample_table_ok pf_ok_def sample_route_def)
  obtain s1 where s1: "addRoute 0 1 True (sample_table ?h) = Some (if table (sample_table ?h) (pf_bits (destination ?r)) = None then FT_ROUTE_SUCCESS else FT_ROUTE_OVERWRITTEN, s1)"
    "table_ok s1" "table s1 = (table (sample_table ?h))(pf_bits (destination ?r) \<mapsto> 1)"
    "route_heap s1 = free_conflict (table (sample_table ?h) (pf_bits (destination ?r))) (route_heap (sample_table ?h))"
    by (rule addRoute_exact [OF s]) (simp_all add: sample_table_ok)
  then have "removeRoute 0 1 s1 = None"
    by (intro removeRoute_stored_deleted_twice [where ri = ?r]) (simp_all add: sample_table_ok free_conflict_def)
  then show ?thesis using s1(1) by (simp add: sample_table_ok)
qed


section \<open>Longest prefix matching\<close>

text \<open>
  The reference: of the routes whose prefix contains the address, one with the longest prefix, and of
  those the one that was added last.
\<close>

definition covers :: "(nat \<Rightarrow> RouteInfo option) \<Rightarrow> u32 \<Rightarrow> nat \<Rightarrow> bool" where
  "covers h ip r = (case h r of None \<Rightarrow> False | Some ri \<Rightarrow> contains (destination ri) ip = Some True)"

definition route_len :: "(nat \<Rightarrow> RouteInfo option) \<Rightarrow> nat \<Rightarrow> int" where
  "route_len h r = (case h r of None \<Rightarrow> 0 | Some ri \<Rightarrow> pf_len (destination ri))"

definition lpm_step :: "(nat \<Rightarrow> RouteInfo option) \<Rightarrow> u32 \<Rightarrow> nat option \<Rightarrow> nat \<Rightarrow> nat option" where
  "lpm_step h ip b r =
     (if covers h ip r \<and> (case b of None \<Rightarrow> True | Some q \<Rightarrow> route_len h q \<le> route_len h r) then Some r else b)"

definition longest_prefix_match :: "(nat \<Rightarrow> RouteInfo option) \<Rightarrow> nat list \<Rightarrow> u32 \<Rightarrow> nat option" where
  "longest_prefix_match h rs ip = foldl (lpm_step h ip) None rs"

text \<open>A run of additions and lookups, and the routes it adds.\<close>

datatype ft_op = Add nat | Get u32

fun run_ops :: "u32 \<Rightarrow> bool \<times> u8 \<Rightarrow> ft_op list \<Rightarrow> ForwardingTable \<Rightarrow> ForwardingTable option" where
  "run_ops ub stack [] s = Some s"
| "run_ops ub stack (Add r # ops) s = (case addRoute ub r True s of None \<Rightarrow> None | Some (_, s1) \<Rightarrow> run_ops ub stack ops s1)"
| "run_ops ub stack (Get ip # ops) s = run_ops ub stack ops (snd (getRoute stack ip s))"

fun added :: "ft_op list \<Rightarrow> nat list" where
  "added [] = []"
| "added (Add r # ops) = r # added ops"
| "added (Get ip # ops) = added ops"

abbreviation route_bits :: "(nat \<Rightarrow> RouteInfo option) \<Rightarrow> nat \<Rightarrow> bool list" where
  "route_bits h r \<equiv> pf_bits (destination (the (h r)))"

text \<open>The map of the routes \<open>rs\<close>, later ones over earlier ones.\<close>

definition route_map :: "(nat \<Rightarrow> RouteInfo option) \<Rightarrow> nat list \<Rightarrow> bool list \<Rightarrow> nat option" where
  "route_map h rs = foldl (\<lambda>m r. m(route_bits h r \<mapsto> r)) Map.empty rs"

lemma route_map_snoc: "route_map h (rs @ [r]) = (route_map h rs)(route_bits h r \<mapsto> r)"
  by (simp add: route_map_def)

lemma route_map_in: "route_map h rs p = Some r \<Longrightarrow> r \<in> set rs \<and> route_bits h r = p"
proof (induction rs arbitrary: p r rule: rev_induct)
  case (snoc x xs)
  then show ?case by (cases "p = route_bits h x") (auto simp: route_map_snoc)
qed (simp add: route_map_def)

lemma best_upd:
  "best (m(p \<mapsto> x)) ks =
     (if prefix p ks \<and> (case best m ks of None \<Rightarrow> True | Some q \<Rightarrow> length q \<le> length p) then Some p else best m ks)"
proof (cases "prefix p ks")
  case False
  have "(if q = p then Some x else m q) \<noteq> None \<longleftrightarrow> m q \<noteq> None" if "prefix q ks" for q using False that by auto
  then have "best (m(p \<mapsto> x)) ks = best m ks" unfolding best_def by (intro find_cong) (auto simp: in_set_prefixes)
  then show ?thesis using False by simp
next
  case True
  note p = True
  show ?thesis
  proof (cases "best m ks")
    case None
    have "best (m(p \<mapsto> x)) ks = Some p" using best_NoneD [OF None] p by (intro best_eqI) (auto split: if_splits)
    then show ?thesis using p None by simp
  next
    case (Some q)
    note q = best_SomeD [OF Some]
    show ?thesis
    proof (cases "length q \<le> length p")
      case True
      then have qp: "prefix q p" using prefix_length_prefix [OF q(1) p] by simp
      have "best (m(p \<mapsto> x)) ks = Some p"
      proof (rule best_eqI [OF p])
        fix w assume w: "prefix w ks" "(m(p \<mapsto> x)) w \<noteq> None"
        show "prefix w p"
        proof (cases "w = p")
          case False
          then have "prefix w q" using q(3) [OF w(1)] w(2) by simp
          then show ?thesis using qp by (rule prefix_order.trans)
        qed simp
      qed simp
      then show ?thesis using p Some True by simp
    next
      case False
      then have pq: "prefix p q" using prefix_length_prefix [OF p q(1)] by simp
      have "best (m(p \<mapsto> x)) ks = Some q"
      proof (rule best_eqI [OF q(1)])
        show "(m(p \<mapsto> x)) q \<noteq> None" using q(2) by simp
        fix w assume w: "prefix w ks" "(m(p \<mapsto> x)) w \<noteq> None"
        then show "prefix w q" using pq q(3) [OF w(1)] by (cases "w = p") simp_all
      qed
      then show ?thesis using False Some by simp
    qed
  qed
qed

lemma lpm_route_map:
  assumes "\<forall>r\<in>set rs. \<exists>ri. h r = Some ri \<and> pf_ok (destination ri)"
  shows "longest_prefix_match h rs ip = spec_lookup (ip_bits ip) (route_map h rs)"
  using assms
proof (induction rs rule: rev_induct)
  case Nil
  show ?case by (simp add: longest_prefix_match_def spec_lookup_def route_map_def)
next
  case (snoc r rs)
  let ?m = "route_map h rs" and ?ks = "ip_bits ip"
  obtain ri where ri: "h r = Some ri" "pf_ok (destination ri)" using snoc.prems by auto
  have cov: "covers h ip r \<longleftrightarrow> prefix (route_bits h r) ?ks" using ri by (simp add: covers_def contains_prefix)
  have len: "route_len h q = int (length (route_bits h q))" if mem: "q \<in> set (rs @ [r])" for q
  proof -
    obtain qi where "h q = Some qi" "pf_ok (destination qi)" using bspec [OF snoc.prems mem] by blast
    then show ?thesis by (simp add: route_len_def length_pf_bits) (simp add: pf_ok_def)
  qed
  have IH: "longest_prefix_match h rs ip = spec_lookup ?ks ?m" using snoc by simp
  have "longest_prefix_match h (rs @ [r]) ip = lpm_step h ip (spec_lookup ?ks ?m) r"
    using IH by (simp add: longest_prefix_match_def)
  also have "\<dots> = spec_lookup ?ks (?m(route_bits h r \<mapsto> r))"
  proof (cases "best ?m ?ks")
    case None
    then show ?thesis using cov by (simp add: lpm_step_def spec_lookup_def best_upd)
  next
    case (Some p)
    obtain q where q: "?m p = Some q" using best_SomeD(2) [OF Some] by auto
    then have in_rs: "q \<in> set rs" "route_bits h q = p" using route_map_in by blast+
    then have "route_len h q \<le> route_len h r \<longleftrightarrow> length p \<le> length (route_bits h r)" using len by simp
    then show ?thesis using cov Some q best_SomeD(1) [OF Some] by (auto simp: lpm_step_def spec_lookup_def best_upd)
  qed
  finally show ?case unfolding route_map_snoc .
qed

text \<open>Routes are added so that none comes before a route with a longer prefix that it contains.\<close>

definition add_order :: "(nat \<Rightarrow> RouteInfo option) \<Rightarrow> nat list \<Rightarrow> bool" where
  "add_order h rs \<longleftrightarrow> distinct rs \<and> (\<forall>r\<in>set rs. \<exists>ri. h r = Some ri \<and> pf_ok (destination ri)) \<and>
     sorted_wrt (\<lambda>a b. \<not> strict_prefix (route_bits h a) (route_bits h b)) rs"

lemma add_order_longest_first:
  assumes "distinct rs" "\<forall>r\<in>set rs. \<exists>ri. h r = Some ri \<and> pf_ok (destination ri)"
    "sorted_wrt (\<lambda>a b. route_len h b \<le> route_len h a) rs"
  shows "add_order h rs"
proof -
  have len: "route_len h r = int (length (route_bits h r))" if ex: "\<exists>ri. h r = Some ri \<and> pf_ok (destination ri)" for r
  proof -
    obtain ri where "h r = Some ri \<and> pf_ok (destination ri)" using ex ..
    then show ?thesis by (simp add: route_len_def length_pf_bits) (simp add: pf_ok_def)
  qed
  have "\<not> strict_prefix (route_bits h a) (route_bits h b)" if "a \<in> set rs" "b \<in> set rs" "route_len h b \<le> route_len h a" for a b
    using that assms(2) len prefix_length_less [of "route_bits h a" "route_bits h b"] by force
  then show ?thesis using assms sorted_wrt_mono_rel [OF _ assms(3)] by (simp add: add_order_def)
qed

lemma added_route:
  assumes "table_ok s" "table s = route_map h done" "\<forall>x\<in>set (r # rs). route_heap s x = h x" "add_order h (done @ r # rs)"
  obtains code s1 where "addRoute ub r True s = Some (code, s1)" "table_ok s1" "table s1 = route_map h (done @ [r])"
    "\<forall>x\<in>set rs. route_heap s1 x = h x"
proof -
  obtain ri where ri: "h r = Some ri" "pf_ok (destination ri)" using assms(4) by (auto simp: add_order_def)
  have notin: "x \<notin> ran (table s)" if "x \<in> set (r # rs)" for x
    using that assms(2,4) route_map_in by (fastforce simp: ran_def add_order_def)
  have none: "table s q = None" if "strict_prefix q (pf_bits (destination ri))" for q
  proof (rule ccontr)
    assume "table s q \<noteq> None"
    then obtain x where "x \<in> set done" "route_bits h x = q" using assms(2) route_map_in by fastforce
    then show False using assms(4) that ri(1) by (auto simp: add_order_def sorted_wrt_append)
  qed
  have hr: "route_heap s r = Some ri" "r \<notin> ran (table s)" using assms(3) ri notin by simp_all
  obtain s1 where s1: "addRoute ub r True s = Some (if table s (pf_bits (destination ri)) = None then FT_ROUTE_SUCCESS else FT_ROUTE_OVERWRITTEN, s1)"
    "table_ok s1" "table s1 = (table s)(pf_bits (destination ri) \<mapsto> r)"
    "route_heap s1 = free_conflict (table s (pf_bits (destination ri))) (route_heap s)"
    by (rule addRoute_exact [OF assms(1) hr(1) ri(2) hr(2) none])
  have "table s1 = route_map h (done @ [r])" using s1(3) assms(2) ri(1) by (simp add: route_map_snoc)
  moreover have "\<forall>x\<in>set rs. route_heap s1 x = h x"
    using s1(4) assms(3) notin by (auto simp: free_conflict_def ran_def split: option.splits)
  ultimately show ?thesis using that s1(1,2) by blast
qed

lemma run_ops_route_map:
  assumes "table_ok s" "table s = route_map h done" "\<forall>r\<in>set (added ops). route_heap s r = h r" "add_order h (done @ added ops)"
  shows "\<exists>s1. run_ops ub stack ops s = Some s1 \<and> table_ok s1 \<and> table s1 = route_map h (done @ added ops)"
  using assms
proof (induction ops arbitrary: s "done" rule: added.induct)
  case (2 r ops)
  note prems = 2(2-)
  have order: "add_order h (done @ r # added ops)" "\<forall>x\<in>set (r # added ops). route_heap s x = h x" using prems(3,4) by simp_all
  obtain code s1 where s1: "addRoute ub r True s = Some (code, s1)" "table_ok s1" "table s1 = route_map h (done @ [r])"
    "\<forall>x\<in>set (added ops). route_heap s1 x = h x"
    by (rule added_route [OF prems(1,2) order(2,1)])
  then show ?case using 2(1) [OF s1(2-4)] order(1) by simp
next
  case (3 ip ops)
  note prems = 3(2-)
  have "\<exists>s1. run_ops ub stack ops (snd (getRoute stack ip s)) = Some s1 \<and> table_ok s1 \<and> table s1 = route_map h (done @ added ops)"
    using prems getRoute_spec(2-4) [OF prems(1), of stack ip] by (intro 3(1)) simp_all
  then show ?case by simp
qed simp

text \<open>
  C5. The forwarding table is longest-prefix matching.  Routes with prefixes of 0 to 32 bits are added to a
  new table, none of them before a route with a longer prefix inside its own, for instance longest
  prefix first, as the note in \<open>util/tries/trie1.h\<close> asks.  Then, with the original or the simple trie, which
  every trie version but 2 to 4 selects, and any cache version, whatever addresses are looked up between
  the additions and afterwards and whatever the uninitialised variables hold, \<open>getRoute\<close> answers with the
  route that a search of the whole list finds by \<open>contains\<close>.
\<close>

theorem getRoute_longest_prefix:
  assumes "add_order h (added ops)" and "trie_version \<notin> {2, 3, 4}"
  shows "\<exists>s0 s. new_ForwardingTable trie_version cache_version junk h = Some s0 \<and> run_ops ub stack ops s0 = Some s \<and>
    (\<forall>ip. fst (getRoute stack ip s) = longest_prefix_match h (added ops) ip)"
proof -
  obtain s0 where s0: "new_ForwardingTable trie_version cache_version junk h = Some s0" using new_table_exists [OF assms(2)] by blast
  have "\<exists>s1. run_ops ub stack ops s0 = Some s1 \<and> table_ok s1 \<and> table s1 = route_map h ([] @ added ops)"
    using assms by (intro run_ops_route_map) (simp_all add: new_table_ok [OF s0] route_map_def)
  then obtain s where s: "run_ops ub stack ops s0 = Some s" "table_ok s" "table s = route_map h (added ops)" by auto
  have "fst (getRoute stack ip s) = longest_prefix_match h (added ops) ip" for ip
    using getRoute_spec(1) [OF s(2), of stack ip] lpm_route_map [of "added ops" h ip] assms s(3) by (simp add: add_order_def)
  then show ?thesis using s0 s(1) by blast
qed

theorem getRoute_longest_prefix_witness:
  "\<exists>s. run_ops 0 (True, 0) [Add 1, Get 0x0B010203, Get 0x0A010203, Add 2] (sample_table [1 \<mapsto> sample_route 0x0A000000 8 1, 2 \<mapsto> sample_route 0 0 9]) = Some s \<and>
     fst (getRoute (True, 0) 0x0A010203 s) = Some 1 \<and> fst (getRoute (True, 0) 0x0B010203 s) = Some 2"
proof -
  let ?h = "[1 \<mapsto> sample_route 0x0A000000 8 1, 2 \<mapsto> sample_route 0 0 9]" and ?ops = "[Add 1, Get 0x0B010203, Get 0x0A010203, Add 2]"
  have order: "add_order ?h (added ?ops)" by (simp add: add_order_def sample_route_def pf_ok_def pf_bits_def)
  have "(-1 :: int) \<notin> {2, 3, 4}" by simp
  from getRoute_longest_prefix [OF order this, where cache_version = "-1" and ub = 0 and stack = "(True, 0)"]
  obtain s where s: "run_ops 0 (True, 0) ?ops (sample_table ?h) = Some s"
    "\<And>ip. fst (getRoute (True, 0) ip s) = longest_prefix_match ?h (added ?ops) ip"
    using sample_table_new [of ?h] by (metis option.inject)
  have "longest_prefix_match ?h (added ?ops) 0x0A010203 = Some 1" "longest_prefix_match ?h (added ?ops) 0x0B010203 = Some 2"
    by code_simp+
  then show ?thesis using s by auto
qed


section \<open>Routes with a shorter prefix in the way\<close>

lemma pf_bits_default: "pf_len p = 0 \<Longrightarrow> pf_ok p \<and> pf_bits p = []"
  by (simp add: pf_ok_def pf_bits_def)

lemma best_single: "best [p \<mapsto> x] ks = (if prefix p ks then Some p else None)"
  by (simp add: best_upd)

lemma single_default:
  assumes "table_ok s" "table s = [[] \<mapsto> r]"
  shows "fst (getRoute junk ip s) = Some r" "getDefaultRoute s = Some r"
proof -
  show "fst (getRoute junk ip s) = Some r" by (simp add: getRoute_spec(1) [OF assms(1)] assms(2) spec_lookup_def best_single)
  show "getDefaultRoute s = Some r" using any.dflt [of "mTrie s"] assms by (simp add: getDefaultRoute_def table_ok_def)
qed

text \<open>A table with one route, made from a new one.\<close>

lemma add_first:
  assumes "new_ForwardingTable tv cv junk h = Some n" "h r = Some ri" "pf_ok (destination ri)"
  obtains s1 where "addRoute ub r True n = Some (FT_ROUTE_SUCCESS, s1)" "table_ok s1"
    "table s1 = [pf_bits (destination ri) \<mapsto> r]" "route_heap s1 = h"
proof -
  have n: "table_ok n" "route_heap n r = Some ri" "r \<notin> ran (table n)" using assms by (simp_all add: new_table_ok [OF assms(1)])
  show ?thesis
    by (rule addRoute_exact [where ub = ub, OF n(1,2) assms(3) n(3)])
      (simp_all add: new_table_ok [OF assms(1)] free_conflict_def that)
qed

text \<open>
  Routes that are not added longest prefix first replace each other, as the note at the head of
  \<open>util/tries/trie1.h\<close> warns and the description of \<open>addRoute\<close> does not.  When the table holds a default route and a route to any other prefix is
  added, the default route counts as the entry for that prefix: it is overwritten and deleted, and from
  then on every address is routed to the new route, which has become the default.
\<close>

theorem addRoute_replaces_default:
  assumes "h d = Some di" "pf_len (destination di) = 0" "h r = Some ri" "pf_ok (destination ri)" "d \<noteq> r"
    and new: "new_ForwardingTable trie_version cache_version junk h = Some s0"
  shows "\<exists>s1 s2. addRoute ub d True s0 = Some (FT_ROUTE_SUCCESS, s1) \<and>
    getDefaultRoute s1 = Some d \<and>
    addRoute ub r True s1 = Some (FT_ROUTE_OVERWRITTEN, s2) \<and> route_heap s2 d = None \<and>
    getDefaultRoute s2 = Some r \<and> (\<forall>ip. fst (getRoute stack ip s2) = Some r)"
proof -
  have d: "pf_ok (destination di)" "pf_bits (destination di) = []" using pf_bits_default [OF assms(2)] by simp_all
  obtain s1 where s1: "addRoute ub d True s0 = Some (FT_ROUTE_SUCCESS, s1)" "table_ok s1"
    "table s1 = [[] \<mapsto> d]" "route_heap s1 = h"
    by (rule add_first [where ub = ub, OF new assms(1) d(1)]) (simp add: d(2))
  have r: "route_heap s1 r = Some ri" "r \<notin> ran (table s1)" using s1(3,4) assms(3,5) by simp_all
  have c: "spec_insert (pf_bits (destination ri)) r True (table s1) = (Some d, [[] \<mapsto> r])"
    using s1(3) by (simp add: spec_insert_def best_single)
  obtain s2 where s2: "addRoute ub r True s1 = Some (FT_ROUTE_OVERWRITTEN, s2)" "table_ok s2" "table s2 = [[] \<mapsto> r]"
    "route_heap s2 = free_conflict (Some d) (route_heap s1)"
    by (rule addRoute_spec [where ub = ub, OF s1(2) r(1) assms(4) r(2) c]) simp
  then show ?thesis using s1(1) single_default [OF s1(2,3)] single_default [OF s2(2,3)] by (simp add: free_conflict_def)
qed

theorem addRoute_replaces_default_witness:
  "\<exists>s1 s2. addRoute 0 1 True (sample_table [1 \<mapsto> sample_route 0 0 9, 2 \<mapsto> sample_route 0x0A000000 8 1]) = Some (FT_ROUTE_SUCCESS, s1) \<and>
     addRoute 0 2 True s1 = Some (FT_ROUTE_OVERWRITTEN, s2) \<and> fst (getRoute (True, 0) 0x0B010203 s2) = Some 2"
proof -
  let ?h = "[1 \<mapsto> sample_route 0 0 9, 2 \<mapsto> sample_route 0x0A000000 8 1] :: nat \<Rightarrow> RouteInfo option"
  have "?h 1 = Some (sample_route 0 0 9)" "pf_len (destination (sample_route 0 0 9)) = 0"
    "?h 2 = Some (sample_route 0x0A000000 8 1)" "pf_ok (destination (sample_route 0x0A000000 8 1))" "(1 :: nat) \<noteq> 2"
    by (simp_all add: sample_route_def pf_ok_def)
  from addRoute_replaces_default [OF this sample_table_new, of 0 "(True, 0)"] show ?thesis by blast
qed



end
