(* ===== verification/Spec2Isabelle.thy ===== *)
theory Spec2Isabelle
  imports Csum Stp Switch Mac_Learning Packet_Queue Rconn_Safety Sim_Lookahead Sim_Activation
    Net_Forwarding
begin

text \<open>
  A verification library for S3F: the parallel simulation engine under \<open>src/full/api\<close>, the OpenFlow
  switch under \<open>src/full/openflowlib\<close>, which the S3FNet network simulator on top of the engine
  (\<open>src/full/s3fnet\<close>) links into its OpenFlow switch model, and the forwarding table of S3FNet.  File names
  of the switch are relative to \<open>src/full/openflowlib\<close>, the others to \<open>src/full\<close>.

  \<^bold>\<open>The engine.\<close>  A model is a set of entities, each aligned to a timeline, with processes, inchannels and
  outchannels.  A timeline is a thread with a clock and an event list; its processes schedule events for
  themselves (\<open>waitFor\<close>), wait at inchannels, and write messages to outchannels that are mapped to
  inchannels of the same or of another timeline.  The timelines run in synchronisation windows: before
  each window every timeline offers a time to a barrier, and the least of them is the edge up to which
  all of them may go, because no message from another timeline can arrive before it
  (\<open>api/timeline.cc\<close>, \<open>aux/barrier_mutex.cc\<close>).  An epoch (\<open>Interface::advance\<close>) is a sequence of windows.

  \<^bold>\<open>The switch.\<close>  A switch (\<open>switch/datapath.c\<close>) receives frames from devices, parses them into a flow
  (\<open>lib/flow.c\<close>), looks the flow up in a chain of tables (\<open>switch/chain.c\<close>, \<open>switch/table-linear.c\<close>,
  \<open>switch/table-hash.c\<close>), and executes the actions of the matching entry (\<open>switch/dp_act.c\<close> and the vendor
  actions \<open>er_act.c\<close>, \<open>nx_act.c\<close>), possibly through virtual ports (\<open>switch/switch-port.c\<close>, \<open>pt_act.c\<close>).
  A frame without a match is kept in a buffer and sent to the controller over a reliable connection
  (\<open>lib/rconn.c\<close> on \<open>lib/vconn.c\<close>), whose messages change the tables, ports and configuration.  The
  library has the spanning tree protocol (\<open>lib/stp.c\<close>) and MAC learning (\<open>lib/mac-learning.c\<close>) beside it.

  \<^bold>\<open>The forwarding table.\<close>  A simulated host routes a packet by the longest prefix of its destination
  address (\<open>s3fnet/src/net/forwardingtable.cc\<close>).  The routes are kept in a binary trie
  (\<open>s3fnet/src/util/tries\<close>) behind a cache (\<open>net/route_caches\<close>) that every change of the table invalidates.

  \<^bold>\<open>The theories.\<close>  Each models its sources operation by operation, with the records, early returns and
  byte-order mistakes of the code, and then proves what makes it correct, or exactly when it is not.

  \<^item> \<open>Prelude\<close>: machine words, byte order of the little-endian host, integers in byte arrays
    (\<open>lib/xtoxll.h\<close>), shared lemmas.
  \<^item> \<open>Csum\<close> (\<open>lib/csum.c\<close>): the Internet checksum against the plain sum of its words; when one
    folding of the carries is enough.
  \<^item> \<open>Crc_Hash\<close> (\<open>switch/crc32.c\<close>, \<open>lib/hash.c\<close>): the table-driven CRC is the bit-serial one.
  \<^item> \<open>Flow_Key\<close>, \<open>Flow_Store\<close> (\<open>switch/switch-flow.c\<close>, \<open>lib/flow.h\<close>): keys, wildcard matching and
    its meaning layer by layer, round trips between keys and protocol matches; flow entries in a heap of
    addresses, timeouts, and \<open>sw_table\<close>, the locale of the table interface of \<open>switch/table.h\<close>.
  \<^item> \<open>Table_Linear\<close>, \<open>Table_Hash\<close>, \<open>Chain\<close>: the tables and their chain.  Each table type and the
    dispatch over them interpret \<open>sw_table\<close>, so the chain's theorems (insertion, deletion, lookup, expiry)
    are proved once against the interface: which table takes an entry and what it replaces, and exactly
    which entries a deletion or the expiry removes.
  \<^item> \<open>Ofpbuf\<close> (\<open>lib/ofpbuf.c\<close>): packet buffers as an area with a window; they implement byte lists.
  \<^item> \<open>Flow_Extract\<close> (\<open>lib/flow.c\<close>): the parser against a parser on byte lists, and the frames on which
    it follows a null pointer.
  \<^item> \<open>Packet_Actions\<close>, \<open>Action_Lists\<close>: every action on packet headers, the execution of action lists
    against a plain execution, and their validation.
  \<^item> \<open>Vport\<close> (\<open>switch/switch-port.c\<close>): the table of virtual ports and the paths through it.
  \<^item> \<open>Datapath\<close>, \<open>Control\<close>, \<open>Replies\<close>, \<open>Statistics\<close>, \<open>Switch\<close> (\<open>switch/datapath.c\<close>): packet
    buffers and output, the handlers of the controller's messages, replies and statistics, and the life of
    a switch from \<open>dp_new\<close> over \<open>dp_run\<close> to \<open>dp_destroy\<close>.  \<open>dp_inv\<close> is the invariant, \<open>dp_reachable\<close> the
    states a switch can be in; the locales \<open>output_keeps\<close> and \<open>port_output_keeps\<close> carry the invariant
    through the recursion between tables and output.
  \<^item> \<open>Stp\<close> (\<open>lib/stp.c\<close>): the spanning tree protocol with its timers and messages as the step relation
    \<open>stp_reachable\<close>; safety of the topology, root selection, the way of a port to forwarding.
  \<^item> \<open>Linked_Lists\<close> (\<open>lib/list.c\<close>): circular lists in a store of pointers implement sequences; the
    interface is the locale \<open>list_store\<close>.  This is why the other theories may take such lists for lists
    of addresses.
  \<^item> \<open>Mac_Learning\<close> (\<open>lib/mac-learning.c\<close>): the table with its buckets and its list of all entries
    refines a bounded sequence ordered by last use.
  \<^item> \<open>Packet_Queue\<close> (\<open>lib/queue.c\<close>): linked packet queues are first in, first out.
  \<^item> \<open>Vconn\<close> (\<open>lib/vconn.c\<close>): version negotiation and messages over a transport; it always ends.
  \<^item> \<open>Rconn\<close>, \<open>Rconn_Safety\<close> (\<open>lib/rconn.c\<close>): the reconnecting state machine with its send queue;
    invariant, termination, counters, back-off, and the null pointer after a lost probe.
  \<^item> \<open>Sim_State\<close>, \<open>Sim_Channel\<close> (\<open>api/event.cc\<close>, \<open>process.cc\<close>, \<open>entity.cc\<close>, \<open>inchannel.cc\<close>,
    \<open>outchannel.cc\<close>, \<open>time/stl-eventlist.h\<close>): the objects of a simulation as stores of records in the
    record \<open>sim\<close>, and the operations a model may call.
  \<^item> \<open>Sim_Timeline\<close> (\<open>api/timeline.cc\<close>): execution of an event, with the body of a process as a list of
    calls of these operations; the end of a window; exchange of events between timelines.
  \<^item> \<open>Sim_Barrier\<close> (\<open>aux/barrier_mutex.cc\<close>, and the reduction in \<open>timeline.cc\<close>): what a round of the
    barrier computes, and when the reduction of the Linux build loses the minimum.
  \<^item> \<open>Sim_Engine\<close> (\<open>api/timeline.cc\<close>, \<open>api/interface.cc\<close>): construction and initialisation of a model
    (\<open>built\<close>), and all threads between the barriers as the step relation \<open>sim_step\<close>, for both barriers, for
    every interleaving and every choice the event list leaves open.
  \<^item> \<open>Sim_Causality\<close>, \<open>Sim_Windows\<close>: the invariant \<open>sim_inv\<close> of reachable states; causality, types of
    the event lists, safety of handles.  \<open>Sim_Lookahead\<close>: with the mutex barrier and mappings made before
    the run, no write is refused.  \<open>Sim_Livelock\<close>: how an epoch stops making progress with the barrier
    of the Linux build.  \<open>Sim_Activation\<close>: the order of waiting processes and which of them an arrival
    activates.
  \<^item> \<open>Net_Address\<close> (\<open>s3fnet/src/net/ip_prefix.cc\<close>): addresses and prefixes, as text and back; an address is
    in a prefix exactly if the bits of the prefix begin those of the address.
  \<^item> \<open>Net_Trie\<close> (\<open>s3fnet/src/util/tries/trie0.cc\<close>, \<open>trie1.cc\<close>): both tries implement maps from prefixes; the
    interface is the locale \<open>prefix_trie\<close>.
  \<^item> \<open>Net_Cache\<close> (\<open>s3fnet/src/net/route_caches\<close>): the three caches; the locale \<open>route_cache\<close> says what they
    promise.
  \<^item> \<open>Net_Forwarding\<close> (\<open>s3fnet/src/net/forwardingtable.cc\<close>): on top of \<open>prefix_trie\<close> and \<open>route_cache\<close>, the
    table with the original or the simple trie never uses a deleted route, its lookups are longest-prefix matching for routes added in the order
    the code asks for, and removing a route that is not there can destroy the default route.

  \<^bold>\<open>State, errors and loops.\<close>  State is passed explicitly; \<open>None\<close> is a failed assertion, an access outside of
  memory or an endless loop.  Loops that may run forever are \<open>partial_function (option)\<close>, with theorems
  that they return, or in the datapath a depth of recursion: \<open>dp_output_port\<close> carries it as an argument
  because an output to \<open>OFPP_TABLE\<close> runs a packet through the tables again; the theorems hold for every
  depth.  \<open>dp_output_port_from\<close> leaves the nested output beyond that depth to an argument, so that a
  recursion that goes on is told from an error: \<open>table_output_loops\<close> shows that for a flow that outputs to
  the table every depth ends in one more nested output.
  The number 50 of messages \<open>remote_run\<close> takes in one turn is the code's own.

  \<^bold>\<open>Environment.\<close>  Devices, connections, the clock and the allocator of the datapath are the record \<open>dp_env\<close>;
  within one step they answer alike to the same bytes.  The transport below \<open>Vconn\<close> is a record of
  functions over a state of the outside world; what its documentation promises is \<open>transport_ok\<close> and
  \<open>transport_opens\<close>.  The contents of fresh memory are arguments.

  \<^bold>\<open>Configuration of the engine.\<close>  Raw event and message pointers, no emulation, no composite
  synchronisation (its threshold is 0, and \<open>event_lists_typed\<close> shows that its events never occur), no stop
  function and no forced stop.  Times are integers in place of 64-bit ticks.  Addresses of new objects are
  fresh.  The body of a process is code of the model; the step relation allows every list of calls that
  keeps to the interface (\<open>legal\<close>: objects of its own timeline and any handles, no negative delay).  The
  body of an event is one step; a cancellation that other threads overtake is split into its test and its
  mark (\<open>handle_before\<close>, \<open>handle_mark\<close>), and any thread of a POSIX barrier may be the serial one.

  \<^bold>\<open>Not modelled.\<close>  Of the switch: sockets, devices, signals, the poll loop and program options (operating
  system input and output); printing and logging; DHCP, which configures the management port; the
  learning and MPLS controllers of \<open>lib/learning-switch.c\<close> and \<open>lib/mpls-switch.c\<close>, which the simulator
  does not link; the red-black tree of \<open>lib/red-black-tree.c\<close>, third-party code that is the map of the
  virtual port table.  Of the engine: virtual-time emulation, composite synchronisation, reference counts
  of messages, directories of names, random numbers, the barriers that the build does not select.  Of
  S3FNet: the protocol models, the configuration of routes from model files, the prefix-compressing and
  array-backed tries (versions 2 to 4 of the table's constructor), and the destructor of the table, which
  is undefined behaviour.  The model description language, and vendored code (METIS, FANN, Linux
  headers).
\<close>

end
